(* ===== verification/Prelude.thy ===== *)
theory Prelude
  imports Main "HOL-Library.Word"
begin

text \<open>
  What the components share: the machine integers of the C code, the layout of
  16- and 32-bit values as bytes, and the lemmas on words and byte lists that
  every later theory uses.  The collections:
  \<^item> \<open>byte_simps\<close>: reading back what was written, and the lengths of the encodings;
  \<^item> \<open>csp_defs\<close>: the definitions a component's proofs unfold.
\<close>

unbundle bit_operations_syntax

named_theorems byte_simps
named_theorems csp_defs

type_synonym u8 = "8 word"
type_synonym u16 = "16 word"
type_synonym u32 = "32 word"
type_synonym u64 = "64 word"

section \<open>Words by bytes\<close>

text \<open>Two words are equal when they agree on every byte: the bit index inside a byte
  stays below 8, so the simplifier can decide every shift.\<close>

lemma word16_byte_eqI:
  fixes v w :: u16
  assumes "\<And>n. n < 8 \<Longrightarrow> bit v n = bit w n"
    and "\<And>n. n < 8 \<Longrightarrow> bit v (n + 8) = bit w (n + 8)"
  shows "v = w"
proof (rule bit_word_eqI)
  fix n :: nat
  assume "n < LENGTH(16)"
  then consider "n < 8" | m where "m < 8" "n = m + 8"
    by (metis add.commute add_diff_inverse_nat len_num0 len_num1 len_bit0 less_diff_conv2
        linorder_not_less mult_2 numeral_Bit0 one_add_one nat_add_left_cancel_less)
  then show "bit v n = bit w n"
    by cases (simp_all add: assms)
qed

lemma nat_byte_cases32:
  fixes n :: nat
  assumes "n < 32"
  obtains "n < 8" | m where "m < 8" "n = m + 8" | m where "m < 8" "n = m + 16"
    | m where "m < 8" "n = m + 24"
proof -
  consider "n < 8" | "8 \<le> n" "n < 16" | "16 \<le> n" "n < 24" | "24 \<le> n" "n < 32"
    using assms by linarith
  then show thesis
  proof cases
    case 2 then show ?thesis using that(2) [of "n - 8"] by simp
  next
    case 3 then show ?thesis using that(3) [of "n - 16"] by simp
  next
    case 4 then show ?thesis using that(4) [of "n - 24"] by simp
  qed (use that(1) in simp)
qed

lemma word32_byte_eqI:
  fixes v w :: u32
  assumes "\<And>n. n < 8 \<Longrightarrow> bit v n = bit w n"
    and "\<And>n. n < 8 \<Longrightarrow> bit v (n + 8) = bit w (n + 8)"
    and "\<And>n. n < 8 \<Longrightarrow> bit v (n + 16) = bit w (n + 16)"
    and "\<And>n. n < 8 \<Longrightarrow> bit v (n + 24) = bit w (n + 24)"
  shows "v = w"
proof (rule bit_word_eqI)
  fix n :: nat
  assume "n < LENGTH(32)"
  then have "n < 32" by simp
  then show "bit v n = bit w n"
    by (cases rule: nat_byte_cases32) (simp_all add: assms)
qed

lemma word64_byte_eqI:
  fixes v w :: u64
  assumes "\<And>n. n < 8 \<Longrightarrow> bit v n = bit w n"
    and "\<And>n. n < 8 \<Longrightarrow> bit v (n + 8) = bit w (n + 8)"
    and "\<And>n. n < 8 \<Longrightarrow> bit v (n + 16) = bit w (n + 16)"
    and "\<And>n. n < 8 \<Longrightarrow> bit v (n + 24) = bit w (n + 24)"
    and "\<And>n. n < 8 \<Longrightarrow> bit v (n + 32) = bit w (n + 32)"
    and "\<And>n. n < 8 \<Longrightarrow> bit v (n + 40) = bit w (n + 40)"
    and "\<And>n. n < 8 \<Longrightarrow> bit v (n + 48) = bit w (n + 48)"
    and "\<And>n. n < 8 \<Longrightarrow> bit v (n + 56) = bit w (n + 56)"
  shows "v = w"
proof (rule bit_word_eqI)
  fix n :: nat
  assume "n < LENGTH(64)"
  then consider "n < 32" | "32 \<le> n" "n - 32 < 32" by fastforce
  then show "bit v n = bit w n"
  proof cases
    case 1
    then show ?thesis by (cases rule: nat_byte_cases32) (simp_all add: assms)
  next
    case 2
    from 2(2) have "bit v (n - 32 + 32) = bit w (n - 32 + 32)"
      by (cases rule: nat_byte_cases32) (simp_all add: assms assms [unfolded add.commute [of _ "numeral _"]])
    with 2(1) show ?thesis by simp
  qed
qed

section \<open>Byte layouts\<close>

text \<open>\<open>le32\<close> is how a little-endian host stores a \<open>uint32_t\<close>; \<open>be32\<close> is the network order.\<close>

definition le16 :: "u16 \<Rightarrow> u8 list" where
  "le16 w = [ucast w, ucast (drop_bit 8 w)]"

definition be16 :: "u16 \<Rightarrow> u8 list" where
  "be16 w = [ucast (drop_bit 8 w), ucast w]"

definition le32 :: "u32 \<Rightarrow> u8 list" where
  "le32 w = [ucast w, ucast (drop_bit 8 w), ucast (drop_bit 16 w), ucast (drop_bit 24 w)]"

definition be32 :: "u32 \<Rightarrow> u8 list" where
  "be32 w = [ucast (drop_bit 24 w), ucast (drop_bit 16 w), ucast (drop_bit 8 w), ucast w]"

fun of_le16 :: "u8 list \<Rightarrow> u16" where
  "of_le16 [a, b] = ucast a OR push_bit 8 (ucast b)"
| "of_le16 _ = 0"

fun of_le32 :: "u8 list \<Rightarrow> u32" where
  "of_le32 [a, b, c, d] =
     ucast a OR push_bit 8 (ucast b) OR push_bit 16 (ucast c) OR push_bit 24 (ucast d)"
| "of_le32 _ = 0"

definition of_be16 :: "u8 list \<Rightarrow> u16" where
  "of_be16 bs = of_le16 (rev bs)"

definition of_be32 :: "u8 list \<Rightarrow> u32" where
  "of_be32 bs = of_le32 (rev bs)"

lemma length_le16 [simp, byte_simps]: "length (le16 w) = 2"
  by (simp add: le16_def)

lemma length_be16 [simp, byte_simps]: "length (be16 w) = 2"
  by (simp add: be16_def)

lemma length_le32 [simp, byte_simps]: "length (le32 w) = 4"
  by (simp add: le32_def)

lemma length_be32 [simp, byte_simps]: "length (be32 w) = 4"
  by (simp add: be32_def)

lemma be32_nonempty [simp]: "be32 w \<noteq> []" "le32 w \<noteq> []"
  by (simp_all add: be32_def le32_def)

lemma rev_be16 [simp]: "rev (be16 w) = le16 w"
  by (simp add: be16_def le16_def)

lemma rev_be32 [simp]: "rev (be32 w) = le32 w"
  by (simp add: be32_def le32_def)

lemma of_le16_le16 [simp, byte_simps]: "of_le16 (le16 w) = w"
  unfolding le16_def of_le16.simps
  by (rule word16_byte_eqI) (simp_all add: bit_simps add.commute)

lemma of_le32_le32 [simp, byte_simps]: "of_le32 (le32 w) = w"
  unfolding le32_def of_le32.simps
  by (rule word32_byte_eqI) (simp_all add: bit_simps add.commute)

lemma of_be16_be16 [simp, byte_simps]: "of_be16 (be16 w) = w"
  by (simp add: of_be16_def)

lemma of_be32_be32 [simp, byte_simps]: "of_be32 (be32 w) = w"
  by (simp add: of_be32_def)

lemma byte_eqI:
  fixes v w :: u8
  assumes "\<And>n. n < 8 \<Longrightarrow> bit v n = bit w n"
  shows "v = w"
  using assms by (intro bit_word_eqI) simp

lemma bit_byte_ge [simp]: "8 \<le> n \<Longrightarrow> \<not> bit (w :: u8) n"
  using bit_imp_le_length [of w n] by auto

lemma length_2E: "length xs = 2 \<Longrightarrow> (\<And>a b. xs = [a, b] \<Longrightarrow> P) \<Longrightarrow> P"
  by (auto simp: numeral_2_eq_2 length_Suc_conv)

lemma length_4E: "length xs = 4 \<Longrightarrow> (\<And>a b c d. xs = [a, b, c, d] \<Longrightarrow> P) \<Longrightarrow> P"
  by (auto simp: eval_nat_numeral length_Suc_conv)

lemma le16_of_le16 [byte_simps]: "length bs = 2 \<Longrightarrow> le16 (of_le16 bs) = bs"
  by (erule length_2E) (auto simp: le16_def bit_simps intro!: byte_eqI)

lemma le32_of_le32 [byte_simps]: "length bs = 4 \<Longrightarrow> le32 (of_le32 bs) = bs"
  by (erule length_4E) (auto simp: le32_def bit_simps intro!: byte_eqI)

lemma be32_of_be32 [byte_simps]: "length bs = 4 \<Longrightarrow> be32 (of_be32 bs) = bs"
  by (metis le32_of_le32 length_rev of_be32_def rev_be32 rev_rev_ident)

lemma be32_inject [simp]: "be32 v = be32 w \<longleftrightarrow> v = w"
  by (metis of_be32_be32)

lemma le32_inject [simp]: "le32 v = le32 w \<longleftrightarrow> v = w"
  by (metis of_le32_le32)

section \<open>Reading and writing blocks of memory\<close>

text \<open>\<open>None\<close> is an access outside of the memory.\<close>

definition mem_read :: "nat \<Rightarrow> nat \<Rightarrow> u8 list \<Rightarrow> u8 list option" where
  "mem_read off n m = (if off + n \<le> length m then Some (take n (drop off m)) else None)"

definition mem_write :: "nat \<Rightarrow> u8 list \<Rightarrow> u8 list \<Rightarrow> u8 list option" where
  "mem_write off bs m =
     (if off + length bs \<le> length m then Some (take off m @ bs @ drop (off + length bs) m) else None)"

lemma mem_at: "length xs = k \<Longrightarrow> length ys = n \<Longrightarrow> mem_read k n (xs @ ys @ zs) = Some ys"
  by (simp add: mem_read_def)

lemma mem_set: "length xs = k \<Longrightarrow> length ys = length bs \<Longrightarrow> mem_write k bs (xs @ ys @ zs) = Some (xs @ bs @ zs)"
  by (simp add: mem_write_def)

section \<open>Exclusive or of byte lists\<close>

lemma xor_eq_0_iff: "v XOR w = (0 :: 'a::len word) \<longleftrightarrow> v = w"
  by (metis xor.assoc xor.left_neutral xor_self_eq xor.right_neutral)

lemma xor_cancel_right [simp]: "v XOR c = w XOR c \<longleftrightarrow> v = (w :: 'a::len word)"
  by (metis xor.assoc xor.right_neutral xor_self_eq)

lemma xor_cancel_left [simp]: "c XOR v = c XOR w \<longleftrightarrow> v = (w :: 'a::len word)"
  by (metis xor.commute xor_cancel_right)

definition xor_bytes :: "'a::semiring_bit_operations list \<Rightarrow> 'a list \<Rightarrow> 'a list" where
  "xor_bytes xs ys = map2 (XOR) xs ys"

lemma length_xor_bytes [simp]: "length (xor_bytes xs ys) = min (length xs) (length ys)"
  by (simp add: xor_bytes_def)

lemma xor_bytes_cancel:
  fixes xs ys :: "'n::len word list"
  shows "length xs \<le> length ys \<Longrightarrow> xor_bytes (xor_bytes xs ys) ys = xs"
  by (induction xs ys rule: list_induct2') (auto simp: xor_bytes_def xor.assoc)

section \<open>Updating one element of a list\<close>

text \<open>An update that keeps a field of the element keeps it everywhere in the list.\<close>

lemma nth_list_update_field:
  assumes "\<And>x. f (g x) = f x"
  shows "f (xs[i := g (xs ! i)] ! j) = f (xs ! j)"
proof (cases "i < length xs \<and> i = j")
  case False
  then have "xs[i := g (xs ! i)] ! j = xs ! j"
    by (cases "i < length xs") (auto simp: list_update_beyond)
  then show ?thesis by simp
qed (use assms in auto)

section \<open>The first element that satisfies a test\<close>

text \<open>The loops over the fixed arrays of the program stop at the first match.\<close>

fun find_index :: "('a \<Rightarrow> bool) \<Rightarrow> 'a list \<Rightarrow> nat option" where
  "find_index P [] = None"
| "find_index P (x # xs) = (if P x then Some 0 else map_option Suc (find_index P xs))"

lemma find_index_SomeD:
  "find_index P xs = Some i \<Longrightarrow> i < length xs \<and> P (xs ! i) \<and> (\<forall>j < i. \<not> P (xs ! j))"
proof (induction xs arbitrary: i)
  case (Cons x xs)
  then show ?case
    by (auto split: if_splits simp: less_Suc_eq_0_disj)
qed simp

lemma find_index_None_iff: "find_index P xs = None \<longleftrightarrow> (\<forall>x \<in> set xs. \<not> P x)"
  by (induction xs) auto

lemma find_index_unique:
  assumes "i < length xs" "P (xs ! i)" "\<And>j. j < length xs \<Longrightarrow> P (xs ! j) \<Longrightarrow> j = i"
  shows "find_index P xs = Some i"
proof (cases "find_index P xs")
  case None
  with assms(1,2) show ?thesis by (auto simp: find_index_None_iff)
next
  case (Some j)
  with find_index_SomeD [OF Some] assms(3) show ?thesis by auto
qed

lemma find_index_Some_iff:
  "find_index P xs = Some i \<longleftrightarrow> i < length xs \<and> P (xs ! i) \<and> (\<forall>j < i. \<not> P (xs ! j))"
proof
  assume r: "i < length xs \<and> P (xs ! i) \<and> (\<forall>j < i. \<not> P (xs ! j))"
  show "find_index P xs = Some i"
  proof (cases "find_index P xs")
    case None
    with r show ?thesis by (auto simp: find_index_None_iff)
  next
    case (Some j)
    with r find_index_SomeD [OF Some] show ?thesis
      by (metis linorder_neqE_nat)
  qed
qed (rule find_index_SomeD)

end
