(* ===== verification/CspTypes.thy ===== *)
theory CspTypes
  imports Prelude
begin

text \<open>
  The data of the CubeSat Space Protocol library: error codes
  (\<open>libcsp/include/csp/csp_error.h\<close>), the 32-bit packet identifier with its bit
  fields, the packet and the interface (\<open>libcsp/include/csp/csp_types.h\<close>).
  The configuration is the default of \<open>libcsp/source/CMakeLists.txt\<close>.
\<close>

section \<open>Error codes\<close>

definition CSP_ERR_NONE :: int where "CSP_ERR_NONE = 0"
definition CSP_ERR_NOMEM :: int where "CSP_ERR_NOMEM = - 1"
definition CSP_ERR_INVAL :: int where "CSP_ERR_INVAL = - 2"
definition CSP_ERR_TIMEDOUT :: int where "CSP_ERR_TIMEDOUT = - 3"
definition CSP_ERR_USED :: int where "CSP_ERR_USED = - 4"
definition CSP_ERR_NOTSUP :: int where "CSP_ERR_NOTSUP = - 5"
definition CSP_ERR_ALREADY :: int where "CSP_ERR_ALREADY = - 7"
definition CSP_ERR_RESET :: int where "CSP_ERR_RESET = - 8"
definition CSP_ERR_TX :: int where "CSP_ERR_TX = - 10"
definition CSP_ERR_DRIVER :: int where "CSP_ERR_DRIVER = - 11"
definition CSP_ERR_HMAC :: int where "CSP_ERR_HMAC = - 100"
definition CSP_ERR_XTEA :: int where "CSP_ERR_XTEA = - 101"
definition CSP_ERR_CRC32 :: int where "CSP_ERR_CRC32 = - 102"

lemmas csp_err_defs [csp_defs] =
  CSP_ERR_NONE_def CSP_ERR_NOMEM_def CSP_ERR_INVAL_def CSP_ERR_TIMEDOUT_def CSP_ERR_USED_def
  CSP_ERR_NOTSUP_def CSP_ERR_XTEA_def CSP_ERR_CRC32_def CSP_ERR_ALREADY_def CSP_ERR_RESET_def CSP_ERR_TX_def CSP_ERR_DRIVER_def CSP_ERR_HMAC_def

section \<open>Bit fields\<close>

text \<open>A bit field of \<open>sz\<close> bits at offset \<open>off\<close> of a 32-bit word, as a little-endian C
  compiler lays out the fields of \<open>csp_id_t\<close>: a write keeps the low \<open>sz\<close> bits of the value.\<close>

definition get_field :: "nat \<Rightarrow> nat \<Rightarrow> u32 \<Rightarrow> u32" where
  "get_field off sz w = take_bit sz (drop_bit off w)"

definition set_field :: "nat \<Rightarrow> nat \<Rightarrow> u32 \<Rightarrow> u32 \<Rightarrow> u32" where
  "set_field off sz v w =
     (w AND NOT (push_bit off (mask sz))) OR push_bit off (take_bit sz v)"

lemma bit_get_field: "bit (get_field off sz w) n \<longleftrightarrow> n < sz \<and> bit w (off + n)"
  by (simp add: get_field_def bit_simps)

lemma bit_set_field: "bit (set_field off sz v w) n \<longleftrightarrow> n < 32 \<and>
    (if off \<le> n \<and> n < off + sz then bit v (n - off) else bit w n)"
  using bit_imp_le_length [of w n]
  by (auto simp: set_field_def bit_simps)

lemma get_set_field_same:
  "off + sz \<le> 32 \<Longrightarrow> get_field off sz (set_field off sz v w) = take_bit sz v"
  by (rule bit_word_eqI) (auto simp: bit_get_field bit_set_field bit_simps)

lemma get_set_field_other:
  "off + sz \<le> off' \<or> off' + sz' \<le> off \<Longrightarrow>
     get_field off sz (set_field off' sz' v w) = get_field off sz w"
  by (rule bit_word_eqI) (auto simp: bit_get_field bit_set_field dest: bit_imp_le_length)

section \<open>The packet identifier\<close>

type_synonym csp_id = u32

definition id_flags :: "csp_id \<Rightarrow> u8" where "id_flags w = ucast (get_field 0 8 w)"
definition id_sport :: "csp_id \<Rightarrow> u8" where "id_sport w = ucast (get_field 8 6 w)"
definition id_dport :: "csp_id \<Rightarrow> u8" where "id_dport w = ucast (get_field 14 6 w)"
definition id_dst :: "csp_id \<Rightarrow> u8" where "id_dst w = ucast (get_field 20 5 w)"
definition id_src :: "csp_id \<Rightarrow> u8" where "id_src w = ucast (get_field 25 5 w)"
definition id_pri :: "csp_id \<Rightarrow> u8" where "id_pri w = ucast (get_field 30 2 w)"

definition set_flags :: "u8 \<Rightarrow> csp_id \<Rightarrow> csp_id" where "set_flags v = set_field 0 8 (ucast v)"
definition set_sport :: "u8 \<Rightarrow> csp_id \<Rightarrow> csp_id" where "set_sport v = set_field 8 6 (ucast v)"
definition set_dport :: "u8 \<Rightarrow> csp_id \<Rightarrow> csp_id" where "set_dport v = set_field 14 6 (ucast v)"
definition set_dst :: "u8 \<Rightarrow> csp_id \<Rightarrow> csp_id" where "set_dst v = set_field 20 5 (ucast v)"
definition set_src :: "u8 \<Rightarrow> csp_id \<Rightarrow> csp_id" where "set_src v = set_field 25 5 (ucast v)"
definition set_pri :: "u8 \<Rightarrow> csp_id \<Rightarrow> csp_id" where "set_pri v = set_field 30 2 (ucast v)"

lemmas id_get_defs = id_flags_def id_sport_def id_dport_def id_dst_def id_src_def id_pri_def
lemmas id_set_defs = set_flags_def set_sport_def set_dport_def set_dst_def set_src_def set_pri_def

lemma ucast_take_bit_8: "n \<le> 8 \<Longrightarrow> ucast (take_bit n (ucast (v :: u8) :: u32)) = take_bit n v"
  by (rule bit_word_eqI) (auto simp: bit_simps)

lemma id_get_set_same [simp]:
  "id_flags (set_flags v w) = v"
  "id_sport (set_sport v w) = take_bit 6 v"
  "id_dport (set_dport v w) = take_bit 6 v"
  "id_dst (set_dst v w) = take_bit 5 v"
  "id_src (set_src v w) = take_bit 5 v"
  "id_pri (set_pri v w) = take_bit 2 v"
proof -
  have "take_bit 8 v = v" by (rule byte_eqI) (simp add: bit_simps)
  then show "id_flags (set_flags v w) = v"
    by (simp add: id_get_defs id_set_defs get_set_field_same ucast_take_bit_8)
qed (simp_all add: id_get_defs id_set_defs get_set_field_same ucast_take_bit_8)

lemma id_get_set_other [simp]:
  "id_flags (set_sport v w) = id_flags w" "id_flags (set_dport v w) = id_flags w"
  "id_flags (set_dst v w) = id_flags w" "id_flags (set_src v w) = id_flags w"
  "id_flags (set_pri v w) = id_flags w"
  "id_sport (set_flags v w) = id_sport w" "id_sport (set_dport v w) = id_sport w"
  "id_sport (set_dst v w) = id_sport w" "id_sport (set_src v w) = id_sport w"
  "id_sport (set_pri v w) = id_sport w"
  "id_dport (set_flags v w) = id_dport w" "id_dport (set_sport v w) = id_dport w"
  "id_dport (set_dst v w) = id_dport w" "id_dport (set_src v w) = id_dport w"
  "id_dport (set_pri v w) = id_dport w"
  "id_dst (set_flags v w) = id_dst w" "id_dst (set_sport v w) = id_dst w"
  "id_dst (set_dport v w) = id_dst w" "id_dst (set_src v w) = id_dst w"
  "id_dst (set_pri v w) = id_dst w"
  "id_src (set_flags v w) = id_src w" "id_src (set_sport v w) = id_src w"
  "id_src (set_dport v w) = id_src w" "id_src (set_dst v w) = id_src w"
  "id_src (set_pri v w) = id_src w"
  "id_pri (set_flags v w) = id_pri w" "id_pri (set_sport v w) = id_pri w"
  "id_pri (set_dport v w) = id_pri w" "id_pri (set_dst v w) = id_pri w"
  "id_pri (set_src v w) = id_pri w"
  by (simp_all add: id_get_defs id_set_defs get_set_field_other)

text \<open>The six fields determine the identifier: nothing is stored outside them.\<close>

lemma get_field_eqD: "get_field off sz v = get_field off sz w \<Longrightarrow> n < sz \<Longrightarrow>
    bit v (off + n) = bit w (off + n)"
  by (metis bit_get_field)

lemma ucast_get_field_inject:
  "sz \<le> 8 \<Longrightarrow> (ucast (get_field off sz v) :: u8) = ucast (get_field off sz w) \<Longrightarrow>
     get_field off sz v = get_field off sz w"
proof (rule bit_word_eqI)
  fix n assume "sz \<le> 8" and eq: "(ucast (get_field off sz v) :: u8) = ucast (get_field off sz w)"
  show "bit (get_field off sz v) n = bit (get_field off sz w) n"
  proof (cases "n < sz")
    case True
    with \<open>sz \<le> 8\<close> have "n < 8" by simp
    moreover have "bit (ucast (get_field off sz v) :: u8) n = bit (ucast (get_field off sz w) :: u8) n"
      by (simp only: eq)
    ultimately show ?thesis by (simp add: bit_simps)
  qed (simp add: bit_get_field)
qed

lemma csp_id_eqI:
  assumes "id_flags v = id_flags w" "id_sport v = id_sport w" "id_dport v = id_dport w"
    "id_dst v = id_dst w" "id_src v = id_src w" "id_pri v = id_pri w"
  shows "v = w"
proof (rule bit_word_eqI)
  fix n :: nat assume "n < LENGTH(32)"
  then consider "n < 8" | "8 \<le> n" "n < 14" | "14 \<le> n" "n < 20" | "20 \<le> n" "n < 25"
    | "25 \<le> n" "n < 30" | "30 \<le> n" "n < 32" by fastforce
  then show "bit v n = bit w n"
  proof cases
    case 1 then show ?thesis
      using get_field_eqD [OF ucast_get_field_inject [of 8 0 v w], of n] assms by (simp add: id_get_defs)
  next
    case 2 then show ?thesis
      using get_field_eqD [OF ucast_get_field_inject [of 6 8 v w], of "n - 8"] assms by (simp add: id_get_defs)
  next
    case 3 then show ?thesis
      using get_field_eqD [OF ucast_get_field_inject [of 6 14 v w], of "n - 14"] assms by (simp add: id_get_defs)
  next
    case 4 then show ?thesis
      using get_field_eqD [OF ucast_get_field_inject [of 5 20 v w], of "n - 20"] assms by (simp add: id_get_defs)
  next
    case 5 then show ?thesis
      using get_field_eqD [OF ucast_get_field_inject [of 5 25 v w], of "n - 25"] assms by (simp add: id_get_defs)
  next
    case 6 then show ?thesis
      using get_field_eqD [OF ucast_get_field_inject [of 2 30 v w], of "n - 30"] assms by (simp add: id_get_defs)
  qed
qed

section \<open>Masks and flags\<close>

definition CSP_ID_PRIO_MASK :: csp_id where "CSP_ID_PRIO_MASK = push_bit 30 (mask 2)"
definition CSP_ID_SRC_MASK :: csp_id where "CSP_ID_SRC_MASK = push_bit 25 (mask 5)"
definition CSP_ID_DST_MASK :: csp_id where "CSP_ID_DST_MASK = push_bit 20 (mask 5)"
definition CSP_ID_DPORT_MASK :: csp_id where "CSP_ID_DPORT_MASK = push_bit 14 (mask 6)"
definition CSP_ID_SPORT_MASK :: csp_id where "CSP_ID_SPORT_MASK = push_bit 8 (mask 6)"
definition CSP_ID_FLAGS_MASK :: csp_id where "CSP_ID_FLAGS_MASK = mask 8"

definition CSP_ID_CONN_MASK :: csp_id where
  "CSP_ID_CONN_MASK = CSP_ID_SRC_MASK OR CSP_ID_DST_MASK OR CSP_ID_DPORT_MASK OR CSP_ID_SPORT_MASK"

lemmas csp_id_mask_defs = CSP_ID_SRC_MASK_def CSP_ID_DST_MASK_def CSP_ID_DPORT_MASK_def
  CSP_ID_SPORT_MASK_def CSP_ID_CONN_MASK_def

lemma bit_conn_mask: "bit CSP_ID_CONN_MASK n \<longleftrightarrow> 8 \<le> n \<and> n < 30"
  by (auto simp: csp_id_mask_defs bit_simps)

lemma conn_mask_fields [simp]:
  "id_sport (w AND CSP_ID_CONN_MASK) = id_sport w" "id_dport (w AND CSP_ID_CONN_MASK) = id_dport w"
  "id_dst (w AND CSP_ID_CONN_MASK) = id_dst w" "id_src (w AND CSP_ID_CONN_MASK) = id_src w"
  "id_flags (w AND CSP_ID_CONN_MASK) = 0" "id_pri (w AND CSP_ID_CONN_MASK) = 0"
  by (rule bit_word_eqI, auto simp: id_get_defs bit_get_field bit_conn_mask bit_simps)+

text \<open>Comparing two identifiers under the connection mask compares the two end points.\<close>

lemma conn_mask_eq_iff:
  "v AND CSP_ID_CONN_MASK = w AND CSP_ID_CONN_MASK \<longleftrightarrow>
     id_sport v = id_sport w \<and> id_dport v = id_dport w \<and> id_dst v = id_dst w \<and> id_src v = id_src w"
  (is "?l \<longleftrightarrow> ?r")
proof
  assume ?l
  then show ?r using conn_mask_fields(1-4) by metis
next
  assume ?r
  then show ?l by (intro csp_id_eqI) simp_all
qed

definition CSP_BROADCAST_ADDR :: u8 where "CSP_BROADCAST_ADDR = 31"
definition CSP_DEFAULT_ROUTE :: nat where "CSP_DEFAULT_ROUTE = 32"

definition CSP_FFRAG :: u8 where "CSP_FFRAG = 0x10"
definition CSP_FHMAC :: u8 where "CSP_FHMAC = 0x08"
definition CSP_FXTEA :: u8 where "CSP_FXTEA = 0x04"
definition CSP_FRDP :: u8 where "CSP_FRDP = 0x02"
definition CSP_FCRC32 :: u8 where "CSP_FCRC32 = 0x01"

definition CSP_SO_RDPREQ :: u32 where "CSP_SO_RDPREQ = 0x0001"
definition CSP_SO_RDPPROHIB :: u32 where "CSP_SO_RDPPROHIB = 0x0002"
definition CSP_SO_HMACREQ :: u32 where "CSP_SO_HMACREQ = 0x0004"
definition CSP_SO_HMACPROHIB :: u32 where "CSP_SO_HMACPROHIB = 0x0008"
definition CSP_SO_XTEAREQ :: u32 where "CSP_SO_XTEAREQ = 0x0010"
definition CSP_SO_XTEAPROHIB :: u32 where "CSP_SO_XTEAPROHIB = 0x0020"
definition CSP_SO_CRC32REQ :: u32 where "CSP_SO_CRC32REQ = 0x0040"
definition CSP_SO_CRC32PROHIB :: u32 where "CSP_SO_CRC32PROHIB = 0x0080"
definition CSP_SO_CONN_LESS :: u32 where "CSP_SO_CONN_LESS = 0x0100"

lemmas csp_flag_defs [csp_defs] = CSP_FFRAG_def CSP_FHMAC_def CSP_FXTEA_def CSP_FRDP_def CSP_FCRC32_def
lemmas csp_so_defs [csp_defs] = CSP_SO_RDPREQ_def CSP_SO_RDPPROHIB_def CSP_SO_HMACREQ_def
  CSP_SO_HMACPROHIB_def CSP_SO_XTEAREQ_def CSP_SO_XTEAPROHIB_def CSP_SO_CRC32REQ_def
  CSP_SO_CRC32PROHIB_def CSP_SO_CONN_LESS_def

definition has_flag :: "u8 \<Rightarrow> csp_id \<Rightarrow> bool" where
  "has_flag f w \<longleftrightarrow> id_flags w AND f \<noteq> 0"

definition add_flag :: "u8 \<Rightarrow> csp_id \<Rightarrow> csp_id" where
  "add_flag f w = set_flags (id_flags w OR f) w"

definition clear_flag :: "u8 \<Rightarrow> csp_id \<Rightarrow> csp_id" where
  "clear_flag f w = set_flags (id_flags w AND NOT f) w"

section \<open>Packets and interfaces\<close>

text \<open>\<open>pkt_data\<close> is \<open>data[0 .. length - 1]\<close>, so \<open>packet->length\<close> is its length; \<open>pkt_cap\<close> is the
  number of data bytes the buffer of the packet holds.  \<open>pkt_quarantine\<close> and \<open>pkt_timestamp\<close>
  are the overlay of \<open>rdp_packet_t\<close> on the padding.\<close>

record csp_packet =
  pkt_id :: csp_id
  pkt_data :: "u8 list"
  pkt_cap :: nat
  pkt_quarantine :: u32
  pkt_timestamp :: u32

definition pkt_length :: "csp_packet \<Rightarrow> nat" where
  "pkt_length p = length (pkt_data p)"

definition pkt_ok :: "csp_packet \<Rightarrow> bool" where
  "pkt_ok p \<longleftrightarrow> pkt_length p \<le> pkt_cap p \<and> pkt_cap p < 2 ^ 16"

text \<open>Writing behind the data (\<open>memcpy(&packet->data[packet->length], ...)\<close> and the new length):
  outside the buffer it is undefined in C, which is \<open>None\<close>.\<close>

definition pkt_append :: "u8 list \<Rightarrow> csp_packet \<Rightarrow> csp_packet option" where
  "pkt_append bs p =
     (if pkt_length p + length bs \<le> pkt_cap p then Some (p\<lparr>pkt_data := pkt_data p @ bs\<rparr>) else None)"

lemma pkt_ok_append: "pkt_ok p \<Longrightarrow> pkt_append bs p = Some q \<Longrightarrow> pkt_ok q"
  by (auto simp: pkt_ok_def pkt_append_def pkt_length_def split: if_splits)

text \<open>The packet from its \<open>id\<close> field on, as the bytes in memory.\<close>

definition pkt_header_data :: "csp_packet \<Rightarrow> u8 list" where
  "pkt_header_data p = le32 (pkt_id p) @ pkt_data p"

text \<open>The counters of \<open>csp_iface_t\<close>; the transmit function is a parameter of its users, and the
  list of interfaces is a HOL list.\<close>

record csp_iface =
  if_name :: string
  if_mtu :: u16
  if_split_horizon_off :: bool
  if_tx :: u32
  if_rx :: u32
  if_tx_error :: u32
  if_rx_error :: u32
  if_drop :: u32
  if_autherr :: u32
  if_frame :: u32
  if_txbytes :: u32
  if_rxbytes :: u32

end
