(* ===== verification/CspEndian.thy ===== *)
theory CspEndian
  imports CspTypes
begin

text \<open>
  Byte order (\<open>libcsp/source/csp_endian.c\<close>), on a little-endian host.  The functions are the
  masks and shifts of the source; the lemmas relate them to the byte layouts of the prelude.
  The float and double variants convert the bits of the value, so they are the functions
  on 32- and 64-bit words.
\<close>

definition csp_hton16 :: "u16 \<Rightarrow> u16" where
  "csp_hton16 h16 = drop_bit 8 (h16 AND 0xff00) OR push_bit 8 (h16 AND 0x00ff)"

definition csp_ntoh16 :: "u16 \<Rightarrow> u16" where "csp_ntoh16 n16 = csp_hton16 n16"

definition csp_hton32 :: "u32 \<Rightarrow> u32" where
  "csp_hton32 h32 =
     drop_bit 24 (h32 AND 0xff000000) OR push_bit 24 (h32 AND 0x000000ff) OR
     push_bit 8 (h32 AND 0x0000ff00) OR drop_bit 8 (h32 AND 0x00ff0000)"

definition csp_ntoh32 :: "u32 \<Rightarrow> u32" where "csp_ntoh32 n32 = csp_hton32 n32"

definition csp_hton64 :: "u64 \<Rightarrow> u64" where
  "csp_hton64 h64 =
     drop_bit 56 (h64 AND 0xff00000000000000) OR push_bit 56 (h64 AND 0x00000000000000ff) OR
     drop_bit 40 (h64 AND 0x00ff000000000000) OR push_bit 40 (h64 AND 0x000000000000ff00) OR
     drop_bit 24 (h64 AND 0x0000ff0000000000) OR push_bit 24 (h64 AND 0x0000000000ff0000) OR
     drop_bit 8 (h64 AND 0x000000ff00000000) OR push_bit 8 (h64 AND 0x00000000ff000000)"

definition csp_ntoh64 :: "u64 \<Rightarrow> u64" where "csp_ntoh64 n64 = csp_hton64 n64"

definition csp_htobe16 :: "u16 \<Rightarrow> u16" where "csp_htobe16 h16 = csp_hton16 h16"
definition csp_htole16 :: "u16 \<Rightarrow> u16" where "csp_htole16 h16 = h16"
definition csp_betoh16 :: "u16 \<Rightarrow> u16" where "csp_betoh16 n16 = csp_ntoh16 n16"
definition csp_letoh16 :: "u16 \<Rightarrow> u16" where "csp_letoh16 n16 = csp_htole16 n16"
definition csp_htobe32 :: "u32 \<Rightarrow> u32" where "csp_htobe32 h32 = csp_hton32 h32"
definition csp_htole32 :: "u32 \<Rightarrow> u32" where "csp_htole32 h32 = h32"
definition csp_betoh32 :: "u32 \<Rightarrow> u32" where "csp_betoh32 n32 = csp_ntoh32 n32"
definition csp_letoh32 :: "u32 \<Rightarrow> u32" where "csp_letoh32 n32 = csp_htole32 n32"
definition csp_htobe64 :: "u64 \<Rightarrow> u64" where "csp_htobe64 h64 = csp_hton64 h64"
definition csp_htole64 :: "u64 \<Rightarrow> u64" where "csp_htole64 h64 = h64"
definition csp_betoh64 :: "u64 \<Rightarrow> u64" where "csp_betoh64 n64 = csp_ntoh64 n64"
definition csp_letoh64 :: "u64 \<Rightarrow> u64" where "csp_letoh64 n64 = csp_htole64 n64"
definition csp_htonflt :: "u32 \<Rightarrow> u32" where "csp_htonflt f = csp_hton32 f"
definition csp_ntohflt :: "u32 \<Rightarrow> u32" where "csp_ntohflt f = csp_htonflt f"
definition csp_htondbl :: "u64 \<Rightarrow> u64" where "csp_htondbl d = csp_hton64 d"
definition csp_ntohdbl :: "u64 \<Rightarrow> u64" where "csp_ntohdbl d = csp_htondbl d"

lemmas csp_endian_defs [csp_defs] = csp_ntoh16_def csp_ntoh32_def csp_ntoh64_def
  csp_htobe16_def csp_htole16_def csp_betoh16_def csp_letoh16_def
  csp_htobe32_def csp_htole32_def csp_betoh32_def csp_letoh32_def
  csp_htobe64_def csp_htole64_def csp_betoh64_def csp_letoh64_def
  csp_htonflt_def csp_ntohflt_def csp_htondbl_def csp_ntohdbl_def

section \<open>The masks are the bytes\<close>

text \<open>A mask \<open>0xff << k\<close> selects one byte; stated on the numerals of the source.\<close>

lemma numeral_byte_masks:
  "(0xff :: 'a::len word) = mask 8" "(0xff00 :: 'a word) = push_bit 8 (mask 8)"
  "(0xff0000 :: 'a word) = push_bit 16 (mask 8)" "(0xff000000 :: 'a word) = push_bit 24 (mask 8)"
  "(0xff00000000 :: 'a word) = push_bit 32 (mask 8)"
  "(0xff0000000000 :: 'a word) = push_bit 40 (mask 8)"
  "(0xff000000000000 :: 'a word) = push_bit 48 (mask 8)"
  "(0xff00000000000000 :: 'a word) = push_bit 56 (mask 8)"
  by (simp_all add: mask_eq_exp_minus_1 push_bit_eq_mult)

lemma bit_csp_hton16:
  assumes "n < 8"
  shows "bit (csp_hton16 w) n = bit w (n + 8)" "bit (csp_hton16 w) (n + 8) = bit w n"
  using assms by (simp_all add: csp_hton16_def numeral_byte_masks bit_simps add.commute)

lemma bit_csp_hton32:
  assumes "n < 8"
  shows "bit (csp_hton32 w) n = bit w (n + 24)" "bit (csp_hton32 w) (n + 8) = bit w (n + 16)"
    "bit (csp_hton32 w) (n + 16) = bit w (n + 8)" "bit (csp_hton32 w) (n + 24) = bit w n"
  using assms by (simp_all add: csp_hton32_def numeral_byte_masks bit_simps add.commute)

lemma bit_csp_hton64:
  assumes "n < 8"
  shows "bit (csp_hton64 w) n = bit w (n + 56)" "bit (csp_hton64 w) (n + 8) = bit w (n + 48)"
    "bit (csp_hton64 w) (n + 16) = bit w (n + 40)" "bit (csp_hton64 w) (n + 24) = bit w (n + 32)"
    "bit (csp_hton64 w) (n + 32) = bit w (n + 24)" "bit (csp_hton64 w) (n + 40) = bit w (n + 16)"
    "bit (csp_hton64 w) (n + 48) = bit w (n + 8)" "bit (csp_hton64 w) (n + 56) = bit w n"
  using assms by (simp_all add: csp_hton64_def numeral_byte_masks bit_simps add.commute)

section \<open>Conversion there and back\<close>

lemma csp_ntoh16_hton16 [simp]: "csp_hton16 (csp_hton16 w) = w"
  by (rule word16_byte_eqI) (simp_all add: bit_csp_hton16)

lemma csp_ntoh32_hton32 [simp]: "csp_hton32 (csp_hton32 w) = w"
  by (rule word32_byte_eqI) (simp_all add: bit_csp_hton32)

lemma csp_ntoh64_hton64 [simp]: "csp_hton64 (csp_hton64 w) = w"
  by (rule word64_byte_eqI) (simp_all add: bit_csp_hton64)

lemma csp_hton32_inject [simp]: "csp_hton32 v = csp_hton32 w \<longleftrightarrow> v = w"
  by (metis csp_ntoh32_hton32)

text \<open>A host word converted by \<open>csp_hton\<close> and stored little-endian is big-endian on the wire.\<close>

lemma le16_csp_hton16 [simp, byte_simps]: "le16 (csp_hton16 w) = be16 w"
  unfolding le16_def be16_def list.inject
  by (intro conjI byte_eqI) (simp_all add: bit_csp_hton16 bit_simps add.commute [of 8])

lemma le32_csp_hton32 [simp, byte_simps]: "le32 (csp_hton32 w) = be32 w"
  unfolding le32_def be32_def list.inject
  by (intro conjI byte_eqI)
    (simp_all add: bit_csp_hton32 bit_simps add.commute [of 8] add.commute [of 16] add.commute [of 24])

text \<open>Every network conversion of the library is undone by its inverse, on 16, 32 and 64
  bits and on the bit patterns of floats and doubles; the little-endian ones are the identity,
  and what the 32-bit conversion puts in memory is the big-endian encoding.\<close>

theorem csp_endian_round_trip:
  "csp_ntoh16 (csp_hton16 a) = a \<and> csp_ntoh32 (csp_hton32 b) = b \<and> csp_ntoh64 (csp_hton64 c) = c \<and>
   csp_betoh16 (csp_htobe16 a) = a \<and> csp_betoh32 (csp_htobe32 b) = b \<and> csp_betoh64 (csp_htobe64 c) = c \<and>
   csp_letoh16 (csp_htole16 a) = a \<and> csp_letoh32 (csp_htole32 b) = b \<and> csp_letoh64 (csp_htole64 c) = c \<and>
   csp_ntohflt (csp_htonflt b) = b \<and> csp_ntohdbl (csp_htondbl c) = c \<and>
   le16 (csp_htobe16 a) = be16 a \<and> le32 (csp_htobe32 b) = be32 b"
  by (simp add: csp_endian_defs)

end
