(* ===== verification/CspBuffer.thy ===== *)
theory CspBuffer
  imports CspTypes
begin

text \<open>
  The packet buffers (\<open>libcsp/source/csp_buffer.c\<close>): a pool of \<open>count\<close> buffers with a reference
  count each and a queue of the free ones.  A buffer pointer is the index of its buffer, \<open>None\<close> is
  \<open>NULL\<close>; \<open>skbf_addr\<close> is the self pointer the code checks for corruption.  Pointers that are not
  aligned or point into the middle of a buffer are not modelled.  The payload of a buffer stays
  what it was when the buffer is freed and handed out again, as in memory.
\<close>

record csp_skbf =
  skbf_refcount :: nat
  skbf_addr :: nat
  skbf_packet :: csp_packet

record buffer_pool =
  pool_count :: nat
  pool_size :: nat
  pool_bufs :: "csp_skbf list"
  pool_free :: "nat list"

text \<open>The size of \<open>csp_packet_t\<close> without its data: padding, length and identifier.\<close>

definition CSP_BUFFER_PACKET_OVERHEAD :: nat where "CSP_BUFFER_PACKET_OVERHEAD = 14"

definition empty_packet :: "nat \<Rightarrow> csp_packet" where
  "empty_packet cap = \<lparr>pkt_id = 0, pkt_data = [], pkt_cap = cap, pkt_quarantine = 0, pkt_timestamp = 0\<rparr>"

text \<open>\<open>csp_buffer_init\<close>: the two allocations and the lock may fail (\<open>mem_ok\<close>); otherwise every buffer
  is put into the queue of length \<open>count\<close>.\<close>

definition csp_buffer_init :: "bool \<Rightarrow> nat \<Rightarrow> nat \<Rightarrow> int \<times> buffer_pool option" where
  "csp_buffer_init mem_ok buf_count buf_size =
     (if \<not> mem_ok then (CSP_ERR_NOMEM, None)
      else (CSP_ERR_NONE,
        Some \<lparr>pool_count = buf_count, pool_size = buf_size + CSP_BUFFER_PACKET_OVERHEAD,
          pool_bufs = map (\<lambda>i. \<lparr>skbf_refcount = 0, skbf_addr = i, skbf_packet = empty_packet buf_size\<rparr>)
                        [0..<buf_count],
          pool_free = [0..<buf_count]\<rparr>))"

definition csp_buffer_get :: "nat \<Rightarrow> buffer_pool \<Rightarrow> nat option \<times> buffer_pool" where
  "csp_buffer_get buf_size p =
     (if buf_size + CSP_BUFFER_PACKET_OVERHEAD > pool_size p then (None, p)
      else case pool_free p of
        [] \<Rightarrow> (None, p)
      | buffer # rest \<Rightarrow>
          let p = p\<lparr>pool_free := rest\<rparr>; b = pool_bufs p ! buffer in
          if skbf_addr b \<noteq> buffer then (None, p)
          else (Some buffer,
            p\<lparr>pool_bufs := (pool_bufs p)[buffer := b\<lparr>skbf_refcount := skbf_refcount b + 1\<rparr>]\<rparr>))"

text \<open>The variant for interrupts differs only in how it takes the queue's lock.\<close>

definition csp_buffer_get_isr :: "nat \<Rightarrow> buffer_pool \<Rightarrow> nat option \<times> buffer_pool" where
  "csp_buffer_get_isr buf_size p = csp_buffer_get buf_size p"

text \<open>The free queue has room for \<open>count\<close> entries; an enqueue beyond that is dropped.\<close>

definition csp_buffer_free :: "nat option \<Rightarrow> buffer_pool \<Rightarrow> buffer_pool" where
  "csp_buffer_free packet p =
     (case packet of None \<Rightarrow> p
      | Some buf \<Rightarrow>
          if pool_count p \<le> buf then p
          else let b = pool_bufs p ! buf in
            if skbf_addr b \<noteq> buf then p
            else if skbf_refcount b = 0 then p
            else if skbf_refcount b > 1 then
              p\<lparr>pool_bufs := (pool_bufs p)[buf := b\<lparr>skbf_refcount := skbf_refcount b - 1\<rparr>]\<rparr>
            else
              p\<lparr>pool_bufs := (pool_bufs p)[buf := b\<lparr>skbf_refcount := 0\<rparr>],
                pool_free := (if length (pool_free p) < pool_count p then pool_free p @ [buf]
                              else pool_free p)\<rparr>)"

definition csp_buffer_free_isr :: "nat option \<Rightarrow> buffer_pool \<Rightarrow> buffer_pool" where
  "csp_buffer_free_isr packet p = csp_buffer_free packet p"

definition buf_packet :: "buffer_pool \<Rightarrow> nat \<Rightarrow> csp_packet" where
  "buf_packet p i = skbf_packet (pool_bufs p ! i)"

definition set_packet :: "nat \<Rightarrow> csp_packet \<Rightarrow> buffer_pool \<Rightarrow> buffer_pool" where
  "set_packet i pk p = p\<lparr>pool_bufs := (pool_bufs p)[i := (pool_bufs p ! i)\<lparr>skbf_packet := pk\<rparr>]\<rparr>"

definition csp_buffer_clone :: "nat option \<Rightarrow> buffer_pool \<Rightarrow> nat option \<times> buffer_pool" where
  "csp_buffer_clone buffer p =
     (case buffer of None \<Rightarrow> (None, p)
      | Some i \<Rightarrow>
          case csp_buffer_get (pkt_length (buf_packet p i)) p of
            (None, p') \<Rightarrow> (None, p')
          | (Some c, p') \<Rightarrow> (Some c, set_packet c (buf_packet p' i) p'))"

definition csp_buffer_remaining :: "buffer_pool \<Rightarrow> nat" where
  "csp_buffer_remaining p = length (pool_free p)"

definition csp_buffer_size :: "buffer_pool \<Rightarrow> nat" where
  "csp_buffer_size p = pool_size p"

lemma skbf_update_fields [simp]:
  "skbf_packet (bs[i := (bs ! i)\<lparr>skbf_refcount := r\<rparr>] ! j) = skbf_packet (bs ! j)"
  "skbf_refcount (bs[i := (bs ! i)\<lparr>skbf_packet := pk\<rparr>] ! j) = skbf_refcount (bs ! j)"
  "skbf_addr (bs[i := (bs ! i)\<lparr>skbf_packet := pk\<rparr>] ! j) = skbf_addr (bs ! j)"
  using nth_list_update_field [of skbf_packet "skbf_refcount_update (\<lambda>_. r)" bs i j]
    nth_list_update_field [of skbf_refcount "skbf_packet_update (\<lambda>_. pk)" bs i j]
    nth_list_update_field [of skbf_addr "skbf_packet_update (\<lambda>_. pk)" bs i j]
  by simp_all

section \<open>The invariant\<close>

text \<open>The free queue holds exactly the buffers nobody refers to, each once.  Nothing in the library
  raises a reference count beyond one, so the branch of \<open>csp_buffer_free\<close> for shared buffers is
  never taken.\<close>

definition refcount :: "buffer_pool \<Rightarrow> nat \<Rightarrow> nat" where
  "refcount p i = (if i < pool_count p then skbf_refcount (pool_bufs p ! i) else 0)"

definition pool_ok :: "buffer_pool \<Rightarrow> bool" where
  "pool_ok p \<longleftrightarrow> length (pool_bufs p) = pool_count p \<and> distinct (pool_free p) \<and>
     set (pool_free p) = {i. i < pool_count p \<and> skbf_refcount (pool_bufs p ! i) = 0} \<and>
     (\<forall>i < pool_count p. skbf_addr (pool_bufs p ! i) = i \<and> skbf_refcount (pool_bufs p ! i) \<le> 1)"

text \<open>The buffers in use.\<close>

definition live :: "buffer_pool \<Rightarrow> nat set" where
  "live p = {i. 0 < refcount p i}"

lemma liveI: "i < pool_count p \<Longrightarrow> 0 < skbf_refcount (pool_bufs p ! i) \<Longrightarrow> i \<in> live p"
  by (simp add: live_def refcount_def)

lemma live_less: "i \<in> live p \<Longrightarrow> i < pool_count p"
  by (simp add: live_def refcount_def split: if_splits)

lemma finite_live [simp]: "finite (live p)"
  by (rule finite_subset [of _ "{..<pool_count p}"]) (auto dest: live_less)

lemma pool_ok_free_length: "pool_ok p \<Longrightarrow> length (pool_free p) \<le> pool_count p"
  by (metis (no_types, lifting) card_mono card_lessThan distinct_card finite_lessThan lessThan_iff
      mem_Collect_eq pool_ok_def subsetI)

lemma pool_partition:
  assumes "pool_ok p"
  shows "set (pool_free p) \<union> live p = {..<pool_count p}" "set (pool_free p) \<inter> live p = {}"
  using assms by (auto simp: pool_ok_def live_def refcount_def split: if_splits)

lemma pool_init_ok: "csp_buffer_init True n sz = (e, Some p) \<Longrightarrow> pool_ok p \<and> live p = {}"
  by (auto simp: csp_buffer_init_def pool_ok_def live_def refcount_def)

lemma get_cases:
  assumes "pool_ok p"
  obtains "csp_buffer_get n p = (None, p)" "pool_size p < n + 14 \<or> pool_free p = []"
  | i rest where "pool_free p = i # rest" "i < pool_count p" "n + 14 \<le> pool_size p"
      "csp_buffer_get n p = (Some i, p\<lparr>pool_free := rest,
         pool_bufs := (pool_bufs p)[i := (pool_bufs p ! i)\<lparr>skbf_refcount := 1\<rparr>]\<rparr>)"
      "skbf_refcount (pool_bufs p ! i) = 0" "skbf_addr (pool_bufs p ! i) = i"
proof (cases "pool_size p < n + 14 \<or> pool_free p = []")
  case True
  then have "csp_buffer_get n p = (None, p)"
    by (auto simp: csp_buffer_get_def CSP_BUFFER_PACKET_OVERHEAD_def)
  then show thesis using True by (rule that(1))
next
  case False
  then obtain i rest where f: "pool_free p = i # rest" by (cases "pool_free p") auto
  then have i: "i < pool_count p" "skbf_refcount (pool_bufs p ! i) = 0" "skbf_addr (pool_bufs p ! i) = i"
    using assms by (auto simp: pool_ok_def set_eq_iff)
  show thesis
    using False f i by (intro that(2) [OF f]) (auto simp: csp_buffer_get_def CSP_BUFFER_PACKET_OVERHEAD_def)
qed

lemma csp_buffer_get_ok:
  assumes "pool_ok p"
  shows "pool_ok (snd (csp_buffer_get n p))"
  using assms
proof (cases rule: get_cases [of p n])
  case (2 i rest)
  then show ?thesis
    using assms by (auto simp: pool_ok_def nth_list_update)
qed (use assms in simp)

lemma csp_buffer_get_Some:
  assumes "pool_ok p" "csp_buffer_get n p = (Some i, p')"
  shows "i \<notin> live p" "i < pool_count p" "live p' = insert i (live p)" "pool_ok p'"
    "pool_count p' = pool_count p" "pool_size p' = pool_size p" "\<And>j. buf_packet p' j = buf_packet p j"
proof -
  show "pool_ok p'" using csp_buffer_get_ok [OF assms(1), of n] assms(2) by simp
  from assms(1) have "i \<notin> live p \<and> i < pool_count p \<and> live p' = insert i (live p) \<and>
      pool_count p' = pool_count p \<and> pool_size p' = pool_size p \<and> (\<forall>j. buf_packet p' j = buf_packet p j)"
  proof (cases rule: get_cases [of p n])
    case (2 j rest)
    then show ?thesis
      using assms by (auto simp: live_def refcount_def pool_ok_def nth_list_update buf_packet_def)
  qed (use assms in simp)
  then show "i \<notin> live p" "i < pool_count p" "live p' = insert i (live p)"
    "pool_count p' = pool_count p" "pool_size p' = pool_size p" "\<And>j. buf_packet p' j = buf_packet p j"
    by blast+
qed

lemma csp_buffer_get_None:
  assumes "pool_ok p" "csp_buffer_get n p = (None, p')"
  shows "p' = p" "pool_size p < n + 14 \<or> pool_free p = []"
proof -
  from assms(1) have "p' = p \<and> (pool_size p < n + 14 \<or> pool_free p = [])"
    by (cases rule: get_cases [of p n]) (use assms in auto)
  then show "p' = p" "pool_size p < n + 14 \<or> pool_free p = []" by blast+
qed

lemma csp_buffer_free_ok:
  assumes "pool_ok p"
  shows "pool_ok (csp_buffer_free q p)"
proof (cases q)
  case (Some i)
  show ?thesis
  proof (cases "i < pool_count p \<and> skbf_refcount (pool_bufs p ! i) = 1")
    case True
    then have i: "i \<notin> set (pool_free p)" using assms by (auto simp: pool_ok_def)
    have "length (pool_free p) = card (set (pool_free p))"
      using assms by (metis distinct_card pool_ok_def)
    also have "set (pool_free p) \<subseteq> {..<pool_count p} - {i}"
      using assms i by (auto simp: pool_ok_def)
    then have "card (set (pool_free p)) \<le> pool_count p - 1"
      using True card_mono [of "{..<pool_count p} - {i}" "set (pool_free p)"] by simp
    finally have "length (pool_free p) < pool_count p" using True by linarith
    then show ?thesis
      using True Some assms i
      by (auto simp: csp_buffer_free_def pool_ok_def nth_list_update Let_def)
  next
    case False
    have "skbf_refcount (pool_bufs p ! i) = 0" if "i < pool_count p"
      using that assms False by (auto simp: pool_ok_def le_Suc_eq)
    then show ?thesis
      using Some assms
      by (auto simp: csp_buffer_free_def pool_ok_def nth_list_update Let_def)
  qed
qed (use assms in \<open>simp add: csp_buffer_free_def\<close>)

lemma csp_buffer_free_live:
  assumes "pool_ok p"
  shows "live (csp_buffer_free (Some i) p) = live p - {i}"
proof -
  have "skbf_refcount (pool_bufs p ! j) \<le> 1" if "j < pool_count p" for j
    using assms that by (simp add: pool_ok_def)
  moreover have "length (pool_bufs p) = pool_count p" "i < pool_count p \<Longrightarrow> skbf_addr (pool_bufs p ! i) = i"
    using assms by (simp_all add: pool_ok_def)
  ultimately show ?thesis
    by (auto simp: csp_buffer_free_def live_def refcount_def nth_list_update Let_def split: if_splits)
qed

lemma csp_buffer_free_frame [simp]:
  "pool_count (csp_buffer_free q p) = pool_count p" "pool_size (csp_buffer_free q p) = pool_size p"
  by (auto simp: csp_buffer_free_def Let_def split: option.splits)

lemma csp_buffer_free_packet [simp]: "buf_packet (csp_buffer_free q p) j = buf_packet p j"
  by (auto simp: csp_buffer_free_def Let_def buf_packet_def split: option.splits)

lemma csp_buffer_free_dead: "pool_ok p \<Longrightarrow> i \<notin> live p \<Longrightarrow> csp_buffer_free (Some i) p = p"
  by (auto simp: csp_buffer_free_def live_def refcount_def Let_def split: if_splits)

lemma set_packet_frame [simp]:
  "pool_count (set_packet i pk p) = pool_count p" "pool_size (set_packet i pk p) = pool_size p"
  "pool_free (set_packet i pk p) = pool_free p"
  by (simp_all add: set_packet_def)

lemma refcount_set_packet [simp]:
  "pool_ok p \<Longrightarrow> refcount (set_packet i pk p) j = refcount p j"
  by (simp add: refcount_def set_packet_def)

lemma live_set_packet [simp]: "pool_ok p \<Longrightarrow> live (set_packet i pk p) = live p"
  by (simp add: live_def)

lemma pool_ok_set_packet [simp]: "pool_ok p \<Longrightarrow> pool_ok (set_packet i pk p)"
  by (simp add: pool_ok_def set_packet_def)

lemma buf_packet_set_packet:
  "pool_ok p \<Longrightarrow> buf_packet (set_packet i pk p) j =
     (if i = j \<and> i < pool_count p then pk else buf_packet p j)"
  by (cases "i < pool_count p")
    (auto simp: buf_packet_def set_packet_def nth_list_update pool_ok_def list_update_beyond)

section \<open>The allocator as an interface\<close>

text \<open>What the users of the pool rely on: a buffer handed out was not in use, and only releasing it
  ends its use.\<close>

locale buffer_allocator =
  fixes ok :: "'p \<Rightarrow> bool" and used :: "'p \<Rightarrow> nat set" and total :: "'p \<Rightarrow> nat"
    and alloc :: "'p \<Rightarrow> nat option \<times> 'p" and release :: "nat \<Rightarrow> 'p \<Rightarrow> 'p"
  assumes used_bound: "ok p \<Longrightarrow> used p \<subseteq> {..<total p}"
    and alloc_Some: "ok p \<Longrightarrow> alloc p = (Some i, p') \<Longrightarrow>
      ok p' \<and> total p' = total p \<and> i \<notin> used p \<and> used p' = insert i (used p)"
    and alloc_None: "ok p \<Longrightarrow> alloc p = (None, p') \<Longrightarrow> p' = p \<and> used p = {..<total p}"
    and release_ok: "ok p \<Longrightarrow> ok (release i p) \<and> total (release i p) = total p \<and> used (release i p) = used p - {i}"
begin

fun alloc_many :: "nat \<Rightarrow> 'p \<Rightarrow> nat list \<times> 'p" where
  "alloc_many 0 p = ([], p)"
| "alloc_many (Suc n) p =
     (case alloc p of (None, p') \<Rightarrow> ([], p')
      | (Some i, p') \<Rightarrow> (case alloc_many n p' of (is, p'') \<Rightarrow> (i # is, p'')))"

lemma alloc_many_props:
  "ok p \<Longrightarrow> alloc_many n p = (is, p') \<Longrightarrow>
     ok p' \<and> total p' = total p \<and> distinct is \<and> set is \<inter> used p = {} \<and> used p' = used p \<union> set is \<and>
     length is = min n (total p - card (used p))"
proof (induction n arbitrary: p "is" p')
  case (Suc n)
  have fin: "finite (used p)" "card (used p) \<le> total p"
    using used_bound [OF Suc.prems(1)] finite_subset [of "used p" "{..<total p}"]
      card_mono [of "{..<total p}" "used p"] by auto
  show ?case
  proof (cases "alloc p")
    case (Pair r q)
    show ?thesis
    proof (cases r)
      case None
      with Pair Suc.prems alloc_None [of p q] show ?thesis by auto
    next
      case (Some i)
      obtain js q' where js: "alloc_many n q = (js, q')" by fastforce
      have q: "ok q" "total q = total p" "i \<notin> used p" "used q = insert i (used p)"
        using alloc_Some [of p i q] Suc.prems Pair Some by auto
      then have "total p \<noteq> card (used p)"
        using used_bound [of q] used_bound [of p] Suc.prems(1)
        by (metis card_lessThan card_subset_eq finite_lessThan insert_subset)
      with fin have "card (used p) < total p" by simp
      with Suc.IH [OF q(1) js] Suc.prems Pair Some js q fin show ?thesis by auto
    qed
  qed
qed simp

lemma release_all: "ok p \<Longrightarrow> ok (fold release is p) \<and> used (fold release is p) = used p - set is"
proof (induction "is" arbitrary: p)
  case (Cons i js)
  have "ok (release i p)" "used (release i p) = used p - {i}"
    using release_ok [OF Cons.prems, of i] by auto
  with Cons.IH [of "release i p"] show ?case by auto
qed simp

lemma alloc_release: "ok p \<Longrightarrow> alloc_many n p = (is, p') \<Longrightarrow> used (fold release is p') = used p"
  using alloc_many_props [of p n "is" p'] release_all [of p' "is"] by auto

end

text \<open>The pool provides it for every request that fits a buffer.\<close>

definition get_small :: "nat \<Rightarrow> buffer_pool \<Rightarrow> nat option \<times> buffer_pool" where
  "get_small n p = csp_buffer_get (min n (pool_size p - CSP_BUFFER_PACKET_OVERHEAD)) p"

interpretation csp_pool: buffer_allocator
  "\<lambda>p. pool_ok p \<and> CSP_BUFFER_PACKET_OVERHEAD \<le> pool_size p" live pool_count "get_small n"
  "\<lambda>i. csp_buffer_free (Some i)" for n
proof
  fix p p' :: buffer_pool and i
  assume ok: "pool_ok p \<and> CSP_BUFFER_PACKET_OVERHEAD \<le> pool_size p"
  then show "live p \<subseteq> {..<pool_count p}" by (auto dest: live_less)
  show "get_small n p = (Some i, p') \<Longrightarrow>
      (pool_ok p' \<and> CSP_BUFFER_PACKET_OVERHEAD \<le> pool_size p') \<and> pool_count p' = pool_count p \<and>
      i \<notin> live p \<and> live p' = insert i (live p)"
    using ok csp_buffer_get_Some [of p _ i p'] by (auto simp: get_small_def)
  show "get_small n p = (None, p') \<Longrightarrow> p' = p \<and> live p = {..<pool_count p}"
  proof -
    assume g: "get_small n p = (None, p')"
    then have "p' = p" "pool_free p = []"
      using ok csp_buffer_get_None [of p "min n (pool_size p - CSP_BUFFER_PACKET_OVERHEAD)" p']
      by (auto simp: get_small_def CSP_BUFFER_PACKET_OVERHEAD_def min_def split: if_splits)
    with ok pool_partition [of p] show ?thesis by auto
  qed
  show "(pool_ok (csp_buffer_free (Some i) p) \<and>
      CSP_BUFFER_PACKET_OVERHEAD \<le> pool_size (csp_buffer_free (Some i) p)) \<and>
      pool_count (csp_buffer_free (Some i) p) = pool_count p \<and>
      live (csp_buffer_free (Some i) p) = live p - {i}"
    using ok by (simp add: csp_buffer_free_ok csp_buffer_free_live)
qed

section \<open>Properties\<close>

lemma csp_buffer_clone_ok: "pool_ok p \<Longrightarrow> pool_ok (snd (csp_buffer_clone b p))"
  by (auto simp: csp_buffer_clone_def split: option.splits prod.splits
      intro!: pool_ok_set_packet dest: csp_buffer_get_Some(4) csp_buffer_get_None(1))

datatype pool_op = Get nat | Free "nat option" | Clone "nat option" | Fill nat csp_packet

fun pool_step :: "pool_op \<Rightarrow> buffer_pool \<Rightarrow> buffer_pool" where
  "pool_step (Get n) p = snd (csp_buffer_get n p)"
| "pool_step (Free q) p = csp_buffer_free q p"
| "pool_step (Clone q) p = snd (csp_buffer_clone q p)"
| "pool_step (Fill i pk) p = set_packet i pk p"

text \<open>After any sequence of operations from \<open>csp_buffer_init\<close> on, frees of wrong or stale
  pointers included, the free queue holds exactly the buffers nobody uses, each once: the number
  \<open>csp_buffer_remaining\<close> and the number of buffers in use add up to \<open>count\<close>.\<close>

theorem csp_buffer_conservation:
  assumes "csp_buffer_init ok n sz = (e, Some p)"
    and "p' = fold pool_step ops p"
  shows "pool_ok p' \<and> csp_buffer_remaining p' + card (live p') = pool_count p'"
proof -
  have "pool_ok (fold pool_step ops p)" if "pool_ok p" for p
    using that
  proof (induction ops arbitrary: p)
    case (Cons op ops)
    then have "pool_ok (pool_step op p)"
      by (cases op) (simp_all add: csp_buffer_get_ok csp_buffer_free_ok csp_buffer_clone_ok)
    with Cons.IH show ?case by simp
  qed simp
  moreover have "pool_ok p"
    using assms(1) pool_init_ok [of n sz e p] by (cases ok) (auto simp: csp_buffer_init_def)
  ultimately have ok: "pool_ok p'" using assms(2) by simp
  then have "length (pool_free p') = card (set (pool_free p'))"
    by (metis distinct_card pool_ok_def)
  then have "csp_buffer_remaining p' + card (live p') = card (set (pool_free p') \<union> live p')"
    using pool_partition(2) [OF ok] by (simp add: csp_buffer_remaining_def card_Un_disjoint)
  with ok pool_partition(1) [OF ok] show ?thesis by simp
qed

lemma csp_buffer_conservation_witness:
  "\<exists>p. csp_buffer_init True 2 8 = (CSP_ERR_NONE, Some p) \<and>
     pool_ok (fold pool_step [Get 4, Free (Some 0), Free (Some 0), Get 9] p)"
proof -
  obtain p where p: "csp_buffer_init True 2 8 = (CSP_ERR_NONE, Some p)"
    by (simp add: csp_buffer_init_def)
  from csp_buffer_conservation [OF p refl] have "pool_ok (fold pool_step [Get 4, Free (Some 0), Free (Some 0), Get 9] p)"
    by blast
  with p show ?thesis by blast
qed

text \<open>In every consistent pool a buffer handed out by \<open>csp_buffer_get\<close> was not in use and is the
  only one that becomes used; one \<open>csp_buffer_free\<close> ends its use, a second one changes nothing; and
  \<open>csp_buffer_get\<close> fails exactly when the request is too large or no buffer is free, changing nothing.\<close>

theorem csp_buffer_get_free_exact:
  assumes "pool_ok p"
  shows "(case csp_buffer_get n p of
            (Some i, p') \<Rightarrow> i \<notin> live p \<and> live p' = insert i (live p) \<and>
               live (csp_buffer_free (Some i) p') = live p \<and>
               csp_buffer_free (Some i) (csp_buffer_free (Some i) p') = csp_buffer_free (Some i) p'
          | (None, p') \<Rightarrow> p' = p) \<and>
         (fst (csp_buffer_get n p) = None \<longleftrightarrow>
            pool_size p < n + CSP_BUFFER_PACKET_OVERHEAD \<or> csp_buffer_remaining p = 0)"
proof (cases "csp_buffer_get n p")
  case (Pair r p')
  show ?thesis
  proof (cases r)
    case None
    with Pair assms csp_buffer_get_None [of p n p'] show ?thesis
      by (auto simp: CSP_BUFFER_PACKET_OVERHEAD_def csp_buffer_remaining_def)
  next
    case (Some i)
    note get = csp_buffer_get_Some [OF assms Pair [unfolded Some]]
    have "pool_ok (csp_buffer_free (Some i) p')" "i \<notin> live (csp_buffer_free (Some i) p')"
      using get by (simp_all add: csp_buffer_free_ok csp_buffer_free_live)
    moreover have "\<not> (pool_size p < n + CSP_BUFFER_PACKET_OVERHEAD \<or> csp_buffer_remaining p = 0)"
      using Pair Some by (auto simp: csp_buffer_get_def csp_buffer_remaining_def split: if_splits)
    ultimately show ?thesis
      using Pair Some get by (auto simp: csp_buffer_free_live csp_buffer_free_dead)
  qed
qed

lemma csp_buffer_get_free_exact_witness:
  "fst (csp_buffer_get 9 \<lparr>pool_count = 1, pool_size = 22, pool_bufs =
     [\<lparr>skbf_refcount = 0, skbf_addr = 0, skbf_packet = empty_packet 8\<rparr>], pool_free = [0]\<rparr>) = None"
proof -
  let ?p = "\<lparr>pool_count = 1, pool_size = 22, pool_bufs =
     [\<lparr>skbf_refcount = 0, skbf_addr = 0, skbf_packet = empty_packet 8\<rparr>], pool_free = [0]\<rparr>"
  have "pool_ok ?p" by (auto simp: pool_ok_def)
  from csp_buffer_get_free_exact [OF this, of 9] show ?thesis
    by (simp add: CSP_BUFFER_PACKET_OVERHEAD_def)
qed

text \<open>A clone of a packet is a packet of its own: it lies in a buffer that was free, holds the same
  contents, and the original keeps its own.\<close>

theorem csp_buffer_clone_copies:
  assumes "pool_ok p" and "i \<in> live p" and "csp_buffer_clone (Some i) p = (Some c, p')"
  shows "c \<notin> live p \<and> c \<noteq> i \<and> live p' = insert c (live p) \<and> pool_ok p' \<and>
         buf_packet p' c = buf_packet p i \<and> buf_packet p' i = buf_packet p i"
proof -
  obtain q where get: "csp_buffer_get (pkt_length (buf_packet p i)) p = (Some c, q)"
    and p': "p' = set_packet c (buf_packet q i) q"
    using assms(3) by (auto simp: csp_buffer_clone_def split: option.splits prod.splits)
  note c = csp_buffer_get_Some [OF assms(1) get]
  with assms(2) p' show ?thesis by (auto simp: buf_packet_set_packet)
qed

lemma csp_buffer_clone_copies_witness:
  "\<exists>c p'. csp_buffer_clone (Some 1) \<lparr>pool_count = 2, pool_size = 22, pool_bufs =
     [\<lparr>skbf_refcount = 0, skbf_addr = 0, skbf_packet = empty_packet 8\<rparr>,
      \<lparr>skbf_refcount = 1, skbf_addr = 1, skbf_packet = (empty_packet 8)\<lparr>pkt_data := [7]\<rparr>\<rparr>], pool_free = [0]\<rparr>
     = (Some c, p') \<and> pkt_data (buf_packet p' c) = [7]"
proof -
  let ?p = "\<lparr>pool_count = 2, pool_size = 22, pool_bufs =
     [\<lparr>skbf_refcount = 0, skbf_addr = 0, skbf_packet = empty_packet 8\<rparr>,
      \<lparr>skbf_refcount = 1, skbf_addr = 1, skbf_packet = (empty_packet 8)\<lparr>pkt_data := [7]\<rparr>\<rparr>], pool_free = [0]\<rparr>"
  have ok: "pool_ok ?p" by (auto simp: pool_ok_def less_Suc_eq numeral_2_eq_2)
  have l: "1 \<in> live ?p" by (simp add: live_def refcount_def)
  obtain c p' where c: "csp_buffer_clone (Some 1) ?p = (Some c, p')"
    by (simp add: csp_buffer_clone_def csp_buffer_get_def CSP_BUFFER_PACKET_OVERHEAD_def buf_packet_def
        pkt_length_def empty_packet_def)
  from csp_buffer_clone_copies [OF ok l c] c show ?thesis
    by (intro exI [of _ c] exI [of _ p']) (simp add: buf_packet_def)
qed

text \<open>A fresh pool gives out exactly \<open>count\<close> different buffers, whatever the requested sizes that
  fit, and when all are freed none is in use.\<close>

theorem csp_buffer_pool_exhaustion:
  assumes "csp_buffer_init ok count sz = (e, Some p)"
    and "csp_pool.alloc_many n k p = (bufs, p')"
  shows "distinct bufs \<and> length bufs = min k count \<and> set bufs = live p' \<and>
         live (fold (\<lambda>i. csp_buffer_free (Some i)) bufs p') = {}"
proof -
  have p: "pool_ok p \<and> CSP_BUFFER_PACKET_OVERHEAD \<le> pool_size p" "live p = {}" "pool_count p = count"
    using assms(1) pool_init_ok [of count sz e p] by (cases ok; auto simp: csp_buffer_init_def)+
  from csp_pool.alloc_many_props [OF p(1) assms(2)] csp_pool.alloc_release [OF p(1) assms(2)] p(2,3)
  show ?thesis by auto
qed

lemma csp_buffer_pool_exhaustion_witness:
  "\<exists>p bufs p'. csp_buffer_init True 2 8 = (CSP_ERR_NONE, Some p) \<and>
     csp_pool.alloc_many 4 3 p = (bufs, p') \<and> length bufs = 2"
proof -
  obtain p where p: "csp_buffer_init True 2 8 = (CSP_ERR_NONE, Some p)"
    by (simp add: csp_buffer_init_def)
  obtain bufs p' where b: "csp_pool.alloc_many 4 3 p = (bufs, p')" by fastforce
  from csp_buffer_pool_exhaustion [OF p b] p b show ?thesis by auto
qed

end
