(* ===== verification/CspPort.thy ===== *)
theory CspPort
  imports CspTypes
begin

text \<open>
  Ports (\<open>libcsp/source/csp_port.c\<close>): which socket listens on which port, with the catch-all
  entry \<open>CSP_ANY\<close> behind the last one.  A socket pointer is a value of the type \<open>'s\<close>.
\<close>

definition CSP_MAX_BIND_PORT :: nat where "CSP_MAX_BIND_PORT = 31"
definition CSP_ANY :: nat where "CSP_ANY = CSP_MAX_BIND_PORT + 1"

record 's csp_port =
  port_open :: bool
  port_socket :: "'s option"

type_synonym 's ports = "'s csp_port list"

definition csp_port_init :: "'s ports" where
  "csp_port_init = replicate (CSP_MAX_BIND_PORT + 2) \<lparr>port_open = False, port_socket = None\<rparr>"

definition csp_port_get_socket :: "nat \<Rightarrow> 's ports \<Rightarrow> 's option" where
  "csp_port_get_socket port ports =
     (if port \<ge> CSP_ANY then None
      else if port_open (ports ! port) then port_socket (ports ! port)
      else if port_open (ports ! CSP_ANY) then port_socket (ports ! CSP_ANY)
      else None)"

definition csp_bind :: "'s option \<Rightarrow> nat \<Rightarrow> 's ports \<Rightarrow> int \<times> 's ports" where
  "csp_bind socket port ports =
     (case socket of None \<Rightarrow> (CSP_ERR_INVAL, ports)
      | Some s \<Rightarrow>
          if port > CSP_ANY then (CSP_ERR_INVAL, ports)
          else if port_open (ports ! port) then (CSP_ERR_USED, ports)
          else (CSP_ERR_NONE, ports[port := \<lparr>port_open = True, port_socket = Some s\<rparr>]))"

definition ports_ok :: "'s ports \<Rightarrow> bool" where
  "ports_ok ports \<longleftrightarrow> length ports = CSP_MAX_BIND_PORT + 2 \<and>
     (\<forall>p \<in> set ports. port_open p \<longleftrightarrow> port_socket p \<noteq> None)"

lemmas csp_port_consts = CSP_MAX_BIND_PORT_def CSP_ANY_def

lemma csp_port_init_ok: "ports_ok csp_port_init"
  by (simp add: ports_ok_def csp_port_init_def)

lemma csp_bind_ok: "ports_ok ports \<Longrightarrow> ports_ok (snd (csp_bind s port ports))"
  by (auto simp: csp_bind_def ports_ok_def split: option.splits
      dest!: set_update_subset_insert [THEN subsetD])

section \<open>Properties\<close>

text \<open>Binding is exclusive and permanent: a successful \<open>csp_bind\<close> happens only on a free valid
  port, makes that port (or with \<open>CSP_ANY\<close> every port without a listener of its own) deliver to the
  socket, and leaves every port that had a listener with it; a failed one changes nothing.\<close>

theorem csp_bind_exclusive:
  assumes "ports_ok ports"
  shows "case csp_bind (Some s) port ports of (e, ports') \<Rightarrow>
     ports_ok ports' \<and>
     (e = CSP_ERR_NONE \<longleftrightarrow> port \<le> CSP_ANY \<and> \<not> port_open (ports ! port)) \<and>
     (if e \<noteq> CSP_ERR_NONE then ports' = ports
      else \<forall>p < CSP_ANY. csp_port_get_socket p ports' =
        (if port_open (ports ! p) then csp_port_get_socket p ports
         else if p = port \<or> port = CSP_ANY then Some s
         else csp_port_get_socket p ports))"
proof -
  have len: "length ports = Suc CSP_ANY" using assms by (simp add: ports_ok_def csp_port_consts)
  show ?thesis
  proof (cases "port > CSP_ANY \<or> port_open (ports ! port)")
    case True
    with assms show ?thesis by (auto simp: csp_bind_def csp_err_defs)
  next
    case False
    then have b: "csp_bind (Some s) port ports = (CSP_ERR_NONE, ports[port := \<lparr>port_open = True, port_socket = Some s\<rparr>])"
      by (simp add: csp_bind_def)
    with csp_bind_ok [OF assms, of "Some s" port] False len show ?thesis
      by (auto simp: csp_port_get_socket_def nth_list_update)
  qed
qed

lemma csp_bind_exclusive_witness:
  "csp_port_get_socket 7 (snd (csp_bind (Some ''tm'') 7 csp_port_init)) = Some ''tm''"
proof -
  have "\<not> port_open (csp_port_init ! 7 :: string csp_port)"
    by (simp add: csp_port_init_def csp_port_consts)
  with csp_bind_exclusive [OF csp_port_init_ok, where s = "''tm''" and port = 7] show ?thesis
    by (auto simp: csp_port_consts split: prod.splits if_splits)
qed

end
