(* ===== verification/CspIflist.thy ===== *)
theory CspIflist
  imports CspTypes
begin

text \<open>
  The list of interfaces (\<open>libcsp/source/csp_iflist.c\<close>).  An interface pointer is a value of the
  type \<open>'i\<close>; the linked list through the \<open>next\<close> fields is a HOL list, and \<open>nm\<close> reads the name
  of an interface.
\<close>

text \<open>\<open>strncmp(a, b, 10) == 0\<close> for strings without the terminating zero.\<close>

definition name_eq :: "string \<Rightarrow> string \<Rightarrow> bool" where
  "name_eq a b \<longleftrightarrow> take 10 a = take 10 b"

fun csp_iflist_get_by_name :: "('i \<Rightarrow> string) \<Rightarrow> string \<Rightarrow> 'i list \<Rightarrow> 'i option" where
  "csp_iflist_get_by_name nm name [] = None"
| "csp_iflist_get_by_name nm name (ifc # ifcs) =
     (if name_eq (nm ifc) name then Some ifc else csp_iflist_get_by_name nm name ifcs)"

text \<open>The walk to the end of the list, which stops at the interface itself.\<close>

fun iflist_insert_last :: "'i \<Rightarrow> 'i list \<Rightarrow> 'i list" where
  "iflist_insert_last ifc [] = []"
| "iflist_insert_last ifc (i # is) =
     (if i = ifc then i # is
      else if is = [] then [i, ifc]
      else i # iflist_insert_last ifc is)"

definition csp_iflist_add :: "'i \<Rightarrow> 'i list \<Rightarrow> 'i list" where
  "csp_iflist_add ifc interfaces = (if interfaces = [] then [ifc] else iflist_insert_last ifc interfaces)"

lemma csp_iflist_add_eq [simp]:
  "csp_iflist_add ifc is = (if ifc \<in> set is then is else is @ [ifc])"
proof -
  have "is \<noteq> [] \<Longrightarrow> iflist_insert_last ifc is = (if ifc \<in> set is then is else is @ [ifc])"
    by (induction "is") auto
  then show ?thesis by (simp add: csp_iflist_add_def)
qed

lemma csp_iflist_add_distinct: "distinct is \<Longrightarrow> distinct (csp_iflist_add ifc is)"
  by simp

lemma csp_iflist_get_by_name_add:
  "csp_iflist_get_by_name nm name (csp_iflist_add ifc is) =
     (case csp_iflist_get_by_name nm name is of Some i \<Rightarrow> Some i
      | None \<Rightarrow> if name_eq (nm ifc) name then Some ifc else None)"
proof -
  have app: "csp_iflist_get_by_name nm name (is @ [ifc]) =
     (case csp_iflist_get_by_name nm name is of Some i \<Rightarrow> Some i
      | None \<Rightarrow> if name_eq (nm ifc) name then Some ifc else None)"
    by (induction "is") auto
  moreover have "ifc \<in> set is \<Longrightarrow> name_eq (nm ifc) name \<Longrightarrow> csp_iflist_get_by_name nm name is \<noteq> None"
    by (induction "is") auto
  ultimately show ?thesis by (auto split: option.splits)
qed

end
