(* ===== verification/CspRtable.thy ===== *)
theory CspRtable
  imports CspIflist
begin

text \<open>
  Routing tables: the list with network masks (\<open>libcsp/source/rtable/csp_rtable_cidr.c\<close>) and the
  array (\<open>csp_rtable_static.c\<close>).  \<open>csp_routing\<close> is what the router relies on; both provide it.
\<close>

definition CSP_ID_HOST_SIZE :: u8 where "CSP_ID_HOST_SIZE = 5"
definition CSP_NODE_MAC :: u8 where "CSP_NODE_MAC = 255"

section \<open>What a routing table promises\<close>

text \<open>\<open>route t a\<close> is the interface and next-hop address for the node \<open>a\<close>; \<open>set_host\<close> enters the
  route of one node.\<close>

locale csp_routing =
  fixes valid :: "'t \<Rightarrow> bool" and route :: "'t \<Rightarrow> u8 \<Rightarrow> ('i \<times> u8) option"
    and set_host :: "u8 \<Rightarrow> 'i \<times> u8 \<Rightarrow> 't \<Rightarrow> 't"
  assumes set_valid: "valid t \<Longrightarrow> a < 32 \<Longrightarrow> valid (set_host a r t)"
    and route_set: "valid t \<Longrightarrow> a < 32 \<Longrightarrow> route (set_host a r t) a = Some r"
    and route_other: "valid t \<Longrightarrow> a < 32 \<Longrightarrow> b < 32 \<Longrightarrow> b \<noteq> a \<Longrightarrow> route (set_host a r t) b = route t b"
begin

definition set_hosts :: "(u8 \<times> 'i \<times> u8) list \<Rightarrow> 't \<Rightarrow> 't" where
  "set_hosts rs t = fold (\<lambda>(a, r). set_host a r) rs t"

lemma set_hosts_valid: "valid t \<Longrightarrow> \<forall>r \<in> set rs. fst r < 32 \<Longrightarrow> valid (set_hosts rs t)"
  by (induction rs arbitrary: t) (auto simp: set_hosts_def set_valid)

lemma set_hosts_route:
  "valid t \<Longrightarrow> \<forall>r \<in> set rs. fst r < 32 \<Longrightarrow> b < 32 \<Longrightarrow>
     route (set_hosts rs t) b = (case map_of (rev rs) b of Some r \<Rightarrow> Some r | None \<Rightarrow> route t b)"
proof (induction rs arbitrary: t)
  case (Cons p rs)
  obtain a r where p: "p = (a, r)" by (cases p)
  have "valid (set_host a r t)" using Cons.prems p by (simp add: set_valid)
  from Cons.IH [OF this] Cons.prems p show ?case
    by (cases "b = a") (auto simp: set_hosts_def route_set route_other map_add_def split: option.splits)
qed (simp add: set_hosts_def)

end

section \<open>The table with network masks\<close>

text \<open>The entries in the order of the linked list; a pointer to an entry is its position.\<close>

record 'i rt_entry =
  rt_address :: u8
  rt_netmask :: u8
  rt_mac :: u8
  rt_interface :: 'i

type_synonym 'i rtable = "'i rt_entry list"

text \<open>The network test.  The shift by \<open>CSP_ID_HOST_SIZE - netmask\<close> is undefined in C for a mask
  longer than a node address, which is the result \<open>None\<close>.\<close>

definition rt_match :: "u8 \<Rightarrow> 'i rt_entry \<Rightarrow> bool option" where
  "rt_match addr e =
     (if rt_netmask e > CSP_ID_HOST_SIZE then None
      else
        let hostbits = push_bit (unat (CSP_ID_HOST_SIZE - rt_netmask e)) 1 - (1 :: u8);
            netbits = NOT hostbits
        in Some (rt_address e AND netbits = addr AND netbits))"

fun rtable_find_loop :: "u8 \<Rightarrow> u8 \<Rightarrow> bool \<Rightarrow> nat \<Rightarrow> nat option \<Rightarrow> u8 \<Rightarrow> 'i rtable \<Rightarrow> nat option option" where
  "rtable_find_loop addr netmask exact pos best best_mask [] = Some best"
| "rtable_find_loop addr netmask exact pos best best_mask (i # is) =
     (if rt_address i = addr \<and> rt_netmask i = netmask then Some (Some pos)
      else if exact then rtable_find_loop addr netmask exact (pos + 1) best best_mask is
      else case rt_match addr i of
        None \<Rightarrow> None
      | Some m \<Rightarrow>
          if m \<and> rt_netmask i \<ge> best_mask
          then rtable_find_loop addr netmask exact (pos + 1) (Some pos) (rt_netmask i) is
          else rtable_find_loop addr netmask exact (pos + 1) best best_mask is)"

definition csp_rtable_find :: "u8 \<Rightarrow> u8 \<Rightarrow> bool \<Rightarrow> 'i rtable \<Rightarrow> nat option option" where
  "csp_rtable_find addr netmask exact rtable = rtable_find_loop addr netmask exact 0 None 0 rtable"

definition csp_rtable_find_iface :: "u8 \<Rightarrow> 'i rtable \<Rightarrow> 'i option option" where
  "csp_rtable_find_iface node rtable =
     map_option (map_option (\<lambda>k. rt_interface (rtable ! k))) (csp_rtable_find node CSP_ID_HOST_SIZE False rtable)"

definition csp_rtable_find_mac :: "u8 \<Rightarrow> 'i rtable \<Rightarrow> u8 option" where
  "csp_rtable_find_mac node rtable =
     map_option (\<lambda>r. case r of None \<Rightarrow> 255 | Some k \<Rightarrow> rt_mac (rtable ! k))
       (csp_rtable_find node CSP_ID_HOST_SIZE False rtable)"

text \<open>The exact search of \<open>csp_rtable_set\<close> never shifts, so it always has a result.\<close>

definition csp_rtable_set :: "bool \<Rightarrow> u8 \<Rightarrow> u8 \<Rightarrow> 'i option \<Rightarrow> u8 \<Rightarrow> 'i rtable \<Rightarrow> int \<times> 'i rtable" where
  "csp_rtable_set mem_ok address netmask ifc mac rtable =
     (case ifc of None \<Rightarrow> (CSP_ERR_INVAL, rtable)
      | Some i \<Rightarrow>
          let (address, netmask) = (if unat address = CSP_DEFAULT_ROUTE then (0, 0) else (address, netmask));
              e = \<lparr>rt_address = address, rt_netmask = netmask, rt_mac = mac, rt_interface = i\<rparr>
          in (case csp_rtable_find address netmask True rtable of
                Some (Some k) \<Rightarrow> (CSP_ERR_NONE, rtable[k := e])
              | _ \<Rightarrow> if \<not> mem_ok then (CSP_ERR_NOMEM, rtable) else (CSP_ERR_NONE, rtable @ [e])))"

definition csp_rtable_clear :: "bool \<Rightarrow> u8 \<Rightarrow> 'i \<Rightarrow> 'i rtable" where
  "csp_rtable_clear mem_ok my_address csp_if_lo =
     snd (csp_rtable_set mem_ok my_address CSP_ID_HOST_SIZE (Some csp_if_lo) CSP_NODE_MAC [])"

subsection \<open>Longest prefix match\<close>

definition rt_key :: "'i rt_entry \<Rightarrow> u8 \<times> u8" where
  "rt_key e = (rt_address e, rt_netmask e)"

definition rtable_ok :: "'i rtable \<Rightarrow> bool" where
  "rtable_ok t \<longleftrightarrow> distinct (map rt_key t) \<and> (\<forall>e \<in> set t. rt_netmask e \<le> CSP_ID_HOST_SIZE)"

text \<open>The network an address belongs to, without bit masks: all bits but the host bits agree.\<close>

definition in_network :: "u8 \<Rightarrow> 'i rt_entry \<Rightarrow> bool" where
  "in_network addr e \<longleftrightarrow> drop_bit (5 - unat (rt_netmask e)) (rt_address e) = drop_bit (5 - unat (rt_netmask e)) addr"

lemma and_not_mask_eq_iff: "x AND NOT (mask n) = y AND NOT (mask n) \<longleftrightarrow> drop_bit n x = drop_bit n (y :: u8)"
proof
  assume l: "x AND NOT (mask n) = y AND NOT (mask n)"
  show "drop_bit n x = drop_bit n y"
  proof (rule byte_eqI)
    fix k
    have "bit (x AND NOT (mask n)) (n + k) = bit (y AND NOT (mask n)) (n + k)" using l by simp
    then show "bit (drop_bit n x) k = bit (drop_bit n y) k"
      by (cases "n + k < 8") (auto simp: bit_simps)
  qed
next
  assume r: "drop_bit n x = drop_bit n y"
  show "x AND NOT (mask n) = y AND NOT (mask n)"
  proof (rule byte_eqI)
    fix k :: nat
    have "bit (drop_bit n x) (k - n) = bit (drop_bit n y) (k - n)" using r by simp
    then show "bit (x AND NOT (mask n)) k = bit (y AND NOT (mask n)) k"
      by (auto simp: bit_simps)
  qed
qed

lemma rt_match_in_network:
  assumes "rt_netmask e \<le> CSP_ID_HOST_SIZE"
  shows "rt_match addr e = Some (in_network addr e)"
proof -
  have "unat (CSP_ID_HOST_SIZE - rt_netmask e) = 5 - unat (rt_netmask e)"
    using assms by (simp add: CSP_ID_HOST_SIZE_def unat_sub)
  moreover have "push_bit n 1 - (1 :: u8) = mask n" for n
    by (simp add: mask_eq_exp_minus_1 push_bit_eq_mult)
  ultimately show ?thesis
    using assms by (simp add: rt_match_def in_network_def and_not_mask_eq_iff Let_def not_less)
qed

text \<open>The loop keeps the best position so far: the longest mask, the last of equal ones.\<close>

definition best_route :: "u8 \<Rightarrow> 'i rtable \<Rightarrow> nat option \<Rightarrow> bool" where
  "best_route addr t r \<longleftrightarrow>
     (case r of None \<Rightarrow> (\<forall>e \<in> set t. \<not> in_network addr e)
      | Some k \<Rightarrow> k < length t \<and> in_network addr (t ! k) \<and>
          (\<forall>j < length t. in_network addr (t ! j) \<longrightarrow>
             rt_netmask (t ! j) \<le> rt_netmask (t ! k) \<and> (rt_netmask (t ! j) = rt_netmask (t ! k) \<longrightarrow> j \<le> k)))"

lemma in_network_full: "rt_netmask e = CSP_ID_HOST_SIZE \<Longrightarrow> in_network addr e \<longleftrightarrow> rt_address e = addr"
  by (simp add: in_network_def CSP_ID_HOST_SIZE_def)

lemma best_route_snoc:
  assumes "best_route addr t best" and "bm = (case best of None \<Rightarrow> 0 | Some k \<Rightarrow> rt_netmask (t ! k))"
  shows "best_route addr (t @ [e])
    (if in_network addr e \<and> bm \<le> rt_netmask e then Some (length t) else best)"
  using assms
  by (cases best) (auto simp: best_route_def nth_append less_Suc_eq not_le word_coorder.extremum_strict
      intro: order.trans split: if_splits)

lemma best_route_exact:
  assumes "rtable_ok t" "t = ds @ e # is" "rt_address e = addr" "rt_netmask e = CSP_ID_HOST_SIZE"
  shows "best_route addr t (Some (length ds))"
proof -
  have "j \<le> length ds" if "j < length t" "in_network addr (t ! j)" "rt_netmask (t ! j) = CSP_ID_HOST_SIZE" for j
  proof -
    have "rt_key (t ! j) = rt_key (t ! length ds)"
      using that assms by (simp add: rt_key_def in_network_full)
    moreover have "length ds < length t" using assms(2) by simp
    ultimately have "map rt_key t ! j = map rt_key t ! length ds" using that(1) by simp
    then show ?thesis
      using assms(1) that(1) \<open>length ds < length t\<close> unfolding rtable_ok_def
      by (metis length_map nth_eq_iff_index_eq order.refl)
  qed
  moreover have "rt_netmask (t ! j) \<le> CSP_ID_HOST_SIZE" if "j < length t" for j
    using assms(1) that by (simp add: rtable_ok_def)
  ultimately show ?thesis
    using assms by (auto simp: best_route_def in_network_full)
qed

lemma rtable_find_loop_best:
  assumes "rtable_ok t" "t = ds @ is" "best_route addr ds best"
    "bm = (case best of None \<Rightarrow> 0 | Some k \<Rightarrow> rt_netmask (ds ! k))"
  shows "\<exists>r. rtable_find_loop addr CSP_ID_HOST_SIZE False (length ds) best bm is = Some r \<and> best_route addr t r"
  using assms(2-)
proof (induction "is" arbitrary: ds best bm)
  case (Cons e es)
  have mask: "rt_netmask e \<le> CSP_ID_HOST_SIZE"
    using assms(1) Cons.prems(1) by (simp add: rtable_ok_def)
  show ?case
  proof (cases "rt_address e = addr \<and> rt_netmask e = CSP_ID_HOST_SIZE")
    case True
    with best_route_exact [OF assms(1) Cons.prems(1)] show ?thesis by simp
  next
    case False
    let ?hit = "in_network addr e \<and> bm \<le> rt_netmask e"
    let ?best = "if ?hit then Some (length ds) else best"
    let ?bm = "if ?hit then rt_netmask e else bm"
    have "best_route addr (ds @ [e]) ?best"
      by (rule best_route_snoc [OF Cons.prems(2,3)])
    moreover have "?bm = (case ?best of None \<Rightarrow> 0 | Some k \<Rightarrow> rt_netmask ((ds @ [e]) ! k))"
      using Cons.prems(2,3) by (auto simp: best_route_def nth_append split: option.splits)
    ultimately have "\<exists>r. rtable_find_loop addr CSP_ID_HOST_SIZE False (length (ds @ [e])) ?best ?bm es = Some r \<and>
        best_route addr t r"
      using Cons.prems(1) by (intro Cons.IH) simp_all
    with False mask show ?thesis by (auto simp: rt_match_in_network)
  qed
qed simp

lemma csp_rtable_find_best:
  assumes "rtable_ok t"
  shows "\<exists>r. csp_rtable_find addr CSP_ID_HOST_SIZE False t = Some r \<and> best_route addr t r"
  using rtable_find_loop_best [OF assms, of "[]" t addr None 0]
  by (simp add: csp_rtable_find_def best_route_def)

lemma best_route_unique: "best_route addr t r \<Longrightarrow> best_route addr t r' \<Longrightarrow> r = r'"
  by (cases r; cases r') (auto simp: best_route_def dest: nth_mem, metis order.antisym)

subsection \<open>Entering a route\<close>

text \<open>The exact search finds the first entry with the same key, if there is one.\<close>

lemma rtable_find_loop_exact:
  "((a, m) \<notin> rt_key ` set t \<and> rtable_find_loop a m True pos best bm t = Some best) \<or>
   (\<exists>k < length t. rt_key (t ! k) = (a, m) \<and> rtable_find_loop a m True pos best bm t = Some (Some (pos + k)))"
proof (induction t arbitrary: pos)
  case (Cons e t)
  show ?case
  proof (cases "rt_key e = (a, m)")
    case True then show ?thesis by (auto simp: rt_key_def)
  next
    case False
    then have "rtable_find_loop a m True pos best bm (e # t) = rtable_find_loop a m True (pos + 1) best bm t"
      by (auto simp: rt_key_def)
    with Cons.IH [of "pos + 1"] False show ?thesis by auto
  qed
qed simp

lemma csp_rtable_find_exact:
  obtains "csp_rtable_find a m True t = Some None" "(a, m) \<notin> rt_key ` set t"
  | k where "csp_rtable_find a m True t = Some (Some k)" "k < length t" "rt_key (t ! k) = (a, m)"
  using rtable_find_loop_exact [of a m t 0 None 0] by (auto simp: csp_rtable_find_def)

text \<open>Entering a host route, in a model where the allocation succeeds.\<close>

definition set_host_entry :: "u8 \<Rightarrow> 'i \<times> u8 \<Rightarrow> 'i rtable \<Rightarrow> 'i rtable" where
  "set_host_entry a r t = snd (csp_rtable_set True a CSP_ID_HOST_SIZE (Some (fst r)) (snd r) t)"

definition rtable_route :: "'i rtable \<Rightarrow> u8 \<Rightarrow> ('i \<times> u8) option" where
  "rtable_route t a =
     (case (csp_rtable_find_iface a t, csp_rtable_find_mac a t) of
        (Some (Some i), Some m) \<Rightarrow> Some (i, m) | _ \<Rightarrow> None)"

lemma rtable_route_best:
  assumes "rtable_ok t" "best_route a t r"
  shows "rtable_route t a = map_option (\<lambda>k. (rt_interface (t ! k), rt_mac (t ! k))) r"
proof -
  have "csp_rtable_find a CSP_ID_HOST_SIZE False t = Some r"
    using csp_rtable_find_best [OF assms(1), of a] best_route_unique [OF assms(2)] by auto
  then show ?thesis
    by (cases r) (simp_all add: rtable_route_def csp_rtable_find_iface_def csp_rtable_find_mac_def)
qed

lemma csp_rtable_set_ok:
  assumes "rtable_ok t" "m \<le> CSP_ID_HOST_SIZE"
  shows "rtable_ok (snd (csp_rtable_set mem a m i mac t))"
proof (cases i)
  case (Some ifc)
  obtain a' m' where am: "(if unat a = CSP_DEFAULT_ROUTE then (0, 0) else (a, m)) = (a', m')"
    and m': "m' \<le> CSP_ID_HOST_SIZE"
    using assms(2) by (cases "unat a = CSP_DEFAULT_ROUTE") auto
  show ?thesis
  proof (cases rule: csp_rtable_find_exact [of a' m' t])
    case 1
    with assms(1) am m' Some show ?thesis
      by (auto simp: csp_rtable_set_def rtable_ok_def rt_key_def)
  next
    case (2 k)
    let ?e = "\<lparr>rt_address = a', rt_netmask = m', rt_mac = mac, rt_interface = ifc\<rparr>"
    have "map rt_key (t[k := ?e]) = map rt_key t"
      using 2 by (simp add: map_update rt_key_def list_update_same_conv)
    moreover have "set (t[k := ?e]) \<subseteq> insert ?e (set t)" by (rule set_update_subset_insert)
    ultimately show ?thesis
      using assms(1) am m' Some 2(1) by (auto simp: csp_rtable_set_def rtable_ok_def Let_def)
  qed
qed (use assms in \<open>simp add: csp_rtable_set_def\<close>)

lemma best_route_keys:
  assumes "map rt_key t' = map rt_key t"
  shows "best_route a t' r \<longleftrightarrow> best_route a t r"
proof -
  have l: "length t' = length t" by (metis assms length_map)
  then have k: "rt_key (t' ! j) = rt_key (t ! j)" if "j < length t" for j
    using assms that by (metis nth_map)
  then have n: "in_network a (t' ! j) = in_network a (t ! j)" "rt_netmask (t' ! j) = rt_netmask (t ! j)"
    if "j < length t" for j
    using that [THEN k] by (simp_all add: rt_key_def in_network_def)
  show ?thesis
    using l n by (cases r) (auto simp: best_route_def all_set_conv_all_nth)
qed

lemma set_host_entry_route:
  fixes t :: "'i rtable"
  assumes ok: "rtable_ok t" and a: "a < 32" and b: "b < 32"
  shows "rtable_route (set_host_entry a r t) b = (if b = a then Some r else rtable_route t b)"
proof -
  let ?e = "\<lparr>rt_address = a, rt_netmask = CSP_ID_HOST_SIZE, rt_mac = snd r, rt_interface = fst r\<rparr>"
  let ?t = "set_host_entry a r t"
  have ok': "rtable_ok ?t"
    using ok by (simp add: set_host_entry_def csp_rtable_set_ok)
  have nd: "unat a \<noteq> CSP_DEFAULT_ROUTE"
    using a by (simp add: CSP_DEFAULT_ROUTE_def word_less_nat_alt)
  obtain q where q: "best_route b t q" using csp_rtable_find_best [OF ok] by blast
  show ?thesis
  proof (cases rule: csp_rtable_find_exact [of a CSP_ID_HOST_SIZE t])
    case 1
    then have t: "?t = t @ [?e]" using nd by (simp add: set_host_entry_def csp_rtable_set_def)
    show ?thesis
    proof (cases "b = a")
      case True
      have "best_route a ?t (Some (length t))"
        using best_route_exact [OF ok', of t ?e "[]" a] t by simp
      from rtable_route_best [OF ok' this] True show ?thesis by (simp add: t)
    next
      case False
      then have "\<not> in_network b ?e" by (simp add: in_network_full)
      with q have "best_route b ?t q"
        using best_route_snoc [OF q refl, of ?e] t by simp
      from rtable_route_best [OF ok' this] rtable_route_best [OF ok q] False q show ?thesis
        by (cases q) (simp_all add: t best_route_def nth_append)
    qed
  next
    case (2 k)
    then have t: "?t = t[k := ?e]" using nd by (simp add: set_host_entry_def csp_rtable_set_def)
    have keys: "map rt_key ?t = map rt_key t"
      using 2 t by (simp add: map_update rt_key_def list_update_same_conv)
    have q': "best_route b ?t q" using q by (rule best_route_keys [OF keys, THEN iffD2])
    show ?thesis
    proof (cases "b = a")
      case True
      have "best_route a t (Some (length (take k t)))"
        by (rule best_route_exact [OF ok id_take_nth_drop]) (use 2 in \<open>simp_all add: rt_key_def\<close>)
      with 2 have "best_route a t (Some k)" by simp
      then have "best_route a ?t (Some k)" by (rule best_route_keys [OF keys, THEN iffD2])
      from rtable_route_best [OF ok' this] True 2 show ?thesis by (simp add: t)
    next
      case False
      have "q \<noteq> Some k"
        using q 2 False by (auto simp: best_route_def rt_key_def in_network_full)
      with rtable_route_best [OF ok' q'] rtable_route_best [OF ok q] False show ?thesis
        by (cases q) (simp_all add: t)
    qed
  qed
qed

interpretation cidr: csp_routing rtable_ok rtable_route set_host_entry
  by unfold_locales (simp_all add: set_host_entry_route, simp add: set_host_entry_def csp_rtable_set_ok)

section \<open>The static table\<close>

text \<open>One entry per node and one for the default route; an interface \<open>None\<close> is \<open>NULL\<close>.  An index beyond
  the array is undefined, the outer \<open>None\<close>.\<close>

definition CSP_ROUTE_COUNT :: nat where "CSP_ROUTE_COUNT = 33"

type_synonym 'i routes = "('i option \<times> u8) list"

definition static_find :: "u8 \<Rightarrow> 'i routes \<Rightarrow> nat option option" where
  "static_find node routes =
     (if unat node \<ge> CSP_ROUTE_COUNT then None
      else if fst (routes ! unat node) \<noteq> None then Some (Some (unat node))
      else if fst (routes ! CSP_DEFAULT_ROUTE) \<noteq> None then Some (Some CSP_DEFAULT_ROUTE)
      else Some None)"

definition static_find_iface :: "u8 \<Rightarrow> 'i routes \<Rightarrow> 'i option option" where
  "static_find_iface node routes =
     map_option (\<lambda>r. case r of None \<Rightarrow> None | Some k \<Rightarrow> fst (routes ! k)) (static_find node routes)"

definition static_find_mac :: "u8 \<Rightarrow> 'i routes \<Rightarrow> u8 option" where
  "static_find_mac node routes =
     map_option (\<lambda>r. case r of None \<Rightarrow> 255 | Some k \<Rightarrow> snd (routes ! k)) (static_find node routes)"

definition static_clear :: "'i routes" where
  "static_clear = replicate CSP_ROUTE_COUNT (None, 0)"

definition static_set :: "u8 \<Rightarrow> 'i option \<Rightarrow> u8 \<Rightarrow> 'i list \<times> 'i routes \<Rightarrow> int \<times> 'i list \<times> 'i routes" where
  "static_set node ifc mac s = (case s of (interfaces, routes) \<Rightarrow>
     (case ifc of None \<Rightarrow> (CSP_ERR_INVAL, interfaces, routes)
      | Some i \<Rightarrow>
          let interfaces = csp_iflist_add i interfaces in
          if unat node \<le> CSP_DEFAULT_ROUTE
          then (CSP_ERR_NONE, interfaces, routes[unat node := (Some i, mac)])
          else (CSP_ERR_INVAL, interfaces, routes)))"

definition static_ok :: "'i list \<times> 'i routes \<Rightarrow> bool" where
  "static_ok s \<longleftrightarrow> length (snd s) = CSP_ROUTE_COUNT \<and> distinct (fst s) \<and>
     (\<forall>i. Some i \<in> fst ` set (snd s) \<longrightarrow> i \<in> set (fst s))"

definition static_route :: "'i list \<times> 'i routes \<Rightarrow> u8 \<Rightarrow> ('i \<times> u8) option" where
  "static_route s a =
     (case (static_find_iface a (snd s), static_find_mac a (snd s)) of
        (Some (Some i), Some m) \<Rightarrow> Some (i, m) | _ \<Rightarrow> None)"

definition static_set_host :: "u8 \<Rightarrow> 'i \<times> u8 \<Rightarrow> 'i list \<times> 'i routes \<Rightarrow> 'i list \<times> 'i routes" where
  "static_set_host a r s = snd (static_set a (Some (fst r)) (snd r) s)"

lemmas static_defs = static_route_def static_find_iface_def static_find_mac_def static_find_def
  static_set_host_def static_set_def static_ok_def CSP_ROUTE_COUNT_def CSP_DEFAULT_ROUTE_def

lemma static_set_ok: "static_ok s \<Longrightarrow> static_ok (snd (static_set a i m s))"
  by (cases s; cases i)
    (auto simp: static_defs dest!: set_update_subset_insert [THEN subsetD] split: if_splits)

interpretation static: csp_routing static_ok static_route static_set_host
proof
  fix s :: "'i list \<times> 'i routes" and a b :: u8 and r
  assume ok: "static_ok s" and a: "a < 32"
  show "static_ok (static_set_host a r s)"
    using ok by (simp add: static_set_host_def static_set_ok)
  have a': "unat a < 32" using a by (simp add: word_less_nat_alt)
  then show "static_route (static_set_host a r s) a = Some r"
    using ok by (cases s) (simp add: static_defs Let_def)
  assume b: "b < 32" and ne: "b \<noteq> a"
  then have "unat b < 32" "unat b \<noteq> unat a" by (simp_all add: word_less_nat_alt word_unat_eq_iff)
  with a' ok show "static_route (static_set_host a r s) b = static_route s b"
    by (cases s) (simp add: static_defs Let_def nth_list_update)
qed

section \<open>Properties\<close>

definition set_routes :: "(u8 \<times> u8 \<times> 'i \<times> u8) list \<Rightarrow> 'i rtable \<Rightarrow> 'i rtable" where
  "set_routes rs t = fold (\<lambda>(a, m, i, mac) t. snd (csp_rtable_set True a m (Some i) mac t)) rs t"

lemma set_routes_ok:
  "rtable_ok t \<Longrightarrow> \<forall>(a, m, i, mac) \<in> set rs. m \<le> CSP_ID_HOST_SIZE \<Longrightarrow> rtable_ok (set_routes rs t)"
  by (induction rs arbitrary: t) (auto simp: set_routes_def csp_rtable_set_ok)

text \<open>C30. In every table that \<open>csp_rtable_set\<close> built from masks of at most five bits, the search of a
  node finds the entry of the longest network that contains it (the last one entered of equal
  length), or nothing exactly when no network contains it; \<open>csp_rtable_find_iface\<close> and
  \<open>csp_rtable_find_mac\<close> are its interface and address.\<close>

theorem cidr_longest_prefix_match:
  assumes "t = set_routes rs []" and "\<forall>(a, m, i, mac) \<in> set rs. m \<le> CSP_ID_HOST_SIZE"
  shows "\<exists>r. csp_rtable_find node CSP_ID_HOST_SIZE False t = Some r \<and> best_route node t r \<and>
     csp_rtable_find_iface node t = Some (map_option (\<lambda>k. rt_interface (t ! k)) r) \<and>
     csp_rtable_find_mac node t = Some (case r of None \<Rightarrow> 255 | Some k \<Rightarrow> rt_mac (t ! k))"
proof -
  have "rtable_ok t" using assms set_routes_ok [of "[]" rs] by (simp add: rtable_ok_def)
  from csp_rtable_find_best [OF this, of node] show ?thesis
    by (auto simp: csp_rtable_find_iface_def csp_rtable_find_mac_def)
qed

lemma cidr_longest_prefix_match_witness:
  "csp_rtable_find_iface 9 (set_routes [(8, 2, ''can'', 255), (0, 0, ''kiss'', 3)] []) = Some (Some ''can'')"
proof -
  let ?t = "set_routes [(8, 2, ''can'', 255), (0, 0, ''kiss'', 3)] []"
  have t: "?t = [\<lparr>rt_address = 8, rt_netmask = 2, rt_mac = 255, rt_interface = ''can''\<rparr>,
      \<lparr>rt_address = 0, rt_netmask = 0, rt_mac = 3, rt_interface = ''kiss''\<rparr>]"
    by (simp add: set_routes_def csp_rtable_set_def csp_rtable_find_def CSP_DEFAULT_ROUTE_def)
  obtain r where r: "best_route 9 ?t r"
    "csp_rtable_find_iface 9 ?t = Some (map_option (\<lambda>k. rt_interface (?t ! k)) r)"
    using cidr_longest_prefix_match [OF refl, of "[(8, 2, ''can'', 255), (0, 0, ''kiss'', 3)]" 9]
    by (auto simp: CSP_ID_HOST_SIZE_def)
  have "best_route 9 ?t (Some 0)"
    by (simp add: t best_route_def in_network_def less_Suc_eq drop_bit_eq_div)
  with r(1) have "r = Some 0" by (rule best_route_unique)
  with r(2) t show ?thesis by simp
qed

text \<open>The two implementations agree: entering the same routes for single nodes, in any order and
  repeatedly, gives every node the same interface and next-hop address in both tables, the last
  one entered for it.\<close>

theorem cidr_and_static_agree:
  fixes rs :: "(u8 \<times> 'i \<times> u8) list"
  assumes "\<forall>r \<in> set rs. fst r < 32" and "b < 32"
  shows "rtable_route (fold (\<lambda>(a, r). set_host_entry a r) rs []) b = map_of (rev rs) b \<and>
         static_route (fold (\<lambda>(a, r). static_set_host a r) rs ([], static_clear)) b = map_of (rev rs) b"
proof -
  have "rtable_ok ([] :: 'i rtable)" by (simp add: rtable_ok_def)
  moreover have "static_ok ([] :: 'i list, static_clear)" by (auto simp: static_ok_def static_clear_def)
  moreover have "rtable_route ([] :: 'i rtable) b = None"
    by (simp add: rtable_route_def csp_rtable_find_iface_def csp_rtable_find_def)
  moreover have "static_route ([] :: 'i list, static_clear) b = None"
    using assms(2) by (simp add: static_defs static_clear_def word_less_nat_alt split: option.splits)
  ultimately show ?thesis
    using cidr.set_hosts_route [of "[]" rs b] static.set_hosts_route [of "([], static_clear)" rs b] assms
    by (simp add: cidr.set_hosts_def static.set_hosts_def split: option.splits)
qed

lemma cidr_and_static_agree_witness:
  "static_route (fold (\<lambda>(a, r). static_set_host a r) [(3, ''can'', 255), (3, ''kiss'', 7)] ([], static_clear)) 3
     = Some (''kiss'', 7)"
  using cidr_and_static_agree [of "[(3, ''can'', 255), (3, ''kiss'', 7)]" 3] by simp

end
