(* ===== verification/CspConn.thy ===== *)
theory CspConn
  imports CspBuffer CspPort CspRtable "HOL-Library.Multiset"
begin

text \<open>
  Connections (\<open>libcsp/source/csp_conn.c\<close>) and the state of a node they are part of.  The
  configuration is the one without \<open>CSP_USE_RDP\<close>, \<open>CSP_USE_QOS\<close>, \<open>CSP_USE_PROMISC\<close> and
  \<open>CSP_USE_DEDUP\<close>, the default of the build.  Pointers to connections (and sockets, which have
  the same type), queues and interfaces are indices into the lists of the state; packets are
  indices into the buffer pool.  The operations run one after the other, so a lock that is waited
  for is obtained.
\<close>

section \<open>The state of a node\<close>

datatype csp_conn_type = CONN_CLIENT | CONN_SERVER

record csp_conn =
  cn_type :: csp_conn_type
  cn_open :: bool
  cn_idin :: csp_id
  cn_idout :: csp_id
  cn_rx_queue :: "nat option list"
  cn_socket :: "nat option"
  cn_timestamp :: u32
  cn_opts :: u32

text \<open>The queue of a socket holds new connections, or the packets of a connection-less one.\<close>

datatype sock_item = ItemConn nat | ItemPacket nat

record sock_queue =
  sq_length :: nat
  sq_items :: "sock_item list"

record csp_node =
  nd_address :: u8
  nd_now :: u32
  nd_pool :: buffer_pool
  nd_conns :: "csp_conn list"
  nd_last_given :: nat
  nd_sport :: nat
  nd_ports :: "nat ports"
  nd_queues :: "sock_queue list"
  nd_ifaces :: "csp_iface list"
  nd_iflist :: "nat list"
  nd_routes :: "nat routes"
  nd_qfifo :: "(nat \<times> nat) list"
  nd_hmac_key :: "u8 list"
  nd_xtea_key :: "u8 list"

definition CSP_CONN_MAX :: nat where "CSP_CONN_MAX = 10"
definition CSP_RX_QUEUE_LENGTH :: nat where "CSP_RX_QUEUE_LENGTH = 100"
definition CSP_CONN_QUEUE_LENGTH :: nat where "CSP_CONN_QUEUE_LENGTH = 100"
definition CSP_FIFO_INPUT :: nat where "CSP_FIFO_INPUT = 10"
definition CSP_ID_PORT_MAX :: nat where "CSP_ID_PORT_MAX = 63"

abbreviation (input) set_conn :: "nat \<Rightarrow> csp_conn \<Rightarrow> csp_node \<Rightarrow> csp_node" where
  "set_conn c cn w \<equiv> w\<lparr>nd_conns := (nd_conns w)[c := cn]\<rparr>"

definition free_packet :: "nat option \<Rightarrow> csp_node \<Rightarrow> csp_node" where
  "free_packet p w = w\<lparr>nd_pool := csp_buffer_free p (nd_pool w)\<rparr>"

text \<open>\<open>csp_queue_enqueue\<close> with no timeout on the queue of a socket.\<close>

definition sock_enqueue :: "nat \<Rightarrow> sock_item \<Rightarrow> csp_node \<Rightarrow> bool \<times> csp_node" where
  "sock_enqueue q item w =
     (let s = nd_queues w ! q in
      if length (sq_items s) < sq_length s
      then (True, w\<lparr>nd_queues := (nd_queues w)[q := s\<lparr>sq_items := sq_items s @ [item]\<rparr>]\<rparr>)
      else (False, w))"

definition csp_queue_create :: "bool \<Rightarrow> nat \<Rightarrow> csp_node \<Rightarrow> nat option \<times> csp_node" where
  "csp_queue_create mem_ok len w =
     (if mem_ok then (Some (length (nd_queues w)), w\<lparr>nd_queues := nd_queues w @ [\<lparr>sq_length = len, sq_items = []\<rparr>]\<rparr>)
      else (None, w))"

section \<open>Operations\<close>

definition csp_conn_check_alive :: "nat option \<Rightarrow> csp_node \<Rightarrow> int" where
  "csp_conn_check_alive conn w =
     (case conn of None \<Rightarrow> CSP_ERR_INVAL
      | Some c \<Rightarrow>
          let cn = nd_conns w ! c in
          if \<not> cn_open cn then CSP_ERR_RESET
          else if find_index (\<lambda>d. cn_open d \<and> cn_type d = CONN_CLIENT \<and>
                    cn_idin d AND CSP_ID_CONN_MASK = cn_idout cn AND CSP_ID_CONN_MASK) (nd_conns w) = None
          then CSP_ERR_RESET
          else CSP_ERR_NONE)"

definition csp_conn_enqueue_packet :: "nat option \<Rightarrow> nat option \<Rightarrow> csp_node \<Rightarrow> int \<times> csp_node" where
  "csp_conn_enqueue_packet conn packet w =
     (case conn of None \<Rightarrow> (CSP_ERR_INVAL, w)
      | Some c \<Rightarrow>
          let cn = nd_conns w ! c in
          if length (cn_rx_queue cn) < CSP_RX_QUEUE_LENGTH
          then (CSP_ERR_NONE, set_conn c (cn\<lparr>cn_rx_queue := cn_rx_queue cn @ [packet]\<rparr>) w)
          else (CSP_ERR_NOMEM, w))"

definition closed_conn :: csp_conn where
  "closed_conn = \<lparr>cn_type = CONN_CLIENT, cn_open = False, cn_idin = 0, cn_idout = 0, cn_rx_queue = [],
     cn_socket = None, cn_timestamp = 0, cn_opts = 0\<rparr>"

text \<open>\<open>r\<close> is the number \<open>rand()\<close> returns.\<close>

definition csp_conn_init :: "nat \<Rightarrow> csp_node \<Rightarrow> csp_node" where
  "csp_conn_init r w = w\<lparr>nd_sport := r mod (CSP_ID_PORT_MAX - CSP_MAX_BIND_PORT) + (CSP_MAX_BIND_PORT + 1),
     nd_conns := replicate CSP_CONN_MAX closed_conn\<rparr>"

definition csp_conn_find :: "csp_id \<Rightarrow> csp_id \<Rightarrow> csp_node \<Rightarrow> nat option" where
  "csp_conn_find ident msk w =
     find_index (\<lambda>cn. cn_open cn \<and> cn_type cn = CONN_CLIENT \<and> cn_idin cn AND msk = ident AND msk) (nd_conns w)"

definition csp_conn_flush_rx_queue :: "nat \<Rightarrow> csp_node \<Rightarrow> csp_node" where
  "csp_conn_flush_rx_queue c w =
     (let cn = nd_conns w ! c
      in fold (\<lambda>p w. if p \<noteq> None then free_packet p w else w) (cn_rx_queue cn)
           (set_conn c (cn\<lparr>cn_rx_queue := []\<rparr>) w))"

text \<open>The search starts behind the connection given out last and goes around once.\<close>

definition csp_conn_allocate :: "csp_conn_type \<Rightarrow> csp_node \<Rightarrow> nat option \<times> csp_node" where
  "csp_conn_allocate t w =
     (case find (\<lambda>i. \<not> cn_open (nd_conns w ! i))
             (map (\<lambda>j. (nd_last_given w + 1 + j) mod CSP_CONN_MAX) [0..<CSP_CONN_MAX]) of
        None \<Rightarrow> (None, w)
      | Some i \<Rightarrow> (Some i,
          set_conn i ((nd_conns w ! i)\<lparr>cn_open := True, cn_socket := None, cn_type := t\<rparr>)
            (w\<lparr>nd_last_given := i\<rparr>)))"

definition csp_conn_new :: "csp_id \<Rightarrow> csp_id \<Rightarrow> csp_node \<Rightarrow> nat option \<times> csp_node" where
  "csp_conn_new idin idout w =
     (case csp_conn_allocate CONN_CLIENT w of
        (None, w) \<Rightarrow> (None, w)
      | (Some c, w) \<Rightarrow> (Some c, csp_conn_flush_rx_queue c
          (set_conn c ((nd_conns w ! c)\<lparr>cn_idin := idin, cn_idout := idout, cn_timestamp := nd_now w\<rparr>) w)))"

definition csp_close :: "nat option \<Rightarrow> csp_node \<Rightarrow> int \<times> csp_node" where
  "csp_close conn w =
     (case conn of None \<Rightarrow> (CSP_ERR_INVAL, w)
      | Some c \<Rightarrow>
          if \<not> cn_open (nd_conns w ! c) then (CSP_ERR_NONE, w)
          else (CSP_ERR_NONE, csp_conn_flush_rx_queue c (set_conn c ((nd_conns w ! c)\<lparr>cn_open := False\<rparr>) w)))"

subsection \<open>Connecting\<close>

text \<open>The loop that looks for an unused ephemeral port; \<open>sport\<close> is an 8-bit counter.  The result is
  the counter at the end of the loop and the identifiers; \<open>None\<close> is a loop that has not ended after
  \<open>fuel\<close> rounds.\<close>

fun sport_loop :: "nat \<Rightarrow> nat \<Rightarrow> csp_id \<Rightarrow> csp_id \<Rightarrow> csp_node \<Rightarrow> (csp_id \<times> csp_id \<times> csp_node) option" where
  "sport_loop 0 start incoming outgoing w = None"
| "sport_loop (Suc fuel) start incoming outgoing w =
     (let sport = (nd_sport w + 1) mod 256;
          w = w\<lparr>nd_sport := sport\<rparr>
      in if sport = start then Some (incoming, outgoing, w)
         else
           let sport = (if sport > CSP_ID_PORT_MAX then CSP_MAX_BIND_PORT + 1 else sport);
               w = w\<lparr>nd_sport := sport\<rparr>;
               outgoing = set_sport (of_nat sport) outgoing;
               incoming = set_dport (of_nat sport) incoming
           in if csp_conn_find incoming CSP_ID_DPORT_MASK w = None then Some (incoming, outgoing, w)
              else sport_loop fuel start incoming outgoing w)"

definition opts_flags :: "u32 \<Rightarrow> csp_id \<Rightarrow> csp_id" where
  "opts_flags opts i =
     (let i = (if opts AND CSP_SO_HMACREQ \<noteq> 0 then add_flag CSP_FHMAC i else i);
          i = (if opts AND CSP_SO_XTEAREQ \<noteq> 0 then add_flag CSP_FXTEA i else i);
          i = (if opts AND CSP_SO_CRC32REQ \<noteq> 0 then add_flag CSP_FCRC32 i else i)
      in i)"

definition csp_connect :: "nat \<Rightarrow> u8 \<Rightarrow> u8 \<Rightarrow> u8 \<Rightarrow> u32 \<Rightarrow> csp_node \<Rightarrow> (nat option \<times> csp_node) option" where
  "csp_connect fuel prio dest dport opts w =
     (if opts AND CSP_SO_RDPREQ \<noteq> 0 then Some (None, w)
      else
        let incoming = opts_flags opts (set_flags 0 (set_sport dport (set_src dest
               (set_dst (nd_address w) (set_pri prio 0)))));
            outgoing = opts_flags opts (set_flags 0 (set_dport dport (set_src (nd_address w)
               (set_dst dest (set_pri prio 0)))));
            start = nd_sport w
        in case sport_loop fuel start incoming outgoing w of
             None \<Rightarrow> None
           | Some (incoming, outgoing, w) \<Rightarrow>
               if nd_sport w = start then Some (None, w)
               else (case csp_conn_new incoming outgoing w of
                       (None, w) \<Rightarrow> Some (None, w)
                     | (Some c, w) \<Rightarrow> Some (Some c, set_conn c ((nd_conns w ! c)\<lparr>cn_opts := opts\<rparr>) w)))"

definition csp_conn_dport :: "csp_conn \<Rightarrow> u8" where "csp_conn_dport cn = id_dport (cn_idin cn)"
definition csp_conn_sport :: "csp_conn \<Rightarrow> u8" where "csp_conn_sport cn = id_sport (cn_idin cn)"
definition csp_conn_dst :: "csp_conn \<Rightarrow> u8" where "csp_conn_dst cn = id_dst (cn_idin cn)"
definition csp_conn_src :: "csp_conn \<Rightarrow> u8" where "csp_conn_src cn = id_src (cn_idin cn)"
definition csp_conn_flags :: "csp_conn \<Rightarrow> u8" where "csp_conn_flags cn = id_flags (cn_idin cn)"

section \<open>Who owns a packet\<close>

text \<open>The references to packets the node holds; \<open>M\<close> are those its tasks hold besides.  The node is
  consistent when every buffer in use is referred to exactly once.\<close>

definition rx_refs :: "csp_conn \<Rightarrow> nat multiset" where
  "rx_refs cn = mset (List.map_filter (\<lambda>p. p) (cn_rx_queue cn))"

fun item_ref :: "sock_item \<Rightarrow> nat multiset" where
  "item_ref (ItemConn c) = {#}"
| "item_ref (ItemPacket p) = {#p#}"

definition sock_refs :: "sock_queue \<Rightarrow> nat multiset" where
  "sock_refs q = sum_list (map item_ref (sq_items q))"

definition refs :: "csp_node \<Rightarrow> nat multiset" where
  "refs w = sum_list (map rx_refs (nd_conns w)) + sum_list (map sock_refs (nd_queues w)) +
     mset (map fst (nd_qfifo w))"

definition owned :: "nat multiset \<Rightarrow> csp_node \<Rightarrow> bool" where
  "owned M w \<longleftrightarrow> pool_ok (nd_pool w) \<and> refs w + M = mset_set (live (nd_pool w))"

text \<open>A socket bound to a port stays open, with a queue when it is connection-less; no two open
  connections have the same end points.\<close>

definition bound :: "csp_node \<Rightarrow> nat \<Rightarrow> bool" where
  "bound w c \<longleftrightarrow> (\<exists>p \<in> set (nd_ports w). port_socket p = Some c)"

definition server_ok :: "csp_conn \<Rightarrow> bool" where
  "server_ok cn \<longleftrightarrow> cn_open cn \<and> cn_type cn = CONN_SERVER \<and>
     (cn_opts cn AND CSP_SO_CONN_LESS \<noteq> 0 \<longrightarrow> cn_socket cn \<noteq> None)"

definition open_client :: "csp_conn \<Rightarrow> bool" where
  "open_client cn \<longleftrightarrow> cn_open cn \<and> cn_type cn = CONN_CLIENT"

definition end_points_distinct :: "csp_conn list \<Rightarrow> bool" where
  "end_points_distinct cs \<longleftrightarrow> (\<forall>i < length cs. \<forall>j < length cs.
     open_client (cs ! i) \<longrightarrow> open_client (cs ! j) \<longrightarrow>
     cn_idin (cs ! i) AND CSP_ID_CONN_MASK = cn_idin (cs ! j) AND CSP_ID_CONN_MASK \<longrightarrow> i = j)"

definition node_ok :: "csp_node \<Rightarrow> bool" where
  "node_ok w \<longleftrightarrow> length (nd_conns w) = CSP_CONN_MAX \<and> ports_ok (nd_ports w) \<and>
     static_ok (nd_iflist w, nd_routes w) \<and> set (nd_iflist w) \<subseteq> {..<length (nd_ifaces w)} \<and>
     (\<forall>cn \<in> set (nd_conns w). \<forall>q. cn_socket cn = Some q \<longrightarrow> q < length (nd_queues w)) \<and>
     (\<forall>c. bound w c \<longrightarrow> c < CSP_CONN_MAX \<and> server_ok (nd_conns w ! c)) \<and>
     end_points_distinct (nd_conns w) \<and>
     (\<forall>(p, i) \<in> set (nd_qfifo w). i < length (nd_ifaces w)) \<and>
     CSP_MAX_BIND_PORT < nd_sport w \<and> nd_sport w \<le> CSP_ID_PORT_MAX \<and> nd_hmac_key w \<noteq> []"

lemma sum_list_map_update:
  fixes f :: "'a \<Rightarrow> 'b::comm_monoid_add"
  shows "k < length xs \<Longrightarrow> sum_list (map f (xs[k := x])) + f (xs ! k) = sum_list (map f xs) + f x"
proof (induction xs arbitrary: k)
  case (Cons y ys)
  show ?case
  proof (cases k)
    case (Suc j)
    with Cons.IH [of j] Cons.prems show ?thesis by (simp add: add.assoc)
  qed (simp add: ac_simps)
qed simp

lemma owned_free: "owned (add_mset i M) w \<Longrightarrow> owned M (free_packet (Some i) w)"
proof -
  assume o: "owned (add_mset i M) w"
  then have eq: "mset_set (live (nd_pool w)) = add_mset i (refs w + M)" and ok: "pool_ok (nd_pool w)"
    by (simp_all add: owned_def)
  then have "i \<in># mset_set (live (nd_pool w))" by simp
  then have i: "i \<in> live (nd_pool w)" by simp
  then have "mset_set (live (nd_pool w) - {i}) = mset_set (live (nd_pool w)) - {#i#}"
    by (simp add: mset_set_Diff)
  then have "mset_set (live (nd_pool w) - {i}) = refs w + M" using eq by simp
  then show ?thesis
    using ok by (simp add: owned_def free_packet_def csp_buffer_free_ok csp_buffer_free_live refs_def)
qed

lemma owned_cong:
  "owned M w \<Longrightarrow> refs w' + M' = refs w + M \<Longrightarrow> nd_pool w' = nd_pool w \<Longrightarrow> owned M' w'"
  by (simp add: owned_def)

lemma owned_set_conn:
  assumes "owned M w" "c < length (nd_conns w)" "rx_refs cn + M' = rx_refs (nd_conns w ! c) + M"
  shows "owned M' (set_conn c cn w)"
proof (rule owned_cong [OF assms(1)])
  have "sum_list (map rx_refs ((nd_conns w)[c := cn])) + rx_refs (nd_conns w ! c) =
      sum_list (map rx_refs (nd_conns w)) + rx_refs cn"
    by (rule sum_list_map_update [OF assms(2)])
  then have "sum_list (map rx_refs ((nd_conns w)[c := cn])) + M' + (rx_refs (nd_conns w ! c) + rx_refs cn) =
      sum_list (map rx_refs (nd_conns w)) + M + (rx_refs (nd_conns w ! c) + rx_refs cn)"
    using assms(3) by (metis add.assoc add.commute)
  then have "sum_list (map rx_refs ((nd_conns w)[c := cn])) + M' = sum_list (map rx_refs (nd_conns w)) + M"
    by simp
  then show "refs (set_conn c cn w) + M' = refs w + M"
    by (simp add: refs_def)
qed simp


lemma free_packets_fold:
  "fold (\<lambda>p w. if p \<noteq> None then free_packet p w else w) ps w =
     w\<lparr>nd_pool := fold csp_buffer_free ps (nd_pool w)\<rparr>"
proof (induction ps arbitrary: w)
  case (Cons p ps)
  then show ?case by (cases p) (simp_all add: free_packet_def csp_buffer_free_def)
qed simp

lemma csp_conn_flush_eq:
  "csp_conn_flush_rx_queue c w =
     w\<lparr>nd_conns := (nd_conns w)[c := (nd_conns w ! c)\<lparr>cn_rx_queue := []\<rparr>],
       nd_pool := fold csp_buffer_free (cn_rx_queue (nd_conns w ! c)) (nd_pool w)\<rparr>"
  unfolding csp_conn_flush_rx_queue_def Let_def free_packets_fold by simp

lemma owned_free_all:
  "owned (mset (List.map_filter (\<lambda>p. p) ps) + M) w \<Longrightarrow>
     owned M (w\<lparr>nd_pool := fold csp_buffer_free ps (nd_pool w)\<rparr>)"
proof (induction ps arbitrary: w)
  case (Cons p ps)
  show ?case
  proof (cases p)
    case None
    with Cons show ?thesis by (simp add: csp_buffer_free_def map_filter_simps)
  next
    case (Some i)
    with Cons.prems have "owned (mset (List.map_filter (\<lambda>p. p) ps) + M) (free_packet (Some i) w)"
      by (intro owned_free) (simp add: map_filter_simps)
    from Cons.IH [OF this] Some show ?thesis by (simp add: free_packet_def)
  qed
qed (simp add: map_filter_simps)

lemma owned_flush:
  assumes "owned M w" "c < length (nd_conns w)"
  shows "owned M (csp_conn_flush_rx_queue c w)"
proof -
  let ?cn = "nd_conns w ! c"
  have "owned (rx_refs ?cn + M) (set_conn c (?cn\<lparr>cn_rx_queue := []\<rparr>) w)"
    by (rule owned_set_conn [OF assms]) (simp add: rx_refs_def map_filter_simps)
  from owned_free_all [OF this [unfolded rx_refs_def]] show ?thesis
    by (simp add: csp_conn_flush_eq)
qed

lemma owned_same:
  "owned M w \<Longrightarrow> nd_pool w' = nd_pool w \<Longrightarrow> nd_conns w' = nd_conns w \<Longrightarrow> nd_queues w' = nd_queues w \<Longrightarrow>
     nd_qfifo w' = nd_qfifo w \<Longrightarrow> owned M w'"
  by (simp add: owned_def refs_def)

lemma map_filter_append: "List.map_filter f (xs @ ys) = List.map_filter f xs @ List.map_filter f ys"
  by (simp add: List.map_filter_def)

lemma owned_fields [simp]:
  "owned M (w\<lparr>nd_last_given := l\<rparr>) = owned M w" "owned M (w\<lparr>nd_sport := s\<rparr>) = owned M w"
  "owned M (w\<lparr>nd_ports := ps\<rparr>) = owned M w" "owned M (w\<lparr>nd_ifaces := is\<rparr>) = owned M w"
  "owned M (w\<lparr>nd_iflist := il\<rparr>) = owned M w" "owned M (w\<lparr>nd_routes := rs\<rparr>) = owned M w"
  "owned M (w\<lparr>nd_address := a\<rparr>) = owned M w" "owned M (w\<lparr>nd_now := t\<rparr>) = owned M w"
  by (simp_all add: owned_def refs_def)

lemma owned_pool_size: "owned M w \<Longrightarrow> pool_ok (nd_pool w)"
  by (simp add: owned_def)

lemma owned_live: "owned M w \<Longrightarrow> i \<in># M \<Longrightarrow> i \<in> live (nd_pool w)"
  unfolding owned_def by (metis finite_live finite_set_mset_mset_set union_iff)

lemma owned_set_packet: "owned M w \<Longrightarrow> owned M (w\<lparr>nd_pool := set_packet i pk (nd_pool w)\<rparr>)"
  by (simp add: owned_def refs_def)

section \<open>Consistency of the node\<close>

lemma node_ok_fields [simp]:
  "node_ok (w\<lparr>nd_pool := p\<rparr>) = node_ok w" "node_ok (w\<lparr>nd_last_given := l\<rparr>) = node_ok w"
  "node_ok (w\<lparr>nd_now := t\<rparr>) = node_ok w"
  by (simp_all add: node_ok_def bound_def)

lemma node_ok_same:
  "node_ok w \<Longrightarrow> nd_conns w' = nd_conns w \<Longrightarrow> nd_ports w' = nd_ports w \<Longrightarrow> nd_iflist w' = nd_iflist w \<Longrightarrow>
     nd_routes w' = nd_routes w \<Longrightarrow> length (nd_ifaces w') = length (nd_ifaces w) \<Longrightarrow>
     length (nd_queues w') = length (nd_queues w) \<Longrightarrow> nd_qfifo w' = nd_qfifo w \<Longrightarrow>
     nd_sport w' = nd_sport w \<Longrightarrow> nd_hmac_key w' = nd_hmac_key w \<Longrightarrow> node_ok w'"
  by (simp add: node_ok_def bound_def)

lemma end_points_distinct_update:
  assumes "end_points_distinct cs"
    and "\<And>j. j < length cs \<Longrightarrow> j \<noteq> c \<Longrightarrow> open_client cn \<Longrightarrow> open_client (cs ! j) \<Longrightarrow>
      cn_idin cn AND CSP_ID_CONN_MASK \<noteq> cn_idin (cs ! j) AND CSP_ID_CONN_MASK"
  shows "end_points_distinct (cs[c := cn])"
  unfolding end_points_distinct_def
proof (intro allI impI)
  fix i j
  assume i: "i < length (cs[c := cn])" "open_client (cs[c := cn] ! i)"
    and j: "j < length (cs[c := cn])" "open_client (cs[c := cn] ! j)"
    and eq: "cn_idin (cs[c := cn] ! i) AND CSP_ID_CONN_MASK = cn_idin (cs[c := cn] ! j) AND CSP_ID_CONN_MASK"
  show "i = j"
  proof (rule ccontr)
    assume ne: "i \<noteq> j"
    consider "i = c" | "j = c" | "i \<noteq> c" "j \<noteq> c" by blast
    then show False
    proof cases
      case 1 with assms(2) [of j] i j eq ne show False by simp
    next
      case 2 with assms(2) [of i] i j eq ne show False by simp
    next
      case 3
      with i j eq have "i < length cs" "j < length cs" "open_client (cs ! i)" "open_client (cs ! j)"
        "cn_idin (cs ! i) AND CSP_ID_CONN_MASK = cn_idin (cs ! j) AND CSP_ID_CONN_MASK" by simp_all
      with assms(1) ne show False unfolding end_points_distinct_def by blast
    qed
  qed
qed

lemma node_ok_set_conn:
  assumes "node_ok w" "c < CSP_CONN_MAX"
    and "\<And>q. cn_socket cn = Some q \<Longrightarrow> q < length (nd_queues w)"
    and "bound w c \<Longrightarrow> server_ok cn"
    and "\<And>j. j < CSP_CONN_MAX \<Longrightarrow> j \<noteq> c \<Longrightarrow> open_client cn \<Longrightarrow> open_client (nd_conns w ! j) \<Longrightarrow>
      cn_idin cn AND CSP_ID_CONN_MASK \<noteq> cn_idin (nd_conns w ! j) AND CSP_ID_CONN_MASK"
  shows "node_ok (set_conn c cn w)"
proof -
  have "end_points_distinct ((nd_conns w)[c := cn])"
    by (rule end_points_distinct_update) (use assms(1,2,5) in \<open>auto simp: node_ok_def\<close>)
  moreover have "\<forall>d. bound w d \<longrightarrow> server_ok ((nd_conns w)[c := cn] ! d)"
    using assms(1,2,4) by (auto simp: node_ok_def nth_list_update)
  moreover have "bound (set_conn c cn w) = bound w" by (simp add: bound_def fun_eq_iff)
  ultimately show ?thesis
    using assms(1,3) by (auto simp: node_ok_def dest!: set_update_subset_insert [THEN subsetD])
qed

text \<open>Changes that keep the end points and the owner of a connection.\<close>

lemma node_ok_set_conn_same:
  assumes "node_ok w" "c < CSP_CONN_MAX" "cn_socket cn = cn_socket (nd_conns w ! c)"
    "cn_open cn = cn_open (nd_conns w ! c)" "cn_type cn = cn_type (nd_conns w ! c)"
    "cn_opts cn = cn_opts (nd_conns w ! c)"
    "cn_idin cn AND CSP_ID_CONN_MASK = cn_idin (nd_conns w ! c) AND CSP_ID_CONN_MASK"
  shows "node_ok (set_conn c cn w)"
proof (rule node_ok_set_conn [OF assms(1,2)])
  have c: "nd_conns w ! c \<in> set (nd_conns w)" using assms(1,2) by (simp add: node_ok_def)
  show "\<And>q. cn_socket cn = Some q \<Longrightarrow> q < length (nd_queues w)"
    using assms(1,3) c by (auto simp: node_ok_def)
  show "bound w c \<Longrightarrow> server_ok cn"
    using assms(1,3-6) by (simp add: node_ok_def server_ok_def)
  show "cn_idin cn AND CSP_ID_CONN_MASK \<noteq> cn_idin (nd_conns w ! j) AND CSP_ID_CONN_MASK"
    if "j < CSP_CONN_MAX" "j \<noteq> c" "open_client cn" "open_client (nd_conns w ! j)" for j
    using that assms by (auto simp: node_ok_def end_points_distinct_def open_client_def)
qed

lemma node_ok_flush: "node_ok w \<Longrightarrow> c < CSP_CONN_MAX \<Longrightarrow> node_ok (csp_conn_flush_rx_queue c w)"
  using node_ok_set_conn_same [of w c "(nd_conns w ! c)\<lparr>cn_rx_queue := []\<rparr>"]
  by (simp add: csp_conn_flush_eq)

lemma mod_distance:
  assumes "0 < (n :: nat)"
  shows "(x + (i + n - x mod n) mod n) mod n = i mod n"
proof -
  have "x mod n < n" using assms by simp
  then have "x + (i + n - x mod n) = i + n * (x div n + 1)"
    using minus_mod_eq_mult_div [of x n, symmetric] mod_less_eq_dividend [of x n] by simp
  then have "(x + (i + n - x mod n)) mod n = i mod n" by (metis mod_mult_self2)
  then show ?thesis by (simp add: mod_add_right_eq)
qed

lemma csp_conn_allocate_cases:
  assumes "node_ok w"
  obtains "csp_conn_allocate t w = (None, w)" "\<forall>cn \<in> set (nd_conns w). cn_open cn"
  | i where "i < CSP_CONN_MAX" "\<not> cn_open (nd_conns w ! i)"
      "csp_conn_allocate t w = (Some i,
         set_conn i ((nd_conns w ! i)\<lparr>cn_open := True, cn_socket := None, cn_type := t\<rparr>) (w\<lparr>nd_last_given := i\<rparr>))"
proof (cases "find (\<lambda>i. \<not> cn_open (nd_conns w ! i))
    (map (\<lambda>j. (nd_last_given w + 1 + j) mod CSP_CONN_MAX) [0..<CSP_CONN_MAX])")
  case None
  have "cn_open (nd_conns w ! i)" if "i < CSP_CONN_MAX" for i
  proof -
    define j where "j = (i + CSP_CONN_MAX - (nd_last_given w + 1) mod CSP_CONN_MAX) mod CSP_CONN_MAX"
    have "(nd_last_given w + 1 + j) mod CSP_CONN_MAX = i mod CSP_CONN_MAX"
      unfolding j_def by (rule mod_distance) (simp add: CSP_CONN_MAX_def)
    with that have "(nd_last_given w + 1 + j) mod CSP_CONN_MAX = i" by simp
    moreover have "j < CSP_CONN_MAX" by (simp add: j_def CSP_CONN_MAX_def)
    ultimately show ?thesis using None by (auto simp: find_None_iff)
  qed
  then have "\<forall>cn \<in> set (nd_conns w). cn_open cn"
    using assms by (auto simp: node_ok_def in_set_conv_nth)
  with None show thesis by (intro that(1)) (simp_all add: csp_conn_allocate_def)
next
  case (Some i)
  then have "i < CSP_CONN_MAX" "\<not> cn_open (nd_conns w ! i)"
    by (auto simp: find_Some_iff CSP_CONN_MAX_def)
  with Some show thesis by (intro that(2) [of i]) (simp_all add: csp_conn_allocate_def)
qed


definition new_conn :: "csp_id \<Rightarrow> csp_id \<Rightarrow> nat \<Rightarrow> csp_node \<Rightarrow> csp_conn" where
  "new_conn idin idout c w = (nd_conns w ! c)\<lparr>cn_open := True, cn_socket := None, cn_type := CONN_CLIENT,
     cn_idin := idin, cn_idout := idout, cn_timestamp := nd_now w, cn_rx_queue := []\<rparr>"

lemma csp_conn_new_cases:
  assumes "node_ok w"
  obtains "csp_conn_new idin idout w = (None, w)" "\<forall>cn \<in> set (nd_conns w). cn_open cn"
  | c where "c < CSP_CONN_MAX" "\<not> cn_open (nd_conns w ! c)"
      "csp_conn_new idin idout w = (Some c,
         w\<lparr>nd_last_given := c, nd_conns := (nd_conns w)[c := new_conn idin idout c w],
           nd_pool := fold csp_buffer_free (cn_rx_queue (nd_conns w ! c)) (nd_pool w)\<rparr>)"
proof (cases rule: csp_conn_allocate_cases [OF assms, of CONN_CLIENT])
  case 1
  then show thesis by (intro that(1)) (simp_all add: csp_conn_new_def)
next
  case (2 c)
  moreover have "c < length (nd_conns w)" using 2 assms by (simp add: node_ok_def)
  ultimately show thesis
    by (intro that(2) [of c]) (simp_all add: csp_conn_new_def csp_conn_flush_eq new_conn_def)
qed

lemma bound_not_free: "node_ok w \<Longrightarrow> \<not> cn_open (nd_conns w ! c) \<Longrightarrow> \<not> bound w c"
  by (auto simp: node_ok_def server_ok_def)

text \<open>A set of references grows and shrinks with the state of one connection.\<close>

lemma owned_new_conn:
  assumes "owned M w" "c < length (nd_conns w)" "cn_rx_queue cn = []"
  shows "owned M (w\<lparr>nd_last_given := l, nd_conns := (nd_conns w)[c := cn],
           nd_pool := fold csp_buffer_free (cn_rx_queue (nd_conns w ! c)) (nd_pool w)\<rparr>)"
proof -
  have "owned (rx_refs (nd_conns w ! c) + M) (set_conn c cn w)"
    by (rule owned_set_conn [OF assms(1,2)]) (simp add: rx_refs_def map_filter_simps assms(3))
  from owned_free_all [OF this [unfolded rx_refs_def]]
  have "owned M (w\<lparr>nd_conns := (nd_conns w)[c := cn],
           nd_pool := fold csp_buffer_free (cn_rx_queue (nd_conns w ! c)) (nd_pool w)\<rparr>)"
    by simp
  then show ?thesis by (rule owned_same) simp_all
qed

lemma csp_conn_new_owned:
  assumes "node_ok w" "owned M w"
  shows "owned M (snd (csp_conn_new idin idout w))"
proof (cases rule: csp_conn_new_cases [OF assms(1), of idin idout])
  case 1
  then show ?thesis using assms by simp
next
  case (2 c)
  have "c < length (nd_conns w)" using 2(1) assms(1) by (simp add: node_ok_def)
  then show ?thesis
    unfolding 2(3) snd_conv by (intro owned_new_conn assms(2)) (simp_all add: new_conn_def)
qed

lemma node_ok_new_conn:
  assumes "node_ok w" "c < CSP_CONN_MAX" "\<not> cn_open (nd_conns w ! c)"
    and "\<And>q. cn_socket cn = Some q \<Longrightarrow> q < length (nd_queues w)"
    and "csp_conn_find (cn_idin cn) CSP_ID_CONN_MASK w = None"
  shows "node_ok (w\<lparr>nd_last_given := l, nd_conns := (nd_conns w)[c := cn], nd_pool := p\<rparr>)"
proof -
  have "node_ok (set_conn c cn w)"
  proof (rule node_ok_set_conn [OF assms(1,2,4)])
    show "cn_idin cn AND CSP_ID_CONN_MASK \<noteq> cn_idin (nd_conns w ! j) AND CSP_ID_CONN_MASK"
      if "j < CSP_CONN_MAX" "open_client (nd_conns w ! j)" for j
      using that assms(1,5) unfolding csp_conn_find_def find_index_None_iff
      by (auto simp: open_client_def node_ok_def dest!: bspec [where x = "nd_conns w ! j"])
  qed (use bound_not_free [OF assms(1,3)] in auto)
  then show ?thesis by (rule node_ok_same) simp_all
qed

lemma csp_close_owned:
  assumes "node_ok w" "owned M w" "conn = None \<or> the conn < CSP_CONN_MAX"
  shows "owned M (snd (csp_close conn w))"
proof (cases conn)
  case (Some c)
  then have c: "c < length (nd_conns w)" using assms by (simp add: node_ok_def)
  have "owned M (set_conn c ((nd_conns w ! c)\<lparr>cn_open := False\<rparr>) w)"
    by (rule owned_set_conn [OF assms(2) c]) (simp add: rx_refs_def)
  then show ?thesis using Some c assms by (auto simp: csp_close_def intro!: owned_flush)
qed (use assms in \<open>simp add: csp_close_def\<close>)

lemma csp_close_ok:
  assumes "node_ok w" "conn = None \<or> the conn < CSP_CONN_MAX \<and> \<not> bound w (the conn)"
  shows "node_ok (snd (csp_close conn w))"
proof (cases conn)
  case (Some c)
  then have c: "c < CSP_CONN_MAX" "\<not> bound w c" "length (nd_conns w) = CSP_CONN_MAX"
    using assms by (simp_all add: node_ok_def)
  have "node_ok (set_conn c ((nd_conns w ! c)\<lparr>cn_open := False\<rparr>) w)"
  proof (rule node_ok_set_conn [OF assms(1) c(1)])
    have "nd_conns w ! c \<in> set (nd_conns w)" using c by simp
    then show "q < length (nd_queues w)" if "cn_socket ((nd_conns w ! c)\<lparr>cn_open := False\<rparr>) = Some q" for q
      using that assms(1) unfolding node_ok_def by auto
  qed (use c in \<open>simp_all add: open_client_def\<close>)
  then show ?thesis using Some c assms by (auto simp: csp_close_def intro!: node_ok_flush)
qed (use assms in \<open>simp add: csp_close_def\<close>)

lemma csp_conn_enqueue_owned:
  assumes "owned (add_mset p M) w" "c < length (nd_conns w)"
    "csp_conn_enqueue_packet (Some c) (Some p) w = (e, w')"
  shows "owned (if e = CSP_ERR_NONE then M else add_mset p M) w'"
proof (cases "length (cn_rx_queue (nd_conns w ! c)) < CSP_RX_QUEUE_LENGTH")
  case True
  let ?cn = "(nd_conns w ! c)\<lparr>cn_rx_queue := cn_rx_queue (nd_conns w ! c) @ [Some p]\<rparr>"
  have "owned M (set_conn c ?cn w)"
    by (rule owned_set_conn [OF assms(1,2)]) (simp add: rx_refs_def map_filter_simps map_filter_append)
  with True assms(3) show ?thesis by (auto simp: csp_conn_enqueue_packet_def Let_def)
next
  case False
  with assms show ?thesis by (auto simp: csp_conn_enqueue_packet_def Let_def csp_err_defs)
qed

lemma csp_conn_enqueue_ok:
  assumes "node_ok w" "c < CSP_CONN_MAX"
  shows "node_ok (snd (csp_conn_enqueue_packet (Some c) p w))"
  using assms node_ok_set_conn_same [of w c "(nd_conns w ! c)\<lparr>cn_rx_queue := cn_rx_queue (nd_conns w ! c) @ [p]\<rparr>"]
  by (simp add: csp_conn_enqueue_packet_def Let_def)


section \<open>Connecting finds a port\<close>

lemma bit_dport_mask: "bit CSP_ID_DPORT_MASK n \<longleftrightarrow> 14 \<le> n \<and> n < 20"
  by (auto simp: CSP_ID_DPORT_MASK_def bit_simps)

lemma dport_mask_eq_iff: "v AND CSP_ID_DPORT_MASK = w AND CSP_ID_DPORT_MASK \<longleftrightarrow> id_dport v = id_dport w"
proof
  have d: "id_dport (u AND CSP_ID_DPORT_MASK) = id_dport u" for u
    by (rule bit_word_eqI) (auto simp: id_get_defs bit_get_field bit_dport_mask bit_simps)
  show "v AND CSP_ID_DPORT_MASK = w AND CSP_ID_DPORT_MASK \<Longrightarrow> id_dport v = id_dport w"
    by (metis d)
  show "id_dport v = id_dport w \<Longrightarrow> v AND CSP_ID_DPORT_MASK = w AND CSP_ID_DPORT_MASK"
    by (rule csp_id_eqI, simp_all add: d)
      (rule bit_word_eqI, auto simp: id_get_defs bit_get_field bit_dport_mask bit_simps)+
qed

lemma set_field_twice: "set_field off sz u (set_field off sz v w) = set_field off sz u w"
  by (rule bit_word_eqI) (auto simp: bit_set_field)

lemma set_port_twice [simp]:
  "set_dport u (set_dport v w) = set_dport u w" "set_sport u (set_sport v w) = set_sport u w"
  by (simp_all add: id_set_defs set_field_twice)

definition next_port :: "nat \<Rightarrow> nat" where
  "next_port s = (if s + 1 > CSP_ID_PORT_MAX then CSP_MAX_BIND_PORT + 1 else s + 1)"

lemma next_port_iterate:
  assumes "CSP_MAX_BIND_PORT < s" "s \<le> CSP_ID_PORT_MAX"
  shows "(next_port ^^ j) s = 32 + (s - 32 + j) mod 32"
proof (induction j)
  case 0
  then show ?case using assms by (simp add: CSP_MAX_BIND_PORT_def CSP_ID_PORT_MAX_def)
next
  case (Suc j)
  have "(s - 32 + j) mod 32 < 32" by simp
  then have "(s - 32 + j) mod 32 \<noteq> 31 \<Longrightarrow> \<not> 30 < (s - 32 + j) mod 32" by linarith
  with Suc show ?case
    by (auto simp: next_port_def CSP_MAX_BIND_PORT_def CSP_ID_PORT_MAX_def mod_Suc)
qed

definition port_used :: "csp_node \<Rightarrow> nat \<Rightarrow> bool" where
  "port_used w s \<longleftrightarrow> (\<exists>cn \<in> set (nd_conns w). open_client cn \<and> id_dport (cn_idin cn) = of_nat s)"

lemma of_nat_port: "s < 64 \<Longrightarrow> take_bit 6 (of_nat s :: u8) = of_nat s"
  using take_bit_nat_eq_self [of s 6] by (simp add: take_bit_of_nat)

lemma find_port_used: "s < 64 \<Longrightarrow>
    csp_conn_find (set_dport (of_nat s) i) CSP_ID_DPORT_MASK w = None \<longleftrightarrow> \<not> port_used w s"
  by (auto simp: csp_conn_find_def find_index_None_iff dport_mask_eq_iff of_nat_port port_used_def open_client_def)

lemma sport_loop_step:
  assumes "nd_sport w = s" "CSP_MAX_BIND_PORT < s" "s \<le> CSP_ID_PORT_MAX" "Suc s \<noteq> start"
  shows "sport_loop (Suc f) start i q w =
     (if \<not> port_used w (next_port s)
      then Some (set_dport (of_nat (next_port s)) i, set_sport (of_nat (next_port s)) q, w\<lparr>nd_sport := next_port s\<rparr>)
      else sport_loop f start (set_dport (of_nat (next_port s)) i) (set_sport (of_nat (next_port s)) q)
             (w\<lparr>nd_sport := next_port s\<rparr>))"
proof -
  have p: "next_port s < 64" and s: "(s + 1) mod 256 = s + 1"
    using assms by (auto simp: next_port_def CSP_MAX_BIND_PORT_def CSP_ID_PORT_MAX_def)
  have u: "csp_conn_find (set_dport (of_nat (next_port s)) i) CSP_ID_DPORT_MASK (w\<lparr>nd_sport := n\<rparr>) = None \<longleftrightarrow>
      \<not> port_used w (next_port s)" for n
    using find_port_used [OF p, of i w] by (simp add: csp_conn_find_def)
  have "s + 1 \<noteq> start" using assms(4) by simp
  then show ?thesis
    unfolding sport_loop.simps Let_def assms(1) s next_port_def [symmetric]
    by (simp add: next_port_def [symmetric] u)
qed

lemma sport_loop_finds:
  assumes "nd_sport w = s" "CSP_MAX_BIND_PORT < s" "s \<le> CSP_ID_PORT_MAX" "k < fuel"
    and "\<forall>j < k. port_used w ((next_port ^^ Suc j) s)" "\<not> port_used w ((next_port ^^ Suc k) s)"
    and "\<forall>j \<le> k. Suc ((next_port ^^ j) s) \<noteq> start"
  shows "sport_loop fuel start i q w =
     Some (set_dport (of_nat ((next_port ^^ Suc k) s)) i, set_sport (of_nat ((next_port ^^ Suc k) s)) q,
       w\<lparr>nd_sport := (next_port ^^ Suc k) s\<rparr>)"
  using assms
proof (induction k arbitrary: fuel s i q w)
  case 0
  then obtain f where "fuel = Suc f" by (cases fuel) auto
  with 0 show ?case by (simp add: sport_loop_step [of w s] del: sport_loop.simps)
next
  case (Suc k)
  then obtain f where f: "fuel = Suc f" by (cases fuel) auto
  let ?p = "next_port s"
  have p: "CSP_MAX_BIND_PORT < ?p" "?p \<le> CSP_ID_PORT_MAX"
    using Suc.prems by (auto simp: next_port_def CSP_MAX_BIND_PORT_def CSP_ID_PORT_MAX_def)
  have used: "port_used w ?p" using Suc.prems(5) by auto
  have shift: "(next_port ^^ n) ?p = (next_port ^^ Suc n) s" for n by (simp add: funpow_swap1)
  have pu: "port_used (w\<lparr>nd_sport := ?p\<rparr>) = port_used w" by (simp add: port_used_def fun_eq_iff)
  have "sport_loop fuel start i q w = sport_loop f start (set_dport (of_nat ?p) i) (set_sport (of_nat ?p) q)
      (w\<lparr>nd_sport := ?p\<rparr>)"
    using used spec [OF Suc.prems(7), of 0] f
    by (simp add: sport_loop_step [OF Suc.prems(1-3)] del: sport_loop.simps)
  also have "\<dots> = Some (set_dport (of_nat ((next_port ^^ Suc k) ?p)) (set_dport (of_nat ?p) i),
      set_sport (of_nat ((next_port ^^ Suc k) ?p)) (set_sport (of_nat ?p) q),
      (w\<lparr>nd_sport := ?p\<rparr>)\<lparr>nd_sport := (next_port ^^ Suc k) ?p\<rparr>)"
  proof (rule Suc.IH)
    show "\<forall>j<k. port_used (w\<lparr>nd_sport := ?p\<rparr>) ((next_port ^^ Suc j) ?p)"
      unfolding shift pu using Suc.prems(5) by (metis Suc_mono)
    show "\<not> port_used (w\<lparr>nd_sport := ?p\<rparr>) ((next_port ^^ Suc k) ?p)"
      unfolding shift pu by (rule Suc.prems(6))
    show "\<forall>j\<le>k. Suc ((next_port ^^ j) ?p) \<noteq> start"
      unfolding shift using Suc.prems(7) by (metis Suc_le_mono)
  qed (use p Suc.prems f in simp_all)
  finally show ?case unfolding shift by simp
qed

lemma mod32_small: "a < 32 \<Longrightarrow> j < 32 \<Longrightarrow> (a + j) mod 32 = (if a + j < 32 then a + j else a + j - 32)"
  for a j :: nat
  by (simp add: le_mod_geq)

lemma mod32_inj: "a < 32 \<Longrightarrow> j \<le> 10 \<Longrightarrow> k \<le> 10 \<Longrightarrow> (a + Suc j) mod 32 = (a + Suc k) mod 32 \<Longrightarrow> j = k"
  using mod32_small [of a "Suc j"] mod32_small [of a "Suc k"] by (simp split: if_splits)

lemma unat_u8_of_nat: "a < 256 \<Longrightarrow> unat (of_nat a :: u8) = a"
  by (simp add: unat_of_nat)

lemma free_port_exists:
  assumes "length (nd_conns w) = CSP_CONN_MAX" "CSP_MAX_BIND_PORT < s" "s \<le> CSP_ID_PORT_MAX"
  shows "\<exists>k \<le> CSP_CONN_MAX. \<not> port_used w ((next_port ^^ Suc k) s)"
proof (rule ccontr)
  assume no: "\<not> ?thesis"
  let ?f = "\<lambda>k. of_nat ((next_port ^^ Suc k) s) :: u8"
  let ?D = "(\<lambda>cn. id_dport (cn_idin cn)) ` set (nd_conns w)"
  have "inj_on ?f {..CSP_CONN_MAX}"
  proof (rule inj_onI)
    fix j k assume jk: "j \<in> {..CSP_CONN_MAX}" "k \<in> {..CSP_CONN_MAX}" and eq: "?f j = ?f k"
    have "(next_port ^^ Suc i) s < 256" for i
      unfolding next_port_iterate [OF assms(2,3)]
      using mod_less_divisor [of 32 "s - 32 + Suc i"] by linarith
    with eq have "(next_port ^^ Suc j) s = (next_port ^^ Suc k) s"
      by (metis unat_u8_of_nat)
    then have "(s - 32 + Suc j) mod 32 = (s - 32 + Suc k) mod 32"
      by (simp only: next_port_iterate [OF assms(2,3)])
    moreover have "s - 32 < 32" using assms by (simp add: CSP_MAX_BIND_PORT_def CSP_ID_PORT_MAX_def)
    moreover have "j \<le> 10" "k \<le> 10" using jk by (simp_all add: CSP_CONN_MAX_def)
    ultimately show "j = k" by (metis mod32_inj)
  qed
  moreover have "?f ` {..CSP_CONN_MAX} \<subseteq> ?D"
  proof
    fix x assume "x \<in> ?f ` {..CSP_CONN_MAX}"
    then obtain k where "k \<le> CSP_CONN_MAX" "x = ?f k" by auto
    with no show "x \<in> ?D" unfolding port_used_def by force
  qed
  ultimately have "Suc CSP_CONN_MAX \<le> card ?D"
    by (metis card_atMost card_image card_mono finite_imageI finite_set)
  also have "card ?D \<le> length (nd_conns w)" by (meson card_image_le card_length finite_set le_trans)
  finally show False using assms(1) by simp
qed


lemma next_port_far:
  assumes "CSP_MAX_BIND_PORT < s" "s \<le> CSP_ID_PORT_MAX" "j \<le> CSP_CONN_MAX"
  shows "Suc ((next_port ^^ j) s) \<noteq> s" "(next_port ^^ Suc j) s \<noteq> s"
    "CSP_MAX_BIND_PORT < (next_port ^^ Suc j) s" "(next_port ^^ Suc j) s \<le> CSP_ID_PORT_MAX"
proof -
  define r where "r = s - 32"
  have r: "s = 32 + r" "r < 32" using assms by (simp_all add: r_def CSP_MAX_BIND_PORT_def CSP_ID_PORT_MAX_def)
  have j: "j \<le> 10" using assms(3) by (simp add: CSP_CONN_MAX_def)
  have "(r + j) mod 32 + 1 \<noteq> r" "(r + Suc j) mod 32 \<noteq> r" "(r + Suc j) mod 32 < 32"
    using mod32_small [of r j] mod32_small [of r "Suc j"] r(2) j by (auto split: if_splits)
  then show "Suc ((next_port ^^ j) s) \<noteq> s" "(next_port ^^ Suc j) s \<noteq> s"
    "CSP_MAX_BIND_PORT < (next_port ^^ Suc j) s" "(next_port ^^ Suc j) s \<le> CSP_ID_PORT_MAX"
    unfolding next_port_iterate [OF assms(1,2)]
    using r by (simp_all add: CSP_MAX_BIND_PORT_def CSP_ID_PORT_MAX_def del: funpow.simps)
qed

lemma sport_loop_result:
  assumes "length (nd_conns w) = CSP_CONN_MAX" "CSP_MAX_BIND_PORT < nd_sport w" "nd_sport w \<le> CSP_ID_PORT_MAX"
    and "CSP_CONN_MAX < fuel"
  obtains p where "sport_loop fuel (nd_sport w) i q w =
      Some (set_dport (of_nat p) i, set_sport (of_nat p) q, w\<lparr>nd_sport := p\<rparr>)"
    "p \<noteq> nd_sport w" "CSP_MAX_BIND_PORT < p" "p \<le> CSP_ID_PORT_MAX" "\<not> port_used w p"
proof -
  let ?s = "nd_sport w"
  let ?k = "LEAST k. \<not> port_used w ((next_port ^^ Suc k) ?s)"
  obtain k where k: "k \<le> CSP_CONN_MAX" "\<not> port_used w ((next_port ^^ Suc k) ?s)"
    using free_port_exists [OF assms(1-3)] by blast
  have le: "?k \<le> CSP_CONN_MAX" using Least_le [of "\<lambda>k. \<not> port_used w ((next_port ^^ Suc k) ?s)" k] k by simp
  have fr: "\<not> port_used w ((next_port ^^ Suc ?k) ?s)" using k(2) by (rule LeastI)
  have us: "\<forall>j < ?k. port_used w ((next_port ^^ Suc j) ?s)" using not_less_Least by blast
  have "\<forall>j \<le> ?k. Suc ((next_port ^^ j) ?s) \<noteq> ?s" using next_port_far(1) [OF assms(2,3)] le by (meson le_trans)
  from sport_loop_finds [OF refl assms(2,3) _ us fr this, of fuel i q] le assms(4)
    next_port_far(2-4) [OF assms(2,3) le] fr
  show thesis by (intro that) auto
qed

lemma id_flags_opts [simp]:
  "id_sport (opts_flags opts i) = id_sport i" "id_dport (opts_flags opts i) = id_dport i"
  "id_dst (opts_flags opts i) = id_dst i" "id_src (opts_flags opts i) = id_src i"
  "id_pri (opts_flags opts i) = id_pri i"
  by (simp_all add: opts_flags_def add_flag_def Let_def)

text \<open>The identifiers of the connection to \<open>dport\<close> of \<open>dest\<close> from the port \<open>p\<close>.\<close>

definition incoming_id :: "u8 \<Rightarrow> u8 \<Rightarrow> u8 \<Rightarrow> u8 \<Rightarrow> u32 \<Rightarrow> nat \<Rightarrow> csp_id" where
  "incoming_id prio me dest dport opts p = set_dport (of_nat p)
     (opts_flags opts (set_flags 0 (set_sport dport (set_src dest (set_dst me (set_pri prio 0))))))"

definition outgoing_id :: "u8 \<Rightarrow> u8 \<Rightarrow> u8 \<Rightarrow> u8 \<Rightarrow> u32 \<Rightarrow> nat \<Rightarrow> csp_id" where
  "outgoing_id prio me dest dport opts p = set_sport (of_nat p)
     (opts_flags opts (set_flags 0 (set_dport dport (set_src me (set_dst dest (set_pri prio 0))))))"

lemma csp_connect_cases:
  assumes "node_ok w" "opts AND CSP_SO_RDPREQ = 0" "CSP_CONN_MAX < fuel"
  obtains p where "csp_connect fuel prio dest dport opts w = Some (None, w\<lparr>nd_sport := p\<rparr>)"
      "CSP_MAX_BIND_PORT < p" "p \<le> CSP_ID_PORT_MAX" "\<forall>cn \<in> set (nd_conns w). cn_open cn"
  | p c cn where "csp_connect fuel prio dest dport opts w = Some (Some c,
        w\<lparr>nd_sport := p, nd_last_given := c, nd_conns := (nd_conns w)[c := cn],
          nd_pool := fold csp_buffer_free (cn_rx_queue (nd_conns w ! c)) (nd_pool w)\<rparr>)"
      "CSP_MAX_BIND_PORT < p" "p \<le> CSP_ID_PORT_MAX" "\<not> port_used w p" "c < CSP_CONN_MAX"
      "\<not> cn_open (nd_conns w ! c)"
      "cn = \<lparr>cn_type = CONN_CLIENT, cn_open = True, cn_idin = incoming_id prio (nd_address w) dest dport opts p,
         cn_idout = outgoing_id prio (nd_address w) dest dport opts p, cn_rx_queue = [], cn_socket = None,
         cn_timestamp = nd_now w, cn_opts = opts\<rparr>"
proof -
  let ?i = "opts_flags opts (set_flags 0 (set_sport dport (set_src dest (set_dst (nd_address w) (set_pri prio 0)))))"
  let ?o = "opts_flags opts (set_flags 0 (set_dport dport (set_src (nd_address w) (set_dst dest (set_pri prio 0)))))"
  have n: "length (nd_conns w) = CSP_CONN_MAX" "CSP_MAX_BIND_PORT < nd_sport w" "nd_sport w \<le> CSP_ID_PORT_MAX"
    using assms(1) by (simp_all add: node_ok_def)
  obtain p where l: "sport_loop fuel (nd_sport w) ?i ?o w =
      Some (set_dport (of_nat p) ?i, set_sport (of_nat p) ?o, w\<lparr>nd_sport := p\<rparr>)"
    and p: "p \<noteq> nd_sport w" "CSP_MAX_BIND_PORT < p" "p \<le> CSP_ID_PORT_MAX" "\<not> port_used w p"
    by (rule sport_loop_result [OF n assms(3), of ?i ?o])
  let ?w = "w\<lparr>nd_sport := p\<rparr>"
  have ok: "node_ok ?w" using assms(1) p by (simp add: node_ok_def bound_def)
  have con: "csp_connect fuel prio dest dport opts w =
     (case csp_conn_new (incoming_id prio (nd_address w) dest dport opts p)
             (outgoing_id prio (nd_address w) dest dport opts p) ?w of
        (None, w) \<Rightarrow> Some (None, w)
      | (Some c, w) \<Rightarrow> Some (Some c, set_conn c ((nd_conns w ! c)\<lparr>cn_opts := opts\<rparr>) w))"
    using assms(2) l p(1) by (simp add: csp_connect_def incoming_id_def outgoing_id_def Let_def)
  show thesis
  proof (cases rule: csp_conn_new_cases [OF ok, of "incoming_id prio (nd_address w) dest dport opts p"
        "outgoing_id prio (nd_address w) dest dport opts p"])
    case 1
    with con p show thesis by (intro that(1)) simp_all
  next
    case (2 c)
    have c: "c < length (nd_conns w)" using 2(1) n(1) by simp
    show thesis
    proof (rule that(2) [OF _ p(2-4) 2(1) _ refl])
      show "\<not> cn_open (nd_conns w ! c)" using 2(2) by simp
    qed (unfold con 2(3), use c in \<open>simp add: new_conn_def\<close>, intro csp_node.equality, simp_all,
        rule arg_cong [of _ _ "list_update (nd_conns w) c"], intro csp_conn.equality, simp_all)
  qed
qed


lemma incoming_id_fields [simp]:
  "p < 64 \<Longrightarrow> id_dport (incoming_id prio me dest dport opts p) = of_nat p"
  "id_sport (incoming_id prio me dest dport opts p) = take_bit 6 dport"
  "id_src (incoming_id prio me dest dport opts p) = take_bit 5 dest"
  "id_dst (incoming_id prio me dest dport opts p) = take_bit 5 me"
  "id_pri (incoming_id prio me dest dport opts p) = take_bit 2 prio"
  by (simp_all add: incoming_id_def of_nat_port)

lemma outgoing_id_fields [simp]:
  "p < 64 \<Longrightarrow> id_sport (outgoing_id prio me dest dport opts p) = of_nat p"
  "id_dport (outgoing_id prio me dest dport opts p) = take_bit 6 dport"
  "id_src (outgoing_id prio me dest dport opts p) = take_bit 5 me"
  "id_dst (outgoing_id prio me dest dport opts p) = take_bit 5 dest"
  "id_pri (outgoing_id prio me dest dport opts p) = take_bit 2 prio"
  by (simp_all add: outgoing_id_def of_nat_port)

text \<open>A reply carries the identifier of the request with the end points exchanged.\<close>

definition mirrored :: "csp_id \<Rightarrow> csp_id \<Rightarrow> bool" where
  "mirrored i q \<longleftrightarrow> id_src i = id_dst q \<and> id_dst i = id_src q \<and> id_sport i = id_dport q \<and>
     id_dport i = id_sport q \<and> id_flags i = id_flags q \<and> id_pri i = id_pri q"

lemma id_flags_opts_cong: "id_flags i = id_flags q \<Longrightarrow> id_flags (opts_flags opts i) = id_flags (opts_flags opts q)"
  by (simp add: opts_flags_def add_flag_def Let_def)

lemma mirrored_ids: "p < 64 \<Longrightarrow> mirrored (incoming_id prio me dest dport opts p) (outgoing_id prio me dest dport opts p)"
  by (simp add: mirrored_def) (simp add: incoming_id_def outgoing_id_def id_flags_opts_cong)

text \<open>The static variables when the program starts.\<close>

definition csp_if_lo :: csp_iface where
  "csp_if_lo = \<lparr>if_name = ''LOOP'', if_mtu = 0, if_split_horizon_off = False, if_tx = 0, if_rx = 0,
     if_tx_error = 0, if_rx_error = 0, if_drop = 0, if_autherr = 0, if_frame = 0, if_txbytes = 0, if_rxbytes = 0\<rparr>"

definition start_node :: "buffer_pool \<Rightarrow> csp_node" where
  "start_node pool = \<lparr>nd_address = 0, nd_now = 0, nd_pool = pool, nd_conns = [], nd_last_given = 0,
     nd_sport = 0, nd_ports = csp_port_init, nd_queues = [], nd_ifaces = [csp_if_lo], nd_iflist = [],
     nd_routes = static_clear, nd_qfifo = [], nd_hmac_key = replicate 16 0, nd_xtea_key = replicate 16 0\<rparr>"

lemma sport_init: "CSP_MAX_BIND_PORT < r mod (CSP_ID_PORT_MAX - CSP_MAX_BIND_PORT) + (CSP_MAX_BIND_PORT + 1) \<and>
    r mod (CSP_ID_PORT_MAX - CSP_MAX_BIND_PORT) + (CSP_MAX_BIND_PORT + 1) \<le> CSP_ID_PORT_MAX"
  using mod_less_divisor [of 32 r] by (simp add: CSP_MAX_BIND_PORT_def CSP_ID_PORT_MAX_def)

lemma static_clear_ok: "static_ok ([], static_clear)"
  by (auto simp: static_ok_def static_clear_def)

lemma csp_conn_init_ok: "node_ok (csp_conn_init r (start_node pool))"
proof -
  have "\<not> bound (csp_conn_init r (start_node pool)) c" for c
    by (auto simp: bound_def csp_conn_init_def start_node_def csp_port_init_def)
  moreover have "end_points_distinct (replicate CSP_CONN_MAX closed_conn)"
    by (simp add: end_points_distinct_def open_client_def closed_conn_def)
  ultimately show ?thesis
    using sport_init [of r] static_clear_ok csp_port_init_ok
    by (simp add: node_ok_def csp_conn_init_def start_node_def closed_conn_def)
qed

lemma csp_conn_init_owned: "pool_ok pool \<Longrightarrow> live pool = {} \<Longrightarrow> owned {#} (csp_conn_init r (start_node pool))"
  by (simp add: owned_def refs_def csp_conn_init_def start_node_def closed_conn_def rx_refs_def map_filter_simps
      CSP_CONN_MAX_def numeral_eq_Suc)

text \<open>A node with four buffers of a hundred bytes.\<close>

definition pool4 :: buffer_pool where "pool4 = the (snd (csp_buffer_init True 4 100))"

lemma pool4_ok: "pool_ok pool4" "live pool4 = {}"
  using pool_init_ok [of 4 100 CSP_ERR_NONE pool4] by (simp_all add: pool4_def csp_buffer_init_def)

lemma csp_connect_result:
  assumes "node_ok w" "owned M w" "opts AND CSP_SO_RDPREQ = 0" "CSP_CONN_MAX < fuel"
  shows "\<exists>r w'. csp_connect fuel prio dest dport opts w = Some (r, w') \<and> node_ok w' \<and> owned M w' \<and>
     (case r of None \<Rightarrow> (\<forall>cn \<in> set (nd_conns w). cn_open cn) \<and> nd_conns w' = nd_conns w
      | Some c \<Rightarrow> c < CSP_CONN_MAX \<and> \<not> cn_open (nd_conns w ! c) \<and>
          (\<exists>cn. nd_conns w' = (nd_conns w)[c := cn] \<and> open_client cn \<and> cn_rx_queue cn = [] \<and>
             mirrored (cn_idin cn) (cn_idout cn) \<and>
             id_dst (cn_idout cn) = take_bit 5 dest \<and> id_dport (cn_idout cn) = take_bit 6 dport \<and>
             (\<exists>p. CSP_MAX_BIND_PORT < p \<and> p \<le> CSP_ID_PORT_MAX \<and> id_dport (cn_idin cn) = of_nat p \<and>
                \<not> port_used w p)))"
proof (cases rule: csp_connect_cases [OF assms(1,3,4), of prio dest dport])
  case (1 p)
  moreover have "node_ok (w\<lparr>nd_sport := p\<rparr>)" using 1 assms(1) by (simp add: node_ok_def bound_def)
  ultimately show ?thesis using assms(2) by simp
next
  case (2 p c cn)
  let ?w = "w\<lparr>nd_sport := p\<rparr>"
  let ?w' = "w\<lparr>nd_sport := p, nd_last_given := c, nd_conns := (nd_conns w)[c := cn],
    nd_pool := fold csp_buffer_free (cn_rx_queue (nd_conns w ! c)) (nd_pool w)\<rparr>"
  have p: "p < 64" using 2(3) by (simp add: CSP_ID_PORT_MAX_def)
  have ok: "node_ok ?w" "owned M ?w" using 2 assms(1,2) by (simp_all add: node_ok_def bound_def)
  have c: "c < length (nd_conns ?w)" using 2 assms(1) by (simp add: node_ok_def)
  have "csp_conn_find (cn_idin cn) CSP_ID_CONN_MASK w = None"
    unfolding csp_conn_find_def find_index_None_iff
  proof
    fix d assume "d \<in> set (nd_conns w)"
    with 2(4,7) p show "\<not> (cn_open d \<and> cn_type d = CONN_CLIENT \<and>
        cn_idin d AND CSP_ID_CONN_MASK = cn_idin cn AND CSP_ID_CONN_MASK)"
      by (auto simp: conn_mask_eq_iff port_used_def open_client_def)
  qed
  then have "node_ok ?w'"
    using node_ok_new_conn [OF ok(1) 2(5), where cn = cn and l = c] 2 by (simp add: csp_conn_find_def)
  moreover have "owned M ?w'" using owned_new_conn [OF ok(2) c, where cn = cn and l = c] 2(7) by simp
  ultimately show ?thesis
    using 2 p by (auto simp: open_client_def mirrored_ids intro!: exI [of _ cn] exI [of _ p])
qed

section \<open>Properties\<close>

lemma csp_connect_opens:
  assumes "node_ok w" "owned M w" "opts AND CSP_SO_RDPREQ = 0" "CSP_CONN_MAX < fuel"
  shows "\<exists>r w'. csp_connect fuel prio dest dport opts w = Some (r, w') \<and> node_ok w' \<and> owned M w' \<and>
     (\<forall>c. r = Some c \<longrightarrow> c < CSP_CONN_MAX \<and> \<not> bound w' c)"
proof -
  obtain r w' where *: "csp_connect fuel prio dest dport opts w = Some (r, w')" "node_ok w'" "owned M w'"
    and r: "\<And>c. r = Some c \<Longrightarrow> c < CSP_CONN_MAX \<and> (\<exists>cn. nd_conns w' = (nd_conns w)[c := cn] \<and> open_client cn)"
    using csp_connect_result [OF assms, of prio dest dport] by (fastforce split: option.splits)
  have "\<not> bound w' c" if "r = Some c" for c
    using r [OF that] *(2) assms(1) by (auto simp: node_ok_def server_ok_def open_client_def)
  with * r show ?thesis by blast
qed




lemma owned_refs_live: "owned M w \<Longrightarrow> set_mset (refs w) \<union> set_mset M = live (nd_pool w)"
  by (metis finite_live finite_set_mset_mset_set owned_def set_mset_union)

lemma fold_free_live:
  "pool_ok p \<Longrightarrow> pool_ok (fold csp_buffer_free ps p) \<and>
     live (fold csp_buffer_free ps p) = live p - set (List.map_filter (\<lambda>q. q) ps)"
proof (induction ps arbitrary: p)
  case (Cons q ps)
  have "pool_ok (csp_buffer_free q p)" using Cons.prems by (rule csp_buffer_free_ok)
  from Cons.IH [OF this] Cons.prems show ?case
    by (cases q) (auto simp: csp_buffer_free_live map_filter_simps csp_buffer_free_def [of None])
qed (simp add: map_filter_simps)

text \<open>Closing an open connection succeeds, leaves the connection closed with an empty queue for
  the next user, and gives back to the pool exactly the packets that waited in that queue; every
  packet is still accounted for once.\<close>

theorem csp_close_releases:
  assumes "node_ok w" "owned M w" "c < CSP_CONN_MAX" "\<not> bound w c" "cn_open (nd_conns w ! c)"
  shows "case csp_close (Some c) w of (e, w') \<Rightarrow>
     e = CSP_ERR_NONE \<and> node_ok w' \<and> owned M w' \<and>
     nd_conns w' = (nd_conns w)[c := (nd_conns w ! c)\<lparr>cn_open := False, cn_rx_queue := []\<rparr>] \<and>
     live (nd_pool w') = live (nd_pool w) - set (List.map_filter (\<lambda>p. p) (cn_rx_queue (nd_conns w ! c)))"
proof -
  have c: "c < length (nd_conns w)" using assms by (simp add: node_ok_def)
  have w': "csp_close (Some c) w = (CSP_ERR_NONE,
      w\<lparr>nd_conns := (nd_conns w)[c := (nd_conns w ! c)\<lparr>cn_open := False, cn_rx_queue := []\<rparr>],
        nd_pool := fold csp_buffer_free (cn_rx_queue (nd_conns w ! c)) (nd_pool w)\<rparr>)"
    using assms(5) c by (simp add: csp_close_def csp_conn_flush_eq)
  have "pool_ok (nd_pool w)" using assms(2) by (simp add: owned_def)
  with w' csp_close_ok [OF assms(1), of "Some c"] csp_close_owned [OF assms(1,2), of "Some c"] assms(3,4)
    fold_free_live [of "nd_pool w" "cn_rx_queue (nd_conns w ! c)"]
  show ?thesis by simp
qed

lemma csp_close_releases_witness:
  "\<exists>c w. cn_open (nd_conns w ! c) \<and> node_ok (snd (csp_close (Some c) w)) \<and> owned {#} (snd (csp_close (Some c) w)) \<and>
     \<not> cn_open (nd_conns (snd (csp_close (Some c) w)) ! c)"
proof -
  let ?w = "csp_conn_init 5 (start_node pool4)"
  have o: "CSP_SO_HMACREQ AND CSP_SO_RDPREQ = 0" by (simp add: csp_so_defs)
  have no: "\<not> Ball (set (nd_conns ?w)) cn_open" by (simp add: csp_conn_init_def closed_conn_def CSP_CONN_MAX_def)
  obtain c w' cn where w': "node_ok w'" "owned {#} w'" "c < CSP_CONN_MAX" "nd_conns w' = (nd_conns ?w)[c := cn]"
    "open_client cn"
    using csp_connect_result [OF csp_conn_init_ok [of 5 pool4] csp_conn_init_owned [OF pool4_ok, of 5] o,
        where fuel = 11 and prio = 2 and dest = 7 and dport = 10] no
    by (fastforce simp: CSP_CONN_MAX_def split: option.splits)
  then have "nd_conns w' ! c = cn" by (simp add: csp_conn_init_def)
  moreover have "\<not> bound w' c"
    using w' calculation by (auto simp: node_ok_def server_ok_def open_client_def)
  ultimately show ?thesis
    using csp_close_releases [OF w'(1,2,3)] w'(3,4,5)
    by (intro exI [of _ c] exI [of _ w']) (auto simp: open_client_def csp_conn_init_def)
qed

end
