(* ===== verification/CspSha1.thy ===== *)
theory CspSha1
  imports CspTypes
begin

text \<open>
  The SHA-1 of the crypto layer (\<open>libcsp/source/crypto/csp_sha1.c\<close>): the compression function
  with its four groups of rounds, the buffering of the incremental interface, and the padding.
  The block buffer of the state is the bytes it holds, so \<open>curlen\<close> is its length; the bytes
  behind \<open>curlen\<close> are never read.
\<close>

definition SHA1_BLOCKSIZE :: nat where "SHA1_BLOCKSIZE = 64"
definition SHA1_DIGESTSIZE :: nat where "SHA1_DIGESTSIZE = 20"

type_synonym sha1_regs = "u32 \<times> u32 \<times> u32 \<times> u32 \<times> u32"

record csp_sha1_state =
  sha1_length :: u64
  sha1_state :: sha1_regs
  sha1_buf :: "u8 list"

definition ROL :: "u32 \<Rightarrow> nat \<Rightarrow> u32" where
  "ROL x y = push_bit y x OR drop_bit (32 - y) x"

definition F0 :: "u32 \<Rightarrow> u32 \<Rightarrow> u32 \<Rightarrow> u32" where "F0 x y z = z XOR (x AND (y XOR z))"
definition F1 :: "u32 \<Rightarrow> u32 \<Rightarrow> u32 \<Rightarrow> u32" where "F1 x y z = x XOR y XOR z"
definition F2 :: "u32 \<Rightarrow> u32 \<Rightarrow> u32 \<Rightarrow> u32" where "F2 x y z = (x AND y) OR (z AND (x OR y))"
definition F3 :: "u32 \<Rightarrow> u32 \<Rightarrow> u32 \<Rightarrow> u32" where "F3 x y z = x XOR y XOR z"

text \<open>\<open>FF_k\<close> of the source: the function and the constant of the round group, which
  \<open>i div 20\<close> selects.\<close>

definition sha1_f :: "nat \<Rightarrow> u32 \<Rightarrow> u32 \<Rightarrow> u32 \<Rightarrow> u32" where
  "sha1_f i = (if i < 20 then F0 else if i < 40 then F1 else if i < 60 then F2 else F3)"

definition sha1_k :: "nat \<Rightarrow> u32" where
  "sha1_k i = (if i < 20 then 0x5a827999 else if i < 40 then 0x6ed9eba1
     else if i < 60 then 0x8f1bbcdc else 0xca62c1d6)"

text \<open>One macro call: \<open>FF(a, b, c, d, e, i)\<close> assigns \<open>e\<close> and rotates \<open>b\<close>.  The five calls of a loop body
  pass the registers rotated by one position each, which is the rotation of the result here.\<close>

definition sha1_round :: "u32 list \<Rightarrow> nat \<Rightarrow> sha1_regs \<Rightarrow> sha1_regs" where
  "sha1_round W i r = (case r of (a, b, c, d, e) \<Rightarrow>
     (ROL a 5 + sha1_f i b c d + e + W ! i + sha1_k i, a, ROL b 30, c, d))"

text \<open>\<open>LOAD32H\<close> of sixteen words, and the expansion to eighty.\<close>

fun load32h :: "u8 list \<Rightarrow> u32 list" where
  "load32h (a # b # c # d # bs) =
     (push_bit 24 (ucast a) OR push_bit 16 (ucast b) OR push_bit 8 (ucast c) OR ucast d) # load32h bs"
| "load32h _ = []"

definition sha1_expand_step :: "nat \<Rightarrow> u32 list \<Rightarrow> u32 list" where
  "sha1_expand_step i W = W @ [ROL (W ! (i - 3) XOR W ! (i - 8) XOR W ! (i - 14) XOR W ! (i - 16)) 1]"

definition sha1_schedule :: "u8 list \<Rightarrow> u32 list" where
  "sha1_schedule buf = fold sha1_expand_step [16..<80] (load32h buf)"

definition csp_sha1_compress :: "sha1_regs \<Rightarrow> u8 list \<Rightarrow> sha1_regs" where
  "csp_sha1_compress st buf =
     (case st of (s0, s1, s2, s3, s4) \<Rightarrow>
      case fold (sha1_round (sha1_schedule buf)) [0..<80] st of (a, b, c, d, e) \<Rightarrow>
        (s0 + a, s1 + b, s2 + c, s3 + d, s4 + e))"

definition csp_sha1_init :: csp_sha1_state where
  "csp_sha1_init = \<lparr>sha1_length = 0,
     sha1_state = (0x67452301, 0xefcdab89, 0x98badcfe, 0x10325476, 0xc3d2e1f0), sha1_buf = []\<rparr>"

text \<open>The loop of \<open>csp_sha1_process\<close>: a whole block straight from the input when the buffer is
  empty, otherwise as many bytes as fill the buffer.  A buffer of more than a block does not
  exist in the C state (it has 64 bytes); the model leaves such a state as it is.\<close>

function csp_sha1_process :: "csp_sha1_state \<Rightarrow> u8 list \<Rightarrow> csp_sha1_state" where
  "csp_sha1_process sha1 inp =
     (if inp = [] \<or> SHA1_BLOCKSIZE < length (sha1_buf sha1) then sha1
      else if sha1_buf sha1 = [] \<and> SHA1_BLOCKSIZE \<le> length inp then
        csp_sha1_process
          (sha1\<lparr>sha1_state := csp_sha1_compress (sha1_state sha1) (take SHA1_BLOCKSIZE inp),
                sha1_length := sha1_length sha1 + 512\<rparr>)
          (drop SHA1_BLOCKSIZE inp)
      else
        let n = min (length inp) (SHA1_BLOCKSIZE - length (sha1_buf sha1));
            buf = sha1_buf sha1 @ take n inp
        in if length buf = SHA1_BLOCKSIZE then
             csp_sha1_process
               (sha1\<lparr>sha1_state := csp_sha1_compress (sha1_state sha1) buf,
                     sha1_length := sha1_length sha1 + 512, sha1_buf := []\<rparr>) (drop n inp)
           else csp_sha1_process (sha1\<lparr>sha1_buf := buf\<rparr>) (drop n inp))"
  by pat_completeness auto
termination
  by (relation "measure (\<lambda>(s, inp). 2 * length inp + (if length (sha1_buf s) = 64 then 1 else 0))")
    (auto simp: SHA1_BLOCKSIZE_def Let_def)

declare csp_sha1_process.simps [simp del]

definition store64h :: "u64 \<Rightarrow> u8 list" where
  "store64h x = map (\<lambda>k. ucast (drop_bit k x)) [56, 48, 40, 32, 24, 16, 8, 0]"

definition csp_sha1_done :: "csp_sha1_state \<Rightarrow> u8 list" where
  "csp_sha1_done sha1 =
     (let len = sha1_length sha1 + of_nat (length (sha1_buf sha1)) * 8;
          buf = sha1_buf sha1 @ [0x80];
          (st, buf) =
            (if length buf > 56
             then (csp_sha1_compress (sha1_state sha1) (buf @ replicate (64 - length buf) 0), [])
             else (sha1_state sha1, buf));
          buf = buf @ replicate (56 - length buf) 0;
          (a, b, c, d, e) = csp_sha1_compress st (buf @ store64h len)
      in be32 a @ be32 b @ be32 c @ be32 d @ be32 e)"

definition csp_sha1_memory :: "u8 list \<Rightarrow> u8 list" where
  "csp_sha1_memory msg = csp_sha1_done (csp_sha1_process csp_sha1_init msg)"

section \<open>The incremental interface\<close>

text \<open>The buffering never shows: processing is appending to the buffer and compressing every
  complete block.\<close>

function sha1_absorb :: "csp_sha1_state \<Rightarrow> csp_sha1_state" where
  "sha1_absorb s =
     (if length (sha1_buf s) < 64 then s
      else sha1_absorb (s\<lparr>sha1_state := csp_sha1_compress (sha1_state s) (take 64 (sha1_buf s)),
             sha1_length := sha1_length s + 512, sha1_buf := drop 64 (sha1_buf s)\<rparr>))"
  by pat_completeness auto
termination by (relation "measure (length \<circ> sha1_buf)") auto

declare sha1_absorb.simps [simp del]

lemma sha1_absorb_append:
  "sha1_absorb ((sha1_absorb s)\<lparr>sha1_buf := sha1_buf (sha1_absorb s) @ ys\<rparr>) =
     sha1_absorb (s\<lparr>sha1_buf := sha1_buf s @ ys\<rparr>)"
proof (induction s rule: sha1_absorb.induct)
  case (1 s)
  show ?case
  proof (cases "length (sha1_buf s) < 64")
    case True then show ?thesis by (simp add: sha1_absorb.simps [of s])
  next
    case False
    then have "sha1_absorb s = sha1_absorb (s\<lparr>sha1_state := csp_sha1_compress (sha1_state s) (take 64 (sha1_buf s)),
             sha1_length := sha1_length s + 512, sha1_buf := drop 64 (sha1_buf s)\<rparr>)"
      by (subst sha1_absorb.simps) simp
    with False 1 show ?thesis
      by (simp add: sha1_absorb.simps [of "s\<lparr>sha1_buf := sha1_buf s @ ys\<rparr>"])
  qed
qed

lemma sha1_absorb_buf_less: "length (sha1_buf (sha1_absorb s)) < 64"
proof (induction s rule: sha1_absorb.induct)
  case (1 s)
  then show ?case by (cases "length (sha1_buf s) < 64") (simp_all add: sha1_absorb.simps [of s])
qed

lemma sha1_absorb_small [simp]: "length (sha1_buf s) < 64 \<Longrightarrow> sha1_absorb s = s"
  by (simp add: sha1_absorb.simps)

lemma csp_sha1_process_absorb:
  "length (sha1_buf s) < 64 \<Longrightarrow> csp_sha1_process s inp = sha1_absorb (s\<lparr>sha1_buf := sha1_buf s @ inp\<rparr>)"
proof (induction s inp rule: csp_sha1_process.induct)
  case (1 s inp)
  note IH = "1.IH" and less = "1.prems"
  let ?n = "min (length inp) (64 - length (sha1_buf s))"
  consider "inp = []" | "inp \<noteq> []" "sha1_buf s = []" "64 \<le> length inp"
    | "inp \<noteq> []" "sha1_buf s \<noteq> []" "64 \<le> length inp + length (sha1_buf s)"
    | "inp \<noteq> []" "length inp + length (sha1_buf s) < 64"
    by fastforce
  then show ?case
  proof cases
    case 1 with less show ?thesis by (simp add: csp_sha1_process.simps [of s])
  next
    case 2
    with IH(1) less show ?thesis
      by (subst csp_sha1_process.simps, subst sha1_absorb.simps) (simp add: SHA1_BLOCKSIZE_def)
  next
    case 3
    then have n: "?n = 64 - length (sha1_buf s)" by auto
    with 3 IH(2) less show ?thesis
      by (subst csp_sha1_process.simps, subst sha1_absorb.simps) (simp add: SHA1_BLOCKSIZE_def Let_def)
  next
    case 4
    then have "?n = length inp" by auto
    with 4 less show ?thesis
      by (subst csp_sha1_process.simps)
        (auto simp: SHA1_BLOCKSIZE_def Let_def csp_sha1_process.simps [of _ "[]"])
  qed
qed

lemma csp_sha1_process_append:
  assumes "length (sha1_buf s) < 64"
  shows "csp_sha1_process (csp_sha1_process s xs) ys = csp_sha1_process s (xs @ ys)"
  using assms sha1_absorb_append [of "s\<lparr>sha1_buf := sha1_buf s @ xs\<rparr>" ys]
  by (simp add: csp_sha1_process_absorb sha1_absorb_buf_less)

section \<open>The standard's definition\<close>

function blocks64 :: "u8 list \<Rightarrow> u8 list list" where
  "blocks64 bs = (if length bs < 64 then [] else take 64 bs # blocks64 (drop 64 bs))"
  by pat_completeness auto
termination by (relation "measure length") auto

declare blocks64.simps [simp del]

text \<open>Padding of FIPS 180: a one bit, zeros, and the length in bits as 64 bits.\<close>

definition sha1_pad :: "u8 list \<Rightarrow> u8 list" where
  "sha1_pad msg = msg @ [0x80] @ replicate ((119 - length msg mod 64) mod 64) 0 @
     store64h (of_nat (length msg) * 8)"

definition sha1_digest :: "sha1_regs \<Rightarrow> u8 list" where
  "sha1_digest r = (case r of (a, b, c, d, e) \<Rightarrow> be32 a @ be32 b @ be32 c @ be32 d @ be32 e)"

definition sha1_reference :: "u8 list \<Rightarrow> u8 list" where
  "sha1_reference msg =
     sha1_digest (foldl csp_sha1_compress (sha1_state csp_sha1_init) (blocks64 (sha1_pad msg)))"

lemma length_sha1_digest [simp]: "length (sha1_digest r) = 20"
  by (simp add: sha1_digest_def split: prod.splits)

lemma length_store64h [simp]: "length (store64h x) = 8"
  by (simp add: store64h_def)

lemma sha1_absorb_blocks:
  "sha1_absorb s = s\<lparr>sha1_state := foldl csp_sha1_compress (sha1_state s) (blocks64 (sha1_buf s)),
     sha1_length := sha1_length s + of_nat (length (sha1_buf s) div 64) * 512,
     sha1_buf := drop (64 * (length (sha1_buf s) div 64)) (sha1_buf s)\<rparr>"
proof (induction s rule: sha1_absorb.induct)
  case (1 s)
  show ?case
  proof (cases "length (sha1_buf s) < 64")
    case True then show ?thesis by (simp add: blocks64.simps [of "sha1_buf s"])
  next
    case False
    then have "length (sha1_buf s) div 64 = Suc ((length (sha1_buf s) - 64) div 64)"
      by (simp add: le_div_geq)
    with False 1 show ?thesis
      by (subst sha1_absorb.simps) (simp add: blocks64.simps [of "sha1_buf s"] algebra_simps)
  qed
qed

lemma blocks64_append:
  "length xs mod 64 = 0 \<Longrightarrow> blocks64 (xs @ ys) = blocks64 xs @ blocks64 ys"
proof (induction xs rule: blocks64.induct)
  case (1 xs)
  show ?case
  proof (cases "length xs < 64")
    case True with 1(2) have "xs = []" by auto
    then show ?thesis by (simp add: blocks64.simps [of "[]"])
  next
    case False
    with 1 have "blocks64 (drop 64 xs @ ys) = blocks64 (drop 64 xs) @ blocks64 ys"
      by (simp add: le_mod_geq)
    with False show ?thesis by (simp add: blocks64.simps [of "xs @ ys"] blocks64.simps [of xs])
  qed
qed

lemma blocks64_single: "length xs = 64 \<Longrightarrow> blocks64 xs = [xs]"
  by (simp add: blocks64.simps)

lemma csp_sha1_done_blocks:
  assumes less: "length (sha1_buf s) < 64"
  shows "csp_sha1_done s = sha1_digest (foldl csp_sha1_compress (sha1_state s)
    (blocks64 (sha1_buf s @ [0x80] @ replicate ((119 - length (sha1_buf s)) mod 64) 0 @
      store64h (sha1_length s + of_nat (length (sha1_buf s)) * 8))))"
    (is "_ = sha1_digest (foldl _ _ (blocks64 ?m))")
proof -
  define r where "r = length (sha1_buf s)"
  define len where "len = store64h (sha1_length s + of_nat r * 8)"
  show ?thesis
  proof (cases "r < 56")
    case True
    then have "(119 - r) mod 64 = 55 - r"
      by (simp add: le_mod_geq)
    moreover have "length (sha1_buf s @ [0x80] @ replicate (55 - r) 0 @ len) = 64"
      using True by (simp add: len_def flip: r_def)
    ultimately have "blocks64 ?m = [sha1_buf s @ [0x80] @ replicate (55 - r) 0 @ len]"
      by (metis blocks64_single len_def r_def)
    with True show ?thesis
      by (simp add: csp_sha1_done_def sha1_digest_def Let_def len_def r_def)
  next
    case False
    with less have "replicate ((119 - r) mod 64) (0::u8) = replicate (63 - r) 0 @ replicate 56 0"
      by (simp add: r_def flip: replicate_add)
    then have "?m = (sha1_buf s @ [0x80] @ replicate (63 - r) 0) @ (replicate 56 0 @ len)"
      by (simp add: len_def r_def)
    moreover have "length (sha1_buf s @ [0x80] @ replicate (63 - r) (0::u8)) = 64"
      using False less by (simp add: r_def)
    moreover have "length (replicate 56 (0::u8) @ len) = 64"
      by (simp add: len_def)
    ultimately have "blocks64 ?m = [sha1_buf s @ [0x80] @ replicate (63 - r) 0, replicate 56 0 @ len]"
      by (simp add: blocks64_append blocks64_single del: length_append length_replicate append_assoc)
    with False show ?thesis
      by (simp add: csp_sha1_done_def sha1_digest_def Let_def len_def r_def)
  qed
qed

lemma csp_sha1_memory_reference: "csp_sha1_memory msg = sha1_reference msg"
proof -
  let ?n = "length msg div 64"
  let ?i = "csp_sha1_init\<lparr>sha1_buf := msg\<rparr>"
  let ?rest = "drop (64 * ?n) msg"
  have r: "length ?rest = length msg mod 64"
    by (simp add: minus_mult_div_eq_mod)
  have st: "csp_sha1_process csp_sha1_init msg =
      ?i\<lparr>sha1_state := foldl csp_sha1_compress (sha1_state csp_sha1_init) (blocks64 msg),
        sha1_length := of_nat ?n * 512, sha1_buf := ?rest\<rparr>"
    by (simp add: csp_sha1_process_absorb sha1_absorb_blocks csp_sha1_init_def)
  have "of_nat (length msg) = (of_nat ?n * 64 + of_nat (length msg mod 64) :: u64)"
    by (metis div_mult_mod_eq of_nat_add of_nat_mult of_nat_numeral)
  then have len: "of_nat ?n * 512 + of_nat (length msg mod 64) * 8 = (of_nat (length msg) * 8 :: u64)"
    by (simp add: algebra_simps)
  have "msg = take (64 * ?n) msg @ ?rest" by simp
  moreover have "blocks64 (take (64 * ?n) msg @ xs) = blocks64 (take (64 * ?n) msg) @ blocks64 xs" for xs
    by (rule blocks64_append) (simp add: min_absorb2)
  moreover have "blocks64 ?rest = []"
    using r by (simp add: blocks64.simps [of ?rest])
  ultimately have b: "blocks64 msg = blocks64 (take (64 * ?n) msg)"
    "blocks64 (msg @ xs) = blocks64 (take (64 * ?n) msg) @ blocks64 (?rest @ xs)" for xs
    by (metis append_Nil2, metis append_assoc)
  have "csp_sha1_memory msg = sha1_digest (foldl csp_sha1_compress
      (foldl csp_sha1_compress (sha1_state csp_sha1_init) (blocks64 msg))
      (blocks64 (?rest @ [0x80] @ replicate ((119 - length msg mod 64) mod 64) 0 @
        store64h (of_nat (length msg) * 8))))"
    unfolding csp_sha1_memory_def st
    by (subst csp_sha1_done_blocks) (simp_all add: r len del: length_drop)
  then show ?thesis
    by (simp add: sha1_reference_def sha1_pad_def b)
qed

lemma length_csp_sha1_memory [simp]: "length (csp_sha1_memory msg) = 20"
  by (simp add: csp_sha1_memory_reference sha1_reference_def)

section \<open>Properties\<close>

text \<open>Feeding a message in pieces is feeding it at once: the incremental interface of the hash
  does not depend on how its input is cut, whatever is already buffered.\<close>

theorem csp_sha1_process_chunks:
  assumes "length (sha1_buf s) < SHA1_BLOCKSIZE"
  shows "foldl csp_sha1_process s chunks = csp_sha1_process s (concat chunks)"
proof -
  have "length (sha1_buf t) < 64 \<Longrightarrow> foldl csp_sha1_process t cs = csp_sha1_process t (concat cs)" for t cs
  proof (induction cs arbitrary: t)
    case Nil then show ?case by (simp add: csp_sha1_process.simps [of t])
  next
    case (Cons c cs)
    have "length (sha1_buf (csp_sha1_process t c)) < 64"
      using Cons.prems by (simp add: csp_sha1_process_absorb sha1_absorb_buf_less)
    with Cons show ?case by (simp add: csp_sha1_process_append)
  qed
  with assms show ?thesis by (simp add: SHA1_BLOCKSIZE_def)
qed

lemma csp_sha1_process_chunks_witness:
  "foldl csp_sha1_process csp_sha1_init [[1, 2], [3]] = csp_sha1_process csp_sha1_init [1, 2, 3]"
  using csp_sha1_process_chunks [of csp_sha1_init "[[1, 2], [3]]"]
  by (simp add: SHA1_BLOCKSIZE_def csp_sha1_init_def)


end
