(* ===== verification/CspHmac.thy ===== *)
theory CspHmac
  imports CspSha1
begin

text \<open>
  The message authentication of the crypto layer (\<open>libcsp/source/crypto/csp_hmac.c\<close>): the
  incremental HMAC over SHA-1 and the two packet operations with the truncated code.  Pointers
  the code compares with \<open>NULL\<close> are options; the static key is an argument.  The outer result
  \<open>None\<close> is an access outside the packet.
\<close>

definition HMAC_KEY_LENGTH :: nat where "HMAC_KEY_LENGTH = 16"
definition CSP_HMAC_LENGTH :: nat where "CSP_HMAC_LENGTH = 4"

record hmac_state =
  hmac_md :: csp_sha1_state
  hmac_key :: "u8 list"

definition csp_hmac_init :: "u8 list option \<Rightarrow> int \<times> hmac_state option" where
  "csp_hmac_init key =
     (case key of None \<Rightarrow> (CSP_ERR_INVAL, None)
      | Some k \<Rightarrow>
          if length k < 1 then (CSP_ERR_INVAL, None)
          else
            let hkey = (if length k > SHA1_BLOCKSIZE
                        then csp_sha1_memory k @ replicate (SHA1_BLOCKSIZE - SHA1_DIGESTSIZE) 0
                        else k @ replicate (SHA1_BLOCKSIZE - length k) 0);
                buf = map (\<lambda>b. b XOR 0x36) hkey
            in (CSP_ERR_NONE,
                Some \<lparr>hmac_md = csp_sha1_process csp_sha1_init buf, hmac_key = hkey\<rparr>))"

definition csp_hmac_process :: "hmac_state \<Rightarrow> u8 list option \<Rightarrow> int \<times> hmac_state" where
  "csp_hmac_process hmac inp =
     (case inp of None \<Rightarrow> (CSP_ERR_INVAL, hmac)
      | Some bs \<Rightarrow> (CSP_ERR_NONE, hmac\<lparr>hmac_md := csp_sha1_process (hmac_md hmac) bs\<rparr>))"

definition csp_hmac_done :: "hmac_state \<Rightarrow> u8 list" where
  "csp_hmac_done hmac =
     (let isha = csp_sha1_done (hmac_md hmac);
          buf = map (\<lambda>b. b XOR 0x5C) (hmac_key hmac);
          md = csp_sha1_process csp_sha1_init buf;
          md = csp_sha1_process md isha
      in take SHA1_DIGESTSIZE (csp_sha1_done md))"

definition csp_hmac_memory :: "u8 list option \<Rightarrow> u8 list option \<Rightarrow> int \<times> u8 list option" where
  "csp_hmac_memory key dat =
     (if key = None \<or> dat = None then (CSP_ERR_INVAL, None)
      else case csp_hmac_init key of
        (e, None) \<Rightarrow> (CSP_ERR_INVAL, None)
      | (e, Some state) \<Rightarrow>
          if e \<noteq> 0 then (CSP_ERR_INVAL, None)
          else case csp_hmac_process state dat of (e', state') \<Rightarrow>
            if e' \<noteq> 0 then (CSP_ERR_INVAL, None)
            else (CSP_ERR_NONE, Some (csp_hmac_done state')))"

text \<open>The key of the library is the first sixteen bytes of the hash of the pass phrase.\<close>

definition csp_hmac_set_key :: "u8 list \<Rightarrow> u8 list" where
  "csp_hmac_set_key key = take HMAC_KEY_LENGTH (csp_sha1_memory key)"

definition csp_hmac_append :: "u8 list \<Rightarrow> csp_packet option \<Rightarrow> bool \<Rightarrow> (int \<times> csp_packet option) option" where
  "csp_hmac_append csp_hmac_key packet include_header =
     (case packet of None \<Rightarrow> Some (CSP_ERR_INVAL, None)
      | Some p \<Rightarrow>
          let (_, hmac) = csp_hmac_memory (Some csp_hmac_key)
                (Some (if include_header then pkt_header_data p else pkt_data p))
          in (case hmac of None \<Rightarrow> None
              | Some h \<Rightarrow> map_option (\<lambda>q. (CSP_ERR_NONE, Some q)) (pkt_append (take CSP_HMAC_LENGTH h) p)))"

text \<open>On a packet of fewer than four bytes the code computes the length \<open>length - 4\<close> below zero: the
  hash then runs over four gigabytes.  With the header included the hashed length is right, the
  comparison reads into the header, and on equality the new length wraps.\<close>

definition csp_hmac_verify :: "u8 list \<Rightarrow> csp_packet option \<Rightarrow> bool \<Rightarrow> (int \<times> csp_packet option) option" where
  "csp_hmac_verify csp_hmac_key packet include_header =
     (case packet of None \<Rightarrow> Some (CSP_ERR_INVAL, None)
      | Some p \<Rightarrow>
          let n = pkt_length p in
          if \<not> include_header \<and> n < CSP_HMAC_LENGTH then None
          else
            let (_, hmac) = csp_hmac_memory (Some csp_hmac_key)
                  (Some (if include_header then take (n + 4 - CSP_HMAC_LENGTH) (pkt_header_data p)
                         else take (n - CSP_HMAC_LENGTH) (pkt_data p)));
                stored = drop (n + 4 - CSP_HMAC_LENGTH) (pkt_header_data p)
            in (case hmac of None \<Rightarrow> None
                | Some h \<Rightarrow>
                    if stored \<noteq> take CSP_HMAC_LENGTH h then Some (CSP_ERR_HMAC, Some p)
                    else if n < CSP_HMAC_LENGTH then None
                    else Some (CSP_ERR_NONE, Some (p\<lparr>pkt_data := take (n - CSP_HMAC_LENGTH) (pkt_data p)\<rparr>))))"

section \<open>The definition of RFC 2104\<close>

definition hmac_block_key :: "u8 list \<Rightarrow> u8 list" where
  "hmac_block_key k =
     (let k' = (if length k > 64 then sha1_reference k else k) in k' @ replicate (64 - length k') 0)"

definition hmac_reference :: "u8 list \<Rightarrow> u8 list \<Rightarrow> u8 list" where
  "hmac_reference k m =
     sha1_reference (map ((XOR) 0x5C) (hmac_block_key k) @
       sha1_reference (map ((XOR) 0x36) (hmac_block_key k) @ m))"

lemma length_sha1_reference [simp]: "length (sha1_reference m) = 20"
  by (simp flip: csp_sha1_memory_reference)

lemma csp_sha1_init_buf [simp]: "sha1_buf csp_sha1_init = []"
  by (simp add: csp_sha1_init_def)

lemma csp_sha1_process_twice:
  "csp_sha1_done (csp_sha1_process (csp_sha1_process csp_sha1_init xs) ys) = sha1_reference (xs @ ys)"
  by (simp add: csp_sha1_process_append flip: csp_sha1_memory_def csp_sha1_memory_reference)

lemma csp_hmac_memory_reference:
  assumes "key \<noteq> []"
  shows "csp_hmac_memory (Some key) (Some m) = (CSP_ERR_NONE, Some (hmac_reference key m))"
proof -
  have x: "map (\<lambda>b. b XOR c) ks = map ((XOR) c) ks" for c and ks :: "u8 list"
    by (simp add: xor.commute)
  have k: "csp_hmac_init (Some key) = (CSP_ERR_NONE,
     Some \<lparr>hmac_md = csp_sha1_process csp_sha1_init (map ((XOR) 0x36) (hmac_block_key key)),
           hmac_key = hmac_block_key key\<rparr>)"
    using assms
    by (auto simp: csp_hmac_init_def hmac_block_key_def SHA1_BLOCKSIZE_def SHA1_DIGESTSIZE_def x
        csp_sha1_memory_reference Let_def Suc_le_eq)
  show ?thesis
    by (simp add: csp_hmac_memory_def k csp_hmac_process_def csp_hmac_done_def x Let_def
        csp_sha1_process_twice hmac_reference_def SHA1_DIGESTSIZE_def CSP_ERR_NONE_def)
qed

lemma length_hmac_reference [simp]: "length (hmac_reference k m) = 20"
  by (simp add: hmac_reference_def)

section \<open>Properties\<close>

text \<open>For every key that is not empty, short or longer than a block, \<open>csp_hmac_memory\<close> computes
  the HMAC-SHA1 of RFC 2104; for an empty one it reports an error.\<close>

theorem csp_hmac_memory_is_reference:
  "csp_hmac_memory (Some key) (Some m) =
     (if key = [] then (CSP_ERR_INVAL, None) else (CSP_ERR_NONE, Some (hmac_reference key m)))"
  using csp_hmac_memory_reference [of key m]
  by (simp add: csp_hmac_memory_def csp_hmac_init_def)

text \<open>A packet authenticated with any pass phrase is accepted and restored by a receiver
  with the same pass phrase, whenever the four bytes fit the buffer.\<close>

theorem csp_hmac_append_verify:
  assumes "pkt_length p + CSP_HMAC_LENGTH \<le> pkt_cap p" and "key = csp_hmac_set_key phrase"
  shows "\<exists>q. csp_hmac_append key (Some p) hdr = Some (CSP_ERR_NONE, Some q) \<and>
             pkt_length q = pkt_length p + CSP_HMAC_LENGTH \<and>
             csp_hmac_verify key (Some q) hdr = Some (CSP_ERR_NONE, Some p)"
proof -
  have "length key = 16"
    by (simp add: assms(2) csp_hmac_set_key_def HMAC_KEY_LENGTH_def)
  then have "key \<noteq> []" by auto
  then show ?thesis
    using assms(1)
    by (auto simp: csp_hmac_append_def csp_hmac_verify_def csp_hmac_memory_reference pkt_append_def
        pkt_length_def pkt_header_data_def CSP_HMAC_LENGTH_def)
qed

lemma csp_hmac_append_verify_witness:
  "\<exists>q. csp_hmac_append (csp_hmac_set_key [1]) (Some \<lparr>pkt_id = 7, pkt_data = [1, 2], pkt_cap = 6,
       pkt_quarantine = 0, pkt_timestamp = 0\<rparr>) False = Some (CSP_ERR_NONE, Some q) \<and> pkt_length q = 6"
  using csp_hmac_append_verify [of "\<lparr>pkt_id = 7, pkt_data = [1, 2], pkt_cap = 6, pkt_quarantine = 0,
          pkt_timestamp = 0\<rparr>" "csp_hmac_set_key [1]" "[1]" False]
  by (auto simp: pkt_length_def CSP_HMAC_LENGTH_def)

end
