(* ===== verification/CspXtea.thy ===== *)
theory CspXtea
  imports CspEndian CspSha1
begin

text \<open>
  The XTEA encryption of the crypto layer (\<open>libcsp/source/crypto/csp_xtea.c\<close>): the block cipher
  and its use as a key stream.  The static key is the sixteen bytes \<open>csp_xtea_key\<close>.
\<close>

definition XTEA_BLOCKSIZE :: nat where "XTEA_BLOCKSIZE = 8"
definition XTEA_ROUNDS :: nat where "XTEA_ROUNDS = 32"
definition XTEA_KEY_LENGTH :: nat where "XTEA_KEY_LENGTH = 16"

definition xtea_mix :: "u32 \<Rightarrow> u32" where
  "xtea_mix v = (push_bit 4 v XOR drop_bit 5 v) + v"

definition xtea_round :: "u32 list \<Rightarrow> u32 \<times> u32 \<times> u32 \<Rightarrow> u32 \<times> u32 \<times> u32" where
  "xtea_round k s = (case s of (v0, v1, sm) \<Rightarrow>
     let v0 = v0 + (xtea_mix v1 XOR (sm + k ! unat (sm AND 3)));
         sm = sm + 0x9E3779B9;
         v1 = v1 + (xtea_mix v0 XOR (sm + k ! unat (drop_bit 11 sm AND 3)))
     in (v0, v1, sm))"

definition csp_xtea_encrypt_block :: "u8 list \<Rightarrow> u8 list \<Rightarrow> u8 list" where
  "csp_xtea_encrypt_block block key =
     (let k = [of_le32 (take 4 key), of_le32 (take 4 (drop 4 key)),
               of_le32 (take 4 (drop 8 key)), of_le32 (take 4 (drop 12 key))];
          v0 = of_le32 (take 4 block);
          v1 = of_le32 (take 4 (drop 4 block));
          (v0, v1, sm) = (xtea_round k ^^ XTEA_ROUNDS) (v0, v1, 0)
      in le32 v0 @ le32 v1)"

definition csp_xtea_xor_byte :: "u8 list \<Rightarrow> u8 list \<Rightarrow> nat \<Rightarrow> u8 list" where
  "csp_xtea_xor_byte dst src len = xor_bytes (take len dst) (take len src) @ drop len dst"

definition csp_xtea_set_key :: "u8 list \<Rightarrow> u8 list" where
  "csp_xtea_set_key key = take XTEA_KEY_LENGTH (csp_sha1_memory key)"

text \<open>One round of the loop of \<open>csp_xtea_encrypt\<close> per block: the stream is encrypted in place and
  xored to at most eight bytes, then the stream is set from the counter before the counter is
  incremented (\<open>iv[1]++\<close>).\<close>

function xtea_loop :: "u8 list \<Rightarrow> u8 list \<Rightarrow> u32 \<Rightarrow> u32 \<Rightarrow> u8 list \<Rightarrow> u8 list" where
  "xtea_loop key stream iv0 iv1 plain =
     (if plain = [] then []
      else
        let stream = csp_xtea_encrypt_block stream key;
            n = (if length plain < XTEA_BLOCKSIZE then length plain else XTEA_BLOCKSIZE);
            cipher = csp_xtea_xor_byte (take n plain) stream n
        in cipher @ xtea_loop key (le32 (csp_htobe32 iv0) @ le32 (csp_htobe32 iv1)) iv0 (iv1 + 1) (drop n plain))"
  by pat_completeness auto
termination
  by (relation "measure (\<lambda>(_, _, _, _, plain). length plain)") (auto simp: XTEA_BLOCKSIZE_def split: if_splits)

declare xtea_loop.simps [simp del]

definition csp_xtea_encrypt :: "u8 list \<Rightarrow> u8 list \<Rightarrow> u32 \<times> u32 \<Rightarrow> int \<times> u8 list" where
  "csp_xtea_encrypt csp_xtea_key plain iv =
     (case iv of (iv0, iv1) \<Rightarrow>
       (CSP_ERR_NONE, xtea_loop csp_xtea_key (le32 (csp_htobe32 iv0) @ le32 (csp_htobe32 iv1)) iv0 iv1 plain))"

definition csp_xtea_decrypt :: "u8 list \<Rightarrow> u8 list \<Rightarrow> u32 \<times> u32 \<Rightarrow> int \<times> u8 list" where
  "csp_xtea_decrypt csp_xtea_key cipher iv = csp_xtea_encrypt csp_xtea_key cipher iv"

section \<open>The key stream\<close>

lemma length_encrypt_block [simp]: "length (csp_xtea_encrypt_block b k) = 8"
  by (simp add: csp_xtea_encrypt_block_def Let_def split: prod.splits)

text \<open>The encryption of the counter value \<open>c\<close>, and the counter of each block.\<close>

definition xtea_stream_block :: "u8 list \<Rightarrow> u32 \<Rightarrow> u32 \<Rightarrow> u8 list" where
  "xtea_stream_block key iv0 c = csp_xtea_encrypt_block (be32 iv0 @ be32 c) key"

function xtea_stream :: "u8 list \<Rightarrow> u32 \<Rightarrow> u32 \<Rightarrow> nat \<Rightarrow> u8 list" where
  "xtea_stream key iv0 c n =
     (if n = 0 then [] else xtea_stream_block key iv0 c @ xtea_stream key iv0 (c + 1) (n - 8))"
  by pat_completeness auto
termination by (relation "measure (\<lambda>(_, _, _, n). n)") auto

declare xtea_stream.simps [simp del]

definition xtea_keystream :: "u8 list \<Rightarrow> u32 \<Rightarrow> u32 \<Rightarrow> nat \<Rightarrow> u8 list" where
  "xtea_keystream key iv0 iv1 n =
     (if n = 0 then [] else xtea_stream_block key iv0 iv1 @ xtea_stream key iv0 iv1 (n - 8))"

lemma length_xtea_stream: "n \<le> length (xtea_stream key iv0 c n)"
proof (induction key iv0 c n rule: xtea_stream.induct)
  case (1 key iv0 c n)
  then show ?case by (subst xtea_stream.simps) (auto simp: xtea_stream_block_def)
qed

lemma length_xtea_keystream: "n \<le> length (xtea_keystream key iv0 c n)"
  using length_xtea_stream [of "n - 8" key iv0 c] unfolding xtea_keystream_def xtea_stream_block_def
  by simp linarith

lemma xor_bytes_take: "length xs \<le> length ys \<Longrightarrow> xor_bytes xs (take (length xs) ys) = xor_bytes xs ys"
  by (induction xs ys rule: list_induct2') (simp_all add: xor_bytes_def)

lemma xor_bytes_append:
  "length xs = length ys \<Longrightarrow> xor_bytes (xs @ xs') (ys @ ys') = xor_bytes xs ys @ xor_bytes xs' ys'"
  by (simp add: xor_bytes_def)

lemma xor_bytes_chunk:
  assumes "length ys = 8" "n = (if length xs < 8 then length xs else 8)"
  shows "xor_bytes xs (ys @ zs) = xor_bytes (take n xs) (take n ys) @ xor_bytes (drop n xs) zs"
proof (cases "length xs < 8")
  case True
  with assms have "xor_bytes xs (take (length xs) (ys @ zs)) = xor_bytes xs (ys @ zs)"
    by (intro xor_bytes_take) simp
  with assms True show ?thesis by (simp add: xor_bytes_def [of "[]"])
next
  case False
  then have "xor_bytes (take 8 xs @ drop 8 xs) (ys @ zs) = xor_bytes (take 8 xs) ys @ xor_bytes (drop 8 xs) zs"
    using assms by (intro xor_bytes_append) simp
  with assms False show ?thesis by simp
qed

lemma xtea_loop_step:
  "plain \<noteq> [] \<Longrightarrow> n = (if length plain < 8 then length plain else 8) \<Longrightarrow>
     xtea_loop key stream iv0 iv1 plain =
       xor_bytes (take n plain) (take n (csp_xtea_encrypt_block stream key)) @
       xtea_loop key (be32 iv0 @ be32 iv1) iv0 (iv1 + 1) (drop n plain)"
  by (subst xtea_loop.simps)
    (simp add: Let_def XTEA_BLOCKSIZE_def csp_xtea_xor_byte_def csp_htobe32_def)

lemma xtea_loop_stream:
  "xtea_loop key (be32 iv0 @ be32 c) iv0 (c + 1) plain =
     xor_bytes plain (xtea_stream key iv0 c (length plain))"
proof (induction "length plain" arbitrary: plain c rule: less_induct)
  case less
  show ?case
  proof (cases "plain = []")
    case True then show ?thesis by (simp add: xtea_loop.simps [of _ _ _ _ "[]"] xor_bytes_def)
  next
    case False
    define n where "n = (if length plain < 8 then length plain else 8)"
    with False have "length (drop n plain) < length plain" by auto
    note IH = less [OF this, of "c + 1"]
    have "length plain - n = length plain - 8" by (simp add: n_def)
    then have "xtea_stream key iv0 c (length plain) =
        xtea_stream_block key iv0 c @ xtea_stream key iv0 (c + 1) (length (drop n plain))"
      using False by (subst xtea_stream.simps) simp
    with False IH xtea_loop_step [OF False n_def] xor_bytes_chunk [OF _ n_def, of "xtea_stream_block key iv0 c"]
    show ?thesis by (simp add: xtea_stream_block_def)
  qed
qed

lemma xor_bytes_common:
  fixes xs ys k :: "u8 list"
  shows "length xs = length ys \<Longrightarrow> length ys = length k \<Longrightarrow>
    xor_bytes (xor_bytes xs k) (xor_bytes ys k) = xor_bytes xs ys"
proof (induction xs ys k rule: list_induct3)
  case (Cons x xs y ys z zs)
  have "(x XOR z) XOR (y XOR z) = x XOR y"
    by (metis xor.assoc xor.commute xor.right_neutral xor_self_eq)
  with Cons show ?case by (simp add: xor_bytes_def)
qed (simp add: xor_bytes_def)

lemma csp_xtea_encrypt_keystream:
  "csp_xtea_encrypt key plain (iv0, iv1) =
     (CSP_ERR_NONE, xor_bytes plain (xtea_keystream key iv0 iv1 (length plain)))"
proof (cases "plain = []")
  case True
  then show ?thesis by (simp add: csp_xtea_encrypt_def xtea_loop.simps [of _ _ _ _ "[]"] xor_bytes_def)
next
  case False
  define n where "n = (if length plain < 8 then length plain else 8)"
  have n: "length plain - n = length plain - 8" by (simp add: n_def)
  have "xtea_loop key (be32 iv0 @ be32 iv1) iv0 iv1 plain =
      xor_bytes (take n plain) (take n (xtea_stream_block key iv0 iv1)) @
      xor_bytes (drop n plain) (xtea_stream key iv0 iv1 (length plain - 8))"
    using xtea_loop_step [OF False n_def, of key "be32 iv0 @ be32 iv1" iv0 iv1]
      xtea_loop_stream [of key iv0 iv1 "drop n plain"] n
    by (simp add: xtea_stream_block_def)
  with False xor_bytes_chunk [OF _ n_def, of "xtea_stream_block key iv0 iv1"] show ?thesis
    by (simp add: csp_xtea_encrypt_def csp_htobe32_def xtea_keystream_def xtea_stream_block_def)
qed

section \<open>Properties\<close>


text \<open>The counter mode repeats itself: because the counter is incremented after it is copied to
  the stream, the first two blocks of every message are encrypted with the same eight bytes, so
  their exclusive or is that of the plain text and needs no key to compute.\<close>

theorem csp_xtea_first_blocks_share_keystream:
  assumes "csp_xtea_encrypt key (p0 @ p1 @ rest) iv = (e, c0 @ c1 @ crest)"
    and "length p0 = XTEA_BLOCKSIZE" "length p1 = XTEA_BLOCKSIZE"
    and "length c0 = XTEA_BLOCKSIZE" "length c1 = XTEA_BLOCKSIZE"
  shows "xor_bytes c0 c1 = xor_bytes p0 p1"
proof -
  obtain iv0 iv1 where iv: "iv = (iv0, iv1)" by fastforce
  define k where "k = xtea_stream_block key iv0 iv1"
  have k: "length k = 8" by (simp add: k_def xtea_stream_block_def)
  have l: "length p0 = 8" "length p1 = 8" "length c0 = 8" "length c1 = 8"
    using assms by (simp_all add: XTEA_BLOCKSIZE_def)
  have "xtea_keystream key iv0 iv1 (length (p0 @ p1 @ rest)) = k @ k @ xtea_stream key iv0 (iv1 + 1) (length rest)"
    using l by (simp add: xtea_keystream_def k_def) (subst xtea_stream.simps, simp)
  then have "c0 @ c1 @ crest = xor_bytes p0 k @ xor_bytes p1 k @
      xor_bytes rest (xtea_stream key iv0 (iv1 + 1) (length rest))"
    using assms(1) l k unfolding iv csp_xtea_encrypt_keystream
    by (simp add: xor_bytes_append)
  then have c: "c0 = xor_bytes p0 k" "c1 = xor_bytes p1 k"
    using l k by (auto simp: append_eq_append_conv)
  then show ?thesis using l k by (simp add: xor_bytes_common)
qed

lemma csp_xtea_first_blocks_share_keystream_witness:
  "\<exists>c0 c1. snd (csp_xtea_encrypt (replicate 16 7) (replicate 8 1 @ replicate 8 3) (5, 1)) = c0 @ c1 \<and>
     xor_bytes c0 c1 = replicate 8 2"
proof -
  let ?c = "snd (csp_xtea_encrypt (replicate 16 7) (replicate 8 1 @ replicate 8 3) (5, 1))"
  have l: "length ?c = 16" by (simp add: csp_xtea_encrypt_keystream min_absorb1 length_xtea_keystream)
  have "xor_bytes (take 8 ?c) (drop 8 ?c) = xor_bytes (replicate 8 1) (replicate 8 3)"
    by (rule csp_xtea_first_blocks_share_keystream [where key = "replicate 16 7" and iv = "(5, 1)" and rest = "[]"
          and crest = "[]" and e = CSP_ERR_NONE])
      (use l in \<open>simp_all add: XTEA_BLOCKSIZE_def csp_xtea_encrypt_def\<close>)
  also have "\<dots> = replicate 8 2" by (simp add: xor_bytes_def)
  finally show ?thesis by (intro exI [of _ "take 8 ?c"] exI [of _ "drop 8 ?c"]) simp
qed

end
