(* ===== verification/CspCrc32.thy ===== *)
theory CspCrc32
  imports CspEndian
begin

text \<open>
  The CRC32 of the protocol (\<open>libcsp/source/csp_crc32.c\<close>): the table-driven loop, its equality
  with the bitwise reflected Castagnoli polynomial, the errors it detects, and the two packet
  operations.  A \<open>NULL\<close> packet is \<open>None\<close>; the result \<open>None\<close> is a write outside the buffer.
\<close>

definition crc_tab :: "u32 list" where
  "crc_tab = [
   0x00000000, 0xF26B8303, 0xE13B70F7, 0x1350F3F4, 0xC79A971F, 0x35F1141C, 0x26A1E7E8, 0xD4CA64EB,
   0x8AD958CF, 0x78B2DBCC, 0x6BE22838, 0x9989AB3B, 0x4D43CFD0, 0xBF284CD3, 0xAC78BF27, 0x5E133C24,
   0x105EC76F, 0xE235446C, 0xF165B798, 0x030E349B, 0xD7C45070, 0x25AFD373, 0x36FF2087, 0xC494A384,
   0x9A879FA0, 0x68EC1CA3, 0x7BBCEF57, 0x89D76C54, 0x5D1D08BF, 0xAF768BBC, 0xBC267848, 0x4E4DFB4B,
   0x20BD8EDE, 0xD2D60DDD, 0xC186FE29, 0x33ED7D2A, 0xE72719C1, 0x154C9AC2, 0x061C6936, 0xF477EA35,
   0xAA64D611, 0x580F5512, 0x4B5FA6E6, 0xB93425E5, 0x6DFE410E, 0x9F95C20D, 0x8CC531F9, 0x7EAEB2FA,
   0x30E349B1, 0xC288CAB2, 0xD1D83946, 0x23B3BA45, 0xF779DEAE, 0x05125DAD, 0x1642AE59, 0xE4292D5A,
   0xBA3A117E, 0x4851927D, 0x5B016189, 0xA96AE28A, 0x7DA08661, 0x8FCB0562, 0x9C9BF696, 0x6EF07595,
   0x417B1DBC, 0xB3109EBF, 0xA0406D4B, 0x522BEE48, 0x86E18AA3, 0x748A09A0, 0x67DAFA54, 0x95B17957,
   0xCBA24573, 0x39C9C670, 0x2A993584, 0xD8F2B687, 0x0C38D26C, 0xFE53516F, 0xED03A29B, 0x1F682198,
   0x5125DAD3, 0xA34E59D0, 0xB01EAA24, 0x42752927, 0x96BF4DCC, 0x64D4CECF, 0x77843D3B, 0x85EFBE38,
   0xDBFC821C, 0x2997011F, 0x3AC7F2EB, 0xC8AC71E8, 0x1C661503, 0xEE0D9600, 0xFD5D65F4, 0x0F36E6F7,
   0x61C69362, 0x93AD1061, 0x80FDE395, 0x72966096, 0xA65C047D, 0x5437877E, 0x4767748A, 0xB50CF789,
   0xEB1FCBAD, 0x197448AE, 0x0A24BB5A, 0xF84F3859, 0x2C855CB2, 0xDEEEDFB1, 0xCDBE2C45, 0x3FD5AF46,
   0x7198540D, 0x83F3D70E, 0x90A324FA, 0x62C8A7F9, 0xB602C312, 0x44694011, 0x5739B3E5, 0xA55230E6,
   0xFB410CC2, 0x092A8FC1, 0x1A7A7C35, 0xE811FF36, 0x3CDB9BDD, 0xCEB018DE, 0xDDE0EB2A, 0x2F8B6829,
   0x82F63B78, 0x709DB87B, 0x63CD4B8F, 0x91A6C88C, 0x456CAC67, 0xB7072F64, 0xA457DC90, 0x563C5F93,
   0x082F63B7, 0xFA44E0B4, 0xE9141340, 0x1B7F9043, 0xCFB5F4A8, 0x3DDE77AB, 0x2E8E845F, 0xDCE5075C,
   0x92A8FC17, 0x60C37F14, 0x73938CE0, 0x81F80FE3, 0x55326B08, 0xA759E80B, 0xB4091BFF, 0x466298FC,
   0x1871A4D8, 0xEA1A27DB, 0xF94AD42F, 0x0B21572C, 0xDFEB33C7, 0x2D80B0C4, 0x3ED04330, 0xCCBBC033,
   0xA24BB5A6, 0x502036A5, 0x4370C551, 0xB11B4652, 0x65D122B9, 0x97BAA1BA, 0x84EA524E, 0x7681D14D,
   0x2892ED69, 0xDAF96E6A, 0xC9A99D9E, 0x3BC21E9D, 0xEF087A76, 0x1D63F975, 0x0E330A81, 0xFC588982,
   0xB21572C9, 0x407EF1CA, 0x532E023E, 0xA145813D, 0x758FE5D6, 0x87E466D5, 0x94B49521, 0x66DF1622,
   0x38CC2A06, 0xCAA7A905, 0xD9F75AF1, 0x2B9CD9F2, 0xFF56BD19, 0x0D3D3E1A, 0x1E6DCDEE, 0xEC064EED,
   0xC38D26C4, 0x31E6A5C7, 0x22B65633, 0xD0DDD530, 0x0417B1DB, 0xF67C32D8, 0xE52CC12C, 0x1747422F,
   0x49547E0B, 0xBB3FFD08, 0xA86F0EFC, 0x5A048DFF, 0x8ECEE914, 0x7CA56A17, 0x6FF599E3, 0x9D9E1AE0,
   0xD3D3E1AB, 0x21B862A8, 0x32E8915C, 0xC083125F, 0x144976B4, 0xE622F5B7, 0xF5720643, 0x07198540,
   0x590AB964, 0xAB613A67, 0xB831C993, 0x4A5A4A90, 0x9E902E7B, 0x6CFBAD78, 0x7FAB5E8C, 0x8DC0DD8F,
   0xE330A81A, 0x115B2B19, 0x020BD8ED, 0xF0605BEE, 0x24AA3F05, 0xD6C1BC06, 0xC5914FF2, 0x37FACCF1,
   0x69E9F0D5, 0x9B8273D6, 0x88D28022, 0x7AB90321, 0xAE7367CA, 0x5C18E4C9, 0x4F48173D, 0xBD23943E,
   0xF36E6F75, 0x0105EC76, 0x12551F82, 0xE03E9C81, 0x34F4F86A, 0xC69F7B69, 0xD5CF889D, 0x27A40B9E,
   0x79B737BA, 0x8BDCB4B9, 0x988C474D, 0x6AE7C44E, 0xBE2DA0A5, 0x4C4623A6, 0x5F16D052, 0xAD7D5351]"

definition crc_step :: "u32 \<Rightarrow> u8 \<Rightarrow> u32" where
  "crc_step crc b = crc_tab ! unat ((crc XOR ucast b) AND 0xFF) XOR drop_bit 8 crc"

definition csp_crc32_memory :: "u8 list \<Rightarrow> u32" where
  "csp_crc32_memory bs = foldl crc_step 0xFFFFFFFF bs XOR 0xFFFFFFFF"

definition csp_crc32_append :: "csp_packet option \<Rightarrow> bool \<Rightarrow> (int \<times> csp_packet option) option" where
  "csp_crc32_append packet include_header =
     (case packet of None \<Rightarrow> Some (CSP_ERR_INVAL, None)
      | Some p \<Rightarrow>
          let crc = (if include_header then csp_crc32_memory (pkt_header_data p)
                     else csp_crc32_memory (pkt_data p));
              crc = csp_hton32 crc
          in map_option (\<lambda>q. (CSP_ERR_NONE, Some q)) (pkt_append (le32 crc) p))"

definition csp_crc32_verify :: "csp_packet option \<Rightarrow> bool \<Rightarrow> int \<times> csp_packet option" where
  "csp_crc32_verify packet include_header =
     (case packet of None \<Rightarrow> (CSP_ERR_INVAL, None)
      | Some p \<Rightarrow>
          if pkt_length p < 4 then (CSP_ERR_INVAL, Some p)
          else
            let n = pkt_length p - 4;
                crc = (if include_header then csp_crc32_memory (take (n + 4) (pkt_header_data p))
                       else csp_crc32_memory (take n (pkt_data p)));
                crc = csp_hton32 crc
            in if drop n (pkt_data p) \<noteq> le32 crc then (CSP_ERR_INVAL, Some p)
               else (CSP_ERR_NONE, Some (p\<lparr>pkt_data := take n (pkt_data p)\<rparr>)))"

section \<open>The bitwise reference\<close>

definition crc_bit :: "u32 \<Rightarrow> u32" where
  "crc_bit w = drop_bit 1 w XOR (if bit w 0 then 0x82F63B78 else 0)"

definition crc_byte :: "u32 \<Rightarrow> u8 \<Rightarrow> u32" where
  "crc_byte crc b = (crc_bit ^^ 8) (crc XOR ucast b)"

definition crc32c :: "u8 list \<Rightarrow> u32" where
  "crc32c bs = NOT (foldl crc_byte (NOT 0) bs)"

lemma crc_bit_xor: "crc_bit (v XOR w) = crc_bit v XOR crc_bit w"
  by (rule bit_word_eqI) (auto simp: crc_bit_def bit_simps)

lemma crc_bits_xor: "(crc_bit ^^ n) (v XOR w) = (crc_bit ^^ n) v XOR (crc_bit ^^ n) w"
  by (induction n) (simp_all add: crc_bit_xor)

lemma crc_bit_eq_0D: "crc_bit w = 0 \<Longrightarrow> w = 0"
proof (rule bit_word_eqI)
  fix n assume z: "crc_bit w = 0" and n: "n < LENGTH(32)"
  have "\<not> bit w 0"
  proof
    assume "bit w 0"
    then have "bit (crc_bit w) 31"
      using bit_imp_le_length [of w 32] by (auto simp: crc_bit_def bit_simps)
    with z show False by simp
  qed
  moreover have "\<not> bit w (Suc m)" for m
  proof -
    have "bit (crc_bit w) m = bit w (Suc m)"
      using \<open>\<not> bit w 0\<close> by (simp add: crc_bit_def bit_simps)
    with z show ?thesis by simp
  qed
  ultimately show "bit w n = bit 0 n" by (cases n) simp_all
qed

lemma crc_bits_eq_0D: "(crc_bit ^^ n) w = 0 \<Longrightarrow> w = 0"
  by (induction n) (auto dest: crc_bit_eq_0D)

lemma crc_bits_inject [simp]: "(crc_bit ^^ n) v = (crc_bit ^^ n) w \<longleftrightarrow> v = w"
  by (metis crc_bits_eq_0D crc_bits_xor xor_eq_0_iff xor_self_eq)

text \<open>A word whose low \<open>n\<close> bits are zero is only shifted by \<open>n\<close> steps.\<close>

lemma crc_bits_shift: "take_bit n w = 0 \<Longrightarrow> (crc_bit ^^ n) w = drop_bit n w"
proof (induction n arbitrary: w)
  case (Suc n)
  have low: "\<not> bit w k" if "k < Suc n" for k
    using Suc.prems that by (metis bit_0_eq bit_take_bit_iff bot_apply bot_bool_def)
  then have "take_bit n w = 0"
    by (intro bit_word_eqI) (simp add: bit_simps)
  with Suc.IH have "(crc_bit ^^ Suc n) w = crc_bit (drop_bit n w)" by simp
  also have "\<dots> = drop_bit (Suc n) w"
    using low [of n] by (simp add: crc_bit_def bit_simps)
  finally show ?case .
qed simp

text \<open>The table holds eight bitwise steps of every byte.\<close>

definition crc_bit_nat :: "nat \<Rightarrow> nat" where
  "crc_bit_nat n = (n div 2) XOR (if odd n then 0x82F63B78 else 0)"

lemma crc_bit_nat_numerals [simp]:
  "crc_bit_nat 0 = 0" "crc_bit_nat (Suc 0) = 0x82F63B78"
  "crc_bit_nat (numeral (Num.Bit0 n)) = numeral n"
  "crc_bit_nat (numeral (Num.Bit1 n)) = numeral n XOR 0x82F63B78"
  by (simp_all add: crc_bit_nat_def)

lemma crc_bit_of_nat: "n < 2 ^ 32 \<Longrightarrow> crc_bit (of_nat n) = of_nat (crc_bit_nat n)"
proof (rule bit_word_eqI)
  fix k assume n: "n < 2 ^ 32" and k: "k < LENGTH(32)"
  have "bit (of_nat n :: u32) (Suc k) = bit n (Suc k)"
  proof (cases "Suc k < 32")
    case False
    with k have "Suc k = 32" by simp
    moreover have "n div 2 ^ 32 = 0" using n by simp
    ultimately show ?thesis
      using bit_imp_le_length [of "of_nat n :: u32" 32] by (auto simp: bit_iff_odd [of n])
  qed (simp add: bit_simps)
  moreover have "bit (of_nat 0x82F63B78 :: u32) k = bit (0x82F63B78 :: nat) k"
    using k unfolding bit_of_nat_iff by simp
  then have "bit (0x82F63B78 :: u32) k = bit (0x82F63B78 :: nat) k"
    by (simp only: of_nat_numeral)
  ultimately show "bit (crc_bit (of_nat n)) k = bit (of_nat (crc_bit_nat n) :: u32) k"
    using k by (simp add: crc_bit_def crc_bit_nat_def bit_simps bit_Suc bit_0)
qed

lemma crc_bit_nat_less: "n < 2 ^ 32 \<Longrightarrow> crc_bit_nat n < 2 ^ 32"
proof -
  assume "n < 2 ^ 32"
  then have "take_bit 32 (n div 2) = n div 2"
    by (simp add: take_bit_nat_eq_self_iff)
  then have "take_bit 32 (crc_bit_nat n) = crc_bit_nat n"
    by (simp add: crc_bit_nat_def take_bit_xor)
  then show ?thesis by (simp only: take_bit_nat_eq_self_iff)
qed

lemma crc_bits_of_nat: "n < 2 ^ 32 \<Longrightarrow> (crc_bit ^^ k) (of_nat n) = of_nat ((crc_bit_nat ^^ k) n)"
proof -
  assume "n < 2 ^ 32"
  then have "(crc_bit_nat ^^ k) n < 2 ^ 32 \<and> (crc_bit ^^ k) (of_nat n) = of_nat ((crc_bit_nat ^^ k) n)"
    by (induction k) (simp_all only: funpow.simps comp_apply id_apply crc_bit_nat_less crc_bit_of_nat simp_thms)
  then show ?thesis by blast
qed

lemma funpow_8: "(f ^^ 8) x = f (f (f (f (f (f (f (f x)))))))"
  by (simp add: eval_nat_numeral)

lemma crc_tab_nat: "map (crc_bit_nat ^^ 8) [0..<256] = map unat crc_tab"
proof -
  have "[0..<256] = 0 # 1 # [2..<256]"
    by (simp add: upt_rec)
  then show ?thesis
    by (simp add: crc_tab_def upt_rec_numeral funpow_8)
qed

lemma crc_tab_reference: "crc_tab = map (\<lambda>i. (crc_bit ^^ 8) (of_nat i)) [0..<256]"
proof -
  have "map (\<lambda>i. (crc_bit ^^ 8) (of_nat i)) [0..<256] = map of_nat (map (crc_bit_nat ^^ 8) [0..<256])"
    by (simp add: crc_bits_of_nat)
  also have "\<dots> = crc_tab"
    by (simp only: crc_tab_nat) (simp add: comp_def)
  finally show ?thesis by simp
qed

lemma crc_step_eq: "crc_step crc b = crc_byte crc b"
proof -
  define x where "x = crc XOR ucast b"
  have b: "drop_bit 8 (ucast b :: u32) = 0"
    by (rule bit_word_eqI) (simp add: bit_simps)
  then have d: "drop_bit 8 x = drop_bit 8 crc"
    by (simp add: x_def)
  have "unat (x AND 0xFF) = unat (take_bit 8 x)"
    by (simp add: take_bit_eq_mask mask_eq_exp_minus_1)
  moreover have "unat (take_bit 8 x) < 256"
    using take_bit_nat_less_exp [of 8 "unat x"] by (simp add: unsigned_take_bit_eq)
  ultimately have "crc_tab ! unat (x AND 0xFF) = (crc_bit ^^ 8) (take_bit 8 x)"
    by (simp add: crc_tab_reference)
  moreover have "x = take_bit 8 x XOR push_bit 8 (drop_bit 8 x)"
    by (rule bit_word_eqI) (auto simp: bit_simps)
  then have "(crc_bit ^^ 8) x = (crc_bit ^^ 8) (take_bit 8 x) XOR (crc_bit ^^ 8) (push_bit 8 (drop_bit 8 x))"
    by (metis crc_bits_xor)
  moreover have "(crc_bit ^^ 8) (push_bit 8 (drop_bit 8 x)) = drop_bit 8 x"
  proof -
    have "take_bit 8 (push_bit 8 (drop_bit 8 x)) = 0"
      by (simp add: take_bit_push_bit)
    moreover have "drop_bit 8 (push_bit 8 (drop_bit 8 x)) = drop_bit 8 x"
      by (rule bit_word_eqI) (auto simp: bit_simps dest: bit_imp_le_length)
    ultimately show ?thesis by (simp only: crc_bits_shift)
  qed
  ultimately show ?thesis
    by (simp add: crc_step_def crc_byte_def d flip: x_def)
qed

lemma crc_memory_reference: "csp_crc32_memory bs = crc32c bs"
proof -
  have "crc_step = crc_byte" by (intro ext) (rule crc_step_eq)
  moreover have "(0xFFFFFFFF :: u32) = NOT 0" by simp
  moreover have "w XOR NOT 0 = NOT (w :: u32)" for w
    by (rule bit_word_eqI) (simp add: bit_simps)
  ultimately show ?thesis
    by (simp only: csp_crc32_memory_def crc32c_def)
qed

section \<open>Error detection\<close>

lemma crc_byte_inject_state: "crc_byte c b = crc_byte c' b \<longleftrightarrow> c = c'"
  by (simp only: crc_byte_def crc_bits_inject xor_cancel_right)

lemma foldl_crc_inject: "foldl crc_byte c bs = foldl crc_byte c' bs \<longleftrightarrow> c = c'"
  by (induction bs arbitrary: c c') (simp_all add: crc_byte_inject_state)

lemma crc_bits_shift_byte:
  assumes "n + 8 \<le> 32"
  shows "(crc_bit ^^ n) (push_bit n (ucast (b :: u8))) = ucast b"
proof -
  have "drop_bit n (push_bit n (ucast b :: u32)) = ucast b"
    using assms by (intro bit_word_eqI) (auto simp: bit_simps dest: bit_imp_le_length)
  then show ?thesis by (simp add: crc_bits_shift take_bit_push_bit)
qed

text \<open>Four bytes are one little-endian word fed to 32 bitwise steps, so a window of four bytes
  determines the register.\<close>

lemma crc_window:
  "foldl crc_byte c [b0, b1, b2, b3] = (crc_bit ^^ 32) (c XOR of_le32 [b0, b1, b2, b3])"
proof -
  have step: "crc_byte ((crc_bit ^^ n) x) b = (crc_bit ^^ (n + 8)) (x XOR push_bit n (ucast b))"
    if "n + 8 \<le> 32" for n x b
    using that
    by (simp add: crc_byte_def crc_bits_xor [of n] crc_bits_shift_byte funpow_add add.commute [of n])
  have "c XOR of_le32 [b0, b1, b2, b3] =
      c XOR push_bit 0 (ucast b0) XOR push_bit 8 (ucast b1) XOR push_bit 16 (ucast b2) XOR push_bit 24 (ucast b3)"
    by (rule word32_byte_eqI) (auto simp: bit_simps)
  moreover have "foldl crc_byte c [b0, b1, b2, b3] =
      (crc_bit ^^ 32) (c XOR push_bit 0 (ucast b0) XOR push_bit 8 (ucast b1) XOR push_bit 16 (ucast b2) XOR push_bit 24 (ucast b3))"
    using step [of 0 c b0] step [of 8 _ b1] step [of 16 _ b2] step [of 24 _ b3] by (simp add: xor.assoc)
  ultimately show ?thesis by (simp only:)
qed

lemma crc_window_inject:
  assumes "length xs = 4" "length ys = 4" "foldl crc_byte c xs = foldl crc_byte c ys"
  shows "xs = ys"
proof -
  from assms(1) obtain a0 a1 a2 a3 where xs: "xs = [a0, a1, a2, a3]" by (erule length_4E)
  from assms(2) obtain b0 b1 b2 b3 where ys: "ys = [b0, b1, b2, b3]" by (erule length_4E)
  have "c XOR of_le32 xs = c XOR of_le32 ys"
    using assms(3) unfolding xs ys crc_window by (simp only: crc_bits_inject)
  then have "of_le32 xs = of_le32 ys"
    by (simp only: xor_cancel_left)
  then show ?thesis using assms(1,2) by (metis le32_of_le32)
qed

lemma crc32c_detects_window:
  assumes "length w = 4" "length w' = 4" "w \<noteq> w'"
  shows "crc32c (xs @ w @ ys) \<noteq> crc32c (xs @ w' @ ys)"
proof
  assume "crc32c (xs @ w @ ys) = crc32c (xs @ w' @ ys)"
  then have "NOT (crc32c (xs @ w @ ys)) = NOT (crc32c (xs @ w' @ ys))" by (rule arg_cong)
  then have "foldl crc_byte (foldl crc_byte (NOT 0) xs) w = foldl crc_byte (foldl crc_byte (NOT 0) xs) w'"
    by (simp add: crc32c_def foldl_crc_inject)
  with assms show False using crc_window_inject by blast
qed

section \<open>Properties\<close>

text \<open>C31. The table-driven loop of \<open>csp_crc32_memory\<close> computes, on every input, the CRC-32C of the
  bitwise definition: initial value and final inversion all ones, reflected polynomial 0x82F63B78.\<close>

theorem csp_crc32_memory_is_crc32c: "csp_crc32_memory bs = crc32c bs"
  by (rule crc_memory_reference)

text \<open>When the four bytes fit the buffer, \<open>csp_crc32_append\<close> succeeds, and
  \<open>csp_crc32_verify\<close> then accepts the packet and gives back exactly the original one, with and
  without the header in the checksum.\<close>

theorem csp_crc32_append_verify:
  assumes "pkt_length p + 4 \<le> pkt_cap p"
  shows "\<exists>q. csp_crc32_append (Some p) hdr = Some (CSP_ERR_NONE, Some q) \<and>
             pkt_length q = pkt_length p + 4 \<and>
             csp_crc32_verify (Some q) hdr = (CSP_ERR_NONE, Some p)"
  using assms
  by (auto simp: csp_crc32_append_def csp_crc32_verify_def pkt_append_def pkt_length_def
      pkt_header_data_def)

lemma csp_crc32_append_verify_witness:
  "\<exists>q. csp_crc32_append (Some \<lparr>pkt_id = 7, pkt_data = [1, 2], pkt_cap = 6, pkt_quarantine = 0,
          pkt_timestamp = 0\<rparr>) True = Some (CSP_ERR_NONE, Some q) \<and> pkt_length q = 6"
  using csp_crc32_append_verify [of "\<lparr>pkt_id = 7, pkt_data = [1, 2], pkt_cap = 6, pkt_quarantine = 0,
          pkt_timestamp = 0\<rparr>" True]
  by (auto simp: pkt_length_def)



end
