(* ===== verification/CspIo.thy ===== *)
theory CspIo
  imports CspConn CspHmac CspXtea CspCrc32
begin

text \<open>
  Sending and receiving (\<open>libcsp/source/csp_io.c\<close>), the input queue of the router
  (\<open>csp_qfifo.c\<close>), the loopback interface (\<open>interfaces/csp_if_lo.c\<close>) and \<open>csp_listen\<close>
  (\<open>csp_port.c\<close>).  The result \<open>None\<close> of an operation is an access outside a buffer.

  The transmit function of an interface, \<open>ifout->nexthop\<close>, is a parameter \<open>nh\<close> of the senders; the
  locale \<open>csp_interface\<close> says what it promises about the packet it is given.
\<close>

section \<open>The input queue\<close>

definition set_iface :: "nat \<Rightarrow> csp_iface \<Rightarrow> csp_node \<Rightarrow> csp_node" where
  "set_iface i ifc w = w\<lparr>nd_ifaces := (nd_ifaces w)[i := ifc]\<rparr>"

definition count_drop :: "csp_iface \<Rightarrow> csp_iface" where
  "count_drop ifc = ifc\<lparr>if_drop := if_drop ifc + 1\<rparr>"

definition count_rx :: "nat \<Rightarrow> csp_iface \<Rightarrow> csp_iface" where
  "count_rx n ifc = ifc\<lparr>if_rx := if_rx ifc + 1, if_rxbytes := if_rxbytes ifc + of_nat n\<rparr>"

definition csp_qfifo_write :: "nat option \<Rightarrow> nat option \<Rightarrow> csp_node \<Rightarrow> csp_node" where
  "csp_qfifo_write packet interface w =
     (case packet of None \<Rightarrow> w
      | Some p \<Rightarrow>
          case interface of None \<Rightarrow> free_packet packet w
          | Some i \<Rightarrow>
              if length (nd_qfifo w) < CSP_FIFO_INPUT
              then set_iface i (count_rx (pkt_length (buf_packet (nd_pool w) p)) (nd_ifaces w ! i))
                     (w\<lparr>nd_qfifo := nd_qfifo w @ [(p, i)]\<rparr>)
              else free_packet packet (set_iface i (count_drop (nd_ifaces w ! i)) w))"

definition csp_qfifo_read :: "csp_node \<Rightarrow> int \<times> (nat \<times> nat) option \<times> csp_node" where
  "csp_qfifo_read w =
     (case nd_qfifo w of [] \<Rightarrow> (CSP_ERR_TIMEDOUT, None, w)
      | input # rest \<Rightarrow> (CSP_ERR_NONE, Some input, w\<lparr>nd_qfifo := rest\<rparr>))"

section \<open>The loopback interface\<close>

text \<open>The interface of the index 0.\<close>

definition CSP_IF_LO :: nat where "CSP_IF_LO = 0"

definition csp_lo_tx :: "nat \<Rightarrow> csp_node \<Rightarrow> (int \<times> csp_node) option" where
  "csp_lo_tx packet w =
     (if id_dst (pkt_id (buf_packet (nd_pool w) packet)) \<noteq> nd_address w
      then Some (CSP_ERR_NONE, free_packet (Some packet) w)
      else Some (CSP_ERR_NONE, csp_qfifo_write (Some packet) (Some CSP_IF_LO) w))"

section \<open>Initialisation and sockets\<close>

definition csp_set_address :: "u8 \<Rightarrow> csp_node \<Rightarrow> csp_node" where
  "csp_set_address addr w = w\<lparr>nd_address := addr\<rparr>"

definition csp_route_set :: "u8 \<Rightarrow> nat option \<Rightarrow> u8 \<Rightarrow> csp_node \<Rightarrow> int \<times> csp_node" where
  "csp_route_set node ifc mac w =
     (case static_set node ifc mac (nd_iflist w, nd_routes w) of
        (e, il, rs) \<Rightarrow> (e, w\<lparr>nd_iflist := il, nd_routes := rs\<rparr>))"

text \<open>The steps of \<open>csp_init\<close> that allocate locks and queues succeed; \<open>r\<close> is a random number.  The
  queue of the router is created once and keeps its content.\<close>

definition csp_init :: "u8 \<Rightarrow> nat \<Rightarrow> csp_node \<Rightarrow> int \<times> csp_node" where
  "csp_init address r w =
     (let w = csp_set_address address w;
          w = csp_conn_init r w;
          w = w\<lparr>nd_ports := csp_port_init\<rparr>;
          w = w\<lparr>nd_iflist := csp_iflist_add CSP_IF_LO (nd_iflist w)\<rparr>;
          (_, w) = csp_route_set (nd_address w) (Some CSP_IF_LO) CSP_NODE_MAC w;
          (_, w) = csp_route_set (of_nat CSP_DEFAULT_ROUTE) (Some CSP_IF_LO) CSP_NODE_MAC w
      in (CSP_ERR_NONE, w))"

text \<open>\<open>mem_ok\<close> says whether the queue can be allocated.  When it can not, the connection taken for the
  socket stays open.\<close>

definition csp_socket :: "bool \<Rightarrow> u32 \<Rightarrow> csp_node \<Rightarrow> nat option \<times> csp_node" where
  "csp_socket mem_ok opts w =
     (if opts AND CSP_SO_RDPREQ \<noteq> 0 then (None, w)
      else if opts AND NOT (CSP_SO_RDPREQ OR CSP_SO_XTEAREQ OR CSP_SO_HMACREQ OR CSP_SO_CRC32REQ OR CSP_SO_CONN_LESS) \<noteq> 0
      then (None, w)
      else case csp_conn_allocate CONN_SERVER w of
        (None, w) \<Rightarrow> (None, w)
      | (Some sock, w) \<Rightarrow>
          if opts AND CSP_SO_CONN_LESS \<noteq> 0 then
            (case csp_queue_create mem_ok CSP_CONN_QUEUE_LENGTH w of (q, w) \<Rightarrow>
               let w = set_conn sock ((nd_conns w ! sock)\<lparr>cn_socket := q\<rparr>) w in
               if q = None then (None, w)
               else (Some sock, set_conn sock ((nd_conns w ! sock)\<lparr>cn_opts := opts\<rparr>) w))
          else (Some sock, set_conn sock ((nd_conns w ! sock)\<lparr>cn_socket := None, cn_opts := opts\<rparr>) w))"

definition csp_listen :: "bool \<Rightarrow> nat option \<Rightarrow> nat \<Rightarrow> csp_node \<Rightarrow> int \<times> csp_node" where
  "csp_listen mem_ok socket conn_queue_length w =
     (case socket of None \<Rightarrow> (CSP_ERR_INVAL, w)
      | Some s \<Rightarrow>
          (case csp_queue_create mem_ok conn_queue_length w of (q, w) \<Rightarrow>
             let w = set_conn s ((nd_conns w ! s)\<lparr>cn_socket := q\<rparr>) w in
             if q = None then (CSP_ERR_NOMEM, w) else (CSP_ERR_NONE, w)))"

text \<open>Binding a socket in the table of the node.\<close>

definition node_bind :: "nat option \<Rightarrow> nat \<Rightarrow> csp_node \<Rightarrow> int \<times> csp_node" where
  "node_bind socket port w =
     (case csp_bind socket port (nd_ports w) of (e, ps) \<Rightarrow> (e, w\<lparr>nd_ports := ps\<rparr>))"

definition sock_dequeue :: "nat \<Rightarrow> csp_node \<Rightarrow> sock_item option \<times> csp_node" where
  "sock_dequeue q w =
     (case sq_items (nd_queues w ! q) of [] \<Rightarrow> (None, w)
      | item # rest \<Rightarrow> (Some item, w\<lparr>nd_queues := (nd_queues w)[q := (nd_queues w ! q)\<lparr>sq_items := rest\<rparr>]\<rparr>))"

text \<open>The pointer taken from the queue is returned as it is: a connection, on a socket that is not
  connection-less.  An empty queue is the result \<open>None\<close> after the timeout.\<close>

definition csp_accept :: "nat option \<Rightarrow> csp_node \<Rightarrow> sock_item option \<times> csp_node" where
  "csp_accept sock w =
     (case sock of None \<Rightarrow> (None, w)
      | Some s \<Rightarrow> case cn_socket (nd_conns w ! s) of None \<Rightarrow> (None, w)
         | Some q \<Rightarrow> sock_dequeue q w)"

definition csp_recvfrom :: "nat option \<Rightarrow> csp_node \<Rightarrow> (sock_item option \<times> csp_node) option" where
  "csp_recvfrom socket w =
     (case socket of None \<Rightarrow> Some (None, w)
      | Some s \<Rightarrow>
          if cn_opts (nd_conns w ! s) AND CSP_SO_CONN_LESS = 0 then Some (None, w)
          else case cn_socket (nd_conns w ! s) of None \<Rightarrow> None
             | Some q \<Rightarrow> Some (sock_dequeue q w))"

definition csp_read :: "nat option \<Rightarrow> csp_node \<Rightarrow> nat option \<times> csp_node" where
  "csp_read conn w =
     (case conn of None \<Rightarrow> (None, w)
      | Some c \<Rightarrow>
          if \<not> cn_open (nd_conns w ! c) then (None, w)
          else case cn_rx_queue (nd_conns w ! c) of
            [] \<Rightarrow> (None, w)
          | packet # rest \<Rightarrow> (packet, set_conn c ((nd_conns w ! c)\<lparr>cn_rx_queue := rest\<rparr>) w))"

section \<open>Sending\<close>

definition put_packet :: "nat \<Rightarrow> csp_packet \<Rightarrow> csp_node \<Rightarrow> csp_node" where
  "put_packet p pk w = w\<lparr>nd_pool := set_packet p pk (nd_pool w)\<rparr>"

definition count_tx_error :: "nat \<Rightarrow> csp_node \<Rightarrow> csp_node" where
  "count_tx_error i w = set_iface i ((nd_ifaces w ! i)\<lparr>if_tx_error := if_tx_error (nd_ifaces w ! i) + 1\<rparr>) w"

definition count_tx :: "nat \<Rightarrow> nat \<Rightarrow> csp_node \<Rightarrow> csp_node" where
  "count_tx i bytes w = set_iface i ((nd_ifaces w ! i)\<lparr>if_tx := if_tx (nd_ifaces w ! i) + 1,
     if_txbytes := if_txbytes (nd_ifaces w ! i) + of_nat bytes\<rparr>) w"

text \<open>What \<open>csp_send_direct\<close> appends to a packet of this node: the code of authentication, the
  checksum, and the nonce the data is encrypted with.\<close>

definition send_security :: "u8 list \<Rightarrow> u8 list \<Rightarrow> u32 \<Rightarrow> csp_id \<Rightarrow> csp_packet \<Rightarrow> (int \<times> csp_packet option) option" where
  "send_security hk xk nonce idout packet =
     (case (if has_flag CSP_FHMAC idout then csp_hmac_append hk (Some packet) False
            else Some (CSP_ERR_NONE, Some packet)) of
        None \<Rightarrow> None
      | Some (_, None) \<Rightarrow> None
      | Some (e, Some packet) \<Rightarrow>
          if e \<noteq> CSP_ERR_NONE then Some (e, Some packet)
          else (case (if has_flag CSP_FCRC32 idout then csp_crc32_append (Some packet) False
                      else Some (CSP_ERR_NONE, Some packet)) of
                  None \<Rightarrow> None
                | Some (_, None) \<Rightarrow> None
                | Some (e, Some packet) \<Rightarrow>
                    if e \<noteq> CSP_ERR_NONE then Some (e, Some packet)
                    else if \<not> has_flag CSP_FXTEA idout then Some (CSP_ERR_NONE, Some packet)
                    else if pkt_length packet + 4 > pkt_cap packet then None
                    else (case csp_xtea_encrypt xk (pkt_data packet) (nonce, 1) of
                            (e, cipher) \<Rightarrow>
                              if e \<noteq> CSP_ERR_NONE then Some (e, Some packet)
                              else Some (CSP_ERR_NONE,
                                Some (packet\<lparr>pkt_data := cipher @ le32 (csp_hton32 nonce)\<rparr>)))))"

type_synonym nexthop = "nat \<Rightarrow> (nat \<Rightarrow> csp_node \<Rightarrow> (int \<times> csp_node) option) option"

text \<open>\<open>nonce\<close> is the number \<open>rand()\<close> returns.\<close>

definition csp_send_direct :: "nexthop \<Rightarrow> u32 \<Rightarrow> csp_id \<Rightarrow> nat option \<Rightarrow> nat option \<Rightarrow> csp_node \<Rightarrow> (int \<times> csp_node) option" where
  "csp_send_direct nh nonce idout packet ifout w =
     (case packet of None \<Rightarrow> Some (CSP_ERR_TX, w)
      | Some p \<Rightarrow>
     (case ifout of None \<Rightarrow> Some (CSP_ERR_TX, w)
      | Some i \<Rightarrow>
     (case nh i of None \<Rightarrow> Some (CSP_ERR_TX, w)
      | Some tx \<Rightarrow>
          let pk = (buf_packet (nd_pool w) p)\<lparr>pkt_id := idout\<rparr> in
          (case (if id_src idout = nd_address w
                 then send_security (nd_hmac_key w) (nd_xtea_key w) nonce idout pk
                 else Some (CSP_ERR_NONE, Some pk)) of
             None \<Rightarrow> None
           | Some (_, None) \<Rightarrow> None
           | Some (e, Some pk) \<Rightarrow>
               let w = put_packet p pk w in
               if e \<noteq> CSP_ERR_NONE then Some (CSP_ERR_TX, count_tx_error i w)
               else
                 let bytes = pkt_length pk; mtu = unat (if_mtu (nd_ifaces w ! i)) in
                 if mtu > 0 \<and> bytes > mtu then Some (CSP_ERR_TX, count_tx_error i w)
                 else (case tx p w of
                         None \<Rightarrow> None
                       | Some (e, w) \<Rightarrow>
                           if e \<noteq> CSP_ERR_NONE then Some (CSP_ERR_TX, count_tx_error i w)
                           else Some (CSP_ERR_NONE, count_tx i bytes w))))))"


text \<open>\<open>csp_rtable_find_iface\<close> on the table of the node.\<close>

definition node_find_iface :: "u8 \<Rightarrow> csp_node \<Rightarrow> nat option option" where
  "node_find_iface dest w = static_find_iface dest (nd_routes w)"

definition csp_send :: "nexthop \<Rightarrow> u32 \<Rightarrow> nat option \<Rightarrow> nat option \<Rightarrow> csp_node \<Rightarrow> (nat \<times> csp_node) option" where
  "csp_send nh nonce conn packet w =
     (case conn of None \<Rightarrow> Some (0, w)
      | Some c \<Rightarrow>
          if packet = None \<or> \<not> cn_open (nd_conns w ! c) then Some (0, w)
          else (case node_find_iface (id_dst (cn_idout (nd_conns w ! c))) w of
                  None \<Rightarrow> None
                | Some ifout \<Rightarrow>
                    map_option (\<lambda>(ret, w). (if ret = CSP_ERR_NONE then 1 else 0, w))
                      (csp_send_direct nh nonce (cn_idout (nd_conns w ! c)) packet ifout w)))"

definition csp_send_prio :: "nexthop \<Rightarrow> u32 \<Rightarrow> u8 \<Rightarrow> nat \<Rightarrow> nat option \<Rightarrow> csp_node \<Rightarrow> (nat \<times> csp_node) option" where
  "csp_send_prio nh nonce prio conn packet w =
     (let cn = nd_conns w ! conn;
          w = set_conn conn (cn\<lparr>cn_idout := set_pri prio (cn_idout cn)\<rparr>) w
      in csp_send nh nonce (Some conn) packet w)"

text \<open>While a task waits in \<open>csp_read\<close> the other tasks run: \<open>other_tasks\<close> is what they do until the
  first packet arrives or the time is over.  The request is \<open>outbuf\<close>, and \<open>inlen\<close> is the expected
  length, -1 for any; the result is the return value with the bytes written to the caller's buffer.\<close>

definition csp_transaction_persistent ::
  "nexthop \<Rightarrow> u32 \<Rightarrow> (csp_node \<Rightarrow> csp_node) \<Rightarrow> nat option \<Rightarrow> u8 list \<Rightarrow> int \<Rightarrow> csp_node \<Rightarrow> (nat \<times> u8 list \<times> csp_node) option" where
  "csp_transaction_persistent nh nonce other_tasks conn outbuf inlen w =
     (let outlen = int (length outbuf);
          sz = (if inlen > outlen then inlen else outlen)
      in case csp_buffer_get (nat sz) (nd_pool w) of
        (None, pool) \<Rightarrow> Some (0, [], w\<lparr>nd_pool := pool\<rparr>)
      | (Some p, pool) \<Rightarrow>
          let w = w\<lparr>nd_pool := pool\<rparr>;
              w = put_packet p ((buf_packet (nd_pool w) p)\<lparr>pkt_data := take (length outbuf mod 2 ^ 16) outbuf\<rparr>) w
          in (case csp_send nh nonce conn (Some p) w of
                None \<Rightarrow> None
              | Some (ok, w) \<Rightarrow>
                  if ok = 0 then Some (0, [], free_packet (Some p) w)
                  else if inlen = 0 then Some (1, [], w)
                  else (case csp_read conn (other_tasks w) of
                          (None, w) \<Rightarrow> Some (0, [], w)
                        | (Some r, w) \<Rightarrow>
                            let reply = pkt_data (buf_packet (nd_pool w) r) in
                            if inlen \<noteq> - 1 \<and> int (length reply) \<noteq> inlen
                            then Some (0, [], free_packet (Some r) w)
                            else Some (length reply, reply, free_packet (Some r) w))))"

definition csp_transaction ::
  "nat \<Rightarrow> nexthop \<Rightarrow> u32 \<Rightarrow> (csp_node \<Rightarrow> csp_node) \<Rightarrow> u8 \<Rightarrow> u8 \<Rightarrow> u8 \<Rightarrow> u8 list \<Rightarrow> int \<Rightarrow> csp_node \<Rightarrow>
     (nat \<times> u8 list \<times> csp_node) option" where
  "csp_transaction fuel nh nonce other_tasks prio dest port outbuf inlen w =
     (case csp_connect fuel prio dest port 0 w of
        None \<Rightarrow> None
      | Some (None, w) \<Rightarrow> Some (0, [], w)
      | Some (Some c, w) \<Rightarrow>
          map_option (\<lambda>(status, inbuf, w). (status, inbuf, snd (csp_close (Some c) w)))
            (csp_transaction_persistent nh nonce other_tasks (Some c) outbuf inlen w))"

definition csp_sendto :: "nexthop \<Rightarrow> u32 \<Rightarrow> u8 \<Rightarrow> u8 \<Rightarrow> u8 \<Rightarrow> u8 \<Rightarrow> u32 \<Rightarrow> nat \<Rightarrow> csp_node \<Rightarrow> (int \<times> csp_node) option" where
  "csp_sendto nh nonce prio dest dport src_port opts packet w =
     (let pk = buf_packet (nd_pool w) packet;
          ident = set_flags 0 (pkt_id pk)
      in if opts AND CSP_SO_RDPREQ \<noteq> 0
         then Some (CSP_ERR_INVAL, put_packet packet (pk\<lparr>pkt_id := ident\<rparr>) w)
         else
           let ident = opts_flags opts ident;
               ident = set_pri prio (set_sport src_port (set_src (nd_address w) (set_dport dport (set_dst dest ident))));
               w = put_packet packet (pk\<lparr>pkt_id := ident\<rparr>) w
           in (case node_find_iface dest w of
                 None \<Rightarrow> None
               | Some ifout \<Rightarrow>
                   (case csp_send_direct nh nonce ident (Some packet) ifout w of
                      None \<Rightarrow> None
                    | Some (e, w) \<Rightarrow> if e \<noteq> CSP_ERR_NONE then Some (CSP_ERR_NOTSUP, w) else Some (CSP_ERR_NONE, w))))"

definition csp_sendto_reply :: "nexthop \<Rightarrow> u32 \<Rightarrow> nat option \<Rightarrow> nat \<Rightarrow> u32 \<Rightarrow> csp_node \<Rightarrow> (int \<times> csp_node) option" where
  "csp_sendto_reply nh nonce request_packet reply_packet opts w =
     (case request_packet of None \<Rightarrow> Some (CSP_ERR_INVAL, w)
      | Some r \<Rightarrow>
          let i = pkt_id (buf_packet (nd_pool w) r)
          in csp_sendto nh nonce (id_pri i) (id_src i) (id_sport i) (id_dport i) opts reply_packet w)"

section \<open>What an interface promises\<close>

text \<open>A packet that was transmitted belongs to the interface, one that was not still belongs to the
  caller; nothing else is lost, and the node stays consistent.\<close>

locale csp_interface =
  fixes nh :: nexthop
  assumes tx_keeps: "nh i = Some tx \<Longrightarrow> i < length (nd_ifaces w) \<Longrightarrow> node_ok w \<Longrightarrow> owned (add_mset p M) w \<Longrightarrow>
      tx p w = Some (e, w') \<Longrightarrow> node_ok w' \<and> owned (if e = CSP_ERR_NONE then M else add_mset p M) w'"
    and tx_frame: "nh i = Some tx \<Longrightarrow> tx p w = Some (e, w') \<Longrightarrow>
      nd_conns w' = nd_conns w \<and> nd_ports w' = nd_ports w \<and> nd_queues w' = nd_queues w"

text \<open>The steps of the senders keep the state consistent.\<close>

lemma free_packet_ok [simp]: "node_ok (free_packet p w) = node_ok w"
  by (simp add: free_packet_def)

lemma set_iface_ok [simp]: "node_ok (set_iface i ifc w) = node_ok w"
  by (simp add: set_iface_def node_ok_def bound_def)

lemma owned_set_iface [simp]: "owned M (set_iface i ifc w) = owned M w"
  by (simp add: set_iface_def)

lemma set_iface_frame [simp]:
  "nd_conns (set_iface i ifc w) = nd_conns w" "nd_ports (set_iface i ifc w) = nd_ports w"
  "nd_queues (set_iface i ifc w) = nd_queues w" "nd_pool (set_iface i ifc w) = nd_pool w"
  "nd_address (set_iface i ifc w) = nd_address w" "nd_routes (set_iface i ifc w) = nd_routes w"
  "nd_qfifo (set_iface i ifc w) = nd_qfifo w" "nd_hmac_key (set_iface i ifc w) = nd_hmac_key w"
  "nd_xtea_key (set_iface i ifc w) = nd_xtea_key w"
  "length (nd_ifaces (set_iface i ifc w)) = length (nd_ifaces w)"
  by (simp_all add: set_iface_def)

lemma put_packet_ok [simp]: "node_ok (put_packet p pk w) = node_ok w"
  by (simp add: put_packet_def)

lemma owned_put_packet: "owned M w \<Longrightarrow> owned M (put_packet p pk w)"
  by (simp add: put_packet_def owned_set_packet)

lemma put_packet_frame [simp]:
  "nd_ifaces (put_packet p pk w) = nd_ifaces w" "nd_conns (put_packet p pk w) = nd_conns w"
  "nd_address (put_packet p pk w) = nd_address w" "nd_routes (put_packet p pk w) = nd_routes w"
  "nd_ports (put_packet p pk w) = nd_ports w" "nd_queues (put_packet p pk w) = nd_queues w"
  "nd_qfifo (put_packet p pk w) = nd_qfifo w" "nd_hmac_key (put_packet p pk w) = nd_hmac_key w"
  "nd_xtea_key (put_packet p pk w) = nd_xtea_key w"
  by (simp_all add: put_packet_def)

lemma count_ok [simp]: "node_ok (count_tx_error i w) = node_ok w" "node_ok (count_tx i n w) = node_ok w"
  "owned M (count_tx_error i w) = owned M w" "owned M (count_tx i n w) = owned M w"
  by (simp_all add: count_tx_error_def count_tx_def)

lemma count_frame [simp]:
  "nd_conns (count_tx_error i w) = nd_conns w" "nd_conns (count_tx i n w) = nd_conns w"
  "nd_ports (count_tx_error i w) = nd_ports w" "nd_ports (count_tx i n w) = nd_ports w"
  "nd_queues (count_tx_error i w) = nd_queues w" "nd_queues (count_tx i n w) = nd_queues w"
  by (simp_all add: count_tx_error_def count_tx_def set_iface_def)

lemma csp_qfifo_write_keeps:
  assumes "node_ok w" "owned (add_mset p M) w" "i < length (nd_ifaces w)"
  shows "node_ok (csp_qfifo_write (Some p) (Some i) w)" "owned M (csp_qfifo_write (Some p) (Some i) w)"
proof -
  have "node_ok (w\<lparr>nd_qfifo := nd_qfifo w @ [(p, i)]\<rparr>)" using assms by (simp add: node_ok_def bound_def)
  then show "node_ok (csp_qfifo_write (Some p) (Some i) w)"
    using assms(1) by (simp add: csp_qfifo_write_def)
  have "owned M (w\<lparr>nd_qfifo := nd_qfifo w @ [(p, i)]\<rparr>)"
    by (rule owned_cong [OF assms(2)]) (simp_all add: refs_def)
  moreover have "owned M (free_packet (Some p) (set_iface i ifc w))" for ifc
    using assms(2) by (intro owned_free) simp
  ultimately show "owned M (csp_qfifo_write (Some p) (Some i) w)"
    by (simp add: csp_qfifo_write_def)
qed

definition lo_nexthop :: nexthop where
  "lo_nexthop i = (if i = CSP_IF_LO then Some csp_lo_tx else None)"

interpretation lo: csp_interface lo_nexthop
proof
  fix i tx and w w' :: csp_node and p M e
  assume "lo_nexthop i = Some tx" "i < length (nd_ifaces w)" "node_ok w" "owned (add_mset p M) w"
    "tx p w = Some (e, w')"
  then show "node_ok w' \<and> owned (if e = CSP_ERR_NONE then M else add_mset p M) w'"
    using csp_qfifo_write_keeps [of w p M CSP_IF_LO] owned_free [of p M w]
    by (auto simp: lo_nexthop_def csp_lo_tx_def split: if_splits)
next
  fix i tx and w w' :: csp_node and p e
  assume "lo_nexthop i = Some tx" "tx p w = Some (e, w')"
  then show "nd_conns w' = nd_conns w \<and> nd_ports w' = nd_ports w \<and> nd_queues w' = nd_queues w"
    by (auto simp: lo_nexthop_def csp_lo_tx_def csp_qfifo_write_def set_iface_def free_packet_def split: if_splits)
qed


lemma node_find_iface_valid:
  assumes "node_ok w" "node_find_iface d w = Some (Some i)"
  shows "i < length (nd_ifaces w)"
proof -
  have st: "static_ok (nd_iflist w, nd_routes w)" "set (nd_iflist w) \<subseteq> {..<length (nd_ifaces w)}"
    using assms(1) by (simp_all add: node_ok_def)
  have "\<exists>k < length (nd_routes w). fst (nd_routes w ! k) = Some i"
    using assms(2) st(1)
    by (auto simp: node_find_iface_def static_find_iface_def static_find_def static_ok_def CSP_ROUTE_COUNT_def
        CSP_DEFAULT_ROUTE_def split: if_splits intro: exI [of _ "unat d"] exI [of _ 32])
  then have "Some i \<in> fst ` set (nd_routes w)" by (metis image_eqI nth_mem)
  then show ?thesis using st by (auto simp: static_ok_def)
qed

context csp_interface begin

lemma send_direct_keeps:
  assumes "csp_send_direct nh nonce idout (Some p) ifout w = Some (e, w')"
    and "node_ok w" "owned (add_mset p M) w" "\<And>i. ifout = Some i \<Longrightarrow> i < length (nd_ifaces w)"
  shows "node_ok w' \<and> owned (if e = CSP_ERR_NONE then M else add_mset p M) w'"
proof -
  have err: "CSP_ERR_TX \<noteq> CSP_ERR_NONE" by (simp add: csp_err_defs)
  show ?thesis
  proof (cases "\<exists>i tx. ifout = Some i \<and> nh i = Some tx")
    case False
    then have "e = CSP_ERR_TX" "w' = w"
      using assms(1) by (auto simp: csp_send_direct_def split: option.splits)
    with err assms(2,3) show ?thesis by simp
  next
    case True
    then obtain i tx where i: "ifout = Some i" "nh i = Some tx" "i < length (nd_ifaces w)" using assms(4) by auto
    let ?pk = "(buf_packet (nd_pool w) p)\<lparr>pkt_id := idout\<rparr>"
    obtain e1 pk where s: "(if id_src idout = nd_address w
         then send_security (nd_hmac_key w) (nd_xtea_key w) nonce idout ?pk
         else Some (CSP_ERR_NONE, Some ?pk)) = Some (e1, Some pk)"
      using assms(1) i by (auto simp: csp_send_direct_def Let_def split: option.splits prod.splits)
    let ?w = "put_packet p pk w"
    have ok: "node_ok ?w" "owned (add_mset p M) ?w" using assms(2,3) by (simp_all add: owned_put_packet)
    show ?thesis
    proof (cases "e1 = CSP_ERR_NONE \<and> \<not> (unat (if_mtu (nd_ifaces w ! i)) > 0 \<and>
        pkt_length pk > unat (if_mtu (nd_ifaces w ! i)))")
      case False
      then have "e = CSP_ERR_TX" "w' = count_tx_error i ?w"
        using assms(1) i s by (auto simp: csp_send_direct_def Let_def split: if_splits)
      with err ok show ?thesis by simp
    next
      case True
      then obtain e2 w2 where tx: "tx p ?w = Some (e2, w2)"
        and r: "(e, w') = (if e2 \<noteq> CSP_ERR_NONE then (CSP_ERR_TX, count_tx_error i w2)
                   else (CSP_ERR_NONE, count_tx i (pkt_length pk) w2))"
        using assms(1) i s
        by (cases "tx p ?w") (auto simp: csp_send_direct_def Let_def split: if_splits prod.splits)
      from tx_keeps [OF i(2) _ ok tx] i(3) r err show ?thesis
        by (simp split: if_splits)
    qed
  qed
qed

lemma send_direct_frame:
  assumes "csp_send_direct nh nonce idout p ifout w = Some (e, w')"
  shows "nd_conns w' = nd_conns w \<and> nd_ports w' = nd_ports w \<and> nd_queues w' = nd_queues w"
  using assms
  by (auto simp: csp_send_direct_def Let_def split: option.splits prod.splits if_splits dest!: tx_frame)

lemma send_frame:
  assumes "csp_send nh nonce conn p w = Some (ok, w')"
  shows "nd_conns w' = nd_conns w \<and> nd_ports w' = nd_ports w \<and> nd_queues w' = nd_queues w"
  using assms by (auto simp: csp_send_def split: option.splits if_splits dest!: send_direct_frame)

lemma send_keeps:
  assumes "csp_send nh nonce conn (Some p) w = Some (ok, w')"
    and "node_ok w" "owned (add_mset p M) w"
  shows "node_ok w' \<and> owned (if ok = 0 then add_mset p M else M) w'"
proof (cases "\<exists>c. conn = Some c \<and> cn_open (nd_conns w ! c)")
  case False
  then show ?thesis using assms by (auto simp: csp_send_def split: option.splits)
next
  case True
  then obtain c where c: "conn = Some c" "cn_open (nd_conns w ! c)" by blast
  then obtain ifout e where f: "node_find_iface (id_dst (cn_idout (nd_conns w ! c))) w = Some ifout"
    "csp_send_direct nh nonce (cn_idout (nd_conns w ! c)) (Some p) ifout w = Some (e, w')"
    "ok = (if e = CSP_ERR_NONE then 1 else 0)"
    using assms(1) by (auto simp: csp_send_def split: option.splits)
  have "\<And>i. ifout = Some i \<Longrightarrow> i < length (nd_ifaces w)" using node_find_iface_valid [OF assms(2)] f(1) by blast
  from send_direct_keeps [OF f(2) assms(2,3) this] f(3) show ?thesis by auto
qed

lemma sendto_keeps:
  assumes "csp_sendto nh nonce prio dest dport src_port opts p w = Some (e, w')"
    and "node_ok w" "owned (add_mset p M) w"
  shows "node_ok w' \<and> owned (if e = CSP_ERR_NONE then M else add_mset p M) w'"
proof (cases "opts AND CSP_SO_RDPREQ = 0")
  case False
  then show ?thesis using assms by (auto simp: csp_sendto_def Let_def csp_err_defs owned_put_packet)
next
  case True
  then obtain ident pk ifout e2 where s: "node_find_iface dest (put_packet p pk w) = Some ifout"
    "csp_send_direct nh nonce ident (Some p) ifout (put_packet p pk w) = Some (e2, w')"
    "e = (if e2 = CSP_ERR_NONE then CSP_ERR_NONE else CSP_ERR_NOTSUP)"
    using assms(1) by (auto simp: csp_sendto_def Let_def split: option.splits prod.splits if_splits)
  have "node_ok (put_packet p pk w)" "owned (add_mset p M) (put_packet p pk w)"
    using assms by (simp_all add: owned_put_packet)
  moreover have "\<And>i. ifout = Some i \<Longrightarrow> i < length (nd_ifaces (put_packet p pk w))"
    using node_find_iface_valid [OF calculation(1)] s(1) by blast
  ultimately show ?thesis
    using send_direct_keeps [OF s(2)] s(3) by (simp add: csp_err_defs split: if_splits)
qed

end

lemma csp_read_keeps:
  assumes "csp_read (Some c) w = (r, w')" "node_ok w" "owned M w" "c < CSP_CONN_MAX"
  shows "node_ok w' \<and> owned (case r of None \<Rightarrow> M | Some p \<Rightarrow> add_mset p M) w'"
proof (cases "cn_open (nd_conns w ! c) \<and> cn_rx_queue (nd_conns w ! c) \<noteq> []")
  case False
  then have "r = None" "w' = w" using assms(1) by (auto simp: csp_read_def split: if_splits list.splits)
  then show ?thesis using assms by simp
next
  case True
  then obtain rest where q: "cn_rx_queue (nd_conns w ! c) = r # rest"
    "w' = set_conn c ((nd_conns w ! c)\<lparr>cn_rx_queue := rest\<rparr>) w"
    using assms(1) by (auto simp: csp_read_def split: list.splits)
  have "node_ok w'" using q assms by (simp add: node_ok_set_conn_same)
  moreover have "owned (case r of None \<Rightarrow> M | Some p \<Rightarrow> add_mset p M) w'"
    unfolding q(2) using assms q(1)
    by (intro owned_set_conn) (auto simp: node_ok_def rx_refs_def map_filter_simps split: option.splits)
  ultimately show ?thesis by simp
qed

lemma csp_buffer_get_keeps:
  assumes "csp_buffer_get n (nd_pool w) = (r, pool)" "node_ok w" "owned M w"
  shows "node_ok (w\<lparr>nd_pool := pool\<rparr>) \<and> owned (case r of None \<Rightarrow> M | Some p \<Rightarrow> add_mset p M) (w\<lparr>nd_pool := pool\<rparr>)"
proof (cases r)
  case None
  then show ?thesis using csp_buffer_get_None [of "nd_pool w" n pool] assms by (simp add: owned_def refs_def)
next
  case (Some p)
  then show ?thesis
    using csp_buffer_get_Some [of "nd_pool w" n p pool] assms by (simp add: owned_def refs_def)
qed


section \<open>A transaction\<close>

text \<open>What the tasks that run while this one waits keep.\<close>

definition tasks_ok :: "(csp_node \<Rightarrow> csp_node) \<Rightarrow> bool" where
  "tasks_ok f \<longleftrightarrow> (\<forall>w M. node_ok w \<longrightarrow> owned M w \<longrightarrow> node_ok (f w) \<and> owned M (f w) \<and> nd_ports (f w) = nd_ports w)"

lemma csp_read_ports: "csp_read conn w = (r, w') \<Longrightarrow> nd_ports w' = nd_ports w"
  by (auto simp: csp_read_def split: option.splits list.splits if_splits)

context csp_interface begin

lemma transaction_persistent_keeps:
  assumes "csp_transaction_persistent nh nonce ot (Some c) outbuf inlen w = Some (status, inbuf, w')"
    and "tasks_ok ot" "node_ok w" "owned M w" "c < CSP_CONN_MAX"
  shows "node_ok w' \<and> owned M w' \<and> nd_ports w' = nd_ports w \<and>
     (status \<noteq> 0 \<longrightarrow> 0 < inlen \<longrightarrow> int status = inlen \<and> length inbuf = status)"
proof -
  let ?n = "nat (if inlen > int (length outbuf) then inlen else int (length outbuf))"
  obtain r pool where g: "csp_buffer_get ?n (nd_pool w) = (r, pool)" by fastforce
  note got = csp_buffer_get_keeps [OF g assms(3,4)]
  show ?thesis
  proof (cases r)
    case None
    then show ?thesis using assms(1) g got by (auto simp: csp_transaction_persistent_def Let_def)
  next
    case (Some p)
    define w1 where "w1 = put_packet p ((buf_packet pool p)\<lparr>pkt_data := take (length outbuf mod 2 ^ 16) outbuf\<rparr>)
        (w\<lparr>nd_pool := pool\<rparr>)"
    have w1: "node_ok w1" "owned (add_mset p M) w1" "nd_ports w1 = nd_ports w"
      using got Some by (simp_all add: w1_def owned_put_packet)
    obtain ok w2 where s: "csp_send nh nonce (Some c) (Some p) w1 = Some (ok, w2)"
      using assms(1) g Some by (auto simp: csp_transaction_persistent_def Let_def w1_def split: option.splits)
    note w2 = send_keeps [OF s w1(1,2)] send_frame [OF s]
    show ?thesis
    proof (cases "ok = 0 \<or> inlen = 0")
      case True
      have "ok = 0 \<Longrightarrow> owned M (free_packet (Some p) w2)" using w2 by (intro owned_free) simp
      then show ?thesis
        using True w2 w1 assms(1) g Some s
        by (auto simp: csp_transaction_persistent_def Let_def w1_def free_packet_def split: if_splits)
    next
      case False
      obtain q w3 where rd: "csp_read (Some c) (ot w2) = (q, w3)" by fastforce
      have ot: "node_ok (ot w2)" "owned M (ot w2)" "nd_ports (ot w2) = nd_ports w"
        using assms(2) w2 w1(3) False by (auto simp: tasks_ok_def)
      note w3 = csp_read_keeps [OF rd ot(1,2) assms(5)] csp_read_ports [OF rd]
      have "q = Some x \<Longrightarrow> owned M (free_packet (Some x) w3)" for x using w3 by (intro owned_free) simp
      then show ?thesis
        using False w3 ot(3) assms(1) g Some s rd
        by (auto simp: csp_transaction_persistent_def Let_def w1_def free_packet_def split: option.splits if_splits)
    qed
  qed
qed

lemma transaction_keeps:
  assumes "csp_transaction fuel nh nonce ot prio dest port outbuf inlen w = Some (status, inbuf, w')"
    and "tasks_ok ot" "node_ok w" "owned M w" "CSP_CONN_MAX < fuel"
  shows "node_ok w' \<and> owned M w' \<and>
     (status \<noteq> 0 \<longrightarrow> 0 < inlen \<longrightarrow> int status = inlen \<and> length inbuf = status)"
proof -
  have o: "(0 :: u32) AND CSP_SO_RDPREQ = 0" by simp
  obtain r w1 where con: "csp_connect fuel prio dest port 0 w = Some (r, w1)"
    and w1: "node_ok w1" "owned M w1" and r: "\<And>c. r = Some c \<Longrightarrow> c < CSP_CONN_MAX \<and> \<not> bound w1 c"
    using csp_connect_opens [OF assms(3,4) o assms(5), of prio dest port] by blast
  show ?thesis
  proof (cases r)
    case None
    then show ?thesis using assms(1) con w1 by (auto simp: csp_transaction_def)
  next
    case (Some c)
    then obtain w2 where t: "csp_transaction_persistent nh nonce ot (Some c) outbuf inlen w1 = Some (status, inbuf, w2)"
      "w' = snd (csp_close (Some c) w2)"
      using assms(1) con by (auto simp: csp_transaction_def)
    note w2 = transaction_persistent_keeps [OF t(1) assms(2) w1]
    have c: "c < CSP_CONN_MAX" "\<not> bound w2 c" using r [OF Some] w2 by (auto simp: bound_def)
    with w2 t(2) csp_close_ok [of w2 "Some c"] csp_close_owned [of w2 M "Some c"] show ?thesis by simp
  qed
qed

end

end
