(* ===== verification/CspRoute.thy ===== *)
theory CspRoute
  imports CspIo
begin

text \<open>
  The router (\<open>libcsp/source/csp_route.c\<close>) and the delivery of packets to connections
  (\<open>libcsp/source/transport/csp_udp.c\<close>), without RDP, promiscuous mode and the check for duplicates,
  which are off by default.  The result \<open>None\<close> is an access outside a buffer.
\<close>

section \<open>Security\<close>

definition csp_route_check_options :: "nat \<Rightarrow> nat \<Rightarrow> csp_node \<Rightarrow> int \<times> csp_node" where
  "csp_route_check_options interface packet w =
     (if has_flag CSP_FRDP (pkt_id (buf_packet (nd_pool w) packet))
      then (CSP_ERR_NOTSUP,
        set_iface interface ((nd_ifaces w ! interface)\<lparr>if_rx_error := if_rx_error (nd_ifaces w ! interface) + 1\<rparr>) w)
      else (CSP_ERR_NONE, w))"

definition count_autherr :: "csp_iface \<Rightarrow> csp_iface" where
  "count_autherr ifc = ifc\<lparr>if_autherr := if_autherr ifc + 1\<rparr>"

definition count_rx_error :: "csp_iface \<Rightarrow> csp_iface" where
  "count_rx_error ifc = ifc\<lparr>if_rx_error := if_rx_error ifc + 1\<rparr>"

text \<open>Decryption, of a packet with at least the four bytes of the nonce: for a shorter one the length
  wraps around and the decryption writes behind the buffer.\<close>

definition check_xtea :: "u8 list \<Rightarrow> u32 \<Rightarrow> csp_iface \<Rightarrow> csp_packet \<Rightarrow> (int \<times> csp_iface \<times> csp_packet) option" where
  "check_xtea xk security_opts interface packet =
     (if has_flag CSP_FXTEA (pkt_id packet) then
        if pkt_length packet < 4 then None
        else
          let n = pkt_length packet - 4;
              nonce = csp_ntoh32 (of_le32 (drop n (pkt_data packet)));
              (e, plain) = csp_xtea_decrypt xk (take n (pkt_data packet)) (nonce, 1);
              packet = packet\<lparr>pkt_data := plain\<rparr>
          in if e \<noteq> CSP_ERR_NONE then Some (CSP_ERR_XTEA, count_autherr interface, packet)
             else Some (CSP_ERR_NONE, interface, packet)
      else if security_opts AND CSP_SO_XTEAREQ \<noteq> 0 then Some (CSP_ERR_XTEA, count_autherr interface, packet)
      else Some (CSP_ERR_NONE, interface, packet))"

text \<open>A missing checksum is only reported.\<close>

definition check_crc32 :: "csp_iface \<Rightarrow> csp_packet \<Rightarrow> (int \<times> csp_iface \<times> csp_packet) option" where
  "check_crc32 interface packet =
     (if has_flag CSP_FCRC32 (pkt_id packet) then
        (case csp_crc32_verify (Some packet) False of
           (_, None) \<Rightarrow> None
         | (e, Some packet) \<Rightarrow>
             if e \<noteq> CSP_ERR_NONE then Some (CSP_ERR_CRC32, count_rx_error interface, packet)
             else Some (CSP_ERR_NONE, interface, packet))
      else Some (CSP_ERR_NONE, interface, packet))"

definition check_hmac :: "u8 list \<Rightarrow> u32 \<Rightarrow> csp_iface \<Rightarrow> csp_packet \<Rightarrow> (int \<times> csp_iface \<times> csp_packet) option" where
  "check_hmac hk security_opts interface packet =
     (if has_flag CSP_FHMAC (pkt_id packet) then
        (case csp_hmac_verify hk (Some packet) False of
           None \<Rightarrow> None
         | Some (_, None) \<Rightarrow> None
         | Some (e, Some packet) \<Rightarrow>
             if e \<noteq> CSP_ERR_NONE then Some (CSP_ERR_HMAC, count_autherr interface, packet)
             else Some (CSP_ERR_NONE, interface, packet))
      else if security_opts AND CSP_SO_HMACREQ \<noteq> 0 then Some (CSP_ERR_HMAC, count_autherr interface, packet)
      else Some (CSP_ERR_NONE, interface, packet))"

definition security_check :: "u8 list \<Rightarrow> u8 list \<Rightarrow> u32 \<Rightarrow> csp_iface \<Rightarrow> csp_packet \<Rightarrow> (int \<times> csp_iface \<times> csp_packet) option" where
  "security_check hk xk security_opts interface packet =
     (case check_xtea xk security_opts interface packet of None \<Rightarrow> None
      | Some (e, interface, packet) \<Rightarrow>
          if e \<noteq> CSP_ERR_NONE then Some (e, interface, packet)
          else (case check_crc32 interface packet of None \<Rightarrow> None
            | Some (e, interface, packet) \<Rightarrow>
                if e \<noteq> CSP_ERR_NONE then Some (e, interface, packet)
                else check_hmac hk security_opts interface packet))"

definition csp_route_security_check :: "u32 \<Rightarrow> nat \<Rightarrow> nat \<Rightarrow> csp_node \<Rightarrow> (int \<times> csp_node) option" where
  "csp_route_security_check security_opts interface packet w =
     map_option (\<lambda>(e, ifc, pk). (e, put_packet packet pk (set_iface interface ifc w)))
       (security_check (nd_hmac_key w) (nd_xtea_key w) security_opts (nd_ifaces w ! interface)
          (buf_packet (nd_pool w) packet))"

section \<open>Delivery to a connection\<close>

definition csp_udp_new_packet :: "nat \<Rightarrow> nat \<Rightarrow> csp_node \<Rightarrow> csp_node" where
  "csp_udp_new_packet conn packet w =
     (case csp_conn_enqueue_packet (Some conn) (Some packet) w of
        (e, w) \<Rightarrow>
          if e < 0 then free_packet (Some packet) w
          else (case cn_socket (nd_conns w ! conn) of
                  None \<Rightarrow> w
                | Some q \<Rightarrow>
                    (case sock_enqueue q (ItemConn conn) w of
                       (False, w) \<Rightarrow> snd (csp_close (Some conn) w)
                     | (True, w) \<Rightarrow> set_conn conn ((nd_conns w ! conn)\<lparr>cn_socket := None\<rparr>) w)))"

section \<open>The router\<close>

text \<open>The identifier of the packets that answer a request.\<close>

definition reply_id :: "u8 \<Rightarrow> csp_id \<Rightarrow> csp_id" where
  "reply_id me i = set_flags (id_flags i) (set_sport (id_dport i) (set_dport (id_sport i)
     (set_dst (id_src i) (set_src me (set_pri (id_pri i) 0)))))"

text \<open>The parts of \<open>csp_route_work\<close>: a packet for another node, for a connection-less socket, for a
  new connection and for an existing one.\<close>

definition route_forward :: "nexthop \<Rightarrow> u32 \<Rightarrow> nat \<Rightarrow> nat \<Rightarrow> csp_node \<Rightarrow> csp_node option" where
  "route_forward nh nonce packet interface w =
     (let ident = pkt_id (buf_packet (nd_pool w) packet)
      in case node_find_iface (id_dst ident) w of
        None \<Rightarrow> None
      | Some dstif \<Rightarrow>
          if dstif = None \<or> (dstif = Some interface \<and> \<not> if_split_horizon_off (nd_ifaces w ! interface))
          then Some (free_packet (Some packet) w)
          else (case csp_send_direct nh nonce ident (Some packet) dstif w of
                  None \<Rightarrow> None
                | Some (e, w) \<Rightarrow> Some (if e \<noteq> CSP_ERR_NONE then free_packet (Some packet) w else w)))"

definition route_conn_less :: "nat \<Rightarrow> nat \<Rightarrow> nat \<Rightarrow> csp_node \<Rightarrow> csp_node option" where
  "route_conn_less socket packet interface w =
     (case csp_route_security_check (cn_opts (nd_conns w ! socket)) interface packet w of
        None \<Rightarrow> None
      | Some (e, w) \<Rightarrow>
          if e < 0 then Some (free_packet (Some packet) w)
          else (case cn_socket (nd_conns w ! socket) of
                  None \<Rightarrow> None
                | Some q \<Rightarrow>
                    (case sock_enqueue q (ItemPacket packet) w of
                       (False, w) \<Rightarrow> Some (free_packet (Some packet) w)
                     | (True, w) \<Rightarrow> Some w)))"

definition route_new_conn :: "nat \<Rightarrow> nat \<Rightarrow> nat \<Rightarrow> csp_node \<Rightarrow> csp_node option" where
  "route_new_conn socket packet interface w =
     (case csp_route_security_check (cn_opts (nd_conns w ! socket)) interface packet w of
        None \<Rightarrow> None
      | Some (e, w) \<Rightarrow>
          if e < 0 then Some (free_packet (Some packet) w)
          else
            let ident = pkt_id (buf_packet (nd_pool w) packet)
            in (case csp_conn_new ident (reply_id (nd_address w) ident) w of
                  (None, w) \<Rightarrow> Some (free_packet (Some packet) w)
                | (Some conn, w) \<Rightarrow>
                    let w = set_conn conn ((nd_conns w ! conn)\<lparr>cn_socket := cn_socket (nd_conns w ! socket),
                               cn_opts := cn_opts (nd_conns w ! socket)\<rparr>) w
                    in Some (csp_udp_new_packet conn packet w)))"

definition route_existing :: "nat \<Rightarrow> nat \<Rightarrow> nat \<Rightarrow> csp_node \<Rightarrow> csp_node option" where
  "route_existing conn packet interface w =
     (case csp_route_security_check (cn_opts (nd_conns w ! conn)) interface packet w of
        None \<Rightarrow> None
      | Some (e, w) \<Rightarrow>
          if e < 0 then Some (free_packet (Some packet) w)
          else Some (csp_udp_new_packet conn packet w))"

definition csp_route_work :: "nexthop \<Rightarrow> u32 \<Rightarrow> csp_node \<Rightarrow> (int \<times> csp_node) option" where
  "csp_route_work nh nonce w =
     (case csp_qfifo_read w of
        (e, None, w) \<Rightarrow> Some (- 1, w)
      | (e, Some (packet, interface), w) \<Rightarrow>
          let ident = pkt_id (buf_packet (nd_pool w) packet)
          in if id_dst ident \<noteq> nd_address w \<and> id_dst ident \<noteq> CSP_BROADCAST_ADDR
             then map_option (\<lambda>w. (0, w)) (route_forward nh nonce packet interface w)
             else (case csp_route_check_options interface packet w of
                (e, w) \<Rightarrow>
                  if e \<noteq> CSP_ERR_NONE then Some (0, free_packet (Some packet) w)
                  else
                    let socket = csp_port_get_socket (unat (id_dport ident)) (nd_ports w)
                    in if (case socket of None \<Rightarrow> False | Some s \<Rightarrow> cn_opts (nd_conns w ! s) AND CSP_SO_CONN_LESS \<noteq> 0)
                       then map_option (\<lambda>w. (0, w)) (route_conn_less (the socket) packet interface w)
                       else (case csp_conn_find ident CSP_ID_CONN_MASK w of
                               Some conn \<Rightarrow> map_option (\<lambda>w. (0, w)) (route_existing conn packet interface w)
                             | None \<Rightarrow>
                                 (case socket of
                                    None \<Rightarrow> Some (0, free_packet (Some packet) w)
                                  | Some s \<Rightarrow> map_option (\<lambda>w. (0, w)) (route_new_conn s packet interface w)))))"


section \<open>No packet is lost\<close>

lemma sock_enqueue_keeps:
  assumes "sock_enqueue q item w = (ok, w')" "node_ok w" "owned (item_ref item + M) w" "q < length (nd_queues w)"
  shows "node_ok w' \<and> owned (if ok then M else item_ref item + M) w' \<and> nd_conns w' = nd_conns w \<and>
     nd_ports w' = nd_ports w"
proof (cases "length (sq_items (nd_queues w ! q)) < sq_length (nd_queues w ! q)")
  case True
  let ?s = "nd_queues w ! q"
  let ?s' = "?s\<lparr>sq_items := sq_items ?s @ [item]\<rparr>"
  have w': "ok" "w' = w\<lparr>nd_queues := (nd_queues w)[q := ?s']\<rparr>"
    using True assms(1) by (auto simp: sock_enqueue_def Let_def)
  have "sum_list (map sock_refs ((nd_queues w)[q := ?s'])) + sock_refs ?s = sum_list (map sock_refs (nd_queues w)) + sock_refs ?s'"
    by (rule sum_list_map_update [OF assms(4)])
  moreover have "sock_refs ?s' = sock_refs ?s + item_ref item" by (simp add: sock_refs_def)
  ultimately have "sum_list (map sock_refs ((nd_queues w)[q := ?s'])) = sum_list (map sock_refs (nd_queues w)) + item_ref item"
    by (metis (no_types, lifting) add.assoc add.commute add_right_cancel)
  then have "owned M w'" unfolding w'(2) by (intro owned_cong [OF assms(3)]) (simp_all add: refs_def)
  moreover have "node_ok w'" using assms(2) by (rule node_ok_same) (simp_all add: w')
  ultimately show ?thesis using w' by simp
next
  case False
  then show ?thesis using assms by (auto simp: sock_enqueue_def Let_def)
qed

lemma conn_socket_valid:
  "node_ok w \<Longrightarrow> c < CSP_CONN_MAX \<Longrightarrow> cn_socket (nd_conns w ! c) = Some q \<Longrightarrow> q < length (nd_queues w)"
  unfolding node_ok_def by (metis nth_mem)

lemma csp_conn_enqueue_frame:
  "csp_conn_enqueue_packet (Some c) p w = (e, w') \<Longrightarrow> c < length (nd_conns w) \<Longrightarrow> nd_ports w' = nd_ports w \<and> nd_queues w' = nd_queues w \<and>
     cn_socket (nd_conns w' ! c) = cn_socket (nd_conns w ! c) \<and> length (nd_conns w') = length (nd_conns w)"
  by (auto simp: csp_conn_enqueue_packet_def Let_def split: if_splits)

lemma udp_new_packet_keeps:
  assumes "node_ok w" "owned (add_mset p M) w" "c < CSP_CONN_MAX" "\<not> bound w c"
  shows "node_ok (csp_udp_new_packet c p w) \<and> owned M (csp_udp_new_packet c p w)"
proof -
  obtain e w1 where e: "csp_conn_enqueue_packet (Some c) (Some p) w = (e, w1)" by fastforce
  have c: "c < length (nd_conns w)" using assms by (simp add: node_ok_def)
  note w1 = csp_conn_enqueue_ok [OF assms(1,3), of "Some p"] csp_conn_enqueue_owned [OF assms(2) c e]
    csp_conn_enqueue_frame [OF e c]
  have e': "e = CSP_ERR_NONE \<or> e = CSP_ERR_NOMEM"
    using e by (auto simp: csp_conn_enqueue_packet_def Let_def split: if_splits)
  have b: "\<not> bound w1 c" using assms(4) w1 by (simp add: bound_def)
  show ?thesis
  proof (cases "e = CSP_ERR_NONE")
    case False
    have "owned M (free_packet (Some p) w1)" using w1 False by (intro owned_free) simp
    then show ?thesis using False e e' w1 by (auto simp: csp_udp_new_packet_def csp_err_defs)
  next
    case True
    have ok1: "node_ok w1" "owned M w1" using w1 e True by simp_all
    show ?thesis
    proof (cases "cn_socket (nd_conns w1 ! c)")
      case None
      then show ?thesis using True e ok1 by (simp add: csp_udp_new_packet_def csp_err_defs)
    next
      case (Some q)
      obtain ok w2 where s: "sock_enqueue q (ItemConn c) w1 = (ok, w2)" by fastforce
      have w2: "node_ok w2 \<and> owned M w2 \<and> nd_conns w2 = nd_conns w1 \<and> nd_ports w2 = nd_ports w1"
        using sock_enqueue_keeps [OF s ok1(1), of M] ok1(2) conn_socket_valid [OF ok1(1) assms(3) Some]
        by (simp split: if_splits)
      have b2: "\<not> bound w2 c" using b w2 by (simp add: bound_def)
      show ?thesis
      proof (cases ok)
        case False
        then show ?thesis
          using True e Some s w2 b2 csp_close_ok [of w2 "Some c"] csp_close_owned [of w2 M "Some c"] assms(3)
          by (simp add: csp_udp_new_packet_def csp_err_defs)
      next
        case True
        let ?w = "set_conn c ((nd_conns w2 ! c)\<lparr>cn_socket := None\<rparr>) w2"
        have "node_ok ?w"
        proof (rule node_ok_set_conn [OF conjunct1 [OF w2] assms(3)])
          show "cn_idin ((nd_conns w2 ! c)\<lparr>cn_socket := None\<rparr>) AND CSP_ID_CONN_MASK \<noteq>
              cn_idin (nd_conns w2 ! j) AND CSP_ID_CONN_MASK"
            if "j < CSP_CONN_MAX" "j \<noteq> c" "open_client ((nd_conns w2 ! c)\<lparr>cn_socket := None\<rparr>)"
              "open_client (nd_conns w2 ! j)" for j
            using that w2 assms(3) by (auto simp: node_ok_def end_points_distinct_def open_client_def)
        qed (use b2 in simp_all)
        moreover have "owned M ?w"
          using w2 assms(3) by (intro owned_set_conn) (auto simp: node_ok_def rx_refs_def)
        ultimately show ?thesis
          using True \<open>e = CSP_ERR_NONE\<close> e Some s by (simp add: csp_udp_new_packet_def csp_err_defs)
      qed
    qed
  qed
qed

lemma security_check_keeps:
  assumes "csp_route_security_check opts i p w = Some (e, w')" "node_ok w" "owned M w"
  shows "node_ok w' \<and> owned M w' \<and> nd_conns w' = nd_conns w \<and> nd_ports w' = nd_ports w \<and>
    nd_queues w' = nd_queues w \<and> nd_address w' = nd_address w"
  using assms by (auto simp: csp_route_security_check_def owned_put_packet)

lemma port_socket_bound:
  assumes "node_ok w" "csp_port_get_socket n (nd_ports w) = Some s"
  shows "bound w s"
proof -
  have "length (nd_ports w) = CSP_MAX_BIND_PORT + 2" using assms(1) by (simp add: node_ok_def ports_ok_def)
  then have "\<exists>k < length (nd_ports w). port_socket (nd_ports w ! k) = Some s"
    using assms(2) by (auto simp: csp_port_get_socket_def CSP_ANY_def split: if_splits intro: exI [of _ n])
  then show ?thesis unfolding bound_def by (metis nth_mem)
qed

lemma csp_conn_find_Some:
  assumes "csp_conn_find i m w = Some c" "node_ok w"
  shows "c < CSP_CONN_MAX" "open_client (nd_conns w ! c)" "cn_idin (nd_conns w ! c) AND m = i AND m" "\<not> bound w c"
proof -
  show c: "c < CSP_CONN_MAX" "open_client (nd_conns w ! c)" "cn_idin (nd_conns w ! c) AND m = i AND m"
    using find_index_SomeD [OF assms(1) [unfolded csp_conn_find_def]] assms(2)
    by (auto simp: node_ok_def open_client_def)
  then show "\<not> bound w c" using assms(2) by (auto simp: node_ok_def server_ok_def open_client_def)
qed


lemma check_id:
  "check_xtea xk opts ifc pk = Some (e, ifc', pk') \<Longrightarrow> pkt_id pk' = pkt_id pk"
  "check_crc32 ifc pk = Some (e, ifc', pk') \<Longrightarrow> pkt_id pk' = pkt_id pk"
  "check_hmac hk opts ifc pk = Some (e, ifc', pk') \<Longrightarrow> pkt_id pk' = pkt_id pk"
  by (auto simp: check_xtea_def check_crc32_def check_hmac_def csp_crc32_verify_def csp_hmac_verify_def Let_def
      split: if_splits prod.splits option.splits)

lemma security_check_id: "security_check hk xk opts ifc pk = Some (e, ifc', pk') \<Longrightarrow> pkt_id pk' = pkt_id pk"
  by (auto simp: security_check_def split: option.splits if_splits dest!: check_id)

lemma route_security_check_id:
  assumes "csp_route_security_check opts i p w = Some (e, w')" "pool_ok (nd_pool w)"
  shows "pkt_id (buf_packet (nd_pool w') p) = pkt_id (buf_packet (nd_pool w) p)"
  using assms
  by (auto simp: csp_route_security_check_def put_packet_def buf_packet_set_packet dest: security_check_id)

lemma node_ok_adopt:
  assumes "node_ok w" "c < CSP_CONN_MAX" "\<not> bound w c" "\<And>x. q = Some x \<Longrightarrow> x < length (nd_queues w)"
  shows "node_ok (set_conn c ((nd_conns w ! c)\<lparr>cn_socket := q, cn_opts := opts\<rparr>) w)"
proof (rule node_ok_set_conn [OF assms(1,2)])
  show "cn_idin ((nd_conns w ! c)\<lparr>cn_socket := q, cn_opts := opts\<rparr>) AND CSP_ID_CONN_MASK \<noteq>
      cn_idin (nd_conns w ! j) AND CSP_ID_CONN_MASK"
    if "j < CSP_CONN_MAX" "j \<noteq> c" "open_client ((nd_conns w ! c)\<lparr>cn_socket := q, cn_opts := opts\<rparr>)"
      "open_client (nd_conns w ! j)" for j
    using that assms by (auto simp: node_ok_def end_points_distinct_def open_client_def)
qed (use assms in auto)

lemma new_conn_adopted:
  assumes "node_ok w" "owned M w" "csp_conn_find i CSP_ID_CONN_MASK w = None" "csp_conn_new i j w = (Some c, w1)"
    and "\<And>x. q = Some x \<Longrightarrow> x < length (nd_queues w)"
    and w2_def: "w2 = set_conn c ((nd_conns w1 ! c)\<lparr>cn_socket := q, cn_opts := opts\<rparr>) w1"
  shows "node_ok w2 \<and> owned M w2 \<and> c < CSP_CONN_MAX \<and> \<not> bound w2 c"
proof (cases rule: csp_conn_new_cases [OF assms(1), of i j])
  case 1
  then show ?thesis using assms(4) by simp
next
  case (2 d)
  then have d: "d = c" and w1: "w1 = w\<lparr>nd_last_given := c, nd_conns := (nd_conns w)[c := new_conn i j c w],
      nd_pool := fold csp_buffer_free (cn_rx_queue (nd_conns w ! c)) (nd_pool w)\<rparr>"
    using assms(4) by simp_all
  have n: "c < length (nd_conns w)" using 2 d assms(1) by (simp add: node_ok_def)
  have "node_ok w1"
    unfolding w1 using 2 d assms(3) by (intro node_ok_new_conn assms(1)) (simp_all add: new_conn_def)
  moreover have b: "bound w1 = bound w" by (simp add: w1 bound_def fun_eq_iff)
  then have "\<not> bound w1 c" using bound_not_free [OF assms(1) 2(2)] d by simp
  ultimately have ok: "node_ok w2"
    unfolding w2_def using 2(1) d assms(5) w1 by (intro node_ok_adopt) simp_all
  have "owned M w1" unfolding w1 using n by (intro owned_new_conn assms(2)) (simp_all add: new_conn_def)
  then have "owned M w2"
    unfolding w2_def using n w1 by (intro owned_set_conn) (simp_all add: rx_refs_def)
  moreover have "\<not> bound w2 c" using \<open>\<not> bound w1 c\<close> by (simp add: w2_def bound_def)
  ultimately show ?thesis using ok 2(1) d by simp
qed

lemma owned_freed: "owned (add_mset p M) w \<Longrightarrow> node_ok w \<Longrightarrow> node_ok (free_packet (Some p) w) \<and> owned M (free_packet (Some p) w)"
  by (simp add: owned_free)

lemma route_conn_less_keeps:
  assumes "route_conn_less s p i w = Some w'" "node_ok w" "owned (add_mset p M) w" "bound w s"
  shows "node_ok w' \<and> owned M w'"
proof -
  obtain e w1 where sec: "csp_route_security_check (cn_opts (nd_conns w ! s)) i p w = Some (e, w1)"
    using assms(1) by (auto simp: route_conn_less_def split: option.splits)
  note w1 = security_check_keeps [OF sec assms(2,3)]
  show ?thesis
  proof (cases "e < 0")
    case True
    then show ?thesis using assms(1) sec w1 by (auto simp: route_conn_less_def intro: owned_free)
  next
    case False
    obtain q where q: "cn_socket (nd_conns w1 ! s) = Some q"
      using assms(1) sec False by (auto simp: route_conn_less_def split: option.splits)
    obtain ok w2 where en: "sock_enqueue q (ItemPacket p) w1 = (ok, w2)" by fastforce
    have "s < CSP_CONN_MAX" using assms(2,4) by (simp add: node_ok_def)
    then have "q < length (nd_queues w1)" using conn_socket_valid q w1 by blast
    from sock_enqueue_keeps [OF en _ _ this, of M] w1 assms(1) sec False q en show ?thesis
      by (auto simp: route_conn_less_def owned_free split: bool.splits)
  qed
qed

lemma route_existing_keeps:
  assumes "route_existing c p i w = Some w'" "node_ok w" "owned (add_mset p M) w" "c < CSP_CONN_MAX" "\<not> bound w c"
  shows "node_ok w' \<and> owned M w'"
proof -
  obtain e w1 where sec: "csp_route_security_check (cn_opts (nd_conns w ! c)) i p w = Some (e, w1)"
    using assms(1) by (auto simp: route_existing_def split: option.splits)
  note w1 = security_check_keeps [OF sec assms(2,3)]
  then have "\<not> bound w1 c" using assms(5) by (simp add: bound_def)
  then show ?thesis
    using assms(1,4) sec w1 udp_new_packet_keeps [of w1 p M c]
    by (auto simp: route_existing_def owned_free split: if_splits)
qed

lemma route_new_conn_keeps:
  assumes "route_new_conn s p i w = Some w'" "node_ok w" "owned (add_mset p M) w" "bound w s"
    and "csp_conn_find (pkt_id (buf_packet (nd_pool w) p)) CSP_ID_CONN_MASK w = None"
  shows "node_ok w' \<and> owned M w'"
proof -
  obtain e w1 where sec: "csp_route_security_check (cn_opts (nd_conns w ! s)) i p w = Some (e, w1)"
    using assms(1) by (auto simp: route_new_conn_def split: option.splits)
  note w1 = security_check_keeps [OF sec assms(2,3)]
  let ?i = "pkt_id (buf_packet (nd_pool w1) p)"
  have i: "?i = pkt_id (buf_packet (nd_pool w) p)"
    using route_security_check_id [OF sec] assms(3) by (simp add: owned_def)
  have none: "csp_conn_find ?i CSP_ID_CONN_MASK w1 = None"
    using assms(5) w1 i by (simp add: csp_conn_find_def)
  show ?thesis
  proof (cases "e < 0")
    case True
    then show ?thesis using assms(1) sec w1 by (auto simp: route_new_conn_def intro: owned_free)
  next
    case False
    obtain r w2 where new: "csp_conn_new ?i (reply_id (nd_address w1) ?i) w1 = (r, w2)" by fastforce
    show ?thesis
    proof (cases r)
      case None
      have "w2 = w1"
        by (cases rule: csp_conn_new_cases [OF conjunct1 [OF w1], of ?i "reply_id (nd_address w1) ?i"])
          (use new None in simp_all)
      then show ?thesis
        using None assms(1) sec False new w1 by (auto simp: route_new_conn_def Let_def intro: owned_free)
    next
      case (Some c)
      have sv: "cn_socket (nd_conns w2 ! s) = Some x \<Longrightarrow> x < length (nd_queues w1)" for x
      proof -
        assume x: "cn_socket (nd_conns w2 ! s) = Some x"
        have s: "s < CSP_CONN_MAX" using assms(2,4) by (simp add: node_ok_def)
        show ?thesis
        proof (cases rule: csp_conn_new_cases [OF conjunct1 [OF w1], of ?i "reply_id (nd_address w1) ?i"])
          case (2 d)
          then have "s \<noteq> d" using bound_not_free [of w1 d] w1 assms(4) by (auto simp: bound_def)
          then have "nd_conns w2 ! s = nd_conns w1 ! s" using 2(3) new by auto
          then show ?thesis using x conn_socket_valid [of w1 s x] s w1 by simp
        qed (use w1 new Some in simp_all)
      qed
      have new': "csp_conn_new ?i (reply_id (nd_address w1) ?i) w1 = (Some c, w2)" using new Some by simp
      let ?w3 = "set_conn c ((nd_conns w2 ! c)\<lparr>cn_socket := cn_socket (nd_conns w2 ! s),
          cn_opts := cn_opts (nd_conns w2 ! s)\<rparr>) w2"
      have w3: "node_ok ?w3 \<and> owned (add_mset p M) ?w3 \<and> c < CSP_CONN_MAX \<and> \<not> bound ?w3 c"
        by (rule new_conn_adopted [OF _ _ none new' sv refl]) (use w1 in simp_all)
      moreover have "w' = csp_udp_new_packet c p ?w3"
        using assms(1) sec False new Some by (auto simp: route_new_conn_def Let_def)
      ultimately show ?thesis using udp_new_packet_keeps by blast
    qed
  qed
qed

context csp_interface begin

lemma route_forward_keeps:
  assumes "route_forward nh nonce p i w = Some w'" "node_ok w" "owned (add_mset p M) w"
  shows "node_ok w' \<and> owned M w'"
proof -
  let ?id = "pkt_id (buf_packet (nd_pool w) p)"
  obtain d where d: "node_find_iface (id_dst ?id) w = Some d"
    using assms(1) by (auto simp: route_forward_def Let_def split: option.splits)
  show ?thesis
  proof (cases "d = None \<or> (d = Some i \<and> \<not> if_split_horizon_off (nd_ifaces w ! i))")
    case True
    then have "w' = free_packet (Some p) w" using assms(1) d by (auto simp: route_forward_def Let_def)
    then show ?thesis using owned_freed [OF assms(3,2)] by simp
  next
    case False
    obtain e w1 where s: "csp_send_direct nh nonce ?id (Some p) d w = Some (e, w1)"
      "w' = (if e \<noteq> CSP_ERR_NONE then free_packet (Some p) w1 else w1)"
      using assms(1) d False by (cases "csp_send_direct nh nonce ?id (Some p) d w") (auto simp: route_forward_def Let_def)
    have "\<And>j. d = Some j \<Longrightarrow> j < length (nd_ifaces w)" using node_find_iface_valid [OF assms(2)] d by blast
    from send_direct_keeps [OF s(1) assms(2,3) this] s(2) show ?thesis
      by (auto simp: owned_free)
  qed
qed

lemma route_work_keeps:
  assumes "csp_route_work nh nonce w = Some (r, w')" "node_ok w" "owned M w"
  shows "node_ok w' \<and> owned M w'"
proof (cases "nd_qfifo w")
  case Nil
  then show ?thesis using assms by (auto simp: csp_route_work_def csp_qfifo_read_def)
next
  case (Cons x rest)
  then obtain p i where q: "nd_qfifo w = (p, i) # rest" by (cases x) auto
  let ?w = "w\<lparr>nd_qfifo := rest\<rparr>"
  let ?id = "pkt_id (buf_packet (nd_pool ?w) p)"
  let ?so = "csp_port_get_socket (unat (id_dport ?id)) (nd_ports ?w)"
  have ok: "node_ok ?w" using assms(2) q by (auto simp: node_ok_def bound_def)
  have ow: "owned (add_mset p M) ?w" by (rule owned_cong [OF assms(3)]) (simp_all add: refs_def q)
  have rd: "csp_qfifo_read w = (CSP_ERR_NONE, Some (p, i), ?w)" by (simp add: csp_qfifo_read_def q)
  note step = assms(1) [unfolded csp_route_work_def rd prod.case option.case Let_def]
  show ?thesis
  proof (cases "id_dst ?id \<noteq> nd_address ?w \<and> id_dst ?id \<noteq> CSP_BROADCAST_ADDR")
    case True
    then obtain w1 where "route_forward nh nonce p i ?w = Some w1" "w' = w1" using step by auto
    then show ?thesis using route_forward_keeps [OF _ ok ow] by simp
  next
    case False
    note step = step [unfolded if_not_P [OF False]]
    show ?thesis
    proof (cases "has_flag CSP_FRDP ?id")
      case True
      then show ?thesis
        using step ok ow by (auto simp: csp_route_check_options_def csp_err_defs intro!: owned_free)
    next
      case nordp: False
      note step = step [unfolded csp_route_check_options_def if_not_P [OF nordp] prod.case]
      show ?thesis
      proof (cases "case ?so of None \<Rightarrow> False | Some s \<Rightarrow> cn_opts (nd_conns ?w ! s) AND CSP_SO_CONN_LESS \<noteq> 0")
        case True
        then obtain s where s: "?so = Some s" by (cases ?so) auto
        have "route_conn_less s p i ?w = Some w'" using step True s by auto
        then show ?thesis by (rule route_conn_less_keeps [OF _ ok ow port_socket_bound [OF ok s]])
      next
        case noless: False
        show ?thesis
        proof (cases "csp_conn_find ?id CSP_ID_CONN_MASK ?w")
          case (Some c)
          have "route_existing c p i ?w = Some w'" using step noless Some by auto
          then show ?thesis
            by (rule route_existing_keeps [OF _ ok ow]) (rule csp_conn_find_Some [OF Some ok])+
        next
          case None
          show ?thesis
          proof (cases ?so)
            case None': None
            then have "w' = free_packet (Some p) ?w" using step None by auto
            then show ?thesis using owned_freed [OF ow ok] by simp
          next
            case (Some s)
            have "route_new_conn s p i ?w = Some w'" using step noless None Some by auto
            then show ?thesis by (rule route_new_conn_keeps [OF _ ok ow port_socket_bound [OF ok Some] None])
          qed
        qed
      qed
    qed
  qed
qed

end


section \<open>Security is undone\<close>

lemma hmac_append_eq:
  assumes "hk \<noteq> []" "pkt_length p + 4 \<le> pkt_cap p"
  shows "csp_hmac_append hk (Some p) False =
     Some (CSP_ERR_NONE, Some (p\<lparr>pkt_data := pkt_data p @ take 4 (hmac_reference hk (pkt_data p))\<rparr>))"
  using assms
  by (simp add: csp_hmac_append_def csp_hmac_memory_reference pkt_append_def CSP_HMAC_LENGTH_def)

lemma hmac_verify_eq:
  assumes "hk \<noteq> []" "length mac = 4"
  shows "csp_hmac_verify hk (Some (p\<lparr>pkt_data := d @ mac\<rparr>)) False =
     (if mac = take 4 (hmac_reference hk d) then Some (CSP_ERR_NONE, Some (p\<lparr>pkt_data := d\<rparr>))
      else Some (CSP_ERR_HMAC, Some (p\<lparr>pkt_data := d @ mac\<rparr>)))"
  using assms
  by (simp add: csp_hmac_verify_def csp_hmac_memory_reference pkt_length_def pkt_header_data_def CSP_HMAC_LENGTH_def)

lemma crc32_append_eq:
  "pkt_length p + 4 \<le> pkt_cap p \<Longrightarrow> csp_crc32_append (Some p) False =
     Some (CSP_ERR_NONE, Some (p\<lparr>pkt_data := pkt_data p @ le32 (csp_hton32 (csp_crc32_memory (pkt_data p)))\<rparr>))"
  by (simp add: csp_crc32_append_def pkt_append_def)

lemma crc32_verify_eq:
  "length c = 4 \<Longrightarrow> csp_crc32_verify (Some (p\<lparr>pkt_data := d @ c\<rparr>)) False =
     (if c = le32 (csp_hton32 (csp_crc32_memory d)) then (CSP_ERR_NONE, Some (p\<lparr>pkt_data := d\<rparr>))
      else (CSP_ERR_INVAL, Some (p\<lparr>pkt_data := d @ c\<rparr>)))"
  by (simp add: csp_crc32_verify_def pkt_length_def)

lemma xtea_undone:
  "csp_xtea_encrypt xk d (n, 1) = (CSP_ERR_NONE, c) \<Longrightarrow> csp_xtea_decrypt xk c (n, 1) = (CSP_ERR_NONE, d) \<and> length c = length d"
  using length_xtea_keystream [of "length d" xk n 1]
  by (auto simp: csp_xtea_decrypt_def csp_xtea_encrypt_keystream xor_bytes_cancel min_absorb1)

text \<open>The data with what the flags of the identifier ask for.\<close>

definition hmac_part :: "u8 list \<Rightarrow> csp_id \<Rightarrow> u8 list \<Rightarrow> u8 list" where
  "hmac_part hk i d = (if has_flag CSP_FHMAC i then d @ take 4 (hmac_reference hk d) else d)"

definition crc_part :: "csp_id \<Rightarrow> u8 list \<Rightarrow> u8 list" where
  "crc_part i d = (if has_flag CSP_FCRC32 i then d @ le32 (csp_hton32 (csp_crc32_memory d)) else d)"

definition xtea_part :: "u8 list \<Rightarrow> u32 \<Rightarrow> csp_id \<Rightarrow> u8 list \<Rightarrow> u8 list" where
  "xtea_part xk nonce i d =
     (if has_flag CSP_FXTEA i then snd (csp_xtea_encrypt xk d (nonce, 1)) @ le32 (csp_hton32 nonce) else d)"

lemma security_part_lengths:
  "length (hmac_part hk i d) \<le> length d + 4" "length (crc_part i d) \<le> length d + 4"
  by (simp_all add: hmac_part_def crc_part_def)

lemma send_security_eq:
  assumes "hk \<noteq> []" "pkt_length pk + 12 \<le> pkt_cap pk"
  shows "send_security hk xk nonce i pk =
     Some (CSP_ERR_NONE, Some (pk\<lparr>pkt_data := xtea_part xk nonce i (crc_part i (hmac_part hk i (pkt_data pk)))\<rparr>))"
proof -
  let ?d = "pkt_data pk"
  let ?h = "hmac_part hk i ?d"
  let ?c = "crc_part i ?h"
  have l: "length ?h \<le> length ?d + 4" "length ?c \<le> length ?h + 4" "length ?d + 12 \<le> pkt_cap pk"
    using security_part_lengths assms(2) by (auto simp: pkt_length_def)
  have 1: "(if has_flag CSP_FHMAC i then csp_hmac_append hk (Some pk) False else Some (CSP_ERR_NONE, Some pk)) =
      Some (CSP_ERR_NONE, Some (pk\<lparr>pkt_data := ?h\<rparr>))"
    using assms by (simp add: hmac_append_eq hmac_part_def)
  have 2: "(if has_flag CSP_FCRC32 i then csp_crc32_append (Some (pk\<lparr>pkt_data := ?h\<rparr>)) False
      else Some (CSP_ERR_NONE, Some (pk\<lparr>pkt_data := ?h\<rparr>))) = Some (CSP_ERR_NONE, Some (pk\<lparr>pkt_data := ?c\<rparr>))"
    using l by (simp add: crc32_append_eq pkt_length_def crc_part_def)
  have 3: "pkt_length (pk\<lparr>pkt_data := ?c\<rparr>) + 4 \<le> pkt_cap (pk\<lparr>pkt_data := ?c\<rparr>)"
    using l by (simp add: pkt_length_def)
  show ?thesis
    unfolding send_security_def 1 option.case prod.case 2
    using 3 by (auto simp: xtea_part_def csp_xtea_encrypt_keystream split: prod.splits)
qed

lemma ntoh32_be32 [simp]: "csp_ntoh32 (of_le32 (be32 w)) = w"
  by (metis csp_ntoh32_def csp_ntoh32_hton32 le32_csp_hton32 of_le32_le32)

lemma check_xtea_part:
  assumes "pkt_id pk = i" "\<not> (opts AND CSP_SO_XTEAREQ \<noteq> 0 \<and> \<not> has_flag CSP_FXTEA i)"
  shows "check_xtea xk opts ifc (pk\<lparr>pkt_data := xtea_part xk nonce i d\<rparr>) =
     Some (CSP_ERR_NONE, ifc, pk\<lparr>pkt_data := d\<rparr>)"
proof (cases "has_flag CSP_FXTEA i")
  case True
  obtain c where c: "csp_xtea_encrypt xk d (nonce, 1) = (CSP_ERR_NONE, c)"
    by (simp add: csp_xtea_encrypt_keystream)
  from xtea_undone [OF this] True assms(1) c show ?thesis
    by (simp add: check_xtea_def xtea_part_def pkt_length_def Let_def)
qed (use assms in \<open>auto simp: check_xtea_def xtea_part_def\<close>)

lemma check_crc32_part:
  "pkt_id pk = i \<Longrightarrow> check_crc32 ifc (pk\<lparr>pkt_data := crc_part i d\<rparr>) = Some (CSP_ERR_NONE, ifc, pk\<lparr>pkt_data := d\<rparr>)"
  by (simp add: check_crc32_def crc_part_def crc32_verify_eq)

lemma check_hmac_part:
  "pkt_id pk = i \<Longrightarrow> hk \<noteq> [] \<Longrightarrow> \<not> (opts AND CSP_SO_HMACREQ \<noteq> 0 \<and> \<not> has_flag CSP_FHMAC i) \<Longrightarrow>
     check_hmac hk opts ifc (pk\<lparr>pkt_data := hmac_part hk i d\<rparr>) = Some (CSP_ERR_NONE, ifc, pk\<lparr>pkt_data := d\<rparr>)"
  by (auto simp: check_hmac_def hmac_part_def hmac_verify_eq)

lemma security_check_restores:
  assumes "pkt_id pk = i" "hk \<noteq> []" "pkt_length pk + 12 \<le> pkt_cap pk"
    "send_security hk xk nonce i pk = Some (e, Some pk')"
    "opts AND CSP_SO_XTEAREQ = 0 \<or> has_flag CSP_FXTEA i" "opts AND CSP_SO_HMACREQ = 0 \<or> has_flag CSP_FHMAC i"
  shows "security_check hk xk opts ifc pk' = Some (CSP_ERR_NONE, ifc, pk)"
proof -
  have pk': "pk' = pk\<lparr>pkt_data := xtea_part xk nonce i (crc_part i (hmac_part hk i (pkt_data pk)))\<rparr>"
    using assms(2-4) by (simp add: send_security_eq)
  have "check_xtea xk opts ifc pk' = Some (CSP_ERR_NONE, ifc, pk\<lparr>pkt_data := crc_part i (hmac_part hk i (pkt_data pk))\<rparr>)"
    unfolding pk' by (rule check_xtea_part) (use assms in auto)
  moreover have "check_crc32 ifc (pk\<lparr>pkt_data := crc_part i (hmac_part hk i (pkt_data pk))\<rparr>) =
      Some (CSP_ERR_NONE, ifc, pk\<lparr>pkt_data := hmac_part hk i (pkt_data pk)\<rparr>)"
    by (rule check_crc32_part) (rule assms(1))
  moreover have "check_hmac hk opts ifc (pk\<lparr>pkt_data := hmac_part hk i (pkt_data pk)\<rparr>) = Some (CSP_ERR_NONE, ifc, pk)"
    using check_hmac_part [OF assms(1,2), of opts ifc "pkt_data pk"] assms(6) by simp
  ultimately show ?thesis by (simp add: security_check_def)
qed


section \<open>Where a packet goes\<close>

lemma fold_free_packet [simp]: "buf_packet (fold csp_buffer_free ps pool) j = buf_packet pool j"
  by (induction ps arbitrary: pool) simp_all

lemma route_work_head:
  assumes "nd_qfifo w = (p, i) # rest"
  shows "csp_route_work nh nonce w =
     (let w = w\<lparr>nd_qfifo := rest\<rparr>; ident = pkt_id (buf_packet (nd_pool w) p)
      in if id_dst ident \<noteq> nd_address w \<and> id_dst ident \<noteq> CSP_BROADCAST_ADDR
         then map_option (\<lambda>w. (0, w)) (route_forward nh nonce p i w)
         else if has_flag CSP_FRDP ident
         then Some (0, free_packet (Some p) (set_iface i (count_rx_error (nd_ifaces w ! i)) w))
         else
           let socket = csp_port_get_socket (unat (id_dport ident)) (nd_ports w)
           in if (case socket of None \<Rightarrow> False | Some s \<Rightarrow> cn_opts (nd_conns w ! s) AND CSP_SO_CONN_LESS \<noteq> 0)
              then map_option (\<lambda>w. (0, w)) (route_conn_less (the socket) p i w)
              else (case csp_conn_find ident CSP_ID_CONN_MASK w of
                      Some conn \<Rightarrow> map_option (\<lambda>w. (0, w)) (route_existing conn p i w)
                    | None \<Rightarrow>
                        (case socket of
                           None \<Rightarrow> Some (0, free_packet (Some p) w)
                         | Some s \<Rightarrow> map_option (\<lambda>w. (0, w)) (route_new_conn s p i w))))"
  by (simp add: csp_route_work_def csp_qfifo_read_def assms Let_def csp_route_check_options_def count_rx_error_def
      csp_err_defs split: option.splits)

lemma owned_qfifo_head:
  assumes "owned M w" "nd_qfifo w = (p, i) # rest"
  shows "owned (add_mset p M) (w\<lparr>nd_qfifo := rest\<rparr>)" "p < pool_count (nd_pool w)" "pool_ok (nd_pool w)"
proof -
  show o: "owned (add_mset p M) (w\<lparr>nd_qfifo := rest\<rparr>)"
    by (rule owned_cong [OF assms(1)]) (simp_all add: refs_def assms(2))
  show "p < pool_count (nd_pool w)" using owned_live [OF o, of p] live_less [of p] by simp
  show "pool_ok (nd_pool w)" using assms(1) by (simp add: owned_def)
qed

lemma security_step:
  assumes "security_check (nd_hmac_key w) (nd_xtea_key w) opts (nd_ifaces w ! i) (buf_packet (nd_pool w) p) = Some (e, ifc, pk)"
    and "pool_ok (nd_pool w)" "p < pool_count (nd_pool w)"
  obtains w' where "csp_route_security_check opts i p w = Some (e, w')" "buf_packet (nd_pool w') p = pk"
    "nd_conns w' = nd_conns w" "nd_ports w' = nd_ports w" "nd_queues w' = nd_queues w" "nd_address w' = nd_address w"
    "nd_qfifo w' = nd_qfifo w" "node_ok w' = node_ok w" "pkt_id pk = pkt_id (buf_packet (nd_pool w) p)"
  using assms security_check_id [OF assms(1)]
  by (intro that [of "put_packet p pk (set_iface i ifc w)"])
    (simp_all add: csp_route_security_check_def put_packet_def buf_packet_set_packet)

lemma route_new_conn_delivers:
  assumes "node_ok w" "pool_ok (nd_pool w)" "p < pool_count (nd_pool w)"
    and sec: "security_check (nd_hmac_key w) (nd_xtea_key w) (cn_opts (nd_conns w ! s)) (nd_ifaces w ! i)
         (buf_packet (nd_pool w) p) = Some (CSP_ERR_NONE, ifc, pk)"
    and s: "bound w s" "cn_socket (nd_conns w ! s) = Some q" "length (sq_items (nd_queues w ! q)) < sq_length (nd_queues w ! q)"
    and free: "\<exists>c < CSP_CONN_MAX. \<not> cn_open (nd_conns w ! c)"
  obtains k w' where "route_new_conn s p i w = Some w'" "k < CSP_CONN_MAX" "\<not> cn_open (nd_conns w ! k)"
    "buf_packet (nd_pool w') p = pk" "nd_qfifo w' = nd_qfifo w" "nd_address w' = nd_address w"
    "nd_queues w' = (nd_queues w)[q := (nd_queues w ! q)\<lparr>sq_items := sq_items (nd_queues w ! q) @ [ItemConn k]\<rparr>]"
    "\<exists>cn. nd_conns w' = (nd_conns w)[k := cn] \<and> open_client cn \<and> cn_rx_queue cn = [Some p] \<and> cn_socket cn = None \<and>
       cn_opts cn = cn_opts (nd_conns w ! s) \<and> cn_idin cn = pkt_id (buf_packet (nd_pool w) p) \<and>
       cn_idout cn = reply_id (nd_address w) (pkt_id (buf_packet (nd_pool w) p))"
proof -
  obtain w1 where w1: "csp_route_security_check (cn_opts (nd_conns w ! s)) i p w = Some (CSP_ERR_NONE, w1)"
    "buf_packet (nd_pool w1) p = pk" "nd_conns w1 = nd_conns w" "nd_ports w1 = nd_ports w" "nd_queues w1 = nd_queues w"
    "nd_address w1 = nd_address w" "nd_qfifo w1 = nd_qfifo w" "node_ok w1 = node_ok w"
    "pkt_id pk = pkt_id (buf_packet (nd_pool w) p)"
    by (rule security_step [OF sec assms(2,3)])
  let ?i = "pkt_id (buf_packet (nd_pool w) p)"
  have len: "length (nd_conns w) = CSP_CONN_MAX" using assms(1) by (simp add: node_ok_def)
  have n1: "node_ok w1" using w1 assms(1) by simp
  show thesis
  proof (cases rule: csp_conn_new_cases [OF n1, of ?i "reply_id (nd_address w) ?i"])
    case 1
    then show thesis using free w1 len by (metis nth_mem)
  next
    case (2 k)
    then have k: "k < CSP_CONN_MAX" "\<not> cn_open (nd_conns w ! k)" using w1 by simp_all
    have ks: "k \<noteq> s" using bound_not_free [OF assms(1) k(2)] s(1) by auto
    have q: "q < length (nd_queues w)"
      using conn_socket_valid [OF assms(1) _ s(2)] s(1) assms(1) by (simp add: node_ok_def)
    have rxl: "(0 :: nat) < CSP_RX_QUEUE_LENGTH" by (simp add: CSP_RX_QUEUE_LENGTH_def)
    have "\<exists>w'. route_new_conn s p i w = Some w' \<and> buf_packet (nd_pool w') p = pk \<and> nd_qfifo w' = nd_qfifo w \<and>
        nd_address w' = nd_address w \<and>
        nd_queues w' = (nd_queues w)[q := (nd_queues w ! q)\<lparr>sq_items := sq_items (nd_queues w ! q) @ [ItemConn k]\<rparr>] \<and>
        nd_conns w' = (nd_conns w)[k := (nd_conns w ! k)\<lparr>cn_open := True, cn_type := CONN_CLIENT, cn_idin := ?i,
          cn_idout := reply_id (nd_address w) ?i, cn_timestamp := nd_now w1, cn_opts := cn_opts (nd_conns w ! s),
          cn_rx_queue := [Some p], cn_socket := None\<rparr>]"
      using 2(3) w1 k ks q s(2,3) len rxl
      by (simp add: route_new_conn_def Let_def new_conn_def csp_udp_new_packet_def
          csp_conn_enqueue_packet_def sock_enqueue_def csp_err_defs)
    then show thesis
      by (elim exE conjE) (rule that [OF _ k], auto simp: open_client_def)
  qed
qed


lemma route_existing_delivers:
  assumes "node_ok w" "pool_ok (nd_pool w)" "p < pool_count (nd_pool w)" "c < CSP_CONN_MAX"
    and sec: "security_check (nd_hmac_key w) (nd_xtea_key w) (cn_opts (nd_conns w ! c)) (nd_ifaces w ! i)
         (buf_packet (nd_pool w) p) = Some (CSP_ERR_NONE, ifc, pk)"
    and room: "length (cn_rx_queue (nd_conns w ! c)) < CSP_RX_QUEUE_LENGTH" "cn_socket (nd_conns w ! c) = None"
  shows "\<exists>w'. route_existing c p i w = Some w' \<and> buf_packet (nd_pool w') p = pk \<and> nd_queues w' = nd_queues w \<and>
     nd_qfifo w' = nd_qfifo w \<and>
     nd_conns w' = (nd_conns w)[c := (nd_conns w ! c)\<lparr>cn_rx_queue := cn_rx_queue (nd_conns w ! c) @ [Some p]\<rparr>]"
proof -
  obtain w1 where w1: "csp_route_security_check (cn_opts (nd_conns w ! c)) i p w = Some (CSP_ERR_NONE, w1)"
    "buf_packet (nd_pool w1) p = pk" "nd_conns w1 = nd_conns w" "nd_queues w1 = nd_queues w" "nd_qfifo w1 = nd_qfifo w"
    by (rule security_step [OF sec assms(2,3)])
  have "c < length (nd_conns w)" using assms(1,4) by (simp add: node_ok_def)
  then show ?thesis
    using w1 room by (simp add: route_existing_def csp_udp_new_packet_def csp_conn_enqueue_packet_def csp_err_defs Let_def)
qed

lemma set_packet_same [simp]: "pool_ok pool \<Longrightarrow> set_packet p (buf_packet pool p) pool = pool"
  by (cases "p < pool_count pool") (simp_all add: set_packet_def buf_packet_def list_update_beyond pool_ok_def)

lemma take_bit_id [simp]:
  "take_bit 6 (id_sport i) = id_sport i" "take_bit 6 (id_dport i) = id_dport i"
  "take_bit 5 (id_dst i) = id_dst i" "take_bit 5 (id_src i) = id_src i" "take_bit 2 (id_pri i) = id_pri i"
  by (rule byte_eqI, auto simp: id_get_defs bit_simps bit_get_field)+

lemma mirrored_reply: "id_dst i = me \<Longrightarrow> mirrored (reply_id me i) i"
  by (auto simp: mirrored_def reply_id_def)

lemma route_work_listener:
  assumes "node_ok w" "owned M w" "nd_qfifo w = (p, i) # rest"
  defines "ident \<equiv> pkt_id (buf_packet (nd_pool w) p)"
  assumes "id_dst ident = nd_address w \<or> id_dst ident = CSP_BROADCAST_ADDR" "\<not> has_flag CSP_FRDP ident"
    and "csp_port_get_socket (unat (id_dport ident)) (nd_ports w) = Some s" "cn_opts (nd_conns w ! s) AND CSP_SO_CONN_LESS = 0"
    and "cn_socket (nd_conns w ! s) = Some q" "length (sq_items (nd_queues w ! q)) < sq_length (nd_queues w ! q)"
    and "csp_conn_find ident CSP_ID_CONN_MASK w = None" "\<exists>c < CSP_CONN_MAX. \<not> cn_open (nd_conns w ! c)"
    and "security_check (nd_hmac_key w) (nd_xtea_key w) (cn_opts (nd_conns w ! s)) (nd_ifaces w ! i)
         (buf_packet (nd_pool w) p) = Some (CSP_ERR_NONE, ifc, pk)"
  shows "\<exists>k cn w'. csp_route_work nh nonce w = Some (0, w') \<and> k < CSP_CONN_MAX \<and> \<not> cn_open (nd_conns w ! k) \<and>
     nd_queues w' = (nd_queues w)[q := (nd_queues w ! q)\<lparr>sq_items := sq_items (nd_queues w ! q) @ [ItemConn k]\<rparr>] \<and>
     nd_conns w' = (nd_conns w)[k := cn] \<and> open_client cn \<and> cn_rx_queue cn = [Some p] \<and>
     cn_idin cn = ident \<and> cn_idout cn = reply_id (nd_address w) ident \<and> buf_packet (nd_pool w') p = pk"
proof -
  let ?w = "w\<lparr>nd_qfifo := rest\<rparr>"
  have ok: "node_ok ?w" using assms(1,3) by (auto simp: node_ok_def bound_def)
  have b: "bound ?w s" using port_socket_bound [OF assms(1,7)] by (simp add: bound_def)
  note pool = owned_qfifo_head(2,3) [OF assms(2,3)]
  obtain k w' where r: "route_new_conn s p i ?w = Some w'" "k < CSP_CONN_MAX" "\<not> cn_open (nd_conns ?w ! k)"
    "buf_packet (nd_pool w') p = pk"
    "nd_queues w' = (nd_queues ?w)[q := (nd_queues ?w ! q)\<lparr>sq_items := sq_items (nd_queues ?w ! q) @ [ItemConn k]\<rparr>]"
    "\<exists>cn. nd_conns w' = (nd_conns ?w)[k := cn] \<and> open_client cn \<and> cn_rx_queue cn = [Some p] \<and> cn_socket cn = None \<and>
       cn_opts cn = cn_opts (nd_conns ?w ! s) \<and> cn_idin cn = pkt_id (buf_packet (nd_pool ?w) p) \<and>
       cn_idout cn = reply_id (nd_address ?w) (pkt_id (buf_packet (nd_pool ?w) p))"
    by (rule route_new_conn_delivers [OF ok, of p s i ifc pk q]) (use b assms pool in auto)
  have "csp_route_work nh nonce w = Some (0, w')"
    using assms(3,5-8,11) r(1) by (auto simp: route_work_head Let_def ident_def csp_conn_find_def)
  then show ?thesis using r(2-) by (auto simp: ident_def)
qed

text \<open>Sending to the own address over the loopback interface.\<close>

lemma send_loopback:
  assumes "node_ok w" "owned (add_mset p M) w" "cn_open (nd_conns w ! c)"
  defines "i \<equiv> cn_idout (nd_conns w ! c)" and "pk \<equiv> (buf_packet (nd_pool w) p)\<lparr>pkt_id := cn_idout (nd_conns w ! c)\<rparr>"
  assumes "id_dst i = nd_address w" "id_src i = nd_address w"
    and "node_find_iface (id_dst i) w = Some (Some CSP_IF_LO)" "if_mtu (nd_ifaces w ! CSP_IF_LO) = 0"
    and "nd_qfifo w = []" "pkt_length pk + 12 \<le> pkt_cap pk"
  shows "\<exists>w' pk'. csp_send lo_nexthop nonce (Some c) (Some p) w = Some (1, w') \<and>
     send_security (nd_hmac_key w) (nd_xtea_key w) nonce i pk = Some (CSP_ERR_NONE, Some pk') \<and>
     buf_packet (nd_pool w') p = pk' \<and> nd_qfifo w' = [(p, CSP_IF_LO)] \<and> nd_conns w' = nd_conns w \<and>
     nd_ports w' = nd_ports w \<and> nd_queues w' = nd_queues w \<and> nd_address w' = nd_address w \<and>
     nd_hmac_key w' = nd_hmac_key w \<and> nd_xtea_key w' = nd_xtea_key w \<and> node_ok w' \<and> owned M w'"
proof -
  have hk: "nd_hmac_key w \<noteq> []" using assms(1) by (simp add: node_ok_def)
  obtain pk' where pk': "send_security (nd_hmac_key w) (nd_xtea_key w) nonce i pk = Some (CSP_ERR_NONE, Some pk')"
    "pkt_id pk' = i"
    using send_security_eq [OF hk, of pk] assms(11) by (auto simp: pk_def i_def)
  have p: "p < pool_count (nd_pool w)" "pool_ok (nd_pool w)"
    using owned_live [OF assms(2), of p] live_less [of p] assms(2) by (auto simp: owned_def)
  have "\<exists>w'. csp_send lo_nexthop nonce (Some c) (Some p) w = Some (1, w') \<and>
     buf_packet (nd_pool w') p = pk' \<and> nd_qfifo w' = [(p, CSP_IF_LO)] \<and> nd_conns w' = nd_conns w \<and>
     nd_ports w' = nd_ports w \<and> nd_queues w' = nd_queues w \<and> nd_address w' = nd_address w \<and>
     nd_hmac_key w' = nd_hmac_key w \<and> nd_xtea_key w' = nd_xtea_key w"
    using assms(3,6-10) pk' p unfolding i_def pk_def
    by (simp add: csp_send_def csp_send_direct_def lo_nexthop_def csp_lo_tx_def csp_qfifo_write_def Let_def
        buf_packet_set_packet put_packet_def csp_err_defs CSP_FIFO_INPUT_def count_tx_def set_iface_def)
  then obtain w' where w': "csp_send lo_nexthop nonce (Some c) (Some p) w = Some (1, w')"
    "buf_packet (nd_pool w') p = pk'" "nd_qfifo w' = [(p, CSP_IF_LO)]" "nd_conns w' = nd_conns w"
    "nd_ports w' = nd_ports w" "nd_queues w' = nd_queues w" "nd_address w' = nd_address w"
    "nd_hmac_key w' = nd_hmac_key w" "nd_xtea_key w' = nd_xtea_key w" by blast
  from lo.send_keeps [OF w'(1) assms(1,2)] w' pk' show ?thesis by auto
qed

section \<open>The router as the other task\<close>

lemma ports_frame [simp]:
  "nd_ports (free_packet p w) = nd_ports w" "nd_ports (csp_conn_flush_rx_queue c w) = nd_ports w"
  "nd_ports (snd (csp_close conn w)) = nd_ports w"
  by (auto simp: free_packet_def csp_conn_flush_eq csp_close_def split: option.splits)

lemma sock_enqueue_ports: "sock_enqueue q x w = (ok, w') \<Longrightarrow> nd_ports w' = nd_ports w"
  by (auto simp: sock_enqueue_def Let_def split: if_splits)

lemma csp_udp_ports [simp]: "nd_ports (csp_udp_new_packet c p w) = nd_ports w"
  by (auto simp: csp_udp_new_packet_def csp_conn_enqueue_packet_def Let_def split: if_splits option.splits prod.splits
      bool.splits dest!: sock_enqueue_ports)

lemma security_ports: "csp_route_security_check opts i p w = Some (e, w') \<Longrightarrow> nd_ports w' = nd_ports w"
  by (auto simp: csp_route_security_check_def)

lemma csp_conn_new_ports: "csp_conn_new i j w = (r, w') \<Longrightarrow> nd_ports w' = nd_ports w"
  by (auto simp: csp_conn_new_def csp_conn_allocate_def split: option.splits prod.splits)

context csp_interface begin

lemma route_work_ports:
  assumes "csp_route_work nh nonce w = Some (r, w')"
  shows "nd_ports w' = nd_ports w"
proof (cases "nd_qfifo w")
  case Nil
  then show ?thesis using assms by (simp add: csp_route_work_def csp_qfifo_read_def)
next
  case (Cons x rest)
  obtain p i where x: "nd_qfifo w = (p, i) # rest" using Cons by (cases x) auto
  have fwd: "route_forward nh nonce p i v = Some v' \<Longrightarrow> nd_ports v' = nd_ports v" for v v'
    by (auto simp: route_forward_def Let_def split: option.splits if_splits dest!: send_direct_frame)
  have less: "route_conn_less s p i v = Some v' \<Longrightarrow> nd_ports v' = nd_ports v" for s v v'
    by (auto simp: route_conn_less_def split: option.splits if_splits prod.splits bool.splits
        dest!: security_ports sock_enqueue_ports)
  have ex: "route_existing c p i v = Some v' \<Longrightarrow> nd_ports v' = nd_ports v" for c v v'
    by (auto simp: route_existing_def split: option.splits if_splits dest!: security_ports)
  have new: "route_new_conn s p i v = Some v' \<Longrightarrow> nd_ports v' = nd_ports v" for s v v'
    by (auto simp: route_new_conn_def Let_def split: option.splits if_splits prod.splits
        dest!: security_ports csp_conn_new_ports)
  show ?thesis
    using assms by (auto simp: route_work_head [OF x] Let_def split: if_splits option.splits
        dest: fwd less ex new)
qed

definition router :: "u32 \<Rightarrow> csp_node \<Rightarrow> csp_node" where
  "router nonce w = (case csp_route_work nh nonce w of None \<Rightarrow> w | Some (_, w') \<Rightarrow> w')"

lemma router_tasks_ok: "tasks_ok (router nonce ^^ n)"
proof -
  have one: "node_ok (router nonce w) \<and> owned M (router nonce w) \<and> nd_ports (router nonce w) = nd_ports w"
    if "node_ok w" "owned M w" for w M
    using that route_work_keeps [of nonce w _ _ M] route_work_ports [of nonce w]
    by (auto simp: router_def split: option.splits)
  have "node_ok ((router nonce ^^ n) w) \<and> owned M ((router nonce ^^ n) w) \<and> nd_ports ((router nonce ^^ n) w) = nd_ports w"
    if "node_ok w" "owned M w" for w M
  proof (induction n)
    case (Suc n)
    then show ?case using one [of "(router nonce ^^ n) w" M] by simp
  qed (use that in simp)
  then show ?thesis by (simp add: tasks_ok_def)
qed

end

section \<open>A node for the examples\<close>

text \<open>The node 5 with a socket (connection 1) bound to port 7, and a second interface for the node 9.\<close>

definition demo_server :: csp_conn where
  "demo_server = closed_conn\<lparr>cn_open := True, cn_type := CONN_SERVER, cn_socket := Some 0\<rparr>"

definition demo_node :: csp_node where
  "demo_node = \<lparr>nd_address = 5, nd_now = 0, nd_pool = pool4, nd_conns = (replicate 10 closed_conn)[1 := demo_server],
     nd_last_given = 1, nd_sport = 40, nd_ports = csp_port_init[7 := \<lparr>port_open = True, port_socket = Some 1\<rparr>],
     nd_queues = [\<lparr>sq_length = 3, sq_items = []\<rparr>],
     nd_ifaces = [csp_if_lo, csp_if_lo\<lparr>if_name := ''CAN'', if_mtu := 256\<rparr>], nd_iflist = [0, 1],
     nd_routes = static_clear[5 := (Some 0, 255), 9 := (Some 1, 255)], nd_qfifo = [],
     nd_hmac_key = [1, 2], nd_xtea_key = replicate 16 3\<rparr>"

lemma demo_bound [simp]: "bound demo_node c \<longleftrightarrow> c = 1"
  by (auto simp: bound_def demo_node_def csp_port_init_def csp_port_consts set_update_memI
      dest!: set_update_subset_insert [THEN subsetD] intro!: bexI [of _ "\<lparr>port_open = True, port_socket = Some 1\<rparr>"])

lemma demo_conn: "c < 10 \<Longrightarrow> nd_conns demo_node ! c = (if c = 1 then demo_server else closed_conn)"
  by (simp add: demo_node_def nth_list_update)

lemma demo_ok: "node_ok demo_node"
proof -
  have "ports_ok (nd_ports demo_node)"
    using csp_bind_ok [OF csp_port_init_ok, of "Some (1 :: nat)" 7]
    by (simp add: demo_node_def csp_bind_def csp_port_consts csp_port_init_def)
  moreover have "end_points_distinct (nd_conns demo_node)"
    unfolding end_points_distinct_def
    by (auto simp: demo_node_def nth_list_update open_client_def closed_conn_def demo_server_def)
  moreover have "static_ok (nd_iflist demo_node, nd_routes demo_node)"
    by (auto simp: static_ok_def demo_node_def static_clear_def dest!: set_update_subset_insert [THEN subsetD])
  moreover have "server_ok (nd_conns demo_node ! 1)"
    by (simp add: demo_conn server_ok_def demo_server_def closed_conn_def)
  moreover have "q < length (nd_queues demo_node)" if "cn \<in> set (nd_conns demo_node)" "cn_socket cn = Some q" for cn q
    using that by (auto simp: demo_node_def demo_server_def closed_conn_def dest!: set_update_subset_insert [THEN subsetD])
  ultimately show ?thesis
    unfolding node_ok_def by (simp add: CSP_CONN_MAX_def)
      (auto simp: demo_node_def CSP_MAX_BIND_PORT_def CSP_ID_PORT_MAX_def)
qed

lemma demo_owned: "owned {#} demo_node"
  using pool4_ok
  by (simp add: owned_def refs_def demo_node_def rx_refs_def closed_conn_def demo_server_def map_filter_simps
      sock_refs_def numeral_eq_Suc)

text \<open>A packet that arrives on an interface.\<close>

definition arrive :: "csp_packet \<Rightarrow> nat \<Rightarrow> csp_node \<Rightarrow> csp_node" where
  "arrive pk i w = (case csp_buffer_get 0 (nd_pool w) of
     (None, _) \<Rightarrow> w
   | (Some p, pool) \<Rightarrow> w\<lparr>nd_pool := set_packet p pk pool, nd_qfifo := nd_qfifo w @ [(p, i)]\<rparr>)"

lemma pool4_get: "\<exists>pool. csp_buffer_get 0 pool4 = (Some 0, pool)"
  by (simp add: pool4_def csp_buffer_init_def csp_buffer_get_def CSP_BUFFER_PACKET_OVERHEAD_def numeral_eq_Suc
      upt_rec)

lemma arrive_ok:
  assumes "node_ok w" "owned {#} w" "nd_pool w = pool4" "nd_qfifo w = []" "i < length (nd_ifaces w)"
  shows "node_ok (arrive pk i w)" "owned {#} (arrive pk i w)"
    "nd_qfifo (arrive pk i w) = [(0, i)]" "buf_packet (nd_pool (arrive pk i w)) 0 = pk"
    "\<exists>pool. arrive pk i w = w\<lparr>nd_pool := pool, nd_qfifo := [(0, i)]\<rparr>"
proof -
  obtain pool where g: "csp_buffer_get 0 (nd_pool w) = (Some 0, pool)"
    using pool4_get by (auto simp: assms(3))
  have a: "arrive pk i w = w\<lparr>nd_pool := set_packet 0 pk pool, nd_qfifo := [(0, i)]\<rparr>"
    by (simp add: arrive_def g assms(4))
  note got = csp_buffer_get_keeps [OF g assms(1,2)]
  have po: "pool_ok pool" "0 < pool_count pool"
    using csp_buffer_get_Some [of pool4 0 0 pool] g pool4_ok assms(3) by auto
  show "node_ok (arrive pk i w)"
    using got assms(5) unfolding a by (simp add: node_ok_def bound_def)
  have "owned {#0#} (w\<lparr>nd_pool := set_packet 0 pk pool\<rparr>)"
    using got owned_set_packet [of "{#0#}" "w\<lparr>nd_pool := pool\<rparr>" 0 pk] by simp
  then show "owned {#} (arrive pk i w)"
    unfolding a by (rule owned_cong) (simp_all add: refs_def assms(4))
  show "nd_qfifo (arrive pk i w) = [(0, i)]" "buf_packet (nd_pool (arrive pk i w)) 0 = pk"
    using po by (simp_all add: a buf_packet_set_packet)
  show "\<exists>pool. arrive pk i w = w\<lparr>nd_pool := pool, nd_qfifo := [(0, i)]\<rparr>"
    using a by blast
qed

lemma arrive_demo:
  assumes "i < 2"
  shows "node_ok (arrive pk i demo_node)" "owned {#} (arrive pk i demo_node)"
    "nd_qfifo (arrive pk i demo_node) = [(0, i)]" "buf_packet (nd_pool (arrive pk i demo_node)) 0 = pk"
    "\<exists>pool. arrive pk i demo_node = demo_node\<lparr>nd_pool := pool, nd_qfifo := [(0, i)]\<rparr>"
  using arrive_ok [OF demo_ok demo_owned, of i pk] assms by (simp_all add: demo_node_def)

text \<open>Packets for the socket of the node, for another node, and too short for its encryption.\<close>

definition demo_packet :: "u8 \<Rightarrow> u8 \<Rightarrow> u8 list \<Rightarrow> csp_packet" where
  "demo_packet dst flags d = (empty_packet 40)\<lparr>pkt_id := set_flags flags (set_dport 7 (set_dst dst (set_src 9 0))), pkt_data := d\<rparr>"

lemma demo_packet_fields [simp]:
  "id_dst (pkt_id (demo_packet dst flags d)) = take_bit 5 dst" "id_dport (pkt_id (demo_packet dst flags d)) = 7"
  "id_src (pkt_id (demo_packet dst flags d)) = 9" "id_flags (pkt_id (demo_packet dst flags d)) = flags"
  "pkt_data (demo_packet dst flags d) = d"
  by (simp_all add: demo_packet_def)

lemma demo_socket [simp]: "csp_port_get_socket 7 (nd_ports demo_node) = Some 1"
  by (simp add: csp_port_get_socket_def demo_node_def csp_port_init_def csp_port_consts)

lemma demo_no_client: "csp_conn_find i CSP_ID_CONN_MASK demo_node = None"
  by (auto simp: csp_conn_find_def find_index_None_iff demo_node_def closed_conn_def demo_server_def
      dest!: set_update_subset_insert [THEN subsetD])

lemma demo_server_fields [simp]:
  "cn_opts demo_server = 0" "cn_socket demo_server = Some 0" "cn_open demo_server" "\<not> cn_open closed_conn"
  by (simp_all add: demo_server_def closed_conn_def)

lemma security_check_plain:
  "id_flags (pkt_id pk) = 0 \<Longrightarrow> security_check hk xk 0 ifc pk = Some (CSP_ERR_NONE, ifc, pk)"
  by (simp add: security_check_def check_xtea_def check_crc32_def check_hmac_def has_flag_def)

definition demo_client :: csp_conn where
  "demo_client = closed_conn\<lparr>cn_open := True,
     cn_idin := set_sport 7 (set_dport 40 (set_src 5 (set_dst 5 (set_flags 8 0)))),
     cn_idout := set_dport 7 (set_sport 40 (set_dst 5 (set_src 5 (set_flags 8 0))))\<rparr>"

definition demo_connected :: csp_node where
  "demo_connected = set_conn 0 demo_client demo_node"

lemma demo_connected_ok: "node_ok demo_connected" "owned {#} demo_connected"
proof -
  show "node_ok demo_connected"
    unfolding demo_connected_def
  proof (rule node_ok_set_conn [OF demo_ok])
    show "cn_idin demo_client AND CSP_ID_CONN_MASK \<noteq> cn_idin (nd_conns demo_node ! j) AND CSP_ID_CONN_MASK"
      if "j < CSP_CONN_MAX" "open_client (nd_conns demo_node ! j)" for j
      using that by (auto simp: CSP_CONN_MAX_def demo_conn open_client_def demo_server_def closed_conn_def split: if_splits)
  qed (simp_all add: CSP_CONN_MAX_def demo_client_def closed_conn_def)
  show "owned {#} demo_connected"
    unfolding demo_connected_def
    by (rule owned_set_conn [OF demo_owned]) (simp_all add: demo_conn rx_refs_def demo_client_def closed_conn_def demo_node_def)
qed

definition demo_sender :: csp_node where
  "demo_sender = demo_connected
     \<lparr>nd_pool := set_packet 0 (demo_packet 5 0 [65, 66]) (snd (csp_buffer_get 0 pool4))\<rparr>"

lemma demo_sender_ok: "node_ok demo_sender" "owned {#0#} demo_sender"
  "buf_packet (nd_pool demo_sender) 0 = demo_packet 5 0 [65, 66]"
proof -
  let ?w = demo_connected
  obtain pool where g: "csp_buffer_get 0 (nd_pool ?w) = (Some 0, pool)"
    using pool4_get by (auto simp: demo_connected_def demo_node_def)
  note n = demo_connected_ok(1) and o = demo_connected_ok(2)
  have s: "demo_sender = ?w\<lparr>nd_pool := set_packet 0 (demo_packet 5 0 [65, 66]) pool\<rparr>"
    using g by (simp add: demo_sender_def) (simp add: demo_connected_def demo_node_def)
  note got = csp_buffer_get_keeps [OF g n o]
  show "node_ok demo_sender" using n by (simp add: s)
  show "owned {#0#} demo_sender"
    using got owned_set_packet [of "{#0#}" "?w\<lparr>nd_pool := pool\<rparr>" 0 "demo_packet 5 0 [65, 66]"] by (simp add: s)
  have "pool_ok pool" "0 < pool_count pool"
    using csp_buffer_get_Some [of pool4 0 0 pool] g pool4_ok by (auto simp: demo_connected_def demo_node_def)
  then show "buf_packet (nd_pool demo_sender) 0 = demo_packet 5 0 [65, 66]"
    by (simp add: s buf_packet_set_packet)
qed

section \<open>Properties\<close>

text \<open>C2. The router neither loses nor duplicates a packet: after every step of \<open>csp_route_work\<close>, on
  every path from forwarding to delivery and refusal, every buffer in use is referred to exactly
  once, and ports, sockets, end points and routes are still consistent, for all interfaces whose
  transmit function takes the packet exactly when it succeeds.\<close>

theorem csp_route_work_conserves:
  assumes "csp_interface nh" "node_ok w" "owned M w" "csp_route_work nh nonce w = Some (r, w')"
  shows "node_ok w' \<and> owned M w'"
  using csp_interface.route_work_keeps [OF assms(1,4,2,3)] .



text \<open>A packet for another node never reaches a local connection: if it comes from a third node and
  the route leads to an interface other than the one it came from (or split horizon is off) that
  can carry it, that interface's transmit function gets the packet exactly as it was received, and a
  packet it refuses is freed.\<close>

theorem csp_route_forwards:
  assumes "node_ok w" "owned M w" "nd_qfifo w = (p, i) # rest"
  defines "w1 \<equiv> w\<lparr>nd_qfifo := rest\<rparr>" and "pk \<equiv> buf_packet (nd_pool w) p"
  assumes "id_dst (pkt_id pk) \<noteq> nd_address w" "id_dst (pkt_id pk) \<noteq> CSP_BROADCAST_ADDR"
    and "id_src (pkt_id pk) \<noteq> nd_address w"
    and "node_find_iface (id_dst (pkt_id pk)) w = Some (Some j)" "j \<noteq> i \<or> if_split_horizon_off (nd_ifaces w ! i)"
    and "nh j = Some tx" "if_mtu (nd_ifaces w ! j) = 0 \<or> pkt_length pk \<le> unat (if_mtu (nd_ifaces w ! j))"
  shows "csp_route_work nh nonce w =
     (case tx p w1 of None \<Rightarrow> None
      | Some (e, w2) \<Rightarrow> Some (0, if e = CSP_ERR_NONE then count_tx j (pkt_length pk) w2
                               else free_packet (Some p) (count_tx_error j w2)))"
proof -
  have "pool_ok (nd_pool w)" using assms(2) by (simp add: owned_def)
  then have same: "put_packet p (pk\<lparr>pkt_id := pkt_id pk\<rparr>) w1 = w1"
    by (simp add: put_packet_def pk_def w1_def)
  have mtu: "\<not> (0 < unat (if_mtu (nd_ifaces w ! j)) \<and> unat (if_mtu (nd_ifaces w ! j)) < pkt_length pk)"
    using assms(12) by (auto simp: unat_eq_zero)
  have "csp_send_direct nh nonce (pkt_id pk) (Some p) (Some j) w1 =
     (case tx p w1 of None \<Rightarrow> None
      | Some (e, w2) \<Rightarrow> if e \<noteq> CSP_ERR_NONE then Some (CSP_ERR_TX, count_tx_error j w2)
                       else Some (CSP_ERR_NONE, count_tx j (pkt_length pk) w2))"
    using assms(8,11) same mtu unfolding pk_def w1_def
    by (auto simp: csp_send_direct_def Let_def split: option.splits)
  then show ?thesis
    using assms(3,6,7,9,10)
    by (auto simp: route_work_head Let_def route_forward_def pk_def w1_def node_find_iface_def csp_err_defs
        split: option.splits)
qed

text \<open>A four-byte decryption field is taken for granted: a packet of fewer than four bytes with
  the encryption flag, sent to any bound port from anywhere, makes the router compute a length below
  zero and write outside its buffer, before anything is authenticated.\<close>

theorem csp_short_encrypted_packet_undefined:
  assumes "nd_qfifo w = (p, i) # rest"
  defines "pk \<equiv> buf_packet (nd_pool w) p"
  assumes "id_dst (pkt_id pk) = nd_address w" "\<not> has_flag CSP_FRDP (pkt_id pk)"
    and "csp_port_get_socket (unat (id_dport (pkt_id pk))) (nd_ports w) = Some s"
    and "has_flag CSP_FXTEA (pkt_id pk)" "pkt_length pk < 4"
  shows "csp_route_work nh nonce w = None"
proof -
  have "csp_route_security_check opts i p (w\<lparr>nd_qfifo := rest\<rparr>) = None" for opts
    using assms(6,7) by (simp add: csp_route_security_check_def security_check_def check_xtea_def pk_def)
  then show ?thesis
    using assms by (auto simp: route_work_head Let_def route_conn_less_def route_existing_def route_new_conn_def
        split: option.splits)
qed


text \<open>C1. From end to end: a packet that a task sends on a connection to its own node, with any of
  authentication, checksum and encryption, passes the loopback interface and the router, opens a new
  connection at the socket that listens on the port, and the server that accepts it reads the same
  buffer with the same data, and answers to the sender's end point.\<close>

theorem csp_loopback_end_to_end:
  assumes "node_ok w" "owned (add_mset p M) w" "open_client (nd_conns w ! c)"
  defines "i \<equiv> cn_idout (nd_conns w ! c)" and "pk \<equiv> buf_packet (nd_pool w) p"
  assumes "id_dst i = nd_address w" "id_src i = nd_address w" "\<not> has_flag CSP_FRDP i"
    and "node_find_iface (id_dst i) w = Some (Some CSP_IF_LO)" "if_mtu (nd_ifaces w ! CSP_IF_LO) = 0"
    and "nd_qfifo w = []" "pkt_length pk + 12 \<le> pkt_cap pk"
    and "csp_port_get_socket (unat (id_dport i)) (nd_ports w) = Some s"
    and "cn_opts (nd_conns w ! s) AND CSP_SO_CONN_LESS = 0"
    and "cn_opts (nd_conns w ! s) AND CSP_SO_XTEAREQ = 0 \<or> has_flag CSP_FXTEA i"
    and "cn_opts (nd_conns w ! s) AND CSP_SO_HMACREQ = 0 \<or> has_flag CSP_FHMAC i"
    and "cn_socket (nd_conns w ! s) = Some q" "sq_items (nd_queues w ! q) = []" "0 < sq_length (nd_queues w ! q)"
    and "csp_conn_find i CSP_ID_CONN_MASK w = None" "\<exists>c < CSP_CONN_MAX. \<not> cn_open (nd_conns w ! c)"
  shows "\<exists>w1 w2 w3 w4 k.
     csp_send lo_nexthop nonce (Some c) (Some p) w = Some (1, w1) \<and>
     csp_route_work lo_nexthop nonce' w1 = Some (0, w2) \<and>
     csp_accept (Some s) w2 = (Some (ItemConn k), w3) \<and>
     csp_read (Some k) w3 = (Some p, w4) \<and>
     pkt_data (buf_packet (nd_pool w4) p) = pkt_data pk \<and>
     mirrored (cn_idout (nd_conns w4 ! k)) i \<and> node_ok w2 \<and> owned M w2"
proof -
  have opn: "cn_open (nd_conns w ! c)" using assms(3) by (simp add: open_client_def)
  obtain w1 pk' where w1: "csp_send lo_nexthop nonce (Some c) (Some p) w = Some (1, w1)"
    "send_security (nd_hmac_key w) (nd_xtea_key w) nonce i (pk\<lparr>pkt_id := i\<rparr>) = Some (CSP_ERR_NONE, Some pk')"
    "buf_packet (nd_pool w1) p = pk'" "nd_qfifo w1 = [(p, CSP_IF_LO)]" "nd_conns w1 = nd_conns w"
    "nd_ports w1 = nd_ports w" "nd_queues w1 = nd_queues w" "nd_address w1 = nd_address w"
    "nd_hmac_key w1 = nd_hmac_key w" "nd_xtea_key w1 = nd_xtea_key w" "node_ok w1" "owned M w1"
    using send_loopback [OF assms(1,2) opn, of nonce] assms(6,7,9-12) unfolding i_def pk_def
    by (auto simp: pkt_length_def)
  have hk: "nd_hmac_key w \<noteq> []" using assms(1) by (simp add: node_ok_def)
  have len: "pkt_length (pk\<lparr>pkt_id := i\<rparr>) + 12 \<le> pkt_cap (pk\<lparr>pkt_id := i\<rparr>)"
    using assms(12) by (simp add: pkt_length_def)
  have id': "pkt_id pk' = i" using send_security_eq [OF hk len] w1(2) by auto
  have sec: "security_check (nd_hmac_key w1) (nd_xtea_key w1) (cn_opts (nd_conns w1 ! s)) (nd_ifaces w1 ! CSP_IF_LO)
      (buf_packet (nd_pool w1) p) = Some (CSP_ERR_NONE, nd_ifaces w1 ! CSP_IF_LO, pk\<lparr>pkt_id := i\<rparr>)"
    using security_check_restores [OF _ hk len w1(2)] assms(15,16) w1 by simp
  obtain k cn w2 where w2: "csp_route_work lo_nexthop nonce' w1 = Some (0, w2)" "k < CSP_CONN_MAX"
    "\<not> cn_open (nd_conns w1 ! k)"
    "nd_queues w2 = (nd_queues w1)[q := (nd_queues w1 ! q)\<lparr>sq_items := sq_items (nd_queues w1 ! q) @ [ItemConn k]\<rparr>]"
    "nd_conns w2 = (nd_conns w1)[k := cn]" "open_client cn" "cn_rx_queue cn = [Some p]"
    "cn_idout cn = reply_id (nd_address w1) (pkt_id (buf_packet (nd_pool w1) p))"
    "buf_packet (nd_pool w2) p = pk\<lparr>pkt_id := i\<rparr>"
    using route_work_listener [OF w1(11,12,4) _ _ _ _ _ _ _ _ sec, of q lo_nexthop nonce'] assms w1 id'
    by (auto simp: csp_conn_find_def)
  have bs: "bound w s" using port_socket_bound [OF assms(1,13)] .
  have sk: "s \<noteq> k" using bound_not_free [OF w1(11) w2(3)] bs w1 by (auto simp: bound_def)
  have len: "length (nd_conns w) = CSP_CONN_MAX" "q < length (nd_queues w)"
    using assms(1) bs conn_socket_valid [OF assms(1) _ assms(17)] by (auto simp: node_ok_def)
  let ?w3 = "w2\<lparr>nd_queues := (nd_queues w2)[q := (nd_queues w2 ! q)\<lparr>sq_items := []\<rparr>]\<rparr>"
  have acc: "csp_accept (Some s) w2 = (Some (ItemConn k), ?w3)"
    using w2 w1 sk assms(17,18) len by (simp add: csp_accept_def sock_dequeue_def)
  have rd: "csp_read (Some k) ?w3 = (Some p, set_conn k (cn\<lparr>cn_rx_queue := []\<rparr>) ?w3)"
    using w2 w1 len by (simp add: csp_read_def open_client_def)
  have "mirrored (reply_id (nd_address w) i) i"
    using assms(6) by (rule mirrored_reply)
  moreover have "node_ok w2 \<and> owned M w2" by (rule lo.route_work_keeps [OF w2(1) w1(11,12)])
  ultimately show ?thesis
    using w1(1) w2 acc rd len id' w1(3,5,8) by (intro exI conjI) auto
qed

lemma csp_loopback_end_to_end_witness:
  "\<exists>w w1 w2 w3 w4 k. csp_send lo_nexthop 77 (Some 0) (Some 0) w = Some (1, w1) \<and>
     csp_route_work lo_nexthop 78 w1 = Some (0, w2) \<and> csp_accept (Some 1) w2 = (Some (ItemConn k), w3) \<and>
     csp_read (Some k) w3 = (Some 0, w4) \<and> pkt_data (buf_packet (nd_pool w4) 0) = [65, 66]"
proof -
  let ?i = "cn_idout demo_client"
  have c: "nd_conns demo_sender ! 0 = demo_client" by (simp add: demo_sender_def demo_connected_def demo_node_def)
  have s: "nd_conns demo_sender ! 1 = demo_server" by (simp add: demo_sender_def demo_connected_def demo_conn)
  have f: "id_dst ?i = 5" "id_src ?i = 5" "id_dport ?i = 7" "id_flags ?i = 8" by (simp_all add: demo_client_def)
  have "csp_conn_find ?i CSP_ID_CONN_MASK demo_sender = None"
    unfolding csp_conn_find_def find_index_None_iff
  proof
    fix cn assume "cn \<in> set (nd_conns demo_sender)"
    then have "cn = demo_client \<or> cn = demo_server \<or> cn = closed_conn"
      by (auto simp: demo_sender_def demo_connected_def demo_node_def dest!: set_update_subset_insert [THEN subsetD])
    then show "\<not> (cn_open cn \<and> cn_type cn = CONN_CLIENT \<and> cn_idin cn AND CSP_ID_CONN_MASK = ?i AND CSP_ID_CONN_MASK)"
      by (auto simp: demo_server_def closed_conn_def conn_mask_eq_iff) (simp add: demo_client_def)
  qed
  moreover have "\<exists>c < CSP_CONN_MAX. \<not> cn_open (nd_conns demo_sender ! c)"
    by (rule exI [of _ 2]) (simp add: CSP_CONN_MAX_def demo_sender_def demo_connected_def demo_conn)
  moreover have "node_find_iface 5 demo_sender = Some (Some CSP_IF_LO)"
    by (simp add: node_find_iface_def static_find_iface_def static_find_def demo_sender_def demo_connected_def demo_node_def
        static_clear_def CSP_ROUTE_COUNT_def CSP_IF_LO_def)
  moreover have "open_client demo_client" by (simp add: open_client_def demo_client_def closed_conn_def)
  moreover have "csp_port_get_socket 7 (nd_ports demo_sender) = Some 1" using demo_socket by (simp add: demo_sender_def demo_connected_def)
  moreover have "nd_address demo_sender = 5" "if_mtu (nd_ifaces demo_sender ! CSP_IF_LO) = 0" "nd_qfifo demo_sender = []"
    "sq_items (nd_queues demo_sender ! 0) = []" "0 < sq_length (nd_queues demo_sender ! 0)"
    by (simp_all add: demo_sender_def demo_connected_def) (simp_all add: demo_node_def CSP_IF_LO_def csp_if_lo_def)
  moreover have "\<not> has_flag CSP_FRDP ?i" by (simp add: has_flag_def f csp_flag_defs)
  moreover have "pkt_length (demo_packet 5 0 [65, 66]) + 12 \<le> pkt_cap (demo_packet 5 0 [65, 66])"
    by (simp add: pkt_length_def demo_packet_def empty_packet_def)
  moreover have "unat (7 :: u8) = 7" by simp
  ultimately have "\<exists>w1 w2 w3 w4 k. csp_send lo_nexthop 77 (Some 0) (Some 0) demo_sender = Some (1, w1) \<and>
     csp_route_work lo_nexthop 78 w1 = Some (0, w2) \<and> csp_accept (Some 1) w2 = (Some (ItemConn k), w3) \<and>
     csp_read (Some k) w3 = (Some 0, w4) \<and> pkt_data (buf_packet (nd_pool w4) 0) = pkt_data (demo_packet 5 0 [65, 66]) \<and>
     mirrored (cn_idout (nd_conns w4 ! k)) ?i \<and> node_ok w2 \<and> owned {#} w2"
    by (intro csp_loopback_end_to_end [OF demo_sender_ok(1,2), of 0 1 0 77 78, unfolded c s f demo_sender_ok(3)])
      (simp_all add: f)
  then show ?thesis unfolding demo_packet_fields by blast
qed

lemma csp_route_work_conserves_witness:
  "\<exists>w'. csp_route_work lo_nexthop 0 (arrive (demo_packet 20 0 [1]) 0 demo_node) = Some (0, w') \<and>
     node_ok w' \<and> owned {#} w'"
proof -
  define W where "W = arrive (demo_packet 20 0 [1]) 0 demo_node"
  note W = arrive_demo [of 0 "demo_packet 20 0 [1]", folded W_def]
  obtain pool where w: "W = demo_node\<lparr>nd_pool := pool, nd_qfifo := [(0, 0)]\<rparr>" using W(5) by fastforce
  have "node_find_iface 20 (W\<lparr>nd_qfifo := []\<rparr>) = Some None" "nd_address W = 5"
    unfolding w by (simp_all add: node_find_iface_def static_find_iface_def static_find_def demo_node_def static_clear_def
        CSP_ROUTE_COUNT_def CSP_DEFAULT_ROUTE_def)
  then have "\<exists>w'. csp_route_work lo_nexthop 0 W = Some (0, w')"
    using W(3,4) by (simp add: route_work_head Let_def route_forward_def CSP_BROADCAST_ADDR_def)
  then show ?thesis
    using csp_route_work_conserves [OF lo.csp_interface_axioms W(1,2), of 0] by (auto simp: W_def)
qed

lemma csp_route_forwards_witness:
  "csp_route_work (\<lambda>i. Some (\<lambda>p w. Some (CSP_ERR_NONE, free_packet (Some p) w))) 0 (arrive (demo_packet 9 0 [1]) 0 demo_node)
     \<noteq> None"
proof -
  let ?w = "arrive (demo_packet 9 0 [1]) 0 demo_node"
  obtain pool where w: "?w = demo_node\<lparr>nd_pool := pool, nd_qfifo := [(0, 0)]\<rparr>" using arrive_demo(5) by fastforce
  have "node_find_iface 9 ?w = Some (Some 1)"
    unfolding w by (simp add: node_find_iface_def static_find_iface_def static_find_def demo_node_def static_clear_def
        CSP_ROUTE_COUNT_def)
  moreover have "nd_address ?w = 5" "if_mtu (nd_ifaces ?w ! 1) = 256" unfolding w by (simp_all add: demo_node_def)
  ultimately show ?thesis
    using csp_route_forwards [OF arrive_demo(1,2,3), of 0 "demo_packet 9 0 [1]" 1
        "\<lambda>i. Some (\<lambda>p w. Some (CSP_ERR_NONE, free_packet (Some p) w))" "\<lambda>p w. Some (CSP_ERR_NONE, free_packet (Some p) w)" 0]
    by (simp add: arrive_demo(4) CSP_BROADCAST_ADDR_def pkt_length_def)
qed

lemma csp_short_encrypted_packet_undefined_witness:
  "csp_route_work lo_nexthop 0 (arrive (demo_packet 5 CSP_FXTEA [1, 2, 3]) 0 demo_node) = None"
proof -
  let ?w = "arrive (demo_packet 5 CSP_FXTEA [1, 2, 3]) 0 demo_node"
  obtain pool where w: "?w = demo_node\<lparr>nd_pool := pool, nd_qfifo := [(0, 0)]\<rparr>" using arrive_demo(5) by fastforce
  have "nd_address ?w = 5" "csp_port_get_socket 7 (nd_ports ?w) = Some 1"
    unfolding w using demo_socket by (simp_all) (simp add: demo_node_def)
  then show ?thesis
    using csp_short_encrypted_packet_undefined [OF arrive_demo(3), of 0 "demo_packet 5 CSP_FXTEA [1, 2, 3]" 1 lo_nexthop 0]
    by (simp add: arrive_demo(4) has_flag_def csp_flag_defs pkt_length_def)
qed

text \<open>C13. A transaction gives back every buffer: whether the node has a free buffer or connection,
  whether the request can be sent, whether an answer comes and has the expected length or not, while
  the router and the other tasks run in between, \<open>csp_transaction\<close> ends with every packet
  accounted for; and a positive result for a request with an expected length is an answer of
  exactly that length.\<close>

theorem csp_transaction_no_leak:
  assumes "csp_interface nh" "tasks_ok other_tasks" "node_ok w" "owned M w" "CSP_CONN_MAX < fuel"
    and "csp_transaction fuel nh nonce other_tasks prio dest port outbuf inlen w = Some (status, inbuf, w')"
  shows "node_ok w' \<and> owned M w' \<and> (status \<noteq> 0 \<longrightarrow> 0 < inlen \<longrightarrow> int status = inlen \<and> length inbuf = status)"
  by (rule csp_interface.transaction_keeps [OF assms(1,6,2,3,4,5)])

lemma csp_transaction_no_leak_witness:
  "\<exists>w'. csp_transaction 11 lo_nexthop 0 (csp_interface.router lo_nexthop 0 ^^ 5) 2 20 7 [1, 2] (- 1) demo_node = Some (0, [], w') \<and>
     node_ok w' \<and> owned {#} w'"
proof -
  let ?t = "csp_interface.router lo_nexthop 0 ^^ 5"
  have o: "(0 :: u32) AND CSP_SO_RDPREQ = 0" by simp
  have f: "CSP_CONN_MAX < 11" by (simp add: CSP_CONN_MAX_def)
  have closed: "\<not> (\<forall>cn \<in> set (nd_conns demo_node). cn_open cn)"
    by (auto simp: demo_node_def set_update_memI in_set_conv_nth nth_list_update intro!: bexI [of _ closed_conn] exI [of _ 0])
  have get: "\<exists>pool. csp_buffer_get 2 pool4 = (Some 0, pool)"
    by (simp add: pool4_def csp_buffer_init_def csp_buffer_get_def CSP_BUFFER_PACKET_OVERHEAD_def numeral_eq_Suc upt_rec)
  have "\<exists>w'. csp_transaction 11 lo_nexthop 0 ?t 2 20 7 [1, 2] (- 1) demo_node = Some (0, [], w')"
  proof (cases rule: csp_connect_cases [OF demo_ok o f, of 2 20 7])
    case 1
    then show ?thesis using closed by simp
  next
    case (2 p c cn)
    have q: "cn_rx_queue (nd_conns demo_node ! c) = []" using 2(5,6) by (auto simp: demo_conn CSP_CONN_MAX_def closed_conn_def demo_server_def)
    have d: "id_dst (cn_idout cn) = 20" using 2(7) by simp
    obtain pool where g: "csp_buffer_get 2 pool4 = (Some 0, pool)" using get by blast
    have r: "node_find_iface 20 w = Some None" if "nd_routes w = nd_routes demo_node" for w
      using that by (simp add: node_find_iface_def static_find_iface_def static_find_def demo_node_def static_clear_def
          CSP_ROUTE_COUNT_def CSP_DEFAULT_ROUTE_def)
    have dn: "nd_pool demo_node = pool4" "c < length (nd_conns demo_node)"
      using 2(5) by (simp_all add: demo_node_def CSP_CONN_MAX_def)
    show ?thesis
      using d r g q dn 2(7)
      by (simp add: csp_transaction_def 2(1) csp_transaction_persistent_def Let_def csp_send_def csp_send_direct_def csp_err_defs)
  qed
  then show ?thesis
    using csp_transaction_no_leak [OF lo.csp_interface_axioms lo.router_tasks_ok [where nonce = 0 and n = 5] demo_ok demo_owned f] by blast
qed

text \<open>A packet for an open connection.\<close>

lemma route_work_connection:
  assumes "node_ok w" "owned M w" "nd_qfifo w = (p, i) # rest"
  defines "ident \<equiv> pkt_id (buf_packet (nd_pool w) p)"
  assumes "id_dst ident = nd_address w" "\<not> has_flag CSP_FRDP ident"
    and "csp_port_get_socket (unat (id_dport ident)) (nd_ports w) = None"
    and "c < CSP_CONN_MAX" "open_client (nd_conns w ! c)" "cn_idin (nd_conns w ! c) AND CSP_ID_CONN_MASK = ident AND CSP_ID_CONN_MASK"
    and "length (cn_rx_queue (nd_conns w ! c)) < CSP_RX_QUEUE_LENGTH" "cn_socket (nd_conns w ! c) = None"
    and "security_check (nd_hmac_key w) (nd_xtea_key w) (cn_opts (nd_conns w ! c)) (nd_ifaces w ! i)
         (buf_packet (nd_pool w) p) = Some (CSP_ERR_NONE, ifc, pk)"
  shows "\<exists>w'. csp_route_work nh nonce w = Some (0, w') \<and> buf_packet (nd_pool w') p = pk \<and>
     nd_queues w' = nd_queues w \<and>
     nd_conns w' = (nd_conns w)[c := (nd_conns w ! c)\<lparr>cn_rx_queue := cn_rx_queue (nd_conns w ! c) @ [Some p]\<rparr>] \<and>
     (\<forall>d < CSP_CONN_MAX. open_client (nd_conns w ! d) \<and>
        cn_idin (nd_conns w ! d) AND CSP_ID_CONN_MASK = ident AND CSP_ID_CONN_MASK \<longrightarrow> d = c)"
proof -
  let ?w = "w\<lparr>nd_qfifo := rest\<rparr>"
  have ok: "node_ok ?w" using assms(1,3) by (auto simp: node_ok_def bound_def)
  have len: "length (nd_conns w) = CSP_CONN_MAX" using assms(1) by (simp add: node_ok_def)
  have uniq: "d = c" if "d < CSP_CONN_MAX" "open_client (nd_conns w ! d)"
    "cn_idin (nd_conns w ! d) AND CSP_ID_CONN_MASK = ident AND CSP_ID_CONN_MASK" for d
    using that assms(1,8-10) len by (auto simp: node_ok_def end_points_distinct_def)
  have "csp_conn_find ident CSP_ID_CONN_MASK ?w = Some c"
    unfolding csp_conn_find_def
  proof (rule find_index_unique)
    show "j = c" if "j < length (nd_conns ?w)" "cn_open (nd_conns ?w ! j) \<and> cn_type (nd_conns ?w ! j) = CONN_CLIENT \<and>
        cn_idin (nd_conns ?w ! j) AND CSP_ID_CONN_MASK = ident AND CSP_ID_CONN_MASK" for j
      by (rule uniq) (use that len in \<open>simp_all add: open_client_def\<close>)
  qed (use assms(8-10) len in \<open>simp_all add: open_client_def\<close>)
  moreover have "\<exists>w'. route_existing c p i ?w = Some w' \<and> buf_packet (nd_pool w') p = pk \<and> nd_queues w' = nd_queues ?w \<and>
     nd_qfifo w' = nd_qfifo ?w \<and>
     nd_conns w' = (nd_conns ?w)[c := (nd_conns ?w ! c)\<lparr>cn_rx_queue := cn_rx_queue (nd_conns ?w ! c) @ [Some p]\<rparr>]"
    by (rule route_existing_delivers [OF ok, of p c i ifc pk])
      (use assms(8,11-13) owned_qfifo_head(2,3) [OF assms(2,3)] in simp_all)
  then obtain w' where "route_existing c p i ?w = Some w'" "buf_packet (nd_pool w') p = pk" "nd_queues w' = nd_queues w"
    "nd_conns w' = (nd_conns w)[c := (nd_conns w ! c)\<lparr>cn_rx_queue := cn_rx_queue (nd_conns w ! c) @ [Some p]\<rparr>]" by auto
  moreover have "csp_route_work nh nonce w = Some (0, w')"
    using calculation assms(3,5-7) by (simp add: route_work_head Let_def ident_def)
  ultimately show ?thesis using uniq by blast
qed



end
