(* ===== verification/CspRdp.thy ===== *)
theory CspRdp
  imports CspRoute
begin

text \<open>
  The reliable datagram protocol (\<open>libcsp/source/transport/csp_rdp.c\<close>), in the configuration
  \<open>CSP_USE_RDP\<close>.  A connection is the entry \<open>c\<close> of the connection table of the node; its
  protocol state is the record \<open>csp_rdp\<close>, beside the node: an operation works on the pair of both.
  Packets are indices into the buffer pool, and a packet carries its header behind its data as the
  five bytes of \<open>rdp_header_t\<close>.  The result \<open>None\<close> is an access to bytes of a buffer outside the
  packet.  \<open>nh\<close> are the transmit functions of the interfaces, \<open>nonce\<close> the random numbers of
  \<open>csp_send_direct\<close>, \<open>iss\<close> the random number of a connection set-up.
\<close>

section \<open>State\<close>

datatype rdp_state = RDP_CLOSED | RDP_SYN_SENT | RDP_SYN_RCVD | RDP_OPEN | RDP_CLOSE_WAIT

record csp_rdp =
  rd_state :: rdp_state
  rd_snd_nxt :: u16
  rd_snd_una :: u16
  rd_snd_iss :: u16
  rd_rcv_cur :: u16
  rd_rcv_irs :: u16
  rd_rcv_lsa :: u16
  rd_window_size :: u32
  rd_conn_timeout :: u32
  rd_packet_timeout :: u32
  rd_delayed_acks :: u32
  rd_ack_timeout :: u32
  rd_ack_delay_count :: u32
  rd_ack_timestamp :: u32
  rd_tx_wait :: bool
  rd_tx_queue :: "nat list"
  rd_rx_queue :: "nat list"

type_synonym rdp_node = "csp_rdp \<times> csp_node"

text \<open>The options for new connections, the static variables of the module.\<close>

record rdp_opts =
  ro_window_size :: u32
  ro_conn_timeout :: u32
  ro_packet_timeout :: u32
  ro_delayed_acks :: u32
  ro_ack_timeout :: u32
  ro_ack_delay_count :: u32

definition rdp_default_opts :: rdp_opts where
  "rdp_default_opts = \<lparr>ro_window_size = 4, ro_conn_timeout = 10000, ro_packet_timeout = 1000,
     ro_delayed_acks = 1, ro_ack_timeout = 1000 div 4, ro_ack_delay_count = 4 div 2\<rparr>"

definition csp_rdp_set_opt :: "u32 \<Rightarrow> u32 \<Rightarrow> u32 \<Rightarrow> u32 \<Rightarrow> u32 \<Rightarrow> u32 \<Rightarrow> rdp_opts" where
  "csp_rdp_set_opt window_size conn_timeout_ms packet_timeout_ms delayed_acks ack_timeout ack_delay_count =
     \<lparr>ro_window_size = window_size, ro_conn_timeout = conn_timeout_ms, ro_packet_timeout = packet_timeout_ms,
      ro_delayed_acks = delayed_acks, ro_ack_timeout = ack_timeout, ro_ack_delay_count = ack_delay_count\<rparr>"

definition csp_rdp_get_opt :: "rdp_opts \<Rightarrow> u32 \<times> u32 \<times> u32 \<times> u32 \<times> u32 \<times> u32" where
  "csp_rdp_get_opt opts = (ro_window_size opts, ro_conn_timeout opts, ro_packet_timeout opts,
     ro_delayed_acks opts, ro_ack_timeout opts, ro_ack_delay_count opts)"

definition CSP_RDP_MAX_WINDOW :: nat where "CSP_RDP_MAX_WINDOW = 20"
definition CSP_PRIO_HIGH :: u8 where "CSP_PRIO_HIGH = 1"
definition CSP_ERR_BUSY :: int where "CSP_ERR_BUSY = - 6"
definition CSP_ERR_NOBUFS :: int where "CSP_ERR_NOBUFS = - 9"
definition CSP_ERR_AGAIN :: int where "CSP_ERR_AGAIN = - 12"

lemmas rdp_err_defs = csp_err_defs CSP_ERR_BUSY_def CSP_ERR_NOBUFS_def CSP_ERR_AGAIN_def

section \<open>Headers\<close>

text \<open>The flags as the arguments of the operations have them, and as the bits of the header.\<close>

definition RDP_SYN :: u8 where "RDP_SYN = 0x01"
definition RDP_ACK :: u8 where "RDP_ACK = 0x02"
definition RDP_EAK :: u8 where "RDP_EAK = 0x04"
definition RDP_RST :: u8 where "RDP_RST = 0x08"

text \<open>The numbers of a header are the values its fields hold: in the order of the network until
  \<open>csp_rdp_new_packet\<close> converts them, and then in that of the host.\<close>

record rdp_header =
  rh_rst :: bool
  rh_eak :: bool
  rh_ack :: bool
  rh_syn :: bool
  rh_res :: u8
  rh_seq_nr :: u16
  rh_ack_nr :: u16

definition rdp_flag_byte :: "rdp_header \<Rightarrow> u8" where
  "rdp_flag_byte h = of_bool (rh_rst h) OR push_bit 1 (of_bool (rh_eak h)) OR push_bit 2 (of_bool (rh_ack h)) OR
     push_bit 3 (of_bool (rh_syn h)) OR push_bit 4 (rh_res h)"

definition rdp_header_bytes :: "rdp_header \<Rightarrow> u8 list" where
  "rdp_header_bytes h = rdp_flag_byte h # le16 (rh_seq_nr h) @ le16 (rh_ack_nr h)"

definition rdp_header_of :: "u8 list \<Rightarrow> rdp_header" where
  "rdp_header_of bs = \<lparr>rh_rst = bit (bs ! 0) 0, rh_eak = bit (bs ! 0) 1, rh_ack = bit (bs ! 0) 2,
     rh_syn = bit (bs ! 0) 3, rh_res = drop_bit 4 (bs ! 0), rh_seq_nr = of_le16 [bs ! 1, bs ! 2],
     rh_ack_nr = of_le16 [bs ! 3, bs ! 4]\<rparr>"

definition sizeof_rdp_header :: nat where "sizeof_rdp_header = 5"

definition csp_rdp_header_add :: "csp_packet \<Rightarrow> csp_packet option" where
  "csp_rdp_header_add packet = pkt_append (replicate sizeof_rdp_header 0) packet"

definition csp_rdp_header_remove :: "csp_packet \<Rightarrow> csp_packet option" where
  "csp_rdp_header_remove packet =
     (if pkt_length packet < sizeof_rdp_header then None
      else Some (packet\<lparr>pkt_data := take (pkt_length packet - sizeof_rdp_header) (pkt_data packet)\<rparr>))"

definition csp_rdp_header_ref :: "csp_packet \<Rightarrow> rdp_header option" where
  "csp_rdp_header_ref packet =
     (if pkt_length packet < sizeof_rdp_header then None
      else Some (rdp_header_of (drop (pkt_length packet - sizeof_rdp_header) (pkt_data packet))))"

text \<open>Writing through the pointer to the header.\<close>

definition rdp_header_write :: "rdp_header \<Rightarrow> csp_packet \<Rightarrow> csp_packet" where
  "rdp_header_write h packet =
     packet\<lparr>pkt_data := take (pkt_length packet - sizeof_rdp_header) (pkt_data packet) @ rdp_header_bytes h\<rparr>"

section \<open>Comparisons of wrapping numbers\<close>

definition csp_rdp_seq_between :: "u16 \<Rightarrow> u16 \<Rightarrow> u16 \<Rightarrow> bool" where
  "csp_rdp_seq_between seq start end' \<longleftrightarrow> end' - start \<ge> seq - start"

definition csp_rdp_seq_before :: "u16 \<Rightarrow> u16 \<Rightarrow> bool" where
  "csp_rdp_seq_before seq cmp \<longleftrightarrow> sint (seq - cmp) < 0"

definition csp_rdp_seq_after :: "u16 \<Rightarrow> u16 \<Rightarrow> bool" where
  "csp_rdp_seq_after seq cmp \<longleftrightarrow> csp_rdp_seq_before cmp seq"

definition csp_rdp_time_between :: "u32 \<Rightarrow> u32 \<Rightarrow> u32 \<Rightarrow> bool" where
  "csp_rdp_time_between time start end' \<longleftrightarrow> end' - start \<ge> time - start"

definition csp_rdp_time_before :: "u32 \<Rightarrow> u32 \<Rightarrow> bool" where
  "csp_rdp_time_before time cmp \<longleftrightarrow> sint (time - cmp) < 0"

definition csp_rdp_time_after :: "u32 \<Rightarrow> u32 \<Rightarrow> bool" where
  "csp_rdp_time_after time cmp \<longleftrightarrow> csp_rdp_time_before cmp time"

section \<open>Sending control messages\<close>

text \<open>\<open>csp_queue_enqueue\<close> and \<open>csp_queue_enqueue_isr\<close> on the queues of a connection.\<close>

definition tx_enqueue :: "nat \<Rightarrow> csp_rdp \<Rightarrow> bool \<times> csp_rdp" where
  "tx_enqueue p r =
     (if length (rd_tx_queue r) < CSP_RDP_MAX_WINDOW then (True, r\<lparr>rd_tx_queue := rd_tx_queue r @ [p]\<rparr>)
      else (False, r))"

definition rx_enqueue :: "nat \<Rightarrow> csp_rdp \<Rightarrow> bool \<times> csp_rdp" where
  "rx_enqueue p r =
     (if length (rd_rx_queue r) < CSP_RDP_MAX_WINDOW * 2 then (True, r\<lparr>rd_rx_queue := rd_rx_queue r @ [p]\<rparr>)
      else (False, r))"

definition rdp_get_buffer :: "nat \<Rightarrow> csp_node \<Rightarrow> nat option \<times> csp_node" where
  "rdp_get_buffer n w =
     (case csp_buffer_get n (nd_pool w) of
        (None, pool) \<Rightarrow> (None, w\<lparr>nd_pool := pool\<rparr>)
      | (Some p, pool) \<Rightarrow> (Some p, put_packet p ((buf_packet pool p)\<lparr>pkt_data := []\<rparr>) (w\<lparr>nd_pool := pool\<rparr>)))"

text \<open>A packet with the SYN flag is copied to the queue of unacknowledged packets first; the result
  says whether the copy could be made.\<close>

definition rdp_keep_syn :: "u8 \<Rightarrow> nat \<Rightarrow> rdp_node \<Rightarrow> bool \<times> rdp_node" where
  "rdp_keep_syn flags p s = (case s of (r, w) \<Rightarrow>
     if flags AND RDP_SYN = 0 then (True, r, w)
     else case csp_buffer_clone (Some p) (nd_pool w) of
       (None, pool) \<Rightarrow> (False, r, w\<lparr>nd_pool := pool\<rparr>)
     | (Some q, pool) \<Rightarrow>
         let w = put_packet q ((buf_packet pool q)\<lparr>pkt_timestamp := nd_now w\<rparr>) (w\<lparr>nd_pool := pool\<rparr>)
         in case tx_enqueue q r of
              (True, r) \<Rightarrow> (True, r, w)
            | (False, r) \<Rightarrow> (True, r, free_packet (Some q) w))"

text \<open>\<open>csp_rtable_find_iface\<close> and \<open>csp_send_direct\<close>.\<close>

definition rdp_transmit :: "nexthop \<Rightarrow> u32 \<Rightarrow> csp_id \<Rightarrow> nat option \<Rightarrow> csp_node \<Rightarrow> (int \<times> csp_node) option" where
  "rdp_transmit nh nonce idout packet w =
     (case node_find_iface (id_dst idout) w of None \<Rightarrow> None
      | Some ifout \<Rightarrow> csp_send_direct nh nonce idout packet ifout w)"

definition rdp_control_header :: "u8 \<Rightarrow> u16 \<Rightarrow> u16 \<Rightarrow> rdp_header" where
  "rdp_control_header flags seq_nr ack_nr =
     \<lparr>rh_rst = (flags AND RDP_RST \<noteq> 0), rh_eak = (flags AND RDP_EAK \<noteq> 0), rh_ack = (flags AND RDP_ACK \<noteq> 0),
      rh_syn = (flags AND RDP_SYN \<noteq> 0), rh_res = 0, rh_seq_nr = csp_hton16 seq_nr, rh_ack_nr = csp_hton16 ack_nr\<rparr>"

text \<open>The message is sent in \<open>packet\<close>, or in a new buffer.  When the copy of a SYN packet can not be
  made, the packet is not freed.\<close>

definition csp_rdp_send_cmp ::
  "nexthop \<Rightarrow> u32 \<Rightarrow> nat \<Rightarrow> nat option \<Rightarrow> u8 \<Rightarrow> u16 \<Rightarrow> u16 \<Rightarrow> rdp_node \<Rightarrow> (int \<times> rdp_node) option" where
  "csp_rdp_send_cmp nh nonce c packet flags seq_nr ack_nr s = (case s of (r, w) \<Rightarrow>
     (case (case packet of None \<Rightarrow> rdp_get_buffer 20 w | Some p \<Rightarrow> (Some p, w)) of
        (None, w) \<Rightarrow> Some (CSP_ERR_NOMEM, r, w)
      | (Some p, w) \<Rightarrow>
     (case csp_rdp_header_add (buf_packet (nd_pool w) p) of
        None \<Rightarrow> None
      | Some pk \<Rightarrow>
          let w = put_packet p (rdp_header_write (rdp_control_header flags seq_nr ack_nr) pk) w
          in case rdp_keep_syn flags p (r, w) of
               (False, s) \<Rightarrow> Some (CSP_ERR_NOMEM, s)
             | (True, r, w) \<Rightarrow>
                 let idout = cn_idout (nd_conns w ! c);
                     idout = set_pri (if id_pri idout < CSP_PRIO_HIGH then id_pri idout else CSP_PRIO_HIGH) idout
                 in case rdp_transmit nh nonce idout (Some p) w of
                      None \<Rightarrow> None
                    | Some (e, w) \<Rightarrow>
                        if e \<noteq> CSP_ERR_NONE then Some (CSP_ERR_BUSY, r, free_packet (Some p) w)
                        else if flags AND RDP_ACK \<noteq> 0
                        then Some (CSP_ERR_NONE, r\<lparr>rd_rcv_lsa := ack_nr, rd_ack_timestamp := nd_now w\<rparr>, w)
                        else Some (CSP_ERR_NONE, r, w))))"

text \<open>The packets of the receive queue are taken out and put back one by one; their numbers are
  the data of the message.\<close>

fun rdp_eack_loop :: "nat \<Rightarrow> nat \<Rightarrow> rdp_node \<Rightarrow> rdp_node option" where
  "rdp_eack_loop 0 e (r, w) = Some (r, w)"
| "rdp_eack_loop (Suc n) e (r, w) =
     (case rd_rx_queue r of
        [] \<Rightarrow> Some (r, w)
      | p # rest \<Rightarrow>
          (case csp_rdp_header_ref (buf_packet (nd_pool w) p) of None \<Rightarrow> None
           | Some h \<Rightarrow>
          (case pkt_append (le16 (csp_hton16 (rh_seq_nr h))) (buf_packet (nd_pool w) e) of None \<Rightarrow> None
           | Some pk \<Rightarrow> rdp_eack_loop n e (snd (rx_enqueue p (r\<lparr>rd_rx_queue := rest\<rparr>)), put_packet e pk w))))"

definition csp_rdp_send_eack :: "nexthop \<Rightarrow> u32 \<Rightarrow> nat \<Rightarrow> rdp_node \<Rightarrow> (int \<times> rdp_node) option" where
  "csp_rdp_send_eack nh nonce c s = (case s of (r, w) \<Rightarrow>
     (case rdp_get_buffer 100 w of
        (None, w) \<Rightarrow> Some (CSP_ERR_NOMEM, r, w)
      | (Some e, w) \<Rightarrow>
          (case rdp_eack_loop (length (rd_rx_queue r)) e (r, w) of
             None \<Rightarrow> None
           | Some (r, w) \<Rightarrow>
               csp_rdp_send_cmp nh nonce c (Some e) (RDP_ACK OR RDP_EAK) (rd_snd_nxt r) (rd_rcv_cur r) (r, w))))"

definition rdp_syn_data :: "rdp_opts \<Rightarrow> u8 list" where
  "rdp_syn_data opts = concat (map (\<lambda>v. le32 (csp_hton32 v))
     [ro_window_size opts, ro_conn_timeout opts, ro_packet_timeout opts, ro_delayed_acks opts,
      ro_ack_timeout opts, ro_ack_delay_count opts])"

definition csp_rdp_send_syn :: "nexthop \<Rightarrow> u32 \<Rightarrow> rdp_opts \<Rightarrow> nat \<Rightarrow> rdp_node \<Rightarrow> (int \<times> rdp_node) option" where
  "csp_rdp_send_syn nh nonce opts c s = (case s of (r, w) \<Rightarrow>
     (case rdp_get_buffer 100 w of
        (None, w) \<Rightarrow> Some (CSP_ERR_NOMEM, r, w)
      | (Some p, w) \<Rightarrow>
          (case pkt_append (rdp_syn_data opts) (buf_packet (nd_pool w) p) of
             None \<Rightarrow> None
           | Some pk \<Rightarrow> csp_rdp_send_cmp nh nonce c (Some p) RDP_SYN (rd_snd_iss r) 0 (r, put_packet p pk w))))"

section \<open>Receiving data\<close>

text \<open>The first data of a connection a socket waits for hands the connection to the socket.\<close>

definition csp_rdp_receive_data :: "nat \<Rightarrow> nat \<Rightarrow> csp_node \<Rightarrow> (int \<times> csp_node) option" where
  "csp_rdp_receive_data c p w =
     (case (case cn_socket (nd_conns w ! c) of
              None \<Rightarrow> (True, w)
            | Some q \<Rightarrow>
                (case sock_enqueue q (ItemConn c) w of
                   (False, w) \<Rightarrow> (False, w)
                 | (True, w) \<Rightarrow> (True, set_conn c ((nd_conns w ! c)\<lparr>cn_socket := None\<rparr>) w))) of
        (False, w) \<Rightarrow> Some (CSP_ERR_NOBUFS, w)
      | (True, w) \<Rightarrow>
          (case csp_rdp_header_remove (buf_packet (nd_pool w) p) of
             None \<Rightarrow> None
           | Some pk \<Rightarrow>
               (case csp_conn_enqueue_packet (Some c) (Some p) (put_packet p pk w) of
                  (e, w) \<Rightarrow> if e < 0 then Some (CSP_ERR_NOBUFS, w) else Some (CSP_ERR_NONE, w))))"

text \<open>One round through the receive queue: the packet found with the number \<open>seq\<close>, if any, and the
  queue then.  The outer result \<open>None\<close> is a packet without a header.\<close>

fun rdp_rx_scan :: "nat \<Rightarrow> u16 \<Rightarrow> buffer_pool \<Rightarrow> nat list \<Rightarrow> (nat option \<times> nat list) option" where
  "rdp_rx_scan 0 seq pool q = Some (None, q)"
| "rdp_rx_scan (Suc n) seq pool [] = Some (None, [])"
| "rdp_rx_scan (Suc n) seq pool (p # q) =
     (case csp_rdp_header_ref (buf_packet pool p) of
        None \<Rightarrow> None
      | Some h \<Rightarrow> if rh_seq_nr h = seq then Some (Some p, q) else rdp_rx_scan n seq pool (q @ [p]))"

lemma rdp_rx_scan_length:
  "rdp_rx_scan n seq pool q = Some (f, q') \<Longrightarrow> length q' = (case f of None \<Rightarrow> length q | Some p \<Rightarrow> length q - 1)"
  by (induction n seq pool q rule: rdp_rx_scan.induct) (auto split: option.splits if_splits)

lemma rdp_rx_scan_shorter: "rdp_rx_scan n seq pool q = Some (Some p, q') \<Longrightarrow> length q' < length q"
  by (induction n seq pool q rule: rdp_rx_scan.induct) (auto split: option.splits if_splits)

text \<open>Every packet found is delivered and the search starts again, until none is found.  What
  \<open>csp_rdp_receive_data\<close> returns is not looked at.\<close>

function csp_rdp_rx_queue_flush :: "nat \<Rightarrow> rdp_node \<Rightarrow> rdp_node option" where
  "csp_rdp_rx_queue_flush c (r, w) =
     (case rdp_rx_scan (length (rd_rx_queue r)) (rd_rcv_cur r + 1) (nd_pool w) (rd_rx_queue r) of
        None \<Rightarrow> None
      | Some (None, q) \<Rightarrow> Some (r\<lparr>rd_rx_queue := q\<rparr>, w)
      | Some (Some p, q) \<Rightarrow>
          (case csp_rdp_receive_data c p w of
             None \<Rightarrow> None
           | Some (_, w) \<Rightarrow>
               csp_rdp_rx_queue_flush c (r\<lparr>rd_rx_queue := q, rd_rcv_cur := rd_rcv_cur r + 1\<rparr>, w)))"
  by pat_completeness auto
termination
  by (relation "measure (\<lambda>(c, r, w). length (rd_rx_queue r))") (auto dest: rdp_rx_scan_shorter)

declare csp_rdp_rx_queue_flush.simps [simp del]

fun rdp_seq_search :: "nat \<Rightarrow> u16 \<Rightarrow> buffer_pool \<Rightarrow> nat list \<Rightarrow> (bool \<times> nat list) option" where
  "rdp_seq_search 0 seq pool q = Some (False, q)"
| "rdp_seq_search (Suc n) seq pool [] = Some (False, [])"
| "rdp_seq_search (Suc n) seq pool (p # q) =
     (case csp_rdp_header_ref (buf_packet pool p) of
        None \<Rightarrow> None
      | Some h \<Rightarrow> if rh_seq_nr h = seq then Some (True, q @ [p]) else rdp_seq_search n seq pool (q @ [p]))"

text \<open>The search stops in the middle of the round, so that it may leave the queue rotated.\<close>

definition csp_rdp_seq_in_rx_queue :: "u16 \<Rightarrow> rdp_node \<Rightarrow> (bool \<times> rdp_node) option" where
  "csp_rdp_seq_in_rx_queue seq s = (case s of (r, w) \<Rightarrow>
     map_option (\<lambda>(found, q). (found, r\<lparr>rd_rx_queue := q\<rparr>, w))
       (rdp_seq_search (length (rd_rx_queue r)) seq (nd_pool w) (rd_rx_queue r)))"

text \<open>The result is whether the packet was put into the queue.\<close>

definition csp_rdp_rx_queue_add :: "nat \<Rightarrow> u16 \<Rightarrow> rdp_node \<Rightarrow> (bool \<times> rdp_node) option" where
  "csp_rdp_rx_queue_add p seq s =
     (case csp_rdp_seq_in_rx_queue seq s of
        None \<Rightarrow> None
      | Some (True, s) \<Rightarrow> Some (False, s)
      | Some (False, r, w) \<Rightarrow> (case rx_enqueue p r of (ok, r) \<Rightarrow> Some (ok, r, w)))"

section \<open>Acknowledgements\<close>

text \<open>The numbers of an extended acknowledgement.\<close>

definition eack_numbers :: "csp_packet \<Rightarrow> u16 list" where
  "eack_numbers e = map (\<lambda>j. csp_ntoh16 (of_le16 [pkt_data e ! (2 * j), pkt_data e ! (2 * j + 1)]))
     [0..<(pkt_length e - sizeof_rdp_header) div 2]"

text \<open>A number behind that of the packet makes the packet due for retransmission, once in a while.
  The result is whether the number of the packet is among them, and the packet.\<close>

fun eack_compare :: "u32 \<Rightarrow> u32 \<Rightarrow> u16 \<Rightarrow> u16 list \<Rightarrow> csp_packet \<Rightarrow> bool \<times> csp_packet" where
  "eack_compare now packet_timeout seq [] pk = (False, pk)"
| "eack_compare now packet_timeout seq (n # ns) pk =
     (let pk = (if n > seq \<and> csp_rdp_time_after now (pkt_quarantine pk)
                then pk\<lparr>pkt_timestamp := now - packet_timeout - 1, pkt_quarantine := now + packet_timeout div 2\<rparr>
                else pk)
      in case eack_compare now packet_timeout seq ns pk of (match, pk) \<Rightarrow> (n = seq \<or> match, pk))"

fun rdp_flush_eack_loop :: "nat \<Rightarrow> u16 list \<Rightarrow> rdp_node \<Rightarrow> rdp_node option" where
  "rdp_flush_eack_loop 0 ns (r, w) = Some (r, w)"
| "rdp_flush_eack_loop (Suc n) ns (r, w) =
     (case rd_tx_queue r of
        [] \<Rightarrow> Some (r, w)
      | p # rest \<Rightarrow>
          (case csp_rdp_header_ref (buf_packet (nd_pool w) p) of None \<Rightarrow> None
           | Some h \<Rightarrow>
               let r = r\<lparr>rd_tx_queue := rest\<rparr> in
               (case eack_compare (nd_now w) (rd_packet_timeout r) (csp_ntoh16 (rh_seq_nr h)) ns
                       (buf_packet (nd_pool w) p) of
                  (match, pk) \<Rightarrow>
                    let w = put_packet p pk w in
                    if \<not> match then rdp_flush_eack_loop n ns (snd (tx_enqueue p r), w)
                    else rdp_flush_eack_loop n ns (r, free_packet (Some p) w))))"

definition csp_rdp_flush_eack :: "nat \<Rightarrow> rdp_node \<Rightarrow> rdp_node option" where
  "csp_rdp_flush_eack eack_packet s = (case s of (r, w) \<Rightarrow>
     rdp_flush_eack_loop (length (rd_tx_queue r)) (eack_numbers (buf_packet (nd_pool w) eack_packet)) (r, w))"

definition csp_rdp_should_ack :: "rdp_node \<Rightarrow> bool" where
  "csp_rdp_should_ack s = (case s of (r, w) \<Rightarrow>
     if rd_delayed_acks r = 0 then rd_rcv_lsa r \<noteq> rd_rcv_cur r
     else if csp_rdp_time_after (nd_now w) (rd_ack_timestamp r + rd_ack_timeout r) then True
     else csp_rdp_seq_after (rd_rcv_cur r) (rd_rcv_lsa r + ucast (rd_ack_delay_count r)))"

text \<open>A connection has both queues from its initialisation on.\<close>

definition csp_rdp_flush_all :: "rdp_node \<Rightarrow> rdp_node" where
  "csp_rdp_flush_all s = (case s of (r, w) \<Rightarrow>
     (r\<lparr>rd_tx_queue := [], rd_rx_queue := []\<rparr>,
      w\<lparr>nd_pool := fold (\<lambda>p. csp_buffer_free (Some p)) (rd_tx_queue r @ rd_rx_queue r) (nd_pool w)\<rparr>))"

definition csp_rdp_check_ack :: "nexthop \<Rightarrow> u32 \<Rightarrow> nat \<Rightarrow> rdp_node \<Rightarrow> (int \<times> rdp_node) option" where
  "csp_rdp_check_ack nh nonce c s = (case s of (r, w) \<Rightarrow>
     let avail = \<not> int CSP_RX_QUEUE_LENGTH - int (length (cn_rx_queue (nd_conns w ! c))) \<le> sint (rd_window_size r)
     in if avail \<and> csp_rdp_should_ack (r, w)
        then map_option (\<lambda>(_, s). (CSP_ERR_NONE, s))
               (csp_rdp_send_cmp nh nonce c None RDP_ACK (rd_snd_nxt r) (rd_rcv_cur r) (r, w))
        else Some (CSP_ERR_NONE, r, w))"

section \<open>Closing\<close>

definition csp_rdp_close :: "nexthop \<Rightarrow> u32 \<Rightarrow> nat \<Rightarrow> rdp_node \<Rightarrow> (int \<times> rdp_node) option" where
  "csp_rdp_close nh nonce c s = (case s of (r, w) \<Rightarrow>
     if rd_state r = RDP_CLOSED then Some (CSP_ERR_NONE, r, w)
     else if rd_state r \<noteq> RDP_CLOSE_WAIT then
       let r = r\<lparr>rd_state := RDP_CLOSE_WAIT\<rparr>;
           w = set_conn c ((nd_conns w ! c)\<lparr>cn_timestamp := nd_now w\<rparr>) w
       in map_option (\<lambda>(_, s). (CSP_ERR_AGAIN, s))
            (csp_rdp_send_cmp nh nonce c None (RDP_ACK OR RDP_RST) (rd_snd_nxt r) (rd_rcv_cur r) (r, w))
     else Some (CSP_ERR_NONE, r\<lparr>rd_state := RDP_CLOSED\<rparr>, w))"

text \<open>\<open>csp_close\<close> of \<open>csp_conn.c\<close> with its parts for this protocol.  A connection that is not in
  CLOSE-WAIT yet stays open.\<close>

definition csp_close_rdp :: "nexthop \<Rightarrow> u32 \<Rightarrow> nat option \<Rightarrow> rdp_node \<Rightarrow> (int \<times> rdp_node) option" where
  "csp_close_rdp nh nonce conn s = (case s of (r, w) \<Rightarrow>
     (case conn of
        None \<Rightarrow> Some (CSP_ERR_INVAL, r, w)
      | Some c \<Rightarrow>
          let cn = nd_conns w ! c in
          if \<not> cn_open cn then Some (CSP_ERR_NONE, r, w)
          else (case (if has_flag CSP_FRDP (cn_idin cn) \<or> has_flag CSP_FRDP (cn_idout cn)
                      then csp_rdp_close nh nonce c (r, w) else Some (CSP_ERR_NONE, r, w)) of
                  None \<Rightarrow> None
                | Some (e, r, w) \<Rightarrow>
                    if e = CSP_ERR_AGAIN then Some (CSP_ERR_NONE, r, w)
                    else
                      let w = csp_conn_flush_rx_queue c (set_conn c ((nd_conns w ! c)\<lparr>cn_open := False\<rparr>) w)
                      in if has_flag CSP_FRDP (cn_idin (nd_conns w ! c))
                         then Some (CSP_ERR_NONE, csp_rdp_flush_all (r, w))
                         else Some (CSP_ERR_NONE, r, w))))"

section \<open>Timeouts\<close>

text \<open>One round through the queue of unacknowledged packets; \<open>nonces i\<close> is the random number of the
  \<open>i\<close>-th transmission from the end.\<close>

definition rdp_retransmit :: "nexthop \<Rightarrow> u32 \<Rightarrow> nat \<Rightarrow> nat \<Rightarrow> rdp_header \<Rightarrow> rdp_node \<Rightarrow> csp_node option" where
  "rdp_retransmit nh nonce c p h s = (case s of (r, w) \<Rightarrow>
     let pk = rdp_header_write (h\<lparr>rh_ack_nr := csp_hton16 (rd_rcv_cur r)\<rparr>) (buf_packet (nd_pool w) p);
         w = put_packet p (pk\<lparr>pkt_timestamp := nd_now w\<rparr>) w
     in case csp_buffer_clone (Some p) (nd_pool w) of
          (new_packet, pool) \<Rightarrow>
            (case rdp_transmit nh nonce (cn_idout (nd_conns w ! c)) new_packet (w\<lparr>nd_pool := pool\<rparr>) of
               None \<Rightarrow> None
             | Some (e, w) \<Rightarrow> if e \<noteq> CSP_ERR_NONE then Some (free_packet new_packet w) else Some w))"

fun rdp_tx_loop :: "nexthop \<Rightarrow> (nat \<Rightarrow> u32) \<Rightarrow> nat \<Rightarrow> nat \<Rightarrow> rdp_node \<Rightarrow> rdp_node option" where
  "rdp_tx_loop nh nonces c 0 (r, w) = Some (r, w)"
| "rdp_tx_loop nh nonces c (Suc n) (r, w) =
     (case rd_tx_queue r of
        [] \<Rightarrow> Some (r, w)
      | p # rest \<Rightarrow>
          let r = r\<lparr>rd_tx_queue := rest\<rparr> in
          (case csp_rdp_header_ref (buf_packet (nd_pool w) p) of None \<Rightarrow> None
           | Some h \<Rightarrow>
               if csp_rdp_seq_before (csp_ntoh16 (rh_seq_nr h)) (rd_snd_una r)
               then rdp_tx_loop nh nonces c n (r, free_packet (Some p) w)
               else if csp_rdp_time_after (nd_now w) (pkt_timestamp (buf_packet (nd_pool w) p) + rd_packet_timeout r)
               then (case rdp_retransmit nh (nonces n) c p h (r, w) of None \<Rightarrow> None
                     | Some w \<Rightarrow> rdp_tx_loop nh nonces c n (snd (tx_enqueue p r), w))
               else rdp_tx_loop nh nonces c n (snd (tx_enqueue p r), w)))"

text \<open>At the end the sender that waits for room in the window is woken up.\<close>

definition rdp_wake_sender :: "csp_rdp \<Rightarrow> csp_rdp" where
  "rdp_wake_sender r =
     (if rd_state r = RDP_OPEN \<and> int (length (rd_tx_queue r)) < sint (rd_window_size r) \<and>
         csp_rdp_seq_before (rd_snd_nxt r - rd_snd_una r) (ucast (rd_window_size r * 2))
      then r\<lparr>rd_tx_wait := True\<rparr> else r)"

definition csp_rdp_check_timeouts :: "nexthop \<Rightarrow> (nat \<Rightarrow> u32) \<Rightarrow> nat \<Rightarrow> rdp_node \<Rightarrow> rdp_node option" where
  "csp_rdp_check_timeouts nh nonces c s = (case s of (r, w) \<Rightarrow>
     let cn = nd_conns w ! c;
         timed_out = csp_rdp_time_after (nd_now w) (cn_timestamp cn + rd_conn_timeout r);
         nonce = nonces (length (rd_tx_queue r))
     in if cn_socket cn \<noteq> None \<and> timed_out then map_option snd (csp_close_rdp nh nonce (Some c) (r, w))
        else if rd_state r = RDP_CLOSE_WAIT
        then if timed_out then map_option snd (csp_close_rdp nh nonce (Some c) (r, w)) else Some (r, w)
        else (case rdp_tx_loop nh nonces c (length (rd_tx_queue r)) (r, w) of
                None \<Rightarrow> None
              | Some s \<Rightarrow> (case csp_rdp_check_ack nh nonce c s of
                            None \<Rightarrow> None
                          | Some (_, r, w) \<Rightarrow> Some (rdp_wake_sender r, w))))"

section \<open>The state machine\<close>

text \<open>How the handling of a packet ends: the labels of \<open>csp_rdp_new_packet\<close>, and the return after a
  RESET in a closed state.\<close>

datatype rdp_exit = DiscardClose | DiscardOpen | AcceptedOpen | FreeAndClose

definition rdp_rst_received ::
  "nexthop \<Rightarrow> u32 \<Rightarrow> nat \<Rightarrow> rdp_header \<Rightarrow> rdp_node \<Rightarrow> (rdp_exit \<times> rdp_node) option" where
  "rdp_rst_received nh nonce c h s = (case s of (r, w) \<Rightarrow>
     let r = (if rh_ack h then r\<lparr>rd_snd_una := rh_ack_nr h + 1\<rparr> else r)
     in if rd_state r = RDP_CLOSE_WAIT \<or> rd_state r = RDP_CLOSED then Some (FreeAndClose, r, w)
        else if rh_seq_nr h = rd_rcv_cur r + 1 then
          let r = r\<lparr>rd_state := RDP_CLOSE_WAIT\<rparr>;
              w = set_conn c ((nd_conns w ! c)\<lparr>cn_timestamp := nd_now w\<rparr>) w
          in map_option (\<lambda>(_, s). (DiscardClose, s))
               (csp_rdp_send_cmp nh nonce c None (RDP_ACK OR RDP_RST) (rd_snd_nxt r) (rd_rcv_cur r) (r, w))
        else Some (DiscardOpen, r, w))"

definition packet_data32 :: "csp_packet \<Rightarrow> nat \<Rightarrow> u32" where
  "packet_data32 pk i = of_le32 (take 4 (drop (4 * i) (pkt_data pk)))"

text \<open>A SYN packet sets the connection up; its data are the options of the sender.\<close>

definition rdp_in_closed ::
  "nexthop \<Rightarrow> u32 \<Rightarrow> u16 \<Rightarrow> nat \<Rightarrow> nat \<Rightarrow> rdp_header \<Rightarrow> rdp_node \<Rightarrow> (rdp_exit \<times> rdp_node) option" where
  "rdp_in_closed nh nonce iss c p h s = (case s of (r, w) \<Rightarrow>
     if \<not> rh_syn h
     then map_option (\<lambda>(_, s). (DiscardClose, s))
            (csp_rdp_send_cmp nh nonce c None RDP_RST (rd_snd_nxt r) (rd_rcv_cur r) (r, w))
     else
       let pk = buf_packet (nd_pool w) p in
       if pkt_length pk < 24 then None
       else
         let r = r\<lparr>rd_snd_iss := iss, rd_snd_nxt := iss + 1, rd_snd_una := iss,
                   rd_rcv_cur := rh_seq_nr h, rd_rcv_irs := rh_seq_nr h, rd_rcv_lsa := rh_seq_nr h,
                   rd_window_size := csp_ntoh32 (packet_data32 pk 0),
                   rd_conn_timeout := csp_ntoh32 (packet_data32 pk 1),
                   rd_packet_timeout := csp_ntoh32 (packet_data32 pk 2),
                   rd_delayed_acks := csp_ntoh32 (packet_data32 pk 3),
                   rd_ack_timeout := csp_ntoh32 (packet_data32 pk 4),
                   rd_ack_delay_count := csp_ntoh32 (packet_data32 pk 5),
                   rd_state := RDP_SYN_RCVD\<rparr>
         in map_option (\<lambda>(_, s). (DiscardOpen, s))
              (csp_rdp_send_cmp nh nonce c None (RDP_ACK OR RDP_SYN) (rd_snd_iss r) (rd_rcv_irs r) (r, w)))"

definition rdp_in_syn_sent ::
  "nexthop \<Rightarrow> u32 \<Rightarrow> nat \<Rightarrow> rdp_header \<Rightarrow> rdp_node \<Rightarrow> (rdp_exit \<times> rdp_node) option" where
  "rdp_in_syn_sent nh nonce c h s = (case s of (r, w) \<Rightarrow>
     if rh_syn h \<and> rh_ack h then
       let r = r\<lparr>rd_rcv_cur := rh_seq_nr h, rd_rcv_irs := rh_seq_nr h, rd_rcv_lsa := rh_seq_nr h - 1,
                 rd_snd_una := rh_ack_nr h + 1, rd_ack_timestamp := nd_now w, rd_state := RDP_OPEN\<rparr>
       in map_option (\<lambda>(_, r, w). (DiscardOpen, r\<lparr>rd_tx_wait := True\<rparr>, w))
            (if rd_delayed_acks r = 0
             then csp_rdp_send_cmp nh nonce c None RDP_ACK (rd_snd_nxt r) (rd_rcv_cur r) (r, w)
             else Some (CSP_ERR_NONE, r, w))
     else if rh_ack h then
       map_option (\<lambda>(_, r, w). (DiscardOpen, r\<lparr>rd_tx_wait := True\<rparr>, w))
         (csp_rdp_send_cmp nh nonce c None RDP_RST (rd_snd_nxt r) (rd_rcv_cur r) (r, w))
     else Some (DiscardClose, r, w))"

definition rdp_ack_valid :: "csp_rdp \<Rightarrow> u16 \<Rightarrow> bool" where
  "rdp_ack_valid r ack_nr \<longleftrightarrow>
     csp_rdp_seq_between ack_nr (rd_snd_una r - 1 - ucast (rd_window_size r * 2)) (rd_snd_nxt r - 1)"

text \<open>A message in sequence: the data is delivered, then the acknowledgement is sent if it is due and
  there is room for a window, then what has arrived before is delivered.\<close>

definition rdp_in_sequence ::
  "nexthop \<Rightarrow> u32 \<Rightarrow> nat \<Rightarrow> nat \<Rightarrow> u16 \<Rightarrow> rdp_node \<Rightarrow> (rdp_exit \<times> rdp_node) option" where
  "rdp_in_sequence nh nonce c p seq_nr s = (case s of (r, w) \<Rightarrow>
     (case csp_rdp_receive_data c p w of
        None \<Rightarrow> None
      | Some (e, w) \<Rightarrow>
          if e \<noteq> CSP_ERR_NONE then Some (DiscardOpen, r, w)
          else
            let r = r\<lparr>rd_rcv_cur := seq_nr\<rparr>;
                rx_queue_size = length (cn_rx_queue (nd_conns w ! c))
            in (case (if of_nat rx_queue_size + rd_window_size r \<le> of_nat CSP_RX_QUEUE_LENGTH \<and>
                         csp_rdp_should_ack (r, w)
                      then csp_rdp_send_cmp nh nonce c None RDP_ACK (rd_snd_nxt r) (rd_rcv_cur r) (r, w)
                      else Some (CSP_ERR_NONE, r, w)) of
                  None \<Rightarrow> None
                | Some (_, s) \<Rightarrow> map_option (\<lambda>s. (AcceptedOpen, s)) (csp_rdp_rx_queue_flush c s))))"

definition rdp_out_of_sequence ::
  "nexthop \<Rightarrow> u32 \<Rightarrow> nat \<Rightarrow> nat \<Rightarrow> u16 \<Rightarrow> rdp_node \<Rightarrow> (rdp_exit \<times> rdp_node) option" where
  "rdp_out_of_sequence nh nonce c p seq_nr s =
     (case csp_rdp_rx_queue_add p seq_nr s of
        None \<Rightarrow> None
      | Some (False, s) \<Rightarrow> Some (DiscardOpen, s)
      | Some (True, s) \<Rightarrow> map_option (\<lambda>(_, s). (AcceptedOpen, s)) (csp_rdp_send_eack nh nonce c s))"

text \<open>A valid packet in the states SYN-RCVD and OPEN, from where its acknowledgement is stored.\<close>

definition rdp_acked_packet ::
  "nexthop \<Rightarrow> u32 \<Rightarrow> nat \<Rightarrow> nat \<Rightarrow> rdp_header \<Rightarrow> rdp_node \<Rightarrow> (rdp_exit \<times> rdp_node) option" where
  "rdp_acked_packet nh nonce c p h s = (case s of (r, w) \<Rightarrow>
     let r = r\<lparr>rd_snd_una := rh_ack_nr h + 1\<rparr>;
         len = pkt_length (buf_packet (nd_pool w) p)
     in if rh_eak h then
          (if len > sizeof_rdp_header then map_option (\<lambda>s. (DiscardOpen, s)) (csp_rdp_flush_eack p (r, w))
           else Some (DiscardOpen, r, w))
        else if len \<le> sizeof_rdp_header then Some (DiscardOpen, r, w)
        else if rh_seq_nr h \<noteq> rd_rcv_cur r + 1 then rdp_out_of_sequence nh nonce c p (rh_seq_nr h) (r, w)
        else rdp_in_sequence nh nonce c p (rh_seq_nr h) (r, w))"

definition rdp_in_open ::
  "nexthop \<Rightarrow> u32 \<Rightarrow> nat \<Rightarrow> nat \<Rightarrow> rdp_header \<Rightarrow> rdp_node \<Rightarrow> (rdp_exit \<times> rdp_node) option" where
  "rdp_in_open nh nonce c p h s = (case s of (r, w) \<Rightarrow>
     if rh_syn h \<or> \<not> rh_ack h then
       Some (if rh_seq_nr h \<noteq> rd_rcv_irs r then DiscardClose else DiscardOpen, r, w)
     else if \<not> csp_rdp_seq_between (rh_seq_nr h) (rd_rcv_cur r + 1) (rd_rcv_cur r + ucast (rd_window_size r * 2)) then
       map_option (\<lambda>(_, s). (DiscardOpen, s))
         (if rd_state r = RDP_SYN_RCVD
          then csp_rdp_send_cmp nh nonce c None (RDP_ACK OR RDP_SYN) (rd_snd_iss r) (rd_rcv_irs r) (r, w)
          else csp_rdp_send_eack nh nonce c (r, w))
     else if \<not> rdp_ack_valid r (rh_ack_nr h) then Some (DiscardOpen, r, w)
     else if rd_state r = RDP_SYN_RCVD \<and> rh_ack_nr h \<noteq> rd_snd_iss r then Some (DiscardClose, r, w)
     else rdp_acked_packet nh nonce c p h (r\<lparr>rd_state := RDP_OPEN\<rparr>, w))"

definition rdp_in_close_wait ::
  "nexthop \<Rightarrow> u32 \<Rightarrow> nat \<Rightarrow> rdp_header \<Rightarrow> rdp_node \<Rightarrow> (rdp_exit \<times> rdp_node) option" where
  "rdp_in_close_wait nh nonce c h s = (case s of (r, w) \<Rightarrow>
     if rh_syn h \<or> \<not> rh_ack h \<or> \<not> rdp_ack_valid r (rh_ack_nr h) then Some (DiscardOpen, r, w)
     else
       let r = r\<lparr>rd_snd_una := rh_ack_nr h + 1\<rparr>
       in map_option (\<lambda>(_, s). (DiscardOpen, s))
            (csp_rdp_send_cmp nh nonce c None (RDP_ACK OR RDP_RST) (rd_snd_nxt r) (rd_rcv_cur r) (r, w)))"

definition rdp_exit_to :: "nexthop \<Rightarrow> u32 \<Rightarrow> nat \<Rightarrow> nat \<Rightarrow> rdp_exit \<Rightarrow> rdp_node \<Rightarrow> rdp_node option" where
  "rdp_exit_to nh nonce c p ex s = (case s of (r, w) \<Rightarrow>
     (case ex of
        AcceptedOpen \<Rightarrow> Some (r, w)
      | DiscardOpen \<Rightarrow> Some (r, free_packet (Some p) w)
      | FreeAndClose \<Rightarrow> map_option snd (csp_close_rdp nh nonce (Some c) (r, free_packet (Some p) w))
      | DiscardClose \<Rightarrow>
          if cn_socket (nd_conns w ! c) = None
          then Some (r, free_packet (Some p) (snd (csp_conn_enqueue_packet (Some c) None w)))
          else map_option (\<lambda>(_, r, w). (r, free_packet (Some p) w)) (csp_close_rdp nh nonce (Some c) (r, w))))"

definition rdp_handle ::
  "nexthop \<Rightarrow> u32 \<Rightarrow> u16 \<Rightarrow> nat \<Rightarrow> nat \<Rightarrow> rdp_header \<Rightarrow> rdp_node \<Rightarrow> (rdp_exit \<times> rdp_node) option" where
  "rdp_handle nh nonce iss c p h s =
     (if rh_rst h then rdp_rst_received nh nonce c h s
      else case rd_state (fst s) of
        RDP_CLOSED \<Rightarrow> rdp_in_closed nh nonce iss c p h s
      | RDP_SYN_SENT \<Rightarrow> rdp_in_syn_sent nh nonce c h s
      | RDP_SYN_RCVD \<Rightarrow> rdp_in_open nh nonce c p h s
      | RDP_OPEN \<Rightarrow> rdp_in_open nh nonce c p h s
      | RDP_CLOSE_WAIT \<Rightarrow> rdp_in_close_wait nh nonce c h s)"

definition csp_rdp_new_packet :: "nexthop \<Rightarrow> u32 \<Rightarrow> u16 \<Rightarrow> nat \<Rightarrow> nat \<Rightarrow> rdp_node \<Rightarrow> rdp_node option" where
  "csp_rdp_new_packet nh nonce iss c p s = (case s of (r, w) \<Rightarrow>
     (case csp_rdp_header_ref (buf_packet (nd_pool w) p) of
        None \<Rightarrow> None
      | Some h \<Rightarrow>
          let h = h\<lparr>rh_seq_nr := csp_ntoh16 (rh_seq_nr h), rh_ack_nr := csp_ntoh16 (rh_ack_nr h)\<rparr>;
              w = put_packet p (rdp_header_write h (buf_packet (nd_pool w) p)) w
          in (case rdp_handle nh nonce iss c p h (r, w) of
                None \<Rightarrow> None
              | Some (ex, s) \<Rightarrow> rdp_exit_to nh nonce c p ex s)))"

section \<open>The requests of the user\<close>

text \<open>While a task waits for the semaphore the others run: \<open>other_tasks\<close> is what they do until it is
  posted or the time is over.\<close>

definition rdp_sem_wait :: "(rdp_node \<Rightarrow> rdp_node) \<Rightarrow> rdp_node \<Rightarrow> bool \<times> rdp_node" where
  "rdp_sem_wait other_tasks s =
     (let s = (if rd_tx_wait (fst s) then s else other_tasks s)
      in case s of (r, w) \<Rightarrow> (rd_tx_wait r, r\<lparr>rd_tx_wait := False\<rparr>, w))"

definition rdp_use_opts :: "rdp_opts \<Rightarrow> rdp_node \<Rightarrow> rdp_node" where
  "rdp_use_opts opts s = (case s of (r, w) \<Rightarrow>
     (r\<lparr>rd_window_size := ro_window_size opts, rd_conn_timeout := ro_conn_timeout opts,
        rd_packet_timeout := ro_packet_timeout opts, rd_delayed_acks := ro_delayed_acks opts,
        rd_ack_timeout := ro_ack_timeout opts, rd_ack_delay_count := ro_ack_delay_count opts,
        rd_ack_timestamp := nd_now w\<rparr>, w))"

text \<open>One attempt after the other: \<open>nonces\<close> and \<open>isss\<close> are the random numbers of both.\<close>

fun rdp_connect_loop ::
  "nexthop \<Rightarrow> (nat \<Rightarrow> u32) \<Rightarrow> (nat \<Rightarrow> u16) \<Rightarrow> (rdp_node \<Rightarrow> rdp_node) \<Rightarrow> rdp_opts \<Rightarrow> nat \<Rightarrow> nat \<Rightarrow> rdp_node \<Rightarrow>
     (int \<times> rdp_node) option" where
  "rdp_connect_loop nh nonces isss other_tasks opts c retry (r, w) =
     (if rd_state r = RDP_OPEN then Some (CSP_ERR_ALREADY, r, w)
      else
        let iss = isss retry;
            r = r\<lparr>rd_snd_iss := iss, rd_snd_nxt := iss + 1, rd_snd_una := iss, rd_tx_wait := False,
                  rd_state := RDP_SYN_SENT\<rparr>
        in case csp_rdp_send_syn nh (nonces retry) opts c (r, w) of
             None \<Rightarrow> None
           | Some (e, r, w) \<Rightarrow>
               if e \<noteq> CSP_ERR_NONE then Some (CSP_ERR_TIMEDOUT, r\<lparr>rd_state := RDP_CLOSE_WAIT\<rparr>, w)
               else (case rdp_sem_wait other_tasks (r, w) of
                       (False, r, w) \<Rightarrow> Some (CSP_ERR_TIMEDOUT, r\<lparr>rd_state := RDP_CLOSE_WAIT\<rparr>, w)
                     | (True, r, w) \<Rightarrow>
                         if rd_state r = RDP_OPEN then Some (CSP_ERR_NONE, r, w)
                         else (case retry of
                                 0 \<Rightarrow> Some (CSP_ERR_TIMEDOUT, r\<lparr>rd_state := RDP_CLOSE_WAIT\<rparr>, w)
                               | Suc retry' \<Rightarrow>
                                   if rd_state r = RDP_SYN_SENT
                                   then rdp_connect_loop nh nonces isss other_tasks opts c retry' (csp_rdp_flush_all (r, w))
                                   else Some (CSP_ERR_TIMEDOUT, r\<lparr>rd_state := RDP_CLOSE_WAIT\<rparr>, w))))"

definition csp_rdp_connect ::
  "nexthop \<Rightarrow> (nat \<Rightarrow> u32) \<Rightarrow> (nat \<Rightarrow> u16) \<Rightarrow> (rdp_node \<Rightarrow> rdp_node) \<Rightarrow> rdp_opts \<Rightarrow> nat \<Rightarrow> rdp_node \<Rightarrow>
     (int \<times> rdp_node) option" where
  "csp_rdp_connect nh nonces isss other_tasks opts c s =
     rdp_connect_loop nh nonces isss other_tasks opts c 1 (rdp_use_opts opts s)"

text \<open>The copy for retransmission; the packet itself is sent by the caller.\<close>

definition rdp_send_copy :: "nat \<Rightarrow> rdp_node \<Rightarrow> (int \<times> rdp_node) option" where
  "rdp_send_copy p s = (case s of (r, w) \<Rightarrow>
     if rd_state r \<noteq> RDP_OPEN then Some (CSP_ERR_RESET, r, w)
     else (case csp_rdp_header_add (buf_packet (nd_pool w) p) of
             None \<Rightarrow> None
           | Some pk \<Rightarrow>
               let h = \<lparr>rh_rst = False, rh_eak = False, rh_ack = True, rh_syn = False, rh_res = 0,
                        rh_seq_nr = csp_hton16 (rd_snd_nxt r), rh_ack_nr = csp_hton16 (rd_rcv_cur r)\<rparr>;
                   w = put_packet p (rdp_header_write h pk) w
               in case csp_buffer_clone (Some p) (nd_pool w) of
                    (None, pool) \<Rightarrow> Some (CSP_ERR_NOMEM, r, w\<lparr>nd_pool := pool\<rparr>)
                  | (Some q, pool) \<Rightarrow>
                      let w = put_packet q ((buf_packet pool q)\<lparr>pkt_timestamp := nd_now w, pkt_quarantine := 0\<rparr>)
                                (w\<lparr>nd_pool := pool\<rparr>)
                      in case tx_enqueue q r of
                           (False, r) \<Rightarrow> Some (CSP_ERR_NOBUFS, r, free_packet (Some q) w)
                         | (True, r) \<Rightarrow> Some (CSP_ERR_NONE, r\<lparr>rd_snd_nxt := rd_snd_nxt r + 1\<rparr>, w)))"

definition csp_rdp_send :: "(rdp_node \<Rightarrow> rdp_node) \<Rightarrow> nat \<Rightarrow> rdp_node \<Rightarrow> (int \<times> rdp_node) option" where
  "csp_rdp_send other_tasks p s = (case s of (r, w) \<Rightarrow>
     if rd_state r \<noteq> RDP_OPEN then Some (CSP_ERR_RESET, r, w)
     else
       let in_flight = rd_snd_nxt r - rd_snd_una r + 1
       in if ucast in_flight > rd_window_size r
          then (case rdp_sem_wait other_tasks (r\<lparr>rd_tx_wait := False\<rparr>, w) of
                  (False, s) \<Rightarrow> Some (CSP_ERR_TIMEDOUT, s)
                | (True, s) \<Rightarrow> rdp_send_copy p s)
          else rdp_send_copy p (r, w))"

text \<open>The allocations of the semaphore and of both queues may fail.\<close>

definition csp_rdp_allocate :: "bool \<Rightarrow> bool \<Rightarrow> bool \<Rightarrow> rdp_opts \<Rightarrow> csp_rdp \<Rightarrow> int \<times> csp_rdp" where
  "csp_rdp_allocate sem_ok tx_ok rx_ok opts r =
     (let r = r\<lparr>rd_state := RDP_CLOSED, rd_conn_timeout := ro_conn_timeout opts,
                rd_packet_timeout := ro_packet_timeout opts\<rparr>
      in if \<not> sem_ok then (CSP_ERR_NOMEM, r)
         else if \<not> tx_ok then (CSP_ERR_NOMEM, r\<lparr>rd_tx_wait := True\<rparr>)
         else if \<not> rx_ok then (CSP_ERR_NOMEM, r\<lparr>rd_tx_wait := True, rd_tx_queue := []\<rparr>)
         else (CSP_ERR_NONE, r\<lparr>rd_tx_wait := True, rd_tx_queue := [], rd_rx_queue := []\<rparr>))"

text \<open>\<open>csp_send\<close> and \<open>csp_read\<close> of \<open>csp_io.c\<close> on a connection of this protocol.\<close>

definition csp_send_rdp ::
  "nexthop \<Rightarrow> u32 \<Rightarrow> (rdp_node \<Rightarrow> rdp_node) \<Rightarrow> nat \<Rightarrow> nat \<Rightarrow> rdp_node \<Rightarrow> (nat \<times> rdp_node) option" where
  "csp_send_rdp nh nonce other_tasks c p s = (case s of (r, w) \<Rightarrow>
     if \<not> cn_open (nd_conns w ! c) then Some (0, r, w)
     else if has_flag CSP_FRDP (cn_idout (nd_conns w ! c))
     then (case csp_rdp_send other_tasks p (r, w) of
             None \<Rightarrow> None
           | Some (e, r, w) \<Rightarrow>
               if e \<noteq> CSP_ERR_NONE
               then (case node_find_iface (id_dst (cn_idout (nd_conns w ! c))) w of
                       None \<Rightarrow> None
                     | Some None \<Rightarrow> Some (0, r, w)
                     | Some (Some i) \<Rightarrow> Some (0, r, count_tx_error i w))
               else map_option (\<lambda>(e, w). (if e = CSP_ERR_NONE then 1 else 0, r, w))
                      (rdp_transmit nh nonce (cn_idout (nd_conns w ! c)) (Some p) w))
     else map_option (\<lambda>(ok, w). (ok, r, w)) (csp_send nh nonce (Some c) (Some p) w))"

definition csp_read_rdp :: "nexthop \<Rightarrow> u32 \<Rightarrow> nat \<Rightarrow> rdp_node \<Rightarrow> (nat option \<times> rdp_node) option" where
  "csp_read_rdp nh nonce c s = (case s of (r, w) \<Rightarrow>
     if \<not> cn_open (nd_conns w ! c) then Some (None, r, w)
     else case cn_rx_queue (nd_conns w ! c) of
       [] \<Rightarrow> Some (None, r, w)
     | packet # rest \<Rightarrow>
         let w = set_conn c ((nd_conns w ! c)\<lparr>cn_rx_queue := rest\<rparr>) w
         in if has_flag CSP_FRDP (cn_idin (nd_conns w ! c))
            then map_option (\<lambda>(_, s). (packet, s)) (csp_rdp_check_ack nh nonce c (r, w))
            else Some (packet, r, w))"

text \<open>\<open>csp_conn_check_timeouts\<close> of \<open>csp_conn.c\<close>: the protocol states of all connections are a list.\<close>

fun csp_conn_check_timeouts ::
  "nexthop \<Rightarrow> (nat \<Rightarrow> nat \<Rightarrow> u32) \<Rightarrow> nat list \<Rightarrow> csp_rdp list \<times> csp_node \<Rightarrow> (csp_rdp list \<times> csp_node) option" where
  "csp_conn_check_timeouts nh nonces [] (rs, w) = Some (rs, w)"
| "csp_conn_check_timeouts nh nonces (i # is) (rs, w) =
     (if cn_open (nd_conns w ! i) \<and> has_flag CSP_FRDP (cn_idin (nd_conns w ! i))
      then (case csp_rdp_check_timeouts nh (nonces i) i (rs ! i, w) of
              None \<Rightarrow> None
            | Some (r, w) \<Rightarrow> csp_conn_check_timeouts nh nonces is (rs[i := r], w))
      else csp_conn_check_timeouts nh nonces is (rs, w))"

section \<open>Lemmas on headers and numbers\<close>

lemma rdp_header_bytes_length [simp]: "length (rdp_header_bytes h) = sizeof_rdp_header"
  by (simp add: rdp_header_bytes_def sizeof_rdp_header_def)

text \<open>The reserved bits are the upper four of the flags.\<close>

definition rdp_header_ok :: "rdp_header \<Rightarrow> bool" where
  "rdp_header_ok h \<longleftrightarrow> take_bit 4 (rh_res h) = rh_res h"

lemma rdp_header_ok_bit: "rdp_header_ok h \<Longrightarrow> bit (rh_res h) n \<Longrightarrow> n < 4"
  unfolding rdp_header_ok_def by (metis bit_take_bit_iff)

lemma rdp_header_of_bytes [simp]: "rdp_header_ok h \<Longrightarrow> rdp_header_of (rdp_header_bytes h) = h"
proof -
  assume ok: "rdp_header_ok h"
  have "drop_bit 4 (rdp_flag_byte h) = rh_res h"
    by (rule bit_eqI) (use ok in \<open>auto simp: rdp_flag_byte_def bit_simps dest: rdp_header_ok_bit\<close>)
  moreover have "bit (rdp_flag_byte h) 0 = rh_rst h" "bit (rdp_flag_byte h) 1 = rh_eak h"
    "bit (rdp_flag_byte h) 2 = rh_ack h" "bit (rdp_flag_byte h) 3 = rh_syn h"
    by (simp_all add: rdp_flag_byte_def bit_simps)
  moreover have "[le16 v ! 0, le16 v ! 1] = le16 v" for v by (simp add: le16_def)
  then have "of_le16 [le16 v ! 0, le16 v ! 1] = v" for v by simp
  ultimately show ?thesis
    by (simp add: rdp_header_of_def rdp_header_bytes_def nth_append)
qed

lemma rdp_header_of_ok [simp]: "rdp_header_ok (rdp_header_of bs)"
proof -
  have "take_bit 4 (drop_bit 4 v) = drop_bit 4 (v :: u8)" for v
  proof (rule byte_eqI)
    fix n :: nat
    have "bit v (4 + n) \<Longrightarrow> n < 4" using bit_byte_ge [of "4 + n" v] by linarith
    then show "bit (take_bit 4 (drop_bit 4 v)) n = bit (drop_bit 4 v) n" by (auto simp: bit_simps)
  qed
  then show ?thesis by (simp add: rdp_header_ok_def rdp_header_of_def)
qed

lemma rdp_header_ref_ok: "csp_rdp_header_ref pk = Some h \<Longrightarrow> rdp_header_ok h"
  by (auto simp: csp_rdp_header_ref_def split: if_splits)

lemma rdp_control_header_ok [simp]: "rdp_header_ok (rdp_control_header flags seq ack)"
  by (simp add: rdp_control_header_def rdp_header_ok_def)

lemma rdp_header_ok_numbers [simp]:
  "rdp_header_ok (h\<lparr>rh_seq_nr := s\<rparr>) = rdp_header_ok h" "rdp_header_ok (h\<lparr>rh_ack_nr := a\<rparr>) = rdp_header_ok h"
  by (simp_all add: rdp_header_ok_def)

text \<open>The payload of a packet with a header.\<close>

definition rdp_payload :: "csp_packet \<Rightarrow> u8 list" where
  "rdp_payload pk = take (pkt_length pk - sizeof_rdp_header) (pkt_data pk)"

lemma rdp_header_write_fields [simp]:
  "sizeof_rdp_header \<le> pkt_length pk \<Longrightarrow> pkt_length (rdp_header_write h pk) = pkt_length pk"
  "pkt_id (rdp_header_write h pk) = pkt_id pk" "pkt_cap (rdp_header_write h pk) = pkt_cap pk"
  "pkt_timestamp (rdp_header_write h pk) = pkt_timestamp pk"
  by (simp_all add: rdp_header_write_def pkt_length_def)

lemma rdp_header_ref_write [simp]:
  "rdp_header_ok h \<Longrightarrow> sizeof_rdp_header \<le> pkt_length pk \<Longrightarrow> csp_rdp_header_ref (rdp_header_write h pk) = Some h"
  by (simp add: csp_rdp_header_ref_def) (simp add: rdp_header_write_def pkt_length_def)

lemma rdp_payload_write [simp]:
  "sizeof_rdp_header \<le> pkt_length pk \<Longrightarrow> rdp_payload (rdp_header_write h pk) = rdp_payload pk"
  by (simp add: rdp_payload_def rdp_header_write_def pkt_length_def)

lemma rdp_header_add_eq:
  "csp_rdp_header_add pk = (if pkt_length pk + sizeof_rdp_header \<le> pkt_cap pk
     then Some (pk\<lparr>pkt_data := pkt_data pk @ replicate sizeof_rdp_header 0\<rparr>) else None)"
  by (simp add: csp_rdp_header_add_def pkt_append_def)

lemma rdp_header_write_added:
  "rdp_header_write h (pk\<lparr>pkt_data := pkt_data pk @ replicate sizeof_rdp_header 0\<rparr>) =
     pk\<lparr>pkt_data := pkt_data pk @ rdp_header_bytes h\<rparr>"
  by (simp add: rdp_header_write_def pkt_length_def)

subsection \<open>Sequence numbers count modulo 65536\<close>

lemma seq_between_iff: "csp_rdp_seq_between seq start end' \<longleftrightarrow> unat (seq - start) \<le> unat (end' - start)"
  by (simp add: csp_rdp_seq_between_def word_le_nat_alt)

lemma unat_of_nat_16: "n < 2 ^ 16 \<Longrightarrow> unat (of_nat n :: u16) = n"
  by (simp add: unat_of_nat take_bit_nat_eq_self_iff)

text \<open>Number \<open>m\<close> of a stream that starts behind \<open>irs\<close>; the receiver has everything up to number \<open>k\<close>.\<close>

lemma seq_window:
  assumes "0 < n" "n < 2 ^ 16" "k < m + (2 ^ 16 - n)" "m \<le> k + 2 ^ 16"
  shows "csp_rdp_seq_between (irs + of_nat m) (irs + of_nat k + 1) (irs + of_nat k + of_nat n) \<longleftrightarrow> k < m \<and> m \<le> k + n"
proof -
  have e: "irs + of_nat k + of_nat n - (irs + of_nat k + 1) = (of_nat (n - 1) :: u16)"
    using assms(1) by (simp add: of_nat_diff)
  show ?thesis
  proof (cases "k < m")
    case True
    then have g: "irs + of_nat m - (irs + of_nat k + 1) = (of_nat (m - k - 1) :: u16)"
      by (simp add: of_nat_diff)
    have "unat (of_nat (m - k - 1) :: u16) = m - k - 1" "unat (of_nat (n - 1) :: u16) = n - 1"
      using assms True by (intro unat_of_nat_16, simp)+
    then show ?thesis unfolding seq_between_iff e g using True assms by auto
  next
    case False
    define d where "d = k - m"
    then have k: "k = m + d" using False by simp
    have d: "d < 2 ^ 16 - n" using assms k by simp
    have g: "irs + of_nat m - (irs + of_nat k + 1) = (of_nat (2 ^ 16 - 1 - d) :: u16)"
    proof -
      have "(of_nat (2 ^ 16 - 1 - d) :: u16) + of_nat (d + 1) = of_nat (2 ^ 16)"
        using d by (simp flip: of_nat_add)
      also have "\<dots> = 0" by simp
      finally have "(of_nat (2 ^ 16 - 1 - d) :: u16) = - of_nat (d + 1)" by (simp only: eq_neg_iff_add_eq_0)
      then show ?thesis by (simp add: k)
    qed
    have "unat (of_nat (2 ^ 16 - 1 - d) :: u16) = 2 ^ 16 - 1 - d" "unat (of_nat (n - 1) :: u16) = n - 1"
      using assms d by (intro unat_of_nat_16, simp)+
    then show ?thesis unfolding seq_between_iff e g using False assms d by auto
  qed
qed

text \<open>Two numbers of the stream less than 65536 apart are the same when their sequence numbers are.\<close>

lemma seq_inject:
  assumes "(irs :: u16) + of_nat m = irs + of_nat n" "m < n + 2 ^ 16" "n < m + 2 ^ 16"
  shows "m = n"
proof -
  have "m mod 2 ^ 16 = n mod 2 ^ 16"
    using assms(1) by (simp add: word_of_nat_eq_iff take_bit_eq_mod)
  then have "m \<le> n \<Longrightarrow> 2 ^ 16 dvd n - m" "n \<le> m \<Longrightarrow> 2 ^ 16 dvd m - n"
    by (metis mod_eq_dvd_iff_nat)+
  then show ?thesis using assms(2,3) by (cases "m \<le> n") (auto dest: dvd_imp_le)
qed

end
