(* ===== verification/CspRdpBuffers.thy ===== *)
theory CspRdpBuffers
  imports CspRdp
begin

text \<open>
  Who owns a packet while the reliable protocol (\<open>CspRdp\<close>) works on it.  The queues of a connection
  hold packets beside those of the node; \<open>rdp_ok\<close> says that every buffer in use is referred to
  exactly once, by the node, by the connection or by the task that runs (\<open>M\<close>).  Every operation keeps
  it, up to the buffers \<open>L\<close> that are lost on two paths of the code, which the lemmas name.  What
  an interface does not change of the node is the locale \<open>csp_link\<close>.
\<close>

section \<open>Consistency of a connection\<close>

definition rdp_refs :: "csp_rdp \<Rightarrow> nat multiset" where
  "rdp_refs r = mset (rd_tx_queue r) + mset (rd_rx_queue r)"

definition rdp_ok :: "nat \<Rightarrow> nat multiset \<Rightarrow> rdp_node \<Rightarrow> bool" where
  "rdp_ok c M s \<longleftrightarrow> node_ok (snd s) \<and> owned (rdp_refs (fst s) + M) (snd s) \<and> c < CSP_CONN_MAX \<and>
     \<not> bound (snd s) c \<and> length (rd_tx_queue (fst s)) \<le> CSP_RDP_MAX_WINDOW \<and>
     length (rd_rx_queue (fst s)) \<le> CSP_RDP_MAX_WINDOW * 2"

text \<open>What is left alone by everything that only transmits: the connections and the contents of
  the buffers \<open>A\<close>.\<close>

definition same_packets :: "nat set \<Rightarrow> csp_node \<Rightarrow> csp_node \<Rightarrow> bool" where
  "same_packets A w w' \<longleftrightarrow> (\<forall>q \<in> A. buf_packet (nd_pool w') q = buf_packet (nd_pool w) q)"

lemma same_packets_refl [simp]: "same_packets A w w"
  by (simp add: same_packets_def)

lemma same_packets_trans: "same_packets A w w' \<Longrightarrow> same_packets B w' w'' \<Longrightarrow> A \<subseteq> B \<Longrightarrow> same_packets A w w''"
  by (auto simp: same_packets_def)

lemma same_packets_mono: "same_packets B w w' \<Longrightarrow> A \<subseteq> B \<Longrightarrow> same_packets A w w'"
  by (auto simp: same_packets_def)

lemma same_packets_free [simp]: "same_packets A w (free_packet p w') = same_packets A w w'"
  by (simp add: same_packets_def free_packet_def)

definition bufs :: "csp_node \<Rightarrow> nat set" where
  "bufs w = live (nd_pool w)"

lemma owned_pool: "owned M w \<Longrightarrow> pool_ok (nd_pool w)"
  by (simp add: owned_def)

lemma owned_count: "owned M w \<Longrightarrow> p \<in># M \<Longrightarrow> p < pool_count (nd_pool w)"
  using live_less owned_live by blast

lemma put_packet_at:
  "owned M w \<Longrightarrow> p \<in># M \<Longrightarrow> buf_packet (nd_pool (put_packet p pk w)) q = (if q = p then pk else buf_packet (nd_pool w) q)"
  using owned_count owned_pool by (auto simp: put_packet_def buf_packet_set_packet)

lemma same_packets_put: "pool_ok (nd_pool w') \<Longrightarrow> p \<notin> A \<Longrightarrow> same_packets A w (put_packet p pk w') = same_packets A w w'"
  by (auto simp: same_packets_def put_packet_def buf_packet_set_packet)

text \<open>Every buffer in use is referred to once.\<close>

lemma owned_count_le: "owned M w \<Longrightarrow> count M p \<le> 1"
proof -
  assume "owned M w"
  then have "count (refs w) p + count M p = count (mset_set (live (nd_pool w))) p"
    unfolding owned_def by (metis count_union)
  then show ?thesis by (simp add: count_mset_set' split: if_splits)
qed

lemma owned_distinct: "owned (add_mset p M) w \<Longrightarrow> p \<notin># M"
  using owned_count_le [of "add_mset p M" w p] by (simp add: not_in_iff)

section \<open>Getting and copying buffers\<close>

lemma rdp_get_buffer_cases:
  assumes "rdp_get_buffer n w = (x, w')" "node_ok w" "owned M w"
  obtains "x = None" "w' = w" "pool_size (nd_pool w) < n + 14 \<or> pool_free (nd_pool w) = []"
  | p where "x = Some p" "p \<notin> bufs w" "bufs w' = insert p (bufs w)" "node_ok w'" "owned (add_mset p M) w'"
      "w' = w\<lparr>nd_pool := nd_pool w'\<rparr>" "same_packets (bufs w) w w'"
      "buf_packet (nd_pool w') p = (buf_packet (nd_pool w) p)\<lparr>pkt_data := []\<rparr>"
      "Suc (length (pool_free (nd_pool w'))) = length (pool_free (nd_pool w))"
      "n + 14 \<le> pool_size (nd_pool w)" "pool_size (nd_pool w') = pool_size (nd_pool w)"
proof -
  obtain y pool where g: "csp_buffer_get n (nd_pool w) = (y, pool)" by fastforce
  note ok = owned_pool [OF assms(3)]
  note k = csp_buffer_get_keeps [OF g assms(2,3)]
  show thesis
  proof (cases y)
    case None
    note csp_buffer_get_None [OF ok g [unfolded None]]
    then show thesis using assms(1) g None by (intro that(1)) (auto simp: rdp_get_buffer_def)
  next
    case (Some p)
    note s = csp_buffer_get_Some [OF ok g [unfolded Some]]
    have f: "Suc (length (pool_free pool)) = length (pool_free (nd_pool w)) \<and> n + 14 \<le> pool_size (nd_pool w)"
      by (cases rule: get_cases [OF ok, of n]) (use g Some in auto)
    have w': "w' = put_packet p ((buf_packet pool p)\<lparr>pkt_data := []\<rparr>) (w\<lparr>nd_pool := pool\<rparr>)" "x = Some p"
      using assms(1) g Some by (auto simp: rdp_get_buffer_def)
    have "owned (add_mset p M) w'"
      using owned_put_packet [of "add_mset p M" "w\<lparr>nd_pool := pool\<rparr>" p] k Some w' by simp
    then show thesis
      using s f k Some w'
      by (intro that(2) [of p])
        (auto simp: bufs_def same_packets_def put_packet_def buf_packet_set_packet owned_set_packet)
  qed
qed

lemma csp_buffer_clone_cases:
  assumes "csp_buffer_clone (Some i) (nd_pool w) = (x, pool)" "node_ok w" "owned M w"
  obtains "x = None" "pool = nd_pool w"
      "pool_size pool < pkt_length (buf_packet pool i) + 14 \<or> pool_free pool = []"
  | q where "x = Some q" "q \<notin> bufs w" "live pool = insert q (bufs w)" "node_ok (w\<lparr>nd_pool := pool\<rparr>)"
      "owned (add_mset q M) (w\<lparr>nd_pool := pool\<rparr>)" "same_packets (bufs w) w (w\<lparr>nd_pool := pool\<rparr>)"
      "buf_packet pool q = buf_packet (nd_pool w) i"
proof -
  obtain y pool1 where g: "csp_buffer_get (pkt_length (buf_packet (nd_pool w) i)) (nd_pool w) = (y, pool1)" by fastforce
  note ok = owned_pool [OF assms(3)]
  note k = csp_buffer_get_keeps [OF g assms(2,3)]
  show thesis
  proof (cases y)
    case None
    note csp_buffer_get_None [OF ok g [unfolded None]]
    then show thesis using assms(1) g None by (intro that(1)) (auto simp: csp_buffer_clone_def)
  next
    case (Some q)
    note s = csp_buffer_get_Some [OF ok g [unfolded Some]]
    have p: "pool = set_packet q (buf_packet pool1 i) pool1" "x = Some q"
      using assms(1) g Some by (auto simp: csp_buffer_clone_def)
    have "owned (add_mset q M) (w\<lparr>nd_pool := pool\<rparr>)"
      using owned_set_packet [of "add_mset q M" "w\<lparr>nd_pool := pool1\<rparr>" q] k Some p by simp
    then show thesis
      using s k Some p
      by (intro that(2) [of q]) (auto simp: bufs_def same_packets_def buf_packet_set_packet)
  qed
qed

section \<open>What transmitting leaves alone\<close>

definition roomy :: "nat \<Rightarrow> csp_node \<Rightarrow> bool" where
  "roomy n w \<longleftrightarrow> (\<forall>q < pool_count (nd_pool w). n \<le> pkt_cap (buf_packet (nd_pool w) q))"

definition quiet :: "nat set \<Rightarrow> csp_node \<Rightarrow> csp_node \<Rightarrow> bool" where
  "quiet A w w' \<longleftrightarrow> nd_conns w' = nd_conns w \<and> nd_ports w' = nd_ports w \<and> nd_now w' = nd_now w \<and>
     pool_count (nd_pool w') = pool_count (nd_pool w) \<and> same_packets A w w' \<and> (\<forall>n. roomy n w \<longrightarrow> roomy n w')"

lemma quiet_refl [simp]: "quiet A w w"
  by (simp add: quiet_def)

lemma quiet_trans: "quiet A w w' \<Longrightarrow> quiet B w' w'' \<Longrightarrow> A \<subseteq> B \<Longrightarrow> quiet A w w''"
  unfolding quiet_def by (auto intro: same_packets_trans)

lemma quiet_mono: "quiet B w w' \<Longrightarrow> A \<subseteq> B \<Longrightarrow> quiet A w w'"
  unfolding quiet_def by (auto intro: same_packets_mono)

lemma quiet_free [simp]: "quiet A w (free_packet p w') = quiet A w w'"
  by (simp add: quiet_def same_packets_def roomy_def free_packet_def)

lemma quiet_put:
  "pool_ok (nd_pool w) \<Longrightarrow> p \<notin> A \<Longrightarrow> pkt_cap pk = pkt_cap (buf_packet (nd_pool w) p) \<Longrightarrow> quiet A w (put_packet p pk w)"
  by (auto simp: quiet_def same_packets_def roomy_def put_packet_def buf_packet_set_packet)

lemma quiet_count [simp]:
  "quiet A w (count_tx_error i w') = quiet A w w'" "quiet A w (count_tx i n w') = quiet A w w'"
  by (simp_all add: quiet_def same_packets_def roomy_def count_tx_error_def count_tx_def set_iface_def)

lemma quiet_bound: "quiet A w w' \<Longrightarrow> bound w' = bound w"
  by (simp add: quiet_def bound_def fun_eq_iff)

lemma get_buffer_quiet:
  assumes "rdp_get_buffer n w = (x, w')" "node_ok w" "owned M w"
  shows "quiet (bufs w) w w'"
proof -
  obtain y pool where g: "csp_buffer_get n (nd_pool w) = (y, pool)" by fastforce
  note ok = owned_pool [OF assms(3)]
  show ?thesis
  proof (cases y)
    case None
    with csp_buffer_get_None [OF ok g [unfolded None]] assms(1) g show ?thesis by (simp add: rdp_get_buffer_def)
  next
    case (Some p)
    note s = csp_buffer_get_Some [OF ok g [unfolded Some]]
    have "w' = put_packet p ((buf_packet pool p)\<lparr>pkt_data := []\<rparr>) (w\<lparr>nd_pool := pool\<rparr>)"
      using assms(1) g Some by (simp add: rdp_get_buffer_def)
    then show ?thesis
      using s by (auto simp: bufs_def quiet_def roomy_def same_packets_def put_packet_def buf_packet_set_packet)
  qed
qed

lemma clone_quiet:
  assumes "csp_buffer_clone (Some i) (nd_pool w) = (x, pool)" "node_ok w" "owned M w" "i \<in># M"
  shows "quiet (bufs w) w (w\<lparr>nd_pool := pool\<rparr>)"
proof (cases rule: csp_buffer_clone_cases [OF assms(1-3)])
  case (2 q)
  obtain pool1 where g: "csp_buffer_get (pkt_length (buf_packet (nd_pool w) i)) (nd_pool w) = (Some q, pool1)"
    "pool = set_packet q (buf_packet pool1 i) pool1"
    using assms(1) 2(1) by (auto simp: csp_buffer_clone_def split: prod.splits option.splits)
  show ?thesis
    using 2 g csp_buffer_get_Some [OF owned_pool [OF assms(3)] g(1)] owned_count [OF assms(3,4)]
    by (auto simp: quiet_def roomy_def buf_packet_set_packet)
qed simp

section \<open>Transmitting\<close>

text \<open>An interface changes only the buffer it is given, and answers.\<close>

locale csp_link = csp_interface +
  assumes tx_quiet: "nh i = Some tx \<Longrightarrow> tx p w = Some (e, w') \<Longrightarrow> quiet (- {p}) w w'"
    and tx_answers: "nh i = Some tx \<Longrightarrow> \<exists>e w'. tx p w = Some (e, w')"

interpretation lo_link: csp_link lo_nexthop
proof
  fix i tx p and w w' :: csp_node and e
  assume "lo_nexthop i = Some tx" "tx p w = Some (e, w')"
  then show "quiet (- {p}) w w'"
    by (auto simp: lo_nexthop_def csp_lo_tx_def csp_qfifo_write_def set_iface_def quiet_def same_packets_def
        roomy_def free_packet_def split: if_splits)
qed (auto simp: lo_nexthop_def csp_lo_tx_def split: if_splits)

lemma send_security_cap:
  "send_security hk xk nonce i pk = Some (e, Some pk') \<Longrightarrow> pkt_cap pk' = pkt_cap pk"
  by (auto simp: send_security_def csp_hmac_append_def csp_crc32_append_def Let_def pkt_append_def
      split: if_splits option.splits prod.splits)

context csp_link begin

lemma send_direct_quiet:
  assumes "csp_send_direct nh nonce idout (Some p) ifout w = Some (e, w')" "pool_ok (nd_pool w)"
  shows "quiet (- {p}) w w'"
proof (cases "\<exists>i tx. ifout = Some i \<and> nh i = Some tx")
  case False
  then have "w' = w" using assms(1) by (auto simp: csp_send_direct_def split: option.splits)
  then show ?thesis by simp
next
  case True
  then obtain i tx where i: "ifout = Some i" "nh i = Some tx" by auto
  let ?pk = "(buf_packet (nd_pool w) p)\<lparr>pkt_id := idout\<rparr>"
  obtain e1 pk where s: "(if id_src idout = nd_address w
       then send_security (nd_hmac_key w) (nd_xtea_key w) nonce idout ?pk
       else Some (CSP_ERR_NONE, Some ?pk)) = Some (e1, Some pk)"
    using assms(1) i by (auto simp: csp_send_direct_def Let_def split: option.splits prod.splits)
  then have "pkt_cap pk = pkt_cap (buf_packet (nd_pool w) p)"
    by (auto dest: send_security_cap split: if_splits)
  then have q: "quiet (- {p}) w (put_packet p pk w)" using assms(2) by (intro quiet_put) simp_all
  show ?thesis
    using assms(1) i s q quiet_trans [OF q tx_quiet [OF i(2)]]
    by (auto simp: csp_send_direct_def Let_def split: option.splits prod.splits if_splits)
qed

lemma transmit_keeps:
  assumes "rdp_transmit nh nonce idout (Some p) w = Some (e, w')" "node_ok w" "owned (add_mset p M) w"
  shows "node_ok w' \<and> owned (if e = CSP_ERR_NONE then M else add_mset p M) w' \<and> quiet (- {p}) w w'"
proof -
  obtain ifout where f: "node_find_iface (id_dst idout) w = Some ifout"
    "csp_send_direct nh nonce idout (Some p) ifout w = Some (e, w')"
    using assms(1) by (auto simp: rdp_transmit_def split: option.splits)
  have "\<And>i. ifout = Some i \<Longrightarrow> i < length (nd_ifaces w)" using node_find_iface_valid [OF assms(2)] f(1) by blast
  from send_direct_keeps [OF f(2) assms(2,3) this] send_direct_quiet [OF f(2) owned_pool [OF assms(3)]]
  show ?thesis by blast
qed

lemma transmit_null: "rdp_transmit nh nonce idout None w = Some (e, w') \<Longrightarrow> e = CSP_ERR_TX \<and> w' = w"
  by (auto simp: rdp_transmit_def csp_send_direct_def split: option.splits)

end

section \<open>Control messages\<close>

lemma rdp_okI:
  "node_ok w \<Longrightarrow> owned (rdp_refs r + M) w \<Longrightarrow> c < CSP_CONN_MAX \<Longrightarrow> \<not> bound w c \<Longrightarrow>
     length (rd_tx_queue r) \<le> CSP_RDP_MAX_WINDOW \<Longrightarrow> length (rd_rx_queue r) \<le> CSP_RDP_MAX_WINDOW * 2 \<Longrightarrow> rdp_ok c M (r, w)"
  by (simp add: rdp_ok_def)

lemma rdp_okD:
  assumes "rdp_ok c M (r, w)"
  shows "node_ok w" "owned (rdp_refs r + M) w" "c < CSP_CONN_MAX" "\<not> bound w c"
    "length (rd_tx_queue r) \<le> CSP_RDP_MAX_WINDOW" "length (rd_rx_queue r) \<le> CSP_RDP_MAX_WINDOW * 2"
    "pool_ok (nd_pool w)" "c < length (nd_conns w)"
  using assms by (auto simp: rdp_ok_def node_ok_def dest: owned_pool)

text \<open>The packets waiting for an acknowledgement only grow, the rest of a connection stays.\<close>

definition acked_only :: "csp_rdp \<Rightarrow> csp_rdp \<Rightarrow> bool" where
  "acked_only r r' \<longleftrightarrow> rd_state r' = rd_state r \<and> rd_snd_nxt r' = rd_snd_nxt r \<and> rd_snd_una r' = rd_snd_una r \<and>
     rd_snd_iss r' = rd_snd_iss r \<and> rd_rcv_cur r' = rd_rcv_cur r \<and> rd_rcv_irs r' = rd_rcv_irs r \<and>
     rd_window_size r' = rd_window_size r \<and> rd_conn_timeout r' = rd_conn_timeout r \<and>
     rd_packet_timeout r' = rd_packet_timeout r \<and> rd_delayed_acks r' = rd_delayed_acks r \<and>
     rd_ack_timeout r' = rd_ack_timeout r \<and> rd_ack_delay_count r' = rd_ack_delay_count r \<and>
     rd_tx_wait r' = rd_tx_wait r \<and> rd_rx_queue r' = rd_rx_queue r \<and>
     (\<exists>qs. rd_tx_queue r' = rd_tx_queue r @ qs)"

lemma acked_only_refl [simp]: "acked_only r r"
  by (simp add: acked_only_def)

lemma acked_only_fields:
  assumes "acked_only r r'"
  shows "rd_state r' = rd_state r" "rd_snd_nxt r' = rd_snd_nxt r" "rd_snd_una r' = rd_snd_una r"
    "rd_rcv_cur r' = rd_rcv_cur r" "rd_rcv_irs r' = rd_rcv_irs r" "rd_rx_queue r' = rd_rx_queue r"
    "rd_window_size r' = rd_window_size r" "rd_snd_iss r' = rd_snd_iss r"
  using assms by (auto simp: acked_only_def)

lemma acked_only_trans: "acked_only r r' \<Longrightarrow> acked_only r' r'' \<Longrightarrow> acked_only r r''"
  by (auto simp: acked_only_def)

lemma acked_only_stamp [simp]: "acked_only r (r'\<lparr>rd_rcv_lsa := l, rd_ack_timestamp := t\<rparr>) = acked_only r r'"
  by (simp add: acked_only_def)

lemma rdp_keep_syn_keeps:
  assumes "rdp_keep_syn flags p (r, w) = (ok, r', w')" "rdp_ok c M (r, w)" "p \<in># M"
  shows "rdp_ok c M (r', w') \<and> quiet (bufs w) w w' \<and> acked_only r r' \<and>
    (ok \<or> flags AND RDP_SYN \<noteq> 0 \<and> w' = w \<and>
      (pool_size (nd_pool w) < pkt_length (buf_packet (nd_pool w) p) + 14 \<or> pool_free (nd_pool w) = [])) \<and>
    (flags AND RDP_SYN = 0 \<longrightarrow> r' = r \<and> w' = w)"
proof (cases "flags AND RDP_SYN = 0")
  case True
  then show ?thesis using assms by (simp add: rdp_keep_syn_def)
next
  case False
  note k = rdp_okD [OF assms(2)]
  obtain x pool where cl: "csp_buffer_clone (Some p) (nd_pool w) = (x, pool)" by fastforce
  have "quiet (bufs w) w (w\<lparr>nd_pool := pool\<rparr>)" by (rule clone_quiet [OF cl k(1,2)]) (use assms(3) in simp)
  note q1 = this
  show ?thesis
  proof (cases rule: csp_buffer_clone_cases [OF cl k(1,2)])
    case 1
    then show ?thesis using assms False cl by (auto simp: rdp_keep_syn_def)
  next
    case (2 q)
    define w1 where "w1 = put_packet q ((buf_packet pool q)\<lparr>pkt_timestamp := nd_now w\<rparr>) (w\<lparr>nd_pool := pool\<rparr>)"
    have w1: "node_ok w1" "owned (add_mset q (rdp_refs r + M)) w1"
      using 2 by (simp_all add: w1_def owned_put_packet)
    have "quiet (bufs w) (w\<lparr>nd_pool := pool\<rparr>) w1"
      unfolding w1_def by (rule quiet_put) (use 2 owned_pool [OF 2(5)] in auto)
    then have q: "quiet (bufs w) w w1" using q1 quiet_trans by blast
    have b: "\<not> bound w1 c" using quiet_bound [OF q] k(4) by simp
    show ?thesis
    proof (cases "length (rd_tx_queue r) < CSP_RDP_MAX_WINDOW")
      case True
      let ?r = "r\<lparr>rd_tx_queue := rd_tx_queue r @ [q]\<rparr>"
      have e: "ok" "r' = ?r" "w' = w1"
        using assms(1) False cl 2(1) True by (simp_all add: rdp_keep_syn_def tx_enqueue_def w1_def Let_def)
      have "rdp_ok c M (?r, w1)"
        using w1 k b True by (intro rdp_okI) (simp_all add: rdp_refs_def)
      moreover have "acked_only r ?r"
        by (simp add: acked_only_def)
      ultimately show ?thesis using e q False by simp
    next
      case full: False
      have e: "ok" "r' = r" "w' = free_packet (Some q) w1"
        using assms(1) False cl 2(1) full by (simp_all add: rdp_keep_syn_def tx_enqueue_def w1_def Let_def)
      have "rdp_ok c M (r, free_packet (Some q) w1)"
        using owned_free [OF w1(2)] w1 k b by (intro rdp_okI) (simp_all add: bound_def free_packet_def)
      then show ?thesis using e q False by simp
    qed
  qed
qed

text \<open>The packet of the caller, if any.\<close>

definition given :: "nat option \<Rightarrow> nat multiset" where
  "given packet = (case packet of None \<Rightarrow> {#} | Some p \<Rightarrow> {#p#})"

lemma given_simps [simp]: "given None = {#}" "given (Some p) = {#p#}"
  by (simp_all add: given_def)

text \<open>A copy of a SYN packet fails when no second buffer is free.\<close>

definition copy_fails :: "u8 \<Rightarrow> nat option \<Rightarrow> csp_node \<Rightarrow> bool" where
  "copy_fails flags packet w \<longleftrightarrow> flags AND RDP_SYN \<noteq> 0 \<and>
     length (pool_free (nd_pool w)) \<le> (case packet of None \<Rightarrow> 1 | Some _ \<Rightarrow> 0)"

lemma ownedI_assoc: "owned (A + add_mset p M) w \<Longrightarrow> owned (add_mset p (A + M)) w"
  by simp

context csp_link begin

lemma send_cmp_tail:
  assumes "(case rdp_keep_syn flags p (r, put_packet p pk w) of
      (False, s) \<Rightarrow> Some (CSP_ERR_NOMEM, s)
    | (True, r, w) \<Rightarrow>
        case rdp_transmit nh nonce (idout w) (Some p) w of
          None \<Rightarrow> None
        | Some (e, w) \<Rightarrow>
            if e \<noteq> CSP_ERR_NONE then Some (CSP_ERR_BUSY, r, free_packet (Some p) w)
            else if flags AND RDP_ACK \<noteq> 0
            then Some (CSP_ERR_NONE, r\<lparr>rd_rcv_lsa := ack_nr, rd_ack_timestamp := nd_now w\<rparr>, w)
            else Some (CSP_ERR_NONE, r, w)) = Some (e, r', w')"
    and ok: "rdp_ok c (add_mset p M) (r, w)" and cap: "pkt_cap pk = pkt_cap (buf_packet (nd_pool w) p)"
  shows "\<exists>L. rdp_ok c (L + M) (r', w') \<and> quiet (bufs w - {p}) w w' \<and> acked_only r r' \<and>
    (L \<noteq> {#} \<longrightarrow> flags AND RDP_SYN \<noteq> 0 \<and>
      (pool_size (nd_pool w) < pkt_length pk + 14 \<or> pool_free (nd_pool w) = [])) \<and>
    (flags AND RDP_SYN = 0 \<longrightarrow> rd_tx_queue r' = rd_tx_queue r) \<and> (e = CSP_ERR_NONE \<longrightarrow> L = {#})"
proof -
  note k = rdp_okD [OF ok]
  let ?w = "put_packet p pk w"
  have at: "buf_packet (nd_pool ?w) p = pk" by (rule put_packet_at [OF k(2), THEN trans]) auto
  have q0: "quiet (bufs w - {p}) w ?w" by (rule quiet_put [OF k(7) _ cap]) simp
  have ok1: "rdp_ok c (add_mset p M) (r, ?w)"
    using k by (intro rdp_okI) (simp_all add: owned_put_packet bound_def)
  have b: "bufs ?w = bufs w" using k(7) by (simp add: bufs_def put_packet_def)
  have fr: "pool_size (nd_pool ?w) = pool_size (nd_pool w)" "pool_free (nd_pool ?w) = pool_free (nd_pool w)"
    by (simp_all add: put_packet_def)
  obtain okk r1 w1 where s: "rdp_keep_syn flags p (r, ?w) = (okk, r1, w1)" by (metis surj_pair)
  note kept = rdp_keep_syn_keeps [OF s ok1 union_single_eq_member, unfolded at fr b]
  have q1: "quiet (bufs w - {p}) w w1" using kept by (intro quiet_trans [OF q0]) auto
  have tx: "flags AND RDP_SYN = 0 \<Longrightarrow> r1 = r" using kept by simp
  show ?thesis
  proof (cases okk)
    case False
    then have e: "r' = r1" "w' = w1" "e = CSP_ERR_NOMEM" using assms(1) s by simp_all
    show ?thesis
      by (rule exI [of _ "{#p#}"]) (use e kept q1 False tx in \<open>auto simp: csp_err_defs\<close>)
  next
    case True
    obtain e2 w2 where t: "rdp_transmit nh nonce (idout w1) (Some p) w1 = Some (e2, w2)"
      using assms(1) s True by (auto split: option.splits)
    have k1: "rdp_ok c (add_mset p M) (r1, w1)" using kept by simp
    note k1' = rdp_okD [OF k1]
    have tk: "node_ok w2 \<and> owned (if e2 = CSP_ERR_NONE then rdp_refs r1 + M else add_mset p (rdp_refs r1 + M)) w2 \<and>
        quiet (- {p}) w1 w2"
      by (rule transmit_keeps [OF t k1'(1)]) (use k1'(2) in simp)
    have q2: "quiet (bufs w - {p}) w w2" using tk by (intro quiet_trans [OF q1]) auto
    have nb: "\<not> bound w2 c" using quiet_bound [OF q2] k(4) by simp
    show ?thesis
    proof (cases "e2 = CSP_ERR_NONE")
      case False
      then have e: "r' = r1" "w' = free_packet (Some p) w2" using assms(1) s True t by simp_all
      have "rdp_ok c M (r1, free_packet (Some p) w2)"
        using tk k1' nb False by (intro rdp_okI owned_free) (simp_all add: bound_def free_packet_def)
      then show ?thesis using e kept q2 tx by (intro exI [of _ "{#}"]) auto
    next
      case ok2: True
      then have e: "w' = w2" "r' = r1 \<or> (\<exists>l t. r' = r1\<lparr>rd_rcv_lsa := l, rd_ack_timestamp := t\<rparr>)"
        using assms(1) s True t by (auto split: if_splits)
      have "rdp_ok c M (r', w2)"
        using e tk k1' nb ok2 by (auto simp: rdp_ok_def rdp_refs_def)
      moreover have "acked_only r r'" using e kept by auto
      ultimately show ?thesis using e kept q2 tx by (intro exI [of _ "{#}"]) auto
    qed
  qed
qed

lemma send_cmp_keeps:
  assumes "csp_rdp_send_cmp nh nonce c packet flags seq ack (r, w) = Some (e, r', w')"
    and "rdp_ok c (given packet + M) (r, w)"
    and "\<And>p. packet = Some p \<Longrightarrow> pkt_length (buf_packet (nd_pool w) p) + 19 \<le> pool_size (nd_pool w)"
  shows "\<exists>L. rdp_ok c (L + M) (r', w') \<and> quiet (bufs w - set_option packet) w w' \<and> acked_only r r' \<and>
    (L \<noteq> {#} \<longrightarrow> copy_fails flags packet w) \<and>
    (flags AND RDP_SYN = 0 \<longrightarrow> rd_tx_queue r' = rd_tx_queue r) \<and> (e = CSP_ERR_NONE \<longrightarrow> L = {#})"
proof (cases packet)
  case (Some p)
  then obtain pk where pk: "csp_rdp_header_add (buf_packet (nd_pool w) p) = Some pk"
    using assms(1) by (auto simp: csp_rdp_send_cmp_def split: option.splits)
  let ?pk = "rdp_header_write (rdp_control_header flags seq ack) pk"
  have l: "pkt_length ?pk = pkt_length (buf_packet (nd_pool w) p) + 5" "pkt_cap ?pk = pkt_cap (buf_packet (nd_pool w) p)"
    using pk by (auto simp: rdp_header_add_eq pkt_length_def sizeof_rdp_header_def rdp_header_write_def split: if_splits)
  show ?thesis
    using send_cmp_tail [OF assms(1) [unfolded csp_rdp_send_cmp_def prod.case Some option.case pk Let_def], of c M]
      assms(2,3) l Some
    by (auto simp: copy_fails_def)
next
  case None
  note k = rdp_okD [OF assms(2)]
  obtain x w1 where g: "rdp_get_buffer 20 w = (x, w1)" by fastforce
  have q: "quiet (bufs w) w w1" by (rule get_buffer_quiet [OF g k(1,2)])
  show ?thesis
  proof (cases rule: rdp_get_buffer_cases [OF g k(1,2)])
    case 1
    then have "r' = r" "w' = w" using assms(1) g None by (simp_all add: csp_rdp_send_cmp_def)
    then show ?thesis using assms(2) None by (intro exI [of _ "{#}"]) simp
  next
    case (2 p)
    obtain pk where pk: "csp_rdp_header_add (buf_packet (nd_pool w1) p) = Some pk"
      using assms(1) None g 2(1) by (auto simp: csp_rdp_send_cmp_def split: option.splits)
    let ?pk = "rdp_header_write (rdp_control_header flags seq ack) pk"
    have l: "pkt_length ?pk = 5" "pkt_cap ?pk = pkt_cap (buf_packet (nd_pool w1) p)"
      using pk 2(8) by (auto simp: rdp_header_add_eq pkt_length_def sizeof_rdp_header_def rdp_header_write_def split: if_splits)
    have ok1: "rdp_ok c (add_mset p M) (r, w1)"
      using 2 k None quiet_bound [OF q] by (intro rdp_okI) simp_all
    obtain L where L: "rdp_ok c (L + M) (r', w')" "quiet (bufs w1 - {p}) w1 w'" "acked_only r r'"
      "L \<noteq> {#} \<longrightarrow> flags AND RDP_SYN \<noteq> 0 \<and> (pool_size (nd_pool w1) < pkt_length ?pk + 14 \<or> pool_free (nd_pool w1) = [])"
      "flags AND RDP_SYN = 0 \<longrightarrow> rd_tx_queue r' = rd_tx_queue r" "e = CSP_ERR_NONE \<longrightarrow> L = {#}"
      using send_cmp_tail [OF assms(1) [unfolded csp_rdp_send_cmp_def prod.case None option.case g 2(1) pk Let_def] ok1] l(2)
      by auto
    have "quiet (bufs w) w w'" using L(2) 2 by (intro quiet_trans [OF q]) auto
    moreover have "L \<noteq> {#} \<longrightarrow> copy_fails flags packet w" using L(4) l(1) 2 None by (auto simp: copy_fails_def)
    ultimately show ?thesis using L None by (intro exI [of _ L]) simp
  qed
qed

end

lemma rdp_flag_facts [simp]:
  "RDP_ACK AND RDP_SYN = 0" "RDP_RST AND RDP_SYN = 0" "(RDP_ACK OR RDP_RST) AND RDP_SYN = 0"
  "(RDP_ACK OR RDP_EAK) AND RDP_SYN = 0" "RDP_SYN AND RDP_SYN \<noteq> 0" "(RDP_ACK OR RDP_SYN) AND RDP_SYN \<noteq> 0"
  by (simp_all add: RDP_ACK_def RDP_RST_def RDP_SYN_def RDP_EAK_def)

text \<open>Changes of one buffer.\<close>

definition touches :: "nat \<Rightarrow> csp_node \<Rightarrow> csp_node \<Rightarrow> bool" where
  "touches e w w' \<longleftrightarrow> (\<exists>pk. w' = put_packet e pk w \<and> pkt_cap pk = pkt_cap (buf_packet (nd_pool w) e))"

lemma put_packet_twice: "put_packet e pk' (put_packet e pk w) = put_packet e pk' w"
  by (cases "e < length (pool_bufs (nd_pool w))") (simp_all add: put_packet_def set_packet_def list_update_beyond)

lemma touches_facts:
  assumes "touches e w w'" "pool_ok (nd_pool w)"
  shows "node_ok w' = node_ok w" "owned M w \<Longrightarrow> owned M w'" "quiet (- {e}) w w'" "bufs w' = bufs w"
    "pool_size (nd_pool w') = pool_size (nd_pool w)" "pool_free (nd_pool w') = pool_free (nd_pool w)"
    "pool_ok (nd_pool w')" "nd_conns w' = nd_conns w" "nd_ports w' = nd_ports w"
proof -
  obtain pk where w': "w' = put_packet e pk w" "pkt_cap pk = pkt_cap (buf_packet (nd_pool w) e)"
    using assms(1) by (auto simp: touches_def)
  show "owned M w \<Longrightarrow> owned M w'" by (simp add: w' owned_put_packet)
  show "node_ok w' = node_ok w" "bufs w' = bufs w" "pool_ok (nd_pool w')"
    "pool_size (nd_pool w') = pool_size (nd_pool w)" "pool_free (nd_pool w') = pool_free (nd_pool w)"
    "nd_conns w' = nd_conns w" "nd_ports w' = nd_ports w"
    using assms(2) by (simp_all add: w' owned_put_packet bufs_def put_packet_def)
  show "quiet (- {e}) w w'" unfolding w'(1) by (rule quiet_put [OF assms(2) _ w'(2)]) simp
qed

lemma touches_trans: "touches e (put_packet e pk w) w' \<Longrightarrow> pool_ok (nd_pool w) \<Longrightarrow>
    pkt_cap pk = pkt_cap (buf_packet (nd_pool w) e) \<Longrightarrow> touches e w w'"
  by (auto simp: touches_def put_packet_twice) (auto simp: put_packet_def buf_packet_set_packet split: if_splits)

lemma touches_refl: "pool_ok (nd_pool w) \<Longrightarrow> touches e w w"
proof -
  assume "pool_ok (nd_pool w)"
  then have "w = put_packet e (buf_packet (nd_pool w) e) w" by (simp add: put_packet_def)
  then show ?thesis unfolding touches_def by blast
qed

lemma eack_loop_touches:
  assumes "rdp_eack_loop n e (r, w) = Some (r', w')" "length (rd_rx_queue r) \<le> CSP_RDP_MAX_WINDOW * 2"
    "n \<le> length (rd_rx_queue r)" "pool_ok (nd_pool w)" "e < pool_count (nd_pool w)"
  shows "r' = r\<lparr>rd_rx_queue := drop n (rd_rx_queue r) @ take n (rd_rx_queue r)\<rparr> \<and> touches e w w' \<and>
    pkt_length (buf_packet (nd_pool w') e) = pkt_length (buf_packet (nd_pool w) e) + 2 * n"
  using assms
proof (induction n arbitrary: r w)
  case 0
  then show ?case by (simp add: touches_refl)
next
  case (Suc n)
  then obtain p q where q: "rd_rx_queue r = p # q" by (cases "rd_rx_queue r") auto
  obtain h pk where h: "csp_rdp_header_ref (buf_packet (nd_pool w) p) = Some h"
    "pkt_append (le16 (csp_hton16 (rh_seq_nr h))) (buf_packet (nd_pool w) e) = Some pk"
    "rdp_eack_loop n e (r\<lparr>rd_rx_queue := q @ [p]\<rparr>, put_packet e pk w) = Some (r', w')"
    using Suc.prems(1,2) q by (auto simp: rx_enqueue_def CSP_RDP_MAX_WINDOW_def split: option.splits)
  have pk: "pkt_length pk = pkt_length (buf_packet (nd_pool w) e) + 2" "pkt_cap pk = pkt_cap (buf_packet (nd_pool w) e)"
    using h(2) by (auto simp: pkt_append_def pkt_length_def split: if_splits)
  have at: "buf_packet (nd_pool (put_packet e pk w)) e = pk"
    using Suc.prems(4,5) by (simp add: put_packet_def buf_packet_set_packet)
  note IH = Suc.IH [OF h(3)]
  have c: "length (rd_rx_queue (r\<lparr>rd_rx_queue := q @ [p]\<rparr>)) \<le> CSP_RDP_MAX_WINDOW * 2"
    "n \<le> length (rd_rx_queue (r\<lparr>rd_rx_queue := q @ [p]\<rparr>))" "pool_ok (nd_pool (put_packet e pk w))"
    "e < pool_count (nd_pool (put_packet e pk w))"
    using Suc.prems(2-5) q by (simp_all add: put_packet_def)
  show ?case
    using IH [OF c] at q pk touches_trans [of e pk w w'] Suc.prems(3,4) by simp
qed

context csp_link begin

lemma send_eack_keeps:
  assumes "csp_rdp_send_eack nh nonce c (r, w) = Some (e, r', w')" "rdp_ok c M (r, w)"
  shows "rdp_ok c M (r', w') \<and> quiet (bufs w) w w' \<and> acked_only r r' \<and> rd_tx_queue r' = rd_tx_queue r"
proof -
  note k = rdp_okD [OF assms(2)]
  obtain x w1 where g: "rdp_get_buffer 100 w = (x, w1)" by fastforce
  have q: "quiet (bufs w) w w1" by (rule get_buffer_quiet [OF g k(1,2)])
  show ?thesis
  proof (cases rule: rdp_get_buffer_cases [OF g k(1,2)])
    case 1
    then show ?thesis using assms g by (simp add: csp_rdp_send_eack_def)
  next
    case (2 p)
    obtain r2 w2 where l: "rdp_eack_loop (length (rd_rx_queue r)) p (r, w1) = Some (r2, w2)"
      and s: "csp_rdp_send_cmp nh nonce c (Some p) (RDP_ACK OR RDP_EAK) (rd_snd_nxt r2) (rd_rcv_cur r2) (r2, w2) =
        Some (e, r', w')"
      using assms(1) g 2(1) by (auto simp: csp_rdp_send_eack_def split: option.splits)
    have p: "p < pool_count (nd_pool w1)" by (rule owned_count [OF 2(5)]) simp
    note ok1 = owned_pool [OF 2(5)]
    have t: "r2 = r" "touches p w1 w2" "pkt_length (buf_packet (nd_pool w2) p) = 2 * length (rd_rx_queue r)"
      using eack_loop_touches [OF l k(6) order.refl ok1 p] 2(8) by (simp_all add: pkt_length_def)
    note f = touches_facts [OF t(2) ok1]
    have ok2: "rdp_ok c (given (Some p) + M) (r2, w2)"
      using 2 k f t(1) quiet_bound [OF q] quiet_bound [OF f(3)] by (intro rdp_okI) simp_all
    have len: "pkt_length (buf_packet (nd_pool w2) p) + 19 \<le> pool_size (nd_pool w2)"
      using t(3) k(6) 2 f by (simp add: CSP_RDP_MAX_WINDOW_def)
    obtain L where L: "rdp_ok c (L + M) (r', w')" "quiet (bufs w2 - {p}) w2 w'" "acked_only r2 r'"
      "L \<noteq> {#} \<longrightarrow> copy_fails (RDP_ACK OR RDP_EAK) (Some p) w2" "rd_tx_queue r' = rd_tx_queue r2"
      using send_cmp_keeps [OF s ok2] len by auto
    have "L = {#}" using L(4) by (auto simp: copy_fails_def)
    moreover have "quiet (bufs w) w w2" by (rule quiet_trans [OF q f(3)]) (use 2 in auto)
    then have "quiet (bufs w) w w'" by (rule quiet_trans [OF _ L(2)]) (use 2 f in auto)
    ultimately show ?thesis using L t(1) by simp
  qed
qed

end

section \<open>Delivering data\<close>

text \<open>What a delivery does to the node: at most the connection loses its socket, and the packet is put
  at the end of its queue.\<close>

definition delivered :: "nat \<Rightarrow> nat \<Rightarrow> bool \<Rightarrow> csp_node \<Rightarrow> csp_node \<Rightarrow> bool" where
  "delivered c p done w w' \<longleftrightarrow>
     cn_rx_queue (nd_conns w' ! c) = cn_rx_queue (nd_conns w ! c) @ (if done then [Some p] else []) \<and>
     cn_idout (nd_conns w' ! c) = cn_idout (nd_conns w ! c) \<and> cn_open (nd_conns w' ! c) = cn_open (nd_conns w ! c) \<and>
     (cn_socket (nd_conns w ! c) = None \<longrightarrow> cn_socket (nd_conns w' ! c) = None) \<and>
     (done \<longrightarrow> cn_socket (nd_conns w' ! c) = None) \<and>
     nd_ports w' = nd_ports w \<and> nd_now w' = nd_now w \<and> bufs w' = bufs w \<and>
     pool_free (nd_pool w') = pool_free (nd_pool w) \<and> pool_size (nd_pool w') = pool_size (nd_pool w) \<and>
     same_packets (- {p}) w w' \<and> (\<forall>n. roomy n w \<longrightarrow> roomy n w') \<and>
     (done \<longrightarrow> pkt_data (buf_packet (nd_pool w') p) = rdp_payload (buf_packet (nd_pool w) p))"

lemma node_ok_take_socket:
  assumes "node_ok w" "c < CSP_CONN_MAX" "\<not> bound w c"
  shows "node_ok (set_conn c ((nd_conns w ! c)\<lparr>cn_socket := None\<rparr>) w)"
proof (rule node_ok_set_conn [OF assms(1,2)])
  show "cn_idin ((nd_conns w ! c)\<lparr>cn_socket := None\<rparr>) AND CSP_ID_CONN_MASK \<noteq> cn_idin (nd_conns w ! j) AND CSP_ID_CONN_MASK"
    if "j < CSP_CONN_MAX" "j \<noteq> c" "open_client ((nd_conns w ! c)\<lparr>cn_socket := None\<rparr>)" "open_client (nd_conns w ! j)" for j
    using that assms by (auto simp: node_ok_def end_points_distinct_def open_client_def)
qed (use assms(3) in simp_all)

lemma pkt_length_remove: "csp_rdp_header_remove pk = Some pk' \<Longrightarrow> pk' = pk\<lparr>pkt_data := rdp_payload pk\<rparr>"
  by (auto simp: csp_rdp_header_remove_def rdp_payload_def split: if_splits)

lemma take_socket_keeps:
  assumes "(case cn_socket (nd_conns w ! c) of
              None \<Rightarrow> (True, w)
            | Some q \<Rightarrow>
                (case sock_enqueue q (ItemConn c) w of
                   (False, w) \<Rightarrow> (False, w)
                 | (True, w) \<Rightarrow> (True, set_conn c ((nd_conns w ! c)\<lparr>cn_socket := None\<rparr>) w))) = (ok, w')"
    and "node_ok w" "owned M w" "c < CSP_CONN_MAX" "\<not> bound w c"
  shows "node_ok w' \<and> owned M w' \<and> nd_ports w' = nd_ports w \<and> nd_now w' = nd_now w \<and> nd_pool w' = nd_pool w \<and>
    nd_conns w' = (if ok then (nd_conns w)[c := (nd_conns w ! c)\<lparr>cn_socket := None\<rparr>] else nd_conns w)"
proof (cases "cn_socket (nd_conns w ! c)")
  case None
  then have "(nd_conns w ! c)\<lparr>cn_socket := None\<rparr> = nd_conns w ! c" by simp
  then have "(nd_conns w)[c := (nd_conns w ! c)\<lparr>cn_socket := None\<rparr>] = nd_conns w" by simp
  then show ?thesis using assms None by simp
next
  case (Some q)
  obtain k w1 where s: "sock_enqueue q (ItemConn c) w = (k, w1)" by fastforce
  have w1: "node_ok w1 \<and> owned M w1 \<and> nd_conns w1 = nd_conns w \<and> nd_ports w1 = nd_ports w"
    using sock_enqueue_keeps [OF s assms(2), of M] assms(3) conn_socket_valid [OF assms(2,4) Some] by (simp split: if_splits)
  have p: "nd_pool w1 = nd_pool w \<and> nd_now w1 = nd_now w" using s by (auto simp: sock_enqueue_def Let_def split: if_splits)
  show ?thesis
  proof (cases k)
    case False
    then show ?thesis using assms(1) Some s w1 p by simp
  next
    case True
    then have e: "ok" "w' = set_conn c ((nd_conns w1 ! c)\<lparr>cn_socket := None\<rparr>) w1" using assms(1) Some s by simp_all
    have "node_ok w'" unfolding e(2) using w1 assms(4,5) by (intro node_ok_take_socket) (simp_all add: bound_def)
    moreover have "owned M w'" unfolding e(2)
      using w1 assms(4) by (intro owned_set_conn) (auto simp: node_ok_def rx_refs_def)
    ultimately show ?thesis using e w1 p by simp
  qed
qed

lemma receive_data_keeps:
  assumes "csp_rdp_receive_data c p w = Some (e, w')" "rdp_ok c (add_mset p M) (r, w)"
  shows "rdp_ok c (if e = CSP_ERR_NONE then M else add_mset p M) (r, w') \<and> delivered c p (e = CSP_ERR_NONE) w w' \<and>
    (e \<noteq> CSP_ERR_NONE \<longrightarrow> cn_socket (nd_conns w ! c) \<noteq> None \<or> CSP_RX_QUEUE_LENGTH \<le> length (cn_rx_queue (nd_conns w ! c)))"
proof -
  note k = rdp_okD [OF assms(2)]
  obtain ok w1 where t: "(case cn_socket (nd_conns w ! c) of
              None \<Rightarrow> (True, w)
            | Some q \<Rightarrow>
                (case sock_enqueue q (ItemConn c) w of
                   (False, w) \<Rightarrow> (False, w)
                 | (True, w) \<Rightarrow> (True, set_conn c ((nd_conns w ! c)\<lparr>cn_socket := None\<rparr>) w))) = (ok, w1)"
    by fastforce
  note w1 = take_socket_keeps [OF t k(1,2,3,4)]
  have b1: "\<not> bound w1 c" using w1 k(4) by (simp add: bound_def)
  have r1: "(\<forall>n. roomy n w \<longrightarrow> roomy n w1) \<and> bufs w1 = bufs w" using w1 by (simp add: roomy_def bufs_def)
  show ?thesis
  proof (cases ok)
    case False
    then have e: "e = CSP_ERR_NOBUFS" "w' = w1" using assms(1) t by (simp_all add: csp_rdp_receive_data_def)
    have "cn_socket (nd_conns w ! c) \<noteq> None" using t False by (auto split: option.splits)
    then show ?thesis
      using e w1 b1 r1 k False by (auto simp: rdp_ok_def delivered_def rdp_err_defs same_packets_def)
  next
    case True
    then obtain pk where pk: "csp_rdp_header_remove (buf_packet (nd_pool w1) p) = Some pk"
      using assms(1) t by (auto simp: csp_rdp_receive_data_def split: option.splits prod.splits)
    then have pke: "pk = (buf_packet (nd_pool w) p)\<lparr>pkt_data := rdp_payload (buf_packet (nd_pool w) p)\<rparr>"
      using w1 by (simp add: pkt_length_remove)
    define w2 where "w2 = put_packet p pk w1"
    have w2: "node_ok w2" "owned (add_mset p (rdp_refs r + M)) w2" "\<not> bound w2 c" "c < length (nd_conns w2)"
      using w1 b1 k by (simp_all add: w2_def owned_put_packet bound_def)
    have f2: "nd_conns w2 = nd_conns w1" "nd_ports w2 = nd_ports w" "nd_now w2 = nd_now w" "bufs w2 = bufs w"
      "pool_free (nd_pool w2) = pool_free (nd_pool w)" "pool_size (nd_pool w2) = pool_size (nd_pool w)"
      "same_packets (- {p}) w w2" "buf_packet (nd_pool w2) p = pk" "\<forall>n. roomy n w \<longrightarrow> roomy n w2"
      using w1 k(7) owned_count [OF k(2), of p] pke
      by (auto simp: w2_def put_packet_def bufs_def same_packets_def buf_packet_set_packet roomy_def)
    obtain e2 where en: "csp_conn_enqueue_packet (Some c) (Some p) w2 = (e2, w')"
      "e = (if e2 < 0 then CSP_ERR_NOBUFS else CSP_ERR_NONE)"
      using assms(1) t True pk by (auto simp: csp_rdp_receive_data_def w2_def split: prod.splits if_splits)
    have e2: "e2 = CSP_ERR_NONE \<or> e2 = CSP_ERR_NOMEM"
      using en(1) by (auto simp: csp_conn_enqueue_packet_def Let_def split: if_splits)
    have o: "owned (if e2 = CSP_ERR_NONE then rdp_refs r + M else add_mset p (rdp_refs r + M)) w'"
      by (rule csp_conn_enqueue_owned [OF w2(2,4) en(1)])
    have n: "node_ok w'" using csp_conn_enqueue_ok [OF w2(1) k(3), of "Some p"] en(1) by simp
    have b: "\<not> bound w' c" using csp_conn_enqueue_frame [OF en(1) w2(4)] w2(3) by (simp add: bound_def)
    have "rdp_ok c (if e = CSP_ERR_NONE then M else add_mset p M) (r, w')"
      using o n b k(3,5,6) e2 en(2) by (auto simp: rdp_ok_def rdp_err_defs)
    moreover have "delivered c p (e = CSP_ERR_NONE) w w' \<and> (e \<noteq> CSP_ERR_NONE \<longrightarrow> CSP_RX_QUEUE_LENGTH \<le> length (cn_rx_queue (nd_conns w ! c)))"
      using en w1 f2 True k(8) pke
      by (auto simp: csp_conn_enqueue_packet_def Let_def delivered_def rdp_err_defs bufs_def same_packets_def roomy_def
          split: if_splits)
    ultimately show ?thesis by blast
  qed
qed

section \<open>The receive queue\<close>

lemma rx_scan_mset:
  "rdp_rx_scan n seq pool q = Some (f, q') \<Longrightarrow> mset q = given f + mset q'"
  by (induction n seq pool q rule: rdp_rx_scan.induct) (auto split: option.splits if_splits)

lemma seq_search_mset: "rdp_seq_search n seq pool q = Some (b, q') \<Longrightarrow> mset q' = mset q"
  by (induction n seq pool q rule: rdp_seq_search.induct) (auto split: option.splits if_splits)

lemma rdp_ok_rx_queue:
  assumes "rdp_ok c M (r, w)" "mset (rd_rx_queue r) + M = mset q + M'" "length q \<le> CSP_RDP_MAX_WINDOW * 2"
  shows "rdp_ok c M' (r\<lparr>rd_rx_queue := q\<rparr>, w)"
  using assms by (simp add: rdp_ok_def rdp_refs_def) (metis add.assoc)

text \<open>A packet of the queue that can not be delivered is lost: only when the connection's queue has no
  room for all of them, or its socket's none for the connection.\<close>

lemma flush_keeps:
  assumes "csp_rdp_rx_queue_flush c (r, w) = Some (r', w')" "rdp_ok c M (r, w)"
  shows "\<exists>L. rdp_ok c (L + M) (r', w') \<and>
    (L \<noteq> {#} \<longrightarrow> cn_socket (nd_conns w ! c) \<noteq> None \<or>
       CSP_RX_QUEUE_LENGTH < length (cn_rx_queue (nd_conns w ! c)) + length (rd_rx_queue r))"
  using assms
proof (induction c "(r, w)" arbitrary: r w M rule: csp_rdp_rx_queue_flush.induct)
  case (1 c r w)
  note k = rdp_okD [OF 1(3)]
  obtain f q where s: "rdp_rx_scan (length (rd_rx_queue r)) (rd_rcv_cur r + 1) (nd_pool w) (rd_rx_queue r) = Some (f, q)"
    using 1(2) by (auto simp: csp_rdp_rx_queue_flush.simps [of c r w] split: option.splits)
  note m = rx_scan_mset [OF s] rdp_rx_scan_length [OF s]
  show ?case
  proof (cases f)
    case None
    then have "r' = r\<lparr>rd_rx_queue := q\<rparr>" "w' = w"
      using 1(2) s by (simp_all add: csp_rdp_rx_queue_flush.simps [of c r w])
    then show ?thesis using rdp_ok_rx_queue [OF 1(3), of q M] m None k(6) by (intro exI [of _ "{#}"]) simp
  next
    case (Some p)
    let ?r = "r\<lparr>rd_rx_queue := q, rd_rcv_cur := rd_rcv_cur r + 1\<rparr>"
    obtain e w1 where rc: "csp_rdp_receive_data c p w = Some (e, w1)"
      and rest: "csp_rdp_rx_queue_flush c (?r, w1) = Some (r', w')"
      using 1(2) s Some by (auto simp: csp_rdp_rx_queue_flush.simps [of c r w] split: option.splits)
    have "rdp_ok c (add_mset p M) (r\<lparr>rd_rx_queue := q\<rparr>, w)"
      by (rule rdp_ok_rx_queue [OF 1(3)]) (use m Some k(6) in auto)
    then have ok1: "rdp_ok c (add_mset p M) (?r, w)" by (simp add: rdp_ok_def rdp_refs_def)
    define M1 where "M1 = (if e = CSP_ERR_NONE then {#} else {#p#})"
    note rk = receive_data_keeps [OF rc ok1]
    then have "rdp_ok c (M1 + M) (?r, w1)" by (auto simp: M1_def split: if_splits)
    from 1(1) [OF s refl Some rc refl rest this] obtain L where L: "rdp_ok c (L + (M1 + M)) (r', w')"
      "L \<noteq> {#} \<longrightarrow> cn_socket (nd_conns w1 ! c) \<noteq> None \<or>
         CSP_RX_QUEUE_LENGTH < length (cn_rx_queue (nd_conns w1 ! c)) + length (rd_rx_queue ?r)"
      by blast
    have len: "length (rd_rx_queue r) = Suc (length q)" using m Some by (metis add_mset_not_empty given_simps(2) mset_eq_length mset_add add.commute union_mset_add_mset_left add_0 mset.simps(2) length_Cons)
    have "L + M1 \<noteq> {#} \<Longrightarrow> cn_socket (nd_conns w ! c) \<noteq> None \<or>
       CSP_RX_QUEUE_LENGTH < length (cn_rx_queue (nd_conns w ! c)) + length (rd_rx_queue r)"
      using L(2) rk len by (auto simp: M1_def delivered_def split: if_splits)
    then show ?thesis using L(1) by (intro exI [of _ "L + M1"]) (simp add: add.assoc)
  qed
qed

lemma rx_queue_add_keeps:
  assumes "csp_rdp_rx_queue_add p seq (r, w) = Some (ok, r', w')" "rdp_ok c (add_mset p M) (r, w)"
  shows "rdp_ok c (if ok then M else add_mset p M) (r', w') \<and> w' = w \<and>
    (\<exists>q. r' = r\<lparr>rd_rx_queue := q\<rparr> \<and> mset q = (if ok then {#p#} else {#}) + mset (rd_rx_queue r))"
proof -
  note k = rdp_okD [OF assms(2)]
  obtain b q where s: "rdp_seq_search (length (rd_rx_queue r)) seq (nd_pool w) (rd_rx_queue r) = Some (b, q)"
    using assms(1) by (auto simp: csp_rdp_rx_queue_add_def csp_rdp_seq_in_rx_queue_def split: option.splits)
  have m: "mset q = mset (rd_rx_queue r)" by (rule seq_search_mset [OF s])
  then have l: "length q = length (rd_rx_queue r)" by (rule mset_eq_length)
  show ?thesis
  proof (cases "\<not> b \<and> length q < CSP_RDP_MAX_WINDOW * 2")
    case True
    then have e: "ok" "w' = w" "r' = r\<lparr>rd_rx_queue := q @ [p]\<rparr>"
      using assms(1) s by (auto simp: csp_rdp_rx_queue_add_def csp_rdp_seq_in_rx_queue_def rx_enqueue_def)
    then show ?thesis using rdp_ok_rx_queue [OF assms(2), of "q @ [p]" M] m True
      by (intro conjI exI [of _ "q @ [p]"]) simp_all
  next
    case False
    then have e: "\<not> ok" "w' = w" "r' = r\<lparr>rd_rx_queue := q\<rparr>"
      using assms(1) s by (auto simp: csp_rdp_rx_queue_add_def csp_rdp_seq_in_rx_queue_def rx_enqueue_def split: bool.splits if_splits)
    then show ?thesis using rdp_ok_rx_queue [OF assms(2), of q "add_mset p M"] m l k(6)
      by (intro conjI exI [of _ q]) simp_all
  qed
qed

section \<open>The queue of unacknowledged packets\<close>

lemma rdp_ok_tx_queue:
  assumes "rdp_ok c M (r, w)" "mset (rd_tx_queue r) + M = mset q + M'" "length q \<le> CSP_RDP_MAX_WINDOW"
  shows "rdp_ok c M' (r\<lparr>rd_tx_queue := q\<rparr>, w)"
  using assms by (simp add: rdp_ok_def rdp_refs_def) (metis add.assoc add.commute)

lemma rdp_ok_free: "rdp_ok c (add_mset p M) (r, w) \<Longrightarrow> rdp_ok c M (r, free_packet (Some p) w)"
  using owned_free by (auto simp: rdp_ok_def free_packet_def bound_def)

lemma rdp_ok_put: "rdp_ok c M (r, w) \<Longrightarrow> rdp_ok c M (r, put_packet p pk w)"
  by (auto simp: rdp_ok_def owned_put_packet put_packet_def bound_def owned_set_packet)

lemma tx_enqueue_room: "length (rd_tx_queue r) < CSP_RDP_MAX_WINDOW \<Longrightarrow> snd (tx_enqueue p r) = r\<lparr>rd_tx_queue := rd_tx_queue r @ [p]\<rparr>"
  by (simp add: tx_enqueue_def)

lemma flush_eack_loop_keeps:
  "rdp_flush_eack_loop n ns (r, w) = Some (r', w') \<Longrightarrow> rdp_ok c M (r, w) \<Longrightarrow>
     rdp_ok c M (r', w') \<and> nd_conns w' = nd_conns w \<and> r' = r\<lparr>rd_tx_queue := rd_tx_queue r'\<rparr>"
proof (induction n arbitrary: r w)
  case (Suc n)
  show ?case
  proof (cases "rd_tx_queue r")
    case Nil
    then show ?thesis using Suc.prems by simp
  next
    case (Cons p q)
    let ?r = "r\<lparr>rd_tx_queue := q\<rparr>"
    obtain h where h: "csp_rdp_header_ref (buf_packet (nd_pool w) p) = Some h"
      using Suc.prems(1) Cons by (auto split: option.splits)
    obtain match pk where c: "eack_compare (nd_now w) (rd_packet_timeout r) (csp_ntoh16 (rh_seq_nr h)) ns
        (buf_packet (nd_pool w) p) = (match, pk)" by fastforce
    note k = rdp_okD [OF Suc.prems(2)]
    have o: "rdp_ok c (add_mset p M) (?r, put_packet p pk w)"
      by (intro rdp_ok_put rdp_ok_tx_queue [OF Suc.prems(2)]) (use Cons k(5) in auto)
    show ?thesis
    proof (cases match)
      case True
      have "rdp_flush_eack_loop n ns (?r, free_packet (Some p) (put_packet p pk w)) = Some (r', w')"
        using Suc.prems(1) Cons h c True by simp
      from Suc.IH [OF this rdp_ok_free [OF o]] show ?thesis by (simp add: free_packet_def)
    next
      case False
      have e: "snd (tx_enqueue p ?r) = ?r\<lparr>rd_tx_queue := q @ [p]\<rparr>"
        using tx_enqueue_room [of ?r p] k(5) Cons by simp
      then have "rdp_flush_eack_loop n ns (?r\<lparr>rd_tx_queue := q @ [p]\<rparr>, put_packet p pk w) = Some (r', w')"
        using Suc.prems(1) Cons h c False by simp
      from Suc.IH [OF this rdp_ok_tx_queue [OF o, of "q @ [p]" M]] Cons k(5) show ?thesis by simp
    qed
  qed
qed simp

lemma rdp_ok_conn:
  assumes "rdp_ok c M (r, w)" "cn_socket cn = cn_socket (nd_conns w ! c)"
    "cn_open cn = cn_open (nd_conns w ! c)" "cn_type cn = cn_type (nd_conns w ! c)"
    "cn_opts cn = cn_opts (nd_conns w ! c)" "cn_idin cn = cn_idin (nd_conns w ! c)"
    "rx_refs cn + M' = rx_refs (nd_conns w ! c) + M"
  shows "rdp_ok c M' (r, set_conn c cn w)"
proof (rule rdp_okI)
  note k = rdp_okD [OF assms(1)]
  show "node_ok (set_conn c cn w)" by (rule node_ok_set_conn_same [OF k(1,3)]) (simp_all add: assms)
  show "owned (rdp_refs r + M') (set_conn c cn w)"
    by (rule owned_set_conn [OF k(2,8)]) (use assms(7) in \<open>simp add: add.left_commute\<close>)
qed (use rdp_okD [OF assms(1)] in \<open>simp_all add: bound_def\<close>)

lemma rdp_ok_fields [simp]:
  "rdp_ok c M (r\<lparr>rd_state := st\<rparr>, w) = rdp_ok c M (r, w)"
  "rdp_ok c M (r\<lparr>rd_snd_una := n\<rparr>, w) = rdp_ok c M (r, w)"
  "rdp_ok c M (r\<lparr>rd_rcv_cur := n\<rparr>, w) = rdp_ok c M (r, w)"
  "rdp_ok c M (r\<lparr>rd_snd_nxt := n\<rparr>, w) = rdp_ok c M (r, w)"
  "rdp_ok c M (r\<lparr>rd_tx_wait := b\<rparr>, w) = rdp_ok c M (r, w)"
  by (simp_all add: rdp_ok_def rdp_refs_def)

lemma rdp_ok_cong:
  "rdp_ok c M (r, w) \<Longrightarrow> rd_tx_queue r' = rd_tx_queue r \<Longrightarrow> rd_rx_queue r' = rd_rx_queue r \<Longrightarrow> rdp_ok c M (r', w)"
  by (simp add: rdp_ok_def rdp_refs_def)

lemma flush_all_keeps:
  assumes "rdp_ok c M (r, w)"
  shows "rdp_ok c M (csp_rdp_flush_all (r, w))"
proof -
  note k = rdp_okD [OF assms]
  have "owned (mset (List.map_filter (\<lambda>p. p) (map Some (rd_tx_queue r @ rd_rx_queue r))) + M) w"
    using k(2) by (simp add: rdp_refs_def List.map_filter_def comp_def)
  from owned_free_all [OF this] show ?thesis
    using k by (auto simp: rdp_ok_def rdp_refs_def csp_rdp_flush_all_def fold_map comp_def bound_def)
qed

lemma rdp_ok_close:
  assumes "rdp_ok c M (r, w)"
  shows "rdp_ok c M (r, csp_conn_flush_rx_queue c (set_conn c ((nd_conns w ! c)\<lparr>cn_open := False\<rparr>) w))"
proof (cases "cn_open (nd_conns w ! c)")
  case True
  note k = rdp_okD [OF assms]
  have e: "csp_conn_flush_rx_queue c (set_conn c ((nd_conns w ! c)\<lparr>cn_open := False\<rparr>) w) = snd (csp_close (Some c) w)"
    using True by (simp add: csp_close_def)
  have "nd_ports (snd (csp_close (Some c) w)) = nd_ports w"
    by (simp add: csp_close_def csp_conn_flush_eq)
  then show ?thesis
    unfolding e using k csp_close_ok [of w "Some c"] csp_close_owned [of w _ "Some c"]
    by (intro rdp_okI) (simp_all add: bound_def)
next
  case False
  then have "(nd_conns w ! c)\<lparr>cn_open := False\<rparr> = nd_conns w ! c" by simp
  then have "set_conn c ((nd_conns w ! c)\<lparr>cn_open := False\<rparr>) w = w" by simp
  moreover have "nd_ports (csp_conn_flush_rx_queue c w) = nd_ports w" by (simp add: csp_conn_flush_eq)
  ultimately show ?thesis
    using rdp_okD [OF assms] by (intro rdp_okI) (simp_all add: node_ok_flush owned_flush bound_def)
qed

context csp_link begin

text \<open>Messages without the SYN flag.\<close>

lemma send_plain_keeps:
  assumes "csp_rdp_send_cmp nh nonce c None flags seq ack (r, w) = Some (e, r', w')" "rdp_ok c M (r, w)"
    "flags AND RDP_SYN = 0"
  shows "rdp_ok c M (r', w') \<and> quiet (bufs w) w w' \<and> acked_only r r' \<and> rd_tx_queue r' = rd_tx_queue r"
  using send_cmp_keeps [OF assms(1), of M] assms(2,3) by (auto simp: copy_fails_def)

lemma check_ack_keeps:
  assumes "csp_rdp_check_ack nh nonce c (r, w) = Some (e, r', w')" "rdp_ok c M (r, w)"
  shows "rdp_ok c M (r', w') \<and> quiet (bufs w) w w' \<and> acked_only r r' \<and> rd_tx_queue r' = rd_tx_queue r"
  using assms send_plain_keeps [of nonce c RDP_ACK "rd_snd_nxt r" "rd_rcv_cur r" r w _ r' w' M]
  by (auto simp: csp_rdp_check_ack_def Let_def split: if_splits)

lemma rdp_close_keeps:
  assumes "csp_rdp_close nh nonce c (r, w) = Some (e, r', w')" "rdp_ok c M (r, w)"
  shows "rdp_ok c M (r', w')"
proof (cases "rd_state r = RDP_CLOSED \<or> rd_state r = RDP_CLOSE_WAIT")
  case True
  then show ?thesis using assms by (auto simp: csp_rdp_close_def split: if_splits)
next
  case False
  let ?w = "set_conn c ((nd_conns w ! c)\<lparr>cn_timestamp := nd_now w\<rparr>) w" and ?r = "r\<lparr>rd_state := RDP_CLOSE_WAIT\<rparr>"
  have ok: "rdp_ok c M (?r, ?w)" using rdp_ok_conn [OF assms(2)] by (simp add: rx_refs_def)
  obtain e2 where "csp_rdp_send_cmp nh nonce c None (RDP_ACK OR RDP_RST) (rd_snd_nxt ?r) (rd_rcv_cur ?r) (?r, ?w) =
      Some (e2, r', w')"
    using assms(1) False by (auto simp: csp_rdp_close_def Let_def)
  from send_plain_keeps [OF this ok] show ?thesis by simp
qed

lemma close_keeps:
  assumes "csp_close_rdp nh nonce (Some c) (r, w) = Some (e, r', w')" "rdp_ok c M (r, w)"
  shows "rdp_ok c M (r', w')"
proof (cases "cn_open (nd_conns w ! c)")
  case False
  then show ?thesis using assms by (simp add: csp_close_rdp_def)
next
  case True
  obtain e1 r1 w1 where s: "(if has_flag CSP_FRDP (cn_idin (nd_conns w ! c)) \<or> has_flag CSP_FRDP (cn_idout (nd_conns w ! c))
      then csp_rdp_close nh nonce c (r, w) else Some (CSP_ERR_NONE, r, w)) = Some (e1, r1, w1)"
    using assms(1) True by (auto simp: csp_close_rdp_def Let_def split: option.splits)
  have ok1: "rdp_ok c M (r1, w1)" using s rdp_close_keeps assms(2) by (auto split: if_splits)
  show ?thesis
    using assms(1) True s ok1 rdp_ok_close [OF ok1] flush_all_keeps [OF rdp_ok_close [OF ok1]]
    by (auto simp: csp_close_rdp_def Let_def split: if_splits)
qed

lemma retransmit_keeps:
  assumes "rdp_retransmit nh nonce c p h (r, w) = Some w'" "rdp_ok c M (r, w)" "p \<in># rdp_refs r + M"
  shows "rdp_ok c M (r, w') \<and> nd_conns w' = nd_conns w \<and> nd_now w' = nd_now w \<and>
    same_packets (bufs w - {p}) w w'"
proof -
  define w1 where "w1 = put_packet p ((rdp_header_write (h\<lparr>rh_ack_nr := csp_hton16 (rd_rcv_cur r)\<rparr>)
    (buf_packet (nd_pool w) p))\<lparr>pkt_timestamp := nd_now w\<rparr>) w"
  have w1: "rdp_ok c M (r, w1)" "nd_conns w1 = nd_conns w" "nd_now w1 = nd_now w"
    using rdp_ok_put [OF assms(2)] by (simp_all add: w1_def put_packet_def)
  have sp: "same_packets (- {p}) w w1" and b: "bufs w1 = bufs w"
  proof -
    have "owned (rdp_refs r + M) w" by (rule rdp_okD(2) [OF assms(2)])
    then show "same_packets (- {p}) w w1" "bufs w1 = bufs w"
      using owned_pool put_packet_at [OF _ assms(3)]
      by (simp_all add: w1_def same_packets_def) (simp add: bufs_def put_packet_def)
  qed
  note k = rdp_okD [OF w1(1)]
  obtain x pool where cl: "csp_buffer_clone (Some p) (nd_pool w1) = (x, pool)" by fastforce
  have q: "quiet (bufs w1) w1 (w1\<lparr>nd_pool := pool\<rparr>)" by (rule clone_quiet [OF cl k(1,2) assms(3)])
  obtain e w2 where t: "rdp_transmit nh nonce (cn_idout (nd_conns w1 ! c)) x (w1\<lparr>nd_pool := pool\<rparr>) = Some (e, w2)"
    and r: "w' = (if e \<noteq> CSP_ERR_NONE then free_packet x w2 else w2)"
    using assms(1) cl by (auto simp: rdp_retransmit_def w1_def Let_def split: option.splits if_splits)
  show ?thesis
  proof (cases rule: csp_buffer_clone_cases [OF cl k(1,2)])
    case 1
    then have "e = CSP_ERR_TX" "w2 = w1" using t transmit_null [of nonce _ w1 e w2] by simp_all
    moreover have "free_packet None w1 = w1" by (simp add: free_packet_def csp_buffer_free_def)
    ultimately have "w' = w1" using r 1 by (simp add: rdp_err_defs)
    moreover have "same_packets (bufs w - {p}) w w1" by (rule same_packets_mono [OF sp]) auto
    ultimately show ?thesis using w1 by simp
  next
    case (2 x')
    let ?wc = "w1\<lparr>nd_pool := pool\<rparr>"
    have tk: "node_ok w2 \<and> owned (if e = CSP_ERR_NONE then rdp_refs r + M else add_mset x' (rdp_refs r + M)) w2 \<and>
        quiet (- {x'}) ?wc w2"
      by (rule transmit_keeps [OF t [unfolded 2(1)] 2(4,5)])
    have q2: "quiet {} w1 w2" using tk by (intro quiet_trans [OF quiet_mono [OF q]]) auto
    have f: "nd_conns w2 = nd_conns w" "nd_now w2 = nd_now w" "\<not> bound w2 c"
      using q2 w1 k(4) quiet_bound [OF q2] by (simp_all add: quiet_def)
    have "rdp_ok c (if e = CSP_ERR_NONE then M else add_mset x' M) (r, w2)"
      using tk k(3,5,6) f by (intro rdp_okI) (auto split: if_splits)
    then have "rdp_ok c M (r, w')" using r 2(1) rdp_ok_free by (auto split: if_splits)
    moreover have "same_packets (bufs w - {p}) w w2"
    proof (rule same_packets_trans)
      show "same_packets (bufs w - {p}) w w1" by (rule same_packets_mono [OF sp]) auto
      have "same_packets (bufs w1) w1 ?wc" "same_packets (bufs w1) ?wc w2"
        using q tk 2(2) same_packets_mono [of "- {x'}" ?wc w2 "bufs w1"] by (auto simp: quiet_def)
      then show "same_packets (bufs w1) w1 w2" by (auto intro: same_packets_trans)
    qed (simp add: b)
    ultimately show ?thesis using r f by (auto simp: free_packet_def same_packets_def)
  qed
qed

lemma tx_loop_keeps:
  "rdp_tx_loop nh nonces c n (r, w) = Some (r', w') \<Longrightarrow> rdp_ok c M (r, w) \<Longrightarrow>
     rdp_ok c M (r', w') \<and> nd_conns w' = nd_conns w \<and> r' = r\<lparr>rd_tx_queue := rd_tx_queue r'\<rparr>"
proof (induction n arbitrary: r w)
  case (Suc n)
  show ?case
  proof (cases "rd_tx_queue r")
    case Nil
    then show ?thesis using Suc.prems by simp
  next
    case (Cons p q)
    let ?r = "r\<lparr>rd_tx_queue := q\<rparr>"
    note k = rdp_okD [OF Suc.prems(2)]
    obtain h where h: "csp_rdp_header_ref (buf_packet (nd_pool w) p) = Some h"
      using Suc.prems(1) Cons by (cases "csp_rdp_header_ref (buf_packet (nd_pool w) p)") (simp_all add: Let_def)
    have o: "rdp_ok c (add_mset p M) (?r, w)"
      by (rule rdp_ok_tx_queue [OF Suc.prems(2)]) (use Cons k(5) in auto)
    have e: "snd (tx_enqueue p ?r) = ?r\<lparr>rd_tx_queue := q @ [p]\<rparr>"
      using tx_enqueue_room [of ?r p] k(5) Cons by simp
    have requeue: "rdp_ok c (add_mset p M) (?r, w1) \<Longrightarrow> rdp_ok c M (?r\<lparr>rd_tx_queue := q @ [p]\<rparr>, w1)" for w1
      by (erule rdp_ok_tx_queue) (use k(5) Cons in auto)
    consider (free) "rdp_tx_loop nh nonces c n (?r, free_packet (Some p) w) = Some (r', w')"
      | (keep) "rdp_tx_loop nh nonces c n (?r\<lparr>rd_tx_queue := q @ [p]\<rparr>, w) = Some (r', w')"
      | (resend) w1 where "rdp_retransmit nh (nonces n) c p h (?r, w) = Some w1"
          "rdp_tx_loop nh nonces c n (?r\<lparr>rd_tx_queue := q @ [p]\<rparr>, w1) = Some (r', w')"
      using Suc.prems(1) Cons h e by (auto simp: Let_def split: if_splits option.splits)
    then show ?thesis
    proof cases
      case free
      from Suc.IH [OF this rdp_ok_free [OF o]] show ?thesis by (simp add: free_packet_def)
    next
      case keep
      from Suc.IH [OF this requeue [OF o]] show ?thesis by simp
    next
      case resend
      note rt = retransmit_keeps [OF resend(1) o]
      from Suc.IH [OF resend(2) requeue] rt show ?thesis by simp
    qed
  qed
qed simp

lemma check_timeouts_keeps:
  assumes "csp_rdp_check_timeouts nh nonces c (r, w) = Some (r', w')" "rdp_ok c M (r, w)"
  shows "rdp_ok c M (r', w')"
proof -
  let ?nonce = "nonces (length (rd_tx_queue r))"
  consider (close) e where "csp_close_rdp nh ?nonce (Some c) (r, w) = Some (e, r', w')"
    | (wait) "(r', w') = (r, w)"
    | (loop) r1 w1 e r2 where "rdp_tx_loop nh nonces c (length (rd_tx_queue r)) (r, w) = Some (r1, w1)"
        "csp_rdp_check_ack nh ?nonce c (r1, w1) = Some (e, r2, w')" "r' = rdp_wake_sender r2"
    using assms(1) by (auto simp: csp_rdp_check_timeouts_def Let_def split: if_splits option.splits)
  then show ?thesis
  proof cases
    case close
    from close_keeps [OF this assms(2)] show ?thesis .
  next
    case wait
    then show ?thesis using assms(2) by simp
  next
    case loop
    have "rdp_ok c M (r1, w1)" using tx_loop_keeps [OF loop(1) assms(2)] by simp
    with check_ack_keeps [OF loop(2)] have "rdp_ok c M (r2, w')" by blast
    then show ?thesis unfolding loop(3) by (simp add: rdp_wake_sender_def)
  qed
qed

end

section \<open>Arriving packets\<close>

text \<open>Room for what an arriving packet may need: a buffer for the answer and one for its copy, and
  places in the queue of the connection for the packets that become deliverable.\<close>

definition rdp_room :: "nat \<Rightarrow> rdp_node \<Rightarrow> bool" where
  "rdp_room c s \<longleftrightarrow> 2 \<le> length (pool_free (nd_pool (snd s))) \<and>
     length (cn_rx_queue (nd_conns (snd s) ! c)) + length (rd_rx_queue (fst s)) < CSP_RX_QUEUE_LENGTH"

definition held :: "nat \<Rightarrow> rdp_exit \<Rightarrow> nat multiset \<Rightarrow> nat multiset" where
  "held p ex M = (if ex = AcceptedOpen then M else add_mset p M)"

context csp_link begin

text \<open>Messages of any kind, in a new buffer.\<close>

lemma send_any_keeps:
  assumes "csp_rdp_send_cmp nh nonce c None flags seq ack (r, w) = Some (e, r', w')" "rdp_ok c M (r, w)"
  shows "\<exists>L. rdp_ok c (L + M) (r', w') \<and> (L \<noteq> {#} \<longrightarrow> \<not> rdp_room c (r, w))"
  using send_cmp_keeps [OF assms(1), of M] assms(2) by (auto simp: copy_fails_def rdp_room_def)

lemma exit_keeps:
  assumes "rdp_exit_to nh nonce c p ex (r, w) = Some (r', w')" "rdp_ok c (L + held p ex M) (r, w)"
  shows "rdp_ok c (L + M) (r', w')"
proof (cases ex)
  case AcceptedOpen
  then show ?thesis using assms by (simp add: rdp_exit_to_def held_def)
next
  case DiscardOpen
  then show ?thesis using assms rdp_ok_free [of c p "L + M"] by (auto simp: rdp_exit_to_def held_def)
next
  case FreeAndClose
  then obtain e where e: "csp_close_rdp nh nonce (Some c) (r, free_packet (Some p) w) = Some (e, r', w')"
    using assms(1) by (auto simp: rdp_exit_to_def)
  have "rdp_ok c (L + M) (r, free_packet (Some p) w)"
    using rdp_ok_free [of c p "L + M"] assms(2) FreeAndClose by (simp add: held_def)
  from close_keeps [OF e this] show ?thesis .
next
  case DiscardClose
  have ok: "rdp_ok c (add_mset p (L + M)) (r, w)" using assms(2) DiscardClose by (simp add: held_def)
  show ?thesis
  proof (cases "cn_socket (nd_conns w ! c)")
    case None
    have "rdp_ok c (add_mset p (L + M)) (r, snd (csp_conn_enqueue_packet (Some c) None w))"
      using ok rdp_ok_conn [OF ok, of "(nd_conns w ! c)\<lparr>cn_rx_queue := cn_rx_queue (nd_conns w ! c) @ [None]\<rparr>"]
      by (simp add: csp_conn_enqueue_packet_def Let_def rx_refs_def map_filter_append map_filter_simps)
    from rdp_ok_free [OF this] show ?thesis
      using assms(1) DiscardClose None by (simp add: rdp_exit_to_def)
  next
    case (Some q)
    then obtain e w1 where e: "csp_close_rdp nh nonce (Some c) (r, w) = Some (e, r', w1)" "w' = free_packet (Some p) w1"
      using assms(1) DiscardClose by (auto simp: rdp_exit_to_def)
    from rdp_ok_free [OF close_keeps [OF e(1) ok]] e(2) show ?thesis by simp
  qed
qed

lemma rst_keeps:
  assumes "rdp_rst_received nh nonce c h (r, w) = Some (ex, r', w')" "rdp_ok c (add_mset p M) (r, w)"
  shows "rdp_ok c (held p ex M) (r', w')"
proof -
  define r0 where "r0 = (if rh_ack h then r\<lparr>rd_snd_una := rh_ack_nr h + 1\<rparr> else r)"
  have ok0: "rdp_ok c (add_mset p M) (r0, w)" using assms(2) by (simp add: r0_def)
  let ?w = "set_conn c ((nd_conns w ! c)\<lparr>cn_timestamp := nd_now w\<rparr>) w" and ?r = "r0\<lparr>rd_state := RDP_CLOSE_WAIT\<rparr>"
  have ok1: "rdp_ok c (add_mset p M) (?r, ?w)" using rdp_ok_conn [OF ok0] by (simp add: rx_refs_def)
  consider (simple) "r' = r0" "w' = w" "ex \<noteq> AcceptedOpen"
    | (reply) e where "csp_rdp_send_cmp nh nonce c None (RDP_ACK OR RDP_RST) (rd_snd_nxt ?r) (rd_rcv_cur ?r) (?r, ?w) =
        Some (e, r', w')" "ex = DiscardClose"
    using assms(1) by (auto simp: rdp_rst_received_def r0_def Let_def split: if_splits)
  then show ?thesis
  proof cases
    case simple
    then show ?thesis using ok0 by (simp add: held_def)
  next
    case reply
    from send_plain_keeps [OF reply(1) ok1] reply(2) show ?thesis by (simp add: held_def)
  qed
qed

lemma closed_keeps:
  assumes "rdp_in_closed nh nonce iss c p h (r, w) = Some (ex, r', w')" "rdp_ok c (add_mset p M) (r, w)"
  shows "\<exists>L. rdp_ok c (L + held p ex M) (r', w') \<and> (L \<noteq> {#} \<longrightarrow> \<not> rdp_room c (r, w))"
proof -
  obtain r1 flags seq ack e where s: "csp_rdp_send_cmp nh nonce c None flags seq ack (r1, w) = Some (e, r', w')"
    and r1: "rd_tx_queue r1 = rd_tx_queue r" "rd_rx_queue r1 = rd_rx_queue r" "ex \<noteq> AcceptedOpen"
    using assms(1) by (auto simp: rdp_in_closed_def Let_def split: if_splits)
  have "rdp_ok c (add_mset p M) (r1, w)" by (rule rdp_ok_cong [OF assms(2) r1(1,2)])
  from send_any_keeps [OF s this] r1 show ?thesis by (auto simp: held_def rdp_room_def)
qed

lemma syn_sent_keeps:
  assumes "rdp_in_syn_sent nh nonce c h (r, w) = Some (ex, r', w')" "rdp_ok c (add_mset p M) (r, w)"
  shows "rdp_ok c (held p ex M) (r', w')"
proof -
  consider (stay) "rd_tx_queue r' = rd_tx_queue r" "rd_rx_queue r' = rd_rx_queue r" "w' = w" "ex \<noteq> AcceptedOpen"
    | (send) r1 r2 flags seq ack e where "csp_rdp_send_cmp nh nonce c None flags seq ack (r1, w) = Some (e, r2, w')"
        "flags AND RDP_SYN = 0" "r' = r2\<lparr>rd_tx_wait := True\<rparr>" "ex \<noteq> AcceptedOpen"
        "rd_tx_queue r1 = rd_tx_queue r" "rd_rx_queue r1 = rd_rx_queue r"
    using assms(1) by (auto simp: rdp_in_syn_sent_def Let_def split: if_splits)
  then show ?thesis
  proof cases
    case stay
    then show ?thesis using rdp_ok_cong [OF assms(2), of r'] by (simp add: held_def)
  next
    case send
    have "rdp_ok c (add_mset p M) (r1, w)" by (rule rdp_ok_cong [OF assms(2) send(5,6)])
    from send_plain_keeps [OF send(1) this send(2)] send(3,4) show ?thesis by (simp add: held_def)
  qed
qed

lemma in_sequence_keeps:
  assumes "rdp_in_sequence nh nonce c p seq (r, w) = Some (ex, r', w')" "rdp_ok c (add_mset p M) (r, w)"
  shows "\<exists>L. rdp_ok c (L + held p ex M) (r', w') \<and> (L \<noteq> {#} \<longrightarrow> \<not> rdp_room c (r, w))"
proof -
  obtain e w1 where rc: "csp_rdp_receive_data c p w = Some (e, w1)"
    using assms(1) by (auto simp: rdp_in_sequence_def split: option.splits)
  note rk = receive_data_keeps [OF rc assms(2)]
  show ?thesis
  proof (cases "e = CSP_ERR_NONE")
    case False
    then have "ex = DiscardOpen" "r' = r" "w' = w1" using assms(1) rc by (simp_all add: rdp_in_sequence_def)
    then show ?thesis using rk False by (intro exI [of _ "{#}"]) (simp add: held_def)
  next
    case True
    let ?r = "r\<lparr>rd_rcv_cur := seq\<rparr>"
    obtain e2 r2 w2 where s: "(if of_nat (length (cn_rx_queue (nd_conns w1 ! c))) + rd_window_size ?r \<le> of_nat CSP_RX_QUEUE_LENGTH \<and>
         csp_rdp_should_ack (?r, w1)
       then csp_rdp_send_cmp nh nonce c None RDP_ACK (rd_snd_nxt ?r) (rd_rcv_cur ?r) (?r, w1)
       else Some (CSP_ERR_NONE, ?r, w1)) = Some (e2, r2, w2)"
      and fl: "csp_rdp_rx_queue_flush c (r2, w2) = Some (r', w')" and ex: "ex = AcceptedOpen"
      using assms(1) rc True by (auto simp: rdp_in_sequence_def Let_def split: option.splits if_splits)
    have ok1: "rdp_ok c M (?r, w1)" using rk True by simp
    have k2: "rdp_ok c M (r2, w2) \<and> quiet (bufs w1) w1 w2 \<and> acked_only ?r r2"
      using s ok1 send_plain_keeps [OF _ ok1] by (auto split: if_splits)
    obtain L where L: "rdp_ok c (L + M) (r', w')" "L \<noteq> {#} \<longrightarrow> cn_socket (nd_conns w2 ! c) \<noteq> None \<or>
        CSP_RX_QUEUE_LENGTH < length (cn_rx_queue (nd_conns w2 ! c)) + length (rd_rx_queue r2)"
      using flush_keeps [OF fl] k2 by blast
    have "L \<noteq> {#} \<longrightarrow> \<not> rdp_room c (r, w)"
      using L(2) k2 rk True acked_only_fields(6) [of ?r r2] by (auto simp: quiet_def delivered_def rdp_room_def)
    then show ?thesis using L(1) ex by (intro exI [of _ L]) (simp add: held_def)
  qed
qed

lemma out_of_sequence_keeps:
  assumes "rdp_out_of_sequence nh nonce c p seq (r, w) = Some (ex, r', w')" "rdp_ok c (add_mset p M) (r, w)"
  shows "rdp_ok c (held p ex M) (r', w')"
proof -
  obtain ok r1 w1 where a: "csp_rdp_rx_queue_add p seq (r, w) = Some (ok, r1, w1)"
    using assms(1) by (auto simp: rdp_out_of_sequence_def split: option.splits)
  note ak = rx_queue_add_keeps [OF a assms(2)]
  show ?thesis
  proof (cases ok)
    case False
    then show ?thesis using assms(1) a ak by (auto simp: rdp_out_of_sequence_def held_def)
  next
    case True
    then obtain e where e: "csp_rdp_send_eack nh nonce c (r1, w1) = Some (e, r', w')" "ex = AcceptedOpen"
      using assms(1) a by (auto simp: rdp_out_of_sequence_def)
    have "rdp_ok c M (r1, w1)" using ak True by auto
    from send_eack_keeps [OF e(1) this] e(2) show ?thesis by (simp add: held_def)
  qed
qed

lemma acked_packet_keeps:
  assumes "rdp_acked_packet nh nonce c p h (r, w) = Some (ex, r', w')" "rdp_ok c (add_mset p M) (r, w)"
  shows "\<exists>L. rdp_ok c (L + held p ex M) (r', w') \<and> (L \<noteq> {#} \<longrightarrow> \<not> rdp_room c (r, w))"
proof -
  let ?r = "r\<lparr>rd_snd_una := rh_ack_nr h + 1\<rparr>"
  have ok: "rdp_ok c (add_mset p M) (?r, w)" using assms(2) by simp
  have room: "rdp_room c (?r, w) = rdp_room c (r, w)" by (simp add: rdp_room_def)
  let ?len = "pkt_length (buf_packet (nd_pool w) p)"
  have e: "rdp_acked_packet nh nonce c p h (r, w) =
    (if rh_eak h
     then if ?len > sizeof_rdp_header then map_option (\<lambda>s. (DiscardOpen, s)) (csp_rdp_flush_eack p (?r, w))
          else Some (DiscardOpen, ?r, w)
     else if ?len \<le> sizeof_rdp_header then Some (DiscardOpen, ?r, w)
     else if rh_seq_nr h \<noteq> rd_rcv_cur r + 1 then rdp_out_of_sequence nh nonce c p (rh_seq_nr h) (?r, w)
     else rdp_in_sequence nh nonce c p (rh_seq_nr h) (?r, w))"
    by (simp add: rdp_acked_packet_def Let_def)
  have same: ?thesis if "Some (DiscardOpen, ?r, w) = Some (ex, r', w')"
    using that ok by (intro exI [of _ "{#}"]) (auto simp: held_def)
  show ?thesis
  proof (cases "rh_eak h")
    case eak: True
    show ?thesis
    proof (cases "?len > sizeof_rdp_header")
      case True
      then have f: "csp_rdp_flush_eack p (?r, w) = Some (r', w')" "ex = DiscardOpen"
        using assms(1) [unfolded e] eak by auto
      show ?thesis
        using flush_eack_loop_keeps [OF f(1) [unfolded csp_rdp_flush_eack_def prod.case] ok] f(2)
        by (intro exI [of _ "{#}"]) (simp add: held_def)
    qed (use assms(1) [unfolded e] eak in \<open>intro same, simp\<close>)
  next
    case False
    consider "?len \<le> sizeof_rdp_header" | (out) "?len > sizeof_rdp_header" "rh_seq_nr h \<noteq> rd_rcv_cur r + 1"
      | (seq) "?len > sizeof_rdp_header" "rh_seq_nr h = rd_rcv_cur r + 1" by linarith
    then show ?thesis
    proof cases
      case out
      then have "rdp_out_of_sequence nh nonce c p (rh_seq_nr h) (?r, w) = Some (ex, r', w')"
        using assms(1) [unfolded e] False by simp
      from out_of_sequence_keeps [OF this ok] show ?thesis by (intro exI [of _ "{#}"]) simp
    next
      case seq
      then have "rdp_in_sequence nh nonce c p (rh_seq_nr h) (?r, w) = Some (ex, r', w')"
        using assms(1) [unfolded e] False by simp
      from in_sequence_keeps [OF this ok] show ?thesis unfolding room .
    qed (use assms(1) [unfolded e] False in \<open>intro same, simp\<close>)
  qed
qed

lemma open_keeps:
  assumes "rdp_in_open nh nonce c p h (r, w) = Some (ex, r', w')" "rdp_ok c (add_mset p M) (r, w)"
  shows "\<exists>L. rdp_ok c (L + held p ex M) (r', w') \<and> (L \<noteq> {#} \<longrightarrow> \<not> rdp_room c (r, w))"
proof -
  consider (stay) "r' = r" "w' = w" "ex \<noteq> AcceptedOpen"
    | (syn) e flags seq ack where "csp_rdp_send_cmp nh nonce c None flags seq ack (r, w) = Some (e, r', w')" "ex = DiscardOpen"
    | (eack) e where "csp_rdp_send_eack nh nonce c (r, w) = Some (e, r', w')" "ex = DiscardOpen"
    | (go) "rdp_acked_packet nh nonce c p h (r\<lparr>rd_state := RDP_OPEN\<rparr>, w) = Some (ex, r', w')"
    using assms(1) by (auto simp: rdp_in_open_def split: if_splits)
  then show ?thesis
  proof cases
    case stay
    then show ?thesis using assms(2) by (intro exI [of _ "{#}"]) (simp add: held_def)
  next
    case syn
    from send_any_keeps [OF syn(1) assms(2)] syn(2) show ?thesis by (auto simp: held_def)
  next
    case eack
    from send_eack_keeps [OF eack(1) assms(2)] eack(2) show ?thesis
      by (intro exI [of _ "{#}"]) (simp add: held_def)
  next
    case go
    have ok: "rdp_ok c (add_mset p M) (r\<lparr>rd_state := RDP_OPEN\<rparr>, w)" using assms(2) by simp
    have "rdp_room c (r\<lparr>rd_state := RDP_OPEN\<rparr>, w) = rdp_room c (r, w)" by (simp add: rdp_room_def)
    with acked_packet_keeps [OF go ok] show ?thesis by simp
  qed
qed

lemma close_wait_keeps:
  assumes "rdp_in_close_wait nh nonce c h (r, w) = Some (ex, r', w')" "rdp_ok c (add_mset p M) (r, w)"
  shows "rdp_ok c (held p ex M) (r', w')"
proof -
  let ?r = "r\<lparr>rd_snd_una := rh_ack_nr h + 1\<rparr>"
  consider (stay) "r' = r" "w' = w" "ex = DiscardOpen"
    | (send) e where "csp_rdp_send_cmp nh nonce c None (RDP_ACK OR RDP_RST) (rd_snd_nxt ?r) (rd_rcv_cur ?r) (?r, w) = Some (e, r', w')"
        "ex = DiscardOpen"
    using assms(1) by (auto simp: rdp_in_close_wait_def Let_def split: if_splits)
  then show ?thesis
  proof cases
    case stay
    then show ?thesis using assms(2) by (simp add: held_def)
  next
    case send
    have "rdp_ok c (add_mset p M) (?r, w)" using assms(2) by simp
    from send_plain_keeps [OF send(1) this] send(2) show ?thesis by (simp add: held_def)
  qed
qed

lemma handle_keeps:
  assumes "rdp_handle nh nonce iss c p h (r, w) = Some (ex, r', w')" "rdp_ok c (add_mset p M) (r, w)"
  shows "\<exists>L. rdp_ok c (L + held p ex M) (r', w') \<and> (L \<noteq> {#} \<longrightarrow> \<not> rdp_room c (r, w))"
proof -
  have no_loss: ?thesis if "rdp_ok c (held p ex M) (r', w')"
    using that by (intro exI [of _ "{#}"]) simp
  show ?thesis
  proof (cases "rh_rst h")
    case True
    then show ?thesis using assms by (intro no_loss rst_keeps) (auto simp: rdp_handle_def)
  next
    case False
    then show ?thesis
      using assms closed_keeps open_keeps no_loss [OF syn_sent_keeps] no_loss [OF close_wait_keeps]
      by (cases "rd_state r") (auto simp: rdp_handle_def)
  qed
qed

lemma new_packet_keeps:
  assumes "csp_rdp_new_packet nh nonce iss c p (r, w) = Some (r', w')" "rdp_ok c (add_mset p M) (r, w)"
  shows "\<exists>L. rdp_ok c (L + M) (r', w') \<and> (L \<noteq> {#} \<longrightarrow> \<not> rdp_room c (r, w))"
proof -
  obtain h ex r1 w1 pk where h: "rdp_handle nh nonce iss c p h (r, put_packet p pk w) = Some (ex, r1, w1)"
    "rdp_exit_to nh nonce c p ex (r1, w1) = Some (r', w')"
    using assms(1) by (auto simp: csp_rdp_new_packet_def Let_def split: option.splits)
  have "rdp_room c (r, put_packet p pk w) = rdp_room c (r, w)" by (simp add: rdp_room_def put_packet_def)
  with handle_keeps [OF h(1) rdp_ok_put [OF assms(2)]] exit_keeps [OF h(2)] show ?thesis by auto
qed

end

section \<open>The requests of the user\<close>

text \<open>What the tasks that run while this one waits keep.\<close>

definition rdp_tasks_ok :: "nat \<Rightarrow> (rdp_node \<Rightarrow> rdp_node) \<Rightarrow> bool" where
  "rdp_tasks_ok c f \<longleftrightarrow> (\<forall>s M. rdp_ok c M s \<longrightarrow> rdp_ok c M (f s))"

lemma sem_wait_keeps:
  assumes "rdp_sem_wait f (r, w) = (b, r', w')" "rdp_tasks_ok c f" "rdp_ok c M (r, w)"
  shows "rdp_ok c M (r', w')"
proof -
  let ?s = "if rd_tx_wait r then (r, w) else f (r, w)"
  have "rdp_ok c M ?s" using assms(2,3) by (simp add: rdp_tasks_ok_def)
  moreover obtain r1 w1 where "?s = (r1, w1)" by fastforce
  ultimately show ?thesis using assms(1) by (auto simp: rdp_sem_wait_def Let_def)
qed

lemma send_copy_keeps:
  assumes "rdp_send_copy p (r, w) = Some (e, r', w')" "rdp_ok c (add_mset p M) (r, w)"
  shows "rdp_ok c (add_mset p M) (r', w') \<and> nd_conns w' = nd_conns w"
proof (cases "rd_state r = RDP_OPEN")
  case False
  then show ?thesis using assms by (simp add: rdp_send_copy_def)
next
  case True
  let ?h = "\<lparr>rh_rst = False, rh_eak = False, rh_ack = True, rh_syn = False, rh_res = 0,
    rh_seq_nr = csp_hton16 (rd_snd_nxt r), rh_ack_nr = csp_hton16 (rd_rcv_cur r)\<rparr>"
  obtain pk where a: "csp_rdp_header_add (buf_packet (nd_pool w) p) = Some pk"
    using assms(1) True by (auto simp: rdp_send_copy_def split: option.splits)
  define w1 where "w1 = put_packet p (rdp_header_write ?h pk) w"
  have ok1: "rdp_ok c (add_mset p M) (r, w1)" using rdp_ok_put [OF assms(2)] by (simp add: w1_def)
  note k = rdp_okD [OF ok1]
  have n1: "nd_conns w1 = nd_conns w" by (simp add: w1_def)
  obtain x pool where cl: "csp_buffer_clone (Some p) (nd_pool w1) = (x, pool)" by fastforce
  show ?thesis
  proof (cases rule: csp_buffer_clone_cases [OF cl k(1,2)])
    case 1
    then have "r' = r" "w' = w1"
      using assms(1) True a cl by (simp_all add: rdp_send_copy_def w1_def [symmetric] Let_def)
    then show ?thesis using ok1 n1 by simp
  next
    case (2 q)
    define w2 where "w2 = put_packet q ((buf_packet pool q)\<lparr>pkt_timestamp := nd_now w1, pkt_quarantine := 0\<rparr>)
        (w1\<lparr>nd_pool := pool\<rparr>)"
    have w2: "node_ok w2" "owned (add_mset q (rdp_refs r + add_mset p M)) w2" "nd_conns w2 = nd_conns w" "\<not> bound w2 c"
      using 2 k n1 by (simp_all add: w2_def owned_put_packet bound_def)
    show ?thesis
    proof (cases "length (rd_tx_queue r) < CSP_RDP_MAX_WINDOW")
      case room: True
      then have "w' = w2" "r' = r\<lparr>rd_tx_queue := rd_tx_queue r @ [q], rd_snd_nxt := rd_snd_nxt r + 1\<rparr>"
        using assms(1) True a cl 2(1) by (simp_all add: rdp_send_copy_def w1_def [symmetric] w2_def Let_def tx_enqueue_def)
      moreover have "rdp_ok c (add_mset p M) (r\<lparr>rd_tx_queue := rd_tx_queue r @ [q]\<rparr>, w2)"
        using w2 k room by (intro rdp_okI) (simp_all add: rdp_refs_def add_mset_commute)
      ultimately show ?thesis using w2 by (auto intro: rdp_ok_cong)
    next
      case full: False
      then have e: "w' = free_packet (Some q) w2" "r' = r"
        using assms(1) True a cl 2(1) by (simp_all add: rdp_send_copy_def w1_def [symmetric] w2_def Let_def tx_enqueue_def)
      have "rdp_ok c (add_mset q (add_mset p M)) (r, w2)" using w2 k by (intro rdp_okI) (simp_all add: add_mset_commute)
      from rdp_ok_free [OF this] show ?thesis using e w2 by (simp add: free_packet_def)
    qed
  qed
qed

lemma rdp_send_keeps:
  assumes "csp_rdp_send f p (r, w) = Some (e, r', w')" "rdp_tasks_ok c f" "rdp_ok c (add_mset p M) (r, w)"
  shows "rdp_ok c (add_mset p M) (r', w')"
proof -
  consider (no) "r' = r" "w' = w" | (now) "rdp_send_copy p (r, w) = Some (e, r', w')"
    | (wait) b r1 w1 where "rdp_sem_wait f (r\<lparr>rd_tx_wait := False\<rparr>, w) = (b, r1, w1)"
        "(r', w') = (r1, w1) \<or> rdp_send_copy p (r1, w1) = Some (e, r', w')"
    using assms(1) by (auto simp: csp_rdp_send_def Let_def split: if_splits prod.splits bool.splits)
  then show ?thesis
  proof cases
    case no
    then show ?thesis using assms(3) by simp
  next
    case now
    from send_copy_keeps [OF this assms(3)] show ?thesis by simp
  next
    case wait
    have "rdp_ok c (add_mset p M) (r\<lparr>rd_tx_wait := False\<rparr>, w)" using assms(3) by simp
    from sem_wait_keeps [OF wait(1) assms(2) this] wait(2) send_copy_keeps show ?thesis by auto
  qed
qed

context csp_link begin

lemma send_syn_keeps:
  assumes "csp_rdp_send_syn nh nonce opts c (r, w) = Some (e, r', w')" "rdp_ok c M (r, w)"
  shows "\<exists>L. rdp_ok c (L + M) (r', w') \<and> acked_only r r' \<and> (e = CSP_ERR_NONE \<longrightarrow> L = {#})"
proof -
  note k = rdp_okD [OF assms(2)]
  obtain x w1 where g: "rdp_get_buffer 100 w = (x, w1)" by fastforce
  have q: "quiet (bufs w) w w1" by (rule get_buffer_quiet [OF g k(1,2)])
  show ?thesis
  proof (cases rule: rdp_get_buffer_cases [OF g k(1,2)])
    case 1
    then show ?thesis using assms g by (intro exI [of _ "{#}"]) (simp add: csp_rdp_send_syn_def)
  next
    case (2 p)
    obtain pk where pk: "pkt_append (rdp_syn_data opts) (buf_packet (nd_pool w1) p) = Some pk"
      and s: "csp_rdp_send_cmp nh nonce c (Some p) RDP_SYN (rd_snd_iss r) 0 (r, put_packet p pk w1) = Some (e, r', w')"
      using assms(1) g 2(1) by (auto simp: csp_rdp_send_syn_def split: option.splits)
    have ok1: "rdp_ok c (add_mset p M) (r, w1)"
      using 2 k quiet_bound [OF q] by (intro rdp_okI) simp_all
    have len: "pkt_length pk = 24"
      using pk 2(8) by (auto simp: pkt_append_def pkt_length_def rdp_syn_data_def split: if_splits)
    have at: "buf_packet (nd_pool (put_packet p pk w1)) p = pk"
      by (rule put_packet_at [OF 2(5), THEN trans]) simp_all
    have "pkt_length (buf_packet (nd_pool (put_packet p pk w1)) p) + 19 \<le> pool_size (nd_pool (put_packet p pk w1))"
      using len at 2(10,11) by (simp add: put_packet_def)
    then show ?thesis
      using send_cmp_keeps [OF s, of M] rdp_ok_put [OF ok1, of p pk] by auto
  qed
qed

text \<open>A connection attempt that succeeds has lost no buffer.\<close>

lemma connect_loop_keeps:
  assumes "rdp_connect_loop nh nonces isss f opts c n (r, w) = Some (e, r', w')" "rdp_tasks_ok c f" "rdp_ok c M (r, w)"
  shows "\<exists>L. rdp_ok c (L + M) (r', w') \<and> (e = CSP_ERR_NONE \<longrightarrow> L = {#})"
  using assms(1,3)
proof (induction n arbitrary: r w)
  case (0 r w)
  show ?case
  proof (cases "rd_state r = RDP_OPEN")
    case True
    then show ?thesis using 0 by (intro exI [of _ "{#}"]) simp
  next
    case False
    define r0 where "r0 = r\<lparr>rd_snd_iss := isss 0, rd_snd_nxt := isss 0 + 1, rd_snd_una := isss 0, rd_tx_wait := False,
                  rd_state := RDP_SYN_SENT\<rparr>"
    have ok0: "rdp_ok c M (r0, w)" using 0(2) by (rule rdp_ok_cong) (simp_all add: r0_def)
    obtain e1 r1 w1 where s: "csp_rdp_send_syn nh (nonces 0) opts c (r0, w) = Some (e1, r1, w1)"
      using 0(1) False by (auto simp: r0_def [symmetric] Let_def split: option.splits)
    obtain L where L: "rdp_ok c (L + M) (r1, w1)" "e1 = CSP_ERR_NONE \<longrightarrow> L = {#}"
      using send_syn_keeps [OF s ok0] by blast
    obtain b r2 w2 where sw: "rdp_sem_wait f (r1, w1) = (b, r2, w2)" by (metis surj_pair)
    have k2: "rdp_ok c (L + M) (r2, w2)" by (rule sem_wait_keeps [OF sw assms(2) L(1)])
    have "rdp_ok c (L + M) (r', w') \<and> (e = CSP_ERR_NONE \<longrightarrow> L = {#})"
      using 0(1) False s sw L k2 by (auto simp: r0_def [symmetric] Let_def csp_err_defs split: if_splits bool.splits)
    then show ?thesis by blast
  qed
next
  case (Suc n r w)
  show ?case
  proof (cases "rd_state r = RDP_OPEN")
    case True
    then show ?thesis using Suc by (intro exI [of _ "{#}"]) simp
  next
    case False
    define r0 where "r0 = r\<lparr>rd_snd_iss := isss (Suc n), rd_snd_nxt := isss (Suc n) + 1, rd_snd_una := isss (Suc n),
                  rd_tx_wait := False, rd_state := RDP_SYN_SENT\<rparr>"
    have ok0: "rdp_ok c M (r0, w)" using Suc.prems(2) by (rule rdp_ok_cong) (simp_all add: r0_def)
    obtain e1 r1 w1 where s: "csp_rdp_send_syn nh (nonces (Suc n)) opts c (r0, w) = Some (e1, r1, w1)"
      using Suc.prems(1) False by (auto simp: r0_def [symmetric] Let_def split: option.splits)
    obtain L where L: "rdp_ok c (L + M) (r1, w1)" "e1 = CSP_ERR_NONE \<longrightarrow> L = {#}"
      using send_syn_keeps [OF s ok0] by blast
    obtain b r2 w2 where sw: "rdp_sem_wait f (r1, w1) = (b, r2, w2)" by (metis surj_pair)
    have k2: "rdp_ok c (L + M) (r2, w2)" by (rule sem_wait_keeps [OF sw assms(2) L(1)])
    show ?thesis
    proof (cases "e1 = CSP_ERR_NONE \<and> b \<and> rd_state r2 = RDP_SYN_SENT")
      case True
      then have "rdp_connect_loop nh nonces isss f opts c n (csp_rdp_flush_all (r2, w2)) = Some (e, r', w')"
        using Suc.prems(1) False s sw by (simp add: r0_def [symmetric] Let_def)
      then show ?thesis
        using Suc.IH [of "fst (csp_rdp_flush_all (r2, w2))" "snd (csp_rdp_flush_all (r2, w2))"]
          flush_all_keeps [OF k2] True L by simp
    next
      case stop: False
      have "rdp_ok c (L + M) (r', w') \<and> (e = CSP_ERR_NONE \<longrightarrow> L = {#})"
        using Suc.prems(1) False s sw L k2 stop
        by (auto simp: r0_def [symmetric] Let_def csp_err_defs split: if_splits bool.splits)
      then show ?thesis by blast
    qed
  qed
qed

lemma connect_keeps:
  assumes "csp_rdp_connect nh nonces isss f opts c (r, w) = Some (e, r', w')" "rdp_tasks_ok c f" "rdp_ok c M (r, w)"
  shows "\<exists>L. rdp_ok c (L + M) (r', w') \<and> (e = CSP_ERR_NONE \<longrightarrow> L = {#})"
proof -
  obtain r0 where r0: "rdp_use_opts opts (r, w) = (r0, w)" "rd_tx_queue r0 = rd_tx_queue r" "rd_rx_queue r0 = rd_rx_queue r"
    by (simp add: rdp_use_opts_def)
  have "rdp_connect_loop nh nonces isss f opts c 1 (r0, w) = Some (e, r', w')"
    using assms(1) r0(1) by (simp only: csp_rdp_connect_def)
  from connect_loop_keeps [OF this assms(2) rdp_ok_cong [OF assms(3) r0(2,3)]] show ?thesis .
qed

lemma send_rdp_keeps:
  assumes "csp_send_rdp nh nonce f c p (r, w) = Some (ok, r', w')" "rdp_tasks_ok c f" "rdp_ok c (add_mset p M) (r, w)"
    "has_flag CSP_FRDP (cn_idout (nd_conns w ! c))"
  shows "rdp_ok c (if ok = 0 then add_mset p M else M) (r', w')"
proof (cases "cn_open (nd_conns w ! c)")
  case False
  then show ?thesis using assms by (simp add: csp_send_rdp_def)
next
  case True
  then obtain e r1 w1 where s: "csp_rdp_send f p (r, w) = Some (e, r1, w1)"
    using assms(1,4) by (auto simp: csp_send_rdp_def split: option.splits)
  have ok1: "rdp_ok c (add_mset p M) (r1, w1)" by (rule rdp_send_keeps [OF s assms(2,3)])
  note k = rdp_okD [OF ok1]
  show ?thesis
  proof (cases "e = CSP_ERR_NONE")
    case False
    have "rdp_ok c (add_mset p M) (r1, count_tx_error i w1)" for i
      using ok1 by (auto simp: rdp_ok_def bound_def)
    then show ?thesis using assms(1,4) True s False ok1 by (auto simp: csp_send_rdp_def split: option.splits)
  next
    case sent: True
    then obtain e2 where t: "rdp_transmit nh nonce (cn_idout (nd_conns w1 ! c)) (Some p) w1 = Some (e2, w')"
      "ok = (if e2 = CSP_ERR_NONE then 1 else 0)" "r' = r1"
      using assms(1,4) True s by (auto simp: csp_send_rdp_def)
    have tk: "node_ok w' \<and> owned (if e2 = CSP_ERR_NONE then rdp_refs r1 + M else add_mset p (rdp_refs r1 + M)) w' \<and>
        quiet (- {p}) w1 w'"
      by (rule transmit_keeps [OF t(1) k(1)]) (use k(2) in simp)
    then have "\<not> bound w' c" using quiet_bound [of "- {p}" w1 w'] k(4) by simp
    then show ?thesis using tk k t(2,3) by (intro rdp_okI) (auto split: if_splits)
  qed
qed

lemma read_rdp_keeps:
  assumes "csp_read_rdp nh nonce c (r, w) = Some (x, r', w')" "rdp_ok c M (r, w)"
  shows "rdp_ok c (given x + M) (r', w')"
proof (cases "cn_open (nd_conns w ! c) \<and> cn_rx_queue (nd_conns w ! c) \<noteq> []")
  case False
  then have "x = None" "r' = r" "w' = w" using assms(1) by (auto simp: csp_read_rdp_def split: if_splits)
  then show ?thesis using assms(2) by simp
next
  case True
  then obtain y rest where q: "cn_rx_queue (nd_conns w ! c) = y # rest" by (cases "cn_rx_queue (nd_conns w ! c)") auto
  let ?w = "set_conn c ((nd_conns w ! c)\<lparr>cn_rx_queue := rest\<rparr>) w"
  have ok: "rdp_ok c (given y + M) (r, ?w)"
    by (rule rdp_ok_conn [OF assms(2)]) (auto simp: rx_refs_def q map_filter_simps split: option.splits)
  have "(x, r', w') = (y, r, ?w) \<or> (\<exists>e. csp_rdp_check_ack nh nonce c (r, ?w) = Some (e, r', w') \<and> x = y)"
    using assms(1) True q by (auto simp: csp_read_rdp_def Let_def split: if_splits)
  then show ?thesis using ok check_ack_keeps [OF _ ok] by auto
qed

end

section \<open>Runs of a connection\<close>

text \<open>A connection with everything that works on it: packets that arrive in buffers of the driver, the
  timer, the requests of the user, and tasks that take buffers from the pool, fill them and give
  them back.  \<open>M\<close> are the packets the tasks hold.  A packet arrives while there is room.\<close>

inductive rdp_run :: "nexthop \<Rightarrow> nat \<Rightarrow> nat multiset \<Rightarrow> rdp_node \<Rightarrow> nat multiset \<Rightarrow> rdp_node \<Rightarrow> bool"
  for nh c M0 s0 where
  start: "rdp_run nh c M0 s0 M0 s0"
| arrival: "rdp_run nh c M0 s0 (add_mset p M) s \<Longrightarrow> rdp_room c s \<Longrightarrow>
     csp_rdp_new_packet nh nonce iss c p s = Some s' \<Longrightarrow> rdp_run nh c M0 s0 M s'"
| timer: "rdp_run nh c M0 s0 M s \<Longrightarrow> csp_rdp_check_timeouts nh nonces c s = Some s' \<Longrightarrow> rdp_run nh c M0 s0 M s'"
| connecting: "rdp_run nh c M0 s0 M s \<Longrightarrow> rdp_tasks_ok c f \<Longrightarrow>
     csp_rdp_connect nh nonces isss f opts c s = Some (CSP_ERR_NONE, s') \<Longrightarrow> rdp_run nh c M0 s0 M s'"
| sending: "rdp_run nh c M0 s0 (add_mset p M) s \<Longrightarrow> rdp_tasks_ok c f \<Longrightarrow>
     has_flag CSP_FRDP (cn_idout (nd_conns (snd s) ! c)) \<Longrightarrow> csp_send_rdp nh nonce f c p s = Some (ok, s') \<Longrightarrow>
     rdp_run nh c M0 s0 (if ok = 0 then add_mset p M else M) s'"
| reading: "rdp_run nh c M0 s0 M s \<Longrightarrow> csp_read_rdp nh nonce c s = Some (x, s') \<Longrightarrow>
     rdp_run nh c M0 s0 (given x + M) s'"
| closing: "rdp_run nh c M0 s0 M s \<Longrightarrow> csp_close_rdp nh nonce (Some c) s = Some (e, s') \<Longrightarrow> rdp_run nh c M0 s0 M s'"
| taking: "rdp_run nh c M0 s0 M (r, w) \<Longrightarrow> csp_buffer_get n (nd_pool w) = (Some p, pool) \<Longrightarrow>
     rdp_run nh c M0 s0 (add_mset p M) (r, w\<lparr>nd_pool := pool\<rparr>)"
| filling: "rdp_run nh c M0 s0 (add_mset p M) (r, w) \<Longrightarrow> rdp_run nh c M0 s0 (add_mset p M) (r, put_packet p pk w)"
| freeing: "rdp_run nh c M0 s0 (add_mset p M) (r, w) \<Longrightarrow> rdp_run nh c M0 s0 M (r, free_packet (Some p) w)"
| clock: "rdp_run nh c M0 s0 M (r, w) \<Longrightarrow> rdp_run nh c M0 s0 M (r, w\<lparr>nd_now := t\<rparr>)"

context csp_link begin

lemma run_keeps: "rdp_run nh c M0 s0 M s \<Longrightarrow> rdp_ok c M0 s0 \<Longrightarrow> rdp_ok c M s"
proof (induction rule: rdp_run.induct)
  case (arrival p M s nonce iss s')
  obtain r w r' w' where s: "s = (r, w)" "s' = (r', w')" by fastforce
  from new_packet_keeps [OF arrival(3) [unfolded s] arrival(4) [OF arrival(5), unfolded s]] arrival(2)
  show ?case by (auto simp: s)
next
  case (timer M s nonces s')
  then show ?case using check_timeouts_keeps by (cases s; cases s') blast
next
  case (connecting M s f nonces isss opts s')
  obtain r w r' w' where s: "s = (r, w)" "s' = (r', w')" by fastforce
  from connect_keeps [OF connecting(3) [unfolded s] connecting(2) connecting(4) [OF connecting(5), unfolded s]]
  show ?case by (auto simp: s)
next
  case (sending p M s f nonce ok s')
  obtain r w r' w' where s: "s = (r, w)" "s' = (r', w')" by fastforce
  from send_rdp_keeps [OF sending(4) [unfolded s] sending(2) sending(5) [OF sending(6), unfolded s]] sending(3)
  show ?case by (simp add: s)
next
  case (reading M s nonce x s')
  then show ?case using read_rdp_keeps by (cases s; cases s') blast
next
  case (closing M s nonce e s')
  then show ?case using close_keeps by (cases s; cases s') blast
next
  case (taking M r w n p pool)
  note k = rdp_okD [OF taking(3) [OF taking(4)]]
  have "node_ok (w\<lparr>nd_pool := pool\<rparr>) \<and> owned (add_mset p (rdp_refs r + M)) (w\<lparr>nd_pool := pool\<rparr>)"
    using csp_buffer_get_keeps [OF taking(2) k(1,2)] by simp
  then show ?case using k by (intro rdp_okI) (simp_all add: bound_def)
next
  case (filling p M r w pk)
  then show ?case by (simp add: rdp_ok_put)
next
  case (freeing p M r w)
  then show ?case by (simp add: rdp_ok_free)
next
  case (clock M r w t)
  then show ?case by (simp add: rdp_ok_def bound_def)
qed simp

end

end
