(* ===== verification/CspRdpOrder.thy ===== *)
theory CspRdpOrder
  imports CspRdpBuffers
begin

text \<open>
  What the reliable protocol is for: the receiver hands the messages of a stream to its user in order
  and once each, however the network loses, repeats and reorders them, and hands over all of them
  when all have arrived.  Message \<open>m\<close> of the stream has the sequence number \<open>irs + m\<close> modulo 65536;
  \<open>in_order\<close> relates a connection to the stream: \<open>k\<close> messages have been handed over, the receive
  queue holds the messages \<open>S\<close> that arrived early.
\<close>

section \<open>Messages in buffers\<close>

definition holds :: "(nat \<Rightarrow> u8 list) \<Rightarrow> u16 \<Rightarrow> csp_node \<Rightarrow> nat \<Rightarrow> nat \<Rightarrow> bool" where
  "holds stream irs w p m \<longleftrightarrow> (\<exists>h. csp_rdp_header_ref (buf_packet (nd_pool w) p) = Some h \<and>
     rh_seq_nr h = irs + of_nat m \<and> rdp_payload (buf_packet (nd_pool w) p) = stream m)"

text \<open>The receive queue holds the messages \<open>S\<close>, each once.\<close>

definition queue_holds :: "(nat \<Rightarrow> u8 list) \<Rightarrow> u16 \<Rightarrow> csp_node \<Rightarrow> nat list \<Rightarrow> nat set \<Rightarrow> bool" where
  "queue_holds stream irs w q S \<longleftrightarrow> distinct q \<and>
     (\<exists>f. inj_on f (set q) \<and> f ` set q = S \<and> (\<forall>p \<in> set q. holds stream irs w p (f p)))"

definition contents :: "nat \<Rightarrow> csp_node \<Rightarrow> u8 list option list" where
  "contents c w = map (map_option (\<lambda>p. pkt_data (buf_packet (nd_pool w) p))) (cn_rx_queue (nd_conns w ! c))"

text \<open>The buffers of the receiver.\<close>

definition rcv_bufs :: "nat \<Rightarrow> rdp_node \<Rightarrow> nat set" where
  "rcv_bufs c s = set (rd_rx_queue (fst s)) \<union> {p. Some p \<in> set (cn_rx_queue (nd_conns (snd s) ! c))}"

lemma count_le_sum_list: "M \<in> set Ms \<Longrightarrow> count M p \<le> count (sum_list Ms) p"
  by (induction Ms) auto

lemma rdp_ok_count:
  assumes "rdp_ok c M (r, w)"
  shows "count (rx_refs (nd_conns w ! c)) p + count (rdp_refs r) p + count M p \<le> 1"
proof -
  note k = rdp_okD [OF assms]
  have "count (rx_refs (nd_conns w ! c)) p \<le> count (sum_list (map rx_refs (nd_conns w))) p"
    using k(8) by (intro count_le_sum_list) simp
  then have "count (rx_refs (nd_conns w ! c)) p \<le> count (refs w) p"
    by (simp add: refs_def)
  moreover have "count (refs w) p + count (rdp_refs r + M) p = count (mset_set (live (nd_pool w))) p"
    using k(2) unfolding owned_def by (metis count_union)
  moreover have "count (mset_set (live (nd_pool w))) p \<le> 1" by (simp add: count_mset_set')
  ultimately show ?thesis by simp
qed

lemma in_rx_refs: "Some p \<in> set (cn_rx_queue cn) \<longleftrightarrow> p \<in># rx_refs cn"
  by (induction "cn_rx_queue cn") (auto simp: rx_refs_def List.map_filter_def image_iff)

lemma rcv_bufs_apart:
  assumes "rdp_ok c M (r, w)"
  shows "rcv_bufs c (r, w) \<subseteq> bufs w" "p \<in># M \<Longrightarrow> p \<notin> rcv_bufs c (r, w)"
    "p \<in> set (rd_tx_queue r) \<Longrightarrow> p \<notin> rcv_bufs c (r, w)" "distinct (rd_rx_queue r)"
    "Some p \<in> set (cn_rx_queue (nd_conns w ! c)) \<Longrightarrow> p \<notin> set (rd_rx_queue r)"
proof -
  note n = rdp_ok_count [OF assms] and k = rdp_okD [OF assms]
  show "rcv_bufs c (r, w) \<subseteq> bufs w"
  proof
    fix p assume "p \<in> rcv_bufs c (r, w)"
    then have "p \<in># rx_refs (nd_conns w ! c) + rdp_refs r" by (auto simp: rcv_bufs_def in_rx_refs rdp_refs_def)
    moreover have "rx_refs (nd_conns w ! c) \<subseteq># refs w"
      using k(8) by (auto simp: subseteq_mset_def refs_def intro!: trans_le_add1 count_le_sum_list)
    ultimately have "p \<in># refs w + (rdp_refs r + M)" by (auto dest: mset_subset_eqD)
    then have "p \<in># mset_set (live (nd_pool w))" using k(2) by (simp only: owned_def)
    then show "p \<in> bufs w" by (simp add: bufs_def)
  qed
  have c: "count M p \<noteq> 0 \<Longrightarrow> p \<notin># rx_refs (nd_conns w ! c) + rdp_refs r" for p
  proof -
    assume "count M p \<noteq> 0"
    then obtain j where "count M p = Suc j" using not0_implies_Suc by blast
    then have "count (rx_refs (nd_conns w ! c) + rdp_refs r) p = 0" using n [of p] by simp
    then show ?thesis by (simp only: count_eq_zero_iff not_False_eq_True)
  qed
  then show "p \<in># M \<Longrightarrow> p \<notin> rcv_bufs c (r, w)"
    by (fastforce simp: rcv_bufs_def in_rx_refs rdp_refs_def)
  have q: "count (rdp_refs r) p = count (mset (rd_tx_queue r)) p + count (mset (rd_rx_queue r)) p" for p
    by (simp add: rdp_refs_def)
  show "p \<in> set (rd_tx_queue r) \<Longrightarrow> p \<notin> rcv_bufs c (r, w)"
  proof
    assume "p \<in> set (rd_tx_queue r)" "p \<in> rcv_bufs c (r, w)"
    then have "1 \<le> count (mset (rd_tx_queue r)) p"
      "1 \<le> count (rx_refs (nd_conns w ! c)) p + count (mset (rd_rx_queue r)) p"
      by (auto simp: rcv_bufs_def in_rx_refs Suc_le_eq count_greater_zero_iff)
    then show False using n [of p] q [of p] by linarith
  qed
  show "distinct (rd_rx_queue r)"
    unfolding distinct_count_atmost_1 using n q by (metis (no_types) add_leD1 add_leD2 le_Suc_eq le_zero_eq count_greater_zero_iff count_mset_0_iff One_nat_def le_antisym Suc_leI)
  show "Some p \<in> set (cn_rx_queue (nd_conns w ! c)) \<Longrightarrow> p \<notin> set (rd_rx_queue r)"
  proof
    assume "Some p \<in> set (cn_rx_queue (nd_conns w ! c))" "p \<in> set (rd_rx_queue r)"
    then have "1 \<le> count (rx_refs (nd_conns w ! c)) p" "1 \<le> count (mset (rd_rx_queue r)) p"
      by (auto simp: in_rx_refs Suc_le_eq)
    then show False using n [of p] q [of p] by linarith
  qed
qed

lemma holds_same: "same_packets A w w' \<Longrightarrow> p \<in> A \<Longrightarrow> holds stream irs w' p m = holds stream irs w p m"
  by (simp add: holds_def same_packets_def)

lemma queue_holds_same:
  assumes "same_packets A w w'" "set q \<subseteq> A" "queue_holds stream irs w q S"
  shows "queue_holds stream irs w' q S"
  using assms holds_same [OF assms(1)] unfolding queue_holds_def by (metis subsetD)

lemma queue_holds_mset: "queue_holds stream irs w q S \<Longrightarrow> mset q' = mset q \<Longrightarrow> queue_holds stream irs w q' S"
  unfolding queue_holds_def by (metis mset_eq_imp_distinct_iff mset_eq_setD)

lemma queue_holds_add:
  assumes "queue_holds stream irs w q S" "p \<notin> set q" "holds stream irs w p m" "m \<notin> S" "mset q' = add_mset p (mset q)"
  shows "queue_holds stream irs w q' (insert m S)"
proof -
  obtain f where f: "distinct q" "inj_on f (set q)" "f ` set q = S" "\<forall>p \<in> set q. holds stream irs w p (f p)"
    using assms(1) by (auto simp: queue_holds_def)
  have "distinct (p # q)" using f(1) assms(2) by simp
  moreover have "inj_on (f(p := m)) (set (p # q))"
    using f(2,3) assms(2,4) by (auto simp: inj_on_def)
  moreover have "f(p := m) ` set (p # q) = insert m S" using f(3) assms(2) by auto
  moreover have "\<forall>p' \<in> set (p # q). holds stream irs w p' ((f(p := m)) p')" using f(4) assms(3) by simp
  ultimately have "queue_holds stream irs w (p # q) (insert m S)" unfolding queue_holds_def by blast
  then show ?thesis by (rule queue_holds_mset) (simp add: assms(5))
qed

lemma queue_holds_remove:
  assumes "queue_holds stream irs w q S" "mset q = add_mset p (mset q')"
  obtains m where "m \<in> S" "holds stream irs w p m" "queue_holds stream irs w q' (S - {m})"
proof -
  obtain f where f: "distinct q" "inj_on f (set q)" "f ` set q = S" "\<forall>p \<in> set q. holds stream irs w p (f p)"
    using assms(1) by (auto simp: queue_holds_def)
  have m: "mset q = mset (p # q')" using assms(2) by simp
  have s: "set q = insert p (set q')" "distinct (p # q')"
    using mset_eq_setD [OF m] mset_eq_imp_distinct_iff [OF m] f(1) by simp_all
  have "f ` set q' = S - {f p}" using f(2,3) s by (auto simp: inj_on_def)
  then have "queue_holds stream irs w q' (S - {f p})"
    unfolding queue_holds_def using f(2,4) s by (intro conjI exI [of _ f]) (auto simp: inj_on_def)
  then show thesis using f(3,4) s by (intro that [of "f p"]) auto
qed

lemma queue_holds_header: "queue_holds stream irs w q S \<Longrightarrow> p \<in> set q \<Longrightarrow> csp_rdp_header_ref (buf_packet (nd_pool w) p) \<noteq> None"
  by (auto simp: queue_holds_def holds_def)

lemma queue_holds_length: "queue_holds stream irs w q S \<Longrightarrow> length q = card S"
  unfolding queue_holds_def by (metis card_image distinct_card)

section \<open>Searching the receive queue\<close>

lemma rx_scan_total:
  "\<forall>p \<in> set q. csp_rdp_header_ref (buf_packet pool p) \<noteq> None \<Longrightarrow> \<exists>f q'. rdp_rx_scan n seq pool q = Some (f, q')"
  by (induction n seq pool q rule: rdp_rx_scan.induct) (auto split: option.splits)

lemma rx_scan_found:
  "rdp_rx_scan n seq pool q = Some (Some p, q') \<Longrightarrow>
     \<exists>h. csp_rdp_header_ref (buf_packet pool p) = Some h \<and> rh_seq_nr h = seq"
  by (induction n seq pool q rule: rdp_rx_scan.induct) (auto split: option.splits if_splits)

lemma rx_scan_none:
  "rdp_rx_scan n seq pool q = Some (None, q') \<Longrightarrow> n \<le> length q \<Longrightarrow> p \<in> set (take n q) \<Longrightarrow>
     \<exists>h. csp_rdp_header_ref (buf_packet pool p) = Some h \<and> rh_seq_nr h \<noteq> seq"
  by (induction n seq pool q rule: rdp_rx_scan.induct) (auto split: option.splits if_splits)

lemma seq_search_total:
  "\<forall>p \<in> set q. csp_rdp_header_ref (buf_packet pool p) \<noteq> None \<Longrightarrow> \<exists>b q'. rdp_seq_search n seq pool q = Some (b, q')"
  by (induction n seq pool q rule: rdp_seq_search.induct) (auto split: option.splits)

lemma seq_search_found:
  "rdp_seq_search n seq pool q = Some (True, q') \<Longrightarrow>
     \<exists>p \<in> set q. \<exists>h. csp_rdp_header_ref (buf_packet pool p) = Some h \<and> rh_seq_nr h = seq"
  by (induction n seq pool q rule: rdp_seq_search.induct) (auto split: option.splits if_splits)

lemma seq_search_none:
  "rdp_seq_search n seq pool q = Some (False, q') \<Longrightarrow> n \<le> length q \<Longrightarrow> p \<in> set (take n q) \<Longrightarrow>
     \<exists>h. csp_rdp_header_ref (buf_packet pool p) = Some h \<and> rh_seq_nr h \<noteq> seq"
  by (induction n seq pool q rule: rdp_seq_search.induct) (auto split: option.splits if_splits)

section \<open>The receiver and the stream\<close>

definition rdp_window :: "csp_rdp \<Rightarrow> nat" where
  "rdp_window r = unat (ucast (rd_window_size r * 2) :: u16)"

definition in_order :: "(nat \<Rightarrow> u8 list) \<Rightarrow> u16 \<Rightarrow> nat \<Rightarrow> nat set \<Rightarrow> rdp_node \<Rightarrow> bool" where
  "in_order stream irs k S s \<longleftrightarrow> rd_state (fst s) = RDP_OPEN \<and> rd_rcv_cur (fst s) = irs + of_nat k \<and>
     queue_holds stream irs (snd s) (rd_rx_queue (fst s)) S \<and> S \<subseteq> {Suc k<..k + rdp_window (fst s)} \<and>
     0 < rdp_window (fst s)"

lemma rdp_window_less: "rdp_window r < 2 ^ 16"
  using unsigned_less [of "ucast (rd_window_size r * 2) :: u16"] by (simp add: rdp_window_def)

lemma rdp_window_of_nat: "of_nat (rdp_window r) = (ucast (rd_window_size r * 2) :: u16)"
  by (simp add: rdp_window_def)

lemma contents_same:
  assumes "cn_rx_queue (nd_conns w' ! c) = cn_rx_queue (nd_conns w ! c)" "same_packets A w w'"
    "rcv_bufs c (r, w) \<subseteq> A"
  shows "contents c w' = contents c w"
  using assms by (auto simp: contents_def same_packets_def rcv_bufs_def subset_iff split: option.split intro!: map_cong option.map_cong)

lemma in_order_same:
  assumes "in_order stream irs k S (r, w)" "same_packets A w w'" "rcv_bufs c (r, w) \<subseteq> A"
    "rd_state r' = rd_state r" "rd_rcv_cur r' = rd_rcv_cur r" "mset (rd_rx_queue r') = mset (rd_rx_queue r)"
    "rd_window_size r' = rd_window_size r"
  shows "in_order stream irs k S (r', w')"
proof -
  have "queue_holds stream irs w (rd_rx_queue r') S"
    using assms(1,6) queue_holds_mset by (auto simp: in_order_def)
  moreover have "set (rd_rx_queue r') \<subseteq> A"
    using assms(3) mset_eq_setD [OF assms(6)] by (auto simp: rcv_bufs_def)
  ultimately have "queue_holds stream irs w' (rd_rx_queue r') S" using queue_holds_same [OF assms(2)] by blast
  then show ?thesis using assms by (simp add: in_order_def rdp_window_def)
qed

lemma free_packet_frame [simp]:
  "nd_conns (free_packet p w) = nd_conns w" "contents c (free_packet p w) = contents c w"
  "in_order stream irs k S (r, free_packet p w) = in_order stream irs k S (r, w)"
  by (simp_all add: free_packet_def contents_def in_order_def queue_holds_def holds_def)

text \<open>A packet that is handed over.\<close>

lemma delivered_contents:
  assumes "delivered c p True w w'" "Some p \<notin> set (cn_rx_queue (nd_conns w ! c))"
  shows "contents c w' = contents c w @ [Some (rdp_payload (buf_packet (nd_pool w) p))]"
proof -
  have "q \<noteq> p \<Longrightarrow> buf_packet (nd_pool w') q = buf_packet (nd_pool w) q" for q
    using assms(1) by (simp add: delivered_def same_packets_def)
  then have "map (map_option (\<lambda>q. pkt_data (buf_packet (nd_pool w') q))) (cn_rx_queue (nd_conns w ! c)) = contents c w"
    unfolding contents_def using assms(2) by (intro map_cong [OF refl] option.map_cong [OF refl]) (metis option.set_cases)
  then show ?thesis using assms(1) by (simp add: contents_def delivered_def)
qed

text \<open>The messages from \<open>k + 1\<close> to \<open>k'\<close>.\<close>

definition messages :: "(nat \<Rightarrow> u8 list) \<Rightarrow> nat \<Rightarrow> nat \<Rightarrow> u8 list option list" where
  "messages stream k k' = map (\<lambda>m. Some (stream m)) [Suc k..<Suc k']"

lemma messages_same [simp]: "messages stream k k = []"
  by (simp add: messages_def)

lemma messages_append: "k \<le> k' \<Longrightarrow> k' \<le> k'' \<Longrightarrow> messages stream k k' @ messages stream k' k'' = messages stream k k''"
proof -
  assume "k \<le> k'" "k' \<le> k''"
  then have "[Suc k..<Suc k'] @ [Suc k'..<Suc k''] = [Suc k..<Suc k'']"
    using upt_add_eq_append [of "Suc k" "Suc k'" "k'' - k'"] by simp
  then show ?thesis unfolding messages_def by (metis map_append)
qed

lemma messages_Suc: "messages stream k (Suc k) = [Some (stream (Suc k))]"
  by (simp add: messages_def)

text \<open>Handing over what is next, as long as it has arrived.\<close>

lemma flush_in_order:
  assumes "csp_rdp_rx_queue_flush c (r, w) = Some (r', w')" "rdp_ok c M (r, w)" "rd_rcv_cur r = irs + of_nat k"
    "queue_holds stream irs w (rd_rx_queue r) S" "S \<subseteq> {k<..k + n}" "n < 2 ^ 16"
    "cn_socket (nd_conns w ! c) = None"
    "length (cn_rx_queue (nd_conns w ! c)) + length (rd_rx_queue r) \<le> CSP_RX_QUEUE_LENGTH"
  shows "\<exists>k' \<ge> k. {k<..k'} \<subseteq> S \<and> Suc k' \<notin> S \<and> rd_rcv_cur r' = irs + of_nat k' \<and>
    queue_holds stream irs w' (rd_rx_queue r') (S - {..k'}) \<and> contents c w' = contents c w @ messages stream k k' \<and>
    rdp_ok c M (r', w') \<and> (\<exists>q. r' = r\<lparr>rd_rx_queue := q, rd_rcv_cur := irs + of_nat k'\<rparr>) \<and>
    cn_socket (nd_conns w' ! c) = None \<and> cn_idout (nd_conns w' ! c) = cn_idout (nd_conns w ! c) \<and>
    nd_now w' = nd_now w \<and> (\<forall>n. roomy n w \<longrightarrow> roomy n w') \<and> same_packets (- rcv_bufs c (r, w)) w w' \<and>
    length (cn_rx_queue (nd_conns w' ! c)) = length (cn_rx_queue (nd_conns w ! c)) + (k' - k)"
  using assms
proof (induction c "(r, w)" arbitrary: r w k S n rule: csp_rdp_rx_queue_flush.induct)
  case (1 c r w)
  note fl = 1(2) and ok = 1(3) and cur = 1(4) and qh = 1(5) and sub = 1(6) and n = 1(7) and sock = 1(8) and room = 1(9)
  obtain f q where s: "rdp_rx_scan (length (rd_rx_queue r)) (rd_rcv_cur r + 1) (nd_pool w) (rd_rx_queue r) = Some (f, q)"
    using fl by (auto simp: csp_rdp_rx_queue_flush.simps [of c r w] split: option.splits)
  note m = rx_scan_mset [OF s]
  have next_seq: "rd_rcv_cur r + 1 = irs + of_nat (Suc k)" by (simp add: cur)
  have near: "m = Suc k" if "m \<in> S" "irs + of_nat m = irs + of_nat (Suc k)" for m
    by (rule seq_inject [OF that(2)]) (use that(1) sub n in auto)
  show ?case
  proof (cases f)
    case None
    then have e: "r' = r\<lparr>rd_rx_queue := q\<rparr>" "w' = w"
      using fl s by (simp_all add: csp_rdp_rx_queue_flush.simps [of c r w])
    have "Suc k \<notin> S"
    proof
      assume "Suc k \<in> S"
      then obtain p where p: "p \<in> set (rd_rx_queue r)" "holds stream irs w p (Suc k)"
        using qh by (auto simp: queue_holds_def)
      then show False
        using rx_scan_none [OF s [unfolded None], of p] next_seq by (auto simp: holds_def)
    qed
    moreover have "queue_holds stream irs w q S" using queue_holds_mset [OF qh] m None by simp
    moreover have "rdp_ok c M (r\<lparr>rd_rx_queue := q\<rparr>, w)"
      by (rule rdp_ok_rx_queue [OF ok]) (use m None rdp_okD(6) [OF ok] rdp_rx_scan_length [OF s] in auto)
    moreover have "S - {..k} = S" using sub by auto
    moreover have "r\<lparr>rd_rx_queue := q\<rparr> = r\<lparr>rd_rx_queue := q, rd_rcv_cur := irs + of_nat k\<rparr>" using cur by simp
    ultimately show ?thesis using e cur sock by (intro exI [of _ k] conjI exI [of _ q]) simp_all
  next
    case (Some p)
    let ?r = "r\<lparr>rd_rx_queue := q, rd_rcv_cur := rd_rcv_cur r + 1\<rparr>"
    obtain e w1 where rc: "csp_rdp_receive_data c p w = Some (e, w1)"
      and rest: "csp_rdp_rx_queue_flush c (?r, w1) = Some (r', w')"
      using fl s Some by (auto simp: csp_rdp_rx_queue_flush.simps [of c r w] split: option.splits)
    have mq: "mset (rd_rx_queue r) = add_mset p (mset q)" using m Some by simp
    have p_in: "p \<in> set (rd_rx_queue r)" using mset_eq_setD [of "rd_rx_queue r" "p # q"] mq by simp
    have len: "length (rd_rx_queue r) = Suc (length q)" using mset_eq_length [of "rd_rx_queue r" "p # q"] mq by simp
    obtain m where mS: "m \<in> S" "holds stream irs w p m" "queue_holds stream irs w q (S - {m})"
      by (rule queue_holds_remove [OF qh mq])
    have "m = Suc k"
      using near [OF mS(1)] mS(2) rx_scan_found [OF s [unfolded Some]] next_seq by (auto simp: holds_def)
    note mS = mS [unfolded this]
    have "rdp_ok c (add_mset p M) (r\<lparr>rd_rx_queue := q\<rparr>, w)"
      by (rule rdp_ok_rx_queue [OF ok]) (use mq len rdp_okD(6) [OF ok] in auto)
    then have ok1: "rdp_ok c (add_mset p M) (?r, w)" by (simp add: rdp_ok_def rdp_refs_def)
    have e: "e = CSP_ERR_NONE" using receive_data_keeps [OF rc ok1] sock room len by auto
    have ok2: "rdp_ok c M (?r, w1)" and d: "delivered c p True w w1"
      using receive_data_keeps [OF rc ok1] e by simp_all
    have pq: "p \<notin> set q" using rcv_bufs_apart(4) [OF ok] mset_eq_imp_distinct_iff [of "rd_rx_queue r" "p # q"] mq by simp
    have same: "same_packets (- {p}) w w1" using d by (simp add: delivered_def)
    have qh1: "queue_holds stream irs w1 (rd_rx_queue ?r) (S - {Suc k})"
      using queue_holds_same [OF same _ mS(3)] pq by auto
    have sub1: "S - {Suc k} \<subseteq> {Suc k<..Suc k + n}" using sub by (auto simp: not_le le_Suc_eq)
    have cur1: "rd_rcv_cur ?r = irs + of_nat (Suc k)" using cur by simp
    have sock1: "cn_socket (nd_conns w1 ! c) = None" using d by (simp add: delivered_def)
    have lc: "length (cn_rx_queue (nd_conns w1 ! c)) = Suc (length (cn_rx_queue (nd_conns w ! c)))"
      using d by (simp add: delivered_def)
    have room1: "length (cn_rx_queue (nd_conns w1 ! c)) + length (rd_rx_queue ?r) \<le> CSP_RX_QUEUE_LENGTH"
      using room len lc by simp
    have "Some p \<notin> set (cn_rx_queue (nd_conns w ! c))" using rcv_bufs_apart(5) [OF ok] p_in by blast
    then have con: "contents c w1 = contents c w @ messages stream k (Suc k)"
      using delivered_contents [OF d] mS(2) by (auto simp: holds_def messages_Suc)
    from 1(1) [OF s refl Some rc refl rest ok2 cur1 qh1 sub1 n sock1 room1] obtain k' q' where
      k': "Suc k \<le> k'" "{Suc k<..k'} \<subseteq> S - {Suc k}" "Suc k' \<notin> S - {Suc k}" "rd_rcv_cur r' = irs + of_nat k'"
        "queue_holds stream irs w' (rd_rx_queue r') (S - {Suc k} - {..k'})"
        "contents c w' = contents c w1 @ messages stream (Suc k) k'" "rdp_ok c M (r', w')"
        "r' = ?r\<lparr>rd_rx_queue := q', rd_rcv_cur := irs + of_nat k'\<rparr>" "cn_socket (nd_conns w' ! c) = None"
        "cn_idout (nd_conns w' ! c) = cn_idout (nd_conns w1 ! c)" "nd_now w' = nd_now w1"
        "\<forall>n. roomy n w1 \<longrightarrow> roomy n w'" "same_packets (- rcv_bufs c (?r, w1)) w1 w'"
        "length (cn_rx_queue (nd_conns w' ! c)) = length (cn_rx_queue (nd_conns w1 ! c)) + (k' - Suc k)"
      by blast
    have "S - {Suc k} - {..k'} = S - {..k'}" using k'(1) by auto
    moreover have "{k<..k'} \<subseteq> S"
    proof
      fix x assume "x \<in> {k<..k'}"
      then have "x = Suc k \<or> x \<in> {Suc k<..k'}" by auto
      then show "x \<in> S" using k'(2) mS(1) by blast
    qed
    moreover have "contents c w' = contents c w @ messages stream k k'"
      using k'(1,6) con messages_append [of k "Suc k" k' stream] by simp
    moreover have "rcv_bufs c (?r, w1) \<subseteq> rcv_bufs c (r, w)"
      using d p_in mset_eq_setD [of "rd_rx_queue r" "p # q"] mq by (auto simp: rcv_bufs_def delivered_def)
    then have sub': "- rcv_bufs c (r, w) \<subseteq> - rcv_bufs c (?r, w1)" by blast
    have "- rcv_bufs c (r, w) \<subseteq> - {p}" using p_in by (auto simp: rcv_bufs_def)
    from same_packets_trans [OF same_packets_mono [OF same this] k'(13) sub']
    have "same_packets (- rcv_bufs c (r, w)) w w'" .
    ultimately show ?thesis
      using k' d lc by (intro exI [of _ k'] conjI exI [of _ q']) (auto simp: delivered_def)
  qed
qed

section \<open>A message that arrives\<close>

text \<open>Packet \<open>p\<close> carries message \<open>m\<close>: data, with an acknowledgement, in the order of the network.\<close>

definition carries :: "(nat \<Rightarrow> u8 list) \<Rightarrow> u16 \<Rightarrow> u16 \<Rightarrow> csp_node \<Rightarrow> nat \<Rightarrow> nat \<Rightarrow> bool" where
  "carries stream irs ack w p m \<longleftrightarrow> rdp_payload (buf_packet (nd_pool w) p) = stream m \<and> stream m \<noteq> [] \<and>
     (\<exists>h. csp_rdp_header_ref (buf_packet (nd_pool w) p) = Some h \<and> \<not> rh_rst h \<and> \<not> rh_syn h \<and> \<not> rh_eak h \<and> rh_ack h \<and>
        csp_ntoh16 (rh_seq_nr h) = irs + of_nat m \<and> csp_ntoh16 (rh_ack_nr h) = ack)"

lemma header_ref_length: "csp_rdp_header_ref pk = Some h \<Longrightarrow> sizeof_rdp_header \<le> pkt_length pk"
  by (auto simp: csp_rdp_header_ref_def split: if_splits)

lemma payload_length: "csp_rdp_header_ref pk = Some h \<Longrightarrow> pkt_length pk = length (rdp_payload pk) + sizeof_rdp_header"
  by (auto simp: csp_rdp_header_ref_def rdp_payload_def pkt_length_def split: if_splits)

text \<open>What the receiver has after message \<open>m\<close> was accepted, or not.\<close>

definition took :: "nat \<Rightarrow> nat set \<Rightarrow> nat set \<Rightarrow> nat \<Rightarrow> nat set \<Rightarrow> bool" where
  "took k S A k' S' \<longleftrightarrow> k \<le> k' \<and> {..k'} \<union> S' = {..k} \<union> S \<union> A"

lemma took_nothing [simp]: "took k S {} k S"
  by (simp add: took_def)

text \<open>How a packet is left: the exit, the queue of the connection and its room.\<close>

definition same_conn :: "nat \<Rightarrow> csp_node \<Rightarrow> csp_node \<Rightarrow> bool" where
  "same_conn c w w' \<longleftrightarrow> cn_idout (nd_conns w' ! c) = cn_idout (nd_conns w ! c) \<and>
     (cn_socket (nd_conns w ! c) = None \<longrightarrow> cn_socket (nd_conns w' ! c) = None) \<and> nd_now w' = nd_now w \<and>
     (\<forall>n. roomy n w \<longrightarrow> roomy n w')"

lemma same_conn_refl [simp]: "same_conn c w w"
  by (simp add: same_conn_def)

lemma same_conn_trans: "same_conn c w w' \<Longrightarrow> same_conn c w' w'' \<Longrightarrow> same_conn c w w''"
  by (simp add: same_conn_def)

lemma quiet_same_conn: "quiet A w w' \<Longrightarrow> same_conn c w w'"
  by (simp add: quiet_def same_conn_def)

lemma delivered_same_conn: "delivered c p d w w' \<Longrightarrow> same_conn c w w'"
  by (auto simp: delivered_def same_conn_def)

text \<open>A message that is already there is found, and only such a message is.\<close>

lemma queue_add_in_order:
  assumes "csp_rdp_rx_queue_add p (irs + of_nat m) (r, w) = Some (ok, r', w')" "rdp_ok c (add_mset p M) (r, w)"
    "in_order stream irs k S (r, w)" "holds stream irs w p m" "Suc k < m" "m \<le> k + rdp_window r"
  shows "in_order stream irs k (if ok then insert m S else S) (r', w') \<and> w' = w \<and>
    (m \<notin> S \<and> length (rd_rx_queue r) < CSP_RDP_MAX_WINDOW * 2 \<longrightarrow> ok) \<and> (m \<in> S \<longrightarrow> \<not> ok) \<and>
    r' = r\<lparr>rd_rx_queue := rd_rx_queue r'\<rparr> \<and> length (rd_rx_queue r') \<le> Suc (length (rd_rx_queue r)) \<and>
    cn_rx_queue (nd_conns w' ! c) = cn_rx_queue (nd_conns w ! c)"
proof -
  have qh: "queue_holds stream irs w (rd_rx_queue r) S" and sub: "S \<subseteq> {Suc k<..k + rdp_window r}"
    using assms(3) by (simp_all add: in_order_def)
  obtain b q where s: "rdp_seq_search (length (rd_rx_queue r)) (irs + of_nat m) (nd_pool w) (rd_rx_queue r) = Some (b, q)"
    using assms(1) by (auto simp: csp_rdp_rx_queue_add_def csp_rdp_seq_in_rx_queue_def split: option.splits)
  have mq: "mset q = mset (rd_rx_queue r)" by (rule seq_search_mset [OF s])
  have near: "m = m'" if "m' \<in> S" "irs + of_nat m = irs + of_nat m'" for m'
    by (rule seq_inject [OF that(2)]) (use that(1) sub assms(5,6) rdp_window_less [of r] in auto)
  have b: "b \<longleftrightarrow> m \<in> S"
  proof
    assume b
    then have "rdp_seq_search (length (rd_rx_queue r)) (irs + of_nat m) (nd_pool w) (rd_rx_queue r) = Some (True, q)"
      using s by simp
    from seq_search_found [OF this] obtain p' h where "p' \<in> set (rd_rx_queue r)"
      "csp_rdp_header_ref (buf_packet (nd_pool w) p') = Some h" "rh_seq_nr h = irs + of_nat m" by blast
    then show "m \<in> S" using qh near by (fastforce simp: queue_holds_def holds_def)
  next
    assume "m \<in> S"
    then obtain p' where "p' \<in> set (rd_rx_queue r)" "holds stream irs w p' m" using qh by (auto simp: queue_holds_def)
    moreover have "\<not> b \<Longrightarrow> \<exists>h. csp_rdp_header_ref (buf_packet (nd_pool w) p') = Some h \<and> rh_seq_nr h \<noteq> irs + of_nat m"
      using seq_search_none [of "length (rd_rx_queue r)" _ "nd_pool w" "rd_rx_queue r" q p'] s calculation by simp
    ultimately show b by (cases b) (auto simp: holds_def)
  qed
  have pq: "p \<notin> set (rd_rx_queue r)"
    using rcv_bufs_apart(2) [OF assms(2), of p] by (simp add: rcv_bufs_def)
  have e: "ok = (\<not> b \<and> length q < CSP_RDP_MAX_WINDOW * 2)" "w' = w" "r' = r\<lparr>rd_rx_queue := if ok then q @ [p] else q\<rparr>"
    using assms(1) s by (auto simp: csp_rdp_rx_queue_add_def csp_rdp_seq_in_rx_queue_def rx_enqueue_def split: bool.splits if_splits)
  have l: "length q = length (rd_rx_queue r)" by (rule mset_eq_length [OF mq])
  have "queue_holds stream irs w (if ok then q @ [p] else q) (if ok then insert m S else S)"
    using queue_holds_mset [OF qh mq] queue_holds_add [OF qh pq assms(4), of "q @ [p]"] b e(1) mq by auto
  then show ?thesis
    using assms(3,5,6) e b l by (auto simp: in_order_def rdp_window_def split: if_splits)
qed

definition rcv_step :: "(nat \<Rightarrow> u8 list) \<Rightarrow> u16 \<Rightarrow> nat \<Rightarrow> nat multiset \<Rightarrow> nat \<Rightarrow> nat set \<Rightarrow> nat set \<Rightarrow> rdp_node \<Rightarrow> nat \<Rightarrow> nat set \<Rightarrow> rdp_node \<Rightarrow> bool" where
  "rcv_step stream irs c M k S A s k' S' s' \<longleftrightarrow> in_order stream irs k' S' s' \<and> took k S A k' S' \<and>
     contents c (snd s') = contents c (snd s) @ messages stream k k' \<and> same_conn c (snd s) (snd s') \<and>
     same_packets (set_mset M) (snd s) (snd s') \<and> rd_snd_una (fst s') = rd_snd_una (fst s) \<and>
     rd_snd_nxt (fst s') = rd_snd_nxt (fst s) \<and> rd_window_size (fst s') = rd_window_size (fst s)"

lemma rcv_stepI_same:
  assumes "in_order stream irs k S (r, w)" "quiet (bufs w) w w'" "acked_only r r'" "rdp_ok c M (r, w)"
  shows "rcv_step stream irs c M k S {} (r, w) k S (r', w')"
proof -
  have s: "same_packets (bufs w) w w'" using assms(2) by (simp add: quiet_def)
  note sub = rcv_bufs_apart(1) [OF assms(4)]
  have "set_mset M \<subseteq> bufs w"
    using rdp_okD(2) [OF assms(4)] owned_live by (fastforce simp: bufs_def)
  then show ?thesis
    using in_order_same [OF assms(1) s sub, of r'] contents_same [OF _ s sub] acked_only_fields [OF assms(3)]
      quiet_same_conn [OF assms(2)] same_packets_mono [OF s] assms(2)
    by (simp add: rcv_step_def quiet_def)
qed

lemma M_in_bufs: "rdp_ok c M (r, w) \<Longrightarrow> set_mset M \<subseteq> bufs w"
  using rdp_okD(2) owned_live by (fastforce simp: bufs_def)

context csp_link begin

lemma in_sequence_in_order:
  assumes "rdp_in_sequence nh nonce c p (irs + of_nat (Suc k)) (r, w) = Some (ex, r', w')"
    and ok: "rdp_ok c (add_mset p M) (r, w)" and io: "in_order stream irs k S (r, w)"
    and pay: "rdp_payload (buf_packet (nd_pool w) p) = stream (Suc k)"
    and room: "length (cn_rx_queue (nd_conns w ! c)) + length (rd_rx_queue r) < CSP_RX_QUEUE_LENGTH"
  shows "\<exists>k' S' A. rdp_ok c (held p ex M) (r', w') \<and> rcv_step stream irs c M k S A (r, w) k' S' (r', w') \<and> A \<subseteq> {Suc k} \<and>
    (cn_socket (nd_conns w ! c) = None \<longrightarrow> A = {Suc k})"
proof -
  obtain e w1 where rc: "csp_rdp_receive_data c p w = Some (e, w1)"
    using assms(1) by (auto simp: rdp_in_sequence_def split: option.splits)
  note rk = receive_data_keeps [OF rc ok]
  have d: "delivered c p (e = CSP_ERR_NONE) w w1" using rk by simp
  have same: "same_packets (- {p}) w w1" using d by (simp add: delivered_def)
  have apart: "rcv_bufs c (r, w) \<subseteq> - {p}" using rcv_bufs_apart(2) [OF ok, of p] by auto
  have pM: "set_mset M \<subseteq> - {p}" using owned_distinct [of p "rdp_refs r + M" w] rdp_okD(2) [OF ok] by auto
  have qh: "queue_holds stream irs w1 (rd_rx_queue r) S"
    using queue_holds_same [OF same _] io apart by (auto simp: in_order_def rcv_bufs_def)
  show ?thesis
  proof (cases "e = CSP_ERR_NONE")
    case False
    then have ex: "ex = DiscardOpen" "r' = r" "w' = w1" using assms(1) rc by (simp_all add: rdp_in_sequence_def)
    have "rcv_step stream irs c M k S {} (r, w) k S (r, w1)"
      using in_order_same [OF io same apart, of r] contents_same [OF _ same apart] d False delivered_same_conn [OF d]
        same_packets_mono [OF same pM] by (simp add: rcv_step_def delivered_def)
    moreover have "cn_socket (nd_conns w ! c) \<noteq> None" using rk False room by auto
    ultimately show ?thesis using ex rk False by (intro exI [of _ k] exI [of _ S] exI [of _ "{}"]) (simp add: held_def)
  next
    case True
    let ?r = "r\<lparr>rd_rcv_cur := irs + of_nat (Suc k)\<rparr>"
    obtain e2 r2 w2 where s: "(if of_nat (length (cn_rx_queue (nd_conns w1 ! c))) + rd_window_size ?r \<le> of_nat CSP_RX_QUEUE_LENGTH \<and>
         csp_rdp_should_ack (?r, w1)
       then csp_rdp_send_cmp nh nonce c None RDP_ACK (rd_snd_nxt ?r) (rd_rcv_cur ?r) (?r, w1)
       else Some (CSP_ERR_NONE, ?r, w1)) = Some (e2, r2, w2)"
      and fl: "csp_rdp_rx_queue_flush c (r2, w2) = Some (r', w')" and ex: "ex = AcceptedOpen"
      using assms(1) rc True by (auto simp: rdp_in_sequence_def Let_def split: option.splits if_splits)
    have ok1: "rdp_ok c M (?r, w1)" using rk True by simp
    have k2: "rdp_ok c M (r2, w2) \<and> quiet (bufs w1) w1 w2 \<and> acked_only ?r r2"
      using s ok1 send_plain_keeps [OF _ ok1] by (auto split: if_splits)
    note f2 = acked_only_fields [of ?r r2]
    have s2: "same_packets (bufs w1) w1 w2" "nd_conns w2 = nd_conns w1" using k2 by (simp_all add: quiet_def)
    have b1: "rcv_bufs c (?r, w1) \<subseteq> bufs w1" by (rule rcv_bufs_apart(1) [OF ok1])
    have qh2: "queue_holds stream irs w2 (rd_rx_queue r2) S"
      using queue_holds_same [OF s2(1) _ qh] b1 f2 k2 by (auto simp: rcv_bufs_def)
    have sub: "S \<subseteq> {Suc k<..Suc k + rdp_window r}" using io by (auto simp: in_order_def)
    have sock: "cn_socket (nd_conns w2 ! c) = None" using d True s2(2) by (simp add: delivered_def)
    have room2: "length (cn_rx_queue (nd_conns w2 ! c)) + length (rd_rx_queue r2) \<le> CSP_RX_QUEUE_LENGTH"
      using room d True s2(2) f2 k2 by (simp add: delivered_def)
    have cur: "rd_rcv_cur r2 = irs + of_nat (Suc k)" using f2 k2 by simp
    obtain k' q where k': "Suc k \<le> k'" "{Suc k<..k'} \<subseteq> S" "Suc k' \<notin> S" "rd_rcv_cur r' = irs + of_nat k'"
      "queue_holds stream irs w' (rd_rx_queue r') (S - {..k'})"
      "contents c w' = contents c w2 @ messages stream (Suc k) k'" "rdp_ok c M (r', w')"
      "r' = r2\<lparr>rd_rx_queue := q, rd_rcv_cur := irs + of_nat k'\<rparr>" "cn_socket (nd_conns w' ! c) = None"
      "cn_idout (nd_conns w' ! c) = cn_idout (nd_conns w2 ! c)" "nd_now w' = nd_now w2"
      "\<forall>n. roomy n w2 \<longrightarrow> roomy n w'" "same_packets (- rcv_bufs c (r2, w2)) w2 w'"
      using flush_in_order [OF fl conjunct1 [OF k2] cur qh2 sub rdp_window_less sock room2] by blast
    have not_in: "Some p \<notin> set (cn_rx_queue (nd_conns w ! c))" using apart by (auto simp: rcv_bufs_def)
    have "contents c w2 = contents c w @ messages stream k (Suc k)"
      using contents_same [OF _ s2(1) b1] delivered_contents [OF _ not_in, of w1] d True pay s2(2)
      by (simp add: messages_Suc)
    then have con: "contents c w' = contents c w @ messages stream k k'"
      using k'(1,6) messages_append [of k "Suc k" k' stream] by simp
    have "S - {..k'} \<subseteq> {Suc k'<..k' + rdp_window r}"
    proof
      fix x assume x: "x \<in> S - {..k'}"
      then have "x \<noteq> Suc k'" "k' < x" "x \<le> Suc k + rdp_window r" using k'(3) sub by auto
      moreover have "x \<le> k + rdp_window r" using x io by (auto simp: in_order_def)
      ultimately show "x \<in> {Suc k'<..k' + rdp_window r}" using k'(1) by simp
    qed
    moreover have "rdp_window r' = rdp_window r" "rd_state r' = RDP_OPEN" "0 < rdp_window r"
      using k'(8) f2 k2 io by (simp_all add: rdp_window_def in_order_def)
    ultimately have "in_order stream irs k' (S - {..k'}) (r', w')"
      using k'(4,5) by (simp add: in_order_def)
    moreover have "took k S {Suc k} k' (S - {..k'})"
      unfolding took_def
    proof
      show "{..k'} \<union> (S - {..k'}) = {..k} \<union> S \<union> {Suc k}"
      proof (intro equalityI subsetI)
        fix x assume "x \<in> {..k'} \<union> (S - {..k'})"
        then have "x \<le> k \<or> x = Suc k \<or> x \<in> {Suc k<..k'} \<or> x \<in> S" by auto
        then show "x \<in> {..k} \<union> S \<union> {Suc k}" using k'(2) by blast
      qed (use k'(1) in auto)
    qed (use k'(1) in simp)
    moreover have "same_conn c w w'"
      using delivered_same_conn [OF d] quiet_same_conn [of "bufs w1" w1 w2 c] k2 k'(9-12)
      by (auto simp: same_conn_def)
    moreover have "same_packets (set_mset M) w w'"
    proof -
      have "set_mset M \<subseteq> - rcv_bufs c (r2, w2)" using rcv_bufs_apart(2) [OF conjunct1 [OF k2]] by auto
      from same_packets_mono [OF k'(13) this] have "same_packets (set_mset M) w2 w'" .
      from same_packets_trans [OF same_packets_mono [OF s2(1) M_in_bufs [OF ok1]] this order.refl]
      have "same_packets (set_mset M) w1 w'" .
      from same_packets_trans [OF same_packets_mono [OF same pM] this order.refl] show ?thesis .
    qed
    moreover have "rd_snd_una r' = rd_snd_una r" "rd_snd_nxt r' = rd_snd_nxt r" "rd_window_size r' = rd_window_size r"
      using k'(8) f2 k2 by simp_all
    ultimately have "rcv_step stream irs c M k S {Suc k} (r, w) k' (S - {..k'}) (r', w')"
      using con by (simp add: rcv_step_def)
    then show ?thesis using ex k'(7) by (intro exI [of _ k'] exI [of _ "S - {..k'}"] exI [of _ "{Suc k}"]) (simp add: held_def)
  qed
qed

lemma out_of_sequence_in_order:
  assumes "rdp_out_of_sequence nh nonce c p (irs + of_nat m) (r, w) = Some (ex, r', w')"
    and ok: "rdp_ok c (add_mset p M) (r, w)" and io: "in_order stream irs k S (r, w)" and h: "holds stream irs w p m"
    and m: "Suc k < m" "m \<le> k + rdp_window r"
  shows "\<exists>S' A. rdp_ok c (held p ex M) (r', w') \<and> rcv_step stream irs c M k S A (r, w) k S' (r', w') \<and> A \<subseteq> {m} \<and>
    (m \<notin> S \<and> length (rd_rx_queue r) < CSP_RDP_MAX_WINDOW * 2 \<longrightarrow> A = {m})"
proof -
  obtain b r1 w1 where a: "csp_rdp_rx_queue_add p (irs + of_nat m) (r, w) = Some (b, r1, w1)"
    using assms(1) by (auto simp: rdp_out_of_sequence_def split: option.splits)
  note qa = queue_add_in_order [OF a ok io h m]
  note ak = rx_queue_add_keeps [OF a ok]
  have w1: "w1 = w" using qa by simp
  have r1: "rd_snd_una r1 = rd_snd_una r" "rd_snd_nxt r1 = rd_snd_nxt r" "rd_window_size r1 = rd_window_size r"
    using qa by (metis csp_rdp.select_convs csp_rdp.surjective csp_rdp.update_convs(17))+
  have step: "rcv_step stream irs c M k S (if b then {m} else {}) (r, w) k (if b then insert m S else S) (r1, w)"
    using qa r1 by (auto simp: rcv_step_def took_def w1)
  show ?thesis
  proof (cases b)
    case False
    then have "ex = DiscardOpen" "r' = r1" "w' = w" using assms(1) a w1 by (simp_all add: rdp_out_of_sequence_def)
    then show ?thesis using step ak qa False by (intro exI [of _ S] exI [of _ "{}"]) (auto simp: held_def)
  next
    case True
    then obtain e where e: "csp_rdp_send_eack nh nonce c (r1, w) = Some (e, r', w')" "ex = AcceptedOpen"
      using assms(1) a w1 by (auto simp: rdp_out_of_sequence_def)
    have ok1: "rdp_ok c M (r1, w)" using ak True w1 by auto
    note ek = send_eack_keeps [OF e(1) ok1]
    have io1: "in_order stream irs k (insert m S) (r1, w)" using qa True w1 by simp
    have "rcv_step stream irs c M k (insert m S) {} (r1, w) k (insert m S) (r', w')"
      by (rule rcv_stepI_same [OF io1 _ _ ok1]) (use ek in simp_all)
    then have "rcv_step stream irs c M k S {m} (r, w) k (insert m S) (r', w')"
      using step True by (auto simp: rcv_step_def took_def same_conn_def same_packets_def)
    then show ?thesis using ek e(2) by (intro exI [of _ "insert m S"] exI [of _ "{m}"]) (simp add: held_def)
  qed
qed

end

context csp_link begin

lemma open_in_order:
  assumes h: "rdp_in_open nh nonce c p h (r, w) = Some (ex, r', w')"
    and ok: "rdp_ok c (add_mset p M) (r, w)" and io: "in_order stream irs k S (r, w)"
    and hp: "holds stream irs w p m" "sizeof_rdp_header < pkt_length (buf_packet (nd_pool w) p)"
    and hh: "rh_seq_nr h = irs + of_nat m" "\<not> rh_syn h" "rh_ack h" "\<not> rh_eak h"
    and m: "k < m + (2 ^ 16 - rdp_window r)" "m \<le> k + 2 ^ 16"
    and room: "length (cn_rx_queue (nd_conns w ! c)) + length (rd_rx_queue r) < CSP_RX_QUEUE_LENGTH"
  shows "\<exists>k' S' A. rdp_ok c (held p ex M) (r', w') \<and> (\<exists>una. una \<in> {rd_snd_una r, rh_ack_nr h + 1} \<and>
       rcv_step stream irs c M k S A (r\<lparr>rd_snd_una := una\<rparr>, w) k' S' (r', w')) \<and> A \<subseteq> {m} \<and>
     (rdp_ack_valid r (rh_ack_nr h) \<and> k < m \<and> m \<le> k + rdp_window r \<and> cn_socket (nd_conns w ! c) = None \<and>
        length (rd_rx_queue r) < CSP_RDP_MAX_WINDOW * 2 \<longrightarrow> m \<in> S \<or> A = {m})"
proof -
  note k = rdp_okD [OF ok]
  have st: "rd_state r = RDP_OPEN" and cur: "rd_rcv_cur r = irs + of_nat k" and win: "0 < rdp_window r"
    using io by (simp_all add: in_order_def)
  have between: "csp_rdp_seq_between (rh_seq_nr h) (rd_rcv_cur r + 1) (rd_rcv_cur r + ucast (rd_window_size r * 2)) \<longleftrightarrow>
      k < m \<and> m \<le> k + rdp_window r"
    using seq_window [OF win rdp_window_less m, of irs] by (simp add: hh(1) cur rdp_window_of_nat)
  have stay: "rcv_step stream irs c M k S {} (r, w) k S (r', w')" if "quiet (bufs w) w w'" "acked_only r r'"
    using rcv_stepI_same [OF io that ok] by (auto simp: rcv_step_def same_packets_def)
  have same: "r\<lparr>rd_snd_una := rd_snd_una r\<rparr> = r" by simp
  show ?thesis
  proof (cases "k < m \<and> m \<le> k + rdp_window r")
    case False
    then obtain e where e: "csp_rdp_send_eack nh nonce c (r, w) = Some (e, r', w')" "ex = DiscardOpen"
      using h hh st between by (auto simp: rdp_in_open_def)
    note ek = send_eack_keeps [OF e(1) ok]
    show ?thesis
      by (rule exI [of _ k], rule exI [of _ S], rule exI [of _ "{}"])
        (use ek stay e(2) False in \<open>auto simp: held_def intro: exI [of _ "rd_snd_una r"]\<close>)
  next
    case inside: True
    show ?thesis
    proof (cases "rdp_ack_valid r (rh_ack_nr h)")
      case False
      then have e: "r' = r" "w' = w" "ex = DiscardOpen" using h hh inside between by (auto simp: rdp_in_open_def)
      show ?thesis
        by (rule exI [of _ k], rule exI [of _ S], rule exI [of _ "{}"])
          (use stay e False ok in \<open>auto simp: held_def intro: exI [of _ "rd_snd_una r"]\<close>)
    next
      case True
      let ?r = "r\<lparr>rd_snd_una := rh_ack_nr h + 1\<rparr>"
      have e: "r\<lparr>rd_state := RDP_OPEN\<rparr> = r" using st by simp
      have "rdp_acked_packet nh nonce c p h (r\<lparr>rd_state := RDP_OPEN\<rparr>, w) = Some (ex, r', w')"
        using h hh inside between True st by (simp add: rdp_in_open_def)
      then have a: "rdp_acked_packet nh nonce c p h (r, w) = Some (ex, r', w')" unfolding e .
      have ok1: "rdp_ok c (add_mset p M) (?r, w)" using ok by simp
      have io1: "in_order stream irs k S (?r, w)" using io by (simp add: in_order_def rdp_window_def)
      have seq: "rh_seq_nr h = rd_rcv_cur r + 1 \<longleftrightarrow> m = Suc k"
      proof
        assume "rh_seq_nr h = rd_rcv_cur r + 1"
        then have "irs + of_nat m = irs + of_nat (Suc k)" using hh(1) cur by simp
        then show "m = Suc k" by (rule seq_inject) (use inside rdp_window_less [of r] in auto)
      qed (simp add: hh(1) cur)
      show ?thesis
      proof (cases "m = Suc k")
        case True
        then have sq: "rh_seq_nr h = rd_rcv_cur r + 1" using seq by simp
        then have "rdp_acked_packet nh nonce c p h (r, w) = rdp_in_sequence nh nonce c p (rh_seq_nr h) (?r, w)"
          using hh(4) hp(2) by (simp add: rdp_acked_packet_def Let_def)
        then have "rdp_in_sequence nh nonce c p (irs + of_nat (Suc k)) (?r, w) = Some (ex, r', w')"
          using a hh(1) True by simp
        moreover have "rdp_payload (buf_packet (nd_pool w) p) = stream (Suc k)" using hp(1) True by (auto simp: holds_def)
        moreover have "length (cn_rx_queue (nd_conns w ! c)) + length (rd_rx_queue ?r) < CSP_RX_QUEUE_LENGTH"
          using room by simp
        ultimately obtain k' S' A where o': "rdp_ok c (held p ex M) (r', w')"
          "rcv_step stream irs c M k S A (?r, w) k' S' (r', w')" "A \<subseteq> {Suc k}"
          "cn_socket (nd_conns w ! c) = None \<longrightarrow> A = {Suc k}"
          using in_sequence_in_order [OF _ ok1 io1] by blast
        show ?thesis
          by (rule exI [of _ k'], rule exI [of _ S'], rule exI [of _ A]) (use o' True in auto)
      next
        case False
        then have sq: "rh_seq_nr h \<noteq> rd_rcv_cur r + 1" using seq by simp
        then have "rdp_acked_packet nh nonce c p h (r, w) = rdp_out_of_sequence nh nonce c p (rh_seq_nr h) (?r, w)"
          using hh(4) hp(2) by (simp add: rdp_acked_packet_def Let_def)
        then have o: "rdp_out_of_sequence nh nonce c p (irs + of_nat m) (?r, w) = Some (ex, r', w')"
          using a hh(1) by simp
        have "rdp_window ?r = rdp_window r" by (simp add: rdp_window_def)
        then have m': "Suc k < m" "m \<le> k + rdp_window ?r" using False inside by linarith+
        obtain S' A where o': "rdp_ok c (held p ex M) (r', w')" "rcv_step stream irs c M k S A (?r, w) k S' (r', w')"
          "A \<subseteq> {m}" "m \<notin> S \<and> length (rd_rx_queue ?r) < CSP_RDP_MAX_WINDOW * 2 \<longrightarrow> A = {m}"
          using out_of_sequence_in_order [OF o ok1 io1 hp(1) m'] by blast
        show ?thesis
          by (rule exI [of _ k], rule exI [of _ S'], rule exI [of _ A]) (use o' in auto)
      qed
    qed
  qed
qed

lemma new_packet_in_order:
  assumes np: "csp_rdp_new_packet nh nonce iss c p (r, w) = Some (r', w')"
    and ok: "rdp_ok c (add_mset p M) (r, w)" and io: "in_order stream irs k S (r, w)"
    and car: "carries stream irs ack w p m"
    and m: "k < m + (2 ^ 16 - rdp_window r)" "m \<le> k + 2 ^ 16"
    and room: "length (cn_rx_queue (nd_conns w ! c)) + length (rd_rx_queue r) < CSP_RX_QUEUE_LENGTH"
  shows "\<exists>k' S' A una. rdp_ok c M (r', w') \<and> una \<in> {rd_snd_una r, ack + 1} \<and>
     rcv_step stream irs c M k S A (r\<lparr>rd_snd_una := una\<rparr>, w) k' S' (r', w') \<and> A \<subseteq> {m} \<and>
     (rdp_ack_valid r ack \<and> k < m \<and> m \<le> k + rdp_window r \<and> cn_socket (nd_conns w ! c) = None \<and>
        length (rd_rx_queue r) < CSP_RDP_MAX_WINDOW * 2 \<longrightarrow> m \<in> S \<or> A = {m})"
proof -
  note k = rdp_okD [OF ok]
  obtain h0 where h0: "csp_rdp_header_ref (buf_packet (nd_pool w) p) = Some h0" "\<not> rh_rst h0" "\<not> rh_syn h0"
    "\<not> rh_eak h0" "rh_ack h0" "csp_ntoh16 (rh_seq_nr h0) = irs + of_nat m" "csp_ntoh16 (rh_ack_nr h0) = ack"
    "rdp_payload (buf_packet (nd_pool w) p) = stream m" "stream m \<noteq> []"
    using car by (auto simp: carries_def)
  define h where "h = h0\<lparr>rh_seq_nr := irs + of_nat m, rh_ack_nr := ack\<rparr>"
  let ?pk = "rdp_header_write h (buf_packet (nd_pool w) p)"
  define w1 where "w1 = put_packet p ?pk w"
  have hok: "rdp_header_ok h" using rdp_header_ref_ok [OF h0(1)] by (simp add: h_def)
  note len = header_ref_length [OF h0(1)]
  have at: "buf_packet (nd_pool w1) p = ?pk" unfolding w1_def by (rule put_packet_at [OF k(2), THEN trans]) auto
  have holds1: "holds stream irs w1 p m" using hok len h0(8) by (simp add: holds_def at h_def)
  have len1: "sizeof_rdp_header < pkt_length (buf_packet (nd_pool w1) p)"
    using payload_length [OF h0(1)] h0(8,9) len by (simp add: at)
  have ok1: "rdp_ok c (add_mset p M) (r, w1)" unfolding w1_def by (rule rdp_ok_put [OF ok])
  have q1: "quiet (- {p}) w w1" unfolding w1_def by (rule quiet_put [OF k(7)]) simp_all
  have apart: "rcv_bufs c (r, w) \<subseteq> - {p}" using rcv_bufs_apart(2) [OF ok, of p] by auto
  have same1: "same_packets (- {p}) w w1" and conns1: "nd_conns w1 = nd_conns w" using q1 by (simp_all add: quiet_def)
  have io1: "in_order stream irs k S (r, w1)" using in_order_same [OF io same1 apart] by simp
  have con1: "contents c w1 = contents c w" using contents_same [OF _ same1 apart] conns1 by simp
  obtain ex r2 w2 where hd: "rdp_handle nh nonce iss c p h (r, w1) = Some (ex, r2, w2)"
    and exit: "rdp_exit_to nh nonce c p ex (r2, w2) = Some (r', w')"
    using np h0(1,6,7) by (auto simp: csp_rdp_new_packet_def Let_def h_def w1_def split: option.splits)
  have st0: "rd_state r = RDP_OPEN" using io by (simp add: in_order_def)
  then have op: "rdp_in_open nh nonce c p h (r, w1) = Some (ex, r2, w2)"
    using hd h0(2) by (simp add: rdp_handle_def h_def)
  have hf: "rh_seq_nr h = irs + of_nat m" "\<not> rh_syn h" "rh_ack h" "\<not> rh_eak h" "rh_ack_nr h = ack"
    using h0 by (simp_all add: h_def)
  obtain k' S' A una where st: "rdp_ok c (held p ex M) (r2, w2)" "una \<in> {rd_snd_una r, ack + 1}"
    "rcv_step stream irs c M k S A (r\<lparr>rd_snd_una := una\<rparr>, w1) k' S' (r2, w2)" "A \<subseteq> {m}"
    "rdp_ack_valid r ack \<and> k < m \<and> m \<le> k + rdp_window r \<and> cn_socket (nd_conns w1 ! c) = None \<and>
        length (rd_rx_queue r) < CSP_RDP_MAX_WINDOW * 2 \<longrightarrow> m \<in> S \<or> A = {m}"
    using open_in_order [OF op ok1 io1 holds1 len1 hf(1-4) m, unfolded hf(5) conns1] room conns1 by auto
  have ex: "ex = DiscardOpen \<or> ex = AcceptedOpen"
    using op hf st0 by (auto simp: rdp_in_open_def rdp_acked_packet_def rdp_out_of_sequence_def rdp_in_sequence_def Let_def
        split: if_splits option.splits prod.splits bool.splits)
  have r': "r' = r2" "w' = w2 \<or> w' = free_packet (Some p) w2"
    using exit ex by (auto simp: rdp_exit_to_def)
  have "rdp_ok c ({#} + M) (r', w')" by (rule exit_keeps [OF exit]) (use st(1) in simp)
  moreover have "same_packets (set_mset M) w w1"
    using same_packets_mono [OF same1] owned_distinct [of p "rdp_refs r + M" w] k(2) by auto
  then have "rcv_step stream irs c M k S A (r\<lparr>rd_snd_una := una\<rparr>, w) k' S' (r', w')"
    using st(3) r' con1 quiet_same_conn [OF q1, of c]
    by (auto simp: rcv_step_def same_conn_def free_packet_def roomy_def same_packets_def contents_def
        in_order_def queue_holds_def holds_def)
  ultimately show ?thesis
    using st(2,4,5) conns1 by (intro exI [of _ k'] exI [of _ S'] exI [of _ A] exI [of _ una]) simp
qed

end

section \<open>No packet stops the receiver\<close>

lemma id_dst_less: "id_dst i < 32"
proof -
  have "unat (id_dst i) < 2 ^ 5"
    using take_bit_nat_less_exp [of 5 "unat (drop_bit 20 i)"]
    by (simp add: id_dst_def get_field_def unsigned_ucast_eq unsigned_take_bit_eq)
  then show ?thesis by (simp add: word_less_nat_alt)
qed

lemma find_iface_total: "node_ok w \<Longrightarrow> \<exists>ifout. node_find_iface (id_dst i) w = Some ifout"
  using id_dst_less [of i] unfolding node_ok_def
  by (auto simp: node_find_iface_def static_find_iface_def static_find_def static_ok_def CSP_ROUTE_COUNT_def
      CSP_DEFAULT_ROUTE_def word_less_nat_alt)

lemma owned_roomy: "owned (add_mset p M) w \<Longrightarrow> roomy n w \<Longrightarrow> n \<le> pkt_cap (buf_packet (nd_pool w) p)"
  using owned_count [of "add_mset p M" w p] by (simp add: roomy_def)

context csp_link begin

lemma transmit_total:
  assumes "node_ok w" "pkt_length (buf_packet (nd_pool w) p) + 12 \<le> pkt_cap (buf_packet (nd_pool w) p)"
  shows "\<exists>e w'. rdp_transmit nh nonce idout (Some p) w = Some (e, w')"
proof -
  obtain ifout where f: "node_find_iface (id_dst idout) w = Some ifout" using find_iface_total [OF assms(1)] by blast
  show ?thesis
  proof (cases "\<exists>i tx. ifout = Some i \<and> nh i = Some tx")
    case False
    then show ?thesis using f by (auto simp: rdp_transmit_def csp_send_direct_def split: option.splits)
  next
    case True
    then obtain i tx where i: "ifout = Some i" "nh i = Some tx" by blast
    let ?pk = "(buf_packet (nd_pool w) p)\<lparr>pkt_id := idout\<rparr>"
    have hk: "nd_hmac_key w \<noteq> []" using assms(1) by (simp add: node_ok_def)
    have "\<exists>e pk. (if id_src idout = nd_address w then send_security (nd_hmac_key w) (nd_xtea_key w) nonce idout ?pk
         else Some (CSP_ERR_NONE, Some ?pk)) = Some (e, Some pk)"
      using send_security_eq [OF hk, of ?pk "nd_xtea_key w" nonce idout] assms(2) by (auto simp: pkt_length_def)
    then obtain e pk where s: "(if id_src idout = nd_address w then send_security (nd_hmac_key w) (nd_xtea_key w) nonce idout ?pk
         else Some (CSP_ERR_NONE, Some ?pk)) = Some (e, Some pk)" by blast
    obtain e2 w2 where t: "tx p (put_packet p pk w) = Some (e2, w2)" using tx_answers [OF i(2)] by blast
    show ?thesis using f i s t by (simp add: rdp_transmit_def csp_send_direct_def Let_def)
  qed
qed

lemma send_cmp_total:
  assumes "rdp_ok c (given packet + M) (r, w)" "roomy 20 w"
    "\<And>p. packet = Some p \<Longrightarrow> pkt_length (buf_packet (nd_pool w) p) + 17 \<le> pkt_cap (buf_packet (nd_pool w) p)"
  shows "\<exists>e s'. csp_rdp_send_cmp nh nonce c packet flags seq ack (r, w) = Some (e, s')"
proof -
  note k = rdp_okD [OF assms(1)]
  obtain x w1 where g: "(case packet of None \<Rightarrow> rdp_get_buffer 20 w | Some p \<Rightarrow> (Some p, w)) = (x, w1)" by fastforce
  show ?thesis
  proof (cases x)
    case None
    then show ?thesis using g by (simp add: csp_rdp_send_cmp_def)
  next
    case (Some p)
    have p: "rdp_ok c (add_mset p M) (r, w1) \<and> pkt_length (buf_packet (nd_pool w1) p) + 17 \<le> pkt_cap (buf_packet (nd_pool w1) p)"
    proof (cases packet)
      case (Some p')
      then show ?thesis using g assms(1,3) \<open>x = Some p\<close> by simp
    next
      case None
      then have g': "rdp_get_buffer 20 w = (x, w1)" using g by simp
      have q: "quiet (bufs w) w w1" by (rule get_buffer_quiet [OF g' k(1,2)])
      show ?thesis
      proof (cases rule: rdp_get_buffer_cases [OF g' k(1,2)])
        case 1
        then show ?thesis using Some by simp
      next
        case (2 p')
        then have "p' = p" using Some by simp
        note b = 2 [unfolded this]
        have "roomy 20 w1" using q assms(2) by (simp add: quiet_def)
        from owned_roomy [OF b(5) this] b(8) show ?thesis
          using b k quiet_bound [OF q] None by (intro conjI rdp_okI) (simp_all add: pkt_length_def)
      qed
    qed
    define pk where "pk = (buf_packet (nd_pool w1) p)\<lparr>pkt_data := pkt_data (buf_packet (nd_pool w1) p) @ replicate sizeof_rdp_header 0\<rparr>"
    have a: "csp_rdp_header_add (buf_packet (nd_pool w1) p) = Some pk"
      using p by (simp add: rdp_header_add_eq pk_def sizeof_rdp_header_def)
    define w2 where "w2 = put_packet p (rdp_header_write (rdp_control_header flags seq ack) pk) w1"
    have ok2: "rdp_ok c (add_mset p M) (r, w2)" unfolding w2_def using p by (intro rdp_ok_put) simp
    obtain ok r3 w3 where ks: "rdp_keep_syn flags p (r, w2) = (ok, r3, w3)" by (metis surj_pair)
    show ?thesis
    proof (cases ok)
      case False
      then show ?thesis using g Some a ks by (simp add: csp_rdp_send_cmp_def Let_def w2_def)
    next
      case True
      note kk = rdp_keep_syn_keeps [OF ks ok2 union_single_eq_member]
      have at2: "buf_packet (nd_pool w2) p = rdp_header_write (rdp_control_header flags seq ack) pk"
        unfolding w2_def using p by (intro put_packet_at [THEN trans, of "rdp_refs r + add_mset p M"]) (auto simp: rdp_ok_def)
      have "p \<in> bufs w2" using M_in_bufs [OF ok2] by simp
      then have "buf_packet (nd_pool w3) p = buf_packet (nd_pool w2) p"
        using kk by (simp add: quiet_def same_packets_def)
      then have "pkt_length (buf_packet (nd_pool w3) p) + 12 \<le> pkt_cap (buf_packet (nd_pool w3) p)"
        using p at2 by (simp add: pk_def pkt_length_def rdp_header_write_def sizeof_rdp_header_def)
      with rdp_okD(1) [OF conjunct1 [OF kk]] obtain e w4 where
        "rdp_transmit nh nonce (set_pri (if id_pri (cn_idout (nd_conns w3 ! c)) < CSP_PRIO_HIGH
           then id_pri (cn_idout (nd_conns w3 ! c)) else CSP_PRIO_HIGH) (cn_idout (nd_conns w3 ! c))) (Some p) w3 = Some (e, w4)"
        using transmit_total by blast
      then show ?thesis using g Some a ks True by (simp add: csp_rdp_send_cmp_def Let_def w2_def)
    qed
  qed
qed

end

lemma eack_loop_total:
  assumes "length (rd_rx_queue r) \<le> CSP_RDP_MAX_WINDOW * 2" "n \<le> length (rd_rx_queue r)" "pool_ok (nd_pool w)"
    "e < pool_count (nd_pool w)" "e \<notin> set (rd_rx_queue r)"
    "\<forall>p \<in> set (rd_rx_queue r). csp_rdp_header_ref (buf_packet (nd_pool w) p) \<noteq> None"
    "pkt_length (buf_packet (nd_pool w) e) + 2 * n \<le> pkt_cap (buf_packet (nd_pool w) e)"
  shows "\<exists>s'. rdp_eack_loop n e (r, w) = Some s'"
  using assms
proof (induction n arbitrary: r w)
  case (Suc n)
  then obtain p q where q: "rd_rx_queue r = p # q" by (cases "rd_rx_queue r") auto
  obtain h where h: "csp_rdp_header_ref (buf_packet (nd_pool w) p) = Some h" using Suc.prems(6) q by auto
  define pk where "pk = (buf_packet (nd_pool w) e)\<lparr>pkt_data := pkt_data (buf_packet (nd_pool w) e) @ le16 (csp_hton16 (rh_seq_nr h))\<rparr>"
  have a: "pkt_append (le16 (csp_hton16 (rh_seq_nr h))) (buf_packet (nd_pool w) e) = Some pk"
    using Suc.prems(7) by (simp add: pkt_append_def pk_def)
  have r1: "snd (rx_enqueue p (r\<lparr>rd_rx_queue := q\<rparr>)) = r\<lparr>rd_rx_queue := q @ [p]\<rparr>"
    using Suc.prems(1) q by (simp add: rx_enqueue_def)
  have at: "buf_packet (nd_pool (put_packet e pk w)) x = (if x = e then pk else buf_packet (nd_pool w) x)" for x
    using Suc.prems(3,4) by (simp add: put_packet_def buf_packet_set_packet)
  have "\<exists>s'. rdp_eack_loop n e (r\<lparr>rd_rx_queue := q @ [p]\<rparr>, put_packet e pk w) = Some s'"
  proof (rule Suc.IH)
    show "pool_ok (nd_pool (put_packet e pk w))" "e < pool_count (nd_pool (put_packet e pk w))"
      using Suc.prems(3,4) by (simp_all add: put_packet_def)
  qed (use Suc.prems q at in \<open>auto simp: pk_def pkt_length_def\<close>)
  then show ?case using q h a r1 by simp
qed simp

lemma receive_data_total:
  assumes "rdp_ok c (add_mset p M) (r, w)" "csp_rdp_header_ref (buf_packet (nd_pool w) p) \<noteq> None"
  shows "\<exists>e w'. csp_rdp_receive_data c p w = Some (e, w')"
proof -
  obtain ok w1 where t: "(case cn_socket (nd_conns w ! c) of
              None \<Rightarrow> (True, w)
            | Some q \<Rightarrow>
                (case sock_enqueue q (ItemConn c) w of
                   (False, w) \<Rightarrow> (False, w)
                 | (True, w) \<Rightarrow> (True, set_conn c ((nd_conns w ! c)\<lparr>cn_socket := None\<rparr>) w))) = (ok, w1)"
    by fastforce
  have "nd_pool w1 = nd_pool w" using take_socket_keeps [OF t] rdp_okD [OF assms(1)] by blast
  then obtain pk where "csp_rdp_header_remove (buf_packet (nd_pool w1) p) = Some pk"
    using assms(2) by (auto simp: csp_rdp_header_remove_def csp_rdp_header_ref_def split: if_splits)
  then show ?thesis using t by (auto simp: csp_rdp_receive_data_def split: prod.splits bool.splits)
qed

lemma flush_total:
  assumes "rdp_ok c M (r, w)" "\<forall>p \<in> set (rd_rx_queue r). csp_rdp_header_ref (buf_packet (nd_pool w) p) \<noteq> None"
  shows "\<exists>s'. csp_rdp_rx_queue_flush c (r, w) = Some s'"
  using assms
proof (induction c "(r, w)" arbitrary: r w M rule: csp_rdp_rx_queue_flush.induct)
  case (1 c r w)
  obtain f q where s: "rdp_rx_scan (length (rd_rx_queue r)) (rd_rcv_cur r + 1) (nd_pool w) (rd_rx_queue r) = Some (f, q)"
    using rx_scan_total [OF 1(3)] by blast
  show ?case
  proof (cases f)
    case None
    then show ?thesis using s by (simp add: csp_rdp_rx_queue_flush.simps [of c r w])
  next
    case (Some p)
    let ?r = "r\<lparr>rd_rx_queue := q, rd_rcv_cur := rd_rcv_cur r + 1\<rparr>"
    have mq: "mset (rd_rx_queue r) = mset (p # q)" using rx_scan_mset [OF s] Some by simp
    note sq = mset_eq_setD [OF mq]
    have "rdp_ok c (add_mset p M) (r\<lparr>rd_rx_queue := q\<rparr>, w)"
      by (rule rdp_ok_rx_queue [OF 1(2)]) (use mq mset_eq_length [OF mq] rdp_okD(6) [OF 1(2)] in auto)
    then have ok1: "rdp_ok c (add_mset p M) (?r, w)" by (simp add: rdp_ok_def rdp_refs_def)
    obtain e w1 where rc: "csp_rdp_receive_data c p w = Some (e, w1)"
      using receive_data_total [OF ok1] 1(3) sq by auto
    note rk = receive_data_keeps [OF rc ok1]
    obtain M' where ok2: "rdp_ok c M' (?r, w1)" using rk by blast
    have "p \<notin> set q" using rcv_bufs_apart(4) [OF 1(2)] mset_eq_imp_distinct_iff [OF mq] by simp
    moreover have same: "x \<noteq> p \<Longrightarrow> buf_packet (nd_pool w1) x = buf_packet (nd_pool w) x" for x
      using rk by (simp add: delivered_def same_packets_def)
    ultimately have "\<forall>x \<in> set q. buf_packet (nd_pool w1) x = buf_packet (nd_pool w) x" by metis
    then have "\<forall>p \<in> set (rd_rx_queue ?r). csp_rdp_header_ref (buf_packet (nd_pool w1) p) \<noteq> None"
      using 1(3) sq by simp
    with 1(1) [OF s refl Some rc refl ok2] show ?thesis
      using s Some rc by (simp add: csp_rdp_rx_queue_flush.simps [of c r w])
  qed
qed

context csp_link begin

lemma send_eack_total:
  assumes "rdp_ok c M (r, w)" "roomy 100 w" "queue_holds stream irs w (rd_rx_queue r) S"
  shows "\<exists>e s'. csp_rdp_send_eack nh nonce c (r, w) = Some (e, s')"
proof -
  note k = rdp_okD [OF assms(1)]
  obtain x w1 where g: "rdp_get_buffer 100 w = (x, w1)" by fastforce
  have q: "quiet (bufs w) w w1" by (rule get_buffer_quiet [OF g k(1,2)])
  show ?thesis
  proof (cases rule: rdp_get_buffer_cases [OF g k(1,2)])
    case 1
    then show ?thesis using g by (simp add: csp_rdp_send_eack_def)
  next
    case (2 p)
    have ok1: "rdp_ok c (add_mset p M) (r, w1)"
      using 2 k quiet_bound [OF q] by (intro rdp_okI) simp_all
    note k1 = rdp_okD [OF ok1]
    have room1: "roomy 100 w1" using q assms(2) by (simp add: quiet_def)
    have cap1: "100 \<le> pkt_cap (buf_packet (nd_pool w1) p)" by (rule owned_roomy [OF 2(5) room1])
    have p: "p < pool_count (nd_pool w1)" by (rule owned_count [OF 2(5)]) simp
    have pq: "p \<notin> set (rd_rx_queue r)" using rcv_bufs_apart(2) [OF ok1, of p] by (simp add: rcv_bufs_def)
    have "queue_holds stream irs w1 (rd_rx_queue r) S"
      using queue_holds_same [OF 2(7) _ assms(3)] rcv_bufs_apart(1) [OF assms(1)] by (auto simp: rcv_bufs_def)
    then have hd: "\<forall>p \<in> set (rd_rx_queue r). csp_rdp_header_ref (buf_packet (nd_pool w1) p) \<noteq> None"
      using queue_holds_header by blast
    have len: "pkt_length (buf_packet (nd_pool w1) p) = 0" using 2(8) by (simp add: pkt_length_def)
    obtain r2 w2 where l: "rdp_eack_loop (length (rd_rx_queue r)) p (r, w1) = Some (r2, w2)"
      using eack_loop_total [OF k(6) order.refl k1(7) p pq hd] len cap1 k(6) by (auto simp: CSP_RDP_MAX_WINDOW_def)
    have t: "r2 = r" "touches p w1 w2" "pkt_length (buf_packet (nd_pool w2) p) = 2 * length (rd_rx_queue r)"
      using eack_loop_touches [OF l k(6) order.refl k1(7) p] len by simp_all
    note f = touches_facts [OF t(2) k1(7)]
    have ok2: "rdp_ok c (given (Some p) + M) (r2, w2)"
      using k1 f t(1) quiet_bound [OF f(3)] by (intro rdp_okI) simp_all
    have r2: "roomy 100 w2" using f(3) room1 by (simp add: quiet_def)
    have "100 \<le> pkt_cap (buf_packet (nd_pool w2) p)"
      using rdp_okD(2) [OF ok2] owned_roomy [of p "rdp_refs r2 + M" w2 100] r2 by simp
    then have "\<exists>e s'. csp_rdp_send_cmp nh nonce c (Some p) (RDP_ACK OR RDP_EAK) (rd_snd_nxt r2) (rd_rcv_cur r2) (r2, w2) = Some (e, s')"
      using t(3) k(6) r2 by (intro send_cmp_total [OF ok2]) (auto simp: roomy_def CSP_RDP_MAX_WINDOW_def)
    then show ?thesis using g 2(1) l by (auto simp: csp_rdp_send_eack_def)
  qed
qed

end

lemma open_exit:
  assumes "rdp_in_open nh nonce c p h (r, w) = Some (ex, s')" "\<not> rh_syn h" "rh_ack h" "rd_state r = RDP_OPEN"
  shows "ex = DiscardOpen \<or> ex = AcceptedOpen"
  using assms by (auto simp: rdp_in_open_def rdp_acked_packet_def rdp_out_of_sequence_def rdp_in_sequence_def Let_def
      split: if_splits option.splits prod.splits bool.splits)

context csp_link begin

lemma in_sequence_total:
  assumes "rdp_ok c (add_mset p M) (r, w)" "queue_holds stream irs w (rd_rx_queue r) S" "roomy 100 w"
    "csp_rdp_header_ref (buf_packet (nd_pool w) p) \<noteq> None"
  shows "\<exists>ex s'. rdp_in_sequence nh nonce c p seq (r, w) = Some (ex, s')"
proof -
  obtain e w1 where rc: "csp_rdp_receive_data c p w = Some (e, w1)" using receive_data_total [OF assms(1,4)] by blast
  note rk = receive_data_keeps [OF rc assms(1)]
  show ?thesis
  proof (cases "e = CSP_ERR_NONE")
    case False
    then show ?thesis using rc by (simp add: rdp_in_sequence_def)
  next
    case True
    let ?r = "r\<lparr>rd_rcv_cur := seq\<rparr>"
    have ok1: "rdp_ok c M (?r, w1)" using rk True by simp
    have "roomy 100 w1" using rk assms(3) by (simp add: delivered_def)
    then have r1: "roomy 20 w1" by (fastforce simp: roomy_def)
    have "p \<notin> set (rd_rx_queue r)" using rcv_bufs_apart(2) [OF assms(1), of p] by (simp add: rcv_bufs_def)
    moreover have same: "same_packets (- {p}) w w1" using rk by (simp add: delivered_def)
    ultimately have qh: "queue_holds stream irs w1 (rd_rx_queue r) S" using queue_holds_same [OF same _ assms(2)] by auto
    have "\<exists>e s'. csp_rdp_send_cmp nh nonce c None RDP_ACK (rd_snd_nxt ?r) (rd_rcv_cur ?r) (?r, w1) = Some (e, s')"
      by (rule send_cmp_total [of c None M]) (use ok1 r1 in simp_all)
    then obtain e2 r2 w2 where s: "(if of_nat (length (cn_rx_queue (nd_conns w1 ! c))) + rd_window_size ?r \<le> of_nat CSP_RX_QUEUE_LENGTH \<and>
         csp_rdp_should_ack (?r, w1)
       then csp_rdp_send_cmp nh nonce c None RDP_ACK (rd_snd_nxt ?r) (rd_rcv_cur ?r) (?r, w1)
       else Some (CSP_ERR_NONE, ?r, w1)) = Some (e2, r2, w2)"
      by (cases "of_nat (length (cn_rx_queue (nd_conns w1 ! c))) + rd_window_size ?r \<le> of_nat CSP_RX_QUEUE_LENGTH \<and>
         csp_rdp_should_ack (?r, w1)") auto
    have k2: "rdp_ok c M (r2, w2) \<and> quiet (bufs w1) w1 w2 \<and> acked_only ?r r2"
      using s ok1 send_plain_keeps [OF _ ok1] by (auto split: if_splits)
    have "same_packets (bufs w1) w1 w2" "set (rd_rx_queue r2) \<subseteq> bufs w1"
      using k2 rcv_bufs_apart(1) [OF ok1] acked_only_fields(6) [of ?r r2] by (auto simp: quiet_def rcv_bufs_def)
    then have "queue_holds stream irs w2 (rd_rx_queue r2) S"
      using queue_holds_same [of "bufs w1" w1 w2 "rd_rx_queue r2"] qh acked_only_fields(6) [of ?r r2] k2 by simp
    then obtain s' where "csp_rdp_rx_queue_flush c (r2, w2) = Some s'"
      using flush_total [OF conjunct1 [OF k2]] queue_holds_header by blast
    then show ?thesis using rc True s by (simp add: rdp_in_sequence_def Let_def)
  qed
qed

lemma out_of_sequence_total:
  assumes "rdp_ok c (add_mset p M) (r, w)" "queue_holds stream irs w (rd_rx_queue r) S" "roomy 100 w"
    "in_order stream irs k S (r, w)" "holds stream irs w p m" "Suc k < m" "m \<le> k + rdp_window r"
  shows "\<exists>ex s'. rdp_out_of_sequence nh nonce c p (irs + of_nat m) (r, w) = Some (ex, s')"
proof -
  have "\<forall>p \<in> set (rd_rx_queue r). csp_rdp_header_ref (buf_packet (nd_pool w) p) \<noteq> None"
    using queue_holds_header [OF assms(2)] by blast
  then obtain b q where "rdp_seq_search (length (rd_rx_queue r)) (irs + of_nat m) (nd_pool w) (rd_rx_queue r) = Some (b, q)"
    using seq_search_total by blast
  then obtain ok r1 w1 where a: "csp_rdp_rx_queue_add p (irs + of_nat m) (r, w) = Some (ok, r1, w1)"
    by (cases b; cases "length q < CSP_RDP_MAX_WINDOW * 2")
      (auto simp: csp_rdp_rx_queue_add_def csp_rdp_seq_in_rx_queue_def rx_enqueue_def)
  note qa = queue_add_in_order [OF a assms(1,4-7)]
  note ak = rx_queue_add_keeps [OF a assms(1)]
  show ?thesis
  proof (cases ok)
    case False
    then show ?thesis using a by (simp add: rdp_out_of_sequence_def)
  next
    case True
    then have ok1: "rdp_ok c M (r1, w)" and qh: "queue_holds stream irs w (rd_rx_queue r1) (insert m S)"
      using ak qa by (auto simp: in_order_def)
    have "w1 = w" using qa by simp
    then show ?thesis using send_eack_total [OF ok1 assms(3) qh, of nonce] a True by (auto simp: rdp_out_of_sequence_def)
  qed
qed

lemma new_packet_total:
  assumes ok: "rdp_ok c (add_mset p M) (r, w)" and io: "in_order stream irs k S (r, w)"
    and car: "carries stream irs ack w p m" and rm: "roomy 100 w"
    and m: "k < m + (2 ^ 16 - rdp_window r)" "m \<le> k + 2 ^ 16"
  shows "\<exists>s'. csp_rdp_new_packet nh nonce iss c p (r, w) = Some s'"
proof -
  note kk = rdp_okD [OF ok]
  obtain h0 where h0: "csp_rdp_header_ref (buf_packet (nd_pool w) p) = Some h0" "\<not> rh_rst h0" "\<not> rh_syn h0"
    "\<not> rh_eak h0" "rh_ack h0" "csp_ntoh16 (rh_seq_nr h0) = irs + of_nat m" "csp_ntoh16 (rh_ack_nr h0) = ack"
    "rdp_payload (buf_packet (nd_pool w) p) = stream m" "stream m \<noteq> []"
    using car by (auto simp: carries_def)
  define h where "h = h0\<lparr>rh_seq_nr := irs + of_nat m, rh_ack_nr := ack\<rparr>"
  have hf: "rh_seq_nr h = irs + of_nat m" "\<not> rh_syn h" "rh_ack h" "\<not> rh_eak h" "\<not> rh_rst h"
    using h0 by (simp_all add: h_def)
  define w1 where "w1 = put_packet p (rdp_header_write h (buf_packet (nd_pool w) p)) w"
  have hok: "rdp_header_ok h" using rdp_header_ref_ok [OF h0(1)] by (simp add: h_def)
  note len = header_ref_length [OF h0(1)]
  have at: "buf_packet (nd_pool w1) p = rdp_header_write h (buf_packet (nd_pool w) p)"
    unfolding w1_def by (rule put_packet_at [OF kk(2), THEN trans]) auto
  have holds1: "holds stream irs w1 p m" using hok len h0(8) by (simp add: holds_def at hf(1))
  have head1: "csp_rdp_header_ref (buf_packet (nd_pool w1) p) \<noteq> None" using hok len by (simp add: at)
  have ok1: "rdp_ok c (add_mset p M) (r, w1)" unfolding w1_def by (rule rdp_ok_put [OF ok])
  have q1: "quiet (- {p}) w w1" unfolding w1_def by (rule quiet_put [OF kk(7)]) simp_all
  have apart: "rcv_bufs c (r, w) \<subseteq> - {p}" using rcv_bufs_apart(2) [OF ok, of p] by auto
  have same1: "same_packets (- {p}) w w1" and rm1: "roomy 100 w1" using q1 rm by (simp_all add: quiet_def)
  have io1: "in_order stream irs k S (r, w1)" using in_order_same [OF io same1 apart] by simp
  have st: "rd_state r = RDP_OPEN" and cur: "rd_rcv_cur r = irs + of_nat k" and win: "0 < rdp_window r"
    and qh1: "queue_holds stream irs w1 (rd_rx_queue r) S"
    using io1 by (simp_all add: in_order_def)
  have between: "csp_rdp_seq_between (rh_seq_nr h) (rd_rcv_cur r + 1) (rd_rcv_cur r + ucast (rd_window_size r * 2)) \<longleftrightarrow>
      k < m \<and> m \<le> k + rdp_window r"
    using seq_window [OF win rdp_window_less m, of irs] by (simp add: hf(1) cur rdp_window_of_nat)
  let ?r = "r\<lparr>rd_snd_una := rh_ack_nr h + 1\<rparr>"
  have okr: "rdp_ok c (add_mset p M) (?r, w1)" using ok1 by simp
  have ior: "in_order stream irs k S (?r, w1)" using io1 by (simp add: in_order_def rdp_window_def)
  have e: "r\<lparr>rd_state := RDP_OPEN\<rparr> = r" using st by simp
  obtain ee se where eack: "csp_rdp_send_eack nh nonce c (r, w1) = Some (ee, se)"
    using send_eack_total [OF ok1 rm1 qh1] by blast
  have "\<exists>ex s'. rdp_acked_packet nh nonce c p h (r, w1) = Some (ex, s')" if inside: "k < m" "m \<le> k + rdp_window r"
  proof (cases "rh_seq_nr h = rd_rcv_cur r + 1")
    case True
    then show ?thesis
      using in_sequence_total [OF okr _ rm1 head1, of stream irs S nonce "rh_seq_nr h"] qh1 hf(4)
      by (auto simp: rdp_acked_packet_def Let_def)
  next
    case False
    then have "m \<noteq> Suc k" using hf(1) cur by auto
    then have m': "Suc k < m" "m \<le> k + rdp_window ?r" using inside by (simp_all add: rdp_window_def)
    have "\<exists>ex s'. rdp_out_of_sequence nh nonce c p (rh_seq_nr h) (?r, w1) = Some (ex, s')"
      unfolding hf(1) by (rule out_of_sequence_total [OF okr _ rm1 ior holds1 m']) (use qh1 in simp)
    then show ?thesis using False hf(4) by (auto simp: rdp_acked_packet_def Let_def)
  qed
  then have "\<exists>ex s'. rdp_in_open nh nonce c p h (r, w1) = Some (ex, s')"
    using hf(2,3) between eack by (auto simp: rdp_in_open_def e st)
  then obtain ex s' where o: "rdp_in_open nh nonce c p h (r, w1) = Some (ex, s')" by blast
  have "ex = DiscardOpen \<or> ex = AcceptedOpen" by (rule open_exit [OF o hf(2,3) st])
  then have "\<exists>s''. rdp_exit_to nh nonce c p ex s' = Some s''" by (cases s') (auto simp: rdp_exit_to_def)
  moreover have "csp_rdp_new_packet nh nonce iss c p (r, w) = rdp_exit_to nh nonce c p ex s'"
    using h0(1,6,7) o st hf(5) by (simp add: csp_rdp_new_packet_def Let_def rdp_handle_def h_def [symmetric] w1_def [symmetric])
  ultimately show ?thesis by simp
qed

end

end
