(* ===== verification/CspRdpDelivery.thy ===== *)
theory CspRdpDelivery
  imports CspRdpOrder
begin

text \<open>
  The properties of the reliable protocol (\<open>csp_rdp.c\<close>): no buffer is lost, messages are handed over
  in order and once, all of them are handed over when all have arrived, the comparison of sequence
  numbers is right across the wrap-around, and what goes wrong when the queue of the connection is
  full.  Witnesses apply them to a connection of a small node.
\<close>

section \<open>Packets that arrive one after the other\<close>

fun rdp_arrivals :: "nexthop \<Rightarrow> (nat \<Rightarrow> u32) \<Rightarrow> u16 \<Rightarrow> nat \<Rightarrow> nat list \<Rightarrow> rdp_node \<Rightarrow> rdp_node option" where
  "rdp_arrivals nh nonces iss c [] s = Some s"
| "rdp_arrivals nh nonces iss c (p # ps) s =
     (case csp_rdp_new_packet nh (nonces (length ps)) iss c p s of
        None \<Rightarrow> None
      | Some s \<Rightarrow> rdp_arrivals nh nonces iss c ps s)"

lemma contents_length: "length (contents c w) = length (cn_rx_queue (nd_conns w ! c))"
  by (simp add: contents_def)

lemma messages_length [simp]: "length (messages stream k k') = k' - k"
  by (simp add: messages_def del: upt_Suc)

lemma carries_same: "same_packets A w w' \<Longrightarrow> p \<in> A \<Longrightarrow> carries stream irs ack w' p m = carries stream irs ack w p m"
  by (simp add: carries_def same_packets_def)

lemma rdp_ack_valid_same:
  "rd_snd_una r' = rd_snd_una r \<Longrightarrow> rd_snd_nxt r' = rd_snd_nxt r \<Longrightarrow> rd_window_size r' = rd_window_size r \<Longrightarrow>
     rdp_ack_valid r' a = rdp_ack_valid r a"
  by (simp add: rdp_ack_valid_def)

context csp_link begin

lemma arrivals_receive:
  assumes "rdp_ok c (mset ps + M) (r, w)" "in_order stream irs k S (r, w)"
    "\<forall>p \<in> set ps. carries stream irs (rd_snd_una r - 1) w p (num p) \<and> num p \<le> K \<and> K < num p + (2 ^ 16 - rdp_window r)"
    "S \<subseteq> {..K}" "k \<le> K" "K \<le> k + rdp_window r" "K \<le> k + 40" "rdp_ack_valid r (rd_snd_una r - 1)"
    "length (cn_rx_queue (nd_conns w ! c)) + (K - k) < CSP_RX_QUEUE_LENGTH"
    "cn_socket (nd_conns w ! c) = None" "roomy 100 w"
  shows "\<exists>r' w' k' S'. rdp_arrivals nh nonces iss c ps (r, w) = Some (r', w') \<and> rdp_ok c M (r', w') \<and>
     in_order stream irs k' S' (r', w') \<and> k \<le> k' \<and> {..k'} \<union> S' = {..k} \<union> S \<union> num ` set ps \<and>
     contents c w' = contents c w @ messages stream k k'"
  using assms
proof (induction ps arbitrary: r w k S)
  case Nil
  then show ?case by (intro exI [of _ r] exI [of _ w] exI [of _ k] exI [of _ S]) simp
next
  case (Cons p ps)
  note ok = Cons.prems(1) [unfolded mset.simps] and io = Cons.prems(2)
  let ?ack = "rd_snd_una r - 1"
  have ok': "rdp_ok c (add_mset p (mset ps + M)) (r, w)" using ok by simp
  have car: "carries stream irs ?ack w p (num p)" and m: "num p \<le> K" "K < num p + (2 ^ 16 - rdp_window r)"
    using Cons.prems(3) by simp_all
  have m': "k < num p + (2 ^ 16 - rdp_window r)" "num p \<le> k + 2 ^ 16"
    using m Cons.prems(5,6) rdp_window_less [of r] by auto
  have qh: "queue_holds stream irs w (rd_rx_queue r) S" and sub: "S \<subseteq> {Suc k<..}"
    using io by (auto simp: in_order_def)
  have "S \<subseteq> {Suc k<..K}" using sub Cons.prems(4) by auto
  from card_mono [OF _ this] have "card S \<le> K - Suc k" by simp
  then have len: "length (rd_rx_queue r) \<le> K - Suc k" using queue_holds_length [OF qh] by simp
  have room: "length (cn_rx_queue (nd_conns w ! c)) + length (rd_rx_queue r) < CSP_RX_QUEUE_LENGTH"
    using len Cons.prems(9) by simp
  have few: "length (rd_rx_queue r) < CSP_RDP_MAX_WINDOW * 2"
    using len Cons.prems(7) by (simp add: CSP_RDP_MAX_WINDOW_def)
  obtain r1 w1 where np: "csp_rdp_new_packet nh (nonces (length ps)) iss c p (r, w) = Some (r1, w1)"
    using new_packet_total [OF ok' io car Cons.prems(11) m'] by (metis surj_pair)
  have una: "x \<in> {rd_snd_una r, ?ack + 1} \<longleftrightarrow> x = rd_snd_una r" for x by simp
  obtain k1 S1 A where st: "rdp_ok c (mset ps + M) (r1, w1)"
      "rcv_step stream irs c (mset ps + M) k S A (r, w) k1 S1 (r1, w1)" "A \<subseteq> {num p}"
      "k < num p \<and> num p \<le> k + rdp_window r \<longrightarrow> num p \<in> S \<or> A = {num p}"
    using new_packet_in_order [OF np ok' io car m' room, unfolded una] Cons.prems(8,10) few by auto
  note rs = st(2) [unfolded rcv_step_def fst_conv snd_conv]
  have io1: "in_order stream irs k1 S1 (r1, w1)" and k1: "k \<le> k1" "{..k1} \<union> S1 = {..k} \<union> S \<union> A"
    and con1: "contents c w1 = contents c w @ messages stream k k1" and sc: "same_conn c w w1"
    and sp: "same_packets (set_mset (mset ps + M)) w w1"
    and eqs: "rd_snd_una r1 = rd_snd_una r" "rd_snd_nxt r1 = rd_snd_nxt r" "rd_window_size r1 = rd_window_size r"
    using rs by (simp_all add: took_def)
  have got: "{..k1} \<union> S1 = {..k} \<union> S \<union> {num p}"
  proof -
    have "num p \<le> k \<or> num p \<in> S \<or> A = {num p}" using st(4) m(1) Cons.prems(6) by linarith
    with k1(2) st(3) show ?thesis by auto
  qed
  have below: "{..k1} \<union> S1 \<subseteq> {..K}" using got m(1) Cons.prems(4,5) by auto
  have win: "rdp_window r1 = rdp_window r" using eqs by (simp add: rdp_window_def)
  have lc: "length (cn_rx_queue (nd_conns w1 ! c)) = length (cn_rx_queue (nd_conns w ! c)) + (k1 - k)"
    using arg_cong [OF con1, of length] by (simp add: contents_length)
  have rest: "\<forall>p \<in> set ps. carries stream irs (rd_snd_una r1 - 1) w1 p (num p) \<and> num p \<le> K \<and>
      K < num p + (2 ^ 16 - rdp_window r1)"
    using Cons.prems(3) carries_same [OF sp] eqs win by simp
  have "k1 \<le> K" using below by auto
  then have "length (cn_rx_queue (nd_conns w1 ! c)) + (K - k1) < CSP_RX_QUEUE_LENGTH"
    using lc k1(1) Cons.prems(9) by simp
  moreover have "rdp_ack_valid r1 (rd_snd_una r1 - 1)"
    using rdp_ack_valid_same [OF eqs] eqs Cons.prems(8) by simp
  ultimately obtain r' w' k' S' where
    fin: "rdp_arrivals nh nonces iss c ps (r1, w1) = Some (r', w')" "rdp_ok c M (r', w')"
      "in_order stream irs k' S' (r', w')" "k1 \<le> k'" "{..k'} \<union> S' = {..k1} \<union> S1 \<union> num ` set ps"
      "contents c w' = contents c w1 @ messages stream k1 k'"
    using Cons.IH [OF st(1) io1 rest _ \<open>k1 \<le> K\<close>] below win k1(1) Cons.prems(6,7,10,11) sc
    by (auto simp: same_conn_def)
  show ?case
  proof (intro exI conjI)
    show "rdp_arrivals nh nonces iss c (p # ps) (r, w) = Some (r', w')" using np fin(1) by simp
    show "{..k'} \<union> S' = {..k} \<union> S \<union> num ` set (p # ps)" using fin(5) got by auto
    show "contents c w' = contents c w @ messages stream k k'"
      using fin(4,6) con1 k1(1) messages_append by simp
  qed (use fin k1 in auto)
qed

end

section \<open>A receiver at work\<close>

definition rdp_unacked :: "csp_rdp \<Rightarrow> csp_node \<Rightarrow> nat \<Rightarrow> bool" where
  "rdp_unacked r w p \<longleftrightarrow> (case csp_rdp_header_ref (buf_packet (nd_pool w) p) of None \<Rightarrow> True
     | Some h \<Rightarrow> \<not> csp_rdp_seq_before (csp_ntoh16 (rh_seq_nr h)) (rd_snd_una r))"

lemma owned_bufs: "owned M w \<Longrightarrow> set_mset M \<subseteq> bufs w"
  unfolding bufs_def using owned_live by blast

text \<open>Packets of the stream arrive, in any order and any number of times, but not so late that their
  numbers have come round; the user reads; the timer acknowledges and retransmits; tasks take
  buffers, fill them and give them back.  \<open>got\<close> is what the user has read.  So many messages have been
  handed over as the user has read or finds in the queue.\<close>

definition rdp_given :: "u8 list option list \<Rightarrow> nat \<Rightarrow> rdp_node \<Rightarrow> nat" where
  "rdp_given got c s = length got + length (cn_rx_queue (nd_conns (snd s) ! c))"

inductive rdp_receiver :: "nexthop \<Rightarrow> (nat \<Rightarrow> u8 list) \<Rightarrow> u16 \<Rightarrow> nat \<Rightarrow> nat multiset \<Rightarrow> rdp_node \<Rightarrow>
     u8 list option list \<Rightarrow> nat multiset \<Rightarrow> rdp_node \<Rightarrow> bool"
  for nh stream irs c M0 s0 where
  start: "rdp_receiver nh stream irs c M0 s0 [] M0 s0"
| arrival: "rdp_receiver nh stream irs c M0 s0 got (add_mset p M) s \<Longrightarrow> carries stream irs ack (snd s) p m \<Longrightarrow>
     rdp_given got c s < m + (2 ^ 16 - rdp_window (fst s)) \<Longrightarrow> m \<le> rdp_given got c s + 2 ^ 16 \<Longrightarrow> rdp_room c s \<Longrightarrow>
     csp_rdp_new_packet nh nonce iss c p s = Some s' \<Longrightarrow> rdp_receiver nh stream irs c M0 s0 got M s'"
| reading: "rdp_receiver nh stream irs c M0 s0 got M s \<Longrightarrow> csp_read_rdp nh nonce c s = Some (Some p, s') \<Longrightarrow>
     rdp_receiver nh stream irs c M0 s0 (got @ [Some (pkt_data (buf_packet (nd_pool (snd s')) p))]) (add_mset p M) s'"
| timer: "rdp_receiver nh stream irs c M0 s0 got M s \<Longrightarrow> csp_rdp_check_timeouts nh nonces c s = Some s' \<Longrightarrow>
     rd_state (fst s') = RDP_OPEN \<Longrightarrow> cn_open (nd_conns (snd s') ! c) \<Longrightarrow> rdp_receiver nh stream irs c M0 s0 got M s'"
| taking: "rdp_receiver nh stream irs c M0 s0 got M (r, w) \<Longrightarrow> csp_buffer_get n (nd_pool w) = (Some p, pool) \<Longrightarrow>
     rdp_receiver nh stream irs c M0 s0 got (add_mset p M) (r, w\<lparr>nd_pool := pool\<rparr>)"
| filling: "rdp_receiver nh stream irs c M0 s0 got (add_mset p M) (r, w) \<Longrightarrow>
     rdp_receiver nh stream irs c M0 s0 got (add_mset p M) (r, put_packet p pk w)"
| freeing: "rdp_receiver nh stream irs c M0 s0 got (add_mset p M) (r, w) \<Longrightarrow>
     rdp_receiver nh stream irs c M0 s0 got M (r, free_packet (Some p) w)"
| clock: "rdp_receiver nh stream irs c M0 s0 got M (r, w) \<Longrightarrow>
     rdp_receiver nh stream irs c M0 s0 got M (r, w\<lparr>nd_now := t\<rparr>)"

definition received :: "(nat \<Rightarrow> u8 list) \<Rightarrow> u16 \<Rightarrow> nat \<Rightarrow> u8 list option list \<Rightarrow> rdp_node \<Rightarrow> bool" where
  "received stream irs c got s \<longleftrightarrow>
     (\<exists>k S. in_order stream irs k S s \<and> got @ contents c (snd s) = messages stream 0 k)"

lemma received_same:
  assumes "received stream irs c got (r, w)" "same_packets A w w'" "rcv_bufs c (r, w) \<subseteq> A"
    "rd_state r' = rd_state r" "rd_rcv_cur r' = rd_rcv_cur r" "rd_rx_queue r' = rd_rx_queue r"
    "rd_window_size r' = rd_window_size r" "cn_rx_queue (nd_conns w' ! c) = cn_rx_queue (nd_conns w ! c)"
  shows "received stream irs c got (r', w')"
proof -
  obtain k S where "in_order stream irs k S (r, w)" "got @ contents c w = messages stream 0 k"
    using assms(1) by (auto simp: received_def)
  moreover have "in_order stream irs k S (r', w')"
    by (rule in_order_same [OF _ assms(2,3)]) (use calculation assms in simp_all)
  ultimately show ?thesis using contents_same [OF assms(8,2,3)] by (auto simp: received_def)
qed

lemma received_k:
  assumes "received stream irs c got s"
  obtains S where "in_order stream irs (rdp_given got c s) S s"
    "got @ contents c (snd s) = messages stream 0 (rdp_given got c s)"
proof -
  obtain k S where ks: "in_order stream irs k S s" "got @ contents c (snd s) = messages stream 0 k"
    using assms by (auto simp: received_def)
  have "k = rdp_given got c s" using arg_cong [OF ks(2), of length] by (simp add: rdp_given_def contents_length)
  then show thesis using ks that by simp
qed

context csp_link begin

lemma closing_ends:
  assumes "csp_close_rdp nh nonce (Some c) (r, w) = Some (e, r', w')" "rd_state r = RDP_OPEN" "rdp_ok c M (r, w)"
  shows "rd_state r' \<noteq> RDP_OPEN \<or> \<not> cn_open (nd_conns w' ! c) \<or> (r', w') = (r, w)"
proof (cases "cn_open (nd_conns w ! c)")
  case False
  then show ?thesis using assms(1) by (simp add: csp_close_rdp_def)
next
  case True
  note k = rdp_okD [OF assms(3)]
  show ?thesis
  proof (cases "has_flag CSP_FRDP (cn_idin (nd_conns w ! c)) \<or> has_flag CSP_FRDP (cn_idout (nd_conns w ! c))")
    case True
    let ?w = "set_conn c ((nd_conns w ! c)\<lparr>cn_timestamp := nd_now w\<rparr>) w" and ?r = "r\<lparr>rd_state := RDP_CLOSE_WAIT\<rparr>"
    have ok: "rdp_ok c M (?r, ?w)" using rdp_ok_conn [OF assms(3)] by (simp add: rx_refs_def)
    obtain e2 where "csp_rdp_send_cmp nh nonce c None (RDP_ACK OR RDP_RST) (rd_snd_nxt ?r) (rd_rcv_cur ?r) (?r, ?w) =
        Some (e2, r', w')"
      using assms(1,2) True \<open>cn_open _\<close>
      by (auto simp: csp_close_rdp_def csp_rdp_close_def csp_err_defs rdp_err_defs split: if_splits option.splits)
    from send_plain_keeps [OF this ok] show ?thesis by (simp add: acked_only_def)
  next
    case False
    let ?w = "csp_conn_flush_rx_queue c (set_conn c ((nd_conns w ! c)\<lparr>cn_open := False\<rparr>) w)"
    have "\<not> cn_open (nd_conns ?w ! c)" using k(3,8) by (simp add: csp_conn_flush_eq)
    moreover have "nd_conns w' = nd_conns ?w"
      using assms(1) True False
      by (auto simp: csp_close_rdp_def Let_def csp_rdp_flush_all_def csp_err_defs rdp_err_defs split: if_splits)
    ultimately show ?thesis by simp
  qed
qed

lemma tx_loop_same:
  "rdp_tx_loop nh nonces c n (r, w) = Some (r', w') \<Longrightarrow> rdp_ok c M (r, w) \<Longrightarrow> same_packets (rcv_bufs c (r, w)) w w'"
proof (induction n arbitrary: r w)
  case (Suc n)
  show ?case
  proof (cases "rd_tx_queue r")
    case Nil
    then show ?thesis using Suc.prems by simp
  next
    case (Cons p q)
    let ?r = "r\<lparr>rd_tx_queue := q\<rparr>"
    note k = rdp_okD [OF Suc.prems(2)]
    obtain h where h: "csp_rdp_header_ref (buf_packet (nd_pool w) p) = Some h"
      using Suc.prems(1) Cons by (cases "csp_rdp_header_ref (buf_packet (nd_pool w) p)") (simp_all add: Let_def)
    have o: "rdp_ok c (add_mset p M) (?r, w)"
      by (rule rdp_ok_tx_queue [OF Suc.prems(2)]) (use Cons k(5) in auto)
    have e: "snd (tx_enqueue p ?r) = ?r\<lparr>rd_tx_queue := q @ [p]\<rparr>"
      using tx_enqueue_room [of ?r p] k(5) Cons by simp
    have requeue: "rdp_ok c (add_mset p M) (?r, w1) \<Longrightarrow> rdp_ok c M (?r\<lparr>rd_tx_queue := q @ [p]\<rparr>, w1)" for w1
      by (erule rdp_ok_tx_queue) (use k(5) Cons in auto)
    consider (free) "rdp_tx_loop nh nonces c n (?r, free_packet (Some p) w) = Some (r', w')"
      | (keep) "rdp_tx_loop nh nonces c n (?r\<lparr>rd_tx_queue := q @ [p]\<rparr>, w) = Some (r', w')"
      | (resend) w1 where "rdp_retransmit nh (nonces n) c p h (?r, w) = Some w1"
          "rdp_tx_loop nh nonces c n (?r\<lparr>rd_tx_queue := q @ [p]\<rparr>, w1) = Some (r', w')"
      using Suc.prems(1) Cons h e by (auto simp: Let_def split: if_splits option.splits)
    then show ?thesis
    proof cases
      case free
      from Suc.IH [OF this rdp_ok_free [OF o]] show ?thesis
        by (simp add: rcv_bufs_def same_packets_def free_packet_def)
    next
      case keep
      from Suc.IH [OF this requeue [OF o]] show ?thesis by (simp add: rcv_bufs_def)
    next
      case resend
      note rt = retransmit_keeps [OF resend(1) o]
      have c1: "nd_conns w1 = nd_conns w" and ok1: "rdp_ok c (add_mset p M) (?r, w1)" using rt by simp_all
      have "same_packets (rcv_bufs c (r, w)) w1 w'"
        using Suc.IH [OF resend(2) requeue [OF ok1]] c1 by (simp add: rcv_bufs_def)
      have "rcv_bufs c (r, w) \<subseteq> bufs w - {p}" using rcv_bufs_apart(1,3) [OF Suc.prems(2)] Cons by auto
      moreover have "same_packets (bufs w - {p}) w w1" using rt by simp
      ultimately have "same_packets (rcv_bufs c (r, w)) w w1" using same_packets_mono by blast
      from same_packets_trans [OF this \<open>same_packets (rcv_bufs c (r, w)) w1 w'\<close>] show ?thesis by simp
    qed
  qed
qed simp

text \<open>The timer keeps the packets that are not acknowledged, in their order.\<close>

lemma tx_loop_filter:
  "rdp_tx_loop nh nonces c n (r, w) = Some (r', w') \<Longrightarrow> rdp_ok c M (r, w) \<Longrightarrow> n \<le> length (rd_tx_queue r) \<Longrightarrow>
     rd_tx_queue r' = drop n (rd_tx_queue r) @ filter (rdp_unacked r w) (take n (rd_tx_queue r))"
proof (induction n arbitrary: r w)
  case (Suc n)
  then obtain p q where q: "rd_tx_queue r = p # q" by (cases "rd_tx_queue r") auto
  let ?r = "r\<lparr>rd_tx_queue := q\<rparr>"
  note k = rdp_okD [OF Suc.prems(2)]
  obtain h where h: "csp_rdp_header_ref (buf_packet (nd_pool w) p) = Some h"
    using Suc.prems(1) q by (cases "csp_rdp_header_ref (buf_packet (nd_pool w) p)") (simp_all add: Let_def)
  have o: "rdp_ok c (add_mset p M) (?r, w)"
    by (rule rdp_ok_tx_queue [OF Suc.prems(2)]) (use q k(5) in auto)
  have e: "snd (tx_enqueue p ?r) = ?r\<lparr>rd_tx_queue := q @ [p]\<rparr>"
    using tx_enqueue_room [of ?r p] k(5) q by simp
  have requeue: "rdp_ok c (add_mset p M) (?r, w1) \<Longrightarrow> rdp_ok c M (?r\<lparr>rd_tx_queue := q @ [p]\<rparr>, w1)" for w1
    by (erule rdp_ok_tx_queue) (use k(5) q in auto)
  have pq: "p \<notin> set q"
    using rdp_ok_count [OF o, of p] by (auto simp: rdp_refs_def)
  have sub: "set q \<subseteq> bufs w - {p}"
    using owned_bufs [OF rdp_okD(2) [OF o]] pq by (auto simp: rdp_refs_def)
  have same: "filter (rdp_unacked r1 w1) (take n q) = filter (rdp_unacked r w) (take n q)"
    if "same_packets (set q) w w1" "rd_snd_una r1 = rd_snd_una r" for r1 w1
  proof (rule filter_cong [OF refl])
    fix x assume "x \<in> set (take n q)"
    then have "x \<in> set q" by (rule in_set_takeD)
    then show "rdp_unacked r1 w1 x = rdp_unacked r w x" using that by (simp add: rdp_unacked_def same_packets_def split: option.split)
  qed
  have n: "n \<le> length q" using Suc.prems(3) q by simp
  consider (free) "rdp_tx_loop nh nonces c n (?r, free_packet (Some p) w) = Some (r', w')" "\<not> rdp_unacked r w p"
    | (keep) w1 where "rdp_tx_loop nh nonces c n (?r\<lparr>rd_tx_queue := q @ [p]\<rparr>, w1) = Some (r', w')"
        "rdp_unacked r w p" "same_packets (set q) w w1" "rdp_ok c (add_mset p M) (?r, w1)"
  proof (cases "rdp_unacked r w p")
    case False
    then show thesis using Suc.prems(1) q h that(1) by (auto simp: rdp_unacked_def Let_def)
  next
    case True
    then have "\<exists>w1. rdp_tx_loop nh nonces c n (?r\<lparr>rd_tx_queue := q @ [p]\<rparr>, w1) = Some (r', w') \<and>
        (w1 = w \<or> rdp_retransmit nh (nonces n) c p h (?r, w) = Some w1)"
      using Suc.prems(1) q h e by (auto simp: rdp_unacked_def Let_def split: if_splits option.splits)
    then show thesis
      using that(2) True o retransmit_keeps [OF _ o] same_packets_mono [OF _ sub] by auto
  qed
  then show ?case
  proof cases
    case free
    from Suc.IH [OF free(1) rdp_ok_free [OF o]] n free(2) same [of "free_packet (Some p) w" ?r] show ?thesis
      by (simp add: q same_packets_def free_packet_def)
  next
    case keep
    from Suc.IH [OF keep(1) requeue [OF keep(4)]] n keep(2) same [OF keep(3), of "?r\<lparr>rd_tx_queue := q @ [p]\<rparr>"]
    show ?thesis by (simp add: q)
  qed
qed simp

lemma check_timeouts_received:
  assumes "csp_rdp_check_timeouts nh nonces c (r, w) = Some (r', w')" "rd_state r' = RDP_OPEN"
    "cn_open (nd_conns w' ! c)" "rdp_ok c M (r, w)" "received stream irs c got (r, w)"
  shows "received stream irs c got (r', w')"
proof -
  let ?nonce = "nonces (length (rd_tx_queue r))"
  have opn: "rd_state r = RDP_OPEN" using assms(5) by (auto simp: received_def in_order_def)
  consider (close) e where "csp_close_rdp nh ?nonce (Some c) (r, w) = Some (e, r', w')"
    | (loop) r1 w1 e r2 where "rdp_tx_loop nh nonces c (length (rd_tx_queue r)) (r, w) = Some (r1, w1)"
        "csp_rdp_check_ack nh ?nonce c (r1, w1) = Some (e, r2, w')" "r' = rdp_wake_sender r2"
    using assms(1) opn by (auto simp: csp_rdp_check_timeouts_def Let_def split: if_splits option.splits)
  then show ?thesis
  proof cases
    case close
    then show ?thesis using assms(2,3,5) closing_ends [OF close opn assms(4)] by auto
  next
    case loop
    note l = tx_loop_keeps [OF loop(1) assms(4)]
    have r1: "r1 = r\<lparr>rd_tx_queue := rd_tx_queue r1\<rparr>" "nd_conns w1 = nd_conns w" "rdp_ok c M (r1, w1)"
      using l by simp_all
    have f1: "rd_state r1 = rd_state r" "rd_rcv_cur r1 = rd_rcv_cur r" "rd_rx_queue r1 = rd_rx_queue r"
      "rd_window_size r1 = rd_window_size r"
      by (subst r1(1), simp)+
    have 1: "received stream irs c got (r1, w1)"
      by (rule received_same [OF assms(5) tx_loop_same [OF loop(1) assms(4)]]) (use r1(2) f1 in simp_all)
    note a = check_ack_keeps [OF loop(2) r1(3)]
    have "received stream irs c got (r2, w')"
      by (rule received_same [OF 1 _ rcv_bufs_apart(1) [OF r1(3)]])
        (use a in \<open>auto simp: quiet_def acked_only_def\<close>)
    then show ?thesis
      by (rule received_same [where A = UNIV]) (simp_all add: loop(3) rdp_wake_sender_def)
  qed
qed

lemma read_received:
  assumes "csp_read_rdp nh nonce c (r, w) = Some (Some p, r', w')" "rdp_ok c M (r, w)" "received stream irs c got (r, w)"
  shows "received stream irs c (got @ [Some (pkt_data (buf_packet (nd_pool w') p))]) (r', w')"
proof -
  note k = rdp_okD [OF assms(2)]
  obtain rest where q: "cn_rx_queue (nd_conns w ! c) = Some p # rest"
    using assms(1) by (auto simp: csp_read_rdp_def Let_def split: if_splits list.splits)
  let ?w = "set_conn c ((nd_conns w ! c)\<lparr>cn_rx_queue := rest\<rparr>) w"
  have ok: "rdp_ok c (add_mset p M) (r, ?w)"
    by (rule rdp_ok_conn [OF assms(2)]) (auto simp: rx_refs_def q map_filter_simps)
  have x: "r' = r \<and> w' = ?w \<or> (\<exists>e. csp_rdp_check_ack nh nonce c (r, ?w) = Some (e, r', w'))"
    using assms(1) q by (auto simp: csp_read_rdp_def Let_def split: if_splits)
  have f: "quiet (bufs ?w) ?w w' \<and> acked_only r r'"
    using x check_ack_keeps [OF _ ok] by auto
  have "p \<in> bufs w" using rcv_bufs_apart(1) [OF assms(2)] by (auto simp: rcv_bufs_def q)
  then have d: "pkt_data (buf_packet (nd_pool w') p) = pkt_data (buf_packet (nd_pool w) p)"
    using f by (simp add: quiet_def same_packets_def bufs_def)
  obtain kk S where i: "in_order stream irs kk S (r, w)" "got @ contents c w = messages stream 0 kk"
    using assms(3) by (auto simp: received_def)
  have "contents c w = Some (pkt_data (buf_packet (nd_pool w) p)) # contents c ?w"
    using k(3,8) by (simp add: contents_def q)
  moreover have "in_order stream irs kk S (r, ?w)"
    using i(1) by (simp add: in_order_def queue_holds_def holds_def)
  ultimately have "received stream irs c (got @ [Some (pkt_data (buf_packet (nd_pool w) p))]) (r, ?w)"
    using i(2) by (auto simp: received_def)
  from received_same [OF this _ rcv_bufs_apart(1) [OF ok]] show ?thesis
    using f unfolding d by (simp add: quiet_def acked_only_def)
qed

lemma new_packet_received:
  assumes "csp_rdp_new_packet nh nonce iss c p (r, w) = Some (r', w')" "rdp_ok c (add_mset p M) (r, w)"
    "received stream irs c got (r, w)" "carries stream irs ack w p m" "rdp_room c (r, w)"
    "rdp_given got c (r, w) < m + (2 ^ 16 - rdp_window r)" "m \<le> rdp_given got c (r, w) + 2 ^ 16"
  shows "received stream irs c got (r', w')"
proof -
  obtain S where i: "in_order stream irs (rdp_given got c (r, w)) S (r, w)"
      "got @ contents c w = messages stream 0 (rdp_given got c (r, w))"
    using received_k [OF assms(3)] by auto
  have "length (cn_rx_queue (nd_conns w ! c)) + length (rd_rx_queue r) < CSP_RX_QUEUE_LENGTH"
    using assms(5) by (simp add: rdp_room_def)
  from new_packet_in_order [OF assms(1,2) i(1) assms(4,6,7) this] obtain k' S' A una where
    st: "rcv_step stream irs c M (rdp_given got c (r, w)) S A (r\<lparr>rd_snd_una := una\<rparr>, w) k' S' (r', w')" by blast
  then have "in_order stream irs k' S' (r', w')" "rdp_given got c (r, w) \<le> k'"
    "contents c w' = contents c w @ messages stream (rdp_given got c (r, w)) k'"
    by (simp_all add: rcv_step_def took_def)
  moreover from this have "got @ contents c w' = messages stream 0 k'"
    using i(2) messages_append [of 0 "rdp_given got c (r, w)" k' stream] by (metis append.assoc le0)
  ultimately show ?thesis by (auto simp: received_def)
qed

lemma receiver_keeps:
  "rdp_receiver nh stream irs c M0 s0 got M s \<Longrightarrow> rdp_ok c M0 s0 \<Longrightarrow> received stream irs c [] s0 \<Longrightarrow>
     rdp_ok c M s \<and> received stream irs c got s"
proof (induction rule: rdp_receiver.induct)
  case (arrival got p M s ack m nonce iss s')
  obtain r w r' w' where s: "s = (r, w)" "s' = (r', w')" by fastforce
  have ok: "rdp_ok c (add_mset p M) (r, w)" "received stream irs c got (r, w)" using arrival s by simp_all
  have "received stream irs c got (r', w')"
    by (rule new_packet_received [OF arrival(6) [unfolded s] ok]) (use arrival(2-5) s in simp_all)
  moreover have "rdp_ok c M (r', w')"
    using new_packet_keeps [OF arrival(6) [unfolded s] ok(1)] arrival(5) by (auto simp: s)
  ultimately show ?case by (simp add: s)
next
  case (reading got M s nonce p s')
  obtain r w r' w' where s: "s = (r, w)" "s' = (r', w')" by fastforce
  then show ?case
    using reading read_rdp_keeps [of nonce c r w "Some p" r' w' M] read_received [of nonce c r w p r' w' M] by simp
next
  case (timer got M s nonces s')
  obtain r w r' w' where s: "s = (r, w)" "s' = (r', w')" by fastforce
  then show ?case
    using timer check_timeouts_keeps [of nonces c r w r' w' M] check_timeouts_received [of nonces c r w r' w' M] by simp
next
  case (taking got M r w n p pool)
  have ok: "rdp_ok c M (r, w)" and re: "received stream irs c got (r, w)" using taking by simp_all
  note k = rdp_okD [OF ok]
  have "node_ok (w\<lparr>nd_pool := pool\<rparr>) \<and> owned (add_mset p (rdp_refs r + M)) (w\<lparr>nd_pool := pool\<rparr>)"
    using csp_buffer_get_keeps [OF taking(2) k(1,2)] by simp
  then have "rdp_ok c (add_mset p M) (r, w\<lparr>nd_pool := pool\<rparr>)"
    using k by (intro rdp_okI) (simp_all add: bound_def)
  moreover have "same_packets (bufs w) w (w\<lparr>nd_pool := pool\<rparr>)"
    using csp_buffer_get_Some [OF owned_pool [OF k(2)] taking(2)] by (auto simp: same_packets_def bufs_def)
  then have "received stream irs c got (r, w\<lparr>nd_pool := pool\<rparr>)"
    by (rule received_same [OF re _ rcv_bufs_apart(1) [OF ok]]) simp_all
  ultimately show ?case by simp
next
  case (filling got p M r w pk)
  then have ok: "rdp_ok c (add_mset p M) (r, w)" and re: "received stream irs c got (r, w)" by simp_all
  note k = rdp_okD [OF ok]
  have "same_packets (- {p}) w (put_packet p pk w)" using put_packet_at [OF k(2)] by (simp add: same_packets_def)
  then have "received stream irs c got (r, put_packet p pk w)"
    by (rule received_same [OF re]) (use rcv_bufs_apart(2) [OF ok, of p] in \<open>auto simp: put_packet_def\<close>)
  then show ?case using rdp_ok_put [OF ok] by simp
next
  case (freeing got p M r w)
  then have "received stream irs c got (r, free_packet (Some p) w)" by (simp add: received_def)
  then show ?case using freeing rdp_ok_free by simp
next
  case (clock got M r w t)
  then show ?case
    by (simp add: rdp_ok_def bound_def received_def in_order_def queue_holds_def holds_def contents_def)
qed simp

end

section \<open>A connection for the examples\<close>

text \<open>The connection 0 of the node 5 is open and has received message 0 of a stream.  Two buffers hold
  the messages 2 and 1, with the latter behind the former.\<close>

definition demo_rdp :: csp_rdp where
  "demo_rdp = \<lparr>rd_state = RDP_OPEN, rd_snd_nxt = 100, rd_snd_una = 100, rd_snd_iss = 99, rd_rcv_cur = 50,
     rd_rcv_irs = 50, rd_rcv_lsa = 50, rd_window_size = 10, rd_conn_timeout = 10000, rd_packet_timeout = 1000,
     rd_delayed_acks = 1, rd_ack_timeout = 250, rd_ack_delay_count = 2, rd_ack_timestamp = 0, rd_tx_wait = False,
     rd_tx_queue = [], rd_rx_queue = []\<rparr>"

definition demo_stream :: "nat \<Rightarrow> u8 list" where
  "demo_stream m = [of_nat m, 7]"

definition demo_message :: "nat \<Rightarrow> csp_packet" where
  "demo_message m = (empty_packet 200)\<lparr>pkt_data := demo_stream m @ rdp_header_bytes
     \<lparr>rh_rst = False, rh_eak = False, rh_ack = True, rh_syn = False, rh_res = 0,
      rh_seq_nr = csp_hton16 (50 + of_nat m), rh_ack_nr = csp_hton16 99\<rparr>\<rparr>"

definition rdp_pool :: "nat \<Rightarrow> buffer_pool" where
  "rdp_pool n = ((snd \<circ> csp_buffer_get 0) ^^ n) (the (snd (csp_buffer_init True 6 200)))"

definition demo_rdp_node :: "nat \<Rightarrow> csp_node" where
  "demo_rdp_node n = demo_connected\<lparr>nd_pool := rdp_pool n\<rparr>"

lemma rdp_pool_get: "n < 2 \<Longrightarrow> csp_buffer_get 0 (rdp_pool n) = (Some n, rdp_pool (Suc n))"
proof -
  assume "n < 2"
  then consider "n = 0" | "n = 1" by linarith
  then have "fst (csp_buffer_get 0 (rdp_pool n)) = Some n"
    by cases (simp_all add: rdp_pool_def csp_buffer_init_def csp_buffer_get_def CSP_BUFFER_PACKET_OVERHEAD_def
      numeral_eq_Suc upt_rec)
  moreover have "snd (csp_buffer_get 0 (rdp_pool n)) = rdp_pool (Suc n)"
    by (simp add: rdp_pool_def)
  ultimately show ?thesis by (metis prod.collapse)
qed

lemma demo_rdp_ok: "rdp_ok 0 {#} (demo_rdp, demo_rdp_node 0)"
proof (rule rdp_okI)
  have p: "pool_ok (rdp_pool 0)" "live (rdp_pool 0) = {}"
    using pool_init_ok [of 6 200 CSP_ERR_NONE "rdp_pool 0"] by (simp_all add: rdp_pool_def csp_buffer_init_def)
  show "node_ok (demo_rdp_node 0)" using demo_connected_ok(1) by (simp add: demo_rdp_node_def)
  have "refs demo_connected = {#}"
    using demo_connected_ok(2) pool4_ok by (simp add: owned_def demo_connected_def demo_node_def)
  then show "owned (rdp_refs demo_rdp + {#}) (demo_rdp_node 0)"
    using p by (simp add: owned_def demo_rdp_node_def refs_def rdp_refs_def demo_rdp_def)
  show "\<not> bound (demo_rdp_node 0) 0"
    using demo_bound [of 0] by (simp add: bound_def demo_rdp_node_def demo_connected_def)
qed (simp_all add: CSP_CONN_MAX_def demo_rdp_def)

definition demo_arrived :: csp_node where
  "demo_arrived = put_packet 1 (demo_message 1) (put_packet 0 (demo_message 2) (demo_rdp_node 2))"

lemma demo_taken_run: "rdp_run lo_nexthop 0 {#} (demo_rdp, demo_rdp_node 0) {#0, 1#} (demo_rdp, demo_rdp_node 2)"
proof -
  let ?run = "rdp_run lo_nexthop 0 {#} (demo_rdp, demo_rdp_node 0)"
  have "?run {#0#} (demo_rdp, demo_rdp_node 1)"
    using rdp_run.taking [OF rdp_run.start, of 0 "demo_rdp_node 0" 0 "rdp_pool 1"] rdp_pool_get [of 0]
    by (simp add: demo_rdp_node_def)
  from rdp_run.taking [OF this, of 0 1 "rdp_pool 2"] show ?thesis
    using rdp_pool_get [of 1] by (simp add: demo_rdp_node_def numeral_2_eq_2 add_mset_commute)
qed

lemma demo_arrived_run: "rdp_run lo_nexthop 0 {#} (demo_rdp, demo_rdp_node 0) {#0, 1#} (demo_rdp, demo_arrived)"
proof -
  from rdp_run.filling [OF demo_taken_run, of "demo_message 2"]
  have "rdp_run lo_nexthop 0 {#} (demo_rdp, demo_rdp_node 0) {#1, 0#}
      (demo_rdp, put_packet 0 (demo_message 2) (demo_rdp_node 2))"
    by (simp add: add_mset_commute)
  from rdp_run.filling [OF this, of "demo_message 1"] show ?thesis by (simp add: demo_arrived_def add_mset_commute)
qed

lemma demo_arrived_ok: "rdp_ok 0 {#0, 1#} (demo_rdp, demo_arrived)"
  by (rule lo_link.run_keeps [OF demo_arrived_run demo_rdp_ok])

lemma demo_arrived_packets:
  "buf_packet (nd_pool demo_arrived) 0 = demo_message 2" "buf_packet (nd_pool demo_arrived) 1 = demo_message 1"
proof -
  have k: "owned {#0, 1#} (demo_rdp_node 2)"
    using rdp_okD(2) [OF lo_link.run_keeps [OF demo_taken_run demo_rdp_ok]] by (simp add: rdp_refs_def demo_rdp_def)
  note a = put_packet_at [OF k, of 0] put_packet_at [OF owned_put_packet [OF k], of 1]
  show "buf_packet (nd_pool demo_arrived) 0 = demo_message 2" "buf_packet (nd_pool demo_arrived) 1 = demo_message 1"
    unfolding demo_arrived_def by (simp_all add: a del: One_nat_def)
qed

lemma demo_message_header:
  "csp_rdp_header_ref (demo_message m) = Some \<lparr>rh_rst = False, rh_eak = False, rh_ack = True, rh_syn = False, rh_res = 0,
      rh_seq_nr = csp_hton16 (50 + of_nat m), rh_ack_nr = csp_hton16 99\<rparr>"
  "rdp_payload (demo_message m) = demo_stream m"
  by (simp_all add: csp_rdp_header_ref_def rdp_payload_def demo_message_def pkt_length_def rdp_header_ok_def)

lemma demo_carries: "carries demo_stream 50 99 demo_arrived 0 2" "carries demo_stream 50 99 demo_arrived 1 1"
  unfolding carries_def demo_arrived_packets demo_message_header by (simp_all add: demo_stream_def csp_ntoh16_def)

lemma demo_in_order: "in_order demo_stream 50 0 {} (demo_rdp, w)" "rdp_window demo_rdp = 20"
  by (simp_all add: in_order_def queue_holds_def rdp_window_def demo_rdp_def)

lemma demo_conns: "nd_conns demo_arrived = nd_conns demo_connected" "contents 0 demo_arrived = []"
  "nd_conns demo_connected ! 0 = demo_client"
  by (simp_all add: demo_arrived_def demo_rdp_node_def contents_def demo_connected_def)
    (simp_all add: demo_node_def demo_client_def closed_conn_def)

lemma rdp_pool_taken:
  "pool_free (rdp_pool 2) = [2, 3, 4, 5]" "pool_count (rdp_pool 2) = 6"
  "q < 6 \<Longrightarrow> pkt_cap (buf_packet (rdp_pool 2) q) = 200"
  by (simp_all add: rdp_pool_def csp_buffer_init_def csp_buffer_get_def CSP_BUFFER_PACKET_OVERHEAD_def buf_packet_def
      empty_packet_def numeral_eq_Suc upt_rec less_Suc_eq) auto

lemma demo_roomy: "roomy 100 demo_arrived" "rdp_room 0 (demo_rdp, demo_arrived)" "rdp_ack_valid demo_rdp 99"
proof -
  have k: "owned {#0, 1#} (demo_rdp_node 2)"
    using rdp_okD(2) [OF lo_link.run_keeps [OF demo_taken_run demo_rdp_ok]] by (simp add: rdp_refs_def demo_rdp_def)
  note a = put_packet_at [OF k, of 0] put_packet_at [OF owned_put_packet [OF k], of 1]
  have "pool_count (nd_pool demo_arrived) = 6"
    by (simp add: demo_arrived_def put_packet_def set_packet_def demo_rdp_node_def rdp_pool_taken)
  moreover have "q < 6 \<Longrightarrow> pkt_cap (buf_packet (nd_pool demo_arrived) q) = 200" for q
    using rdp_pool_taken(3) unfolding demo_arrived_def
    by (simp add: a del: One_nat_def) (simp add: demo_message_def empty_packet_def demo_rdp_node_def)
  ultimately show "roomy 100 demo_arrived" by (simp add: roomy_def)
  show "rdp_room 0 (demo_rdp, demo_arrived)"
    by (simp add: rdp_room_def demo_conns) (simp add: demo_arrived_def put_packet_def set_packet_def demo_rdp_node_def
      rdp_pool_taken demo_client_def closed_conn_def demo_rdp_def CSP_RX_QUEUE_LENGTH_def)
  show "rdp_ack_valid demo_rdp 99" by (simp add: rdp_ack_valid_def demo_rdp_def csp_rdp_seq_between_def)
qed

section \<open>Properties\<close>





text \<open>C5. When the messages \<open>k + 1\<close> to \<open>k + n\<close> have all arrived, in any order and any number of times,
  all of them are in the queue of the connection, in order, and nothing waits in the receive queue:
  for up to a window of messages that the queues have room for, on a connection whose user has it
  already, and no arrival fails.\<close>

theorem csp_rdp_delivers_all:
  assumes "csp_link nh" "rdp_ok c (mset ps) (r, w)" "in_order stream irs k {} (r, w)"
    "\<forall>p \<in> set ps. carries stream irs (rd_snd_una r - 1) w p (num p)" "num ` set ps = {k + 1..k + n}"
    "n \<le> rdp_window r" "n \<le> 40" "n + rdp_window r \<le> 2 ^ 16" "rdp_ack_valid r (rd_snd_una r - 1)"
    "length (cn_rx_queue (nd_conns w ! c)) + n < CSP_RX_QUEUE_LENGTH"
    "cn_socket (nd_conns w ! c) = None" "roomy 100 w"
  shows "\<exists>r' w'. rdp_arrivals nh nonces iss c ps (r, w) = Some (r', w') \<and>
     contents c w' = contents c w @ messages stream k (k + n) \<and> rd_rcv_cur r' = irs + of_nat (k + n) \<and>
     rd_rx_queue r' = []"
proof -
  have "\<forall>p \<in> set ps. carries stream irs (rd_snd_una r - 1) w p (num p) \<and> num p \<le> k + n \<and>
      k + n < num p + (2 ^ 16 - rdp_window r)"
  proof
    fix p assume p: "p \<in> set ps"
    then have "num p \<in> {k + 1..k + n}" using assms(5) by blast
    then show "carries stream irs (rd_snd_una r - 1) w p (num p) \<and> num p \<le> k + n \<and>
        k + n < num p + (2 ^ 16 - rdp_window r)"
      using p assms(4,8) by auto
  qed
  then obtain r' w' k' S' where a: "rdp_arrivals nh nonces iss c ps (r, w) = Some (r', w')"
      "in_order stream irs k' S' (r', w')" "k \<le> k'" "{..k'} \<union> S' = {..k} \<union> {} \<union> num ` set ps"
      "contents c w' = contents c w @ messages stream k k'"
    using csp_link.arrivals_receive [OF assms(1), of c ps "{#}" r w stream irs k "{}" num "k + n" nonces iss] assms
    by auto
  have u: "{..k'} \<union> S' = {..k + n}" using a(4) assms(5) by auto
  have S: "S' \<subseteq> {Suc k'<..}" using a(2) by (auto simp: in_order_def)
  have "k' \<le> k + n" using u by auto
  moreover have "\<not> k' < k + n"
  proof
    assume "k' < k + n"
    then have "Suc k' \<in> {..k'} \<union> S'" unfolding u by simp
    then show False using S by auto
  qed
  ultimately have k: "k' = k + n" by simp
  moreover have "x \<notin> S'" for x
  proof
    assume x: "x \<in> S'"
    then have "x \<in> {..k + n}" using u by blast
    moreover have "Suc k' < x" using S x by auto
    ultimately show False using k by simp
  qed
  then have "S' = {}" by blast
  then have "rd_rx_queue r' = []" using a(2) by (auto simp: in_order_def queue_holds_def)
  ultimately show ?thesis using a by (auto simp: in_order_def)
qed

lemma csp_rdp_delivers_all_witness:
  "\<exists>r' w'. rdp_arrivals lo_nexthop (\<lambda>_. 0) 0 0 [0, 1] (demo_rdp, demo_arrived) = Some (r', w') \<and>
     contents 0 w' = messages demo_stream 0 2"
proof -
  have n: "(\<lambda>p. 2 - p) ` set [0, 1] = {0 + 1..0 + 2 :: nat}" by auto
  have f: "rd_snd_una demo_rdp - 1 = 99" "cn_rx_queue (nd_conns demo_arrived ! 0) = []"
    "cn_socket (nd_conns demo_arrived ! 0) = None"
    by (simp_all add: demo_rdp_def demo_conns) (simp_all add: demo_client_def closed_conn_def)
  have c: "\<forall>p \<in> set [0, 1]. carries demo_stream 50 99 demo_arrived p (2 - p)" using demo_carries by simp
  show ?thesis
    using csp_rdp_delivers_all [OF lo_link.csp_link_axioms _ demo_in_order(1) c [folded f(1)] n,
        where c = 0 and nonces = "\<lambda>_. 0" and iss = 0] demo_arrived_ok
    by (simp add: f demo_in_order(2) demo_roomy demo_conns(2) CSP_RX_QUEUE_LENGTH_def del: rdp_arrivals.simps
        One_nat_def add_2_eq_Suc') blast
qed

text \<open>The timer of an open connection whose user has it keeps exactly the packets whose number is
  not before the first unacknowledged one, in their order, whether it sends them again or not.\<close>

theorem csp_rdp_timer_keeps_unacknowledged:
  assumes "csp_link nh" "rdp_ok c M (r, w)" "rd_state r = RDP_OPEN" "cn_socket (nd_conns w ! c) = None"
    "csp_rdp_check_timeouts nh nonces c (r, w) = Some (r', w')"
  shows "rd_tx_queue r' = filter (rdp_unacked r w) (rd_tx_queue r) \<and> rdp_ok c M (r', w')"
proof
  let ?n = "length (rd_tx_queue r)"
  obtain r1 w1 e r2 where t: "rdp_tx_loop nh nonces c ?n (r, w) = Some (r1, w1)"
      "csp_rdp_check_ack nh (nonces ?n) c (r1, w1) = Some (e, r2, w')" "r' = rdp_wake_sender r2"
    using assms(3-5) by (auto simp: csp_rdp_check_timeouts_def Let_def split: if_splits option.splits)
  have "rd_tx_queue r1 = filter (rdp_unacked r w) (rd_tx_queue r)"
    using csp_link.tx_loop_filter [OF assms(1) t(1) assms(2)] by simp
  moreover have "rdp_ok c M (r1, w1)" using csp_link.tx_loop_keeps [OF assms(1) t(1) assms(2)] by blast
  then have "rd_tx_queue r2 = rd_tx_queue r1" using csp_link.check_ack_keeps [OF assms(1) t(2)] by blast
  ultimately show "rd_tx_queue r' = filter (rdp_unacked r w) (rd_tx_queue r)"
    by (simp add: t(3) rdp_wake_sender_def)
  show "rdp_ok c M (r', w')" by (rule csp_link.check_timeouts_keeps [OF assms(1,5,2)])
qed

text \<open>Comparisons of wrapping numbers are right when the numbers are less than half the range
  apart: \<open>csp_rdp_seq_before\<close> and \<open>csp_rdp_time_before\<close> are the order of the numbers before they
  wrapped, and \<open>csp_rdp_seq_between\<close> is right for intervals shorter than the range.  At half the range
  each number is before the other.\<close>

theorem csp_rdp_comparisons_exact:
  assumes "\<bar>a - b\<bar> < 2 ^ 15" "\<bar>s - t\<bar> < 2 ^ 31" "x \<le> y" "y < x + 2 ^ 16" "x \<le> z" "z < x + 2 ^ 16"
  shows "csp_rdp_seq_before (of_int a) (of_int b) = (a < b) \<and> csp_rdp_seq_after (of_int a) (of_int b) = (a > b) \<and>
     csp_rdp_time_before (of_int s) (of_int t) = (s < t) \<and> csp_rdp_time_after (of_int s) (of_int t) = (s > t) \<and>
     csp_rdp_seq_between (of_int z) (of_int x) (of_int y) = (z \<le> y) \<and>
     csp_rdp_seq_before (of_int a) (of_int (a + 2 ^ 15)) \<and> csp_rdp_seq_before (of_int (a + 2 ^ 15)) (of_int a)"
proof -
  have w: "sint (of_int u - of_int v :: u16) = u - v" if "\<bar>u - v\<bar> < 2 ^ 15" for u v
  proof -
    have "sint (of_int (u - v) :: u16) = signed_take_bit 15 (u - v)"
      by (simp add: signed_of_int del: of_int_diff)
    also have "\<dots> = u - v" using that by (intro signed_take_bit_int_eq_self) auto
    finally show ?thesis by simp
  qed
  have tm: "sint (of_int u - of_int v :: u32) = u - v" if "\<bar>u - v\<bar> < 2 ^ 31" for u v
  proof -
    have "sint (of_int (u - v) :: u32) = signed_take_bit 31 (u - v)"
      by (simp add: signed_of_int del: of_int_diff)
    also have "\<dots> = u - v" using that by (intro signed_take_bit_int_eq_self) auto
    finally show ?thesis by simp
  qed
  have u: "uint (of_int v - of_int x :: u16) = v - x" if "x \<le> v" "v < x + 2 ^ 16" for v
  proof -
    have "uint (of_int (v - x) :: u16) = take_bit 16 (v - x)"
      by (simp add: unsigned_of_int del: of_int_diff)
    also have "\<dots> = v - x" using that by (intro take_bit_int_eq_self) auto
    finally show ?thesis by simp
  qed
  have h: "sint (of_int a - of_int (a + 2 ^ 15) :: u16) < 0" "sint (of_int (a + 2 ^ 15) - of_int a :: u16) < 0"
    by simp_all
  have "csp_rdp_seq_between (of_int z) (of_int x) (of_int y) = (z \<le> y)"
    using u [of z] u [of y] assms(3-6) by (simp add: csp_rdp_seq_between_def word_le_def)
  then show ?thesis
    using w [of a b] w [of b a] tm [of s t] tm [of t s] assms(1,2) h
    by (simp add: csp_rdp_seq_before_def csp_rdp_seq_after_def csp_rdp_time_before_def csp_rdp_time_after_def abs_minus_commute)
qed

lemma csp_rdp_wrapped: "(65538 :: u16) = 2" "(4294967301 :: u32) = 5" "(65546 :: u16) = 10" "(65539 :: u16) = 3"
  by simp_all

lemma csp_rdp_comparisons_exact_witness:
  "csp_rdp_seq_before 65535 2 \<and> csp_rdp_time_after 5 4294967290 \<and> csp_rdp_seq_between 3 65530 10"
  using csp_rdp_comparisons_exact [of 65535 65538 4294967301 4294967290 65530 65546 65539]
  unfolding of_int_numeral by (simp add: csp_rdp_wrapped)

text \<open>A full queue loses a message for good: when the next message waits in the receive queue and the
  queue of the connection is full, \<open>csp_rdp_rx_queue_flush\<close>, which does not look at the result of
  \<open>csp_rdp_receive_data\<close>, takes the packet out and counts it as received, so that it is acknowledged
  and never sent again, but the user does not get it, and its buffer is in use and in no place.\<close>

theorem csp_rdp_full_queue_loses:
  assumes "rdp_ok c M (r, w)" "rd_rx_queue r = [p]" "csp_rdp_header_ref (buf_packet (nd_pool w) p) = Some h"
    "rh_seq_nr h = rd_rcv_cur r + 1" "cn_socket (nd_conns w ! c) = None"
    "length (cn_rx_queue (nd_conns w ! c)) = CSP_RX_QUEUE_LENGTH"
  shows "\<exists>r' w'. csp_rdp_rx_queue_flush c (r, w) = Some (r', w') \<and> rd_rcv_cur r' = rd_rcv_cur r + 1 \<and>
     rd_rx_queue r' = [] \<and> nd_conns w' = nd_conns w \<and> p \<in> bufs w' \<and>
     owned (add_mset p (rdp_refs r' + M)) w'"
proof -
  let ?pk = "buf_packet (nd_pool w) p"
  have l: "sizeof_rdp_header \<le> pkt_length ?pk" using assms(3) by (rule header_ref_length)
  then obtain pk where pk: "csp_rdp_header_remove ?pk = Some pk"
    by (auto simp: csp_rdp_header_remove_def)
  let ?w = "put_packet p pk w" and ?r = "r\<lparr>rd_rx_queue := [], rd_rcv_cur := rd_rcv_cur r + 1\<rparr>"
  have "csp_rdp_receive_data c p w = Some (CSP_ERR_NOBUFS, ?w)"
    using assms(5,6) pk by (simp add: csp_rdp_receive_data_def csp_conn_enqueue_packet_def csp_err_defs)
  then have f: "csp_rdp_rx_queue_flush c (r, w) = Some (?r, ?w)"
    using assms(2-4) by (simp add: csp_rdp_rx_queue_flush.simps)
  have "owned (rdp_refs r + M) ?w" by (rule owned_put_packet [OF rdp_okD(2) [OF assms(1)]])
  then have o: "owned (add_mset p (rdp_refs ?r + M)) ?w" by (simp add: rdp_refs_def assms(2))
  then show ?thesis using f owned_bufs [OF o] by (intro exI [of _ ?r] exI [of _ ?w]) simp
qed

definition demo_full :: csp_node where
  "demo_full = set_conn 0 (demo_client\<lparr>cn_rx_queue := replicate CSP_RX_QUEUE_LENGTH None\<rparr>) demo_arrived"

definition demo_flooded :: csp_rdp where
  "demo_flooded = demo_rdp\<lparr>rd_rcv_cur := csp_hton16 51 - 1, rd_rx_queue := [1]\<rparr>"

lemma demo_full_ok: "rdp_ok 0 {#0#} (demo_flooded, demo_full)"
proof -
  have "rdp_ok 0 {#0, 1#} (demo_rdp, demo_full)"
    unfolding demo_full_def
    by (rule rdp_ok_conn [OF demo_arrived_ok]) (simp_all add: demo_conns rx_refs_def, simp_all add: demo_client_def closed_conn_def map_filter_simps CSP_RX_QUEUE_LENGTH_def numeral_eq_Suc)
  from rdp_okD [OF this] show ?thesis
    by (intro rdp_okI) (simp_all add: demo_flooded_def rdp_refs_def demo_rdp_def add_mset_commute CSP_RDP_MAX_WINDOW_def)
qed

lemma csp_rdp_full_queue_loses_witness:
  "\<exists>r' w'. csp_rdp_rx_queue_flush 0 (demo_flooded, demo_full) = Some (r', w') \<and> rd_rcv_cur r' = csp_hton16 51 \<and>
     nd_conns w' = nd_conns demo_full \<and> 1 \<in> bufs w'"
proof -
  have p: "buf_packet (nd_pool demo_full) 1 = demo_message 1"
    using demo_arrived_packets(2) by (simp add: demo_full_def)
  have c: "nd_conns demo_full ! 0 = demo_client\<lparr>cn_rx_queue := replicate CSP_RX_QUEUE_LENGTH None\<rparr>"
    by (simp add: demo_full_def demo_conns) (simp add: demo_connected_def demo_node_def)
  show ?thesis
    using csp_rdp_full_queue_loses [OF demo_full_ok, of 1] demo_message_header(1) [of 1]
    by (simp add: p c del: One_nat_def) (auto simp: demo_flooded_def demo_client_def closed_conn_def)
qed

text \<open>The timer with an acknowledged and an unacknowledged packet.\<close>

definition demo_sending :: csp_rdp where
  "demo_sending = demo_rdp\<lparr>rd_snd_una := 52, rd_tx_queue := [1, 0]\<rparr>"

lemma demo_sending_ok: "rdp_ok 0 {#} (demo_sending, demo_arrived)"
  using rdp_okD [OF demo_arrived_ok]
  by (intro rdp_okI) (simp_all add: demo_sending_def rdp_refs_def demo_rdp_def add_mset_commute CSP_RDP_MAX_WINDOW_def)

lemma csp_rdp_timer_keeps_unacknowledged_witness:
  "\<exists>r' w'. csp_rdp_check_timeouts lo_nexthop (\<lambda>_. 0) 0 (demo_sending, demo_arrived) = Some (r', w') \<and>
     rd_tx_queue r' = [0]"
proof -
  have t: "nd_now demo_arrived = 0" "pkt_timestamp (demo_message m) = 0" for m
    by (simp_all add: demo_arrived_def demo_rdp_node_def demo_connected_def demo_message_def empty_packet_def)
      (simp add: put_packet_def demo_node_def)
  have u: "filter (rdp_unacked demo_sending demo_arrived) [1, 0] = [0]"
    by (simp add: rdp_unacked_def demo_arrived_packets demo_message_header del: One_nat_def)
      (simp add: demo_sending_def csp_rdp_seq_before_def csp_ntoh16_def)
  have s: "cn_socket (nd_conns demo_arrived ! 0) = None" by (simp add: demo_conns demo_client_def closed_conn_def)
  have "csp_rdp_check_timeouts lo_nexthop (\<lambda>_. 0) 0 (demo_sending, demo_arrived) \<noteq> None"
    using demo_arrived_packets demo_message_header(1) [of 1] demo_message_header(1) [of 2] t s
    by (simp add: csp_rdp_check_timeouts_def demo_sending_def demo_rdp_def csp_rdp_check_ack_def
        csp_rdp_should_ack_def csp_rdp_time_after_def csp_rdp_time_before_def csp_rdp_seq_after_def csp_rdp_seq_before_def
        csp_ntoh16_def tx_enqueue_def CSP_RDP_MAX_WINDOW_def free_packet_def Let_def)
  then obtain r' w' where r: "csp_rdp_check_timeouts lo_nexthop (\<lambda>_. 0) 0 (demo_sending, demo_arrived) = Some (r', w')" by auto
  have "rd_tx_queue r' = [0]"
    using csp_rdp_timer_keeps_unacknowledged [OF lo_link.csp_link_axioms demo_sending_ok _ s r] u
    by (simp add: demo_sending_def demo_rdp_def)
  then show ?thesis using r by blast
qed

end
