(* ===== verification/CspSfp.thy ===== *)
theory CspSfp
  imports CspRoute
begin

text \<open>
  Fragmentation (\<open>csp_sfp.c\<close>): data of any length is sent in packets that carry their offset and the
  length of the whole behind the data, and put together again in memory the receiver allocates.  A
  byte of that memory is \<open>None\<close> until it is written.  The outer result \<open>None\<close> is an access outside
  a buffer, or the fuel was not enough.
\<close>

section \<open>Headers\<close>

record sfp_header =
  sfp_offset :: u32
  sfp_totalsize :: u32

definition sizeof_sfp_header :: nat where "sizeof_sfp_header = 8"

definition sfp_header_bytes :: "sfp_header \<Rightarrow> u8 list" where
  "sfp_header_bytes h = le32 (sfp_offset h) @ le32 (sfp_totalsize h)"

definition csp_sfp_header_add :: "csp_packet \<Rightarrow> csp_packet option" where
  "csp_sfp_header_add packet = pkt_append (replicate sizeof_sfp_header 0) packet"

text \<open>Writing through the pointer that \<open>csp_sfp_header_add\<close> returns.\<close>

definition sfp_header_write :: "sfp_header \<Rightarrow> csp_packet \<Rightarrow> csp_packet" where
  "sfp_header_write h packet =
     packet\<lparr>pkt_data := take (pkt_length packet - sizeof_sfp_header) (pkt_data packet) @ sfp_header_bytes h\<rparr>"

definition csp_sfp_header_remove :: "csp_packet \<Rightarrow> (sfp_header \<times> csp_packet) option" where
  "csp_sfp_header_remove packet =
     (if pkt_length packet < sizeof_sfp_header then None
      else
        let n = pkt_length packet - sizeof_sfp_header; bs = drop n (pkt_data packet)
        in Some (\<lparr>sfp_offset = of_le32 (take 4 bs), sfp_totalsize = of_le32 (drop 4 bs)\<rparr>,
                 packet\<lparr>pkt_data := take n (pkt_data packet)\<rparr>))"

section \<open>Sending\<close>

text \<open>One packet with the bytes from \<open>sent\<close> on.  The size of the buffer is converted to an unsigned
  number, to which the header of the pool is added: for sizes just below zero this wraps around, and
  the copy of a negative size after it is out of every bounds.\<close>

definition sfp_send_one ::
  "nexthop \<Rightarrow> u32 \<Rightarrow> nat \<Rightarrow> u8 list \<Rightarrow> int \<Rightarrow> int \<Rightarrow> int \<Rightarrow> csp_node \<Rightarrow> ((int \<times> int) \<times> csp_node) option" where
  "sfp_send_one nh nonce c data totalsize mtu sent w =
     (if mtu < 0 then
        (if mtu + int CSP_BUFFER_PACKET_OVERHEAD \<ge> 0 then None else Some ((- 1, sent), w))
      else case csp_buffer_get (nat mtu) (nd_pool w) of
        (None, pool) \<Rightarrow> Some ((- 1, sent), w\<lparr>nd_pool := pool\<rparr>)
      | (Some p, pool) \<Rightarrow>
          let size = (if totalsize - sent > mtu then mtu else totalsize - sent);
              bytes = take (nat size) (drop (nat sent) data);
              cn = nd_conns w ! c
          in if length bytes < nat size \<or> nat size > pkt_cap (buf_packet pool p) then None
             else (case csp_sfp_header_add ((buf_packet pool p)\<lparr>pkt_data := bytes\<rparr>) of
                     None \<Rightarrow> None
                   | Some pk \<Rightarrow>
                       let pk = sfp_header_write \<lparr>sfp_offset = csp_hton32 (word_of_int sent),
                                                  sfp_totalsize = csp_hton32 (word_of_int totalsize)\<rparr> pk;
                           w = put_packet p pk (set_conn c (cn\<lparr>cn_idout := add_flag CSP_FFRAG (cn_idout cn)\<rparr>)
                                 (w\<lparr>nd_pool := pool\<rparr>))
                       in (case csp_send nh nonce (Some c) (Some p) w of
                             None \<Rightarrow> None
                           | Some (ok, w) \<Rightarrow>
                               if ok = 0 then Some ((- 1, sent), free_packet (Some p) w)
                               else Some ((0, sent + size), w))))"

text \<open>\<open>nonces i\<close> is the random number of the \<open>i\<close>-th packet from the end of the fuel.\<close>

fun sfp_send_loop ::
  "nexthop \<Rightarrow> (nat \<Rightarrow> u32) \<Rightarrow> nat \<Rightarrow> u8 list \<Rightarrow> int \<Rightarrow> int \<Rightarrow> nat \<Rightarrow> int \<Rightarrow> csp_node \<Rightarrow> (int \<times> csp_node) option" where
  "sfp_send_loop nh nonces c data totalsize mtu 0 sent w = (if sent < totalsize then None else Some (0, w))"
| "sfp_send_loop nh nonces c data totalsize mtu (Suc n) sent w =
     (if sent < totalsize then
        (case sfp_send_one nh (nonces n) c data totalsize mtu sent w of
           None \<Rightarrow> None
         | Some ((e, sent), w) \<Rightarrow>
             if e \<noteq> 0 then Some (- 1, w) else sfp_send_loop nh nonces c data totalsize mtu n sent w)
      else Some (0, w))"

definition csp_sfp_send_own_memcpy ::
  "nexthop \<Rightarrow> (nat \<Rightarrow> u32) \<Rightarrow> nat \<Rightarrow> nat \<Rightarrow> u8 list \<Rightarrow> int \<Rightarrow> int \<Rightarrow> csp_node \<Rightarrow> (int \<times> csp_node) option" where
  "csp_sfp_send_own_memcpy nh nonces fuel c data totalsize mtu w =
     sfp_send_loop nh nonces c data totalsize mtu fuel 0 w"

definition csp_sfp_send ::
  "nexthop \<Rightarrow> (nat \<Rightarrow> u32) \<Rightarrow> nat \<Rightarrow> nat \<Rightarrow> u8 list \<Rightarrow> int \<Rightarrow> int \<Rightarrow> csp_node \<Rightarrow> (int \<times> csp_node) option" where
  "csp_sfp_send nh nonces fuel c data totalsize mtu w =
     csp_sfp_send_own_memcpy nh nonces fuel c data totalsize mtu w"

section \<open>Receiving\<close>

text \<open>The memory of the caller: \<open>dataout\<close> and \<open>datasize\<close>.\<close>

record sfp_out =
  so_data :: "u8 option list option"
  so_size :: int

datatype sfp_step = SfpDone int | SfpMore u32

text \<open>One packet; \<open>malloc n\<close> is whether \<open>n\<close> bytes can be allocated.  A packet without the flag is not
  freed.\<close>

definition sfp_recv_one ::
  "(nat \<Rightarrow> bool) \<Rightarrow> u32 \<Rightarrow> nat \<Rightarrow> sfp_out \<Rightarrow> csp_node \<Rightarrow> (sfp_step \<times> sfp_out \<times> csp_node) option" where
  "sfp_recv_one malloc last_byte p out w =
     (if \<not> has_flag CSP_FFRAG (pkt_id (buf_packet (nd_pool w) p)) then Some (SfpDone (- 1), out, w)
      else case csp_sfp_header_remove (buf_packet (nd_pool w) p) of
        None \<Rightarrow> None
      | Some (h, pk) \<Rightarrow>
          let w = put_packet p pk w;
              offset = csp_ntoh32 (sfp_offset h); total = csp_ntoh32 (sfp_totalsize h);
              fin = offset + of_nat (pkt_length pk);
              freed = free_packet (Some p) w
          in if offset > last_byte + 1 then Some (SfpDone (- 1), out, freed)
             else (case (case so_data out of
                           None \<Rightarrow> if malloc (unat total) then Some (replicate (unat total) None) else None
                         | Some m \<Rightarrow> Some m) of
                     None \<Rightarrow> Some (SfpDone (- 1), out, freed)
                   | Some m \<Rightarrow>
                       if unat offset + pkt_length pk > length m then None
                       else
                         let m = take (unat offset) m @ map Some (pkt_data pk) @ drop (unat offset + pkt_length pk) m;
                             out = \<lparr>so_data = Some m, so_size = sint total\<rparr>
                         in Some (if fin \<ge> total then SfpDone 0 else SfpMore fin, out, freed)))"

text \<open>While the receiver waits in \<open>csp_read\<close> the other tasks run.\<close>

fun sfp_recv_loop ::
  "(nat \<Rightarrow> bool) \<Rightarrow> (csp_node \<Rightarrow> csp_node) \<Rightarrow> nat \<Rightarrow> nat \<Rightarrow> u32 \<Rightarrow> nat \<Rightarrow> sfp_out \<Rightarrow> csp_node \<Rightarrow> (int \<times> sfp_out \<times> csp_node) option" where
  "sfp_recv_loop malloc other_tasks c 0 last_byte p out w = None"
| "sfp_recv_loop malloc other_tasks c (Suc n) last_byte p out w =
     (case sfp_recv_one malloc last_byte p out w of
        None \<Rightarrow> None
      | Some (SfpDone e, out, w) \<Rightarrow> Some (e, out, w)
      | Some (SfpMore last_byte, out, w) \<Rightarrow>
          (case csp_read (Some c) (other_tasks w) of
             (None, w) \<Rightarrow> Some (- 1, out, w)
           | (Some p, w) \<Rightarrow> sfp_recv_loop malloc other_tasks c n last_byte p out w))"

definition csp_sfp_recv_fp ::
  "(nat \<Rightarrow> bool) \<Rightarrow> (csp_node \<Rightarrow> csp_node) \<Rightarrow> nat \<Rightarrow> nat \<Rightarrow> nat option \<Rightarrow> sfp_out \<Rightarrow> csp_node \<Rightarrow> (int \<times> sfp_out \<times> csp_node) option" where
  "csp_sfp_recv_fp malloc other_tasks fuel c first_packet out w =
     (case first_packet of
        Some p \<Rightarrow> sfp_recv_loop malloc other_tasks c fuel 0 p out w
      | None \<Rightarrow>
          (case csp_read (Some c) (other_tasks w) of
             (None, w) \<Rightarrow> Some (- 1, out, w)
           | (Some p, w) \<Rightarrow> sfp_recv_loop malloc other_tasks c fuel 0 p out w))"

definition csp_sfp_recv ::
  "(nat \<Rightarrow> bool) \<Rightarrow> (csp_node \<Rightarrow> csp_node) \<Rightarrow> nat \<Rightarrow> nat \<Rightarrow> sfp_out \<Rightarrow> csp_node \<Rightarrow> (int \<times> sfp_out \<times> csp_node) option" where
  "csp_sfp_recv malloc other_tasks fuel c out w = csp_sfp_recv_fp malloc other_tasks fuel c None out w"

section \<open>What is sent\<close>

text \<open>The contents of the packets for \<open>rest\<close>, the bytes from \<open>off\<close> on of data of the length \<open>tot\<close>.\<close>

function sfp_fragments :: "nat \<Rightarrow> nat \<Rightarrow> nat \<Rightarrow> u8 list \<Rightarrow> u8 list list" where
  "sfp_fragments tot mtu off rest =
     (if rest = [] \<or> mtu = 0 then []
      else (take mtu rest @ be32 (of_nat off) @ be32 (of_nat tot)) #
           sfp_fragments tot mtu (off + mtu) (drop mtu rest))"
  by pat_completeness auto
termination by (relation "measure (\<lambda>(tot, mtu, off, rest). length rest)") auto

declare sfp_fragments.simps [simp del]

lemma sfp_fragments_nil [simp]: "sfp_fragments tot mtu off [] = []"
  by (simp add: sfp_fragments.simps)

lemma sfp_header_remove_fragment:
  assumes "pkt_data pk = bs @ be32 a @ be32 b"
  shows "csp_sfp_header_remove pk =
    Some (\<lparr>sfp_offset = csp_hton32 a, sfp_totalsize = csp_hton32 b\<rparr>, pk\<lparr>pkt_data := bs\<rparr>)"
  using assms
  by (simp add: csp_sfp_header_remove_def pkt_length_def sizeof_sfp_header_def le32_csp_hton32 [symmetric]
      del: le32_csp_hton32)

text \<open>Memory that is filled up to \<open>off\<close>.\<close>

definition sfp_filled :: "sfp_out \<Rightarrow> u8 list \<Rightarrow> nat \<Rightarrow> bool" where
  "sfp_filled out got tot \<longleftrightarrow>
     got = [] \<and> so_data out = None \<or> so_data out = Some (map Some got @ replicate (tot - length got) None)"

lemma sfp_filled_memory:
  assumes "sfp_filled out got tot"
  shows "(case so_data out of None \<Rightarrow> Some (replicate tot None) | Some m \<Rightarrow> Some m) =
    Some (map Some got @ replicate (tot - length got) None)"
  using assms by (auto simp: sfp_filled_def)

lemma sfp_recv_one_fragment:
  assumes "has_flag CSP_FFRAG (pkt_id (buf_packet (nd_pool w) p))"
    "pkt_data (buf_packet (nd_pool w) p) = bs @ be32 (of_nat (length got)) @ be32 (of_nat tot)"
    "length got + length bs \<le> tot" "tot < 2 ^ 31" "sfp_filled out got tot" "malloc tot"
    "last_byte = of_nat (length got)"
  shows "sfp_recv_one malloc last_byte p out w =
    Some (if length got + length bs = tot then SfpDone 0 else SfpMore (of_nat (length got + length bs)),
      \<lparr>so_data = Some (map Some (got @ bs) @ replicate (tot - length (got @ bs)) None), so_size = int tot\<rparr>,
      free_packet (Some p) (put_packet p ((buf_packet (nd_pool w) p)\<lparr>pkt_data := bs\<rparr>) w))"
proof -
  have lt: "length got < 2 ^ 32" "tot < 2 ^ 32" "length got + length bs < 2 ^ 32" using assms(3,4) by simp_all
  have u: "unat (of_nat (length got) :: u32) = length got" "unat (of_nat tot :: u32) = tot"
    "unat (of_nat (length got + length bs) :: u32) = length got + length bs"
    using lt by (simp_all only: unsigned_of_nat) (simp_all add: take_bit_nat_eq_self)
  have s: "sint (of_nat tot :: u32) = int tot"
    using assms(4) by (simp add: signed_of_nat) (intro signed_take_bit_int_eq_self, auto)
  have le: "\<not> (of_nat (length got) :: u32) > of_nat (length got) + 1"
    using assms(3,4) by (simp add: word_less_nat_alt unat_word_ariths u)
  have fin: "(of_nat (length got) + of_nat (length bs) \<ge> (of_nat tot :: u32)) = (length got + length bs = tot)"
    using u assms(3) by (auto simp: word_le_nat_alt)
  note mem = sfp_filled_memory [OF assms(5)]
  show ?thesis
    unfolding sfp_recv_one_def sfp_header_remove_fragment [OF assms(2)]
    using assms(1,3) le fin
    by (simp add: Let_def u s mem assms(6,7) pkt_length_def csp_ntoh32_def cong: option.case_cong)
qed

text \<open>The packets \<open>ps\<close> hold the fragments of \<open>rest\<close>.\<close>

definition holds_fragments :: "csp_node \<Rightarrow> nat list \<Rightarrow> u8 list list \<Rightarrow> bool" where
  "holds_fragments w ps fs \<longleftrightarrow> distinct ps \<and> map (\<lambda>p. pkt_data (buf_packet (nd_pool w) p)) ps = fs \<and>
     (\<forall>p \<in> set ps. has_flag CSP_FFRAG (pkt_id (buf_packet (nd_pool w) p)))"

lemma free_packet_same [simp]:
  "nd_conns (free_packet q w) = nd_conns w" "buf_packet (nd_pool (free_packet q w)) p = buf_packet (nd_pool w) p"
  by (simp_all add: free_packet_def)

lemma put_packet_other: "p \<noteq> q \<Longrightarrow> buf_packet (nd_pool (put_packet q pk w)) p = buf_packet (nd_pool w) p"
  by (simp add: put_packet_def set_packet_def buf_packet_def)

lemma sfp_recv_fragments:
  assumes "holds_fragments w (p # ps) (sfp_fragments tot mtu (length got) rest)" "0 < mtu" "rest \<noteq> []"
    "length got + length rest = tot" "tot < 2 ^ 31" "sfp_filled out got tot" "malloc tot"
    "last_byte = of_nat (length got)" "cn_rx_queue (nd_conns w ! c) = map Some ps" "cn_open (nd_conns w ! c)"
    "c < length (nd_conns w)" "length ps < fuel"
  shows "\<exists>w'. sfp_recv_loop malloc (\<lambda>w. w) c fuel last_byte p out w =
     Some (0, \<lparr>so_data = Some (map Some (got @ rest)), so_size = int tot\<rparr>, w') \<and> cn_rx_queue (nd_conns w' ! c) = []"
  using assms
proof (induction ps arbitrary: p got rest out w last_byte fuel)
  case Nil
  then have f: "sfp_fragments tot mtu (length got) rest = [pkt_data (buf_packet (nd_pool w) p)]" "fuel \<noteq> 0"
    by (auto simp: holds_fragments_def)
  have fs: "sfp_fragments tot mtu (length got) rest = (take mtu rest @ be32 (of_nat (length got)) @ be32 (of_nat tot)) #
      sfp_fragments tot mtu (length got + mtu) (drop mtu rest)"
    using Nil.prems(2,3) by (subst sfp_fragments.simps) simp
  have "drop mtu rest = []"
    using f(1) fs Nil.prems(2) by (subst (asm) (2) sfp_fragments.simps) (auto split: if_splits)
  then have t: "take mtu rest = rest" by simp
  have d: "pkt_data (buf_packet (nd_pool w) p) = rest @ be32 (of_nat (length got)) @ be32 (of_nat tot)"
    "has_flag CSP_FFRAG (pkt_id (buf_packet (nd_pool w) p))"
    using Nil.prems(1) fs f(1) t by (auto simp: holds_fragments_def)
  obtain n where n: "fuel = Suc n" using f(2) by (cases fuel) auto
  show ?case
    using sfp_recv_one_fragment [where malloc = malloc, OF d(2,1) _ Nil.prems(5-8)] Nil.prems(4,9) by (simp add: n put_packet_def)
next
  case (Cons q ps)
  let ?bs = "take mtu rest"
  have fs: "sfp_fragments tot mtu (length got) rest = (?bs @ be32 (of_nat (length got)) @ be32 (of_nat tot)) #
      sfp_fragments tot mtu (length got + mtu) (drop mtu rest)"
    using Cons.prems(2,3) by (subst sfp_fragments.simps) simp
  have d: "pkt_data (buf_packet (nd_pool w) p) = ?bs @ be32 (of_nat (length got)) @ be32 (of_nat tot)"
    "has_flag CSP_FFRAG (pkt_id (buf_packet (nd_pool w) p))"
    "map (\<lambda>p. pkt_data (buf_packet (nd_pool w) p)) (q # ps) = sfp_fragments tot mtu (length got + mtu) (drop mtu rest)"
    "p \<notin> set (q # ps)" "distinct (q # ps)"
    using Cons.prems(1) fs by (auto simp: holds_fragments_def)
  have more: "drop mtu rest \<noteq> []" using d(3) by auto
  then have lt: "mtu < length rest" by simp
  then have l: "length got + length ?bs < tot" "length ?bs = mtu" using Cons.prems(4) by auto
  obtain n where n: "fuel = Suc n" "length ps < n" using Cons.prems(12) by (cases fuel) auto
  let ?w1 = "free_packet (Some p) (put_packet p ((buf_packet (nd_pool w) p)\<lparr>pkt_data := ?bs\<rparr>) w)"
  let ?out = "\<lparr>so_data = Some (map Some (got @ ?bs) @ replicate (tot - length (got @ ?bs)) None), so_size = int tot\<rparr>"
  have one: "sfp_recv_one malloc last_byte p out w = Some (SfpMore (of_nat (length got + mtu)), ?out, ?w1)"
    using sfp_recv_one_fragment [where malloc = malloc, OF d(2,1) _ Cons.prems(5-8)] l by simp
  let ?w2 = "set_conn c ((nd_conns w ! c)\<lparr>cn_rx_queue := map Some ps\<rparr>) ?w1"
  have rd: "csp_read (Some c) ?w1 = (Some q, ?w2)"
    using Cons.prems(9,10) by (simp add: csp_read_def put_packet_def)
  have same: "buf_packet (nd_pool ?w2) x = buf_packet (nd_pool w) x" if "x \<in> set (q # ps)" for x
    using that d(4) put_packet_other [of x p] by auto
  have h: "holds_fragments ?w2 (q # ps) (sfp_fragments tot mtu (length (got @ ?bs)) (drop mtu rest))"
    unfolding holds_fragments_def
  proof (intro conjI ballI)
    show "distinct (q # ps)" by (rule d(5))
    show "map (\<lambda>p. pkt_data (buf_packet (nd_pool ?w2) p)) (q # ps) =
        sfp_fragments tot mtu (length (got @ ?bs)) (drop mtu rest)"
      using d(3) l(2) same by (auto cong: map_cong)
    show "has_flag CSP_FFRAG (pkt_id (buf_packet (nd_pool ?w2) x))" if "x \<in> set (q # ps)" for x
      using same [OF that] Cons.prems(1) that by (auto simp: holds_fragments_def)
  qed
  have "\<exists>w'. sfp_recv_loop malloc (\<lambda>w. w) c n (of_nat (length got + mtu)) q ?out ?w2 =
      Some (0, \<lparr>so_data = Some (map Some ((got @ ?bs) @ drop mtu rest)), so_size = int tot\<rparr>, w') \<and>
      cn_rx_queue (nd_conns w' ! c) = []"
    by (rule Cons.IH [OF h Cons.prems(2) more _ Cons.prems(5) _ Cons.prems(7)])
      (use l lt Cons.prems(4,10,11) n(2) in \<open>simp_all add: sfp_filled_def put_packet_def\<close>)
  then show ?case using one rd by (simp add: n(1))
qed

section \<open>Sending over the loopback interface\<close>

definition no_security :: "csp_id \<Rightarrow> bool" where
  "no_security i \<longleftrightarrow> \<not> has_flag CSP_FHMAC i \<and> \<not> has_flag CSP_FCRC32 i \<and> \<not> has_flag CSP_FXTEA i"

lemma send_security_plain: "no_security i \<Longrightarrow> send_security hk xk nonce i pk = Some (CSP_ERR_NONE, Some pk)"
  by (simp add: send_security_def no_security_def)

lemma no_security_frag: "no_security i \<Longrightarrow> no_security (add_flag CSP_FFRAG i)"
  by (simp add: no_security_def has_flag_def add_flag_def bit.conj_disj_distrib2 csp_flag_defs)

lemma has_frag: "has_flag CSP_FFRAG (add_flag CSP_FFRAG i)"
proof -
  have "(id_flags i OR 16) AND 16 = (16 :: u8)" by (simp add: bit.conj_disj_distrib2 or.commute [of _ 16])
  then show ?thesis by (simp add: has_flag_def add_flag_def csp_flag_defs)
qed

text \<open>A connection of a node with itself, with room for \<open>n\<close> more packets of \<open>mtu\<close> bytes.\<close>

definition sfp_ready :: "nat \<Rightarrow> nat \<Rightarrow> nat \<Rightarrow> csp_node \<Rightarrow> bool" where
  "sfp_ready c n mtu w \<longleftrightarrow> (let i = cn_idout (nd_conns w ! c) in
     node_ok w \<and> cn_open (nd_conns w ! c) \<and> c < CSP_CONN_MAX \<and> id_dst i = nd_address w \<and> no_security i \<and>
     node_find_iface (nd_address w) w = Some (Some CSP_IF_LO) \<and> if_mtu (nd_ifaces w ! CSP_IF_LO) = 0 \<and>
     length (nd_qfifo w) + n \<le> CSP_FIFO_INPUT \<and> n \<le> length (pool_free (nd_pool w)) \<and>
     mtu + CSP_BUFFER_PACKET_OVERHEAD \<le> pool_size (nd_pool w) \<and>
     (\<forall>q < pool_count (nd_pool w). mtu + sizeof_sfp_header \<le> pkt_cap (buf_packet (nd_pool w) q)))"

lemma sfp_send_one_ready:
  assumes "sfp_ready c (Suc n) mtu w" "owned M w" "sent < length data" "length data < 2 ^ 31" "0 < mtu"
  shows "\<exists>w' p. sfp_send_one lo_nexthop nonce c data (int (length data)) (int mtu) (int sent) w =
       Some ((0, int (sent + min mtu (length data - sent))), w') \<and>
     sfp_ready c n mtu w' \<and> owned M w' \<and> nd_qfifo w' = nd_qfifo w @ [(p, CSP_IF_LO)] \<and> p \<notin> live (nd_pool w) \<and>
     pkt_data (buf_packet (nd_pool w') p) =
       take mtu (drop sent data) @ be32 (of_nat sent) @ be32 (of_nat (length data)) \<and>
     has_flag CSP_FFRAG (pkt_id (buf_packet (nd_pool w') p)) \<and>
     (\<forall>q. q \<noteq> p \<longrightarrow> buf_packet (nd_pool w') q = buf_packet (nd_pool w) q) \<and> live (nd_pool w') = insert p (live (nd_pool w))"
proof -
  define cn where "cn = nd_conns w ! c"
  define i where "i = add_flag CSP_FFRAG (cn_idout cn)"
  note rd = assms(1) [unfolded sfp_ready_def Let_def, folded cn_def]
  have ok: "pool_ok (nd_pool w)" using assms(2) by (simp add: owned_def)
  obtain p rest pool where g: "csp_buffer_get mtu (nd_pool w) = (Some p, pool)" "pool_free (nd_pool w) = p # rest"
      "pool_free pool = rest"
  proof (cases rule: get_cases [OF ok, of mtu])
    case 1
    then show ?thesis using rd by (auto simp: CSP_BUFFER_PACKET_OVERHEAD_def)
  next
    case (2 i rest)
    show ?thesis by (rule that [OF 2(4) 2(1)]) simp
  qed
  note gs = csp_buffer_get_Some [OF ok g(1)]
  have k1: "node_ok (w\<lparr>nd_pool := pool\<rparr>)" "owned (add_mset p M) (w\<lparr>nd_pool := pool\<rparr>)"
    using csp_buffer_get_keeps [OF g(1)] rd assms(2) by auto
  define bytes where "bytes = take mtu (drop sent data)"
  define pk where "pk = (buf_packet pool p)\<lparr>pkt_data := bytes @ be32 (of_nat sent) @ be32 (of_nat (length data))\<rparr>"
  define w0 where "w0 = put_packet p pk (set_conn c (cn\<lparr>cn_idout := i\<rparr>) (w\<lparr>nd_pool := pool\<rparr>))"
  have cl: "c < length (nd_conns w)" using rd by (simp add: node_ok_def)
  have cw: "nd_conns w ! c = cn" by (simp add: cn_def)
  have "node_ok (set_conn c (cn\<lparr>cn_idout := i\<rparr>) (w\<lparr>nd_pool := pool\<rparr>))"
    by (rule node_ok_set_conn_same [OF k1(1)]) (use rd cw in simp_all)
  moreover have "owned (add_mset p M) (set_conn c (cn\<lparr>cn_idout := i\<rparr>) (w\<lparr>nd_pool := pool\<rparr>))"
    by (rule owned_set_conn [OF k1(2)]) (use cl cw in \<open>simp_all add: rx_refs_def\<close>)
  ultimately have k0: "node_ok w0" "owned (add_mset p M) w0" by (simp_all add: w0_def owned_put_packet)
  have cap: "length bytes + sizeof_sfp_header \<le> pkt_cap (buf_packet pool p)"
  proof -
    have "mtu + sizeof_sfp_header \<le> pkt_cap (buf_packet (nd_pool w) p)" using rd gs(2) by blast
    then show ?thesis using gs(7) by (simp add: bytes_def)
  qed
  define m where "m = min mtu (length data - sent)"
  have sz: "(if int (length data) - int sent > int mtu then int mtu else int (length data) - int sent) = int m"
      "length bytes = m" "take m (drop sent data) = bytes"
    using assms(3) by (auto simp: bytes_def m_def min_def)
  have w0': "put_packet p pk (w\<lparr>nd_pool := pool, nd_conns := (nd_conns w)[c := cn\<lparr>cn_idout := i\<rparr>]\<rparr>) = w0"
    by (simp add: w0_def)
  have mle: "\<not> min (length data - sent) m < m" by (simp add: m_def)
  have cm: "\<not> pkt_cap (buf_packet pool p) < m" using cap sz(2) by simp
  have add: "csp_sfp_header_add ((buf_packet pool p)\<lparr>pkt_data := bytes\<rparr>) =
      Some ((buf_packet pool p)\<lparr>pkt_data := bytes @ replicate sizeof_sfp_header 0\<rparr>)"
    using cap by (simp add: csp_sfp_header_add_def pkt_append_def pkt_length_def)
  have wr: "sfp_header_write \<lparr>sfp_offset = csp_hton32 (word_of_int (int sent)),
      sfp_totalsize = csp_hton32 (word_of_int (int (length data)))\<rparr>
      ((buf_packet pool p)\<lparr>pkt_data := bytes @ replicate sizeof_sfp_header 0\<rparr>) = pk"
    by (simp add: sfp_header_write_def pk_def pkt_length_def sfp_header_bytes_def)
  have p0: "pool_ok (nd_pool w0)" "p < pool_count (nd_pool w0)" "nd_pool w0 = set_packet p pk pool"
    using k0(2) gs(2,5) by (simp_all add: owned_def w0_def put_packet_def)
  have buf: "buf_packet (nd_pool w0) p = pk" using p0 gs(2,4,5) by (simp add: p0(3) buf_packet_set_packet)
  have c0: "nd_conns w0 ! c = cn\<lparr>cn_idout := i\<rparr>" using cl by (simp add: w0_def)
  have i: "id_dst i = nd_address w" "no_security i" "has_flag CSP_FFRAG i"
    using rd no_security_frag has_frag by (simp_all add: i_def) (simp add: add_flag_def)
  have "CSP_IF_LO < length (nd_ifaces w0)"
    using node_find_iface_valid [OF k0(1), of "nd_address w" CSP_IF_LO] rd
    by (simp add: w0_def put_packet_def node_find_iface_def)
  moreover have "(if id_src i = nd_address w then send_security hk xk nonce i x else Some (CSP_ERR_NONE, Some x)) =
      Some (CSP_ERR_NONE, Some x)" for hk xk x
    by (simp add: send_security_plain [OF i(2)])
  moreover have "nd_address w0 = nd_address w" "nd_qfifo w0 = nd_qfifo w" "nd_ifaces w0 = nd_ifaces w"
      "nd_routes w0 = nd_routes w"
    by (simp_all add: w0_def put_packet_def)
  ultimately obtain w' where sd: "csp_send lo_nexthop nonce (Some c) (Some p) w0 = Some (1, w')"
      "nd_qfifo w' = nd_qfifo w @ [(p, CSP_IF_LO)]" "nd_pool w' = set_packet p (pk\<lparr>pkt_id := i\<rparr>) (nd_pool w0)"
      "nd_conns w' = nd_conns w0" "nd_address w' = nd_address w" "nd_routes w' = nd_routes w"
      "if_mtu (nd_ifaces w' ! CSP_IF_LO) = 0"
    using rd c0 i p0(1,2) buf
    by (simp add: csp_send_def csp_send_direct_def lo_nexthop_def csp_lo_tx_def csp_qfifo_write_def Let_def
        buf_packet_set_packet put_packet_def csp_err_defs count_tx_def set_iface_def node_find_iface_def count_rx_def)
  note keep = lo.send_keeps [OF sd(1) k0]
  have pp: "buf_packet (nd_pool w') q = (if q = p then pk\<lparr>pkt_id := i\<rparr> else buf_packet (nd_pool w) q)" for q
    using p0 gs(2,4,5,7) by (auto simp: sd(3) buf_packet_set_packet)
  have lv: "live (nd_pool w') = insert p (live (nd_pool w))"
    using p0 gs(3,4) by (simp add: sd(3))
  show ?thesis
  proof (intro exI [of _ w'] exI [of _ p] conjI allI impI)
    show "sfp_send_one lo_nexthop nonce c data (int (length data)) (int mtu) (int sent) w =
        Some ((0, int (sent + min mtu (length data - sent))), w')"
      using g(1) sz cm add wr sd(1) assms(3)
      unfolding m_def [symmetric]
      by (simp add: sfp_send_one_def Let_def cn_def [symmetric] i_def [symmetric] w0' mle
          cong: option.case_cong)
    have pl: "pool_count (nd_pool w') = pool_count (nd_pool w)" "pool_size (nd_pool w') = pool_size (nd_pool w)"
        "pool_free (nd_pool w') = rest"
      using p0(3) gs(5,6) g(3) by (simp_all add: sd(3))
    have "pkt_cap (buf_packet (nd_pool w') q) = pkt_cap (buf_packet (nd_pool w) q)" for q
      using pp gs(7) by (simp add: pk_def)
    then have cp: "\<forall>q < pool_count (nd_pool w'). mtu + sizeof_sfp_header \<le> pkt_cap (buf_packet (nd_pool w') q)"
      using rd pl(1) by simp
    have cw': "nd_conns w' ! c = cn\<lparr>cn_idout := i\<rparr>" using sd(4) c0 by simp
    have fi: "node_find_iface (nd_address w') w' = Some (Some CSP_IF_LO)" using rd sd(5,6) by (simp add: node_find_iface_def)
    show "sfp_ready c n mtu w'"
      using rd keep cp pl fi i(1,2) sd(2,5,7) g(2)
      unfolding sfp_ready_def Let_def cw' by simp
    show "owned M w'" using keep by simp
    show "nd_qfifo w' = nd_qfifo w @ [(p, CSP_IF_LO)]" by (rule sd(2))
    show "p \<notin> live (nd_pool w)" by (rule gs(1))
    show "pkt_data (buf_packet (nd_pool w') p) =
        take mtu (drop sent data) @ be32 (of_nat sent) @ be32 (of_nat (length data))"
      by (simp add: pp pk_def bytes_def)
    show "has_flag CSP_FFRAG (pkt_id (buf_packet (nd_pool w') p))" using i(3) by (simp add: pp)
    show "buf_packet (nd_pool w') q = buf_packet (nd_pool w) q" if "q \<noteq> p" for q using that by (simp add: pp)
    show "live (nd_pool w') = insert p (live (nd_pool w))" by (rule lv)
  qed
qed

lemma sfp_fragments_rest:
  assumes "sent < length data" "0 < mtu"
  shows "sfp_fragments tot mtu sent (drop sent data) =
     (take mtu (drop sent data) @ be32 (of_nat sent) @ be32 (of_nat tot)) #
     sfp_fragments tot mtu (sent + min mtu (length data - sent)) (drop (sent + min mtu (length data - sent)) data)"
proof (cases "mtu < length data - sent")
  case True
  then show ?thesis using assms by (subst sfp_fragments.simps) (simp add: add.commute)
next
  case False
  then have "drop mtu (drop sent data) = []" "drop (sent + min mtu (length data - sent)) data = []"
    using assms(1) by auto
  then show ?thesis using assms by (subst sfp_fragments.simps) simp
qed

lemma sfp_send_fragments:
  assumes "sfp_ready c (length (sfp_fragments (length data) mtu sent (drop sent data))) mtu w" "owned M w"
    "length data < 2 ^ 31" "0 < mtu" "sent \<le> length data"
    "length (sfp_fragments (length data) mtu sent (drop sent data)) \<le> fuel"
  shows "\<exists>w' ps. sfp_send_loop lo_nexthop nonces c data (int (length data)) (int mtu) fuel (int sent) w = Some (0, w') \<and>
     nd_qfifo w' = nd_qfifo w @ map (\<lambda>p. (p, CSP_IF_LO)) ps \<and>
     holds_fragments w' ps (sfp_fragments (length data) mtu sent (drop sent data)) \<and> owned M w' \<and> node_ok w' \<and>
     set ps \<inter> live (nd_pool w) = {} \<and>
     (\<forall>q \<in> live (nd_pool w). buf_packet (nd_pool w') q = buf_packet (nd_pool w) q)"
  using assms
proof (induction fuel arbitrary: sent w)
  case 0
  then have "sent = length data" using sfp_fragments_rest [of sent data mtu "length data"] by fastforce
  then show ?case
    using 0 by (intro exI [of _ w] exI [of _ "[]"]) (simp add: holds_fragments_def sfp_ready_def Let_def)
next
  case (Suc n)
  show ?case
  proof (cases "sent = length data")
    case True
    then show ?thesis
      using Suc.prems by (intro exI [of _ w] exI [of _ "[]"]) (simp add: holds_fragments_def sfp_ready_def Let_def)
  next
    case False
    let ?m = "min mtu (length data - sent)" and ?fs = "sfp_fragments (length data) mtu"
    have lt: "sent < length data" using False Suc.prems(5) by simp
    note fs = sfp_fragments_rest [OF lt Suc.prems(4), of "length data"]
    have rd: "sfp_ready c (Suc (length (?fs (sent + ?m) (drop (sent + ?m) data)))) mtu w"
      using Suc.prems(1) unfolding fs by simp
    obtain w1 p where one: "sfp_send_one lo_nexthop (nonces n) c data (int (length data)) (int mtu) (int sent) w =
         Some ((0, int (sent + ?m)), w1)" "sfp_ready c (length (?fs (sent + ?m) (drop (sent + ?m) data))) mtu w1"
        "owned M w1" "nd_qfifo w1 = nd_qfifo w @ [(p, CSP_IF_LO)]" "p \<notin> live (nd_pool w)"
        "pkt_data (buf_packet (nd_pool w1) p) = take mtu (drop sent data) @ be32 (of_nat sent) @ be32 (of_nat (length data))"
        "has_flag CSP_FFRAG (pkt_id (buf_packet (nd_pool w1) p))"
        "\<forall>q. q \<noteq> p \<longrightarrow> buf_packet (nd_pool w1) q = buf_packet (nd_pool w) q" "live (nd_pool w1) = insert p (live (nd_pool w))"
      using sfp_send_one_ready [OF rd Suc.prems(2) lt Suc.prems(3,4), of "nonces n"] by blast
    have "length (?fs (sent + ?m) (drop (sent + ?m) data)) \<le> n" using Suc.prems(6) unfolding fs by simp
    moreover have "sent + ?m \<le> length data" using lt by auto
    ultimately obtain w' ps where ih: "sfp_send_loop lo_nexthop nonces c data (int (length data)) (int mtu) n (int (sent + ?m)) w1 = Some (0, w')"
        "nd_qfifo w' = nd_qfifo w1 @ map (\<lambda>p. (p, CSP_IF_LO)) ps"
        "holds_fragments w' ps (?fs (sent + ?m) (drop (sent + ?m) data))" "owned M w'" "node_ok w'"
        "set ps \<inter> live (nd_pool w1) = {}" "\<forall>q \<in> live (nd_pool w1). buf_packet (nd_pool w') q = buf_packet (nd_pool w1) q"
      using Suc.IH [OF one(2,3) Suc.prems(3,4)] by blast
    have "p \<notin> set ps" "buf_packet (nd_pool w') p = buf_packet (nd_pool w1) p" using ih(6,7) one(9) by auto
    then have "holds_fragments w' (p # ps) (?fs sent (drop sent data))"
      using ih(3) one(6,7) unfolding fs by (simp add: holds_fragments_def)
    moreover have "\<forall>q \<in> live (nd_pool w). buf_packet (nd_pool w') q = buf_packet (nd_pool w) q"
      using ih(7) one(5,8,9) by (metis insertCI)
    moreover have "set (p # ps) \<inter> live (nd_pool w) = {}" using ih(6) one(5,9) by auto
    ultimately show ?thesis
      using one(1,4) ih(1,2,4,5) lt by (intro exI [of _ w'] exI [of _ "p # ps"]) simp
  qed
qed

section \<open>Properties\<close>

text \<open>C7. What is sent in fragments is received whole: \<open>csp_sfp_send\<close> puts the fragments of the data into
  packets for the router, in order, and \<open>csp_sfp_recv\<close> on a connection that gets these packets in
  their order returns memory of the length of the data with the data in it, for every data shorter
  than \<open>2 ^ 31\<close> bytes and every size of fragments that the buffers have room for.\<close>

theorem csp_sfp_round_trip:
  assumes "data \<noteq> []" "length data < 2 ^ 31" "0 < mtu" "owned M w"
    "sfp_ready c (length (sfp_fragments (length data) mtu 0 data)) mtu w"
    "length (sfp_fragments (length data) mtu 0 data) \<le> fuel" "malloc (length data)"
  shows "\<exists>w1 ps. csp_sfp_send lo_nexthop nonces fuel c data (int (length data)) (int mtu) w = Some (0, w1) \<and>
     nd_qfifo w1 = nd_qfifo w @ map (\<lambda>p. (p, CSP_IF_LO)) ps \<and> owned M w1 \<and>
     (\<forall>w2 d. nd_pool w2 = nd_pool w1 \<and> d < length (nd_conns w2) \<and> cn_open (nd_conns w2 ! d) \<and>
        cn_rx_queue (nd_conns w2 ! d) = map Some ps \<longrightarrow>
        (\<exists>w3. csp_sfp_recv malloc (\<lambda>w. w) fuel d \<lparr>so_data = None, so_size = 0\<rparr> w2 =
           Some (0, \<lparr>so_data = Some (map Some data), so_size = int (length data)\<rparr>, w3) \<and>
           cn_rx_queue (nd_conns w3 ! d) = []))"
proof -
  obtain w1 ps where s: "csp_sfp_send lo_nexthop nonces fuel c data (int (length data)) (int mtu) w = Some (0, w1)"
      "nd_qfifo w1 = nd_qfifo w @ map (\<lambda>p. (p, CSP_IF_LO)) ps"
      "holds_fragments w1 ps (sfp_fragments (length data) mtu 0 data)" "owned M w1"
    using sfp_send_fragments [where data = data and mtu = mtu and sent = 0 and c = c and w = w and M = M and
        fuel = fuel and nonces = nonces] assms
    by (auto simp: csp_sfp_send_def csp_sfp_send_own_memcpy_def)
  obtain p qs where ps: "ps = p # qs" "length qs < fuel"
  proof -
    have "length ps = length (sfp_fragments (length data) mtu 0 data)"
      using s(3) by (auto simp: holds_fragments_def dest: arg_cong [of _ _ length])
    moreover have "sfp_fragments (length data) mtu 0 data \<noteq> []" using assms(1,3) by (subst sfp_fragments.simps) simp
    ultimately show thesis using that assms(6) by (cases ps) auto
  qed
  have "\<exists>w3. csp_sfp_recv malloc (\<lambda>w. w) fuel d \<lparr>so_data = None, so_size = 0\<rparr> w2 =
      Some (0, \<lparr>so_data = Some (map Some data), so_size = int (length data)\<rparr>, w3) \<and> cn_rx_queue (nd_conns w3 ! d) = []"
    if "nd_pool w2 = nd_pool w1" "d < length (nd_conns w2)" "cn_open (nd_conns w2 ! d)"
      "cn_rx_queue (nd_conns w2 ! d) = map Some ps" for w2 d
  proof -
    let ?w = "set_conn d ((nd_conns w2 ! d)\<lparr>cn_rx_queue := map Some qs\<rparr>) w2"
    have r: "csp_read (Some d) w2 = (Some p, ?w)" using that(3,4) ps by (simp add: csp_read_def)
    have "holds_fragments ?w (p # qs) (sfp_fragments (length data) mtu (length []) data)"
      using s(3) ps that(1) by (simp add: holds_fragments_def)
    from sfp_recv_fragments [where malloc = malloc and out = "\<lparr>so_data = None, so_size = 0\<rparr>" and c = d and fuel = fuel
        and tot = "length data", OF this assms(3,1)]
    show ?thesis
      using assms(2,7) that(2,3) ps(2) r by (simp add: csp_sfp_recv_def csp_sfp_recv_fp_def sfp_filled_def)
  qed
  then show ?thesis using s(1,2,4) by blast
qed

lemma sfp_recv_one_at:
  assumes "has_flag CSP_FFRAG (pkt_id (buf_packet (nd_pool w) p))"
    "pkt_data (buf_packet (nd_pool w) p) = bs @ be32 (of_nat off) @ be32 (of_nat n)"
    "so_data out = Some m" "off + length bs \<le> length m" "length m < 2 ^ 31" "n < 2 ^ 31" "off \<le> k + 1" "k < 2 ^ 31"
  shows "sfp_recv_one malloc (of_nat k) p out w =
    Some (if n \<le> off + length bs then SfpDone 0 else SfpMore (of_nat (off + length bs)),
      \<lparr>so_data = Some (take off m @ map Some bs @ drop (off + length bs) m), so_size = int n\<rparr>,
      free_packet (Some p) (put_packet p ((buf_packet (nd_pool w) p)\<lparr>pkt_data := bs\<rparr>) w))"
proof -
  have u: "unat (of_nat off :: u32) = off" "unat (of_nat n :: u32) = n"
    "unat (of_nat (off + length bs) :: u32) = off + length bs" "unat (of_nat (k + 1) :: u32) = k + 1"
    using assms(4-8) by (simp_all only: unsigned_of_nat) (simp_all add: take_bit_nat_eq_self)
  have s: "sint (of_nat n :: u32) = int n"
    using assms(6) by (simp add: signed_of_nat) (intro signed_take_bit_int_eq_self, auto)
  have le: "\<not> (of_nat off :: u32) > of_nat k + 1"
    using assms(7) u(1,4) by (simp add: word_less_nat_alt add.commute [of _ 1])
  have fin: "(of_nat off + of_nat (length bs) \<ge> (of_nat n :: u32)) = (n \<le> off + length bs)"
    using u(2,3) by (simp add: word_le_nat_alt)
  show ?thesis
    unfolding sfp_recv_one_def sfp_header_remove_fragment [OF assms(2)]
    using assms(1,3,4) le fin
    by (simp add: Let_def u s pkt_length_def csp_ntoh32_def cong: option.case_cong)
qed

text \<open>The node of the examples with a plain connection to itself, and two packets with fragments.\<close>

definition demo_sfp :: csp_node where
  "demo_sfp = set_conn 0 (demo_client\<lparr>cn_idout := set_flags 0 (cn_idout demo_client)\<rparr>) demo_connected"

lemma demo_sfp_conn: "nd_conns demo_sfp ! 0 = demo_client\<lparr>cn_idout := set_flags 0 (cn_idout demo_client)\<rparr>"
  by (simp add: demo_sfp_def demo_connected_def demo_node_def)

lemma demo_sfp_ok: "node_ok demo_sfp" "owned {#} demo_sfp"
proof -
  have c: "nd_conns demo_connected ! 0 = demo_client" "0 < length (nd_conns demo_connected)"
    by (simp_all add: demo_connected_def demo_node_def)
  show "node_ok demo_sfp" unfolding demo_sfp_def
    by (rule node_ok_set_conn_same [OF demo_connected_ok(1)]) (simp_all add: c CSP_CONN_MAX_def)
  show "owned {#} demo_sfp" unfolding demo_sfp_def
    by (rule owned_set_conn [OF demo_connected_ok(2) c(2)]) (simp add: c rx_refs_def)
qed

lemma demo_sfp_fields: "nd_pool demo_sfp = pool4" "nd_qfifo demo_sfp = []" "nd_address demo_sfp = 5"
  "nd_routes demo_sfp = nd_routes demo_node" "nd_ifaces demo_sfp = nd_ifaces demo_node" "length (nd_conns demo_sfp) = 10"
  by (simp_all add: demo_sfp_def demo_connected_def demo_node_def)

lemma pool4_fields: "pool_free pool4 = [0, 1, 2, 3]" "pool_count pool4 = 4" "pool_size pool4 = 114"
  by (simp_all add: pool4_def csp_buffer_init_def CSP_BUFFER_PACKET_OVERHEAD_def upt_rec)

lemma pool4_cap: "q < 4 \<Longrightarrow> pkt_cap (buf_packet pool4 q) = 100"
  by (simp add: pool4_def csp_buffer_init_def buf_packet_def empty_packet_def)

lemma demo_fragments: "length (sfp_fragments 5 3 0 [1, 2, 3, 4, 5]) = 2"
  by (simp add: sfp_fragments.simps)

lemma demo_sfp_ready: "sfp_ready 0 2 3 demo_sfp"
proof -
  have "node_find_iface 5 demo_sfp = Some (Some CSP_IF_LO)"
    by (simp add: node_find_iface_def demo_sfp_fields demo_node_def static_find_iface_def static_find_def static_clear_def
        CSP_ROUTE_COUNT_def CSP_IF_LO_def)
  moreover have "no_security (set_flags 0 (cn_idout demo_client))" by (simp add: no_security_def has_flag_def)
  ultimately show ?thesis
    using demo_sfp_ok(1)
    by (simp add: sfp_ready_def Let_def demo_sfp_conn demo_sfp_fields pool4_fields pool4_cap CSP_BUFFER_PACKET_OVERHEAD_def
        sizeof_sfp_header_def CSP_FIFO_INPUT_def CSP_CONN_MAX_def demo_client_def)
      (simp add: demo_node_def csp_if_lo_def CSP_IF_LO_def)
qed

lemma csp_sfp_round_trip_witness:
  "\<exists>w1 w2 w3. csp_sfp_send lo_nexthop (\<lambda>_. 0) 2 0 [1, 2, 3, 4, 5] 5 3 demo_sfp = Some (0, w1) \<and> nd_pool w2 = nd_pool w1 \<and>
     csp_sfp_recv (\<lambda>_. True) (\<lambda>w. w) 2 2 \<lparr>so_data = None, so_size = 0\<rparr> w2 =
       Some (0, \<lparr>so_data = Some [Some 1, Some 2, Some 3, Some 4, Some 5], so_size = 5\<rparr>, w3)"
proof -
  have l: "length [1, 2, 3, 4, 5 :: u8] = 5" by simp
  have "\<exists>w1 ps. csp_sfp_send lo_nexthop (\<lambda>_. 0) 2 0 [1, 2, 3, 4, 5] 5 3 demo_sfp = Some (0, w1) \<and>
      (\<forall>w2 d. nd_pool w2 = nd_pool w1 \<and> d < length (nd_conns w2) \<and> cn_open (nd_conns w2 ! d) \<and>
        cn_rx_queue (nd_conns w2 ! d) = map Some ps \<longrightarrow>
        (\<exists>w3. csp_sfp_recv (\<lambda>_. True) (\<lambda>w. w) 2 d \<lparr>so_data = None, so_size = 0\<rparr> w2 =
           Some (0, \<lparr>so_data = Some (map Some [1, 2, 3, 4, 5]), so_size = 5\<rparr>, w3) \<and>
           cn_rx_queue (nd_conns w3 ! d) = []))"
    using csp_sfp_round_trip [of "[1, 2, 3, 4, 5]" 3 "{#}" demo_sfp 0 2 "\<lambda>_. True" "\<lambda>_. 0", unfolded l demo_fragments]
      demo_sfp_ok(2) demo_sfp_ready
    by (simp del: list.map) meson
  then obtain w1 ps where w1: "csp_sfp_send lo_nexthop (\<lambda>_. 0) 2 0 [1, 2, 3, 4, 5] 5 3 demo_sfp = Some (0, w1)"
      "\<forall>w2 d. nd_pool w2 = nd_pool w1 \<and> d < length (nd_conns w2) \<and> cn_open (nd_conns w2 ! d) \<and>
        cn_rx_queue (nd_conns w2 ! d) = map Some ps \<longrightarrow>
        (\<exists>w3. csp_sfp_recv (\<lambda>_. True) (\<lambda>w. w) 2 d \<lparr>so_data = None, so_size = 0\<rparr> w2 =
           Some (0, \<lparr>so_data = Some (map Some [1, 2, 3, 4, 5]), so_size = 5\<rparr>, w3))"
    by blast
  let ?w2 = "demo_sfp\<lparr>nd_pool := nd_pool w1,
    nd_conns := (nd_conns demo_sfp)[2 := closed_conn\<lparr>cn_open := True, cn_rx_queue := map Some ps\<rparr>]\<rparr>"
  obtain w3 where "csp_sfp_recv (\<lambda>_. True) (\<lambda>w. w) 2 2 \<lparr>so_data = None, so_size = 0\<rparr> ?w2 =
      Some (0, \<lparr>so_data = Some (map Some [1, 2, 3, 4, 5]), so_size = 5\<rparr>, w3)"
    using w1(2) [rule_format, of ?w2 2] by (auto simp: demo_sfp_fields)
  then show ?thesis using w1(1) by (intro exI [of _ w1] exI [of _ ?w2] exI [of _ w3]) simp
qed

text \<open>A gap of one byte between two fragments is not noticed: the test that something is missing
  compares the offset with the position after the next byte.  When the second of two fragments starts
  one byte late, \<open>csp_sfp_recv_fp\<close> reports success, and one byte of the data was never written.\<close>

theorem csp_sfp_gap_accepted:
  assumes "holds_fragments w [p, q] [bs @ be32 0 @ be32 (of_nat n), cs @ be32 (of_nat (length bs + 1)) @ be32 (of_nat n)]"
    "n = length bs + 1 + length cs" "n < 2 ^ 31" "malloc n" "cn_rx_queue (nd_conns w ! c) = [Some q]"
    "cn_open (nd_conns w ! c)"
  shows "\<exists>w'. csp_sfp_recv_fp malloc (\<lambda>w. w) 2 c (Some p) \<lparr>so_data = None, so_size = 0\<rparr> w =
     Some (0, \<lparr>so_data = Some (map Some bs @ [None] @ map Some cs), so_size = int n\<rparr>, w')"
proof -
  have h: "has_flag CSP_FFRAG (pkt_id (buf_packet (nd_pool w) p))" "has_flag CSP_FFRAG (pkt_id (buf_packet (nd_pool w) q))"
    "p \<noteq> q" "pkt_data (buf_packet (nd_pool w) p) = bs @ be32 (of_nat (length [])) @ be32 (of_nat n)"
    "pkt_data (buf_packet (nd_pool w) q) = cs @ be32 (of_nat (length bs + 1)) @ be32 (of_nat n)"
    using assms(1) by (auto simp: holds_fragments_def)
  let ?w1 = "free_packet (Some p) (put_packet p ((buf_packet (nd_pool w) p)\<lparr>pkt_data := bs\<rparr>) w)"
  let ?out = "\<lparr>so_data = Some (map Some bs @ replicate (n - length bs) None), so_size = int n\<rparr>"
  have 1: "sfp_recv_one malloc 0 p \<lparr>so_data = None, so_size = 0\<rparr> w = Some (SfpMore (of_nat (length bs)), ?out, ?w1)"
    using sfp_recv_one_fragment [where malloc = malloc and out = "\<lparr>so_data = None, so_size = 0\<rparr>" and last_byte = 0,
        OF h(1,4)] assms(2-4)
    by (simp add: sfp_filled_def)
  let ?w2 = "set_conn c ((nd_conns w ! c)\<lparr>cn_rx_queue := []\<rparr>) ?w1"
  have rd: "csp_read (Some c) ?w1 = (Some q, ?w2)"
    using assms(5,6) by (simp add: csp_read_def put_packet_def)
  have q: "buf_packet (nd_pool ?w2) q = buf_packet (nd_pool w) q" using put_packet_other [of q p] h(3) by simp
  have "\<exists>w'. sfp_recv_one malloc (of_nat (length bs)) q ?out ?w2 =
      Some (SfpDone 0, \<lparr>so_data = Some (map Some bs @ [None] @ map Some cs), so_size = int n\<rparr>, w')"
    using sfp_recv_one_at [where malloc = malloc and w = ?w2 and p = q and off = "length bs + 1" and k = "length bs" and
        out = ?out and n = n] h(2,5) assms(2,3) q
    by simp
  then show ?thesis using 1 rd by (auto simp: csp_sfp_recv_fp_def numeral_2_eq_2)
qed

text \<open>Nothing compares a fragment with the memory that was allocated for the announced length: a
  fragment that is longer than that is copied behind the memory.  And a packet without the flag of a
  fragment ends the reception and stays in use.\<close>

theorem csp_sfp_fragment_overflows:
  assumes "has_flag CSP_FFRAG (pkt_id (buf_packet (nd_pool w) p))"
    "pkt_data (buf_packet (nd_pool w) p) = bs @ be32 0 @ be32 (of_nat n)" "n < length bs" "n < 2 ^ 31" "malloc n"
    "\<not> has_flag CSP_FFRAG (pkt_id (buf_packet (nd_pool w) q))" "owned (add_mset q M) w" "0 < fuel"
  shows "csp_sfp_recv_fp malloc other_tasks fuel c (Some p) \<lparr>so_data = None, so_size = 0\<rparr> w = None \<and>
     csp_sfp_recv_fp malloc other_tasks fuel c (Some q) out w = Some (- 1, out, w) \<and> owned (add_mset q M) w"
proof -
  obtain f where f: "fuel = Suc f" using assms(8) by (cases fuel) auto
  have n: "unat (of_nat n :: u32) = n"
    using assms(4) by (simp only: unsigned_of_nat) (simp add: take_bit_nat_eq_self)
  have "sfp_recv_one malloc 0 p \<lparr>so_data = None, so_size = 0\<rparr> w = None"
    unfolding sfp_recv_one_def sfp_header_remove_fragment [OF assms(2)]
    using assms(1,3,5) n by (simp add: Let_def pkt_length_def csp_ntoh32_def cong: option.case_cong)
  moreover have "sfp_recv_one malloc 0 q out w = Some (SfpDone (- 1), out, w)"
    using assms(6) by (simp add: sfp_recv_one_def)
  ultimately show ?thesis using assms(7) by (simp add: csp_sfp_recv_fp_def f)
qed

text \<open>Witnesses of the last two: the first bytes of a packet with a gap behind them, and a packet with more
  bytes than it announces.\<close>

definition sfp_packet :: "u8 list \<Rightarrow> u32 \<Rightarrow> u32 \<Rightarrow> csp_packet" where
  "sfp_packet bs off n = (empty_packet 100)\<lparr>pkt_id := add_flag CSP_FFRAG 0, pkt_data := bs @ be32 off @ be32 n\<rparr>"

lemma sfp_packet_fields [simp]: "pkt_data (sfp_packet bs off n) = bs @ be32 off @ be32 n"
  "has_flag CSP_FFRAG (pkt_id (sfp_packet bs off n))"
  by (simp_all add: sfp_packet_def has_frag)

lemma pool4_put: "p < 4 \<Longrightarrow> buf_packet (set_packet p pk pool) q = (if p = q then pk else buf_packet pool q)"
  if "length (pool_bufs pool) = 4"
  using that by (auto simp: buf_packet_def set_packet_def)

definition demo_gap :: csp_node where
  "demo_gap = demo_sfp\<lparr>nd_pool := set_packet 1 (sfp_packet [9] 3 4) (set_packet 0 (sfp_packet [7, 8] 0 4) pool4),
     nd_conns := (nd_conns demo_sfp)[2 := closed_conn\<lparr>cn_open := True, cn_rx_queue := [Some 1]\<rparr>]\<rparr>"

lemma pool4_length: "length (pool_bufs pool4) = 4" "length (pool_bufs (set_packet p pk pool)) = length (pool_bufs pool)"
  by (simp_all add: pool4_def csp_buffer_init_def set_packet_def)

lemma csp_sfp_gap_accepted_witness:
  "\<exists>w'. csp_sfp_recv_fp (\<lambda>_. True) (\<lambda>w. w) 2 2 (Some 0) \<lparr>so_data = None, so_size = 0\<rparr> demo_gap =
     Some (0, \<lparr>so_data = Some [Some 7, Some 8, None, Some 9], so_size = 4\<rparr>, w')"
proof -
  have h: "holds_fragments demo_gap [0, 1] [[7, 8] @ be32 0 @ be32 (of_nat 4), [9] @ be32 (of_nat (length [7, 8 :: u8] + 1)) @ be32 (of_nat 4)]"
    by (simp add: holds_fragments_def demo_gap_def pool4_put pool4_length)
  show ?thesis
    using csp_sfp_gap_accepted [OF h, of "\<lambda>_. True" 2] by (simp add: demo_gap_def demo_sfp_fields)
qed

lemma csp_sfp_fragment_overflows_witness:
  "csp_sfp_recv_fp (\<lambda>_. True) (\<lambda>w. w) 1 2 (Some 1) \<lparr>so_data = None, so_size = 0\<rparr>
     (put_packet 1 (sfp_packet [7, 8] 0 1) demo_sender) = None"
proof -
  let ?w = "put_packet 1 (sfp_packet [7, 8] 0 1) demo_sender"
  have o: "owned {#0#} ?w" by (rule owned_put_packet [OF demo_sender_ok(2)])
  have l: "length (pool_bufs (nd_pool demo_sender)) = 4"
    using pool4_get by (simp add: demo_sender_def pool4_length) (simp add: csp_buffer_get_def pool4_def csp_buffer_init_def
      CSP_BUFFER_PACKET_OVERHEAD_def upt_rec)
  have b: "buf_packet (nd_pool ?w) q = (if q = 1 then sfp_packet [7, 8] 0 1 else buf_packet (nd_pool demo_sender) q)" for q
    using pool4_put [OF l, of 1] by (simp add: put_packet_def)
  have f: "\<not> has_flag CSP_FFRAG (pkt_id (demo_packet 5 0 [65, 66]))" by (simp add: has_flag_def)
  show ?thesis
    using csp_sfp_fragment_overflows [of ?w 1 "[7, 8]" 1 "\<lambda>_. True" 0 "{#}" 1 "\<lambda>w. w" 2] o b f demo_sender_ok(3)
    by simp
qed

end
