(* ===== verification/CspFilter.thy ===== *)
theory CspFilter
  imports CspRdpBuffers CspCrc32
begin

text \<open>
  What may stand beside the router: the check for duplicates (\<open>csp_dedup.c\<close>), the promiscuous mode
  (\<open>csp_promisc.c\<close>), which copies every packet into a queue for a task that listens, and the bridge
  (\<open>csp_bridge.c\<close>), which hands the packets of either of two interfaces to the other.
\<close>

section \<open>Duplicates\<close>

definition CSP_DEDUP_COUNT :: nat where "CSP_DEDUP_COUNT = 16"
definition CSP_DEDUP_WINDOW_MS :: u32 where "CSP_DEDUP_WINDOW_MS = 1000"

record csp_dedup =
  dd_array :: "u32 list"
  dd_timestamp :: "u32 list"
  dd_in :: nat

definition csp_dedup_init :: csp_dedup where
  "csp_dedup_init = \<lparr>dd_array = replicate CSP_DEDUP_COUNT 0, dd_timestamp = replicate CSP_DEDUP_COUNT 0, dd_in = 0\<rparr>"

definition csp_dedup_check :: "u32 \<Rightarrow> csp_packet \<Rightarrow> csp_dedup \<Rightarrow> int \<times> csp_dedup" where
  "csp_dedup_check now packet d =
     (let crc = csp_crc32_memory (pkt_header_data packet)
      in if list_ex (\<lambda>i. crc = dd_array d ! i \<and> now < dd_timestamp d ! i + CSP_DEDUP_WINDOW_MS) [0..<CSP_DEDUP_COUNT]
         then (1, d)
         else (0, \<lparr>dd_array = (dd_array d)[dd_in d := crc], dd_timestamp = (dd_timestamp d)[dd_in d := now],
                   dd_in = (dd_in d + 1) mod CSP_DEDUP_COUNT\<rparr>))"

fun csp_dedup_run :: "(u32 \<times> csp_packet) list \<Rightarrow> csp_dedup \<Rightarrow> csp_dedup" where
  "csp_dedup_run [] d = d"
| "csp_dedup_run ((now, packet) # rest) d = csp_dedup_run rest (snd (csp_dedup_check now packet d))"

definition dedup_ok :: "csp_dedup \<Rightarrow> bool" where
  "dedup_ok d \<longleftrightarrow> length (dd_array d) = CSP_DEDUP_COUNT \<and> length (dd_timestamp d) = CSP_DEDUP_COUNT \<and>
     dd_in d < CSP_DEDUP_COUNT"

lemma dedup_init_ok: "dedup_ok csp_dedup_init"
  by (simp add: dedup_ok_def csp_dedup_init_def CSP_DEDUP_COUNT_def)

lemma dedup_check_ok: "dedup_ok d \<Longrightarrow> dedup_ok (snd (csp_dedup_check now pk d))"
  by (simp add: dedup_ok_def csp_dedup_check_def Let_def CSP_DEDUP_COUNT_def)

text \<open>The entry \<open>j\<close> places before the next one to be written, \<open>j = 1\<close> being the last.\<close>

definition dedup_entry :: "csp_dedup \<Rightarrow> nat \<Rightarrow> u32 \<times> u32" where
  "dedup_entry d j =
     (let i = (dd_in d + CSP_DEDUP_COUNT - j) mod CSP_DEDUP_COUNT in (dd_array d ! i, dd_timestamp d ! i))"

lemma dedup_back:
  assumes "n < CSP_DEDUP_COUNT" "1 \<le> j" "j \<le> CSP_DEDUP_COUNT"
  shows "(n + CSP_DEDUP_COUNT - j) mod CSP_DEDUP_COUNT = (if j \<le> n then n - j else n + CSP_DEDUP_COUNT - j)"
proof (cases "j \<le> n")
  case True
  then have "n + CSP_DEDUP_COUNT - j = (n - j) + CSP_DEDUP_COUNT" by simp
  then have "(n + CSP_DEDUP_COUNT - j) mod CSP_DEDUP_COUNT = (n - j) mod CSP_DEDUP_COUNT" by simp
  then show ?thesis using True assms(1) by simp
qed (use assms in simp)

lemma dedup_check_entry:
  assumes "dedup_ok d" "1 \<le> j" "j < CSP_DEDUP_COUNT"
  shows "\<exists>j'. j \<le> j' \<and> j' \<le> j + 1 \<and> dedup_entry (snd (csp_dedup_check now pk d)) j' = dedup_entry d j"
proof (cases "fst (csp_dedup_check now pk d) = 1")
  case True
  then have "snd (csp_dedup_check now pk d) = d" by (auto simp: csp_dedup_check_def Let_def split: if_splits)
  then show ?thesis by (intro exI [of _ j]) simp
next
  case False
  let ?i = "(dd_in d + CSP_DEDUP_COUNT - j) mod CSP_DEDUP_COUNT"
  have s: "snd (csp_dedup_check now pk d) = \<lparr>dd_array = (dd_array d)[dd_in d := csp_crc32_memory (pkt_header_data pk)],
      dd_timestamp = (dd_timestamp d)[dd_in d := now], dd_in = (dd_in d + 1) mod CSP_DEDUP_COUNT\<rparr>"
    using False by (auto simp: csp_dedup_check_def Let_def split: if_splits)
  have "((dd_in d + 1) mod CSP_DEDUP_COUNT + CSP_DEDUP_COUNT - (j + 1)) mod CSP_DEDUP_COUNT = ?i" "?i \<noteq> dd_in d"
  proof -
    have n: "dd_in d < CSP_DEDUP_COUNT" using assms(1) by (simp add: dedup_ok_def)
    have j: "(dd_in d + 1) mod CSP_DEDUP_COUNT < CSP_DEDUP_COUNT" "1 \<le> j + 1" "j + 1 \<le> CSP_DEDUP_COUNT"
      using assms(3) by (simp_all add: CSP_DEDUP_COUNT_def)
    show "?i \<noteq> dd_in d" using n assms(2,3) by (auto simp: dedup_back)
    show "((dd_in d + 1) mod CSP_DEDUP_COUNT + CSP_DEDUP_COUNT - (j + 1)) mod CSP_DEDUP_COUNT = ?i"
      unfolding dedup_back [OF j] using n assms(2,3)
      by (cases "dd_in d + 1 = CSP_DEDUP_COUNT") (auto simp: dedup_back)
  qed
  then have "dedup_entry (snd (csp_dedup_check now pk d)) (j + 1) = dedup_entry d j"
    using assms(1) by (simp add: s dedup_entry_def Let_def dedup_ok_def)
  then show ?thesis by (intro exI [of _ "j + 1"]) simp
qed

lemma dedup_run_entry:
  "dedup_ok d \<Longrightarrow> 1 \<le> j \<Longrightarrow> j + length rest \<le> CSP_DEDUP_COUNT \<Longrightarrow>
     dedup_ok (csp_dedup_run rest d) \<and>
     (\<exists>j'. 1 \<le> j' \<and> j' \<le> CSP_DEDUP_COUNT \<and> dedup_entry (csp_dedup_run rest d) j' = dedup_entry d j)"
proof (induction rest arbitrary: d j)
  case (Cons x rest)
  obtain now pk where x: "x = (now, pk)" by fastforce
  obtain j' where j: "j \<le> j'" "j' \<le> j + 1" "dedup_entry (snd (csp_dedup_check now pk d)) j' = dedup_entry d j"
    using dedup_check_entry [OF Cons.prems(1,2), of now pk] Cons.prems(3) by auto
  have "1 \<le> j'" "j' + length rest \<le> CSP_DEDUP_COUNT" using j(1,2) Cons.prems(2,3) by simp_all
  from Cons.IH [OF dedup_check_ok [OF Cons.prems(1)] this, of now pk] show ?case unfolding j(3) by (simp add: x)
qed auto

lemma dedup_entry_found:
  assumes "dedup_ok d" "1 \<le> j" "j \<le> CSP_DEDUP_COUNT" "dedup_entry d j = (csp_crc32_memory (pkt_header_data pk), t)"
    "now < t + CSP_DEDUP_WINDOW_MS"
  shows "csp_dedup_check now pk d = (1, d)"
proof -
  let ?i = "(dd_in d + CSP_DEDUP_COUNT - j) mod CSP_DEDUP_COUNT"
  have "?i < CSP_DEDUP_COUNT" by (simp add: CSP_DEDUP_COUNT_def)
  then have "list_ex (\<lambda>i. csp_crc32_memory (pkt_header_data pk) = dd_array d ! i \<and>
      now < dd_timestamp d ! i + CSP_DEDUP_WINDOW_MS) [0..<CSP_DEDUP_COUNT]"
    using assms(4,5) unfolding list_ex_iff by (intro bexI [of _ ?i]) (simp_all add: dedup_entry_def Let_def)
  then show ?thesis by (simp add: csp_dedup_check_def Let_def)
qed

section \<open>Promiscuous mode\<close>

record csp_promisc =
  pr_enabled :: bool
  pr_queue :: "(nat \<times> nat list) option" \<comment> \<open>the length of the queue and the buffers in it\<close>

definition csp_promisc_enable :: "bool \<Rightarrow> nat \<Rightarrow> csp_promisc \<Rightarrow> int \<times> csp_promisc" where
  "csp_promisc_enable mem_ok buf_size pr =
     (if pr_queue pr \<noteq> None then (CSP_ERR_NONE, pr\<lparr>pr_enabled := True\<rparr>)
      else if \<not> mem_ok then (CSP_ERR_INVAL, pr)
      else (CSP_ERR_NONE, pr\<lparr>pr_queue := Some (buf_size, []), pr_enabled := True\<rparr>))"

definition csp_promisc_disable :: "csp_promisc \<Rightarrow> csp_promisc" where
  "csp_promisc_disable pr = pr\<lparr>pr_enabled := False\<rparr>"

definition csp_promisc_read :: "csp_promisc \<Rightarrow> nat option \<times> csp_promisc" where
  "csp_promisc_read pr =
     (case pr_queue pr of
        None \<Rightarrow> (None, pr)
      | Some (n, []) \<Rightarrow> (None, pr)
      | Some (n, p # ps) \<Rightarrow> (Some p, pr\<lparr>pr_queue := Some (n, ps)\<rparr>))"

definition csp_promisc_add :: "nat \<Rightarrow> csp_promisc \<times> csp_node \<Rightarrow> csp_promisc \<times> csp_node" where
  "csp_promisc_add p s = (case s of (pr, w) \<Rightarrow>
     if \<not> pr_enabled pr then (pr, w)
     else case pr_queue pr of
       None \<Rightarrow> (pr, w)
     | Some (n, ps) \<Rightarrow>
         (case csp_buffer_clone (Some p) (nd_pool w) of
            (None, pool) \<Rightarrow> (pr, w\<lparr>nd_pool := pool\<rparr>)
          | (Some q, pool) \<Rightarrow>
              if length ps < n then (pr\<lparr>pr_queue := Some (n, ps @ [q])\<rparr>, w\<lparr>nd_pool := pool\<rparr>)
              else (pr, free_packet (Some q) (w\<lparr>nd_pool := pool\<rparr>))))"

definition pr_refs :: "csp_promisc \<Rightarrow> nat multiset" where
  "pr_refs pr = (case pr_queue pr of None \<Rightarrow> {#} | Some (n, ps) \<Rightarrow> mset ps)"

lemma csp_promisc_add_keeps:
  assumes "csp_promisc_add p (pr, w) = (pr', w')" "node_ok w" "owned (pr_refs pr + M) w" "p \<in># M"
  shows "node_ok w' \<and> owned (pr_refs pr' + M) w' \<and> quiet (bufs w) w w'"
proof (cases "pr_enabled pr \<and> pr_queue pr \<noteq> None")
  case False
  then have "pr' = pr \<and> w' = w" using assms(1) by (cases "pr_queue pr") (auto simp: csp_promisc_add_def split: if_splits)
  then show ?thesis using assms(2,3) by simp
next
  case True
  then obtain n ps where q: "pr_queue pr = Some (n, ps)" by auto
  obtain x pool where cl: "csp_buffer_clone (Some p) (nd_pool w) = (x, pool)" by fastforce
  have "p \<in># pr_refs pr + M" using assms(4) by simp
  note qt = clone_quiet [OF cl assms(2,3) this]
  show ?thesis
  proof (cases rule: csp_buffer_clone_cases [OF cl assms(2,3)])
    case 1
    then show ?thesis using assms True q cl by (simp add: csp_promisc_add_def)
  next
    case (2 y)
    show ?thesis
    proof (cases "length ps < n")
      case True
      then have "pr' = pr\<lparr>pr_queue := Some (n, ps @ [y])\<rparr>" "w' = w\<lparr>nd_pool := pool\<rparr>"
        using assms(1) \<open>pr_enabled pr \<and> _\<close> q cl 2(1) by (auto simp: csp_promisc_add_def)
      then show ?thesis using 2(4,5) qt by (simp add: pr_refs_def q)
    next
      case False
      then have f: "pr' = pr" "w' = free_packet (Some y) (w\<lparr>nd_pool := pool\<rparr>)"
        using assms(1) \<open>pr_enabled pr \<and> _\<close> q cl 2(1) by (auto simp: csp_promisc_add_def)
      have "owned (pr_refs pr + M) w'" using owned_free [OF 2(5)] by (simp add: f)
      moreover have "quiet (bufs w) w w'"
        using qt by (simp add: f quiet_def same_packets_def roomy_def free_packet_def)
      ultimately show ?thesis using 2(4) by (simp add: f)
    qed
  qed
qed

section \<open>The bridge\<close>

record csp_bridge =
  br_if_a :: "nat option"
  br_if_b :: "nat option"

definition csp_bridge_start :: "bool \<Rightarrow> nat option \<Rightarrow> nat option \<Rightarrow> csp_bridge \<Rightarrow> int \<times> csp_bridge" where
  "csp_bridge_start thread_ok if_a if_b br =
     (let br = \<lparr>br_if_a = if_a, br_if_b = if_b\<rparr> in if thread_ok then (CSP_ERR_NONE, br) else (CSP_ERR_NOMEM, br))"

text \<open>One round of the task.\<close>

definition csp_bridge_work ::
  "nexthop \<Rightarrow> u32 \<Rightarrow> csp_bridge \<Rightarrow> csp_promisc \<times> csp_node \<Rightarrow> (csp_promisc \<times> csp_node) option" where
  "csp_bridge_work nh nonce br s = (case s of (pr, w) \<Rightarrow>
     (case csp_qfifo_read w of
        (_, None, w) \<Rightarrow> Some (pr, w)
      | (_, Some (packet, interface), w) \<Rightarrow>
          (case csp_promisc_add packet (pr, w) of (pr, w) \<Rightarrow>
             let ifout = (if Some interface = br_if_a br then br_if_b br else br_if_a br)
             in (case csp_send_direct nh nonce (pkt_id (buf_packet (nd_pool w) packet)) (Some packet) ifout w of
                   None \<Rightarrow> None
                 | Some (e, w) \<Rightarrow> Some (pr, if e \<noteq> CSP_ERR_NONE then free_packet (Some packet) w else w)))))"

lemma csp_promisc_add_ifaces: "nd_ifaces (snd (csp_promisc_add p (pr, w))) = nd_ifaces w"
  by (auto simp: csp_promisc_add_def free_packet_def split: option.splits prod.splits)

context csp_link begin

lemma bridge_keeps:
  assumes "csp_bridge_work nh nonce br (pr, w) = Some (pr', w')" "node_ok w" "owned (pr_refs pr + M) w"
    "\<And>i. br_if_a br = Some i \<or> br_if_b br = Some i \<Longrightarrow> i < length (nd_ifaces w)"
  shows "node_ok w' \<and> owned (pr_refs pr' + M) w'"
proof (cases "nd_qfifo w")
  case Nil
  then show ?thesis using assms by (simp add: csp_bridge_work_def csp_qfifo_read_def)
next
  case (Cons x rest)
  obtain p i where x: "x = (p, i)" by fastforce
  let ?w = "w\<lparr>nd_qfifo := rest\<rparr>" and ?out = "if Some i = br_if_a br then br_if_b br else br_if_a br"
  have rd: "csp_qfifo_read w = (CSP_ERR_NONE, Some (p, i), ?w)" by (simp add: csp_qfifo_read_def Cons x)
  have ok: "node_ok ?w" using assms(2) Cons x by (auto simp: node_ok_def bound_def)
  have ow: "owned (pr_refs pr + add_mset p M) ?w"
    by (rule owned_cong [OF assms(3)]) (simp_all add: refs_def Cons x)
  obtain pr1 w1 where ad: "csp_promisc_add p (pr, ?w) = (pr1, w1)" by fastforce
  note k = csp_promisc_add_keeps [OF ad ok ow]
  obtain e w2 where sd: "csp_send_direct nh nonce (pkt_id (buf_packet (nd_pool w1) p)) (Some p) ?out w1 = Some (e, w2)"
      "pr' = pr1" "w' = (if e \<noteq> CSP_ERR_NONE then free_packet (Some p) w2 else w2)"
    using assms(1) rd ad by (auto simp: csp_bridge_work_def Let_def split: option.splits)
  have i: "j < length (nd_ifaces w1)" if "?out = Some j" for j
    using assms(4) [of j] that csp_promisc_add_ifaces [of p pr ?w] ad by (auto split: if_splits)
  have "owned (add_mset p (pr_refs pr1 + M)) w1" using k by simp
  from send_direct_keeps [OF sd(1) _ this i] k
  have s: "node_ok w2" "owned (if e = CSP_ERR_NONE then pr_refs pr1 + M else add_mset p (pr_refs pr1 + M)) w2"
    by simp_all
  show ?thesis
  proof (cases "e = CSP_ERR_NONE")
    case True
    then show ?thesis using s by (simp add: sd(2,3))
  next
    case False
    then show ?thesis using s owned_free [of p "pr_refs pr1 + M" w2] by (simp add: sd(2,3))
  qed
qed

end

section \<open>Properties\<close>

text \<open>Within the window a packet is recognised again: when \<open>csp_dedup_check\<close> took a packet at the
  time \<open>t\<close> and at most 15 others were checked since, the same packet is a duplicate until \<open>t + 1000\<close>.\<close>

theorem csp_dedup_detects:
  assumes "dedup_ok d" "csp_dedup_check t pk d = (0, d')" "length others < CSP_DEDUP_COUNT"
    "unat t + 1000 < 2 ^ 32" "unat t' < unat t + 1000"
  shows "csp_dedup_check t' pk (csp_dedup_run others d') = (1, csp_dedup_run others d')"
proof -
  have d': "d' = \<lparr>dd_array = (dd_array d)[dd_in d := csp_crc32_memory (pkt_header_data pk)],
      dd_timestamp = (dd_timestamp d)[dd_in d := t], dd_in = (dd_in d + 1) mod CSP_DEDUP_COUNT\<rparr>"
    using assms(2) by (auto simp: csp_dedup_check_def Let_def split: if_splits)
  have n: "dd_in d < CSP_DEDUP_COUNT" using assms(1) by (simp add: dedup_ok_def)
  have "((dd_in d + 1) mod CSP_DEDUP_COUNT + CSP_DEDUP_COUNT - 1) mod CSP_DEDUP_COUNT = dd_in d"
    using n by (cases "dd_in d + 1 = CSP_DEDUP_COUNT") (auto simp: CSP_DEDUP_COUNT_def)
  then have e: "dedup_entry d' 1 = (csp_crc32_memory (pkt_header_data pk), t)"
    using assms(1) n by (simp add: d' dedup_entry_def Let_def dedup_ok_def)
  have ok: "dedup_ok d'" using dedup_check_ok [OF assms(1), of t pk] assms(2) by simp
  obtain j where j: "dedup_ok (csp_dedup_run others d')" "1 \<le> j" "j \<le> CSP_DEDUP_COUNT"
      "dedup_entry (csp_dedup_run others d') j = (csp_crc32_memory (pkt_header_data pk), t)"
    using dedup_run_entry [OF ok, of 1 others] assms(3) e by auto
  have "unat (t + CSP_DEDUP_WINDOW_MS) = unat t + 1000"
    using assms(4) by (simp add: CSP_DEDUP_WINDOW_MS_def unat_word_ariths)
  then have "t' < t + CSP_DEDUP_WINDOW_MS" using assms(5) by (simp add: word_less_nat_alt)
  from dedup_entry_found [OF j this] show ?thesis .
qed

lemma csp_dedup_detects_witness:
  "csp_dedup_check 900 (empty_packet 0) (csp_dedup_run [(5, demo_packet 5 0 [65])]
     (snd (csp_dedup_check 4 (empty_packet 0) csp_dedup_init))) =
   (1, csp_dedup_run [(5, demo_packet 5 0 [65])] (snd (csp_dedup_check 4 (empty_packet 0) csp_dedup_init)))"
proof -
  have c: "csp_crc32_memory (pkt_header_data (empty_packet 0)) \<noteq> 0"
    by (simp add: csp_crc32_memory_def pkt_header_data_def empty_packet_def le32_def crc_step_def crc_tab_def)
  have "list_ex (\<lambda>i. csp_crc32_memory (pkt_header_data (empty_packet 0)) = dd_array csp_dedup_init ! i \<and> P i) [0..<CSP_DEDUP_COUNT] = False" for P
    using c by (auto simp: list_ex_iff csp_dedup_init_def)
  then obtain d' where "csp_dedup_check 4 (empty_packet 0) csp_dedup_init = (0, d')"
    by (simp add: csp_dedup_check_def Let_def)
  with csp_dedup_detects [OF dedup_init_ok this, of "[(5, demo_packet 5 0 [65])]" 900] show ?thesis
    by (simp add: CSP_DEDUP_COUNT_def)
qed

text \<open>Where the check for duplicates fails: in the first second a packet whose checksum is zero is
  taken for a duplicate though nothing has arrived before, because the empty entries of the table
  are zero; and in the last second before the clock wraps around no packet is recognised again.\<close>

theorem csp_dedup_limits:
  fixes now t t' :: u32 and pk pk' :: csp_packet
  assumes "csp_crc32_memory (pkt_header_data pk) = 0" "unat now < 1000"
    "csp_crc32_memory (pkt_header_data pk') \<noteq> 0" "2 ^ 32 \<le> unat t + 1000" "t \<le> t'"
  shows "csp_dedup_check now pk csp_dedup_init = (1, csp_dedup_init) \<and>
     fst (csp_dedup_check t pk' csp_dedup_init) = 0 \<and>
     fst (csp_dedup_check t' pk' (snd (csp_dedup_check t pk' csp_dedup_init))) = 0"
proof (intro conjI)
  have "now < 0 + CSP_DEDUP_WINDOW_MS" using assms(2) by (simp add: word_less_nat_alt CSP_DEDUP_WINDOW_MS_def)
  moreover have "dedup_entry csp_dedup_init 1 = (csp_crc32_memory (pkt_header_data pk), 0)"
    by (simp add: dedup_entry_def csp_dedup_init_def Let_def assms(1) CSP_DEDUP_COUNT_def)
  ultimately show "csp_dedup_check now pk csp_dedup_init = (1, csp_dedup_init)"
    using dedup_entry_found [OF dedup_init_ok, of 1 pk 0 now] by (simp add: CSP_DEDUP_COUNT_def)
  let ?crc = "csp_crc32_memory (pkt_header_data pk')"
  have "\<not> list_ex (\<lambda>i. ?crc = dd_array csp_dedup_init ! i \<and> t < dd_timestamp csp_dedup_init ! i + CSP_DEDUP_WINDOW_MS)
      [0..<CSP_DEDUP_COUNT]"
    using assms(3) by (auto simp: list_ex_iff csp_dedup_init_def)
  then have c: "csp_dedup_check t pk' csp_dedup_init = (0, \<lparr>dd_array = (replicate CSP_DEDUP_COUNT 0)[0 := ?crc],
      dd_timestamp = (replicate CSP_DEDUP_COUNT 0)[0 := t], dd_in = 1\<rparr>)"
    by (simp add: csp_dedup_check_def Let_def) (simp add: csp_dedup_init_def CSP_DEDUP_COUNT_def)
  then show "fst (csp_dedup_check t pk' csp_dedup_init) = 0" by simp
  have "unat t < 2 ^ 32" using unsigned_less [of t] by simp
  then have "unat (t + CSP_DEDUP_WINDOW_MS) < 1000"
    using assms(4) by (simp add: CSP_DEDUP_WINDOW_MS_def unat_word_ariths mod_if) linarith
  then have "\<not> t' < t + CSP_DEDUP_WINDOW_MS"
    using assms(4,5) by (simp add: word_less_nat_alt word_le_nat_alt)
  then have "\<not> list_ex (\<lambda>i. ?crc = (replicate CSP_DEDUP_COUNT 0)[0 := ?crc] ! i \<and>
      t' < (replicate CSP_DEDUP_COUNT 0)[0 := t] ! i + CSP_DEDUP_WINDOW_MS) [0..<CSP_DEDUP_COUNT]"
    using assms(3) by (auto simp: list_ex_iff nth_list_update split: if_splits)
  then show "fst (csp_dedup_check t' pk' (snd (csp_dedup_check t pk' csp_dedup_init))) = 0"
    by (simp add: c) (simp add: csp_dedup_check_def Let_def)
qed

lemma csp_dedup_limits_witness:
  "csp_dedup_check 5 ((empty_packet 0)\<lparr>pkt_id := 0x9be09bab\<rparr>) csp_dedup_init = (1, csp_dedup_init) \<and>
   fst (csp_dedup_check 0xFFFFFFFF (empty_packet 0) (snd (csp_dedup_check 0xFFFFFFFE (empty_packet 0) csp_dedup_init))) = 0"
proof -
  have "csp_crc32_memory (pkt_header_data ((empty_packet 0)\<lparr>pkt_id := 0x9be09bab\<rparr>)) = 0"
    by (simp add: csp_crc32_memory_def pkt_header_data_def empty_packet_def le32_def crc_step_def crc_tab_def)
  moreover have "csp_crc32_memory (pkt_header_data (empty_packet 0)) \<noteq> 0"
    by (simp add: csp_crc32_memory_def pkt_header_data_def empty_packet_def le32_def crc_step_def crc_tab_def)
  ultimately show ?thesis
    using csp_dedup_limits [where pk = "(empty_packet 0)\<lparr>pkt_id := 0x9be09bab\<rparr>" and now = "5" and pk' = "empty_packet 0" and t = "0xFFFFFFFE" and t' = "0xFFFFFFFF"]
    by simp
qed

text \<open>C16. The bridge loses no buffer: after every round, whether the copy for the promiscuous mode can
  be made and kept and whether the other interface takes the packet, every buffer in use is in
  exactly one place, the queues of the node, the promiscuous queue or the tasks.\<close>

theorem csp_bridge_conserves:
  assumes "csp_link nh" "node_ok w" "owned (pr_refs pr + M) w"
    "\<And>i. br_if_a br = Some i \<Longrightarrow> i < length (nd_ifaces w)" "\<And>i. br_if_b br = Some i \<Longrightarrow> i < length (nd_ifaces w)"
    "csp_bridge_work nh nonce br (pr, w) = Some (pr', w')"
  shows "node_ok w' \<and> owned (pr_refs pr' + M) w'"
  using csp_link.bridge_keeps [OF assms(1,6,2,3)] assms(4,5) by blast

lemma csp_bridge_conserves_witness:
  "\<exists>pr' w'. csp_bridge_work lo_nexthop 0 \<lparr>br_if_a = Some 0, br_if_b = Some 1\<rparr>
       (\<lparr>pr_enabled = True, pr_queue = Some (2, [])\<rparr>, arrive (demo_packet 5 0 [65]) 1 demo_node) = Some (pr', w') \<and>
     owned (pr_refs pr') w'"
proof -
  let ?pr = "\<lparr>pr_enabled = True, pr_queue = Some (2, [])\<rparr>" and ?w = "arrive (demo_packet 5 0 [65]) 1 demo_node"
  let ?br = "\<lparr>br_if_a = Some 0, br_if_b = Some 1\<rparr>"
  have a: "node_ok ?w" "owned {#} ?w" "nd_qfifo ?w = [(0, 1)]" "buf_packet (nd_pool ?w) 0 = demo_packet 5 0 [65]"
    "\<exists>pool. ?w = demo_node\<lparr>nd_pool := pool, nd_qfifo := [(0, 1)]\<rparr>"
    using arrive_demo [of 1] by auto
  let ?v = "?w\<lparr>nd_qfifo := []\<rparr>"
  obtain pr1 w1 where ad: "csp_promisc_add 0 (?pr, ?v) = (pr1, w1)" by fastforce
  have o0: "owned (pr_refs ?pr + {#0#}) ?v"
    by (rule owned_cong [OF a(2)]) (simp_all add: refs_def a(3) pr_refs_def del: One_nat_def)
  have "node_ok ?v" using a(1) by (auto simp: node_ok_def bound_def)
  from csp_promisc_add_keeps [OF ad this o0] have "quiet (bufs ?v) ?v w1" by simp
  moreover have "0 \<in> bufs ?v" using owned_live [OF o0, of 0] by (simp add: bufs_def)
  ultimately have p: "buf_packet (nd_pool w1) 0 = demo_packet 5 0 [65]" using a(4) by (simp add: quiet_def same_packets_def)
  have "nd_address w1 = nd_address ?v"
    using ad by (auto simp: csp_promisc_add_def free_packet_def split: option.splits prod.splits if_splits)
  then have ad5: "nd_address w1 = 5" using a(5) by (auto simp: demo_node_def)
  have "\<exists>e w2. csp_send_direct lo_nexthop 0 (pkt_id (buf_packet (nd_pool w1) 0)) (Some 0) (Some 0) w1 = Some (e, w2)"
    unfolding p by (auto simp: csp_send_direct_def lo_nexthop_def CSP_IF_LO_def csp_lo_tx_def Let_def ad5)
  then obtain pr' w' where w': "csp_bridge_work lo_nexthop 0 ?br (?pr, ?w) = Some (pr', w')"
    using ad by (auto simp: csp_bridge_work_def csp_qfifo_read_def a(3) Let_def simp del: One_nat_def)
  have l: "length (nd_ifaces ?w) = 2" using a(5) by (auto simp: demo_node_def)
  then have ne: "nd_ifaces ?w \<noteq> []" by auto
  have "pr_refs ?pr + {#} = {#}" by (simp add: pr_refs_def)
  then have "owned (pr_refs ?pr + {#}) ?w" using a(2) by (simp only:)
  from csp_bridge_conserves [OF lo_link.csp_link_axioms a(1) this _ _ w'] l ne have "owned (pr_refs pr' + {#}) w'" by simp
  with w' show ?thesis by auto
qed

end
