(* ===== verification/CspKiss.thy ===== *)
theory CspKiss
  imports CspCrc32 CspBuffer
begin

text \<open>
  The KISS framing of the serial interface (\<open>libcsp/source/interfaces/csp_if_kiss.c\<close>): the
  transmitter, which appends a checksum and escapes the frame, and the receiver, a state machine
  over the incoming bytes.  The receiver writes the bytes of a frame from the identifier of its
  buffer on; \<open>kiss_frame\<close> is what it has written, so \<open>rx_length\<close> is its length, and it becomes the
  packet when the frame ends.
\<close>

definition KISS_MTU :: u16 where "KISS_MTU = 256"
definition FEND :: u8 where "FEND = 0xC0"
definition FESC :: u8 where "FESC = 0xDB"
definition TFEND :: u8 where "TFEND = 0xDC"
definition TFESC :: u8 where "TFESC = 0xDD"
definition TNC_DATA :: u8 where "TNC_DATA = 0x00"

lemmas kiss_chars = FEND_def FESC_def TFEND_def TFESC_def TNC_DATA_def

datatype kiss_mode = KISS_MODE_NOT_STARTED | KISS_MODE_STARTED | KISS_MODE_ESCAPED | KISS_MODE_SKIP_FRAME

text \<open>The handle of the driver with the interface it feeds, the pool, the packets written to the
  router's queue (\<open>csp_qfifo_write\<close>) and the characters returned to the serial driver.\<close>

record kiss_state =
  kiss_rx_mode :: kiss_mode
  kiss_rx_first :: bool
  kiss_rx_packet :: "nat option"
  kiss_frame :: "u8 list"
  kiss_iface :: csp_iface
  kiss_pool :: buffer_pool
  kiss_delivered :: "nat list"
  kiss_discarded :: "u8 list"

section \<open>Transmission\<close>

definition kiss_escape :: "u8 \<Rightarrow> u8 list" where
  "kiss_escape b = (if b = FEND then [FESC, TFEND] else if b = FESC then [FESC, TFESC] else [b])"

text \<open>The result: the return value, the characters put out, and the pool without the packet.  The
  outer \<open>None\<close> is the checksum written outside the buffer.\<close>

definition csp_kiss_tx :: "bool \<Rightarrow> nat \<Rightarrow> buffer_pool \<Rightarrow> (int \<times> u8 list \<times> buffer_pool) option" where
  "csp_kiss_tx have_driver packet pool =
     (if \<not> have_driver then Some (CSP_ERR_DRIVER, [], pool)
      else case csp_crc32_append (Some (buf_packet pool packet)) False of
        None \<Rightarrow> None
      | Some (_, None) \<Rightarrow> None
      | Some (_, Some p) \<Rightarrow>
          let p = p\<lparr>pkt_id := csp_hton32 (pkt_id p)\<rparr>;
              body = pkt_header_data p
          in Some (CSP_ERR_NONE,
               [FEND, TNC_DATA] @ concat (map kiss_escape body) @ [FEND],
               csp_buffer_free (Some packet) pool))"

section \<open>Reception\<close>

definition kiss_count_rx_error :: "kiss_state \<Rightarrow> kiss_state" where
  "kiss_count_rx_error s = s\<lparr>kiss_iface := (kiss_iface s)\<lparr>if_rx_error := if_rx_error (kiss_iface s) + 1\<rparr>\<rparr>"

definition kiss_overflow :: "kiss_state \<Rightarrow> kiss_state" where
  "kiss_overflow s =
     (if length (kiss_frame s) > unat (if_mtu (kiss_iface s))
      then (kiss_count_rx_error s)\<lparr>kiss_rx_mode := KISS_MODE_NOT_STARTED, kiss_frame := []\<rparr>
      else s)"

definition kiss_not_started :: "u8 \<Rightarrow> kiss_state \<Rightarrow> kiss_state" where
  "kiss_not_started b s =
     (if b \<noteq> FEND then s\<lparr>kiss_discarded := kiss_discarded s @ [b]\<rparr>
      else
        let (pkt, pool) = (case kiss_rx_packet s of
               None \<Rightarrow> csp_buffer_get (unat (if_mtu (kiss_iface s))) (kiss_pool s)
             | Some i \<Rightarrow> (Some i, kiss_pool s));
            s = s\<lparr>kiss_rx_packet := pkt, kiss_pool := pool\<rparr>
        in if pkt = None then s\<lparr>kiss_rx_mode := KISS_MODE_SKIP_FRAME\<rparr>
           else s\<lparr>kiss_frame := [], kiss_rx_mode := KISS_MODE_STARTED, kiss_rx_first := True\<rparr>)"

text \<open>The end of a frame: length check, byte order, checksum, delivery.\<close>

definition kiss_end_of_frame :: "kiss_state \<Rightarrow> kiss_state" where
  "kiss_end_of_frame s =
     (if length (kiss_frame s) < 8
      then (kiss_count_rx_error s)\<lparr>kiss_rx_mode := KISS_MODE_NOT_STARTED\<rparr>
      else
        let s = s\<lparr>kiss_iface := (kiss_iface s)\<lparr>if_frame := if_frame (kiss_iface s) + 1\<rparr>\<rparr>;
            i = the (kiss_rx_packet s);
            p = (buf_packet (kiss_pool s) i)
                  \<lparr>pkt_id := csp_ntoh32 (of_le32 (take 4 (kiss_frame s))), pkt_data := drop 4 (kiss_frame s)\<rparr>;
            (ret, q) = csp_crc32_verify (Some p) False;
            s = s\<lparr>kiss_pool := set_packet i (the q) (kiss_pool s)\<rparr>
        in if ret \<noteq> CSP_ERR_NONE
           then (kiss_count_rx_error s)\<lparr>kiss_rx_mode := KISS_MODE_NOT_STARTED\<rparr>
           else s\<lparr>kiss_delivered := kiss_delivered s @ [i], kiss_rx_packet := None,
                  kiss_rx_mode := KISS_MODE_NOT_STARTED\<rparr>)"

definition kiss_started :: "u8 \<Rightarrow> kiss_state \<Rightarrow> kiss_state" where
  "kiss_started b s =
     (if b = FESC then s\<lparr>kiss_rx_mode := KISS_MODE_ESCAPED\<rparr>
      else if b = FEND then (if kiss_frame s \<noteq> [] then kiss_end_of_frame s else s)
      else if kiss_rx_first s then s\<lparr>kiss_rx_first := False\<rparr>
      else s\<lparr>kiss_frame := kiss_frame s @ [b]\<rparr>)"

definition kiss_escaped :: "u8 \<Rightarrow> kiss_state \<Rightarrow> kiss_state" where
  "kiss_escaped b s =
     (let s = (if b = TFESC then s\<lparr>kiss_frame := kiss_frame s @ [FESC]\<rparr> else s);
          s = (if b = TFEND then s\<lparr>kiss_frame := kiss_frame s @ [FEND]\<rparr> else s)
      in s\<lparr>kiss_rx_mode := KISS_MODE_STARTED\<rparr>)"

definition kiss_rx_byte :: "u8 \<Rightarrow> kiss_state \<Rightarrow> kiss_state" where
  "kiss_rx_byte inputbyte s =
     (let s = kiss_overflow s in
      case kiss_rx_mode s of
        KISS_MODE_NOT_STARTED \<Rightarrow> kiss_not_started inputbyte s
      | KISS_MODE_STARTED \<Rightarrow> kiss_started inputbyte s
      | KISS_MODE_ESCAPED \<Rightarrow> kiss_escaped inputbyte s
      | KISS_MODE_SKIP_FRAME \<Rightarrow>
          if inputbyte = FEND then s\<lparr>kiss_rx_mode := KISS_MODE_NOT_STARTED\<rparr> else s)"

definition csp_kiss_rx :: "u8 list \<Rightarrow> kiss_state \<Rightarrow> kiss_state" where
  "csp_kiss_rx buf s = fold kiss_rx_byte buf s"

definition csp_kiss_init :: "csp_iface \<Rightarrow> string \<Rightarrow> buffer_pool \<Rightarrow> kiss_state" where
  "csp_kiss_init iface name pool =
     \<lparr>kiss_rx_mode = KISS_MODE_NOT_STARTED, kiss_rx_first = False, kiss_rx_packet = None, kiss_frame = [],
      kiss_iface = iface\<lparr>if_mtu := KISS_MTU, if_name := name\<rparr>, kiss_pool = pool,
      kiss_delivered = [], kiss_discarded = []\<rparr>"

section \<open>Escaping is undone byte by byte\<close>

lemma kiss_escape_started:
  assumes "kiss_rx_mode s = KISS_MODE_STARTED" "\<not> kiss_rx_first s"
    "length (kiss_frame s) \<le> unat (if_mtu (kiss_iface s))"
  shows "fold kiss_rx_byte (kiss_escape b) s = s\<lparr>kiss_frame := kiss_frame s @ [b]\<rparr>"
  using assms
  by (auto simp: kiss_escape_def kiss_rx_byte_def kiss_overflow_def kiss_started_def kiss_escaped_def kiss_chars)

lemma kiss_body_started:
  assumes "kiss_rx_mode s = KISS_MODE_STARTED" "\<not> kiss_rx_first s"
    "length (kiss_frame s) + length bs \<le> unat (if_mtu (kiss_iface s)) + 1"
  shows "fold kiss_rx_byte (concat (map kiss_escape bs)) s = s\<lparr>kiss_frame := kiss_frame s @ bs\<rparr>"
  using assms
proof (induction bs arbitrary: s)
  case (Cons b bs)
  then have "fold kiss_rx_byte (kiss_escape b) s = s\<lparr>kiss_frame := kiss_frame s @ [b]\<rparr>"
    by (intro kiss_escape_started) simp_all
  with Cons.IH [of "s\<lparr>kiss_frame := kiss_frame s @ [b]\<rparr>"] Cons.prems show ?case by simp
qed simp

text \<open>The start of a frame, when a buffer is at hand.\<close>

definition kiss_ready :: "kiss_state \<Rightarrow> bool" where
  "kiss_ready s \<longleftrightarrow> kiss_rx_mode s = KISS_MODE_NOT_STARTED \<and>
     length (kiss_frame s) \<le> unat (if_mtu (kiss_iface s)) \<and> pool_ok (kiss_pool s) \<and>
     (case kiss_rx_packet s of
        Some i \<Rightarrow> i < pool_count (kiss_pool s)
      | None \<Rightarrow> unat (if_mtu (kiss_iface s)) + CSP_BUFFER_PACKET_OVERHEAD \<le> pool_size (kiss_pool s) \<and>
                pool_free (kiss_pool s) \<noteq> [])"

lemma kiss_start_of_frame:
  assumes "kiss_ready s"
  obtains i pool where
    "fold kiss_rx_byte [FEND, TNC_DATA] s = s\<lparr>kiss_rx_packet := Some i, kiss_pool := pool, kiss_frame := [],
       kiss_rx_mode := KISS_MODE_STARTED, kiss_rx_first := False\<rparr>"
    "pool_ok pool" "i < pool_count pool"
proof -
  obtain i pool where i: "(case kiss_rx_packet s of
               None \<Rightarrow> csp_buffer_get (unat (if_mtu (kiss_iface s))) (kiss_pool s)
             | Some i \<Rightarrow> (Some i, kiss_pool s)) = (Some i, pool)"
    and pool: "pool_ok pool" "i < pool_count pool"
  proof (cases "kiss_rx_packet s")
    case None
    obtain r p where rp: "csp_buffer_get (unat (if_mtu (kiss_iface s))) (kiss_pool s) = (r, p)" by fastforce
    have "r \<noteq> None"
      using assms None rp csp_buffer_get_None [of "kiss_pool s" "unat (if_mtu (kiss_iface s))" p]
      by (cases r) (auto simp: kiss_ready_def CSP_BUFFER_PACKET_OVERHEAD_def)
    then obtain i where "r = Some i" by blast
    with that None rp csp_buffer_get_Some [of "kiss_pool s" _ i p] assms show thesis
      by (auto simp: kiss_ready_def)
  next
    case (Some j)
    with that [of j "kiss_pool s"] assms show thesis by (simp add: kiss_ready_def)
  qed
  show thesis
  proof (rule that)
    show "fold kiss_rx_byte [FEND, TNC_DATA] s = s\<lparr>kiss_rx_packet := Some i, kiss_pool := pool, kiss_frame := [],
       kiss_rx_mode := KISS_MODE_STARTED, kiss_rx_first := False\<rparr>"
      using assms i
      by (simp add: kiss_ready_def kiss_rx_byte_def kiss_overflow_def kiss_not_started_def kiss_started_def
          kiss_chars Let_def)
  qed (fact pool)+
qed

lemma csp_kiss_tx_output:
  assumes "csp_kiss_tx True j tpool = Some (e, out, tpool')"
  defines "p \<equiv> buf_packet tpool j"
  shows "e = CSP_ERR_NONE" "tpool' = csp_buffer_free (Some j) tpool"
    "out = [FEND, TNC_DATA] @ concat (map kiss_escape
       (be32 (pkt_id p) @ pkt_data p @ be32 (csp_crc32_memory (pkt_data p)))) @ [FEND]"
  using assms
  by (auto simp: csp_kiss_tx_def csp_crc32_append_def pkt_append_def pkt_header_data_def Let_def split: if_splits)

lemma kiss_end_of_frame_deliver:
  assumes "kiss_frame s = be32 w @ d @ be32 (csp_crc32_memory d)" "kiss_rx_packet s = Some i"
    "pool_ok (kiss_pool s)" "i < pool_count (kiss_pool s)"
  defines "s' \<equiv> kiss_end_of_frame s"
  shows "kiss_delivered s' = kiss_delivered s @ [i]" "kiss_rx_packet s' = None"
    "kiss_rx_mode s' = KISS_MODE_NOT_STARTED" "kiss_discarded s' = kiss_discarded s"
    "pkt_id (buf_packet (kiss_pool s') i) = w" "pkt_data (buf_packet (kiss_pool s') i) = d"
    "live (kiss_pool s') = live (kiss_pool s)"
proof -
  have "csp_ntoh32 (of_le32 (be32 w)) = w"
    by (metis csp_ntoh32_def csp_ntoh32_hton32 le32_csp_hton32 of_le32_le32)
  then show "kiss_delivered s' = kiss_delivered s @ [i]" "kiss_rx_packet s' = None"
    "kiss_rx_mode s' = KISS_MODE_NOT_STARTED" "kiss_discarded s' = kiss_discarded s"
    "pkt_id (buf_packet (kiss_pool s') i) = w" "pkt_data (buf_packet (kiss_pool s') i) = d"
    "live (kiss_pool s') = live (kiss_pool s)"
    using assms(1-4)
    by (simp_all add: s'_def kiss_end_of_frame_def csp_crc32_verify_def pkt_length_def Let_def
        buf_packet_set_packet)
qed

section \<open>Frames that are too long\<close>

lemma kiss_overflow_idem: "kiss_overflow (kiss_overflow s) = kiss_overflow s"
  by (simp add: kiss_overflow_def kiss_count_rx_error_def)

lemma kiss_rx_after_overflow: "bs \<noteq> [] \<Longrightarrow> fold kiss_rx_byte bs s = fold kiss_rx_byte bs (kiss_overflow s)"
  by (cases bs) (simp_all add: kiss_rx_byte_def kiss_overflow_idem)

lemma kiss_discard_bytes:
  "kiss_rx_mode s = KISS_MODE_NOT_STARTED \<Longrightarrow> length (kiss_frame s) \<le> unat (if_mtu (kiss_iface s)) \<Longrightarrow>
     FEND \<notin> set bs \<Longrightarrow> fold kiss_rx_byte bs s = s\<lparr>kiss_discarded := kiss_discarded s @ bs\<rparr>"
  by (induction bs arbitrary: s) (auto simp: kiss_rx_byte_def kiss_overflow_def kiss_not_started_def)

lemma kiss_escape_no_FEND: "FEND \<notin> set (concat (map kiss_escape bs))"
  by (auto simp: kiss_escape_def kiss_chars split: if_splits)

section \<open>Properties\<close>


text \<open>A packet the transmitter accepts but whose frame is longer than the receiver's MTU (from 249
  bytes of data on, although the MTU of the interface is 256) is never delivered: the receiver
  counts one error and skips the rest of the frame.\<close>

theorem csp_kiss_long_frame_lost:
  assumes "kiss_ready s" and "csp_kiss_tx True j tpool = Some (e, out, tpool')"
    and "unat (if_mtu (kiss_iface s)) < pkt_length (buf_packet tpool j) + 8"
    and "s' = csp_kiss_rx out s"
  shows "kiss_delivered s' = kiss_delivered s \<and>
     if_rx_error (kiss_iface s') = if_rx_error (kiss_iface s) + 1"
proof -
  let ?p = "buf_packet tpool j"
  let ?mtu = "unat (if_mtu (kiss_iface s))"
  let ?body = "be32 (pkt_id ?p) @ pkt_data ?p @ be32 (csp_crc32_memory (pkt_data ?p))"
  let ?b1 = "take (?mtu + 1) ?body" and ?b2 = "drop (?mtu + 1) ?body"
  obtain i pool where start: "fold kiss_rx_byte [FEND, TNC_DATA] s =
      s\<lparr>kiss_rx_packet := Some i, kiss_pool := pool, kiss_frame := [],
        kiss_rx_mode := KISS_MODE_STARTED, kiss_rx_first := False\<rparr>" (is "_ = ?s1")
    using assms(1) by (rule kiss_start_of_frame)
  have b1: "length ?b1 = ?mtu + 1" using assms(3) by (simp add: pkt_length_def)
  then have s2: "fold kiss_rx_byte (concat (map kiss_escape ?b1)) ?s1 = ?s1\<lparr>kiss_frame := ?b1\<rparr>" (is "_ = ?s2")
    using kiss_body_started [of ?s1 ?b1] by simp
  let ?rest = "concat (map kiss_escape ?b2)"
  have "out = [FEND, TNC_DATA] @ concat (map kiss_escape (?b1 @ ?b2)) @ [FEND]"
    using csp_kiss_tx_output(3) [OF assms(2)] by (simp only: append_take_drop_id)
  then have "s' = fold kiss_rx_byte (?rest @ [FEND]) ?s2"
    using start s2 assms(4) by (simp add: csp_kiss_rx_def del: fold_simps)
  also have "\<dots> = fold kiss_rx_byte (?rest @ [FEND]) (kiss_overflow ?s2)"
    by (rule kiss_rx_after_overflow) simp
  also have "kiss_overflow ?s2 = (kiss_count_rx_error ?s2)\<lparr>kiss_rx_mode := KISS_MODE_NOT_STARTED, kiss_frame := []\<rparr>"
    (is "_ = ?s3") using b1 by (simp add: kiss_overflow_def)
  also have "fold kiss_rx_byte (?rest @ [FEND]) ?s3 =
      kiss_rx_byte FEND (?s3\<lparr>kiss_discarded := kiss_discarded ?s3 @ ?rest\<rparr>)"
    using kiss_discard_bytes [of ?s3 ?rest] kiss_escape_no_FEND [of ?b2] by simp
  finally show ?thesis
    by (simp add: kiss_rx_byte_def kiss_overflow_def kiss_count_rx_error_def kiss_not_started_def)
qed

definition kiss_example_packet :: csp_packet where
  "kiss_example_packet = (empty_packet 300)\<lparr>pkt_id := 7, pkt_data := [1, FEND, 3]\<rparr>"

definition kiss_example_pool :: "csp_packet \<Rightarrow> nat \<Rightarrow> buffer_pool" where
  "kiss_example_pool p r = \<lparr>pool_count = 1, pool_size = 314,
     pool_bufs = [\<lparr>skbf_refcount = r, skbf_addr = 0, skbf_packet = p\<rparr>], pool_free = (if r = 0 then [0] else [])\<rparr>"

definition kiss_example_state :: kiss_state where
  "kiss_example_state = csp_kiss_init \<lparr>if_name = ''x'', if_mtu = 0, if_split_horizon_off = False, if_tx = 0,
     if_rx = 0, if_tx_error = 0, if_rx_error = 0, if_drop = 0, if_autherr = 0, if_frame = 0,
     if_txbytes = 0, if_rxbytes = 0\<rparr> ''KISS'' (kiss_example_pool (empty_packet 300) 0)"

lemma kiss_example_ready: "kiss_ready kiss_example_state"
  by (auto simp: kiss_ready_def kiss_example_state_def csp_kiss_init_def kiss_example_pool_def KISS_MTU_def
      pool_ok_def CSP_BUFFER_PACKET_OVERHEAD_def)

lemma kiss_example_mtu: "unat (if_mtu (kiss_iface kiss_example_state)) = 256"
  by (simp add: kiss_example_state_def csp_kiss_init_def KISS_MTU_def)

lemma kiss_example_tx:
  "pkt_length p + 4 \<le> pkt_cap p \<Longrightarrow> \<exists>e out q. csp_kiss_tx True 0 (kiss_example_pool p 1) = Some (e, out, q)"
  by (auto simp: csp_kiss_tx_def csp_crc32_append_def pkt_append_def kiss_example_pool_def buf_packet_def Let_def)


lemma csp_kiss_long_frame_lost_witness:
  "\<exists>out. csp_kiss_tx True 0 (kiss_example_pool ((empty_packet 300)\<lparr>pkt_data := replicate 256 0\<rparr>) 1) = Some out \<and>
     kiss_delivered (csp_kiss_rx (fst (snd out)) kiss_example_state) = []"
proof -
  let ?p = "(empty_packet 300)\<lparr>pkt_data := replicate 256 0\<rparr>"
  obtain e out q where tx: "csp_kiss_tx True 0 (kiss_example_pool ?p 1) = Some (e, out, q)"
    using kiss_example_tx [of ?p] by (auto simp: pkt_length_def empty_packet_def)
  have "unat (if_mtu (kiss_iface kiss_example_state)) < pkt_length (buf_packet (kiss_example_pool ?p 1) 0) + 8"
    by (simp add: kiss_example_mtu buf_packet_def kiss_example_pool_def pkt_length_def)
  from csp_kiss_long_frame_lost [OF kiss_example_ready tx this refl] tx show ?thesis
    by (auto simp: kiss_example_state_def csp_kiss_init_def)
qed

end
