(* ===== verification/CspCan.thy ===== *)
theory CspCan
  imports CspEndian CspBuffer CspRtable
begin

text \<open>
  The CAN fragmentation protocol (\<open>libcsp/source/interfaces/csp_if_can.c\<close>): a packet is sent as
  one BEGIN frame and MORE frames of at most eight bytes, and put together again in a small array
  of reassembly elements.  The data of a frame is the \<open>dlc\<close> bytes that are valid.  The bytes an
  element has received are kept with it (\<open>pb_rx\<close>, so \<open>rx_count\<close> is their number), next to the
  identifier and the length of the BEGIN frame; they become the packet when the length is reached.
\<close>

section \<open>The identifier of a frame\<close>

definition CFP_SRC :: "u32 \<Rightarrow> u32" where "CFP_SRC w = get_field 24 5 w"
definition CFP_DST :: "u32 \<Rightarrow> u32" where "CFP_DST w = get_field 19 5 w"
definition CFP_TYPE :: "u32 \<Rightarrow> u32" where "CFP_TYPE w = get_field 18 1 w"
definition CFP_REMAIN :: "u32 \<Rightarrow> u32" where "CFP_REMAIN w = get_field 10 8 w"
definition CFP_ID :: "u32 \<Rightarrow> u32" where "CFP_ID w = get_field 0 10 w"

definition CFP_MAKE_FIELD :: "u32 \<Rightarrow> nat \<Rightarrow> nat \<Rightarrow> u32" where
  "CFP_MAKE_FIELD v fsiz rsiz = push_bit rsiz (v AND (push_bit fsiz 1 - 1))"

definition CFP_MAKE_SRC :: "u32 \<Rightarrow> u32" where "CFP_MAKE_SRC v = CFP_MAKE_FIELD v 5 24"
definition CFP_MAKE_DST :: "u32 \<Rightarrow> u32" where "CFP_MAKE_DST v = CFP_MAKE_FIELD v 5 19"
definition CFP_MAKE_TYPE :: "u32 \<Rightarrow> u32" where "CFP_MAKE_TYPE v = CFP_MAKE_FIELD v 1 18"
definition CFP_MAKE_REMAIN :: "u32 \<Rightarrow> u32" where "CFP_MAKE_REMAIN v = CFP_MAKE_FIELD v 8 10"
definition CFP_MAKE_ID :: "u32 \<Rightarrow> u32" where "CFP_MAKE_ID v = CFP_MAKE_FIELD v 10 0"

definition CFP_ID_CONN_MASK :: u32 where
  "CFP_ID_CONN_MASK = CFP_MAKE_SRC (push_bit 5 1 - 1) OR CFP_MAKE_DST (push_bit 5 1 - 1) OR
     CFP_MAKE_ID (push_bit 10 1 - 1)"

definition CFP_BEGIN :: u32 where "CFP_BEGIN = 0"
definition CFP_MORE :: u32 where "CFP_MORE = 1"

definition CSP_CAN_MTU :: nat where "CSP_CAN_MTU = 256"
definition PBUF_ELEMENTS :: nat where "PBUF_ELEMENTS = 10"
definition PBUF_TIMEOUT_MS :: u32 where "PBUF_TIMEOUT_MS = 10000"

section \<open>State\<close>

record can_frame =
  fr_id :: u32
  fr_data :: "u8 list"

record can_pbuf =
  pb_used :: bool
  pb_cfpid :: u32
  pb_remain :: u32
  pb_packet :: "nat option"
  pb_id :: csp_id
  pb_length :: u16
  pb_rx :: "u8 list"
  pb_last_used :: u32

record can_state =
  can_pbufs :: "can_pbuf list"
  can_iface :: csp_iface
  can_pool :: buffer_pool
  can_delivered :: "nat list"

definition pbuf_free_element :: can_pbuf where
  "pbuf_free_element = \<lparr>pb_used = False, pb_cfpid = 0, pb_remain = 0, pb_packet = None, pb_id = 0,
     pb_length = 0, pb_rx = [], pb_last_used = 0\<rparr>"

definition csp_can_pbuf_init :: "can_pbuf list" where
  "csp_can_pbuf_init = replicate PBUF_ELEMENTS pbuf_free_element"

text \<open>The counter of frame identifiers: ten bits, started at a random number.\<close>

definition csp_can_id_init :: "(u32 \<Rightarrow> u32) \<Rightarrow> u32 \<Rightarrow> u32" where
  "csp_can_id_init rand now = rand now AND (push_bit 10 1 - 1)"

definition csp_can_id_get :: "bool \<Rightarrow> u32 \<Rightarrow> int \<times> u32" where
  "csp_can_id_get sem_ok can_id =
     (if \<not> sem_ok then (CSP_ERR_TIMEDOUT, can_id)
      else (uint can_id, (can_id + 1) AND (push_bit 10 1 - 1)))"

section \<open>The reassembly elements\<close>

abbreviation (input) set_pbuf :: "nat \<Rightarrow> can_pbuf \<Rightarrow> can_state \<Rightarrow> can_state" where
  "set_pbuf k b s \<equiv> s\<lparr>can_pbufs := (can_pbufs s)[k := b]\<rparr>"

definition csp_can_pbuf_free :: "nat \<Rightarrow> can_state \<Rightarrow> can_state" where
  "csp_can_pbuf_free k s =
     (let pool = (case pb_packet (can_pbufs s ! k) of None \<Rightarrow> can_pool s
                  | Some i \<Rightarrow> csp_buffer_free (Some i) (can_pool s))
      in set_pbuf k pbuf_free_element (s\<lparr>can_pool := pool\<rparr>))"

definition csp_can_pbuf_new :: "u32 \<Rightarrow> u32 \<Rightarrow> can_state \<Rightarrow> nat option \<times> can_state" where
  "csp_can_pbuf_new fid now s =
     (case find_index (\<lambda>b. \<not> pb_used b) (can_pbufs s) of None \<Rightarrow> (None, s)
      | Some k \<Rightarrow> (Some k,
          set_pbuf k ((can_pbufs s ! k)\<lparr>pb_used := True, pb_cfpid := fid, pb_remain := 0, pb_last_used := now\<rparr>) s))"

definition csp_can_pbuf_find :: "u32 \<Rightarrow> u32 \<Rightarrow> u32 \<Rightarrow> can_state \<Rightarrow> nat option \<times> can_state" where
  "csp_can_pbuf_find fid msk now s =
     (case find_index (\<lambda>b. pb_used b \<and> pb_cfpid b AND msk = fid AND msk) (can_pbufs s) of
        None \<Rightarrow> (None, s)
      | Some k \<Rightarrow> (Some k, set_pbuf k ((can_pbufs s ! k)\<lparr>pb_last_used := now\<rparr>) s))"

definition csp_can_pbuf_cleanup :: "u32 \<Rightarrow> can_state \<Rightarrow> can_state" where
  "csp_can_pbuf_cleanup now s =
     fold (\<lambda>k s. if pb_used (can_pbufs s ! k) \<and> now - pb_last_used (can_pbufs s ! k) > PBUF_TIMEOUT_MS
                 then csp_can_pbuf_free k s else s) [0..<length (can_pbufs s)] s"

definition can_count_frame :: "can_state \<Rightarrow> can_state" where
  "can_count_frame s = s\<lparr>can_iface := (can_iface s)\<lparr>if_frame := if_frame (can_iface s) + 1\<rparr>\<rparr>"

definition can_count_rx_error :: "can_state \<Rightarrow> can_state" where
  "can_count_rx_error s = s\<lparr>can_iface := (can_iface s)\<lparr>if_rx_error := if_rx_error (can_iface s) + 1\<rparr>\<rparr>"

section \<open>Receiving a frame\<close>

text \<open>The case \<open>CFP_MORE\<close>, which a BEGIN frame falls through to with the offset behind its header.
  A missing packet and a copy behind the end of the packet's buffer are the result \<open>None\<close>.\<close>

definition can_process_more :: "nat \<Rightarrow> can_frame \<Rightarrow> nat \<Rightarrow> can_state \<Rightarrow> can_state option" where
  "can_process_more k frame offset s =
     (let buf = can_pbufs s ! k in
      if CFP_REMAIN (fr_id frame) \<noteq> pb_remain buf - 1
      then Some (can_count_frame (csp_can_pbuf_free k s))
      else
        let buf = buf\<lparr>pb_remain := pb_remain buf - 1\<rparr>;
            s = set_pbuf k buf s
        in case pb_packet buf of None \<Rightarrow> None
           | Some i \<Rightarrow>
          if length (pb_rx buf) + length (fr_data frame) - offset > unat (pb_length buf)
          then Some (csp_can_pbuf_free k (can_count_frame s))
          else if length (pb_rx buf) + length (fr_data frame) - offset > pkt_cap (buf_packet (can_pool s) i)
          then None
          else
            let buf = buf\<lparr>pb_rx := pb_rx buf @ drop offset (fr_data frame)\<rparr>;
                s = set_pbuf k buf s
            in if length (pb_rx buf) \<noteq> unat (pb_length buf) then Some s
               else
                 let p = (buf_packet (can_pool s) i)\<lparr>pkt_id := pb_id buf, pkt_data := pb_rx buf\<rparr>;
                     s = s\<lparr>can_pool := set_packet i p (can_pool s), can_delivered := can_delivered s @ [i]\<rparr>;
                     s = set_pbuf k (buf\<lparr>pb_packet := None\<rparr>) s
                 in Some (csp_can_pbuf_free k s))"

definition can_process_begin :: "nat \<Rightarrow> can_frame \<Rightarrow> can_state \<Rightarrow> can_state option" where
  "can_process_begin k frame s =
     (if length (fr_data frame) < 6 then Some (csp_can_pbuf_free k (can_count_frame s))
      else
        let (pkt, s) = (case pb_packet (can_pbufs s ! k) of
               Some i \<Rightarrow> (Some i, can_count_frame s)
             | None \<Rightarrow> (case csp_buffer_get CSP_CAN_MTU (can_pool s) of
                         (r, pool) \<Rightarrow> (r, s\<lparr>can_pool := pool\<rparr>)))
        in case pkt of
             None \<Rightarrow> Some (csp_can_pbuf_free k (can_count_frame s))
           | Some i \<Rightarrow>
               let buf = (can_pbufs s ! k)\<lparr>pb_packet := Some i,
                     pb_id := csp_ntoh32 (of_le32 (take 4 (fr_data frame))),
                     pb_length := csp_ntoh16 (of_le16 (take 2 (drop 4 (fr_data frame)))),
                     pb_rx := [], pb_remain := CFP_REMAIN (fr_id frame) + 1\<rparr>
               in can_process_more k frame 6 (set_pbuf k buf s))"

definition csp_can_process_frame :: "u32 \<Rightarrow> can_frame \<Rightarrow> can_state \<Rightarrow> (int \<times> can_state) option" where
  "csp_can_process_frame now frame s =
     (let fid = fr_id frame;
          (buf, s) = csp_can_pbuf_find fid CFP_ID_CONN_MASK now s;
          (err, buf, s) =
            (case buf of
               Some k \<Rightarrow> (CSP_ERR_NONE, Some k, s)
             | None \<Rightarrow>
                 if CFP_TYPE fid = CFP_BEGIN then
                   (case csp_can_pbuf_new fid now s of
                      (None, s) \<Rightarrow> (CSP_ERR_NOMEM, None, can_count_rx_error s)
                    | (Some k, s) \<Rightarrow> (CSP_ERR_NONE, Some k, s))
                 else (CSP_ERR_INVAL, None, can_count_frame s))
      in case buf of
           None \<Rightarrow> Some (err, s)
         | Some k \<Rightarrow>
             map_option (\<lambda>s. (CSP_ERR_NONE, s))
               (if CFP_TYPE fid = CFP_BEGIN then can_process_begin k frame s
                else if CFP_TYPE fid = CFP_MORE then can_process_more k frame 0 s
                else Some (csp_can_pbuf_free k s)))"

text \<open>The receive task: it handles the frames of its queue one after the other, and cleans up when
  none arrives for a second.\<close>

datatype can_event = CanFrame can_frame | CanIdle

fun can_rx_event :: "u32 \<times> can_event \<Rightarrow> can_state \<Rightarrow> can_state option" where
  "can_rx_event (now, CanFrame f) s = map_option snd (csp_can_process_frame now f s)"
| "can_rx_event (now, CanIdle) s = Some (csp_can_pbuf_cleanup now s)"

fun csp_can_rx_task :: "(u32 \<times> can_event) list \<Rightarrow> can_state \<Rightarrow> can_state option" where
  "csp_can_rx_task [] s = Some s"
| "csp_can_rx_task (e # es) s = Option.bind (can_rx_event e s) (csp_can_rx_task es)"

section \<open>Transmission\<close>

text \<open>\<open>send\<close> is the driver: whether it takes the frame of this number.  The frames that were sent
  are part of the result; after an error the packet still belongs to the caller.\<close>

definition cfp_frame_id :: "u32 \<Rightarrow> u32 \<Rightarrow> u32 \<Rightarrow> u32 \<Rightarrow> u32 \<Rightarrow> u32" where
  "cfp_frame_id src dest ident typ remain =
     CFP_MAKE_SRC src OR CFP_MAKE_DST dest OR CFP_MAKE_ID ident OR CFP_MAKE_TYPE typ OR CFP_MAKE_REMAIN remain"

function can_tx_more :: "(nat \<Rightarrow> bool) \<Rightarrow> u32 \<Rightarrow> u32 \<Rightarrow> u32 \<Rightarrow> u8 list \<Rightarrow> nat \<Rightarrow> nat \<Rightarrow> can_frame list
    \<Rightarrow> bool \<times> can_frame list" where
  "can_tx_more send src dest ident dat tx_count n sent =
     (if length dat \<le> tx_count then (True, sent)
      else
        let bytes = (if length dat - tx_count \<ge> 8 then 8 else length dat - tx_count);
            id = cfp_frame_id src dest ident CFP_MORE (of_nat ((length dat - tx_count - bytes + 7) div 8));
            frame = \<lparr>fr_id = id, fr_data = take bytes (drop tx_count dat)\<rparr>
        in if \<not> send n then (False, sent)
           else can_tx_more send src dest ident dat (tx_count + bytes) (n + 1) (sent @ [frame]))"
  by pat_completeness auto
termination
  by (relation "measure (\<lambda>(_, _, _, _, dat, tx_count, _, _). length dat - tx_count)")
    (auto split: if_splits)

declare can_tx_more.simps [simp del]

definition csp_can_tx :: "(nat \<Rightarrow> bool) \<Rightarrow> bool \<Rightarrow> u32 \<Rightarrow> u8 \<Rightarrow> nat \<Rightarrow> csp_iface \<Rightarrow> buffer_pool \<Rightarrow>
    int \<times> can_frame list \<times> u32 \<times> csp_iface \<times> buffer_pool" where
  "csp_can_tx send sem_ok can_id mac packet iface pool =
     (let p = buf_packet pool packet;
          (r, can_id') = csp_can_id_get sem_ok can_id
      in if r < 0 then (CSP_ERR_INVAL, [], can_id', iface, pool)
      else
        let ident = word_of_int r;
            dest = ucast (if mac = CSP_NODE_MAC then id_dst (pkt_id p) else mac);
            src = ucast (id_src (pkt_id p));
            id = cfp_frame_id src dest ident CFP_BEGIN (of_nat ((pkt_length p + 6 - 1) div 8));
            bytes = (if pkt_length p \<le> 2 then pkt_length p else 2);
            frame = \<lparr>fr_id = id, fr_data = le32 (csp_hton32 (pkt_id p)) @
                       le16 (csp_hton16 (of_nat (pkt_length p))) @ take bytes (pkt_data p)\<rparr>
        in if \<not> send 0 then (CSP_ERR_DRIVER, [], can_id', iface, pool)
           else case can_tx_more send src dest ident (pkt_data p) bytes 1 [frame] of
             (True, frames) \<Rightarrow> (CSP_ERR_NONE, frames, can_id', iface, csp_buffer_free (Some packet) pool)
           | (False, frames) \<Rightarrow> (CSP_ERR_DRIVER, frames, can_id',
                iface\<lparr>if_tx_error := if_tx_error iface + 1\<rparr>, pool))"

section \<open>Fields of the identifier\<close>

lemma bit_CFP_MAKE_FIELD:
  "bit (CFP_MAKE_FIELD v fsiz rsiz) n \<longleftrightarrow> rsiz \<le> n \<and> n < 32 \<and> n - rsiz < fsiz \<and> bit v (n - rsiz)"
proof -
  have "push_bit fsiz 1 - 1 = (mask fsiz :: u32)"
    by (simp add: mask_eq_exp_minus_1 push_bit_eq_mult)
  then show ?thesis by (auto simp: CFP_MAKE_FIELD_def bit_simps)
qed

lemmas CFP_MAKE_defs = CFP_MAKE_SRC_def CFP_MAKE_DST_def CFP_MAKE_TYPE_def CFP_MAKE_REMAIN_def CFP_MAKE_ID_def

lemma bit_cfp_frame_id:
  "bit (cfp_frame_id src dest ident typ remain) n \<longleftrightarrow>
     (if n < 10 then bit ident n else if n < 18 then bit remain (n - 10) else if n < 19 then bit typ (n - 18)
      else if n < 24 then bit dest (n - 19) else if n < 29 then bit src (n - 24) else False)"
  by (auto simp: cfp_frame_id_def CFP_MAKE_defs bit_CFP_MAKE_FIELD bit_or_iff)

lemma cfp_frame_id_fields:
  "CFP_TYPE (cfp_frame_id src dest ident typ remain) = take_bit 1 typ"
  "CFP_REMAIN (cfp_frame_id src dest ident typ remain) = take_bit 8 remain"
  by (rule bit_word_eqI; auto simp: CFP_TYPE_def CFP_REMAIN_def bit_get_field bit_cfp_frame_id bit_take_bit_iff
      simp flip: bit_0)+

lemma bit_CFP_ID_CONN_MASK: "bit CFP_ID_CONN_MASK n \<longleftrightarrow> n < 10 \<or> 19 \<le> n \<and> n < 29"
proof -
  have m: "push_bit k 1 - 1 = (mask k :: u32)" for k
    by (simp add: mask_eq_exp_minus_1 push_bit_eq_mult)
  show ?thesis
    unfolding CFP_ID_CONN_MASK_def CFP_MAKE_defs m
    by (auto simp: bit_CFP_MAKE_FIELD bit_or_iff bit_mask_iff)
qed

lemma cfp_frame_id_conn:
  "cfp_frame_id src dest ident t r AND CFP_ID_CONN_MASK = cfp_frame_id src dest ident t' r' AND CFP_ID_CONN_MASK"
  by (rule bit_word_eqI) (auto simp: bit_and_iff bit_cfp_frame_id bit_CFP_ID_CONN_MASK)

lemma CFP_TYPE_cases: "CFP_TYPE w = CFP_BEGIN \<or> CFP_TYPE w = CFP_MORE"
proof -
  have "CFP_TYPE w = (if bit w 18 then 1 else 0)"
    by (rule bit_word_eqI) (auto simp: CFP_TYPE_def bit_get_field bit_1_iff)
  then show ?thesis by (simp add: CFP_BEGIN_def CFP_MORE_def)
qed

section \<open>The invariant of the reassembly elements\<close>

text \<open>An element in use owns one live buffer that no other element owns and that is large enough for
  the announced length; \<open>K\<close> is an element just taken, which has no buffer yet.\<close>

definition can_inv :: "nat set \<Rightarrow> can_state \<Rightarrow> bool" where
  "can_inv K s \<longleftrightarrow> length (can_pbufs s) = PBUF_ELEMENTS \<and> pool_ok (can_pool s) \<and>
     (\<forall>i < pool_count (can_pool s). CSP_CAN_MTU \<le> pkt_cap (buf_packet (can_pool s) i)) \<and>
     (\<forall>k < PBUF_ELEMENTS. pb_used (can_pbufs s ! k) \<longrightarrow> k \<in> K \<or> pb_packet (can_pbufs s ! k) \<noteq> None) \<and>
     (\<forall>k < PBUF_ELEMENTS. \<forall>i. pb_packet (can_pbufs s ! k) = Some i \<longrightarrow>
        pb_used (can_pbufs s ! k) \<and> i \<in> live (can_pool s) \<and>
        length (pb_rx (can_pbufs s ! k)) \<le> unat (pb_length (can_pbufs s ! k)) \<and>
        unat (pb_length (can_pbufs s ! k)) \<le> CSP_CAN_MTU) \<and>
     (\<forall>j < PBUF_ELEMENTS. \<forall>k < PBUF_ELEMENTS. j \<noteq> k \<longrightarrow> pb_packet (can_pbufs s ! j) \<noteq> None \<longrightarrow>
        pb_packet (can_pbufs s ! j) \<noteq> pb_packet (can_pbufs s ! k))"

lemma can_inv_count [simp]:
  "can_inv K (can_count_frame s) = can_inv K s" "can_inv K (can_count_rx_error s) = can_inv K s"
  by (simp_all add: can_inv_def can_count_frame_def can_count_rx_error_def)

lemma can_inv_distinct:
  "can_inv K s \<Longrightarrow> j < PBUF_ELEMENTS \<Longrightarrow> k < PBUF_ELEMENTS \<Longrightarrow> j \<noteq> k \<Longrightarrow>
     pb_packet (can_pbufs s ! j) = Some i \<Longrightarrow> pb_packet (can_pbufs s ! k) \<noteq> Some i"
  unfolding can_inv_def by (metis option.distinct(1))

lemma can_inv_free:
  assumes "can_inv {k} s" "k < PBUF_ELEMENTS"
  shows "can_inv {} (csp_can_pbuf_free k s)"
proof (cases "pb_packet (can_pbufs s ! k)")
  case None
  with assms show ?thesis
    by (auto simp: can_inv_def csp_can_pbuf_free_def nth_list_update pbuf_free_element_def)
next
  case (Some i)
  have "pb_packet (can_pbufs s ! j) \<noteq> Some i" if "j < PBUF_ELEMENTS" "j \<noteq> k" for j
    using can_inv_distinct [OF assms(1,2)] Some that by metis
  with assms Some show ?thesis
    by (auto simp: can_inv_def csp_can_pbuf_free_def nth_list_update pbuf_free_element_def
        csp_buffer_free_ok csp_buffer_free_live)
qed

text \<open>Changing one element but not its buffer.\<close>

lemma can_inv_set_pbuf:
  assumes "can_inv K s" "k < PBUF_ELEMENTS" "pb_packet b = pb_packet (can_pbufs s ! k)"
    "pb_packet b \<noteq> None \<Longrightarrow> pb_used b \<and> length (pb_rx b) \<le> unat (pb_length b) \<and> unat (pb_length b) \<le> CSP_CAN_MTU"
    "pb_used b \<Longrightarrow> pb_packet b = None \<Longrightarrow> k \<in> K"
  shows "can_inv K (set_pbuf k b s)"
  using assms unfolding can_inv_def
  by (auto simp: nth_list_update)

lemma can_inv_mono: "can_inv K s \<Longrightarrow> K \<subseteq> K' \<Longrightarrow> can_inv K' s"
  by (auto simp: can_inv_def)

lemma can_inv_complete: "can_inv {k} s \<Longrightarrow> pb_packet (can_pbufs s ! k) \<noteq> None \<Longrightarrow> can_inv {} s"
  by (auto simp: can_inv_def)

text \<open>The frame does not announce more than the interface's MTU.\<close>

definition frame_announces_mtu :: "can_frame \<Rightarrow> bool" where
  "frame_announces_mtu f \<longleftrightarrow> length (fr_data f) \<le> 8 \<and>
     (CFP_TYPE (fr_id f) = CFP_BEGIN \<longrightarrow> unat (csp_ntoh16 (of_le16 (take 2 (drop 4 (fr_data f))))) \<le> CSP_CAN_MTU)"

lemma can_process_more_inv:
  assumes inv: "can_inv {} s" and k: "k < PBUF_ELEMENTS" "pb_used (can_pbufs s ! k)"
    and off: "offset \<le> length (fr_data f)"
  shows "\<exists>s'. can_process_more k f offset s = Some s' \<and> can_inv {} s'"
proof -
  let ?b = "can_pbufs s ! k"
  obtain i where i: "pb_packet ?b = Some i" using inv k by (auto simp: can_inv_def)
  have b: "i \<in> live (can_pool s)" "length (pb_rx ?b) \<le> unat (pb_length ?b)" "unat (pb_length ?b) \<le> CSP_CAN_MTU"
    using inv k i by (auto simp: can_inv_def)
  have cap: "CSP_CAN_MTU \<le> pkt_cap (buf_packet (can_pool s) i)"
    using inv b(1) by (auto simp: can_inv_def dest: live_less)
  have inv': "can_inv {k} s" using inv by (rule can_inv_mono) simp
  show ?thesis
  proof (cases "CFP_REMAIN (fr_id f) \<noteq> pb_remain ?b - 1")
    case True
    with can_inv_free [OF inv' k(1)] show ?thesis by (auto simp: can_process_more_def Let_def)
  next
    case False
    let ?b1 = "?b\<lparr>pb_remain := pb_remain ?b - 1\<rparr>"
    let ?s1 = "set_pbuf k ?b1 s"
    have len: "length (can_pbufs s) = PBUF_ELEMENTS" using inv by (simp add: can_inv_def)
    have s1: "can_inv {k} ?s1"
      using inv' k i b by (intro can_inv_set_pbuf) simp_all
    show ?thesis
    proof (cases "length (pb_rx ?b) + length (fr_data f) - offset > unat (pb_length ?b)")
      case True
      have "can_inv {} (csp_can_pbuf_free k (can_count_frame ?s1))"
        using s1 k by (intro can_inv_free) simp_all
      with False True i show ?thesis by (simp add: can_process_more_def Let_def)
    next
      case fits: False
      let ?b2 = "?b1\<lparr>pb_rx := pb_rx ?b @ drop offset (fr_data f)\<rparr>"
      let ?s2 = "set_pbuf k ?b2 ?s1"
      have s2: "can_inv {} ?s2"
        using inv k i b fits off by (simp, intro can_inv_set_pbuf) simp_all
      show ?thesis
      proof (cases "length (pb_rx ?b2) = unat (pb_length ?b)")
        case False
        with \<open>\<not> CFP_REMAIN (fr_id f) \<noteq> pb_remain ?b - 1\<close> fits cap b i s2 show ?thesis
          by (auto simp: can_process_more_def Let_def)
      next
        case True
        let ?p = "(buf_packet (can_pool s) i)\<lparr>pkt_id := pb_id ?b, pkt_data := pb_rx ?b2\<rparr>"
        let ?s3 = "set_pbuf k (?b2\<lparr>pb_packet := None\<rparr>)
          (?s2\<lparr>can_pool := set_packet i ?p (can_pool s), can_delivered := can_delivered s @ [i]\<rparr>)"
        have "can_inv {k} ?s3"
          using inv k cap len i
          by (auto simp: can_inv_def nth_list_update buf_packet_set_packet split: if_splits)
        then have "can_inv {} (csp_can_pbuf_free k ?s3)"
          using k(1) by (rule can_inv_free)
        with True \<open>\<not> CFP_REMAIN (fr_id f) \<noteq> pb_remain ?b - 1\<close> fits cap b i show ?thesis
          by (simp add: can_process_more_def Let_def)
      qed
    qed
  qed
qed

lemma can_process_begin_inv:
  assumes inv: "can_inv {k} s" and k: "k < PBUF_ELEMENTS" "pb_used (can_pbufs s ! k)"
    and f: "frame_announces_mtu f" "CFP_TYPE (fr_id f) = CFP_BEGIN"
  shows "\<exists>s'. can_process_begin k f s = Some s' \<and> can_inv {} s'"
proof (cases "length (fr_data f) < 6")
  case True
  have "can_inv {} (csp_can_pbuf_free k (can_count_frame s))"
    using inv k by (intro can_inv_free) simp_all
  with True show ?thesis by (simp add: can_process_begin_def)
next
  case False
  let ?l = "csp_ntoh16 (of_le16 (take 2 (drop 4 (fr_data f))))"
  have l: "unat ?l \<le> CSP_CAN_MTU" using f by (simp add: frame_announces_mtu_def)
  let ?b = "\<lambda>s i. (can_pbufs s ! k)\<lparr>pb_packet := Some i,
        pb_id := csp_ntoh32 (of_le32 (take 4 (fr_data f))), pb_length := ?l, pb_rx := [],
        pb_remain := CFP_REMAIN (fr_id f) + 1\<rparr>"
  have len: "length (can_pbufs s) = PBUF_ELEMENTS" using inv by (simp add: can_inv_def)
  show ?thesis
  proof (cases "pb_packet (can_pbufs s ! k)")
    case (Some i)
    have used: "pb_used (can_pbufs s ! k)" by (rule k(2))
    have "can_inv {k} (set_pbuf k (?b s i) s)"
      using inv k l Some by (intro can_inv_set_pbuf) simp_all
    then have "can_inv {} (set_pbuf k (?b s i) s)"
      using k len by (intro can_inv_complete [of k]) simp_all
    then have "can_inv {} (set_pbuf k (?b s i) (can_count_frame s))" (is "can_inv {} ?s1")
      by (simp add: can_inv_def can_count_frame_def)
    then have "\<exists>s'. can_process_more k f 6 ?s1 = Some s' \<and> can_inv {} s'"
      using k len False by (intro can_process_more_inv) (simp_all add: can_count_frame_def)
    with False Some show ?thesis
      by (simp add: can_process_begin_def can_count_frame_def)
  next
    case None
    obtain r pool where g: "csp_buffer_get CSP_CAN_MTU (can_pool s) = (r, pool)" by fastforce
    have ok: "pool_ok (can_pool s)" using inv by (simp add: can_inv_def)
    let ?s0 = "s\<lparr>can_pool := pool\<rparr>"
    show ?thesis
    proof (cases r)
      case None
      with g ok have "pool = can_pool s" by (auto dest: csp_buffer_get_None)
      then have "can_inv {} (csp_can_pbuf_free k (can_count_frame ?s0))"
        using inv k by (intro can_inv_free) simp_all
      with False None \<open>pb_packet _ = None\<close> g show ?thesis by (simp add: can_process_begin_def)
    next
      case (Some i)
      note get = csp_buffer_get_Some [OF ok g [unfolded Some]]
      have "pb_packet (can_pbufs s ! j) \<noteq> Some i" if "j < PBUF_ELEMENTS" for j
        using inv that get(1) by (auto simp: can_inv_def)
      then have "can_inv {} (set_pbuf k (?b ?s0 i) ?s0)" (is "can_inv {} ?s1")
        using inv k l get by (auto simp: can_inv_def nth_list_update)
      then have "\<exists>s'. can_process_more k f 6 ?s1 = Some s' \<and> can_inv {} s'"
        using k len False by (intro can_process_more_inv) simp_all
      with False Some \<open>pb_packet _ = None\<close> g show ?thesis by (simp add: can_process_begin_def)
    qed
  qed
qed

lemma csp_can_process_frame_inv:
  assumes inv: "can_inv {} s" and f: "frame_announces_mtu f"
  shows "\<exists>e s'. csp_can_process_frame now f s = Some (e, s') \<and> can_inv {} s'"
proof -
  let ?match = "\<lambda>b. pb_used b \<and> pb_cfpid b AND CFP_ID_CONN_MASK = fr_id f AND CFP_ID_CONN_MASK"
  have len: "length (can_pbufs s) = PBUF_ELEMENTS" using inv by (simp add: can_inv_def)
  have go: "\<exists>e s''. map_option (\<lambda>s. (CSP_ERR_NONE, s))
      (if CFP_TYPE (fr_id f) = CFP_BEGIN then can_process_begin k f t
       else if CFP_TYPE (fr_id f) = CFP_MORE then can_process_more k f 0 t
       else Some (csp_can_pbuf_free k t)) = Some (e, s'') \<and> can_inv {} s''"
    if "can_inv {k} t" "k < PBUF_ELEMENTS" "pb_used (can_pbufs t ! k)"
      "CFP_TYPE (fr_id f) = CFP_BEGIN \<or> can_inv {} t" for k t
  proof (cases "CFP_TYPE (fr_id f) = CFP_BEGIN")
    case True
    with can_process_begin_inv [OF that(1-3) f] show ?thesis by auto
  next
    case False
    with CFP_TYPE_cases [of "fr_id f"] that(4) can_process_more_inv [of t k 0 f] that(2,3) show ?thesis by auto
  qed
  show ?thesis
  proof (cases "find_index ?match (can_pbufs s)")
    case (Some k)
    let ?t = "set_pbuf k ((can_pbufs s ! k)\<lparr>pb_last_used := now\<rparr>) s"
    have k: "k < PBUF_ELEMENTS" "pb_used (can_pbufs s ! k)"
      using find_index_SomeD [OF Some] len by auto
    have "can_inv {} ?t"
      using inv k by (intro can_inv_set_pbuf) (auto simp: can_inv_def)
    then show ?thesis
      using go [of k ?t] k len Some can_inv_mono [of "{}" ?t "{k}"]
      by (auto simp: csp_can_process_frame_def csp_can_pbuf_find_def Let_def)
  next
    case None
    show ?thesis
    proof (cases "CFP_TYPE (fr_id f) = CFP_BEGIN")
      case begin_frame: True
      show ?thesis
      proof (cases "find_index (\<lambda>b. \<not> pb_used b) (can_pbufs s)")
        case (Some k)
        let ?t = "set_pbuf k ((can_pbufs s ! k)\<lparr>pb_used := True, pb_cfpid := fr_id f, pb_remain := 0, pb_last_used := now\<rparr>) s"
        have k: "k < PBUF_ELEMENTS" "\<not> pb_used (can_pbufs s ! k)"
          using find_index_SomeD [OF Some] len by auto
        then have "pb_packet (can_pbufs s ! k) = None"
          using inv by (cases "pb_packet (can_pbufs s ! k)") (auto simp: can_inv_def)
        then have "can_inv {k} ?t"
          using k can_inv_mono [OF inv, of "{k}"] by (intro can_inv_set_pbuf) simp_all
        then show ?thesis
          using go [of k ?t] k len Some None begin_frame
          by (auto simp: csp_can_process_frame_def csp_can_pbuf_find_def csp_can_pbuf_new_def Let_def)
      next
        case none: None
        with None inv begin_frame show ?thesis
          by (simp add: csp_can_process_frame_def csp_can_pbuf_find_def csp_can_pbuf_new_def Let_def)
      qed
    next
      case False
      with None inv show ?thesis
        by (simp add: csp_can_process_frame_def csp_can_pbuf_find_def Let_def)
    qed
  qed
qed

lemma csp_can_pbuf_cleanup_inv: "can_inv {} s \<Longrightarrow> can_inv {} (csp_can_pbuf_cleanup now s)"
proof -
  assume inv: "can_inv {} s"
  have "can_inv {} (fold (\<lambda>k s. if pb_used (can_pbufs s ! k) \<and> now - pb_last_used (can_pbufs s ! k) > PBUF_TIMEOUT_MS
                 then csp_can_pbuf_free k s else s) ks s)" if "set ks \<subseteq> {..<PBUF_ELEMENTS}" "can_inv {} s" for ks s
    using that
  proof (induction ks arbitrary: s)
    case (Cons k ks)
    have "can_inv {} (csp_can_pbuf_free k s)"
      using Cons.prems can_inv_mono [of "{}" s "{k}"] by (intro can_inv_free) simp_all
    with Cons show ?case by simp
  qed simp
  moreover have "set [0..<length (can_pbufs s)] \<subseteq> {..<PBUF_ELEMENTS}"
    using inv by (simp add: can_inv_def lessThan_atLeast0)
  ultimately show ?thesis using inv by (simp add: csp_can_pbuf_cleanup_def)
qed

definition can_fresh :: "csp_iface \<Rightarrow> buffer_pool \<Rightarrow> can_state" where
  "can_fresh iface pool = \<lparr>can_pbufs = csp_can_pbuf_init, can_iface = iface, can_pool = pool, can_delivered = []\<rparr>"

lemma can_fresh_inv:
  "pool_ok pool \<Longrightarrow> \<forall>i < pool_count pool. CSP_CAN_MTU \<le> pkt_cap (buf_packet pool i) \<Longrightarrow>
     can_inv {} (can_fresh iface pool)"
  by (simp add: can_inv_def can_fresh_def csp_can_pbuf_init_def pbuf_free_element_def)

section \<open>Properties\<close>


definition can_example_pool :: buffer_pool where
  "can_example_pool = \<lparr>pool_count = 1, pool_size = 270,
     pool_bufs = [\<lparr>skbf_refcount = 0, skbf_addr = 0, skbf_packet = empty_packet 256\<rparr>], pool_free = [0]\<rparr>"

definition can_example_iface :: csp_iface where
  "can_example_iface = \<lparr>if_name = ''CAN'', if_mtu = 256, if_split_horizon_off = False, if_tx = 0,
     if_rx = 0, if_tx_error = 0, if_rx_error = 0, if_drop = 0, if_autherr = 0, if_frame = 0,
     if_txbytes = 0, if_rxbytes = 0\<rparr>"

lemma can_example_pool_ok:
  "pool_ok can_example_pool" "\<forall>i < pool_count can_example_pool. CSP_CAN_MTU \<le> pkt_cap (buf_packet can_example_pool i)"
  by (auto simp: pool_ok_def can_example_pool_def CSP_CAN_MTU_def buf_packet_def empty_packet_def)


section \<open>Fragmentation and reassembly\<close>

definition frames_left :: "nat \<Rightarrow> nat \<Rightarrow> nat" where
  "frames_left len n = (len - n + 7) div 8"

function can_more_frames :: "u32 \<Rightarrow> u32 \<Rightarrow> u32 \<Rightarrow> u8 list \<Rightarrow> nat \<Rightarrow> can_frame list" where
  "can_more_frames src dest ident dat n =
     (if length dat \<le> n then []
      else let bytes = min 8 (length dat - n) in
        \<lparr>fr_id = cfp_frame_id src dest ident CFP_MORE (of_nat (frames_left (length dat) (n + bytes))),
         fr_data = take bytes (drop n dat)\<rparr> # can_more_frames src dest ident dat (n + bytes))"
  by pat_completeness auto
termination by (relation "measure (\<lambda>(_, _, _, dat, n). length dat - n)") auto

declare can_more_frames.simps [simp del]

lemma can_tx_more_frames:
  "can_tx_more (\<lambda>_. True) src dest ident dat n m sent = (True, sent @ can_more_frames src dest ident dat n)"
proof (induction src dest ident dat n arbitrary: m sent rule: can_more_frames.induct)
  case (1 src dest ident dat n)
  show ?case
  proof (cases "length dat \<le> n")
    case True then show ?thesis by (subst can_tx_more.simps, subst can_more_frames.simps) simp
  next
    case False
    define b where "b = min 8 (length dat - n)"
    define f where "f = \<lparr>fr_id = cfp_frame_id src dest ident CFP_MORE (of_nat (frames_left (length dat) (n + b))),
         fr_data = take b (drop n dat)\<rparr>"
    have b: "(if length dat - n \<ge> 8 then 8 else length dat - n) = b" by (simp add: b_def)
    have "can_tx_more (\<lambda>_. True) src dest ident dat n m sent =
        can_tx_more (\<lambda>_. True) src dest ident dat (n + b) (m + 1) (sent @ [f])"
      by (subst can_tx_more.simps) (simp only: False b Let_def if_False not_True_eq_False frames_left_def f_def diff_diff_left)
    also have "\<dots> = (True, (sent @ [f]) @ can_more_frames src dest ident dat (n + b))"
      by (rule 1 [OF False b_def])
    also have "can_more_frames src dest ident dat n = f # can_more_frames src dest ident dat (n + b)"
      using False by (subst can_more_frames.simps) (simp only: b_def f_def Let_def if_False)
    then have "(sent @ [f]) @ can_more_frames src dest ident dat (n + b) = sent @ can_more_frames src dest ident dat n"
      by simp
    finally show ?thesis .
  qed
qed

text \<open>An element in the middle of a packet: the data up to \<open>n\<close> has arrived.\<close>

definition can_receiving :: "nat \<Rightarrow> nat \<Rightarrow> u32 \<Rightarrow> csp_id \<Rightarrow> u8 list \<Rightarrow> nat \<Rightarrow> can_state \<Rightarrow> bool" where
  "can_receiving k i c w dat n s \<longleftrightarrow>
     k < length (can_pbufs s) \<and> pool_ok (can_pool s) \<and> i < pool_count (can_pool s) \<and>
     (let b = can_pbufs s ! k in pb_used b \<and> pb_cfpid b AND CFP_ID_CONN_MASK = c \<and> pb_packet b = Some i \<and>
        pb_id b = w \<and> unat (pb_length b) = length dat \<and> pb_rx b = take n dat \<and>
        pb_remain b = of_nat (frames_left (length dat) n)) \<and>
     (\<forall>j < length (can_pbufs s). j \<noteq> k \<longrightarrow> pb_used (can_pbufs s ! j) \<longrightarrow>
        pb_cfpid (can_pbufs s ! j) AND CFP_ID_CONN_MASK \<noteq> c)"

lemma can_receiving_find:
  assumes "can_receiving k i c w dat n s" "f AND CFP_ID_CONN_MASK = c"
  shows "find_index (\<lambda>b. pb_used b \<and> pb_cfpid b AND CFP_ID_CONN_MASK = f AND CFP_ID_CONN_MASK) (can_pbufs s) = Some k"
  using assms by (intro find_index_unique) (auto simp: can_receiving_def Let_def)

lemma can_process_more_found:
  assumes "can_receiving k i c w dat n s" "fr_id f AND CFP_ID_CONN_MASK = c" "CFP_TYPE (fr_id f) = CFP_MORE"
  shows "csp_can_process_frame now f s = map_option (\<lambda>s. (CSP_ERR_NONE, s))
     (can_process_more k f 0 (set_pbuf k ((can_pbufs s ! k)\<lparr>pb_last_used := now\<rparr>) s))"
  using can_receiving_find [OF assms(1,2)] assms(3)
  by (simp add: csp_can_process_frame_def csp_can_pbuf_find_def CFP_BEGIN_def CFP_MORE_def)

lemma remain_step:
  "n < len \<Longrightarrow> b = min 8 (len - n) \<Longrightarrow> frames_left len n = Suc (frames_left len (n + b))" for n len b :: nat
  unfolding frames_left_def diff_diff_left [symmetric]
  by (cases "len - n \<ge> 8") (auto simp: le_div_geq)

lemma can_remain_field:
  assumes "m < 256" shows "CFP_REMAIN (cfp_frame_id src dest ident t (of_nat m)) = of_nat m"
proof -
  have "take_bit 8 (of_nat m :: u32) = of_nat (take_bit 8 m)" by (simp add: of_nat_take_bit)
  also have "take_bit 8 m = m" using assms by (simp add: take_bit_nat_eq_self_iff)
  finally show ?thesis by (simp add: cfp_frame_id_fields)
qed

lemma can_process_more_step:
  assumes r: "can_receiving k i c w dat n s" and n: "n < length dat" "length dat \<le> 2000"
    and cap: "n + b \<le> pkt_cap (buf_packet (can_pool s) i)"
    and c: "cfp_frame_id src dest ident CFP_MORE m AND CFP_ID_CONN_MASK = c"
    and b: "b = min 8 (length dat - n)" and m: "m = of_nat (frames_left (length dat) (n + b))"
    and f: "f = \<lparr>fr_id = cfp_frame_id src dest ident CFP_MORE m, fr_data = take b (drop n dat)\<rparr>"
  shows "\<exists>s'. csp_can_process_frame now f s = Some (CSP_ERR_NONE, s') \<and>
     (if n + b < length dat then can_receiving k i c w dat (n + b) s' \<and> can_delivered s' = can_delivered s \<and>
        can_pool s' = can_pool s
      else can_delivered s' = can_delivered s @ [i] \<and> pkt_id (buf_packet (can_pool s') i) = w \<and>
        pkt_data (buf_packet (can_pool s') i) = dat)"
proof -
  have type: "CFP_TYPE (fr_id f) = CFP_MORE"
    by (simp add: f cfp_frame_id_fields CFP_MORE_def)
  let ?s = "set_pbuf k ((can_pbufs s ! k)\<lparr>pb_last_used := now\<rparr>) s"
  have k: "k < length (can_pbufs s)" using r by (simp add: can_receiving_def)
  have le: "frames_left (length dat) (n + b) < 256"
    using n(2) by (simp add: frames_left_def div_less_iff_less_mult)
  have rem: "CFP_REMAIN (fr_id f) = pb_remain (can_pbufs s ! k) - 1"
    using r remain_step [OF n(1) b] can_remain_field [OF le] f m by (simp add: can_receiving_def Let_def)
  have take: "take n dat @ take b (drop n dat) = take (n + b) dat"
    by (simp add: take_add)
  have lenb: "length (take b (drop n dat)) = b" using b by simp
  have nb: "n + b \<le> length dat" using b n by simp
  have "can_process_more k f 0 ?s =
    (let buf = (can_pbufs s ! k)\<lparr>pb_last_used := now, pb_remain := pb_remain (can_pbufs s ! k) - 1,
            pb_rx := take (n + b) dat\<rparr>;
         s2 = set_pbuf k buf s
     in if n + b < length dat then Some s2
        else Some (csp_can_pbuf_free k (set_pbuf k (buf\<lparr>pb_packet := None\<rparr>)
           (s2\<lparr>can_pool := set_packet i ((buf_packet (can_pool s) i)\<lparr>pkt_id := w, pkt_data := dat\<rparr>) (can_pool s),
               can_delivered := can_delivered s @ [i]\<rparr>))))"
    using r rem k nb lenb n take cap
    by (auto simp: can_process_more_def can_receiving_def Let_def f min_absorb1)
  then show ?thesis
    using can_process_more_found [OF r _ type] c f k r nb remain_step [OF n(1) b]
    by (auto simp: can_receiving_def Let_def nth_list_update csp_can_pbuf_free_def buf_packet_set_packet add.commute)
qed

lemma can_receiving_finish:
  "can_receiving k i c w dat n s \<Longrightarrow> n < length dat \<Longrightarrow> length dat \<le> 2000 \<Longrightarrow>
     length dat \<le> pkt_cap (buf_packet (can_pool s) i) \<Longrightarrow>
     \<forall>m. cfp_frame_id src dest ident CFP_MORE m AND CFP_ID_CONN_MASK = c \<Longrightarrow>
     \<exists>s'. csp_can_rx_task (map (\<lambda>f. (now, CanFrame f)) (can_more_frames src dest ident dat n)) s = Some s' \<and>
       can_delivered s' = can_delivered s @ [i] \<and> pkt_id (buf_packet (can_pool s') i) = w \<and>
       pkt_data (buf_packet (can_pool s') i) = dat"
proof (induction src dest ident dat n arbitrary: s rule: can_more_frames.induct)
  case (1 src dest ident dat n)
  define b where "b = min 8 (length dat - n)"
  define f where "f = \<lparr>fr_id = cfp_frame_id src dest ident CFP_MORE (of_nat (frames_left (length dat) (n + b))),
       fr_data = take b (drop n dat)\<rparr>"
  have frames: "can_more_frames src dest ident dat n = f # can_more_frames src dest ident dat (n + b)"
    using "1.prems"(2) by (subst can_more_frames.simps) (simp add: b_def f_def Let_def)
  have cap: "n + b \<le> pkt_cap (buf_packet (can_pool s) i)"
    using "1.prems"(2,4) by (simp add: b_def)
  obtain s1 where s1: "csp_can_process_frame now f s = Some (CSP_ERR_NONE, s1)"
    and more: "n + b < length dat \<Longrightarrow> can_receiving k i c w dat (n + b) s1 \<and> can_delivered s1 = can_delivered s \<and> can_pool s1 = can_pool s"
    and fin: "\<not> n + b < length dat \<Longrightarrow> can_delivered s1 = can_delivered s @ [i] \<and>
        pkt_id (buf_packet (can_pool s1) i) = w \<and> pkt_data (buf_packet (can_pool s1) i) = dat"
    using can_process_more_step [OF "1.prems"(1-3) cap _ b_def refl f_def, of now] "1.prems"(5)
    by (auto split: if_splits)
  show ?case
  proof (cases "n + b < length dat")
    case True
    with "1.IH" [OF _ b_def, of s1] more "1.prems"(2-5) frames s1 show ?thesis by auto
  next
    case False
    then have "can_more_frames src dest ident dat (n + b) = []"
      by (subst can_more_frames.simps) simp
    with False fin frames s1 show ?thesis by simp
  qed
qed

text \<open>The same frames into a buffer that is too small.\<close>

lemma can_process_more_overflow:
  assumes r: "can_receiving k i c w dat n s" and n: "n < length dat" "length dat \<le> 2000"
    and cap: "n + b > pkt_cap (buf_packet (can_pool s) i)"
    and c: "cfp_frame_id src dest ident CFP_MORE m AND CFP_ID_CONN_MASK = c"
    and b: "b = min 8 (length dat - n)" and m: "m = of_nat (frames_left (length dat) (n + b))"
    and f: "f = \<lparr>fr_id = cfp_frame_id src dest ident CFP_MORE m, fr_data = take b (drop n dat)\<rparr>"
  shows "csp_can_process_frame now f s = None"
proof -
  have type: "CFP_TYPE (fr_id f) = CFP_MORE"
    by (simp add: f cfp_frame_id_fields CFP_MORE_def)
  have le: "frames_left (length dat) (n + b) < 256"
    using n(2) by (simp add: frames_left_def div_less_iff_less_mult)
  have rem: "CFP_REMAIN (fr_id f) = pb_remain (can_pbufs s ! k) - 1"
    using r remain_step [OF n(1) b] can_remain_field [OF le] f m by (simp add: can_receiving_def Let_def)
  have lenb: "length (take b (drop n dat)) = b" and nb: "n + b \<le> length dat" using b n by simp_all
  have "can_process_more k f 0 (set_pbuf k ((can_pbufs s ! k)\<lparr>pb_last_used := now\<rparr>) s) = None"
    using r rem nb lenb n cap
    by (auto simp: can_process_more_def can_receiving_def Let_def f min_absorb1)
  then show ?thesis
    using can_process_more_found [OF r _ type, of now] c f by simp
qed

lemma can_receiving_overflow:
  "can_receiving k i c w dat n s \<Longrightarrow> n < length dat \<Longrightarrow> length dat \<le> 2000 \<Longrightarrow>
     pkt_cap (buf_packet (can_pool s) i) < length dat \<Longrightarrow>
     \<forall>m. cfp_frame_id src dest ident CFP_MORE m AND CFP_ID_CONN_MASK = c \<Longrightarrow>
     csp_can_rx_task (map (\<lambda>f. (now, CanFrame f)) (can_more_frames src dest ident dat n)) s = None"
proof (induction src dest ident dat n arbitrary: s rule: can_more_frames.induct)
  case (1 src dest ident dat n)
  define b where "b = min 8 (length dat - n)"
  define f where "f = \<lparr>fr_id = cfp_frame_id src dest ident CFP_MORE (of_nat (frames_left (length dat) (n + b))),
       fr_data = take b (drop n dat)\<rparr>"
  have frames: "can_more_frames src dest ident dat n = f # can_more_frames src dest ident dat (n + b)"
    using "1.prems"(2) by (subst can_more_frames.simps) (simp add: b_def f_def Let_def)
  show ?case
  proof (cases "n + b > pkt_cap (buf_packet (can_pool s) i)")
    case True
    with can_process_more_overflow [OF "1.prems"(1-3) _ _ b_def refl f_def, of now] "1.prems"(5) frames
    show ?thesis by simp
  next
    case False
    then have nb: "n + b < length dat" using "1.prems"(4) by simp
    obtain s1 where s1: "csp_can_process_frame now f s = Some (CSP_ERR_NONE, s1)"
      and more: "can_receiving k i c w dat (n + b) s1" "can_pool s1 = can_pool s"
      using can_process_more_step [OF "1.prems"(1-3) _ _ b_def refl f_def, of now] "1.prems"(5) False nb by auto
    have "\<not> length dat \<le> n" using "1.prems"(2) by simp
    from "1.IH" [OF this b_def more(1) nb] more "1.prems"(3-5) frames s1 show ?thesis by simp
  qed
qed

text \<open>A receiver that can take a packet from a sender it holds no fragment of.\<close>

definition can_ready :: "u32 \<Rightarrow> can_state \<Rightarrow> bool" where
  "can_ready c s \<longleftrightarrow> can_inv {} s \<and> (\<exists>b \<in> set (can_pbufs s). \<not> pb_used b) \<and>
     (\<forall>b \<in> set (can_pbufs s). pb_used b \<longrightarrow> pb_cfpid b AND CFP_ID_CONN_MASK \<noteq> c) \<and>
     pool_free (can_pool s) \<noteq> [] \<and> CSP_CAN_MTU + CSP_BUFFER_PACKET_OVERHEAD \<le> pool_size (can_pool s)"

lemma can_process_begin_step:
  assumes ready: "can_ready c s" and len: "length dat \<le> 2000"
    and c: "cfp_frame_id src dest ident CFP_BEGIN m AND CFP_ID_CONN_MASK = c"
    and m: "m = of_nat ((length dat + 5) div 8)"
    and f: "f = \<lparr>fr_id = cfp_frame_id src dest ident CFP_BEGIN m,
              fr_data = be32 w @ be16 (of_nat (length dat)) @ take 2 dat\<rparr>"
  shows "\<exists>s' i k. csp_can_process_frame now f s = Some (CSP_ERR_NONE, s') \<and>
     (if 2 < length dat then can_receiving k i c w dat 2 s' \<and> can_delivered s' = can_delivered s \<and>
        i < pool_count (can_pool s) \<and> buf_packet (can_pool s') i = buf_packet (can_pool s) i
      else can_delivered s' = can_delivered s @ [i] \<and> pkt_id (buf_packet (can_pool s') i) = w \<and>
        pkt_data (buf_packet (can_pool s') i) = dat)"
proof -
  have inv: "can_inv {} s" and lp: "length (can_pbufs s) = PBUF_ELEMENTS" and ok: "pool_ok (can_pool s)"
    using ready by (simp_all add: can_ready_def can_inv_def)
  have type: "CFP_TYPE (fr_id f) = CFP_BEGIN"
    by (simp add: f cfp_frame_id_fields CFP_BEGIN_def)
  have nomatch: "find_index (\<lambda>b. pb_used b \<and> pb_cfpid b AND CFP_ID_CONN_MASK = fr_id f AND CFP_ID_CONN_MASK) (can_pbufs s) = None"
    using ready c f by (auto simp: find_index_None_iff can_ready_def)
  obtain k where k: "find_index (\<lambda>b. \<not> pb_used b) (can_pbufs s) = Some k"
    using ready by (cases "find_index (\<lambda>b. \<not> pb_used b) (can_pbufs s)") (auto simp: find_index_None_iff can_ready_def)
  then have k': "k < length (can_pbufs s)" "\<not> pb_used (can_pbufs s ! k)" by (auto dest: find_index_SomeD)
  then have none: "pb_packet (can_pbufs s ! k) = None"
    using inv lp by (cases "pb_packet (can_pbufs s ! k)") (auto simp: can_inv_def)
  obtain r pool where g: "csp_buffer_get CSP_CAN_MTU (can_pool s) = (r, pool)" by fastforce
  have "r \<noteq> None"
    using g csp_buffer_get_None [OF ok, of CSP_CAN_MTU pool] ready
    by (cases r) (auto simp: can_ready_def CSP_BUFFER_PACKET_OVERHEAD_def)
  then obtain i where r: "r = Some i" by blast
  note get = csp_buffer_get_Some [OF ok g [unfolded r]]
  have cap: "CSP_CAN_MTU \<le> pkt_cap (buf_packet pool i)"
    using inv get by (simp add: can_inv_def)
  have id: "csp_ntoh32 (of_le32 (be32 w)) = w"
    by (metis csp_ntoh32_def csp_ntoh32_hton32 le32_csp_hton32 of_le32_le32)
  have ln: "csp_ntoh16 (of_le16 (be16 l)) = l" for l
    by (metis csp_ntoh16_def csp_ntoh16_hton16 le16_csp_hton16 of_le16_le16)
  have l: "unat (of_nat (length dat) :: u16) = length dat"
    using len by (simp add: unat_of_nat)
  have le: "(length dat + 5) div 8 < 256"
    using len by (simp add: div_less_iff_less_mult)
  have rem: "CFP_REMAIN (fr_id f) = of_nat ((length dat + 5) div 8)"
    using can_remain_field [OF le] f m by simp
  let ?b = "(can_pbufs s ! k)\<lparr>pb_used := True, pb_cfpid := fr_id f, pb_last_used := now, pb_packet := Some i,
      pb_id := w, pb_length := of_nat (length dat), pb_remain := of_nat ((length dat + 5) div 8), pb_rx := take 2 dat\<rparr>"
  have ev: "csp_can_process_frame now f s = Some (CSP_ERR_NONE,
     (if 2 < length dat then set_pbuf k ?b (s\<lparr>can_pool := pool\<rparr>)
      else csp_can_pbuf_free k (set_pbuf k (?b\<lparr>pb_packet := None\<rparr>)
        (s\<lparr>can_pool := set_packet i ((buf_packet pool i)\<lparr>pkt_id := w, pkt_data := dat\<rparr>) pool,
           can_delivered := can_delivered s @ [i]\<rparr>))))"
    using type nomatch k k' none g r l len cap rem id ln f
    by (auto simp: csp_can_process_frame_def csp_can_pbuf_find_def csp_can_pbuf_new_def can_process_begin_def
        can_process_more_def Let_def min_def CSP_CAN_MTU_def)
  show ?thesis
  proof (cases "2 < length dat")
    case True
    have fl: "frames_left (length dat) 2 = (length dat + 5) div 8"
      using True by (simp add: frames_left_def)
    have "can_receiving k i c w dat 2 (set_pbuf k ?b (s\<lparr>can_pool := pool\<rparr>))"
      using ready k' get len l c f fl
      by (auto simp: can_receiving_def Let_def can_ready_def nth_list_update)
    with ev True get show ?thesis
      by (intro exI [of _ "set_pbuf k ?b (s\<lparr>can_pool := pool\<rparr>)"] exI [of _ i] exI [of _ k]) simp
  next
    case False
    with ev get k' show ?thesis
      by (auto simp: csp_can_pbuf_free_def buf_packet_set_packet intro!: exI [of _ i])
  qed
qed

lemma csp_can_tx_frames:
  assumes "csp_can_tx (\<lambda>_. True) True can_id mac packet iface pool = (CSP_ERR_NONE, frames, can_id', iface', pool')"
  defines "p \<equiv> buf_packet pool packet"
  shows "\<exists>src dest ident.
     frames = \<lparr>fr_id = cfp_frame_id src dest ident CFP_BEGIN (of_nat ((pkt_length p + 5) div 8)),
       fr_data = be32 (pkt_id p) @ be16 (of_nat (pkt_length p)) @ take 2 (pkt_data p)\<rparr> #
       can_more_frames src dest ident (pkt_data p) (min 2 (pkt_length p))"
proof (intro exI)
  define src :: u32 where "src = ucast (id_src (pkt_id p))"
  define dest :: u32 where "dest = ucast (if mac = CSP_NODE_MAC then id_dst (pkt_id p) else mac)"
  define ident where "ident = can_id"
  show "frames = \<lparr>fr_id = cfp_frame_id src dest ident CFP_BEGIN (of_nat ((pkt_length p + 5) div 8)),
      fr_data = be32 (pkt_id p) @ be16 (of_nat (pkt_length p)) @ take 2 (pkt_data p)\<rparr> #
      can_more_frames src dest ident (pkt_data p) (min 2 (pkt_length p))"
    using assms(1)
    by (auto simp: csp_can_tx_def csp_can_id_get_def can_tx_more_frames Let_def p_def pkt_length_def min_def
        csp_err_defs src_def dest_def ident_def add.commute split: if_splits)
qed

text \<open>C26. A packet of up to 256 bytes sent over CAN arrives as it was: the frames of \<open>csp_can_tx\<close>, taken by
  the receive task of a node that holds no fragment of the same sender and number, end in exactly
  one packet for the router with the same identifier and data.\<close>

theorem csp_can_round_trip:
  assumes "csp_can_tx (\<lambda>_. True) True can_id mac packet iface tpool = (CSP_ERR_NONE, frames, can_id', iface', tpool')"
    and "pkt_length (buf_packet tpool packet) \<le> CSP_CAN_MTU"
    and "can_ready (fr_id (hd frames) AND CFP_ID_CONN_MASK) s"
  shows "\<exists>s' i. csp_can_rx_task (map (\<lambda>f. (now, CanFrame f)) frames) s = Some s' \<and>
     can_delivered s' = can_delivered s @ [i] \<and>
     pkt_id (buf_packet (can_pool s') i) = pkt_id (buf_packet tpool packet) \<and>
     pkt_data (buf_packet (can_pool s') i) = pkt_data (buf_packet tpool packet)"
proof -
  define dat where "dat = pkt_data (buf_packet tpool packet)"
  define w where "w = pkt_id (buf_packet tpool packet)"
  note p = dat_def [symmetric] w_def [symmetric] pkt_length_def
  have len: "length dat \<le> CSP_CAN_MTU" "length dat \<le> 2000" using assms(2) by (simp_all add: p CSP_CAN_MTU_def)
  obtain src dest ident where frames: "frames = \<lparr>fr_id = cfp_frame_id src dest ident CFP_BEGIN (of_nat ((length dat + 5) div 8)),
      fr_data = be32 w @ be16 (of_nat (length dat)) @ take 2 dat\<rparr> #
      can_more_frames src dest ident dat (min 2 (length dat))"
    using csp_can_tx_frames [OF assms(1)] by (auto simp: p)
  let ?c = "cfp_frame_id src dest ident CFP_BEGIN (of_nat ((length dat + 5) div 8)) AND CFP_ID_CONN_MASK"
  obtain s1 i k where s1: "csp_can_process_frame now (hd frames) s = Some (CSP_ERR_NONE, s1)"
    and more: "2 < length dat \<Longrightarrow> can_receiving k i ?c w dat 2 s1 \<and> can_delivered s1 = can_delivered s \<and>
        i < pool_count (can_pool s) \<and> buf_packet (can_pool s1) i = buf_packet (can_pool s) i"
    and fin: "\<not> 2 < length dat \<Longrightarrow> can_delivered s1 = can_delivered s @ [i] \<and>
        pkt_id (buf_packet (can_pool s1) i) = w \<and> pkt_data (buf_packet (can_pool s1) i) = dat"
    using can_process_begin_step [OF _ len(2) refl refl refl, where src = src and dest = dest and ident = ident
        and s = s and w = w and now = now] assms(3) frames
    by (auto split: if_splits)
  show ?thesis
  proof (cases "2 < length dat")
    case True
    have "\<forall>m. cfp_frame_id src dest ident CFP_MORE m AND CFP_ID_CONN_MASK = ?c"
      by (metis cfp_frame_id_conn)
    moreover have "length dat \<le> pkt_cap (buf_packet (can_pool s1) i)"
      using more [OF True] assms(3) len(1) by (auto simp: can_ready_def can_inv_def)
    ultimately show ?thesis
      using can_receiving_finish [of k i ?c w dat 2 s1 src dest ident now] more True len frames s1 by (auto simp: p)
  next
    case False
    then have "can_more_frames src dest ident dat (min 2 (length dat)) = []"
      by (subst can_more_frames.simps) simp
    with False fin frames s1 show ?thesis by (auto simp: p)
  qed
qed

text \<open>Nothing compares the length a BEGIN frame announces with the size of the buffer: when a node
  sends a longer packet, frame by frame as \<open>csp_can_tx\<close> does, a receiver whose buffers hold less copies
  behind the end of the packet's buffer.\<close>

theorem csp_can_announced_length_overflows:
  assumes "csp_can_tx (\<lambda>_. True) True can_id mac packet iface tpool = (CSP_ERR_NONE, frames, can_id', iface', tpool')"
    and "can_ready (fr_id (hd frames) AND CFP_ID_CONN_MASK) s"
    and "\<forall>i < pool_count (can_pool s). pkt_cap (buf_packet (can_pool s) i) < pkt_length (buf_packet tpool packet)"
    and "pkt_length (buf_packet tpool packet) \<le> 2000"
  shows "csp_can_rx_task (map (\<lambda>f. (now, CanFrame f)) frames) s = None"
proof -
  define dat where "dat = pkt_data (buf_packet tpool packet)"
  define w where "w = pkt_id (buf_packet tpool packet)"
  note p = dat_def [symmetric] w_def [symmetric] pkt_length_def
  have len: "length dat \<le> 2000" using assms(4) by (simp add: p)
  obtain src dest ident where frames: "frames = \<lparr>fr_id = cfp_frame_id src dest ident CFP_BEGIN (of_nat ((length dat + 5) div 8)),
      fr_data = be32 w @ be16 (of_nat (length dat)) @ take 2 dat\<rparr> #
      can_more_frames src dest ident dat (min 2 (length dat))"
    using csp_can_tx_frames [OF assms(1)] by (auto simp: p)
  let ?c = "cfp_frame_id src dest ident CFP_BEGIN (of_nat ((length dat + 5) div 8)) AND CFP_ID_CONN_MASK"
  have "pool_free (can_pool s) \<noteq> []" "pool_ok (can_pool s)"
    using assms(2) by (simp_all add: can_ready_def can_inv_def)
  then obtain i0 where "i0 < pool_count (can_pool s)"
    by (cases "pool_free (can_pool s)") (auto simp: pool_ok_def set_eq_iff)
  moreover have "\<forall>i < pool_count (can_pool s). 256 \<le> pkt_cap (buf_packet (can_pool s) i)"
    using assms(2) by (simp add: can_ready_def can_inv_def CSP_CAN_MTU_def)
  ultimately have big: "2 < length dat"
    using assms(3) by (force simp: p)
  obtain s1 i k where s1: "csp_can_process_frame now (hd frames) s = Some (CSP_ERR_NONE, s1)"
    and more: "can_receiving k i ?c w dat 2 s1" "i < pool_count (can_pool s)"
      "buf_packet (can_pool s1) i = buf_packet (can_pool s) i"
    using can_process_begin_step [OF _ len refl refl refl, where src = src and dest = dest and ident = ident
        and s = s and w = w and now = now] assms(2) frames big
    by auto
  have "\<forall>m. cfp_frame_id src dest ident CFP_MORE m AND CFP_ID_CONN_MASK = ?c"
    by (metis cfp_frame_id_conn)
  with can_receiving_overflow [of k i ?c w dat 2 s1 src dest ident now] more big len frames s1 assms(3)
  show ?thesis by (auto simp: p)
qed

definition can_example_tx :: "u8 list \<Rightarrow> int \<times> can_frame list \<times> u32 \<times> csp_iface \<times> buffer_pool" where
  "can_example_tx dat = csp_can_tx (\<lambda>_. True) True 3 255 0 can_example_iface
     (can_example_pool\<lparr>pool_bufs := [\<lparr>skbf_refcount = 1, skbf_addr = 0, skbf_packet =
        (empty_packet 2000)\<lparr>pkt_id := 7, pkt_data := dat\<rparr>\<rparr>], pool_free := []\<rparr>)"

lemma can_example_tx_result:
  "\<exists>frames iface' pool'. can_example_tx dat = (CSP_ERR_NONE, frames, 4, iface', pool')"
proof -
  have "(3 :: u32) AND (push_bit 10 1 - 1) = 3" "(4 :: u32) AND (push_bit 10 1 - 1) = 4"
    by (simp_all add: push_bit_eq_mult)
  then show ?thesis
    by (simp add: can_example_tx_def csp_can_tx_def csp_can_id_get_def can_tx_more_frames Let_def)
qed

lemma can_example_ready: "can_ready c (can_fresh can_example_iface can_example_pool)"
  using can_fresh_inv [OF can_example_pool_ok]
  by (auto simp: can_ready_def can_fresh_def csp_can_pbuf_init_def pbuf_free_element_def PBUF_ELEMENTS_def
      can_example_pool_def CSP_CAN_MTU_def CSP_BUFFER_PACKET_OVERHEAD_def)

lemma csp_can_round_trip_witness:
  "\<exists>frames s'. fst (snd (can_example_tx [1, 2, 3, 4, 5])) = frames \<and>
     csp_can_rx_task (map (\<lambda>f. (0, CanFrame f)) frames) (can_fresh can_example_iface can_example_pool) = Some s' \<and>
     length (can_delivered s') = 1"
proof -
  obtain frames iface' pool' where tx: "can_example_tx [1, 2, 3, 4, 5] = (CSP_ERR_NONE, frames, 4, iface', pool')"
    using can_example_tx_result by blast
  from csp_can_round_trip [OF tx [unfolded can_example_tx_def] _ can_example_ready, of 0] tx show ?thesis
    by (auto simp: buf_packet_def pkt_length_def CSP_CAN_MTU_def can_example_pool_def can_fresh_def)
qed

lemma csp_can_announced_length_overflows_witness:
  "csp_can_rx_task (map (\<lambda>f. (0, CanFrame f)) (fst (snd (can_example_tx (replicate 300 0)))))
     (can_fresh can_example_iface can_example_pool) = None"
proof -
  obtain frames iface' pool' where tx: "can_example_tx (replicate 300 0) = (CSP_ERR_NONE, frames, 4, iface', pool')"
    using can_example_tx_result by blast
  from csp_can_announced_length_overflows [OF tx [unfolded can_example_tx_def] can_example_ready, of 0] tx show ?thesis
    by (simp add: buf_packet_def pkt_length_def can_example_pool_def can_fresh_def empty_packet_def)
qed

end
