(* ===== verification/PthreadQueue.thy ===== *)
theory PthreadQueue
  imports CspTypes
begin

text \<open>
  The bounded queue every task of the protocol library communicates through
  (\<open>libcsp/source/arch/posix/pthread_queue.c\<close> and its wrapper \<open>csp_queue.c\<close>): a ring buffer
  under a mutex.  \<open>csp_fifo\<close> is its contract, which the ring buffer implements; the components
  above keep the contents of a queue as a list under the same bound.
\<close>

section \<open>The contract of a bounded queue\<close>

locale csp_fifo =
  fixes contents :: "'q \<Rightarrow> 'a list"
    and capacity :: "'q \<Rightarrow> nat"
    and valid :: "'q \<Rightarrow> bool"
    and enq :: "'q \<Rightarrow> 'a \<Rightarrow> bool \<times> 'q"
    and deq :: "'q \<Rightarrow> 'a option \<times> 'q"
  assumes enq_valid: "valid q \<Longrightarrow> valid (snd (enq q v))"
    and enq_capacity: "valid q \<Longrightarrow> capacity (snd (enq q v)) = capacity q"
    and enq_room: "valid q \<Longrightarrow> length (contents q) < capacity q \<Longrightarrow>
          fst (enq q v) \<and> contents (snd (enq q v)) = contents q @ [v]"
    and enq_full: "valid q \<Longrightarrow> \<not> length (contents q) < capacity q \<Longrightarrow> enq q v = (False, q)"
    and deq_valid: "valid q \<Longrightarrow> valid (snd (deq q))"
    and deq_capacity: "valid q \<Longrightarrow> capacity (snd (deq q)) = capacity q"
    and deq_empty: "valid q \<Longrightarrow> contents q = [] \<Longrightarrow> deq q = (None, q)"
    and deq_front: "valid q \<Longrightarrow> contents q = x # xs \<Longrightarrow> fst (deq q) = Some x \<and> contents (snd (deq q)) = xs"
begin

definition enq_all :: "'q \<Rightarrow> 'a list \<Rightarrow> 'q" where
  "enq_all q vs = foldl (\<lambda>q v. snd (enq q v)) q vs"

fun deq_all :: "nat \<Rightarrow> 'q \<Rightarrow> 'a list \<times> 'q" where
  "deq_all 0 q = ([], q)"
| "deq_all (Suc n) q =
     (case deq q of (None, q') \<Rightarrow> ([], q')
      | (Some x, q') \<Rightarrow> (case deq_all n q' of (xs, q'') \<Rightarrow> (x # xs, q'')))"

lemma enq_all_props:
  "valid q \<Longrightarrow> length (contents q) + length vs \<le> capacity q \<Longrightarrow>
     valid (enq_all q vs) \<and> capacity (enq_all q vs) = capacity q \<and>
     contents (enq_all q vs) = contents q @ vs"
proof (induction vs arbitrary: q)
  case (Cons v vs)
  have "contents (snd (enq q v)) = contents q @ [v]" "valid (snd (enq q v))"
    "capacity (snd (enq q v)) = capacity q"
    using Cons.prems enq_room [of q v] enq_valid [of q v] enq_capacity [of q v] by auto
  with Cons.IH [of "snd (enq q v)"] Cons.prems show ?case
    by (simp add: enq_all_def)
qed (simp add: enq_all_def)

lemma deq_all_props:
  "valid q \<Longrightarrow> length (contents q) \<le> n \<Longrightarrow>
     fst (deq_all n q) = contents q \<and> contents (snd (deq_all n q)) = [] \<and> valid (snd (deq_all n q))"
proof (induction n arbitrary: q)
  case (Suc n)
  show ?case
  proof (cases "contents q")
    case Nil with Suc.prems show ?thesis by (simp add: deq_empty)
  next
    case (Cons x xs)
    then have d: "fst (deq q) = Some x" "contents (snd (deq q)) = xs" "valid (snd (deq q))"
      using Suc.prems deq_front [of q x xs] deq_valid [of q] by auto
    then obtain q' where q': "deq q = (Some x, q')" by (cases "deq q") auto
    with Suc.IH [of q'] Suc.prems Cons d show ?thesis by (auto split: prod.splits)
  qed
qed auto

lemma first_in_first_out:
  assumes "valid q" "contents q = []" "length vs \<le> capacity q"
  shows "fst (deq_all (length vs) (enq_all q vs)) = vs"
  using enq_all_props [of q vs] deq_all_props [of "enq_all q vs" "length vs"] assms by simp

end

section \<open>The ring buffer\<close>

record 'a pthread_queue =
  q_buffer :: "'a list"
  q_size :: nat
  q_items :: nat
  q_in :: nat
  q_out :: nat

definition CSP_QUEUE_ERROR :: int where "CSP_QUEUE_ERROR = 0"
definition CSP_QUEUE_OK :: int where "CSP_QUEUE_OK = 1"

text \<open>\<open>pthread_queue_create\<close>: the allocations are the argument \<open>mem\<close> (the buffer's memory, if
  any); \<open>ok\<close> says whether the mutex and the condition variables could be initialised.\<close>

definition pthread_queue_create :: "'a list option \<Rightarrow> bool \<Rightarrow> nat \<Rightarrow> 'a pthread_queue option" where
  "pthread_queue_create mem ok len =
     (case mem of None \<Rightarrow> None
      | Some b \<Rightarrow>
          if \<not> ok then None
          else Some \<lparr>q_buffer = b, q_size = len, q_items = 0, q_in = 0, q_out = 0\<rparr>)"

text \<open>The deadline of a blocking call, from the clock and the timeout in milliseconds.\<close>

definition queue_deadline :: "nat \<Rightarrow> nat \<Rightarrow> u32 \<Rightarrow> nat \<times> nat" where
  "queue_deadline tv_sec tv_nsec timeout =
     (let sec = unat (timeout div 1000);
          nsec = unat ((timeout - 1000 * (timeout div 1000)) * 1000000);
          s = tv_sec + sec;
          s = (if tv_nsec + nsec > 1000000000 then s + 1 else s)
      in (s, (tv_nsec + nsec) mod 1000000000))"

text \<open>A call waits on the condition variable while the queue is full (or empty).  The list
  \<open>wakes\<close> holds, for each time the wait returns before the deadline, the queue as the other
  tasks left it; when it is exhausted the wait times out.\<close>

definition queue_put :: "'a pthread_queue \<Rightarrow> 'a \<Rightarrow> int \<times> 'a pthread_queue" where
  "queue_put q v = (CSP_QUEUE_OK,
     q\<lparr>q_buffer := (q_buffer q)[q_in q := v], q_items := q_items q + 1,
       q_in := (q_in q + 1) mod q_size q\<rparr>)"

fun pthread_queue_enqueue :: "'a pthread_queue \<Rightarrow> 'a \<Rightarrow> 'a pthread_queue list \<Rightarrow> int \<times> 'a pthread_queue" where
  "pthread_queue_enqueue q v [] =
     (if q_items q = q_size q then (CSP_QUEUE_ERROR, q) else queue_put q v)"
| "pthread_queue_enqueue q v (q' # wakes) =
     (if q_items q = q_size q then pthread_queue_enqueue q' v wakes else queue_put q v)"

definition queue_take :: "'a pthread_queue \<Rightarrow> int \<times> 'a option \<times> 'a pthread_queue" where
  "queue_take q = (CSP_QUEUE_OK, Some (q_buffer q ! q_out q),
     q\<lparr>q_items := q_items q - 1, q_out := (q_out q + 1) mod q_size q\<rparr>)"

fun pthread_queue_dequeue :: "'a pthread_queue \<Rightarrow> 'a pthread_queue list \<Rightarrow> int \<times> 'a option \<times> 'a pthread_queue" where
  "pthread_queue_dequeue q [] =
     (if q_items q = 0 then (CSP_QUEUE_ERROR, None, q) else queue_take q)"
| "pthread_queue_dequeue q (q' # wakes) =
     (if q_items q = 0 then pthread_queue_dequeue q' wakes else queue_take q)"

definition pthread_queue_items :: "'a pthread_queue \<Rightarrow> nat" where
  "pthread_queue_items q = q_items q"

text \<open>The wrapper of \<open>csp_queue.c\<close>; the variants for interrupts do not wait.\<close>

definition csp_queue_enqueue :: "'a pthread_queue \<Rightarrow> 'a \<Rightarrow> 'a pthread_queue list \<Rightarrow> int \<times> 'a pthread_queue" where
  "csp_queue_enqueue h v wakes = pthread_queue_enqueue h v wakes"

definition csp_queue_enqueue_isr :: "'a pthread_queue \<Rightarrow> 'a \<Rightarrow> int \<times> 'a pthread_queue" where
  "csp_queue_enqueue_isr h v = csp_queue_enqueue h v []"

definition csp_queue_dequeue :: "'a pthread_queue \<Rightarrow> 'a pthread_queue list \<Rightarrow> int \<times> 'a option \<times> 'a pthread_queue" where
  "csp_queue_dequeue h wakes = pthread_queue_dequeue h wakes"

definition csp_queue_dequeue_isr :: "'a pthread_queue \<Rightarrow> int \<times> 'a option \<times> 'a pthread_queue" where
  "csp_queue_dequeue_isr h = csp_queue_dequeue h []"

definition csp_queue_size :: "'a pthread_queue \<Rightarrow> nat" where
  "csp_queue_size h = pthread_queue_items h"

section \<open>The ring buffer implements the contract\<close>

definition queue_ok :: "'a pthread_queue \<Rightarrow> bool" where
  "queue_ok q \<longleftrightarrow> 0 < q_size q \<and> length (q_buffer q) = q_size q \<and> q_items q \<le> q_size q \<and>
     q_out q < q_size q \<and> q_in q = (q_out q + q_items q) mod q_size q"

definition queue_contents :: "'a pthread_queue \<Rightarrow> 'a list" where
  "queue_contents q = map (\<lambda>k. q_buffer q ! ((q_out q + k) mod q_size q)) [0..<q_items q]"

definition queue_enq :: "'a pthread_queue \<Rightarrow> 'a \<Rightarrow> bool \<times> 'a pthread_queue" where
  "queue_enq q v = (case csp_queue_enqueue_isr q v of (r, q') \<Rightarrow> (r = CSP_QUEUE_OK, q'))"

definition queue_deq :: "'a pthread_queue \<Rightarrow> 'a option \<times> 'a pthread_queue" where
  "queue_deq q = snd (csp_queue_dequeue_isr q)"

lemmas queue_defs = csp_queue_enqueue_isr_def csp_queue_enqueue_def csp_queue_dequeue_isr_def
  csp_queue_dequeue_def queue_enq_def queue_deq_def CSP_QUEUE_OK_def CSP_QUEUE_ERROR_def

lemma length_queue_contents [simp]: "length (queue_contents q) = q_items q"
  by (simp add: queue_contents_def)

lemma ring_index_neq:
  assumes "k < items" "items < (n::nat)"
  shows "(out + items) mod n \<noteq> (out + k) mod n"
proof
  assume "(out + items) mod n = (out + k) mod n"
  with assms have "n dvd items - k"
    using mod_eq_dvd_iff_nat [of "out + k" "out + items" n] by simp
  with assms show False
    using dvd_imp_le [of n "items - k"] by linarith
qed

lemma queue_put_ok:
  assumes "queue_ok q" "q_items q < q_size q"
  shows "queue_ok (snd (queue_put q v))" "queue_contents (snd (queue_put q v)) = queue_contents q @ [v]"
proof -
  show "queue_ok (snd (queue_put q v))"
    using assms by (simp add: queue_ok_def queue_put_def mod_Suc_eq)
  show "queue_contents (snd (queue_put q v)) = queue_contents q @ [v]"
    using assms by (auto simp: queue_ok_def queue_put_def queue_contents_def nth_list_update
        dest: ring_index_neq)
qed

lemma queue_take_ok:
  assumes "queue_ok q" "q_items q \<noteq> 0"
  shows "queue_ok (snd (snd (queue_take q)))"
    "queue_contents q = q_buffer q ! q_out q # queue_contents (snd (snd (queue_take q)))"
proof -
  from assms obtain n where n: "q_items q = Suc n" by (cases "q_items q") auto
  show "queue_ok (snd (snd (queue_take q)))"
    using assms n by (simp add: queue_ok_def queue_take_def mod_simps)
  show "queue_contents q = q_buffer q ! q_out q # queue_contents (snd (snd (queue_take q)))"
    using assms n by (simp add: queue_ok_def queue_take_def queue_contents_def upt_conv_Cons map_Suc_upt [symmetric] mod_simps
        del: upt_Suc)
qed

interpretation csp_queue: csp_fifo queue_contents q_size queue_ok queue_enq queue_deq
proof
  fix q :: "'a pthread_queue" and v x xs
  assume ok: "queue_ok q"
  show "queue_ok (snd (queue_enq q v))" "q_size (snd (queue_enq q v)) = q_size q"
    using ok queue_put_ok(1) [of q v]
    by (auto simp: queue_defs queue_put_def queue_ok_def)
  show "length (queue_contents q) < q_size q \<Longrightarrow>
      fst (queue_enq q v) \<and> queue_contents (snd (queue_enq q v)) = queue_contents q @ [v]"
    using ok queue_put_ok(2) [of q v] by (simp add: queue_defs queue_put_def)
  show "\<not> length (queue_contents q) < q_size q \<Longrightarrow> queue_enq q v = (False, q)"
    using ok by (simp add: queue_defs queue_ok_def)
  show "queue_ok (snd (queue_deq q))" "q_size (snd (queue_deq q)) = q_size q"
    using ok queue_take_ok(1) [of q] by (auto simp: queue_defs queue_take_def)
  show "queue_contents q = [] \<Longrightarrow> queue_deq q = (None, q)"
    using length_queue_contents [of q] by (simp add: queue_defs del: length_queue_contents)
  show "queue_contents q = x # xs \<Longrightarrow> fst (queue_deq q) = Some x \<and> queue_contents (snd (queue_deq q)) = xs"
    using ok queue_take_ok(2) [of q] length_queue_contents [of q]
    by (cases "q_items q = 0") (auto simp: queue_defs queue_take_def)
qed

lemma pthread_queue_create_ok:
  "0 < len \<Longrightarrow> length b = len \<Longrightarrow> pthread_queue_create (Some b) True len = Some q \<Longrightarrow>
     queue_ok q \<and> queue_contents q = [] \<and> q_size q = len"
  by (auto simp: pthread_queue_create_def queue_ok_def queue_contents_def)

section \<open>Properties\<close>



text \<open>Whatever is put into a new queue of the library, up to its length, comes out in the same
  order.\<close>

theorem csp_queue_first_in_first_out:
  assumes "pthread_queue_create (Some b) True len = Some q" and "length b = len" and "0 < len"
    and "length vs \<le> len"
  shows "fst (csp_queue.deq_all (length vs) (csp_queue.enq_all q vs)) = vs"
proof -
  have "queue_ok q \<and> queue_contents q = [] \<and> q_size q = len"
    using assms pthread_queue_create_ok [of len b q] by simp
  with assms(4) show ?thesis by (simp add: csp_queue.first_in_first_out)
qed

lemma csp_queue_first_in_first_out_witness:
  "\<exists>q. pthread_queue_create (Some [0, 0 :: nat]) True 2 = Some q \<and>
     fst (csp_queue.deq_all 2 (csp_queue.enq_all q [5, 6])) = [5, 6]"
proof -
  obtain q where q: "pthread_queue_create (Some [0, 0 :: nat]) True 2 = Some q"
    by (simp add: pthread_queue_create_def)
  have "fst (csp_queue.deq_all (length [5, 6 :: nat]) (csp_queue.enq_all q [5, 6])) = [5, 6]"
    by (rule csp_queue_first_in_first_out [OF q]) simp_all
  with q show ?thesis by (simp add: numeral_2_eq_2)
qed

text \<open>The deadline of a blocking queue operation is the current time plus the timeout, with one
  exception: when the nanoseconds add up to exactly one second, the carry is lost
  (the comparison is \<open>>\<close> instead of \<open>>=\<close>) and the deadline is one second early.\<close>

theorem queue_deadline_exact:
  assumes "tv_nsec < 1000000000"
    and "nsec = tv_nsec + (unat timeout mod 1000) * 1000000"
    and "queue_deadline tv_sec tv_nsec timeout = (s, n)"
  shows "n < 1000000000 \<and>
    s * 1000000000 + n + (if nsec = 1000000000 then 1000000000 else 0) =
      tv_sec * 1000000000 + tv_nsec + unat timeout * 1000000"
proof -
  let ?t = "unat timeout"
  have t: "timeout - 1000 * (timeout div 1000) = timeout mod 1000"
    by (simp add: minus_mult_div_eq_mod)
  have m: "unat (timeout mod 1000) = ?t mod 1000" by (simp add: unat_mod)
  have "unat ((timeout mod 1000) * 1000000) = (?t mod 1000) * 1000000"
  proof (subst unat_mult_lem [THEN iffD1])
    show "unat (timeout mod 1000) * unat (1000000 :: u32) < 2 ^ LENGTH(32)"
      using mod_less_divisor [of 1000 ?t] by (simp add: m)
  qed (simp add: m)
  then have n: "nsec = tv_nsec + unat ((timeout - 1000 * (timeout div 1000)) * 1000000)"
    using assms(2) by (simp add: t)
  have d: "unat (timeout div 1000) = ?t div 1000" by (simp add: unat_div)
  have "?t mod 1000 \<le> 999" by simp
  then have less: "nsec < 2 * 1000000000" using assms(1,2) by linarith
  have eq: "s = tv_sec + ?t div 1000 + (if nsec > 1000000000 then 1 else 0)" "n = nsec mod 1000000000"
    using assms(3) by (auto simp: queue_deadline_def Let_def n d)
  have q: "nsec mod 1000000000 = (if nsec < 1000000000 then nsec else nsec - 1000000000)"
    using less by (simp add: le_mod_geq)
  have "?t * 1000000 = (?t div 1000) * 1000000000 + (?t mod 1000) * 1000000"
    using div_mult_mod_eq [of ?t 1000] by linarith
  then show ?thesis
  proof (intro conjI)
    show "n < 1000000000" by (simp add: eq)
  qed (use assms(1,2) less eq q in \<open>auto split: if_splits\<close>)
qed

lemma queue_deadline_exact_witness: "queue_deadline 5 400000000 600 = (5, 0)"
proof -
  obtain s n where d: "queue_deadline 5 400000000 600 = (s, n)" by fastforce
  have "n < 1000000000 \<and> s * 1000000000 + n + (if (1000000000::nat) = 1000000000 then 1000000000 else 0) =
      5 * 1000000000 + 400000000 + unat (600 :: u32) * 1000000"
    by (rule queue_deadline_exact [OF _ _ d]) simp_all
  then have *: "n < 1000000000" "s * 1000000000 + n = 5000000000" by simp_all
  from * have "s \<le> 5" by linarith
  moreover from * have "5 \<le> s" by linarith
  ultimately have "s = 5" by (rule order.antisym)
  with * have "s = 5 \<and> n = 0" by simp
  with d show ?thesis by simp
qed

end
