(* ===== verification/KBuffer.thy ===== *)
theory KBuffer
  imports CspBuffer
begin

text \<open>
  The message buffers of the Kubos core (\<open>kubos-core/source/k_buffer.c\<close>) over their two allocators
  (\<open>k_alloc_malloc.c\<close>, \<open>k_alloc_csp.c\<close>).  The memory is a map from addresses to blocks; the blocks
  of the C library and those of the packet buffers of CSP have addresses of their own.  A byte is
  \<open>None\<close> until it is written.  An access to memory that is not in use or too small, and every free
  of it, is undefined: the outer result is \<open>None\<close>.

  What the C library decides is in a \<open>k_env\<close>: whether the \<open>n\<close>-th request succeeds, and whether the
  \<open>n\<close>-th one moves the block it enlarges.  Addresses are not used again, so that an access to freed
  memory is always found.
\<close>

section \<open>Memory\<close>

datatype k_addr = Heap nat | Pool nat

record k_buffer =
  kb_next :: "k_addr option"
  kb_size :: nat
  kb_data :: "k_addr option"

datatype k_cell = KStruct k_buffer | KBytes "u8 option list"

record k_env =
  malloc_ok :: "nat \<Rightarrow> bool"
  realloc_moves :: "nat \<Rightarrow> bool"

record k_heap =
  kh_cells :: "k_addr \<Rightarrow> k_cell option"
  kh_next :: nat
  kh_pool :: buffer_pool

definition sizeof_k_buffer :: nat where "sizeof_k_buffer = 24"

definition set_cell :: "k_addr \<Rightarrow> k_cell option \<Rightarrow> k_heap \<Rightarrow> k_heap" where
  "set_cell a c h = h\<lparr>kh_cells := (kh_cells h)(a := c)\<rparr>"

definition k_write :: "k_addr \<Rightarrow> nat \<Rightarrow> u8 list \<Rightarrow> k_heap \<Rightarrow> k_heap option" where
  "k_write a off bs h =
     (case kh_cells h a of
        Some (KBytes m) \<Rightarrow>
          if off + length bs \<le> length m
          then Some (set_cell a (Some (KBytes (take off m @ map Some bs @ drop (off + length bs) m))) h) else None
      | _ \<Rightarrow> None)"

text \<open>Reading needs memory that was written before.\<close>

definition k_read :: "k_addr \<Rightarrow> nat \<Rightarrow> k_heap \<Rightarrow> u8 list option" where
  "k_read a n h =
     (case kh_cells h a of
        Some (KBytes m) \<Rightarrow> if n \<le> length m \<and> None \<notin> set (take n m) then Some (map the (take n m)) else None
      | _ \<Rightarrow> None)"

definition k_struct :: "k_addr \<Rightarrow> k_heap \<Rightarrow> k_buffer option" where
  "k_struct a h = (case kh_cells h a of Some (KStruct b) \<Rightarrow> Some b | _ \<Rightarrow> None)"

section \<open>The allocators\<close>

record k_alloc =
  ka_new :: "nat \<Rightarrow> k_heap \<Rightarrow> k_addr option \<times> k_heap"
  ka_realloc :: "k_addr option \<Rightarrow> nat \<Rightarrow> nat \<Rightarrow> k_heap \<Rightarrow> (k_addr option \<times> k_heap) option"
  ka_free :: "k_addr option \<Rightarrow> k_heap \<Rightarrow> k_heap option"

definition malloc_new :: "k_env \<Rightarrow> nat \<Rightarrow> k_heap \<Rightarrow> k_addr option \<times> k_heap" where
  "malloc_new env n h =
     (let a = Heap (kh_next h); ok = malloc_ok env (kh_next h); h = h\<lparr>kh_next := kh_next h + 1\<rparr>
      in if ok then (Some a, set_cell a (Some (KBytes (replicate n None))) h) else (None, h))"

definition malloc_free :: "k_addr option \<Rightarrow> k_heap \<Rightarrow> k_heap option" where
  "malloc_free ptr h =
     (case ptr of
        None \<Rightarrow> Some h
      | Some (Pool _) \<Rightarrow> None
      | Some a \<Rightarrow> if kh_cells h a = None then None else Some (set_cell a None h))"

definition malloc_realloc :: "k_env \<Rightarrow> k_addr option \<Rightarrow> nat \<Rightarrow> nat \<Rightarrow> k_heap \<Rightarrow> (k_addr option \<times> k_heap) option" where
  "malloc_realloc env buff old_size new_size h =
     (case buff of
        None \<Rightarrow> Some (malloc_new env new_size h)
      | Some a \<Rightarrow>
          (case (a, kh_cells h a) of
             (Heap _, Some (KBytes m)) \<Rightarrow>
               (let n = kh_next h; m' = take new_size m @ replicate (new_size - length m) None; h = h\<lparr>kh_next := n + 1\<rparr>
                in if \<not> malloc_ok env n then Some (None, h)
                   else if realloc_moves env n
                   then Some (Some (Heap n), set_cell (Heap n) (Some (KBytes m')) (set_cell a None h))
                   else Some (Some a, set_cell a (Some (KBytes m')) h))
           | _ \<Rightarrow> None))"

definition malloc_alloc :: "k_env \<Rightarrow> k_alloc" where
  "malloc_alloc env = \<lparr>ka_new = malloc_new env, ka_realloc = malloc_realloc env, ka_free = malloc_free\<rparr>"

text \<open>A packet buffer taken from the pool is memory of the size of the buffers of the pool.\<close>

definition csp_new :: "nat \<Rightarrow> k_heap \<Rightarrow> k_addr option \<times> k_heap" where
  "csp_new n h =
     (case csp_buffer_get n (kh_pool h) of
        (None, pool) \<Rightarrow> (None, h\<lparr>kh_pool := pool\<rparr>)
      | (Some p, pool) \<Rightarrow>
          (Some (Pool p), set_cell (Pool p) (Some (KBytes (replicate (pool_size pool) None))) (h\<lparr>kh_pool := pool\<rparr>)))"

text \<open>\<open>csp_buffer_free\<close> only warns about a buffer that is not in use; the block goes with the last
  reference to it.\<close>

definition csp_release :: "k_addr option \<Rightarrow> k_heap \<Rightarrow> k_heap option" where
  "csp_release ptr h =
     (case ptr of
        None \<Rightarrow> Some h
      | Some (Heap _) \<Rightarrow> None
      | Some (Pool p) \<Rightarrow>
          let h = h\<lparr>kh_pool := csp_buffer_free (Some p) (kh_pool h)\<rparr>
          in Some (if p \<in> live (kh_pool h) then h else set_cell (Pool p) None h))"

definition copy_cell :: "k_addr option \<Rightarrow> k_addr \<Rightarrow> nat \<Rightarrow> k_heap \<Rightarrow> k_heap option" where
  "copy_cell src dst n h =
     (case src of
        None \<Rightarrow> None
      | Some a \<Rightarrow>
          (case (kh_cells h a, kh_cells h dst) of
             (Some (KBytes m), Some (KBytes m')) \<Rightarrow>
               if n \<le> length m \<and> n \<le> length m' then Some (set_cell dst (Some (KBytes (take n m @ drop n m'))) h) else None
           | _ \<Rightarrow> None))"

definition csp_realloc :: "k_addr option \<Rightarrow> nat \<Rightarrow> nat \<Rightarrow> k_heap \<Rightarrow> (k_addr option \<times> k_heap) option" where
  "csp_realloc buff old_size new_size h =
     (case csp_new new_size h of
        (None, h) \<Rightarrow> Some (None, h)
      | (Some a, h) \<Rightarrow> map_option (Pair (Some a)) (copy_cell buff a old_size h))"

definition csp_alloc :: k_alloc where
  "csp_alloc = \<lparr>ka_new = csp_new, ka_realloc = csp_realloc, ka_free = csp_release\<rparr>"

section \<open>Buffers over an allocator\<close>

text \<open>The data to copy is \<open>None\<close> for \<open>NULL\<close>.\<close>

definition k_fill :: "u8 list option \<Rightarrow> nat \<Rightarrow> k_addr \<Rightarrow> k_heap \<Rightarrow> k_heap option" where
  "k_fill data n d h =
     (case data of None \<Rightarrow> Some h | Some bs \<Rightarrow> if length bs < n then None else k_write d 0 (take n bs) h)"

definition k_buffer_alloc ::
  "k_addr option \<Rightarrow> u8 list option \<Rightarrow> nat \<Rightarrow> k_alloc \<Rightarrow> k_heap \<Rightarrow> (k_addr option \<times> k_heap) option" where
  "k_buffer_alloc next data n alloc h =
     (case ka_new alloc sizeof_k_buffer h of
        (None, h) \<Rightarrow> Some (None, h)
      | (Some buff, h) \<Rightarrow>
          (case ka_new alloc n h of
             (None, h) \<Rightarrow> map_option (Pair None) (ka_free alloc (Some buff) h)
           | (Some d, h) \<Rightarrow>
               map_option (\<lambda>h. (Some buff,
                   set_cell buff (Some (KStruct \<lparr>kb_next = next, kb_size = n, kb_data = Some d\<rparr>)) h))
                 (k_fill data n d h)))"

definition k_buffer_realloc_new :: "k_addr \<Rightarrow> nat \<Rightarrow> k_alloc \<Rightarrow> k_heap \<Rightarrow> (int \<times> k_heap) option" where
  "k_buffer_realloc_new buffer new_size alloc h =
     (case k_struct buffer h of
        None \<Rightarrow> None
      | Some b \<Rightarrow>
          if new_size = 0 then Some (- 1, h)
          else if new_size = kb_size b then Some (0, h)
          else if new_size > kb_size b then
            (case ka_realloc alloc (kb_data b) (kb_size b) new_size h of
               None \<Rightarrow> None
             | Some (_, h) \<Rightarrow>
                 if kb_data b = None then Some (- 1, h)
                 else Some (0, set_cell buffer (Some (KStruct (b\<lparr>kb_size := new_size\<rparr>))) h))
          else Some (0, set_cell buffer (Some (KStruct (b\<lparr>kb_size := new_size\<rparr>))) h))"

definition k_buffer_free_new :: "k_addr option \<Rightarrow> k_alloc \<Rightarrow> k_heap \<Rightarrow> k_heap option" where
  "k_buffer_free_new buffer alloc h =
     (case buffer of
        None \<Rightarrow> Some h
      | Some a \<Rightarrow>
          (case k_struct a h of
             None \<Rightarrow> None
           | Some b \<Rightarrow>
               (case (if kb_data b = None then Some h else ka_free alloc (kb_data b) h) of
                  None \<Rightarrow> None
                | Some h \<Rightarrow> ka_free alloc (Some a) h)))"

section \<open>Buffers with their data in the packet pool\<close>

definition k_buffer_new :: "k_env \<Rightarrow> u8 list option \<Rightarrow> nat \<Rightarrow> k_heap \<Rightarrow> (k_addr option \<times> k_heap) option" where
  "k_buffer_new env data n h =
     (case malloc_new env sizeof_k_buffer h of
        (None, h) \<Rightarrow> Some (None, h)
      | (Some newbuff, h) \<Rightarrow>
          (case csp_new n h of
             (None, h) \<Rightarrow> map_option (Pair None) (malloc_free (Some newbuff) h)
           | (Some d, h) \<Rightarrow>
               map_option (\<lambda>h. (Some newbuff,
                   set_cell newbuff (Some (KStruct \<lparr>kb_next = None, kb_size = n, kb_data = Some d\<rparr>)) h))
                 (k_fill data n d h)))"

definition k_buffer_add ::
  "k_env \<Rightarrow> k_addr option \<Rightarrow> u8 list option \<Rightarrow> nat \<Rightarrow> k_heap \<Rightarrow> (k_addr option \<times> k_heap) option" where
  "k_buffer_add env next data n h =
     (case k_buffer_new env data n h of
        None \<Rightarrow> None
      | Some (None, h) \<Rightarrow> Some (None, h)
      | Some (Some a, h) \<Rightarrow>
          map_option (\<lambda>b. (Some a, set_cell a (Some (KStruct (b\<lparr>kb_next := next\<rparr>))) h)) (k_struct a h))"

text \<open>The length of a chain of buffers; \<open>None\<close> when a pointer of it is not valid or it never ends.\<close>

partial_function (option) k_buffer_size :: "k_addr option \<Rightarrow> k_heap \<Rightarrow> nat option" where
  "k_buffer_size buffer h =
     (case buffer of
        None \<Rightarrow> Some 0
      | Some a \<Rightarrow>
          Option.bind (k_struct a h) (\<lambda>b. Option.bind (k_buffer_size (kb_next b) h) (\<lambda>n. Some (kb_size b + n))))"

definition k_buffer_realloc :: "k_addr \<Rightarrow> nat \<Rightarrow> k_heap \<Rightarrow> (int \<times> k_heap) option" where
  "k_buffer_realloc buffer new_size h =
     (case k_struct buffer h of
        None \<Rightarrow> None
      | Some b \<Rightarrow>
          if new_size = 0 then Some (- 1, h)
          else if new_size = kb_size b then Some (0, h)
          else if new_size > kb_size b then
            (case csp_new new_size h of
               (None, h) \<Rightarrow> Some (- 1, h)
             | (Some d, h) \<Rightarrow>
                 (case copy_cell (kb_data b) d (kb_size b) h of
                    None \<Rightarrow> None
                  | Some h \<Rightarrow>
                      (case csp_release (kb_data b) h of
                         None \<Rightarrow> None
                       | Some h \<Rightarrow>
                           Some (0, set_cell buffer (Some (KStruct (b\<lparr>kb_data := Some d, kb_size := new_size\<rparr>))) h))))
          else Some (0, set_cell buffer (Some (KStruct (b\<lparr>kb_size := new_size\<rparr>))) h))"

definition k_buffer_free :: "k_addr option \<Rightarrow> k_heap \<Rightarrow> k_heap option" where
  "k_buffer_free buffer h =
     (case buffer of
        None \<Rightarrow> Some h
      | Some a \<Rightarrow>
          (case k_struct a h of
             None \<Rightarrow> None
           | Some b \<Rightarrow>
               (case (if kb_data b = None then Some h else csp_release (kb_data b) h) of
                  None \<Rightarrow> None
                | Some h \<Rightarrow> malloc_free (Some a) h)))"

section \<open>What is in use\<close>

text \<open>For buffers with their data in the pool: every block of the C library is a buffer, every packet
  buffer in use holds the data of exactly one of them, and has room for the size it says.\<close>

definition k_data :: "k_heap \<Rightarrow> nat \<Rightarrow> nat option" where
  "k_data h n =
     (case kh_cells h (Heap n) of
        Some (KStruct b) \<Rightarrow> (case kb_data b of Some (Pool p) \<Rightarrow> Some p | _ \<Rightarrow> None)
      | _ \<Rightarrow> None)"

definition k_fits :: "k_heap \<Rightarrow> nat \<Rightarrow> bool" where
  "k_fits h n \<longleftrightarrow>
     (\<exists>b p m. kh_cells h (Heap n) = Some (KStruct b) \<and> kb_data b = Some (Pool p) \<and> kh_cells h (Pool p) = Some (KBytes m) \<and>
        length m = pool_size (kh_pool h) \<and> kb_size b \<le> length m)"

definition k_ok :: "k_heap \<Rightarrow> bool" where
  "k_ok h \<longleftrightarrow> pool_ok (kh_pool h) \<and> (\<forall>n \<ge> kh_next h. kh_cells h (Heap n) = None) \<and>
     (\<forall>n. kh_cells h (Heap n) \<noteq> None \<longrightarrow> k_fits h n) \<and>
     (\<forall>p. kh_cells h (Pool p) \<noteq> None \<longleftrightarrow> p \<in> live (kh_pool h)) \<and>
     (\<forall>p. p \<in> live (kh_pool h) \<longleftrightarrow> (\<exists>n. k_data h n = Some p)) \<and>
     (\<forall>n n' p. k_data h n = Some p \<longrightarrow> k_data h n' = Some p \<longrightarrow> n = n')"

lemma set_cell_fields [simp]:
  "kh_cells (set_cell a c h) = (kh_cells h)(a := c)" "kh_next (set_cell a c h) = kh_next h"
  "kh_pool (set_cell a c h) = kh_pool h"
  by (simp_all add: set_cell_def)

lemma k_fits_data: "k_fits h n \<Longrightarrow> \<exists>p. k_data h n = Some p"
  by (auto simp: k_fits_def k_data_def)

lemma k_fits_frame:
  assumes "k_fits h n" "kh_cells h' (Heap n) = kh_cells h (Heap n)" "pool_size (kh_pool h') = pool_size (kh_pool h)"
    "\<And>p. kh_cells h (Pool p) \<noteq> None \<Longrightarrow> k_data h n = Some p \<Longrightarrow> kh_cells h' (Pool p) = kh_cells h (Pool p)"
  shows "k_fits h' n"
proof -
  obtain b p m where b: "kh_cells h (Heap n) = Some (KStruct b)" "kb_data b = Some (Pool p)" "kh_cells h (Pool p) = Some (KBytes m)"
      "length m = pool_size (kh_pool h)" "kb_size b \<le> length m"
    using assms(1) by (auto simp: k_fits_def)
  then have "kh_cells h' (Pool p) = Some (KBytes m)" using assms(4) [of p] by (simp add: k_data_def)
  then show ?thesis using b assms(2,3) by (simp add: k_fits_def)
qed

text \<open>A packet buffer is taken for the data of a buffer.\<close>

lemma csp_new_Some:
  assumes "csp_new n h = (Some d, h')" "pool_ok (kh_pool h)"
  obtains p where "d = Pool p" "p \<notin> live (kh_pool h)" "pool_ok (kh_pool h')" "live (kh_pool h') = insert p (live (kh_pool h))"
    "pool_size (kh_pool h') = pool_size (kh_pool h)" "kh_next h' = kh_next h" "n \<le> pool_size (kh_pool h)"
    "kh_cells h' = (kh_cells h)(Pool p \<mapsto> KBytes (replicate (pool_size (kh_pool h)) None))"
proof -
  obtain p pool where g: "csp_buffer_get n (kh_pool h) = (Some p, pool)"
    using assms(1) by (auto simp: csp_new_def split: prod.splits option.splits)
  have "n \<le> pool_size (kh_pool h)"
    using g by (auto simp: csp_buffer_get_def split: if_splits)
  then show thesis
    using csp_buffer_get_Some [OF assms(2) g] g assms(1) by (intro that [of p]) (auto simp: csp_new_def)
qed

lemma csp_new_None:
  assumes "csp_new n h = (None, h')" "pool_ok (kh_pool h)"
  shows "h' = h"
proof -
  obtain pool where g: "csp_buffer_get n (kh_pool h) = (None, pool)"
    using assms(1) by (auto simp: csp_new_def split: prod.splits option.splits)
  show ?thesis using csp_buffer_get_None [OF assms(2) g] g assms(1) by (simp add: csp_new_def)
qed

lemma csp_release_live:
  assumes "pool_ok (kh_pool h)"
  shows "\<exists>h'. csp_release (Some (Pool p)) h = Some h' \<and> pool_ok (kh_pool h') \<and> live (kh_pool h') = live (kh_pool h) - {p} \<and>
     pool_size (kh_pool h') = pool_size (kh_pool h) \<and> kh_next h' = kh_next h \<and> kh_cells h' = (kh_cells h)(Pool p := None)"
  using assms by (simp add: csp_release_def Let_def csp_buffer_free_live csp_buffer_free_ok)

lemma k_fill_bytes:
  assumes "kh_cells h d = Some (KBytes m)" "n \<le> length m" "data = None \<or> n \<le> length (the data)"
  shows "\<exists>m'. k_fill data n d h = Some (set_cell d (Some (KBytes m')) h) \<and> length m' = length m \<and>
    (data \<noteq> None \<longrightarrow> take n m' = map Some (take n (the data)))"
proof (cases data)
  case None
  then show ?thesis using assms(1) by (intro exI [of _ m]) (simp add: k_fill_def set_cell_def fun_upd_idem)
next
  case (Some bs)
  then show ?thesis using assms by (intro exI [of _ "map Some (take n bs) @ drop n m"])
      (simp add: k_fill_def k_write_def take_map)
qed

text \<open>A step that gives a new block of the C library a packet buffer that was free.\<close>

lemma k_ok_add:
  assumes "k_ok h" "p \<notin> live (kh_pool h)" "pool_ok pool" "live pool = insert p (live (kh_pool h))"
    "pool_size pool = pool_size (kh_pool h)" "length m = pool_size (kh_pool h)" "kb_data b = Some (Pool p)" "kb_size b \<le> length m"
  shows "k_ok \<lparr>kh_cells = (kh_cells h)(Pool p \<mapsto> KBytes m, Heap (kh_next h) \<mapsto> KStruct b), kh_next = kh_next h + 1, kh_pool = pool\<rparr>"
    (is "k_ok ?h")
proof -
  have h: "\<forall>n \<ge> kh_next h. kh_cells h (Heap n) = None" "\<And>n. kh_cells h (Heap n) \<noteq> None \<Longrightarrow> k_fits h n"
      "\<And>q. kh_cells h (Pool q) \<noteq> None \<longleftrightarrow> q \<in> live (kh_pool h)" "\<And>q. q \<in> live (kh_pool h) \<longleftrightarrow> (\<exists>n. k_data h n = Some q)"
      "\<And>n n' q. k_data h n = Some q \<Longrightarrow> k_data h n' = Some q \<Longrightarrow> n = n'"
    using assms(1) unfolding k_ok_def by blast+
  have d: "k_data ?h = (k_data h)(kh_next h := Some p)" using assms(7) by (auto simp: k_data_def fun_eq_iff)
  have p: "kh_cells h (Pool p) = None" using assms(2) h(3) [of p] by auto
  have f: "k_fits ?h n" if "kh_cells h (Heap n) \<noteq> None" for n
    using h(2) [OF that] by (rule k_fits_frame) (use that p assms(5) h(1) in auto)
  have fn: "k_fits ?h (kh_next h)" using assms(5-8) by (simp add: k_fits_def)
  have dn: "k_data h (kh_next h) = None" using h(1) by (simp add: k_data_def)
  have nd: "k_data h n \<noteq> Some p" for n using h(4) assms(2) by blast
  have "\<forall>n. kh_cells ?h (Heap n) \<noteq> None \<longrightarrow> k_fits ?h n" using f fn by (metis fun_upd_other k_heap.select_convs(1) k_addr.distinct(1) k_addr.inject(1))
  moreover have "\<forall>q. kh_cells ?h (Pool q) \<noteq> None \<longleftrightarrow> q \<in> live pool" using h(3) assms(4) by auto
  moreover have "\<forall>q. q \<in> live pool \<longleftrightarrow> (\<exists>n. k_data ?h n = Some q)"
    unfolding d assms(4) using h(4) dn by (metis fun_upd_apply insert_iff option.inject option.distinct(1))
  moreover have "\<forall>n n' q. k_data ?h n = Some q \<longrightarrow> k_data ?h n' = Some q \<longrightarrow> n = n'"
    unfolding d using h(5) nd by (metis fun_upd_apply option.inject)
  moreover have "\<forall>n \<ge> kh_next h + 1. kh_cells ?h (Heap n) = None" using h(1) by auto
  ultimately show ?thesis using assms(3) unfolding k_ok_def by simp
qed

lemma k_ok_dest:
  assumes "k_ok h"
  shows "pool_ok (kh_pool h)" "\<And>n. kh_next h \<le> n \<Longrightarrow> kh_cells h (Heap n) = None"
    "\<And>n. kh_cells h (Heap n) \<noteq> None \<Longrightarrow> k_fits h n" "\<And>q. kh_cells h (Pool q) \<noteq> None \<longleftrightarrow> q \<in> live (kh_pool h)"
    "\<And>q. q \<in> live (kh_pool h) \<longleftrightarrow> (\<exists>n. k_data h n = Some q)"
    "\<And>n n' q. k_data h n = Some q \<Longrightarrow> k_data h n' = Some q \<Longrightarrow> n = n'"
  using assms unfolding k_ok_def by blast+

text \<open>A buffer goes with its data.\<close>

lemma k_ok_drop:
  assumes "k_ok h" "k_data h n = Some p" "pool_ok pool" "live pool = live (kh_pool h) - {p}"
    "pool_size pool = pool_size (kh_pool h)"
  shows "k_ok \<lparr>kh_cells = (kh_cells h)(Pool p := None, Heap n := None), kh_next = kh_next h, kh_pool = pool\<rparr>" (is "k_ok ?h")
proof -
  note h = k_ok_dest [OF assms(1)]
  have d: "k_data ?h = (k_data h)(n := None)" by (auto simp: k_data_def fun_eq_iff)
  have "k_fits ?h i" if "kh_cells ?h (Heap i) \<noteq> None" for i
  proof -
    have i: "i \<noteq> n" "kh_cells h (Heap i) \<noteq> None" using that by (auto split: if_splits)
    show ?thesis using h(3) [OF i(2)] by (rule k_fits_frame) (use i assms(2,5) h(6) in auto)
  qed
  moreover have "\<forall>q. kh_cells ?h (Pool q) \<noteq> None \<longleftrightarrow> q \<in> live pool" using h(4) assms(4) by auto
  moreover have "\<forall>q. q \<in> live pool \<longleftrightarrow> (\<exists>n. k_data ?h n = Some q)"
    using assms(2) h(6) unfolding d assms(4) by (auto simp: h(5)) (metis option.inject)
  moreover have "\<forall>n n' q. k_data ?h n = Some q \<longrightarrow> k_data ?h n' = Some q \<longrightarrow> n = n'"
    unfolding d using h(6) by (metis fun_upd_apply option.distinct(1))
  moreover have "\<forall>n \<ge> kh_next h. kh_cells ?h (Heap n) = None" using h(2) by auto
  ultimately show ?thesis using assms(3) unfolding k_ok_def by simp
qed

text \<open>A buffer gets other data and another size.\<close>

lemma k_ok_move:
  assumes "k_ok h" "k_data h n = Some p" "q \<notin> live (kh_pool h)" "pool_ok pool" "live pool = insert q (live (kh_pool h)) - {p}"
    "pool_size pool = pool_size (kh_pool h)" "length m = pool_size (kh_pool h)" "kb_data b = Some (Pool q)" "kb_size b \<le> length m"
  shows "k_ok \<lparr>kh_cells = (kh_cells h)(Pool q \<mapsto> KBytes m, Pool p := None, Heap n \<mapsto> KStruct b), kh_next = kh_next h, kh_pool = pool\<rparr>"
    (is "k_ok ?h")
proof -
  note h = k_ok_dest [OF assms(1)]
  have "p \<in> live (kh_pool h)" using h(5) assms(2) by blast
  then have ne: "p \<noteq> q" "n < kh_next h"
    using assms(2,3) h(2) [of n] by (auto simp: k_data_def split: option.splits intro: not_le_imp_less)
  have d: "k_data ?h = (k_data h)(n := Some q)" using assms(8) by (auto simp: k_data_def fun_eq_iff)
  have nd: "k_data h i \<noteq> Some q" for i using h(5) assms(3) by blast
  have "k_fits ?h i" if "kh_cells ?h (Heap i) \<noteq> None" for i
  proof (cases "i = n")
    case True
    then show ?thesis using assms(6-9) ne by (simp add: k_fits_def)
  next
    case False
    then have i: "kh_cells h (Heap i) \<noteq> None" using that by auto
    show ?thesis using h(3) [OF i] by (rule k_fits_frame) (use False assms(2,6) h(6) nd in auto)
  qed
  moreover have "\<forall>r. kh_cells ?h (Pool r) \<noteq> None \<longleftrightarrow> r \<in> live pool" using h(4) assms(5) ne by auto
  moreover have "\<forall>r. r \<in> live pool \<longleftrightarrow> (\<exists>n. k_data ?h n = Some r)"
  proof (intro allI iffI)
    fix r
    assume "r \<in> live pool"
    then consider "r = q" | i where "k_data h i = Some r" "r \<noteq> p" unfolding assms(5) h(5) [symmetric] using h(5) by blast
    then show "\<exists>n. k_data ?h n = Some r"
    proof cases
      case (2 i)
      then have "i \<noteq> n" using assms(2) by auto
      then show ?thesis unfolding d using 2 by auto
    qed (use d in auto)
  next
    fix r
    assume "\<exists>n. k_data ?h n = Some r"
    then show "r \<in> live pool" unfolding d assms(5) using h(5,6) assms(2) ne(1) by (auto split: if_splits)
  qed
  moreover have "\<forall>n n' r. k_data ?h n = Some r \<longrightarrow> k_data ?h n' = Some r \<longrightarrow> n = n'"
    unfolding d using h(6) nd by (metis fun_upd_apply option.inject)
  moreover have "\<forall>n \<ge> kh_next h. kh_cells ?h (Heap n) = None" using h(2) ne by auto
  ultimately show ?thesis using assms(4) unfolding k_ok_def by simp
qed

lemma k_ok_resize:
  assumes "k_ok h" "kh_cells h (Heap n) = Some (KStruct b)" "kb_data b' = kb_data b" "kb_size b' \<le> pool_size (kh_pool h)"
  shows "k_ok (set_cell (Heap n) (Some (KStruct b')) h)" (is "k_ok ?h")
proof -
  note h = k_ok_dest [OF assms(1)]
  have d: "k_data ?h = k_data h" using assms(2,3) by (auto simp: k_data_def fun_eq_iff)
  have "k_fits ?h i" if "kh_cells ?h (Heap i) \<noteq> None" for i
  proof (cases "i = n")
    case True
    then show ?thesis using h(3) [of n] assms by (auto simp: k_fits_def)
  next
    case False
    then have "k_fits h i" using h(3) [of i] that by simp
    then show ?thesis by (rule k_fits_frame) (use False in simp_all)
  qed
  moreover have "\<forall>i \<ge> kh_next h. kh_cells ?h (Heap i) = None" using h(2) assms(2) by auto
  ultimately show ?thesis using h(1,4-6) unfolding k_ok_def d by simp
qed

lemma k_ok_heap_next: "k_ok h \<Longrightarrow> k_ok (h\<lparr>kh_next := kh_next h + 1\<rparr>)"
  by (auto simp: k_ok_def k_fits_def k_data_def)

section \<open>The interface of an allocator\<close>

text \<open>What \<open>k_buffer_alloc\<close> and \<open>k_buffer_free_new\<close> rely on: a new block is not in use elsewhere and large
  enough, a block that is in use can be freed, and only its own blocks matter to an allocator.\<close>

locale k_allocator =
  fixes alloc :: k_alloc and inv :: "k_heap \<Rightarrow> bool" and own :: "k_addr \<Rightarrow> bool"
  assumes new_Some: "inv h \<Longrightarrow> ka_new alloc n h = (Some a, h') \<Longrightarrow>
      inv h' \<and> own a \<and> kh_cells h a = None \<and> (\<exists>m. n \<le> length m \<and> kh_cells h' = (kh_cells h)(a \<mapsto> KBytes m))"
    and new_None: "inv h \<Longrightarrow> ka_new alloc n h = (None, h') \<Longrightarrow> inv h' \<and> kh_cells h' = kh_cells h"
    and free_own: "inv h \<Longrightarrow> own a \<Longrightarrow> kh_cells h a \<noteq> None \<Longrightarrow>
      \<exists>h'. ka_free alloc (Some a) h = Some h' \<and> inv h' \<and> kh_cells h' = (kh_cells h)(a := None)"
    and inv_cell: "inv h \<Longrightarrow> kh_cells h a \<noteq> None \<Longrightarrow> inv (set_cell a (Some c) h)"
begin

lemma alloc_spec:
  assumes "inv h" "data = None \<or> n \<le> length (the data)"
  shows "\<exists>r h'. k_buffer_alloc next data n alloc h = Some (r, h') \<and> inv h' \<and>
     (case r of
        None \<Rightarrow> kh_cells h' = kh_cells h
      | Some a \<Rightarrow> \<exists>d m. own a \<and> own d \<and> a \<noteq> d \<and> kh_cells h a = None \<and> kh_cells h d = None \<and> n \<le> length m \<and>
          kh_cells h' = (kh_cells h)(d \<mapsto> KBytes m, a \<mapsto> KStruct \<lparr>kb_next = next, kb_size = n, kb_data = Some d\<rparr>) \<and>
          (data \<noteq> None \<longrightarrow> take n m = map Some (take n (the data))))"
proof (cases "ka_new alloc sizeof_k_buffer h")
  case (Pair x h1)
  show ?thesis
  proof (cases x)
    case None
    then show ?thesis using new_None [OF assms(1)] Pair by (simp add: k_buffer_alloc_def)
  next
    case (Some a)
    obtain m0 where a: "inv h1" "own a" "kh_cells h a = None" "kh_cells h1 = (kh_cells h)(a \<mapsto> KBytes m0)"
      using new_Some [OF assms(1)] Pair Some by blast
    show ?thesis
    proof (cases "ka_new alloc n h1")
      case (Pair y h2)
      note P = \<open>ka_new alloc sizeof_k_buffer h = (x, h1)\<close> Some Pair
      show ?thesis
      proof (cases y)
        case None
        have c2: "inv h2" "kh_cells h2 = kh_cells h1" using new_None [OF a(1)] Pair None by auto
        then obtain h3 where "ka_free alloc (Some a) h2 = Some h3" "inv h3" "kh_cells h3 = (kh_cells h2)(a := None)"
          using free_own [OF c2(1) a(2)] a(4) by auto
        then show ?thesis using P None a c2 by (auto simp: k_buffer_alloc_def fun_eq_iff)
      next
        case (Some d)
        obtain m where d: "inv h2" "own d" "kh_cells h1 d = None" "n \<le> length m" "kh_cells h2 = (kh_cells h1)(d \<mapsto> KBytes m)"
          using new_Some [OF a(1)] Pair Some by blast
        obtain m' where m': "k_fill data n d h2 = Some (set_cell d (Some (KBytes m')) h2)" "length m' = length m"
            "data \<noteq> None \<longrightarrow> take n m' = map Some (take n (the data))"
          using k_fill_bytes [of h2 d m n data] d(4,5) assms(2) by auto
        have ne: "a \<noteq> d" "kh_cells h d = None" using d(3) a(4) by (auto split: if_splits)
        let ?h = "set_cell a (Some (KStruct \<lparr>kb_next = next, kb_size = n, kb_data = Some d\<rparr>)) (set_cell d (Some (KBytes m')) h2)"
        have "inv (set_cell d (Some (KBytes m')) h2)" using d by (intro inv_cell) simp_all
        then have "inv ?h" by (rule inv_cell) (use d(5) a(4) ne in simp)
        moreover have "k_buffer_alloc next data n alloc h = Some (Some a, ?h)"
          using P Some m'(1) by (simp add: k_buffer_alloc_def)
        moreover have "kh_cells ?h = (kh_cells h)(d \<mapsto> KBytes m', a \<mapsto> KStruct \<lparr>kb_next = next, kb_size = n, kb_data = Some d\<rparr>)"
          using d(5) a(4) by (auto simp: fun_eq_iff)
        ultimately show ?thesis using a(2,3) d(2,4) m'(2,3) ne
          by (intro exI [of _ "Some a"] exI [of _ ?h]) (auto intro!: exI [of _ d] exI [of _ m'])
      qed
    qed
  qed
qed

lemma free_spec:
  assumes "inv h" "k_struct a h = Some b" "kb_data b = Some d" "own a" "own d" "a \<noteq> d" "kh_cells h d \<noteq> None"
  shows "\<exists>h'. k_buffer_free_new (Some a) alloc h = Some h' \<and> inv h' \<and> kh_cells h' = (kh_cells h)(d := None, a := None)"
proof -
  have a: "kh_cells h a \<noteq> None" using assms(2) by (auto simp: k_struct_def split: option.splits)
  obtain h1 where h1: "ka_free alloc (Some d) h = Some h1" "inv h1" "kh_cells h1 = (kh_cells h)(d := None)"
    using free_own [OF assms(1,5,7)] by blast
  then obtain h2 where "ka_free alloc (Some a) h1 = Some h2" "inv h2" "kh_cells h2 = (kh_cells h1)(a := None)"
    using free_own [OF h1(2) assms(4)] a assms(6) by auto
  then show ?thesis using h1 assms(2,3) by (simp add: k_buffer_free_new_def)
qed

lemma alloc_free_restores:
  assumes "inv h" "data = None \<or> n \<le> length (the data)"
  shows "\<exists>r h1 h2. k_buffer_alloc next data n alloc h = Some (r, h1) \<and> k_buffer_free_new r alloc h1 = Some h2 \<and>
     kh_cells h2 = kh_cells h"
proof -
  obtain r h1 where r: "k_buffer_alloc next data n alloc h = Some (r, h1)" "inv h1"
      "case r of None \<Rightarrow> kh_cells h1 = kh_cells h
       | Some a \<Rightarrow> \<exists>d m. own a \<and> own d \<and> a \<noteq> d \<and> kh_cells h a = None \<and> kh_cells h d = None \<and> n \<le> length m \<and>
          kh_cells h1 = (kh_cells h)(d \<mapsto> KBytes m, a \<mapsto> KStruct \<lparr>kb_next = next, kb_size = n, kb_data = Some d\<rparr>) \<and>
          (data \<noteq> None \<longrightarrow> take n m = map Some (take n (the data)))"
    using alloc_spec [OF assms, of "next"] by blast
  show ?thesis
  proof (cases r)
    case None
    then show ?thesis using r by (simp add: k_buffer_free_new_def)
  next
    case (Some a)
    then obtain d m where d: "own a" "own d" "a \<noteq> d" "kh_cells h a = None" "kh_cells h d = None"
        "kh_cells h1 = (kh_cells h)(d \<mapsto> KBytes m, a \<mapsto> KStruct \<lparr>kb_next = next, kb_size = n, kb_data = Some d\<rparr>)"
      using r(3) by auto
    then obtain h2 where "k_buffer_free_new (Some a) alloc h1 = Some h2" "kh_cells h2 = (kh_cells h1)(d := None, a := None)"
      using free_spec [OF r(2), of a _ d] by (auto simp: k_struct_def)
    moreover have "(kh_cells h1)(d := None, a := None) = kh_cells h" using d(3-6) by (auto simp: fun_eq_iff)
    ultimately show ?thesis using r(1) Some by auto
  qed
qed

end

definition malloc_inv :: "k_heap \<Rightarrow> bool" where
  "malloc_inv h \<longleftrightarrow> (\<forall>n \<ge> kh_next h. kh_cells h (Heap n) = None)"

definition csp_inv :: "k_heap \<Rightarrow> bool" where
  "csp_inv h \<longleftrightarrow> pool_ok (kh_pool h) \<and> (\<forall>p. kh_cells h (Pool p) \<noteq> None \<longleftrightarrow> p \<in> live (kh_pool h))"

interpretation c_library: k_allocator "malloc_alloc env" malloc_inv "\<lambda>a. \<exists>n. a = Heap n"
proof
  fix h h' :: k_heap and n a c
  show "malloc_inv h \<Longrightarrow> ka_new (malloc_alloc env) n h = (Some a, h') \<Longrightarrow>
      malloc_inv h' \<and> (\<exists>n. a = Heap n) \<and> kh_cells h a = None \<and> (\<exists>m. n \<le> length m \<and> kh_cells h' = (kh_cells h)(a \<mapsto> KBytes m))"
    by (auto simp: malloc_alloc_def malloc_new_def malloc_inv_def Let_def split: if_splits intro!: exI [of _ "replicate n None"])
  show "malloc_inv h \<Longrightarrow> ka_new (malloc_alloc env) n h = (None, h') \<Longrightarrow> malloc_inv h' \<and> kh_cells h' = kh_cells h"
    by (auto simp: malloc_alloc_def malloc_new_def malloc_inv_def Let_def split: if_splits)
  show "malloc_inv h \<Longrightarrow> \<exists>n. a = Heap n \<Longrightarrow> kh_cells h a \<noteq> None \<Longrightarrow>
      \<exists>h'. ka_free (malloc_alloc env) (Some a) h = Some h' \<and> malloc_inv h' \<and> kh_cells h' = (kh_cells h)(a := None)"
    by (auto simp: malloc_alloc_def malloc_free_def malloc_inv_def)
  show "malloc_inv h \<Longrightarrow> kh_cells h a \<noteq> None \<Longrightarrow> malloc_inv (set_cell a (Some c) h)"
    by (auto simp: malloc_inv_def)
qed

interpretation packet_pool: k_allocator csp_alloc csp_inv "\<lambda>a. \<exists>p. a = Pool p"
proof
  fix h h' :: k_heap and n a c
  show "csp_inv h' \<and> (\<exists>p. a = Pool p) \<and> kh_cells h a = None \<and> (\<exists>m. n \<le> length m \<and> kh_cells h' = (kh_cells h)(a \<mapsto> KBytes m))"
    if i: "csp_inv h" and n: "ka_new csp_alloc n h = (Some a, h')"
  proof -
    have "csp_new n h = (Some a, h')" using n by (simp add: csp_alloc_def)
    from csp_new_Some [OF this] i obtain p where "a = Pool p" "p \<notin> live (kh_pool h)" "pool_ok (kh_pool h')"
        "live (kh_pool h') = insert p (live (kh_pool h))" "n \<le> pool_size (kh_pool h)"
        "kh_cells h' = (kh_cells h)(Pool p \<mapsto> KBytes (replicate (pool_size (kh_pool h)) None))"
      using i by (auto simp: csp_inv_def)
    moreover have "kh_cells h (Pool p) = None" using i \<open>p \<notin> live (kh_pool h)\<close> by (auto simp: csp_inv_def)
    ultimately show ?thesis using i by (auto simp: csp_inv_def intro!: exI [of _ "replicate (pool_size (kh_pool h)) None"])
  qed
  show "csp_inv h \<Longrightarrow> ka_new csp_alloc n h = (None, h') \<Longrightarrow> csp_inv h' \<and> kh_cells h' = kh_cells h"
    using csp_new_None [of n h h'] by (auto simp: csp_alloc_def csp_inv_def)
  show "\<exists>h'. ka_free csp_alloc (Some a) h = Some h' \<and> csp_inv h' \<and> kh_cells h' = (kh_cells h)(a := None)"
    if i: "csp_inv h" and o: "\<exists>p. a = Pool p" and "kh_cells h a \<noteq> None"
  proof -
    obtain p where p: "a = Pool p" using o by blast
    have "pool_ok (kh_pool h)" using i by (simp add: csp_inv_def)
    from csp_release_live [OF this, of p] show ?thesis using i p by (auto simp: csp_alloc_def csp_inv_def)
  qed
  show "csp_inv h \<Longrightarrow> kh_cells h a \<noteq> None \<Longrightarrow> csp_inv (set_cell a (Some c) h)"
    by (auto simp: csp_inv_def)
qed


lemma k_heap_eqI:
  fixes h h' :: k_heap
  assumes "kh_cells h = kh_cells h'" "kh_next h = kh_next h'" "kh_pool h = kh_pool h'"
  shows "h = h'"
  using assms by simp

lemma k_buffer_new_ok:
  assumes "k_ok h" "data = None \<or> n \<le> length (the data)"
  shows "\<exists>r h'. k_buffer_new env data n h = Some (r, h') \<and> k_ok h' \<and>
     (case r of
        None \<Rightarrow> kh_cells h' = kh_cells h \<and> kh_pool h' = kh_pool h
      | Some a \<Rightarrow> \<exists>p. a = Heap (kh_next h) \<and> k_struct a h' = Some \<lparr>kb_next = None, kb_size = n, kb_data = Some (Pool p)\<rparr> \<and>
          (data \<noteq> None \<longrightarrow> k_read (Pool p) n h' = Some (take n (the data))))"
proof (cases "malloc_ok env (kh_next h)")
  case False
  then show ?thesis
    using k_ok_heap_next [OF assms(1)]
    by (intro exI [of _ None] exI [of _ "h\<lparr>kh_next := kh_next h + 1\<rparr>"]) (simp add: k_buffer_new_def malloc_new_def Let_def)
next
  case True
  let ?a = "Heap (kh_next h)"
  define h1 where "h1 = set_cell ?a (Some (KBytes (replicate sizeof_k_buffer None))) (h\<lparr>kh_next := kh_next h + 1\<rparr>)"
  have m: "malloc_new env sizeof_k_buffer h = (Some ?a, h1)" using True by (simp add: malloc_new_def Let_def h1_def)
  note h = k_ok_dest [OF assms(1)]
  have pool1: "pool_ok (kh_pool h1)" using h(1) by (simp add: h1_def)
  show ?thesis
  proof (cases "csp_new n h1")
    case (Pair x h2)
    show ?thesis
    proof (cases x)
      case None
      then have "h2 = h1" using csp_new_None Pair pool1 by blast
      then have "malloc_free (Some ?a) h2 = Some (set_cell ?a None h1)" by (simp add: malloc_free_def h1_def)
      moreover have "set_cell ?a None h1 = h\<lparr>kh_next := kh_next h + 1\<rparr>"
        using h(2) [of "kh_next h"] by (intro k_heap_eqI) (auto simp: h1_def fun_eq_iff)
      ultimately show ?thesis
        using k_ok_heap_next [OF assms(1)] None Pair m
        by (intro exI [of _ None] exI [of _ "h\<lparr>kh_next := kh_next h + 1\<rparr>"]) (simp add: k_buffer_new_def)
    next
      case (Some d)
      obtain p where p: "d = Pool p" "p \<notin> live (kh_pool h1)" "pool_ok (kh_pool h2)" "live (kh_pool h2) = insert p (live (kh_pool h1))"
          "pool_size (kh_pool h2) = pool_size (kh_pool h1)" "kh_next h2 = kh_next h1" "n \<le> pool_size (kh_pool h1)"
          "kh_cells h2 = (kh_cells h1)(Pool p \<mapsto> KBytes (replicate (pool_size (kh_pool h1)) None))"
        using csp_new_Some Pair Some pool1 by blast
      obtain m' where m': "k_fill data n (Pool p) h2 = Some (set_cell (Pool p) (Some (KBytes m')) h2)"
          "length m' = pool_size (kh_pool h)" "data \<noteq> None \<longrightarrow> take n m' = map Some (take n (the data))"
        using k_fill_bytes [of h2 "Pool p" "replicate (pool_size (kh_pool h1)) None" n data] p(7,8) assms(2)
        by (auto simp: h1_def)
      let ?b = "\<lparr>kb_next = None, kb_size = n, kb_data = Some (Pool p)\<rparr>"
      let ?h = "set_cell ?a (Some (KStruct ?b)) (set_cell (Pool p) (Some (KBytes m')) h2)"
      have eq: "?h = \<lparr>kh_cells = (kh_cells h)(Pool p \<mapsto> KBytes m', ?a \<mapsto> KStruct ?b), kh_next = kh_next h + 1, kh_pool = kh_pool h2\<rparr>"
        using p(6,8) by (intro k_heap_eqI) (auto simp: h1_def fun_eq_iff)
      have "k_ok ?h" unfolding eq
        using p(2-5,7) m'(2) by (intro k_ok_add [OF assms(1)]) (simp_all add: h1_def)
      moreover have "k_buffer_new env data n h = Some (Some ?a, ?h)"
        using m Pair Some p(1) m'(1) by (simp add: k_buffer_new_def)
      moreover have "k_read (Pool p) n ?h = Some (take n (the data))" if "data \<noteq> None"
        using that m'(2,3) p(7) by (auto simp: k_read_def h1_def comp_def)
      ultimately show ?thesis
        by (intro exI [of _ "Some ?a"] exI [of _ ?h]) (simp add: k_struct_def)
    qed
  qed
qed

lemma k_ok_struct:
  assumes "k_ok h" "k_struct (Heap i) h = Some b"
  obtains p m where "kb_data b = Some (Pool p)" "kh_cells h (Pool p) = Some (KBytes m)" "length m = pool_size (kh_pool h)"
    "kb_size b \<le> length m" "kh_cells h (Heap i) = Some (KStruct b)" "k_data h i = Some p"
proof -
  have c: "kh_cells h (Heap i) = Some (KStruct b)" using assms(2) by (auto simp: k_struct_def split: option.splits k_cell.splits)
  then have "k_fits h i" using k_ok_dest(3) [OF assms(1), of i] by simp
  then show thesis using c by (auto simp: k_fits_def k_data_def intro!: that)
qed

lemma k_buffer_free_keeps:
  assumes "k_ok h" "k_struct (Heap i) h = Some b"
  shows "\<exists>h'. k_buffer_free (Some (Heap i)) h = Some h' \<and> k_ok h' \<and> k_struct (Heap i) h' = None"
proof -
  obtain p m where p: "kb_data b = Some (Pool p)" "kh_cells h (Heap i) = Some (KStruct b)" "k_data h i = Some p"
    using k_ok_struct [OF assms] by blast
  obtain h1 where h1: "csp_release (Some (Pool p)) h = Some h1" "pool_ok (kh_pool h1)" "live (kh_pool h1) = live (kh_pool h) - {p}"
      "pool_size (kh_pool h1) = pool_size (kh_pool h)" "kh_next h1 = kh_next h" "kh_cells h1 = (kh_cells h)(Pool p := None)"
    using csp_release_live [OF k_ok_dest(1) [OF assms(1)], of p] by blast
  let ?h = "set_cell (Heap i) None h1"
  have "?h = \<lparr>kh_cells = (kh_cells h)(Pool p := None, Heap i := None), kh_next = kh_next h, kh_pool = kh_pool h1\<rparr>"
    using h1 by (intro k_heap_eqI) simp_all
  then have "k_ok ?h" using k_ok_drop [OF assms(1) p(3) h1(2-4)] by simp
  moreover have "k_buffer_free (Some (Heap i)) h = Some ?h"
    using assms(2) p h1(1,6) by (simp add: k_buffer_free_def malloc_free_def)
  ultimately show ?thesis by (simp add: k_struct_def)
qed

lemma k_buffer_realloc_keeps:
  assumes "k_ok h" "k_struct (Heap i) h = Some b"
  shows "\<exists>e h'. k_buffer_realloc (Heap i) n h = Some (e, h') \<and> k_ok h' \<and> (e \<noteq> 0 \<longrightarrow> h' = h) \<and>
     (e = 0 \<longrightarrow> (\<exists>b'. k_struct (Heap i) h' = Some b' \<and> kb_size b' = n \<and>
        (\<forall>bs. k_read (the (kb_data b)) (min n (kb_size b)) h = Some bs \<longrightarrow> k_read (the (kb_data b')) (min n (kb_size b)) h' = Some bs)))"
proof -
  obtain p m where p: "kb_data b = Some (Pool p)" "kh_cells h (Pool p) = Some (KBytes m)" "length m = pool_size (kh_pool h)"
      "kb_size b \<le> length m" "kh_cells h (Heap i) = Some (KStruct b)" "k_data h i = Some p"
    using k_ok_struct [OF assms] by blast
  consider "n = 0" | "n \<noteq> 0" "n = kb_size b" | "n \<noteq> 0" "n < kb_size b" | "kb_size b < n" by linarith
  then show ?thesis
  proof cases
    case 1
    then show ?thesis using assms by (simp add: k_buffer_realloc_def)
  next
    case 2
    then show ?thesis using assms by (simp add: k_buffer_realloc_def)
  next
    case 3
    let ?h = "set_cell (Heap i) (Some (KStruct (b\<lparr>kb_size := n\<rparr>))) h"
    have "k_ok ?h" using 3 p(3,4) by (intro k_ok_resize [OF assms(1) p(5)]) simp_all
    then show ?thesis
      using 3 assms p(1) by (simp add: k_buffer_realloc_def k_struct_def k_read_def min_def)
  next
    case 4
    show ?thesis
    proof (cases "csp_new n h")
      case (Pair x h1)
      show ?thesis
      proof (cases x)
        case None
        then have "h1 = h" using csp_new_None [OF _ k_ok_dest(1) [OF assms(1)]] Pair by blast
        then show ?thesis using None Pair 4 assms by (simp add: k_buffer_realloc_def)
      next
        case (Some d)
        obtain q where q: "d = Pool q" "q \<notin> live (kh_pool h)" "pool_ok (kh_pool h1)" "live (kh_pool h1) = insert q (live (kh_pool h))"
            "pool_size (kh_pool h1) = pool_size (kh_pool h)" "kh_next h1 = kh_next h" "n \<le> pool_size (kh_pool h)"
            "kh_cells h1 = (kh_cells h)(Pool q \<mapsto> KBytes (replicate (pool_size (kh_pool h)) None))"
          using csp_new_Some Pair Some k_ok_dest(1) [OF assms(1)] by blast
        have ne: "p \<noteq> q" using k_ok_dest(4) [OF assms(1), of p] p(2) q(2) by auto
        let ?m = "take (kb_size b) m @ drop (kb_size b) (replicate (pool_size (kh_pool h)) None)"
        have lm: "length ?m = pool_size (kh_pool h)" using p(3,4) by simp
        let ?h2 = "set_cell (Pool q) (Some (KBytes ?m)) h1"
        have c: "copy_cell (kb_data b) d (kb_size b) h1 = Some ?h2"
          using p(1-4) q(1,7,8) ne 4 by (simp add: copy_cell_def)
        obtain h3 where h3: "csp_release (Some (Pool p)) ?h2 = Some h3" "pool_ok (kh_pool h3)" "live (kh_pool h3) = live (kh_pool h1) - {p}"
            "pool_size (kh_pool h3) = pool_size (kh_pool h1)" "kh_next h3 = kh_next h" "kh_cells h3 = (kh_cells ?h2)(Pool p := None)"
          using csp_release_live [of ?h2 p] q(3,6) by auto
        let ?b = "b\<lparr>kb_data := Some d, kb_size := n\<rparr>"
        let ?h = "set_cell (Heap i) (Some (KStruct ?b)) h3"
        have eq: "?h = \<lparr>kh_cells = (kh_cells h)(Pool q \<mapsto> KBytes ?m, Pool p := None, Heap i \<mapsto> KStruct ?b),
            kh_next = kh_next h, kh_pool = kh_pool h3\<rparr>"
          using h3 q(8) by (intro k_heap_eqI) (simp_all add: fun_eq_iff)
        have "k_ok ?h" unfolding eq
          using h3(2-4) q p(3,4) lm by (intro k_ok_move [OF assms(1) p(6)]) simp_all
        moreover have "k_buffer_realloc (Heap i) n h = Some (0, ?h)"
          using assms(2) Pair Some 4 c h3(1) p(1) by (simp add: k_buffer_realloc_def)
        moreover have "k_read (Pool q) (kb_size b) ?h = k_read (Pool p) (kb_size b) h"
          using p(2-4) h3(6) ne by (simp add: k_read_def)
        ultimately show ?thesis using p(1) q(1) 4 by (simp add: k_struct_def)
      qed
    qed
  qed
qed

section \<open>Properties\<close>

text \<open>What a task does with its buffers; it uses none that is not in use.\<close>

datatype k_op = KNew "u8 list option" nat | KRealloc nat nat | KFree nat

definition k_op_ok :: "k_op \<Rightarrow> bool" where
  "k_op_ok x = (case x of KNew (Some bs) n \<Rightarrow> n \<le> length bs | _ \<Rightarrow> True)"

definition k_step :: "k_env \<Rightarrow> k_op \<Rightarrow> k_heap \<Rightarrow> k_heap option" where
  "k_step env x h =
     (case x of
        KNew data n \<Rightarrow> map_option snd (k_buffer_new env data n h)
      | KRealloc i n \<Rightarrow> if k_struct (Heap i) h = None then Some h else map_option snd (k_buffer_realloc (Heap i) n h)
      | KFree i \<Rightarrow> if k_struct (Heap i) h = None then Some h else k_buffer_free (Some (Heap i)) h)"

fun k_run :: "k_env \<Rightarrow> k_op list \<Rightarrow> k_heap \<Rightarrow> k_heap option" where
  "k_run env [] h = Some h"
| "k_run env (x # xs) h = Option.bind (k_step env x h) (k_run env xs)"

lemma k_step_ok:
  assumes "k_ok h" "k_op_ok x"
  shows "\<exists>h'. k_step env x h = Some h' \<and> k_ok h'"
proof (cases x)
  case (KNew data n)
  then show ?thesis
    using k_buffer_new_ok [OF assms(1), of data n env] assms(2)
    by (cases data) (auto simp: k_step_def k_op_ok_def)
next
  case (KRealloc i n)
  then show ?thesis
    using k_buffer_realloc_keeps [OF assms(1), of i _ n] assms(1) by (cases "k_struct (Heap i) h") (auto simp: k_step_def)
next
  case (KFree i)
  then show ?thesis
    using k_buffer_free_keeps [OF assms(1), of i] assms(1) by (cases "k_struct (Heap i) h") (auto simp: k_step_def)
qed

definition empty_heap :: "nat \<Rightarrow> nat \<Rightarrow> k_heap" where
  "empty_heap n sz = \<lparr>kh_cells = (\<lambda>_. None), kh_next = 0, kh_pool = the (snd (csp_buffer_init True n sz))\<rparr>"

lemma empty_heap_ok: "k_ok (empty_heap n sz)"
proof -
  obtain pool where p: "csp_buffer_init True n sz = (CSP_ERR_NONE, Some pool)" by (simp add: csp_buffer_init_def)
  then show ?thesis using pool_init_ok [OF p] by (simp add: k_ok_def empty_heap_def k_data_def)
qed

text \<open>C17. Memory stays well-formed: whatever buffers a task makes, enlarges, shrinks and frees, and
  whichever requests for memory fail, no operation touches memory that is not in use, every block of
  the C library is a buffer, and every packet buffer in use holds the data of exactly one buffer and
  has room for it.  When the last buffer is freed, nothing is left in use.\<close>

theorem k_buffer_memory_well_formed:
  assumes "k_ok h" "list_all k_op_ok xs"
  shows "\<exists>h'. k_run env xs h = Some h' \<and> k_ok h' \<and> ((\<forall>i. k_struct (Heap i) h' = None) \<longrightarrow> live (kh_pool h') = {})"
proof -
  have "\<exists>h'. k_run env xs h = Some h' \<and> k_ok h'" using assms
  proof (induction xs arbitrary: h)
    case (Cons x xs)
    then obtain h1 where "k_step env x h = Some h1" "k_ok h1" using k_step_ok [of h x env] by auto
    then show ?case using Cons by simp
  qed simp
  then obtain h' where h': "k_run env xs h = Some h'" "k_ok h'" by blast
  have "live (kh_pool h') = {}" if none: "\<forall>i. k_struct (Heap i) h' = None"
  proof -
    have "k_data h' i = None" for i
      using none by (auto simp: k_data_def k_struct_def split: option.splits k_cell.splits)
    then show ?thesis using k_ok_dest(5) [OF h'(2)] by auto
  qed
  then show ?thesis using h' by blast
qed

lemma k_buffer_memory_well_formed_witness:
  "\<exists>h'. k_run \<lparr>malloc_ok = (\<lambda>n. n \<noteq> 1), realloc_moves = (\<lambda>_. True)\<rparr>
      [KNew (Some [1, 2, 3]) 2, KNew None 4, KRealloc 0 5, KFree 0] (empty_heap 3 10) = Some h' \<and> k_ok h'"
proof -
  have "list_all k_op_ok [KNew (Some [1, 2, 3]) 2, KNew None 4, KRealloc 0 5, KFree 0]" by (simp add: k_op_ok_def)
  from k_buffer_memory_well_formed [OF empty_heap_ok this] show ?thesis by blast
qed

text \<open>\<open>k_buffer_realloc_new\<close> forgets the address the allocator returns.  With the C library, when
  the block moves, the buffer still points to the old block, which is freed: every use of its data is
  undefined.  With the packet pool, which always moves, the buffer says it has the new size while its
  data is still the old block, and a packet buffer stays in use that no pointer leads to.\<close>

theorem k_buffer_realloc_new_loses:
  assumes "k_struct a h = Some b" "kb_size b < n" "kb_data b = Some d" "d \<noteq> a"
    "kh_cells h d = Some (KBytes m)" "kb_size b \<le> length m"
  shows "(d = Heap i \<and> i < kh_next h \<and> a \<noteq> Heap (kh_next h) \<and> malloc_ok env (kh_next h) \<and> realloc_moves env (kh_next h) \<longrightarrow>
      (\<exists>h'. k_buffer_realloc_new a n (malloc_alloc env) h = Some (0, h') \<and>
        k_struct a h' = Some (b\<lparr>kb_size := n\<rparr>) \<and> k_read d 1 h' = None \<and> k_write d 0 [x] h' = None)) \<and>
    (csp_new n h = (Some (Pool q), h1) \<and> pool_ok (kh_pool h) \<and> a \<noteq> Pool q \<and> d \<noteq> Pool q \<longrightarrow>
      (\<exists>h'. k_buffer_realloc_new a n csp_alloc h = Some (0, h') \<and>
        k_struct a h' = Some (b\<lparr>kb_size := n\<rparr>) \<and> kh_cells h' d = Some (KBytes m) \<and>
        q \<notin> live (kh_pool h) \<and> live (kh_pool h') = insert q (live (kh_pool h))))"
proof (intro conjI impI; elim conjE)
  assume m: "d = Heap i" "i < kh_next h" "a \<noteq> Heap (kh_next h)" "malloc_ok env (kh_next h)" "realloc_moves env (kh_next h)"
  have "kh_cells h a = Some (KStruct b)" using assms(1) by (auto simp: k_struct_def split: option.splits k_cell.splits)
  then show "\<exists>h'. k_buffer_realloc_new a n (malloc_alloc env) h = Some (0, h') \<and>
      k_struct a h' = Some (b\<lparr>kb_size := n\<rparr>) \<and> k_read d 1 h' = None \<and> k_write d 0 [x] h' = None"
    using assms m by (simp add: k_buffer_realloc_new_def malloc_alloc_def malloc_realloc_def Let_def k_struct_def k_read_def k_write_def)
next
  assume c: "csp_new n h = (Some (Pool q), h1)" "pool_ok (kh_pool h)" "a \<noteq> Pool q" "d \<noteq> Pool q"
  from csp_new_Some [OF c(1,2)] have q: "q \<notin> live (kh_pool h)" "live (kh_pool h1) = insert q (live (kh_pool h))"
      "n \<le> pool_size (kh_pool h)" "kh_cells h1 = (kh_cells h)(Pool q \<mapsto> KBytes (replicate (pool_size (kh_pool h)) None))"
    by auto
  then show "\<exists>h'. k_buffer_realloc_new a n csp_alloc h = Some (0, h') \<and>
      k_struct a h' = Some (b\<lparr>kb_size := n\<rparr>) \<and> kh_cells h' d = Some (KBytes m) \<and>
      q \<notin> live (kh_pool h) \<and> live (kh_pool h') = insert q (live (kh_pool h))"
    using assms c by (simp add: k_buffer_realloc_new_def csp_alloc_def csp_realloc_def copy_cell_def k_struct_def)
qed

lemma k_buffer_realloc_new_loses_witness:
  "\<exists>b d h h'. k_struct (Heap 0) h = Some b \<and> kb_data b = Some d \<and> k_read d 2 h = Some [1, 2] \<and>
     k_buffer_realloc_new (Heap 0) 4 (malloc_alloc \<lparr>malloc_ok = (\<lambda>_. True), realloc_moves = (\<lambda>_. True)\<rparr>) h = Some (0, h') \<and>
     k_struct (Heap 0) h' = Some (b\<lparr>kb_size := 4\<rparr>) \<and> k_read d 1 h' = None"
proof -
  let ?b = "\<lparr>kb_next = None, kb_size = 2, kb_data = Some (Heap 1)\<rparr>" and ?m = "[Some 1, Some 2] :: u8 option list"
  let ?h = "\<lparr>kh_cells = [Heap 0 \<mapsto> KStruct ?b, Heap 1 \<mapsto> KBytes ?m], kh_next = 2, kh_pool = kh_pool (empty_heap 1 10)\<rparr>"
  have s: "k_struct (Heap 0) ?h = Some ?b" "k_read (Heap 1) 2 ?h = Some [1, 2]" by (simp_all add: k_struct_def k_read_def)
  have "\<exists>h'. k_buffer_realloc_new (Heap 0) 4 (malloc_alloc \<lparr>malloc_ok = (\<lambda>_. True), realloc_moves = (\<lambda>_. True)\<rparr>) ?h = Some (0, h') \<and>
      k_struct (Heap 0) h' = Some (?b\<lparr>kb_size := 4\<rparr>) \<and> k_read (Heap 1) 1 h' = None \<and> k_write (Heap 1) 0 [0] h' = None"
    by (rule k_buffer_realloc_new_loses [OF s(1), THEN conjunct1, rule_format, where i = 1 and m = ?m]) simp_all
  moreover have "kb_data ?b = Some (Heap 1)" by simp
  ultimately show ?thesis using s by blast
qed

end
