(* ===== verification/KAx25.thy ===== *)
theory KAx25
  imports KBuffer "HOL-Library.Monad_Syntax"
begin

text \<open>
  AX.25 frames (\<open>kubos-core/source/modules/ham/ax25.c\<close>) in the buffers of the Kubos core: addresses,
  the frame check sequence and the building of a frame in front of the information the caller gives.
  A character is a byte; a frame is built in memory from the C library, the allocator the macros
  \<open>K_BUFFER_NEW\<close> and \<open>K_BUFFER_REALLOC\<close> choose.
\<close>

section \<open>Addresses\<close>

record ax25_addr =
  ax_callsign :: "u8 list"
  ax_ssid :: u8

definition MAX_CALLSIGN_LEN :: nat where "MAX_CALLSIGN_LEN = 6"
definition MAX_ADDR_LEN :: nat where "MAX_ADDR_LEN = 8"

definition AX25_CHAR :: "u8 \<Rightarrow> u8" where "AX25_CHAR c = push_bit 1 c"

definition AX25_ADDR_NOCALL :: ax25_addr where
  "AX25_ADDR_NOCALL = \<lparr>ax_callsign = map AX25_CHAR [0x4E, 0x30, 0x43, 0x41, 0x4C, 0x4C], ax_ssid = AX25_CHAR 0x30\<rparr>"

text \<open>The loop over the characters; a dash ends the call sign.  Its result has the number of characters
  before the dash.\<close>

fun ax25_addr_loop :: "u8 list \<Rightarrow> nat \<Rightarrow> ax25_addr \<Rightarrow> ax25_addr \<times> nat" where
  "ax25_addr_loop [] i r = (r, i)"
| "ax25_addr_loop (c # rest) i r =
     (if c = 0x2D then ((case rest of [] \<Rightarrow> r | d # _ \<Rightarrow> r\<lparr>ax_ssid := AX25_CHAR d\<rparr>), i)
      else ax25_addr_loop rest (i + 1)
        (if i < MAX_CALLSIGN_LEN then r\<lparr>ax_callsign := (ax_callsign r)[i := AX25_CHAR c]\<rparr> else r))"

definition ax25_addr_init :: "u8 list option \<Rightarrow> ax25_addr" where
  "ax25_addr_init addr =
     (case addr of
        None \<Rightarrow> AX25_ADDR_NOCALL
      | Some s \<Rightarrow>
          (case ax25_addr_loop (take MAX_ADDR_LEN s) 0 AX25_ADDR_NOCALL of (r, callsign_len) \<Rightarrow>
             r\<lparr>ax_callsign := fold (\<lambda>i cs. cs[i := AX25_CHAR 0x20]) [callsign_len..<MAX_CALLSIGN_LEN] (ax_callsign r)\<rparr>))"

section \<open>The frame check sequence\<close>

definition fcs_step :: "u16 \<Rightarrow> u8 \<Rightarrow> u16" where
  "fcs_step fcs c =
     (let e = ucast fcs XOR c; f = e XOR push_bit 4 e
      in drop_bit 8 fcs XOR push_bit 8 (ucast f) XOR push_bit 3 (ucast f) XOR drop_bit 4 (ucast f))"

definition ax25_calc_fcs :: "u8 list \<Rightarrow> int \<Rightarrow> u16 option" where
  "ax25_calc_fcs buf n = (if int (length buf) < n then None else Some (foldl fcs_step 0xFFFF (take (nat n) buf)))"

text \<open>The data of a buffer is only looked at when there is some.\<close>

definition k_bytes :: "k_addr option \<Rightarrow> nat \<Rightarrow> k_heap \<Rightarrow> u8 list option" where
  "k_bytes d n h = (if n = 0 then Some [] else Option.bind d (\<lambda>a. k_read a n h))"

text \<open>The loop over the chain.  The last buffer has the sequence itself in its last two bytes; when it is
  shorter, the number of bytes wraps around and the loop runs out of the buffer.\<close>

partial_function (option) fcs_pkt_loop :: "k_addr option \<Rightarrow> u16 \<Rightarrow> k_heap \<Rightarrow> u16 option" where
  "fcs_pkt_loop pkt fcs h =
     (case pkt of
        None \<Rightarrow> Some fcs
      | Some a \<Rightarrow>
          Option.bind (k_struct a h) (\<lambda>b.
            if kb_next b = None \<and> kb_size b < 2 then None
            else Option.bind (k_bytes (kb_data b) (if kb_next b = None then kb_size b - 2 else kb_size b) h)
              (\<lambda>bs. fcs_pkt_loop (kb_next b) (foldl fcs_step fcs bs) h)))"

definition ax25_calc_fcs_pkt :: "k_addr option \<Rightarrow> k_heap \<Rightarrow> u16 option" where
  "ax25_calc_fcs_pkt pkt h = fcs_pkt_loop pkt 0xFFFF h"

section \<open>Building a frame\<close>

definition addr_bytes :: "ax25_addr \<Rightarrow> u8 list" where
  "addr_bytes a = ax_callsign a @ [ax_ssid a]"

text \<open>The addresses one after the other, from the offset \<open>off\<close>.\<close>

fun write_addrs :: "k_addr \<Rightarrow> nat \<Rightarrow> ax25_addr list \<Rightarrow> k_heap \<Rightarrow> k_heap option" where
  "write_addrs d off [] h = Some h"
| "write_addrs d off (a # as) h = Option.bind (k_write d off (addr_bytes a) h) (write_addrs d (off + 7) as)"

text \<open>The buffer for the information, with two more bytes for the sequence: the outer result as always,
  the inner \<open>None\<close> when it can not be enlarged, \<open>Some None\<close> when there is none.\<close>

definition ax25_info :: "k_env \<Rightarrow> k_addr option \<Rightarrow> k_heap \<Rightarrow> (k_addr option option \<times> k_heap) option" where
  "ax25_info env info h =
     (case info of
        None \<Rightarrow>
          map_option (\<lambda>(i, h). (Some i, h)) (k_buffer_alloc None (Some [0xFF, 0xFF]) 2 (malloc_alloc env) h)
      | Some i \<Rightarrow>
          Option.bind (k_struct i h) (\<lambda>b.
            map_option (\<lambda>(e, h). (if e \<noteq> 0 then None else Some (Some i), h))
              (k_buffer_realloc_new i (kb_size b + 2) (malloc_alloc env) h)))"

definition ax25_pkt_build ::
  "k_env \<Rightarrow> k_addr option \<Rightarrow> ax25_addr list option \<Rightarrow> u8 \<Rightarrow> u8 \<Rightarrow> u8 \<Rightarrow> k_heap \<Rightarrow> (k_addr option \<times> k_heap) option" where
  "ax25_pkt_build env info addrs addrs_len ctrl protocol h =
     (if addrs = None \<or> addrs_len < 1 then Some (None, h)
      else if length (the addrs) < unat addrs_len then None
      else
        let n = unat addrs_len; size = 7 * n + 2
        in Option.bind (ax25_info env info h) (\<lambda>(info, h).
          case info of
            None \<Rightarrow> Some (None, h)
          | Some info \<Rightarrow> do {
              i \<leftarrow> info;
              b \<leftarrow> k_struct i h;
              fcs_data \<leftarrow> kb_data b;
              let fcs_off = kb_size b - 2;
              (pkt, h) \<leftarrow> k_buffer_alloc info None size (malloc_alloc env) h;
              p \<leftarrow> pkt;
              pb \<leftarrow> k_struct p h;
              pkt_data \<leftarrow> kb_data pb;
              h \<leftarrow> write_addrs pkt_data 0 (take n (the addrs)) h;
              bs \<leftarrow> k_read pkt_data (7 * n) h;
              h \<leftarrow> k_write pkt_data (7 * n - 1) [last bs OR 0x01] h;
              h \<leftarrow> k_write pkt_data (7 * n) [ctrl] h;
              h \<leftarrow> k_write pkt_data (7 * n + 1) [protocol] h;
              fcs \<leftarrow> ax25_calc_fcs_pkt pkt h;
              h \<leftarrow> k_write fcs_data fcs_off [NOT (ucast fcs)] h;
              h \<leftarrow> k_write fcs_data (fcs_off + 1) [NOT (ucast (drop_bit 8 fcs))] h;
              Some (pkt, h)
            }))"

section \<open>The sequence is CRC-16\<close>

text \<open>The reference: the remainder modulo \<open>x^16 + x^12 + x^5 + 1\<close>, least significant bit first.\<close>

definition crc16_bit :: "u16 \<Rightarrow> u16" where
  "crc16_bit x = (if bit x 0 then drop_bit 1 x XOR 0x8408 else drop_bit 1 x)"

definition crc16_x25 :: "u8 list \<Rightarrow> u16" where
  "crc16_x25 bs = foldl (\<lambda>crc c. (crc16_bit ^^ 8) (crc XOR ucast c)) 0xFFFF bs"

text \<open>Both are linear, so that it is enough to compare them on the words of one bit.\<close>

lemma word16_linear_eqI:
  fixes f g :: "u16 \<Rightarrow> u16"
  assumes "\<And>a b. f (a XOR b) = f a XOR f b" "\<And>a b. g (a XOR b) = g a XOR g b"
    "\<And>i. i < 16 \<Longrightarrow> f (push_bit i 1) = g (push_bit i 1)"
  shows "f x = g x"
proof -
  have z: "f 0 = 0" "g 0 = 0" using assms(1) [of 0 0] assms(2) [of 0 0] by simp_all
  have "f (take_bit k x) = g (take_bit k x)" if "k \<le> 16" for k
    using that
  proof (induction k)
    case (Suc k)
    have "take_bit (Suc k) x = take_bit k x XOR (if bit x k then push_bit k 1 else 0)"
      by (rule bit_word_eqI) (auto simp: bit_simps less_Suc_eq)
    then show ?case using Suc assms z by (simp split: if_splits)
  qed (simp add: z)
  from this [of 16] show ?thesis by (simp add: take_bit_word_eq_self)
qed

lemma crc16_bit_xor: "crc16_bit (v XOR w) = crc16_bit v XOR crc16_bit w"
  by (rule bit_word_eqI) (auto simp: crc16_bit_def bit_simps)

lemma crc16_bits_xor: "(crc16_bit ^^ n) (v XOR w) = (crc16_bit ^^ n) v XOR (crc16_bit ^^ n) w"
  by (induction n) (simp_all add: crc16_bit_xor)

lemma fcs_step_xor: "fcs_step (v XOR w) 0 = fcs_step v 0 XOR fcs_step w 0"
  by (simp add: fcs_step_def Let_def unsigned_xor_eq ac_simps)

lemma fcs_step_0: "fcs_step fcs c = fcs_step (fcs XOR ucast c) 0"
proof -
  have "ucast (fcs XOR ucast c) = ucast fcs XOR c"
    by (rule bit_word_eqI) (auto simp: bit_simps)
  moreover have "drop_bit 8 (ucast c :: u16) = 0" by (rule bit_word_eqI) (simp add: bit_simps)
  ultimately show ?thesis by (simp add: fcs_step_def Let_def)
qed

lemma fcs_step_is_crc16: "fcs_step fcs c = (crc16_bit ^^ 8) (fcs XOR ucast c)"
proof -
  have "fcs_step x 0 = (crc16_bit ^^ 8) x" for x
  proof (rule word16_linear_eqI [of "\<lambda>x. fcs_step x 0"])
    have p: "(crc16_bit ^^ 8) x = crc16_bit (crc16_bit (crc16_bit (crc16_bit (crc16_bit (crc16_bit (crc16_bit (crc16_bit x)))))))" for x
      by (simp add: numeral_eq_Suc)
    fix i :: nat
    assume "i < 16"
    then have i: "i \<in> {0, 1, 2, 3, 4, 5, 6, 7, 8, 9, 10, 11, 12, 13, 14, 15}"
      by (simp only: insert_iff empty_iff) arith
    show "fcs_step (push_bit i 1) 0 = (crc16_bit ^^ 8) (push_bit i 1)"
      unfolding p using i by (elim insertE emptyE; simp add: fcs_step_def Let_def crc16_bit_def)
  qed (rule fcs_step_xor crc16_bits_xor)+
  then show ?thesis by (simp add: fcs_step_0 [of fcs c])
qed

text \<open>What a receiver that runs over the sequence as well ends with.\<close>

lemma fcs_residue: "fcs_step (fcs_step fcs (NOT (ucast fcs))) (NOT (ucast (drop_bit 8 fcs))) = 0xF0B8"
proof -
  have a: "(v XOR k) XOR NOT v = NOT k" for v k :: u8
    by (rule bit_word_eqI) (auto simp: bit_simps)
  have "ucast fcs XOR NOT (ucast fcs) = (0xFF :: u8)" using a [where v = "ucast fcs" and k = 0] by simp
  then have 1: "fcs_step fcs (NOT (ucast fcs)) = drop_bit 8 fcs XOR 0x0F78"
    by (simp add: fcs_step_def Let_def mask_eq_exp_minus_1)
  have "ucast (0x0F78 :: u16) = (0x78 :: u8)" by simp
  then have "ucast (drop_bit 8 fcs XOR 0x0F78) XOR NOT (ucast (drop_bit 8 fcs)) = NOT (0x78 :: u8)"
    using a [where v = "ucast (drop_bit 8 fcs)" and k = "0x78"] by (simp only: unsigned_xor_eq)
  then have "ucast (drop_bit 8 fcs XOR 0x0F78) XOR NOT (ucast (drop_bit 8 fcs)) = (0x87 :: u8)" by simp
  then have "fcs_step (drop_bit 8 fcs XOR 0x0F78) (NOT (ucast (drop_bit 8 fcs))) = drop_bit 8 (drop_bit 8 fcs XOR 0x0F78) XOR 0xF0B7"
    by (simp add: fcs_step_def Let_def)
  also have "drop_bit 8 (drop_bit 8 fcs XOR 0x0F78) = drop_bit 16 fcs XOR 0x0F" by simp
  also have "drop_bit 16 fcs = 0" by (rule bit_word_eqI) (simp add: bit_simps)
  finally show ?thesis by (simp add: 1)
qed

section \<open>What a frame is\<close>

definition frame_header :: "ax25_addr list \<Rightarrow> u8 \<Rightarrow> u8 \<Rightarrow> u8 list" where
  "frame_header addrs ctrl protocol =
     (let as = concat (map addr_bytes addrs) in butlast as @ [last as OR 0x01, ctrl, protocol])"

definition frame_fcs :: "u8 list \<Rightarrow> u8 list" where
  "frame_fcs bs = (let fcs = foldl fcs_step 0xFFFF bs in [NOT (ucast fcs), NOT (ucast (drop_bit 8 fcs))])"

text \<open>A buffer with its data, all of it written.\<close>

definition k_holds :: "k_addr \<Rightarrow> k_addr option \<Rightarrow> k_addr \<Rightarrow> u8 list \<Rightarrow> k_heap \<Rightarrow> bool" where
  "k_holds a next d bs h \<longleftrightarrow>
     kh_cells h a = Some (KStruct \<lparr>kb_next = next, kb_size = length bs, kb_data = Some d\<rparr>) \<and>
     kh_cells h d = Some (KBytes (map Some bs))"

definition addr_ok :: "ax25_addr \<Rightarrow> bool" where
  "addr_ok a \<longleftrightarrow> length (ax_callsign a) = 6"

lemma k_write_at:
  assumes "kh_cells h a = Some (KBytes (xs @ ys @ zs))" "off = length xs" "length ys = length bs"
  shows "k_write a off bs h = Some (set_cell a (Some (KBytes (xs @ map Some bs @ zs))) h)"
  using assms by (simp add: k_write_def)

lemma set_cell_twice [simp]: "set_cell a c (set_cell a c' h) = set_cell a c h"
  by (simp add: set_cell_def)

lemma k_read_all: "kh_cells h a = Some (KBytes (map Some bs @ zs)) \<Longrightarrow> n = length bs \<Longrightarrow> k_read a n h = Some bs"
  by (auto simp: k_read_def comp_def)

lemma write_addrs_bytes:
  assumes "kh_cells h d = Some (KBytes (xs @ ys @ zs))" "off = length xs" "length ys = 7 * length as" "list_all addr_ok as"
  shows "write_addrs d off as h = Some (set_cell d (Some (KBytes (xs @ map Some (concat (map addr_bytes as)) @ zs))) h)"
  using assms
proof (induction as arbitrary: xs ys off h)
  case Nil
  then show ?case by (simp add: set_cell_def fun_upd_idem)
next
  case (Cons a as)
  let ?h = "set_cell d (Some (KBytes (xs @ map Some (addr_bytes a) @ drop 7 ys @ zs))) h"
  have l: "length (addr_bytes a) = 7" using Cons.prems(4) by (simp add: addr_bytes_def addr_ok_def)
  have "xs @ ys @ zs = xs @ take 7 ys @ drop 7 ys @ zs" by simp
  then have "k_write d off (addr_bytes a) h = Some ?h"
    using k_write_at [of h d xs "take 7 ys" "drop 7 ys @ zs" off "addr_bytes a"] Cons.prems l by simp
  moreover have "write_addrs d (off + 7) as ?h =
      Some (set_cell d (Some (KBytes ((xs @ map Some (addr_bytes a)) @ map Some (concat (map addr_bytes as)) @ zs))) ?h)"
    using Cons.prems l by (intro Cons.IH [of _ _ "drop 7 ys"]) simp_all
  ultimately show ?case by simp
qed

lemma concat_addr_length: "list_all addr_ok as \<Longrightarrow> length (concat (map addr_bytes as)) = 7 * length as"
  by (induction as) (simp_all add: addr_bytes_def addr_ok_def)

lemma length_2_cases: "length xs = 2 \<Longrightarrow> \<exists>u v. xs = [u, v]"
  by (cases xs; cases "tl xs") auto

text \<open>The header is written into memory of its size.\<close>

lemma header_written:
  assumes "kh_cells h d = Some (KBytes ys)" "length ys = 7 * length as + 2" "list_all addr_ok as" "as \<noteq> []"
  shows "do {
      h \<leftarrow> write_addrs d 0 as h;
      bs \<leftarrow> k_read d (7 * length as) h;
      h \<leftarrow> k_write d (7 * length as - 1) [last bs OR 0x01] h;
      h \<leftarrow> k_write d (7 * length as) [ctrl] h;
      k_write d (7 * length as + 1) [protocol] h } =
    Some (set_cell d (Some (KBytes (map Some (frame_header as ctrl protocol)))) h)"
proof -
  let ?A = "concat (map addr_bytes as)" and ?n = "7 * length as"
  have A: "length ?A = ?n" "?A \<noteq> []"
    using concat_addr_length [OF assms(3)] assms(4) by (auto simp: addr_bytes_def neq_Nil_conv)
  obtain u v where uv: "drop ?n ys = [u, v]" using length_2_cases [of "drop ?n ys"] assms(2) by auto
  then have ys: "ys = take ?n ys @ [u, v]" using append_take_drop_id [of ?n ys] by simp
  let ?B = "map Some (butlast ?A)" and ?l = "last ?A OR 0x01"
  have lB: "length ?B = ?n - 1" using A by simp
  have 1: "write_addrs d 0 as h = Some (set_cell d (Some (KBytes (map Some ?A @ [u, v]))) h)"
    using write_addrs_bytes [of h d "[]" "take ?n ys" "[u, v]" 0 as] assms ys by simp
  have "map Some ?A = ?B @ [Some (last ?A)]" using A(2) by (metis append_butlast_last_id map_append list.map)
  then have 2: "k_write d (?n - 1) [?l] (set_cell d (Some (KBytes (map Some ?A @ [u, v]))) h) =
      Some (set_cell d (Some (KBytes (?B @ [Some ?l] @ [u, v]))) h)"
    using k_write_at [of _ d ?B "[Some (last ?A)]" "[u, v]" "?n - 1" "[?l]"] lB by simp
  have pos: "?n - 1 + 1 = ?n" using assms(4) by (cases as) auto
  have 3: "k_write d ?n [ctrl] (set_cell d (Some (KBytes (?B @ [Some ?l] @ [u, v]))) h) =
      Some (set_cell d (Some (KBytes ((?B @ [Some ?l]) @ [Some ctrl] @ [v]))) h)"
    using k_write_at [of _ d "?B @ [Some ?l]" "[u]" "[v]" ?n "[ctrl]"] lB pos by simp
  have 4: "k_write d (?n + 1) [protocol] (set_cell d (Some (KBytes ((?B @ [Some ?l]) @ [Some ctrl] @ [v]))) h) =
      Some (set_cell d (Some (KBytes ((?B @ [Some ?l, Some ctrl]) @ [Some protocol] @ []))) h)"
    using k_write_at [of _ d "?B @ [Some ?l, Some ctrl]" "[v]" "[]" "?n + 1" "[protocol]"] lB pos by simp
  have r: "k_read d ?n (set_cell d (Some (KBytes (map Some ?A @ [u, v]))) h) = Some ?A"
    using A(1) by (intro k_read_all) simp_all
  show ?thesis using 1 2 3 4 r by (simp add: frame_header_def Let_def)
qed

text \<open>A buffer from the C library, when both requests succeed.\<close>

lemma malloc_buffer:
  assumes "malloc_ok env (kh_next h)" "malloc_ok env (kh_next h + 1)" "data = None \<or> n \<le> length (the data)"
  shows "\<exists>m h'. k_buffer_alloc next data n (malloc_alloc env) h = Some (Some (Heap (kh_next h)), h') \<and> length m = n \<and>
     (data \<noteq> None \<longrightarrow> m = map Some (take n (the data))) \<and> kh_next h' = kh_next h + 2 \<and> kh_pool h' = kh_pool h \<and>
     kh_cells h' = (kh_cells h)(Heap (kh_next h + 1) \<mapsto> KBytes m,
       Heap (kh_next h) \<mapsto> KStruct \<lparr>kb_next = next, kb_size = n, kb_data = Some (Heap (kh_next h + 1))\<rparr>)"
proof -
  define h1 where "h1 = snd (malloc_new env sizeof_k_buffer h)"
  define h2 where "h2 = snd (malloc_new env n h1)"
  have 1: "malloc_new env sizeof_k_buffer h = (Some (Heap (kh_next h)), h1)" "kh_next h1 = kh_next h + 1" "kh_pool h1 = kh_pool h"
      "kh_cells h1 = (kh_cells h)(Heap (kh_next h) \<mapsto> KBytes (replicate sizeof_k_buffer None))"
    using assms(1) by (simp_all add: h1_def malloc_new_def Let_def)
  have 2: "malloc_new env n h1 = (Some (Heap (kh_next h + 1)), h2)" "kh_next h2 = kh_next h + 2" "kh_pool h2 = kh_pool h"
      "kh_cells h2 = (kh_cells h1)(Heap (kh_next h + 1) \<mapsto> KBytes (replicate n None))"
    using assms(2) 1(2,3) by (simp_all add: h2_def malloc_new_def Let_def)
  obtain m where m: "k_fill data n (Heap (kh_next h + 1)) h2 = Some (set_cell (Heap (kh_next h + 1)) (Some (KBytes m)) h2)"
      "length m = n" "data \<noteq> None \<longrightarrow> take n m = map Some (take n (the data))"
    using k_fill_bytes [of h2 "Heap (kh_next h + 1)" "replicate n None" n data] 2(4) assms(3) by auto
  have "k_buffer_alloc next data n (malloc_alloc env) h = Some (Some (Heap (kh_next h)),
      set_cell (Heap (kh_next h)) (Some (KStruct \<lparr>kb_next = next, kb_size = n, kb_data = Some (Heap (kh_next h + 1))\<rparr>))
        (set_cell (Heap (kh_next h + 1)) (Some (KBytes m)) h2))"
    using 1(1) 2(1) m(1) by (simp add: k_buffer_alloc_def malloc_alloc_def)
  then show ?thesis
    using 1 2 m by (intro exI [of _ m]) (auto simp: fun_eq_iff)
qed

lemma fcs_pkt_two:
  assumes "k_holds p (Some i) pd hdr h" "k_struct i h = Some \<lparr>kb_next = None, kb_size = length bs + 2, kb_data = Some d\<rparr>"
    "kh_cells h d = Some (KBytes (map Some bs @ zs))"
  shows "ax25_calc_fcs_pkt (Some p) h = Some (foldl fcs_step 0xFFFF (hdr @ bs))"
proof -
  have 1: "k_struct p h = Some \<lparr>kb_next = Some i, kb_size = length hdr, kb_data = Some pd\<rparr>"
      "k_bytes (Some pd) (length hdr) h = Some hdr"
    using assms(1) k_read_all [of h pd hdr "[]"] by (auto simp: k_holds_def k_struct_def k_bytes_def)
  have 2: "k_bytes (Some d) (length bs) h = Some bs"
    using assms(3) k_read_all [of h d bs zs] by (auto simp: k_bytes_def)
  have "fcs_pkt_loop (Some i) f h = Some (foldl fcs_step f bs)" for f
    using assms(2) 2 by (simp add: fcs_pkt_loop.simps [of "Some i"] fcs_pkt_loop.simps [of None])
  then show ?thesis
    unfolding ax25_calc_fcs_pkt_def fcs_pkt_loop.simps [of "Some p"] using 1 by simp
qed

text \<open>From the buffer with the information and room for the sequence to the frame.\<close>

lemma frame_built:
  assumes "malloc_inv h" "malloc_ok env (kh_next h)" "malloc_ok env (kh_next h + 1)" "as \<noteq> []" "list_all addr_ok as"
    "kh_cells h i = Some (KStruct \<lparr>kb_next = None, kb_size = length bs + 2, kb_data = Some d\<rparr>)"
    "kh_cells h d = Some (KBytes (map Some bs @ [x, y]))"
  shows "\<exists>p pd h'. do {
      b \<leftarrow> k_struct i h;
      fcs_data \<leftarrow> kb_data b;
      let fcs_off = kb_size b - 2;
      (pkt, h) \<leftarrow> k_buffer_alloc (Some i) None (7 * length as + 2) (malloc_alloc env) h;
      p \<leftarrow> pkt;
      pb \<leftarrow> k_struct p h;
      pkt_data \<leftarrow> kb_data pb;
      h \<leftarrow> write_addrs pkt_data 0 as h;
      bs \<leftarrow> k_read pkt_data (7 * length as) h;
      h \<leftarrow> k_write pkt_data (7 * length as - 1) [last bs OR 0x01] h;
      h \<leftarrow> k_write pkt_data (7 * length as) [ctrl] h;
      h \<leftarrow> k_write pkt_data (7 * length as + 1) [protocol] h;
      fcs \<leftarrow> ax25_calc_fcs_pkt pkt h;
      h \<leftarrow> k_write fcs_data fcs_off [NOT (ucast fcs)] h;
      h \<leftarrow> k_write fcs_data (fcs_off + 1) [NOT (ucast (drop_bit 8 fcs))] h;
      Some (pkt, h) } = Some (Some p, h') \<and>
    k_holds p (Some i) pd (frame_header as ctrl protocol) h' \<and>
    k_holds i None d (bs @ frame_fcs (frame_header as ctrl protocol @ bs)) h' \<and>
    kh_cells h p = None \<and> kh_cells h pd = None \<and> (\<forall>a. a \<notin> {p, pd, d} \<longrightarrow> kh_cells h' a = kh_cells h a)"
proof -
  let ?n = "7 * length as + 2" and ?p = "Heap (kh_next h)" and ?pd = "Heap (kh_next h + 1)"
  let ?hdr = "frame_header as ctrl protocol"
  obtain m h1 where h1: "k_buffer_alloc (Some i) None ?n (malloc_alloc env) h = Some (Some ?p, h1)" "length m = ?n"
      "kh_cells h1 = (kh_cells h)(?pd \<mapsto> KBytes m, ?p \<mapsto> KStruct \<lparr>kb_next = Some i, kb_size = ?n, kb_data = Some ?pd\<rparr>)"
    using malloc_buffer [OF assms(2,3), of None ?n "Some i"] by auto
  have free: "kh_cells h ?p = None" "kh_cells h ?pd = None" using assms(1) by (simp_all add: malloc_inv_def)
  have ne: "i \<noteq> ?p" "i \<noteq> ?pd" "d \<noteq> ?p" "d \<noteq> ?pd" "i \<noteq> d" using free assms(6,7) by auto
  let ?h2 = "set_cell ?pd (Some (KBytes (map Some ?hdr))) h1"
  have w: "do {
      h \<leftarrow> write_addrs ?pd 0 as h1;
      bs \<leftarrow> k_read ?pd (7 * length as) h;
      h \<leftarrow> k_write ?pd (7 * length as - 1) [last bs OR 0x01] h;
      h \<leftarrow> k_write ?pd (7 * length as) [ctrl] h;
      k_write ?pd (7 * length as + 1) [protocol] h } = Some ?h2"
    using header_written [of h1 ?pd m as ctrl protocol] h1(2,3) assms(4,5) by simp
  have lh: "length ?hdr = ?n" 
  proof -
    have "length (concat (map addr_bytes as)) = 7 * length as" by (rule concat_addr_length) (rule assms(5))
    moreover have "0 < length as" using assms(4) by simp
    ultimately show ?thesis by (simp add: frame_header_def Let_def)
  qed
  have hp: "k_holds ?p (Some i) ?pd ?hdr ?h2" using h1(3) lh by (simp add: k_holds_def)
  have si: "k_struct i ?h2 = Some \<lparr>kb_next = None, kb_size = length bs + 2, kb_data = Some d\<rparr>"
    using assms(6) ne h1(3) by (simp add: k_struct_def)
  have cd: "kh_cells ?h2 d = Some (KBytes (map Some bs @ [x, y]))" using assms(7) ne h1(3) by simp
  let ?f = "foldl fcs_step 0xFFFF (?hdr @ bs)"
  have fcs: "ax25_calc_fcs_pkt (Some ?p) ?h2 = Some ?f" by (rule fcs_pkt_two [OF hp si cd])
  let ?l = "NOT (ucast ?f) :: u8" and ?u = "NOT (ucast (drop_bit 8 ?f)) :: u8"
  have w1: "k_write d (length bs) [?l] ?h2 = Some (set_cell d (Some (KBytes (map Some bs @ [Some ?l] @ [y]))) ?h2)"
    using k_write_at [of ?h2 d "map Some bs" "[x]" "[y]" "length bs" "[?l]"] cd by simp
  have w2: "k_write d (length bs + 1) [?u] (set_cell d (Some (KBytes (map Some bs @ [Some ?l] @ [y]))) ?h2) =
      Some (set_cell d (Some (KBytes (map Some (bs @ [?l, ?u])))) ?h2)"
    using k_write_at [of _ d "map Some bs @ [Some ?l]" "[y]" "[]" "length bs + 1" "[?u]"] by simp
  let ?h' = "set_cell d (Some (KBytes (map Some (bs @ [?l, ?u])))) ?h2"
  have "k_holds ?p (Some i) ?pd ?hdr ?h'" using hp ne by (simp add: k_holds_def)
  moreover have "k_holds i None d (bs @ frame_fcs (?hdr @ bs)) ?h'"
    using assms(6) ne h1(3) by (simp add: k_holds_def frame_fcs_def Let_def)
  moreover have "\<forall>a. a \<notin> {?p, ?pd, d} \<longrightarrow> kh_cells ?h' a = kh_cells h a" using h1(3) by simp
  moreover have "k_struct i h = Some \<lparr>kb_next = None, kb_size = length bs + 2, kb_data = Some d\<rparr>"
    using assms(6) by (simp add: k_struct_def)
  moreover have "k_struct ?p h1 = Some \<lparr>kb_next = Some i, kb_size = ?n, kb_data = Some ?pd\<rparr>"
    using h1(3) by (simp add: k_struct_def)
  ultimately show ?thesis
    using h1(1) w fcs w1 w2 free
    by (intro exI [of _ ?p] exI [of _ ?pd] exI [of _ ?h']) (auto simp: bind_eq_Some_conv Let_def)
qed

section \<open>Properties\<close>

lemma ax25_pkt_build_unfold:
  assumes "0 < addrs_len" "length as = unat addrs_len" "ax25_info env info h = Some (Some (Some i), h1)"
  shows "ax25_pkt_build env info (Some as) addrs_len ctrl protocol h = do {
      b \<leftarrow> k_struct i h1;
      fcs_data \<leftarrow> kb_data b;
      let fcs_off = kb_size b - 2;
      (pkt, h) \<leftarrow> k_buffer_alloc (Some i) None (7 * length as + 2) (malloc_alloc env) h1;
      p \<leftarrow> pkt;
      pb \<leftarrow> k_struct p h;
      pkt_data \<leftarrow> kb_data pb;
      h \<leftarrow> write_addrs pkt_data 0 as h;
      bs \<leftarrow> k_read pkt_data (7 * length as) h;
      h \<leftarrow> k_write pkt_data (7 * length as - 1) [last bs OR 0x01] h;
      h \<leftarrow> k_write pkt_data (7 * length as) [ctrl] h;
      h \<leftarrow> k_write pkt_data (7 * length as + 1) [protocol] h;
      fcs \<leftarrow> ax25_calc_fcs_pkt pkt h;
      h \<leftarrow> k_write fcs_data fcs_off [NOT (ucast fcs)] h;
      h \<leftarrow> k_write fcs_data (fcs_off + 1) [NOT (ucast (drop_bit 8 fcs))] h;
      Some (pkt, h) }"
proof -
  have "\<not> addrs_len < 1" using assms(1) by (simp add: word_less_nat_alt)
  then show ?thesis using assms(2,3) by (simp add: ax25_pkt_build_def Let_def)
qed

text \<open>C32. The check sequence is CRC-16: over any bytes, in one piece or spread over the buffers of a
  packet, the code computes the remainder modulo \<open>x^16 + x^12 + x^5 + 1\<close>, and a receiver that runs
  over a message with its complemented sequence behind it ends with \<open>0xF0B8\<close>.\<close>

theorem ax25_fcs_is_crc16:
  "ax25_calc_fcs bs (int (length bs)) = Some (crc16_x25 bs) \<and>
   (k_holds p (Some i) pd hdr h \<and> k_holds i None d (bs @ [x, y]) h \<longrightarrow>
      ax25_calc_fcs_pkt (Some p) h = Some (crc16_x25 (hdr @ bs))) \<and>
   crc16_x25 (bs @ frame_fcs bs) = 0xF0B8"
proof (intro conjI impI)
  have e: "crc16_x25 cs = foldl fcs_step 0xFFFF cs" for cs
    by (simp add: crc16_x25_def fcs_step_is_crc16 [abs_def])
  then show "ax25_calc_fcs bs (int (length bs)) = Some (crc16_x25 bs)" by (simp add: ax25_calc_fcs_def)
  show "crc16_x25 (bs @ frame_fcs bs) = 0xF0B8" by (simp add: e frame_fcs_def Let_def fcs_residue)
  assume "k_holds p (Some i) pd hdr h \<and> k_holds i None d (bs @ [x, y]) h"
  then show "ax25_calc_fcs_pkt (Some p) h = Some (crc16_x25 (hdr @ bs))"
    unfolding e by (intro fcs_pkt_two [where zs = "[Some x, Some y]"]) (auto simp: k_holds_def k_struct_def)
qed


definition demo_addrs :: "ax25_addr list" where
  "demo_addrs = [AX25_ADDR_NOCALL, AX25_ADDR_NOCALL]"

definition demo_info :: "u8 list \<Rightarrow> k_heap" where
  "demo_info bs = \<lparr>kh_cells = [Heap 0 \<mapsto> KStruct \<lparr>kb_next = None, kb_size = length bs, kb_data = Some (Heap 1)\<rparr>,
     Heap 1 \<mapsto> KBytes (map Some bs)], kh_next = 2, kh_pool = kh_pool (empty_heap 1 10)\<rparr>"

lemma demo_info_ok: "malloc_inv (demo_info bs)" "k_holds (Heap 0) None (Heap 1) bs (demo_info bs)" "kh_next (demo_info bs) = 2"
  by (auto simp: malloc_inv_def demo_info_def k_holds_def)

lemma demo_addrs_ok: "list_all addr_ok demo_addrs" "length demo_addrs = 2"
  by (simp_all add: demo_addrs_def addr_ok_def AX25_ADDR_NOCALL_def)

text \<open>The information \<open>ABC\<close> from and to the default address, with the sequence \<open>B8 E1\<close>.\<close>

lemma demo_fcs: "frame_fcs (frame_header demo_addrs 0x03 0xF0 @ [0x41, 0x42, 0x43]) = [0xB8, 0xE1]"
  by (simp add: frame_fcs_def frame_header_def demo_addrs_def AX25_ADDR_NOCALL_def addr_bytes_def AX25_CHAR_def fcs_step_def Let_def)


lemma malloc_buffer_None:
  assumes "\<not> (malloc_ok env (kh_next h) \<and> malloc_ok env (kh_next h + 1))"
  shows "\<exists>h'. k_buffer_alloc next None n (malloc_alloc env) h = Some (None, h')"
  using assms by (auto simp: k_buffer_alloc_def malloc_alloc_def malloc_new_def malloc_free_def Let_def)

text \<open>The buffer of the information after \<open>realloc\<close> moved its data or failed.\<close>

lemma ax25_info_moved:
  assumes "malloc_inv h" "k_holds i None (Heap n) bs h" "realloc_moves env (kh_next h) \<or> \<not> malloc_ok env (kh_next h)"
  shows "\<exists>h1. ax25_info env (Some i) h = Some (Some (Some i), h1) \<and> malloc_inv h1 \<and>
     k_struct i h1 = Some \<lparr>kb_next = None, kb_size = length bs + 2, kb_data = Some (Heap n)\<rparr> \<and>
     kh_cells h1 (Heap n) \<in> {None, Some (KBytes (map Some bs))} \<and> n < kh_next h1"
proof -
  let ?b = "\<lparr>kb_next = None, kb_size = length bs + 2, kb_data = Some (Heap n)\<rparr>"
  have c: "kh_cells h i = Some (KStruct \<lparr>kb_next = None, kb_size = length bs, kb_data = Some (Heap n)\<rparr>)"
      "kh_cells h (Heap n) = Some (KBytes (map Some bs))"
    using assms(2) by (auto simp: k_holds_def)
  then have in_ne: "i \<noteq> Heap n" "i \<noteq> Heap (kh_next h)" "n \<noteq> kh_next h"
    using assms(1) by (auto simp: malloc_inv_def)
  have lt: "n < kh_next h" using assms(1) c(2) by (auto simp: malloc_inv_def not_le intro: ccontr)
  show ?thesis
  proof (cases "malloc_ok env (kh_next h)")
    case True
    let ?h1 = "set_cell i (Some (KStruct ?b)) (set_cell (Heap (kh_next h)) (Some (KBytes (map Some bs @ [None, None])))
        (set_cell (Heap n) None (h\<lparr>kh_next := kh_next h + 1\<rparr>)))"
    have "ax25_info env (Some i) h = Some (Some (Some i), ?h1)"
      using assms(3) True c by (simp add: ax25_info_def k_struct_def k_buffer_realloc_new_def malloc_alloc_def malloc_realloc_def
          Let_def numeral_2_eq_2)
    moreover have "malloc_inv ?h1" using assms(1) c by (auto simp: malloc_inv_def)
    ultimately show ?thesis using in_ne lt by (intro exI [of _ ?h1]) (simp add: k_struct_def)
  next
    case False
    let ?h1 = "set_cell i (Some (KStruct ?b)) (h\<lparr>kh_next := kh_next h + 1\<rparr>)"
    have "ax25_info env (Some i) h = Some (Some (Some i), ?h1)"
      using False c by (simp add: ax25_info_def k_struct_def k_buffer_realloc_new_def malloc_alloc_def malloc_realloc_def Let_def)
    moreover have "malloc_inv ?h1" using assms(1) c by (auto simp: malloc_inv_def)
    ultimately show ?thesis using in_ne lt c(2) by (intro exI [of _ ?h1]) (simp add: k_struct_def)
  qed
qed

text \<open>When the C library moves the buffer of the information, or can not enlarge it,
  \<open>ax25_pkt_build\<close> writes the check sequence through a pointer to memory that is freed or too small:
  the result is undefined, whatever happens to its other requests for memory.\<close>

theorem ax25_pkt_build_moved_undefined:
  assumes "malloc_inv h" "k_holds i None (Heap n) bs h" "realloc_moves env (kh_next h) \<or> \<not> malloc_ok env (kh_next h)"
    "0 < addrs_len" "length as = unat addrs_len" "list_all addr_ok as"
  shows "ax25_pkt_build env (Some i) (Some as) addrs_len ctrl protocol h = None"
proof -
  have ne: "as \<noteq> []" using assms(4,5) by (auto simp: word_less_nat_alt)
  obtain h1 where h1: "ax25_info env (Some i) h = Some (Some (Some i), h1)" "malloc_inv h1"
      "k_struct i h1 = Some \<lparr>kb_next = None, kb_size = length bs + 2, kb_data = Some (Heap n)\<rparr>"
      "kh_cells h1 (Heap n) \<in> {None, Some (KBytes (map Some bs))}" "n < kh_next h1"
    using ax25_info_moved [OF assms(1-3)] by blast
  show ?thesis
  proof (cases "malloc_ok env (kh_next h1) \<and> malloc_ok env (kh_next h1 + 1)")
    case False
    then obtain h2 where "k_buffer_alloc (Some i) None (7 * length as + 2) (malloc_alloc env) h1 = Some (None, h2)"
      using malloc_buffer_None by blast
    then show ?thesis unfolding ax25_pkt_build_unfold [OF assms(4,5) h1(1)] using h1(3) by (simp add: Let_def)
  next
    case True
    let ?pd = "Heap (kh_next h1 + 1)"
    obtain m h2 where h2: "k_buffer_alloc (Some i) None (7 * length as + 2) (malloc_alloc env) h1 = Some (Some (Heap (kh_next h1)), h2)"
        "length m = 7 * length as + 2" "kh_cells h2 = (kh_cells h1)(?pd \<mapsto> KBytes m, Heap (kh_next h1) \<mapsto>
          KStruct \<lparr>kb_next = Some i, kb_size = 7 * length as + 2, kb_data = Some ?pd\<rparr>)"
      using malloc_buffer [of env h1 None "7 * length as + 2" "Some i"] True by auto
    let ?h3 = "set_cell ?pd (Some (KBytes (map Some (frame_header as ctrl protocol)))) h2"
    have w: "do {
        h \<leftarrow> write_addrs ?pd 0 as h2;
        bs \<leftarrow> k_read ?pd (7 * length as) h;
        h \<leftarrow> k_write ?pd (7 * length as - 1) [last bs OR 0x01] h;
        h \<leftarrow> k_write ?pd (7 * length as) [ctrl] h;
        k_write ?pd (7 * length as + 1) [protocol] h } = Some ?h3"
      using header_written [of h2 ?pd m as ctrl protocol] h2(2,3) assms(6) ne by simp
    have "kh_cells ?h3 (Heap n) \<in> {None, Some (KBytes (map Some bs))}" using h1(4,5) h2(3) by auto
    then have "k_write (Heap n) (length bs) [x] ?h3 = None" for x by (auto simp: k_write_def)
    moreover have "k_struct (Heap (kh_next h1)) h2 = Some \<lparr>kb_next = Some i, kb_size = 7 * length as + 2, kb_data = Some ?pd\<rparr>"
      using h2(3) by (simp add: k_struct_def)
    ultimately show ?thesis
      unfolding ax25_pkt_build_unfold [OF assms(4,5) h1(1)] using h1(3) h2(1) w
      by (auto simp: bind_eq_Some_conv Let_def bind_eq_None_conv)
  qed
qed

lemma ax25_pkt_build_moved_undefined_witness:
  "ax25_pkt_build \<lparr>malloc_ok = (\<lambda>_. True), realloc_moves = (\<lambda>_. True)\<rparr> (Some (Heap 0)) (Some demo_addrs) 2 0x03 0xF0
     (demo_info [0x41, 0x42, 0x43]) = None"
  by (rule ax25_pkt_build_moved_undefined [OF demo_info_ok(1,2)]) (use demo_addrs_ok in simp_all)

lemma ax25_fcs_is_crc16_witness:
  "ax25_calc_fcs_pkt (Some (Heap 2)) (set_cell (Heap 2) (Some (KStruct \<lparr>kb_next = Some (Heap 0), kb_size = 1, kb_data = Some (Heap 3)\<rparr>))
     (set_cell (Heap 3) (Some (KBytes [Some 7])) (demo_info [1, 2, 3]))) = Some (crc16_x25 [7, 1])"
proof -
  let ?h = "set_cell (Heap 2) (Some (KStruct \<lparr>kb_next = Some (Heap 0), kb_size = 1, kb_data = Some (Heap 3)\<rparr>))
     (set_cell (Heap 3) (Some (KBytes [Some 7])) (demo_info [1, 2, 3]))"
  have "k_holds (Heap 2) (Some (Heap 0)) (Heap 3) [7] ?h" "k_holds (Heap 0) None (Heap 1) ([1] @ [2, 3]) ?h"
    by (simp_all add: k_holds_def demo_info_def)
  then show ?thesis using ax25_fcs_is_crc16 [of "[1]" "Heap 2" "Heap 0" "Heap 3" "[7]" ?h "Heap 1" 2 3] by auto
qed

text \<open>Every string gives an address of six characters, so that \<open>ax25_pkt_build_frame\<close> applies to the
  addresses \<open>ax25_addr_init\<close> makes.\<close>

lemma fold_pad_length: "length (fold (\<lambda>i cs. cs[i := c]) is xs) = length xs"
  by (induction "is" arbitrary: xs) simp_all

lemma ax25_addr_loop_ok: "addr_ok r \<Longrightarrow> addr_ok (fst (ax25_addr_loop s i r))"
  by (induction s i r rule: ax25_addr_loop.induct) (auto simp: addr_ok_def split: list.splits)

lemma ax25_addr_init_ok: "addr_ok (ax25_addr_init addr)"
proof -
  have "addr_ok AX25_ADDR_NOCALL" by (simp add: addr_ok_def AX25_ADDR_NOCALL_def)
  then show ?thesis
    using ax25_addr_loop_ok [of AX25_ADDR_NOCALL]
    by (auto simp: ax25_addr_init_def addr_ok_def fold_pad_length split: option.splits prod.splits) (metis fst_conv)
qed

end
