(* ===== verification/KKlog.thy ===== *)
theory KKlog
  imports Prelude
begin

text \<open>
  The log (\<open>kubos-core/source/modules/klog/klog.c\<close>): messages go to the end of a file, and to the next of
  a row of files (parts) when it is full.  The directory is a map from the number of a part to its
  contents.  An open file is the number of its part and the position; what is written counts as part
  of the file at once, as it does when the file is closed before its size is asked for.  Whether a
  file can be opened and whether \<open>stat\<close> fails for another reason than a missing file are parameters.
  A message is the text the format and its arguments make.
\<close>

section \<open>State\<close>

type_synonym klog_dir = "nat \<Rightarrow> u8 list option"

record klog_env =
  fopen_ok :: "nat \<Rightarrow> bool"
  stat_err :: "nat \<Rightarrow> bool"

record klog_config =
  kc_file_path :: bool \<comment> \<open>whether there is one\<close>
  kc_file_path_len :: u8
  kc_part_size :: u32
  kc_max_parts :: u8
  kc_console_level :: nat
  kc_file_level :: nat
  kc_file_logging :: bool

record klog_handle =
  kl_log_file :: "(nat \<times> nat) option"
  kl_current_part :: u8
  kl_current_part_size :: u32
  kl_config :: klog_config

definition KLOG_SUFFIX_LEN :: nat where "KLOG_SUFFIX_LEN = 4"
definition KLOG_PATH_LEN :: nat where "KLOG_PATH_LEN = 255"
definition KLOG_MAX_PATH :: nat where "KLOG_MAX_PATH = KLOG_PATH_LEN - KLOG_SUFFIX_LEN - 1"

definition EINVAL :: int where "EINVAL = 22"
definition ENOENT :: int where "ENOENT = 2"

section \<open>Choosing the file\<close>

definition klog_cleanup :: "klog_handle \<Rightarrow> klog_handle" where
  "klog_cleanup kl = kl\<lparr>kl_log_file := None\<rparr>"

text \<open>\<open>fopen\<close> with the modes \<open>w+\<close> and \<open>r+\<close>.\<close>

definition klog_fopen_w :: "klog_env \<Rightarrow> nat \<Rightarrow> klog_dir \<Rightarrow> (nat \<times> nat) option \<times> klog_dir" where
  "klog_fopen_w env i dir = (if fopen_ok env i then (Some (i, 0), dir(i \<mapsto> [])) else (None, dir))"

definition klog_fopen_r :: "klog_env \<Rightarrow> nat \<Rightarrow> (nat \<times> nat) option" where
  "klog_fopen_r env i = (if fopen_ok env i then Some (i, 0) else None)"

text \<open>The loop over the parts; the last result is \<open>pos\<close>.\<close>

fun klog_scan :: "klog_env \<Rightarrow> nat list \<Rightarrow> klog_handle \<Rightarrow> klog_dir \<Rightarrow> klog_handle \<times> klog_dir \<times> u32" where
  "klog_scan env [] kl dir = (kl, dir, 0)"
| "klog_scan env (i # is) kl dir =
     (if stat_err env i then klog_scan env is kl dir
      else case dir i of
        None \<Rightarrow>
          (case klog_fopen_w env i dir of (f, dir) \<Rightarrow>
             (kl\<lparr>kl_log_file := f, kl_current_part := of_nat i, kl_current_part_size := 0\<rparr>, dir, 0))
      | Some bs \<Rightarrow>
          if length bs < unat (kc_part_size (kl_config kl)) then
            (kl\<lparr>kl_log_file := klog_fopen_r env i, kl_current_part := of_nat i, kl_current_part_size := of_nat (length bs)\<rparr>,
             dir, of_nat (length bs) - 1)
          else klog_scan env is kl dir)"

definition klog_rotate :: "klog_env \<Rightarrow> klog_handle \<Rightarrow> klog_dir \<Rightarrow> klog_handle \<times> klog_dir" where
  "klog_rotate env kl dir =
     (let part = kl_current_part kl + 1;
          part = (if part > kc_max_parts (kl_config kl) then 0 else part)
      in case klog_fopen_w env (unat part) (dir(unat part := None)) of (f, dir) \<Rightarrow>
           (kl\<lparr>kl_log_file := f, kl_current_part := part\<rparr>, dir))"

text \<open>\<open>fseek\<close> to the end.\<close>

definition klog_seek_end :: "u32 \<Rightarrow> klog_handle \<Rightarrow> klog_dir \<Rightarrow> klog_handle" where
  "klog_seek_end pos kl dir =
     (case kl_log_file kl of
        None \<Rightarrow> kl
      | Some (i, p) \<Rightarrow> if pos > 0 then kl\<lparr>kl_log_file := Some (i, length (the (dir i)))\<rparr> else kl)"

text \<open>\<open>None\<close> is the overflow of the buffer for the path, which holds the path and the suffix.\<close>

definition next_log_file :: "klog_env \<Rightarrow> klog_handle \<Rightarrow> klog_dir \<Rightarrow> (klog_handle \<times> klog_dir) option" where
  "next_log_file env kl dir =
     (let kl = klog_cleanup kl in
      if \<not> kc_file_path (kl_config kl) then Some (kl, dir)
      else if unat (kc_file_path_len (kl_config kl)) + KLOG_SUFFIX_LEN + 1 > KLOG_PATH_LEN then None
      else case klog_scan env [0..<unat (kc_max_parts (kl_config kl))] kl dir of (kl, dir, pos) \<Rightarrow>
        (case (if kl_log_file kl = None then klog_rotate env kl dir else (kl, dir)) of (kl, dir) \<Rightarrow>
           Some (klog_seek_end pos kl dir, dir)))"

definition klog_init_file :: "klog_env \<Rightarrow> klog_handle option \<Rightarrow> klog_dir \<Rightarrow> (int \<times> klog_handle option \<times> klog_dir) option" where
  "klog_init_file env kl dir =
     (case kl of
        None \<Rightarrow> Some (- EINVAL, None, dir)
      | Some h \<Rightarrow>
          if \<not> kc_file_path (kl_config h) \<or> unat (kc_file_path_len (kl_config h)) > KLOG_MAX_PATH then Some (- EINVAL, kl, dir)
          else (case next_log_file env (h\<lparr>kl_log_file := None, kl_current_part := - 1, kl_current_part_size := 0\<rparr>) dir of
                  None \<Rightarrow> None
                | Some (h, dir) \<Rightarrow>
                    Some (if kl_log_file h = None then - ENOENT else if kc_file_logging (kl_config h) then 0 else - 1, Some h, dir)))"

section \<open>Writing\<close>

datatype log_level = LOG_NONE | LOG_ERROR | LOG_WARNING | LOG_TELEMETRY | LOG_INFO | LOG_DEBUG | LOG_ALL

definition level_str :: "log_level \<Rightarrow> u8 list" where
  "level_str level = (case level of LOG_ERROR \<Rightarrow> [0x45] | LOG_WARNING \<Rightarrow> [0x57] | LOG_TELEMETRY \<Rightarrow> [0x54]
     | LOG_INFO \<Rightarrow> [0x49] | LOG_DEBUG \<Rightarrow> [0x44] | _ \<Rightarrow> [0x4E])"

definition level_num :: "log_level \<Rightarrow> nat" where
  "level_num level = (case level of LOG_NONE \<Rightarrow> 0 | LOG_ERROR \<Rightarrow> 1 | LOG_WARNING \<Rightarrow> 2 | LOG_TELEMETRY \<Rightarrow> 3 | LOG_INFO \<Rightarrow> 4
     | LOG_DEBUG \<Rightarrow> 5 | LOG_ALL \<Rightarrow> 6)"

text \<open>\<open>%0kd\<close> for a number of at most \<open>k\<close> digits.\<close>

fun digits :: "nat \<Rightarrow> nat \<Rightarrow> u8 list" where
  "digits 0 n = []"
| "digits (Suc k) n = digits k (n div 10) @ [of_nat (48 + n mod 10)]"

definition klog_line :: "u32 \<Rightarrow> log_level \<Rightarrow> u8 list \<Rightarrow> u8 list \<Rightarrow> u8 list" where
  "klog_line millis level logger msg =
     digits 10 (unat (millis div 1000)) @ [0x2E] @ digits 3 (unat (millis mod 1000)) @ [0x20] @ logger @ [0x3A] @
     level_str level @ [0x20] @ msg @ [0x0A]"

definition klog_put :: "u8 list \<Rightarrow> nat \<times> nat \<Rightarrow> klog_dir \<Rightarrow> (nat \<times> nat) \<times> klog_dir" where
  "klog_put line f dir =
     (case f of (i, p) \<Rightarrow>
        let bs = the (dir i) in ((i, p + length line), dir(i \<mapsto> take p bs @ line @ drop (p + length line) bs)))"

definition klog_file ::
  "klog_env \<Rightarrow> u32 \<Rightarrow> log_level \<Rightarrow> u8 list \<Rightarrow> u8 list \<Rightarrow> klog_handle \<Rightarrow> klog_dir \<Rightarrow> (klog_handle \<times> klog_dir) option" where
  "klog_file env millis level logger msg kl dir =
     (case (if kl_log_file kl = None then next_log_file env kl dir else Some (kl, dir)) of
        None \<Rightarrow> None
      | Some (kl, dir) \<Rightarrow>
          (case kl_log_file kl of
             None \<Rightarrow> Some (kl, dir)
           | Some f \<Rightarrow>
               let line = klog_line millis level logger msg in
               (case klog_put line f dir of (f, dir) \<Rightarrow>
                  let kl = kl\<lparr>kl_log_file := Some f, kl_current_part_size := kl_current_part_size kl + of_nat (length line)\<rparr>
                  in if kl_current_part_size kl \<ge> kc_part_size (kl_config kl) then next_log_file env kl dir
                     else Some (kl, dir))))"

text \<open>The macro that filters by level; the output to the console is left out.\<close>

definition klog_write ::
  "klog_env \<Rightarrow> u32 \<Rightarrow> log_level \<Rightarrow> u8 list \<Rightarrow> u8 list \<Rightarrow> klog_handle \<Rightarrow> klog_dir \<Rightarrow> (klog_handle \<times> klog_dir) option" where
  "klog_write env millis level logger msg kl dir =
     (if level_num level \<le> kc_file_level (kl_config kl) \<and> kc_file_logging (kl_config kl)
      then klog_file env millis level logger msg kl dir else Some (kl, dir))"

section \<open>The parts stay bounded\<close>

definition env_ok :: "klog_env \<Rightarrow> bool" where
  "env_ok env \<longleftrightarrow> (\<forall>i. fopen_ok env i \<and> \<not> stat_err env i)"

text \<open>A configuration for messages of at most \<open>L\<close> bytes, shorter than a part.\<close>

definition cfg_ok :: "nat \<Rightarrow> klog_config \<Rightarrow> bool" where
  "cfg_ok L c \<longleftrightarrow> kc_file_path c \<and> unat (kc_file_path_len c) \<le> KLOG_MAX_PATH \<and> 0 < unat (kc_max_parts c) \<and>
     L < unat (kc_part_size c) \<and> unat (kc_part_size c) + 3 * L < 2 ^ 32"

definition dir_ok :: "nat \<Rightarrow> klog_config \<Rightarrow> klog_dir \<Rightarrow> bool" where
  "dir_ok L c dir \<longleftrightarrow>
     (\<forall>i bs. dir i = Some bs \<longrightarrow> i \<le> unat (kc_max_parts c) \<and> length bs < unat (kc_part_size c) + L \<and> length bs \<noteq> 1)"

text \<open>The open file is the current part, and its position the end of it.  Its size is the one in the
  handle, except for a part that a rotation has just made empty: the handle has the size of the part before.\<close>

definition log_ok :: "nat \<Rightarrow> klog_handle \<Rightarrow> klog_dir \<Rightarrow> bool" where
  "log_ok L kl dir \<longleftrightarrow>
     (let c = kl_config kl; n = unat (kl_current_part_size kl); part = unat (kc_part_size c)
      in cfg_ok L c \<and> dir_ok L c dir \<and>
         (\<exists>bs. kl_log_file kl = Some (unat (kl_current_part kl), length bs) \<and> dir (unat (kl_current_part kl)) = Some bs \<and>
            length bs < part \<and>
            (n = length bs \<or> (bs = [] \<and> part \<le> n \<and>
               n < part + (if kl_current_part kl = kc_max_parts c then L else 2 * L)))))"

lemma klog_scan_cases:
  assumes "env_ok env"
  shows "(\<forall>j \<in> set is. \<exists>bs. dir j = Some bs \<and> unat (kc_part_size (kl_config kl)) \<le> length bs) \<and> klog_scan env is kl dir = (kl, dir, 0) \<or>
     (\<exists>j \<in> set is. dir j = None \<and>
        klog_scan env is kl dir = (kl\<lparr>kl_log_file := Some (j, 0), kl_current_part := of_nat j, kl_current_part_size := 0\<rparr>, dir(j \<mapsto> []), 0)) \<or>
     (\<exists>j \<in> set is. \<exists>bs. dir j = Some bs \<and> length bs < unat (kc_part_size (kl_config kl)) \<and>
        klog_scan env is kl dir = (kl\<lparr>kl_log_file := Some (j, 0), kl_current_part := of_nat j,
          kl_current_part_size := of_nat (length bs)\<rparr>, dir, of_nat (length bs) - 1))"
proof (induction "is")
  case (Cons i "is")
  have e: "fopen_ok env i" "\<not> stat_err env i" using assms by (simp_all add: env_ok_def)
  show ?case
  proof (cases "dir i")
    case None
    then show ?thesis using e by (simp add: klog_fopen_w_def fun_eq_iff)
  next
    case (Some bs)
    then show ?thesis using e Cons.IH by (cases "length bs < unat (kc_part_size (kl_config kl))") (auto simp: klog_fopen_r_def not_less)
  qed
qed simp

lemma unat_of_length: "length bs < 2 ^ 32 \<Longrightarrow> unat (of_nat (length bs) :: u32) = length bs"
  by (simp only: unsigned_of_nat) (simp add: take_bit_nat_eq_self)

lemma seek_pos: "length bs < 2 ^ 32 \<Longrightarrow> length bs \<noteq> 1 \<Longrightarrow> (of_nat (length bs) :: u32) - 1 > 0"
proof -
  assume l: "length bs < 2 ^ 32" "length bs \<noteq> 1"
  have "(of_nat (length bs) :: u32) \<noteq> 1"
  proof
    assume "(of_nat (length bs) :: u32) = 1"
    then have "unat (of_nat (length bs) :: u32) = 1" by simp
    then show False using l unat_of_length [of bs] by simp
  qed
  then show ?thesis by (simp add: word_neq_0_conv [symmetric])
qed

lemma unat_of_part: "j \<le> unat (m :: u8) \<Longrightarrow> unat (of_nat j :: u8) = j"
proof -
  assume "j \<le> unat m"
  moreover have "unat m < 2 ^ LENGTH(8)" by (rule unsigned_less)
  ultimately show ?thesis by (simp only: unsigned_of_nat) (simp add: take_bit_nat_eq_self)
qed

text \<open>When every part the loop looks at is full, the part after the current one is emptied.\<close>

definition next_part :: "klog_handle \<Rightarrow> u8" where
  "next_part kl = (if kl_current_part kl + 1 > kc_max_parts (kl_config kl) then 0 else kl_current_part kl + 1)"

lemma next_part_bound: "next_part kl \<le> kc_max_parts (kl_config kl)"
  by (simp add: next_part_def not_less)

lemma next_part_other: "0 < unat (kc_max_parts (kl_config kl)) \<Longrightarrow> next_part kl \<noteq> kl_current_part kl"
proof -
  assume "0 < unat (kc_max_parts (kl_config kl))"
  then have "kl_current_part kl \<noteq> 0" if "kl_current_part kl + 1 > kc_max_parts (kl_config kl)"
    using that by (auto simp: word_less_nat_alt)
  then show ?thesis by (auto simp: next_part_def)
qed

lemma next_log_file_full:
  assumes "env_ok env" "cfg_ok L (kl_config kl)"
    "\<forall>j < unat (kc_max_parts (kl_config kl)). \<exists>bs. dir j = Some bs \<and> unat (kc_part_size (kl_config kl)) \<le> length bs"
  shows "next_log_file env kl dir =
     Some (kl\<lparr>kl_log_file := Some (unat (next_part kl), 0), kl_current_part := next_part kl\<rparr>, dir(unat (next_part kl) \<mapsto> []))"
proof -
  have "klog_scan env [0..<unat (kc_max_parts (kl_config kl))] (klog_cleanup kl) dir = (klog_cleanup kl, dir, 0)"
    using klog_scan_cases [OF assms(1), of "[0..<unat (kc_max_parts (kl_config kl))]" dir "klog_cleanup kl"] assms(3)
    by (force simp: klog_cleanup_def)
  then show ?thesis
    using assms(1,2) by (simp add: next_log_file_def klog_rotate_def klog_fopen_w_def klog_seek_end_def env_ok_def
        next_part_def cfg_ok_def KLOG_MAX_PATH_def KLOG_PATH_LEN_def KLOG_SUFFIX_LEN_def klog_cleanup_def Let_def)
qed

text \<open>Choosing a file: one that is not full, a new one, or the part after the current one, emptied.\<close>

lemma next_log_file_ok:
  assumes "env_ok env" "cfg_ok L (kl_config kl)" "dir_ok L (kl_config kl) dir"
    "(\<exists>j < unat (kc_max_parts (kl_config kl)). \<forall>bs. dir j = Some bs \<longrightarrow> length bs < unat (kc_part_size (kl_config kl))) \<or>
     kl_current_part_size kl = 0 \<or> (kc_part_size (kl_config kl) \<le> kl_current_part_size kl \<and>
       unat (kl_current_part_size kl) < unat (kc_part_size (kl_config kl)) +
         (if kl_current_part kl = kc_max_parts (kl_config kl) then 2 * L else L))"
  shows "\<exists>kl' dir' j. next_log_file env kl dir = Some (kl', dir') \<and> log_ok L kl' dir' \<and> kl_config kl' = kl_config kl \<and>
     (dir' = dir \<or> dir' = dir(j \<mapsto> [])) \<and> (dir j = None \<or> j \<noteq> unat (kl_current_part kl))"
proof -
  let ?c = "kl_config kl" and ?kl = "klog_cleanup kl"
  let ?max = "unat (kc_max_parts ?c)" and ?part = "unat (kc_part_size ?c)"
  have c: "kc_file_path ?c" "unat (kc_file_path_len ?c) + KLOG_SUFFIX_LEN + 1 \<le> KLOG_PATH_LEN" "0 < ?max"
      "L < ?part" "?part + 3 * L < 2 ^ 32"
    using assms(2) by (simp_all add: cfg_ok_def KLOG_MAX_PATH_def KLOG_PATH_LEN_def KLOG_SUFFIX_LEN_def)
  have cl: "kl_log_file ?kl = None" "kl_config ?kl = ?c" "kl_current_part ?kl = kl_current_part kl"
      "kl_current_part_size ?kl = kl_current_part_size kl"
    by (simp_all add: klog_cleanup_def)
  have nx: "next_log_file env kl dir = (case klog_scan env [0..<?max] ?kl dir of (kl, dir, pos) \<Rightarrow>
        (case (if kl_log_file kl = None then klog_rotate env kl dir else (kl, dir)) of (kl, dir) \<Rightarrow>
           Some (klog_seek_end pos kl dir, dir)))"
    using c(1,2) cl(2) by (simp add: next_log_file_def Let_def)
  show ?thesis
    using klog_scan_cases [OF assms(1), of "[0..<?max]" dir ?kl] unfolding cl(2)
  proof (elim disjE bexE exE conjE)
    assume full: "\<forall>j \<in> set [0..<?max]. \<exists>bs. dir j = Some bs \<and> ?part \<le> length bs" "klog_scan env [0..<?max] ?kl dir = (?kl, dir, 0)"
    let ?n = "next_part kl"
    have p: "?n \<le> kc_max_parts ?c" "?n \<noteq> kl_current_part kl" using next_part_bound next_part_other c(3) by auto
    let ?kl' = "kl\<lparr>kl_log_file := Some (unat ?n, 0), kl_current_part := ?n\<rparr>" and ?dir' = "dir(unat ?n \<mapsto> [])"
    have "next_log_file env kl dir = Some (?kl', ?dir')" using full(1) by (intro next_log_file_full [OF assms(1,2)]) simp
    moreover have "log_ok L ?kl' ?dir'"
    proof -
      have "dir_ok L ?c ?dir'" using assms(3) p(1) c(4) by (auto simp: dir_ok_def word_le_nat_alt)
      moreover have "kl_current_part_size kl = 0 \<or> (kc_part_size ?c \<le> kl_current_part_size kl \<and>
          unat (kl_current_part_size kl) < ?part + (if kl_current_part kl = kc_max_parts ?c then 2 * L else L))"
        using assms(4) full(1) by (metis atLeastLessThan_iff le0 linorder_not_less set_upt)
      moreover have "?n = kc_max_parts ?c \<Longrightarrow> kl_current_part kl \<noteq> kc_max_parts ?c" using p(2) by auto
      ultimately show ?thesis
        using assms(2) c(4) cl by (auto simp: log_ok_def Let_def word_le_nat_alt split: if_splits)
    qed
    moreover have "unat ?n \<noteq> unat (kl_current_part kl)" using p(2) by (simp add: word_unat_eq_iff)
    ultimately show ?thesis by (intro exI [of _ ?kl'] exI [of _ ?dir'] exI [of _ "unat ?n"]) simp
  next
    fix j
    assume j: "j \<in> set [0..<?max]" "dir j = None" "klog_scan env [0..<?max] ?kl dir =
        (?kl\<lparr>kl_log_file := Some (j, 0), kl_current_part := of_nat j, kl_current_part_size := 0\<rparr>, dir(j \<mapsto> []), 0)"
    let ?kl' = "?kl\<lparr>kl_log_file := Some (j, 0), kl_current_part := of_nat j, kl_current_part_size := 0\<rparr>"
    have u: "unat (of_nat j :: u8) = j" using j(1) by (intro unat_of_part [of j "kc_max_parts ?c"]) simp
    have "next_log_file env kl dir = Some (?kl', dir(j \<mapsto> []))" unfolding nx j(3) by (simp add: klog_seek_end_def)
    moreover have "log_ok L ?kl' (dir(j \<mapsto> []))"
      using assms(2,3) j(1) u c(4) cl by (auto simp: log_ok_def dir_ok_def Let_def)
    ultimately show ?thesis using j(2) cl(2) by (intro exI [of _ ?kl'] exI [of _ "dir(j \<mapsto> [])"] exI [of _ j]) simp
  next
    fix j bs
    assume j: "j \<in> set [0..<?max]" "dir j = Some bs" "length bs < ?part" "klog_scan env [0..<?max] ?kl dir =
        (?kl\<lparr>kl_log_file := Some (j, 0), kl_current_part := of_nat j, kl_current_part_size := of_nat (length bs)\<rparr>, dir,
         of_nat (length bs) - 1)"
    let ?kl' = "?kl\<lparr>kl_log_file := Some (j, length bs), kl_current_part := of_nat j, kl_current_part_size := of_nat (length bs)\<rparr>"
    have l: "length bs < 2 ^ 32" "length bs \<noteq> 1" using assms(3) j(2,3) c(5) by (auto simp: dir_ok_def)
    have u: "unat (of_nat j :: u8) = j" using j(1) by (intro unat_of_part [of j "kc_max_parts ?c"]) simp
    have "next_log_file env kl dir = Some (?kl', dir)"
      unfolding nx j(4) using seek_pos [OF l] j(2) by (simp add: klog_seek_end_def)
    moreover have "log_ok L ?kl' dir"
      using assms(2,3) j(1-3) u unat_of_length [OF l(1)] cl by (auto simp: log_ok_def Let_def)
    moreover obtain i where "i \<noteq> unat (kl_current_part kl)" by (metis n_not_Suc_n)
    ultimately show ?thesis using cl(2) by (intro exI [of _ ?kl'] exI [of _ dir] exI [of _ i]) simp
  qed
qed

section \<open>Messages\<close>

lemma length_digits [simp]: "length (digits k n) = k"
  by (induction k arbitrary: n) simp_all

lemma klog_line_length: "2 \<le> length (klog_line millis level logger msg)"
  by (simp add: klog_line_def)

lemma klog_file_ok:
  assumes "env_ok env" "log_ok L kl dir" "line = klog_line millis level logger msg" "length line \<le> L"
  shows "\<exists>kl' dir' bs j. klog_file env millis level logger msg kl dir = Some (kl', dir') \<and> log_ok L kl' dir' \<and>
     kl_config kl' = kl_config kl \<and> dir (unat (kl_current_part kl)) = Some bs \<and>
     dir' (unat (kl_current_part kl)) = Some (bs @ line) \<and> (\<forall>i. i \<noteq> unat (kl_current_part kl) \<and> i \<noteq> j \<longrightarrow> dir' i = dir i)"
proof -
  let ?cur = "unat (kl_current_part kl)" and ?c = "kl_config kl" and ?n = "unat (kl_current_part_size kl)"
  let ?part = "unat (kc_part_size ?c)"
  obtain bs where c: "cfg_ok L ?c" "dir_ok L ?c dir" and bs: "kl_log_file kl = Some (?cur, length bs)" "dir ?cur = Some bs"
      "length bs < ?part" and n: "?n = length bs \<or> (bs = [] \<and> ?part \<le> ?n \<and>
        ?n < ?part + (if kl_current_part kl = kc_max_parts ?c then L else 2 * L))"
    using assms(2) by (auto simp: log_ok_def Let_def)
  have lim: "L < ?part" "?part + 3 * L < 2 ^ 32" using c(1) by (simp_all add: cfg_ok_def)
  have len: "2 \<le> length line" using klog_line_length assms(3) by simp
  let ?dir = "dir(?cur \<mapsto> bs @ line)"
  let ?kl = "kl\<lparr>kl_log_file := Some (?cur, length (bs @ line)), kl_current_part_size := kl_current_part_size kl + of_nat (length line)\<rparr>"
  have u: "unat (kl_current_part_size kl + of_nat (length line)) = ?n + length line"
    using n lim assms(4) bs(3) unat_of_length [of line] by (auto simp: unat_word_ariths split: if_splits)
  have f: "klog_file env millis level logger msg kl dir =
      (if kc_part_size ?c \<le> kl_current_part_size ?kl then next_log_file env ?kl ?dir else Some (?kl, ?dir))"
    using bs(1,2) assms(3) by (simp add: klog_file_def klog_put_def Let_def)
  have d: "dir_ok L ?c ?dir" using c(2) bs(2,3) assms(4) len by (auto simp: dir_ok_def)
  have cur: "?cur \<le> unat (kc_max_parts ?c)" using c(2) bs(2) by (auto simp: dir_ok_def)
  show ?thesis
  proof (cases "kc_part_size ?c \<le> kl_current_part_size ?kl")
    case False
    then have "?n + length line < ?part" using u by (simp add: word_le_nat_alt)
    then have "log_ok L ?kl ?dir" using c(1) d n u bs(3) by (auto simp: log_ok_def Let_def)
    then show ?thesis using f False bs(2) by (intro exI [of _ ?kl] exI [of _ ?dir] exI [of _ bs]) simp
  next
    case True
    have "(\<exists>j < unat (kc_max_parts ?c). \<forall>cs. ?dir j = Some cs \<longrightarrow> length cs < ?part) \<or>
        ?n + length line < ?part + (if kl_current_part kl = kc_max_parts ?c then 2 * L else L)"
      using n
    proof (elim disjE conjE)
      assume "bs = []" "?n < ?part + (if kl_current_part kl = kc_max_parts ?c then L else 2 * L)"
      then show ?thesis
        using assms(4) lim(1) cur
        by (cases "kl_current_part kl = kc_max_parts ?c") (auto simp: word_unat_eq_iff le_less intro!: exI [of _ ?cur])
    qed (use bs(3) assms(4) in auto)
    then obtain kl' dir' j where "next_log_file env ?kl ?dir = Some (kl', dir')" "log_ok L kl' dir'" "kl_config kl' = ?c"
        "dir' = ?dir \<or> dir' = ?dir(j \<mapsto> [])" "?dir j = None \<or> j \<noteq> ?cur"
      using next_log_file_ok [of env L ?kl ?dir] assms(1) c(1) d u True by (fastforce simp: word_le_nat_alt)
    then show ?thesis using f True bs(2)
      by (intro exI [of _ kl'] exI [of _ dir'] exI [of _ bs] exI [of _ j]) (auto split: if_splits)
  qed
qed

type_synonym klog_msg = "u32 \<times> log_level \<times> u8 list \<times> u8 list"

fun msg_line :: "klog_msg \<Rightarrow> u8 list" where
  "msg_line (millis, level, logger, msg) = klog_line millis level logger msg"

fun klog_run :: "klog_env \<Rightarrow> klog_msg list \<Rightarrow> klog_handle \<Rightarrow> klog_dir \<Rightarrow> (klog_handle \<times> klog_dir) option" where
  "klog_run env [] kl dir = Some (kl, dir)"
| "klog_run env ((millis, level, logger, msg) # ms) kl dir =
     Option.bind (klog_file env millis level logger msg kl dir) (\<lambda>(kl, dir). klog_run env ms kl dir)"

lemma klog_run_ok:
  assumes "env_ok env" "log_ok L kl dir" "\<forall>m \<in> set ms. length (msg_line m) \<le> L"
  shows "\<exists>kl' dir'. klog_run env ms kl dir = Some (kl', dir') \<and> log_ok L kl' dir' \<and> kl_config kl' = kl_config kl \<and>
     (ms \<noteq> [] \<longrightarrow> (\<exists>i bs. dir' i = Some (bs @ msg_line (last ms))))"
  using assms(2,3)
proof (induction ms arbitrary: kl dir)
  case (Cons m ms)
  obtain millis level logger msg where m: "m = (millis, level, logger, msg)" by (cases m) auto
  obtain kl1 dir1 bs where 1: "klog_file env millis level logger msg kl dir = Some (kl1, dir1)" "log_ok L kl1 dir1"
      "kl_config kl1 = kl_config kl" "dir1 (unat (kl_current_part kl)) = Some (bs @ msg_line m)"
    using klog_file_ok [OF assms(1) Cons.prems(1) refl, of millis level logger msg] Cons.prems(2) m by auto
  then show ?case using Cons.IH [OF 1(2)] Cons.prems(2) m by (cases "ms = []") auto
qed simp

section \<open>Properties\<close>

text \<open>C18. The log stays bounded and loses no message on its way into a file: however many messages of at
  most \<open>L\<close> bytes are logged, \<open>L\<close> being less than the size of a part, the parts have numbers up to
  \<open>max_parts\<close>, none reaches the size of a part by more than a message, and the last message stands whole at
  the end of a part.\<close>

theorem klog_parts_bounded:
  assumes "env_ok env" "cfg_ok L (kl_config kl)" "kc_file_logging (kl_config kl)" "dir_ok L (kl_config kl) dir"
    "\<forall>m \<in> set ms. length (msg_line m) \<le> L"
  shows "\<exists>kl0 dir0 kl' dir'. klog_init_file env (Some kl) dir = Some (0, Some kl0, dir0) \<and>
     klog_run env ms kl0 dir0 = Some (kl', dir') \<and>
     (\<forall>i bs. dir' i = Some bs \<longrightarrow> i \<le> unat (kc_max_parts (kl_config kl)) \<and> length bs < unat (kc_part_size (kl_config kl)) + L) \<and>
     (ms \<noteq> [] \<longrightarrow> (\<exists>i bs. dir' i = Some (bs @ msg_line (last ms))))"
proof -
  let ?kl = "kl\<lparr>kl_log_file := None, kl_current_part := - 1, kl_current_part_size := 0\<rparr>"
  obtain kl0 dir0 where 0: "next_log_file env ?kl dir = Some (kl0, dir0)" "log_ok L kl0 dir0" "kl_config kl0 = kl_config kl"
    using next_log_file_ok [of env L ?kl dir] assms(1,2,4) by auto
  then have "kl_log_file kl0 \<noteq> None" by (auto simp: log_ok_def Let_def)
  then have i: "klog_init_file env (Some kl) dir = Some (0, Some kl0, dir0)"
    using 0 assms(2,3) by (auto simp: klog_init_file_def cfg_ok_def)
  obtain kl' dir' where "klog_run env ms kl0 dir0 = Some (kl', dir')" "log_ok L kl' dir'" "kl_config kl' = kl_config kl"
      "ms \<noteq> [] \<longrightarrow> (\<exists>i bs. dir' i = Some (bs @ msg_line (last ms)))"
    using klog_run_ok [OF assms(1) 0(2) assms(5)] 0(3) by auto
  moreover from this have "dir_ok L (kl_config kl) dir'" by (auto simp: log_ok_def Let_def)
  ultimately show ?thesis using i unfolding dir_ok_def by blast
qed

lemma klog_file_next:
  assumes "kl_log_file kl = Some (i, length bs)" "dir i = Some bs" "line = klog_line millis level logger msg"
    "kc_part_size (kl_config kl) \<le> kl_current_part_size kl + of_nat (length line)"
  shows "klog_file env millis level logger msg kl dir =
    next_log_file env (kl\<lparr>kl_log_file := Some (i, length (bs @ line)), kl_current_part_size := kl_current_part_size kl + of_nat (length line)\<rparr>)
      (dir(i \<mapsto> bs @ line))"
  using assms by (simp add: klog_file_def klog_put_def Let_def)

text \<open>The log uses one part more than the configuration allows, for a single message: when a message
  fills the last of \<open>max_parts\<close> parts, the next one goes to a part with the number \<open>max_parts\<close>, because
  the test compares with \<open>>\<close>, and after that message, however short, the oldest part is emptied already,
  because the handle still has the size of the part before.\<close>

theorem klog_spare_part:
  assumes "env_ok env" "cfg_ok L (kl_config kl)" "kl_log_file kl = Some (i, length bs)" "dir i = Some bs"
    "i = unat (kl_current_part kl)" "i + 1 = unat (kc_max_parts (kl_config kl))" "unat (kl_current_part_size kl) = length bs"
    "\<forall>j < i. \<exists>cs. dir j = Some cs \<and> unat (kc_part_size (kl_config kl)) \<le> length cs"
    "length bs < unat (kc_part_size (kl_config kl))" "unat (kc_part_size (kl_config kl)) \<le> length (bs @ msg_line m1)"
    "length (msg_line m1) \<le> L" "length (msg_line m2) \<le> L"
  shows "\<exists>kl' dir'. klog_run env [m1, m2] kl dir = Some (kl', dir') \<and> dir' (i + 1) = Some (msg_line m2) \<and>
     dir' 0 = Some [] \<and> kl_log_file kl' = Some (0, 0)"
proof -
  let ?c = "kl_config kl" and ?part = "unat (kc_part_size (kl_config kl))"
  obtain t1 l1 g1 x1 t2 l2 g2 x2 where m: "m1 = (t1, l1, g1, x1)" "m2 = (t2, l2, g2, x2)" by (cases m1; cases m2) auto
  let ?s1 = "kl_current_part_size kl + of_nat (length (msg_line m1))"
  let ?s2 = "?s1 + of_nat (length (msg_line m2))"
  have lim: "?part + 3 * L < 2 ^ 32" using assms(2) by (simp add: cfg_ok_def)
  have u1: "unat ?s1 = length (bs @ msg_line m1)"
    using assms(7,9,11) lim unat_of_length [of "msg_line m1"] by (simp add: unat_word_ariths)
  have u2: "unat ?s2 = length (bs @ msg_line m1) + length (msg_line m2)"
    using u1 assms(9,11,12) lim unat_of_length [of "msg_line m2"] by (simp add: unat_word_ariths)
  let ?kl1 = "kl\<lparr>kl_log_file := Some (i, length (bs @ msg_line m1)), kl_current_part_size := ?s1\<rparr>" and ?dir1 = "dir(i \<mapsto> bs @ msg_line m1)"
  have n1: "next_part ?kl1 = kc_max_parts ?c" "next_part ?kl1 = kl_current_part kl + 1"
  proof -
    have "unat (kc_max_parts ?c) < 2 ^ LENGTH(8)" by (rule unsigned_less)
    then have "unat (kl_current_part kl + 1) = unat (kc_max_parts ?c)" using assms(5,6) by (simp add: unat_word_ariths)
    then have "kl_current_part kl + 1 = kc_max_parts ?c" by (simp add: word_unat_eq_iff)
    then show "next_part ?kl1 = kc_max_parts ?c" "next_part ?kl1 = kl_current_part kl + 1" by (simp_all add: next_part_def)
  qed
  have full: "\<forall>j < unat (kc_max_parts ?c). \<exists>cs. ?dir1 j = Some cs \<and> ?part \<le> length cs"
    using assms(6,8,10) by (auto simp flip: assms(6) simp: less_Suc_eq)
  let ?kl2 = "?kl1\<lparr>kl_log_file := Some (i + 1, 0), kl_current_part := kc_max_parts ?c\<rparr>" and ?dir2 = "?dir1(i + 1 \<mapsto> [])"
  have "klog_file env t1 l1 g1 x1 kl dir = next_log_file env ?kl1 ?dir1"
    using assms(3,4,10) u1 m(1) by (intro klog_file_next) (simp_all add: word_le_nat_alt)
  also have "\<dots> = Some (?kl2, ?dir2)"
    using next_log_file_full [of env L ?kl1 ?dir1] assms(1,2) full n1(1) assms(6) by simp
  finally have f1: "klog_file env t1 l1 g1 x1 kl dir = Some (?kl2, ?dir2)" .
  let ?kl3 = "?kl2\<lparr>kl_log_file := Some (i + 1, length ([] @ msg_line m2)), kl_current_part_size := ?s2\<rparr>"
  let ?dir3 = "?dir2(i + 1 \<mapsto> [] @ msg_line m2)"
  have n3: "next_part ?kl3 = 0"
  proof (cases "unat (kc_max_parts ?c) = 255")
    case True
    then have "unat (kc_max_parts ?c + 1) = 0" by (simp add: unat_word_ariths)
    then have "kc_max_parts ?c + 1 = 0" by (simp add: unsigned_eq_0_iff)
    then show ?thesis by (simp add: next_part_def)
  next
    case False
    have "unat (kc_max_parts ?c) < 2 ^ LENGTH(8)" by (rule unsigned_less)
    then have "kc_max_parts ?c < kc_max_parts ?c + 1" using False by (simp add: word_less_nat_alt unat_word_ariths)
    then show ?thesis by (simp add: next_part_def)
  qed
  have "\<forall>j < unat (kc_max_parts ?c). \<exists>cs. ?dir3 j = Some cs \<and> ?part \<le> length cs" using full assms(6) by auto
  moreover have "klog_file env t2 l2 g2 x2 ?kl2 ?dir2 = next_log_file env ?kl3 ?dir3"
    using assms(10) u2 m(2) by (subst klog_file_next [where bs = "[]" and i = "i + 1"]) (simp_all add: word_le_nat_alt)
  ultimately have f2: "klog_file env t2 l2 g2 x2 ?kl2 ?dir2 =
      Some (?kl3\<lparr>kl_log_file := Some (0, 0), kl_current_part := 0\<rparr>, ?dir3(0 \<mapsto> []))"
    using next_log_file_full [of env L ?kl3 ?dir3] assms(1,2) n3 by simp
  show ?thesis using f1 f2 m by auto
qed

section \<open>Witnesses\<close>

definition demo_log :: klog_handle where
  "demo_log = \<lparr>kl_log_file = None, kl_current_part = 0, kl_current_part_size = 0,
     kl_config = \<lparr>kc_file_path = True, kc_file_path_len = 10, kc_part_size = 64, kc_max_parts = 1, kc_console_level = 0,
       kc_file_level = 5, kc_file_logging = True\<rparr>\<rparr>"

definition demo_env :: klog_env where
  "demo_env = \<lparr>fopen_ok = (\<lambda>_. True), stat_err = (\<lambda>_. False)\<rparr>"

definition demo_msg :: klog_msg where
  "demo_msg = (5000, LOG_INFO, [0x74], replicate 20 0x61)"

lemma demo_log_ok: "env_ok demo_env" "cfg_ok 60 (kl_config demo_log)" "length (msg_line demo_msg) = 40"
  by (simp_all add: env_ok_def demo_env_def cfg_ok_def demo_log_def demo_msg_def klog_line_def level_str_def
      KLOG_MAX_PATH_def KLOG_PATH_LEN_def KLOG_SUFFIX_LEN_def)

lemma klog_parts_bounded_witness:
  "\<exists>kl0 dir0 kl' dir'. klog_init_file demo_env (Some demo_log) (\<lambda>_. None) = Some (0, Some kl0, dir0) \<and>
     klog_run demo_env [demo_msg, demo_msg, demo_msg] kl0 dir0 = Some (kl', dir') \<and>
     (\<forall>i bs. dir' i = Some bs \<longrightarrow> i \<le> 1 \<and> length bs < 124)"
proof -
  have "kc_file_logging (kl_config demo_log)" "unat (kc_max_parts (kl_config demo_log)) = 1"
      "unat (kc_part_size (kl_config demo_log)) = 64"
    by (simp_all add: demo_log_def)
  then show ?thesis
    using klog_parts_bounded [OF demo_log_ok(1,2), of "\<lambda>_. None" "[demo_msg, demo_msg, demo_msg]"] demo_log_ok(3)
    by (fastforce simp: dir_ok_def)
qed

lemma klog_spare_part_witness:
  "\<exists>kl' dir'. klog_run demo_env [demo_msg, demo_msg]
       (demo_log\<lparr>kl_log_file := Some (0, 40), kl_current_part_size := 40\<rparr>) [0 \<mapsto> msg_line demo_msg] = Some (kl', dir') \<and>
     dir' 1 = Some (msg_line demo_msg) \<and> dir' 0 = Some []"
proof -
  let ?kl = "demo_log\<lparr>kl_log_file := Some (0, 40), kl_current_part_size := 40\<rparr>"
  have "cfg_ok 60 (kl_config ?kl)" using demo_log_ok(2) by simp
  from klog_spare_part [OF demo_log_ok(1) this, of 0 "msg_line demo_msg" "[0 \<mapsto> msg_line demo_msg]" demo_msg demo_msg]
  show ?thesis using demo_log_ok(3) by (auto simp: demo_log_def)
qed

end
