(* ===== verification/KNmea.thy ===== *)
theory KNmea
  imports CspRoute "HOL-Library.Monad_Syntax"
begin

text \<open>
  Positions from a GPS receiver: the sentences of NMEA 0183 (\<open>kubos-core/source/modules/gps/nmea.c\<close>) and
  the collection of their characters (\<open>kubos-core/source/modules/gps/gps.c\<close>), which sends a position on
  as a packet.

  The buffer \<open>str\<close> is a list of bytes that are \<open>None\<close> until they are written; a pointer into it is an
  index.  Reading a byte that was never written, or outside the buffer, is undefined, the outer result
  \<open>None\<close>.  A character is an unsigned byte.  What the floating-point unit and \<open>atof\<close> compute is a
  parameter of type \<open>'f float_ops\<close>.
\<close>

section \<open>Library functions\<close>

record 'f float_ops =
  f_atof :: "u8 list \<Rightarrow> 'f"
  f_of_int :: "int \<Rightarrow> 'f"
  f_trunc :: "'f \<Rightarrow> int"
  f_add :: "'f \<Rightarrow> 'f \<Rightarrow> 'f"
  f_sub :: "'f \<Rightarrow> 'f \<Rightarrow> 'f"
  f_mul :: "'f \<Rightarrow> 'f \<Rightarrow> 'f"
  f_div :: "'f \<Rightarrow> 'f \<Rightarrow> 'f"

text \<open>At most \<open>n\<close> characters of the string that starts with the first byte.\<close>

fun strn :: "nat \<Rightarrow> u8 option list \<Rightarrow> u8 list option" where
  "strn 0 bs = Some []"
| "strn (Suc n) [] = None"
| "strn (Suc n) (None # bs) = None"
| "strn (Suc n) (Some c # bs) = (if c = 0 then Some [] else map_option (Cons c) (strn n bs))"

definition is_digit :: "u8 \<Rightarrow> bool" where "is_digit c \<longleftrightarrow> 0x30 \<le> c \<and> c \<le> 0x39"
definition is_space :: "u8 \<Rightarrow> bool" where "is_space c \<longleftrightarrow> c = 0x20 \<or> (9 \<le> c \<and> c \<le> 13)"

definition digits_value :: "u8 list \<Rightarrow> int" where
  "digits_value cs = foldl (\<lambda>v c. 10 * v + int (unat c) - 48) 0 (takeWhile is_digit cs)"

text \<open>\<open>None\<close> is a number outside of \<open>int\<close>.\<close>

definition atoi :: "u8 list \<Rightarrow> int option" where
  "atoi cs =
     (let cs = dropWhile is_space cs;
          v = (case cs of [] \<Rightarrow> 0 | c # ds \<Rightarrow> if c = 0x2D then - digits_value ds else if c = 0x2B then digits_value ds
                                             else digits_value cs)
      in if - (2 ^ 31) \<le> v \<and> v < 2 ^ 31 then Some v else None)"

text \<open>\<open>strtok\<close> with a comma as the delimiter, from the index \<open>p\<close>: the start and the characters of the next
  token and the index to go on from, or \<open>Some None\<close> when there is none.\<close>

fun skip_commas :: "u8 option list \<Rightarrow> nat option" where
  "skip_commas [] = None"
| "skip_commas (None # bs) = None"
| "skip_commas (Some c # bs) = (if c = 0x2C then map_option Suc (skip_commas bs) else Some 0)"

fun token_chars :: "u8 option list \<Rightarrow> u8 list option" where
  "token_chars [] = None"
| "token_chars (None # bs) = None"
| "token_chars (Some c # bs) = (if c = 0x2C \<or> c = 0 then Some [] else map_option (Cons c) (token_chars bs))"

definition strtok ::
  "nat \<Rightarrow> u8 option list \<Rightarrow> ((nat \<times> u8 list \<times> nat) option \<times> u8 option list) option" where
  "strtok p str = do {
     k \<leftarrow> skip_commas (drop p str);
     cs \<leftarrow> token_chars (drop (p + k) str);
     let start = p + k;
     let e = start + length cs;
     if cs = [] then Some (None, str)
     else if str ! e = Some 0x2C then Some (Some (start, cs, e + 1), str[e := Some 0])
     else Some (Some (start, cs, e), str) }"

section \<open>Sentences\<close>

definition NMEA_OK :: int where "NMEA_OK = 0"
definition NMEA_ERR_CHECKSUM :: int where "NMEA_ERR_CHECKSUM = - 1"
definition NMEA_ERR_INVALID_FIX :: int where "NMEA_ERR_INVALID_FIX = - 2"
definition NMEA_ERR_UNKNOWN :: int where "NMEA_ERR_UNKNOWN = - 4"

datatype nmea_type = NMEA_UNKNOWN | NMEA_GPRMC | NMEA_GPGGA

record 'f gps_fix =
  fix_hour :: u8
  fix_minute :: u8
  fix_seconds :: u8
  fix_year :: u8
  fix_month :: u8
  fix_day :: u8
  fix_milliseconds :: u16
  fix_latitude :: 'f
  fix_longitude :: 'f
  fix_altitude :: 'f
  fix_speed :: 'f
  fix_climb :: 'f

definition parse_hex :: "u8 \<Rightarrow> u8" where
  "parse_hex c =
     (if c < 0x30 then 0 else if c \<le> 0x39 then c - 0x30 else if c < 0x41 then 0 else if c \<le> 0x46 then c - 0x41 + 10 else 0)"

text \<open>The time is read at fixed distances from the start of the token, wherever it ends.\<close>

definition parse_timestamp :: "u8 option list \<Rightarrow> nat \<Rightarrow> 'f gps_fix \<Rightarrow> 'f gps_fix option" where
  "parse_timestamp str ts fx = do {
     h \<leftarrow> strn 2 (drop ts str) \<bind> atoi;
     m \<leftarrow> strn 2 (drop (ts + 2) str) \<bind> atoi;
     s \<leftarrow> strn 2 (drop (ts + 4) str) \<bind> atoi;
     ms \<leftarrow> strn 3 (drop (ts + 7) str) \<bind> atoi;
     Some (fx\<lparr>fix_hour := word_of_int h, fix_minute := word_of_int m, fix_seconds := word_of_int s,
              fix_milliseconds := word_of_int ms\<rparr>) }"

definition parse_latlon :: "'f float_ops \<Rightarrow> u8 list \<Rightarrow> 'f" where
  "parse_latlon fo latlon =
     (let coords = f_atof fo latlon; deg = f_of_int fo (f_trunc fo (f_div fo coords (f_of_int fo 100)));
          dec = f_mul fo (f_sub fo (f_div fo coords (f_of_int fo 100)) deg) (f_of_int fo 100)
      in f_add fo (f_div fo dec (f_of_int fo 60)) deg)"

definition parse_gprmc ::
  "'f float_ops \<Rightarrow> nat \<Rightarrow> nat \<Rightarrow> u8 list \<Rightarrow> u8 option list \<Rightarrow> 'f gps_fix \<Rightarrow> (int \<times> 'f gps_fix) option" where
  "parse_gprmc fo field start value str fx =
     (let minus = f_of_int fo (- 1)
      in if field = 1 then map_option (Pair NMEA_OK) (parse_timestamp str start fx)
         else if field = 2 then Some (if hd value \<noteq> 0x41 then NMEA_ERR_INVALID_FIX else NMEA_OK, fx)
         else if field = 3 then Some (NMEA_OK, fx\<lparr>fix_latitude := parse_latlon fo value\<rparr>)
         else if field = 4 then
           Some (NMEA_OK, if hd value = 0x53 then fx\<lparr>fix_latitude := f_mul fo (fix_latitude fx) minus\<rparr> else fx)
         else if field = 5 then Some (NMEA_OK, fx\<lparr>fix_longitude := parse_latlon fo value\<rparr>)
         else if field = 6 then
           Some (NMEA_OK, if hd value = 0x57 then fx\<lparr>fix_longitude := f_mul fo (fix_longitude fx) minus\<rparr> else fx)
         else if field = 7 then Some (NMEA_OK, fx\<lparr>fix_speed := f_atof fo value\<rparr>)
         else if field = 9 then
           map_option (\<lambda>v. let date = unat (word_of_int v :: u32) in
             (NMEA_OK, fx\<lparr>fix_day := of_nat (date div 10000), fix_month := of_nat (date mod 10000 div 100),
                          fix_year := of_nat (date mod 100)\<rparr>)) (atoi value)
         else Some (NMEA_OK, fx))"

definition parse_gpgga ::
  "'f float_ops \<Rightarrow> nat \<Rightarrow> nat \<Rightarrow> u8 list \<Rightarrow> u8 option list \<Rightarrow> 'f gps_fix \<Rightarrow> (int \<times> 'f gps_fix) option" where
  "parse_gpgga fo field start value str fx =
     (let minus = f_of_int fo (- 1)
      in if field = 1 then map_option (Pair NMEA_OK) (parse_timestamp str start fx)
         else if field = 2 then Some (NMEA_OK, fx\<lparr>fix_latitude := parse_latlon fo value\<rparr>)
         else if field = 3 then
           Some (NMEA_OK, if hd value = 0x53 then fx\<lparr>fix_latitude := f_mul fo (fix_latitude fx) minus\<rparr> else fx)
         else if field = 4 then Some (NMEA_OK, fx\<lparr>fix_longitude := parse_latlon fo value\<rparr>)
         else if field = 5 then
           Some (NMEA_OK, if hd value = 0x57 then fx\<lparr>fix_longitude := f_mul fo (fix_longitude fx) minus\<rparr> else fx)
         else if field = 9 then Some (NMEA_OK, fx\<lparr>fix_altitude := f_atof fo value\<rparr>)
         else Some (NMEA_OK, fx))"

text \<open>The loop over the tokens; a sentence has fewer of them than the buffer has bytes.\<close>

definition GPRMC :: "u8 list" where "GPRMC = [0x24, 0x47, 0x50, 0x52, 0x4D, 0x43]"
definition GPGGA :: "u8 list" where "GPGGA = [0x24, 0x47, 0x50, 0x47, 0x47, 0x41]"

definition nmea_field ::
  "'f float_ops \<Rightarrow> nmea_type \<Rightarrow> nat \<Rightarrow> nat \<Rightarrow> u8 list \<Rightarrow> u8 option list \<Rightarrow> 'f gps_fix \<Rightarrow> (int \<times> 'f gps_fix) option" where
  "nmea_field fo type i start token str fx =
     (case type of
        NMEA_GPRMC \<Rightarrow> parse_gprmc fo i start token str fx
      | NMEA_GPGGA \<Rightarrow> parse_gpgga fo i start token str fx
      | NMEA_UNKNOWN \<Rightarrow> Some (NMEA_OK, fx))"

fun nmea_loop ::
  "'f float_ops \<Rightarrow> nat \<Rightarrow> nmea_type \<Rightarrow> nat \<Rightarrow> nat \<Rightarrow> u8 option list \<Rightarrow> 'f gps_fix \<Rightarrow> (int \<times> 'f gps_fix) option" where
  "nmea_loop fo 0 type i p str fx = None"
| "nmea_loop fo (Suc n) type i p str fx =
     (case strtok p str of
        None \<Rightarrow> None
      | Some (None, str) \<Rightarrow> Some (NMEA_OK, fx)
      | Some (Some (start, token, p), str) \<Rightarrow>
          if i = 0 then
            (if take 6 token = GPRMC then nmea_loop fo n NMEA_GPRMC 1 p str fx
             else if take 6 token = GPGGA then nmea_loop fo n NMEA_GPGGA 1 p str fx
             else Some (NMEA_ERR_UNKNOWN, fx))
          else (case nmea_field fo type i start token str fx of
                  None \<Rightarrow> None
                | Some (e, fx) \<Rightarrow> if e \<noteq> NMEA_OK then Some (e, fx) else nmea_loop fo n type (i + 1) p str fx))"

text \<open>Newlines at the end: \<open>None\<close> when there is nothing else.\<close>

fun nmea_trim :: "nat \<Rightarrow> u8 option list \<Rightarrow> (nat \<times> u8 option list) option" where
  "nmea_trim 0 str = None"
| "nmea_trim (Suc n) str =
     (case str ! n of
        None \<Rightarrow> None
      | Some c \<Rightarrow> if c = 13 \<or> c = 10 then nmea_trim n (str[Suc n := Some 0]) else Some (Suc n, str))"

definition nmea_sum :: "nat \<Rightarrow> u8 option list \<Rightarrow> u16" where
  "nmea_sum n str =
     foldl (\<lambda>s c. s XOR ucast (the c)) (ucast (parse_hex (the (str ! (n - 2)))) * 16 + ucast (parse_hex (the (str ! (n - 1)))))
       (drop 1 (take (n - 3) str))"

text \<open>\<open>strncpy\<close> of \<open>len\<close> bytes into \<open>str\<close>, which has 128.\<close>

definition nmea_copy :: "u8 list \<Rightarrow> int \<Rightarrow> u8 option list option" where
  "nmea_copy nmea len =
     (let s = takeWhile (\<lambda>c. c \<noteq> 0) nmea; n = nat len
      in if len < 0 \<or> len > 128 \<or> (s = nmea \<and> length nmea < n) then None
         else let str = map Some (take n s @ replicate (n - length s) 0) @ replicate (128 - n) None
              in Some (str[(if len > 127 then 127 else n) := Some 0]))"

definition nmea_parse :: "'f float_ops \<Rightarrow> u8 list \<Rightarrow> int \<Rightarrow> 'f gps_fix \<Rightarrow> (int \<times> 'f gps_fix) option" where
  "nmea_parse fo nmea len fx = do {
     str \<leftarrow> nmea_copy nmea len;
     (n, str) \<leftarrow> nmea_trim (nat len) str;
     if n < 3 then None
     else if str ! (n - 3) = Some 0x2A \<and> nmea_sum n str \<noteq> 0 then Some (NMEA_ERR_CHECKSUM, fx)
     else nmea_loop fo 129 NMEA_UNKNOWN 0 0 (str[n - 3 := Some 0]) fx }"

section \<open>Tokens\<close>

text \<open>The string \<open>t\<close> stands at the index \<open>p\<close>.\<close>

definition text_at :: "nat \<Rightarrow> u8 list \<Rightarrow> u8 option list \<Rightarrow> bool" where
  "text_at p t str \<longleftrightarrow> 0 \<notin> set t \<and> (\<exists>rest. drop p str = map Some t @ Some 0 # rest)"

lemma token_chars_text:
  "0 \<notin> set t \<Longrightarrow> 0x2C \<notin> set t \<Longrightarrow> c = 0x2C \<or> c = 0 \<Longrightarrow> token_chars (map Some t @ Some c # bs) = Some t"
  by (induction t) auto

lemma text_at_nth: "drop p str = xs @ y # ys \<Longrightarrow> str ! (p + length xs) = y \<and> p + length xs < length str"
proof -
  assume d: "drop p str = xs @ y # ys"
  then have "length xs < length (drop p str)" by simp
  then have "p + length xs < length str" by simp
  moreover have "drop p str ! length xs = y" using d by simp
  ultimately show ?thesis by simp
qed

lemma strtok_token:
  assumes "text_at p (tok @ t) str" "tok \<noteq> []" "0x2C \<notin> set tok" "t = [] \<or> hd t = 0x2C"
  shows "\<exists>p' str'. strtok p str = Some (Some (p, tok, p'), str') \<and> text_at p' (tl t) str' \<and>
    (\<exists>rest. drop p str' = map Some tok @ Some 0 # rest)"
proof -
  obtain rest where d: "drop p str = map Some (tok @ t) @ Some 0 # rest" and z: "0 \<notin> set tok" "0 \<notin> set t"
    using assms(1) by (auto simp: text_at_def)
  obtain c cs where tok: "tok = c # cs" using assms(2) by (cases tok) auto
  have s: "skip_commas (drop p str) = Some 0" using assms(3) by (simp add: d tok)
  show ?thesis
  proof (cases t)
    case Nil
    then have d: "drop p str = map Some tok @ Some 0 # rest" using d by simp
    have "token_chars (drop p str) = Some tok" using token_chars_text [OF z(1) assms(3)] d by simp
    moreover have n: "str ! (p + length tok) = Some 0" "p + length tok < length str" using text_at_nth [OF d] by simp_all
    moreover have "text_at (p + length tok) [] str"
    proof -
      have "drop (p + length tok) str = drop (length tok) (drop p str)" by (simp add: add.commute)
      also have "\<dots> = Some 0 # rest" by (simp add: d)
      finally show ?thesis by (simp add: text_at_def)
    qed
    ultimately show ?thesis using s assms(2) Nil d by (simp add: strtok_def Let_def)
  next
    case (Cons x t')
    then have x: "x = 0x2C" using assms(4) by simp
    then have d: "drop p str = map Some tok @ Some 0x2C # map Some t' @ Some 0 # rest" using d Cons by simp
    have "token_chars (drop p str) = Some tok" using token_chars_text [OF z(1) assms(3)] d by simp
    moreover have n: "str ! (p + length tok) = Some 0x2C" "p + length tok < length str" using text_at_nth [OF d] by simp_all
    moreover have d': "drop p (str[p + length tok := Some 0]) = map Some tok @ Some 0 # map Some t' @ Some 0 # rest"
      using n by (simp add: drop_update_swap d list_update_append)
    moreover have "drop (Suc (p + length tok)) (str[p + length tok := Some 0]) = map Some t' @ Some 0 # rest"
    proof -
      have "drop (Suc (p + length tok)) (str[p + length tok := Some 0]) = drop (Suc (length tok)) (drop p (str[p + length tok := Some 0]))"
        by (simp add: add.commute)
      then show ?thesis by (simp add: d')
    qed
    ultimately show ?thesis using s assms(2) Cons z(2) by (auto simp: strtok_def text_at_def Let_def)
  qed
qed

lemma text_at_drop: "text_at p (c # t) str \<Longrightarrow> text_at (Suc p) t str"
proof -
  assume "text_at p (c # t) str"
  then obtain rest where "0 \<notin> set t" "drop p str = Some c # map Some t @ Some 0 # rest" by (auto simp: text_at_def)
  moreover from this(2) have "drop (Suc p) str = map Some t @ Some 0 # rest" by (metis drop_Suc list.sel(3) tl_drop)
  ultimately show ?thesis by (auto simp: text_at_def)
qed

lemma strtok_comma: "text_at p (0x2C # t) str \<Longrightarrow> strtok p str = strtok (Suc p) str"
proof -
  assume "text_at p (0x2C # t) str"
  then obtain xs where d: "drop p str = Some 0x2C # xs" by (auto simp: text_at_def)
  then have "drop (Suc p) str = xs" by (metis drop_Suc list.sel(3) tl_drop)
  then show ?thesis
    using d by (cases "skip_commas xs") (simp_all add: strtok_def)
qed

lemma strtok_end: "text_at p [] str \<Longrightarrow> strtok p str = Some (None, str)"
  by (auto simp: text_at_def strtok_def)

text \<open>Whatever text is left, \<open>strtok\<close> finds its end or a token with less text behind it.\<close>

lemma strtok_total:
  assumes "text_at p t str"
  shows "strtok p str = Some (None, str) \<or>
    (\<exists>start tok p' str' t'. strtok p str = Some (Some (start, tok, p'), str') \<and> text_at p' t' str' \<and> length t' < length t)"
  using assms
proof (induction t arbitrary: p)
  case Nil
  then show ?case by (simp add: strtok_end)
next
  case (Cons c t)
  show ?case
  proof (cases "c = 0x2C")
    case True
    then show ?thesis using Cons.IH [OF text_at_drop [OF Cons.prems]] Cons.prems strtok_comma [of p t str]
      by (metis length_Cons less_SucI)
  next
    case False
    let ?tok = "takeWhile (\<lambda>x. x \<noteq> 0x2C) (c # t)" and ?t = "dropWhile (\<lambda>x. x \<noteq> 0x2C) (c # t)"
    have "text_at p (?tok @ ?t) str" using Cons.prems by (simp only: takeWhile_dropWhile_id)
    moreover have "?tok \<noteq> []" using False by simp
    moreover have "0x2C \<notin> set ?tok" by (auto dest: set_takeWhileD)
    moreover have "?t = [] \<or> hd ?t = 0x2C" using hd_dropWhile [of "\<lambda>x. x \<noteq> 0x2C" "c # t"] by auto
    ultimately obtain p' str' where "strtok p str = Some (Some (p, ?tok, p'), str')" "text_at p' (tl ?t) str'"
      using strtok_token [of p ?tok ?t str] by blast
    moreover have "length (tl ?t) < length (c # t)" using length_dropWhile_le [of "\<lambda>x. x \<noteq> 0x2C" "c # t"] by simp
    ultimately show ?thesis by blast
  qed
qed

lemma nmea_loop_rest:
  assumes "text_at p t str" "length t < n" "10 \<le> i"
  shows "nmea_loop fo n NMEA_GPRMC i p str fx = Some (NMEA_OK, fx)"
  using assms
proof (induction n arbitrary: p t str i)
  case (Suc n)
  from strtok_total [OF Suc.prems(1)] show ?case
  proof (elim disjE exE conjE)
    fix start tok p' str' t'
    assume "strtok p str = Some (Some (start, tok, p'), str')" "text_at p' t' str'" "length t' < length t"
    then show ?thesis
      using Suc.IH [of p' t' str' "Suc i"] Suc.prems(2,3) by (simp add: nmea_field_def parse_gprmc_def)
  qed simp
qed simp

lemma nmea_loop_token:
  assumes "text_at p (tok @ t) str" "tok \<noteq> []" "0x2C \<notin> set tok" "t = [] \<or> hd t = 0x2C" "0 < i"
    "\<And>str'. \<exists>rest. drop p str' = map Some tok @ Some 0 # rest \<Longrightarrow> nmea_field fo type i p tok str' fx = Some (NMEA_OK, fx')"
    "\<And>p' str'. text_at p' (tl t) str' \<Longrightarrow> nmea_loop fo n type (Suc i) p' str' fx' = r"
  shows "nmea_loop fo (Suc n) type i p str fx = r"
proof -
  obtain p' str' where s: "strtok p str = Some (Some (p, tok, p'), str')" "text_at p' (tl t) str'"
      "\<exists>rest. drop p str' = map Some tok @ Some 0 # rest"
    using strtok_token [OF assms(1-4)] by blast
  show ?thesis using assms(5) assms(6) [OF s(3)] assms(7) [OF s(2)] by (simp add: s(1))
qed

section \<open>Printing a sentence\<close>

definition digit_chr :: "nat \<Rightarrow> u8" where "digit_chr k = of_nat (48 + k)"
definition two :: "nat \<Rightarrow> u8 list" where "two n = [digit_chr (n div 10), digit_chr (n mod 10)]"
definition three :: "nat \<Rightarrow> u8 list" where "three n = digit_chr (n div 100) # two (n mod 100)"
definition hex_digit :: "nat \<Rightarrow> u8" where "hex_digit n = of_nat (if n < 10 then 48 + n else 55 + n)"

definition commas :: "u8 list list \<Rightarrow> u8 list" where "commas fs = concat (map (Cons 0x2C) fs)"

definition nmea_sentence :: "u8 list \<Rightarrow> u8 list" where
  "nmea_sentence body =
     (let x = unat (foldl (XOR) 0 body) in 0x24 # body @ [0x2A, hex_digit (x div 16), hex_digit (x mod 16)])"

lemma unat_of_nat_8: "n < 256 \<Longrightarrow> unat (of_nat n :: u8) = n"
  by (simp only: unsigned_of_nat) (simp add: take_bit_nat_eq_self)

lemma digit_chr_simps:
  assumes "k < 10"
  shows "is_digit (digit_chr k)" "uint (digit_chr k) = 48 + int k" "\<not> is_space (digit_chr k)" "digit_chr k \<noteq> 0x2D"
    "digit_chr k \<noteq> 0x2B" "digit_chr k \<noteq> 0x2C" "digit_chr k \<noteq> 0"
proof -
  have u: "unat (digit_chr k) = 48 + k" using assms unfolding digit_chr_def by (intro unat_of_nat_8) simp
  show "is_digit (digit_chr k)" "\<not> is_space (digit_chr k)" using u assms by (simp_all add: is_digit_def is_space_def word_le_nat_alt word_unat_eq_iff)
  show "digit_chr k \<noteq> 0x2D" "digit_chr k \<noteq> 0x2B" "digit_chr k \<noteq> 0x2C" "digit_chr k \<noteq> 0"
    using u assms by (auto simp: word_unat_eq_iff)
  show "uint (digit_chr k) = 48 + int k" using u by (simp add: uint_nat)
qed

lemma digits_of: "n < 100 \<Longrightarrow> n div 10 < 10" "n mod 10 < (10 :: nat)" "n < 1000 \<Longrightarrow> n div 100 < (10 :: nat)" "n mod 100 < (100 :: nat)"
  by simp_all

text \<open>The value of digits, most significant first.\<close>

definition digits_num :: "nat list \<Rightarrow> nat" where "digits_num ks = foldl (\<lambda>v k. 10 * v + k) 0 ks"

lemma atoi_digits:
  assumes "\<forall>k \<in> set ks. k < 10" "ks \<noteq> []" "digits_num ks < 2 ^ 31"
  shows "atoi (map digit_chr ks) = Some (int (digits_num ks))"
proof -
  have t: "takeWhile is_digit (map digit_chr ks) = map digit_chr ks"
    using assms(1) by (auto simp: takeWhile_eq_all_conv digit_chr_simps)
  have "foldl (\<lambda>v c. 10 * v + int (unat c) - 48) (int v) (map digit_chr ks) = int (foldl (\<lambda>v k. 10 * v + k) v ks)" for v
    using assms(1)
  proof (induction ks arbitrary: v)
    case (Cons k ks)
    then have "uint (digit_chr k) = 48 + int k" by (simp add: digit_chr_simps)
    then show ?case using Cons.IH [of "10 * v + k"] Cons.prems by simp
  qed simp
  from this [of 0] have "digits_value (map digit_chr ks) = int (digits_num ks)" by (simp add: digits_value_def t digits_num_def)
  then show ?thesis using assms by (cases ks) (simp_all add: atoi_def Let_def digit_chr_simps)
qed

lemma atoi_two: "n < 100 \<Longrightarrow> atoi (two n) = Some (int n)"
  using atoi_digits [of "[n div 10, n mod 10]"] by (simp add: two_def digits_num_def)

lemma atoi_three: "n < 1000 \<Longrightarrow> atoi (three n) = Some (int n)"
proof -
  assume n: "n < 1000"
  have "n mod 100 div 10 < 10" "n mod 100 mod 10 < 10" by (simp_all add: less_mult_imp_div_less)
  moreover have "digits_num [n div 100, n mod 100 div 10, n mod 100 mod 10] = n"
    by (simp add: digits_num_def)
  ultimately show ?thesis using atoi_digits [of "[n div 100, n mod 100 div 10, n mod 100 mod 10]"] n
    by (simp add: three_def two_def)
qed

lemma atoi_date:
  assumes "d < 100" "m < 100" "y < 100"
  shows "atoi (two d @ two m @ two y) = Some (int (10000 * d + 100 * m + y))"
proof -
  let ?ks = "[d div 10, d mod 10, m div 10, m mod 10, y div 10, y mod 10]"
  have "10 * (d div 10) + d mod 10 = d" "10 * (m div 10) + m mod 10 = m" "10 * (y div 10) + y mod 10 = y" by simp_all
  then have "digits_num ?ks = 10000 * d + 100 * m + y" by (simp add: digits_num_def)
  moreover have "d div 10 < 10 \<and> m div 10 < 10 \<and> y div 10 < 10" using digits_of(1) assms by blast
  ultimately show ?thesis using atoi_digits [of ?ks] assms by (simp add: two_def)
qed

section \<open>Checksums\<close>

definition checksum_ok :: "u8 list \<Rightarrow> u8 \<Rightarrow> u8 \<Rightarrow> bool" where
  "checksum_ok body h1 h2 \<longleftrightarrow> (ucast (parse_hex h1) * 16 + ucast (parse_hex h2) :: u16) = ucast (foldl (XOR) 0 body)"

lemma foldl_xor: "foldl (\<lambda>s c. s XOR ucast (the c)) (x :: u16) (map Some body) = x XOR ucast (foldl (XOR) 0 body)"
proof (induction body rule: rev_induct)
  case (snoc c body)
  then show ?case by (simp add: unsigned_xor_eq ac_simps)
qed simp

lemma foldl_xor_start: "foldl (XOR) y cs = y XOR foldl (XOR) (0 :: u8) cs"
  by (induction cs rule: rev_induct) (simp_all add: xor.assoc)

lemma foldl_xor_update:
  "i < length body \<Longrightarrow> foldl (XOR) (0 :: u8) (body[i := c]) = foldl (XOR) 0 body XOR (body ! i XOR c)"
proof -
  assume i: "i < length body"
  let ?F = "foldl (XOR) (0 :: u8) (drop (Suc i) body)" and ?P = "foldl (XOR) (0 :: u8) (take i body)"
  have "foldl (XOR) 0 (body[i := c]) = (?P XOR c) XOR ?F"
    using i foldl_xor_start [of "?P XOR c"] by (simp add: upd_conv_take_nth_drop)
  moreover have "foldl (XOR) 0 body = (?P XOR body ! i) XOR ?F"
    using i foldl_xor_start [of "?P XOR body ! i"] id_take_nth_drop [OF i] by (metis foldl_Cons foldl_append)
  ultimately show ?thesis by (simp add: ac_simps)
qed

lemma nmea_copy_text:
  assumes "0 \<notin> set t" "length t \<le> 127"
  shows "nmea_copy t (int (length t)) = Some (map Some t @ (replicate (128 - length t) None)[0 := Some 0])"
proof -
  have tw: "takeWhile (\<lambda>c. c \<noteq> 0) t = t" using assms(1) by (auto simp: takeWhile_eq_all_conv)
  show ?thesis unfolding nmea_copy_def Let_def tw using assms(2) by (simp add: list_update_append)
qed

lemma nmea_trim_newlines:
  assumes "str = map Some (s @ nl) @ rest" "s \<noteq> []" "last s \<notin> {10, 13}" "set nl \<subseteq> {10, 13}"
  shows "\<exists>str'. nmea_trim (length (s @ nl)) str = Some (length s, str') \<and> take (length s) str' = map Some s \<and> length str' = length str"
  using assms(1,4)
proof (induction nl arbitrary: str rest rule: rev_induct)
  case Nil
  then have "str ! (length s - 1) = Some (last s)" using assms(2) by (simp add: nth_append last_conv_nth)
  moreover have "Suc (length s - 1) = length s" using assms(2) by simp
  ultimately show ?case using assms(3) Nil.prems nmea_trim.simps(2) [of "length s - 1" str] by simp
next
  case (snoc c nl)
  have "str ! length (s @ nl) = Some c" using snoc.prems(1) by (simp add: nth_append)
  moreover have c: "c = 13 \<or> c = 10" "set nl \<subseteq> {10, 13}" using snoc.prems(2) by auto
  ultimately have "nmea_trim (length (s @ nl @ [c])) str = nmea_trim (length (s @ nl)) (str[Suc (length (s @ nl)) := Some 0])"
    by simp
  moreover have "str[Suc (length (s @ nl)) := Some 0] = map Some (s @ nl) @ (Some c # rest)[1 := Some 0]"
    using snoc.prems(1) by (simp add: list_update_append)
  ultimately show ?case using snoc.IH [OF _ c(2)] by (metis length_list_update)
qed

text \<open>A sentence: the checksum is compared, and the loop runs over what stands before the asterisk.\<close>

lemma nmea_parse_sentence:
  assumes "s = b # body @ [0x2A, h1, h2]" "0 \<notin> set s" "h2 \<notin> {10, 13}" "set nl \<subseteq> {10, 13}" "length (s @ nl) \<le> 127"
  shows "if checksum_ok body h1 h2
    then \<exists>str. text_at 0 (b # body) str \<and>
      nmea_parse fo (s @ nl) (int (length (s @ nl))) fx = nmea_loop fo 129 NMEA_UNKNOWN 0 0 str fx
    else nmea_parse fo (s @ nl) (int (length (s @ nl))) fx = Some (NMEA_ERR_CHECKSUM, fx)"
proof -
  let ?t = "s @ nl" and ?n = "length s"
  have nz: "0 \<notin> set ?t" using assms(2,4) by auto
  define str where "str = map Some ?t @ (replicate (128 - length ?t) None)[0 := Some 0]"
  have cp: "nmea_copy ?t (int (length ?t)) = Some str" unfolding str_def by (rule nmea_copy_text [OF nz assms(5)])
  have "last s = h2" "s \<noteq> []" by (simp_all add: assms(1))
  then obtain str' where tr: "nmea_trim (length ?t) str = Some (?n, str')" "take ?n str' = map Some s" "length str' = length str"
    using nmea_trim_newlines [OF str_def, OF _ _ assms(4)] assms(3) by auto
  have n: "?n = length body + 4" by (simp add: assms(1))
  have len: "?n \<le> length str'" using tr(3) by (simp add: str_def)
  have nth: "str' ! j = Some (s ! j)" if "j < ?n" for j
    using that tr(2) len by (metis length_map nth_map nth_take)
  have star: "str' ! (?n - 3) = Some 0x2A" "str' ! (?n - 2) = Some h1" "str' ! (?n - 1) = Some h2"
    using nth [of "?n - 3"] nth [of "?n - 2"] nth [of "?n - 1"] n by (simp_all add: assms(1) nth_append nth_Cons' numeral_eq_Suc)
  have tk: "take (?n - 3) str' = map Some (b # body)"
  proof -
    have "take (?n - 3) (take ?n str') = take (?n - 3) str'" by simp
    then have "take (?n - 3) str' = take (?n - 3) (map Some s)" unfolding tr(2) by simp
    also have "\<dots> = map Some (b # body)" unfolding n by (simp add: assms(1))
    finally show ?thesis .
  qed
  have "nmea_sum ?n str' = ucast (parse_hex h1) * 16 + ucast (parse_hex h2) XOR ucast (foldl (XOR) 0 body)"
    unfolding nmea_sum_def tk star by (simp add: foldl_xor)
  then have sum: "nmea_sum ?n str' = 0 \<longleftrightarrow> checksum_ok body h1 h2" by (simp add: checksum_ok_def xor_eq_0_iff)
  have "text_at 0 (b # body) (str'[?n - 3 := Some 0])"
  proof -
    have "str' = map Some (b # body) @ drop (?n - 3) str'" using tk by (metis append_take_drop_id)
    moreover obtain y ys where "drop (?n - 3) str' = y # ys" using len n by (cases "drop (?n - 3) str'") auto
    moreover have "length (map Some (b # body)) = ?n - 3" using n by simp
    ultimately have "str'[?n - 3 := Some 0] = map Some (b # body) @ Some 0 # ys"
      by (metis list_update_length)
    then show ?thesis using assms(1,2) by (auto simp: text_at_def)
  qed
  moreover have "nmea_parse fo ?t (int (length ?t)) fx =
      (if nmea_sum ?n str' \<noteq> 0 then Some (NMEA_ERR_CHECKSUM, fx) else nmea_loop fo 129 NMEA_UNKNOWN 0 0 (str'[?n - 3 := Some 0]) fx)"
  proof -
    have "\<not> ?n < 3" using n by simp
    then show ?thesis unfolding nmea_parse_def cp nat_int bind.bind_lunit tr(1) prod.case by (simp only: star(1)) simp
  qed
  ultimately show ?thesis using sum by (simp del: length_append) blast
qed

section \<open>Fields\<close>

definition field_ok :: "u8 list \<Rightarrow> bool" where
  "field_ok f \<longleftrightarrow> f \<noteq> [] \<and> 0 \<notin> set f \<and> 0x2C \<notin> set f"

text \<open>The fields one after the other, each on its own; the time has its ten characters.\<close>

fun run_fields :: "'f float_ops \<Rightarrow> nmea_type \<Rightarrow> nat \<Rightarrow> u8 list list \<Rightarrow> 'f gps_fix \<Rightarrow> 'f gps_fix option" where
  "run_fields fo type i [] fx = Some fx"
| "run_fields fo type i (f # fs) fx =
     (case nmea_field fo type i 0 f (map Some f @ [Some 0]) fx of
        Some (e, fx) \<Rightarrow> if e = NMEA_OK then run_fields fo type (Suc i) fs fx else None
      | None \<Rightarrow> None)"

lemma strn_text: "n \<le> length t \<Longrightarrow> 0 \<notin> set t \<Longrightarrow> strn n (map Some t @ rest) = Some (take n t)"
proof (induction t arbitrary: n)
  case (Cons c t)
  then show ?case by (cases n) auto
qed simp

lemma parse_timestamp_text:
  assumes "drop p str = map Some f @ rest" "10 \<le> length f" "0 \<notin> set f"
  shows "parse_timestamp str p fx = do {
     h \<leftarrow> atoi (take 2 f);
     m \<leftarrow> atoi (take 2 (drop 2 f));
     s \<leftarrow> atoi (take 2 (drop 4 f));
     ms \<leftarrow> atoi (take 3 (drop 7 f));
     Some (fx\<lparr>fix_hour := word_of_int h, fix_minute := word_of_int m, fix_seconds := word_of_int s,
              fix_milliseconds := word_of_int ms\<rparr>) }"
proof -
  have d: "drop (p + k) str = map Some (drop k f) @ rest" if "k \<le> 7" for k
  proof -
    have "drop (p + k) str = drop k (drop p str)" by (simp add: add.commute)
    then show ?thesis using that assms(1,2) by (simp add: drop_map)
  qed
  have z: "0 \<notin> set (drop k f)" for k using assms(3) by (auto dest: in_set_dropD)
  have "strn k (drop (p + j) str) = Some (take k (drop j f))" if "j \<le> 7" "j + k \<le> 10" for j k
    unfolding d [OF that(1)] using that assms(2) z by (intro strn_text) simp_all
  from this [of 0 2] this [of 2 2] this [of 4 2] this [of 7 3] show ?thesis by (simp add: parse_timestamp_def)
qed

lemma nmea_field_text:
  assumes "\<exists>rest. drop p str = map Some f @ Some 0 # rest" "i = 1 \<longrightarrow> 10 \<le> length f" "0 \<notin> set f"
  shows "nmea_field fo type i p f str fx = nmea_field fo type i 0 f (map Some f @ [Some 0]) fx"
proof (cases "i = 1")
  case True
  then show ?thesis
    using assms parse_timestamp_text [of p str f _ fx] parse_timestamp_text [of 0 "map Some f @ [Some 0]" f "[Some 0]" fx]
    by (auto simp: nmea_field_def parse_gprmc_def parse_gpgga_def split: nmea_type.splits)
qed (simp add: nmea_field_def parse_gprmc_def parse_gpgga_def split: nmea_type.splits)

lemma nmea_loop_fields:
  assumes "text_at p (f @ commas fs @ extra) str" "\<forall>g \<in> set (f # fs). field_ok g" "extra = [] \<or> hd extra = 0x2C"
    "0 < i" "i = 1 \<longrightarrow> 10 \<le> length f" "run_fields fo type i (f # fs) fx = Some fx'"
    "\<And>p' str'. text_at p' (tl extra) str' \<Longrightarrow> nmea_loop fo n type (i + length (f # fs)) p' str' fx' = r"
  shows "nmea_loop fo (n + length (f # fs)) type i p str fx = r"
  using assms
proof (induction fs arbitrary: p f str i fx)
  case Nil
  then obtain e where e: "nmea_field fo type i 0 f (map Some f @ [Some 0]) fx = Some (NMEA_OK, fx')"
    by (auto split: option.splits if_splits)
  have "nmea_loop fo (Suc n) type i p str fx = r"
  proof (rule nmea_loop_token [of p f extra])
    show "nmea_field fo type i p f str' fx = Some (NMEA_OK, fx')" if "\<exists>rest. drop p str' = map Some f @ Some 0 # rest" for str'
      using nmea_field_text [OF that, where i = i and fo = fo and type = type and fx = fx] Nil.prems(2,5) e by (simp add: field_ok_def)
  qed (use Nil.prems in \<open>auto simp: field_ok_def commas_def\<close>)
  then show ?case by simp
next
  case (Cons g fs)
  then obtain fx1 where e: "nmea_field fo type i 0 f (map Some f @ [Some 0]) fx = Some (NMEA_OK, fx1)"
      "run_fields fo type (Suc i) (g # fs) fx1 = Some fx'"
    by (auto split: option.splits if_splits)
  have "nmea_loop fo (Suc (n + length (g # fs))) type i p str fx = r"
  proof (rule nmea_loop_token [of p f "commas (g # fs) @ extra"])
    show "nmea_field fo type i p f str' fx = Some (NMEA_OK, fx1)" if "\<exists>rest. drop p str' = map Some f @ Some 0 # rest" for str'
      using nmea_field_text [OF that, where i = i and fo = fo and type = type and fx = fx] Cons.prems(2,5) e by (simp add: field_ok_def)
    show "nmea_loop fo (n + length (g # fs)) type (Suc i) p' str' fx1 = r"
      if "text_at p' (tl (commas (g # fs) @ extra)) str'" for p' str'
    proof (rule Cons.IH)
      show "text_at p' (g @ commas fs @ extra) str'" using that by (simp add: commas_def)
      show "run_fields fo type (Suc i) (g # fs) fx1 = Some fx'" by (rule e)
    qed (use Cons.prems in auto)
  qed (use Cons.prems in \<open>auto simp: field_ok_def commas_def\<close>)
  then show ?case by simp
qed

lemma parse_hex_digit: "k < 16 \<Longrightarrow> parse_hex (hex_digit k) = of_nat k \<and> hex_digit k \<notin> {0, 10, 13}"
proof -
  assume "k < 16"
  then have "k \<in> {0, 1, 2, 3, 4, 5, 6, 7, 8, 9, 10, 11, 12, 13, 14, 15}" by (simp only: insert_iff empty_iff) arith
  then show ?thesis by (elim insertE emptyE) (simp_all add: parse_hex_def hex_digit_def)
qed

lemma checksum_printed: "checksum_ok body (hex_digit (unat (foldl (XOR) 0 body) div 16)) (hex_digit (unat (foldl (XOR) 0 body) mod 16))"
proof -
  let ?x = "foldl (XOR) 0 body"
  have "unat ?x < 2 ^ LENGTH(8)" by (rule unsigned_less)
  then have x: "unat ?x < 256" "unat ?x div 16 < 16" by simp_all
  then have p: "parse_hex (hex_digit (unat ?x div 16)) = of_nat (unat ?x div 16)"
      "parse_hex (hex_digit (unat ?x mod 16)) = of_nat (unat ?x mod 16)"
    using parse_hex_digit by simp_all
  have u: "ucast (of_nat n :: u8) = (of_nat n :: u16)" if "n < 16" for n
    using that unat_of_nat_8 [of n] of_nat_unat [of "of_nat n :: u8", where 'a = "16 word"] by simp
  have "of_nat (unat ?x div 16) * 16 + of_nat (unat ?x mod 16) = (of_nat (unat ?x div 16 * 16 + unat ?x mod 16) :: u16)"
    by (simp only: of_nat_add of_nat_mult of_nat_numeral)
  also have "\<dots> = of_nat (unat ?x)" by (simp only: div_mult_mod_eq)
  also have "\<dots> = ucast ?x" by (rule of_nat_unat)
  finally have v: "of_nat (unat ?x div 16) * 16 + of_nat (unat ?x mod 16) = (ucast ?x :: u16)" .
  show ?thesis unfolding checksum_ok_def p u [OF x(2)] u [OF mod_less_divisor [OF zero_less_numeral]] by (rule v)
qed


section \<open>Positions and corrupted sentences\<close>

text \<open>The fields of a position in a sentence \<open>GPRMC\<close> and the fix that \<open>nmea_parse\<close> makes of them.\<close>

record rmc =
  rmc_hour :: nat
  rmc_minute :: nat
  rmc_second :: nat
  rmc_milli :: nat
  rmc_lat :: "u8 list"
  rmc_south :: bool
  rmc_lon :: "u8 list"
  rmc_west :: bool
  rmc_speed :: "u8 list"
  rmc_angle :: "u8 list"
  rmc_day :: nat
  rmc_month :: nat
  rmc_year :: nat

definition rmc_ok :: "rmc \<Rightarrow> bool" where
  "rmc_ok r \<longleftrightarrow> rmc_hour r < 100 \<and> rmc_minute r < 100 \<and> rmc_second r < 100 \<and> rmc_milli r < 1000 \<and>
     rmc_day r < 100 \<and> rmc_month r < 100 \<and> rmc_year r < 100 \<and>
     (\<forall>f \<in> {rmc_lat r, rmc_lon r, rmc_speed r, rmc_angle r}. field_ok f)"

definition rmc_time :: "rmc \<Rightarrow> u8 list" where
  "rmc_time r = two (rmc_hour r) @ two (rmc_minute r) @ two (rmc_second r) @ 0x2E # three (rmc_milli r)"

definition rmc_fields :: "rmc \<Rightarrow> u8 list list" where
  "rmc_fields r =
     [rmc_time r, [0x41], rmc_lat r, [if rmc_south r then 0x53 else 0x4E], rmc_lon r, [if rmc_west r then 0x57 else 0x45],
      rmc_speed r, rmc_angle r, two (rmc_day r) @ two (rmc_month r) @ two (rmc_year r)]"

definition rmc_fix :: "'f float_ops \<Rightarrow> rmc \<Rightarrow> 'f gps_fix \<Rightarrow> 'f gps_fix" where
  "rmc_fix fo r fx =
     (let minus = f_of_int fo (- 1); lat = parse_latlon fo (rmc_lat r); lon = parse_latlon fo (rmc_lon r)
      in fx\<lparr>fix_hour := of_nat (rmc_hour r), fix_minute := of_nat (rmc_minute r), fix_seconds := of_nat (rmc_second r),
            fix_milliseconds := of_nat (rmc_milli r),
            fix_latitude := (if rmc_south r then f_mul fo lat minus else lat),
            fix_longitude := (if rmc_west r then f_mul fo lon minus else lon),
            fix_speed := f_atof fo (rmc_speed r),
            fix_day := of_nat (rmc_day r), fix_month := of_nat (rmc_month r), fix_year := of_nat (rmc_year r)\<rparr>)"

lemma digits_plain:
  "n < 100 \<Longrightarrow> 0 \<notin> set (two n) \<and> 0x2C \<notin> set (two n)" "n < 1000 \<Longrightarrow> 0 \<notin> set (three n) \<and> 0x2C \<notin> set (three n)"
  using digit_chr_simps(6,7) by (simp_all add: two_def three_def less_mult_imp_div_less)

lemma field_ok_append: "field_ok (f @ g) \<longleftrightarrow> (f \<noteq> [] \<or> g \<noteq> []) \<and> 0 \<notin> set f \<and> 0x2C \<notin> set f \<and> 0 \<notin> set g \<and> 0x2C \<notin> set g"
  by (auto simp: field_ok_def)

lemma field_ok_time: "rmc_ok r \<Longrightarrow> field_ok (rmc_time r)"
  by (simp add: rmc_ok_def rmc_time_def field_ok_append digits_plain)

lemma field_ok_date: "rmc_ok r \<Longrightarrow> field_ok (two (rmc_day r) @ two (rmc_month r) @ two (rmc_year r))"
  unfolding rmc_ok_def field_ok_append by (simp add: digits_plain) (simp add: two_def)

lemma rmc_fields_ok: "rmc_ok r \<Longrightarrow> \<forall>f \<in> set (rmc_fields r). field_ok f"
  using field_ok_time [of r] field_ok_date [of r] by (simp add: rmc_fields_def) (simp add: rmc_ok_def field_ok_def)

lemma length_two_three: "length (two n) = 2" "length (three n) = 3"
  by (simp_all add: two_def three_def)

lemma rmc_date:
  assumes "d < 100" "m < 100" "y < 100"
  shows "unat (of_nat (10000 * d + 100 * m + y) :: u32) = 10000 * d + 100 * m + y"
    "(10000 * d + 100 * m + y) div 10000 = d" "(10000 * d + 100 * m + y) mod 10000 div 100 = m"
    "(10000 * d + 100 * m + y) mod 100 = y"
proof -
  have "10000 * d + 100 * m + y < 2 ^ 32" using assms by simp
  then show "unat (of_nat (10000 * d + 100 * m + y) :: u32) = 10000 * d + 100 * m + y"
    by (simp only: unsigned_of_nat) (simp add: take_bit_nat_eq_self)
  have r: "100 * m + y < 10000" using assms by simp
  then have "(10000 * d + (100 * m + y)) div 10000 = d" "(10000 * d + (100 * m + y)) mod 10000 = 100 * m + y" by simp_all
  then have dm: "(10000 * d + 100 * m + y) div 10000 = d" "(10000 * d + 100 * m + y) mod 10000 = 100 * m + y"
    by (simp_all only: add.assoc)
  show "(10000 * d + 100 * m + y) div 10000 = d" by (rule dm)
  show "(10000 * d + 100 * m + y) mod 10000 div 100 = m" using assms by (simp add: dm)
  have "10000 * d + 100 * m + y = 100 * (100 * d + m) + y" by simp
  moreover have "(100 * (100 * d + m) + y) mod 100 = y" using assms(3) by (simp only: mod_mult_self4 mod_less)
  ultimately show "(10000 * d + 100 * m + y) mod 100 = y" by simp
qed

lemma run_rmc:
  assumes "rmc_ok r"
  shows "run_fields fo NMEA_GPRMC 1 (rmc_fields r) fx = Some (rmc_fix fo r fx)"
proof -
  let ?t = "rmc_time r"
  have z: "0 \<notin> set ?t" "10 \<le> length ?t"
    using field_ok_time [OF assms] by (simp_all add: field_ok_def) (simp add: rmc_time_def length_two_three)
  have sp: "take 2 ?t = two (rmc_hour r)" "take 2 (drop 2 ?t) = two (rmc_minute r)" "take 2 (drop 4 ?t) = two (rmc_second r)"
      "take 3 (drop 7 ?t) = three (rmc_milli r)"
    unfolding rmc_time_def two_def three_def by simp_all
  have ts: "parse_timestamp (map Some ?t @ [Some 0]) 0 fx = Some (fx\<lparr>fix_hour := of_nat (rmc_hour r),
      fix_minute := of_nat (rmc_minute r), fix_seconds := of_nat (rmc_second r), fix_milliseconds := of_nat (rmc_milli r)\<rparr>)"
    using assms parse_timestamp_text [of 0 "map Some ?t @ [Some 0]" ?t "[Some 0]" fx, OF _ z(2,1)]
    by (simp add: sp atoi_two atoi_three rmc_ok_def)
  note date = rmc_date [of "rmc_day r" "rmc_month r" "rmc_year r"] atoi_date [of "rmc_day r" "rmc_month r" "rmc_year r"]
  have d: "rmc_day r < 100" "rmc_month r < 100" "rmc_year r < 100" using assms by (simp_all add: rmc_ok_def)
  show ?thesis
    unfolding rmc_fields_def run_fields.simps nmea_field_def parse_gprmc_def Let_def
    by (simp add: ts date(5) [OF d] date(1-4) [OF d] rmc_fix_def NMEA_OK_def Let_def del: of_nat_add of_nat_mult)
qed

text \<open>The loop over the text of such a sentence.\<close>

lemma nmea_loop_rmc:
  assumes "rmc_ok r" "text_at 0 (GPRMC @ commas (rmc_fields r) @ extra) str" "extra = [] \<or> hd extra = 0x2C" "length extra < 119"
  shows "nmea_loop fo 129 NMEA_UNKNOWN 0 0 str fx = Some (NMEA_OK, rmc_fix fo r fx)"
proof -
  let ?fs = "rmc_fields r"
  have fs: "\<forall>f \<in> set ?fs. field_ok f" by (rule rmc_fields_ok [OF assms(1)])
  obtain p' str' where tk: "strtok 0 str = Some (Some (0, GPRMC, p'), str')" "text_at p' (tl (commas ?fs @ extra)) str'"
    using strtok_token [of 0 GPRMC "commas ?fs @ extra" str] assms(2) by (auto simp: GPRMC_def commas_def rmc_fields_def)
  obtain f gs where f: "?fs = f # gs" "length gs = 8" "10 \<le> length f"
    by (auto simp: rmc_fields_def rmc_time_def length_two_three)
  have "nmea_loop fo (119 + length (f # gs)) NMEA_GPRMC 1 p' str' fx = Some (NMEA_OK, rmc_fix fo r fx)"
  proof (rule nmea_loop_fields)
    show "text_at p' (f @ commas gs @ extra) str'" using tk(2) by (simp add: f commas_def)
    show "nmea_loop fo 119 NMEA_GPRMC (1 + length (f # gs)) p'' str'' (rmc_fix fo r fx) = Some (NMEA_OK, rmc_fix fo r fx)"
      if "text_at p'' (tl extra) str''" for p'' str''
      using that by (rule nmea_loop_rest) (use assms(4) f in simp_all)
    show "run_fields fo NMEA_GPRMC 1 (f # gs) fx = Some (rmc_fix fo r fx)" using run_rmc [OF assms(1)] by (simp add: f)
  qed (use fs f assms(3) in auto)
  then have l: "nmea_loop fo 128 NMEA_GPRMC 1 p' str' fx = Some (NMEA_OK, rmc_fix fo r fx)" by (simp add: f)
  have "nmea_loop fo (Suc 128) NMEA_UNKNOWN 0 0 str fx = nmea_loop fo 128 NMEA_GPRMC 1 p' str' fx"
    unfolding nmea_loop.simps tk(1) by (simp add: GPRMC_def)
  moreover have "Suc 128 = 129" by simp
  ultimately show ?thesis using l by metis
qed

lemma rmc_text_zero: "rmc_ok r \<Longrightarrow> 0 \<notin> set (commas (rmc_fields r))"
  using rmc_fields_ok [of r] by (auto simp: commas_def field_ok_def)

lemma rmc_text_length: "20 \<le> length (commas (rmc_fields r))"
  by (simp add: commas_def rmc_fields_def rmc_time_def length_two_three)


lemma xor_cancel: "(x :: u8) XOR y = x \<Longrightarrow> y = 0"
  by (metis xor.left_neutral xor.assoc xor_self_eq)

lemma ucast_8_16: "(ucast (x :: u8) :: u16) = ucast y \<longleftrightarrow> x = y"
proof -
  have "unat (ucast z :: u16) = unat z" for z :: u8
  proof -
    have "unat z < 2 ^ LENGTH(8)" by (rule unsigned_less)
    then show ?thesis by (simp add: unsigned_ucast_eq take_bit_nat_eq_self)
  qed
  then show ?thesis by (metis word_unat_eq_iff)
qed

text \<open>The checksum detects every change of one character: the sentence is rejected and the fix left alone.\<close>

theorem nmea_checksum_detects:
  assumes "s = b # body @ [0x2A, h1, h2]" "0 \<notin> set s" "h2 \<notin> {10, 13}" "set nl \<subseteq> {10, 13}" "length (s @ nl) \<le> 127"
    "nmea_parse fo (s @ nl) (int (length (s @ nl))) fx = Some (NMEA_OK, fx')"
    "i < length body" "c \<noteq> body ! i" "c \<noteq> 0"
  shows "nmea_parse fo (s[Suc i := c] @ nl) (int (length (s @ nl))) fx = Some (NMEA_ERR_CHECKSUM, fx)"
proof -
  have "checksum_ok body h1 h2"
    using nmea_parse_sentence [OF assms(1-5), of fo fx] assms(6) by (cases "checksum_ok body h1 h2") (simp_all add: NMEA_OK_def NMEA_ERR_CHECKSUM_def)
  moreover have "body ! i XOR c \<noteq> 0" using assms(8) by (simp add: xor_eq_0_iff)
  then have "foldl (XOR) 0 (body[i := c]) \<noteq> foldl (XOR) 0 body"
    unfolding foldl_xor_update [OF assms(7)] using xor_cancel by blast
  ultimately have no: "\<not> checksum_ok (body[i := c]) h1 h2"
    unfolding checksum_ok_def by (metis ucast_8_16)
  have s: "s[Suc i := c] = b # body[i := c] @ [0x2A, h1, h2]" using assms(1,7) by (simp add: list_update_append)
  have "0 \<notin> set (s[Suc i := c])" using assms(2,9) set_update_subset_insert [of s "Suc i" c] by auto
  from nmea_parse_sentence [OF s this assms(3,4), of fo fx] no assms(5) show ?thesis by simp
qed

definition sample_ops :: "int float_ops" where
  "sample_ops = \<lparr>f_atof = digits_value, f_of_int = (\<lambda>i. i), f_trunc = (\<lambda>i. i), f_add = (+), f_sub = (-), f_mul = (*), f_div = (div)\<rparr>"

definition sample_rmc :: rmc where
  "sample_rmc = \<lparr>rmc_hour = 12, rmc_minute = 35, rmc_second = 19, rmc_milli = 250, rmc_lat = [0x34, 0x38, 0x30, 0x37], rmc_south = True,
     rmc_lon = [0x31, 0x31, 0x33, 0x31], rmc_west = False, rmc_speed = [0x32], rmc_angle = [0x38, 0x34],
     rmc_day = 23, rmc_month = 3, rmc_year = 94\<rparr>"

definition sample_fix :: "int gps_fix" where
  "sample_fix = \<lparr>fix_hour = 0, fix_minute = 0, fix_seconds = 0, fix_year = 0, fix_month = 0, fix_day = 0, fix_milliseconds = 0,
     fix_latitude = 0, fix_longitude = 0, fix_altitude = 0, fix_speed = 0, fix_climb = 0\<rparr>"

lemma sample_rmc_ok: "rmc_ok sample_rmc"
  by (simp add: rmc_ok_def sample_rmc_def field_ok_def)

lemma sample_length:
  "length (commas (rmc_fields sample_rmc)) = 39"
  by (simp add: commas_def rmc_fields_def rmc_time_def length_two_three sample_rmc_def)


lemma sample_gga: "nmea_parse sample_ops [0x24, 0x47, 0x50, 0x47, 0x47, 0x41, 0x2A, 0x35, 0x36, 13] 10 sample_fix = Some (NMEA_OK, sample_fix)"
  by code_simp

theorem nmea_checksum_detects_witness:
  "nmea_parse sample_ops [0x24, 0x47, 0x50, 0x47, 0x47, 0x40, 0x2A, 0x35, 0x36, 13] 10 sample_fix = Some (NMEA_ERR_CHECKSUM, sample_fix)"
  using nmea_checksum_detects [where b = "0x24" and body = "[0x47, 0x50, 0x47, 0x47, 0x41]" and nl = "[13]" and fo = sample_ops
      and fx = sample_fix and fx' = sample_fix and i = 4 and c = "0x40", OF refl] sample_gga
  by simp

section \<open>Characters from the receiver\<close>

definition GPS_MSG_Q_SIZE :: nat where "GPS_MSG_Q_SIZE = 4"
definition GPS_BUFSIZE :: nat where "GPS_BUFSIZE = 128"

text \<open>The size of \<open>gps_fix_t\<close>: six bytes, a half word and five floats.\<close>

definition GPS_FIX_SIZE :: nat where "GPS_FIX_SIZE = 28"

record 'f gps =
  gps_node :: csp_node
  gps_fixes :: "'f gps_fix list"
  next_buffer_slot :: nat
  gps_buf :: "u8 list"
  gps_buf_cur :: nat

definition gps_incr_fix :: "'f gps \<Rightarrow> nat \<times> 'f gps" where
  "gps_incr_fix g =
     (let ptr = next_buffer_slot g; next = ptr + 1
      in (ptr, g\<lparr>next_buffer_slot := (if next \<ge> GPS_MSG_Q_SIZE then 0 else next)\<rparr>))"

definition gps_last_fix :: "'f gps \<Rightarrow> nat" where "gps_last_fix g = next_buffer_slot g"

text \<open>The position is copied into a packet and sent; \<open>csp_buffer_get\<close> may have returned no packet.\<close>

definition gps_send_fix ::
  "nexthop \<Rightarrow> u32 \<Rightarrow> ('f gps_fix \<Rightarrow> u8 list) \<Rightarrow> nat \<Rightarrow> 'f gps_fix \<Rightarrow> csp_node \<Rightarrow> csp_node option" where
  "gps_send_fix nh nonce memory conn fx w =
     (case csp_buffer_get GPS_FIX_SIZE (nd_pool w) of
        (None, pool) \<Rightarrow> None
      | (Some msg, pool) \<Rightarrow>
          let w = w\<lparr>nd_pool := pool\<rparr>;
              w = put_packet msg ((buf_packet (nd_pool w) msg)\<lparr>pkt_data := take GPS_FIX_SIZE (memory fx)\<rparr>) w
          in (case csp_send nh nonce (Some conn) (Some msg) w of
                None \<Rightarrow> None
              | Some (ok, w) \<Rightarrow> Some (if ok = 0 then free_packet (Some msg) w else w)))"

definition gps_rx_cb ::
  "'f float_ops \<Rightarrow> nexthop \<Rightarrow> u32 \<Rightarrow> ('f gps_fix \<Rightarrow> u8 list) \<Rightarrow> nat option \<Rightarrow> u8 \<Rightarrow> 'f gps \<Rightarrow> 'f gps option" where
  "gps_rx_cb fo nh nonce memory conn c g =
     (if c = 10 \<or> c = 13 then
        (let (fix, g) = gps_incr_fix g; len = gps_buf_cur g + 1
         in case nmea_parse fo (gps_buf g) (int len) (gps_fixes g ! fix) of
              None \<Rightarrow> None
            | Some (result, fx) \<Rightarrow>
                let g = g\<lparr>gps_fixes := (gps_fixes g)[fix := fx], gps_buf := replicate len 0 @ drop len (gps_buf g), gps_buf_cur := 0\<rparr>
                in if result \<noteq> NMEA_OK then Some g
                   else (case conn of None \<Rightarrow> Some g
                         | Some cn \<Rightarrow> map_option (\<lambda>w. g\<lparr>gps_node := w\<rparr>) (gps_send_fix nh nonce memory cn fx (gps_node g))))
      else
        let cur = gps_buf_cur g + 1
        in Some (g\<lparr>gps_buf := (gps_buf g)[gps_buf_cur g := c], gps_buf_cur := (if cur > GPS_BUFSIZE - 1 then 0 else cur)\<rparr>))"

text \<open>The characters one after the other.\<close>

fun gps_feed ::
  "'f float_ops \<Rightarrow> nexthop \<Rightarrow> u32 \<Rightarrow> ('f gps_fix \<Rightarrow> u8 list) \<Rightarrow> nat option \<Rightarrow> u8 list \<Rightarrow> 'f gps \<Rightarrow> 'f gps option" where
  "gps_feed fo nh nonce memory conn [] g = Some g"
| "gps_feed fo nh nonce memory conn (c # cs) g =
     (case gps_rx_cb fo nh nonce memory conn c g of None \<Rightarrow> None | Some g \<Rightarrow> gps_feed fo nh nonce memory conn cs g)"

definition gps_ready :: "'f gps \<Rightarrow> bool" where
  "gps_ready g \<longleftrightarrow> gps_buf g = replicate GPS_BUFSIZE 0 \<and> gps_buf_cur g = 0 \<and> next_buffer_slot g < GPS_MSG_Q_SIZE \<and>
     length (gps_fixes g) = GPS_MSG_Q_SIZE"

lemma gps_feed_append:
  "gps_feed fo nh nonce memory conn (cs @ ds) g =
     (case gps_feed fo nh nonce memory conn cs g of None \<Rightarrow> None | Some g \<Rightarrow> gps_feed fo nh nonce memory conn ds g)"
  by (induction cs arbitrary: g) (auto split: option.splits)

text \<open>The characters of a line are collected.\<close>

lemma gps_feed_text:
  assumes "set t \<inter> {10, 13} = {}" "length t < 128" "gps_ready g"
  shows "gps_feed fo nh nonce memory conn t g = Some (g\<lparr>gps_buf := t @ replicate (128 - length t) 0, gps_buf_cur := length t\<rparr>)"
  using assms(1,2)
proof (induction t rule: rev_induct)
  case Nil
  then show ?case using assms(3) by (simp add: gps_ready_def GPS_BUFSIZE_def)
next
  case (snoc c t)
  then have "gps_feed fo nh nonce memory conn t g = Some (g\<lparr>gps_buf := t @ replicate (128 - length t) 0, gps_buf_cur := length t\<rparr>)" by simp
  moreover have "replicate (128 - length t) 0 = (0 :: u8) # replicate (127 - length t) 0"
    using snoc.prems(2) by (simp flip: replicate_Suc add: Suc_diff_le)
  ultimately show ?case using snoc.prems by (simp add: gps_feed_append gps_rx_cb_def GPS_BUFSIZE_def Let_def)
qed

text \<open>The parser is given one byte too many: the last character it sees is the end of the string.\<close>

lemma nmea_copy_line:
  assumes "0 \<notin> set t" "length t < 127"
  shows "nmea_copy (t @ replicate (128 - length t) 0) (int (Suc (length t))) =
    Some (map Some (t @ [0]) @ (replicate (127 - length t) None)[0 := Some 0])"
proof -
  have "replicate (128 - length t) 0 = (0 :: u8) # replicate (127 - length t) 0" using assms(2) by (simp flip: replicate_Suc add: Suc_diff_le)
  then have tw: "takeWhile (\<lambda>c. c \<noteq> 0) (t @ replicate (128 - length t) 0) = t"
    using assms(1) by (auto simp: takeWhile_append takeWhile_eq_all_conv)
  have n: "nat (int (Suc (length t))) = Suc (length t)" by simp
  show ?thesis unfolding nmea_copy_def Let_def tw n using assms(2) by (simp add: list_update_append del: of_nat_Suc)
qed

lemma nmea_parse_line:
  assumes "0 \<notin> set (u @ [h1, h2])" "h1 \<noteq> 0x2A" "length u < 125"
  shows "\<exists>str. text_at 0 u str \<and>
    nmea_parse fo ((u @ [h1, h2]) @ replicate (126 - length u) 0) (int (length u + 3)) fx = nmea_loop fo 129 NMEA_UNKNOWN 0 0 str fx"
proof -
  let ?n = "length u + 3"
  define str where "str = map Some ((u @ [h1, h2]) @ [0]) @ (replicate (125 - length u) None)[0 := Some 0]"
  have cp: "nmea_copy ((u @ [h1, h2]) @ replicate (126 - length u) 0) (int ?n) = Some str"
    using nmea_copy_line [OF assms(1)] assms(3) by (simp add: str_def numeral_eq_Suc)
  have nth: "str ! length u = Some h1" "str ! (length u + 2) = Some 0"
    by (simp_all add: str_def nth_append numeral_eq_Suc)
  have "nmea_trim (Suc (length u + 2)) str = Some (Suc (length u + 2), str)" unfolding nmea_trim.simps nth(2) by simp
  moreover have "Suc (length u + 2) = ?n" by simp
  ultimately have tr: "nmea_trim ?n str = Some (?n, str)" by (simp only:)
  have "nmea_parse fo ((u @ [h1, h2]) @ replicate (126 - length u) 0) (int ?n) fx = nmea_loop fo 129 NMEA_UNKNOWN 0 0 (str[length u := Some 0]) fx"
    unfolding nmea_parse_def cp nat_int bind.bind_lunit tr prod.case using assms(2) by (simp add: nth(1))
  moreover have "text_at 0 u (str[length u := Some 0])"
    using assms(1) by (auto simp: text_at_def str_def list_update_append)
  ultimately show ?thesis by blast
qed

text \<open>A line of at most one character, as between a carriage return and a line feed.\<close>

lemma nmea_trim_le: "nmea_trim n str = Some (m, str') \<Longrightarrow> m \<le> n"
proof (induction n arbitrary: str)
  case (Suc n)
  then show ?case by (fastforce split: option.splits if_splits)
qed simp

lemma nmea_parse_short: "len \<le> 2 \<Longrightarrow> nmea_parse fo cs len fx = None"
proof -
  assume len: "len \<le> 2"
  have "n < 3" if "nmea_trim (nat len) str = Some (n, str')" for str n str' using nmea_trim_le [OF that] len by simp
  then show ?thesis by (cases "nmea_copy cs len"; cases "nmea_trim (nat len) (the (nmea_copy cs len))") (auto simp: nmea_parse_def)
qed

lemma gps_newline_early: "gps_buf_cur g \<le> 1 \<Longrightarrow> c \<in> {10, 13} \<Longrightarrow> gps_rx_cb fo nh nonce memory conn c g = None"
  by (auto simp: gps_rx_cb_def gps_incr_fix_def nmea_parse_short Let_def)

text \<open>From a line that ends with a carriage return, \<open>gps_rx_cb\<close> takes the position of a sentence \<open>GPRMC\<close> into the
  next of the four fixes - whatever the two digits of the checksum are, which \<open>nmea_parse\<close> never gets to
  compare, because it is given one byte too many; \<open>gps_last_fix\<close> then points to another, older fix.  A line
  feed after the carriage return makes \<open>nmea_parse\<close> read and write before its buffer.\<close>

theorem gps_checksum_ignored:
  assumes "rmc_ok r" "hd extra = 0x2C" "extra \<noteq> []" "h1 \<noteq> 0x2A"
    "line = GPRMC @ commas (rmc_fields r) @ extra @ [0x2A, h1, h2]" "set line \<inter> {0, 10, 13} = {}" "length line \<le> 126" "gps_ready g"
  shows "\<exists>g'. gps_feed fo nh nonce memory None (line @ [13]) g = Some g' \<and> gps_ready g' \<and>
    gps_fixes g' = (gps_fixes g)[next_buffer_slot g := rmc_fix fo r (gps_fixes g ! next_buffer_slot g)] \<and>
    next_buffer_slot g' = (next_buffer_slot g + 1) mod 4 \<and> gps_last_fix g' \<noteq> next_buffer_slot g \<and>
    gps_feed fo nh nonce memory None (line @ [13, 10]) g = None"
proof -
  let ?u = "GPRMC @ commas (rmc_fields r) @ extra @ [0x2A]" and ?k = "next_buffer_slot g"
  let ?buf = "line @ replicate (128 - length line) 0" and ?fx = "gps_fixes g ! next_buffer_slot g"
  have line: "line = ?u @ [h1, h2]" by (simp add: assms(5))
  have z: "0 \<notin> set (?u @ [h1, h2])" using assms(6) unfolding line by blast
  have len: "length ?u < 125" "length line = length ?u + 2" "length line < 128" using assms(7) unfolding line by simp_all
  obtain str where str: "text_at 0 ?u str" "nmea_parse fo ?buf (int (length line + 1)) ?fx = nmea_loop fo 129 NMEA_UNKNOWN 0 0 str ?fx"
    using nmea_parse_line [OF z assms(4) len(1), of fo ?fx] unfolding len(2) unfolding line by (simp add: add.assoc) blast
  have "hd (extra @ [0x2A]) = 0x2C" "length (extra @ [0x2A]) < 119" using assms(2,3) len(1) rmc_text_length [of r] by simp_all
  then have p: "nmea_parse fo ?buf (int (length line + 1)) ?fx = Some (NMEA_OK, rmc_fix fo r ?fx)"
    using nmea_loop_rmc [OF assms(1), of "extra @ [0x2A]" str fo ?fx] str by simp
  define g1 where "g1 = g\<lparr>gps_buf := ?buf, gps_buf_cur := length line\<rparr>"
  have f: "gps_feed fo nh nonce memory None line g = Some g1"
    unfolding g1_def by (rule gps_feed_text) (use assms(6,8) len(3) in auto)
  define g2 where "g2 = snd (gps_incr_fix g)\<lparr>gps_fixes := (gps_fixes g)[?k := rmc_fix fo r ?fx], gps_buf := replicate 128 0, gps_buf_cur := 0\<rparr>"
  have "replicate 128 (0 :: u8) = replicate (length line + 1) 0 @ replicate (127 - length line) 0"
    using len(3) by (simp flip: replicate_add replicate_Suc)
  then have c: "gps_rx_cb fo nh nonce memory None 13 g1 = Some g2"
    using p len(3) by (simp add: gps_rx_cb_def g1_def g2_def gps_incr_fix_def Let_def)
  have r: "gps_ready g2" using assms(8) by (simp add: g2_def gps_ready_def gps_incr_fix_def GPS_BUFSIZE_def GPS_MSG_Q_SIZE_def Let_def)
  then have n: "gps_rx_cb fo nh nonce memory None 10 g2 = None" by (intro gps_newline_early) (simp_all add: gps_ready_def)
  have "?k = 3 \<or> ?k < 3" using assms(8) by (auto simp: gps_ready_def GPS_MSG_Q_SIZE_def)
  then have "next_buffer_slot g2 = (?k + 1) mod 4" "gps_last_fix g2 \<noteq> ?k" "gps_fixes g2 = (gps_fixes g)[?k := rmc_fix fo r ?fx]"
    by (auto simp: g2_def gps_incr_fix_def gps_last_fix_def GPS_MSG_Q_SIZE_def Let_def)
  then show ?thesis using f c n r by (simp add: gps_feed_append)
qed

definition sample_gps :: "int gps" where
  "sample_gps = \<lparr>gps_node = demo_node, gps_fixes = replicate 4 sample_fix, next_buffer_slot = 3, gps_buf = replicate 128 0, gps_buf_cur = 0\<rparr>"

lemma sample_line: "set (commas (rmc_fields sample_rmc)) \<inter> {0, 10, 13} = {}"
  by code_simp

theorem gps_checksum_ignored_witness:
  "\<exists>g'. gps_feed sample_ops (\<lambda>_. None) 0 (\<lambda>_. []) None ((GPRMC @ commas (rmc_fields sample_rmc) @ [0x2C, 0x41, 0x2A, 0x30, 0x30]) @ [13]) sample_gps = Some g' \<and>
    gps_fixes g' = [sample_fix, sample_fix, sample_fix, rmc_fix sample_ops sample_rmc sample_fix] \<and> next_buffer_slot g' = 0"
proof -
  have "gps_ready sample_gps" by (simp add: gps_ready_def sample_gps_def GPS_BUFSIZE_def GPS_MSG_Q_SIZE_def)
  from gps_checksum_ignored [OF sample_rmc_ok _ _ _ refl _ _ this, of "[0x2C, 0x41]" "0x30" "0x30"]
    sample_line sample_length
  have "\<exists>g'. gps_feed sample_ops (\<lambda>_. None) 0 (\<lambda>_. []) None ((GPRMC @ commas (rmc_fields sample_rmc) @ [0x2C, 0x41, 0x2A, 0x30, 0x30]) @ [13]) sample_gps = Some g' \<and>
      gps_fixes g' = (gps_fixes sample_gps)[3 := rmc_fix sample_ops sample_rmc (gps_fixes sample_gps ! 3)] \<and> next_buffer_slot g' = 0"
    by (fastforce simp: GPRMC_def sample_gps_def)
  then show ?thesis by (simp add: sample_gps_def eval_nat_numeral)
qed

end
