(* ===== verification/CspService.thy ===== *)
theory CspService
  imports CspRoute "HOL-Library.Monad_Syntax"
begin

text \<open>
  The services every node offers (\<open>libcsp/source/csp_service_handler.c\<close>) and the requests that use them
  (\<open>csp_services.c\<close>): ping, list of tasks, free memory and buffers, uptime, reboot, and the management
  protocol CMP with identification, routes, counters, memory and clock.

  A request is read where it lies in the packet buffer, whatever its length: the bytes behind the data are
  those that an earlier use of the buffer left there, the parameter \<open>stale\<close>.  Access behind the buffer is
  undefined, the outer result \<open>None\<close>.  What the platform answers is a record \<open>csp_env\<close>.
\<close>

section \<open>The node and its platform\<close>

record csp_env =
  ev_revision :: "u8 list"
  ev_date :: "u8 list"
  ev_time :: "u8 list"
  ev_hostname :: "u8 list"
  ev_model :: "u8 list"
  ev_irq :: "nat \<Rightarrow> u32"
  ev_tasklist :: "u8 list option"
  ev_memfree :: u32
  ev_uptime :: u32
  ev_clock_set :: bool
  ev_clock_get :: bool

datatype csp_power = Running | Rebooted | Shutdown

text \<open>Memory is what \<open>csp_cmp_memcpy_fnc\<close> reads and writes for the peer.\<close>

record csp_system =
  sy_node :: csp_node
  sy_memory :: "u32 \<Rightarrow> u8"
  sy_clock :: "u32 \<times> u32"
  sy_power :: csp_power

section \<open>The bytes of a packet buffer\<close>

definition pkt_memory :: "(nat \<Rightarrow> u8) \<Rightarrow> csp_packet \<Rightarrow> u8 list" where
  "pkt_memory stale pk = pkt_data pk @ map stale [pkt_length pk..<pkt_cap pk]"

text \<open>At most \<open>n\<close> characters of the string at \<open>off\<close>.\<close>

definition mem_string :: "nat \<Rightarrow> nat \<Rightarrow> u8 list \<Rightarrow> u8 list option" where
  "mem_string off n m =
     (let s = takeWhile (\<lambda>c. c \<noteq> 0) (drop off m)
      in if n \<le> length s then Some (take n s) else if off + length s < length m then Some s else None)"

definition mem_u32 :: "nat \<Rightarrow> u8 list \<Rightarrow> u32 option" where
  "mem_u32 off m = map_option of_le32 (mem_read off 4 m)"

definition set_u32 :: "nat \<Rightarrow> u32 \<Rightarrow> u8 list \<Rightarrow> u8 list option" where
  "set_u32 off x m = mem_write off (le32 x) m"

text \<open>\<open>strncpy\<close> into a field of \<open>n\<close> bytes whose last byte is then cleared.\<close>

definition cmp_string :: "nat \<Rightarrow> u8 list \<Rightarrow> u8 list" where
  "cmp_string n s = take (n - 1) (s @ replicate n 0) @ [0]"

section \<open>The management protocol\<close>

definition CSP_CMP_REQUEST :: u8 where "CSP_CMP_REQUEST = 0"
definition CSP_CMP_REPLY :: u8 where "CSP_CMP_REPLY = 0xFF"
definition CSP_HOSTNAME_LEN :: nat where "CSP_HOSTNAME_LEN = 20"
definition CSP_MODEL_LEN :: nat where "CSP_MODEL_LEN = 30"
definition CSP_CMP_IDENT_REV_LEN :: nat where "CSP_CMP_IDENT_REV_LEN = 20"
definition CSP_CMP_IDENT_DATE_LEN :: nat where "CSP_CMP_IDENT_DATE_LEN = 12"
definition CSP_CMP_IDENT_TIME_LEN :: nat where "CSP_CMP_IDENT_TIME_LEN = 9"
definition CSP_CMP_ROUTE_IFACE_LEN :: nat where "CSP_CMP_ROUTE_IFACE_LEN = 11"
definition CSP_CMP_PEEK_MAX_LEN :: nat where "CSP_CMP_PEEK_MAX_LEN = 200"
definition CSP_CMP_POKE_MAX_LEN :: nat where "CSP_CMP_POKE_MAX_LEN = 200"

definition CMP_SIZE_ident :: nat where
  "CMP_SIZE_ident =
     CSP_HOSTNAME_LEN + CSP_MODEL_LEN + CSP_CMP_IDENT_REV_LEN + CSP_CMP_IDENT_DATE_LEN + CSP_CMP_IDENT_TIME_LEN + 2"
definition CMP_SIZE_route_set :: nat where "CMP_SIZE_route_set = 2 + CSP_CMP_ROUTE_IFACE_LEN + 2"
definition CMP_SIZE_if_stats :: nat where "CMP_SIZE_if_stats = CSP_CMP_ROUTE_IFACE_LEN + 10 * 4 + 2"

definition do_cmp_ident :: "csp_env \<Rightarrow> u8 list \<Rightarrow> u8 list option" where
  "do_cmp_ident env m = do {
     m \<leftarrow> mem_write 52 (cmp_string CSP_CMP_IDENT_REV_LEN (ev_revision env)) m;
     m \<leftarrow> mem_write 72 (cmp_string CSP_CMP_IDENT_DATE_LEN (ev_date env)) m;
     m \<leftarrow> mem_write 84 (cmp_string CSP_CMP_IDENT_TIME_LEN (ev_time env)) m;
     m \<leftarrow> mem_write 2 (cmp_string CSP_HOSTNAME_LEN (ev_hostname env)) m;
     mem_write 22 (cmp_string CSP_MODEL_LEN (ev_model env)) m }"

definition name_of :: "u8 list \<Rightarrow> string" where "name_of cs = map (\<lambda>c. char_of (unat c)) cs"

definition node_iface_by_name :: "u8 list \<Rightarrow> csp_node \<Rightarrow> nat option" where
  "node_iface_by_name name w = csp_iflist_get_by_name (\<lambda>i. if_name (nd_ifaces w ! i)) (name_of name) (nd_iflist w)"

definition do_cmp_route_set :: "u8 list \<Rightarrow> csp_node \<Rightarrow> (int \<times> csp_node) option" where
  "do_cmp_route_set m w = do {
     name \<leftarrow> mem_string 4 10 m;
     case node_iface_by_name name w of
       None \<Rightarrow> Some (CSP_ERR_INVAL, w)
     | Some ifc \<Rightarrow> do {
         dest \<leftarrow> mem_read 2 1 m;
         mac \<leftarrow> mem_read 3 1 m;
         let (e, w) = csp_route_set (hd dest) (Some ifc) (hd mac) w;
         Some (if e \<noteq> CSP_ERR_NONE then CSP_ERR_INVAL else CSP_ERR_NONE, w) } }"

definition iface_counters :: "csp_env \<Rightarrow> nat \<Rightarrow> csp_iface \<Rightarrow> u32 list" where
  "iface_counters env i ifc =
     [if_tx ifc, if_rx ifc, if_tx_error ifc, if_rx_error ifc, if_drop ifc, if_autherr ifc, if_frame ifc, if_txbytes ifc,
      if_rxbytes ifc, ev_irq env i]"

definition do_cmp_if_stats :: "csp_env \<Rightarrow> u8 list \<Rightarrow> csp_node \<Rightarrow> (int \<times> u8 list) option" where
  "do_cmp_if_stats env m w = do {
     name \<leftarrow> mem_string 2 10 m;
     case node_iface_by_name name w of
       None \<Rightarrow> Some (CSP_ERR_INVAL, m)
     | Some i \<Rightarrow>
         map_option (Pair CSP_ERR_NONE)
           (mem_write 13 (concat (map (\<lambda>c. le32 (csp_hton32 c)) (iface_counters env i (nd_ifaces w ! i)))) m) }"

definition do_cmp_peek :: "u8 list \<Rightarrow> csp_system \<Rightarrow> (int \<times> u8 list) option" where
  "do_cmp_peek m s = do {
     a \<leftarrow> mem_u32 2 m;
     let addr = csp_hton32 a;
     m \<leftarrow> set_u32 2 addr m;
     l \<leftarrow> mem_read 6 1 m;
     let len = unat (hd l);
     if len > CSP_CMP_PEEK_MAX_LEN then Some (CSP_ERR_INVAL, m)
     else map_option (Pair CSP_ERR_NONE) (mem_write 7 (map (\<lambda>k. sy_memory s (addr + of_nat k)) [0..<len]) m) }"

definition do_cmp_poke :: "u8 list \<Rightarrow> csp_system \<Rightarrow> (int \<times> u8 list \<times> csp_system) option" where
  "do_cmp_poke m s = do {
     a \<leftarrow> mem_u32 2 m;
     let addr = csp_hton32 a;
     m \<leftarrow> set_u32 2 addr m;
     l \<leftarrow> mem_read 6 1 m;
     let len = unat (hd l);
     if len > CSP_CMP_POKE_MAX_LEN then Some (CSP_ERR_INVAL, m, s)
     else do {
       bs \<leftarrow> mem_read 7 len m;
       Some (CSP_ERR_NONE, m,
         s\<lparr>sy_memory := (\<lambda>x. let k = unat (x - addr) in if k < len then bs ! k else sy_memory s x)\<rparr>) } }"

definition do_cmp_clock :: "csp_env \<Rightarrow> u8 list \<Rightarrow> csp_system \<Rightarrow> (int \<times> u8 list \<times> csp_system) option" where
  "do_cmp_clock env m s = do {
     sec \<leftarrow> mem_u32 2 m;
     nsec \<leftarrow> mem_u32 6 m;
     let t = (csp_ntoh32 sec, csp_ntoh32 nsec);
     let s = (if fst t \<noteq> 0 \<and> ev_clock_set env then s\<lparr>sy_clock := t\<rparr> else s);
     let t = (if ev_clock_get env then sy_clock s else t);
     m \<leftarrow> set_u32 2 (csp_hton32 (fst t)) m;
     m \<leftarrow> set_u32 6 (csp_hton32 (snd t)) m;
     Some (CSP_ERR_NONE, m, s) }"

text \<open>The result is the error, the bytes of the buffer, the new length and the node.\<close>

definition cmp_request :: "csp_env \<Rightarrow> u8 \<Rightarrow> nat \<Rightarrow> u8 list \<Rightarrow> csp_system \<Rightarrow> (int \<times> u8 list \<times> nat \<times> csp_system) option" where
  "cmp_request env code len m s =
     (if code = 1 then map_option (\<lambda>m. (CSP_ERR_NONE, m, CMP_SIZE_ident, s)) (do_cmp_ident env m)
      else if code = 2 then
        map_option (\<lambda>(e, w). (e, m, CMP_SIZE_route_set, s\<lparr>sy_node := w\<rparr>)) (do_cmp_route_set m (sy_node s))
      else if code = 3 then map_option (\<lambda>(e, m). (e, m, CMP_SIZE_if_stats, s)) (do_cmp_if_stats env m (sy_node s))
      else if code = 4 then map_option (\<lambda>(e, m). (e, m, len, s)) (do_cmp_peek m s)
      else if code = 5 then map_option (\<lambda>(e, m, s). (e, m, len, s)) (do_cmp_poke m s)
      else if code = 6 then map_option (\<lambda>(e, m, s). (e, m, len, s)) (do_cmp_clock env m s)
      else Some (CSP_ERR_INVAL, m, len, s))"

definition csp_cmp_handler :: "csp_env \<Rightarrow> (nat \<Rightarrow> u8) \<Rightarrow> nat \<Rightarrow> csp_system \<Rightarrow> (int \<times> csp_system) option" where
  "csp_cmp_handler env stale packet s =
     (let pk = buf_packet (nd_pool (sy_node s)) packet; m = pkt_memory stale pk
      in do {
        type \<leftarrow> mem_read 0 1 m;
        if hd type \<noteq> CSP_CMP_REQUEST then Some (CSP_ERR_INVAL, s)
        else do {
          code \<leftarrow> mem_read 1 1 m;
          (ret, m, len, s) \<leftarrow> cmp_request env (hd code) (pkt_length pk) m s;
          m \<leftarrow> mem_write 0 [CSP_CMP_REPLY] m;
          Some (ret, s\<lparr>sy_node := put_packet packet (pk\<lparr>pkt_data := take len m\<rparr>) (sy_node s)\<rparr>) } })"


section \<open>The service handler\<close>

definition CSP_RPS_MTU :: nat where "CSP_RPS_MTU = 196"
definition CSP_REBOOT_MAGIC :: u32 where "CSP_REBOOT_MAGIC = 0x80078007"
definition CSP_REBOOT_SHUTDOWN_MAGIC :: u32 where "CSP_REBOOT_SHUTDOWN_MAGIC = 0xD1E5529A"
definition CSP_CMP :: u8 where "CSP_CMP = 0"
definition CSP_PING :: u8 where "CSP_PING = 1"
definition CSP_PS :: u8 where "CSP_PS = 2"
definition CSP_MEMFREE :: u8 where "CSP_MEMFREE = 3"
definition CSP_REBOOT :: u8 where "CSP_REBOOT = 4"
definition CSP_BUF_FREE :: u8 where "CSP_BUF_FREE = 5"
definition CSP_UPTIME :: u8 where "CSP_UPTIME = 6"

text \<open>Data is copied into the packet and becomes its content.\<close>

definition set_data :: "nat \<Rightarrow> u8 list \<Rightarrow> csp_node \<Rightarrow> csp_node option" where
  "set_data p bs w =
     (let pk = buf_packet (nd_pool w) p
      in if length bs > pkt_cap pk then None else Some (put_packet p (pk\<lparr>pkt_data := bs\<rparr>) w))"

definition send_or_free :: "nexthop \<Rightarrow> u32 \<Rightarrow> nat \<Rightarrow> nat \<Rightarrow> csp_node \<Rightarrow> csp_node option" where
  "send_or_free nh nonce conn p w =
     map_option (\<lambda>(ok, w). if ok = 0 then free_packet (Some p) w else w) (csp_send nh nonce (Some conn) (Some p) w)"

text \<open>The list of tasks in packets: the first is the request, the others are new.  The random number
  depends on how much is left.\<close>

function ps_loop :: "nexthop \<Rightarrow> (nat \<Rightarrow> u32) \<Rightarrow> nat \<Rightarrow> nat option \<Rightarrow> u8 list \<Rightarrow> csp_node \<Rightarrow> (nat option \<times> csp_node) option" where
  "ps_loop nh nonces conn packet rest w =
     (if rest = [] then Some (packet, w)
      else
        let (packet, w) =
              (case packet of Some p \<Rightarrow> (packet, w)
               | None \<Rightarrow> (case csp_buffer_get CSP_RPS_MTU (nd_pool w) of (r, pool) \<Rightarrow> (r, w\<lparr>nd_pool := pool\<rparr>)))
        in case packet of None \<Rightarrow> Some (None, w)
           | Some p \<Rightarrow>
               (case set_data p (take CSP_RPS_MTU rest) w of None \<Rightarrow> None
                | Some w \<Rightarrow>
                    (case send_or_free nh (nonces (length rest)) conn p w of None \<Rightarrow> None
                     | Some w \<Rightarrow> ps_loop nh nonces conn None (drop CSP_RPS_MTU rest) w)))"
  by pat_completeness auto

termination ps_loop
  by (relation "measure (\<lambda>(nh, nonces, conn, packet, rest, w). length rest)") (auto simp: CSP_RPS_MTU_def)

declare ps_loop.simps [simp del]

definition no_memory :: "u8 list" where
  "no_memory = [0x4E, 0x6F, 0x74, 0x20, 0x65, 0x6E, 0x6F, 0x75, 0x67, 0x68, 0x20, 0x6D, 0x65, 0x6D, 0x6F, 0x72, 0x79]"

definition service_ps ::
  "csp_env \<Rightarrow> nexthop \<Rightarrow> (nat \<Rightarrow> u32) \<Rightarrow> nat \<Rightarrow> nat \<Rightarrow> csp_node \<Rightarrow> (nat option \<times> csp_node) option" where
  "service_ps env nh nonces conn packet w =
     (let pk = buf_packet (nd_pool w) packet
      in if pkt_length pk \<noteq> 1 \<or> pkt_data pk ! 0 \<noteq> 0x55 then Some (None, free_packet (Some packet) w)
         else case ev_tasklist env of
           None \<Rightarrow>
             if length no_memory + 1 > pkt_cap pk then None
             else Some (Some packet, put_packet packet (pk\<lparr>pkt_data := no_memory\<rparr>) w)
         | Some pslist \<Rightarrow> ps_loop nh nonces conn (Some packet) pslist w)"

text \<open>The packet that is left to be sent, or none.\<close>

definition service_request ::
  "csp_env \<Rightarrow> (nat \<Rightarrow> u8) \<Rightarrow> nexthop \<Rightarrow> (nat \<Rightarrow> u32) \<Rightarrow> nat \<Rightarrow> nat \<Rightarrow> csp_system \<Rightarrow> (nat option \<times> csp_system) option" where
  "service_request env stale nh nonces conn packet s =
     (let w = sy_node s; port = csp_conn_dport (nd_conns w ! conn);
          answer = (\<lambda>x. map_option (\<lambda>w. (Some packet, s\<lparr>sy_node := w\<rparr>)) (set_data packet (le32 (csp_hton32 x)) w))
      in if port = CSP_CMP then
           map_option (\<lambda>(e, s). if e \<noteq> CSP_ERR_NONE then (None, s\<lparr>sy_node := free_packet (Some packet) (sy_node s)\<rparr>)
                                else (Some packet, s))
             (csp_cmp_handler env stale packet s)
         else if port = CSP_PING then Some (Some packet, s)
         else if port = CSP_PS then
           map_option (\<lambda>(p, w). (p, s\<lparr>sy_node := w\<rparr>)) (service_ps env nh nonces conn packet w)
         else if port = CSP_MEMFREE then answer (ev_memfree env)
         else if port = CSP_REBOOT then
           map_option (\<lambda>x.
               let magic_word = csp_ntoh32 x;
                   power = (if magic_word = CSP_REBOOT_MAGIC then Rebooted
                            else if magic_word = CSP_REBOOT_SHUTDOWN_MAGIC then Shutdown else sy_power s)
               in (None, s\<lparr>sy_power := power, sy_node := free_packet (Some packet) w\<rparr>))
             (mem_u32 0 (pkt_memory stale (buf_packet (nd_pool w) packet)))
         else if port = CSP_BUF_FREE then answer (of_nat (csp_buffer_remaining (nd_pool w)))
         else if port = CSP_UPTIME then answer (ev_uptime env)
         else Some (None, s\<lparr>sy_node := free_packet (Some packet) w\<rparr>))"

definition csp_service_handler ::
  "csp_env \<Rightarrow> (nat \<Rightarrow> u8) \<Rightarrow> nexthop \<Rightarrow> (nat \<Rightarrow> u32) \<Rightarrow> nat \<Rightarrow> nat \<Rightarrow> csp_system \<Rightarrow> csp_system option" where
  "csp_service_handler env stale nh nonces conn packet s =
     (case service_request env stale nh nonces conn packet s of None \<Rightarrow> None
      | Some (None, s) \<Rightarrow> Some s
      | Some (Some p, s) \<Rightarrow> map_option (\<lambda>w. s\<lparr>sy_node := w\<rparr>) (send_or_free nh (nonces 0) conn p (sy_node s)))"

section \<open>Requests\<close>

definition CSP_PRIO_NORM :: u8 where "CSP_PRIO_NORM = 2"

text \<open>The answer to a ping: the bytes are compared with the numbers that were sent, whatever its length.\<close>

definition ping_echoed :: "nat \<Rightarrow> u8 list \<Rightarrow> bool option" where
  "ping_echoed len m =
     (if \<exists>i < min len (length m). m ! i \<noteq> of_nat i then Some False
      else if length m < len then None else Some True)"

definition csp_ping ::
  "nat \<Rightarrow> (nat \<Rightarrow> u8) \<Rightarrow> nexthop \<Rightarrow> u32 \<Rightarrow> (csp_node \<Rightarrow> csp_node) \<Rightarrow> u8 \<Rightarrow> nat \<Rightarrow> u32 \<Rightarrow> csp_node \<Rightarrow> (int \<times> csp_node) option" where
  "csp_ping fuel stale nh nonce other_tasks node len opts w =
     (let start = nd_now w;
          out = (\<lambda>status packet c w.
            let w = snd (csp_close (Some c) (free_packet packet w))
            in Some (if status then sint (nd_now w - start) else - 1, w))
      in case csp_connect fuel CSP_PRIO_NORM node CSP_PING opts w of
           None \<Rightarrow> None
         | Some (None, w) \<Rightarrow> Some (- 1, w)
         | Some (Some c, w) \<Rightarrow>
             (case csp_buffer_get len (nd_pool w) of
                (None, pool) \<Rightarrow> out False None c (w\<lparr>nd_pool := pool\<rparr>)
              | (Some p, pool) \<Rightarrow>
                  (case set_data p (map of_nat [0..<len]) (w\<lparr>nd_pool := pool\<rparr>) of None \<Rightarrow> None
                   | Some w \<Rightarrow>
                       (case csp_send nh nonce (Some c) (Some p) w of None \<Rightarrow> None
                        | Some (ok, w) \<Rightarrow>
                            if ok = 0 then out False (Some p) c w
                            else (case csp_read (Some c) (other_tasks w) of
                                    (None, w) \<Rightarrow> out False None c w
                                  | (Some r, w) \<Rightarrow>
                                      (case ping_echoed len (pkt_memory stale (buf_packet (nd_pool w) r)) of None \<Rightarrow> None
                                       | Some echoed \<Rightarrow> out echoed (Some r) c w))))))"

definition csp_ping_noreply :: "nat \<Rightarrow> nexthop \<Rightarrow> u32 \<Rightarrow> u8 \<Rightarrow> csp_node \<Rightarrow> csp_node option" where
  "csp_ping_noreply fuel nh nonce node w =
     (case csp_buffer_get 1 (nd_pool w) of
        (None, pool) \<Rightarrow> Some (w\<lparr>nd_pool := pool\<rparr>)
      | (Some p, pool) \<Rightarrow>
          (case csp_connect fuel CSP_PRIO_NORM node CSP_PING 0 (w\<lparr>nd_pool := pool\<rparr>) of
             None \<Rightarrow> None
           | Some (None, w) \<Rightarrow> Some (free_packet (Some p) w)
           | Some (Some c, w) \<Rightarrow>
               (case set_data p [0x55] w of None \<Rightarrow> None
                | Some w \<Rightarrow> map_option (\<lambda>w. snd (csp_close (Some c) w)) (send_or_free nh nonce c p w))))"

text \<open>Requests that are one transaction; the answer to the last three is the number that is printed.\<close>

definition csp_power_request ::
  "u32 \<Rightarrow> nat \<Rightarrow> nexthop \<Rightarrow> u32 \<Rightarrow> (csp_node \<Rightarrow> csp_node) \<Rightarrow> u8 \<Rightarrow> csp_node \<Rightarrow> csp_node option" where
  "csp_power_request magic fuel nh nonce other_tasks node w =
     map_option (\<lambda>(_, _, w). w)
       (csp_transaction fuel nh nonce other_tasks CSP_PRIO_NORM node CSP_REBOOT (le32 (csp_hton32 magic)) 0 w)"

definition csp_reboot :: "nat \<Rightarrow> nexthop \<Rightarrow> u32 \<Rightarrow> (csp_node \<Rightarrow> csp_node) \<Rightarrow> u8 \<Rightarrow> csp_node \<Rightarrow> csp_node option" where
  "csp_reboot = csp_power_request CSP_REBOOT_MAGIC"

definition csp_shutdown :: "nat \<Rightarrow> nexthop \<Rightarrow> u32 \<Rightarrow> (csp_node \<Rightarrow> csp_node) \<Rightarrow> u8 \<Rightarrow> csp_node \<Rightarrow> csp_node option" where
  "csp_shutdown = csp_power_request CSP_REBOOT_SHUTDOWN_MAGIC"

definition csp_number_request ::
  "u8 \<Rightarrow> nat \<Rightarrow> nexthop \<Rightarrow> u32 \<Rightarrow> (csp_node \<Rightarrow> csp_node) \<Rightarrow> u8 \<Rightarrow> csp_node \<Rightarrow> (u32 option \<times> csp_node) option" where
  "csp_number_request port fuel nh nonce other_tasks node w =
     map_option (\<lambda>(status, inbuf, w). (if status = 0 then None else Some (csp_ntoh32 (of_le32 inbuf)), w))
       (csp_transaction fuel nh nonce other_tasks CSP_PRIO_NORM node port [] 4 w)"

definition csp_memfree :: "nat \<Rightarrow> nexthop \<Rightarrow> u32 \<Rightarrow> (csp_node \<Rightarrow> csp_node) \<Rightarrow> u8 \<Rightarrow> csp_node \<Rightarrow> (u32 option \<times> csp_node) option" where
  "csp_memfree = csp_number_request CSP_MEMFREE"

definition csp_buf_free :: "nat \<Rightarrow> nexthop \<Rightarrow> u32 \<Rightarrow> (csp_node \<Rightarrow> csp_node) \<Rightarrow> u8 \<Rightarrow> csp_node \<Rightarrow> (u32 option \<times> csp_node) option" where
  "csp_buf_free = csp_number_request CSP_BUF_FREE"

definition csp_uptime :: "nat \<Rightarrow> nexthop \<Rightarrow> u32 \<Rightarrow> (csp_node \<Rightarrow> csp_node) \<Rightarrow> u8 \<Rightarrow> csp_node \<Rightarrow> (u32 option \<times> csp_node) option" where
  "csp_uptime = csp_number_request CSP_UPTIME"

definition csp_cmp ::
  "nat \<Rightarrow> nexthop \<Rightarrow> u32 \<Rightarrow> (csp_node \<Rightarrow> csp_node) \<Rightarrow> u8 \<Rightarrow> u8 \<Rightarrow> nat \<Rightarrow> u8 list \<Rightarrow> csp_node \<Rightarrow> (int \<times> u8 list \<times> csp_node) option" where
  "csp_cmp fuel nh nonce other_tasks node code membsize msg w =
     (let msg = msg[0 := CSP_CMP_REQUEST, 1 := code]
      in map_option (\<lambda>(status, inbuf, w).
             if status = 0 then (CSP_ERR_TIMEDOUT, msg, w) else (CSP_ERR_NONE, inbuf @ drop (length inbuf) msg, w))
           (csp_transaction fuel nh nonce other_tasks CSP_PRIO_NORM node CSP_CMP (take membsize msg) (int membsize) w))"

text \<open>The answers of \<open>csp_ps\<close> are printed as they come, up to the first that is missing; \<open>fuel\<close> bounds their
  number.  A zero is written behind the data.\<close>

fun ps_answers :: "nat \<Rightarrow> (csp_node \<Rightarrow> csp_node) \<Rightarrow> nat \<Rightarrow> csp_node \<Rightarrow> (u8 list \<times> csp_node) option" where
  "ps_answers 0 other_tasks c w = None"
| "ps_answers (Suc n) other_tasks c w =
     (case csp_read (Some c) (other_tasks w) of
        (None, w) \<Rightarrow> Some ([], w)
      | (Some r, w) \<Rightarrow>
          let pk = buf_packet (nd_pool w) r
          in if pkt_length pk \<ge> pkt_cap pk then None
             else map_option (\<lambda>(out, w). (takeWhile (\<lambda>c. c \<noteq> 0) (pkt_data pk) @ out, w))
                    (ps_answers n other_tasks c (free_packet (Some r) w)))"

definition csp_ps ::
  "nat \<Rightarrow> nat \<Rightarrow> nexthop \<Rightarrow> u32 \<Rightarrow> (csp_node \<Rightarrow> csp_node) \<Rightarrow> u8 \<Rightarrow> csp_node \<Rightarrow> (u8 list \<times> csp_node) option" where
  "csp_ps fuel rounds nh nonce other_tasks node w =
     (case csp_connect fuel CSP_PRIO_NORM node CSP_PS 0 w of
        None \<Rightarrow> None
      | Some (None, w) \<Rightarrow> Some ([], w)
      | Some (Some c, w) \<Rightarrow>
          (case csp_buffer_get 95 (nd_pool w) of
             (None, pool) \<Rightarrow> Some ([], snd (csp_close (Some c) (w\<lparr>nd_pool := pool\<rparr>)))
           | (Some p, pool) \<Rightarrow>
               (case set_data p [0x55] (w\<lparr>nd_pool := pool\<rparr>) of None \<Rightarrow> None
                | Some w \<Rightarrow>
                    (case csp_send nh nonce (Some c) (Some p) w of None \<Rightarrow> None
                     | Some (ok, w) \<Rightarrow>
                         if ok = 0 then Some ([], snd (csp_close (Some c) (free_packet (Some p) w)))
                         else map_option (\<lambda>(out, w). (out, snd (csp_close (Some c) w))) (ps_answers rounds other_tasks c w)))))"

section \<open>What the services keep\<close>

lemma csp_iflist_get_by_name_member: "csp_iflist_get_by_name nm name is = Some i \<Longrightarrow> i \<in> set is"
  by (induction "is") (auto split: if_splits)

lemma node_iface_by_name_valid: "node_iface_by_name name w = Some i \<Longrightarrow> node_ok w \<Longrightarrow> i < length (nd_ifaces w)"
  using csp_iflist_get_by_name_member by (fastforce simp: node_iface_by_name_def node_ok_def)

lemma static_set_iflist: "set (fst (snd (static_set a (Some i) m (is, rs)))) \<subseteq> insert i (set is)"
  by (auto simp: static_set_def split: if_splits)

lemma csp_route_set_keeps:
  assumes "csp_route_set a (Some i) m w = (e, w')" "node_ok w" "owned M w" "i < length (nd_ifaces w)"
  shows "node_ok w' \<and> owned M w' \<and> nd_conns w' = nd_conns w \<and> nd_ports w' = nd_ports w \<and> nd_queues w' = nd_queues w"
proof -
  obtain e' is' rs' where s: "static_set a (Some i) m (nd_iflist w, nd_routes w) = (e', is', rs')" by (metis prod_cases3)
  then have w': "w' = w\<lparr>nd_iflist := is', nd_routes := rs'\<rparr>" using assms(1) by (simp add: csp_route_set_def)
  have "static_ok (is', rs')" using static_set_ok [of "(nd_iflist w, nd_routes w)" a "Some i" m] assms(2) s by (simp add: node_ok_def)
  moreover have "set is' \<subseteq> {..<length (nd_ifaces w)}"
    using static_set_iflist [of a i m "nd_iflist w" "nd_routes w"] assms(2,4) s by (auto simp: node_ok_def)
  ultimately show ?thesis using assms(2,3) by (simp add: w' node_ok_def owned_def refs_def bound_def)
qed

text \<open>Everything but the packet, the routes and the machine is left alone.\<close>

definition keeps :: "nat multiset \<Rightarrow> csp_node \<Rightarrow> nat multiset \<Rightarrow> csp_node \<Rightarrow> bool" where
  "keeps M w M' w' \<longleftrightarrow>
     (node_ok w \<longrightarrow> owned M w \<longrightarrow>
        node_ok w' \<and> owned M' w' \<and> nd_conns w' = nd_conns w \<and> nd_ports w' = nd_ports w \<and> nd_queues w' = nd_queues w)"

lemma keeps_refl: "keeps M w M w"
  by (simp add: keeps_def)

lemma keeps_trans: "keeps M w M1 w1 \<Longrightarrow> keeps M1 w1 M2 w2 \<Longrightarrow> keeps M w M2 w2"
  by (simp add: keeps_def)

lemma put_packet_keeps: "keeps M w M (put_packet p pk w)"
  by (simp add: keeps_def owned_put_packet)

lemma set_data_keeps: "set_data p bs w = Some w' \<Longrightarrow> keeps M w M w'"
  using put_packet_keeps by (auto simp: set_data_def Let_def split: if_splits)

lemma free_packet_keeps: "keeps (add_mset p M) w M (free_packet (Some p) w)"
  using owned_free [of p M w] by (simp add: keeps_def) (simp add: free_packet_def)

lemma cmp_route_set_keeps:
  assumes "do_cmp_route_set m w = Some (e, w')"
  shows "keeps M w M w'"
proof -
  obtain name where n: "mem_string 4 10 m = Some name" using assms by (auto simp: do_cmp_route_set_def bind_eq_Some_conv)
  show ?thesis
  proof (cases "node_iface_by_name name w")
    case None
    then show ?thesis using assms n by (simp add: do_cmp_route_set_def keeps_refl)
  next
    case (Some i)
    then obtain d m3 where d: "mem_read 2 1 m = Some d" "mem_read 3 1 m = Some m3"
      using assms n by (auto simp: do_cmp_route_set_def bind_eq_Some_conv)
    obtain e' w1 where r: "csp_route_set (hd d) (Some i) (hd m3) w = (e', w1)" by fastforce
    then have "w' = w1" using assms n Some d by (simp add: do_cmp_route_set_def)
    with r have "csp_route_set (hd d) (Some i) (hd m3) w = (e', w')" by simp
    then show ?thesis using csp_route_set_keeps node_iface_by_name_valid [OF Some] by (simp add: keeps_def)
  qed
qed

lemma cmp_request_keeps:
  assumes "cmp_request env code len m s = Some (e, m', len', s')"
  shows "keeps M (sy_node s) M (sy_node s')"
proof -
  consider (route) "code = 2" | (poke) "code = 5" | (clock) "code = 6" | (other) "code \<notin> {2, 5, 6}" by blast
  then show ?thesis
  proof cases
    case route
    then obtain w e where "do_cmp_route_set m (sy_node s) = Some (e, w)" "s' = s\<lparr>sy_node := w\<rparr>"
      using assms by (auto simp: cmp_request_def)
    then show ?thesis using cmp_route_set_keeps by simp
  next
    case poke
    then have "\<exists>e m'. do_cmp_poke m s = Some (e, m', s')" using assms by (auto simp: cmp_request_def)
    then have "sy_node s' = sy_node s" by (auto simp: do_cmp_poke_def bind_eq_Some_conv Let_def split: if_splits)
    then show ?thesis by (simp add: keeps_refl)
  next
    case clock
    then have "\<exists>e m'. do_cmp_clock env m s = Some (e, m', s')" using assms by (auto simp: cmp_request_def)
    then have "sy_node s' = sy_node s" by (auto simp: do_cmp_clock_def bind_eq_Some_conv Let_def split: if_splits)
    then show ?thesis by (simp add: keeps_refl)
  next
    case other
    then have "s' = s" using assms by (auto simp: cmp_request_def split: if_splits)
    then show ?thesis by (simp add: keeps_refl)
  qed
qed

lemma csp_cmp_handler_keeps:
  assumes "csp_cmp_handler env stale p s = Some (e, s')"
  shows "keeps M (sy_node s) M (sy_node s')"
proof -
  let ?pk = "buf_packet (nd_pool (sy_node s)) p"
  show ?thesis
  proof (cases "s' = s")
    case False
    then obtain code ret m len s1 m' where "cmp_request env (hd code) (pkt_length ?pk) (pkt_memory stale ?pk) s = Some (ret, m, len, s1)"
        "s' = s1\<lparr>sy_node := put_packet p (?pk\<lparr>pkt_data := take len m'\<rparr>) (sy_node s1)\<rparr>"
      using assms by (auto simp: csp_cmp_handler_def Let_def bind_eq_Some_conv split: if_splits)
    then show ?thesis using keeps_trans [OF cmp_request_keeps put_packet_keeps] by simp
  qed (simp add: keeps_refl)
qed

definition in_hand :: "nat option \<Rightarrow> nat multiset \<Rightarrow> nat multiset" where
  "in_hand r M = (case r of None \<Rightarrow> M | Some p \<Rightarrow> add_mset p M)"

context csp_interface begin

lemma send_or_free_keeps:
  assumes "send_or_free nh nonce conn p w = Some w'"
  shows "keeps (add_mset p M) w M w'"
proof -
  obtain ok w1 where s: "csp_send nh nonce (Some conn) (Some p) w = Some (ok, w1)" "w' = (if ok = 0 then free_packet (Some p) w1 else w1)"
    using assms by (auto simp: send_or_free_def)
  have "keeps (add_mset p M) w (if ok = 0 then add_mset p M else M) w1"
    using send_keeps [OF s(1)] send_frame [OF s(1)] by (simp add: keeps_def)
  then show ?thesis using s(2) keeps_trans [OF _ free_packet_keeps] by (cases "ok = 0") auto
qed

lemma get_keeps: "csp_buffer_get n (nd_pool w) = (r, pool) \<Longrightarrow> keeps M w (in_hand r M) (w\<lparr>nd_pool := pool\<rparr>)"
  using csp_buffer_get_keeps [of n w r pool M] by (simp add: keeps_def in_hand_def)

lemma ps_loop_keeps:
  "ps_loop nh nonces conn packet rest w = Some (r, w') \<Longrightarrow> keeps (in_hand packet M) w (in_hand r M) w'"
proof (induction "length rest" arbitrary: packet rest w rule: less_induct)
  case less
  show ?case
  proof (cases "rest = []")
    case True
    then show ?thesis using less.prems by (simp add: ps_loop.simps keeps_refl)
  next
    case False
    obtain r1 w1 where g: "(case packet of Some p \<Rightarrow> (packet, w)
        | None \<Rightarrow> (case csp_buffer_get CSP_RPS_MTU (nd_pool w) of (r, pool) \<Rightarrow> (r, w\<lparr>nd_pool := pool\<rparr>))) = (r1, w1)" by fastforce
    then have k1: "keeps (in_hand packet M) w (in_hand r1 M) w1"
      by (cases packet; cases "csp_buffer_get CSP_RPS_MTU (nd_pool w)")
        (auto simp: keeps_refl in_hand_def dest!: get_keeps [where M = M] split: option.splits)
    show ?thesis
    proof (cases r1)
      case None
      then have "r = None" "w' = w1" using less.prems False g ps_loop.simps [of nh nonces conn packet rest w] by simp_all
      then show ?thesis using k1 None by simp
    next
      case (Some p)
      then obtain w2 w3 where s: "set_data p (take CSP_RPS_MTU rest) w1 = Some w2"
          "send_or_free nh (nonces (length rest)) conn p w2 = Some w3"
          "ps_loop nh nonces conn None (drop CSP_RPS_MTU rest) w3 = Some (r, w')"
        using less.prems False g ps_loop.simps [of nh nonces conn packet rest w] by (auto split: option.splits)
      have "length (drop CSP_RPS_MTU rest) < length rest" using False by (simp add: CSP_RPS_MTU_def)
      then have "keeps M w3 (in_hand r M) w'" using less.hyps [OF _ s(3)] by (simp add: in_hand_def)
      moreover have "keeps (add_mset p M) w1 M w3" using keeps_trans [OF set_data_keeps [OF s(1)] send_or_free_keeps [OF s(2)]] .
      ultimately show ?thesis using k1 keeps_trans Some by (fastforce simp: in_hand_def)
    qed
  qed
qed

lemma service_ps_keeps:
  "service_ps env nh nonces conn p w = Some (r, w') \<Longrightarrow> keeps (add_mset p M) w (in_hand r M) w'"
  using ps_loop_keeps [of nonces conn "Some p" _ w r w' M]
  by (auto simp: service_ps_def Let_def in_hand_def free_packet_keeps put_packet_keeps split: if_splits option.splits)

lemma service_request_keeps:
  assumes "service_request env stale nh nonces conn p s = Some (r, s')"
  shows "keeps (add_mset p M) (sy_node s) (in_hand r M) (sy_node s')"
proof -
  let ?port = "csp_conn_dport (nd_conns (sy_node s) ! conn)"
  have answer: ?thesis if "map_option (\<lambda>w. (Some p, s\<lparr>sy_node := w\<rparr>)) (set_data p bs (sy_node s)) = Some (r, s')" for bs
    using that set_data_keeps by (auto simp: in_hand_def)
  consider (cmp) "?port = CSP_CMP" | (ps) "?port = CSP_PS" | (other) "?port \<notin> {CSP_CMP, CSP_PS}" by blast
  then show ?thesis
  proof cases
    case cmp
    then obtain e s1 where c: "csp_cmp_handler env stale p s = Some (e, s1)" 
        "(r, s') = (if e \<noteq> CSP_ERR_NONE then (None, s1\<lparr>sy_node := free_packet (Some p) (sy_node s1)\<rparr>) else (Some p, s1))"
      using assms by (auto simp: service_request_def Let_def)
    then show ?thesis
      using csp_cmp_handler_keeps [OF c(1)] keeps_trans [OF csp_cmp_handler_keeps [OF c(1)] free_packet_keeps]
      by (auto simp: in_hand_def split: if_splits)
  next
    case ps
    then obtain w where "service_ps env nh nonces conn p (sy_node s) = Some (r, w)" "s' = s\<lparr>sy_node := w\<rparr>"
      using assms by (auto simp: service_request_def Let_def CSP_PS_def CSP_CMP_def CSP_PING_def)
    then show ?thesis using service_ps_keeps by simp
  next
    case other
    then show ?thesis
      using assms answer by (auto simp: service_request_def Let_def in_hand_def keeps_refl free_packet_keeps split: if_splits)
  qed
qed

lemma service_handler_keeps:
  assumes "csp_service_handler env stale nh nonces conn p s = Some s'"
  shows "keeps (add_mset p M) (sy_node s) M (sy_node s')"
proof -
  obtain r s1 where s: "service_request env stale nh nonces conn p s = Some (r, s1)"
      "(case r of None \<Rightarrow> Some s1 | Some p \<Rightarrow> map_option (\<lambda>w. s1\<lparr>sy_node := w\<rparr>) (send_or_free nh (nonces 0) conn p (sy_node s1))) = Some s'"
    using assms by (auto simp: csp_service_handler_def split: option.splits prod.splits)
  show ?thesis
    using service_request_keeps [OF s(1)] s(2) send_or_free_keeps keeps_trans
    by (cases r) (fastforce simp: in_hand_def)+
qed

end

text \<open>The same for a task that waits while others run.\<close>

definition retains :: "nat multiset \<Rightarrow> csp_node \<Rightarrow> nat multiset \<Rightarrow> csp_node \<Rightarrow> bool" where
  "retains M w M' w' \<longleftrightarrow> (node_ok w \<longrightarrow> owned M w \<longrightarrow> node_ok w' \<and> owned M' w' \<and> nd_ports w' = nd_ports w)"

lemma keeps_retains: "keeps M w M' w' \<Longrightarrow> retains M w M' w'"
  by (simp add: keeps_def retains_def)

lemma retains_trans: "retains M w M1 w1 \<Longrightarrow> retains M1 w1 M2 w2 \<Longrightarrow> retains M w M2 w2"
  by (simp add: retains_def)

lemma retains_free: "retains M w (add_mset p M') w' \<Longrightarrow> retains M w M' (free_packet (Some p) w')"
  using retains_trans keeps_retains [OF free_packet_keeps] by blast

lemma read_retains: "csp_read (Some c) (f w) = (r, w') \<Longrightarrow> tasks_ok f \<Longrightarrow> c < CSP_CONN_MAX \<Longrightarrow> retains M w (in_hand r M) w'"
  using csp_read_keeps [of c "f w" r w' M] csp_read_ports [of "Some c" "f w" r w'] by (auto simp: retains_def tasks_ok_def in_hand_def)

text \<open>A connection that was opened for a request is closed.\<close>

definition requested :: "nat multiset \<Rightarrow> csp_node \<Rightarrow> nat option \<Rightarrow> csp_node \<Rightarrow> bool" where
  "requested M w r w' \<longleftrightarrow>
     (node_ok w \<longrightarrow> owned M w \<longrightarrow> node_ok w' \<and> owned M w' \<and> (\<forall>c. r = Some c \<longrightarrow> c < CSP_CONN_MAX \<and> \<not> bound w' c))"

lemma connect_requested:
  assumes "csp_connect fuel prio node port opts w = Some (r, w')" "opts AND CSP_SO_RDPREQ = 0" "CSP_CONN_MAX < fuel"
  shows "requested M w r w'"
  using csp_connect_opens [OF _ _ assms(2,3), of w M prio node port] assms(1) by (auto simp: requested_def)

lemma close_requested:
  assumes "requested M w (Some c) w1" "c < CSP_CONN_MAX \<Longrightarrow> retains M w1 M w2" "node_ok w" "owned M w"
  shows "node_ok (snd (csp_close (Some c) w2)) \<and> owned M (snd (csp_close (Some c) w2))"
proof -
  have "c < CSP_CONN_MAX" "\<not> bound w1 c" "node_ok w1" "owned M w1" using assms(1,3,4) by (auto simp: requested_def)
  moreover from this assms(2) have "node_ok w2" "owned M w2" "nd_ports w2 = nd_ports w1" by (auto simp: retains_def)
  ultimately have "\<not> bound w2 c" by (simp add: bound_def)
  then show ?thesis
    using csp_close_ok [of w2 "Some c"] csp_close_owned [of w2 M "Some c"] \<open>node_ok w2\<close> \<open>owned M w2\<close> \<open>c < CSP_CONN_MAX\<close> by simp
qed

lemma free_no_packet: "free_packet None w = w"
  by (simp add: free_packet_def csp_buffer_free_def)

context csp_interface begin

lemma send_retains: "csp_send nh nonce (Some c) (Some p) w = Some (ok, w') \<Longrightarrow> retains (add_mset p M) w (if ok = 0 then add_mset p M else M) w'"
  using send_keeps [of nonce "Some c" p w ok w' M] send_frame [of nonce "Some c" "Some p" w ok w'] by (simp add: retains_def)

lemma ping_keeps:
  assumes "csp_ping fuel stale nh nonce ot node len opts w = Some (t, w')" "tasks_ok ot" "opts AND CSP_SO_RDPREQ = 0"
    "CSP_CONN_MAX < fuel" "node_ok w" "owned M w"
  shows "node_ok w' \<and> owned M w'"
proof -
  obtain r w1 where c: "csp_connect fuel CSP_PRIO_NORM node CSP_PING opts w = Some (r, w1)"
    using assms(1) by (auto simp: csp_ping_def Let_def split: option.splits)
  note req = connect_requested [OF c assms(3,4), of M]
  show ?thesis
  proof (cases r)
    case None
    then show ?thesis using assms(1,5,6) c req by (simp add: csp_ping_def Let_def requested_def)
  next
    case (Some c')
    obtain q pool where g: "csp_buffer_get len (nd_pool w1) = (q, pool)" by fastforce
    have k: "retains M w1 (in_hand q M) (w1\<lparr>nd_pool := pool\<rparr>)" by (rule keeps_retains [OF get_keeps [OF g]])
    have "\<exists>w2. (c' < CSP_CONN_MAX \<longrightarrow> retains M w1 M w2) \<and> w' = snd (csp_close (Some c') w2)"
    proof (cases q)
      case None
      then show ?thesis using assms(1) k unfolding csp_ping_def c Some by (auto simp: Let_def g free_no_packet in_hand_def)
    next
      case q: (Some p)
      then obtain w2 ok w3 where s: "set_data p (map of_nat [0..<len]) (w1\<lparr>nd_pool := pool\<rparr>) = Some w2"
          "csp_send nh nonce (Some c') (Some p) w2 = Some (ok, w3)"
        using assms(1) unfolding csp_ping_def c Some by (auto simp: Let_def g split: option.splits)
      have w3: "retains M w1 (if ok = 0 then add_mset p M else M) w3"
        using retains_trans [OF k] retains_trans [OF keeps_retains [OF set_data_keeps [OF s(1)]] send_retains [OF s(2)]] q
        by (simp add: in_hand_def)
      show ?thesis
      proof (cases "ok = 0")
        case True
        then have "retains M w1 M (free_packet (Some p) w3)" using w3 by (simp add: retains_free)
        then show ?thesis using assms(1) s True unfolding csp_ping_def c Some by (auto simp: Let_def g q)
      next
        case False
        obtain a w4 where r: "csp_read (Some c') (ot w3) = (a, w4)" by fastforce
        have w4: "c' < CSP_CONN_MAX \<Longrightarrow> retains M w1 (in_hand a M) w4"
          using False w3 read_retains [OF r assms(2)] retains_trans by fastforce
        have "w' = snd (csp_close (Some c') (free_packet a w4))"
          using assms(1) s False r unfolding csp_ping_def c Some by (auto simp: Let_def g q free_no_packet split: option.splits)
        moreover have "c' < CSP_CONN_MAX \<Longrightarrow> retains M w1 M (free_packet a w4)"
          using w4 retains_free by (cases a) (auto simp: free_no_packet in_hand_def)
        ultimately show ?thesis by blast
      qed
    qed
    then show ?thesis using close_requested [OF req [unfolded Some]] assms(5,6) by blast
  qed
qed

lemma ping_noreply_keeps:
  assumes "csp_ping_noreply fuel nh nonce node w = Some w'" "CSP_CONN_MAX < fuel" "node_ok w" "owned M w"
  shows "node_ok w' \<and> owned M w'"
proof -
  obtain q pool where g: "csp_buffer_get 1 (nd_pool w) = (q, pool)" by fastforce
  have k: "node_ok (w\<lparr>nd_pool := pool\<rparr>)" "owned (in_hand q M) (w\<lparr>nd_pool := pool\<rparr>)"
    using get_keeps [OF g, of M] assms(3,4) by (simp_all add: keeps_def)
  show ?thesis
  proof (cases q)
    case None
    then have "w' = w\<lparr>nd_pool := pool\<rparr>" using assms(1) g by (simp add: csp_ping_noreply_def)
    then show ?thesis using k None by (simp only: in_hand_def option.case)
  next
    case (Some p)
    obtain r w1 where c: "csp_connect fuel CSP_PRIO_NORM node CSP_PING 0 (w\<lparr>nd_pool := pool\<rparr>) = Some (r, w1)"
      using assms(1) g Some by (auto simp: csp_ping_noreply_def split: option.splits)
    note req = connect_requested [OF c _ assms(2), of "add_mset p M"]
    show ?thesis
    proof (cases r)
      case None
      then have "w' = free_packet (Some p) w1" using assms(1) g Some c by (simp add: csp_ping_noreply_def)
      then show ?thesis using req k Some free_packet_keeps [of p M w1] by (simp add: requested_def in_hand_def keeps_def)
    next
      case r: (Some c')
      then obtain w2 w3 where s: "set_data p [0x55] w1 = Some w2" "send_or_free nh nonce c' p w2 = Some w3" "w' = snd (csp_close (Some c') w3)"
        using assms(1) g Some c by (auto simp: csp_ping_noreply_def split: option.splits)
      have "retains (add_mset p M) w1 M w3"
        using keeps_retains [OF keeps_trans [OF set_data_keeps [OF s(1)] send_or_free_keeps [OF s(2)]]] .
      then have "node_ok w3" "owned M w3" "nd_ports w3 = nd_ports w1" "c' < CSP_CONN_MAX" "\<not> bound w1 c'"
        using req k r Some by (auto simp: requested_def retains_def in_hand_def)
      then show ?thesis using s(3) csp_close_ok [of w3 "Some c'"] csp_close_owned [of w3 M "Some c'"] by (simp add: bound_def)
    qed
  qed
qed

lemma ps_answers_keeps:
  "ps_answers n ot c w = Some (out, w') \<Longrightarrow> tasks_ok ot \<Longrightarrow> c < CSP_CONN_MAX \<Longrightarrow> retains M w M w'"
proof (induction n arbitrary: w out)
  case (Suc n)
  obtain r w1 where r: "csp_read (Some c) (ot w) = (r, w1)" by fastforce
  note w1 = read_retains [OF r Suc.prems(2,3), of M]
  show ?case
  proof (cases r)
    case None
    then show ?thesis using Suc.prems r w1 by (simp add: in_hand_def)
  next
    case (Some p)
    then obtain o' where "ps_answers n ot c (free_packet (Some p) w1) = Some (o', w')"
      using Suc.prems(1) r by (auto simp: Let_def split: if_splits)
    then have "retains M (free_packet (Some p) w1) M w'" using Suc.IH Suc.prems(2,3) by blast
    moreover have "retains M w M (free_packet (Some p) w1)" using w1 Some retains_free by (simp add: in_hand_def)
    ultimately show ?thesis by (blast intro: retains_trans)
  qed
qed simp

lemma ps_keeps:
  assumes "csp_ps fuel rounds nh nonce ot node w = Some (out, w')" "tasks_ok ot" "CSP_CONN_MAX < fuel" "node_ok w" "owned M w"
  shows "node_ok w' \<and> owned M w'"
proof -
  obtain r w1 where c: "csp_connect fuel CSP_PRIO_NORM node CSP_PS 0 w = Some (r, w1)"
    using assms(1) by (auto simp: csp_ps_def split: option.splits)
  note req = connect_requested [OF c _ assms(3), of M]
  show ?thesis
  proof (cases r)
    case None
    then show ?thesis using assms(1,4,5) c req by (simp add: csp_ps_def requested_def)
  next
    case (Some c')
    obtain q pool where g: "csp_buffer_get 95 (nd_pool w1) = (q, pool)" by fastforce
    have k: "retains M w1 (in_hand q M) (w1\<lparr>nd_pool := pool\<rparr>)" by (rule keeps_retains [OF get_keeps [OF g]])
    have "\<exists>w2. (c' < CSP_CONN_MAX \<longrightarrow> retains M w1 M w2) \<and> w' = snd (csp_close (Some c') w2)"
    proof (cases q)
      case None
      then show ?thesis using assms(1) k unfolding csp_ps_def c Some by (auto simp: g in_hand_def)
    next
      case q: (Some p)
      then obtain w2 ok w3 where s: "set_data p [0x55] (w1\<lparr>nd_pool := pool\<rparr>) = Some w2"
          "csp_send nh nonce (Some c') (Some p) w2 = Some (ok, w3)"
        using assms(1) unfolding csp_ps_def c Some by (auto simp: g split: option.splits)
      have w3: "retains M w1 (if ok = 0 then add_mset p M else M) w3"
        using retains_trans [OF k] retains_trans [OF keeps_retains [OF set_data_keeps [OF s(1)]] send_retains [OF s(2)]] q
        by (simp add: in_hand_def)
      show ?thesis
      proof (cases "ok = 0")
        case True
        then have "retains M w1 M (free_packet (Some p) w3)" using w3 by (simp add: retains_free)
        then show ?thesis using assms(1) s True unfolding csp_ps_def c Some by (auto simp: g q)
      next
        case False
        then obtain w4 where "ps_answers rounds ot c' w3 = Some (out, w4)" "w' = snd (csp_close (Some c') w4)"
          using assms(1) s unfolding csp_ps_def c Some by (auto simp: g q)
        then show ?thesis using False w3 ps_answers_keeps [OF _ assms(2)] retains_trans by fastforce
      qed
    qed
    then show ?thesis using close_requested [OF req [unfolded Some]] assms(4,5) by auto
  qed
qed

end

section \<open>Peek and poke, and the reboot\<close>

text \<open>A request as it comes over the network: the address in big-endian order, a length, data.\<close>

definition memory_request :: "u8 \<Rightarrow> u32 \<Rightarrow> nat \<Rightarrow> u8 list \<Rightarrow> u8 list" where
  "memory_request code addr n rest = CSP_CMP_REQUEST # code # be32 addr @ of_nat n # rest"

definition memory_reply :: "u8 \<Rightarrow> u32 \<Rightarrow> nat \<Rightarrow> u8 list \<Rightarrow> u8 list" where
  "memory_reply code addr n rest = CSP_CMP_REQUEST # code # le32 addr @ of_nat n # rest"

lemma memory_request_simps:
  "mem_u32 2 (memory_request code addr n rest) = Some (csp_hton32 addr)"
  "set_u32 2 addr (memory_request code addr n rest) = Some (memory_reply code addr n rest)"
  "mem_read 6 1 (memory_reply code addr n rest) = Some [of_nat n]"
  "length data = k \<Longrightarrow> mem_read 7 k (memory_reply code addr n (data @ rest)) = Some data"
  "length data = length old \<Longrightarrow> mem_write 7 data (memory_reply code addr n (old @ rest)) = Some (memory_reply code addr n (data @ rest))"
proof -
  have "of_le32 (be32 addr) = of_le32 (le32 (csp_hton32 addr))" by simp
  also have "\<dots> = csp_hton32 addr" by (simp only: of_le32_le32)
  finally have b: "of_le32 (be32 addr) = csp_hton32 addr" .
  show "mem_u32 2 (memory_request code addr n rest) = Some (csp_hton32 addr)"
    using mem_at [of "[CSP_CMP_REQUEST, code]" 2 "be32 addr" 4 "of_nat n # rest"] by (simp add: mem_u32_def memory_request_def b length_be32)
  show "set_u32 2 addr (memory_request code addr n rest) = Some (memory_reply code addr n rest)"
    using mem_set [of "[CSP_CMP_REQUEST, code]" 2 "be32 addr" "le32 addr" "of_nat n # rest"]
    by (simp add: set_u32_def memory_request_def memory_reply_def length_be32 length_le32)
  show "mem_read 6 1 (memory_reply code addr n rest) = Some [of_nat n]"
    using mem_at [of "CSP_CMP_REQUEST # code # le32 addr" 6 "[of_nat n]" 1 rest] by (simp add: memory_reply_def length_le32)
  show "mem_read 7 k (memory_reply code addr n (data @ rest)) = Some data" if "length data = k"
    using mem_at [of "CSP_CMP_REQUEST # code # le32 addr @ [of_nat n]" 7 data k rest] that by (simp add: memory_reply_def length_le32)
  show "mem_write 7 data (memory_reply code addr n (old @ rest)) = Some (memory_reply code addr n (data @ rest))"
    if "length data = length old"
    using mem_set [of "CSP_CMP_REQUEST # code # le32 addr @ [of_nat n]" 7 old data rest] that by (simp add: memory_reply_def length_le32)
qed

lemma byte_of_length: "n \<le> 200 \<Longrightarrow> unat (of_nat n :: u8) = n"
  by (simp only: unsigned_of_nat) (simp add: take_bit_nat_eq_self)

definition poked :: "u32 \<Rightarrow> u8 list \<Rightarrow> csp_system \<Rightarrow> csp_system" where
  "poked addr data s =
     s\<lparr>sy_memory := (\<lambda>x. let k = unat (x - addr) in if k < length data then data ! k else sy_memory s x)\<rparr>"

lemma poke_request:
  assumes "length data \<le> 200" "m = memory_request 5 addr (length data) (data @ rest)"
  shows "cmp_request env 5 len m s =
    Some (CSP_ERR_NONE, memory_reply 5 addr (length data) (data @ rest), len, poked addr data s)"
  using assms(1) unfolding assms(2)
  by (simp add: cmp_request_def do_cmp_poke_def memory_request_simps byte_of_length CSP_CMP_POKE_MAX_LEN_def poked_def Let_def del: One_nat_def)

lemma peek_request:
  assumes "length old \<le> 200" "m = memory_request 4 addr (length old) (old @ rest)"
  shows "cmp_request env 4 len m s = Some (CSP_ERR_NONE,
    memory_reply 4 addr (length old) (map (\<lambda>k. sy_memory s (addr + of_nat k)) [0..<length old] @ rest), len, s)"
  using assms(1) unfolding assms(2)
  by (simp add: cmp_request_def do_cmp_peek_def memory_request_simps byte_of_length CSP_CMP_PEEK_MAX_LEN_def Let_def del: One_nat_def)

text \<open>C27. The management protocol writes memory and reads it back: after a request to poke up to 200 bytes, a request
  to peek as many from the same address is answered with these bytes, and every other byte is what it was.\<close>

theorem csp_cmp_poke_peek:
  assumes "length data \<le> 200" "length old = length data"
    "cmp_request env 5 len (memory_request 5 addr (length data) (data @ rest)) s = Some (e, m, len1, s1)"
    "cmp_request env 4 len (memory_request 4 addr (length data) (old @ rest')) s1 = Some (e', m', len2, s2)"
  shows "e = CSP_ERR_NONE \<and> e' = CSP_ERR_NONE \<and> s2 = s1 \<and> take (length data) (drop 7 m') = data \<and>
    (\<forall>x. sy_memory s2 x = (if unat (x - addr) < length data then data ! unat (x - addr) else sy_memory s x)) \<and>
    sy_node s2 = sy_node s"
proof -
  have p: "e = CSP_ERR_NONE" "s1 = poked addr data s" using poke_request [OF assms(1) refl, of env len addr rest s] assms(3) by simp_all
  have old: "length old \<le> 200" using assms(1,2) by simp
  note q = peek_request [OF old refl, of env len addr rest' s1, unfolded assms(2) assms(4)]
  have "unat (of_nat k :: u32) = k" if "k < 200" for k using that by (simp only: unsigned_of_nat) (simp add: take_bit_nat_eq_self)
  then have "map (\<lambda>k. sy_memory s1 (addr + of_nat k)) [0..<length data] = data"
    using assms(1) p(2) by (intro nth_equalityI) (simp_all add: poked_def)
  then have "m' = memory_reply 4 addr (length data) (data @ rest')" "e' = CSP_ERR_NONE" "s2 = s1" using q by simp_all
  then show ?thesis using p by (simp add: memory_reply_def length_le32 poked_def Let_def)
qed

definition demo_platform :: csp_env where
  "demo_platform = \<lparr>ev_revision = [0x31], ev_date = [], ev_time = [], ev_hostname = [], ev_model = [], ev_irq = (\<lambda>_. 0),
     ev_tasklist = None, ev_memfree = 0, ev_uptime = 0, ev_clock_set = False, ev_clock_get = False\<rparr>"

definition demo_system :: csp_system where
  "demo_system = \<lparr>sy_node = demo_node\<lparr>nd_pool := snd (csp_buffer_get 0 pool4)\<rparr>, sy_memory = (\<lambda>_. 0), sy_clock = (0, 0), sy_power = Running\<rparr>"

theorem csp_cmp_poke_peek_witness:
  "\<exists>s1 m' s2. cmp_request demo_platform 5 10 (memory_request 5 0x1000 3 [7, 8, 9]) demo_system = Some (CSP_ERR_NONE, memory_reply 5 0x1000 3 [7, 8, 9], 10, s1) \<and>
     cmp_request demo_platform 4 10 (memory_request 4 0x1000 3 [0, 0, 0]) s1 = Some (CSP_ERR_NONE, m', 10, s2) \<and>
     take 3 (drop 7 m') = [7, 8, 9] \<and> sy_memory s2 0x1003 = 0"
proof -
  let ?s1 = "poked 0x1000 [7, 8, 9] demo_system"
  have p: "cmp_request demo_platform 5 10 (memory_request 5 0x1000 3 [7, 8, 9]) demo_system = Some (CSP_ERR_NONE, memory_reply 5 0x1000 3 [7, 8, 9], 10, ?s1)"
    using poke_request [of "[7, 8, 9]" _ "0x1000" "[]" demo_platform 10 demo_system] by (simp add: eval_nat_numeral)
  obtain m' where q: "cmp_request demo_platform 4 10 (memory_request 4 0x1000 3 [0, 0, 0]) ?s1 = Some (CSP_ERR_NONE, m', 10, ?s1)"
    using peek_request [of "[0, 0, 0]" _ "0x1000" "[]" demo_platform 10 ?s1] by (simp add: eval_nat_numeral)
  have l: "length [7, 8, 9 :: u8] = 3" "length [0, 0, 0 :: u8] = 3" by simp_all
  have f: "take 3 (drop 7 m') = [7, 8, 9] \<and>
      (\<forall>x. sy_memory ?s1 x = (if unat (x - 0x1000) < 3 then [7, 8, 9] ! unat (x - 0x1000) else sy_memory demo_system x))"
    using csp_cmp_poke_peek [of "[7, 8, 9]" "[0, 0, 0]" demo_platform 10 "0x1000" "[]" demo_system _ _ _ ?s1 "[]" _ m' 10 ?s1,
        unfolded append_Nil2 l] p q by simp
  then have "sy_memory ?s1 0x1003 = 0" by (simp add: demo_system_def)
  then show ?thesis using p q f by blast
qed

text \<open>A request to reboot is taken from four bytes of the buffer without a look at the length of the packet: an
  empty packet reboots the node when the bytes an earlier packet left are the magic word.\<close>

theorem csp_reboot_without_data:
  assumes "csp_conn_dport (nd_conns (sy_node s) ! conn) = CSP_REBOOT" "pk = buf_packet (nd_pool (sy_node s)) p"
    "pkt_data pk = []" "4 \<le> pkt_cap pk" "map stale [0..<4] = be32 CSP_REBOOT_MAGIC"
  shows "csp_service_handler env stale nh nonces conn p s =
    Some (s\<lparr>sy_power := Rebooted, sy_node := free_packet (Some p) (sy_node s)\<rparr>)"
proof -
  have "[0..<pkt_cap pk] = [0..<4] @ [4..<pkt_cap pk]" using upt_add_eq_append [of 0 4 "pkt_cap pk - 4"] assms(4) by simp
  then have "pkt_memory stale pk = be32 CSP_REBOOT_MAGIC @ map stale [4..<pkt_cap pk]"
    using assms(3,5) by (simp add: pkt_memory_def pkt_length_def)
  then have "mem_u32 0 (pkt_memory stale pk) = Some (of_le32 (be32 CSP_REBOOT_MAGIC))"
    using mem_at [of "[]" 0 "be32 CSP_REBOOT_MAGIC" 4] by (simp add: mem_u32_def length_be32)
  moreover have "csp_ntoh32 (of_le32 (be32 CSP_REBOOT_MAGIC)) = CSP_REBOOT_MAGIC" by code_simp
  ultimately show ?thesis
    using assms(1) by (simp add: csp_service_handler_def service_request_def Let_def CSP_REBOOT_def CSP_CMP_def CSP_PING_def CSP_PS_def
        CSP_MEMFREE_def flip: assms(2))
qed

theorem csp_reboot_without_data_witness:
  "sy_power (the (csp_service_handler demo_platform (\<lambda>i. be32 CSP_REBOOT_MAGIC ! i) lo_nexthop (\<lambda>_. 0) 0 0
     (demo_system\<lparr>sy_node := (sy_node demo_system)\<lparr>nd_conns := [closed_conn\<lparr>cn_idin := set_dport CSP_REBOOT 0\<rparr>]\<rparr>\<rparr>))) = Rebooted"
proof -
  have "csp_conn_dport (closed_conn\<lparr>cn_idin := set_dport CSP_REBOOT 0\<rparr>) = CSP_REBOOT" by code_simp
  moreover have "pkt_data (buf_packet (snd (csp_buffer_get 0 pool4)) 0) = []" by code_simp
  moreover have "4 \<le> pkt_cap (buf_packet (snd (csp_buffer_get 0 pool4)) 0)" by code_simp
  moreover have "map (\<lambda>i. be32 CSP_REBOOT_MAGIC ! i) [0..<4] = be32 CSP_REBOOT_MAGIC" by code_simp
  ultimately show ?thesis
    by (subst csp_reboot_without_data [OF _ refl]) (simp_all add: demo_system_def)
qed

section \<open>No service and no request loses a buffer\<close>

text \<open>C14. Whatever the request is and whatever it asks for, \<open>csp_service_handler\<close> gives its packet away or frees it, and
  so with every packet it makes: the node stays consistent and every buffer in use in exactly one place.\<close>

theorem csp_service_handler_conserves:
  assumes "csp_interface nh" "node_ok (sy_node s)" "owned (add_mset p M) (sy_node s)"
    "csp_service_handler env stale nh nonces conn p s = Some s'"
  shows "node_ok (sy_node s') \<and> owned M (sy_node s') \<and> nd_conns (sy_node s') = nd_conns (sy_node s)"
  using csp_interface.service_handler_keeps [OF assms(1,4), of M] assms(2,3) by (simp add: keeps_def)

theorem csp_service_handler_conserves_witness:
  "\<exists>s'. csp_service_handler demo_platform (\<lambda>_. 0) lo_nexthop (\<lambda>_. 0) 0 0 demo_system = Some s' \<and> owned {#} (sy_node s')"
proof -
  obtain pool where g: "csp_buffer_get 0 pool4 = (Some 0, pool)" using pool4_get by blast
  then have d: "sy_node demo_system = demo_node\<lparr>nd_pool := pool\<rparr>" by (simp add: demo_system_def)
  have k: "node_ok (sy_node demo_system)" "owned {#0#} (sy_node demo_system)"
    using csp_buffer_get_keeps [OF _ demo_ok demo_owned, of 0 "Some 0" pool] g unfolding d by (simp_all add: demo_node_def)
  have "(case csp_service_handler demo_platform (\<lambda>_. 0) lo_nexthop (\<lambda>_. 0) 0 0 demo_system of None \<Rightarrow> False | Some _ \<Rightarrow> True) = True"
    by code_simp
  then obtain s' where "csp_service_handler demo_platform (\<lambda>_. 0) lo_nexthop (\<lambda>_. 0) 0 0 demo_system = Some s'" by (auto split: option.splits)
  with csp_service_handler_conserves [OF lo.csp_interface_axioms k this] show ?thesis by blast
qed

text \<open>The requests \<open>csp_ping\<close>, \<open>csp_ping_noreply\<close> and \<open>csp_ps\<close> close their connection and account for every buffer
  on every path, while other tasks run in between.\<close>

theorem csp_requests_no_leak:
  assumes "csp_interface nh" "tasks_ok other_tasks" "node_ok w" "owned M w" "CSP_CONN_MAX < fuel" "opts AND CSP_SO_RDPREQ = 0"
  shows "(\<forall>t w'. csp_ping fuel stale nh nonce other_tasks node len opts w = Some (t, w') \<longrightarrow> node_ok w' \<and> owned M w') \<and>
    (\<forall>w'. csp_ping_noreply fuel nh nonce node w = Some w' \<longrightarrow> node_ok w' \<and> owned M w') \<and>
    (\<forall>out w'. csp_ps fuel rounds nh nonce other_tasks node w = Some (out, w') \<longrightarrow> node_ok w' \<and> owned M w')"
  using csp_interface.ping_keeps [OF assms(1) _ assms(2,6,5,3,4)] csp_interface.ping_noreply_keeps [OF assms(1) _ assms(5,3,4)]
    csp_interface.ps_keeps [OF assms(1) _ assms(2,5,3,4)] by blast

theorem csp_requests_no_leak_witness:
  "\<exists>w'. csp_ping 11 (\<lambda>_. 0) lo_nexthop 0 (\<lambda>w. w) 5 3 0 demo_node = Some (- 1, w') \<and> node_ok w' \<and> owned {#} w'"
proof -
  have "(case csp_ping 11 (\<lambda>_. 0) lo_nexthop 0 (\<lambda>w. w) 5 3 0 demo_node of None \<Rightarrow> 0 | Some (t, w) \<Rightarrow> t) = - 1" by code_simp
  then obtain w' where "csp_ping 11 (\<lambda>_. 0) lo_nexthop 0 (\<lambda>w. w) 5 3 0 demo_node = Some (- 1, w')" by (auto split: option.splits)
  moreover have "tasks_ok (\<lambda>w. w)" "(0 :: u32) AND CSP_SO_RDPREQ = 0" "CSP_CONN_MAX < 11" by (simp_all add: tasks_ok_def CSP_CONN_MAX_def)
  ultimately show ?thesis using csp_requests_no_leak [OF lo.csp_interface_axioms _ demo_ok demo_owned] by blast
qed

text \<open>A ping of the node itself, with its router and a task that serves every port: the answer comes back.\<close>

definition demo_serve :: "csp_node \<Rightarrow> csp_node" where
  "demo_serve w =
     (let route = (\<lambda>w. case csp_route_work lo_nexthop 0 w of None \<Rightarrow> w | Some (_, w) \<Rightarrow> w)
      in case csp_accept (Some 1) (route w) of
           (None, w) \<Rightarrow> w
         | (Some (ItemPacket _), w) \<Rightarrow> w
         | (Some (ItemConn c), w) \<Rightarrow>
             (case csp_read (Some c) w of
                (None, w) \<Rightarrow> w
              | (Some p, w) \<Rightarrow>
                  (case csp_service_handler demo_platform (\<lambda>_. 0) lo_nexthop (\<lambda>_. 0) c p (demo_system\<lparr>sy_node := w\<rparr>) of
                     None \<Rightarrow> w | Some s \<Rightarrow> route (sy_node s))))"

lemma csp_ping_own_node:
  "(case csp_ping 11 (\<lambda>_. 0) lo_nexthop 0 demo_serve 5 3 0 (demo_node\<lparr>nd_ports := snd (csp_bind (Some 1) CSP_ANY (nd_ports demo_node))\<rparr>) of
      None \<Rightarrow> None | Some (t, w) \<Rightarrow> Some t) = Some 0"
  by code_simp

end
