(* ===== verification/KPubsub.thy ===== *)
theory KPubsub
  imports CspService
begin

text \<open>
  Connections between the tasks of KubOS (\<open>ipc/source/pubsub.c\<close>): a server accepts connections on a port, a
  subscriber connects to it, and both send and read blocks of data as single packets.

  A pointer to a \<open>pubsub_conn\<close> is its value or \<open>None\<close>; the fields of the socket interface are not used here.
  While a task waits, \<open>other_tasks\<close> is what the others do.
\<close>

section \<open>Operations\<close>

record pubsub_conn =
  conn_handle :: "nat option"

definition IPC_SO_NONE :: u32 where "IPC_SO_NONE = 0"

definition kprv_server_setup :: "bool \<Rightarrow> nat \<Rightarrow> nat \<Rightarrow> csp_node \<Rightarrow> nat option \<times> csp_node" where
  "kprv_server_setup mem_ok port num_connections w =
     (case csp_socket mem_ok IPC_SO_NONE w of
        (None, w) \<Rightarrow> (None, w)
      | (socket, w) \<Rightarrow>
          (case node_bind socket port w of (e, w) \<Rightarrow>
             if e \<noteq> CSP_ERR_NONE then (None, w)
             else (case csp_listen mem_ok socket num_connections w of (e, w) \<Rightarrow>
                     if e \<noteq> CSP_ERR_NONE then (None, w) else (socket, w))))"

text \<open>The result is the connection that is accepted.  A socket of connections queues connections only.\<close>

definition kprv_server_accept :: "(csp_node \<Rightarrow> csp_node) \<Rightarrow> nat option \<Rightarrow> csp_node \<Rightarrow> (pubsub_conn option \<times> csp_node) option" where
  "kprv_server_accept other_tasks socket w =
     (if socket = None then Some (None, w)
      else case csp_accept socket (other_tasks w) of
             (None, w) \<Rightarrow> Some (None, w)
           | (Some (ItemConn c), w) \<Rightarrow> Some (Some \<lparr>conn_handle = Some c\<rparr>, w)
           | (Some (ItemPacket p), w) \<Rightarrow> None)"

text \<open>The result is whether the connection is open and the new value of \<open>conn\<close>.\<close>

definition kprv_subscriber_connect :: "nat \<Rightarrow> u8 \<Rightarrow> u8 \<Rightarrow> csp_node \<Rightarrow> (bool \<times> pubsub_conn \<times> csp_node) option" where
  "kprv_subscriber_connect fuel address port w =
     (case csp_connect fuel CSP_PRIO_NORM address port 0 w of
        None \<Rightarrow> None
      | Some (None, w) \<Rightarrow> Some (False, \<lparr>conn_handle = None\<rparr>, w)
      | Some (Some c, w) \<Rightarrow> Some (True, \<lparr>conn_handle = Some c\<rparr>, w))"

definition kprv_send_csp :: "nexthop \<Rightarrow> u32 \<Rightarrow> pubsub_conn option \<Rightarrow> u8 list option \<Rightarrow> csp_node \<Rightarrow> (bool \<times> csp_node) option" where
  "kprv_send_csp nh nonce conn data w =
     (case (conn \<bind> conn_handle, data) of
        (Some c, Some bs) \<Rightarrow>
          if bs = [] then Some (False, w)
          else (case csp_buffer_get (length bs) (nd_pool w) of
                  (None, pool) \<Rightarrow> Some (False, w\<lparr>nd_pool := pool\<rparr>)
                | (Some p, pool) \<Rightarrow>
                    (case set_data p bs (w\<lparr>nd_pool := pool\<rparr>) of None \<Rightarrow> None
                     | Some w \<Rightarrow>
                         map_option (\<lambda>(ok, w). if ok = 0 then (False, free_packet (Some p) w) else (True, w))
                           (csp_send nh nonce (Some c) (Some p) w)))
      | _ \<Rightarrow> Some (False, w))"

text \<open>A read takes \<open>buffer_size\<close> bytes from the packet, whatever its length; a packet that came to another
  port is a request for a service.  \<open>endpoint\<close> is the port of this side that is looked at.\<close>

definition kprv_read ::
  "(csp_conn \<Rightarrow> u8) \<Rightarrow> csp_env \<Rightarrow> (nat \<Rightarrow> u8) \<Rightarrow> nexthop \<Rightarrow> (nat \<Rightarrow> u32) \<Rightarrow> (csp_node \<Rightarrow> csp_node) \<Rightarrow>
     pubsub_conn option \<Rightarrow> nat \<Rightarrow> u8 \<Rightarrow> csp_system \<Rightarrow> (u8 list option \<times> csp_system) option" where
  "kprv_read endpoint env stale nh nonces other_tasks conn buffer_size port s =
     (case conn \<bind> conn_handle of
        Some c \<Rightarrow>
          (case csp_read (Some c) (other_tasks (sy_node s)) of
             (None, w) \<Rightarrow> Some (None, s\<lparr>sy_node := w\<rparr>)
           | (Some p, w) \<Rightarrow>
               if endpoint (nd_conns w ! c) = port
               then map_option (\<lambda>bs. (Some bs, s\<lparr>sy_node := free_packet (Some p) w\<rparr>))
                      (mem_read 0 buffer_size (pkt_memory stale (buf_packet (nd_pool w) p)))
               else map_option (Pair None) (csp_service_handler env stale nh nonces c p (s\<lparr>sy_node := w\<rparr>)))
      | _ \<Rightarrow> Some (None, s))"

definition kprv_publisher_read ::
  "csp_env \<Rightarrow> (nat \<Rightarrow> u8) \<Rightarrow> nexthop \<Rightarrow> (nat \<Rightarrow> u32) \<Rightarrow> (csp_node \<Rightarrow> csp_node) \<Rightarrow>
     pubsub_conn option \<Rightarrow> nat \<Rightarrow> u8 \<Rightarrow> csp_system \<Rightarrow> (u8 list option \<times> csp_system) option" where
  "kprv_publisher_read = kprv_read csp_conn_dport"

definition kprv_subscriber_read ::
  "csp_env \<Rightarrow> (nat \<Rightarrow> u8) \<Rightarrow> nexthop \<Rightarrow> (nat \<Rightarrow> u32) \<Rightarrow> (csp_node \<Rightarrow> csp_node) \<Rightarrow>
     pubsub_conn option \<Rightarrow> nat \<Rightarrow> u8 \<Rightarrow> csp_system \<Rightarrow> (u8 list option \<times> csp_system) option" where
  "kprv_subscriber_read = kprv_read csp_conn_sport"


section \<open>What waits in the queues of the sockets\<close>

text \<open>A connection in the queue of a socket is one of the table, and not a socket itself.\<close>

definition queued_ok :: "csp_node \<Rightarrow> bool" where
  "queued_ok w \<longleftrightarrow> (\<forall>q \<in> set (nd_queues w). \<forall>c. ItemConn c \<in> set (sq_items q) \<longrightarrow> c < CSP_CONN_MAX \<and> \<not> bound w c)"

lemma queued_ok_cong: "nd_queues w' = nd_queues w \<Longrightarrow> nd_ports w' = nd_ports w \<Longrightarrow> queued_ok w' = queued_ok w"
  by (simp add: queued_ok_def bound_def)

lemma sock_enqueue_queued:
  assumes "sock_enqueue q x w = (ok, w')" "queued_ok w" "\<And>c. x = ItemConn c \<Longrightarrow> c < CSP_CONN_MAX \<and> \<not> bound w c"
  shows "queued_ok w'"
proof (cases ok)
  case False
  then have "w' = w" using assms(1) by (auto simp: sock_enqueue_def Let_def split: if_splits)
  then show ?thesis using assms(2) by simp
next
  case True
  let ?s = "nd_queues w ! q"
  have w': "w' = w\<lparr>nd_queues := (nd_queues w)[q := ?s\<lparr>sq_items := sq_items ?s @ [x]\<rparr>]\<rparr>"
    using assms(1) True by (auto simp: sock_enqueue_def Let_def split: if_splits)
  show ?thesis
  proof (cases "q < length (nd_queues w)")
    case True
    have "c < CSP_CONN_MAX \<and> \<not> bound w c" if "s \<in> set (nd_queues w')" "ItemConn c \<in> set (sq_items s)" for s c
    proof (cases "s \<in> set (nd_queues w)")
      case True
      then show ?thesis using that(2) assms(2) by (auto simp: queued_ok_def)
    next
      case False
      then have "s = ?s\<lparr>sq_items := sq_items ?s @ [x]\<rparr>"
        using that(1) set_update_subset_insert [of "nd_queues w" q] unfolding w' by auto
      then have "ItemConn c \<in> set (sq_items ?s) \<or> x = ItemConn c" using that(2) by auto
      moreover have "?s \<in> set (nd_queues w)" using True by simp
      ultimately show ?thesis using assms(2,3) by (auto simp: queued_ok_def)
    qed
    then show ?thesis by (simp add: queued_ok_def bound_def w')
  next
    case False
    then have "w' = w" by (simp add: w' list_update_beyond)
    then show ?thesis using assms(2) by simp
  qed
qed

lemma udp_new_packet_queued:
  assumes "queued_ok w" "c < CSP_CONN_MAX" "\<not> bound w c"
  shows "queued_ok (csp_udp_new_packet c p w)"
proof -
  obtain e w1 where e: "csp_conn_enqueue_packet (Some c) (Some p) w = (e, w1)" by fastforce
  have w1: "nd_queues w1 = nd_queues w" "nd_ports w1 = nd_ports w"
    using e by (auto simp: csp_conn_enqueue_packet_def Let_def split: if_splits)
  have q1: "queued_ok w1" using assms(1) queued_ok_cong [OF w1] by simp
  have free: "queued_ok (free_packet r v) = queued_ok v" for r v by (rule queued_ok_cong) (simp_all add: free_packet_def)
  have close: "queued_ok (snd (csp_close r v)) = queued_ok v" for r v
    by (rule queued_ok_cong) (auto simp: csp_close_def csp_conn_flush_eq split: option.splits)
  have "queued_ok w2" if "sock_enqueue q (ItemConn c) w1 = (ok, w2)" for q ok w2
    using sock_enqueue_queued [OF that q1] assms(2,3) w1 by (simp add: bound_def)
  moreover have "queued_ok (set_conn c cn v) = queued_ok v" for cn v by (rule queued_ok_cong) simp_all
  ultimately show ?thesis
    using e q1 by (auto simp: csp_udp_new_packet_def free close split: option.splits prod.splits bool.splits)
qed

context csp_interface begin

lemma route_work_queued:
  assumes "csp_route_work nh nonce w = Some (r, w')" "node_ok w" "queued_ok w"
  shows "queued_ok w'"
proof (cases "nd_qfifo w")
  case Nil
  then show ?thesis using assms by (simp add: csp_route_work_def csp_qfifo_read_def)
next
  case (Cons x rest)
  obtain p i where x: "nd_qfifo w = (p, i) # rest" using Cons by (cases x) auto
  have free: "queued_ok (free_packet q v) = queued_ok v" for q v by (rule queued_ok_cong) (simp_all add: free_packet_def)
  have sec: "nd_queues v' = nd_queues v \<and> nd_ports v' = nd_ports v \<and> nd_conns v' = nd_conns v"
    if "csp_route_security_check opts i p v = Some (e, v')" for opts e v v'
    using that by (auto simp: csp_route_security_check_def)
  have fwd: "queued_ok v'" if "route_forward nh nonce p i v = Some v'" "queued_ok v" for v v'
  proof -
    have "nd_queues v' = nd_queues v \<and> nd_ports v' = nd_ports v"
      using that(1) by (auto simp: route_forward_def Let_def free_packet_def split: option.splits if_splits dest!: send_direct_frame)
    then show ?thesis using that(2) queued_ok_cong by blast
  qed
  have less: "queued_ok v'" if "route_conn_less s p i v = Some v'" "queued_ok v" for s v v'
  proof -
    note t = that
    obtain e v1 where v1: "csp_route_security_check (cn_opts (nd_conns v ! s)) i p v = Some (e, v1)"
      using t(1) by (auto simp: route_conn_less_def split: option.splits)
    then have "queued_ok v1" using sec [OF v1] queued_ok_cong t(2) by blast
    then have "queued_ok v2" if "sock_enqueue q (ItemPacket p) v1 = (b, v2)" for q b v2
      using sock_enqueue_queued [OF that] by simp
    with t(1) v1 \<open>queued_ok v1\<close> show ?thesis
      by (auto simp: route_conn_less_def free split: option.splits if_splits prod.splits bool.splits)
  qed
  have ex: "queued_ok v'" if "route_existing c p i v = Some v'" "queued_ok v" "c < CSP_CONN_MAX" "\<not> bound v c" for c v v'
  proof -
    note t = that
    obtain e v1 where v1: "csp_route_security_check (cn_opts (nd_conns v ! c)) i p v = Some (e, v1)"
      using t(1) by (auto simp: route_existing_def split: option.splits)
    have q1: "queued_ok v1" using sec [OF v1] queued_ok_cong [of v1 v] t(2) by simp
    have "\<not> bound v1 c" using sec [OF v1] t(4) by (simp add: bound_def)
    with udp_new_packet_queued [OF q1 t(3) this] show ?thesis using t(1) v1 q1 by (auto simp: route_existing_def free split: if_splits)
  qed
  have new: "queued_ok v'" if "route_new_conn s p i v = Some v'" "queued_ok v" "node_ok v" for s v v'
  proof -
    note t = that
    obtain e v1 where v1: "csp_route_security_check (cn_opts (nd_conns v ! s)) i p v = Some (e, v1)"
      using t(1) by (auto simp: route_new_conn_def split: option.splits)
    then have q1: "queued_ok v1" using sec [OF v1] queued_ok_cong t(2) by blast
    have n1: "node_ok v1" using t(3) v1 by (auto simp: csp_route_security_check_def)
    let ?i = "pkt_id (buf_packet (nd_pool v1) p)"
    show ?thesis
    proof (cases rule: csp_conn_new_cases [OF n1, of ?i "reply_id (nd_address v1) ?i"])
      case 1
      then show ?thesis using t(1) v1 q1 by (auto simp: route_new_conn_def free Let_def split: if_splits)
    next
      case (2 c)
      have b: "\<not> bound v1 c" by (rule bound_not_free [OF n1 2(2)])
      have "queued_ok (csp_udp_new_packet c p v2)" if "nd_queues v2 = nd_queues v1" "nd_ports v2 = nd_ports v1" for v2
        using that b q1 2(1) queued_ok_cong [OF that] by (intro udp_new_packet_queued) (simp_all add: bound_def)
      then show ?thesis using t(1) v1 q1 2(3) by (auto simp: route_new_conn_def free Let_def split: if_splits)
    qed
  qed
  let ?w = "w\<lparr>nd_qfifo := rest\<rparr>"
  have ok: "node_ok ?w" "queued_ok ?w" using assms(2,3) x by (auto simp: node_ok_def bound_def queued_ok_def)
  have rdp: "queued_ok (set_iface i ifc ?w)" for ifc
    using queued_ok_cong [of "set_iface i ifc ?w" ?w] ok(2) by simp
  note cf = csp_conn_find_Some [OF _ ok(1)]
  show ?thesis
    using assms(1) ok(2)
    by (auto simp: route_work_head [OF x] Let_def free rdp split: if_splits option.splits
        dest: fwd [OF _ ok(2)] less [OF _ ok(2)] new [OF _ ok(2,1)] ex [OF _ ok(2) cf(1,4)])
qed

end

section \<open>What the operations keep\<close>

text \<open>A task that waits, while the others run.\<close>

definition tasks_fair :: "(csp_node \<Rightarrow> csp_node) \<Rightarrow> bool" where
  "tasks_fair f \<longleftrightarrow> tasks_ok f \<and> (\<forall>w M. node_ok w \<longrightarrow> owned M w \<longrightarrow> queued_ok w \<longrightarrow> queued_ok (f w))"

definition fair :: "nat multiset \<Rightarrow> csp_node \<Rightarrow> nat multiset \<Rightarrow> csp_node \<Rightarrow> bool" where
  "fair M w M' w' \<longleftrightarrow>
     (node_ok w \<longrightarrow> queued_ok w \<longrightarrow> owned M w \<longrightarrow>
        node_ok w' \<and> queued_ok w' \<and> owned M' w' \<and> nd_ports w' = nd_ports w)"

definition handle_ok :: "csp_node \<Rightarrow> pubsub_conn \<Rightarrow> bool" where
  "handle_ok w conn \<longleftrightarrow> (\<exists>c. conn_handle conn = Some c \<and> c < CSP_CONN_MAX \<and> \<not> bound w c)"

lemma handle_ok_cong: "nd_ports w' = nd_ports w \<Longrightarrow> handle_ok w' conn = handle_ok w conn"
  by (simp add: handle_ok_def bound_def)

lemma fair_trans: "fair M w M1 w1 \<Longrightarrow> fair M1 w1 M2 w2 \<Longrightarrow> fair M w M2 w2"
  by (simp add: fair_def)

lemma fair_refl: "fair M w M w"
  by (simp add: fair_def)

lemma keeps_fair: "keeps M w M' w' \<Longrightarrow> fair M w M' w'"
  using queued_ok_cong [of w' w] by (simp add: keeps_def fair_def)

lemma tasks_fair: "tasks_fair f \<Longrightarrow> fair M w M (f w)"
  unfolding tasks_fair_def tasks_ok_def fair_def by blast

lemma connect_fair:
  assumes "kprv_subscriber_connect fuel address port w = Some (b, conn, w')" "CSP_CONN_MAX < fuel" "node_ok w"
  shows "fair M w M w' \<and> (b \<longrightarrow> handle_ok w' conn)"
proof -
  have o: "(0 :: u32) AND CSP_SO_RDPREQ = 0" by simp
  obtain r where c: "csp_connect fuel CSP_PRIO_NORM address port 0 w = Some (r, w')" "b \<longrightarrow> (\<exists>k. r = Some k \<and> conn_handle conn = Some k)"
    using assms(1) by (auto simp: kprv_subscriber_connect_def split: option.splits)
  have "nd_ports w' = nd_ports w \<and> nd_queues w' = nd_queues w"
    using c(1) by (cases rule: csp_connect_cases [OF assms(3) o assms(2), of CSP_PRIO_NORM address port]) auto
  moreover have "node_ok w' \<and> owned M w' \<and> (\<forall>k. r = Some k \<longrightarrow> k < CSP_CONN_MAX \<and> \<not> bound w' k)" if "owned M w" for M
    using csp_connect_opens [OF assms(3) that o assms(2), of CSP_PRIO_NORM address port] c(1) by auto
  moreover have "\<forall>k. r = Some k \<longrightarrow> k < CSP_CONN_MAX \<and> \<not> bound w' k"
    using c(1) by (cases rule: csp_connect_cases [OF assms(3) o assms(2), of CSP_PRIO_NORM address port])
      (use bound_not_free [OF assms(3)] in \<open>auto simp: bound_def\<close>)
  ultimately show ?thesis using c(2) queued_ok_cong [of w' w] by (auto simp: fair_def handle_ok_def)
qed

lemma close_fair: "handle_ok w conn \<Longrightarrow> fair M w M (snd (csp_close (conn_handle conn) w))"
proof -
  assume "handle_ok w conn"
  then obtain c where c: "conn_handle conn = Some c" "c < CSP_CONN_MAX" "\<not> bound w c" by (auto simp: handle_ok_def)
  have f: "nd_queues (snd (csp_close (Some c) w)) = nd_queues w" "nd_ports (snd (csp_close (Some c) w)) = nd_ports w"
    by (simp_all add: csp_close_def csp_conn_flush_eq)
  then show ?thesis
    using c csp_close_ok [of w "Some c"] csp_close_owned [of w M "Some c"] queued_ok_cong [OF f] by (simp add: fair_def)
qed

lemma dequeue_conn:
  assumes "sock_dequeue q w = (Some (ItemConn c), w')" "q < length (nd_queues w)"
  shows "fair M w M w' \<and> (queued_ok w \<longrightarrow> c < CSP_CONN_MAX \<and> \<not> bound w' c)"
proof -
  let ?s = "nd_queues w ! q"
  obtain rest where r: "sq_items ?s = ItemConn c # rest" "w' = w\<lparr>nd_queues := (nd_queues w)[q := ?s\<lparr>sq_items := rest\<rparr>]\<rparr>"
    using assms(1) by (auto simp: sock_dequeue_def split: list.splits)
  have s: "?s \<in> set (nd_queues w)" using assms(2) by simp
  have "sum_list (map sock_refs (nd_queues w')) = sum_list (map sock_refs (nd_queues w))"
    using sum_list_map_update [OF assms(2), of sock_refs "?s\<lparr>sq_items := rest\<rparr>"] r by (simp add: sock_refs_def)
  then have "owned M w' = owned M w" by (simp add: owned_def refs_def r(2))
  moreover have "node_ok w' = node_ok w" by (simp add: node_ok_def r(2) bound_def)
  moreover have b: "bound w' = bound w" by (simp add: r(2) bound_def fun_eq_iff)
  moreover have "queued_ok w'" if "queued_ok w"
  proof -
    have "k < CSP_CONN_MAX \<and> \<not> bound w k" if "x \<in> set (nd_queues w')" "ItemConn k \<in> set (sq_items x)" for x k
    proof -
      have "x \<in> set (nd_queues w) \<or> x = ?s\<lparr>sq_items := rest\<rparr>"
        using that(1) set_update_subset_insert [of "nd_queues w" q] by (auto simp: r(2))
      then show ?thesis using that(2) \<open>queued_ok w\<close> s r(1) unfolding queued_ok_def by (metis list.set_intros(2) sock_queue.select_convs(2) sock_queue.surjective sock_queue.update_convs(2))
    qed
    then show ?thesis by (simp add: queued_ok_def b)
  qed
  moreover have "c < CSP_CONN_MAX \<and> \<not> bound w c" if "queued_ok w" using that s r(1) by (auto simp: queued_ok_def)
  ultimately show ?thesis by (simp add: fair_def r(2))
qed

lemma accept_fair:
  assumes "kprv_server_accept f (Some k) w = Some (r, w')" "tasks_fair f" "k < CSP_CONN_MAX"
    "node_ok w" "queued_ok w" "owned M w"
  shows "fair M w M w' \<and> (\<forall>conn. r = Some conn \<longrightarrow> handle_ok w' conn)"
proof -
  let ?w = "f w"
  have f: "node_ok ?w" "queued_ok ?w" "owned M ?w" "nd_ports ?w = nd_ports w"
    using tasks_fair [OF assms(2), of M w] assms(4-6) by (simp_all add: fair_def)
  obtain x w1 where a: "csp_accept (Some k) ?w = (x, w1)" by fastforce
  show ?thesis
  proof (cases x)
    case None
    then have "w1 = ?w" using a by (auto simp: csp_accept_def sock_dequeue_def split: option.splits list.splits)
    then show ?thesis using assms(1) a None tasks_fair [OF assms(2)] by (auto simp: kprv_server_accept_def)
  next
    case (Some y)
    then obtain c where c: "x = Some (ItemConn c)" "r = Some \<lparr>conn_handle = Some c\<rparr>" "w' = w1"
      using assms(1) a by (cases y) (auto simp: kprv_server_accept_def)
    then obtain q where q: "cn_socket (nd_conns ?w ! k) = Some q" "sock_dequeue q ?w = (Some (ItemConn c), w1)"
      using a by (auto simp: csp_accept_def split: option.splits)
    note d = dequeue_conn [OF q(2) conn_socket_valid [OF f(1) assms(3) q(1)], of M]
    have "fair M w M w1" using fair_trans [OF tasks_fair [OF assms(2)]] d by blast
    then show ?thesis using d f(2) c by (simp add: handle_ok_def)
  qed
qed

context csp_interface begin

lemma send_csp_keeps:
  assumes "kprv_send_csp nh nonce conn data w = Some (ok, w')"
  shows "keeps M w M w'"
proof (cases "\<exists>c bs. conn \<bind> conn_handle = Some c \<and> data = Some bs \<and> bs \<noteq> []")
  case False
  then have "w' = w" using assms by (auto simp: kprv_send_csp_def split: option.splits if_splits)
  then show ?thesis by (simp add: keeps_refl)
next
  case True
  then obtain c bs where c: "conn \<bind> conn_handle = Some c" "data = Some bs" "bs \<noteq> []" by blast
  obtain r pool where g: "csp_buffer_get (length bs) (nd_pool w) = (r, pool)" by fastforce
  note k = get_keeps [OF g, of M]
  show ?thesis
  proof (cases r)
    case None
    then show ?thesis using assms c g k by (simp add: kprv_send_csp_def in_hand_def)
  next
    case (Some p)
    then obtain w1 ok' w2 where s: "set_data p bs (w\<lparr>nd_pool := pool\<rparr>) = Some w1" "csp_send nh nonce (Some c) (Some p) w1 = Some (ok', w2)"
        "w' = (if ok' = 0 then free_packet (Some p) w2 else w2)"
      using assms c g by (auto simp: kprv_send_csp_def split: option.splits if_splits)
    then have "send_or_free nh nonce c p w1 = Some w'" by (simp add: send_or_free_def)
    from keeps_trans [OF k] keeps_trans [OF set_data_keeps [OF s(1)] send_or_free_keeps [OF this]] Some
    show ?thesis by (simp add: in_hand_def)
  qed
qed

lemma read_fair:
  assumes "kprv_read endpoint env stale nh nonces f conn n port s = Some (r, s')" "tasks_fair f"
    "\<And>c. conn \<bind> conn_handle = Some c \<Longrightarrow> c < CSP_CONN_MAX"
  shows "fair M (sy_node s) M (sy_node s')"
proof (cases "conn \<bind> conn_handle")
  case None
  then show ?thesis using assms(1) by (simp add: kprv_read_def fair_refl)
next
  case (Some c)
  let ?w = "f (sy_node s)"
  obtain q w1 where rd: "csp_read (Some c) ?w = (q, w1)" by fastforce
  have "nd_queues w1 = nd_queues ?w" using rd by (auto simp: csp_read_def split: list.splits if_splits)
  then have "queued_ok w1 = queued_ok ?w" using csp_read_ports [OF rd] queued_ok_cong by blast
  then have w1: "fair M (sy_node s) (in_hand q M) w1"
    using tasks_fair [OF assms(2), of M "sy_node s"] csp_read_keeps [OF rd _ _ assms(3) [OF Some], of M] csp_read_ports [OF rd]
    by (auto simp: fair_def in_hand_def)
  show ?thesis
  proof (cases q)
    case None
    then have "sy_node s' = w1" using assms(1) Some rd by (auto simp: kprv_read_def)
    then show ?thesis using w1 None by (simp add: in_hand_def)
  next
    case q: (Some p)
    have "fair (add_mset p M) w1 M (sy_node s')"
    proof (cases "endpoint (nd_conns w1 ! c) = port")
      case True
      then have "sy_node s' = free_packet (Some p) w1" using assms(1) Some rd q by (auto simp: kprv_read_def)
      then show ?thesis using keeps_fair [OF free_packet_keeps] by simp
    next
      case False
      then have "csp_service_handler env stale nh nonces c p (s\<lparr>sy_node := w1\<rparr>) = Some s'" using assms(1) Some rd q by (auto simp: kprv_read_def)
      from service_handler_keeps [OF this, of M] keeps_fair show ?thesis by fastforce
    qed
    then show ?thesis using fair_trans [OF w1] q by (simp add: in_hand_def)
  qed
qed

lemma router_tasks_fair: "tasks_fair (router nonce ^^ n)"
proof -
  have "queued_ok ((router nonce ^^ n) w)" if "node_ok w" "owned M w" "queued_ok w" for w M
  proof (induction n)
    case (Suc n)
    let ?w = "(router nonce ^^ n) w"
    have "node_ok ?w" using router_tasks_ok [where nonce = nonce and n = n] that(1,2) by (auto simp: tasks_ok_def)
    then have "queued_ok (router nonce ?w)" using Suc.IH route_work_queued [of nonce ?w]
      by (auto simp: router_def [where nonce = nonce and w = ?w] split: option.splits)
    then show ?case by simp
  qed (use that in simp)
  then show ?thesis using router_tasks_ok by (auto simp: tasks_fair_def)
qed

end

section \<open>The start\<close>

text \<open>\<open>csp_init\<close> on a node whose memory is cleared, with a pool nothing is taken from.\<close>

lemma csp_init_ok:
  assumes "pool_ok pool" "live pool = {}"
  shows "node_ok (snd (csp_init a r (start_node pool)))" "owned {#} (snd (csp_init a r (start_node pool)))"
    "\<forall>q \<in> set (nd_queues (snd (csp_init a r (start_node pool)))). sq_items q = []"
proof -
  let ?w = "(csp_conn_init r (csp_set_address a (start_node pool)))\<lparr>nd_ports := csp_port_init, nd_iflist := [CSP_IF_LO]\<rparr>"
  have c: "csp_conn_init r (csp_set_address a w) = (csp_conn_init r w)\<lparr>nd_address := a\<rparr>" for w
    by (simp add: csp_conn_init_def csp_set_address_def)
  have p: "nd_ports (csp_conn_init r (start_node pool)) = csp_port_init" by (simp add: csp_conn_init_def start_node_def)
  have st: "static_ok ([CSP_IF_LO], static_clear)" by (auto simp: static_ok_def static_clear_def)
  have i: "nd_iflist (csp_conn_init r (start_node pool)) = []" "nd_ifaces (csp_conn_init r (start_node pool)) = [csp_if_lo]"
      "nd_routes (csp_conn_init r (start_node pool)) = static_clear" "nd_queues (csp_conn_init r (start_node pool)) = []"
    by (simp_all add: csp_conn_init_def start_node_def)
  have ok: "node_ok ?w" "owned {#} ?w"
    using csp_conn_init_ok [of r pool] csp_conn_init_owned [OF assms, of r] st unfolding c
    by (simp_all add: node_ok_def bound_def p i CSP_IF_LO_def owned_def refs_def)
  obtain e1 w1 where r1: "csp_route_set a (Some CSP_IF_LO) CSP_NODE_MAC ?w = (e1, w1)" by fastforce
  obtain e2 w2 where r2: "csp_route_set (of_nat CSP_DEFAULT_ROUTE) (Some CSP_IF_LO) CSP_NODE_MAC w1 = (e2, w2)" by fastforce
  have l: "CSP_IF_LO < length (nd_ifaces ?w)" by (simp add: c i CSP_IF_LO_def)
  note w1 = csp_route_set_keeps [OF r1 ok l]
  have l1: "nd_ifaces w1 = nd_ifaces ?w" using r1 by (auto simp: csp_route_set_def split: prod.splits)
  note w2 = csp_route_set_keeps [OF r2, of "{#}"]
  have "snd (csp_init a r (start_node pool)) = w2"
    using r1 r2 by (simp add: csp_init_def Let_def c i)
  then show "node_ok (snd (csp_init a r (start_node pool)))" "owned {#} (snd (csp_init a r (start_node pool)))"
    "\<forall>q \<in> set (nd_queues (snd (csp_init a r (start_node pool)))). sq_items q = []"
    using w1 w2 l l1 by (simp_all add: c i)
qed

lemma socket_fresh:
  assumes "csp_socket m IPC_SO_NONE w = (Some k, w')" "node_ok w" "owned M w"
  shows "node_ok w' \<and> owned M w' \<and> k < CSP_CONN_MAX \<and> \<not> bound w' k \<and> nd_queues w' = nd_queues w \<and> nd_ports w' = nd_ports w \<and>
    cn_open (nd_conns w' ! k) \<and> cn_type (nd_conns w' ! k) = CONN_SERVER \<and> cn_opts (nd_conns w' ! k) = 0"
proof (cases rule: csp_conn_allocate_cases [OF assms(2), of CONN_SERVER])
  case 1
  then show ?thesis using assms(1) by (simp add: csp_socket_def IPC_SO_NONE_def)
next
  case (2 i)
  let ?cn = "(nd_conns w ! i)\<lparr>cn_open := True, cn_type := CONN_SERVER, cn_socket := None, cn_opts := 0\<rparr>"
  have len: "length (nd_conns w) = CSP_CONN_MAX" using assms(2) by (simp add: node_ok_def)
  have w': "k = i" "w' = set_conn i ?cn (w\<lparr>nd_last_given := i\<rparr>)"
    using assms(1) 2 len by (auto simp: csp_socket_def IPC_SO_NONE_def)
  have b: "\<not> bound w i" by (rule bound_not_free [OF assms(2) 2(2)])
  have n: "node_ok (w\<lparr>nd_last_given := i\<rparr>)" "owned M (w\<lparr>nd_last_given := i\<rparr>)"
    using assms(2,3) by (simp_all add: node_ok_def bound_def owned_def refs_def)
  have "node_ok w'" unfolding w'(2) using 2(1) b
    by (intro node_ok_set_conn n) (simp_all add: open_client_def bound_def)
  moreover have "owned M w'" unfolding w'(2) using 2(1) len by (intro owned_set_conn n) (simp_all add: rx_refs_def assms(3))
  ultimately show ?thesis using 2(1) b len w' by (simp add: bound_def)
qed

lemma bind_fresh:
  assumes "node_bind (Some k) port w = (e, w')" "node_ok w" "owned M w" "k < CSP_CONN_MAX" "server_ok (nd_conns w ! k)"
  shows "node_ok w' \<and> owned M w' \<and> nd_queues w' = nd_queues w \<and> nd_conns w' = nd_conns w \<and>
    (\<forall>c. bound w' c \<longrightarrow> bound w c \<or> c = k)"
proof -
  obtain ps where ps: "csp_bind (Some k) port (nd_ports w) = (e, ps)" "w' = w\<lparr>nd_ports := ps\<rparr>"
    using assms(1) by (auto simp: node_bind_def split: prod.splits)
  have "ports_ok ps" using csp_bind_ok [of "nd_ports w" "Some k" port] assms(2) ps(1) by (simp add: node_ok_def)
  moreover have b: "\<forall>c. bound w' c \<longrightarrow> bound w c \<or> c = k"
    using ps by (auto simp: csp_bind_def bound_def split: if_splits dest!: set_update_subset_insert [THEN subsetD])
  moreover have "node_ok w'" using assms(2,4,5) b calculation(1) by (auto simp: node_ok_def ps(2))
  ultimately show ?thesis using assms(3) by (simp add: ps(2) owned_def refs_def)
qed

lemma listen_fresh:
  assumes "csp_listen m (Some k) n w = (e, w')" "node_ok w" "owned M w" "k < CSP_CONN_MAX"
    "cn_type (nd_conns w ! k) = CONN_SERVER" "server_ok (nd_conns w ! k)" "cn_opts (nd_conns w ! k) = 0"
  shows "node_ok w' \<and> owned M w' \<and> nd_ports w' = nd_ports w \<and>
    (\<forall>q \<in> set (nd_queues w'). q \<in> set (nd_queues w) \<or> sq_items q = [])"
proof -
  obtain q w1 where q: "csp_queue_create m n w = (q, w1)" by fastforce
  have len: "length (nd_conns w) = CSP_CONN_MAX" using assms(2) by (simp add: node_ok_def)
  let ?cn = "(nd_conns w ! k)\<lparr>cn_socket := q\<rparr>"
  define qs where "qs = (if m then [\<lparr>sq_length = n, sq_items = []\<rparr>] else [])"
  have e: "w1 = w\<lparr>nd_queues := nd_queues w @ qs\<rparr>" "q = (if m then Some (length (nd_queues w)) else None)"
    using q by (auto simp: csp_queue_create_def qs_def split: if_splits)
  have o: "owned M w1" using assms(3) by (simp add: e(1) owned_def refs_def sock_refs_def qs_def)
  have "\<forall>cn \<in> set (nd_conns w). \<forall>x. cn_socket cn = Some x \<longrightarrow> x < length (nd_queues w1)"
    using assms(2) by (auto simp: node_ok_def e(1) intro: trans_less_add1)
  then have nok: "node_ok w1" using assms(2) by (simp add: e(1) node_ok_def bound_def)
  have w1: "node_ok w1" "owned M w1" "nd_conns w1 = nd_conns w" "nd_ports w1 = nd_ports w"
      "\<And>x. q = Some x \<Longrightarrow> x < length (nd_queues w1)" "\<forall>x \<in> set (nd_queues w1). x \<in> set (nd_queues w) \<or> sq_items x = []"
    using o nok by (auto simp: e qs_def split: if_splits)
  have w': "w' = set_conn k ?cn w1" using assms(1) q w1(3) by (auto simp: csp_listen_def Let_def split: if_splits)
  have "node_ok w'" unfolding w' using assms(4-7) w1(5)
    by (intro node_ok_set_conn w1(1)) (auto simp: server_ok_def open_client_def)
  moreover have "owned M w'" unfolding w' using assms(4) len w1(3) by (intro owned_set_conn) (simp_all add: rx_refs_def o)
  ultimately show ?thesis using w1(4,6) by (simp add: w')
qed

lemma server_setup_ok:
  assumes "kprv_server_setup m port n w = (r, w')" "node_ok w" "owned M w" "\<forall>q \<in> set (nd_queues w). sq_items q = []"
  shows "node_ok w' \<and> owned M w' \<and> queued_ok w' \<and> (\<forall>k. r = Some k \<longrightarrow> k < CSP_CONN_MAX)"
proof -
  have empty: "queued_ok v" if "\<forall>q \<in> set (nd_queues v). q \<in> set (nd_queues w) \<or> sq_items q = []" for v
    using that assms(4) unfolding queued_ok_def by fastforce
  obtain s w1 where s: "csp_socket m IPC_SO_NONE w = (s, w1)" by fastforce
  show ?thesis
  proof (cases s)
    case None
    have "w1 = w" using s None unfolding csp_socket_def
      by (cases rule: csp_conn_allocate_cases [OF assms(2), of CONN_SERVER]) (auto simp: IPC_SO_NONE_def)
    then have "r = None \<and> w' = w" using assms(1) s None by (simp add: kprv_server_setup_def)
    then show ?thesis using assms(2,3) empty by simp
  next
    case (Some k)
    note f = socket_fresh [OF s [unfolded Some] assms(2,3)]
    have srv: "server_ok (nd_conns w1 ! k)" using f by (simp add: server_ok_def)
    obtain e2 w2 where b: "node_bind (Some k) port w1 = (e2, w2)" by fastforce
    note g = bind_fresh [OF b _ _ _ srv, of M] f
    obtain e3 w3 where l: "csp_listen m (Some k) n w2 = (e3, w3)" by fastforce
    note h = listen_fresh [OF l, of M] g
    have "queued_ok w2" "queued_ok w3" using empty g h srv by auto
    then show ?thesis using assms(1) s Some b l g h srv by (auto simp: kprv_server_setup_def split: if_splits)
  qed
qed

section \<open>A block from one side to the other\<close>

text \<open>The two ends \<open>k\<close> and \<open>c\<close> of a connection inside the node, over the loopback interface.\<close>

definition linked :: "csp_node \<Rightarrow> nat \<Rightarrow> nat \<Rightarrow> bool" where
  "linked w k c \<longleftrightarrow>
     (let i = cn_idout (nd_conns w ! k); cn = nd_conns w ! c
      in cn_open (nd_conns w ! k) \<and> c < CSP_CONN_MAX \<and> open_client cn \<and> cn_socket cn = None \<and>
         cn_idin cn AND CSP_ID_CONN_MASK = i AND CSP_ID_CONN_MASK \<and> id_dst i = nd_address w \<and> id_src i = nd_address w \<and>
         \<not> has_flag CSP_FRDP i \<and> csp_port_get_socket (unat (id_dport i)) (nd_ports w) = None \<and>
         (cn_opts cn AND CSP_SO_XTEAREQ = 0 \<or> has_flag CSP_FXTEA i) \<and> (cn_opts cn AND CSP_SO_HMACREQ = 0 \<or> has_flag CSP_FHMAC i) \<and>
         node_find_iface (id_dst i) w = Some (Some CSP_IF_LO) \<and> if_mtu (nd_ifaces w ! CSP_IF_LO) = 0)"

lemma linked_delivers:
  assumes "node_ok w" "owned M w" "linked w k c" "nd_qfifo w = []" "length (cn_rx_queue (nd_conns w ! c)) < CSP_RX_QUEUE_LENGTH"
    "bs \<noteq> []" "csp_buffer_get (length bs) (nd_pool w) = (Some p, pool)" "length bs + 12 \<le> pkt_cap (buf_packet (nd_pool w) p)"
  shows "\<exists>w1 w2. kprv_send_csp lo_nexthop nonce (Some \<lparr>conn_handle = Some k\<rparr>) (Some bs) w = Some (True, w1) \<and>
    csp_route_work lo_nexthop nonce' w1 = Some (0, w2) \<and> pkt_data (buf_packet (nd_pool w2) p) = bs \<and>
    pkt_cap (buf_packet (nd_pool w2) p) = pkt_cap (buf_packet (nd_pool w) p) \<and>
    nd_conns w2 = (nd_conns w)[c := (nd_conns w ! c)\<lparr>cn_rx_queue := cn_rx_queue (nd_conns w ! c) @ [Some p]\<rparr>] \<and>
    nd_ports w2 = nd_ports w \<and> nd_conns w1 = nd_conns w \<and> node_ok w1 \<and> owned M w1 \<and> node_ok w2 \<and> owned M w2"
proof -
  let ?i = "cn_idout (nd_conns w ! k)" and ?w = "w\<lparr>nd_pool := pool\<rparr>"
  note link = assms(3) [unfolded linked_def Let_def]
  have ok: "node_ok ?w" "owned (add_mset p M) ?w" "pool_ok (nd_pool w)"
    using csp_buffer_get_keeps [OF assms(7,1,2)] assms(2) by (simp_all add: owned_def)
  note got = csp_buffer_get_Some [OF ok(3) assms(7)]
  let ?pk = "(buf_packet pool p)\<lparr>pkt_data := bs\<rparr>" and ?v = "put_packet p ((buf_packet pool p)\<lparr>pkt_data := bs\<rparr>) ?w"
  have cap: "length bs + 12 \<le> pkt_cap ?pk" using assms(8) got(7) by simp
  have sd: "set_data p bs ?w = Some ?v" using cap by (simp add: set_data_def Let_def)
  have w0: "node_ok ?v" "owned (add_mset p M) ?v" using ok by (simp_all add: owned_put_packet)
  have b: "buf_packet (nd_pool ?v) p = ?pk" using got(2,5) by (simp add: put_packet_def buf_packet_set_packet got(4))
  obtain w1 pk' where w1: "csp_send lo_nexthop nonce (Some k) (Some p) ?v = Some (1, w1)"
      "send_security (nd_hmac_key w) (nd_xtea_key w) nonce ?i (?pk\<lparr>pkt_id := ?i\<rparr>) = Some (CSP_ERR_NONE, Some pk')"
      "buf_packet (nd_pool w1) p = pk'" "nd_qfifo w1 = [(p, CSP_IF_LO)]" "nd_conns w1 = nd_conns w" "nd_ports w1 = nd_ports w"
      "nd_queues w1 = nd_queues w" "nd_address w1 = nd_address w" "nd_hmac_key w1 = nd_hmac_key w" "nd_xtea_key w1 = nd_xtea_key w"
      "node_ok w1" "owned M w1"
    using send_loopback [OF w0(1,2), of k nonce] link assms(4) cap b by (auto simp: pkt_length_def node_find_iface_def)
  have hk: "nd_hmac_key w \<noteq> []" using assms(1) by (simp add: node_ok_def)
  have l: "pkt_length (?pk\<lparr>pkt_id := ?i\<rparr>) + 12 \<le> pkt_cap (?pk\<lparr>pkt_id := ?i\<rparr>)" using cap by (simp add: pkt_length_def)
  have id': "pkt_id pk' = ?i" using send_security_eq [OF hk l] w1(2) by auto
  have sec: "security_check (nd_hmac_key w1) (nd_xtea_key w1) (cn_opts (nd_conns w1 ! c)) (nd_ifaces w1 ! CSP_IF_LO)
      (buf_packet (nd_pool w1) p) = Some (CSP_ERR_NONE, nd_ifaces w1 ! CSP_IF_LO, ?pk\<lparr>pkt_id := ?i\<rparr>)"
    using security_check_restores [OF _ hk l w1(2), of "cn_opts (nd_conns w ! c)"] link w1 by simp
  obtain w2 where w2: "csp_route_work lo_nexthop nonce' w1 = Some (0, w2)" "buf_packet (nd_pool w2) p = ?pk\<lparr>pkt_id := ?i\<rparr>"
      "nd_conns w2 = (nd_conns w1)[c := (nd_conns w1 ! c)\<lparr>cn_rx_queue := cn_rx_queue (nd_conns w1 ! c) @ [Some p]\<rparr>]"
    using route_work_connection [OF w1(11,12,4) _ _ _ _ _ _ _ _ sec, of lo_nexthop nonce'] link assms(5) w1 id' by auto
  have "kprv_send_csp lo_nexthop nonce (Some \<lparr>conn_handle = Some k\<rparr>) (Some bs) w = Some (True, w1)"
    using assms(6,7) sd w1(1) by (simp add: kprv_send_csp_def)
  moreover have "node_ok w2 \<and> owned M w2" by (rule lo.route_work_keeps [OF w2(1) w1(11,12)])
  moreover have "nd_ports w2 = nd_ports w" using lo.route_work_ports [OF w2(1)] w1(6) by simp
  ultimately show ?thesis using w1 w2 got(7) by auto
qed

end
