(* ===== verification/KTelemetry.thy ===== *)
theory KTelemetry
  imports KPubsub
begin

text \<open>
  The telemetry service (\<open>services/telemetry/telemetry-rt/source/telemetry.c\<close>): tasks publish packets, the service
  sends each one to the subscribers of its topic over the network of the node.

  The state is the node, the list of subscribers, the queue of published packets and the socket.  A list item
  has the address \<open>malloc\<close> gave it; the pointer a client holds is to the \<open>client_conn\<close> of its item and stands
  for that value.  An empty list of topics is the null pointer.  Locks are left out: an operation runs as a
  whole, but for the waits inside it, where \<open>other_tasks\<close> run.
\<close>

section \<open>Data\<close>

definition TELEMETRY_CSP_ADDRESS :: u8 where "TELEMETRY_CSP_ADDRESS = 1"
definition TELEMETRY_INTERNAL_PORT :: u8 where "TELEMETRY_INTERNAL_PORT = 20"
definition MESSAGE_QUEUE_SIZE :: nat where "MESSAGE_QUEUE_SIZE = 10"
definition TELEMETRY_SUBSCRIBERS_MAX_NUM :: nat where "TELEMETRY_SUBSCRIBERS_MAX_NUM = CSP_CONN_MAX div 2 - 1"
definition TELEMETRY_SUBSCRIBER_READ_ATTEMPTS :: nat where "TELEMETRY_SUBSCRIBER_READ_ATTEMPTS = 10"

text \<open>The union is its four bytes.\<close>

record telemetry_packet =
  tp_topic_id :: u8
  tp_data_type :: u32
  tp_subsystem_id :: u8
  tp_data :: u32
  tp_timestamp :: u16

text \<open>The structure in memory, with four-byte enumerations; \<open>pad\<close> is what is between the members.\<close>

definition TELEMETRY_PACKET_SIZE :: nat where "TELEMETRY_PACKET_SIZE = 20"

definition telemetry_bytes :: "(nat \<Rightarrow> u8) \<Rightarrow> telemetry_packet \<Rightarrow> u8 list" where
  "telemetry_bytes pad pkt =
     [tp_topic_id pkt, pad 1, pad 2, pad 3] @ le32 (tp_data_type pkt) @ [tp_subsystem_id pkt, pad 9, pad 10, pad 11] @
     le32 (tp_data pkt) @ le16 (tp_timestamp pkt) @ [pad 18, pad 19]"

definition telemetry_of :: "u8 list \<Rightarrow> telemetry_packet" where
  "telemetry_of bs =
     \<lparr>tp_topic_id = bs ! 0, tp_data_type = of_le32 (take 4 (drop 4 bs)), tp_subsystem_id = bs ! 8,
      tp_data = of_le32 (take 4 (drop 12 bs)), tp_timestamp = of_le16 (take 2 (drop 16 bs))\<rparr>"

record subscriber_list_item =
  sub_address :: nat
  client_conn :: pubsub_conn
  server_conn :: pubsub_conn
  topics :: "u16 list"

record telemetry =
  tl_system :: csp_system
  subscribers :: "subscriber_list_item list"
  packet_queue :: "telemetry_packet list option"
  tl_socket :: "nat option"
  tl_malloc :: nat

section \<open>Start and end\<close>

text \<open>\<open>w\<close> is the node before; its interfaces are those of the program.  The debug levels and tasks are left out.\<close>

definition telemetry_init :: "bool \<Rightarrow> nat \<Rightarrow> csp_system \<Rightarrow> telemetry" where
  "telemetry_init mem_ok r s =
     (let w = (case csp_buffer_init mem_ok 20 256 of (_, None) \<Rightarrow> sy_node s | (_, Some pool) \<Rightarrow> (sy_node s)\<lparr>nd_pool := pool\<rparr>);
          w = snd (csp_init TELEMETRY_CSP_ADDRESS r w)
      in case kprv_server_setup mem_ok (unat TELEMETRY_INTERNAL_PORT) TELEMETRY_SUBSCRIBERS_MAX_NUM w of
           (socket, w) \<Rightarrow>
             \<lparr>tl_system = s\<lparr>sy_node := w\<rparr>, subscribers = [], packet_queue = (if mem_ok then Some [] else None),
              tl_socket = socket, tl_malloc = 0\<rparr>)"

definition close_both :: "subscriber_list_item \<Rightarrow> csp_node \<Rightarrow> csp_node" where
  "close_both sub w = snd (csp_close (conn_handle (client_conn sub)) (snd (csp_close (conn_handle (server_conn sub)) w)))"

definition telemetry_cleanup :: "telemetry \<Rightarrow> telemetry" where
  "telemetry_cleanup t =
     t\<lparr>tl_system := (tl_system t)\<lparr>sy_node := fold close_both (subscribers t) (sy_node (tl_system t))\<rparr>,
       subscribers := [], packet_queue := None\<rparr>"

section \<open>Topics\<close>

definition kprv_add_topic :: "bool \<Rightarrow> u16 \<Rightarrow> subscriber_list_item \<Rightarrow> bool \<times> subscriber_list_item" where
  "kprv_add_topic mem_ok topic_id sub = (if mem_ok then (True, sub\<lparr>topics := topics sub @ [topic_id]\<rparr>) else (False, sub))"

definition kprv_has_topic :: "u16 \<Rightarrow> subscriber_list_item \<Rightarrow> bool" where
  "kprv_has_topic topic_id sub \<longleftrightarrow> topics sub = [] \<or> topic_id \<in> set (topics sub)"

definition kprv_remove_topic :: "u16 \<Rightarrow> subscriber_list_item \<Rightarrow> bool \<times> subscriber_list_item" where
  "kprv_remove_topic topic_id sub =
     (if topic_id \<in> set (topics sub) then (True, sub\<lparr>topics := remove1 topic_id (topics sub)\<rparr>) else (False, sub))"

text \<open>The first subscriber with the handle of the client, as the index in the list.\<close>

definition kprv_get_subscriber :: "pubsub_conn \<Rightarrow> telemetry \<Rightarrow> nat option" where
  "kprv_get_subscriber client t = find_index (\<lambda>s. conn_handle client = conn_handle (client_conn s)) (subscribers t)"

definition telemetry_is_subscribed :: "pubsub_conn option \<Rightarrow> u16 \<Rightarrow> telemetry \<Rightarrow> bool" where
  "telemetry_is_subscribed client topic_id t =
     (case client of None \<Rightarrow> False
      | Some c \<Rightarrow> (case kprv_get_subscriber c t of None \<Rightarrow> False | Some k \<Rightarrow> kprv_has_topic topic_id (subscribers t ! k)))"

definition telemetry_subscribe :: "bool \<Rightarrow> pubsub_conn option \<Rightarrow> u16 \<Rightarrow> telemetry \<Rightarrow> bool \<times> telemetry" where
  "telemetry_subscribe mem_ok client topic_id t =
     (case client of None \<Rightarrow> (False, t)
      | Some c \<Rightarrow>
          (case kprv_get_subscriber c t of None \<Rightarrow> (False, t)
           | Some k \<Rightarrow> (case kprv_add_topic mem_ok topic_id (subscribers t ! k) of
                         (ret, sub) \<Rightarrow> (ret, t\<lparr>subscribers := (subscribers t)[k := sub]\<rparr>))))"

definition telemetry_unsubscribe :: "pubsub_conn option \<Rightarrow> u16 \<Rightarrow> telemetry \<Rightarrow> bool \<times> telemetry" where
  "telemetry_unsubscribe client topic_id t =
     (case client of None \<Rightarrow> (False, t)
      | Some c \<Rightarrow>
          (case kprv_get_subscriber c t of None \<Rightarrow> (False, t)
           | Some k \<Rightarrow> (case kprv_remove_topic topic_id (subscribers t ! k) of
                         (ret, sub) \<Rightarrow> (ret, t\<lparr>subscribers := (subscribers t)[k := sub]\<rparr>))))"

definition telemetry_num_subscribers :: "telemetry \<Rightarrow> nat" where
  "telemetry_num_subscribers t = length (subscribers t)"

section \<open>Connections\<close>

text \<open>The result of a failed \<open>malloc\<close> is the null pointer.\<close>

definition telemetry_add_subscriber ::
  "bool \<Rightarrow> pubsub_conn \<Rightarrow> pubsub_conn \<Rightarrow> telemetry \<Rightarrow> subscriber_list_item option \<times> telemetry" where
  "telemetry_add_subscriber mem_ok server client t =
     (if mem_ok then
        let new_sub = \<lparr>sub_address = tl_malloc t, client_conn = client, server_conn = server, topics = []\<rparr>
        in (Some new_sub, t\<lparr>subscribers := subscribers t @ [new_sub], tl_malloc := tl_malloc t + 1\<rparr>)
      else (None, t))"

definition set_node :: "csp_node \<Rightarrow> telemetry \<Rightarrow> telemetry" where
  "set_node w t = t\<lparr>tl_system := (tl_system t)\<lparr>sy_node := w\<rparr>\<rparr>"

abbreviation (input) node :: "telemetry \<Rightarrow> csp_node" where "node t \<equiv> sy_node (tl_system t)"

text \<open>The platform and the choices of one run: the random numbers, what is behind the data in a buffer,
  the byte \<open>msg\<close> that is sent without being set, whether memory can be allocated, and what the other tasks do in each wait.\<close>

record telemetry_env =
  te_platform :: csp_env
  te_stale :: "nat \<Rightarrow> u8"
  te_nonces :: "nat \<Rightarrow> u32"
  te_msg :: u8
  te_mem_ok :: bool
  te_fuel :: nat
  te_tasks :: "nat \<Rightarrow> csp_node \<Rightarrow> csp_node"

definition kprv_telemetry_connect :: "nexthop \<Rightarrow> telemetry_env \<Rightarrow> telemetry \<Rightarrow> (pubsub_conn option \<times> telemetry) option" where
  "kprv_telemetry_connect nh env t =
     (case kprv_subscriber_connect (te_fuel env) TELEMETRY_CSP_ADDRESS TELEMETRY_INTERNAL_PORT (node t) of
        None \<Rightarrow> None
      | Some (False, client, w) \<Rightarrow> Some (None, set_node w t)
      | Some (True, client, w) \<Rightarrow>
          (case kprv_send_csp nh (te_nonces env 0) (Some client) (Some [te_msg env]) w of
             None \<Rightarrow> None
           | Some (False, w) \<Rightarrow> Some (None, set_node w t)
           | Some (True, w) \<Rightarrow>
               (case kprv_server_accept (te_tasks env 0) (tl_socket t) w of
                  None \<Rightarrow> None
                | Some (None, w) \<Rightarrow> Some (None, set_node (snd (csp_close (conn_handle client) w)) t)
                | Some (Some server, w) \<Rightarrow>
                    (case kprv_publisher_read (te_platform env) (te_stale env) nh (te_nonces env) (te_tasks env 1)
                            (Some server) 1 TELEMETRY_INTERNAL_PORT ((tl_system t)\<lparr>sy_node := w\<rparr>) of
                       None \<Rightarrow> None
                     | Some (None, s) \<Rightarrow> Some (None, t\<lparr>tl_system := s\<rparr>)
                     | Some (Some _, s) \<Rightarrow>
                         (case telemetry_add_subscriber (te_mem_ok env) server client (t\<lparr>tl_system := s\<rparr>) of
                            (None, t) \<Rightarrow> None
                          | (Some sub, t) \<Rightarrow> Some (Some (client_conn sub), t))))))"

definition telemetry_connect :: "nexthop \<Rightarrow> telemetry_env \<Rightarrow> telemetry \<Rightarrow> (pubsub_conn option \<times> telemetry) option" where
  "telemetry_connect nh env t = kprv_telemetry_connect nh env t"

text \<open>The first subscriber whose server connection has no other side any more is deleted.\<close>

definition telemetry_disconnect :: "pubsub_conn option \<Rightarrow> telemetry \<Rightarrow> bool \<times> telemetry" where
  "telemetry_disconnect client t =
     (case client of None \<Rightarrow> (False, t)
      | Some c \<Rightarrow>
          (case csp_close (conn_handle c) (node t) of (e, w) \<Rightarrow>
             let t = set_node w t in
             if e \<noteq> CSP_ERR_NONE then (False, t)
             else (case find_index (\<lambda>s. csp_conn_check_alive (conn_handle (server_conn s)) w \<noteq> CSP_ERR_NONE) (subscribers t) of
                     None \<Rightarrow> (False, t)
                   | Some k \<Rightarrow>
                       (case csp_close (conn_handle (server_conn (subscribers t ! k))) w of (e, w) \<Rightarrow>
                          let t = set_node w t in
                          if e \<noteq> CSP_ERR_NONE then (False, t)
                          else (True, t\<lparr>subscribers := take k (subscribers t) @ drop (Suc k) (subscribers t)\<rparr>)))))"

section \<open>Packets\<close>

text \<open>The loop over the subscribers.\<close>

fun telemetry_send_loop ::
  "nexthop \<Rightarrow> (nat \<Rightarrow> u32) \<Rightarrow> u8 list \<Rightarrow> u16 \<Rightarrow> subscriber_list_item list \<Rightarrow> csp_node \<Rightarrow> csp_node option" where
  "telemetry_send_loop nh nonces bytes topic [] w = Some w"
| "telemetry_send_loop nh nonces bytes topic (sub # subs) w =
     (if kprv_has_topic topic sub
      then (case kprv_send_csp nh (nonces (length subs)) (Some (server_conn sub)) (Some bytes) w of
              None \<Rightarrow> None
            | Some (_, w) \<Rightarrow> telemetry_send_loop nh nonces bytes topic subs w)
      else telemetry_send_loop nh nonces bytes topic subs w)"

definition telemetry_send :: "nexthop \<Rightarrow> telemetry_env \<Rightarrow> (nat \<Rightarrow> u8) \<Rightarrow> telemetry_packet \<Rightarrow> telemetry \<Rightarrow> telemetry option" where
  "telemetry_send nh env pad pkt t =
     map_option (\<lambda>w. set_node w t)
       (telemetry_send_loop nh (te_nonces env) (telemetry_bytes pad pkt) (ucast (tp_topic_id pkt)) (subscribers t) (node t))"

text \<open>One round of the task that sends: it waits while the queue is empty.\<close>

definition telemetry_rx_task :: "nexthop \<Rightarrow> telemetry_env \<Rightarrow> (nat \<Rightarrow> u8) \<Rightarrow> telemetry \<Rightarrow> telemetry option" where
  "telemetry_rx_task nh env pad t =
     (case packet_queue t of
        Some (pkt # rest) \<Rightarrow> telemetry_send nh env pad pkt (t\<lparr>packet_queue := Some rest\<rparr>)
      | _ \<Rightarrow> Some t)"

text \<open>Publishing waits while the queue is full, the result \<open>None\<close>.\<close>

definition telemetry_publish :: "telemetry_packet \<Rightarrow> telemetry \<Rightarrow> (bool \<times> telemetry) option" where
  "telemetry_publish pkt t =
     (case packet_queue t of
        None \<Rightarrow> Some (False, t)
      | Some q \<Rightarrow> if length q < MESSAGE_QUEUE_SIZE then Some (True, t\<lparr>packet_queue := Some (q @ [pkt])\<rparr>) else None)"

fun telemetry_read_loop :: "nat \<Rightarrow> nexthop \<Rightarrow> telemetry_env \<Rightarrow> pubsub_conn option \<Rightarrow> csp_system \<Rightarrow> (telemetry_packet option \<times> csp_system) option" where
  "telemetry_read_loop 0 nh env conn s = Some (None, s)"
| "telemetry_read_loop (Suc n) nh env conn s =
     (case kprv_subscriber_read (te_platform env) (te_stale env) nh (te_nonces env) (te_tasks env n) conn TELEMETRY_PACKET_SIZE
             TELEMETRY_INTERNAL_PORT s of
        None \<Rightarrow> None
      | Some (Some bs, s) \<Rightarrow> Some (Some (telemetry_of bs), s)
      | Some (None, s) \<Rightarrow> telemetry_read_loop n nh env conn s)"

definition telemetry_read :: "nexthop \<Rightarrow> telemetry_env \<Rightarrow> pubsub_conn option \<Rightarrow> telemetry \<Rightarrow> (telemetry_packet option \<times> telemetry) option" where
  "telemetry_read nh env conn t =
     map_option (\<lambda>(pkt, s). (pkt, t\<lparr>tl_system := s\<rparr>))
       (telemetry_read_loop TELEMETRY_SUBSCRIBER_READ_ATTEMPTS nh env conn (tl_system t))"


section \<open>The invariant\<close>

definition telemetry_ok :: "telemetry \<Rightarrow> bool" where
  "telemetry_ok t \<longleftrightarrow>
     node_ok (node t) \<and> queued_ok (node t) \<and> owned {#} (node t) \<and> (\<forall>k. tl_socket t = Some k \<longrightarrow> k < CSP_CONN_MAX) \<and>
     (\<forall>s \<in> set (subscribers t). handle_ok (node t) (client_conn s) \<and> handle_ok (node t) (server_conn s) \<and>
        sub_address s < tl_malloc t) \<and>
     distinct (map sub_address (subscribers t)) \<and> (\<forall>q. packet_queue t = Some q \<longrightarrow> length q \<le> MESSAGE_QUEUE_SIZE)"

definition telemetry_env_ok :: "telemetry_env \<Rightarrow> bool" where
  "telemetry_env_ok env \<longleftrightarrow> CSP_CONN_MAX < te_fuel env \<and> (\<forall>n. tasks_fair (te_tasks env n))"

text \<open>What the clients, the service and the rest of the node do.  A client passes the connection it got.\<close>

inductive telemetry_step :: "nexthop \<Rightarrow> telemetry \<Rightarrow> telemetry \<Rightarrow> bool" for nh where
  connect: "telemetry_env_ok env \<Longrightarrow> telemetry_connect nh env t = Some (r, t') \<Longrightarrow> telemetry_step nh t t'"
| disconnect: "(\<forall>c. client = Some c \<longrightarrow> handle_ok (node t) c) \<Longrightarrow> telemetry_step nh t (snd (telemetry_disconnect client t))"
| subscribe: "telemetry_step nh t (snd (telemetry_subscribe m client topic t))"
| unsubscribe: "telemetry_step nh t (snd (telemetry_unsubscribe client topic t))"
| publish: "telemetry_publish pkt t = Some (r, t') \<Longrightarrow> telemetry_step nh t t'"
| send: "telemetry_rx_task nh env pad t = Some t' \<Longrightarrow> telemetry_step nh t t'"
| read: "telemetry_env_ok env \<Longrightarrow> (\<forall>c. client = Some c \<longrightarrow> handle_ok (node t) c) \<Longrightarrow> telemetry_read nh env client t = Some (r, t') \<Longrightarrow>
    telemetry_step nh t t'"
| others: "tasks_fair f \<Longrightarrow> telemetry_step nh t (set_node (f (node t)) t)"

text \<open>A change of the node only.\<close>

lemma telemetry_ok_node:
  assumes "telemetry_ok t" "fair {#} (node t) {#} w"
  shows "telemetry_ok (set_node w t)"
proof -
  have f: "node_ok w" "queued_ok w" "owned {#} w" "nd_ports w = nd_ports (node t)" using assms by (simp_all add: telemetry_ok_def fair_def)
  then show ?thesis using assms(1) handle_ok_cong [OF f(4)] by (simp add: telemetry_ok_def set_node_def)
qed

lemma telemetry_ok_system:
  assumes "telemetry_ok t" "fair {#} (node t) {#} (sy_node s)"
  shows "telemetry_ok (t\<lparr>tl_system := s\<rparr>)"
proof -
  have f: "node_ok (sy_node s)" "queued_ok (sy_node s)" "owned {#} (sy_node s)" "nd_ports (sy_node s) = nd_ports (node t)"
    using assms by (simp_all add: telemetry_ok_def fair_def)
  then show ?thesis using assms(1) handle_ok_cong [OF f(4)] by (simp add: telemetry_ok_def)
qed

lemma telemetry_ok_topics:
  assumes "telemetry_ok t" "k < length (subscribers t)"
    "client_conn s = client_conn (subscribers t ! k)" "server_conn s = server_conn (subscribers t ! k)"
    "sub_address s = sub_address (subscribers t ! k)"
  shows "telemetry_ok (t\<lparr>subscribers := (subscribers t)[k := s]\<rparr>)"
proof -
  have "subscribers t ! k \<in> set (subscribers t)" using assms(2) by simp
  moreover have "map sub_address ((subscribers t)[k := s]) = map sub_address (subscribers t)"
    by (simp add: map_update assms(5)) (metis assms(2) list_update_id nth_map)
  ultimately show ?thesis
    using assms by (auto simp: telemetry_ok_def dest!: set_update_subset_insert [THEN subsetD])
qed

lemma get_subscriber_valid: "kprv_get_subscriber c t = Some k \<Longrightarrow> k < length (subscribers t)"
  using find_index_SomeD by (fastforce simp: kprv_get_subscriber_def)

lemma subscribe_ok: "telemetry_ok t \<Longrightarrow> telemetry_ok (snd (telemetry_subscribe m client topic t))"
  by (auto simp: telemetry_subscribe_def kprv_add_topic_def split: option.splits intro!: telemetry_ok_topics dest: get_subscriber_valid)

lemma unsubscribe_ok: "telemetry_ok t \<Longrightarrow> telemetry_ok (snd (telemetry_unsubscribe client topic t))"
  by (auto simp: telemetry_unsubscribe_def kprv_remove_topic_def split: option.splits intro!: telemetry_ok_topics dest: get_subscriber_valid)

lemma publish_ok: "telemetry_publish pkt t = Some (r, t') \<Longrightarrow> telemetry_ok t \<Longrightarrow> telemetry_ok t'"
  by (auto simp: telemetry_publish_def telemetry_ok_def split: option.splits if_splits)

lemma disconnect_ok:
  assumes "telemetry_ok t" "\<forall>c. client = Some c \<longrightarrow> handle_ok (node t) c"
  shows "telemetry_ok (snd (telemetry_disconnect client t))"
proof (cases client)
  case None
  then show ?thesis using assms(1) by (simp add: telemetry_disconnect_def)
next
  case (Some c)
  obtain e w where w: "csp_close (conn_handle c) (node t) = (e, w)" by fastforce
  let ?t = "set_node w t"
  have t: "telemetry_ok ?t" using telemetry_ok_node [OF assms(1) close_fair] assms(2) Some w by (metis snd_conv)
  show ?thesis
  proof (cases "e = CSP_ERR_NONE \<and> find_index (\<lambda>s. csp_conn_check_alive (conn_handle (server_conn s)) w \<noteq> CSP_ERR_NONE) (subscribers t) \<noteq> None")
    case False
    then show ?thesis using t Some w by (auto simp: telemetry_disconnect_def Let_def set_node_def)
  next
    case True
    then obtain k where k: "find_index (\<lambda>s. csp_conn_check_alive (conn_handle (server_conn s)) w \<noteq> CSP_ERR_NONE) (subscribers t) = Some k" by auto
    let ?s = "subscribers t ! k"
    obtain e2 w2 where w2: "csp_close (conn_handle (server_conn ?s)) w = (e2, w2)" by fastforce
    have m: "?s \<in> set (subscribers ?t)" using find_index_SomeD [OF k] by (simp add: set_node_def)
    then have "handle_ok (node ?t) (server_conn ?s)" using t by (auto simp: telemetry_ok_def)
    then have t2: "telemetry_ok (set_node w2 ?t)" using telemetry_ok_node [OF t close_fair] w2 by (simp add: set_node_def) (metis snd_conv)
    let ?subs = "take k (subscribers t) @ drop (Suc k) (subscribers t)"
    have "set ?subs \<subseteq> set (subscribers t)" by (auto dest: in_set_takeD in_set_dropD)
    moreover have "distinct (map sub_address ?subs)" if "distinct (map sub_address (subscribers t))"
      using that set_take_disj_set_drop_if_distinct [OF that, of k "Suc k"] distinct_take [OF that, of k]
        distinct_drop [OF that, of "Suc k"] by (simp add: take_map drop_map)
    ultimately have "telemetry_ok ((set_node w2 ?t)\<lparr>subscribers := ?subs\<rparr>)"
      using t2 by (auto simp: telemetry_ok_def set_node_def)
    then show ?thesis using t2 Some w True k w2 by (auto simp: telemetry_disconnect_def Let_def set_node_def)
  qed
qed

context csp_interface begin

lemma send_loop_keeps: "telemetry_send_loop nh nonces bytes topic subs w = Some w' \<Longrightarrow> keeps M w M w'"
proof (induction subs arbitrary: w)
  case (Cons s subs)
  show ?case
  proof (cases "kprv_has_topic topic s")
    case True
    then obtain r w1 where "kprv_send_csp nh (nonces (length subs)) (Some (server_conn s)) (Some bytes) w = Some (r, w1)"
        "telemetry_send_loop nh nonces bytes topic subs w1 = Some w'"
      using Cons.prems by (auto split: option.splits)
    then show ?thesis using keeps_trans [OF send_csp_keeps] Cons.IH by blast
  qed (use Cons in simp)
qed (simp add: keeps_refl)

lemma rx_task_ok: "telemetry_rx_task nh env pad t = Some t' \<Longrightarrow> telemetry_ok t \<Longrightarrow> telemetry_ok t'"
proof -
  assume r: "telemetry_rx_task nh env pad t = Some t'" and t: "telemetry_ok t"
  show ?thesis
  proof (cases "\<exists>pkt rest. packet_queue t = Some (pkt # rest)")
    case False
    then have "t' = t" using r by (auto simp: telemetry_rx_task_def split: option.splits list.splits)
    then show ?thesis using t by simp
  next
    case True
    then obtain pkt rest where q: "packet_queue t = Some (pkt # rest)" by blast
    let ?t = "t\<lparr>packet_queue := Some rest\<rparr>"
    obtain w where w: "telemetry_send_loop nh (te_nonces env) (telemetry_bytes pad pkt) (ucast (tp_topic_id pkt)) (subscribers t) (node t) = Some w"
        "t' = set_node w ?t"
      using r q by (auto simp: telemetry_rx_task_def telemetry_send_def)
    have "telemetry_ok ?t" using t q by (auto simp: telemetry_ok_def)
    then show ?thesis using telemetry_ok_node [of ?t w] keeps_fair [OF send_loop_keeps [OF w(1)]] w(2) by simp
  qed
qed

lemma read_ok:
  assumes "telemetry_read nh env client t = Some (r, t')" "telemetry_ok t" "telemetry_env_ok env" "\<forall>c. client = Some c \<longrightarrow> handle_ok (node t) c"
  shows "telemetry_ok t'"
proof -
  have valid: "client \<bind> conn_handle = Some c \<Longrightarrow> c < CSP_CONN_MAX" for c
    using assms(4) by (auto simp: handle_ok_def bind_eq_Some_conv)
  have "fair {#} (sy_node s) {#} (sy_node s')" if "telemetry_read_loop n nh env client s = Some (r, s')" for n s s'
    using that
  proof (induction n arbitrary: s)
    case (Suc n)
    then obtain b s1 where b: "kprv_subscriber_read (te_platform env) (te_stale env) nh (te_nonces env) (te_tasks env n) client
          TELEMETRY_PACKET_SIZE TELEMETRY_INTERNAL_PORT s = Some (b, s1)"
        "b = None \<and> telemetry_read_loop n nh env client s1 = Some (r, s') \<or> s' = s1"
      by (auto split: option.splits prod.splits)
    have "fair {#} (sy_node s) {#} (sy_node s1)"
      using read_fair [OF b(1) [unfolded kprv_subscriber_read_def]] assms(3) valid by (simp add: telemetry_env_ok_def)
    then show ?case using b(2) Suc.IH fair_trans by blast
  qed (simp add: fair_refl)
  then show ?thesis using assms(1,2) telemetry_ok_system by (auto simp: telemetry_read_def)
qed

lemma connect_ok:
  assumes "telemetry_connect nh env t = Some (r, t')" "telemetry_ok t" "telemetry_env_ok env"
  shows "telemetry_ok t' \<and> (\<forall>c. r = Some c \<longrightarrow> handle_ok (node t') c)"
proof -
  have ok: "node_ok (node t)" "queued_ok (node t)" "owned {#} (node t)" using assms(2) by (simp_all add: telemetry_ok_def)
  note con = assms(1) [unfolded telemetry_connect_def kprv_telemetry_connect_def]
  obtain b client w1 where c: "kprv_subscriber_connect (te_fuel env) TELEMETRY_CSP_ADDRESS TELEMETRY_INTERNAL_PORT (node t) = Some (b, client, w1)"
    using con by (auto split: option.splits)
  note w1 = connect_fair [OF c _ ok(1), of "{#}"]
  have f1: "fair {#} (node t) {#} w1" "b \<Longrightarrow> handle_ok w1 client" using w1 assms(3) by (auto simp: telemetry_env_ok_def)
  show ?thesis
  proof (cases b)
    case False
    then show ?thesis using con c telemetry_ok_node [OF assms(2) f1(1)] by simp
  next
    case b: True
    obtain b2 w2 where s: "kprv_send_csp nh (te_nonces env 0) (Some client) (Some [te_msg env]) w1 = Some (b2, w2)"
      using con c b by (auto split: option.splits)
    have f2: "fair {#} (node t) {#} w2" using fair_trans [OF f1(1) keeps_fair [OF send_csp_keeps [OF s]]] .
    have n1: "node_ok w1 \<and> owned {#} w1" using f1(1) ok by (simp add: fair_def)
    have h2: "handle_ok w2 client" using f1(2) b send_csp_keeps [OF s, of "{#}"] n1 handle_ok_cong [of w2 w1] by (simp add: keeps_def)
    show ?thesis
    proof (cases b2)
      case False
      then show ?thesis using con c b s telemetry_ok_node [OF assms(2) f2] by simp
    next
      case b2: True
      obtain a w3 where a: "kprv_server_accept (te_tasks env 0) (tl_socket t) w2 = Some (a, w3)"
        using con c b s b2 by (auto split: option.splits)
      have "fair {#} w2 {#} w3 \<and> (\<forall>x. a = Some x \<longrightarrow> handle_ok w3 x)"
      proof (cases "tl_socket t")
        case None
        then show ?thesis using a by (simp add: kprv_server_accept_def fair_refl)
      next
        case (Some k)
        have "node_ok w2" "queued_ok w2" "owned {#} w2" using f2 ok by (simp_all add: fair_def)
        then show ?thesis using accept_fair [OF a [unfolded Some], of "{#}"] assms(2,3) Some by (simp add: telemetry_env_ok_def telemetry_ok_def)
      qed
      then have f3: "fair {#} (node t) {#} w3" "\<And>x. a = Some x \<Longrightarrow> handle_ok w3 x" using fair_trans [OF f2] by blast+
      have "nd_ports w3 = nd_ports w2" using f2 f3(1) ok by (simp add: fair_def)
      then have h3: "handle_ok w3 client" using handle_ok_cong h2 by blast
      show ?thesis
      proof (cases a)
        case None
        then have "t' = set_node (snd (csp_close (conn_handle client) w3)) t" "r = None" using con c b s b2 a by simp_all
        then show ?thesis using telemetry_ok_node [OF assms(2) fair_trans [OF f3(1) close_fair [OF h3]]] by simp
      next
        case (Some server)
        obtain m s4 where p: "kprv_publisher_read (te_platform env) (te_stale env) nh (te_nonces env) (te_tasks env 1) (Some server) 1
            TELEMETRY_INTERNAL_PORT ((tl_system t)\<lparr>sy_node := w3\<rparr>) = Some (m, s4)"
          using con c b s b2 a Some by (auto split: option.splits)
        have "server = x \<Longrightarrow> conn_handle x = Some k \<Longrightarrow> k < CSP_CONN_MAX" for x k using f3(2) [OF Some] by (auto simp: handle_ok_def)
        then have "fair {#} w3 {#} (sy_node s4)"
          using read_fair [OF p [unfolded kprv_publisher_read_def], of "{#}"] assms(3) by (simp add: telemetry_env_ok_def)
        then have f4: "fair {#} (node t) {#} (sy_node s4)" using fair_trans [OF f3(1)] by blast
        have pt: "nd_ports (sy_node s4) = nd_ports w3" using f3(1) f4 ok by (simp add: fair_def)
        have h4: "handle_ok (sy_node s4) client" "handle_ok (sy_node s4) server" using h3 f3(2) [OF Some] handle_ok_cong [OF pt] by simp_all
        have t4: "telemetry_ok (t\<lparr>tl_system := s4\<rparr>)" by (rule telemetry_ok_system [OF assms(2) f4])
        show ?thesis
        proof (cases m)
          case None
          then show ?thesis using con c b s b2 a Some p t4 by simp
        next
          case m: (Some x)
          have e: "te_mem_ok env \<and> r = Some client \<and> t' = t\<lparr>tl_system := s4, subscribers := subscribers t @
              [\<lparr>sub_address = tl_malloc t, client_conn = client, server_conn = server, topics = []\<rparr>], tl_malloc := tl_malloc t + 1\<rparr>"
            using con c b s b2 a Some p m by (auto simp: telemetry_add_subscriber_def Let_def split: if_splits)
          then show ?thesis using t4 h4 by (auto simp: telemetry_ok_def less_SucI)
        qed
      qed
    qed
  qed
qed

lemma step_ok: "telemetry_step nh t t' \<Longrightarrow> telemetry_ok t \<Longrightarrow> telemetry_ok t'"
proof (induction rule: telemetry_step.induct)
  case (connect env t r t')
  then show ?case using connect_ok by blast
next
  case (read env client t r t')
  then show ?case using read_ok by blast
next
  case (others f t)
  then show ?case using telemetry_ok_node [OF _ tasks_fair] by blast
qed (simp_all add: disconnect_ok subscribe_ok unsubscribe_ok publish_ok rx_task_ok)

lemma steps_ok: "(telemetry_step nh)\<^sup>*\<^sup>* t t' \<Longrightarrow> telemetry_ok t \<Longrightarrow> telemetry_ok t'"
  by (induction rule: rtranclp_induct) (auto dest: step_ok)

end

lemma telemetry_init_ok:
  assumes "sy_node s = start_node pool" "pool_ok pool" "live pool = {}"
  shows "telemetry_ok (telemetry_init m r s)"
proof -
  let ?w = "case csp_buffer_init m 20 256 of (_, None) \<Rightarrow> sy_node s | (_, Some pool) \<Rightarrow> (sy_node s)\<lparr>nd_pool := pool\<rparr>"
  obtain pool' where w: "?w = start_node pool'" "pool_ok pool'" "live pool' = {}"
  proof (cases m)
    case False
    then show ?thesis using that [of pool] assms by (simp add: csp_buffer_init_def)
  next
    case True
    obtain p where p: "csp_buffer_init True 20 256 = (CSP_ERR_NONE, Some p)" by (simp add: csp_buffer_init_def)
    have "pool_ok p" "live p = {}" using pool_init_ok [of 20 256 CSP_ERR_NONE p] p by simp_all
    then show ?thesis using that [of p] True p by (simp add: assms(1) start_node_def)
  qed
  note init = csp_init_ok [OF w(2,3), of TELEMETRY_CSP_ADDRESS r]
  obtain k v where k: "kprv_server_setup m (unat TELEMETRY_INTERNAL_PORT) TELEMETRY_SUBSCRIBERS_MAX_NUM
      (snd (csp_init TELEMETRY_CSP_ADDRESS r (start_node pool'))) = (k, v)" by fastforce
  from server_setup_ok [OF k init] show ?thesis
    unfolding telemetry_init_def Let_def w(1) k by (simp add: telemetry_ok_def)
qed

section \<open>A concrete service\<close>

definition route_once :: "csp_node \<Rightarrow> csp_node" where
  "route_once w = (case csp_route_work lo_nexthop 0 w of None \<Rightarrow> w | Some (_, w) \<Rightarrow> w)"

lemma route_once_router: "route_once = csp_interface.router lo_nexthop 0"
  by (simp add: fun_eq_iff route_once_def lo.router_def)

definition demo_telemetry_env :: telemetry_env where
  "demo_telemetry_env = \<lparr>te_platform = demo_platform, te_stale = (\<lambda>_. 0), te_nonces = (\<lambda>_. 0), te_msg = 7, te_mem_ok = True,
     te_fuel = 11, te_tasks = (\<lambda>_. route_once)\<rparr>"

lemma demo_telemetry_env_ok: "telemetry_env_ok demo_telemetry_env"
  using lo.router_tasks_fair [where nonce = 0 and n = 1]
  by (simp add: telemetry_env_ok_def demo_telemetry_env_def CSP_CONN_MAX_def route_once_router)

definition demo_telemetry :: telemetry where
  "demo_telemetry = telemetry_init True 5 (demo_system\<lparr>sy_node := start_node pool4\<rparr>)"

lemma demo_telemetry_ok: "telemetry_ok demo_telemetry"
  unfolding demo_telemetry_def by (rule telemetry_init_ok [OF _ pool4_ok]) simp

definition demo_telemetry_packet :: telemetry_packet where
  "demo_telemetry_packet = \<lparr>tp_topic_id = 4, tp_data_type = 0, tp_subsystem_id = 2, tp_data = 0x11223344, tp_timestamp = 77\<rparr>"

text \<open>A client connects and subscribes, a packet is published.\<close>

definition demo_published :: "(pubsub_conn \<times> telemetry) option" where
  "demo_published =
     (case telemetry_connect lo_nexthop demo_telemetry_env demo_telemetry of
        Some (Some c, t) \<Rightarrow>
          (case telemetry_publish demo_telemetry_packet (snd (telemetry_subscribe True (Some c) 4 t)) of
             Some (True, t) \<Rightarrow> Some (c, t) | _ \<Rightarrow> None)
      | _ \<Rightarrow> None)"

lemma demo_published_steps: "demo_published = Some (c, t) \<Longrightarrow> (telemetry_step lo_nexthop)\<^sup>*\<^sup>* demo_telemetry t"
proof -
  assume "demo_published = Some (c, t)"
  then obtain t1 where s: "telemetry_connect lo_nexthop demo_telemetry_env demo_telemetry = Some (Some c, t1)"
      "telemetry_publish demo_telemetry_packet (snd (telemetry_subscribe True (Some c) 4 t1)) = Some (True, t)"
    by (auto simp: demo_published_def split: option.splits prod.splits bool.splits)
  have "(telemetry_step lo_nexthop)\<^sup>*\<^sup>* demo_telemetry t1"
    using telemetry_step.connect [OF demo_telemetry_env_ok s(1)] by (rule r_into_rtranclp)
  moreover have "telemetry_step lo_nexthop t1 (snd (telemetry_subscribe True (Some c) 4 t1))" by (rule telemetry_step.subscribe)
  moreover have "telemetry_step lo_nexthop (snd (telemetry_subscribe True (Some c) 4 t1)) t" by (rule telemetry_step.publish [OF s(2)])
  ultimately show ?thesis by (meson rtranclp.rtrancl_into_rtrancl)
qed

text \<open>C22. From its start on, whatever the clients do - connect, subscribe, publish, read, disconnect - and however the
  other tasks of the node run in between, the service accounts for every buffer of the network, its
  subscribers are distinct and hold connections of the table that are no sockets, and its queue keeps
  its bound.\<close>

theorem telemetry_conserves:
  assumes "csp_interface nh" "sy_node s = start_node pool" "pool_ok pool" "live pool = {}"
    "(telemetry_step nh)\<^sup>*\<^sup>* (telemetry_init m r s) t"
  shows "telemetry_ok t"
  by (rule csp_interface.steps_ok [OF assms(1,5) telemetry_init_ok [OF assms(2-4)]])

theorem telemetry_conserves_witness:
  "\<exists>c t. demo_published = Some (c, t) \<and> length (subscribers t) = 1 \<and> packet_queue t = Some [demo_telemetry_packet] \<and> telemetry_ok t"
proof -
  have "(case demo_published of None \<Rightarrow> False
    | Some (c, t) \<Rightarrow> length (subscribers t) = 1 \<and> packet_queue t = Some [demo_telemetry_packet]) = True" by code_simp
  then obtain c t where d: "demo_published = Some (c, t)" "length (subscribers t) = 1" "packet_queue t = Some [demo_telemetry_packet]"
    by (auto split: option.splits)
  have "telemetry_ok t"
    using telemetry_conserves [OF lo.csp_interface_axioms _ pool4_ok, of "demo_system\<lparr>sy_node := start_node pool4\<rparr>" True 5 t]
      demo_published_steps [OF d(1)] by (simp add: demo_telemetry_def)
  with d show ?thesis by blast
qed

section \<open>Topics\<close>

text \<open>A client that has no topic is sent every packet: after the only topic of a client is unsubscribed, the client
  is subscribed to all of them, and a topic that was subscribed twice is still subscribed after it was
  unsubscribed once.\<close>

theorem telemetry_unsubscribe_last:
  assumes "kprv_get_subscriber c t = Some k" "topics (subscribers t ! k) = ts" "x \<in> set ts"
    "telemetry_unsubscribe (Some c) x t = (r, t')"
  shows "r \<and> (telemetry_is_subscribed (Some c) y t \<longleftrightarrow> y \<in> set ts) \<and>
    (telemetry_is_subscribed (Some c) y t' \<longleftrightarrow> ts = [x] \<or> y \<in> set (remove1 x ts))"
proof -
  let ?s = "subscribers t ! k"
  have k: "k < length (subscribers t)" "conn_handle c = conn_handle (client_conn ?s)"
      "\<forall>j < k. conn_handle c \<noteq> conn_handle (client_conn (subscribers t ! j))"
    using assms(1) by (auto simp: kprv_get_subscriber_def find_index_Some_iff)
  have t': "r" "t' = t\<lparr>subscribers := (subscribers t)[k := ?s\<lparr>topics := remove1 x ts\<rparr>]\<rparr>"
    using assms by (auto simp: telemetry_unsubscribe_def kprv_remove_topic_def)
  have "kprv_get_subscriber c t' = Some k"
    using k unfolding t' by (simp add: kprv_get_subscriber_def find_index_Some_iff)
  moreover have "remove1 x ts = [] \<longleftrightarrow> ts = [x]" using assms(3) by (cases ts) auto
  ultimately show ?thesis using assms(1-3) t' k by (auto simp: telemetry_is_subscribed_def kprv_has_topic_def)
qed

theorem telemetry_unsubscribe_last_witness:
  "telemetry_is_subscribed (Some \<lparr>conn_handle = Some 3\<rparr>) 99
     (snd (telemetry_unsubscribe (Some \<lparr>conn_handle = Some 3\<rparr>) 4 (demo_telemetry\<lparr>subscribers :=
        [\<lparr>sub_address = 0, client_conn = \<lparr>conn_handle = Some 3\<rparr>, server_conn = \<lparr>conn_handle = Some 2\<rparr>, topics = [4]\<rparr>]\<rparr>)))"
proof -
  let ?c = "\<lparr>conn_handle = Some 3\<rparr>" and ?t = "demo_telemetry\<lparr>subscribers :=
        [\<lparr>sub_address = 0, client_conn = \<lparr>conn_handle = Some 3\<rparr>, server_conn = \<lparr>conn_handle = Some 2\<rparr>, topics = [4]\<rparr>]\<rparr>"
  obtain r t' where u: "telemetry_unsubscribe (Some ?c) 4 ?t = (r, t')" by fastforce
  have "kprv_get_subscriber ?c ?t = Some 0" by (simp add: kprv_get_subscriber_def)
  from telemetry_unsubscribe_last [OF this refl _ u, of 99] u show ?thesis by simp
qed

section \<open>A connection that is lost\<close>

text \<open>When the node has no buffer left, \<open>telemetry_connect\<close> fails and the connection it opened for the client stays
  open: nobody holds it any more, and it is gone from the table for good.\<close>

theorem telemetry_connect_leaks:
  assumes "node_ok (node t)" "CSP_CONN_MAX < te_fuel env" "pool_free (nd_pool (node t)) = []"
    "\<exists>cn \<in> set (nd_conns (node t)). \<not> cn_open cn" "\<forall>cn \<in> set (nd_conns (node t)). \<not> cn_open cn \<longrightarrow> cn_rx_queue cn = []"
  shows "\<exists>t' c cn. telemetry_connect nh env t = Some (None, t') \<and> subscribers t' = subscribers t \<and>
    c < CSP_CONN_MAX \<and> \<not> cn_open (nd_conns (node t) ! c) \<and> nd_conns (node t') = (nd_conns (node t))[c := cn] \<and> open_client cn"
proof -
  note ok = assms(1)
  have o: "(0 :: u32) AND CSP_SO_RDPREQ = 0" by simp
  show ?thesis
  proof (cases rule: csp_connect_cases [OF ok o assms(2), of CSP_PRIO_NORM TELEMETRY_CSP_ADDRESS TELEMETRY_INTERNAL_PORT])
    case 1
    then show ?thesis using assms(4) by blast
  next
    case (2 p c cn)
    let ?w = "(node t)\<lparr>nd_sport := p, nd_last_given := c, nd_conns := (nd_conns (node t))[c := cn],
        nd_pool := fold csp_buffer_free (cn_rx_queue (nd_conns (node t) ! c)) (nd_pool (node t))\<rparr>"
    have "length (nd_conns (node t)) = CSP_CONN_MAX" using ok by (simp add: node_ok_def)
    then have q: "cn_rx_queue (nd_conns (node t) ! c) = []" using assms(5) 2(5,6) by (metis nth_mem)
    have g: "csp_buffer_get (Suc 0) (nd_pool ?w) = (None, nd_pool ?w)" using assms(3) q by (simp add: csp_buffer_get_def)
    have "telemetry_connect nh env t = Some (None, set_node ?w t)"
      unfolding telemetry_connect_def kprv_telemetry_connect_def kprv_subscriber_connect_def 2(1)
      using g by (simp add: kprv_send_csp_def)
    then show ?thesis using 2(5-7) by (intro exI [of _ "set_node ?w t"] exI [of _ c] exI [of _ cn]) (simp add: set_node_def open_client_def)
  qed
qed

definition full_node :: csp_node where "full_node = (arrive (empty_packet 40) 0 ^^ 4) demo_node"

lemma arrive_keeps:
  assumes "node_ok w" "owned {#} w" "i < length (nd_ifaces w)"
  shows "node_ok (arrive pk i w) \<and> owned {#} (arrive pk i w)"
proof -
  obtain r pool where g: "csp_buffer_get 0 (nd_pool w) = (r, pool)" by fastforce
  note got = csp_buffer_get_keeps [OF g assms(1,2)]
  show ?thesis
  proof (cases r)
    case None
    then show ?thesis using g assms by (simp add: arrive_def)
  next
    case (Some p)
    then have a: "arrive pk i w = w\<lparr>nd_pool := set_packet p pk pool, nd_qfifo := nd_qfifo w @ [(p, i)]\<rparr>" using g by (simp add: arrive_def)
    have "owned {#p#} (w\<lparr>nd_pool := set_packet p pk pool\<rparr>)"
      using got owned_set_packet [of "{#p#}" "w\<lparr>nd_pool := pool\<rparr>" p pk] Some by simp
    then have "owned {#} (arrive pk i w)" unfolding a by (rule owned_cong) (simp_all add: refs_def)
    moreover have "node_ok (arrive pk i w)" using assms unfolding a by (auto simp: node_ok_def bound_def)
    ultimately show ?thesis by simp
  qed
qed

lemma full_node_ok: "node_ok full_node"
proof -
  have "node_ok ((arrive (empty_packet 40) 0 ^^ n) demo_node) \<and> owned {#} ((arrive (empty_packet 40) 0 ^^ n) demo_node) \<and>
      0 < length (nd_ifaces ((arrive (empty_packet 40) 0 ^^ n) demo_node))" for n
  proof (induction n)
    case 0
    then show ?case using demo_ok demo_owned by (simp add: demo_node_def)
  next
    case (Suc n)
    let ?w = "(arrive (empty_packet 40) 0 ^^ n) demo_node"
    have "nd_ifaces (arrive (empty_packet 40) 0 ?w) = nd_ifaces ?w" by (simp add: arrive_def split: prod.splits option.splits)
    moreover have "node_ok (arrive (empty_packet 40) 0 ?w) \<and> owned {#} (arrive (empty_packet 40) 0 ?w)"
      using Suc.IH arrive_keeps by blast
    ultimately show ?case using Suc.IH by simp
  qed
  then show ?thesis by (simp add: full_node_def)
qed

theorem telemetry_connect_leaks_witness:
  "\<exists>t' cn. telemetry_connect lo_nexthop demo_telemetry_env (set_node full_node demo_telemetry) = Some (None, t') \<and>
     nd_conns (node t') \<noteq> nd_conns full_node"
proof -
  have n: "node (set_node full_node demo_telemetry) = full_node" by (simp add: set_node_def)
  have f: "CSP_CONN_MAX < te_fuel demo_telemetry_env" by (simp add: demo_telemetry_env_def CSP_CONN_MAX_def)
  have c: "pool_free (nd_pool full_node) = []" "\<exists>cn \<in> set (nd_conns full_node). \<not> cn_open cn"
      "\<forall>cn \<in> set (nd_conns full_node). \<not> cn_open cn \<longrightarrow> cn_rx_queue cn = []" by code_simp+
  obtain t' c cn where b: "c < CSP_CONN_MAX" and t: "telemetry_connect lo_nexthop demo_telemetry_env (set_node full_node demo_telemetry) = Some (None, t')"
      "\<not> cn_open (nd_conns full_node ! c)" "nd_conns (node t') = (nd_conns full_node)[c := cn]" "open_client cn"
    using telemetry_connect_leaks [of "set_node full_node demo_telemetry" demo_telemetry_env lo_nexthop, unfolded n, OF full_node_ok f c] by blast
  have "c < length (nd_conns full_node)" using full_node_ok b by (simp add: node_ok_def)
  then have "nd_conns (node t') ! c \<noteq> nd_conns full_node ! c" using t(2-4) by (auto simp: open_client_def)
  with t(1) show ?thesis by auto
qed

section \<open>From a publisher to a subscriber\<close>

lemma telemetry_of_bytes: "telemetry_of (telemetry_bytes pad pkt) = pkt"
proof -
  have "drop 12 (telemetry_bytes pad pkt) = le32 (tp_data pkt) @ le16 (tp_timestamp pkt) @ [pad 18, pad 19]"
    by (simp add: telemetry_bytes_def drop_append length_le32 numeral_eq_Suc le32_def)
  moreover have "drop 16 (telemetry_bytes pad pkt) = le16 (tp_timestamp pkt) @ [pad 18, pad 19]"
    by (simp add: telemetry_bytes_def numeral_eq_Suc le32_def)
  moreover have "drop 4 (telemetry_bytes pad pkt) = le32 (tp_data_type pkt) @ drop 8 (telemetry_bytes pad pkt)"
    by (simp add: telemetry_bytes_def numeral_eq_Suc le32_def)
  moreover have "telemetry_bytes pad pkt ! 0 = tp_topic_id pkt" "telemetry_bytes pad pkt ! 8 = tp_subsystem_id pkt"
    by (simp_all add: telemetry_bytes_def numeral_eq_Suc le32_def)
  ultimately show ?thesis by (simp add: telemetry_of_def length_le32 length_le16)
qed

lemma length_telemetry_bytes: "length (telemetry_bytes pad pkt) = TELEMETRY_PACKET_SIZE"
  by (simp add: telemetry_bytes_def TELEMETRY_PACKET_SIZE_def length_le32 length_le16)

lemma send_loop_skip:
  "\<forall>s \<in> set subs. \<not> kprv_has_topic topic s \<Longrightarrow> telemetry_send_loop nh nonces bytes topic subs w = Some w"
  by (induction subs) auto

lemma send_loop_append:
  "\<forall>s \<in> set pre. \<not> kprv_has_topic topic s \<Longrightarrow>
     telemetry_send_loop nh nonces bytes topic (pre @ subs) w = telemetry_send_loop nh nonces bytes topic subs w"
  by (induction pre) auto

text \<open>C21. A published packet reaches the subscriber of its topic unchanged, and only that one: when the service sends the
  packet and the router runs while the client reads, \<open>telemetry_read\<close> gives the client the packet that
  was published; the queues of all connections are then what they were.\<close>

theorem telemetry_delivers:
  assumes "node_ok (node t)" "owned {#} (node t)" "packet_queue t = Some (pkt # rest)" "subscribers t = pre @ sub # post"
    "kprv_has_topic (ucast (tp_topic_id pkt)) sub" "\<forall>s \<in> set (pre @ post). \<not> kprv_has_topic (ucast (tp_topic_id pkt)) s"
    "server_conn sub = \<lparr>conn_handle = Some k\<rparr>" "client_conn sub = \<lparr>conn_handle = Some c\<rparr>" "linked (node t) k c"
    "csp_conn_sport (nd_conns (node t) ! c) = TELEMETRY_INTERNAL_PORT" "cn_rx_queue (nd_conns (node t) ! c) = []"
    "nd_qfifo (node t) = []" "csp_buffer_get TELEMETRY_PACKET_SIZE (nd_pool (node t)) = (Some p, pool)"
    "TELEMETRY_PACKET_SIZE + 12 \<le> pkt_cap (buf_packet (nd_pool (node t)) p)" "te_tasks env 9 = csp_interface.router lo_nexthop nonce"
  shows "\<exists>t1 t2. telemetry_rx_task lo_nexthop env pad t = Some t1 \<and> packet_queue t1 = Some rest \<and>
    telemetry_read lo_nexthop env (Some (client_conn sub)) t1 = Some (Some pkt, t2) \<and>
    nd_conns (node t2) = nd_conns (node t) \<and> node_ok (node t2) \<and> owned {#} (node t2)"
proof -
  let ?bs = "telemetry_bytes pad pkt" and ?topic = "ucast (tp_topic_id pkt) :: u16" and ?w = "node t"
  have bs: "?bs \<noteq> []" "length ?bs = TELEMETRY_PACKET_SIZE" using length_telemetry_bytes by (simp_all add: telemetry_bytes_def)
  have rx: "length (cn_rx_queue (nd_conns ?w ! c)) < CSP_RX_QUEUE_LENGTH" using assms(11) by (simp add: CSP_RX_QUEUE_LENGTH_def)
  obtain w1 w2 where w: "kprv_send_csp lo_nexthop (te_nonces env (length post)) (Some \<lparr>conn_handle = Some k\<rparr>) (Some ?bs) ?w = Some (True, w1)"
      "csp_route_work lo_nexthop nonce w1 = Some (0, w2)" "pkt_data (buf_packet (nd_pool w2) p) = ?bs"
      "nd_conns w2 = (nd_conns ?w)[c := (nd_conns ?w ! c)\<lparr>cn_rx_queue := [Some p]\<rparr>]" "node_ok w2" "owned {#} w2"
    using linked_delivers [OF assms(1,2,9,12) rx bs(1) assms(13) [folded bs(2)], of "te_nonces env (length post)" nonce] assms(11,14) bs(2)
    by auto
  have c: "c < length (nd_conns ?w)" "c < CSP_CONN_MAX" "cn_open (nd_conns ?w ! c)"
    using assms(1,9) by (simp_all add: node_ok_def linked_def Let_def open_client_def)
  have "telemetry_send_loop lo_nexthop (te_nonces env) ?bs ?topic (pre @ sub # post) ?w = Some w1"
    using assms(5-7) w(1) by (simp add: send_loop_append send_loop_skip)
  then have t1: "telemetry_rx_task lo_nexthop env pad t = Some (set_node w1 (t\<lparr>packet_queue := Some rest\<rparr>))"
    using assms(3,4) by (simp add: telemetry_rx_task_def telemetry_send_def)
  let ?s = "(tl_system t)\<lparr>sy_node := w1\<rparr>" and ?v = "w2\<lparr>nd_conns := (nd_conns ?w)[c := (nd_conns ?w ! c)\<lparr>cn_rx_queue := []\<rparr>]\<rparr>"
  have run: "te_tasks env 9 w1 = w2" using w(2) by (simp add: assms(15) lo.router_def)
  have rd: "csp_read (Some c) w2 = (Some p, ?v)" using c w(4) by (simp add: csp_read_def)
  have keep: "node_ok ?v" "owned {#p#} ?v" using csp_read_keeps [OF rd w(5,6) c(2)] by simp_all
  have "mem_read 0 TELEMETRY_PACKET_SIZE (pkt_memory (te_stale env) (buf_packet (nd_pool w2) p)) = Some ?bs"
    using mem_at [of "[]" 0 ?bs TELEMETRY_PACKET_SIZE] bs(2) w(3) by (simp add: pkt_memory_def)
  then have "kprv_subscriber_read (te_platform env) (te_stale env) lo_nexthop (te_nonces env) (te_tasks env 9) (Some (client_conn sub))
      TELEMETRY_PACKET_SIZE TELEMETRY_INTERNAL_PORT ?s = Some (Some ?bs, ?s\<lparr>sy_node := free_packet (Some p) ?v\<rparr>)"
    using rd run c assms(8,10) by (simp add: kprv_subscriber_read_def kprv_read_def csp_conn_sport_def)
  then have "telemetry_read_loop (Suc 9) lo_nexthop env (Some (client_conn sub)) ?s = Some (Some pkt, ?s\<lparr>sy_node := free_packet (Some p) ?v\<rparr>)"
    by (simp only: telemetry_read_loop.simps) (simp add: telemetry_of_bytes)
  then have t2: "telemetry_read lo_nexthop env (Some (client_conn sub)) (set_node w1 (t\<lparr>packet_queue := Some rest\<rparr>)) =
      Some (Some pkt, t\<lparr>packet_queue := Some rest, tl_system := ?s\<lparr>sy_node := free_packet (Some p) ?v\<rparr>\<rparr>)"
    by (simp add: telemetry_read_def TELEMETRY_SUBSCRIBER_READ_ATTEMPTS_def set_node_def eval_nat_numeral)
  have "(nd_conns ?w ! c)\<lparr>cn_rx_queue := []\<rparr> = nd_conns ?w ! c" using assms(11) by simp
  then have "nd_conns (free_packet (Some p) ?v) = nd_conns ?w" by (simp add: free_packet_def)
  moreover have "node_ok (free_packet (Some p) ?v)" "owned {#} (free_packet (Some p) ?v)" using keep owned_free by simp_all
  ultimately show ?thesis
    using t1 t2
    by (intro exI [of _ "set_node w1 (t\<lparr>packet_queue := Some rest\<rparr>)"]
        exI [of _ "t\<lparr>packet_queue := Some rest, tl_system := ?s\<lparr>sy_node := free_packet (Some p) ?v\<rparr>\<rparr>"]) (simp add: set_node_def)
qed

lemma option_pair_caseD: "(case r of None \<Rightarrow> False | Some (a, b) \<Rightarrow> P a b) \<Longrightarrow> \<exists>a b. r = Some (a, b) \<and> P a b"
  by (cases r) auto

theorem telemetry_delivers_witness:
  "\<exists>c t t1 t2. demo_published = Some (c, t) \<and> telemetry_rx_task lo_nexthop demo_telemetry_env (\<lambda>_. 0) t = Some t1 \<and>
     telemetry_read lo_nexthop demo_telemetry_env (Some c) t1 = Some (Some demo_telemetry_packet, t2)"
proof -
  have "(case demo_published of None \<Rightarrow> False
    | Some (c, t) \<Rightarrow>
        length (subscribers t) = 1 \<and> packet_queue t = Some [demo_telemetry_packet] \<and> client_conn (subscribers t ! 0) = c \<and>
        topics (subscribers t ! 0) = [4] \<and> conn_handle (server_conn (subscribers t ! 0)) \<noteq> None \<and> conn_handle c \<noteq> None \<and>
        linked (node t) (the (conn_handle (server_conn (subscribers t ! 0)))) (the (conn_handle c)) \<and>
        csp_conn_sport (nd_conns (node t) ! the (conn_handle c)) = TELEMETRY_INTERNAL_PORT \<and>
        cn_rx_queue (nd_conns (node t) ! the (conn_handle c)) = [] \<and> nd_qfifo (node t) = [] \<and>
        fst (csp_buffer_get TELEMETRY_PACKET_SIZE (nd_pool (node t))) \<noteq> None \<and>
        TELEMETRY_PACKET_SIZE + 12 \<le> pkt_cap (buf_packet (nd_pool (node t))
          (the (fst (csp_buffer_get TELEMETRY_PACKET_SIZE (nd_pool (node t))))))) = True" by code_simp
  from option_pair_caseD [OF this [unfolded eq_True]] obtain c t where e: "demo_published = Some (c, t)" "length (subscribers t) = 1" "packet_queue t = Some [demo_telemetry_packet]"
      "client_conn (subscribers t ! 0) = c" "topics (subscribers t ! 0) = [4]" "conn_handle (server_conn (subscribers t ! 0)) \<noteq> None"
      "conn_handle c \<noteq> None" "linked (node t) (the (conn_handle (server_conn (subscribers t ! 0)))) (the (conn_handle c))"
      "csp_conn_sport (nd_conns (node t) ! the (conn_handle c)) = TELEMETRY_INTERNAL_PORT"
      "cn_rx_queue (nd_conns (node t) ! the (conn_handle c)) = []" "nd_qfifo (node t) = []"
      "fst (csp_buffer_get TELEMETRY_PACKET_SIZE (nd_pool (node t))) \<noteq> None"
      "TELEMETRY_PACKET_SIZE + 12 \<le> pkt_cap (buf_packet (nd_pool (node t))
          (the (fst (csp_buffer_get TELEMETRY_PACKET_SIZE (nd_pool (node t))))))"
    by (elim exE conjE) (rule that; assumption)
  obtain s where s: "subscribers t = [] @ s # []" using e(2) by (auto simp: length_Suc_conv)
  obtain k h where kh: "conn_handle (server_conn s) = Some k" "conn_handle c = Some h" using e(6,7) s by auto
  obtain p pool where g: "csp_buffer_get TELEMETRY_PACKET_SIZE (nd_pool (node t)) = (Some p, pool)" using e(12) by (metis prod.collapse option.exhaust)
  note d = e(1,3) s e(4,5) [unfolded s, simplified] kh e(8-11) [unfolded s, simplified, unfolded kh, simplified] g
    e(13) [unfolded g, simplified]
  have ok: "telemetry_ok t" by (rule lo.steps_ok [OF demo_published_steps [OF d(1)] demo_telemetry_ok])
  have n: "node_ok (node t)" "owned {#} (node t)" using ok by (simp_all add: telemetry_ok_def)
  have h: "server_conn s = \<lparr>conn_handle = Some k\<rparr>" "client_conn s = \<lparr>conn_handle = Some h\<rparr>" using d(4,6,7) by simp_all
  have tp: "kprv_has_topic (ucast (tp_topic_id demo_telemetry_packet)) s" using d(5) by (simp add: kprv_has_topic_def demo_telemetry_packet_def)
  have r: "te_tasks demo_telemetry_env 9 = csp_interface.router lo_nexthop 0" by (simp add: demo_telemetry_env_def route_once_router)
  show ?thesis
    using telemetry_delivers [OF n d(2,3) tp _ h d(8-13) r, of "\<lambda>_. 0"] d(1,4) by auto
qed

end
