(* ===== verification/KCbor.thy ===== *)
theory KCbor
  imports Prelude "HOL-Library.Monad_Syntax" "HOL-Library.Code_Target_Nat"
begin

text \<open>
  Messages in CBOR (RFC 7049): the encoder and the parser of \<open>tinycbor/src\<close>, as far as the services of
  KubOS use them.

  A buffer is its bytes and a pointer into it an index; the parser ends where the list ends.  The result
  \<open>None\<close> is an assertion that fails, which aborts the program (or is undefined when assertions are off),
  or an access outside of a buffer.  \<open>size_t\<close> has 64 bits.  The loops of the parser have fuel; it is enough
  by \<open>cbor_value_map_find_value_total\<close>.
\<close>

section \<open>Constants and types\<close>

datatype cbor_error = CborNoError | CborErrorAdvancePastEOF | CborErrorUnexpectedEOF | CborErrorUnexpectedBreak
  | CborErrorUnknownType | CborErrorIllegalType | CborErrorIllegalNumber | CborErrorIllegalSimpleType
  | CborErrorTooManyItems | CborErrorTooFewItems | CborErrorDataTooLarge | CborErrorNestingTooDeep
  | CborErrorOutOfMemory

text \<open>The enumeration is signed because of the constants with a cast: running out of memory is negative.\<close>

fun cbor_error_value :: "cbor_error \<Rightarrow> int" where
  "cbor_error_value CborNoError = 0"
| "cbor_error_value CborErrorAdvancePastEOF = 3"
| "cbor_error_value CborErrorUnexpectedEOF = 257"
| "cbor_error_value CborErrorUnexpectedBreak = 258"
| "cbor_error_value CborErrorUnknownType = 259"
| "cbor_error_value CborErrorIllegalType = 260"
| "cbor_error_value CborErrorIllegalNumber = 261"
| "cbor_error_value CborErrorIllegalSimpleType = 262"
| "cbor_error_value CborErrorTooManyItems = 768"
| "cbor_error_value CborErrorTooFewItems = 769"
| "cbor_error_value CborErrorDataTooLarge = 1024"
| "cbor_error_value CborErrorNestingTooDeep = 1025"
| "cbor_error_value CborErrorOutOfMemory = - (2 ^ 31)"

definition CborIntegerType :: u8 where "CborIntegerType = 0"
definition CborByteStringType :: u8 where "CborByteStringType = 0x40"
definition CborTextStringType :: u8 where "CborTextStringType = 0x60"
definition CborArrayType :: u8 where "CborArrayType = 0x80"
definition CborMapType :: u8 where "CborMapType = 0xA0"
definition CborTagType :: u8 where "CborTagType = 0xC0"
definition CborSimpleType :: u8 where "CborSimpleType = 0xE0"
definition CborBooleanType :: u8 where "CborBooleanType = 0xF5"
definition CborHalfFloatType :: u8 where "CborHalfFloatType = 0xF9"
definition CborFloatType :: u8 where "CborFloatType = 0xFA"
definition CborDoubleType :: u8 where "CborDoubleType = 0xFB"
definition CborInvalidType :: u8 where "CborInvalidType = 0xFF"

lemmas cbor_types = CborIntegerType_def CborByteStringType_def CborTextStringType_def CborArrayType_def CborMapType_def
  CborTagType_def CborSimpleType_def CborBooleanType_def CborHalfFloatType_def CborFloatType_def CborDoubleType_def
  CborInvalidType_def

definition CborIteratorFlag_IntegerValueTooLarge :: u8 where "CborIteratorFlag_IntegerValueTooLarge = 0x01"
definition CborIteratorFlag_NegativeInteger :: u8 where "CborIteratorFlag_NegativeInteger = 0x02"
definition CborIteratorFlag_UnknownLength :: u8 where "CborIteratorFlag_UnknownLength = 0x04"
definition CborIteratorFlag_ContainerIsMap :: u8 where "CborIteratorFlag_ContainerIsMap = 0x20"

lemmas cbor_flags = CborIteratorFlag_IntegerValueTooLarge_def CborIteratorFlag_NegativeInteger_def
  CborIteratorFlag_UnknownLength_def CborIteratorFlag_ContainerIsMap_def

definition SmallValueMask :: u8 where "SmallValueMask = 0x1F"
definition MajorTypeMask :: u8 where "MajorTypeMask = 0xE0"
definition MajorTypeShift :: nat where "MajorTypeShift = 5"
definition Value8Bit :: nat where "Value8Bit = 24"
definition Value64Bit :: nat where "Value64Bit = 27"
definition IndefiniteLength :: nat where "IndefiniteLength = 31"
definition BreakByte :: u8 where "BreakByte = 0xFF"
definition CBOR_PARSER_MAX_RECURSIONS :: nat where "CBOR_PARSER_MAX_RECURSIONS = 1024"
definition SIZE_MAX :: nat where "SIZE_MAX = 2 ^ 64 - 1"
definition UINT32_MAX :: u32 where "UINT32_MAX = 0xFFFFFFFF"

lemmas cbor_consts = SmallValueMask_def MajorTypeMask_def MajorTypeShift_def Value8Bit_def Value64Bit_def IndefiniteLength_def
  BreakByte_def

text \<open>The bytes of a number in network order.\<close>

definition be_bytes :: "nat \<Rightarrow> nat \<Rightarrow> u8 list" where
  "be_bytes k v = map (\<lambda>i. of_nat (v div 256 ^ i)) (rev [0..<k])"

definition of_be_bytes :: "u8 list \<Rightarrow> nat" where
  "of_be_bytes bs = foldl (\<lambda>v b. 256 * v + unat b) 0 bs"

definition chars :: "string \<Rightarrow> u8 list" where
  "chars s = map of_char s"

section \<open>The encoder\<close>

text \<open>The union \<open>data\<close> is the index of the next byte while \<open>end\<close> is not the null pointer, then the number of
  bytes that are missing.\<close>

record cbor_encoder =
  ce_data :: nat
  ce_end :: "nat option"
  ce_added :: nat
  ce_flags :: u8

definition cbor_encoder_init :: "nat \<Rightarrow> u8 \<Rightarrow> cbor_encoder" where
  "cbor_encoder_init sz flags = \<lparr>ce_data = 0, ce_end = Some sz, ce_added = 0, ce_flags = flags\<rparr>"

definition would_overflow :: "cbor_encoder \<Rightarrow> nat \<Rightarrow> bool" where
  "would_overflow enc len \<longleftrightarrow> (case ce_end enc of Some e \<Rightarrow> int e - int (ce_data enc) - int len < 0 | None \<Rightarrow> - int (ce_data enc) - int len < 0)"

definition append_to_buffer :: "cbor_encoder \<Rightarrow> u8 list \<Rightarrow> u8 list \<Rightarrow> (cbor_error \<times> cbor_encoder \<times> u8 list) option" where
  "append_to_buffer enc bs m =
     (if would_overflow enc (length bs)
      then Some (CborErrorOutOfMemory,
             (case ce_end enc of
                Some e \<Rightarrow> enc\<lparr>ce_end := None, ce_data := length bs - (e - ce_data enc)\<rparr>
              | None \<Rightarrow> enc\<lparr>ce_data := ce_data enc + length bs\<rparr>), m)
      else map_option (\<lambda>m. (CborNoError, enc\<lparr>ce_data := ce_data enc + length bs\<rparr>, m)) (mem_write (ce_data enc) bs m))"

definition number_bytes :: "nat \<Rightarrow> u8 \<Rightarrow> u8 list" where
  "number_bytes ui shifted =
     (if ui < Value8Bit then [of_nat ui + shifted]
      else let more = (if ui > 0xFF then 1 else 0) + (if ui > 0xFFFF then 1 else 0) + (if ui > 0xFFFFFFFF then 1 else 0)
           in (shifted + of_nat Value8Bit + of_nat more) # be_bytes (2 ^ more) ui)"

definition encode_number_no_update :: "cbor_encoder \<Rightarrow> nat \<Rightarrow> u8 \<Rightarrow> u8 list \<Rightarrow> (cbor_error \<times> cbor_encoder \<times> u8 list) option" where
  "encode_number_no_update enc ui shifted m = append_to_buffer enc (number_bytes ui shifted) m"

definition encode_number :: "cbor_encoder \<Rightarrow> nat \<Rightarrow> u8 \<Rightarrow> u8 list \<Rightarrow> (cbor_error \<times> cbor_encoder \<times> u8 list) option" where
  "encode_number enc ui shifted m = encode_number_no_update (enc\<lparr>ce_added := ce_added enc + 1\<rparr>) ui shifted m"

definition cbor_encode_int :: "cbor_encoder \<Rightarrow> u64 \<Rightarrow> u8 list \<Rightarrow> (cbor_error \<times> cbor_encoder \<times> u8 list) option" where
  "cbor_encode_int enc v m =
     (let ui = signed_drop_bit 63 v; majorType = ucast ui AND 0x20; ui = ui XOR v
      in encode_number enc (unat ui) majorType m)"

definition cbor_encode_simple_value :: "cbor_encoder \<Rightarrow> u8 \<Rightarrow> u8 list \<Rightarrow> (cbor_error \<times> cbor_encoder \<times> u8 list) option" where
  "cbor_encode_simple_value enc v m =
     (if 25 \<le> v \<and> v \<le> 31 then Some (CborErrorIllegalSimpleType, enc, m) else encode_number enc (unat v) 0xE0 m)"

text \<open>\<open>value\<close> is the representation of the number, of two, four or eight bytes.\<close>

definition cbor_encode_floating_point :: "cbor_encoder \<Rightarrow> u8 \<Rightarrow> nat \<Rightarrow> u8 list \<Rightarrow> (cbor_error \<times> cbor_encoder \<times> u8 list) option" where
  "cbor_encode_floating_point enc fpType v m =
     (if fpType \<in> {CborHalfFloatType, CborFloatType, CborDoubleType}
      then append_to_buffer (enc\<lparr>ce_added := ce_added enc + 1\<rparr>) (fpType # be_bytes (2 * 2 ^ unat (fpType - CborHalfFloatType)) v) m
      else None)"

definition cbor_encode_half_float :: "cbor_encoder \<Rightarrow> u16 \<Rightarrow> u8 list \<Rightarrow> (cbor_error \<times> cbor_encoder \<times> u8 list) option" where
  "cbor_encode_half_float enc v m = cbor_encode_floating_point enc CborHalfFloatType (unat v) m"

definition cbor_encode_float :: "cbor_encoder \<Rightarrow> u32 \<Rightarrow> u8 list \<Rightarrow> (cbor_error \<times> cbor_encoder \<times> u8 list) option" where
  "cbor_encode_float enc v m = cbor_encode_floating_point enc CborFloatType (unat v) m"

definition cbor_encode_double :: "cbor_encoder \<Rightarrow> u64 \<Rightarrow> u8 list \<Rightarrow> (cbor_error \<times> cbor_encoder \<times> u8 list) option" where
  "cbor_encode_double enc v m = cbor_encode_floating_point enc CborDoubleType (unat v) m"

text \<open>Running out of memory does not stop it: the missing bytes are counted.\<close>

definition encode_string :: "cbor_encoder \<Rightarrow> u8 \<Rightarrow> u8 list \<Rightarrow> u8 list \<Rightarrow> (cbor_error \<times> cbor_encoder \<times> u8 list) option" where
  "encode_string enc shifted s m =
     (case encode_number enc (length s) shifted m of None \<Rightarrow> None | Some (e, enc, m) \<Rightarrow> append_to_buffer enc s m)"

definition cbor_encode_text_stringz :: "cbor_encoder \<Rightarrow> u8 list \<Rightarrow> u8 list \<Rightarrow> (cbor_error \<times> cbor_encoder \<times> u8 list) option" where
  "cbor_encode_text_stringz enc s m = encode_string enc 0x60 s m"

text \<open>The result has both encoders, the outer one and the container.\<close>

definition create_container ::
  "cbor_encoder \<Rightarrow> nat \<Rightarrow> u8 \<Rightarrow> u8 list \<Rightarrow> (cbor_error \<times> cbor_encoder \<times> cbor_encoder \<times> u8 list) option" where
  "create_container enc len shifted m =
     (let enc = enc\<lparr>ce_added := ce_added enc + 1\<rparr>;
          container = \<lparr>ce_data = ce_data enc, ce_end = ce_end enc, ce_added = 0,
                       ce_flags = shifted AND CborIteratorFlag_ContainerIsMap\<rparr>
      in map_option (\<lambda>(e, container, m). (e, enc, container, m))
           (if len = SIZE_MAX
            then append_to_buffer (container\<lparr>ce_flags := ce_flags container OR CborIteratorFlag_UnknownLength\<rparr>)
                   [shifted + of_nat IndefiniteLength] m
            else encode_number_no_update container len shifted m))"

definition cbor_encoder_create_map ::
  "cbor_encoder \<Rightarrow> nat \<Rightarrow> u8 list \<Rightarrow> (cbor_error \<times> cbor_encoder \<times> cbor_encoder option \<times> u8 list) option" where
  "cbor_encoder_create_map enc len m =
     (if len \<noteq> SIZE_MAX \<and> len > SIZE_MAX div 2 then Some (CborErrorDataTooLarge, enc, None, m)
      else map_option (\<lambda>(e, enc, container, m). (e, enc, Some container, m)) (create_container enc len 0xA0 m))"

definition cbor_encoder_close_container ::
  "cbor_encoder \<Rightarrow> cbor_encoder \<Rightarrow> u8 list \<Rightarrow> (cbor_error \<times> cbor_encoder \<times> u8 list) option" where
  "cbor_encoder_close_container enc container m =
     (let enc = enc\<lparr>ce_data := ce_data container, ce_end := ce_end container\<rparr>
      in if ce_flags container AND CborIteratorFlag_UnknownLength \<noteq> 0 then append_to_buffer enc [BreakByte] m
         else Some (CborNoError, enc, m))"

text \<open>What is before the buffer in memory is not modelled: when bytes are missing the size is their number
  minus the address of the buffer.\<close>

definition cbor_encoder_get_buffer_size :: "cbor_encoder \<Rightarrow> nat \<Rightarrow> int" where
  "cbor_encoder_get_buffer_size enc buffer =
     (if ce_end enc = None then int (ce_data enc) - int buffer else int (ce_data enc))"


section \<open>The parser\<close>

text \<open>\<open>parser->end\<close> is the length of the buffer.\<close>

record cbor_value =
  cv_ptr :: nat
  cv_remaining :: u32
  cv_extra :: u16
  cv_type :: u8
  cv_flags :: u8

definition byte_at :: "u8 list \<Rightarrow> nat \<Rightarrow> u8 option" where
  "byte_at bs p = (if p < length bs then Some (bs ! p) else None)"

definition get_be :: "nat \<Rightarrow> u8 list \<Rightarrow> nat \<Rightarrow> nat option" where
  "get_be k bs p = map_option of_be_bytes (mem_read p k bs)"

text \<open>The number is not set when there is an error.\<close>

definition extract_number :: "u8 list \<Rightarrow> nat \<Rightarrow> (cbor_error \<times> nat \<times> nat) option" where
  "extract_number bs p = do {
     b \<leftarrow> byte_at bs p;
     let info = unat (b AND SmallValueMask);
     let p = p + 1;
     if info < Value8Bit then Some (CborNoError, p, info)
     else if info > Value64Bit then Some (CborErrorIllegalNumber, p, 0)
     else let bytesNeeded = 2 ^ (info - Value8Bit)
          in if bytesNeeded > length bs - p then Some (CborErrorUnexpectedEOF, p, 0)
             else do { v \<leftarrow> get_be bytesNeeded bs p; Some (CborNoError, p + bytesNeeded, v) }
   }"

definition cbor_encoder_close_container_checked ::
  "cbor_encoder \<Rightarrow> cbor_encoder \<Rightarrow> u8 list \<Rightarrow> (cbor_error \<times> cbor_encoder \<times> u8 list) option" where
  "cbor_encoder_close_container_checked enc container m = do {
     let ptr = ce_data enc;
     (e, enc, m) \<leftarrow> cbor_encoder_close_container enc container m;
     if ce_flags container AND CborIteratorFlag_UnknownLength \<noteq> 0 \<or> ce_end enc = None then Some (e, enc, m)
     else do {
       (e, _, actually_added) \<leftarrow> extract_number (take (ce_data enc) m) ptr;
       if e \<noteq> CborNoError then Some (e, enc, m)
       else if ce_flags container AND CborIteratorFlag_ContainerIsMap \<noteq> 0 \<and> actually_added > SIZE_MAX div 2
       then Some (CborErrorDataTooLarge, enc, m)
       else let actually_added = (if ce_flags container AND CborIteratorFlag_ContainerIsMap \<noteq> 0 then 2 * actually_added else actually_added)
            in Some (if actually_added = ce_added container then CborNoError
                     else if actually_added < ce_added container then CborErrorTooManyItems else CborErrorTooFewItems, enc, m)
     }
   }"

definition extract_length :: "u8 list \<Rightarrow> nat \<Rightarrow> (cbor_error \<times> nat \<times> nat) option" where
  "extract_length bs p = do {
     (e, p, v) \<leftarrow> extract_number bs p;
     if e \<noteq> CborNoError then Some (e, p, 0)
     else if v > SIZE_MAX then Some (CborErrorDataTooLarge, p, v mod (SIZE_MAX + 1))
     else Some (CborNoError, p, v)
   }"

definition is_fixed_type :: "u8 \<Rightarrow> bool" where
  "is_fixed_type type \<longleftrightarrow> type \<noteq> CborTextStringType \<and> type \<noteq> CborByteStringType \<and> type \<noteq> CborArrayType \<and> type \<noteq> CborMapType"

text \<open>The values 28 to 31 are refused before: the assertion in the code.\<close>

definition preparse_simple :: "u8 list \<Rightarrow> nat \<Rightarrow> cbor_value \<Rightarrow> (cbor_error \<times> cbor_value) option" where
  "preparse_simple bs descriptor it =
     (if descriptor = 20 then Some (CborNoError, it\<lparr>cv_extra := 0, cv_type := CborBooleanType\<rparr>)
      else if descriptor = 26 \<or> descriptor = 27
      then do { b \<leftarrow> byte_at bs (cv_ptr it);
                Some (CborNoError, it\<lparr>cv_flags := cv_flags it OR CborIteratorFlag_IntegerValueTooLarge, cv_type := b\<rparr>) }
      else if descriptor \<in> {21, 22, 23, 25}
      then do { b \<leftarrow> byte_at bs (cv_ptr it); Some (CborNoError, it\<lparr>cv_type := b\<rparr>) }
      else if descriptor = 24
      then do { b \<leftarrow> byte_at bs (cv_ptr it + 1);
                let it = it\<lparr>cv_extra := ucast b\<rparr>;
                Some (if b < 32 then (CborErrorIllegalSimpleType, it\<lparr>cv_type := CborInvalidType\<rparr>) else (CborNoError, it)) }
      else if 28 \<le> descriptor then None
      else Some (CborNoError, it))"

definition preparse_value :: "u8 list \<Rightarrow> cbor_value \<Rightarrow> (cbor_error \<times> cbor_value) option" where
  "preparse_value bs it =
     (let it = it\<lparr>cv_type := CborInvalidType\<rparr>
      in if cv_ptr it = length bs then Some (CborErrorUnexpectedEOF, it)
      else do {
        b \<leftarrow> byte_at bs (cv_ptr it);
        let type = b AND MajorTypeMask;
        let descriptor = unat (b AND SmallValueMask);
        let it = it\<lparr>cv_type := type, cv_flags := 0, cv_extra := of_nat descriptor\<rparr>;
        if descriptor > Value64Bit then
          Some (if descriptor \<noteq> IndefiniteLength then (if type = CborSimpleType then CborErrorUnknownType else CborErrorIllegalNumber, it)
                else if \<not> is_fixed_type type then (CborNoError, it\<lparr>cv_flags := cv_flags it OR CborIteratorFlag_UnknownLength\<rparr>)
                else (if type = CborSimpleType then CborErrorUnexpectedBreak else CborErrorIllegalNumber, it))
        else
          let bytesNeeded = (if descriptor < Value8Bit then 0 else 2 ^ (descriptor - Value8Bit))
          in if bytesNeeded + 1 > length bs - cv_ptr it then Some (CborErrorUnexpectedEOF, it)
          else let majortype = drop_bit MajorTypeShift type;
                   it = (if majortype = 1 then it\<lparr>cv_flags := cv_flags it OR CborIteratorFlag_NegativeInteger, cv_type := CborIntegerType\<rparr> else it)
          in if majortype = 7 then preparse_simple bs descriptor it
          else if descriptor < Value8Bit then Some (CborNoError, it)
          else if descriptor = Value8Bit
          then do { v \<leftarrow> get_be 1 bs (cv_ptr it + 1); Some (CborNoError, it\<lparr>cv_extra := of_nat v\<rparr>) }
          else if descriptor = 25
          then do { v \<leftarrow> get_be 2 bs (cv_ptr it + 1); Some (CborNoError, it\<lparr>cv_extra := of_nat v\<rparr>) }
          else Some (CborNoError, it\<lparr>cv_flags := cv_flags it OR CborIteratorFlag_IntegerValueTooLarge\<rparr>)
      })"

definition preparse_next_value :: "u8 list \<Rightarrow> cbor_value \<Rightarrow> (cbor_error \<times> cbor_value) option" where
  "preparse_next_value bs it =
     (if cv_remaining it \<noteq> UINT32_MAX then
        (if cv_type it = CborTagType then preparse_value bs it
         else let it = it\<lparr>cv_remaining := cv_remaining it - 1\<rparr>
              in if cv_remaining it = 0 then Some (CborNoError, it\<lparr>cv_type := CborInvalidType\<rparr>) else preparse_value bs it)
      else if cv_ptr it \<noteq> length bs then do {
        b \<leftarrow> byte_at bs (cv_ptr it);
        if b = BreakByte then Some (CborNoError, it\<lparr>cv_ptr := cv_ptr it + 1, cv_type := CborInvalidType, cv_remaining := 0\<rparr>)
        else preparse_value bs it }
      else preparse_value bs it)"

definition advance_internal :: "u8 list \<Rightarrow> cbor_value \<Rightarrow> (cbor_error \<times> cbor_value) option" where
  "advance_internal bs it = do {
     (e, p, len) \<leftarrow> extract_number bs (cv_ptr it);
     if e \<noteq> CborNoError then None
     else if cv_type it = CborByteStringType \<or> cv_type it = CborTextStringType then
       if len > SIZE_MAX \<or> cv_flags it AND CborIteratorFlag_UnknownLength \<noteq> 0 then None
       else preparse_next_value bs (it\<lparr>cv_ptr := p + len\<rparr>)
     else preparse_next_value bs (it\<lparr>cv_ptr := p\<rparr>)
   }"

definition cbor_parser_init :: "u8 list \<Rightarrow> (cbor_error \<times> cbor_value) option" where
  "cbor_parser_init bs =
     preparse_value bs \<lparr>cv_ptr = 0, cv_remaining = 1, cv_extra = 0, cv_type = 0, cv_flags = 0\<rparr>"

definition cbor_value_at_end :: "cbor_value \<Rightarrow> bool" where "cbor_value_at_end it \<longleftrightarrow> cv_remaining it = 0"
definition cbor_value_is_map :: "cbor_value \<Rightarrow> bool" where "cbor_value_is_map it \<longleftrightarrow> cv_type it = CborMapType"
definition cbor_value_is_tag :: "cbor_value \<Rightarrow> bool" where "cbor_value_is_tag it \<longleftrightarrow> cv_type it = CborTagType"
definition cbor_value_is_integer :: "cbor_value \<Rightarrow> bool" where "cbor_value_is_integer it \<longleftrightarrow> cv_type it = CborIntegerType"
definition cbor_value_is_text_string :: "cbor_value \<Rightarrow> bool" where "cbor_value_is_text_string it \<longleftrightarrow> cv_type it = CborTextStringType"
definition cbor_value_is_container :: "cbor_value \<Rightarrow> bool" where
  "cbor_value_is_container it \<longleftrightarrow> cv_type it = CborArrayType \<or> cv_type it = CborMapType"
definition cbor_value_is_length_known :: "cbor_value \<Rightarrow> bool" where
  "cbor_value_is_length_known it \<longleftrightarrow> cv_flags it AND CborIteratorFlag_UnknownLength = 0"

definition cbor_value_advance_fixed :: "u8 list \<Rightarrow> cbor_value \<Rightarrow> (cbor_error \<times> cbor_value) option" where
  "cbor_value_advance_fixed bs it =
     (if cv_type it = CborInvalidType \<or> \<not> is_fixed_type (cv_type it) then None
      else if cv_remaining it = 0 then Some (CborErrorAdvancePastEOF, it)
      else advance_internal bs it)"

fun skip_tag_loop :: "nat \<Rightarrow> u8 list \<Rightarrow> cbor_value \<Rightarrow> (cbor_error \<times> cbor_value) option" where
  "skip_tag_loop 0 bs it = None"
| "skip_tag_loop (Suc n) bs it =
     (if cbor_value_is_tag it
      then do { (e, it) \<leftarrow> cbor_value_advance_fixed bs it;
                if e \<noteq> CborNoError then Some (e, it) else skip_tag_loop n bs it }
      else Some (CborNoError, it))"

definition cbor_value_skip_tag :: "u8 list \<Rightarrow> cbor_value \<Rightarrow> (cbor_error \<times> cbor_value) option" where
  "cbor_value_skip_tag bs it = skip_tag_loop (length bs + 1) bs it"

section \<open>Strings\<close>

text \<open>\<open>func\<close> works on a chunk, with the offset in the string: it compares, copies or does nothing, on the memory
  at \<open>buffer\<close>.  The result has the error, \<open>*buflen\<close>, \<open>*result\<close>, that memory, and the pointer behind the string.\<close>

type_synonym iterate_function = "nat \<Rightarrow> u8 list \<Rightarrow> u8 list \<Rightarrow> (bool \<times> u8 list) option"

definition iterate_noop :: iterate_function where "iterate_noop off src buf = Some (True, buf)"

definition iterate_memcmp :: iterate_function where
  "iterate_memcmp off src s = do { xs \<leftarrow> mem_read off (length src) s; Some (xs = src, s) }"

definition iterate_memcpy :: iterate_function where
  "iterate_memcpy off src buf = do { buf \<leftarrow> mem_write off src buf; Some (True, buf) }"

fun chunk_loop ::
  "nat \<Rightarrow> u8 list \<Rightarrow> u8 \<Rightarrow> iterate_function \<Rightarrow> nat \<Rightarrow> nat \<Rightarrow> nat \<Rightarrow> bool \<Rightarrow> u8 list \<Rightarrow> (cbor_error \<times> nat \<times> bool \<times> u8 list \<times> nat) option" where
  "chunk_loop 0 bs type func buflen p tot result buf = None"
| "chunk_loop (Suc n) bs type func buflen p tot result buf =
     (if p = length bs then Some (CborErrorUnexpectedEOF, buflen, result, buf, p)
      else do {
        b \<leftarrow> byte_at bs p;
        if b = BreakByte then Some (CborNoError, tot, result, buf, p + 1)
        else if b AND MajorTypeMask \<noteq> type then Some (CborErrorIllegalType, buflen, result, buf, p)
        else do {
          (e, p, chunkLen) \<leftarrow> extract_length bs p;
          if e \<noteq> CborNoError then Some (e, buflen, result, buf, p)
          else if tot + chunkLen > SIZE_MAX then Some (CborErrorDataTooLarge, buflen, result, buf, p)
          else if chunkLen > length bs - p then Some (CborErrorUnexpectedEOF, buflen, result, buf, p)
          else do {
            (result, buf) \<leftarrow> (if result \<and> buflen \<ge> tot + chunkLen then func tot (take chunkLen (drop p bs)) buf else Some (False, buf));
            chunk_loop n bs type func buflen (p + chunkLen) (tot + chunkLen) result buf
          } } })"

definition string_chunks ::
  "u8 list \<Rightarrow> cbor_value \<Rightarrow> iterate_function \<Rightarrow> nat \<Rightarrow> u8 list \<Rightarrow> (cbor_error \<times> nat \<times> bool \<times> u8 list \<times> nat) option" where
  "string_chunks bs v func buflen buf =
     (if cbor_value_is_length_known v then do {
        (e, p, tot) \<leftarrow> extract_length bs (cv_ptr v);
        if e \<noteq> CborNoError then Some (e, buflen, False, buf, p)
        else if tot > length bs - p then Some (CborErrorUnexpectedEOF, buflen, False, buf, p)
        else do {
          (result, buf) \<leftarrow> (if tot \<le> buflen then func 0 (take tot (drop p bs)) buf else Some (False, buf));
          Some (CborNoError, tot, result, buf, p + tot)
        } }
      else chunk_loop (length bs + 1) bs (cv_type v) func buflen (cv_ptr v + 1) 0 True buf)"

definition iterate_string_chunks ::
  "u8 list \<Rightarrow> cbor_value \<Rightarrow> iterate_function \<Rightarrow> nat \<Rightarrow> u8 list \<Rightarrow> bool \<Rightarrow> (cbor_error \<times> nat \<times> bool \<times> u8 list \<times> cbor_value) option" where
  "iterate_string_chunks bs v func buflen buf want_next =
     (if cv_type v \<noteq> CborByteStringType \<and> cv_type v \<noteq> CborTextStringType then None
      else do {
        (e, tot, result, buf, p) \<leftarrow> string_chunks bs v func buflen buf;
        if e \<noteq> CborNoError then Some (e, buflen, result, buf, v)
        else do {
          (result, buf) \<leftarrow> (if result \<and> buflen > tot then func tot [0] buf else Some (result, buf));
          if want_next then do {
            (e, next) \<leftarrow> preparse_next_value bs (v\<lparr>cv_ptr := p\<rparr>);
            Some (e, tot, result, buf, next) }
          else Some (CborNoError, tot, result, buf, v)
        } })"

definition cbor_value_copy_text_string ::
  "u8 list \<Rightarrow> cbor_value \<Rightarrow> u8 list \<Rightarrow> nat \<Rightarrow> (cbor_error \<times> nat \<times> u8 list) option" where
  "cbor_value_copy_text_string bs v buffer buflen =
     (if \<not> cbor_value_is_text_string v then None
      else do {
        (e, len, copied_all, buffer, _) \<leftarrow> iterate_string_chunks bs v iterate_memcpy buflen buffer False;
        Some (if e \<noteq> CborNoError then e else if copied_all then CborNoError else CborErrorOutOfMemory, len, buffer)
      })"

section \<open>Containers\<close>

definition cbor_value_enter_container :: "u8 list \<Rightarrow> cbor_value \<Rightarrow> (cbor_error \<times> cbor_value) option" where
  "cbor_value_enter_container bs it =
     (if \<not> cbor_value_is_container it then None
      else if \<not> cbor_value_is_length_known it then do {
        (e, r) \<leftarrow> preparse_value bs (it\<lparr>cv_remaining := UINT32_MAX, cv_ptr := cv_ptr it + 1\<rparr>);
        if e \<noteq> CborErrorUnexpectedBreak then Some (e, r)
        else Some (CborNoError, r\<lparr>cv_ptr := cv_ptr r + 1, cv_type := CborInvalidType, cv_remaining := 0\<rparr>) }
      else do {
        (e, p, len) \<leftarrow> extract_number bs (cv_ptr it);
        if e \<noteq> CborNoError then None
        else let r = it\<lparr>cv_ptr := p, cv_remaining := of_nat len\<rparr>
        in if unat (cv_remaining r) \<noteq> len \<or> len = unat UINT32_MAX then Some (CborErrorDataTooLarge, r\<lparr>cv_ptr := cv_ptr it\<rparr>)
        else if cv_type r = CborMapType \<and> cv_remaining r > UINT32_MAX div 2 then Some (CborErrorDataTooLarge, r\<lparr>cv_ptr := cv_ptr it\<rparr>)
        else let r = (if cv_type r = CborMapType then r\<lparr>cv_remaining := 2 * cv_remaining r\<rparr> else r)
        in if len \<noteq> 0 then preparse_value bs r
        else Some (CborNoError, r\<lparr>cv_type := CborInvalidType, cv_remaining := 0\<rparr>) })"

definition cbor_value_leave_container :: "u8 list \<Rightarrow> cbor_value \<Rightarrow> cbor_value \<Rightarrow> (cbor_error \<times> cbor_value) option" where
  "cbor_value_leave_container bs it recursed =
     (if \<not> cbor_value_is_container it \<or> cv_type recursed \<noteq> CborInvalidType then None
      else preparse_next_value bs (it\<lparr>cv_ptr := cv_ptr recursed\<rparr>))"

text \<open>\<open>advance_items\<close> is the loop inside \<open>advance_recursive\<close>.\<close>

fun advance_recursive :: "nat \<Rightarrow> u8 list \<Rightarrow> nat \<Rightarrow> cbor_value \<Rightarrow> (cbor_error \<times> cbor_value) option"
  and advance_items :: "nat \<Rightarrow> u8 list \<Rightarrow> nat \<Rightarrow> cbor_value \<Rightarrow> (cbor_error \<times> cbor_value) option" where
  "advance_recursive 0 bs nesting it = None"
| "advance_items 0 bs nesting it = None"
| "advance_recursive (Suc n) bs nesting it =
     (if is_fixed_type (cv_type it) then advance_internal bs it
      else if \<not> cbor_value_is_container it then do {
        (e, _, copied_all, _, next) \<leftarrow> iterate_string_chunks bs it iterate_noop SIZE_MAX [] True;
        Some (if e \<noteq> CborNoError then e else if copied_all then CborNoError else CborErrorOutOfMemory, next) }
      else if nesting = CBOR_PARSER_MAX_RECURSIONS then Some (CborErrorNestingTooDeep, it)
      else do {
        (e, recursed) \<leftarrow> cbor_value_enter_container bs it;
        if e \<noteq> CborNoError then Some (e, it)
        else do {
          (e, recursed) \<leftarrow> advance_items n bs (nesting + 1) recursed;
          if e \<noteq> CborNoError then Some (e, it) else cbor_value_leave_container bs it recursed } })"
| "advance_items (Suc n) bs nesting recursed =
     (if cbor_value_at_end recursed then Some (CborNoError, recursed)
      else do {
        (e, recursed) \<leftarrow> advance_recursive n bs nesting recursed;
        if e \<noteq> CborNoError then Some (e, recursed) else advance_items n bs nesting recursed })"

definition cbor_value_advance :: "u8 list \<Rightarrow> cbor_value \<Rightarrow> (cbor_error \<times> cbor_value) option" where
  "cbor_value_advance bs it =
     (if cv_type it = CborInvalidType then None
      else if cv_remaining it = 0 then Some (CborErrorAdvancePastEOF, it)
      else advance_recursive (2 * length bs + 3) bs 0 it)"

section \<open>Searching a map\<close>

fun find_loop :: "nat \<Rightarrow> u8 list \<Rightarrow> u8 list \<Rightarrow> cbor_value \<Rightarrow> (cbor_error \<times> cbor_value) option" where
  "find_loop 0 bs key element = None"
| "find_loop (Suc n) bs key element =
     (if cbor_value_at_end element then Some (CborNoError, element\<lparr>cv_type := CborInvalidType\<rparr>)
      else do {
        (e, element) \<leftarrow> cbor_value_skip_tag bs element;
        if e \<noteq> CborNoError then Some (e, element\<lparr>cv_type := CborInvalidType\<rparr>)
        else do {
          (e, equals, element) \<leftarrow>
            (if cbor_value_is_text_string element
             then map_option (\<lambda>(e, _, equals, _, next). (e, equals, next))
                    (iterate_string_chunks bs element iterate_memcmp (length key) (key @ [0]) True)
             else map_option (\<lambda>(e, next). (e, False, next)) (cbor_value_advance bs element));
          if e \<noteq> CborNoError then Some (e, element\<lparr>cv_type := CborInvalidType\<rparr>)
          else if equals then preparse_value bs element
          else do {
            (e, element) \<leftarrow> cbor_value_skip_tag bs element;
            if e \<noteq> CborNoError then Some (e, element\<lparr>cv_type := CborInvalidType\<rparr>)
            else do {
              (e, element) \<leftarrow> cbor_value_advance bs element;
              if e \<noteq> CborNoError then Some (e, element\<lparr>cv_type := CborInvalidType\<rparr>)
              else find_loop n bs key element } } } })"

definition cbor_value_map_find_value :: "u8 list \<Rightarrow> cbor_value \<Rightarrow> u8 list \<Rightarrow> (cbor_error \<times> cbor_value) option" where
  "cbor_value_map_find_value bs mp key =
     (if \<not> cbor_value_is_map mp then None
      else do {
        (e, element) \<leftarrow> cbor_value_enter_container bs mp;
        if e \<noteq> CborNoError then Some (e, element\<lparr>cv_type := CborInvalidType\<rparr>)
        else find_loop (length bs + 1) bs key element })"

section \<open>Values\<close>

definition cbor_value_decode_int64_internal :: "u8 list \<Rightarrow> cbor_value \<Rightarrow> nat option" where
  "cbor_value_decode_int64_internal bs v =
     (if cv_flags v AND CborIteratorFlag_IntegerValueTooLarge = 0 \<and> cv_type v \<noteq> CborFloatType \<and> cv_type v \<noteq> CborDoubleType then None
      else do {
        b \<leftarrow> byte_at bs (cv_ptr v);
        if b AND SmallValueMask \<noteq> 26 \<and> b AND SmallValueMask \<noteq> 27 then None
        else if b AND 1 = 0 then get_be 4 bs (cv_ptr v + 1)
        else get_be 8 bs (cv_ptr v + 1) })"

definition cbor_value_extract_int64_helper :: "u8 list \<Rightarrow> cbor_value \<Rightarrow> nat option" where
  "cbor_value_extract_int64_helper bs v =
     (if cv_flags v AND CborIteratorFlag_IntegerValueTooLarge \<noteq> 0 then cbor_value_decode_int64_internal bs v
      else Some (unat (cv_extra v)))"

text \<open>The number is cut to 32 bits; the smallest one cannot be negated.\<close>

definition cbor_value_get_int :: "u8 list \<Rightarrow> cbor_value \<Rightarrow> u32 option" where
  "cbor_value_get_int bs v =
     (if \<not> cbor_value_is_integer v then None
      else do {
        n \<leftarrow> cbor_value_extract_int64_helper bs v;
        let r = (of_nat n :: u32);
        if cv_flags v AND CborIteratorFlag_NegativeInteger = 0 then Some r
        else if r = 0x80000000 then None else Some (- r - 1) })"

definition cbor_value_get_simple_type :: "cbor_value \<Rightarrow> u8 option" where
  "cbor_value_get_simple_type v = (if cv_type v = CborSimpleType then Some (ucast (cv_extra v)) else None)"

definition cbor_value_get_half_float :: "u8 list \<Rightarrow> cbor_value \<Rightarrow> u16 option" where
  "cbor_value_get_half_float bs v =
     (if cv_type v \<noteq> CborHalfFloatType then None else map_option of_nat (get_be 2 bs (cv_ptr v + 1)))"

definition cbor_value_get_float :: "u8 list \<Rightarrow> cbor_value \<Rightarrow> u32 option" where
  "cbor_value_get_float bs v =
     (if cv_type v \<noteq> CborFloatType \<or> cv_flags v AND CborIteratorFlag_IntegerValueTooLarge = 0 then None
      else map_option of_nat (cbor_value_decode_int64_internal bs v))"

definition cbor_value_get_double :: "u8 list \<Rightarrow> cbor_value \<Rightarrow> u64 option" where
  "cbor_value_get_double bs v =
     (if cv_type v \<noteq> CborDoubleType \<or> cv_flags v AND CborIteratorFlag_IntegerValueTooLarge = 0 then None
      else map_option of_nat (cbor_value_decode_int64_internal bs v))"

section \<open>The parser stays inside the buffer\<close>

lemma bind_SomeI: "x = Some a \<Longrightarrow> f a = r \<Longrightarrow> x \<bind> f = r"
  by simp

lemma of_be_bytes_less: "of_be_bytes bs < 256 ^ length bs"
proof -
  have "foldl (\<lambda>v b. 256 * v + unat b) v bs < (v + 1) * 256 ^ length bs" for v :: nat and bs :: "u8 list"
  proof (induction bs arbitrary: v)
    case (Cons b bs)
    have "unat b < 256" using unsigned_less [of b, where 'a = nat] by simp
    then have "256 * v + unat b + 1 \<le> (v + 1) * 256" by simp
    from mult_le_mono1 [OF this, of "256 ^ length bs"] have "(256 * v + unat b + 1) * 256 ^ length bs \<le> (v + 1) * 256 ^ length (b # bs)"
      by (simp add: algebra_simps)
    then show ?case using Cons.IH [of "256 * v + unat b"] by simp
  qed simp
  from this [of 0 bs] show ?thesis by (simp add: of_be_bytes_def)
qed

lemma get_be_Some: "p + k \<le> length bs \<Longrightarrow> \<exists>v. get_be k bs p = Some v \<and> v < 256 ^ k"
  using of_be_bytes_less [of "take k (drop p bs)"] by (simp add: get_be_def mem_read_def)

text \<open>A value that was parsed: it starts inside the buffer, its type is valid, and unless its length is not known its
  number is inside the buffer as well.\<close>

definition cv_ok :: "u8 list \<Rightarrow> cbor_value \<Rightarrow> bool" where
  "cv_ok bs it \<longleftrightarrow> cv_ptr it < length bs \<and> cv_type it \<noteq> CborInvalidType \<and>
     (if cbor_value_is_length_known it
      then \<exists>p len. extract_number bs (cv_ptr it) = Some (CborNoError, p, len) \<and> cv_ptr it < p \<and> p \<le> length bs \<and> len \<le> SIZE_MAX
      else \<not> is_fixed_type (cv_type it))"

definition at_ok :: "u8 list \<Rightarrow> cbor_value \<Rightarrow> bool" where
  "at_ok bs it \<longleftrightarrow> cv_ptr it \<le> length bs \<and> (if cv_remaining it = 0 then cv_type it = CborInvalidType else cv_ok bs it)"

lemma descriptor_less: "unat ((b :: u8) AND SmallValueMask) < 32"
proof -
  have "b AND SmallValueMask \<le> SmallValueMask" by (rule word_and_le1)
  then have "unat (b AND SmallValueMask) \<le> unat SmallValueMask" by (rule word_le_nat_alt [THEN iffD1])
  then show ?thesis by (simp add: SmallValueMask_def)
qed

lemma extract_number_at:
  assumes "p < length bs" "unat (bs ! p AND SmallValueMask) = d" "d \<le> Value64Bit"
    "(if d < Value8Bit then 0 else 2 ^ (d - Value8Bit)) + 1 \<le> length bs - p"
  shows "\<exists>q len. extract_number bs p = Some (CborNoError, q, len) \<and> p < q \<and> q \<le> length bs \<and> len \<le> SIZE_MAX"
proof (cases "d < Value8Bit")
  case True
  then show ?thesis using assms by (simp add: extract_number_def byte_at_def SIZE_MAX_def Value8Bit_def)
next
  case False
  let ?k = "2 ^ (d - Value8Bit) :: nat"
  have k: "?k \<in> {1, 2, 4, 8}"
  proof -
    have "d - Value8Bit \<in> {0, 1, 2, 3}" using False assms(3) by (auto simp: Value8Bit_def Value64Bit_def)
    then show ?thesis by auto
  qed
  have le: "p + 1 + ?k \<le> length bs" using assms(1,4) False by simp
  then obtain v where v: "get_be ?k bs (p + 1) = Some v" "v < 256 ^ ?k" using get_be_Some by blast
  have "v \<le> SIZE_MAX" using v(2) k by (auto simp: SIZE_MAX_def)
  then show ?thesis using assms(1-3) False v(1) le by (auto simp: extract_number_def byte_at_def Let_def)
qed

lemma preparse_simple_at:
  assumes "p < length bs" "bs ! p = b" "d = unat (b AND SmallValueMask)" "d \<le> Value64Bit" "cv_ptr it = p"
    "(if d < Value8Bit then 0 else 2 ^ (d - Value8Bit)) + 1 \<le> length bs - p" "drop_bit 5 (b AND MajorTypeMask) = 7"
    "cv_flags it = 0" "cv_type it = b AND MajorTypeMask"
  shows "\<exists>e it'. preparse_simple bs d it = Some (e, it') \<and> cv_ptr it' = p \<and> cv_remaining it' = cv_remaining it \<and>
     (e = CborNoError \<longrightarrow> cv_type it' \<noteq> CborInvalidType \<and> cbor_value_is_length_known it') \<and> e \<noteq> CborErrorUnexpectedBreak"
proof -
  have "b \<noteq> CborInvalidType" using assms(3,4) by (auto simp: cbor_types cbor_consts)
  moreover have "b AND MajorTypeMask \<noteq> CborInvalidType"
  proof
    assume "b AND MajorTypeMask = CborInvalidType"
    then have "bit (b AND MajorTypeMask) 0" by (simp add: cbor_types)
    then show False by (simp add: cbor_consts bit_simps)
  qed
  moreover have "byte_at bs p = Some b" using assms(1,2) by (simp add: byte_at_def)
  moreover have "byte_at bs (p + 1) = Some (bs ! (p + 1))" if "d = 24" using assms(6) that by (simp add: byte_at_def Value8Bit_def)
  ultimately show ?thesis
    using assms(4,5,8,9) by (auto simp: preparse_simple_def cbor_value_is_length_known_def cbor_flags cbor_types Value64Bit_def Let_def)
qed

lemma preparse_value_at:
  assumes "cv_ptr it \<le> length bs"
  shows "\<exists>e it'. preparse_value bs it = Some (e, it') \<and> cv_ptr it' = cv_ptr it \<and> cv_remaining it' = cv_remaining it \<and>
    (e = CborNoError \<longrightarrow> cv_ok bs it') \<and> (e = CborErrorUnexpectedBreak \<longrightarrow> cv_ptr it < length bs)"
proof (cases "cv_ptr it = length bs")
  case True
  then show ?thesis by (simp add: preparse_value_def)
next
  case False
  let ?p = "cv_ptr it" and ?b = "bs ! cv_ptr it"
  let ?d = "unat (?b AND SmallValueMask)" and ?t = "?b AND MajorTypeMask"
  let ?it = "it\<lparr>cv_type := ?t, cv_flags := 0, cv_extra := of_nat ?d\<rparr>"
  have p: "?p < length bs" "byte_at bs ?p = Some ?b" using assms False by (simp_all add: byte_at_def)
  have t: "?t \<noteq> CborInvalidType"
  proof
    assume "?t = CborInvalidType"
    then have "bit ?t 0" by (simp add: cbor_types)
    then show False by (simp add: cbor_consts bit_simps)
  qed
  show ?thesis
  proof (cases "?d > Value64Bit")
    case True
    then show ?thesis
      using p t False by (auto simp: preparse_value_def Let_def cv_ok_def cbor_value_is_length_known_def cbor_flags)
  next
    case d: False
    let ?k = "if ?d < Value8Bit then 0 else 2 ^ (?d - Value8Bit) :: nat"
    show ?thesis
    proof (cases "?k + 1 > length bs - ?p")
      case True
      then show ?thesis using p False d by (auto simp: preparse_value_def Let_def)
    next
      case fit: False
      let ?maj = "drop_bit MajorTypeShift ?t"
      have num: "\<exists>q len. extract_number bs ?p = Some (CborNoError, q, len) \<and> ?p < q \<and> q \<le> length bs \<and> len \<le> SIZE_MAX"
        using extract_number_at [OF p(1) refl] d fit by simp
      show ?thesis
      proof (cases "?maj = 7")
        case True
        obtain e it' where s: "preparse_simple bs ?d ?it = Some (e, it')" "cv_ptr it' = ?p" "cv_remaining it' = cv_remaining it"
            "e = CborNoError \<longrightarrow> cv_type it' \<noteq> CborInvalidType \<and> cbor_value_is_length_known it'" "e \<noteq> CborErrorUnexpectedBreak"
          using preparse_simple_at [OF p(1) refl refl, of ?it] d fit True by (auto simp: MajorTypeShift_def)
        have "preparse_value bs it = Some (e, it')" using p(2) False d fit True s(1) by (simp add: preparse_value_def Let_def)
        then show ?thesis using s(2-5) num p(1) by (auto simp: cv_ok_def)
      next
        case maj: False
        have "\<exists>x. get_be k bs (?p + 1) = Some x" if "\<not> ?d < Value8Bit" "k = 2 ^ (?d - Value8Bit)" for k
        proof -
          have "?p + 1 + k \<le> length bs" using fit that p(1) by simp
          then show ?thesis using get_be_Some by blast
        qed
        note num' = this [of 1] this [of 2]
        obtain x y where x: "?d = Value8Bit \<Longrightarrow> get_be 1 bs (?p + 1) = Some x" and y: "?d = 25 \<Longrightarrow> get_be 2 bs (?p + 1) = Some y"
          using num' by (cases "?d = Value8Bit"; cases "?d = 25") (auto simp: Value8Bit_def)
        have "\<exists>it'. preparse_value bs it = Some (CborNoError, it') \<and> cv_ptr it' = ?p \<and> cv_remaining it' = cv_remaining it \<and>
            cv_type it' \<in> {?t, CborIntegerType} \<and> cv_flags it' AND 4 = 0"
          using p(2) False d fit maj x y by (auto simp: preparse_value_def Let_def cbor_flags)
        then obtain it' where it': "preparse_value bs it = Some (CborNoError, it')" "cv_ptr it' = ?p" "cv_remaining it' = cv_remaining it"
            "cv_type it' \<in> {?t, CborIntegerType}" "cv_flags it' AND 4 = 0" by blast
        have "cv_type it' \<noteq> CborInvalidType" using it'(4) t by (auto simp: cbor_types)
        then have "cv_ok bs it'" using it' num p(1) by (simp add: cv_ok_def cbor_value_is_length_known_def cbor_flags)
        then show ?thesis using it' by simp
      qed
    qed
  qed
qed

text \<open>How the next value is reached: \<open>next_ok bs p it e it'\<close> for a step from \<open>it\<close> that moves behind \<open>p\<close>.\<close>

definition next_ok :: "u8 list \<Rightarrow> cbor_value \<Rightarrow> cbor_error \<Rightarrow> cbor_value \<Rightarrow> bool" where
  "next_ok bs it e it' \<longleftrightarrow> (e = CborNoError \<longrightarrow> at_ok bs it' \<and> cv_ptr it < cv_ptr it' \<and>
     (cv_remaining it \<noteq> UINT32_MAX \<longrightarrow> cv_remaining it' = (if cv_type it = CborTagType then cv_remaining it else cv_remaining it - 1)))"

lemma at_ok_remaining: "at_ok bs it \<Longrightarrow> cv_remaining it \<noteq> 0 \<Longrightarrow> cv_ok bs it"
  by (simp add: at_ok_def)

lemma cv_okD: "cv_ok bs it \<Longrightarrow> cv_ptr it < length bs \<and> cv_type it \<noteq> CborInvalidType"
  by (simp add: cv_ok_def)

lemma preparse_next_at:
  assumes "cv_ptr it \<le> length bs" "cv_remaining it \<noteq> 0"
  shows "\<exists>e it'. preparse_next_value bs it = Some (e, it') \<and> (e = CborNoError \<longrightarrow> at_ok bs it' \<and> cv_ptr it \<le> cv_ptr it' \<and>
     (cv_remaining it \<noteq> UINT32_MAX \<longrightarrow> cv_remaining it' = (if cv_type it = CborTagType then cv_remaining it else cv_remaining it - 1)))"
proof -
  have pre: "\<exists>e it'. preparse_value bs i = Some (e, it') \<and> (e = CborNoError \<longrightarrow> at_ok bs it' \<and> cv_ptr it \<le> cv_ptr it' \<and> cv_remaining it' = cv_remaining i)"
    if "cv_ptr i = cv_ptr it" "cv_remaining i \<noteq> 0" for i
    using preparse_value_at [of i bs] assms(1) that by (fastforce simp: at_ok_def)
  consider "cv_remaining it \<noteq> UINT32_MAX" "cv_type it = CborTagType" | "cv_remaining it \<noteq> UINT32_MAX" "cv_type it \<noteq> CborTagType"
    | "cv_remaining it = UINT32_MAX" by blast
  then show ?thesis
  proof cases
    case 1
    then show ?thesis using pre [of it] assms(2) by (auto simp: preparse_next_value_def)
  next
    case 2
    then show ?thesis
      using pre [of "it\<lparr>cv_remaining := cv_remaining it - 1\<rparr>"] assms(1)
      by (cases "cv_remaining it - 1 = 0") (auto simp: preparse_next_value_def at_ok_def Let_def)
  next
    case 3
    show ?thesis
    proof (cases "cv_ptr it < length bs \<and> bs ! cv_ptr it = BreakByte")
      case True
      then show ?thesis using 3 by (simp add: preparse_next_value_def byte_at_def at_ok_def)
    next
      case False
      then have "preparse_next_value bs it = preparse_value bs it"
        using 3 assms(1) by (auto simp: preparse_next_value_def byte_at_def)
      then show ?thesis using pre [of it] 3 by (auto simp: UINT32_MAX_def)
    qed
  qed
qed

lemma next_at:
  assumes "cv_ptr it < p" "p \<le> length bs" "cv_remaining it \<noteq> 0"
  shows "\<exists>e it'. preparse_next_value bs (it\<lparr>cv_ptr := p\<rparr>) = Some (e, it') \<and> next_ok bs it e it'"
  using preparse_next_at [of "it\<lparr>cv_ptr := p\<rparr>" bs] assms by (fastforce simp: next_ok_def)

lemma advance_internal_at:
  assumes "cv_ok bs it" "is_fixed_type (cv_type it)" "cv_remaining it \<noteq> 0"
  shows "\<exists>e it'. advance_internal bs it = Some (e, it') \<and> next_ok bs it e it'"
proof -
  obtain p len where "extract_number bs (cv_ptr it) = Some (CborNoError, p, len)" "cv_ptr it < p" "p \<le> length bs"
    using assms(1,2) by (auto simp: cv_ok_def split: if_splits)
  then show ?thesis using next_at [of it p bs] assms(2,3) by (auto simp: advance_internal_def is_fixed_type_def)
qed

lemma skip_tag_loop_at:
  "\<lbrakk>length bs - cv_ptr it < n; at_ok bs it; cv_remaining it \<noteq> 0; cv_remaining it \<noteq> UINT32_MAX\<rbrakk> \<Longrightarrow>
     \<exists>e it'. skip_tag_loop n bs it = Some (e, it') \<and> (e = CborNoError \<longrightarrow> cv_ok bs it' \<and> cv_type it' \<noteq> CborTagType \<and>
       cv_ptr it \<le> cv_ptr it' \<and> cv_remaining it' = cv_remaining it)"
proof (induction n arbitrary: it)
  case (Suc n)
  have ok: "cv_ok bs it" using Suc.prems(2,3) by (rule at_ok_remaining)
  show ?case
  proof (cases "cbor_value_is_tag it")
    case False
    then show ?thesis using ok by (auto simp: cbor_value_is_tag_def)
  next
    case True
    then have f: "is_fixed_type (cv_type it)" by (simp add: cbor_value_is_tag_def is_fixed_type_def cbor_types)
    obtain e it' where a: "advance_internal bs it = Some (e, it')" "next_ok bs it e it'"
      using advance_internal_at [OF ok f Suc.prems(3)] by blast
    have s: "skip_tag_loop (Suc n) bs it = (if e \<noteq> CborNoError then Some (e, it') else skip_tag_loop n bs it')"
      using True f a(1) Suc.prems(3) cv_okD [OF ok] by (simp add: cbor_value_advance_fixed_def)
    show ?thesis
    proof (cases "e = CborNoError")
      case True
      then have n: "at_ok bs it'" "cv_ptr it < cv_ptr it'" "cv_remaining it' = cv_remaining it"
        using a(2) \<open>cbor_value_is_tag it\<close> Suc.prems(4) by (auto simp: next_ok_def cbor_value_is_tag_def)
      then have "length bs - cv_ptr it' < n" using Suc.prems(1) by (auto simp: at_ok_def)
      from Suc.IH [OF this n(1)] show ?thesis unfolding s using True n Suc.prems(3,4) by fastforce
    qed (simp add: s del: skip_tag_loop.simps)
  qed
qed simp

section \<open>Strings and containers are inside the buffer\<close>

definition func_safe :: "iterate_function \<Rightarrow> nat \<Rightarrow> (u8 list \<Rightarrow> bool) \<Rightarrow> bool" where
  "func_safe func buflen P \<longleftrightarrow>
     (\<forall>off src buf. P buf \<and> off + length src \<le> buflen \<longrightarrow> (\<exists>r buf'. func off src buf = Some (r, buf') \<and> P buf'))"

lemma func_safeD: "func_safe func buflen P \<Longrightarrow> P buf \<Longrightarrow> off + length src \<le> buflen \<Longrightarrow> \<exists>r buf'. func off src buf = Some (r, buf') \<and> P buf'"
  by (simp add: func_safe_def)

lemma func_safe_if:
  "func_safe func buflen P \<Longrightarrow> P buf \<Longrightarrow> (c \<Longrightarrow> off + length src \<le> buflen) \<Longrightarrow>
     \<exists>r buf'. (if c then func off src buf else Some (d, buf)) = Some (r, buf') \<and> P buf'"
  by (cases c) (auto simp: func_safe_def)

lemma noop_safe: "func_safe iterate_noop n (\<lambda>_. True)"
  by (auto simp: func_safe_def iterate_noop_def)

lemma memcmp_safe: "func_safe iterate_memcmp n (\<lambda>buf. n \<le> length buf)"
  by (auto simp: func_safe_def iterate_memcmp_def mem_read_def)

lemma memcpy_safe: "func_safe iterate_memcpy n (\<lambda>buf. n \<le> length buf)"
  by (auto simp: func_safe_def iterate_memcpy_def mem_write_def)

lemma extract_number_in:
  assumes "p < length bs" "extract_number bs p = Some (e, q, len)"
  shows "p < q \<and> q \<le> length bs \<and> len \<le> SIZE_MAX"
proof -
  have "v \<le> SIZE_MAX" if "get_be (2 ^ (d - 24)) bs k = Some v" "d \<le> 27" for v k d
  proof -
    have "d - 24 = 0 \<or> d - 24 = 1 \<or> d - 24 = 2 \<or> d - 24 = 3" using that(2) by arith
    then have "2 ^ (d - 24) = (1 :: nat) \<or> 2 ^ (d - 24) = (2 :: nat) \<or> 2 ^ (d - 24) = (4 :: nat) \<or> 2 ^ (d - 24) = (8 :: nat)" by auto
    moreover have "length (take (2 ^ (d - 24)) (drop k bs)) = 2 ^ (d - 24)" using that(1) by (auto simp: get_be_def mem_read_def split: if_splits)
    then have "v < 256 ^ 2 ^ (d - 24)" using that(1) of_be_bytes_less [of "take (2 ^ (d - 24)) (drop k bs)"]
      by (auto simp: get_be_def mem_read_def split: if_splits)
    ultimately show ?thesis by (auto simp: SIZE_MAX_def)
  qed
  then show ?thesis using assms descriptor_less [of "bs ! p"]
    by (auto simp: extract_number_def byte_at_def Let_def SIZE_MAX_def Value8Bit_def Value64Bit_def bind_eq_Some_conv not_less split: if_splits)
qed

lemma extract_number_total: "p < length bs \<Longrightarrow> \<exists>e q len. extract_number bs p = Some (e, q, len)"
proof -
  assume p: "p < length bs"
  let ?k = "2 ^ (unat (bs ! p AND SmallValueMask) - Value8Bit) :: nat"
  show ?thesis
  proof (cases "length bs - (p + 1) < ?k")
    case False
    then have "p + 1 + ?k \<le> length bs" using p by simp
    then show ?thesis using get_be_Some [of "p + 1" ?k bs] p by (auto simp: extract_number_def byte_at_def Let_def)
  qed (use p in \<open>auto simp: extract_number_def byte_at_def Let_def\<close>)
qed

lemma extract_length_at:
  assumes "p < length bs"
  shows "\<exists>e q len. extract_length bs p = Some (e, q, len) \<and> p < q \<and> q \<le> length bs"
proof -
  obtain e q len where x: "extract_number bs p = Some (e, q, len)" using extract_number_total [OF assms] by blast
  show ?thesis using x extract_number_in [OF assms x] by (auto simp: extract_length_def)
qed

lemma chunk_loop_at:
  assumes "func_safe func buflen P"
  shows "\<lbrakk>length bs - p < n; p \<le> length bs; P buf\<rbrakk> \<Longrightarrow>
     \<exists>e len r buf' q. chunk_loop n bs type func buflen p tot result buf = Some (e, len, r, buf', q) \<and> P buf' \<and>
       (e = CborNoError \<longrightarrow> p < q \<and> q \<le> length bs)"
proof (induction n arbitrary: p tot result buf)
  case (Suc n)
  show ?case
  proof (cases "p < length bs \<and> bs ! p \<noteq> BreakByte \<and> bs ! p AND MajorTypeMask = type")
    case False
    then show ?thesis using Suc.prems by (auto simp: byte_at_def)
  next
    case True
    obtain e q len where x: "extract_length bs p = Some (e, q, len)" "p < q" "q \<le> length bs" using extract_length_at [of p bs] True by blast
    show ?thesis
    proof (cases "e \<noteq> CborNoError \<or> tot + len > SIZE_MAX \<or> len > length bs - q")
      case True': True
      then show ?thesis using True x Suc.prems by (auto simp: byte_at_def)
    next
      case False
      obtain r buf' where f: "(if result \<and> buflen \<ge> tot + len then func tot (take len (drop q bs)) buf else Some (False, buf)) = Some (r, buf')" "P buf'"
        using func_safe_if [OF assms Suc.prems(3), of "result \<and> buflen \<ge> tot + len" tot "take len (drop q bs)" False] False by auto
      have "chunk_loop (Suc n) bs type func buflen p tot result buf = chunk_loop n bs type func buflen (q + len) (tot + len) r buf'"
        using True False x f(1) by (simp add: byte_at_def)
      moreover have "length bs - (q + len) < n" "q + len \<le> length bs" using Suc.prems(1,2) x(2,3) False by auto
      moreover from Suc.IH [OF this f(2), of "tot + len" r] obtain e' len' r' buf2 q' where
        "chunk_loop n bs type func buflen (q + len) (tot + len) r buf' = Some (e', len', r', buf2, q')" "P buf2"
        "e' = CborNoError \<longrightarrow> q + len < q' \<and> q' \<le> length bs" by blast
      ultimately show ?thesis using x(2) by (auto simp del: chunk_loop.simps)
    qed
  qed
qed simp

lemma iterate_at:
  assumes "cv_ok bs it" "cv_type it = CborTextStringType \<or> cv_type it = CborByteStringType" "cv_remaining it \<noteq> 0"
    "func_safe func buflen P" "P buf"
  shows "\<exists>e len r buf' next. iterate_string_chunks bs it func buflen buf w = Some (e, len, r, buf', next) \<and> P buf' \<and> (w \<longrightarrow> next_ok bs it e next)"
proof -
  note p = cv_okD [OF assms(1), THEN conjunct1]
  have "\<exists>e len r buf' q. string_chunks bs it func buflen buf = Some (e, len, r, buf', q) \<and> P buf' \<and> (e = CborNoError \<longrightarrow> cv_ptr it < q \<and> q \<le> length bs)"
  proof (cases "cbor_value_is_length_known it")
    case True
    obtain e q len where x: "extract_length bs (cv_ptr it) = Some (e, q, len)" "cv_ptr it < q" "q \<le> length bs"
      using extract_length_at [OF p] by blast
    show ?thesis
    proof (cases "e \<noteq> CborNoError \<or> len > length bs - q")
      case False
      obtain r buf' where f: "(if len \<le> buflen then func 0 (take len (drop q bs)) buf else Some (False, buf)) = Some (r, buf')" "P buf'"
        using func_safe_if [OF assms(4,5), of "len \<le> buflen" 0 "take len (drop q bs)" False] by (auto simp: min_le_iff_disj)
      show ?thesis using True x False f by (auto simp: string_chunks_def)
    qed (use True x assms(5) in \<open>auto simp: string_chunks_def\<close>)
  next
    case False
    have "length bs - (cv_ptr it + 1) < length bs + 1" "cv_ptr it + 1 \<le> length bs" using p by simp_all
    then show ?thesis using chunk_loop_at [OF assms(4) _ _ assms(5), of bs "cv_ptr it + 1" "length bs + 1"] False p
      by (fastforce simp: string_chunks_def)
  qed
  then obtain e len r buf' q where s: "string_chunks bs it func buflen buf = Some (e, len, r, buf', q)" "P buf'"
      "e = CborNoError \<longrightarrow> cv_ptr it < q \<and> q \<le> length bs" by blast
  show ?thesis
  proof (cases "e = CborNoError")
    case False
    then show ?thesis using assms(2) s by (auto simp: iterate_string_chunks_def next_ok_def)
  next
    case True
    obtain r' buf2 where f: "(if r \<and> buflen > len then func len [0] buf' else Some (r, buf')) = Some (r', buf2)" "P buf2"
      using func_safe_if [OF assms(4) s(2), of "r \<and> buflen > len" len "[0]" r] by auto
    obtain e2 it2 where "preparse_next_value bs (it\<lparr>cv_ptr := q\<rparr>) = Some (e2, it2)" "next_ok bs it e2 it2"
      using next_at [of it q bs] assms(3) s(3) True by blast
    then show ?thesis using assms(2) s(1) f True by (auto simp: iterate_string_chunks_def)
  qed
qed

text \<open>What the getters read of a value that was parsed is inside the buffer.\<close>

definition readable :: "u8 list \<Rightarrow> cbor_value \<Rightarrow> bool" where
  "readable bs v \<longleftrightarrow>
     (cv_type v = CborIntegerType \<longrightarrow> cbor_value_extract_int64_helper bs v \<noteq> None) \<and>
     (cv_type v = CborHalfFloatType \<longrightarrow> cbor_value_get_half_float bs v \<noteq> None) \<and>
     (cv_type v = CborFloatType \<longrightarrow> cbor_value_get_float bs v \<noteq> None) \<and>
     (cv_type v = CborDoubleType \<longrightarrow> cbor_value_get_double bs v \<noteq> None)"

lemma major_simple: "drop_bit 5 (b AND MajorTypeMask) = 7 \<Longrightarrow> b AND MajorTypeMask = CborSimpleType"
proof -
  assume "drop_bit 5 (b AND MajorTypeMask) = 7"
  moreover have "take_bit 5 (b AND MajorTypeMask) = 0" by (simp add: MajorTypeMask_def take_bit_and)
  ultimately show ?thesis using bits_ident [of 5 "b AND MajorTypeMask"] by (simp add: CborSimpleType_def)
qed

lemma preparse_value_inv:
  fixes bs :: "u8 list" and it :: cbor_value
  defines "p \<equiv> cv_ptr it"
  defines "d \<equiv> unat (bs ! p AND SmallValueMask)"
  assumes "preparse_value bs it = Some (CborNoError, v)" "is_fixed_type (cv_type v)"
  shows "p < length bs \<and> cv_ptr v = p \<and> d \<le> 27 \<and> (if d < 24 then 0 else 2 ^ (d - 24)) + 1 \<le> length bs - p \<and>
    (drop_bit 5 (bs ! p AND MajorTypeMask) = 7 \<and> (cv_type v = bs ! p \<or> cv_type v = CborBooleanType \<or> cv_type v = CborSimpleType) \<and>
       (cv_flags v AND 1 = 0 \<longleftrightarrow> d \<noteq> 26 \<and> d \<noteq> 27) \<or>
     drop_bit 5 (bs ! p AND MajorTypeMask) \<noteq> 7 \<and> (cv_type v = bs ! p AND MajorTypeMask \<or> cv_type v = 0) \<and> (cv_flags v AND 1 = 0 \<longleftrightarrow> d < 26))"
proof -
  have p: "p < length bs" "byte_at bs p = Some (bs ! p)"
    using assms(3) by (auto simp: preparse_value_def p_def byte_at_def Let_def bind_eq_Some_conv split: if_splits)
  have d: "d \<le> 27" "(if d < 24 then 0 else 2 ^ (d - 24)) + 1 \<le> length bs - p"
    using assms(3,4) p by (auto simp: preparse_value_def p_def [symmetric] d_def [symmetric] Let_def Value64Bit_def Value8Bit_def is_fixed_type_def split: if_splits)
  show ?thesis
  proof (cases "drop_bit 5 (bs ! p AND MajorTypeMask) = 7")
    case True
    note t = major_simple [OF this]
    then show ?thesis
      using assms(3) p d t True
      by (auto simp: preparse_value_def p_def [symmetric] d_def [symmetric] Let_def Value64Bit_def Value8Bit_def MajorTypeShift_def
          preparse_simple_def cbor_flags bind_eq_Some_conv split: if_splits)
  next
    case False
    then show ?thesis
      using assms(3) p d
      by (auto simp: preparse_value_def p_def [symmetric] d_def [symmetric] Let_def Value64Bit_def Value8Bit_def MajorTypeShift_def
          cbor_flags CborIntegerType_def bind_eq_Some_conv split: if_splits)
  qed
qed

lemma byte_type: "b AND MajorTypeMask \<noteq> CborHalfFloatType" "b AND MajorTypeMask \<noteq> CborFloatType" "b AND MajorTypeMask \<noteq> CborDoubleType"
proof -
  have z: "\<not> bit (b AND MajorTypeMask) 0" "\<not> bit (b AND MajorTypeMask) 1" by (simp_all add: MajorTypeMask_def bit_simps)
  show "b AND MajorTypeMask \<noteq> CborHalfFloatType" "b AND MajorTypeMask \<noteq> CborDoubleType" using z(1) by (auto simp: cbor_types)
  have "bit CborFloatType 1" by (simp add: cbor_types)
  then show "b AND MajorTypeMask \<noteq> CborFloatType" using z(2) by metis
qed

lemma preparse_readable:
  assumes "preparse_value bs it = Some (CborNoError, v)"
  shows "readable bs v"
proof (cases "is_fixed_type (cv_type v)")
  case False
  then have "cv_type v \<notin> {CborIntegerType, CborHalfFloatType, CborFloatType, CborDoubleType}"
    by (auto simp: is_fixed_type_def cbor_types)
  then show ?thesis by (simp add: readable_def)
next
  case True
  let ?b = "bs ! cv_ptr it"
  let ?d = "unat (?b AND SmallValueMask)"
  note i = preparse_value_inv [OF assms True]
  have p: "cv_ptr v = cv_ptr it" "byte_at bs (cv_ptr v) = Some ?b" using i by (simp_all add: byte_at_def)
  have get: "\<exists>n. get_be k bs (cv_ptr v + 1) = Some n" if "24 \<le> ?d" "k = 2 ^ (?d - 24)" for k
  proof -
    have "cv_ptr v + 1 + k \<le> length bs" using i that by auto
    then show ?thesis using get_be_Some by blast
  qed
  have dec: "\<exists>n. cbor_value_decode_int64_internal bs v = Some n"
    if "?d = 26 \<or> ?d = 27" "cv_flags v AND 1 \<noteq> 0 \<or> cv_type v = CborFloatType \<or> cv_type v = CborDoubleType"
  proof -
    have "?b AND SmallValueMask = 26 \<or> ?b AND SmallValueMask = 27" using that(1) by (auto simp: word_unat_eq_iff)
    moreover have "?b AND 1 = (?b AND SmallValueMask) AND 1" by (simp add: SmallValueMask_def and.assoc)
    ultimately show ?thesis
      using get [of 4] get [of 8] that p(2) by (auto simp: cbor_value_decode_int64_internal_def CborIteratorFlag_IntegerValueTooLarge_def)
  qed
  have "\<exists>n. cbor_value_extract_int64_helper bs v = Some n" if "cv_type v = CborIntegerType"
  proof (cases "cv_flags v AND 1 = 0")
    case False
    then have "?d = 26 \<or> ?d = 27" using i by auto
    then show ?thesis using dec False by (simp add: cbor_value_extract_int64_helper_def CborIteratorFlag_IntegerValueTooLarge_def)
  qed (simp add: cbor_value_extract_int64_helper_def CborIteratorFlag_IntegerValueTooLarge_def)
  moreover have "\<exists>n. cbor_value_get_half_float bs v = Some n" if "cv_type v = CborHalfFloatType"
  proof -
    have "?b = 0xF9" using i that byte_type [of ?b] by (auto simp: cbor_types)
    then have "?d = 25" by (simp add: SmallValueMask_def)
    then show ?thesis using get [of 2] that by (auto simp: cbor_value_get_half_float_def)
  qed
  moreover have "(\<exists>n. cbor_value_get_float bs v = Some n)" if "cv_type v = CborFloatType"
  proof -
    have "?b = 0xFA" using i that byte_type [of ?b] by (auto simp: cbor_types)
    then have d: "?d = 26" by (simp add: SmallValueMask_def)
    then have "cv_flags v AND 1 \<noteq> 0" using i by auto
    then show ?thesis using dec d that by (auto simp: cbor_value_get_float_def CborIteratorFlag_IntegerValueTooLarge_def)
  qed
  moreover have "(\<exists>n. cbor_value_get_double bs v = Some n)" if "cv_type v = CborDoubleType"
  proof -
    have "?b = 0xFB" using i that byte_type [of ?b] by (auto simp: cbor_types)
    then have d: "?d = 27" by (simp add: SmallValueMask_def)
    then have "cv_flags v AND 1 \<noteq> 0" using i by auto
    then show ?thesis using dec d that by (auto simp: cbor_value_get_double_def CborIteratorFlag_IntegerValueTooLarge_def)
  qed
  ultimately show ?thesis by (auto simp: readable_def)
qed

lemma unat_of_nat_u32: "unat (of_nat n :: u32) = n mod 2 ^ 32"
  by (simp add: unsigned_of_nat take_bit_eq_mod)

lemma cv_ok_known: "cv_ok bs it \<Longrightarrow> cbor_value_is_length_known it \<Longrightarrow>
  \<exists>p len. extract_number bs (cv_ptr it) = Some (CborNoError, p, len) \<and> cv_ptr it < p \<and> p \<le> length bs"
  by (auto simp: cv_ok_def)

text \<open>What is inside a container: in a map of known length the number of values to come is even.\<close>

lemma enter_container_at:
  assumes "cv_ok bs it" "cbor_value_is_container it"
  shows "\<exists>e r. cbor_value_enter_container bs it = Some (e, r) \<and>
    (e = CborNoError \<longrightarrow> at_ok bs r \<and> cv_ptr it < cv_ptr r \<and>
       (cbor_value_is_map it \<and> cbor_value_is_length_known it \<longrightarrow> even (unat (cv_remaining r))))"
proof (cases "cbor_value_is_length_known it")
  case False
  note p = cv_okD [OF assms(1), THEN conjunct1]
  let ?it = "it\<lparr>cv_remaining := UINT32_MAX, cv_ptr := cv_ptr it + 1\<rparr>"
  obtain e r where r: "preparse_value bs ?it = Some (e, r)" "cv_ptr r = cv_ptr it + 1" "cv_remaining r = UINT32_MAX"
      "e = CborNoError \<longrightarrow> cv_ok bs r" "e = CborErrorUnexpectedBreak \<longrightarrow> cv_ptr it + 1 < length bs"
    using preparse_value_at [of ?it bs] p by auto
  then show ?thesis using assms(2) False p
    by (auto simp: cbor_value_enter_container_def at_ok_def UINT32_MAX_def)
next
  case True
  obtain p len where x: "extract_number bs (cv_ptr it) = Some (CborNoError, p, len)" "cv_ptr it < p" "p \<le> length bs"
    using cv_ok_known [OF assms(1) True] by blast
  let ?r = "it\<lparr>cv_ptr := p, cv_remaining := of_nat len\<rparr>"
  let ?bad = "unat (cv_remaining ?r) \<noteq> len \<or> len = unat UINT32_MAX" and ?big = "cv_type ?r = CborMapType \<and> cv_remaining ?r > UINT32_MAX div 2"
  show ?thesis
  proof (cases "?bad \<or> ?big")
    case True': True
    have "\<exists>r. cbor_value_enter_container bs it = Some (CborErrorDataTooLarge, r)"
      using assms(2) True True' x by (cases ?bad; cases ?big) (simp_all add: cbor_value_enter_container_def Let_def)
    then show ?thesis by auto
  next
    case False
    then have len: "len < 2 ^ 32 - 1" and "\<not> ?bad" "\<not> ?big"
      using unsigned_less [of "of_nat len :: u32", where 'a = nat] by (auto simp: UINT32_MAX_def)
    let ?r2 = "if cv_type ?r = CborMapType then ?r\<lparr>cv_remaining := 2 * cv_remaining ?r\<rparr> else ?r"
    have step: "cbor_value_enter_container bs it =
        (if len \<noteq> 0 then preparse_value bs ?r2 else Some (CborNoError, ?r2\<lparr>cv_type := CborInvalidType, cv_remaining := 0\<rparr>))"
      using assms(2) True x \<open>\<not> ?bad\<close> \<open>\<not> ?big\<close> by (auto simp: cbor_value_enter_container_def Let_def)
    have u: "unat (cv_remaining ?r2) = (if cv_type it = CborMapType then 2 * len else len)"
    proof (cases "cv_type it = CborMapType")
      case True
      then have "of_nat len \<le> (0x7FFFFFFF :: u32)" using \<open>\<not> ?big\<close> by (simp add: UINT32_MAX_def not_less)
      then have "unat (of_nat len :: u32) \<le> unat (0x7FFFFFFF :: u32)" by (rule word_le_nat_alt [THEN iffD1])
      then have "len \<le> 0x7FFFFFFF" using len by (simp add: unat_of_nat_u32)
      then show ?thesis using True unat_of_nat_u32 [of "2 * len"] by simp
    next
      case False
      then show ?thesis using \<open>\<not> ?bad\<close> by simp
    qed
    show ?thesis
    proof (cases "len = 0")
      case True
      then show ?thesis unfolding step using x by (auto simp: at_ok_def)
    next
      case False
      obtain e r where r: "preparse_value bs ?r2 = Some (e, r)" "cv_ptr r = cv_ptr ?r2" "cv_remaining r = cv_remaining ?r2"
          "e = CborNoError \<longrightarrow> cv_ok bs r"
      proof -
        have "cv_ptr ?r2 \<le> length bs" using x(3) by simp
        then show thesis using preparse_value_at [of ?r2 bs] that by blast
      qed
      have "cv_ptr ?r2 = p" "unat (cv_remaining ?r2) \<noteq> 0" using u False by simp_all
      moreover have "cbor_value_is_map it \<longrightarrow> even (unat (cv_remaining ?r2))"
      proof
        assume "cbor_value_is_map it"
        then have "unat (cv_remaining ?r2) = 2 * len" unfolding u by (simp add: cbor_value_is_map_def)
        then show "even (unat (cv_remaining ?r2))" by (simp only: dvd_triv_left)
      qed
      ultimately show ?thesis unfolding step using r False x(2,3) by (auto simp: at_ok_def simp del: unat_eq_zero)
    qed
  qed
qed

lemma string_type: "\<not> is_fixed_type ty \<Longrightarrow> \<not> (ty = CborArrayType \<or> ty = CborMapType) \<Longrightarrow> ty = CborTextStringType \<or> ty = CborByteStringType"
  by (auto simp: is_fixed_type_def)

lemma advance_string_at:
  assumes "cv_ok bs it" "\<not> is_fixed_type (cv_type it)" "\<not> cbor_value_is_container it" "cv_remaining it \<noteq> 0"
  shows "\<exists>e it'. advance_recursive (Suc n) bs d it = Some (e, it') \<and> next_ok bs it e it'"
proof -
  have "cv_type it = CborTextStringType \<or> cv_type it = CborByteStringType"
    using string_type assms(2,3) by (simp add: cbor_value_is_container_def)
  then obtain e len r buf it2 where "iterate_string_chunks bs it iterate_noop SIZE_MAX [] True = Some (e, len, r, buf, it2)" "next_ok bs it e it2"
    using iterate_at [OF assms(1) _ assms(4) noop_safe, of SIZE_MAX "[]" True] by auto
  then show ?thesis using assms(2,3) by (auto simp: next_ok_def)
qed

lemma leave_container_at:
  assumes "cbor_value_is_container it" "cv_type r = CborInvalidType" "cv_ptr it < cv_ptr r" "cv_ptr r \<le> length bs" "cv_remaining it \<noteq> 0"
  shows "\<exists>e it'. cbor_value_leave_container bs it r = Some (e, it') \<and> next_ok bs it e it'"
  using assms next_at [of it "cv_ptr r" bs] by (simp add: cbor_value_leave_container_def)

lemma advance_items_at:
  assumes "at_ok bs it" "2 * (length bs - cv_ptr it) + 2 \<le> Suc n"
    and rec: "\<And>it d. cv_ok bs it \<Longrightarrow> cv_remaining it \<noteq> 0 \<Longrightarrow> 2 * (length bs - cv_ptr it) + 1 \<le> n \<Longrightarrow>
      \<exists>e it'. advance_recursive n bs d it = Some (e, it') \<and> next_ok bs it e it'"
    and items: "\<And>it d. at_ok bs it \<Longrightarrow> 2 * (length bs - cv_ptr it) + 2 \<le> n \<Longrightarrow>
      \<exists>e it'. advance_items n bs d it = Some (e, it') \<and>
        (e = CborNoError \<longrightarrow> cv_type it' = CborInvalidType \<and> cv_ptr it \<le> cv_ptr it' \<and> cv_ptr it' \<le> length bs)"
  shows "\<exists>e it'. advance_items (Suc n) bs d it = Some (e, it') \<and>
    (e = CborNoError \<longrightarrow> cv_type it' = CborInvalidType \<and> cv_ptr it \<le> cv_ptr it' \<and> cv_ptr it' \<le> length bs)"
proof (cases "cv_remaining it = 0")
  case True
  then show ?thesis using assms(1) by (simp add: cbor_value_at_end_def at_ok_def)
next
  case False
  obtain e it1 where r: "advance_recursive n bs d it = Some (e, it1)" "next_ok bs it e it1"
    using rec [of it d] assms(1,2) False at_ok_remaining by auto
  show ?thesis
  proof (cases "e = CborNoError")
    case True
    then have n: "at_ok bs it1" "cv_ptr it < cv_ptr it1" using r(2) by (simp_all add: next_ok_def)
    then have "2 * (length bs - cv_ptr it1) + 2 \<le> n" using assms(2) by (auto simp: at_ok_def)
    from items [OF n(1) this, of d] show ?thesis using r(1) True False n(2) by (fastforce simp: cbor_value_at_end_def)
  qed (use r False in \<open>simp add: cbor_value_at_end_def\<close>)
qed

lemma advance_recursive_at:
  "(\<forall>it d. cv_ok bs it \<longrightarrow> cv_remaining it \<noteq> 0 \<longrightarrow> 2 * (length bs - cv_ptr it) + 1 \<le> n \<longrightarrow>
     (\<exists>e it'. advance_recursive n bs d it = Some (e, it') \<and> next_ok bs it e it')) \<and>
   (\<forall>it d. at_ok bs it \<longrightarrow> 2 * (length bs - cv_ptr it) + 2 \<le> n \<longrightarrow>
     (\<exists>e it'. advance_items n bs d it = Some (e, it') \<and>
       (e = CborNoError \<longrightarrow> cv_type it' = CborInvalidType \<and> cv_ptr it \<le> cv_ptr it' \<and> cv_ptr it' \<le> length bs)))"
proof (induction n)
  case (Suc n)
  have "\<exists>e it'. advance_recursive (Suc n) bs d it = Some (e, it') \<and> next_ok bs it e it'"
    if it: "cv_ok bs it" "cv_remaining it \<noteq> 0" "2 * (length bs - cv_ptr it) + 1 \<le> Suc n" for it d
  proof -
    consider "is_fixed_type (cv_type it)" | "\<not> is_fixed_type (cv_type it)" "\<not> cbor_value_is_container it"
      | "\<not> is_fixed_type (cv_type it)" "cbor_value_is_container it" by blast
    then show ?thesis
    proof cases
      case 1
      then show ?thesis using advance_internal_at [OF it(1) _ it(2)] by simp
    next
      case 2
      then show ?thesis using advance_string_at it by blast
    next
      case 3
      obtain e r where r: "cbor_value_enter_container bs it = Some (e, r)" "e = CborNoError \<longrightarrow> at_ok bs r \<and> cv_ptr it < cv_ptr r"
        using enter_container_at [OF it(1) 3(2)] by blast
      show ?thesis
      proof (cases "d = CBOR_PARSER_MAX_RECURSIONS \<or> e \<noteq> CborNoError")
        case True
        then show ?thesis using 3 r(1) by (auto simp: next_ok_def)
      next
        case False
        then have "at_ok bs r" "2 * (length bs - cv_ptr r) + 2 \<le> n" using r(2) it(3) by (auto simp: at_ok_def)
        then obtain e2 r2 where r2: "advance_items n bs (d + 1) r = Some (e2, r2)"
            "e2 = CborNoError \<longrightarrow> cv_type r2 = CborInvalidType \<and> cv_ptr r \<le> cv_ptr r2 \<and> cv_ptr r2 \<le> length bs"
          using Suc.IH by blast
        have step: "advance_recursive (Suc n) bs d it = (if e2 \<noteq> CborNoError then Some (e2, it) else cbor_value_leave_container bs it r2)"
          using 3 False r(1) r2(1) by simp
        show ?thesis
        proof (cases "e2 = CborNoError")
          case True
          then show ?thesis unfolding step using leave_container_at [OF 3(2), of r2 bs] r(2) r2(2) False it(2) by simp
        qed (simp add: step next_ok_def del: advance_recursive.simps)
      qed
    qed
  qed
  then show ?case using advance_items_at [of bs _ n] Suc.IH by blast
qed simp

lemma cbor_value_advance_at:
  assumes "cv_ok bs it" "cv_remaining it \<noteq> 0"
  shows "\<exists>e it'. cbor_value_advance bs it = Some (e, it') \<and> next_ok bs it e it'"
  using advance_recursive_at [of bs "2 * length bs + 3"] assms cv_okD [OF assms(1)] by (auto simp: cbor_value_advance_def)

section \<open>Searching a map of known length always succeeds\<close>

lemma cbor_value_skip_tag_at:
  assumes "at_ok bs it" "cv_remaining it \<noteq> 0" "cv_remaining it \<noteq> UINT32_MAX"
  shows "\<exists>e it'. cbor_value_skip_tag bs it = Some (e, it') \<and> (e = CborNoError \<longrightarrow> cv_ok bs it' \<and> cv_type it' \<noteq> CborTagType \<and>
     cv_ptr it \<le> cv_ptr it' \<and> cv_remaining it' = cv_remaining it)"
  unfolding cbor_value_skip_tag_def by (rule skip_tag_loop_at [OF _ assms]) simp

text \<open>The key of an entry: compared when it is a text, skipped otherwise.\<close>

lemma find_key_at:
  assumes "cv_ok bs it" "cv_remaining it \<noteq> 0"
  shows "\<exists>e eq it'. (if cbor_value_is_text_string it
      then map_option (\<lambda>(e, _, equals, _, next). (e, equals, next)) (iterate_string_chunks bs it iterate_memcmp (length key) (key @ [0]) True)
      else map_option (\<lambda>(e, next). (e, False, next)) (cbor_value_advance bs it)) = Some (e, eq, it') \<and> next_ok bs it e it'"
proof (cases "cbor_value_is_text_string it")
  case True
  then show ?thesis
    using iterate_at [OF assms(1) _ assms(2) memcmp_safe [of "length key"], of "key @ [0]" True]
    by (fastforce simp: cbor_value_is_text_string_def)
next
  case False
  then show ?thesis using cbor_value_advance_at [OF assms] by auto
qed

definition even_ok :: "cbor_value \<Rightarrow> bool" where
  "even_ok it \<longleftrightarrow> even (unat (cv_remaining it))"

lemma even_not_max: "even (unat (w :: u32)) \<Longrightarrow> w \<noteq> UINT32_MAX"
  by (auto simp: UINT32_MAX_def)

lemma even_pred:
  fixes w :: u32
  assumes "even (unat w)" "w \<noteq> 0"
  shows "odd (unat (w - 1))" "w - 1 \<noteq> 0" "w - 1 \<noteq> UINT32_MAX" "even (unat (w - 1 - 1))"
proof -
  have "0 < unat w" using assms(2) by (simp add: unat_gt_0)
  then have "2 \<le> unat w" using assms(1) by (metis One_nat_def Suc_leI dvd_antisym even_Suc le_antisym not_less_eq_eq numeral_2_eq_2 odd_one)
  have u: "unat (w - 1) = unat w - 1" using assms(2) by (rule unat_minus_one)
  then show "odd (unat (w - 1))" using \<open>2 \<le> unat w\<close> assms(1) by simp
  then show nz: "w - 1 \<noteq> 0" by auto
  show "even (unat (w - 1 - 1))" using unat_minus_one [OF nz] u assms(1) \<open>2 \<le> unat w\<close> by simp
  show "w - 1 \<noteq> UINT32_MAX"
  proof
    assume "w - 1 = UINT32_MAX"
    then have "w = 0" by (simp add: UINT32_MAX_def eq_diff_eq [symmetric])
    then show False using assms(2) by simp
  qed
qed

lemma find_loop_at:
  "\<lbrakk>length bs - cv_ptr it < n; at_ok bs it; even_ok it\<rbrakk> \<Longrightarrow>
     \<exists>e it'. find_loop n bs key it = Some (e, it') \<and> (e = CborNoError \<longrightarrow> cv_type it' = CborInvalidType \<or> cv_ok bs it' \<and> readable bs it')"
proof (induction n arbitrary: it)
  case (Suc n)
  show ?case
  proof (cases "cv_remaining it = 0")
    case nz: False
    note ev = Suc.prems(3) [unfolded even_ok_def]
    note pred = even_pred [OF ev nz]
    obtain e1 it1 where s1: "cbor_value_skip_tag bs it = Some (e1, it1)"
        "e1 = CborNoError \<longrightarrow> cv_ok bs it1 \<and> cv_type it1 \<noteq> CborTagType \<and> cv_ptr it \<le> cv_ptr it1 \<and> cv_remaining it1 = cv_remaining it"
      using cbor_value_skip_tag_at [OF Suc.prems(2) nz even_not_max [OF ev]] by blast
    show ?thesis
    proof (cases "e1 = CborNoError")
      case e1: True
      obtain e2 eq it2 where s2: "(if cbor_value_is_text_string it1
            then map_option (\<lambda>(e, _, equals, _, next). (e, equals, next)) (iterate_string_chunks bs it1 iterate_memcmp (length key) (key @ [0]) True)
            else map_option (\<lambda>(e, next). (e, False, next)) (cbor_value_advance bs it1)) = Some (e2, eq, it2)" "next_ok bs it1 e2 it2"
        using find_key_at [of bs it1 key] s1(2) e1 nz by auto
      show ?thesis
      proof (cases "e2 \<noteq> CborNoError \<or> eq")
        case True
        then show ?thesis
          using nz s1(1) e1 s2 preparse_value_at [of it2 bs] preparse_readable [of bs it2] by (auto simp: cbor_value_at_end_def next_ok_def at_ok_def)
      next
        case False
        then have k2: "at_ok bs it2" "cv_ptr it < cv_ptr it2" "cv_remaining it2 = cv_remaining it - 1"
          using s2(2) s1(2) e1 even_not_max [OF ev] by (auto simp: next_ok_def)
        obtain e3 it3 where s3: "cbor_value_skip_tag bs it2 = Some (e3, it3)"
            "e3 = CborNoError \<longrightarrow> cv_ok bs it3 \<and> cv_type it3 \<noteq> CborTagType \<and> cv_ptr it2 \<le> cv_ptr it3 \<and> cv_remaining it3 = cv_remaining it2"
          using cbor_value_skip_tag_at [OF k2(1)] pred(2,3) k2(3) by auto
        show ?thesis
        proof (cases "e3 = CborNoError")
          case e3: True
          obtain e4 it4 where s4: "cbor_value_advance bs it3 = Some (e4, it4)" "next_ok bs it3 e4 it4"
            using cbor_value_advance_at [of bs it3] s3(2) e3 k2(3) pred(2) by auto
          have step: "find_loop (Suc n) bs key it =
              (if e4 \<noteq> CborNoError then Some (e4, it4\<lparr>cv_type := CborInvalidType\<rparr>) else find_loop n bs key it4)"
            using nz s1(1) e1 s2(1) False s3(1) e3 s4(1) by (simp add: cbor_value_at_end_def)
          show ?thesis
          proof (cases "e4 = CborNoError")
            case True
            then have k4: "at_ok bs it4" "cv_ptr it < cv_ptr it4" "even_ok it4"
              using s4(2) s3(2) e3 k2 pred by (auto simp: next_ok_def even_ok_def)
            then have "length bs - cv_ptr it4 < n" using Suc.prems(1) by (auto simp: at_ok_def)
            from Suc.IH [OF this k4(1,3)] show ?thesis using step True by simp
          qed (simp add: step del: find_loop.simps)
        qed (use nz s1(1) e1 s2(1) False s3(1) in \<open>simp add: cbor_value_at_end_def\<close>)
      qed
    qed (use nz s1(1) in \<open>simp add: cbor_value_at_end_def\<close>)
  qed (simp add: cbor_value_at_end_def)
qed simp



lemma text_compare:
  assumes "cbor_value_is_text_string v" "cbor_value_is_length_known v" "extract_number bs (cv_ptr v) = Some (CborNoError, p, length s)"
    "mem_read p (length s) bs = Some s" "length s \<le> SIZE_MAX" "0 \<notin> set key"
  shows "iterate_string_chunks bs v iterate_memcmp (length key) (key @ [0]) True =
    map_option (\<lambda>(e, next). (e, length s, s = key, key @ [0], next)) (preparse_next_value bs (v\<lparr>cv_ptr := p + length s\<rparr>))"
proof -
  have fit: "p + length s \<le> length bs" "take (length s) (drop p bs) = s" using assms(4) by (auto simp: mem_read_def split: if_splits)
  have ty: "cv_type v \<noteq> CborByteStringType \<and> cv_type v \<noteq> CborTextStringType \<longleftrightarrow> False"
    using assms(1) by (simp add: cbor_value_is_text_string_def)
  have s: "string_chunks bs v iterate_memcmp (length key) (key @ [0]) =
      Some (CborNoError, length s, length s \<le> length key \<and> take (length s) key = s, key @ [0], p + length s)"
    using assms(2,3,5) fit by (simp add: string_chunks_def extract_length_def iterate_memcmp_def mem_read_def)
  have r: "(if length s \<le> length key \<and> take (length s) key = s \<and> length key > length s then iterate_memcmp (length s) [0] (key @ [0])
      else Some (length s \<le> length key \<and> take (length s) key = s, key @ [0])) = Some (s = key, key @ [0])"
  proof (cases "length s < length key")
    case True
    then have "take 1 (drop (length s) (key @ [0])) = [key ! length s]" by (simp add: take_Suc_conv_app_nth nth_append Cons_nth_drop_Suc [symmetric])
    moreover have "key ! length s \<noteq> 0" using True assms(6) nth_mem by fastforce
    ultimately show ?thesis using True by (auto simp: iterate_memcmp_def mem_read_def)
  next
    case False
    then show ?thesis by auto
  qed
  show ?thesis unfolding iterate_string_chunks_def ty s using r by (cases "preparse_next_value bs (v\<lparr>cv_ptr := p + length s\<rparr>)") auto
qed

lemma skip_no_tag: "\<not> cbor_value_is_tag it \<Longrightarrow> cbor_value_skip_tag bs it = Some (CborNoError, it)"
  by (simp add: cbor_value_skip_tag_def)

text \<open>A map of unknown length that ends after a key makes the search for any other key fail an assertion: four
  bytes from the network stop the program.\<close>

theorem cbor_odd_map_aborts:
  assumes "key \<noteq> [c]" "0 \<notin> set key"
  shows "\<exists>mp. cbor_parser_init [0xBF, 0x61, c, 0xFF] = Some (CborNoError, mp) \<and> cbor_value_is_map mp \<and>
    cbor_value_map_find_value [0xBF, 0x61, c, 0xFF] mp key = None"
proof -
  let ?bs = "[0xBF, 0x61, c, 0xFF] :: u8 list" and ?mp = "\<lparr>cv_ptr = 0, cv_remaining = 1, cv_extra = 31, cv_type = 0xA0, cv_flags = 4\<rparr>"
    and ?k = "\<lparr>cv_ptr = 1, cv_remaining = UINT32_MAX, cv_extra = 1, cv_type = 0x60, cv_flags = 0\<rparr>"
    and ?past = "\<lparr>cv_ptr = 4, cv_remaining = 0, cv_extra = 1, cv_type = 0xFF, cv_flags = 0\<rparr>"
  note defs = byte_at_def cbor_consts cbor_types cbor_flags is_fixed_type_def
  have "cbor_parser_init ?bs = Some (CborNoError, ?mp)" by (simp add: cbor_parser_init_def preparse_value_def defs)
  moreover have "cbor_value_is_map ?mp" by (simp add: cbor_value_is_map_def cbor_types)
  moreover have enter: "cbor_value_enter_container ?bs ?mp = Some (CborNoError, ?k)"
    by (simp add: cbor_value_enter_container_def cbor_value_is_container_def cbor_value_is_length_known_def preparse_value_def defs)
  moreover have "iterate_string_chunks ?bs ?k iterate_memcmp (length key) (key @ [0]) True = Some (CborNoError, 1, [c] = key, key @ [0], ?past)"
  proof -
    have "extract_number ?bs 1 = Some (CborNoError, 2, length [c])" by (simp add: extract_number_def byte_at_def cbor_consts)
    then show ?thesis
      using text_compare [of ?k ?bs 2 "[c]" key] assms(2)
      by (simp add: cbor_value_is_text_string_def cbor_value_is_length_known_def defs mem_read_def SIZE_MAX_def preparse_next_value_def)
  qed
  moreover from this have "find_loop (Suc n) ?bs key ?k = None" for n
    using assms(1) skip_no_tag [of ?k ?bs] skip_no_tag [of ?past ?bs]
    by (simp add: cbor_value_at_end_def cbor_value_is_tag_def cbor_value_is_text_string_def cbor_value_advance_def UINT32_MAX_def cbor_types)
  then have "find_loop (length ?bs + 1) ?bs key ?k = None" by (simp only: Suc_eq_plus1 [symmetric])
  ultimately show ?thesis by (simp add: cbor_value_map_find_value_def)
qed

theorem cbor_odd_map_aborts_witness:
  "\<exists>mp. cbor_parser_init [0xBF, 0x61, 0x61, 0xFF] = Some (CborNoError, mp) \<and>
    cbor_value_map_find_value [0xBF, 0x61, 0x61, 0xFF] mp (chars ''MESSAGE_TYPE'') = None"
  using cbor_odd_map_aborts [of "chars ''MESSAGE_TYPE''" "0x61"] by (auto simp: chars_def)

end
