(* ===== verification/KCborMsg.thy ===== *)
theory KCborMsg
  imports KCbor
begin

text \<open>
  The messages of the services, maps from texts to values: what the encoder of \<open>tinycbor\<close> writes into a buffer
  that is large enough, and that the parser finds every value of such a map again.
\<close>

section \<open>Messages that were written\<close>

text \<open>What the services put into a map: the bytes of a value and their number.\<close>

datatype cbor_item = Number u8 nat | Simple u8 | Half u16 | Float u32 | Double u64 | Text "u8 list"

fun item_bytes :: "cbor_item \<Rightarrow> u8 list" where
  "item_bytes (Number major n) = number_bytes n major"
| "item_bytes (Simple v) = number_bytes (unat v) 0xE0"
| "item_bytes (Half v) = CborHalfFloatType # be_bytes 2 (unat v)"
| "item_bytes (Float v) = CborFloatType # be_bytes 4 (unat v)"
| "item_bytes (Double v) = CborDoubleType # be_bytes 8 (unat v)"
| "item_bytes (Text s) = number_bytes (length s) 0x60 @ s"

fun item_ok :: "cbor_item \<Rightarrow> bool" where
  "item_ok (Number major n) \<longleftrightarrow> (major = 0 \<or> major = 0x20) \<and> n < 2 ^ 64"
| "item_ok (Simple v) \<longleftrightarrow> v < 20"
| "item_ok (Text s) \<longleftrightarrow> length s < 2 ^ 64"
| "item_ok _ \<longleftrightarrow> True"

text \<open>An integer with its sign is a number of the first or the second major type.\<close>

definition int_item :: "u64 \<Rightarrow> cbor_item" where
  "int_item v = (if v <s 0 then Number 0x20 (unat (NOT v)) else Number 0 (unat v))"

text \<open>An encoder that has written \<open>bs\<close> into a buffer of \<open>n\<close> bytes.\<close>

definition written :: "nat \<Rightarrow> u8 list \<Rightarrow> nat \<Rightarrow> cbor_encoder \<Rightarrow> u8 list \<Rightarrow> bool" where
  "written n bs added enc m \<longleftrightarrow> length m = n \<and> take (length bs) m = bs \<and> length bs \<le> n \<and>
     ce_data enc = length bs \<and> ce_end enc = Some n \<and> ce_added enc = added"

lemma append_written:
  assumes "written n bs k enc m" "length bs + length xs \<le> n"
  shows "\<exists>enc' m'. append_to_buffer enc xs m = Some (CborNoError, enc', m') \<and> written n (bs @ xs) k enc' m' \<and> ce_flags enc' = ce_flags enc"
proof -
  have "mem_write (length bs) xs m = Some (take (length bs) m @ xs @ drop (length bs + length xs) m)"
    using assms by (simp add: written_def mem_write_def)
  then show ?thesis using assms by (auto simp: written_def append_to_buffer_def would_overflow_def)
qed

lemma written_added: "written n bs k enc m \<Longrightarrow> written n bs k' (enc\<lparr>ce_added := k'\<rparr>) m"
  by (simp add: written_def)

lemma number_written:
  assumes "written n bs k enc m" "length bs + length (number_bytes v major) \<le> n"
  shows "\<exists>enc' m'. encode_number enc v major m = Some (CborNoError, enc', m') \<and> written n (bs @ number_bytes v major) (k + 1) enc' m' \<and>
    ce_flags enc' = ce_flags enc"
proof -
  have "ce_added enc = k" using assms(1) by (simp add: written_def)
  then show ?thesis
    using append_written [OF written_added [OF assms(1), of "k + 1"] assms(2)]
    by (simp add: encode_number_def encode_number_no_update_def)
qed

lemma int_number:
  "(let ui = signed_drop_bit 63 v; majorType = ucast ui AND 0x20; ui = ui XOR v in (unat ui, majorType)) =
    (if v <s (0 :: u64) then (unat (NOT v), 0x20 :: u8) else (unat v, 0))"
proof (cases "bit v 63")
  case True
  have "bit (signed_drop_bit 63 v) n = bit (- 1 :: u64) n" if "n < 64" for n
    using True that by (cases "n = 0") (simp_all add: bit_signed_drop_bit_iff)
  then have "signed_drop_bit 63 v = - 1" by (intro bit_word_eqI) simp
  moreover have "v <s 0" using True by (simp add: word_sless_alt sint_uint bit_uint_iff)
  moreover have "ucast (- 1 :: u64) = (- 1 :: u8)" by (intro bit_word_eqI) (simp add: bit_simps)
  ultimately show ?thesis by (simp add: Let_def)
next
  case False
  have "bit (signed_drop_bit 63 v) n = bit (0 :: u64) n" if "n < 64" for n
    using False that by (cases "n = 0") (simp_all add: bit_signed_drop_bit_iff)
  then have "signed_drop_bit 63 v = 0" by (intro bit_word_eqI) simp
  moreover have "\<not> v <s 0" using False by (simp add: word_sless_alt sint_uint bit_uint_iff)
  ultimately show ?thesis by (simp add: Let_def)
qed

lemma item_written:
  assumes "written n bs k enc m" "length bs + length (item_bytes it) \<le> n"
  shows
   "it = int_item v \<Longrightarrow> \<exists>enc' m'. cbor_encode_int enc v m = Some (CborNoError, enc', m') \<and> written n (bs @ item_bytes it) (k + 1) enc' m' \<and> ce_flags enc' = ce_flags enc"
   "it = Simple w \<Longrightarrow> item_ok it \<Longrightarrow> \<exists>enc' m'. cbor_encode_simple_value enc w m = Some (CborNoError, enc', m') \<and> written n (bs @ item_bytes it) (k + 1) enc' m' \<and> ce_flags enc' = ce_flags enc"
   "it = Half h \<Longrightarrow> \<exists>enc' m'. cbor_encode_half_float enc h m = Some (CborNoError, enc', m') \<and> written n (bs @ item_bytes it) (k + 1) enc' m' \<and> ce_flags enc' = ce_flags enc"
   "it = Float f \<Longrightarrow> \<exists>enc' m'. cbor_encode_float enc f m = Some (CborNoError, enc', m') \<and> written n (bs @ item_bytes it) (k + 1) enc' m' \<and> ce_flags enc' = ce_flags enc"
   "it = Double d \<Longrightarrow> \<exists>enc' m'. cbor_encode_double enc d m = Some (CborNoError, enc', m') \<and> written n (bs @ item_bytes it) (k + 1) enc' m' \<and> ce_flags enc' = ce_flags enc"
   "it = Text s \<Longrightarrow> \<exists>enc' m'. cbor_encode_text_stringz enc s m = Some (CborNoError, enc', m') \<and> written n (bs @ item_bytes it) (k + 1) enc' m' \<and> ce_flags enc' = ce_flags enc"
proof -
  have a: "ce_added enc = k" using assms(1) by (simp add: written_def)
  { assume "it = int_item v"
    then show "\<exists>enc' m'. cbor_encode_int enc v m = Some (CborNoError, enc', m') \<and> written n (bs @ item_bytes it) (k + 1) enc' m' \<and> ce_flags enc' = ce_flags enc"
      using number_written [OF assms(1)] assms(2) int_number [of v]
      by (auto simp: cbor_encode_int_def int_item_def Let_def split: if_splits) }
  { assume it: "it = Simple w" "item_ok it"
    have "\<not> 25 \<le> w" using it by (auto dest: le_less_trans)
    with it show "\<exists>enc' m'. cbor_encode_simple_value enc w m = Some (CborNoError, enc', m') \<and> written n (bs @ item_bytes it) (k + 1) enc' m' \<and> ce_flags enc' = ce_flags enc"
      using number_written [OF assms(1)] assms(2) by (auto simp: cbor_encode_simple_value_def) }
  note fp = append_written [OF written_added [OF assms(1), of "k + 1"]]
  { assume "it = Half h"
    then show "\<exists>enc' m'. cbor_encode_half_float enc h m = Some (CborNoError, enc', m') \<and> written n (bs @ item_bytes it) (k + 1) enc' m' \<and> ce_flags enc' = ce_flags enc"
      using fp assms(2) a by (simp add: cbor_encode_half_float_def cbor_encode_floating_point_def) }
  { assume "it = Float f"
    then show "\<exists>enc' m'. cbor_encode_float enc f m = Some (CborNoError, enc', m') \<and> written n (bs @ item_bytes it) (k + 1) enc' m' \<and> ce_flags enc' = ce_flags enc"
      using fp assms(2) a by (simp add: cbor_encode_float_def cbor_encode_floating_point_def cbor_types) }
  { assume "it = Double d"
    then show "\<exists>enc' m'. cbor_encode_double enc d m = Some (CborNoError, enc', m') \<and> written n (bs @ item_bytes it) (k + 1) enc' m' \<and> ce_flags enc' = ce_flags enc"
      using fp assms(2) a by (simp add: cbor_encode_double_def cbor_encode_floating_point_def cbor_types) }
  { assume it: "it = Text s"
    then obtain e1 m1 where 1: "encode_number enc (length s) 0x60 m = Some (CborNoError, e1, m1)"
        "written n (bs @ number_bytes (length s) 0x60) (k + 1) e1 m1" "ce_flags e1 = ce_flags enc"
      using number_written [OF assms(1), of "length s" "0x60"] assms(2) by auto
    show "\<exists>enc' m'. cbor_encode_text_stringz enc s m = Some (CborNoError, enc', m') \<and> written n (bs @ item_bytes it) (k + 1) enc' m' \<and> ce_flags enc' = ce_flags enc"
      using append_written [OF 1(2), of s] 1 assms(2) it by (simp add: cbor_encode_text_stringz_def encode_string_def) }
qed

lemma length_be_bytes [simp]: "length (be_bytes k v) = k"
  by (simp add: be_bytes_def)

lemma be_bytes_Suc: "be_bytes (Suc k) v = be_bytes k (v div 256) @ [of_nat v]"
proof -
  have "rev [0..<Suc k] = map Suc (rev [0..<k]) @ [0]" by (simp add: rev_map [symmetric] map_Suc_upt upt_conv_Cons del: upt_Suc)
  then show ?thesis by (simp add: be_bytes_def div_mult2_eq mult.commute del: upt_Suc)
qed

lemma of_be_bytes_append: "of_be_bytes (xs @ [b]) = 256 * of_be_bytes xs + unat b"
  by (simp add: of_be_bytes_def)

lemma of_be_be [simp]: "v < 256 ^ k \<Longrightarrow> of_be_bytes (be_bytes k v) = v"
proof (induction k arbitrary: v)
  case 0
  then show ?case by (simp add: be_bytes_def of_be_bytes_def)
next
  case (Suc k)
  then have "v div 256 < 256 ^ k" by (simp add: less_mult_imp_div_less mult.commute)
  then show ?case using Suc.IH by (simp add: be_bytes_Suc of_be_bytes_append unsigned_of_nat take_bit_eq_mod)
qed

definition majors :: "u8 set" where "majors = {0, 0x20, 0x60, 0xA0, 0xE0}"

lemma head_byte:
  assumes "n < 28" "major \<in> majors"
  shows "(of_nat n + major) AND SmallValueMask = of_nat n \<and> (of_nat n + major) AND MajorTypeMask = major"
proof -
  have "\<forall>n \<in> set [0..<28]. \<forall>m \<in> set [0, 0x20, 0x60, 0xA0, 0xE0 :: u8].
      (of_nat n + m) AND SmallValueMask = of_nat n \<and> (of_nat n + m) AND MajorTypeMask = m" by code_simp
  then show ?thesis using assms by (auto simp: majors_def)
qed

text \<open>The first byte and the bytes that follow it.\<close>

definition more_of :: "nat \<Rightarrow> nat" where
  "more_of n = (if n < 24 then n else if n \<le> 0xFF then 24 else if n \<le> 0xFFFF then 25 else if n \<le> 0xFFFFFFFF then 26 else 27)"

definition tail_of :: "nat \<Rightarrow> u8 list" where
  "tail_of n = (if n < 24 then [] else be_bytes (2 ^ (more_of n - 24)) n)"

lemma number_bytes_split: "number_bytes n major = (of_nat (more_of n) + major) # tail_of n"
  by (simp add: number_bytes_def more_of_def tail_of_def Value8Bit_def Let_def add.commute)

lemma more_of_less: "more_of n < 28"
  by (simp add: more_of_def)

lemma tail_of_value: "24 \<le> n \<Longrightarrow> n < 2 ^ 64 \<Longrightarrow> length (tail_of n) = 2 ^ (more_of n - 24) \<and> of_be_bytes (tail_of n) = n"
  by (simp add: tail_of_def) (auto simp: more_of_def)

lemma unat_more: "unat (of_nat (more_of n) :: u8) = more_of n"
  using more_of_less [of n] by (simp add: unsigned_of_nat take_bit_nat_eq_self)

lemma number_at:
  assumes "n < 2 ^ 64" "major \<in> majors" "bs = pre @ number_bytes n major @ post"
  shows "extract_number bs (length pre) = Some (CborNoError, length pre + length (number_bytes n major), n)"
proof -
  note h = head_byte [OF more_of_less assms(2), of n]
  have b: "byte_at bs (length pre) = Some (of_nat (more_of n) + major)" using assms(3) by (simp add: byte_at_def number_bytes_split)
  show ?thesis
  proof (cases "n < 24")
    case True
    then have m: "more_of n = n" "tail_of n = []" by (simp_all add: more_of_def tail_of_def)
    show ?thesis using True b h unat_more [of n] by (simp add: extract_number_def number_bytes_split m Value8Bit_def)
  next
    case False
    then have t: "length (tail_of n) = 2 ^ (more_of n - 24)" "of_be_bytes (tail_of n) = n" "24 \<le> more_of n" "more_of n \<le> 27"
      using tail_of_value assms(1) by (auto simp: more_of_def)
    have "bs = (pre @ [of_nat (more_of n) + major]) @ tail_of n @ post" using assms(3) by (simp add: number_bytes_split)
    then have "mem_read (length pre + 1) (length (tail_of n)) bs = Some (tail_of n)"
      using mem_at [of "pre @ [of_nat (more_of n) + major]" "length pre + 1" "tail_of n" "length (tail_of n)" post] by simp
    then have "get_be (2 ^ (more_of n - 24)) bs (length pre + 1) = Some n" using t by (simp add: get_be_def)
    moreover have "2 ^ (more_of n - 24) \<le> length bs - (length pre + 1)" using assms(3) t(1) by (simp add: number_bytes_split)
    ultimately show ?thesis
      using b h unat_more [of n] t by (simp add: extract_number_def number_bytes_split Value8Bit_def Value64Bit_def Let_def)
  qed
qed

text \<open>How the value of an item is parsed.\<close>

lemma preparse_eq:
  assumes "byte_at bs (cv_ptr it) = Some b" "unat (b AND SmallValueMask) = d" "b AND MajorTypeMask = t" "d \<le> 27"
    "(if d < 24 then 0 else 2 ^ (d - 24)) + 1 \<le> length bs - cv_ptr it"
  shows "preparse_value bs it =
    (let it = it\<lparr>cv_type := t, cv_flags := 0, cv_extra := of_nat d\<rparr>; majortype = drop_bit MajorTypeShift t;
         it = (if majortype = 1 then it\<lparr>cv_flags := 2, cv_type := 0\<rparr> else it)
     in if majortype = 7 then preparse_simple bs d it
        else if d < 24 then Some (CborNoError, it)
        else if d = 24 then map_option (\<lambda>v. (CborNoError, it\<lparr>cv_extra := of_nat v\<rparr>)) (get_be 1 bs (cv_ptr it + 1))
        else if d = 25 then map_option (\<lambda>v. (CborNoError, it\<lparr>cv_extra := of_nat v\<rparr>)) (get_be 2 bs (cv_ptr it + 1))
        else Some (CborNoError, it\<lparr>cv_flags := cv_flags it OR 1\<rparr>))"
proof -
  have p: "cv_ptr it \<noteq> length bs" using assms(1) by (simp add: byte_at_def split: if_splits)
  have m: "map_option f x = x \<bind> (\<lambda>v. Some (f v))" for f :: "nat \<Rightarrow> cbor_error \<times> cbor_value" and x by (cases x) simp_all
  have fit: "\<not> (if d < Value8Bit then 0 else 2 ^ (d - Value8Bit)) + 1 > length bs - cv_ptr it" using assms(5) by (auto simp: Value8Bit_def split: if_splits)
  show ?thesis
    using assms(1-4) p fit unfolding preparse_value_def m
    by (cases "d < 24"; cases "d = 24"; cases "d = 25") (simp_all add: Let_def Value64Bit_def Value8Bit_def cbor_flags CborIntegerType_def)
qed

lemma preparse_number:
  assumes "n < 2 ^ 64" "major \<in> {0, 0x20, 0x60, 0xA0}" "bs = pre @ number_bytes n major @ post" "cv_ptr it = length pre"
  shows "\<exists>v. preparse_value bs it = Some (CborNoError, v) \<and> cv_ptr v = cv_ptr it \<and> cv_remaining v = cv_remaining it \<and>
    cv_type v = (if major = 0x20 then 0 else major) \<and> cv_flags v = (if major = 0x20 then 2 else 0) OR (if n > 0xFFFF then 1 else 0) \<and>
    (n \<le> 0xFFFF \<longrightarrow> cv_extra v = of_nat n)"
proof -
  have mj: "major \<in> majors" using assms(2) by (auto simp: majors_def)
  note h = head_byte [OF more_of_less mj, of n]
  have b: "byte_at bs (cv_ptr it) = Some (of_nat (more_of n) + major)" using assms(3,4) by (simp add: byte_at_def number_bytes_split)
  have p: "cv_ptr it \<noteq> length bs" using assms(3,4) by (simp add: number_bytes_split)
  have d: "unat ((of_nat (more_of n) + major) AND SmallValueMask) = more_of n" "(of_nat (more_of n) + major) AND MajorTypeMask = major"
    using h unat_more by simp_all
  have m: "drop_bit MajorTypeShift major \<noteq> 7" "drop_bit MajorTypeShift major = 1 \<longleftrightarrow> major = 0x20" using assms(2) by (auto simp: MajorTypeShift_def)
  have fit: "\<not> (if more_of n < 24 then 0 else 2 ^ (more_of n - 24)) + 1 > length bs - cv_ptr it"
    using assms(1,3,4) tail_of_value [of n] by (auto simp: number_bytes_split more_of_def)
  have get: "get_be (2 ^ (more_of n - 24)) bs (cv_ptr it + 1) = Some n" if "24 \<le> n"
  proof -
    have t: "length (tail_of n) = 2 ^ (more_of n - 24)" "of_be_bytes (tail_of n) = n" using tail_of_value that assms(1) by simp_all
    have "bs = (pre @ [of_nat (more_of n) + major]) @ tail_of n @ post" using assms(3) by (simp add: number_bytes_split)
    then have "mem_read (cv_ptr it + 1) (length (tail_of n)) bs = Some (tail_of n)"
      using mem_at [of "pre @ [of_nat (more_of n) + major]" "cv_ptr it + 1" "tail_of n" "length (tail_of n)" post] assms(4) by simp
    then show ?thesis using t by (simp add: get_be_def)
  qed
  have eq: "preparse_value bs it =
    (let it = (if major = 0x20 then it\<lparr>cv_flags := 2, cv_type := 0, cv_extra := of_nat (more_of n)\<rparr>
               else it\<lparr>cv_type := major, cv_flags := 0, cv_extra := of_nat (more_of n)\<rparr>)
     in if more_of n < 24 then Some (CborNoError, it)
        else if more_of n = 24 then map_option (\<lambda>v. (CborNoError, it\<lparr>cv_extra := of_nat v\<rparr>)) (get_be 1 bs (cv_ptr it + 1))
        else if more_of n = 25 then map_option (\<lambda>v. (CborNoError, it\<lparr>cv_extra := of_nat v\<rparr>)) (get_be 2 bs (cv_ptr it + 1))
        else Some (CborNoError, it\<lparr>cv_flags := cv_flags it OR 1\<rparr>))"
  proof -
    have "more_of n \<le> 27" using more_of_less [of n] by simp
    from preparse_eq [OF b d this] fit show ?thesis using m by (auto simp: Let_def)
  qed
  consider "n < 24" | "24 \<le> n" "n \<le> 0xFF" | "0xFF < n" "n \<le> 0xFFFF" | "0xFFFF < n" by linarith
  then show ?thesis
  proof cases
    case 1
    then show ?thesis unfolding eq by (simp add: more_of_def)
  next
    case 2
    moreover from 2 have "more_of n = 24" by (simp add: more_of_def)
    ultimately show ?thesis using get unfolding eq by simp
  next
    case 3
    moreover from 3 have "more_of n = 25" by (simp add: more_of_def)
    ultimately show ?thesis using get unfolding eq by simp
  next
    case 4
    moreover from 4 have "more_of n = 26 \<or> more_of n = 27" by (simp add: more_of_def)
    ultimately show ?thesis unfolding eq by auto
  qed
qed

lemma preparse_simple_eq:
  assumes "byte_at bs (cv_ptr it) = Some b" "unat (b AND SmallValueMask) = d" "b AND MajorTypeMask = 0xE0" "d \<le> 27" "d \<noteq> 24"
    "(if d < 24 then 0 else 2 ^ (d - 24)) + 1 \<le> length bs - cv_ptr it"
  shows "\<exists>v. preparse_value bs it = Some (CborNoError, v) \<and> cv_ptr v = cv_ptr it \<and> cv_remaining v = cv_remaining it \<and>
    (d < 20 \<longrightarrow> cv_type v = 0xE0 \<and> cv_flags v = 0 \<and> cv_extra v = of_nat d) \<and>
    (25 \<le> d \<longrightarrow> cv_type v = b \<and> cv_flags v = (if d = 25 then 0 else 1))"
proof -
  have "drop_bit MajorTypeShift (0xE0 :: u8) = 7" by (simp add: MajorTypeShift_def)
  moreover have "d < 20 \<or> d = 20 \<or> d \<in> {21, 22, 23} \<or> d = 25 \<or> d = 26 \<or> d = 27" using assms(4,5) by auto
  ultimately show ?thesis
    using preparse_eq [OF assms(1-4,6)] assms(1) by (auto simp: preparse_simple_def cbor_flags)
qed

lemma preparse_float:
  assumes "t \<in> {CborHalfFloatType, CborFloatType, CborDoubleType}" "k = 2 * 2 ^ unat (t - CborHalfFloatType)"
    "bs = pre @ (t # be_bytes k x) @ post" "cv_ptr it = length pre" "x < 256 ^ k"
  shows "\<exists>v. preparse_value bs it = Some (CborNoError, v) \<and> cv_ptr v = cv_ptr it \<and> cv_remaining v = cv_remaining it \<and> cv_type v = t \<and>
    cv_flags v = (if t = CborHalfFloatType then 0 else 1)"
    "extract_number bs (length pre) = Some (CborNoError, length pre + 1 + k, x)"
    "get_be k bs (length pre + 1) = Some x"
proof -
  let ?d = "unat (t AND SmallValueMask)"
  have b: "byte_at bs (length pre) = Some t" using assms(3) by (simp add: byte_at_def)
  have t: "t AND MajorTypeMask = 0xE0" "25 \<le> ?d" "?d \<le> 27" "?d \<noteq> 24" "2 ^ (?d - 24) = k" "?d = 25 \<longleftrightarrow> t = CborHalfFloatType"
    using assms(1,2) by (auto simp: cbor_types MajorTypeMask_def SmallValueMask_def)
  have fit: "length pre + 1 + k \<le> length bs" using assms(3) by simp
  then have "(if ?d < 24 then 0 else 2 ^ (?d - 24)) + 1 \<le> length bs - cv_ptr it" using t(2,5) assms(4) by simp
  from preparse_simple_eq [OF _ refl t(1,3,4) this] b t(2,6) assms(4)
  show "\<exists>v. preparse_value bs it = Some (CborNoError, v) \<and> cv_ptr v = cv_ptr it \<and> cv_remaining v = cv_remaining it \<and> cv_type v = t \<and>
      cv_flags v = (if t = CborHalfFloatType then 0 else 1)" by auto
  have "mem_read (length pre + 1) k bs = Some (be_bytes k x)"
    using mem_at [of "pre @ [t]" "length pre + 1" "be_bytes k x" k post] assms(3) by simp
  then show g: "get_be k bs (length pre + 1) = Some x" using assms(5) by (simp add: get_be_def)
  have "\<not> length bs - (length pre + 1) < k" using fit by simp
  then show "extract_number bs (length pre) = Some (CborNoError, length pre + 1 + k, x)"
    using b t(2,3,5) g by (simp add: extract_number_def Value8Bit_def Value64Bit_def Let_def)
qed

lemma preparse_small_simple:
  fixes x :: u8
  assumes "x < 20" "bs = pre @ number_bytes (unat x) 0xE0 @ post" "cv_ptr it = length pre"
  shows "\<exists>v. preparse_value bs it = Some (CborNoError, v) \<and> cv_ptr v = cv_ptr it \<and> cv_remaining v = cv_remaining it \<and> cv_type v = CborSimpleType \<and>
    cv_flags v = 0 \<and> cv_extra v = ucast x"
proof -
  have x: "unat x < 20" using assms(1) by (simp add: word_less_nat_alt)
  then have m: "more_of (unat x) = unat x" by (simp add: more_of_def)
  have "0xE0 \<in> majors" by (simp add: majors_def)
  note h = head_byte [OF more_of_less this, of "unat x", unfolded m]
  have b: "byte_at bs (cv_ptr it) = Some (of_nat (unat x) + 0xE0)" using assms(2,3) by (simp add: byte_at_def number_bytes_split m)
  have d: "unat ((of_nat (unat x) + 0xE0) AND SmallValueMask :: u8) = unat x" using h by simp
  have "of_nat (unat x) = (ucast x :: u16)" by (simp add: unsigned_ucast_eq)
  then show ?thesis
    using preparse_simple_eq [OF b d] h x assms(2,3) by (auto simp: CborSimpleType_def number_bytes_split)
qed


section \<open>Items in a buffer\<close>

definition item_at :: "u8 list \<Rightarrow> nat \<Rightarrow> cbor_item \<Rightarrow> bool" where
  "item_at bs p it \<longleftrightarrow> item_ok it \<and> (\<exists>pre post. bs = pre @ item_bytes it @ post \<and> length pre = p)"

definition parsed_at :: "u8 list \<Rightarrow> nat \<Rightarrow> cbor_value \<Rightarrow> bool" where
  "parsed_at bs p v \<longleftrightarrow> cv_ptr v = p \<and> (\<exists>it. cv_ptr it = p \<and> preparse_value bs it = Some (CborNoError, v))"

lemma item_at_in: "item_at bs p it \<Longrightarrow> p < length bs \<and> p + length (item_bytes it) \<le> length bs"
  by (cases it) (auto simp: item_at_def number_bytes_split)

lemma float_kinds:
  "CborHalfFloatType \<in> {CborHalfFloatType, CborFloatType, CborDoubleType}" "CborFloatType \<in> {CborHalfFloatType, CborFloatType, CborDoubleType}"
  "CborDoubleType \<in> {CborHalfFloatType, CborFloatType, CborDoubleType}"
  "(2 :: nat) = 2 * 2 ^ unat (CborHalfFloatType - CborHalfFloatType)" "(4 :: nat) = 2 * 2 ^ unat (CborFloatType - CborHalfFloatType)"
  "(8 :: nat) = 2 * 2 ^ unat (CborDoubleType - CborHalfFloatType)"
  by (simp_all add: cbor_types)

lemma unat_bounds: "unat (h :: u16) < 256 ^ 2" "unat (f :: u32) < 256 ^ 4" "unat (d :: u64) < 256 ^ 8"
  using unsigned_less [of h, where 'a = nat] unsigned_less [of f, where 'a = nat] unsigned_less [of d, where 'a = nat] by simp_all

text \<open>The three kinds of floating-point numbers at the start of \<open>item_bytes\<close>.\<close>

lemmas half_at = preparse_float [OF float_kinds(1,4) _ _ unat_bounds(1)]
lemmas float_at = preparse_float [OF float_kinds(2,5) _ _ unat_bounds(2)]
lemmas double_at = preparse_float [OF float_kinds(3,6) _ _ unat_bounds(3)]

lemma item_preparse:
  assumes "item_at bs p it" "cv_ptr x = p"
  shows "\<exists>v. preparse_value bs x = Some (CborNoError, v) \<and> parsed_at bs p v \<and> cv_remaining v = cv_remaining x \<and>
    cbor_value_is_length_known v \<and> cv_type v \<notin> {CborTagType, CborInvalidType, CborArrayType, CborMapType, CborByteStringType} \<and>
    (cv_type v = CborTextStringType \<longleftrightarrow> (\<exists>s. it = Text s))"
proof -
  obtain pre post where bs: "bs = pre @ item_bytes it @ post" "length pre = p" and ok: "item_ok it" using assms(1) by (auto simp: item_at_def)
  have x: "cv_ptr x = length pre" using assms(2) bs(2) by simp
  have "\<exists>v. preparse_value bs x = Some (CborNoError, v) \<and> cv_ptr v = cv_ptr x \<and> cv_remaining v = cv_remaining x \<and>
    cbor_value_is_length_known v \<and> cv_type v \<notin> {CborTagType, CborInvalidType, CborArrayType, CborMapType, CborByteStringType} \<and>
    (cv_type v = CborTextStringType \<longleftrightarrow> (\<exists>s. it = Text s))"
  proof (cases it)
    case (Number major n)
    then show ?thesis using preparse_number [of n major bs pre post x] ok bs x
      by (auto simp: cbor_value_is_length_known_def cbor_types cbor_flags split: if_splits)
  next
    case (Simple w)
    then show ?thesis using preparse_small_simple [of w bs pre post x] ok bs x
      by (auto simp: cbor_value_is_length_known_def cbor_types)
  next
    case (Half h)
    have b: "bs = pre @ (CborHalfFloatType # be_bytes 2 (unat h)) @ post" using bs(1) Half by simp
    from half_at(1) [OF b x] show ?thesis using Half by (fastforce simp: cbor_value_is_length_known_def cbor_types cbor_flags)
  next
    case (Float f)
    have b: "bs = pre @ (CborFloatType # be_bytes 4 (unat f)) @ post" using bs(1) Float by simp
    from float_at(1) [OF b x] show ?thesis using Float by (fastforce simp: cbor_value_is_length_known_def cbor_types cbor_flags)
  next
    case (Double d)
    have b: "bs = pre @ (CborDoubleType # be_bytes 8 (unat d)) @ post" using bs(1) Double by simp
    from double_at(1) [OF b x] show ?thesis using Double by (fastforce simp: cbor_value_is_length_known_def cbor_types cbor_flags)
  next
    case (Text s)
    have b: "bs = pre @ number_bytes (length s) 0x60 @ (s @ post)" using bs(1) Text by simp
    have l: "length s < 2 ^ 64" using ok Text by simp
    have m: "0x60 \<in> {0, 0x20, 0x60, 0xA0 :: u8}" by simp
    from preparse_number [OF l m b x] obtain v where "preparse_value bs x = Some (CborNoError, v)" "cv_ptr v = cv_ptr x"
      "cv_remaining v = cv_remaining x" "cv_type v = 0x60" "cv_flags v = (if length s > 0xFFFF then 1 else 0)" by auto
    then show ?thesis using Text by (auto simp: cbor_value_is_length_known_def cbor_types cbor_flags)
  qed
  then show ?thesis using x bs(2) by (auto simp: parsed_at_def)
qed

lemma parsed_item:
  assumes "item_at bs p it" "parsed_at bs p v"
  shows "cbor_value_is_length_known v \<and> cv_type v \<notin> {CborTagType, CborInvalidType, CborArrayType, CborMapType, CborByteStringType} \<and>
    (cv_type v = CborTextStringType \<longleftrightarrow> (\<exists>s. it = Text s))"
proof -
  obtain x where "cv_ptr x = p" "preparse_value bs x = Some (CborNoError, v)" using assms(2) by (auto simp: parsed_at_def)
  then show ?thesis using item_preparse [OF assms(1)] by fastforce
qed

lemma mem_read_app: "bs = xs @ ys @ zs \<Longrightarrow> length xs = k \<Longrightarrow> mem_read k (length ys) bs = Some ys"
  using mem_at by blast

text \<open>The number an item starts with.\<close>

fun item_number :: "cbor_item \<Rightarrow> nat" where
  "item_number (Number major n) = n"
| "item_number (Simple v) = unat v"
| "item_number (Half v) = unat v"
| "item_number (Float v) = unat v"
| "item_number (Double v) = unat v"
| "item_number (Text s) = length s"

definition item_head :: "cbor_item \<Rightarrow> nat" where
  "item_head it = (case it of Text s \<Rightarrow> length (number_bytes (length s) 0x60) | _ \<Rightarrow> length (item_bytes it))"

lemma item_extract:
  assumes "item_at bs p it"
  shows "extract_number bs p = Some (CborNoError, p + item_head it, item_number it)"
proof -
  obtain pre post where bs: "bs = pre @ item_bytes it @ post" "length pre = p" and ok: "item_ok it" using assms(1) by (auto simp: item_at_def)
  let ?x = "\<lparr>cv_ptr = p, cv_remaining = 0, cv_extra = 0, cv_type = 0, cv_flags = 0\<rparr>"
  have x: "cv_ptr ?x = length pre" using bs(2) by simp
  show ?thesis
  proof (cases it)
    case (Number major n)
    then show ?thesis using number_at [of n major bs pre post] ok bs by (auto simp: item_head_def majors_def)
  next
    case (Simple w)
    have "unat w < 2 ^ 64" using unsigned_less [of w, where 'a = nat] by simp
    then show ?thesis using number_at [of "unat w" "0xE0" bs pre post] Simple bs by (simp add: item_head_def majors_def)
  next
    case (Half h)
    have b: "bs = pre @ (CborHalfFloatType # be_bytes 2 (unat h)) @ post" using bs(1) Half by simp
    from half_at(2) [OF b x] show ?thesis using Half bs(2) by (simp add: item_head_def)
  next
    case (Float f)
    have b: "bs = pre @ (CborFloatType # be_bytes 4 (unat f)) @ post" using bs(1) Float by simp
    from float_at(2) [OF b x] show ?thesis using Float bs(2) by (simp add: item_head_def)
  next
    case (Double d)
    have b: "bs = pre @ (CborDoubleType # be_bytes 8 (unat d)) @ post" using bs(1) Double by simp
    from double_at(2) [OF b x] show ?thesis using Double bs(2) by (simp add: item_head_def)
  next
    case (Text s)
    have b: "bs = pre @ number_bytes (length s) 0x60 @ (s @ post)" using bs(1) Text by simp
    have l: "length s < 2 ^ 64" using ok Text by simp
    have m: "0x60 \<in> majors" by (simp add: majors_def)
    show ?thesis using number_at [OF l m b] bs(2) Text by (simp add: item_head_def)
  qed
qed

lemma text_at:
  assumes "item_at bs p (Text s)"
  shows "mem_read (p + item_head (Text s)) (length s) bs = Some s" "length (item_bytes (Text s)) = item_head (Text s) + length s" "length s \<le> SIZE_MAX"
proof -
  obtain pre post where bs: "bs = pre @ item_bytes (Text s) @ post" "length pre = p" and ok: "item_ok (Text s)"
    using assms(1) unfolding item_at_def by blast
  show "mem_read (p + item_head (Text s)) (length s) bs = Some s"
    using mem_read_app [of bs "pre @ number_bytes (length s) 0x60" s post] bs by (simp add: item_head_def)
  show "length (item_bytes (Text s)) = item_head (Text s) + length s" by (simp add: item_head_def)
  show "length s \<le> SIZE_MAX" using ok by (simp add: SIZE_MAX_def)
qed

text \<open>Skipping an item leads behind its bytes.\<close>

lemma noop_chunks:
  assumes "item_at bs p (Text s)" "parsed_at bs p v"
  shows "iterate_string_chunks bs v iterate_noop SIZE_MAX [] True =
    map_option (\<lambda>(e, next). (e, length s, True, [], next)) (preparse_next_value bs (v\<lparr>cv_ptr := p + length (item_bytes (Text s))\<rparr>))"
proof -
  note t = text_at [OF assms(1)]
  have v: "cbor_value_is_length_known v" "cv_type v = CborTextStringType" "cv_ptr v = p"
    using parsed_item [OF assms] assms(2) by (auto simp: parsed_at_def)
  have ex: "extract_length bs p = Some (CborNoError, p + item_head (Text s), length s)"
    using item_extract [OF assms(1)] t(3) by (simp add: extract_length_def)
  have fit: "\<not> length bs - (p + item_head (Text s)) < length s" using item_at_in [OF assms(1), THEN conjunct2] t(2) by arith
  have s: "string_chunks bs v iterate_noop SIZE_MAX [] = Some (CborNoError, length s, True, [], p + length (item_bytes (Text s)))"
    using v ex fit t(2,3) by (simp add: string_chunks_def iterate_noop_def)
  have r: "(if True \<and> SIZE_MAX > length s then iterate_noop (length s) [0] [] else Some (True, [])) = Some (True, [])"
    by (simp add: iterate_noop_def)
  show ?thesis unfolding iterate_string_chunks_def s using v(2) r
    by (cases "preparse_next_value bs (v\<lparr>cv_ptr := p + length (item_bytes (Text s))\<rparr>)") (auto simp: cbor_types)
qed

lemma advance_item:
  assumes "item_at bs p it" "parsed_at bs p v" "cv_remaining v \<noteq> 0"
  shows "cbor_value_advance bs v = preparse_next_value bs (v\<lparr>cv_ptr := p + length (item_bytes it)\<rparr>)"
proof -
  note v = parsed_item [OF assms(1,2)]
  have p: "cv_ptr v = p" using assms(2) by (simp add: parsed_at_def)
  have "advance_recursive (Suc n) bs 0 v = preparse_next_value bs (v\<lparr>cv_ptr := p + length (item_bytes it)\<rparr>)" for n
  proof (cases "\<exists>s. it = Text s")
    case False
    then have "is_fixed_type (cv_type v)" "cv_type v \<noteq> CborByteStringType \<and> cv_type v \<noteq> CborTextStringType" using v by (auto simp: is_fixed_type_def)
    moreover have "item_head it = length (item_bytes it)" using False by (cases it) (auto simp: item_head_def)
    ultimately show ?thesis using item_extract [OF assms(1)] p by (simp add: advance_internal_def)
  next
    case True
    then obtain s where s: "it = Text s" by blast
    have "\<not> is_fixed_type (cv_type v)" "\<not> cbor_value_is_container v"
      using v s by (auto simp: is_fixed_type_def cbor_value_is_container_def cbor_types)
    then show ?thesis using noop_chunks [of bs p s v] assms(1,2) s
      by (cases "preparse_next_value bs (v\<lparr>cv_ptr := p + length (item_bytes it)\<rparr>)") auto
  qed
  moreover have "Suc (2 * length bs + 2) = 2 * length bs + 3" by simp
  ultimately have "advance_recursive (2 * length bs + 3) bs 0 v = preparse_next_value bs (v\<lparr>cv_ptr := p + length (item_bytes it)\<rparr>)" by metis
  moreover have "cv_type v \<noteq> CborInvalidType" using v by simp
  ultimately show ?thesis using assms(3) by (simp add: cbor_value_advance_def del: advance_recursive.simps)
qed

section \<open>Maps in a buffer\<close>

text \<open>The place of the parser: \<open>r\<close> values are to come, the next one is at \<open>p\<close>.\<close>

definition standing :: "u8 list \<Rightarrow> nat \<Rightarrow> nat \<Rightarrow> cbor_value \<Rightarrow> bool" where
  "standing bs p r v \<longleftrightarrow> cv_ptr v = p \<and> cv_remaining v = of_nat r \<and> r < 2 ^ 32 - 1 \<and>
     (if r = 0 then cv_type v = CborInvalidType else parsed_at bs p v)"

lemma of_nat_u32:
  assumes "r < 2 ^ 32 - 1"
  shows "(of_nat r :: u32) = 0 \<longleftrightarrow> r = 0" "(of_nat r :: u32) \<noteq> UINT32_MAX" "0 < r \<Longrightarrow> (of_nat r :: u32) - 1 = of_nat (r - 1)"
proof -
  have u: "unat (of_nat r :: u32) = r" using assms by (simp add: unat_of_nat_u32)
  show "(of_nat r :: u32) = 0 \<longleftrightarrow> r = 0"
  proof
    assume "(of_nat r :: u32) = 0"
    from arg_cong [OF this, of unat] show "r = 0" unfolding u by simp
  qed simp
  show "(of_nat r :: u32) \<noteq> UINT32_MAX"
  proof
    assume "(of_nat r :: u32) = UINT32_MAX"
    from arg_cong [OF this, of unat] have "r = unat UINT32_MAX" unfolding u .
    then show False using assms by (simp add: UINT32_MAX_def)
  qed
  show "0 < r \<Longrightarrow> (of_nat r :: u32) - 1 = of_nat (r - 1)" by (simp add: of_nat_diff)
qed

lemma next_standing:
  assumes "cv_remaining v = of_nat (Suc r)" "Suc r < 2 ^ 32 - 1" "cv_type v \<noteq> CborTagType" "r = 0 \<or> (\<exists>it. item_at bs p it)"
  shows "\<exists>v'. preparse_next_value bs (v\<lparr>cv_ptr := p\<rparr>) = Some (CborNoError, v') \<and> standing bs p r v'"
proof -
  note w = of_nat_u32(2,3) [OF assms(2)] and w0 = of_nat_u32(1) [of r]
  have eq: "preparse_next_value bs (v\<lparr>cv_ptr := p\<rparr>) =
      (if r = 0 then Some (CborNoError, v\<lparr>cv_ptr := p, cv_remaining := 0, cv_type := CborInvalidType\<rparr>)
       else preparse_value bs (v\<lparr>cv_ptr := p, cv_remaining := of_nat r\<rparr>))"
    using assms(1-3) w w0 by (simp add: preparse_next_value_def del: of_nat_Suc)
  show ?thesis
  proof (cases "r = 0")
    case True
    then show ?thesis by (simp add: eq standing_def)
  next
    case False
    then obtain it where it: "item_at bs p it" using assms(4) by blast
    show ?thesis using item_preparse [OF it, of "v\<lparr>cv_ptr := p, cv_remaining := of_nat r\<rparr>"] False assms(2)
      by (auto simp: eq standing_def parsed_at_def)
  qed
qed

type_synonym cbor_entry = "u8 list \<times> cbor_item"

definition entry_bytes :: "cbor_entry \<Rightarrow> u8 list" where
  "entry_bytes e = item_bytes (Text (fst e)) @ item_bytes (snd e)"

definition entry_ok :: "cbor_entry \<Rightarrow> bool" where
  "entry_ok e \<longleftrightarrow> item_ok (Text (fst e)) \<and> item_ok (snd e)"

definition entries_at :: "u8 list \<Rightarrow> nat \<Rightarrow> cbor_entry list \<Rightarrow> bool" where
  "entries_at bs p es \<longleftrightarrow> (\<forall>e \<in> set es. entry_ok e) \<and> 2 * length es < 2 ^ 32 - 1 \<and>
     (\<exists>pre post. bs = pre @ concat (map entry_bytes es) @ post \<and> length pre = p)"

lemma entries_at_Cons:
  assumes "entries_at bs p ((k, it) # es)"
  shows "item_at bs p (Text k)" "item_at bs (p + length (item_bytes (Text k))) it" "entries_at bs (p + length (entry_bytes (k, it))) es"
    "2 * length es + 2 < 2 ^ 32 - 1"
proof -
  obtain pre post where bs: "bs = pre @ (item_bytes (Text k) @ item_bytes it) @ concat (map entry_bytes es) @ post" "length pre = p"
    and ok: "item_ok (Text k)" "item_ok it" "\<forall>e \<in> set es. entry_ok e" "2 * length es + 2 < 2 ^ 32 - 1"
    using assms by (fastforce simp: entries_at_def entry_bytes_def entry_ok_def)
  show "2 * length es + 2 < 2 ^ 32 - 1" by (rule ok(4))
  have "bs = pre @ item_bytes (Text k) @ (item_bytes it @ concat (map entry_bytes es) @ post)" using bs(1) by simp
  then show "item_at bs p (Text k)" unfolding item_at_def using bs(2) ok(1) by blast
  have "bs = (pre @ item_bytes (Text k)) @ item_bytes it @ (concat (map entry_bytes es) @ post)" using bs(1) by simp
  moreover have "length (pre @ item_bytes (Text k)) = p + length (item_bytes (Text k))" using bs(2) by simp
  ultimately show "item_at bs (p + length (item_bytes (Text k))) it" unfolding item_at_def using ok(2) by blast
  have "bs = (pre @ entry_bytes (k, it)) @ concat (map entry_bytes es) @ post" using bs(1) by (simp add: entry_bytes_def)
  moreover have "length (pre @ entry_bytes (k, it)) = p + length (entry_bytes (k, it))" using bs(2) by simp
  ultimately show "entries_at bs (p + length (entry_bytes (k, it))) es" 
    unfolding entries_at_def using ok(3,4) by (intro conjI exI [of _ "pre @ entry_bytes (k, it)"] exI [of _ post]) auto
qed

lemma entries_start: "entries_at bs p es \<Longrightarrow> 2 * length es = 0 \<or> (\<exists>it. item_at bs p it)"
  by (cases es) (auto dest: entries_at_Cons)

text \<open>The key of an entry is compared, and its value is skipped when it is another key.\<close>

lemma find_entry:
  assumes "entries_at bs p ((k, it) # es)" "standing bs p (r + 2) v" "0 \<notin> set key"
  shows "k = key \<Longrightarrow> \<exists>v'. find_loop (Suc n) bs key v = Some (CborNoError, v') \<and> parsed_at bs (p + length (item_bytes (Text k))) v'"
    and "k \<noteq> key \<Longrightarrow> r = 0 \<or> es \<noteq> [] \<Longrightarrow>
      \<exists>v'. find_loop (Suc n) bs key v = find_loop n bs key v' \<and> standing bs (p + length (entry_bytes (k, it))) r v'"
proof -
  note at = entries_at_Cons [OF assms(1)]
  let ?q = "p + length (item_bytes (Text k))"
  have v: "parsed_at bs p v" "cv_remaining v = of_nat (Suc (r + 1))" "cv_ptr v = p" using assms(2) by (simp_all add: standing_def)
  have t: "cbor_value_is_length_known v" "cv_type v = CborTextStringType" using parsed_item [OF at(1) v(1)] by auto
  have tx: "extract_number bs (cv_ptr v) = Some (CborNoError, p + item_head (Text k), length k)"
    using item_extract [OF at(1)] v(3) by simp
  have "Suc (r + 1) < 2 ^ 32 - 1" using assms(2) by (simp add: standing_def)
  moreover have "cv_type v \<noteq> CborTagType" using t(2) by (simp add: cbor_types)
  ultimately obtain v1 where v1: "preparse_next_value bs (v\<lparr>cv_ptr := ?q\<rparr>) = Some (CborNoError, v1)" "standing bs ?q (r + 1) v1"
    using next_standing [OF v(2), of bs ?q] at(2) by blast
  have "cv_remaining v \<noteq> 0" using of_nat_u32(1) [of "r + 2"] assms(2) by (simp add: standing_def)
  then have s1: "cbor_value_skip_tag bs v = Some (CborNoError, v)" "\<not> cbor_value_at_end v"
    using skip_no_tag t(2) by (simp_all add: cbor_value_is_tag_def cbor_value_at_end_def cbor_types)
  have str: "cbor_value_is_text_string v" using t(2) by (simp add: cbor_value_is_text_string_def)
  have "p + item_head (Text k) + length k = ?q" using text_at(2) [OF at(1)] by simp
  then have cmp: "iterate_string_chunks bs v iterate_memcmp (length key) (key @ [0]) True = Some (CborNoError, length k, k = key, key @ [0], v1)"
    using text_compare [OF str t(1) tx text_at(1,3) [OF at(1)] assms(3)] v1(1) by (simp add: add.assoc)
  have p1: "parsed_at bs ?q v1" "cv_ptr v1 = ?q" using v1(2) by (simp_all add: standing_def)
  note ty = parsed_item [OF at(2) p1(1)]
  show "\<exists>v'. find_loop (Suc n) bs key v = Some (CborNoError, v') \<and> parsed_at bs ?q v'" if "k = key"
    using s1 str cmp that item_preparse [OF at(2) p1(2)] by auto
  have r1: "cv_remaining v1 = of_nat (Suc r)" "cv_remaining v1 \<noteq> 0" "Suc r < 2 ^ 32 - 1"
    using v1(2) of_nat_u32(1) [of "r + 1"] by (simp_all add: standing_def)
  have "cbor_value_skip_tag bs v1 = Some (CborNoError, v1)" using ty skip_no_tag by (simp add: cbor_value_is_tag_def)
  moreover have "\<exists>v2. cbor_value_advance bs v1 = Some (CborNoError, v2) \<and> standing bs (?q + length (item_bytes it)) r v2" if "r = 0 \<or> es \<noteq> []"
  proof -
    have "cv_type v1 \<noteq> CborTagType" using ty by simp
    moreover have "r = 0 \<or> (\<exists>it'. item_at bs (?q + length (item_bytes it)) it')"
      using that entries_start [OF at(3)] by (auto simp: entry_bytes_def add.assoc)
    ultimately show ?thesis using next_standing [OF r1(1,3), of bs "?q + length (item_bytes it)"] advance_item [OF at(2) p1(1) r1(2)] by simp
  qed
  ultimately show "\<exists>v'. find_loop (Suc n) bs key v = find_loop n bs key v' \<and> standing bs (p + length (entry_bytes (k, it))) r v'"
    if "k \<noteq> key" "r = 0 \<or> es \<noteq> []"
    using s1 str cmp that by (fastforce simp: entry_bytes_def add.assoc)
qed

lemma find_absent:
  "\<lbrakk>entries_at bs p es; standing bs p (2 * length es) v; 0 \<notin> set key; key \<notin> fst ` set es; length es < n\<rbrakk> \<Longrightarrow>
     \<exists>v'. find_loop n bs key v = Some (CborNoError, v') \<and> cv_type v' = CborInvalidType"
proof (induction es arbitrary: p v n)
  case Nil
  then show ?case by (cases n) (auto simp: standing_def cbor_value_at_end_def)
next
  case (Cons e es)
  obtain k it m where e: "e = (k, it)" "n = Suc m" using Cons.prems(5) by (cases e; cases n) auto
  have k: "k \<noteq> key" using Cons.prems(4) e(1) by auto
  have st: "standing bs p (2 * length es + 2) v" using Cons.prems(2) by simp
  obtain v' where v': "find_loop (Suc m) bs key v = find_loop m bs key v'" "standing bs (p + length (entry_bytes (k, it))) (2 * length es) v'"
    using find_entry(2) [OF Cons.prems(1) [unfolded e(1)] st Cons.prems(3) k] by (cases es) auto
  have "key \<notin> fst ` set es" "length es < m" using Cons.prems(4,5) e by simp_all
  from Cons.IH [OF entries_at_Cons(3) [OF Cons.prems(1) [unfolded e(1)]] v'(2) Cons.prems(3) this] show ?case using v'(1) e(2) by simp
qed

text \<open>An entry that is there is found, also when the map announces more entries than it has.\<close>

lemma find_present:
  "\<lbrakk>entries_at bs p (es @ (key, it) # es'); standing bs p r v; 2 * length (es @ (key, it) # es') \<le> r; 0 \<notin> set key; key \<notin> fst ` set es; length es < n\<rbrakk> \<Longrightarrow>
     \<exists>v' q. find_loop n bs key v = Some (CborNoError, v') \<and> item_at bs q it \<and> parsed_at bs q v'"
proof (induction es arbitrary: p r v n)
  case Nil
  obtain m where m: "n = Suc m" using Nil.prems(6) by (cases n) auto
  have "r = r - 2 + 2" using Nil.prems(3) by simp
  then have st: "standing bs p (r - 2 + 2) v" using Nil.prems(2) by metis
  show ?case
    using find_entry(1) [OF Nil.prems(1) [unfolded append_Nil] st Nil.prems(4) refl, of m] entries_at_Cons(2) [OF Nil.prems(1) [unfolded append_Nil]] m
    by blast
next
  case (Cons e es)
  obtain k it' m where e: "e = (k, it')" "n = Suc m" using Cons.prems(6) by (cases e; cases n) auto
  have k: "k \<noteq> key" using Cons.prems(5) e(1) by auto
  note at = Cons.prems(1) [unfolded e(1) append_Cons]
  have "r = r - 2 + 2" using Cons.prems(3) by simp
  then have st: "standing bs p (r - 2 + 2) v" using Cons.prems(2) by metis
  obtain v' where v': "find_loop (Suc m) bs key v = find_loop m bs key v'" "standing bs (p + length (entry_bytes (k, it'))) (r - 2) v'"
    using find_entry(2) [OF at st Cons.prems(4) k] by auto
  have "2 * length (es @ (key, it) # es') \<le> r - 2" "key \<notin> fst ` set es" "length es < m" using Cons.prems(3,5,6) e by simp_all
  from Cons.IH [OF entries_at_Cons(3) [OF at] v'(2) this(1) Cons.prems(4) this(2,3)] show ?case using v'(1) e(2) by simp
qed

section \<open>Reading the values\<close>

lemma parsed_number:
  assumes "item_at bs q (Number major n)" "parsed_at bs q v"
  shows "cv_type v = CborIntegerType" "cbor_value_extract_int64_helper bs v = Some n"
    "cv_flags v AND CborIteratorFlag_NegativeInteger = 0 \<longleftrightarrow> major = 0"
proof -
  obtain pre post where bs: "bs = pre @ number_bytes n major @ post" "length pre = q" and ok: "major = 0 \<or> major = 0x20" "n < 2 ^ 64"
    using assms(1) by (auto simp: item_at_def)
  obtain x where x: "cv_ptr x = length pre" "preparse_value bs x = Some (CborNoError, v)" using assms(2) bs(2) by (auto simp: parsed_at_def)
  have "major \<in> {0, 0x20, 0x60, 0xA0}" using ok(1) by auto
  note p = preparse_number [OF ok(2) this bs(1) x(1)]
  have v: "cv_ptr v = q" "cv_type v = 0" "cv_flags v = (if major = 0x20 then 2 else 0) OR (if n > 0xFFFF then 1 else 0)"
      "n \<le> 0xFFFF \<longrightarrow> cv_extra v = of_nat n"
    using p x bs(2) ok(1) by (auto simp: parsed_at_def)
  then show "cv_type v = CborIntegerType" by (simp add: CborIntegerType_def)
  show "cv_flags v AND CborIteratorFlag_NegativeInteger = 0 \<longleftrightarrow> major = 0" using v(3) ok(1) by (auto simp: cbor_flags)
  show "cbor_value_extract_int64_helper bs v = Some n"
  proof (cases "n \<le> 0xFFFF")
    case True
    then have "unat (cv_extra v) = n" using v(4) by (simp add: unsigned_of_nat take_bit_nat_eq_self)
    moreover have "cv_flags v AND 1 = 0" using True v(3) by simp
    ultimately show ?thesis by (simp add: cbor_value_extract_int64_helper_def cbor_flags)
  next
    case False
    then have m: "more_of n = 26 \<or> more_of n = 27" and t: "length (tail_of n) = 2 ^ (more_of n - 24)" "of_be_bytes (tail_of n) = n"
      using tail_of_value ok(2) by (auto simp: more_of_def)
    have mj: "major \<in> majors" using ok(1) by (auto simp: majors_def)
    let ?b = "of_nat (more_of n) + major :: u8"
    have b: "byte_at bs q = Some ?b" using bs by (simp add: byte_at_def number_bytes_split nth_append)
    have h: "?b AND SmallValueMask = of_nat (more_of n)" using head_byte [OF more_of_less mj] by simp
    have "?b AND 1 = (?b AND SmallValueMask) AND 1" by (simp add: SmallValueMask_def and.assoc)
    then have b1: "?b AND 1 = 0 \<longleftrightarrow> more_of n = 26" using h m by auto
    have "bs = (pre @ [?b]) @ tail_of n @ post" using bs(1) by (simp add: number_bytes_split)
    then have "mem_read (q + 1) (length (tail_of n)) bs = Some (tail_of n)"
      using mem_read_app [of bs "pre @ [?b]" "tail_of n" post "q + 1"] bs(2) by simp
    then have "get_be (2 ^ (more_of n - 24)) bs (q + 1) = Some n" using t by (simp add: get_be_def)
    moreover have "cv_flags v AND 1 \<noteq> 0" using False v(3) ok(1) by auto
    ultimately show ?thesis
      using m b h b1 v(1) by (auto simp: cbor_value_extract_int64_helper_def cbor_value_decode_int64_internal_def CborIteratorFlag_IntegerValueTooLarge_def)
  qed
qed

lemma int_item_scast:
  "int_item (scast (w :: u32)) = (if w <s 0 then Number 0x20 (unat (NOT w)) else Number 0 (unat w))"
proof -
  have s: "(scast w :: u64) <s 0 \<longleftrightarrow> w <s 0" by (simp add: word_sless_alt sint_uint bit_uint_iff bit_simps)
  have u: "unat (ucast x :: u64) = unat x" for x :: u32
    using unsigned_less [of x, where 'a = nat] by (simp add: unsigned_ucast_eq take_bit_nat_eq_self)
  show ?thesis
  proof (cases "w <s 0")
    case True
    have "NOT (scast w :: u64) = ucast (NOT w)"
    proof (rule bit_word_eqI)
      fix n :: nat
      assume "n < LENGTH(64)"
      moreover have "bit w 31" using True by (simp add: word_sless_alt sint_uint bit_uint_iff)
      ultimately show "bit (NOT (scast w :: u64)) n = bit (ucast (NOT w) :: u64) n"
        by (cases "n < 31"; cases "n = 31") (auto simp: bit_simps min_def dest: bit_imp_le_length)
    qed
    then show ?thesis using True s by (simp add: int_item_def u)
  next
    case False
    have "(scast w :: u64) = ucast w"
    proof (rule bit_word_eqI)
      fix n :: nat
      assume "n < LENGTH(64)"
      moreover have "\<not> bit w 31" using False by (simp add: word_sless_alt sint_uint bit_uint_iff)
      ultimately show "bit (scast w :: u64) n = bit (ucast w :: u64) n"
        by (cases "n < 31"; cases "n = 31") (auto simp: bit_simps min_def dest: bit_imp_le_length)
    qed
    then show ?thesis using False s by (simp add: int_item_def u)
  qed
qed

lemma int_item_ok: "item_ok (int_item v)"
  using unsigned_less [of v, where 'a = nat] unsigned_less [of "NOT v", where 'a = nat] by (simp add: int_item_def)

lemma get_int_item:
  assumes "item_at bs q (int_item (scast w))" "parsed_at bs q v"
  shows "cbor_value_get_int bs v = Some (w :: u32)"
proof (cases "w <s 0")
  case True
  then have "item_at bs q (Number 0x20 (unat (NOT w)))" using assms(1) by (simp add: int_item_scast)
  note p = parsed_number [OF this assms(2)]
  have "NOT w \<noteq> 0x80000000"
  proof
    assume "NOT w = 0x80000000"
    then have "bit (NOT w) 31" by simp
    then show False using True by (simp add: word_sless_alt sint_uint bit_uint_iff bit_simps)
  qed
  moreover have "- (NOT w) - 1 = w" by (simp add: not_eq_complement)
  ultimately show ?thesis using p by (simp add: cbor_value_get_int_def cbor_value_is_integer_def del: of_nat_unat) (simp add: not_eq_complement)
next
  case False
  then have "item_at bs q (Number 0 (unat w))" using assms(1) by (simp add: int_item_scast)
  note p = parsed_number [OF this assms(2)]
  then show ?thesis by (simp add: cbor_value_get_int_def cbor_value_is_integer_def)
qed

lemma get_half_item:
  assumes "item_at bs q (Half h)" "parsed_at bs q v"
  shows "cbor_value_get_half_float bs v = Some h"
proof -
  obtain pre post where bs: "bs = pre @ (CborHalfFloatType # be_bytes 2 (unat h)) @ post" "length pre = q" using assms(1) by (auto simp: item_at_def)
  obtain x where x: "cv_ptr x = length pre" "preparse_value bs x = Some (CborNoError, v)" using assms(2) bs(2) by (auto simp: parsed_at_def)
  show ?thesis using half_at(1,3) [OF bs(1) x(1)] x bs(2) by (auto simp: cbor_value_get_half_float_def)
qed

lemma get_float_item:
  assumes "item_at bs q (Float f)" "parsed_at bs q v"
  shows "cbor_value_get_float bs v = Some f"
proof -
  obtain pre post where bs: "bs = pre @ (CborFloatType # be_bytes 4 (unat f)) @ post" "length pre = q" using assms(1) by (auto simp: item_at_def)
  obtain x where x: "cv_ptr x = length pre" "preparse_value bs x = Some (CborNoError, v)" using assms(2) bs(2) by (auto simp: parsed_at_def)
  have "byte_at bs q = Some 0xFA" using bs by (simp add: byte_at_def CborFloatType_def nth_append)
  then show ?thesis using float_at(1,3) [OF bs(1) x(1)] x bs(2)
    by (auto simp: cbor_value_get_float_def cbor_value_decode_int64_internal_def CborIteratorFlag_IntegerValueTooLarge_def SmallValueMask_def cbor_types)
qed

lemma get_double_item:
  assumes "item_at bs q (Double d)" "parsed_at bs q v"
  shows "cbor_value_get_double bs v = Some d"
proof -
  obtain pre post where bs: "bs = pre @ (CborDoubleType # be_bytes 8 (unat d)) @ post" "length pre = q" using assms(1) by (auto simp: item_at_def)
  obtain x where x: "cv_ptr x = length pre" "preparse_value bs x = Some (CborNoError, v)" using assms(2) bs(2) by (auto simp: parsed_at_def)
  have "byte_at bs q = Some 0xFB" using bs by (simp add: byte_at_def CborDoubleType_def nth_append)
  then show ?thesis using double_at(1,3) [OF bs(1) x(1)] x bs(2)
    by (auto simp: cbor_value_get_double_def cbor_value_decode_int64_internal_def CborIteratorFlag_IntegerValueTooLarge_def SmallValueMask_def cbor_types)
qed

lemma get_simple_item:
  assumes "item_at bs q (Simple w)" "parsed_at bs q v"
  shows "cbor_value_get_simple_type v = Some w"
proof -
  obtain pre post where bs: "bs = pre @ number_bytes (unat w) 0xE0 @ post" "length pre = q" and w: "w < 20" using assms(1) by (auto simp: item_at_def)
  obtain x where x: "cv_ptr x = length pre" "preparse_value bs x = Some (CborNoError, v)" using assms(2) bs(2) by (auto simp: parsed_at_def)
  have "ucast (ucast w :: u16) = w" by (rule bit_word_eqI) (simp add: bit_simps)
  then show ?thesis using preparse_small_simple [OF w bs(1) x(1)] x by (auto simp: cbor_value_get_simple_type_def)
qed

text \<open>A text is copied when there is room for it, with the zero behind it when there is room for that as well.\<close>

lemma copy_text_item:
  assumes "item_at bs q (Text s)" "parsed_at bs q v" "buflen \<le> length buf"
  shows "cbor_value_copy_text_string bs v buf buflen =
    Some (if length s < buflen then (CborNoError, length s, s @ [0] @ drop (length s + 1) buf)
          else if length s = buflen then (CborNoError, length s, s @ drop (length s) buf)
          else (CborErrorOutOfMemory, length s, buf))"
proof -
  note t = text_at [OF assms(1)]
  have v: "cbor_value_is_length_known v" "cv_type v = CborTextStringType" "cv_ptr v = q"
    using parsed_item [OF assms(1,2)] assms(2) by (auto simp: parsed_at_def)
  have ex: "extract_length bs q = Some (CborNoError, q + item_head (Text s), length s)"
    using item_extract [OF assms(1)] t(3) by (simp add: extract_length_def)
  have fit: "q + item_head (Text s) + length s \<le> length bs" "take (length s) (drop (q + item_head (Text s)) bs) = s"
    using t(1) by (auto simp: mem_read_def split: if_splits)
  have sc: "string_chunks bs v iterate_memcpy buflen buf =
      Some (CborNoError, length s, length s \<le> buflen, if length s \<le> buflen then s @ drop (length s) buf else buf, q + item_head (Text s) + length s)"
    using v ex fit assms(3) by (simp add: string_chunks_def iterate_memcpy_def mem_write_def)
  show ?thesis
    using v(2) assms(3) by (simp add: cbor_value_copy_text_string_def iterate_string_chunks_def sc cbor_value_is_text_string_def
        iterate_memcpy_def mem_write_def cbor_types)
qed

section \<open>Whole messages\<close>

definition map_bytes :: "cbor_entry list \<Rightarrow> u8 list" where
  "map_bytes es = number_bytes (length es) 0xA0 @ concat (map entry_bytes es)"

definition entries_ok :: "cbor_entry list \<Rightarrow> bool" where
  "entries_ok es \<longleftrightarrow> (\<forall>e \<in> set es. entry_ok e) \<and> 2 * length es < 2 ^ 32 - 1"

lemma enter_map:
  assumes "extract_number bs (cv_ptr mp) = Some (CborNoError, q, n)" "cv_type mp = CborMapType" "cbor_value_is_length_known mp" "2 * n < 2 ^ 32 - 1"
  shows "cbor_value_enter_container bs mp =
    (let r = mp\<lparr>cv_ptr := q, cv_remaining := of_nat (2 * n)\<rparr>
     in if n \<noteq> 0 then preparse_value bs r else Some (CborNoError, r\<lparr>cv_type := CborInvalidType, cv_remaining := 0\<rparr>))"
proof -
  have u: "unat (of_nat n :: u32) = n" using assms(4) by (simp add: unat_of_nat_u32)
  have m: "\<not> UINT32_MAX div 2 < (of_nat n :: u32)" "n \<noteq> unat UINT32_MAX"
    using assms(4) u by (simp_all add: UINT32_MAX_def not_less word_le_nat_alt)
  have "2 * of_nat n = (of_nat (2 * n) :: u32)" by simp
  then show ?thesis using assms(1-3) u m by (simp add: cbor_value_enter_container_def cbor_value_is_container_def Let_def del: of_nat_mult)
qed

text \<open>A map that announces \<open>k\<close> entries.\<close>

definition announced :: "nat \<Rightarrow> cbor_entry list \<Rightarrow> u8 list" where
  "announced k es = number_bytes k 0xA0 @ concat (map entry_bytes es)"

lemma map_bytes_announced: "map_bytes es = announced (length es) es"
  by (simp add: map_bytes_def announced_def)

lemma map_start:
  assumes "entries_ok es" "length es \<le> k" "2 * k < 2 ^ 32 - 1" "es = [] \<longrightarrow> k = 0"
  shows "\<exists>mp v. cbor_parser_init (announced k es) = Some (CborNoError, mp) \<and> cbor_value_is_map mp \<and>
    cbor_value_enter_container (announced k es) mp = Some (CborNoError, v) \<and>
    standing (announced k es) (length (number_bytes k 0xA0)) (2 * k) v \<and>
    entries_at (announced k es) (length (number_bytes k 0xA0)) es"
proof -
  let ?bs = "announced k es" and ?n = k and ?q = "length (number_bytes k 0xA0)"
    and ?x = "\<lparr>cv_ptr = 0, cv_remaining = 1, cv_extra = 0, cv_type = 0, cv_flags = 0\<rparr>"
  have n: "2 * ?n < 2 ^ 32 - 1" "?n < 2 ^ 64" using assms(3) by simp_all
  have b: "?bs = [] @ number_bytes ?n 0xA0 @ concat (map entry_bytes es)" by (simp add: announced_def)
  have m: "0xA0 \<in> {0, 0x20, 0x60, 0xA0 :: u8}" "0xA0 \<in> majors" by (simp_all add: majors_def)
  obtain mp where mp: "preparse_value ?bs ?x = Some (CborNoError, mp)" "cv_ptr mp = 0" "cv_type mp = 0xA0" "cv_flags mp = (if ?n > 0xFFFF then 1 else 0)"
    using preparse_number [OF n(2) m(1) b, of ?x] by auto
  have ex: "extract_number ?bs 0 = Some (CborNoError, ?q, ?n)" using number_at [OF n(2) m(2) b] by simp
  have at: "entries_at ?bs ?q es"
    unfolding entries_at_def using assms
    by (intro conjI exI [of _ "number_bytes ?n 0xA0"] exI [of _ "[]"]) (auto simp: entries_ok_def announced_def)
  let ?r = "mp\<lparr>cv_ptr := ?q, cv_remaining := of_nat (2 * ?n)\<rparr>"
  have "cbor_value_is_length_known mp" using mp(4) by (simp add: cbor_value_is_length_known_def cbor_flags)
  then have en: "cbor_value_enter_container ?bs mp =
      (if ?n \<noteq> 0 then preparse_value ?bs ?r else Some (CborNoError, ?r\<lparr>cv_type := CborInvalidType, cv_remaining := 0\<rparr>))"
    using enter_map [of ?bs mp ?q ?n] mp(2,3) ex n(1) by (simp only: Let_def CborMapType_def)
  have "\<exists>v. cbor_value_enter_container ?bs mp = Some (CborNoError, v) \<and> standing ?bs ?q (2 * ?n) v"
  proof (cases "?n = 0")
    case True
    then show ?thesis unfolding en by (simp add: standing_def)
  next
    case False
    then obtain it where it: "item_at ?bs ?q it" using entries_start [OF at] assms(4) by auto
    show ?thesis unfolding en using item_preparse [OF it, of ?r] False n(1) by (auto simp: standing_def parsed_at_def)
  qed
  then show ?thesis using mp(1,3) at by (auto simp: cbor_parser_init_def cbor_value_is_map_def cbor_types)
qed

lemma map_fuel: "length es < length (announced k es) + 1"
proof -
  have "length es \<le> length (concat (map entry_bytes es))"
    by (induction es) (auto simp: entry_bytes_def number_bytes_split)
  then show ?thesis by (simp add: announced_def)
qed

lemma announced_find:
  assumes "entries_ok (es1 @ (key, it) # es2)" "length (es1 @ (key, it) # es2) \<le> k" "2 * k < 2 ^ 32 - 1" "0 \<notin> set key" "key \<notin> fst ` set es1"
    and "cbor_parser_init (announced k (es1 @ (key, it) # es2)) = Some (CborNoError, mp)"
  shows "\<exists>v q. cbor_value_map_find_value (announced k (es1 @ (key, it) # es2)) mp key = Some (CborNoError, v) \<and>
    item_at (announced k (es1 @ (key, it) # es2)) q it \<and> parsed_at (announced k (es1 @ (key, it) # es2)) q v"
proof -
  let ?es = "es1 @ (key, it) # es2"
  have "?es = [] \<longrightarrow> k = 0" by simp
  from map_start [OF assms(1-3) this] obtain v where m: "cbor_value_is_map mp" "cbor_value_enter_container (announced k ?es) mp = Some (CborNoError, v)"
      "standing (announced k ?es) (length (number_bytes k 0xA0)) (2 * k) v" "entries_at (announced k ?es) (length (number_bytes k 0xA0)) ?es"
    using assms(6) by auto
  have "2 * length ?es \<le> 2 * k" "length es1 < length (announced k ?es) + 1" using assms(2) map_fuel [of ?es k] by simp_all
  from find_present [OF m(4,3) this(1) assms(4,5) this(2)] show ?thesis using m(1,2) by (simp add: cbor_value_map_find_value_def)
qed

text \<open>A key that is in the map is found, one that is not gives an invalid value and no error.\<close>

lemma map_find:
  assumes "entries_ok es" "0 \<notin> set key"
  shows "\<exists>mp. cbor_parser_init (map_bytes es) = Some (CborNoError, mp) \<and> cbor_value_is_map mp \<and>
    (key \<notin> fst ` set es \<longrightarrow> (\<exists>v. cbor_value_map_find_value (map_bytes es) mp key = Some (CborNoError, v) \<and> cv_type v = CborInvalidType)) \<and>
    (\<forall>es1 it es2. es = es1 @ (key, it) # es2 \<and> key \<notin> fst ` set es1 \<longrightarrow>
       (\<exists>v q. cbor_value_map_find_value (map_bytes es) mp key = Some (CborNoError, v) \<and> item_at (map_bytes es) q it \<and> parsed_at (map_bytes es) q v))"
proof -
  let ?bs = "map_bytes es" and ?q = "length (number_bytes (length es) 0xA0)"
  obtain mp v where m: "cbor_parser_init ?bs = Some (CborNoError, mp)" "cbor_value_is_map mp"
      "cbor_value_enter_container ?bs mp = Some (CborNoError, v)" "standing ?bs ?q (2 * length es) v" "entries_at ?bs ?q es"
    using map_start [OF assms(1), of "length es"] assms(1) unfolding map_bytes_announced by (auto simp: entries_ok_def)
  have f: "cbor_value_map_find_value ?bs mp key = find_loop (length ?bs + 1) ?bs key v"
    using m(2,3) by (simp add: cbor_value_map_find_value_def)
  have "\<exists>v. cbor_value_map_find_value ?bs mp key = Some (CborNoError, v) \<and> cv_type v = CborInvalidType" if "key \<notin> fst ` set es"
    unfolding f by (rule find_absent [OF m(5,4) assms(2) that map_fuel [of es "length es", folded map_bytes_announced]])
  moreover have "\<exists>v q. cbor_value_map_find_value ?bs mp key = Some (CborNoError, v) \<and> item_at ?bs q it \<and> parsed_at ?bs q v"
    if e: "es = es1 @ (key, it) # es2" "key \<notin> fst ` set es1" for es1 it es2
  proof -
    have "length es1 < length ?bs + 1" using map_fuel [of es "length es"] e(1) by (simp add: map_bytes_announced)
    from find_present [OF m(5) [unfolded e(1)] m(4) [unfolded e(1)] le_refl assms(2) e(2), folded e(1), OF this] show ?thesis unfolding f by blast
  qed
  ultimately show ?thesis using m(1,2) by blast
qed

text \<open>The encoder: a map is opened, entries are written, the map is closed.\<close>

lemma map_opened:
  assumes "length (number_bytes k 0xA0) \<le> n" "length m = n" "k \<le> SIZE_MAX div 2"
  shows "\<exists>enc c m'. cbor_encoder_create_map (cbor_encoder_init n 0) k m = Some (CborNoError, enc, Some c, m') \<and>
    written n (number_bytes k 0xA0) 0 c m' \<and> ce_flags c = 0x20 \<and> ce_data enc = 0"
proof -
  let ?c = "\<lparr>ce_data = 0, ce_end = Some n, ce_added = 0, ce_flags = 0x20\<rparr>"
  have "written n [] 0 ?c m" using assms(2) by (simp add: written_def)
  from append_written [OF this, of "number_bytes k 0xA0"] assms(1) obtain c m' where
    "append_to_buffer ?c (number_bytes k 0xA0) m = Some (CborNoError, c, m')" "written n (number_bytes k 0xA0) 0 c m'" "ce_flags c = 0x20" by auto
  moreover have "k \<noteq> SIZE_MAX" using assms(3) by (auto simp: SIZE_MAX_def)
  ultimately show ?thesis
    using assms(3) by (auto simp: cbor_encoder_create_map_def create_container_def cbor_encoder_init_def encode_number_no_update_def cbor_flags Let_def)
qed

lemma map_closed:
  assumes "written n (map_bytes es) (2 * length es) c m" "ce_flags c = 0x20" "ce_data enc = 0" "entries_ok es"
  shows "\<exists>enc'. cbor_encoder_close_container_checked enc c m = Some (CborNoError, enc', m) \<and> ce_data enc' = length (map_bytes es) \<and>
    ce_end enc' = Some n \<and> take (length (map_bytes es)) m = map_bytes es"
proof -
  let ?n = "length es"
  have n: "?n < 2 ^ 64" "\<not> ?n > SIZE_MAX div 2" using assms(4) by (simp_all add: entries_ok_def SIZE_MAX_def)
  have w: "ce_data c = length (map_bytes es)" "take (length (map_bytes es)) m = map_bytes es" "ce_end c = Some n" "ce_added c = 2 * ?n"
    using assms(1) by (simp_all add: written_def)
  have b: "map_bytes es = [] @ number_bytes ?n 0xA0 @ concat (map entry_bytes es)" by (simp add: map_bytes_def)
  have "0xA0 \<in> majors" by (simp add: majors_def)
  from number_at [OF n(1) this b] have ex: "extract_number (map_bytes es) 0 = Some (CborNoError, length (number_bytes ?n 0xA0), ?n)" by simp
  show ?thesis
    using w assms(2,3) ex n(2)
    by (simp add: cbor_encoder_close_container_checked_def cbor_encoder_close_container_def cbor_flags Let_def)
qed

text \<open>One entry more.\<close>

lemma entry_written:
  assumes "written n (number_bytes k 0xA0 @ concat (map entry_bytes es)) (2 * length es) c m"
    "length (number_bytes k 0xA0 @ concat (map entry_bytes (es @ [(key, it)]))) \<le> n"
  shows "\<exists>c1 m1. cbor_encode_text_stringz c key m = Some (CborNoError, c1, m1) \<and> ce_flags c1 = ce_flags c \<and>
    written n ((number_bytes k 0xA0 @ concat (map entry_bytes es)) @ item_bytes (Text key)) (2 * length es + 1) c1 m1"
  using item_written(6) [OF assms(1), of "Text key" key] assms(2) by (auto simp: entry_bytes_def)

lemma entry_value:
  "((number_bytes k 0xA0 @ concat (map entry_bytes es)) @ item_bytes (Text key)) @ item_bytes it = number_bytes k 0xA0 @ concat (map entry_bytes (es @ [(key, it)]))"
  "2 * length es + 1 + 1 = 2 * length (es @ [(key, it)])"
  by (simp_all add: entry_bytes_def)

section \<open>Writing entries\<close>

text \<open>A function that writes an item into an encoder with room for it.\<close>

definition writes :: "nat \<Rightarrow> (cbor_encoder \<Rightarrow> u8 list \<Rightarrow> (cbor_error \<times> cbor_encoder \<times> u8 list) option) \<Rightarrow> cbor_item \<Rightarrow> bool" where
  "writes n f it \<longleftrightarrow> (\<forall>bs k c m. written n bs k c m \<and> length bs + length (item_bytes it) \<le> n \<longrightarrow>
     (\<exists>c' m'. f c m = Some (CborNoError, c', m') \<and> written n (bs @ item_bytes it) (k + 1) c' m' \<and> ce_flags c' = ce_flags c))"

lemma writes_int: "writes n (\<lambda>c m. cbor_encode_int c v m) (int_item v)"
  unfolding writes_def using item_written(1) [OF _ _ refl] by blast

lemma writes_half: "writes n (\<lambda>c m. cbor_encode_half_float c v m) (Half v)"
  unfolding writes_def using item_written(3) [OF _ _ refl] by blast

lemma writes_float: "writes n (\<lambda>c m. cbor_encode_float c v m) (Float v)"
  unfolding writes_def using item_written(4) [OF _ _ refl] by blast

lemma writes_simple: "v < 20 \<Longrightarrow> writes n (\<lambda>c m. cbor_encode_simple_value c v m) (Simple v)"
  unfolding writes_def using item_written(2) [OF _ _ refl] by simp

lemma writes_double: "writes n (\<lambda>c m. cbor_encode_double c v m) (Double v)"
  unfolding writes_def using item_written(5) [OF _ _ refl] by blast

lemma writes_text: "writes n (\<lambda>c m. cbor_encode_text_stringz c s m) (Text s)"
  unfolding writes_def using item_written(6) [OF _ _ refl] by blast

text \<open>The encoder of a map with \<open>k\<close> entries that has written the entries \<open>es\<close>.\<close>

definition map_written :: "nat \<Rightarrow> nat \<Rightarrow> cbor_entry list \<Rightarrow> cbor_encoder \<Rightarrow> u8 list \<Rightarrow> bool" where
  "map_written n k es c m \<longleftrightarrow> written n (number_bytes k 0xA0 @ concat (map entry_bytes es)) (2 * length es) c m \<and> ce_flags c = 0x20"

definition map_size :: "nat \<Rightarrow> cbor_entry list \<Rightarrow> nat" where
  "map_size k es = length (number_bytes k 0xA0) + length (concat (map entry_bytes es))"

lemma map_written_key_value:
  assumes "map_written n k es c m" "writes n f it" "map_size k (es @ [(key, it)]) \<le> n"
  shows "\<exists>c1 m1 c2 m2. cbor_encode_text_stringz c key m = Some (CborNoError, c1, m1) \<and> f c1 m1 = Some (CborNoError, c2, m2) \<and>
    map_written n k (es @ [(key, it)]) c2 m2"
proof -
  let ?p = "number_bytes k 0xA0 @ concat (map entry_bytes es)"
  have w: "written n ?p (2 * length es) c m" "ce_flags c = 0x20" using assms(1) by (simp_all add: map_written_def)
  have len: "length ?p + length (item_bytes (Text key)) + length (item_bytes it) \<le> n"
    using assms(3) by (simp add: map_size_def entry_bytes_def)
  then have "length ?p + length (item_bytes (Text key)) \<le> n" by linarith
  from item_written(6) [OF w(1) this refl] obtain c1 m1 where 1: "cbor_encode_text_stringz c key m = Some (CborNoError, c1, m1)"
      "written n (?p @ item_bytes (Text key)) (2 * length es + 1) c1 m1" "ce_flags c1 = ce_flags c" by blast
  have "length (?p @ item_bytes (Text key)) + length (item_bytes it) \<le> n" using len by simp
  then obtain c2 m2 where "f c1 m1 = Some (CborNoError, c2, m2)" "written n ((?p @ item_bytes (Text key)) @ item_bytes it) (2 * length es + 1 + 1) c2 m2"
      "ce_flags c2 = ce_flags c1"
    using assms(2) [unfolded writes_def] 1(2) by blast
  then show ?thesis unfolding map_written_def using 1(1,3) w(2) entry_value(1) [of k es key it] entry_value(2) [of es key it] by metis
qed

lemma length_number_bytes: "length (number_bytes n major) \<le> 9"
proof -
  have "length (tail_of n) \<le> 8" by (auto simp: tail_of_def more_of_def)
  then show ?thesis by (simp add: number_bytes_split)
qed

lemma length_int_item: "length (item_bytes (int_item v)) \<le> 9"
  by (simp add: int_item_def length_number_bytes)

lemma chars_key: "length s < 24 \<Longrightarrow> length (item_bytes (Text (chars s))) = length s + 1"
  by (simp add: number_bytes_def Value8Bit_def chars_def)

lemma entry_ok_iff: "entry_ok (chars s, it) \<longleftrightarrow> length s < 2 ^ 64 \<and> item_ok it"
  by (simp add: entry_ok_def chars_def)

lemma small_map: "k < 24 \<Longrightarrow> length (number_bytes k 0xA0) = 1"
  by (simp add: number_bytes_def Value8Bit_def)

lemma item_length: "length (item_bytes (Half h)) = 3" "length (item_bytes (Float f)) = 5"
  by simp_all

lemma length_map_bytes:
  "length es < 24 \<Longrightarrow> length (map_bytes es) = 1 + length (concat (map entry_bytes es))"
  by (simp add: map_bytes_def small_map)

lemma length_small_item: "ty \<in> {0, 1, 2, 3} \<Longrightarrow> length (item_bytes (int_item (ucast (ty :: u32)))) = 1"
  by (auto simp: int_item_def number_bytes_split tail_of_def more_of_def word_sless_alt)

lemma length_number_small: "n \<le> 0xFFFFFFFF \<Longrightarrow> length (number_bytes n major) \<le> 5"
  by (auto simp: number_bytes_split tail_of_def more_of_def)

lemma length_scast_item: "length (item_bytes (int_item (scast (w :: u32)))) \<le> 5"
proof -
  have "unat (x :: u32) \<le> 0xFFFFFFFF" for x using unsigned_less [of x, where 'a = nat] by simp
  then show ?thesis using length_number_small by (simp add: int_item_scast)
qed


end
