(* ===== verification/KTelemetryLinux.thy ===== *)
theory KTelemetryLinux
  imports KCborMsg
begin

text \<open>
  The messages of the telemetry service on Linux (\<open>services/telemetry/telemetry-linux/source/msg_utils.c\<close>): how a packet,
  a subscription and a disconnection are written into a CBOR map and read back.

  A null pointer is \<open>None\<close>.  The outer result \<open>None\<close> is undefined: an assertion of the parser that fails.
\<close>

section \<open>Data\<close>

definition TELEMETRY_BUFFER_SIZE :: nat where "TELEMETRY_BUFFER_SIZE = 256"

definition TELEMETRY_TYPE_INT :: u32 where "TELEMETRY_TYPE_INT = 0"
definition TELEMETRY_TYPE_FLOAT :: u32 where "TELEMETRY_TYPE_FLOAT = 1"
definition MESSAGE_TYPE_PACKET :: u32 where "MESSAGE_TYPE_PACKET = 0"
definition MESSAGE_TYPE_SUBSCRIBE :: u32 where "MESSAGE_TYPE_SUBSCRIBE = 1"
definition MESSAGE_TYPE_UNSUBSCRIBE :: u32 where "MESSAGE_TYPE_UNSUBSCRIBE = 2"
definition MESSAGE_TYPE_DISCONNECT :: u32 where "MESSAGE_TYPE_DISCONNECT = 3"

lemmas message_types = MESSAGE_TYPE_PACKET_def MESSAGE_TYPE_SUBSCRIBE_def MESSAGE_TYPE_UNSUBSCRIBE_def MESSAGE_TYPE_DISCONNECT_def
lemmas data_types = TELEMETRY_TYPE_INT_def TELEMETRY_TYPE_FLOAT_def

text \<open>The union is its four bytes.\<close>

record linux_packet =
  lp_topic_id :: u16
  lp_data_type :: u32
  lp_subsystem_id :: u32
  lp_data :: u32
  lp_timestamp :: u32

text \<open>The structure in memory; \<open>pad\<close> is between the first two members.\<close>

definition linux_packet_bytes :: "u16 \<Rightarrow> linux_packet \<Rightarrow> u8 list" where
  "linux_packet_bytes pad pkt = le16 (lp_topic_id pkt) @ le16 pad @ le32 (lp_data_type pkt) @ le32 (lp_subsystem_id pkt) @
     le32 (lp_data pkt) @ le32 (lp_timestamp pkt)"

definition linux_packet_of :: "u8 list \<Rightarrow> linux_packet" where
  "linux_packet_of bs =
     \<lparr>lp_topic_id = of_le16 (take 2 bs), lp_data_type = of_le32 (take 4 (drop 4 bs)), lp_subsystem_id = of_le32 (take 4 (drop 8 bs)),
      lp_data = of_le32 (take 4 (drop 12 bs)), lp_timestamp = of_le32 (take 4 (drop 16 bs))\<rparr>"

definition LINUX_PACKET_SIZE :: nat where "LINUX_PACKET_SIZE = 20"

section \<open>Writing messages\<close>

text \<open>The functions go on unless the error is positive; the result is the size of the message, or an error,
  and the buffer.\<close>

definition unless_error ::
  "(cbor_error \<times> cbor_encoder \<times> u8 list) option \<Rightarrow> (cbor_encoder \<Rightarrow> u8 list \<Rightarrow> (int \<times> u8 list) option) \<Rightarrow> (int \<times> u8 list) option" where
  "unless_error r k =
     (case r of None \<Rightarrow> None | Some (e, c, m) \<Rightarrow> if cbor_error_value e > 0 then Some (- cbor_error_value e, m) else k c m)"

definition start_encode_msg ::
  "u8 list \<Rightarrow> nat \<Rightarrow> nat \<Rightarrow> u32 \<Rightarrow> (cbor_encoder \<Rightarrow> cbor_encoder \<Rightarrow> u8 list \<Rightarrow> (int \<times> u8 list) option) \<Rightarrow> (int \<times> u8 list) option" where
  "start_encode_msg m buffer_size num_elements message_type k =
     (case cbor_encoder_create_map (cbor_encoder_init buffer_size 0) num_elements m of
        None \<Rightarrow> None
      | Some (e, enc, c, m) \<Rightarrow>
          if cbor_error_value e > 0 then Some (- 1, m)
          else (case c of None \<Rightarrow> None
                | Some c \<Rightarrow>
                    (case cbor_encode_text_stringz c (chars ''MESSAGE_TYPE'') m of
                       None \<Rightarrow> None
                     | Some (e, c, m) \<Rightarrow>
                         if cbor_error_value e > 0 then Some (- 1, m)
                         else (case cbor_encode_int c (ucast message_type) m of
                                 None \<Rightarrow> None
                               | Some (e, c, m) \<Rightarrow> if cbor_error_value e > 0 then Some (- 1, m) else k enc c m))))"

definition end_encode_msg :: "nat \<Rightarrow> cbor_encoder \<Rightarrow> cbor_encoder \<Rightarrow> u8 list \<Rightarrow> (int \<times> u8 list) option" where
  "end_encode_msg addr enc c m =
     unless_error (cbor_encoder_close_container_checked enc c m) (\<lambda>enc m. Some (cbor_encoder_get_buffer_size enc addr, m))"

text \<open>\<open>addr\<close> is the address of the buffer.  An unknown type of data sets the error to \<open>- 1\<close>, which is not positive.\<close>

definition telemetry_encode_packet_msg :: "nat \<Rightarrow> u8 list option \<Rightarrow> linux_packet option \<Rightarrow> (int \<times> u8 list) option" where
  "telemetry_encode_packet_msg addr buffer pkt =
     (case (buffer, pkt) of
        (Some m, Some pkt) \<Rightarrow>
          start_encode_msg m TELEMETRY_BUFFER_SIZE 6 MESSAGE_TYPE_PACKET (\<lambda>enc c m.
            unless_error (cbor_encode_text_stringz c (chars ''TOPIC_ID'') m) (\<lambda>c m.
            unless_error (cbor_encode_half_float c (lp_topic_id pkt) m) (\<lambda>c m.
            unless_error (cbor_encode_text_stringz c (chars ''SUBSYSTEM_ID'') m) (\<lambda>c m.
            unless_error (cbor_encode_int c (scast (lp_subsystem_id pkt)) m) (\<lambda>c m.
            unless_error (cbor_encode_text_stringz c (chars ''DATA_TYPE'') m) (\<lambda>c m.
            unless_error (cbor_encode_int c (ucast (lp_data_type pkt)) m) (\<lambda>c m.
            unless_error (cbor_encode_text_stringz c (chars ''DATA'') m) (\<lambda>c m.
            unless_error (if lp_data_type pkt = TELEMETRY_TYPE_INT then cbor_encode_int c (scast (lp_data pkt)) m
                          else if lp_data_type pkt = TELEMETRY_TYPE_FLOAT then cbor_encode_float c (lp_data pkt) m
                          else Some (CborNoError, c, m)) (\<lambda>c m.
            unless_error (cbor_encode_text_stringz c (chars ''TIMESTAMP'') m) (\<lambda>c m.
            unless_error (cbor_encode_int c (scast (lp_timestamp pkt)) m) (\<lambda>c m.
            end_encode_msg addr enc c m)))))))))))
      | (Some m, None) \<Rightarrow> Some (- 1, m)
      | (None, _) \<Rightarrow> Some (- 1, []))"

definition encode_topic_msg :: "u32 \<Rightarrow> nat \<Rightarrow> u8 list option \<Rightarrow> u16 option \<Rightarrow> (int \<times> u8 list) option" where
  "encode_topic_msg message_type addr buffer topic_id =
     (case (buffer, topic_id) of
        (Some m, Some topic_id) \<Rightarrow>
          start_encode_msg m TELEMETRY_BUFFER_SIZE 2 message_type (\<lambda>enc c m.
            unless_error (cbor_encode_text_stringz c (chars ''TOPIC_ID'') m) (\<lambda>c m.
            unless_error (cbor_encode_half_float c topic_id m) (\<lambda>c m.
            end_encode_msg addr enc c m)))
      | (Some m, None) \<Rightarrow> Some (- 1, m)
      | (None, _) \<Rightarrow> Some (- 1, []))"

definition telemetry_encode_subscribe_msg :: "nat \<Rightarrow> u8 list option \<Rightarrow> u16 option \<Rightarrow> (int \<times> u8 list) option" where
  "telemetry_encode_subscribe_msg = encode_topic_msg MESSAGE_TYPE_SUBSCRIBE"

definition telemetry_encode_unsubscribe_msg :: "nat \<Rightarrow> u8 list option \<Rightarrow> u16 option \<Rightarrow> (int \<times> u8 list) option" where
  "telemetry_encode_unsubscribe_msg = encode_topic_msg MESSAGE_TYPE_UNSUBSCRIBE"

definition telemetry_encode_disconnect_msg :: "nat \<Rightarrow> u8 list option \<Rightarrow> (int \<times> u8 list) option" where
  "telemetry_encode_disconnect_msg addr buffer =
     (case buffer of
        Some m \<Rightarrow> start_encode_msg m TELEMETRY_BUFFER_SIZE 1 MESSAGE_TYPE_DISCONNECT (end_encode_msg addr)
      | None \<Rightarrow> Some (- 1, []))"

section \<open>Reading messages\<close>

text \<open>The result \<open>Some None\<close> is \<open>false\<close>.\<close>

definition with_value :: "u8 list \<Rightarrow> u8 list \<Rightarrow> (cbor_value \<Rightarrow> 'a option option) \<Rightarrow> 'a option option" where
  "with_value bs key k = do {
     (e, mp) \<leftarrow> cbor_parser_init bs;
     if e \<noteq> CborNoError \<or> \<not> cbor_value_is_map mp then Some None
     else do {
       (e, element) \<leftarrow> cbor_value_map_find_value bs mp key;
       if e \<noteq> CborNoError then Some None else k element } }"

definition telemetry_parse_msg_type :: "u8 list \<Rightarrow> u32 option option" where
  "telemetry_parse_msg_type bs =
     with_value bs (chars ''MESSAGE_TYPE'') (\<lambda>element. map_option Some (cbor_value_get_int bs element))"

definition parse_topic_msg :: "u8 list \<Rightarrow> u16 option option" where
  "parse_topic_msg bs = with_value bs (chars ''TOPIC_ID'') (\<lambda>element. map_option Some (cbor_value_get_half_float bs element))"

definition telemetry_parse_subscribe_msg :: "u8 list \<Rightarrow> u16 option option" where
  "telemetry_parse_subscribe_msg = parse_topic_msg"

definition telemetry_parse_unsubscribe_msg :: "u8 list \<Rightarrow> u16 option option" where
  "telemetry_parse_unsubscribe_msg = parse_topic_msg"

text \<open>\<open>old\<close> is the data in \<open>*packet\<close> before: it stays when the search for the data fails.\<close>

definition telemetry_parse_packet_msg :: "u32 \<Rightarrow> u8 list \<Rightarrow> linux_packet option option" where
  "telemetry_parse_packet_msg old bs = do {
     (e, mp) \<leftarrow> cbor_parser_init bs;
     if e \<noteq> CborNoError \<or> \<not> cbor_value_is_map mp then Some None
     else do {
       (e, element) \<leftarrow> cbor_value_map_find_value bs mp (chars ''TOPIC_ID'');
       if e \<noteq> CborNoError then Some None else do {
       topic_id \<leftarrow> cbor_value_get_half_float bs element;
       (e, element) \<leftarrow> cbor_value_map_find_value bs mp (chars ''SUBSYSTEM_ID'');
       if e \<noteq> CborNoError then Some None else do {
       subsystem_id \<leftarrow> cbor_value_get_int bs element;
       (e, element) \<leftarrow> cbor_value_map_find_value bs mp (chars ''DATA_TYPE'');
       if e \<noteq> CborNoError then Some None else do {
       data_type \<leftarrow> cbor_value_get_int bs element;
       (e, element) \<leftarrow> cbor_value_map_find_value bs mp (chars ''DATA'');
       if e = CborNoError \<and> data_type \<noteq> TELEMETRY_TYPE_INT \<and> data_type \<noteq> TELEMETRY_TYPE_FLOAT then Some None else do {
       data \<leftarrow> (if e \<noteq> CborNoError then Some old
               else if data_type = TELEMETRY_TYPE_INT then cbor_value_get_int bs element else cbor_value_get_float bs element);
       (e, element) \<leftarrow> cbor_value_map_find_value bs mp (chars ''TIMESTAMP'');
       if e \<noteq> CborNoError then Some None else do {
       timestamp \<leftarrow> cbor_value_get_int bs element;
       Some (Some \<lparr>lp_topic_id = topic_id, lp_data_type = data_type, lp_subsystem_id = subsystem_id, lp_data = data,
                   lp_timestamp = timestamp\<rparr>) } } } } } } }"

section \<open>Messages are read back\<close>

lemma key_value_step:
  assumes "map_written n k es c m" "writes n f it" "map_size k (es @ [(key, it)]) \<le> n"
    and "\<And>c m. map_written n k (es @ [(key, it)]) c m \<Longrightarrow> \<exists>m'. K c m = Some (r, m') \<and> Q m'"
  shows "\<exists>m'. unless_error (cbor_encode_text_stringz c key m) (\<lambda>c m. unless_error (f c m) K) = Some (r, m') \<and> Q m'"
  using map_written_key_value [OF assms(1-3)] assms(4) by (auto simp: unless_error_def)

lemma start_step:
  assumes "map_size k [(chars ''MESSAGE_TYPE'', int_item (ucast ty))] \<le> n" "length m = n" "k < 2 ^ 31"
    and "\<And>enc c m. map_written n k [(chars ''MESSAGE_TYPE'', int_item (ucast ty))] c m \<Longrightarrow> ce_data enc = 0 \<Longrightarrow> \<exists>m'. K enc c m = Some (r, m') \<and> Q m'"
  shows "\<exists>m'. start_encode_msg m n k ty K = Some (r, m') \<and> Q m'"
proof -
  have "length (number_bytes k 0xA0) \<le> n" using assms(1) by (simp add: map_size_def)
  moreover have "k \<le> SIZE_MAX div 2" using assms(3) by (simp add: SIZE_MAX_def)
  ultimately obtain enc c m1 where o: "cbor_encoder_create_map (cbor_encoder_init n 0) k m = Some (CborNoError, enc, Some c, m1)"
      "written n (number_bytes k 0xA0) 0 c m1" "ce_flags c = 0x20" "ce_data enc = 0"
    using map_opened assms(2) by blast
  have "map_written n k [] c m1" using o(2,3) by (simp add: map_written_def)
  moreover have "writes n (\<lambda>c m. cbor_encode_int c (ucast ty) m) (int_item (ucast ty))" by (rule writes_int)
  ultimately have "\<exists>c1 m2 c2 m3. cbor_encode_text_stringz c (chars ''MESSAGE_TYPE'') m1 = Some (CborNoError, c1, m2) \<and>
      cbor_encode_int c1 (ucast ty) m2 = Some (CborNoError, c2, m3) \<and> map_written n k [(chars ''MESSAGE_TYPE'', int_item (ucast ty))] c2 m3"
    using map_written_key_value [of n k "[]" c m1 "\<lambda>c m. cbor_encode_int c (ucast ty) m" "int_item (ucast ty)" "chars ''MESSAGE_TYPE''"] assms(1) by auto
  then
  obtain c1 m2 c2 m3 where "cbor_encode_text_stringz c (chars ''MESSAGE_TYPE'') m1 = Some (CborNoError, c1, m2)"
      "cbor_encode_int c1 (ucast ty) m2 = Some (CborNoError, c2, m3)" "map_written n k [(chars ''MESSAGE_TYPE'', int_item (ucast ty))] c2 m3" by auto
  then show ?thesis using o(1,4) assms(4) [of c2 m3 enc] by (auto simp: start_encode_msg_def)
qed

lemma end_step:
  assumes "map_written n k es c m" "ce_data enc = 0" "entries_ok es" "k = length es"
  shows "\<exists>m'. end_encode_msg addr enc c m = Some (int (length (map_bytes es)), m') \<and> take (length (map_bytes es)) m' = map_bytes es"
proof -
  have "written n (map_bytes es) (2 * length es) c m" "ce_flags c = 0x20" using assms(1,4) by (simp_all add: map_written_def map_bytes_def)
  from map_closed [OF this assms(2,3)] show ?thesis by (auto simp: end_encode_msg_def unless_error_def cbor_encoder_get_buffer_size_def)
qed

lemma with_value_found:
  assumes "entries_ok (es1 @ (key, it) # es2)" "0 \<notin> set key" "key \<notin> fst ` set es1"
    and "\<And>q v. item_at (map_bytes (es1 @ (key, it) # es2)) q it \<Longrightarrow> parsed_at (map_bytes (es1 @ (key, it) # es2)) q v \<Longrightarrow> k v = r"
  shows "with_value (map_bytes (es1 @ (key, it) # es2)) key k = r"
proof -
  let ?es = "es1 @ (key, it) # es2"
  obtain mp where m: "cbor_parser_init (map_bytes ?es) = Some (CborNoError, mp)" "cbor_value_is_map mp"
      "\<exists>v q. cbor_value_map_find_value (map_bytes ?es) mp key = Some (CborNoError, v) \<and> item_at (map_bytes ?es) q it \<and> parsed_at (map_bytes ?es) q v"
    using map_find [OF assms(1,2)] assms(3) by blast
  then obtain v q where "cbor_value_map_find_value (map_bytes ?es) mp key = Some (CborNoError, v)" "item_at (map_bytes ?es) q it"
      "parsed_at (map_bytes ?es) q v" by blast
  then show ?thesis using m(1,2) assms(4) by (simp add: with_value_def)
qed

lemma with_value_absent:
  assumes "entries_ok es" "0 \<notin> set key" "key \<notin> fst ` set es" and "\<And>v. cv_type v = CborInvalidType \<Longrightarrow> k v = r"
  shows "with_value (map_bytes es) key k = r"
proof -
  obtain mp v where "cbor_parser_init (map_bytes es) = Some (CborNoError, mp)" "cbor_value_is_map mp"
      "cbor_value_map_find_value (map_bytes es) mp key = Some (CborNoError, v)" "cv_type v = CborInvalidType"
    using map_find [OF assms(1,2)] assms(3) by blast
  then show ?thesis using assms(4) by (simp add: with_value_def)
qed

lemma small_ucast: "x \<in> {0, 1, 2, 3} \<Longrightarrow> (ucast (x :: u32) :: u64) = scast x"
  by auto

definition topic_entries :: "u32 \<Rightarrow> u16 \<Rightarrow> cbor_entry list" where
  "topic_entries ty topic_id = [(chars ''MESSAGE_TYPE'', int_item (ucast ty)), (chars ''TOPIC_ID'', Half topic_id)]"

definition packet_entries :: "linux_packet \<Rightarrow> cbor_entry list" where
  "packet_entries pkt =
     [(chars ''MESSAGE_TYPE'', int_item (ucast MESSAGE_TYPE_PACKET)), (chars ''TOPIC_ID'', Half (lp_topic_id pkt)),
      (chars ''SUBSYSTEM_ID'', int_item (scast (lp_subsystem_id pkt))), (chars ''DATA_TYPE'', int_item (ucast (lp_data_type pkt))),
      (chars ''DATA'', if lp_data_type pkt = TELEMETRY_TYPE_INT then int_item (scast (lp_data pkt)) else Float (lp_data pkt)),
      (chars ''TIMESTAMP'', int_item (scast (lp_timestamp pkt)))]"

lemma key_length:
  "length (item_bytes (Text (chars ''MESSAGE_TYPE''))) = 13" "length (item_bytes (Text (chars ''TOPIC_ID''))) = 9"
  "length (item_bytes (Text (chars ''SUBSYSTEM_ID''))) = 13" "length (item_bytes (Text (chars ''DATA_TYPE''))) = 10"
  "length (item_bytes (Text (chars ''DATA''))) = 5" "length (item_bytes (Text (chars ''TIMESTAMP''))) = 10"
  by (simp_all add: chars_key del: item_bytes.simps)

lemma key_chars:
  "0 \<notin> set (chars ''MESSAGE_TYPE'')" "0 \<notin> set (chars ''TOPIC_ID'')" "0 \<notin> set (chars ''SUBSYSTEM_ID'')"
  "0 \<notin> set (chars ''DATA_TYPE'')" "0 \<notin> set (chars ''DATA'')" "0 \<notin> set (chars ''TIMESTAMP'')"
  by (simp_all add: chars_def)

lemma keys_distinct:
  "distinct [chars ''MESSAGE_TYPE'', chars ''TOPIC_ID'', chars ''SUBSYSTEM_ID'', chars ''DATA_TYPE'', chars ''DATA'', chars ''TIMESTAMP'']"
  by (simp add: chars_def)

lemma map_size_small: "k < 24 \<Longrightarrow> (\<And>e. e \<in> set es \<Longrightarrow> length (entry_bytes e) \<le> 22) \<Longrightarrow> length es \<le> 11 \<Longrightarrow> map_size k es \<le> TELEMETRY_BUFFER_SIZE"
proof -
  assume k: "k < 24" and e: "\<And>e. e \<in> set es \<Longrightarrow> length (entry_bytes e) \<le> 22" and n: "length es \<le> 11"
  have "length (concat (map entry_bytes es)) \<le> 22 * length es" using e
  proof (induction es)
    case (Cons e es)
    have "length (entry_bytes e) \<le> 22" "length (concat (map entry_bytes es)) \<le> 22 * length es" using Cons by simp_all
    then show ?case by simp
  qed simp
  then show ?thesis using n small_map [OF k] by (simp add: map_size_def TELEMETRY_BUFFER_SIZE_def)
qed

lemma entry_length:
  assumes "key \<in> {''MESSAGE_TYPE'', ''TOPIC_ID'', ''SUBSYSTEM_ID'', ''DATA_TYPE'', ''DATA'', ''TIMESTAMP''}"
  shows "length (entry_bytes (chars key, int_item v)) \<le> 22" "length (entry_bytes (chars key, Half h)) \<le> 22"
    "length (entry_bytes (chars key, Float f)) \<le> 22"
proof -
  have "length (item_bytes (Text (chars key))) \<le> 13" using assms key_length by auto
  then show "length (entry_bytes (chars key, int_item v)) \<le> 22" "length (entry_bytes (chars key, Half h)) \<le> 22"
    "length (entry_bytes (chars key, Float f)) \<le> 22"
    using length_int_item [of v] by (simp_all add: entry_bytes_def)
qed

lemma topic_entries_ok: "entries_ok (topic_entries ty t)"
  by (simp add: entries_ok_def topic_entries_def entry_ok_iff int_item_ok)

lemma packet_entries_ok: "entries_ok (packet_entries pkt)"
  by (simp add: entries_ok_def packet_entries_def entry_ok_iff int_item_ok)

lemma encode_topic_msg_bytes:
  assumes "length m = TELEMETRY_BUFFER_SIZE"
  shows "\<exists>m'. encode_topic_msg ty addr (Some m) (Some t) = Some (int (length (map_bytes (topic_entries ty t))), m') \<and>
    take (length (map_bytes (topic_entries ty t))) m' = map_bytes (topic_entries ty t)"
proof -
  have 2: "map_size 2 (topic_entries ty t) \<le> TELEMETRY_BUFFER_SIZE"
    using entry_length by (intro map_size_small) (auto simp: topic_entries_def)
  have 1: "map_size 2 [(chars ''MESSAGE_TYPE'', int_item (ucast ty))] \<le> TELEMETRY_BUFFER_SIZE"
    using entry_length by (intro map_size_small) auto
  note e = topic_entries_def [of ty t]
  show ?thesis
    unfolding encode_topic_msg_def option.case prod.case
    apply (rule start_step [OF 1 assms])
     apply simp
    apply (rule key_value_step [OF _ writes_half, of _ _ "[(chars ''MESSAGE_TYPE'', int_item (ucast ty))]"])
      apply assumption
     apply (use 2 in \<open>simp add: e\<close>)
    apply (rule end_step)
       apply (simp only: e append_Cons append_Nil)
      apply assumption
     apply (rule topic_entries_ok)
    by (simp add: e)
qed

lemma encode_packet_msg_bytes:
  assumes "length m = TELEMETRY_BUFFER_SIZE" "lp_data_type pkt = TELEMETRY_TYPE_INT \<or> lp_data_type pkt = TELEMETRY_TYPE_FLOAT"
  shows "\<exists>m'. telemetry_encode_packet_msg addr (Some m) (Some pkt) = Some (int (length (map_bytes (packet_entries pkt))), m') \<and>
    take (length (map_bytes (packet_entries pkt))) m' = map_bytes (packet_entries pkt)"
proof -
  let ?es = "packet_entries pkt"
  have fits: "map_size 6 (take i ?es) \<le> TELEMETRY_BUFFER_SIZE" for i
  proof (rule map_size_small)
    show "length (entry_bytes e) \<le> 22" if "e \<in> set (take i ?es)" for e
      using in_set_takeD [OF that] by (auto simp: packet_entries_def intro!: entry_length split: if_splits)
    show "length (take i ?es) \<le> 11" by (simp add: packet_entries_def)
  qed simp
  have data: "writes n (\<lambda>c m. if lp_data_type pkt = TELEMETRY_TYPE_INT then cbor_encode_int c (scast (lp_data pkt)) m
        else if lp_data_type pkt = TELEMETRY_TYPE_FLOAT then cbor_encode_float c (lp_data pkt) m else Some (CborNoError, c, m))
      (if lp_data_type pkt = TELEMETRY_TYPE_INT then int_item (scast (lp_data pkt)) else Float (lp_data pkt))" for n
    using assms(2) writes_int writes_float by (auto simp: data_types)
  note e = packet_entries_def [of pkt]
  note f1 = fits [of 1] and f2 = fits [of 2] and f3 = fits [of 3] and f4 = fits [of 4] and f5 = fits [of 5] and f6 = fits [of 6]
  note fit = f1 f2 f3 f4 f5 f6
  show ?thesis
    unfolding telemetry_encode_packet_msg_def option.case prod.case
    apply (rule start_step [OF _ assms(1)])
      apply (use f1 in \<open>simp add: e\<close>)
     apply simp
    apply (rule key_value_step [OF _ writes_half], assumption, use f2 in \<open>simp add: e\<close>)
    apply (rule key_value_step [OF _ writes_int], assumption, use f3 in \<open>simp add: e\<close>)
    apply (rule key_value_step [OF _ writes_int], assumption, use f4 in \<open>simp add: e\<close>)
    apply (rule key_value_step [OF _ data], assumption, use f5 in \<open>simp add: e\<close>)
    apply (rule key_value_step [OF _ writes_int], assumption, use f6 in \<open>simp add: e\<close>)
    apply (rule end_step)
       apply (simp only: e append_Cons append_Nil)
      apply assumption
     apply (rule packet_entries_ok)
    by (simp add: e)
qed

section \<open>The messages are read back\<close>

lemma get_int_absent: "cv_type v = CborInvalidType \<Longrightarrow> cbor_value_get_int bs v = None"
  by (simp add: cbor_value_get_int_def cbor_value_is_integer_def cbor_types)

lemma get_small_int:
  assumes "item_at bs q (int_item (ucast w))" "parsed_at bs q v" "w \<in> {0, 1, 2, 3}"
  shows "cbor_value_get_int bs v = Some (w :: u32)"
  using get_int_item [of bs q w v] assms small_ucast [OF assms(3)] by simp

lemma parse_msg_type_found:
  assumes "entries_ok ((chars ''MESSAGE_TYPE'', int_item (ucast ty)) # es)" "ty \<in> {0, 1, 2, 3}"
  shows "telemetry_parse_msg_type (map_bytes ((chars ''MESSAGE_TYPE'', int_item (ucast ty)) # es)) = Some (Some ty)"
  unfolding telemetry_parse_msg_type_def
proof (rule with_value_found [of "[]", unfolded append_Nil])
  fix q v
  assume "item_at (map_bytes ((chars ''MESSAGE_TYPE'', int_item (ucast ty)) # es)) q (int_item (ucast ty))"
    "parsed_at (map_bytes ((chars ''MESSAGE_TYPE'', int_item (ucast ty)) # es)) q v"
  from get_small_int [OF this assms(2)]
  show "map_option Some (cbor_value_get_int (map_bytes ((chars ''MESSAGE_TYPE'', int_item (ucast ty)) # es)) v) = Some (Some ty)" by simp
qed (use assms(1) key_chars(1) in simp_all)

lemma parse_topic_found: "parse_topic_msg (map_bytes (topic_entries ty t)) = Some (Some t)"
proof -
  have e: "topic_entries ty t = [(chars ''MESSAGE_TYPE'', int_item (ucast ty))] @ (chars ''TOPIC_ID'', Half t) # []"
    by (simp add: topic_entries_def)
  have k: "chars ''TOPIC_ID'' \<notin> fst ` set [(chars ''MESSAGE_TYPE'', int_item (ucast ty))]" by (simp add: chars_def)
  show ?thesis
    unfolding parse_topic_msg_def e
  proof (rule with_value_found [OF topic_entries_ok [of ty t, unfolded e] key_chars(2) k])
    fix q v
    assume "item_at (map_bytes ([(chars ''MESSAGE_TYPE'', int_item (ucast ty))] @ (chars ''TOPIC_ID'', Half t) # [])) q (Half t)"
      "parsed_at (map_bytes ([(chars ''MESSAGE_TYPE'', int_item (ucast ty))] @ (chars ''TOPIC_ID'', Half t) # [])) q v"
    from get_half_item [OF this]
    show "map_option Some (cbor_value_get_half_float (map_bytes ([(chars ''MESSAGE_TYPE'', int_item (ucast ty))] @ (chars ''TOPIC_ID'', Half t) # [])) v)
      = Some (Some t)" by simp
  qed
qed

text \<open>Every key of a packet is found.\<close>

lemma packet_find:
  assumes "packet_entries pkt = es1 @ (key, it) # es2" "0 \<notin> set key" "key \<notin> fst ` set es1"
    and "cbor_parser_init (map_bytes (packet_entries pkt)) = Some (CborNoError, mp)"
  shows "\<exists>v q. cbor_value_map_find_value (map_bytes (packet_entries pkt)) mp key = Some (CborNoError, v) \<and>
    item_at (map_bytes (packet_entries pkt)) q it \<and> parsed_at (map_bytes (packet_entries pkt)) q v"
  using map_find [OF packet_entries_ok [of pkt] assms(2)] assms(1,3,4) by auto

lemma parse_packet_found:
  assumes "lp_data_type pkt = TELEMETRY_TYPE_INT \<or> lp_data_type pkt = TELEMETRY_TYPE_FLOAT"
  shows "telemetry_parse_packet_msg old (map_bytes (packet_entries pkt)) = Some (Some pkt)"
proof -
  let ?bs = "map_bytes (packet_entries pkt)"
  let ?d = "if lp_data_type pkt = TELEMETRY_TYPE_INT then int_item (scast (lp_data pkt)) else Float (lp_data pkt)"
  note e = packet_entries_def [of pkt] and d = keys_distinct
  obtain mp where m: "cbor_parser_init ?bs = Some (CborNoError, mp)" "cbor_value_is_map mp"
    using map_find [OF packet_entries_ok [of pkt] key_chars(2)] by blast
  note f = packet_find [OF _ _ _ m(1)]
  obtain v1 q1 where 1: "cbor_value_map_find_value ?bs mp (chars ''TOPIC_ID'') = Some (CborNoError, v1)"
      "item_at ?bs q1 (Half (lp_topic_id pkt))" "parsed_at ?bs q1 v1"
    using f [of "take 1 (packet_entries pkt)" "chars ''TOPIC_ID''" "Half (lp_topic_id pkt)" "drop 2 (packet_entries pkt)"] d by (auto simp: e key_chars)
  obtain v2 q2 where 2: "cbor_value_map_find_value ?bs mp (chars ''SUBSYSTEM_ID'') = Some (CborNoError, v2)"
      "item_at ?bs q2 (int_item (scast (lp_subsystem_id pkt)))" "parsed_at ?bs q2 v2"
    using f [of "take 2 (packet_entries pkt)" "chars ''SUBSYSTEM_ID''" "int_item (scast (lp_subsystem_id pkt))" "drop 3 (packet_entries pkt)"] d
    by (auto simp: e key_chars)
  obtain v3 q3 where 3: "cbor_value_map_find_value ?bs mp (chars ''DATA_TYPE'') = Some (CborNoError, v3)"
      "item_at ?bs q3 (int_item (ucast (lp_data_type pkt)))" "parsed_at ?bs q3 v3"
    using f [of "take 3 (packet_entries pkt)" "chars ''DATA_TYPE''" "int_item (ucast (lp_data_type pkt))" "drop 4 (packet_entries pkt)"] d
    by (auto simp: e key_chars)
  obtain v4 q4 where 4: "cbor_value_map_find_value ?bs mp (chars ''DATA'') = Some (CborNoError, v4)"
      "item_at ?bs q4 ?d" "parsed_at ?bs q4 v4"
    using f [of "take 4 (packet_entries pkt)" "chars ''DATA''" ?d "drop 5 (packet_entries pkt)"] d by (auto simp: e key_chars)
  obtain v5 q5 where 5: "cbor_value_map_find_value ?bs mp (chars ''TIMESTAMP'') = Some (CborNoError, v5)"
      "item_at ?bs q5 (int_item (scast (lp_timestamp pkt)))" "parsed_at ?bs q5 v5"
    using f [of "take 5 (packet_entries pkt)" "chars ''TIMESTAMP''" "int_item (scast (lp_timestamp pkt))" "[]"] d by (auto simp: e key_chars)
  have "lp_data_type pkt \<in> {0, 1, 2, 3}" using assms by (auto simp: data_types)
  note 3 = 3(1) get_small_int [OF 3(2,3) this]
  have "(if lp_data_type pkt = TELEMETRY_TYPE_INT then cbor_value_get_int ?bs v4 else cbor_value_get_float ?bs v4) = Some (lp_data pkt)"
    using 4(2,3) get_int_item get_float_item by auto
  then show ?thesis
    using m 1(1) get_half_item [OF 1(2,3)] 2(1) get_int_item [OF 2(2,3)] 3 4(1) 5(1) get_int_item [OF 5(2,3)] assms
    by (auto simp: telemetry_parse_packet_msg_def data_types)
qed

text \<open>How long the messages are.\<close>

lemma disconnect_msg_bytes:
  assumes "length m = TELEMETRY_BUFFER_SIZE"
  shows "\<exists>m'. telemetry_encode_disconnect_msg addr (Some m) =
      Some (int (length (map_bytes [(chars ''MESSAGE_TYPE'', int_item (ucast MESSAGE_TYPE_DISCONNECT))])), m') \<and>
    take (length (map_bytes [(chars ''MESSAGE_TYPE'', int_item (ucast MESSAGE_TYPE_DISCONNECT))])) m' =
      map_bytes [(chars ''MESSAGE_TYPE'', int_item (ucast MESSAGE_TYPE_DISCONNECT))]"
proof -
  let ?es = "[(chars ''MESSAGE_TYPE'', int_item (ucast MESSAGE_TYPE_DISCONNECT))]"
  have 1: "map_size 1 ?es \<le> TELEMETRY_BUFFER_SIZE" using entry_length by (intro map_size_small) auto
  have ok: "entries_ok ?es" by (simp add: entries_ok_def entry_ok_iff int_item_ok)
  show ?thesis
    unfolding telemetry_encode_disconnect_msg_def option.case
    by (rule start_step [OF 1 assms]) (use ok in \<open>auto intro: end_step\<close>)
qed

lemma topic_msg_length: "ty \<in> {0, 1, 2, 3} \<Longrightarrow> length (map_bytes (topic_entries ty t)) = 27"
  using length_small_item [of ty] key_length
  by (simp add: length_map_bytes topic_entries_def entry_bytes_def del: item_bytes.simps(5)) 

lemma packet_msg_length:
  assumes "lp_data_type pkt = TELEMETRY_TYPE_INT \<or> lp_data_type pkt = TELEMETRY_TYPE_FLOAT"
  shows "69 \<le> length (map_bytes (packet_entries pkt)) \<and> length (map_bytes (packet_entries pkt)) \<le> 81"
proof -
  have d: "length (item_bytes (int_item (ucast (lp_data_type pkt)))) = 1" "length (item_bytes (int_item (ucast MESSAGE_TYPE_PACKET))) = 1"
    using length_small_item [of "lp_data_type pkt"] length_small_item [of 0] assms by (auto simp: data_types MESSAGE_TYPE_PACKET_def)
  have "1 \<le> length (item_bytes (int_item v))" for v by (simp add: int_item_def number_bytes_split)
  note pos = this [of "scast (lp_subsystem_id pkt)"] this [of "scast (lp_data pkt)"] this [of "scast (lp_timestamp pkt)"]
  show ?thesis
    using pos d key_length item_length length_scast_item [of "lp_subsystem_id pkt"] length_scast_item [of "lp_data pkt"] length_scast_item [of "lp_timestamp pkt"]
    by (simp add: length_map_bytes packet_entries_def entry_bytes_def del: item_bytes.simps)
qed

lemma disconnect_msg_length: "length (map_bytes [(chars ''MESSAGE_TYPE'', int_item (ucast MESSAGE_TYPE_DISCONNECT))]) = 15"
  using length_small_item [of 3] key_length by (simp add: length_map_bytes entry_bytes_def MESSAGE_TYPE_DISCONNECT_def del: item_bytes.simps)

lemma parse_topic_type: "ty \<in> {0, 1, 2, 3} \<Longrightarrow> telemetry_parse_msg_type (map_bytes (topic_entries ty t)) = Some (Some ty)"
  using parse_msg_type_found [of ty "[(chars ''TOPIC_ID'', Half t)]"] topic_entries_ok [of ty t] by (simp add: topic_entries_def)

lemma parse_packet_type: "telemetry_parse_msg_type (map_bytes (packet_entries pkt)) = Some (Some MESSAGE_TYPE_PACKET)"
proof -
  have "packet_entries pkt = (chars ''MESSAGE_TYPE'', int_item (ucast MESSAGE_TYPE_PACKET)) # tl (packet_entries pkt)" by (simp add: packet_entries_def)
  moreover have "MESSAGE_TYPE_PACKET \<in> {0, 1, 2, 3}" by (simp add: MESSAGE_TYPE_PACKET_def)
  ultimately show ?thesis using parse_msg_type_found [of MESSAGE_TYPE_PACKET "tl (packet_entries pkt)"] packet_entries_ok [of pkt] by metis
qed

lemma parse_disconnect_type:
  "telemetry_parse_msg_type (map_bytes [(chars ''MESSAGE_TYPE'', int_item (ucast MESSAGE_TYPE_DISCONNECT))]) = Some (Some MESSAGE_TYPE_DISCONNECT)"
proof -
  have "entries_ok [(chars ''MESSAGE_TYPE'', int_item (ucast MESSAGE_TYPE_DISCONNECT))]" by (simp add: entries_ok_def entry_ok_iff int_item_ok)
  from parse_msg_type_found [OF this] show ?thesis by (simp add: MESSAGE_TYPE_DISCONNECT_def)
qed

text \<open>C10. A packet that is written into a message is read back: with a buffer of the configured size and one of the two
  types of data, the encoder returns a positive size, and from that many bytes of the buffer the receiver reads the
  type of the message and every member of the packet, for all values of the members (negative integers and the
  bits of the floating-point number included).
\<close>

theorem telemetry_packet_msg_round_trip:
  assumes "length m = TELEMETRY_BUFFER_SIZE" "lp_data_type pkt = TELEMETRY_TYPE_INT \<or> lp_data_type pkt = TELEMETRY_TYPE_FLOAT"
  shows "\<exists>n m'. telemetry_encode_packet_msg addr (Some m) (Some pkt) = Some (int n, m') \<and> 0 < n \<and> n \<le> TELEMETRY_BUFFER_SIZE \<and>
    telemetry_parse_msg_type (take n m') = Some (Some MESSAGE_TYPE_PACKET) \<and>
    telemetry_parse_packet_msg old (take n m') = Some (Some pkt)"
proof -
  obtain m' where "telemetry_encode_packet_msg addr (Some m) (Some pkt) = Some (int (length (map_bytes (packet_entries pkt))), m')"
      "take (length (map_bytes (packet_entries pkt))) m' = map_bytes (packet_entries pkt)"
    using encode_packet_msg_bytes [OF assms] by blast
  moreover have "map_bytes (packet_entries pkt) \<noteq> []" by (simp add: map_bytes_def number_bytes_split)
  ultimately show ?thesis using parse_packet_type [of pkt] parse_packet_found [OF assms(2)] packet_msg_length [OF assms(2)]
    by (intro exI [of _ "length (map_bytes (packet_entries pkt))"] exI [of _ m']) (simp add: TELEMETRY_BUFFER_SIZE_def)
qed

lemma telemetry_packet_msg_round_trip_witness:
  "\<exists>n m'. telemetry_encode_packet_msg 4096 (Some (replicate 256 0))
      (Some \<lparr>lp_topic_id = 12, lp_data_type = 0, lp_subsystem_id = 11, lp_data = - 40, lp_timestamp = 101010\<rparr>) = Some (int n, m') \<and>
    0 < n \<and> n \<le> TELEMETRY_BUFFER_SIZE \<and> telemetry_parse_msg_type (take n m') = Some (Some MESSAGE_TYPE_PACKET) \<and>
    telemetry_parse_packet_msg 7 (take n m') =
      Some (Some \<lparr>lp_topic_id = 12, lp_data_type = 0, lp_subsystem_id = 11, lp_data = - 40, lp_timestamp = 101010\<rparr>)"
  by (rule telemetry_packet_msg_round_trip) (simp_all add: TELEMETRY_BUFFER_SIZE_def data_types)

text \<open>C19. The sizes of the messages: a request of a topic takes 27 bytes, a disconnection 15 and a packet of one of the two
  types of data between 69 and 81, whatever the values of its members, so no message comes near the 256 bytes of the
  buffer that every sender and every receiver has.
\<close>

theorem telemetry_message_sizes:
  assumes "length m = TELEMETRY_BUFFER_SIZE"
  shows "fst ` set_option (telemetry_encode_subscribe_msg addr (Some m) (Some t)) = {27} \<and>
    fst ` set_option (telemetry_encode_unsubscribe_msg addr (Some m) (Some t)) = {27} \<and>
    fst ` set_option (telemetry_encode_disconnect_msg addr (Some m)) = {15} \<and>
    (lp_data_type pkt = TELEMETRY_TYPE_INT \<or> lp_data_type pkt = TELEMETRY_TYPE_FLOAT \<longrightarrow>
      (\<exists>n m'. telemetry_encode_packet_msg addr (Some m) (Some pkt) = Some (n, m') \<and> 69 \<le> n \<and> n \<le> 81))"
proof -
  have "length (map_bytes (topic_entries ty t)) = 27" if "ty \<in> {1, 2}" for ty using topic_msg_length [of ty t] that by auto
  then have "fst ` set_option (encode_topic_msg ty addr (Some m) (Some t)) = {27}" if "ty \<in> {1, 2}" for ty
    using encode_topic_msg_bytes [OF assms, of ty addr t] that by fastforce
  moreover have "fst ` set_option (telemetry_encode_disconnect_msg addr (Some m)) = {15}"
    using disconnect_msg_bytes [OF assms, of addr] by (auto simp: disconnect_msg_length)
  moreover have "\<exists>n m'. telemetry_encode_packet_msg addr (Some m) (Some pkt) = Some (n, m') \<and> 69 \<le> n \<and> n \<le> 81"
    if "lp_data_type pkt = TELEMETRY_TYPE_INT \<or> lp_data_type pkt = TELEMETRY_TYPE_FLOAT"
    using encode_packet_msg_bytes [OF assms that, of addr] packet_msg_length [OF that] by fastforce
  ultimately show ?thesis
    by (simp add: telemetry_encode_subscribe_msg_def telemetry_encode_unsubscribe_msg_def MESSAGE_TYPE_SUBSCRIBE_def MESSAGE_TYPE_UNSUBSCRIBE_def)
qed

lemma telemetry_message_sizes_witness:
  "\<exists>n m'. telemetry_encode_packet_msg 4096 (Some (replicate 256 0))
      (Some \<lparr>lp_topic_id = 12, lp_data_type = 1, lp_subsystem_id = 2147483648, lp_data = 0x3F800000, lp_timestamp = 101010\<rparr>) = Some (n, m') \<and>
    69 \<le> n \<and> n \<le> 81"
  using telemetry_message_sizes [of "replicate 256 0" 4096 12
    "\<lparr>lp_topic_id = 12, lp_data_type = 1, lp_subsystem_id = 2147483648, lp_data = 0x3F800000, lp_timestamp = 101010\<rparr>"]
  by (simp add: TELEMETRY_BUFFER_SIZE_def data_types)

text \<open>C23. A well-formed message without the key stops the program: a map in which no entry has the key \<open>MESSAGE_TYPE\<close> makes
  the search succeed with a value that is not valid, the code reads an integer from it without a test, and the assertion
  of the parser fails.  Every process that can connect can stop the service with such a message; the shortest is the empty map.
\<close>

theorem telemetry_missing_key_aborts:
  assumes "entries_ok es" "chars ''MESSAGE_TYPE'' \<notin> fst ` set es"
  shows "telemetry_parse_msg_type (map_bytes es) = None"
  unfolding telemetry_parse_msg_type_def
  by (rule with_value_absent [OF assms(1) key_chars(1) assms(2)]) (simp add: get_int_absent)

lemma telemetry_missing_key_aborts_witness: "telemetry_parse_msg_type [0xA0] = None"
  using telemetry_missing_key_aborts [of "[]"] by (simp add: entries_ok_def map_bytes_def number_bytes_def Value8Bit_def)

end
