(* ===== verification/KTelemetryServer.thy ===== *)
theory KTelemetryServer
  imports KTelemetryLinux
begin

text \<open>
  The telemetry service on Linux: the stream sockets (\<open>ipc/source/socket.c\<close>), the server
  (\<open>services/telemetry/telemetry-linux/source/server.c\<close> and the loop of \<open>linux-telemetry-service/source/main.c\<close>) and
  the client (\<open>client.c\<close>).

  The list of subscribers is the list of their addresses and a heap; an address without a subscriber was freed or never
  allocated, and reading it is undefined (\<open>None\<close>).  What the system calls return is a parameter (\<open>linux_env\<close>), what
  \<open>recv\<close> delivers is an argument of each call (\<open>None\<close> is a negative result, the empty list the end of the stream), and
  what the kernel took from \<open>send\<close> and the sockets that were closed are kept in the state.
\<close>

section \<open>Sockets\<close>

definition TELEMETRY_SOCKET_PORT :: u16 where "TELEMETRY_SOCKET_PORT = 8199"
definition SUBSCRIBER_READ_ATTEMPTS :: nat where "SUBSCRIBER_READ_ATTEMPTS = 10"

record socket_conn =
  is_active :: bool
  socket_handle :: int
  socket_port :: u16

record linux_env =
  os_socket :: int
  os_bind :: "int \<Rightarrow> u16 \<Rightarrow> int"
  os_listen :: "int \<Rightarrow> nat \<Rightarrow> int"
  os_accept :: "int \<Rightarrow> int"
  os_connect :: "int \<Rightarrow> u16 \<Rightarrow> int"
  os_send :: "int \<Rightarrow> u8 list \<Rightarrow> int"
  os_shutdown :: "int \<Rightarrow> int"
  os_close :: "int \<Rightarrow> int"
  os_memory :: bool
  os_kill_returns :: bool
  os_padding :: u16
  os_stack :: u32

text \<open>
  \<open>os_memory\<close> is whether \<open>calloc\<close> finds memory for a topic, \<open>os_kill_returns\<close> whether \<open>csp_thread_kill\<close> returns when a
  thread kills itself: \<open>pthread_cancel\<close> and then \<open>pthread_join\<close>, which is a cancellation point.  \<open>os_padding\<close> and
  \<open>os_stack\<close> are the bytes of a packet on the stack that are not set.
\<close>

definition kprv_socket_server_setup :: "linux_env \<Rightarrow> u16 \<Rightarrow> nat \<Rightarrow> socket_conn option \<Rightarrow> bool \<times> socket_conn option" where
  "kprv_socket_server_setup env port num_connections conn =
     (case conn of None \<Rightarrow> (False, None)
      | Some c \<Rightarrow>
          let c = c\<lparr>socket_handle := os_socket env\<rparr>
          in if socket_handle c = - 1 then (False, Some c)
             else let c = c\<lparr>socket_port := port\<rparr>
                  in if os_bind env (socket_handle c) port < 0 then (False, Some c)
                     else if os_listen env (socket_handle c) num_connections < 0 then (False, Some c)
                     else (True, Some (c\<lparr>is_active := True\<rparr>)))"

definition kprv_socket_server_accept :: "linux_env \<Rightarrow> socket_conn option \<Rightarrow> socket_conn option \<Rightarrow> bool \<times> socket_conn option" where
  "kprv_socket_server_accept env server_conn client_conn =
     (case (server_conn, client_conn) of
        (Some s, Some c) \<Rightarrow>
          let h = os_accept env (socket_handle s)
          in if h < 0 then (False, Some (c\<lparr>is_active := False\<rparr>))
             else (True, Some (c\<lparr>socket_handle := h, is_active := True\<rparr>))
      | _ \<Rightarrow> (False, client_conn))"

definition kprv_socket_client_connect :: "linux_env \<Rightarrow> u16 \<Rightarrow> socket_conn option \<Rightarrow> bool \<times> socket_conn option" where
  "kprv_socket_client_connect env port conn =
     (case conn of None \<Rightarrow> (False, None)
      | Some c \<Rightarrow>
          if os_socket env = - 1 then (False, Some (c\<lparr>is_active := False\<rparr>))
          else if os_connect env (os_socket env) port \<noteq> 0 then (False, Some (c\<lparr>is_active := False\<rparr>))
          else (True, Some (c\<lparr>socket_handle := os_socket env, is_active := True\<rparr>)))"

text \<open>With the result: what the kernel took, with the socket.\<close>

definition kprv_socket_send :: "linux_env \<Rightarrow> socket_conn option \<Rightarrow> u8 list option \<Rightarrow> bool \<times> (int \<times> u8 list) list" where
  "kprv_socket_send env conn data =
     (case (conn, data) of
        (Some c, Some d) \<Rightarrow>
          if \<not> is_active c then (False, [])
          else let r = os_send env (socket_handle c) d
               in if r < 0 then (False, []) else (True, [(socket_handle c, take (nat r) d)])
      | _ \<Rightarrow> (False, []))"

text \<open>The result is the buffer and the length that was read; \<open>None\<close> is \<open>false\<close>.\<close>

definition kprv_socket_recv :: "socket_conn option \<Rightarrow> u8 list option \<Rightarrow> nat \<Rightarrow> u8 list option \<Rightarrow> (u8 list \<times> nat) option" where
  "kprv_socket_recv conn data_buffer data_length received =
     (case (conn, data_buffer) of
        (Some c, Some buf) \<Rightarrow>
          if \<not> is_active c then None
          else (case received of None \<Rightarrow> None
                | Some r \<Rightarrow> let r = take data_length r in Some (r @ drop (length r) buf, length r))
      | _ \<Rightarrow> None)"

text \<open>With the result: the sockets that were closed.\<close>

definition kprv_socket_close :: "linux_env \<Rightarrow> socket_conn option \<Rightarrow> bool \<times> socket_conn option \<times> int list" where
  "kprv_socket_close env conn =
     (case conn of None \<Rightarrow> (False, None, [])
      | Some c \<Rightarrow>
          let c = c\<lparr>is_active := False\<rparr>
          in if os_shutdown env (socket_handle c) \<noteq> 0 then (False, Some c, [])
             else if os_close env (socket_handle c) \<noteq> 0 then (False, Some c, [])
             else (True, Some c, [socket_handle c]))"

section \<open>Subscribers\<close>

record linux_subscriber =
  ls_active :: bool
  ls_id :: u16
  ls_conn :: socket_conn
  ls_packet_queue :: bool
  ls_topics :: "u16 list"
  ls_rx_thread :: nat

record linux_server =
  lv_heap :: "nat \<Rightarrow> linux_subscriber option"
  lv_subscribers :: "nat list"
  lv_sub_id :: u16
  lv_sent :: "(int \<times> u8 list) list"
  lv_closed :: "int list"

definition linux_server_start :: linux_server where
  "linux_server_start = \<lparr>lv_heap = (\<lambda>_. None), lv_subscribers = [], lv_sub_id = 0, lv_sent = [], lv_closed = []\<rparr>"

definition set_sub :: "nat \<Rightarrow> linux_subscriber option \<Rightarrow> linux_server \<Rightarrow> linux_server" where
  "set_sub a sub s = s\<lparr>lv_heap := (lv_heap s)(a := sub)\<rparr>"

definition change_sub :: "nat \<Rightarrow> (linux_subscriber \<Rightarrow> linux_subscriber) \<Rightarrow> linux_server \<Rightarrow> linux_server option" where
  "change_sub a f s = map_option (\<lambda>sub. set_sub a (Some (f sub)) s) (lv_heap s a)"

text \<open>\<open>mem\<close> is what \<open>calloc\<close> returns, \<open>queue\<close> whether the queue was created.\<close>

definition kprv_subscriber_init :: "nat option \<Rightarrow> bool \<Rightarrow> socket_conn \<Rightarrow> linux_server \<Rightarrow> nat option \<times> linux_server" where
  "kprv_subscriber_init mem queue conn s =
     (case mem of None \<Rightarrow> (None, s)
      | Some a \<Rightarrow>
          (Some a, set_sub a (Some \<lparr>ls_active = True, ls_id = lv_sub_id s, ls_conn = conn, ls_packet_queue = queue, ls_topics = [],
                                   ls_rx_thread = 0\<rparr>) (s\<lparr>lv_sub_id := lv_sub_id s + 1\<rparr>)))"

text \<open>Every element up to the last is read.  An element that is in the list already would close it to a cycle.\<close>

definition kprv_subscriber_add :: "nat option \<Rightarrow> linux_server \<Rightarrow> (bool \<times> linux_server) option" where
  "kprv_subscriber_add sub s =
     (case sub of None \<Rightarrow> Some (False, s)
      | Some a \<Rightarrow>
          if lv_heap s a = None \<or> (\<exists>b\<in>set (lv_subscribers s). lv_heap s b = None) \<or> a \<in> set (lv_subscribers s) then None
          else Some (True, s\<lparr>lv_subscribers := lv_subscribers s @ [a]\<rparr>))"

definition kprv_subscriber_add_topic :: "linux_env \<Rightarrow> nat option \<Rightarrow> u16 \<Rightarrow> linux_server \<Rightarrow> (bool \<times> linux_server) option" where
  "kprv_subscriber_add_topic env sub topic_id s =
     (case sub of None \<Rightarrow> Some (False, s)
      | Some a \<Rightarrow>
          if os_memory env then map_option (Pair True) (change_sub a (\<lambda>x. x\<lparr>ls_topics := ls_topics x @ [topic_id]\<rparr>) s)
          else Some (False, s))"

definition kprv_subscriber_remove_topic :: "nat option \<Rightarrow> u16 \<Rightarrow> linux_server \<Rightarrow> (bool \<times> linux_server) option" where
  "kprv_subscriber_remove_topic sub topic_id s =
     (case sub of None \<Rightarrow> Some (False, s)
      | Some a \<Rightarrow>
          (case lv_heap s a of None \<Rightarrow> None
           | Some x \<Rightarrow>
               if topic_id \<in> set (ls_topics x) then Some (True, set_sub a (Some (x\<lparr>ls_topics := remove1 topic_id (ls_topics x)\<rparr>)) s)
               else Some (False, s)))"

definition kprv_subscriber_remove_all_topics :: "nat \<Rightarrow> linux_server \<Rightarrow> linux_server option" where
  "kprv_subscriber_remove_all_topics a = change_sub a (\<lambda>x. x\<lparr>ls_topics := []\<rparr>)"

definition kprv_subscriber_has_topic :: "nat option \<Rightarrow> u16 \<Rightarrow> linux_server \<Rightarrow> bool option" where
  "kprv_subscriber_has_topic sub topic_id s =
     (case sub of None \<Rightarrow> Some False | Some a \<Rightarrow> map_option (\<lambda>x. topic_id \<in> set (ls_topics x)) (lv_heap s a))"

text \<open>\<open>returns\<close> is whether \<open>csp_thread_kill\<close> returns to the caller; when it does not, the thread is gone at this point.\<close>

definition kprv_subscriber_destroy :: "linux_env \<Rightarrow> bool \<Rightarrow> nat option \<Rightarrow> linux_server \<Rightarrow> linux_server option" where
  "kprv_subscriber_destroy env returns sub s =
     (case sub of None \<Rightarrow> Some s
      | Some a \<Rightarrow>
          (case lv_heap s a of None \<Rightarrow> None
           | Some x \<Rightarrow>
               if \<not> returns then Some s
               else do {
                 s \<leftarrow> kprv_subscriber_remove_all_topics a s;
                 let (_, _, closed) = kprv_socket_close env (Some (ls_conn x));
                 Some (set_sub a None (s\<lparr>lv_closed := lv_closed s @ closed\<rparr>)) }))"

fun delete_loop :: "linux_env \<Rightarrow> nat list \<Rightarrow> linux_server \<Rightarrow> linux_server option" where
  "delete_loop env [] s = Some s"
| "delete_loop env (a # as) s =
     (if lv_heap s a = None then None
      else (case kprv_subscriber_destroy env True (Some a) (s\<lparr>lv_subscribers := remove1 a (lv_subscribers s)\<rparr>) of
              None \<Rightarrow> None | Some s \<Rightarrow> delete_loop env as s))"

definition kprv_delete_all_subscribers :: "linux_env \<Rightarrow> linux_server \<Rightarrow> linux_server option" where
  "kprv_delete_all_subscribers env s = delete_loop env (lv_subscribers s) s"

definition telemetry_server_cleanup :: "linux_env \<Rightarrow> linux_server \<Rightarrow> linux_server option" where
  "telemetry_server_cleanup = kprv_delete_all_subscribers"

fun publish_loop :: "linux_env \<Rightarrow> linux_packet \<Rightarrow> nat list \<Rightarrow> bool \<Rightarrow> linux_server \<Rightarrow> (bool \<times> linux_server) option" where
  "publish_loop env pkt [] ret s = Some (ret, s)"
| "publish_loop env pkt (a # as) ret s =
     (case lv_heap s a of None \<Rightarrow> None
      | Some x \<Rightarrow>
          if kprv_subscriber_has_topic (Some a) (lp_topic_id pkt) s = Some True
          then (case kprv_socket_send env (Some (ls_conn x)) (Some (linux_packet_bytes (os_padding env) pkt)) of
                  (ok, sent) \<Rightarrow> publish_loop env pkt as (if ok then ret else False) (s\<lparr>lv_sent := lv_sent s @ sent\<rparr>))
          else publish_loop env pkt as ret s)"

definition kprv_publish_packet :: "linux_env \<Rightarrow> linux_packet \<Rightarrow> linux_server \<Rightarrow> (bool \<times> linux_server) option" where
  "kprv_publish_packet env pkt s = publish_loop env pkt (lv_subscribers s) True s"

definition telemetry_process_message :: "linux_env \<Rightarrow> nat option \<Rightarrow> u8 list option \<Rightarrow> linux_server \<Rightarrow> (bool \<times> linux_server) option" where
  "telemetry_process_message env sub buffer s =
     (case (sub, buffer) of
        (Some a, Some bs) \<Rightarrow>
          (case telemetry_parse_msg_type bs of None \<Rightarrow> None
           | Some None \<Rightarrow> Some (False, s)
           | Some (Some req) \<Rightarrow>
               if req = MESSAGE_TYPE_PACKET then
                 (case telemetry_parse_packet_msg (os_stack env) bs of None \<Rightarrow> None
                  | Some None \<Rightarrow> Some (False, s) | Some (Some pkt) \<Rightarrow> kprv_publish_packet env pkt s)
               else if req = MESSAGE_TYPE_SUBSCRIBE then
                 (case telemetry_parse_subscribe_msg bs of None \<Rightarrow> None
                  | Some None \<Rightarrow> Some (False, s) | Some (Some t) \<Rightarrow> kprv_subscriber_add_topic env sub t s)
               else if req = MESSAGE_TYPE_UNSUBSCRIBE then
                 (case telemetry_parse_unsubscribe_msg bs of None \<Rightarrow> None
                  | Some None \<Rightarrow> Some (False, s) | Some (Some t) \<Rightarrow> kprv_subscriber_remove_topic sub t s)
               else if req = MESSAGE_TYPE_DISCONNECT then
                 map_option (Pair True) (change_sub a (\<lambda>x. x\<lparr>ls_active := False\<rparr>) s)
               else Some (False, s))
      | _ \<Rightarrow> Some (False, s))"

text \<open>\<open>msg\<close> is the buffer on the stack.\<close>

definition client_rx_work :: "linux_env \<Rightarrow> u8 list \<Rightarrow> nat option \<Rightarrow> u8 list option \<Rightarrow> linux_server \<Rightarrow> (bool \<times> linux_server) option" where
  "client_rx_work env msg sub received s =
     (case sub of None \<Rightarrow> Some (False, s)
      | Some a \<Rightarrow>
          (case lv_heap s a of None \<Rightarrow> None
           | Some x \<Rightarrow>
               (case kprv_socket_recv (Some (ls_conn x)) (Some msg) TELEMETRY_BUFFER_SIZE received of
                  None \<Rightarrow> Some (False, s)
                | Some (msg, msg_size) \<Rightarrow> telemetry_process_message env sub (Some (take msg_size msg)) s)))"

text \<open>The loop of a thread over what its socket delivers; with \<open>True\<close> the thread has ended, else it waits in \<open>recv\<close>.\<close>

fun client_handler :: "linux_env \<Rightarrow> u8 list \<Rightarrow> nat option \<Rightarrow> u8 list option list \<Rightarrow> linux_server \<Rightarrow> (bool \<times> linux_server) option" where
  "client_handler env msg None rs s = Some (True, s)"
| "client_handler env msg (Some a) [] s =
     (case lv_heap s a of None \<Rightarrow> None
      | Some x \<Rightarrow> if ls_active x then Some (False, s)
                  else map_option (Pair True) (kprv_subscriber_destroy env (os_kill_returns env) (Some a) s))"
| "client_handler env msg (Some a) (r # rs) s =
     (case lv_heap s a of None \<Rightarrow> None
      | Some x \<Rightarrow>
          if ls_active x
          then (case client_rx_work env msg (Some a) r s of None \<Rightarrow> None | Some (_, s) \<Rightarrow> client_handler env msg (Some a) rs s)
          else map_option (Pair True) (kprv_subscriber_destroy env (os_kill_returns env) (Some a) s))"

text \<open>A turn of the loop that accepts connections; \<open>h\<close> is the handle that \<open>accept\<close> returns, \<open>thread\<close> what
  \<open>csp_thread_create\<close> stores.\<close>

definition main_thread_turn ::
  "linux_env \<Rightarrow> socket_conn \<Rightarrow> socket_conn \<Rightarrow> nat option \<Rightarrow> bool \<Rightarrow> nat \<Rightarrow> linux_server \<Rightarrow> linux_server option" where
  "main_thread_turn env server_conn conn mem queue thread s =
     (case kprv_socket_server_accept env (Some server_conn) (Some conn) of
        (True, Some conn) \<Rightarrow>
          (case kprv_subscriber_init mem queue conn s of
             (None, s) \<Rightarrow> Some s
           | (Some a, s) \<Rightarrow> do {
               s \<leftarrow> change_sub a (\<lambda>x. x\<lparr>ls_rx_thread := thread\<rparr>) s;
               (_, s) \<leftarrow> kprv_subscriber_add (Some a) s;
               Some s })
      | _ \<Rightarrow> Some s)"

text \<open>
  What the threads do, in any order: a connection is accepted, a thread whose subscriber is active handles what its
  socket delivers, a thread whose subscriber is not active ends.  An event that cannot happen (\<open>calloc\<close> returning
  memory in use, a thread of no subscriber) leaves the state.
\<close>

datatype linux_event = Accept int "nat option" bool nat | Receive nat "u8 list option" | End nat

definition linux_step :: "linux_env \<Rightarrow> socket_conn \<Rightarrow> u8 list \<Rightarrow> linux_event \<Rightarrow> linux_server \<Rightarrow> linux_server option" where
  "linux_step env server_conn msg ev s =
     (case ev of
        Accept h mem queue thread \<Rightarrow>
          if (case mem of None \<Rightarrow> False | Some a \<Rightarrow> lv_heap s a \<noteq> None) then Some s
          else main_thread_turn (env\<lparr>os_accept := (\<lambda>_. h)\<rparr>) server_conn \<lparr>is_active = False, socket_handle = 0, socket_port = 0\<rparr> mem queue thread s
      | Receive a r \<Rightarrow>
          (case lv_heap s a of None \<Rightarrow> Some s
           | Some x \<Rightarrow> if ls_active x then map_option snd (client_rx_work env msg (Some a) r s) else Some s)
      | End a \<Rightarrow>
          (case lv_heap s a of None \<Rightarrow> Some s
           | Some x \<Rightarrow> if ls_active x then Some s else kprv_subscriber_destroy env (os_kill_returns env) (Some a) s))"

fun linux_run :: "linux_env \<Rightarrow> socket_conn \<Rightarrow> u8 list \<Rightarrow> linux_event list \<Rightarrow> linux_server \<Rightarrow> linux_server option" where
  "linux_run env server_conn msg [] s = Some s"
| "linux_run env server_conn msg (ev # evs) s =
     (case linux_step env server_conn msg ev s of None \<Rightarrow> None | Some s \<Rightarrow> linux_run env server_conn msg evs s)"

section \<open>Clients\<close>

text \<open>The buffer of a message is cleared.  With the result: what the kernel took.\<close>

definition send_msg :: "linux_env \<Rightarrow> socket_conn option \<Rightarrow> (int \<times> u8 list) option \<Rightarrow> (bool \<times> (int \<times> u8 list) list) option" where
  "send_msg env conn encoded =
     map_option (\<lambda>(msg_size, buffer). if msg_size > 0 then kprv_socket_send env conn (Some (take (nat msg_size) buffer)) else (False, [])) encoded"

abbreviation (input) zero_buffer :: "u8 list" where "zero_buffer \<equiv> replicate TELEMETRY_BUFFER_SIZE 0"

definition linux_telemetry_connect :: "linux_env \<Rightarrow> socket_conn option \<Rightarrow> bool \<times> socket_conn option" where
  "linux_telemetry_connect env conn = kprv_socket_client_connect env TELEMETRY_SOCKET_PORT conn"

definition linux_telemetry_disconnect ::
  "linux_env \<Rightarrow> nat \<Rightarrow> socket_conn option \<Rightarrow> (bool \<times> socket_conn option \<times> (int \<times> u8 list) list \<times> int list) option" where
  "linux_telemetry_disconnect env addr client_conn =
     (case client_conn of None \<Rightarrow> Some (False, None, [], [])
      | Some c \<Rightarrow>
          map_option (\<lambda>(ret, sent). case kprv_socket_close env (Some c) of (_, c, closed) \<Rightarrow> (ret, c, sent, closed))
            (send_msg env (Some c) (telemetry_encode_disconnect_msg addr (Some zero_buffer))))"

definition linux_telemetry_subscribe :: "linux_env \<Rightarrow> nat \<Rightarrow> socket_conn option \<Rightarrow> u16 \<Rightarrow> (bool \<times> (int \<times> u8 list) list) option" where
  "linux_telemetry_subscribe env addr client_conn topic_id =
     (case client_conn of None \<Rightarrow> Some (False, [])
      | Some c \<Rightarrow> send_msg env (Some c) (telemetry_encode_subscribe_msg addr (Some zero_buffer) (Some topic_id)))"

definition linux_telemetry_unsubscribe :: "linux_env \<Rightarrow> nat \<Rightarrow> socket_conn option \<Rightarrow> u16 \<Rightarrow> (bool \<times> (int \<times> u8 list) list) option" where
  "linux_telemetry_unsubscribe env addr client_conn topic_id =
     (case client_conn of None \<Rightarrow> Some (False, [])
      | Some c \<Rightarrow> send_msg env (Some c) (telemetry_encode_unsubscribe_msg addr (Some zero_buffer) (Some topic_id)))"

text \<open>The packet in memory is its bytes.  A call of \<open>recv\<close> that succeeds ends the loop, however little it read.\<close>

fun read_loop :: "nat \<Rightarrow> socket_conn \<Rightarrow> u8 list \<Rightarrow> (nat \<Rightarrow> u8 list option) \<Rightarrow> bool \<times> u8 list" where
  "read_loop 0 conn packet received = (False, packet)"
| "read_loop (Suc tries) conn packet received =
     (case kprv_socket_recv (Some conn) (Some packet) LINUX_PACKET_SIZE (received tries) of
        Some (packet, _) \<Rightarrow> (True, packet)
      | None \<Rightarrow> read_loop tries conn packet received)"

definition linux_telemetry_read :: "socket_conn option \<Rightarrow> u8 list option \<Rightarrow> (nat \<Rightarrow> u8 list option) \<Rightarrow> bool \<times> u8 list option" where
  "linux_telemetry_read conn packet received =
     (case (conn, packet) of
        (Some c, Some p) \<Rightarrow> (case read_loop SUBSCRIBER_READ_ATTEMPTS c p received of (ret, p) \<Rightarrow> (ret, Some p))
      | _ \<Rightarrow> (False, packet))"

definition linux_telemetry_publish :: "linux_env \<Rightarrow> nat \<Rightarrow> socket_conn \<Rightarrow> linux_packet \<Rightarrow> (bool \<times> (int \<times> u8 list) list \<times> int list) option" where
  "linux_telemetry_publish env addr conn pkt =
     (case linux_telemetry_connect env (Some conn) of
        (True, Some conn) \<Rightarrow> do {
          (ret, sent) \<leftarrow> send_msg env (Some conn) (telemetry_encode_packet_msg addr (Some zero_buffer) (Some pkt));
          (_, _, sent', closed) \<leftarrow> linux_telemetry_disconnect env addr (Some conn);
          Some (ret, sent @ sent', closed) }
      | _ \<Rightarrow> Some (False, [], []))"


section \<open>Subscribers stay\<close>

text \<open>The list has no element twice and every element can be read.\<close>

definition linux_ok :: "linux_server \<Rightarrow> bool" where
  "linux_ok s \<longleftrightarrow> distinct (lv_subscribers s) \<and> (\<forall>a\<in>set (lv_subscribers s). lv_heap s a \<noteq> None)"

lemma linux_ok_start: "linux_ok linux_server_start"
  by (simp add: linux_ok_def linux_server_start_def)

text \<open>No subscriber goes away, no connection changes, no socket is closed.\<close>

definition grows :: "linux_server \<Rightarrow> linux_server \<Rightarrow> bool" where
  "grows s s' \<longleftrightarrow> linux_ok s' \<and> lv_closed s' = lv_closed s \<and> (\<exists>more. lv_subscribers s' = lv_subscribers s @ more) \<and>
     (\<forall>a x. lv_heap s a = Some x \<longrightarrow> (\<exists>x'. lv_heap s' a = Some x' \<and> ls_conn x' = ls_conn x \<and> ls_id x' = ls_id x))"

lemma grows_refl: "linux_ok s \<Longrightarrow> grows s s"
  by (simp add: grows_def)

lemma grows_ok: "grows s s' \<Longrightarrow> linux_ok s'"
  by (simp add: grows_def)

lemma grows_trans:
  assumes "grows s s'" "grows s' s''"
  shows "grows s s''"
proof -
  have "\<exists>x'. lv_heap s'' a = Some x' \<and> ls_conn x' = ls_conn x \<and> ls_id x' = ls_id x" if "lv_heap s a = Some x" for a x
    using assms that unfolding grows_def by metis
  then show ?thesis using assms unfolding grows_def by auto
qed

lemma change_sub_grows:
  assumes "linux_ok s" "change_sub a f s = Some s'" "\<And>x. ls_conn (f x) = ls_conn x \<and> ls_id (f x) = ls_id x"
  shows "grows s s'"
  using assms by (auto simp: change_sub_def set_sub_def grows_def linux_ok_def)

text \<open>Which subscribers a packet is for, and what is sent to one of them.\<close>

definition subscribed :: "linux_server \<Rightarrow> u16 \<Rightarrow> nat \<Rightarrow> bool" where
  "subscribed s t a \<longleftrightarrow> (case lv_heap s a of None \<Rightarrow> False | Some x \<Rightarrow> t \<in> set (ls_topics x))"

definition send_to :: "linux_env \<Rightarrow> linux_packet \<Rightarrow> linux_server \<Rightarrow> nat \<Rightarrow> bool \<times> (int \<times> u8 list) list" where
  "send_to env pkt s a = kprv_socket_send env (map_option ls_conn (lv_heap s a)) (Some (linux_packet_bytes (os_padding env) pkt))"

lemma publish_loop_eq:
  assumes "\<forall>a\<in>set as. lv_heap s a \<noteq> None"
  shows "publish_loop env pkt as ret s =
    Some (ret \<and> (\<forall>a\<in>set (filter (subscribed s (lp_topic_id pkt)) as). fst (send_to env pkt s a)),
      s\<lparr>lv_sent := lv_sent s @ concat (map (\<lambda>a. snd (send_to env pkt s a)) (filter (subscribed s (lp_topic_id pkt)) as))\<rparr>)"
  using assms
proof (induction as arbitrary: ret s)
  case (Cons a as)
  obtain x where x: "lv_heap s a = Some x" using Cons.prems by auto
  have s: "subscribed (s\<lparr>lv_sent := l\<rparr>) = subscribed s" "send_to env pkt (s\<lparr>lv_sent := l\<rparr>) = send_to env pkt s" for l
    by (simp_all add: fun_eq_iff subscribed_def send_to_def)
  obtain ok sent where k: "send_to env pkt s a = (ok, sent)" by (cases "send_to env pkt s a")
  have ss: "subscribed s (lp_topic_id pkt) a \<longleftrightarrow> lp_topic_id pkt \<in> set (ls_topics x)" using x by (simp add: subscribed_def)
  have IH: "publish_loop env pkt as r (s\<lparr>lv_sent := l\<rparr>) = Some (r \<and> (\<forall>a\<in>set (filter (subscribed s (lp_topic_id pkt)) as). fst (send_to env pkt s a)),
      s\<lparr>lv_sent := l @ concat (map (\<lambda>a. snd (send_to env pkt s a)) (filter (subscribed s (lp_topic_id pkt)) as))\<rparr>)" for r l
    using Cons.IH [of "s\<lparr>lv_sent := l\<rparr>" r] Cons.prems by (simp add: s)
  have k': "kprv_socket_send env (Some (ls_conn x)) (Some (linux_packet_bytes (os_padding env) pkt)) = (ok, sent)"
    using k x by (simp add: send_to_def)
  show ?case
    using x ss k k' IH [of ret "lv_sent s"] IH [of "ok \<and> ret" "lv_sent s @ sent"] IH [of False "lv_sent s @ sent"]
    by (cases "lp_topic_id pkt \<in> set (ls_topics x)"; cases ok) (simp_all add: kprv_subscriber_has_topic_def)
qed simp

lemma publish_eq:
  assumes "linux_ok s"
  shows "kprv_publish_packet env pkt s =
    Some (\<forall>a\<in>set (filter (subscribed s (lp_topic_id pkt)) (lv_subscribers s)). fst (send_to env pkt s a),
      s\<lparr>lv_sent := lv_sent s @ concat (map (\<lambda>a. snd (send_to env pkt s a)) (filter (subscribed s (lp_topic_id pkt)) (lv_subscribers s)))\<rparr>)"
  using publish_loop_eq [of "lv_subscribers s" s env pkt True] assms unfolding kprv_publish_packet_def linux_ok_def by simp

lemma sent_grows: "linux_ok s \<Longrightarrow> grows s (s\<lparr>lv_sent := l\<rparr>)"
  by (simp add: grows_def linux_ok_def)

lemma process_grows:
  assumes "linux_ok s" "telemetry_process_message env sub buffer s = Some (r, s')"
  shows "grows s s'"
proof -
  have c: "grows s s'" if "change_sub a f s = Some s'" "\<And>x. ls_conn (f x) = ls_conn x \<and> ls_id (f x) = ls_id x" for a f
    using change_sub_grows [OF assms(1)] that by blast
  have t: "grows s s'" if "kprv_subscriber_add_topic env (Some a) t s = Some (r, s')" for a t
    using that grows_refl [OF assms(1)] by (auto simp: kprv_subscriber_add_topic_def split: if_splits intro: c)
  have rm: "grows s s'" if "kprv_subscriber_remove_topic (Some a) t s = Some (r, s')" for a t
  proof -
    have "lv_heap s a \<noteq> None" using that by (auto simp: kprv_subscriber_remove_topic_def split: option.splits)
    then obtain x where x: "lv_heap s a = Some x" by auto
    then have "s' = s \<or> change_sub a (\<lambda>x. x\<lparr>ls_topics := remove1 t (ls_topics x)\<rparr>) s = Some s'"
      using that by (auto simp: kprv_subscriber_remove_topic_def change_sub_def split: if_splits)
    then show ?thesis using grows_refl [OF assms(1)] c by auto
  qed
  have p: "grows s s'" if "kprv_publish_packet env pkt s = Some (r, s')" for pkt
    using that publish_eq [OF assms(1)] sent_grows [OF assms(1)] by auto
  show ?thesis
    using assms(2) grows_refl [OF assms(1)] unfolding telemetry_process_message_def
    by (auto split: option.splits if_splits dest: t rm p intro: c)
qed

lemma rx_grows:
  assumes "linux_ok s" "client_rx_work env msg sub received s = Some (r, s')"
  shows "grows s s'"
  using assms(2) grows_refl [OF assms(1)] process_grows [OF assms(1)]
  by (auto simp: client_rx_work_def split: option.splits)

lemma accept_grows:
  assumes "linux_ok s" "\<And>a. mem = Some a \<Longrightarrow> lv_heap s a = None" "main_thread_turn env server_conn conn mem queue thread s = Some s'"
  shows "grows s s'"
proof -
  have "\<exists>c. snd (kprv_socket_server_accept env (Some server_conn) (Some conn)) = Some c" by (simp add: kprv_socket_server_accept_def Let_def)
  then obtain ok c where a: "kprv_socket_server_accept env (Some server_conn) (Some conn) = (ok, Some c)" by (metis prod.collapse)
  show ?thesis
  proof (cases "ok \<and> mem \<noteq> None")
    case True
    then obtain b where b: "mem = Some b" "lv_heap s b = None" using assms(2) by auto
    then have n: "b \<notin> set (lv_subscribers s)" using assms(1) by (auto simp: linux_ok_def)
    have "\<forall>a\<in>set (lv_subscribers s). lv_heap s a \<noteq> None" using assms(1) by (simp add: linux_ok_def)
    then show ?thesis
      using assms(1,3) a True b n
      by (auto simp: main_thread_turn_def kprv_subscriber_init_def change_sub_def set_sub_def kprv_subscriber_add_def grows_def linux_ok_def split: if_splits)
  next
    case False
    then have "s' = s" using assms(3) a by (cases ok; cases mem) (auto simp: main_thread_turn_def kprv_subscriber_init_def)
    then show ?thesis using grows_refl [OF assms(1)] by simp
  qed
qed

lemma step_grows:
  assumes "linux_ok s" "\<not> os_kill_returns env" "linux_step env server_conn msg ev s = Some s'"
  shows "grows s s'"
proof (cases ev)
  case (Accept h mem queue thread)
  show ?thesis
  proof (cases "case mem of None \<Rightarrow> False | Some a \<Rightarrow> lv_heap s a \<noteq> None")
    case True
    then show ?thesis using assms(3) Accept grows_refl [OF assms(1)] by (simp add: linux_step_def)
  next
    case False
    then have "\<And>a. mem = Some a \<Longrightarrow> lv_heap s a = None" by auto
    from accept_grows [OF assms(1) this] show ?thesis using assms(3) Accept False by (simp add: linux_step_def)
  qed
next
  case (Receive a r)
  then show ?thesis using assms(3) grows_refl [OF assms(1)] rx_grows [OF assms(1)]
    by (auto simp: linux_step_def split: option.splits if_splits)
next
  case (End a)
  then show ?thesis using assms(2,3) grows_refl [OF assms(1)]
    by (auto simp: linux_step_def kprv_subscriber_destroy_def split: option.splits if_splits)
qed


definition demo_linux_env :: linux_env where
  "demo_linux_env =
     \<lparr>os_socket = 3, os_bind = (\<lambda>_ _. 0), os_listen = (\<lambda>_ _. 0), os_accept = (\<lambda>_. 5), os_connect = (\<lambda>_ _. 0),
      os_send = (\<lambda>_ bs. int (length bs)), os_shutdown = (\<lambda>_. 0), os_close = (\<lambda>_. 0), os_memory = True, os_kill_returns = False,
      os_padding = 0, os_stack = 0\<rparr>"

definition demo_server_conn :: socket_conn where
  "demo_server_conn = \<lparr>is_active = True, socket_handle = 4, socket_port = TELEMETRY_SOCKET_PORT\<rparr>"

text \<open>Two clients: the first subscribes topic 12 and disconnects, the second does nothing.\<close>

definition demo_linux_events :: "linux_event list" where
  "demo_linux_events =
     [Accept 5 (Some 100) True 1, Accept 6 (Some 200) True 2, Receive 100 (Some (map_bytes (topic_entries MESSAGE_TYPE_SUBSCRIBE 12))),
      Receive 100 (Some (map_bytes [(chars ''MESSAGE_TYPE'', int_item (ucast MESSAGE_TYPE_DISCONNECT))])), End 100]"

definition demo_linux_run :: "bool \<Rightarrow> linux_server option" where
  "demo_linux_run returns = linux_run (demo_linux_env\<lparr>os_kill_returns := returns\<rparr>) demo_server_conn (replicate 256 0) demo_linux_events linux_server_start"

lemma demo_linux_ran:
  "case demo_linux_run False of None \<Rightarrow> False | Some s \<Rightarrow> lv_subscribers s = [100, 200] \<and> map_option ls_active (lv_heap s 100) = Some False"
  by code_simp


section \<open>Subscribers are freed but stay in the list\<close>

lemma publish_loop_freed:
  assumes "a \<in> set as" "lv_heap s a = None"
  shows "publish_loop env pkt as ret s = None"
  using assms
proof (induction as arbitrary: ret s)
  case (Cons b as)
  then show ?case by (cases "b = a") (auto split: option.splits prod.splits)
qed simp

text \<open>The other way a thread can end: when \<open>csp_thread_kill\<close> returns to the thread that kills itself (\<open>pthread_join\<close>
  refuses to wait for the calling thread), the subscriber is freed while it is still in the list.  From then on every
  packet that any client publishes, whatever its topic, reads freed memory, and so does the next connection.
\<close>

theorem linux_freed_subscriber_is_read:
  assumes "linux_ok s" "os_kill_returns env" "a \<in> set (lv_subscribers s)" "lv_heap s a = Some x" "\<not> ls_active x"
  shows "\<exists>s'. linux_step env server_conn msg (End a) s = Some s' \<and> lv_subscribers s' = lv_subscribers s \<and> lv_heap s' a = None \<and>
    (\<forall>pkt. kprv_publish_packet env pkt s' = None) \<and> (\<forall>b. kprv_subscriber_add (Some b) s' = None)"
proof -
  obtain ok c closed where c: "kprv_socket_close env (Some (ls_conn x)) = (ok, c, closed)" by (cases "kprv_socket_close env (Some (ls_conn x))")
  let ?s = "set_sub a None (set_sub a (Some (x\<lparr>ls_topics := []\<rparr>)) s\<lparr>lv_closed := lv_closed s @ closed\<rparr>)"
  have st: "linux_step env server_conn msg (End a) s = Some ?s"
    using assms(2,4,5) c
    by (simp add: linux_step_def kprv_subscriber_destroy_def kprv_subscriber_remove_all_topics_def change_sub_def set_sub_def)
  have l: "lv_subscribers ?s = lv_subscribers s" and h: "lv_heap ?s a = None" by (simp_all add: set_sub_def)
  have "kprv_publish_packet env pkt ?s = None" for pkt
    unfolding kprv_publish_packet_def using publish_loop_freed [OF _ h] assms(3) l by simp
  moreover have "kprv_subscriber_add (Some b) ?s = None" for b using h l assms(3) by (auto simp: kprv_subscriber_add_def)
  ultimately show ?thesis using st l h by blast
qed

lemma linux_freed_subscriber_is_read_witness:
  "\<exists>s'. linux_step (demo_linux_env\<lparr>os_kill_returns := True\<rparr>) demo_server_conn [] (End 100)
      (linux_server_start\<lparr>lv_subscribers := [100], lv_heap := [100 \<mapsto> \<lparr>ls_active = False, ls_id = 0, ls_conn = demo_server_conn,
        ls_packet_queue = True, ls_topics = [12], ls_rx_thread = 1\<rparr>]\<rparr>) = Some s' \<and>
    lv_subscribers s' = [100] \<and> lv_heap s' 100 = None \<and> (\<forall>pkt. kprv_publish_packet (demo_linux_env\<lparr>os_kill_returns := True\<rparr>) pkt s' = None)"
  using linux_freed_subscriber_is_read [of "linux_server_start\<lparr>lv_subscribers := [100], lv_heap := [100 \<mapsto> \<lparr>ls_active = False, ls_id = 0,
      ls_conn = demo_server_conn, ls_packet_queue = True, ls_topics = [12], ls_rx_thread = 1\<rparr>]\<rparr>" "demo_linux_env\<lparr>os_kill_returns := True\<rparr>" 100
      "\<lparr>ls_active = False, ls_id = 0, ls_conn = demo_server_conn, ls_packet_queue = True, ls_topics = [12], ls_rx_thread = 1\<rparr>" demo_server_conn "[]"]
  by (auto simp: linux_ok_def)

section \<open>A peer that closes its side\<close>

lemma empty_message: "telemetry_parse_msg_type [] = Some None"
  by code_simp

text \<open>
  A client that closes its side without a disconnection keeps its thread busy for ever: every \<open>recv\<close> then returns 0
  bytes at once, which counts as a message, the empty message is refused, and the loop goes on.  After any
  number of turns the thread has not ended and nothing has changed.
\<close>

theorem linux_closed_peer_keeps_thread:
  assumes "lv_heap s a = Some x" "ls_active x" "is_active (ls_conn x)"
  shows "client_handler env msg (Some a) (replicate n (Some [])) s = Some (False, s)"
proof (induction n)
  case (Suc n)
  have "client_rx_work env msg (Some a) (Some []) s = Some (False, s)"
    using assms by (simp add: client_rx_work_def kprv_socket_recv_def telemetry_process_message_def empty_message)
  then show ?case using assms Suc by simp
qed (use assms in simp)

lemma linux_closed_peer_keeps_thread_witness:
  "client_handler demo_linux_env [] (Some 100) (replicate 1000 (Some []))
      (linux_server_start\<lparr>lv_heap := [100 \<mapsto> \<lparr>ls_active = True, ls_id = 0, ls_conn = demo_server_conn, ls_packet_queue = True, ls_topics = [12],
        ls_rx_thread = 1\<rparr>]\<rparr>) =
    Some (False, linux_server_start\<lparr>lv_heap := [100 \<mapsto> \<lparr>ls_active = True, ls_id = 0, ls_conn = demo_server_conn, ls_packet_queue = True,
      ls_topics = [12], ls_rx_thread = 1\<rparr>]\<rparr>)"
  by (rule linux_closed_peer_keeps_thread [where x = "\<lparr>ls_active = True, ls_id = 0, ls_conn = demo_server_conn, ls_packet_queue = True,
      ls_topics = [12], ls_rx_thread = 1\<rparr>"]) (simp_all add: demo_server_conn_def)

section \<open>From a publisher to the subscribers\<close>

lemma linux_packet_of_bytes: "linux_packet_of (linux_packet_bytes pad pkt) = pkt"
  by (simp add: linux_packet_of_def linux_packet_bytes_def drop_append)

lemma length_linux_packet_bytes: "length (linux_packet_bytes pad pkt) = LINUX_PACKET_SIZE"
  by (simp add: linux_packet_bytes_def LINUX_PACKET_SIZE_def)

lemma process_subscribe:
  "telemetry_process_message env (Some a) (Some (map_bytes (topic_entries MESSAGE_TYPE_SUBSCRIBE t))) s = kprv_subscriber_add_topic env (Some a) t s"
  using parse_topic_type [of MESSAGE_TYPE_SUBSCRIBE t] parse_topic_found [of MESSAGE_TYPE_SUBSCRIBE t]
  by (simp add: telemetry_process_message_def telemetry_parse_subscribe_msg_def message_types)

lemma process_packet:
  assumes "lp_data_type pkt = TELEMETRY_TYPE_INT \<or> lp_data_type pkt = TELEMETRY_TYPE_FLOAT"
  shows "telemetry_process_message env (Some b) (Some (map_bytes (packet_entries pkt))) s = kprv_publish_packet env pkt s"
  using parse_packet_type [of pkt] parse_packet_found [OF assms] by (simp add: telemetry_process_message_def)

lemma rx_message:
  assumes "lv_heap s a = Some x" "is_active (ls_conn x)" "length bs \<le> TELEMETRY_BUFFER_SIZE"
  shows "client_rx_work env msg (Some a) (Some bs) s = telemetry_process_message env (Some a) (Some bs) s"
  using assms by (simp add: client_rx_work_def kprv_socket_recv_def)

lemma subscribe_sends:
  assumes "is_active c" "\<And>h d. os_send env h d = int (length d)"
  shows "linux_telemetry_subscribe env addr (Some c) t = Some (True, [(socket_handle c, map_bytes (topic_entries MESSAGE_TYPE_SUBSCRIBE t))])"
proof -
  obtain m' where "telemetry_encode_subscribe_msg addr (Some zero_buffer) (Some t) = Some (int (length (map_bytes (topic_entries MESSAGE_TYPE_SUBSCRIBE t))), m')"
      "take (length (map_bytes (topic_entries MESSAGE_TYPE_SUBSCRIBE t))) m' = map_bytes (topic_entries MESSAGE_TYPE_SUBSCRIBE t)"
    using encode_topic_msg_bytes [of zero_buffer MESSAGE_TYPE_SUBSCRIBE addr t] by (auto simp: telemetry_encode_subscribe_msg_def)
  moreover have "map_bytes (topic_entries MESSAGE_TYPE_SUBSCRIBE t) \<noteq> []" by (simp add: map_bytes_def number_bytes_split)
  moreover have "take (min (length m') n) m' = take n m'" for n by (simp add: min_def)
  ultimately show ?thesis using assms by (simp add: linux_telemetry_subscribe_def send_msg_def kprv_socket_send_def)
qed

lemma publish_sends:
  assumes "linux_telemetry_publish env addr conn pkt = Some (ret, (h, bs) # rest, closed)" "\<And>h d. os_send env h d = int (length d)"
    and "lp_data_type pkt = TELEMETRY_TYPE_INT \<or> lp_data_type pkt = TELEMETRY_TYPE_FLOAT"
  shows "bs = map_bytes (packet_entries pkt)"
proof -
  obtain m' where e: "telemetry_encode_packet_msg addr (Some zero_buffer) (Some pkt) = Some (int (length (map_bytes (packet_entries pkt))), m')"
      "take (length (map_bytes (packet_entries pkt))) m' = map_bytes (packet_entries pkt)"
    using encode_packet_msg_bytes [OF _ assms(3), of zero_buffer addr] by auto
  have n: "map_bytes (packet_entries pkt) \<noteq> []" by (simp add: map_bytes_def number_bytes_split)
  have s: "send_msg env (Some c) (telemetry_encode_packet_msg addr (Some zero_buffer) (Some pkt)) =
      Some (is_active c, if is_active c then [(socket_handle c, map_bytes (packet_entries pkt))] else [])" for c
    using e n assms(2) by (simp add: send_msg_def kprv_socket_send_def)
  obtain c where c: "linux_telemetry_connect env (Some conn) = (True, Some c)" "is_active c"
    using assms(1) by (auto simp: linux_telemetry_publish_def linux_telemetry_connect_def kprv_socket_client_connect_def split: if_splits)
  show ?thesis using assms(1) c s [of c]
    by (cases "linux_telemetry_disconnect env addr (Some c)") (auto simp: linux_telemetry_publish_def)
qed

text \<open>C6. A packet reaches the subscribers of its topic, and nobody else: the first client subscribes the topic, another
  publishes a packet of that topic, and the server handles the two messages that the clients sent.  Then the server has sent
  the bytes of the packet once to every subscriber of the topic, the new one included, in the order of the list, and
  the new subscriber that reads them has every member of the packet.
\<close>

theorem linux_telemetry_delivery:
  assumes "linux_ok s" "\<forall>d\<in>set (lv_subscribers s). \<forall>z. lv_heap s d = Some z \<longrightarrow> is_active (ls_conn z)"
    and "\<And>h d. os_send env h d = int (length d)" "os_memory env"
    and "a \<in> set (lv_subscribers s)" "lv_heap s a = Some x" "ls_active x"
    and "b \<noteq> a" "lv_heap s b = Some y" "ls_active y" "is_active (ls_conn y)"
    and "lp_data_type pkt = TELEMETRY_TYPE_INT \<or> lp_data_type pkt = TELEMETRY_TYPE_FLOAT"
    and "is_active c" "linux_telemetry_subscribe env addr (Some c) (lp_topic_id pkt) = Some (ok, [(h, request)])"
    and "linux_telemetry_publish env addr conn pkt = Some (ok', (h', packet_msg) # rest, closed)" "length buf = LINUX_PACKET_SIZE"
  shows "\<exists>s' bytes p. linux_run env server_conn msg [Receive a (Some request), Receive b (Some packet_msg)] s = Some s' \<and>
    lv_sent s' = lv_sent s @ map (\<lambda>d. (socket_handle (ls_conn (the (lv_heap s d))), bytes))
      (filter (\<lambda>d. d = a \<or> subscribed s (lp_topic_id pkt) d) (lv_subscribers s)) \<and>
    linux_telemetry_read (Some c) (Some buf) (\<lambda>_. Some bytes) = (True, Some p) \<and> linux_packet_of p = pkt"
proof -
  let ?t = "lp_topic_id pkt" and ?bytes = "linux_packet_bytes (os_padding env) pkt"
  let ?s = "set_sub a (Some (x\<lparr>ls_topics := ls_topics x @ [?t]\<rparr>)) s"
  have rq: "request = map_bytes (topic_entries MESSAGE_TYPE_SUBSCRIBE ?t)"
    using subscribe_sends [OF assms(13), of env addr ?t] assms(3,14) by simp
  have pk: "packet_msg = map_bytes (packet_entries pkt)" by (rule publish_sends [OF assms(15,3,12)])
  have len: "length request \<le> TELEMETRY_BUFFER_SIZE" "length packet_msg \<le> TELEMETRY_BUFFER_SIZE"
    using topic_msg_length [of MESSAGE_TYPE_SUBSCRIBE ?t] packet_msg_length [OF assms(12)] rq pk by (auto simp: TELEMETRY_BUFFER_SIZE_def MESSAGE_TYPE_SUBSCRIBE_def)
  have act: "is_active (ls_conn x)" using assms(2,5,6) by blast
  have 1: "linux_step env server_conn msg (Receive a (Some request)) s = Some ?s"
    using rx_message [OF assms(6) act len(1)] assms(4,6,7) rq
    by (simp add: linux_step_def process_subscribe kprv_subscriber_add_topic_def change_sub_def)
  have ok: "linux_ok ?s" using assms(1) by (auto simp: linux_ok_def set_sub_def)
  have y: "lv_heap ?s b = Some y" using assms(8,9) by (simp add: set_sub_def)
  have sub: "subscribed ?s ?t d \<longleftrightarrow> d = a \<or> subscribed s ?t d" for d by (auto simp: subscribed_def set_sub_def)
  have snd: "send_to env pkt ?s d = (True, [(socket_handle (ls_conn (the (lv_heap s d))), ?bytes)])" if "d \<in> set (lv_subscribers s)" for d
  proof -
    obtain z where z: "lv_heap s d = Some z" using assms(1) \<open>d \<in> _\<close> by (auto simp: linux_ok_def)
    then have "is_active (ls_conn z)" using assms(2) \<open>d \<in> _\<close> by blast
    then show ?thesis using z assms(3,6) by (cases "d = a") (simp_all add: send_to_def kprv_socket_send_def set_sub_def)
  qed
  let ?f = "filter (\<lambda>d. d = a \<or> subscribed s ?t d) (lv_subscribers s)"
  have "concat (map (\<lambda>d. snd (send_to env pkt ?s d)) ?f) = map (\<lambda>d. (socket_handle (ls_conn (the (lv_heap s d))), ?bytes)) ?f"
  proof -
    have "map (\<lambda>d. snd (send_to env pkt ?s d)) ?f = map (\<lambda>d. [(socket_handle (ls_conn (the (lv_heap s d))), ?bytes)]) ?f"
      using snd by (intro map_cong) auto
    then show ?thesis by (simp only: concat_map_singleton)
  qed
  moreover have "subscribed ?s ?t = (\<lambda>d. d = a \<or> subscribed s ?t d)" using sub by (rule ext)
  moreover have same: "lv_subscribers ?s = lv_subscribers s" "lv_sent ?s = lv_sent s" by (simp_all add: set_sub_def)
  ultimately have 2: "\<exists>s'. linux_step env server_conn msg (Receive b (Some packet_msg)) ?s = Some s' \<and>
      lv_sent s' = lv_sent s @ map (\<lambda>d. (socket_handle (ls_conn (the (lv_heap s d))), ?bytes)) ?f"
    using rx_message [OF y assms(11) len(2)] y assms(10) publish_eq [OF ok] pk same
    by (simp add: linux_step_def process_packet [OF assms(12)])
  have "linux_telemetry_read (Some c) (Some buf) (\<lambda>_. Some ?bytes) = (True, Some ?bytes)"
    using assms(13,16) length_linux_packet_bytes [of "os_padding env" pkt]
    by (simp add: linux_telemetry_read_def SUBSCRIBER_READ_ATTEMPTS_def numeral_eq_Suc kprv_socket_recv_def)
  moreover obtain s' where "linux_step env server_conn msg (Receive b (Some packet_msg)) ?s = Some s'"
      "lv_sent s' = lv_sent s @ map (\<lambda>d. (socket_handle (ls_conn (the (lv_heap s d))), ?bytes)) ?f" using 2 by blast
  ultimately show ?thesis using 1 linux_packet_of_bytes [of "os_padding env" pkt]
    by (intro exI [of _ s'] exI [of _ ?bytes] exI [of _ ?bytes]) simp
qed

definition demo_linux_packet :: linux_packet where
  "demo_linux_packet = \<lparr>lp_topic_id = 12, lp_data_type = 1, lp_subsystem_id = - 11, lp_data = 0x40490FDB, lp_timestamp = 101010\<rparr>"

definition demo_two_subscribers :: linux_server where
  "demo_two_subscribers = linux_server_start\<lparr>lv_subscribers := [100, 200],
     lv_heap := [100 \<mapsto> \<lparr>ls_active = True, ls_id = 0, ls_conn = \<lparr>is_active = True, socket_handle = 5, socket_port = 0\<rparr>,
                         ls_packet_queue = True, ls_topics = [], ls_rx_thread = 1\<rparr>,
                 200 \<mapsto> \<lparr>ls_active = True, ls_id = 1, ls_conn = \<lparr>is_active = True, socket_handle = 6, socket_port = 0\<rparr>,
                         ls_packet_queue = True, ls_topics = [7], ls_rx_thread = 2\<rparr>]\<rparr>"

lemma demo_publish: "case linux_telemetry_publish demo_linux_env 4096 demo_server_conn demo_linux_packet of
    Some (ok', (h', packet_msg) # rest, closed) \<Rightarrow> True | _ \<Rightarrow> False"
  by code_simp

lemma linux_telemetry_delivery_witness:
  "\<exists>request packet_msg s' bytes p.
    linux_run demo_linux_env demo_server_conn [] [Receive 100 (Some request), Receive 200 (Some packet_msg)] demo_two_subscribers = Some s' \<and>
    lv_sent s' = [(5, bytes)] \<and> linux_packet_of p = demo_linux_packet"
proof -
  obtain ok' h' packet_msg rest closed where
    p: "linux_telemetry_publish demo_linux_env 4096 demo_server_conn demo_linux_packet = Some (ok', (h', packet_msg) # rest, closed)"
    using demo_publish by (auto split: option.splits list.splits prod.splits)
  have k: "os_send demo_linux_env h d = int (length d)" for h d by (simp add: demo_linux_env_def)
  have "is_active demo_server_conn" by (simp add: demo_server_conn_def)
  note q = subscribe_sends [OF this k, where addr = 4096 and t = "lp_topic_id demo_linux_packet"]
  have s: "linux_ok demo_two_subscribers" "\<forall>d\<in>set (lv_subscribers demo_two_subscribers). \<forall>z. lv_heap demo_two_subscribers d = Some z \<longrightarrow> is_active (ls_conn z)"
    by (auto simp: linux_ok_def demo_two_subscribers_def)
  have f: "filter (\<lambda>d. d = 100 \<or> subscribed demo_two_subscribers (lp_topic_id demo_linux_packet) d) (lv_subscribers demo_two_subscribers) = [100]"
    by (simp add: subscribed_def demo_two_subscribers_def demo_linux_packet_def)
  from linux_telemetry_delivery [OF s k, where a = 100 and b = 200 and addr = 4096 and c = demo_server_conn and conn = demo_server_conn,
      OF _ _ _ _ _ _ _ _ _ _ q p, where server_conn = demo_server_conn and msg = "[]" and buf = "replicate 20 0",
      unfolded f]
  show ?thesis by (fastforce simp: demo_two_subscribers_def demo_linux_env_def demo_server_conn_def demo_linux_packet_def LINUX_PACKET_SIZE_def data_types linux_server_start_def)
qed

end
