(* ===== verification/KStorage.thy ===== *)
theory KStorage
  imports KKlog KTelemetryServer
begin

text \<open>
  The telemetry storage (\<open>telemetry-storage/source/telemetry_storage.c\<close>): every packet becomes a line of text in the
  log file of its topic and subsystem.  The file system is a map from the name of a log to its parts; what
  \<open>%f\<close> makes of a floating-point number is a parameter.
\<close>

section \<open>Names and lines\<close>

definition FILE_NAME_BUFFER_SIZE :: nat where "FILE_NAME_BUFFER_SIZE = 128"
definition DATA_BUFFER_SIZE :: nat where "DATA_BUFFER_SIZE = 64"
definition DATA_PART_SIZE :: u32 where "DATA_PART_SIZE = 51200"
definition DATA_MAX_PARTS :: u8 where "DATA_MAX_PARTS = 10"

lemmas storage_sizes = FILE_NAME_BUFFER_SIZE_def DATA_BUFFER_SIZE_def DATA_PART_SIZE_def DATA_MAX_PARTS_def

text \<open>\<open>%u\<close> and \<open>%d\<close>.\<close>

fun decimal :: "nat \<Rightarrow> u8 list" where
  "decimal n = (if n < 10 then [of_nat (48 + n)] else decimal (n div 10) @ [of_nat (48 + n mod 10)])"

declare decimal.simps [simp del]

definition signed_decimal :: "u32 \<Rightarrow> u8 list" where
  "signed_decimal w = (if w <s 0 then 0x2D # decimal (unat (- w)) else decimal (unat w))"

text \<open>The topic is cut to 8 bits by the type of the parameter.  \<open>None\<close> is the length 0.\<close>

definition create_filename :: "u8 \<Rightarrow> u32 \<Rightarrow> u8 list \<Rightarrow> u8 list option" where
  "create_filename topic_id address file_extension =
     (let s = decimal (unat topic_id) @ decimal (unat address) @ file_extension
      in if length s \<ge> FILE_NAME_BUFFER_SIZE then None else Some s)"

definition format_log_entry_csv :: "(u32 \<Rightarrow> u8 list) \<Rightarrow> linux_packet \<Rightarrow> u8 list option" where
  "format_log_entry_csv show_float packet =
     (let s = (if lp_data_type packet = TELEMETRY_TYPE_INT
               then decimal (unat (lp_timestamp packet)) @ [0x2C] @ signed_decimal (lp_data packet)
               else if lp_data_type packet = TELEMETRY_TYPE_FLOAT
               then decimal (unat (lp_timestamp packet)) @ [0x2C] @ show_float (lp_data packet) else [])
      in if length s \<ge> DATA_BUFFER_SIZE \<or> s = [] then None else Some s)"

type_synonym log_store = "u8 list \<Rightarrow> klog_dir"

definition telemetry_log_handle :: "u8 list \<Rightarrow> klog_handle" where
  "telemetry_log_handle name = \<lparr>kl_log_file = None, kl_current_part = 0, kl_current_part_size = 0,
     kl_config = \<lparr>kc_file_path = True, kc_file_path_len = of_nat (length name), kc_part_size = DATA_PART_SIZE, kc_max_parts = DATA_MAX_PARTS,
       kc_console_level = level_num LOG_NONE, kc_file_level = level_num LOG_TELEMETRY, kc_file_logging = True\<rparr>\<rparr>"

text \<open>\<open>millis\<close> is the time of the log.  The handle is closed at the end, and the result of writing is not looked at.\<close>

definition telemetry_store :: "klog_env \<Rightarrow> (u32 \<Rightarrow> u8 list) \<Rightarrow> u32 \<Rightarrow> linux_packet \<Rightarrow> log_store \<Rightarrow> (bool \<times> log_store) option" where
  "telemetry_store env show_float millis packet st =
     (case (create_filename (ucast (lp_topic_id packet)) (lp_subsystem_id packet) [], format_log_entry_csv show_float packet) of
        (Some name, Some data) \<Rightarrow>
          (case klog_init_file env (Some (telemetry_log_handle name)) (st name) of
             None \<Rightarrow> None
           | Some (r, kl, dir) \<Rightarrow>
               if r = 0 then
                 (case kl of None \<Rightarrow> None
                  | Some kl \<Rightarrow>
                      (case klog_write env millis LOG_TELEMETRY [] data kl dir of
                         None \<Rightarrow> None | Some (kl, dir) \<Rightarrow> Some (True, st(name := dir))))
               else Some (False, st(name := dir)))
      | _ \<Rightarrow> Some (False, st))"

fun storage_run :: "klog_env \<Rightarrow> (u32 \<Rightarrow> u8 list) \<Rightarrow> (u32 \<times> linux_packet) list \<Rightarrow> log_store \<Rightarrow> log_store option" where
  "storage_run env show_float [] st = Some st"
| "storage_run env show_float ((millis, packet) # ps) st =
     (case telemetry_store env show_float millis packet st of None \<Rightarrow> None | Some (_, st) \<Rightarrow> storage_run env show_float ps st)"

text \<open>A turn of the task once it has connected and subscribed; \<open>packet\<close> is the memory of the packet on its stack.\<close>

definition telemetry_store_rx_turn ::
  "klog_env \<Rightarrow> (u32 \<Rightarrow> u8 list) \<Rightarrow> u32 \<Rightarrow> socket_conn \<Rightarrow> (nat \<Rightarrow> u8 list option) \<Rightarrow> u8 list \<Rightarrow> log_store \<Rightarrow> (u8 list \<times> log_store) option" where
  "telemetry_store_rx_turn env show_float millis connection received packet st =
     (case linux_telemetry_read (Some connection) (Some packet) received of
        (True, Some packet) \<Rightarrow> map_option (\<lambda>(_, st). (packet, st)) (telemetry_store env show_float millis (linux_packet_of packet) st)
      | _ \<Rightarrow> Some (packet, st))"

section \<open>The store stays bounded\<close>

lemma decimal_length: "n < 10 ^ k \<Longrightarrow> 0 < k \<Longrightarrow> length (decimal n) \<le> k"
proof (induction n arbitrary: k rule: decimal.induct)
  case (1 n)
  show ?case
  proof (cases "n < 10")
    case True
    then show ?thesis using 1(3) by (simp add: decimal.simps [of n])
  next
    case False
    obtain j where j: "k = Suc j" using 1(3) by (cases k) auto
    have "0 < j" using False 1(2) j by (cases j) auto
    moreover have "n div 10 < 10 ^ j" using 1(2) j by (simp add: less_mult_imp_div_less mult.commute)
    ultimately show ?thesis using 1(1) [OF False] False j by (simp add: decimal.simps [of n])
  qed
qed

lemma u32_decimal: "length (decimal (unat (w :: u32))) \<le> 10"
  using unsigned_less [of w, where 'a = nat] by (intro decimal_length) simp_all

lemma decimal_nonempty: "decimal n \<noteq> []"
  by (subst decimal.simps) simp

text \<open>The name of a file always fits.\<close>

lemma filename_fits: "\<exists>name. create_filename t a [] = Some name \<and> length name \<le> 13"
proof -
  have "length (decimal (unat t)) \<le> 3" using unsigned_less [of t, where 'a = nat] by (intro decimal_length) simp_all
  then show ?thesis using u32_decimal [of a] by (simp add: create_filename_def storage_sizes)
qed

definition packet_line :: "(u32 \<Rightarrow> u8 list) \<Rightarrow> u32 \<Rightarrow> linux_packet \<Rightarrow> u8 list" where
  "packet_line show_float millis packet = klog_line millis LOG_TELEMETRY [] (the (format_log_entry_csv show_float packet))"

text \<open>A line has at most 82 bytes: 19 of the log and 63 of the entry.\<close>

lemma packet_line_length: "format_log_entry_csv show_float packet = Some data \<Longrightarrow> length (packet_line show_float millis packet) \<le> 82"
  by (auto simp: packet_line_def klog_line_def format_log_entry_csv_def storage_sizes level_str_def Let_def split: if_splits)

lemma store_cfg:
  assumes "length name \<le> 13"
  shows "cfg_ok 82 (kl_config (telemetry_log_handle name))"
proof -
  have "unat (of_nat (length name) :: u8) = length name" using assms by (simp add: unsigned_of_nat take_bit_nat_eq_self)
  then show ?thesis using assms
    by (simp add: cfg_ok_def telemetry_log_handle_def storage_sizes KLOG_MAX_PATH_def KLOG_PATH_LEN_def KLOG_SUFFIX_LEN_def)
qed

definition store_ok :: "log_store \<Rightarrow> bool" where
  "store_ok st \<longleftrightarrow> (\<forall>name i bs. st name i = Some bs \<longrightarrow> i \<le> 10 \<and> length bs < 51282 \<and> length bs \<noteq> 1)"

lemma store_dir: "store_ok st \<Longrightarrow> dir_ok 82 (kl_config (telemetry_log_handle name)) (st name)"
  by (auto simp: store_ok_def dir_ok_def telemetry_log_handle_def storage_sizes)

lemma store_one:
  assumes "env_ok env" "store_ok st" "format_log_entry_csv show_float packet = Some data"
    and "create_filename (ucast (lp_topic_id packet)) (lp_subsystem_id packet) [] = Some name"
  shows "\<exists>st'. telemetry_store env show_float millis packet st = Some (True, st') \<and> store_ok st' \<and>
    (\<exists>i bs. st' name i = Some (bs @ packet_line show_float millis packet)) \<and> (\<forall>n. n \<noteq> name \<longrightarrow> st' n = st n)"
proof -
  let ?kl = "telemetry_log_handle name" and ?line = "packet_line show_float millis packet"
  have n: "length name \<le> 13" using filename_fits [of "ucast (lp_topic_id packet)" "lp_subsystem_id packet"] assms(4) by auto
  note c = store_cfg [OF n]
  let ?fresh = "?kl\<lparr>kl_log_file := None, kl_current_part := - 1, kl_current_part_size := 0\<rparr>"
  obtain kl1 dir1 where 1: "next_log_file env ?fresh (st name) = Some (kl1, dir1)" "log_ok 82 kl1 dir1" "kl_config kl1 = kl_config ?kl"
    using next_log_file_ok [of env 82 ?fresh "st name"] assms(1) c store_dir [OF assms(2), of name] by auto
  have f: "kl_log_file kl1 \<noteq> None" using 1(2) by (auto simp: log_ok_def Let_def)
  have init: "klog_init_file env (Some ?kl) (st name) = Some (0, Some kl1, dir1)"
    using 1 f c by (auto simp: klog_init_file_def cfg_ok_def telemetry_log_handle_def)
  obtain kl2 dir2 bs where 2: "klog_file env millis LOG_TELEMETRY [] data kl1 dir1 = Some (kl2, dir2)" "log_ok 82 kl2 dir2"
      "kl_config kl2 = kl_config kl1" "dir2 (unat (kl_current_part kl1)) = Some (bs @ ?line)"
    using klog_file_ok [OF assms(1) 1(2), of ?line millis LOG_TELEMETRY "[]" data] packet_line_length [OF assms(3), of millis] assms(3)
    by (auto simp: packet_line_def)
  have w: "klog_write env millis LOG_TELEMETRY [] data kl1 dir1 = Some (kl2, dir2)"
    using 2(1) 1(3) by (simp add: klog_write_def telemetry_log_handle_def level_num_def)
  have "dir_ok 82 (kl_config ?kl) dir2" using 2(2,3) 1(3) by (simp add: log_ok_def Let_def)
  then have "store_ok (st(name := dir2))" using assms(2) by (auto simp: store_ok_def dir_ok_def telemetry_log_handle_def storage_sizes)
  then show ?thesis using init w assms(3,4) 2(4) by (auto simp: telemetry_store_def)
qed


text \<open>Packets of different sources share a file: the topic is cut to 8 bits, and it is written in front of the
  number of the subsystem without anything between them, so the last digit of one can be the first of the other.\<close>

theorem telemetry_files_collide:
  "create_filename (ucast (t + 256 :: u16)) a ext = create_filename (ucast t) a ext"
  "10 \<le> unat u \<Longrightarrow> 0 < unat u mod 10 \<Longrightarrow> unat b < 10 \<Longrightarrow>
     create_filename u b ext = create_filename (u div 10) (of_nat (10 * (unat u mod 10)) + b) ext"
proof -
  have "(ucast (t + 256 :: u16) :: u8) = ucast t"
    by (simp add: word_unat_eq_iff unsigned_ucast_eq unat_word_ariths take_bit_eq_mod mod_mod_cancel)
  then show "create_filename (ucast (t + 256 :: u16)) a ext = create_filename (ucast t) a ext" by simp
next
  assume a: "10 \<le> unat u" "0 < unat u mod 10" "unat b < 10"
  have d: "unat (of_nat (10 * (unat u mod 10)) + b) = 10 * (unat u mod 10) + unat b"
    using a(3) by (simp add: unat_word_ariths unsigned_of_nat take_bit_eq_mod)
  then have "unat (10 * of_nat (unat u mod 10) + b) = 10 * (unat u mod 10) + unat b" by simp
  then show "create_filename u b ext = create_filename (u div 10) (of_nat (10 * (unat u mod 10)) + b) ext"
    using a decimal.simps [of "unat u"] decimal.simps [of "10 * (unat u mod 10) + unat b"] decimal.simps [of "unat u mod 10"] decimal.simps [of "unat b"]
    by (simp add: create_filename_def unat_div)
qed

text \<open>When the service has closed the connection, every turn stores the packet that was read last once more, so the
  copies push everything else out of its log.\<close>

theorem storage_repeats_last_packet:
  assumes "is_active connection"
  shows "telemetry_store_rx_turn env show_float millis connection (\<lambda>_. Some []) packet st =
    map_option (\<lambda>(_, st). (packet, st)) (telemetry_store env show_float millis (linux_packet_of packet) st)"
  using assms by (simp add: telemetry_store_rx_turn_def linux_telemetry_read_def SUBSCRIBER_READ_ATTEMPTS_def numeral_eq_Suc kprv_socket_recv_def)


end
