(* ===== verification/KCnc.thy ===== *)
theory KCnc
  imports KCborMsg
begin

text \<open>
  Command and control: the client that sends a command (\<open>cmd-control-client/source/\<close>: \<open>parser.c\<close>, \<open>command.c\<close>,
  \<open>main.c\<close>) and the daemon that runs it and answers (\<open>cmd-control-daemon/source/\<close>: \<open>main.c\<close>, \<open>parser.c\<close>,
  \<open>command.c\<close>, \<open>message.c\<close>), with the messages between them.

  An array of characters is its bytes, and a string in it ends at the first zero; \<open>None\<close> is undefined: a write or read
  outside an array, a string without its zero, an assertion of the parser that fails.  The network between the
  two is the message; what the operating system answers (files, processes, clocks) is a parameter.
\<close>

section \<open>Data\<close>

definition MTU :: nat where "MTU = 250"
definition CMD_MAX_STR_LEN :: nat where "CMD_MAX_STR_LEN = 20"
definition CMD_PACKET_NUM_ARGS :: nat where "CMD_PACKET_NUM_ARGS = 5"

text \<open>The macro of the length has no parentheses: \<open>MTU - sizeof(int) + 20\<close>.\<close>

definition RES_PACKET_STDOUT_LEN :: nat where "RES_PACKET_STDOUT_LEN = MTU - 4 + CMD_MAX_STR_LEN"

text \<open>The buffer of the daemon for a message (\<open>main.c\<close>), and that for the line of a command (\<open>command.c\<close>, which
  defines the name again).\<close>

definition CMD_STR_LEN :: nat where "CMD_STR_LEN = 75"
definition COMMAND_STR_LEN :: nat where "COMMAND_STR_LEN = 150"
definition SO_PATH_LENGTH :: nat where "SO_PATH_LENGTH = 75"

definition MESSAGE_TYPE_COMMAND_INPUT :: u32 where "MESSAGE_TYPE_COMMAND_INPUT = 0"
definition RESPONSE_TYPE_COMMAND_RESULT :: u32 where "RESPONSE_TYPE_COMMAND_RESULT = 1"
definition RESPONSE_TYPE_PROCESSING_ERROR :: u32 where "RESPONSE_TYPE_PROCESSING_ERROR = 2"

lemmas cnc_lengths = MTU_def CMD_MAX_STR_LEN_def CMD_PACKET_NUM_ARGS_def RES_PACKET_STDOUT_LEN_def CMD_STR_LEN_def
  COMMAND_STR_LEN_def SO_PATH_LENGTH_def
lemmas cnc_types = MESSAGE_TYPE_COMMAND_INPUT_def RESPONSE_TYPE_COMMAND_RESULT_def RESPONSE_TYPE_PROCESSING_ERROR_def

record cnc_command =
  cc_arg_count :: u32
  cc_cmd_name :: "u8 list"
  cc_args :: "u8 list list"

record cnc_response =
  cr_return_code :: u8
  cr_execution_time :: u64
  cr_output :: "u8 list"

record cnc_wrapper =
  cw_command :: cnc_command
  cw_response :: cnc_response
  cw_err :: bool
  cw_output :: "u8 list"

definition zero_command :: cnc_command where
  "zero_command = \<lparr>cc_arg_count = 0, cc_cmd_name = replicate CMD_MAX_STR_LEN 0,
     cc_args = replicate CMD_PACKET_NUM_ARGS (replicate CMD_MAX_STR_LEN 0)\<rparr>"

definition zero_vars :: cnc_wrapper where
  "zero_vars = \<lparr>cw_command = zero_command,
     cw_response = \<lparr>cr_return_code = 0, cr_execution_time = 0, cr_output = replicate RES_PACKET_STDOUT_LEN 0\<rparr>,
     cw_err = False, cw_output = replicate RES_PACKET_STDOUT_LEN 0\<rparr>"

text \<open>The string in an array, \<open>strcpy\<close>, and \<open>snprintf\<close> of a text at an offset.\<close>

definition c_string :: "u8 list \<Rightarrow> u8 list option" where
  "c_string m = (if 0 \<in> set m then Some (takeWhile (\<lambda>b. b \<noteq> 0) m) else None)"

definition strcpy :: "u8 list \<Rightarrow> u8 list \<Rightarrow> u8 list option" where
  "strcpy m s = mem_write 0 (s @ [0]) m"

definition snprintf_at :: "nat \<Rightarrow> int \<Rightarrow> u8 list \<Rightarrow> u8 list \<Rightarrow> u8 list option" where
  "snprintf_at off n s m =
     (if off > length m then None
      else if n = 0 then Some m
      else if n < 0 then mem_write off (s @ [0]) m
      else mem_write off (take (nat n - 1) s @ [0]) m)"

section \<open>The client: a command\<close>

text \<open>\<open>parse_opt\<close> is called for every argument of the command line, and at the end.\<close>

definition parse_opt_arg :: "u8 list \<Rightarrow> cnc_command \<Rightarrow> cnc_command option" where
  "parse_opt_arg arg c =
     (let n = cc_arg_count c; c = c\<lparr>cc_arg_count := n + 1\<rparr>
      in if n = 0 then map_option (\<lambda>m. c\<lparr>cc_cmd_name := m\<rparr>) (strcpy (cc_cmd_name c) arg)
         else let idx = unat (n - 1)
              in if idx < length (cc_args c)
                 then map_option (\<lambda>m. c\<lparr>cc_args := (cc_args c)[idx := m]\<rparr>) (strcpy (cc_args c ! idx) arg)
                 else None)"

definition parse_opt_end :: "cnc_command \<Rightarrow> cnc_command" where
  "parse_opt_end c = c\<lparr>cc_arg_count := cc_arg_count c - 1\<rparr>"

fun parse_args :: "u8 list list \<Rightarrow> cnc_command \<Rightarrow> cnc_command option" where
  "parse_args [] c = Some (parse_opt_end c)"
| "parse_args (a # as) c = (case parse_opt_arg a c of None \<Rightarrow> None | Some c \<Rightarrow> parse_args as c)"

definition cnc_client_parse_cl_args :: "u8 list list \<Rightarrow> cnc_command \<Rightarrow> cnc_command option" where
  "cnc_client_parse_cl_args argv c = parse_args argv c"

text \<open>The functions return \<open>false\<close> at any error.  The result is the length of the message and the buffer; the length is
  \<open>None\<close> for \<open>false\<close>.\<close>

type_synonym encoded = "(nat option \<times> u8 list) option"

definition unless_failed :: "(cbor_error \<times> cbor_encoder \<times> u8 list) option \<Rightarrow> (cbor_encoder \<Rightarrow> u8 list \<Rightarrow> encoded) \<Rightarrow> encoded" where
  "unless_failed r k =
     (case r of None \<Rightarrow> None | Some (e, c, m) \<Rightarrow> if e \<noteq> CborNoError then Some (None, m) else k c m)"

definition finish_encode_response :: "cbor_encoder \<Rightarrow> cbor_encoder \<Rightarrow> u8 list \<Rightarrow> encoded" where
  "finish_encode_response enc c m =
     (case cbor_encoder_close_container enc c m of None \<Rightarrow> None
      | Some (_, enc, m) \<Rightarrow> Some (Some (nat (cbor_encoder_get_buffer_size enc 0)), m))"

definition with_string :: "u8 list \<Rightarrow> (u8 list \<Rightarrow> encoded) \<Rightarrow> encoded" where
  "with_string m k = (case c_string m of None \<Rightarrow> None | Some s \<Rightarrow> k s)"

definition cnc_client_encode_command :: "cnc_command \<Rightarrow> cbor_encoder \<Rightarrow> cbor_encoder \<Rightarrow> u8 list \<Rightarrow> encoded" where
  "cnc_client_encode_command packet enc c m =
     unless_failed (cbor_encode_text_stringz c (chars ''ARG_COUNT'') m) (\<lambda>c m.
     unless_failed (cbor_encode_int c (scast (cc_arg_count packet)) m) (\<lambda>c m.
     unless_failed (cbor_encode_text_stringz c (chars ''COMMAND_NAME'') m) (\<lambda>c m.
     with_string (cc_cmd_name packet) (\<lambda>s. unless_failed (cbor_encode_text_stringz c s m) (\<lambda>c m.
     unless_failed (cbor_encode_text_stringz c (chars ''ARGS'') m) (\<lambda>c m.
     with_string (hd (cc_args packet)) (\<lambda>s. unless_failed (cbor_encode_text_stringz c s m) (\<lambda>c m.
     finish_encode_response enc c m))))))))"

text \<open>The start of a message: a map that announces \<open>k\<close> entries, with the type.\<close>

definition start_encode_response ::
  "nat \<Rightarrow> u32 \<Rightarrow> u8 list \<Rightarrow> (cbor_encoder \<Rightarrow> cbor_encoder \<Rightarrow> u8 list \<Rightarrow> encoded) \<Rightarrow> encoded" where
  "start_encode_response k message_type m rest =
     (case cbor_encoder_create_map (cbor_encoder_init MTU 0) k m of
        None \<Rightarrow> None
      | Some (e, enc, c, m) \<Rightarrow>
          if e \<noteq> CborNoError then Some (None, m)
          else (case c of None \<Rightarrow> None
                | Some c \<Rightarrow>
                    unless_failed (cbor_encode_text_stringz c (chars ''MSG_TYPE'') m) (\<lambda>c m.
                    unless_failed (cbor_encode_int c (scast message_type) m) (rest enc))))"

text \<open>Another type of message ends the function without a value.\<close>

definition cnc_client_start_encode_response :: "u32 \<Rightarrow> u8 list \<Rightarrow> cnc_command \<Rightarrow> encoded" where
  "cnc_client_start_encode_response message_type data packet =
     start_encode_response 5 message_type data (\<lambda>enc c m.
       if message_type = MESSAGE_TYPE_COMMAND_INPUT then cnc_client_encode_command packet enc c m else None)"

definition cnc_client_encode_packet :: "u8 list \<Rightarrow> cnc_command \<Rightarrow> encoded" where
  "cnc_client_encode_packet = cnc_client_start_encode_response MESSAGE_TYPE_COMMAND_INPUT"

section \<open>The daemon: reading a command\<close>

text \<open>\<open>data\<close> is the buffer behind the wrapper; the result is the buffer with the message, and its length.\<close>

definition cnc_daemon_parse_buffer_from_packet :: "u8 list \<Rightarrow> u8 list \<Rightarrow> (u8 list \<times> nat) option" where
  "cnc_daemon_parse_buffer_from_packet packet data = map_option (\<lambda>m. (m, length packet)) (mem_write 0 packet data)"

definition cnc_daemon_parse_command :: "u8 list \<Rightarrow> cbor_value \<Rightarrow> cnc_command \<Rightarrow> (bool \<times> cnc_command) option" where
  "cnc_daemon_parse_command bs mp c = do {
     (e, element) \<leftarrow> cbor_value_map_find_value bs mp (chars ''ARG_COUNT'');
     if e \<noteq> CborNoError then Some (False, c) else do {
     n \<leftarrow> cbor_value_get_int bs element;
     let c = c\<lparr>cc_arg_count := n\<rparr>;
     (e, element) \<leftarrow> cbor_value_map_find_value bs mp (chars ''COMMAND_NAME'');
     if e \<noteq> CborNoError then Some (False, c) else do {
     (e, _, name) \<leftarrow> cbor_value_copy_text_string bs element (cc_cmd_name c) CMD_MAX_STR_LEN;
     let c = c\<lparr>cc_cmd_name := name\<rparr>;
     if e \<noteq> CborNoError then Some (False, c) else do {
     (e, element) \<leftarrow> cbor_value_map_find_value bs mp (chars ''ARGS'');
     if e \<noteq> CborNoError then Some (False, c) else do {
     (e, _, arg) \<leftarrow> cbor_value_copy_text_string bs element (hd (cc_args c)) CMD_MAX_STR_LEN;
     let c = c\<lparr>cc_args := arg # tl (cc_args c)\<rparr>;
     Some (e = CborNoError, c) } } } } }"

definition cnc_daemon_parse_buffer :: "u8 list \<Rightarrow> nat \<Rightarrow> cnc_command \<Rightarrow> (bool \<times> cnc_command) option" where
  "cnc_daemon_parse_buffer data len c =
     (let bs = take len data in do {
       (e, mp) \<leftarrow> cbor_parser_init bs;
       if e \<noteq> CborNoError then Some (False, c) else do {
       (e, element) \<leftarrow> cbor_value_map_find_value bs mp (chars ''MSG_TYPE'');
       if e \<noteq> CborNoError then Some (False, c) else do {
       message_type \<leftarrow> cbor_value_get_int bs element;
       if message_type = MESSAGE_TYPE_COMMAND_INPUT then cnc_daemon_parse_command bs mp c else Some (False, c) } } })"

section \<open>The daemon: the answer\<close>

definition cnc_daemon_encode_response :: "cnc_wrapper \<Rightarrow> cbor_encoder \<Rightarrow> cbor_encoder \<Rightarrow> u8 list \<Rightarrow> encoded" where
  "cnc_daemon_encode_response w enc c m =
     unless_failed (cbor_encode_text_stringz c (chars ''RETURN_CODE'') m) (\<lambda>c m.
     unless_failed (cbor_encode_simple_value c (cr_return_code (cw_response w)) m) (\<lambda>c m.
     unless_failed (cbor_encode_text_stringz c (chars ''EXEC_TIME'') m) (\<lambda>c m.
     unless_failed (cbor_encode_double c (cr_execution_time (cw_response w)) m) (\<lambda>c m.
     unless_failed (cbor_encode_text_stringz c (chars ''OUTPUT'') m) (\<lambda>c m.
     with_string (cr_output (cw_response w)) (\<lambda>s. unless_failed (cbor_encode_text_stringz c s m) (\<lambda>c m.
     finish_encode_response enc c m)))))))"

definition cnc_daemon_encode_processing_error :: "cnc_wrapper \<Rightarrow> cbor_encoder \<Rightarrow> cbor_encoder \<Rightarrow> u8 list \<Rightarrow> encoded" where
  "cnc_daemon_encode_processing_error w enc c m =
     unless_failed (cbor_encode_text_stringz c (chars ''ERROR_MSG'') m) (\<lambda>c m.
     with_string (cw_output w) (\<lambda>s. unless_failed (cbor_encode_text_stringz c s m) (\<lambda>c m.
     finish_encode_response enc c m)))"

definition cnc_daemon_start_encode_response :: "u32 \<Rightarrow> cnc_wrapper \<Rightarrow> encoded" where
  "cnc_daemon_start_encode_response message_type w =
     start_encode_response 4 message_type (replicate MTU 0) (\<lambda>enc c m.
       if message_type = RESPONSE_TYPE_COMMAND_RESULT then cnc_daemon_encode_response w enc c m
       else if message_type = RESPONSE_TYPE_PROCESSING_ERROR then cnc_daemon_encode_processing_error w enc c m
       else None)"

text \<open>What is handed to \<open>cnc_daemon_send_buffer\<close>, if anything; the callers do not look at the value of
  \<open>cnc_daemon_send_result\<close>, which returns none.\<close>

definition cnc_daemon_send_result :: "cnc_wrapper \<Rightarrow> u8 list list option" where
  "cnc_daemon_send_result w =
     map_option (\<lambda>(n, m). case n of None \<Rightarrow> [] | Some n \<Rightarrow> [take n m])
       (cnc_daemon_start_encode_response (if cw_err w then RESPONSE_TYPE_PROCESSING_ERROR else RESPONSE_TYPE_COMMAND_RESULT) w)"

section \<open>The daemon: running a command\<close>

text \<open>\<open>oe_run\<close> is what \<open>popen\<close>, \<open>fgets\<close> and \<open>pclose\<close> give for a line: the pieces of the output and the status, or \<open>None\<close> when
  the process cannot be started.  \<open>oe_no_return\<close> is the value of a function that ends without one.\<close>

record cnc_env =
  oe_exists :: "u8 list \<Rightarrow> bool"
  oe_run :: "u8 list \<Rightarrow> (u8 list list \<times> int) option"
  oe_time :: u64
  oe_no_return :: bool

text \<open>The new text is the format: a percent sign in it asks for arguments that are not there.\<close>

definition append_str :: "u8 list \<Rightarrow> nat \<Rightarrow> u8 list \<Rightarrow> (u8 list \<times> nat) option" where
  "append_str str sz new_str =
     (if 0x25 \<in> set new_str then None
      else map_option (\<lambda>m. (m, sz + length new_str)) (snprintf_at sz (int COMMAND_STR_LEN - int sz) new_str str))"

fun append_args :: "nat \<Rightarrow> nat \<Rightarrow> u8 list list \<Rightarrow> u8 list \<Rightarrow> nat \<Rightarrow> u8 list option" where
  "append_args 0 i args str sz = Some str"
| "append_args (Suc n) i args str sz =
     (if i < length args
      then do {
        (str, sz) \<leftarrow> append_str str sz [0x20];
        a \<leftarrow> c_string (args ! i);
        (str, sz) \<leftarrow> append_str str sz a;
        append_args n (i + 1) args str sz }
      else None)"

definition assemble_cmd_string :: "cnc_env \<Rightarrow> u8 list \<Rightarrow> u8 list \<Rightarrow> cnc_wrapper \<Rightarrow> (bool \<times> u8 list) option" where
  "assemble_cmd_string env cmd_str exe_path w = do {
     (str, sz) \<leftarrow> append_str cmd_str 0 exe_path;
     str \<leftarrow> append_args (nat (sint (cc_arg_count (cw_command w)))) 0 (cc_args (cw_command w)) str sz;
     Some (oe_no_return env, str) }"

text \<open>\<open>size\<close> grows by the length of each piece, also when the piece did not fit.  Beyond the array the room that is left
  wraps around.\<close>

fun collect_output :: "u8 list list \<Rightarrow> u8 list \<Rightarrow> nat \<Rightarrow> u8 list option" where
  "collect_output [] out sz = Some out"
| "collect_output (p # ps) out sz =
     (case snprintf_at sz (int RES_PACKET_STDOUT_LEN - int sz) p out of
        None \<Rightarrow> None | Some out \<Rightarrow> collect_output ps out (sz + length p))"

definition MODULE_REGISTRY_DIR :: "u8 list" where "MODULE_REGISTRY_DIR = chars ''/root/''"

definition set_error :: "u8 list \<Rightarrow> cnc_wrapper \<Rightarrow> cnc_wrapper option" where
  "set_error text w =
     map_option (\<lambda>m. w\<lparr>cw_err := True, cw_output := m\<rparr>) (snprintf_at 0 (int RES_PACKET_STDOUT_LEN) text (cw_output w))"

text \<open>The result: the value, the messages that are sent, and the lines that are run.\<close>

definition cnc_daemon_load_and_run_command :: "cnc_env \<Rightarrow> cnc_wrapper \<Rightarrow> (bool \<times> u8 list list \<times> u8 list list) option" where
  "cnc_daemon_load_and_run_command env w = do {
     name \<leftarrow> c_string (cc_cmd_name (cw_command w));
     let exe_len = length MODULE_REGISTRY_DIR + 2 + length name - 1;
     if exe_len > COMMAND_STR_LEN then do {
       w \<leftarrow> set_error (chars ''The path to the executable is too long to fit into the command string'' @ [10]) w;
       sent \<leftarrow> cnc_daemon_send_result w;
       Some (False, sent, []) }
     else do {
     path \<leftarrow> snprintf_at 0 (int exe_len) (MODULE_REGISTRY_DIR @ name) (replicate SO_PATH_LENGTH 0);
     exe_path \<leftarrow> c_string path;
     if \<not> oe_exists env exe_path then do {
       w \<leftarrow> set_error (chars ''The command binary '' @ exe_path @ chars '', does not exist'' @ [10]) w;
       sent \<leftarrow> cnc_daemon_send_result w;
       Some (False, sent, []) }
     else do {
     (ok, cmd) \<leftarrow> assemble_cmd_string env (replicate COMMAND_STR_LEN 0) exe_path w;
     if \<not> ok then Some (False, [], [])
     else do {
     line \<leftarrow> c_string cmd;
     case oe_run env line of
       None \<Rightarrow> Some (False, [], [line])
     | Some (pieces, status) \<Rightarrow> do {
         out \<leftarrow> collect_output pieces (cr_output (cw_response w)) 0;
         sent \<leftarrow> cnc_daemon_send_result (w\<lparr>cw_response := \<lparr>cr_return_code = of_int status, cr_execution_time = oe_time env, cr_output = out\<rparr>\<rparr>);
         Some (True, sent, [line]) } } } } }"

text \<open>What the daemon keeps between commands: the buffer and the length of the last message.\<close>

record cnc_daemon =
  cd_data :: "u8 list"
  cd_length :: nat

text \<open>A connection is accepted; \<open>packet\<close> is what is read from it, if anything.\<close>

definition cnc_daemon_get_buffer :: "u8 list option \<Rightarrow> cnc_daemon \<Rightarrow> cnc_daemon option" where
  "cnc_daemon_get_buffer packet d =
     (case packet of None \<Rightarrow> Some d
      | Some bs \<Rightarrow> map_option (\<lambda>(m, n). \<lparr>cd_data = m, cd_length = n\<rparr>) (cnc_daemon_parse_buffer_from_packet bs (cd_data d)))"

text \<open>A turn of the loop in \<open>main\<close>: what is sent and what is run.\<close>

definition cnc_daemon_turn :: "cnc_env \<Rightarrow> u8 list option \<Rightarrow> cnc_daemon \<Rightarrow> (u8 list list \<times> u8 list list \<times> cnc_daemon) option" where
  "cnc_daemon_turn env packet d = do {
     d \<leftarrow> cnc_daemon_get_buffer packet d;
     (ok, c) \<leftarrow> cnc_daemon_parse_buffer (cd_data d) (cd_length d) (cw_command zero_vars);
     if \<not> ok then Some ([], [], d)
     else do {
       (_, sent, run) \<leftarrow> cnc_daemon_load_and_run_command env (zero_vars\<lparr>cw_command := c\<rparr>);
       Some (sent, run, d) } }"

section \<open>The client: the answer\<close>

text \<open>What is printed.\<close>

datatype cnc_print = ReturnCode u8 | ExecutionTime u64 | Output "u8 list" | ErrorMessage "u8 list"

definition cnc_client_parse_command_result :: "u8 list \<Rightarrow> u8 list \<Rightarrow> cbor_value \<Rightarrow> (bool \<times> cnc_print list) option" where
  "cnc_client_parse_command_result stack bs mp = do {
     (e, element) \<leftarrow> cbor_value_map_find_value bs mp (chars ''RETURN_CODE'');
     if e \<noteq> CborNoError then Some (False, []) else do {
     return_code \<leftarrow> cbor_value_get_simple_type element;
     (e, element) \<leftarrow> cbor_value_map_find_value bs mp (chars ''EXEC_TIME'');
     if e \<noteq> CborNoError then Some (False, [ReturnCode return_code]) else do {
     execution_time \<leftarrow> cbor_value_get_double bs element;
     (e, element) \<leftarrow> cbor_value_map_find_value bs mp (chars ''OUTPUT'');
     if e \<noteq> CborNoError then Some (False, [ReturnCode return_code, ExecutionTime execution_time]) else do {
     (e, _, out) \<leftarrow> cbor_value_copy_text_string bs element stack MTU;
     if e \<noteq> CborNoError then Some (False, [ReturnCode return_code, ExecutionTime execution_time]) else do {
     s \<leftarrow> c_string out;
     Some (True, [ReturnCode return_code, ExecutionTime execution_time, Output s]) } } } } }"

definition cnc_client_parse_processing_error :: "u8 list \<Rightarrow> cbor_value \<Rightarrow> (bool \<times> cnc_print list) option" where
  "cnc_client_parse_processing_error bs mp = do {
     (e, element) \<leftarrow> cbor_value_map_find_value bs mp (chars ''ERROR_MSG'');
     if e \<noteq> CborNoError then Some (False, []) else do {
     (e, _, out) \<leftarrow> cbor_value_copy_text_string bs element (replicate MTU 0) MTU;
     if e \<noteq> CborNoError then Some (False, []) else do {
     s \<leftarrow> c_string out;
     Some (True, [ErrorMessage s]) } } }"

text \<open>\<open>stack\<close> is the buffer for the output, which is not set.\<close>

definition cnc_client_parse_response :: "u8 list \<Rightarrow> u8 list \<Rightarrow> (bool \<times> cnc_print list) option" where
  "cnc_client_parse_response stack bs = do {
     (e, mp) \<leftarrow> cbor_parser_init bs;
     if e \<noteq> CborNoError then Some (False, []) else do {
     (e, element) \<leftarrow> cbor_value_map_find_value bs mp (chars ''MSG_TYPE'');
     if e \<noteq> CborNoError then Some (False, []) else do {
     message_type \<leftarrow> cbor_value_get_int bs element;
     if message_type = RESPONSE_TYPE_COMMAND_RESULT then cnc_client_parse_command_result stack bs mp
     else if message_type = RESPONSE_TYPE_PROCESSING_ERROR then cnc_client_parse_processing_error bs mp
     else Some (False, []) } } }"


section \<open>The messages that are written\<close>

text \<open>A string in an array of a given length.\<close>

definition holds_string :: "nat \<Rightarrow> u8 list \<Rightarrow> u8 list \<Rightarrow> bool" where
  "holds_string n s m \<longleftrightarrow> length m = n \<and> length s < n \<and> 0 \<notin> set s \<and> (\<exists>r. m = s @ 0 # r)"

lemma holds_c_string: "holds_string n s m \<Longrightarrow> c_string m = Some s"
  by (auto simp: holds_string_def c_string_def takeWhile_append)

lemma failed_key_value:
  assumes "map_written n k es c m" "writes n f it" "map_size k (es @ [(key, it)]) \<le> n"
    and "\<And>c m. map_written n k (es @ [(key, it)]) c m \<Longrightarrow> \<exists>m'. K c m = Some (r, m') \<and> Q m'"
  shows "\<exists>m'. unless_failed (cbor_encode_text_stringz c key m) (\<lambda>c m. unless_failed (f c m) K) = Some (r, m') \<and> Q m'"
  using map_written_key_value [OF assms(1-3)] assms(4) by (auto simp: unless_failed_def)

lemma failed_key_string:
  assumes "map_written n k es c m" "c_string a = Some s" "map_size k (es @ [(key, Text s)]) \<le> n"
    and "\<And>c m. map_written n k (es @ [(key, Text s)]) c m \<Longrightarrow> \<exists>m'. K c m = Some (r, m') \<and> Q m'"
  shows "\<exists>m'. unless_failed (cbor_encode_text_stringz c key m) (\<lambda>c m. with_string a (\<lambda>s. unless_failed (cbor_encode_text_stringz c s m) K)) = Some (r, m') \<and> Q m'"
  using failed_key_value [OF assms(1) writes_text assms(3,4)] assms(2) by (simp add: with_string_def)

lemma finish_step:
  assumes "map_written n k es c m"
  shows "\<exists>m'. finish_encode_response enc c m = Some (Some (length (announced k es)), m') \<and> take (length (announced k es)) m' = announced k es"
proof -
  have w: "written n (announced k es) (2 * length es) c m" "ce_flags c = 0x20" using assms by (simp_all add: map_written_def announced_def)
  then show ?thesis
    by (simp add: finish_encode_response_def cbor_encoder_close_container_def cbor_flags written_def cbor_encoder_get_buffer_size_def Let_def)
qed

lemma started:
  assumes "map_size k [(chars ''MSG_TYPE'', int_item (scast ty))] \<le> MTU" "length m = MTU" "k < 2 ^ 31"
    and "\<And>enc c m. map_written MTU k [(chars ''MSG_TYPE'', int_item (scast ty))] c m \<Longrightarrow> \<exists>m'. K enc c m = Some (r, m') \<and> Q m'"
  shows "\<exists>m'. start_encode_response k ty m K = Some (r, m') \<and> Q m'"
proof -
  have "length (number_bytes k 0xA0) \<le> MTU" using assms(1) by (simp add: map_size_def)
  moreover have "k \<le> SIZE_MAX div 2" using assms(3) by (simp add: SIZE_MAX_def)
  ultimately obtain enc c m1 where o: "cbor_encoder_create_map (cbor_encoder_init MTU 0) k m = Some (CborNoError, enc, Some c, m1)"
      "written MTU (number_bytes k 0xA0) 0 c m1" "ce_flags c = 0x20"
    using map_opened assms(2) by blast
  have "map_written MTU k [] c m1" using o(2,3) by (simp add: map_written_def)
  from failed_key_value [OF this writes_int [of MTU "scast ty"], of "chars ''MSG_TYPE''" "K enc" r Q] assms(1,4)
  show ?thesis using o(1) by (simp add: start_encode_response_def)
qed

text \<open>What a command and an answer become.\<close>

definition command_entries :: "u32 \<Rightarrow> u8 list \<Rightarrow> u8 list \<Rightarrow> cbor_entry list" where
  "command_entries n name arg =
     [(chars ''MSG_TYPE'', int_item (scast MESSAGE_TYPE_COMMAND_INPUT)), (chars ''ARG_COUNT'', int_item (scast n)),
      (chars ''COMMAND_NAME'', Text name), (chars ''ARGS'', Text arg)]"

definition result_entries :: "u8 \<Rightarrow> u64 \<Rightarrow> u8 list \<Rightarrow> cbor_entry list" where
  "result_entries code time out =
     [(chars ''MSG_TYPE'', int_item (scast RESPONSE_TYPE_COMMAND_RESULT)), (chars ''RETURN_CODE'', Simple code),
      (chars ''EXEC_TIME'', Double time), (chars ''OUTPUT'', Text out)]"

definition error_entries :: "u8 list \<Rightarrow> cbor_entry list" where
  "error_entries text = [(chars ''MSG_TYPE'', int_item (scast RESPONSE_TYPE_PROCESSING_ERROR)), (chars ''ERROR_MSG'', Text text)]"

lemma map_size_prefix: "map_size k (take i es) \<le> map_size k es"
proof -
  have "concat (map entry_bytes es) = concat (map entry_bytes (take i es)) @ concat (map entry_bytes (drop i es))"
    by (metis append_take_drop_id concat_append map_append)
  then show ?thesis by (simp add: map_size_def)
qed

lemma client_encodes:
  assumes "c_string (cc_cmd_name packet) = Some name" "c_string (hd (cc_args packet)) = Some arg" "length data = MTU"
    and "map_size 5 (command_entries (cc_arg_count packet) name arg) \<le> MTU"
  shows "\<exists>m'. cnc_client_encode_packet data packet = Some (Some (length (announced 5 (command_entries (cc_arg_count packet) name arg))), m') \<and>
    take (length (announced 5 (command_entries (cc_arg_count packet) name arg))) m' = announced 5 (command_entries (cc_arg_count packet) name arg)"
proof -
  let ?es = "command_entries (cc_arg_count packet) name arg"
  have fits: "map_size 5 (take i ?es) \<le> MTU" for i using map_size_prefix [of 5 i ?es] assms(4) by linarith
  note e = command_entries_def [of "cc_arg_count packet" name arg]
  note f1 = fits [of 1] and f2 = fits [of 2] and f3 = fits [of 3] and f4 = fits [of 4]
  show ?thesis
    unfolding cnc_client_encode_packet_def cnc_client_start_encode_response_def cnc_client_encode_command_def
    apply (rule started [OF _ assms(3)])
      apply (use f1 in \<open>simp add: e\<close>)
     apply simp
    apply (simp only: if_True simp_thms)
    apply (rule failed_key_value [OF _ writes_int], assumption, use f2 in \<open>simp add: e\<close>)
    apply (rule failed_key_string [OF _ assms(1)], assumption, use f3 in \<open>simp add: e\<close>)
    apply (rule failed_key_string [OF _ assms(2)], assumption, use f4 in \<open>simp add: e\<close>)
    apply (rule finish_step)
    by (simp add: e)
qed

lemma daemon_encodes:
  assumes "c_string (cr_output (cw_response w)) = Some out" "cr_return_code (cw_response w) < 20" "\<not> cw_err w"
    and "map_size 4 (result_entries (cr_return_code (cw_response w)) (cr_execution_time (cw_response w)) out) \<le> MTU"
  shows "cnc_daemon_send_result w = Some [announced 4 (result_entries (cr_return_code (cw_response w)) (cr_execution_time (cw_response w)) out)]"
proof -
  let ?es = "result_entries (cr_return_code (cw_response w)) (cr_execution_time (cw_response w)) out"
  have fits: "map_size 4 (take i ?es) \<le> MTU" for i using map_size_prefix [of 4 i ?es] assms(4) by linarith
  note e = result_entries_def [of "cr_return_code (cw_response w)" "cr_execution_time (cw_response w)" out]
  note f1 = fits [of 1] and f2 = fits [of 2] and f3 = fits [of 3] and f4 = fits [of 4]
  have "\<exists>m'. cnc_daemon_start_encode_response RESPONSE_TYPE_COMMAND_RESULT w = Some (Some (length (announced 4 ?es)), m') \<and>
      take (length (announced 4 ?es)) m' = announced 4 ?es"
    unfolding cnc_daemon_start_encode_response_def cnc_daemon_encode_response_def
    apply (rule started)
       apply (use f1 in \<open>simp add: e\<close>)
      apply simp
     apply simp
    apply (simp only: if_True simp_thms)
    apply (rule failed_key_value [OF _ writes_simple [OF assms(2)]], assumption, use f2 in \<open>simp add: e\<close>)
    apply (rule failed_key_value [OF _ writes_double], assumption, use f3 in \<open>simp add: e\<close>)
    apply (rule failed_key_string [OF _ assms(1)], assumption, use f4 in \<open>simp add: e\<close>)
    apply (rule finish_step)
    by (simp add: e)
  then show ?thesis using assms(3) by (auto simp: cnc_daemon_send_result_def)
qed

section \<open>The messages that are read\<close>

lemma cnc_keys:
  "0 \<notin> set (chars ''MSG_TYPE'')" "0 \<notin> set (chars ''ARG_COUNT'')" "0 \<notin> set (chars ''COMMAND_NAME'')" "0 \<notin> set (chars ''ARGS'')"
  "0 \<notin> set (chars ''RETURN_CODE'')" "0 \<notin> set (chars ''EXEC_TIME'')" "0 \<notin> set (chars ''OUTPUT'')"
  by (simp_all add: chars_def)

lemma cnc_keys_distinct:
  "distinct [chars ''MSG_TYPE'', chars ''ARG_COUNT'', chars ''COMMAND_NAME'', chars ''ARGS'']"
  "distinct [chars ''MSG_TYPE'', chars ''RETURN_CODE'', chars ''EXEC_TIME'', chars ''OUTPUT'']"
  by (simp_all add: chars_def)

text \<open>An entry is found by its place in the list.\<close>

lemma announced_nth:
  assumes "entries_ok es" "length es \<le> k" "2 * k < 2 ^ 32 - 1" "distinct (map fst es)" "i < length es" "es ! i = (key, it)" "0 \<notin> set key"
    and "cbor_parser_init (announced k es) = Some (CborNoError, mp)"
  shows "\<exists>v q. cbor_value_map_find_value (announced k es) mp key = Some (CborNoError, v) \<and> item_at (announced k es) q it \<and> parsed_at (announced k es) q v"
proof -
  have e: "es = take i es @ (key, it) # drop (Suc i) es" using id_take_nth_drop [OF assms(5)] assms(6) by simp
  have "key \<notin> fst ` set (take i es)"
  proof
    assume "key \<in> fst ` set (take i es)"
    then obtain j where j: "j < i" "fst (es ! j) = key" using assms(5) by (auto simp: in_set_conv_nth)
    then have "map fst es ! j = map fst es ! i" using assms(5,6) by simp
    then show False using assms(4,5) j(1) nth_eq_iff_index_eq [OF assms(4), of j i] by simp
  qed
  from announced_find [of "take i es" key it "drop (Suc i) es" k mp, folded e, OF assms(1-3,7) this assms(8)] show ?thesis .
qed

lemma command_entries_ok: "length name < 2 ^ 64 \<Longrightarrow> length arg < 2 ^ 64 \<Longrightarrow> entries_ok (command_entries n name arg)"
  by (simp add: entries_ok_def command_entries_def entry_ok_def int_item_ok chars_def)

lemma result_entries_ok: "code < 20 \<Longrightarrow> length out < 2 ^ 64 \<Longrightarrow> entries_ok (result_entries code time out)"
  by (simp add: entries_ok_def result_entries_def entry_ok_def int_item_ok chars_def)

lemma announced_start:
  assumes "entries_ok es" "length es \<le> k" "2 * k < 2 ^ 32 - 1" "es \<noteq> []"
  shows "\<exists>mp. cbor_parser_init (announced k es) = Some (CborNoError, mp)"
  using map_start [OF assms(1-3)] assms(4) by blast

lemma daemon_parses:
  assumes "length name < CMD_MAX_STR_LEN" "length arg < CMD_MAX_STR_LEN" "take len data = announced 5 (command_entries n name arg)"
    and "length (cc_cmd_name c) = CMD_MAX_STR_LEN" "length (hd (cc_args c)) = CMD_MAX_STR_LEN"
  shows "cnc_daemon_parse_buffer data len c =
    Some (True, c\<lparr>cc_arg_count := n, cc_cmd_name := name @ [0] @ drop (length name + 1) (cc_cmd_name c),
                  cc_args := (arg @ [0] @ drop (length arg + 1) (hd (cc_args c))) # tl (cc_args c)\<rparr>)"
proof -
  let ?es = "command_entries n name arg"
  let ?bs = "announced 5 ?es"
  have ok: "entries_ok ?es" using assms(1,2) by (intro command_entries_ok) (simp_all add: cnc_lengths)
  have l: "length ?es \<le> 5" "2 * (5 :: nat) < 2 ^ 32 - 1" "?es \<noteq> []" "distinct (map fst ?es)" using cnc_keys_distinct by (simp_all add: command_entries_def)
  obtain mp where mp: "cbor_parser_init ?bs = Some (CborNoError, mp)" using announced_start [OF ok l(1-3)] by blast
  note f = announced_nth [OF ok l(1,2,4) _ _ _ mp]
  obtain v0 q0 where 0: "cbor_value_map_find_value ?bs mp (chars ''MSG_TYPE'') = Some (CborNoError, v0)"
      "item_at ?bs q0 (int_item (scast MESSAGE_TYPE_COMMAND_INPUT))" "parsed_at ?bs q0 v0"
    using f [of 0 "chars ''MSG_TYPE''"] cnc_keys by (auto simp: command_entries_def)
  obtain v1 q1 where 1: "cbor_value_map_find_value ?bs mp (chars ''ARG_COUNT'') = Some (CborNoError, v1)"
      "item_at ?bs q1 (int_item (scast n))" "parsed_at ?bs q1 v1"
    using f [of 1 "chars ''ARG_COUNT''"] cnc_keys by (auto simp: command_entries_def)
  obtain v2 q2 where 2: "cbor_value_map_find_value ?bs mp (chars ''COMMAND_NAME'') = Some (CborNoError, v2)"
      "item_at ?bs q2 (Text name)" "parsed_at ?bs q2 v2"
    using f [of 2 "chars ''COMMAND_NAME''"] cnc_keys by (auto simp: command_entries_def)
  obtain v3 q3 where 3: "cbor_value_map_find_value ?bs mp (chars ''ARGS'') = Some (CborNoError, v3)"
      "item_at ?bs q3 (Text arg)" "parsed_at ?bs q3 v3"
    using f [of 3 "chars ''ARGS''"] cnc_keys by (auto simp: command_entries_def)
  note i = get_int_item [OF 0(2,3)] get_int_item [OF 1(2,3)]
  note t = copy_text_item [OF 2(2,3), of CMD_MAX_STR_LEN "cc_cmd_name c"] copy_text_item [OF 3(2,3), of CMD_MAX_STR_LEN "hd (cc_args c)"]
  have "cnc_daemon_parse_buffer data len c = cnc_daemon_parse_command ?bs mp c"
    unfolding cnc_daemon_parse_buffer_def assms(3) Let_def by (simp add: mp 0(1) i(1))
  also have "\<dots> = Some (True, c\<lparr>cc_arg_count := n, cc_cmd_name := name @ [0] @ drop (length name + 1) (cc_cmd_name c),
      cc_args := (arg @ [0] @ drop (length arg + 1) (hd (cc_args c))) # tl (cc_args c)\<rparr>)"
    using t assms(1,2,4,5) by (simp add: cnc_daemon_parse_command_def 1(1) 2(1) 3(1) i(2))
  finally show ?thesis .
qed

lemma client_parses:
  assumes "code < 20" "length out < MTU" "0 \<notin> set out" "length stack = MTU"
  shows "cnc_client_parse_response stack (announced 4 (result_entries code time out)) =
    Some (True, [ReturnCode code, ExecutionTime time, Output out])"
proof -
  let ?es = "result_entries code time out"
  let ?bs = "announced 4 ?es"
  have ok: "entries_ok ?es" using assms(1,2) by (intro result_entries_ok) (simp_all add: cnc_lengths)
  have l: "length ?es \<le> 4" "2 * (4 :: nat) < 2 ^ 32 - 1" "?es \<noteq> []" "distinct (map fst ?es)" using cnc_keys_distinct by (simp_all add: result_entries_def)
  obtain mp where mp: "cbor_parser_init ?bs = Some (CborNoError, mp)" using announced_start [OF ok l(1-3)] by blast
  note f = announced_nth [OF ok l(1,2,4) _ _ _ mp]
  obtain v0 q0 where 0: "cbor_value_map_find_value ?bs mp (chars ''MSG_TYPE'') = Some (CborNoError, v0)"
      "item_at ?bs q0 (int_item (scast RESPONSE_TYPE_COMMAND_RESULT))" "parsed_at ?bs q0 v0"
    using f [of 0 "chars ''MSG_TYPE''"] cnc_keys by (auto simp: result_entries_def)
  obtain v1 q1 where 1: "cbor_value_map_find_value ?bs mp (chars ''RETURN_CODE'') = Some (CborNoError, v1)"
      "item_at ?bs q1 (Simple code)" "parsed_at ?bs q1 v1"
    using f [of 1 "chars ''RETURN_CODE''"] cnc_keys by (auto simp: result_entries_def)
  obtain v2 q2 where 2: "cbor_value_map_find_value ?bs mp (chars ''EXEC_TIME'') = Some (CborNoError, v2)"
      "item_at ?bs q2 (Double time)" "parsed_at ?bs q2 v2"
    using f [of 2 "chars ''EXEC_TIME''"] cnc_keys by (auto simp: result_entries_def)
  obtain v3 q3 where 3: "cbor_value_map_find_value ?bs mp (chars ''OUTPUT'') = Some (CborNoError, v3)"
      "item_at ?bs q3 (Text out)" "parsed_at ?bs q3 v3"
    using f [of 3 "chars ''OUTPUT''"] cnc_keys by (auto simp: result_entries_def)
  note i = get_int_item [OF 0(2,3)] get_simple_item [OF 1(2,3)] get_double_item [OF 2(2,3)]
  have t: "cbor_value_copy_text_string ?bs v3 stack MTU = Some (CborNoError, length out, out @ [0] @ drop (length out + 1) stack)"
    using copy_text_item [OF 3(2,3), of MTU stack] assms(2,4) by simp
  have s: "c_string (out @ [0] @ drop (length out + 1) stack) = Some out" using assms(3) by (simp add: c_string_def takeWhile_append)
  have "cnc_client_parse_response stack ?bs = cnc_client_parse_command_result stack ?bs mp"
    by (simp add: cnc_client_parse_response_def mp 0(1) i(1))
  also have "\<dots> = Some (True, [ReturnCode code, ExecutionTime time, Output out])"
    using t s by (simp add: cnc_client_parse_command_result_def 1(1) 2(1) 3(1) i(2,3))
  finally show ?thesis .
qed

text \<open>How long the messages are.\<close>

lemma small_text_length: "length s < 24 \<Longrightarrow> length (item_bytes (Text s)) = 1 + length s"
  by (simp add: number_bytes_def Value8Bit_def)

lemma text_length: "length s < 256 \<Longrightarrow> length (item_bytes (Text s)) \<le> 2 + length s"
  by (auto simp: number_bytes_split tail_of_def more_of_def)

lemma small_int_length: "n < 24 \<Longrightarrow> length (item_bytes (int_item (scast (n :: u32)))) = 1"
proof -
  assume n: "n < 24"
  then have "unat n < 24" by (simp add: word_less_nat_alt)
  moreover have "\<not> n <s 0"
  proof
    assume "n <s 0"
    then have "bit (unat n) 31" by (simp add: word_sless_alt sint_uint bit_uint_iff bit_unsigned_iff)
    then show False using \<open>unat n < 24\<close> by (simp add: bit_iff_odd)
  qed
  ultimately show ?thesis by (simp add: int_item_scast number_bytes_def Value8Bit_def)
qed

lemma command_entries_size:
  assumes "n < 24" "length name < CMD_MAX_STR_LEN" "length arg < CMD_MAX_STR_LEN"
  shows "map_size 5 (command_entries n name arg) = 42 + length name + length arg"
  using assms small_text_length [of name] small_text_length [of arg] small_int_length [OF assms(1)] small_int_length [of MESSAGE_TYPE_COMMAND_INPUT]
  by (simp add: map_size_def command_entries_def entry_bytes_def small_map chars_key cnc_lengths cnc_types del: item_bytes.simps)

lemma announced_length: "length (announced k es) = map_size k es"
  by (simp add: announced_def map_size_def)

lemma result_entries_size:
  assumes "code < 20" "length out \<le> 198"
  shows "map_size 4 (result_entries code time out) \<le> MTU"
proof -
  have "unat code < 20" using assms(1) by (simp add: word_less_nat_alt)
  then have "length (item_bytes (Simple code)) = 1" by (simp add: number_bytes_def Value8Bit_def)
  moreover have "length (item_bytes (Double time)) = 9" by simp
  ultimately show ?thesis
    using assms(2) text_length [of out] small_int_length [of RESPONSE_TYPE_COMMAND_RESULT]
    by (simp add: map_size_def result_entries_def entry_bytes_def small_map chars_key cnc_lengths cnc_types del: item_bytes.simps)
qed

section \<open>Texts in arrays\<close>

lemma append_holds:
  assumes "holds_string N s m" "0 \<notin> set t" "length s + length t < N"
  shows "\<exists>m'. snprintf_at (length s) (int N - int (length s)) t m = Some m' \<and> holds_string N (s @ t) m'"
proof -
  have m: "length m = N" "0 \<notin> set s" "take (length s) m = s" using assms(1) by (auto simp: holds_string_def)
  have "nat (int N - int (length s)) - 1 \<ge> length t" using assms(3) by linarith
  then have "take (nat (int N - int (length s)) - 1) t = t" by simp
  moreover have "mem_write (length s) (t @ [0]) m = Some (s @ (t @ [0]) @ drop (length s + length t + 1) m)"
    using assms(3) m by (simp add: mem_write_def)
  moreover have "int N - int (length s) > 0" using assms(3) by linarith
  ultimately have "snprintf_at (length s) (int N - int (length s)) t m = Some (s @ (t @ [0]) @ drop (length s + length t + 1) m)"
    using assms(3) m(1) by (simp add: snprintf_at_def)
  moreover have "holds_string N (s @ t) (s @ (t @ [0]) @ drop (length s + length t + 1) m)"
    using assms(2,3) m by (simp add: holds_string_def)
  ultimately show ?thesis by blast
qed

lemma holds_zeros: "0 < n \<Longrightarrow> holds_string n [] (replicate n 0)"
  by (cases n) (simp_all add: holds_string_def)

text \<open>The output of a command is collected as long as it fits.\<close>

lemma collects:
  assumes "holds_string RES_PACKET_STDOUT_LEN s out" "0 \<notin> set (concat ps)" "length s + length (concat ps) < RES_PACKET_STDOUT_LEN"
  shows "\<exists>out'. collect_output ps out (length s) = Some out' \<and> holds_string RES_PACKET_STDOUT_LEN (s @ concat ps) out'"
  using assms
proof (induction ps arbitrary: s out)
  case (Cons p ps)
  have "0 \<notin> set p" "length s + length p < RES_PACKET_STDOUT_LEN" using Cons.prems by simp_all
  from append_holds [OF Cons.prems(1) this] obtain out1 where 1: "snprintf_at (length s) (int RES_PACKET_STDOUT_LEN - int (length s)) p out = Some out1"
      "holds_string RES_PACKET_STDOUT_LEN (s @ p) out1" by blast
  have "0 \<notin> set (concat ps)" "length (s @ p) + length (concat ps) < RES_PACKET_STDOUT_LEN" using Cons.prems(2,3) by simp_all
  from Cons.IH [OF 1(2) this] show ?case using 1(1) by simp
qed simp

section \<open>A command is run\<close>

definition exe_path_of :: "u8 list \<Rightarrow> u8 list" where
  "exe_path_of name = MODULE_REGISTRY_DIR @ name"

lemma assembles:
  assumes "0x25 \<notin> set path" "0x25 \<notin> set arg" "0 \<notin> set path" "0 \<notin> set arg" "length path + 1 + length arg < COMMAND_STR_LEN"
    and "cc_arg_count (cw_command w) = 1" "cc_args (cw_command w) = a # as" "c_string a = Some arg"
  shows "\<exists>str. assemble_cmd_string env (replicate COMMAND_STR_LEN 0) path w = Some (oe_no_return env, str) \<and>
    c_string str = Some (path @ [0x20] @ arg)"
proof -
  have z: "holds_string COMMAND_STR_LEN [] (replicate COMMAND_STR_LEN 0)" by (rule holds_zeros) (simp add: cnc_lengths)
  obtain m1 where 1: "snprintf_at 0 (int COMMAND_STR_LEN) path (replicate COMMAND_STR_LEN 0) = Some m1" "holds_string COMMAND_STR_LEN path m1"
    using append_holds [OF z assms(3)] assms(5) by auto
  obtain m2 where 2: "snprintf_at (length path) (int COMMAND_STR_LEN - int (length path)) [0x20] m1 = Some m2"
      "holds_string COMMAND_STR_LEN (path @ [0x20]) m2"
    using append_holds [OF 1(2), of "[0x20]"] assms(5) by auto
  obtain m3 where 3: "snprintf_at (length path + 1) (int COMMAND_STR_LEN - int (length path + 1)) arg m2 = Some m3"
      "holds_string COMMAND_STR_LEN (path @ [0x20] @ arg) m3"
    using append_holds [OF 2(2) assms(4)] assms(5) by auto
  have "assemble_cmd_string env (replicate COMMAND_STR_LEN 0) path w = Some (oe_no_return env, m3)"
    using assms(1,2,6-8) 1(1) 2(1) 3(1) by (simp add: assemble_cmd_string_def append_str_def)
  then show ?thesis using holds_c_string [OF 3(2)] by blast
qed

lemma exe_path_found:
  assumes "0 \<notin> set name" "length name < CMD_MAX_STR_LEN"
  shows "\<exists>path. snprintf_at 0 (int (length MODULE_REGISTRY_DIR + 2 + length name - 1)) (MODULE_REGISTRY_DIR @ name) (replicate SO_PATH_LENGTH 0) = Some path \<and>
    c_string path = Some (exe_path_of name)"
proof -
  have d: "length MODULE_REGISTRY_DIR = 6" "0 \<notin> set MODULE_REGISTRY_DIR" by (simp_all add: MODULE_REGISTRY_DIR_def chars_def)
  have n: "take (nat (int (length MODULE_REGISTRY_DIR + 2 + length name - 1)) - 1) (MODULE_REGISTRY_DIR @ name) = MODULE_REGISTRY_DIR @ name" using d(1) by simp
  have "mem_write 0 ((MODULE_REGISTRY_DIR @ name) @ [0]) (replicate SO_PATH_LENGTH 0) =
      Some ((MODULE_REGISTRY_DIR @ name) @ [0] @ drop (7 + length name) (replicate SO_PATH_LENGTH 0))"
    using d(1) assms(2) by (simp add: mem_write_def cnc_lengths)
  moreover have "c_string ((MODULE_REGISTRY_DIR @ name) @ [0] @ r) = Some (exe_path_of name)" for r
    using d(2) assms(1) by (simp add: c_string_def exe_path_of_def takeWhile_append)
  ultimately show ?thesis using n d(1) by (simp add: snprintf_at_def)
qed

lemma runs:
  assumes "c_string (cc_cmd_name c) = Some name" "0 \<notin> set name" "length name < CMD_MAX_STR_LEN" "0x25 \<notin> set name"
    and "cc_arg_count c = 1" "cc_args c = a # as" "c_string a = Some arg" "0 \<notin> set arg" "length arg < CMD_MAX_STR_LEN" "0x25 \<notin> set arg"
    and "oe_exists env (exe_path_of name)" "oe_no_return env" "oe_run env (exe_path_of name @ [0x20] @ arg) = Some (pieces, status)"
    and "0 \<notin> set (concat pieces)" "length (concat pieces) \<le> 198" "(of_int status :: u8) < 20"
  shows "cnc_daemon_load_and_run_command env (zero_vars\<lparr>cw_command := c\<rparr>) =
    Some (True, [announced 4 (result_entries (of_int status) (oe_time env) (concat pieces))], [exe_path_of name @ [0x20] @ arg])"
proof -
  let ?w = "zero_vars\<lparr>cw_command := c\<rparr>"
  obtain path where p: "snprintf_at 0 (int (length MODULE_REGISTRY_DIR + 2 + length name - 1)) (MODULE_REGISTRY_DIR @ name) (replicate SO_PATH_LENGTH 0) = Some path"
      "c_string path = Some (exe_path_of name)" using exe_path_found [OF assms(2,3)] by blast
  have d: "length MODULE_REGISTRY_DIR = 6" "0 \<notin> set MODULE_REGISTRY_DIR" "0x25 \<notin> set MODULE_REGISTRY_DIR"
    by (simp_all add: MODULE_REGISTRY_DIR_def chars_def)
  have l: "\<not> COMMAND_STR_LEN < length MODULE_REGISTRY_DIR + 2 + length name - 1" using d(1) assms(3) by (simp add: cnc_lengths)
  have e: "0x25 \<notin> set (exe_path_of name)" "0 \<notin> set (exe_path_of name)" "length (exe_path_of name) + 1 + length arg < COMMAND_STR_LEN"
    using d assms(2,3,4,9) by (simp_all add: exe_path_of_def cnc_lengths)
  have w: "cc_arg_count (cw_command ?w) = 1" "cc_args (cw_command ?w) = a # as" using assms(5,6) by simp_all
  obtain str where s: "assemble_cmd_string env (replicate COMMAND_STR_LEN 0) (exe_path_of name) ?w = Some (oe_no_return env, str)"
      "c_string str = Some (exe_path_of name @ [0x20] @ arg)" using assembles [OF e(1) assms(10) e(2) assms(8) e(3) w assms(7)] by blast
  have "holds_string RES_PACKET_STDOUT_LEN [] (cr_output (cw_response ?w))" using holds_zeros [of RES_PACKET_STDOUT_LEN] by (simp add: zero_vars_def cnc_lengths)
  from collects [OF this assms(14)] assms(15) obtain out where o: "collect_output pieces (cr_output (cw_response ?w)) 0 = Some out"
      "holds_string RES_PACKET_STDOUT_LEN (concat pieces) out" by (auto simp: cnc_lengths)
  let ?r = "?w\<lparr>cw_response := \<lparr>cr_return_code = of_int status, cr_execution_time = oe_time env, cr_output = out\<rparr>\<rparr>"
  have size: "map_size 4 (result_entries (of_int status) (oe_time env) (concat pieces)) \<le> MTU"
    using assms(15,16) by (simp add: result_entries_size)
  have "cnc_daemon_send_result ?r = Some [announced 4 (result_entries (of_int status) (oe_time env) (concat pieces))]"
    using daemon_encodes [of ?r "concat pieces"] holds_c_string [OF o(2)] assms(16) size by (simp add: zero_vars_def)
  then show ?thesis
    using assms(1,11-13) l p s o(1) by (simp add: cnc_daemon_load_and_run_command_def)
qed

section \<open>From the command to the answer\<close>

lemma command_reaches_daemon:
  assumes "holds_string CMD_MAX_STR_LEN name (cc_cmd_name packet)" "holds_string CMD_MAX_STR_LEN arg (hd (cc_args packet))"
    and "cc_arg_count packet < 24" "length data = MTU"
  shows "\<exists>data'. cnc_client_encode_packet data packet = Some (Some (42 + length name + length arg), data') \<and>
    take (42 + length name + length arg) data' = announced 5 (command_entries (cc_arg_count packet) name arg)"
proof -
  have l: "length name < CMD_MAX_STR_LEN" "length arg < CMD_MAX_STR_LEN" using assms(1,2) by (simp_all add: holds_string_def)
  note size = command_entries_size [OF assms(3) l]
  have "map_size 5 (command_entries (cc_arg_count packet) name arg) \<le> MTU" using size l by (simp add: cnc_lengths)
  from client_encodes [OF holds_c_string [OF assms(1)] holds_c_string [OF assms(2)] assms(4) this] show ?thesis
    by (simp add: announced_length size)
qed

lemma daemon_gets:
  assumes "length (cd_data d) = CMD_STR_LEN" "length bs \<le> CMD_STR_LEN"
  shows "cnc_daemon_get_buffer (Some bs) d = Some \<lparr>cd_data = bs @ drop (length bs) (cd_data d), cd_length = length bs\<rparr>"
  using assms by (simp add: cnc_daemon_get_buffer_def cnc_daemon_parse_buffer_from_packet_def mem_write_def)

lemma daemon_answers:
  assumes "length (cd_data d) = CMD_STR_LEN" "length name + length arg \<le> 33"
    and "0 \<notin> set name" "length name < CMD_MAX_STR_LEN" "0x25 \<notin> set name" "0 \<notin> set arg" "length arg < CMD_MAX_STR_LEN" "0x25 \<notin> set arg"
    and "oe_exists env (exe_path_of name)" "oe_no_return env" "oe_run env (exe_path_of name @ [0x20] @ arg) = Some (pieces, status)"
    and "0 \<notin> set (concat pieces)" "length (concat pieces) \<le> 198" "(of_int status :: u8) < 20"
  shows "\<exists>d'. cnc_daemon_turn env (Some (announced 5 (command_entries 1 name arg))) d =
    Some ([announced 4 (result_entries (of_int status) (oe_time env) (concat pieces))], [exe_path_of name @ [0x20] @ arg], d')"
proof -
  let ?bs = "announced 5 (command_entries 1 name arg)"
  have n: "length ?bs \<le> CMD_STR_LEN" using command_entries_size [of 1 name arg] assms(2,4,7) by (simp add: announced_length cnc_lengths)
  note g = daemon_gets [OF assms(1) n]
  let ?c = "cw_command zero_vars"
  have z: "cc_cmd_name ?c = replicate CMD_MAX_STR_LEN 0" "hd (cc_args ?c) = replicate CMD_MAX_STR_LEN 0"
    by (simp_all add: zero_vars_def zero_command_def cnc_lengths numeral_eq_Suc)
  have p: "cnc_daemon_parse_buffer (?bs @ drop (length ?bs) (cd_data d)) (length ?bs) ?c =
      Some (True, ?c\<lparr>cc_arg_count := 1, cc_cmd_name := name @ [0] @ drop (length name + 1) (cc_cmd_name ?c),
        cc_args := (arg @ [0] @ drop (length arg + 1) (hd (cc_args ?c))) # tl (cc_args ?c)\<rparr>)"
    by (rule daemon_parses [OF assms(4,7)]) (simp_all add: z)
  let ?c' = "?c\<lparr>cc_arg_count := 1, cc_cmd_name := name @ [0] @ drop (length name + 1) (cc_cmd_name ?c),
        cc_args := (arg @ [0] @ drop (length arg + 1) (hd (cc_args ?c))) # tl (cc_args ?c)\<rparr>"
  have s: "c_string (cc_cmd_name ?c') = Some name" "c_string (arg @ [0] @ drop (length arg + 1) (hd (cc_args ?c))) = Some arg"
    using assms(3,6) by (simp_all add: c_string_def takeWhile_append)
  have "cnc_daemon_load_and_run_command env (zero_vars\<lparr>cw_command := ?c'\<rparr>) =
      Some (True, [announced 4 (result_entries (of_int status) (oe_time env) (concat pieces))], [exe_path_of name @ [0x20] @ arg])"
    by (rule runs [OF s(1) assms(3-5) _ _ s(2) assms(6-14)]) simp_all
  then show ?thesis using g p by (simp add: cnc_daemon_turn_def)
qed



text \<open>C38. A connection without a packet runs the last command again: \<open>cnc_daemon_get_buffer\<close> returns \<open>true\<close> although
  nothing was read, and the buffer still has the last message.  What was run and sent for the message is run
  and sent once more, by any client that connects and closes, as often as it does.\<close>

theorem cnc_last_command_runs_again:
  assumes "cnc_daemon_turn env packet d = Some (sent, run, d')"
  shows "cnc_daemon_turn env None d' = Some (sent, run, d')"
proof -
  obtain d1 where d1: "cnc_daemon_get_buffer packet d = Some d1" using assms by (auto simp: cnc_daemon_turn_def bind_eq_Some_conv)
  have "d' = d1" using assms d1 by (auto simp: cnc_daemon_turn_def bind_eq_Some_conv split: if_splits)
  then show ?thesis using assms d1 by (simp add: cnc_daemon_turn_def cnc_daemon_get_buffer_def)
qed

text \<open>C39. The output of a command stays in its array exactly when all pieces but the last have together at most 266
  bytes: the room is computed from the lengths of the pieces, also of those that did not fit, and past the end it
  becomes negative, which the next call takes for a very large size.\<close>

theorem cnc_output_stays_in_array:
  "collect_output pieces (replicate RES_PACKET_STDOUT_LEN 0) 0 \<noteq> None \<longleftrightarrow> sum_list (map length (butlast pieces)) \<le> RES_PACKET_STDOUT_LEN"
proof -
  have "collect_output ps out sz \<noteq> None \<longleftrightarrow> sz + sum_list (map length (butlast ps)) \<le> RES_PACKET_STDOUT_LEN \<or> ps = []"
    if "length out = RES_PACKET_STDOUT_LEN" for ps out sz
    using that
  proof (induction ps arbitrary: out sz)
    case (Cons p ps)
    show ?case
    proof (cases "sz \<le> RES_PACKET_STDOUT_LEN")
      case True
      let ?n = "int RES_PACKET_STDOUT_LEN - int sz"
      have "\<exists>out'. snprintf_at sz ?n p out = Some out' \<and> length out' = RES_PACKET_STDOUT_LEN"
      proof (cases "sz = RES_PACKET_STDOUT_LEN")
        case False
        then have "sz + length (take (nat ?n - 1) p @ [0]) \<le> RES_PACKET_STDOUT_LEN" "?n > 0" using True by auto
        then show ?thesis using Cons.prems True by (auto simp: snprintf_at_def mem_write_def)
      qed (use Cons.prems in \<open>simp add: snprintf_at_def\<close>)
      then obtain out' where o: "snprintf_at sz ?n p out = Some out'" "length out' = RES_PACKET_STDOUT_LEN" by blast
      show ?thesis using Cons.IH [OF o(2), of "sz + length p"] o(1) True by auto
    qed (use Cons.prems in \<open>simp add: snprintf_at_def\<close>)
  qed simp
  from this [of "replicate RES_PACKET_STDOUT_LEN 0" pieces 0] show ?thesis by (cases "pieces = []") simp_all
qed

text \<open>The exit code of a command is lost: the status that \<open>pclose\<close> returns is cut to 8 bits, and the exit code is
  in the next 8.  The daemon does the same, and answers the same, whatever these are, so the client prints the
  return code 0 for every command that ends by itself.\<close>

theorem cnc_exit_code_is_lost:
  "cnc_daemon_load_and_run_command (env\<lparr>oe_run := (\<lambda>line. map_option (\<lambda>(pieces, status). (pieces, status mod 256)) (oe_run env line))\<rparr>) w =
   cnc_daemon_load_and_run_command env w"
proof -
  let ?env = "env\<lparr>oe_run := (\<lambda>line. map_option (\<lambda>(pieces, status). (pieces, status mod 256)) (oe_run env line))\<rparr>"
  have c: "(of_int (status mod 256) :: u8) = of_int status" for status
    by (simp add: word_of_int_eq_iff take_bit_eq_mod)
  have a: "assemble_cmd_string ?env cmd path w = assemble_cmd_string env cmd path w" for cmd path w by (simp add: assemble_cmd_string_def)
  show ?thesis unfolding cnc_daemon_load_and_run_command_def a by (simp add: comp_def case_prod_unfold c cong: if_cong option.case_cong)
qed

text \<open>A command that is not installed is reported to the client.\<close>

lemma error_encodes:
  assumes "c_string (cw_output w) = Some msg" "cw_err w" "map_size 4 (error_entries msg) \<le> MTU"
  shows "cnc_daemon_send_result w = Some [announced 4 (error_entries msg)]"
proof -
  have fits: "map_size 4 (take i (error_entries msg)) \<le> MTU" for i using map_size_prefix [of 4 i "error_entries msg"] assms(3) by linarith
  note e = error_entries_def [of msg]
  note f1 = fits [of 1] and f2 = fits [of 2]
  have "\<exists>m'. cnc_daemon_start_encode_response RESPONSE_TYPE_PROCESSING_ERROR w = Some (Some (length (announced 4 (error_entries msg))), m') \<and>
      take (length (announced 4 (error_entries msg))) m' = announced 4 (error_entries msg)"
    unfolding cnc_daemon_start_encode_response_def cnc_daemon_encode_processing_error_def
    apply (rule started)
       apply (use f1 in \<open>simp add: e\<close>)
      apply simp
     apply simp
    apply (simp only: cnc_types, simp)
    apply (rule failed_key_string [OF _ assms(1)], assumption, use f2 in \<open>simp add: e cnc_types\<close>)
    apply (rule finish_step)
    by (simp add: e cnc_types)
  then show ?thesis using assms(2) by (auto simp: cnc_daemon_send_result_def)
qed

lemma client_parses_error:
  assumes "length msg < MTU" "0 \<notin> set msg"
  shows "cnc_client_parse_response stack (announced 4 (error_entries msg)) = Some (True, [ErrorMessage msg])"
proof -
  let ?es = "error_entries msg"
  let ?bs = "announced 4 ?es"
  have ok: "entries_ok ?es" using assms(1) by (simp add: entries_ok_def error_entries_def entry_ok_def int_item_ok chars_def cnc_lengths)
  have l: "length ?es \<le> 4" "2 * (4 :: nat) < 2 ^ 32 - 1" "?es \<noteq> []" "distinct (map fst ?es)" by (simp_all add: error_entries_def chars_def)
  obtain mp where mp: "cbor_parser_init ?bs = Some (CborNoError, mp)" using announced_start [OF ok l(1-3)] by blast
  note f = announced_nth [OF ok l(1,2,4) _ _ _ mp]
  have k: "0 \<notin> set (chars ''ERROR_MSG'')" by (simp add: chars_def)
  obtain v0 q0 where 0: "cbor_value_map_find_value ?bs mp (chars ''MSG_TYPE'') = Some (CborNoError, v0)"
      "item_at ?bs q0 (int_item (scast RESPONSE_TYPE_PROCESSING_ERROR))" "parsed_at ?bs q0 v0"
    using f [of 0 "chars ''MSG_TYPE''"] cnc_keys by (auto simp: error_entries_def)
  obtain v1 q1 where 1: "cbor_value_map_find_value ?bs mp (chars ''ERROR_MSG'') = Some (CborNoError, v1)"
      "item_at ?bs q1 (Text msg)" "parsed_at ?bs q1 v1"
    using f [of 1 "chars ''ERROR_MSG''"] k by (auto simp: error_entries_def)
  have t: "cbor_value_copy_text_string ?bs v1 (replicate MTU 0) MTU = Some (CborNoError, length msg, msg @ [0] @ drop (length msg + 1) (replicate MTU 0))"
    using copy_text_item [OF 1(2,3), of MTU "replicate MTU 0"] assms(1) by simp
  have "c_string (msg @ [0] @ r) = Some msg" for r using assms(2) by (simp add: c_string_def takeWhile_append)
  then show ?thesis using t
    by (simp add: cnc_client_parse_response_def cnc_client_parse_processing_error_def mp 0(1) get_int_item [OF 0(2,3)] 1(1) cnc_types)
qed

definition missing_text :: "u8 list \<Rightarrow> u8 list" where
  "missing_text name = chars ''The command binary '' @ exe_path_of name @ chars '', does not exist'' @ [10]"

theorem cnc_missing_command_is_reported:
  assumes "c_string (cc_cmd_name c) = Some name" "length name < CMD_MAX_STR_LEN" "\<not> oe_exists env (exe_path_of name)"
  shows "\<exists>answer. cnc_daemon_load_and_run_command env (zero_vars\<lparr>cw_command := c\<rparr>) = Some (False, [answer], []) \<and>
    cnc_client_parse_response stack answer = Some (True, [ErrorMessage (missing_text name)])"
proof -
  let ?w = "zero_vars\<lparr>cw_command := c\<rparr>" and ?t = "missing_text name"
  have n: "0 \<notin> set name" using assms(1) by (auto simp: c_string_def dest: set_takeWhileD split: if_splits)
  obtain path where p: "snprintf_at 0 (int (length MODULE_REGISTRY_DIR + 2 + length name - 1)) (MODULE_REGISTRY_DIR @ name) (replicate SO_PATH_LENGTH 0) = Some path"
      "c_string path = Some (exe_path_of name)" using exe_path_found [OF n assms(2)] by blast
  have l: "length MODULE_REGISTRY_DIR = 6" by (simp add: MODULE_REGISTRY_DIR_def chars_def)
  have t: "0 \<notin> set ?t" "length ?t \<le> 62" using n assms(2) l
    by (auto simp: missing_text_def exe_path_of_def chars_def MODULE_REGISTRY_DIR_def cnc_lengths)
  have "holds_string RES_PACKET_STDOUT_LEN [] (cw_output ?w)" using holds_zeros [of RES_PACKET_STDOUT_LEN] by (simp add: zero_vars_def cnc_lengths)
  from append_holds [OF this t(1)] t(2) obtain m where m: "snprintf_at 0 (int RES_PACKET_STDOUT_LEN) ?t (cw_output ?w) = Some m"
      "holds_string RES_PACKET_STDOUT_LEN ?t m" by (auto simp: cnc_lengths)
  have size: "map_size 4 (error_entries ?t) \<le> MTU"
    using t(2) text_length [of ?t] small_int_length [of RESPONSE_TYPE_PROCESSING_ERROR]
    by (simp add: map_size_def error_entries_def entry_bytes_def small_map chars_key cnc_lengths cnc_types del: item_bytes.simps)
  have s: "cnc_daemon_send_result (?w\<lparr>cw_err := True, cw_output := m\<rparr>) = Some [announced 4 (error_entries ?t)]"
    using error_encodes [of "?w\<lparr>cw_err := True, cw_output := m\<rparr>" ?t] holds_c_string [OF m(2)] size by simp
  have e: "set_error ?t ?w = Some (?w\<lparr>cw_err := True, cw_output := m\<rparr>)" using m(1) by (simp add: set_error_def)
  have "\<not> COMMAND_STR_LEN < length MODULE_REGISTRY_DIR + 2 + length name - 1" using l assms(2) by (simp add: cnc_lengths)
  then have "cnc_daemon_load_and_run_command env ?w = Some (False, [announced 4 (error_entries ?t)], [])"
    using assms(1,3) p s e by (simp add: cnc_daemon_load_and_run_command_def missing_text_def)
  moreover have "length ?t < MTU" using t(2) by (simp add: cnc_lengths)
  from client_parses_error [OF this t(1)] have "cnc_client_parse_response stack (announced 4 (error_entries ?t)) = Some (True, [ErrorMessage ?t])" .
  ultimately show ?thesis by blast
qed

definition demo_cnc_packet :: cnc_command where
  "demo_cnc_packet = \<lparr>cc_arg_count = 1, cc_cmd_name = chars ''obc'' @ 0 # replicate 16 0, cc_args = [chars ''uptime'' @ 0 # replicate 13 0]\<rparr>"

definition demo_cnc_env :: cnc_env where
  "demo_cnc_env = \<lparr>oe_exists = (\<lambda>_. True), oe_run = (\<lambda>_. Some ([chars ''up 3 days'', [10]], 256)), oe_time = 0x3FF0000000000000, oe_no_return = True\<rparr>"

definition demo_cnc_daemon :: cnc_daemon where
  "demo_cnc_daemon = \<lparr>cd_data = replicate CMD_STR_LEN 0, cd_length = 0\<rparr>"

lemma demo_strings:
  "holds_string CMD_MAX_STR_LEN (chars ''obc'') (cc_cmd_name demo_cnc_packet)"
  "holds_string CMD_MAX_STR_LEN (chars ''uptime'') (hd (cc_args demo_cnc_packet))"
  by (simp_all add: holds_string_def demo_cnc_packet_def chars_def cnc_lengths)



lemma demo_turn: "case cnc_daemon_turn demo_cnc_env (Some (announced 5 (command_entries 1 (chars ''obc'') (chars ''uptime'')))) demo_cnc_daemon of
    None \<Rightarrow> False | Some (sent, run, d) \<Rightarrow> length sent = 1 \<and> run = [exe_path_of (chars ''obc'') @ [0x20] @ chars ''uptime'']"
proof -
  have "\<exists>d'. cnc_daemon_turn demo_cnc_env (Some (announced 5 (command_entries 1 (chars ''obc'') (chars ''uptime'')))) demo_cnc_daemon =
      Some ([announced 4 (result_entries (of_int 256) (oe_time demo_cnc_env) (concat [chars ''up 3 days'', [10]]))],
        [exe_path_of (chars ''obc'') @ [0x20] @ chars ''uptime''], d')"
    by (rule daemon_answers) (simp_all add: demo_cnc_env_def demo_cnc_daemon_def chars_def cnc_lengths)
  then show ?thesis by auto
qed

lemma cnc_last_command_runs_again_witness:
  "\<exists>d sent. length sent = 1 \<and> cnc_daemon_turn demo_cnc_env None d = Some (sent, [exe_path_of (chars ''obc'') @ [0x20] @ chars ''uptime''], d)"
proof -
  obtain sent d where t: "cnc_daemon_turn demo_cnc_env (Some (announced 5 (command_entries 1 (chars ''obc'') (chars ''uptime'')))) demo_cnc_daemon =
      Some (sent, [exe_path_of (chars ''obc'') @ [0x20] @ chars ''uptime''], d)" "length sent = 1"
    using demo_turn by (auto split: option.splits)
  from cnc_last_command_runs_again [OF t(1)] t(2) show ?thesis by blast
qed

end
